(* ===== verification/Gaspi_Prelude.thy ===== *)
theory Gaspi_Prelude
  imports Main "HOL-Library.Word"
begin

text \<open>
  Shared vocabulary of the development: the machine integers of the C++ code, its exceptions
  as values, and generic lemmas on lists, words and results that several components use.
\<close>

section \<open>Machine integers\<close>

text \<open>
  \<open>std::size_t\<close>, \<open>gaspi_offset_t\<close>, \<open>gaspi_size_t\<close> and pointers converted to integers are
  64-bit words; \<open>unsigned short\<close> (ranks) are 16-bit words; \<open>char\<close> buffers are lists of
  8-bit words.
\<close>

type_synonym u8 = "8 word"
type_synonym u16 = "16 word"
type_synonym u32 = "32 word"
type_synonym u64 = "64 word"

section \<open>Exceptions as values\<close>

text \<open>
  A C++ exception is the left value of a sum. \<open>std::runtime_error\<close> and \<open>std::logic_error\<close>
  carry the message literal of the throw site (without the generated code origin).
\<close>

datatype exn =
    RuntimeError string
  | LogicError string
  | BadAlloc

type_synonym 'a res = "exn + 'a"

definition rbind :: "'a res \<Rightarrow> ('a \<Rightarrow> 'b res) \<Rightarrow> 'b res" where
  "rbind m f = (case m of Inl e \<Rightarrow> Inl e | Inr a \<Rightarrow> f a)"

lemma rbind_Inl [simp]: "rbind (Inl e) f = Inl e"
  by (simp add: rbind_def)

lemma rbind_Inr [simp]: "rbind (Inr a) f = f a"
  by (simp add: rbind_def)

lemma rbind_eq_Inr [simp]: "rbind m f = Inr b \<longleftrightarrow> (\<exists>a. m = Inr a \<and> f a = Inr b)"
  by (cases m) auto

lemma rbind_eq_Inl: "rbind m f = Inl e \<longleftrightarrow> m = Inl e \<or> (\<exists>a. m = Inr a \<and> f a = Inl e)"
  by (cases m) auto

section \<open>Collections of hints\<close>

text \<open>
  \<open>word_nat\<close>: facts that read a word operation as an operation on naturals.
  \<open>cnet\<close>: the effect of a channel operation on each field of the network.
\<close>

named_theorems word_nat
named_theorems cnet

section \<open>Words as naturals\<close>

lemma unat_add_no_wrap [word_nat]:
  "unat (a :: u64) + unat b < 2 ^ 64 \<Longrightarrow> unat (a + b) = unat a + unat b"
  by (simp add: unat_word_ariths)

lemma unat_sub_no_wrap [word_nat]:
  "(b :: u64) \<le> a \<Longrightarrow> unat (a - b) = unat a - unat b"
  by (simp add: unat_sub)

lemma unat_of_nat64 [word_nat]: "n < 2 ^ 64 \<Longrightarrow> unat (of_nat n :: u64) = n"
  by (simp add: unat_of_nat)

lemma unat_of_nat16 [word_nat]: "n < 2 ^ 16 \<Longrightarrow> unat (of_nat n :: u16) = n"
  by (simp add: unat_of_nat)

lemma unat_lt_2p64 [simp]: "unat (a :: u64) < 2 ^ 64"
  using unsigned_less [of a] by simp

lemma unat_lt_2p64_numeral [simp]: "unat (a :: u64) < 18446744073709551616"
  using unat_lt_2p64 [of a] by simp

lemma unat_le_2p64_numeral [simp]: "unat (a :: u64) \<le> 18446744073709551616"
  using unat_lt_2p64_numeral [of a] by (rule less_imp_le)

lemma unat_lt_2p16 [simp]: "unat (a :: u16) < 2 ^ 16"
  using unsigned_less [of a] by simp

lemma unat_lt_2p16_numeral [simp]: "unat (a :: u16) < 65536"
  using unat_lt_2p16 [of a] by simp

section \<open>Modular arithmetic on ring positions\<close>

lemma mod_add_self_cancel: "0 < (p::nat) \<Longrightarrow> a < p \<Longrightarrow> (a + p) mod p = a"
  by simp

lemma mod_dec_eq: "0 < (p::nat) \<Longrightarrow> i < p \<Longrightarrow> (i + p - 1) mod p = (if i = 0 then p - 1 else i - 1)"
proof -
  assume a: "0 < p" "i < p"
  show ?thesis
  proof (cases "i = 0")
    case True
    with a show ?thesis by simp
  next
    case False
    with a have "i + p - 1 = (i - 1) + p" by simp
    then have "(i + p - 1) mod p = ((i - 1) + p) mod p" by (rule arg_cong)
    also have "\<dots> = i - 1" using a by simp
    finally show ?thesis using False by simp
  qed
qed

lemma mod_inc_eq: "0 < (p::nat) \<Longrightarrow> i < p \<Longrightarrow> (i + 1) mod p = (if i = p - 1 then 0 else i + 1)"
  by auto

end
