(* ===== verification/Block_List.thy ===== *)
theory Block_List
  imports Gaspi_Prelude
begin

text \<open>
  The block list that \<open>segment/MemoryManager.cpp\<close> and \<open>segment/NotificationManager.cpp\<close>
  both keep (\<open>_blocks\<close>), and the two loops over it: first fit allocation with splitting and
  release with merging of the free neighbours.  The well-formedness invariant says that the
  blocks tile the managed range without gaps, that no two neighbours are free, and that no
  block is empty.
\<close>

section \<open>State\<close>

record mblock =
  g_start :: u64
  bsize :: u64
  bfree :: bool

section \<open>The allocation loop\<close>

text \<open>
  One pass over the list.  The first free block that is large enough is split (the new block
  is inserted before it) or taken as a whole; \<open>None\<close> is the end of the loop.
\<close>

fun first_fit :: "u64 \<Rightarrow> mblock list \<Rightarrow> (u64 \<times> mblock list) option" where
  "first_fit sz [] = None"
| "first_fit sz (it # bs) =
     (if bfree it \<and> sz \<le> bsize it then
        (if sz < bsize it then
           Some (g_start it,
                 \<lparr>g_start = g_start it, bsize = sz, bfree = False\<rparr>
                 # it\<lparr>g_start := g_start it + sz, bsize := bsize it - sz\<rparr> # bs)
         else Some (g_start it, it\<lparr>bfree := False\<rparr> # bs))
      else map_option (\<lambda>(p, bs'). (p, it # bs')) (first_fit sz bs))"

fun any_fits :: "u64 \<Rightarrow> mblock list \<Rightarrow> bool" where
  "any_fits sz [] = False"
| "any_fits sz (block # bs) = (bfree block \<and> sz \<le> bsize block \<or> any_fits sz bs)"

section \<open>The release step\<close>

text \<open>
  \<open>it\<close> is the block found; \<open>pre\<close> holds the blocks before it, nearest first, and \<open>rest\<close> the
  blocks after it.  The next block is merged first, then the previous one, then the result
  is marked free.
\<close>

fun merge_next :: "mblock \<Rightarrow> mblock list \<Rightarrow> mblock \<times> mblock list" where
  "merge_next it [] = (it, [])"
| "merge_next it (nxt # rest) =
     (if bfree nxt then (it\<lparr>bsize := bsize it + bsize nxt\<rparr>, rest) else (it, nxt # rest))"

fun merge_prev :: "mblock \<Rightarrow> mblock list \<Rightarrow> mblock \<times> mblock list" where
  "merge_prev it [] = (it, [])"
| "merge_prev it (prv # pre) =
     (if bfree prv then (it\<lparr>g_start := g_start prv, bsize := bsize it + bsize prv\<rparr>, pre)
      else (it, prv # pre))"

definition release_block :: "mblock list \<Rightarrow> mblock \<Rightarrow> mblock list \<Rightarrow> mblock list" where
  "release_block pre it rest =
     (case merge_next it rest of (it1, rest1) \<Rightarrow>
      case merge_prev it1 pre of (it2, pre1) \<Rightarrow>
        rev pre1 @ it2\<lparr>bfree := True\<rparr> # rest1)"

section \<open>Invariant and abstraction\<close>

text \<open>
  \<open>tiled a bs e\<close>: the blocks are non-empty and cover the addresses from \<open>a\<close> to \<open>e\<close> in order.
\<close>

fun tiled :: "nat \<Rightarrow> mblock list \<Rightarrow> nat \<Rightarrow> bool" where
  "tiled a [] e = (a = e)"
| "tiled a (b # bs) e =
     (unat (g_start b) = a \<and> 0 < unat (bsize b) \<and> tiled (a + unat (bsize b)) bs e)"

fun coalesced :: "mblock list \<Rightarrow> bool" where
  "coalesced (b # c # bs) = (\<not> (bfree b \<and> bfree c) \<and> coalesced (c # bs))"
| "coalesced _ = True"

definition blocks_inv :: "nat \<Rightarrow> nat \<Rightarrow> mblock list \<Rightarrow> bool" where
  "blocks_inv a e bs \<longleftrightarrow>
     a < e \<and> e \<le> 2 ^ 64 \<and> e < a + 2 ^ 64 \<and> tiled a bs e \<and> coalesced bs"

text \<open>The live allocations: start and size of every block that is not free.\<close>

definition live :: "mblock list \<Rightarrow> (u64 \<times> u64) set" where
  "live bs = {(g_start b, bsize b) | b. b \<in> set bs \<and> \<not> bfree b}"

text \<open>The addresses of a region.\<close>

definition region :: "u64 \<Rightarrow> u64 \<Rightarrow> nat set" where
  "region p n = {unat p ..< unat p + unat n}"


section \<open>Tilings\<close>

lemma tiled_append: "tiled a (xs @ ys) e \<longleftrightarrow> (\<exists>m. tiled a xs m \<and> tiled m ys e)"
  by (induction xs arbitrary: a) auto

lemma tiled_le: "tiled a bs e \<Longrightarrow> a \<le> e"
  by (induction bs arbitrary: a) fastforce+

lemma tiled_lt: "tiled a bs e \<Longrightarrow> bs \<noteq> [] \<Longrightarrow> a < e"
  by (cases bs) (auto dest!: tiled_le)

lemma tiled_bounds:
  "tiled a bs e \<Longrightarrow> b \<in> set bs \<Longrightarrow>
     a \<le> unat (g_start b) \<and> unat (g_start b) + unat (bsize b) \<le> e \<and> 0 < unat (bsize b)"
proof (induction bs arbitrary: a)
  case Nil
  then show ?case by simp
next
  case (Cons c bs)
  from Cons.prems(1) have t: "tiled (a + unat (bsize c)) bs e" by simp
  from t have "a + unat (bsize c) \<le> e" by (rule tiled_le)
  with Cons.IH [OF t] Cons.prems show ?case by fastforce
qed

lemma coalesced_append:
  "coalesced (xs @ ys) \<longleftrightarrow> coalesced xs \<and> coalesced ys \<and>
     (xs \<noteq> [] \<longrightarrow> ys \<noteq> [] \<longrightarrow> \<not> (bfree (last xs) \<and> bfree (hd ys)))"
proof (induction xs)
  case Nil
  then show ?case by simp
next
  case (Cons b xs)
  then show ?case by (cases xs; cases ys) auto
qed

lemma coalesced_Cons:
  "coalesced (b # bs) \<longleftrightarrow> coalesced bs \<and> (bs \<noteq> [] \<longrightarrow> \<not> (bfree b \<and> bfree (hd bs)))"
  by (cases bs) auto

lemma tiled_disjoint:
  assumes "tiled a (xs @ b # ys) e" and "c \<in> set (xs @ ys)"
  shows "region (g_start b) (bsize b) \<inter> region (g_start c) (bsize c) = {}"
proof -
  from assms(1) obtain m where x: "tiled a xs m" and m: "unat (g_start b) = m"
    and y: "tiled (m + unat (bsize b)) ys e"
    by (auto simp: tiled_append)
  have "c \<in> set xs \<Longrightarrow> unat (g_start c) + unat (bsize c) \<le> m"
    using tiled_bounds [OF x] by blast
  moreover have "c \<in> set ys \<Longrightarrow> m + unat (bsize b) \<le> unat (g_start c)"
    using tiled_bounds [OF y] by blast
  ultimately show ?thesis using assms(2) m by (auto simp: region_def)
qed

lemma tiled_start_unique:
  assumes "tiled a (xs @ b # ys) e" and "c \<in> set (xs @ ys)"
  shows "g_start c \<noteq> g_start b"
proof
  assume eq: "g_start c = g_start b"
  have "0 < unat (bsize b)" and "0 < unat (bsize c)"
    using tiled_bounds [OF assms(1)] assms(2) by auto
  with eq have "unat (g_start b) \<in> region (g_start b) (bsize b) \<inter> region (g_start c) (bsize c)"
    by (auto simp: region_def)
  with tiled_disjoint [OF assms] show False by blast
qed

section \<open>The allocation loop\<close>

definition split_block :: "u64 \<Rightarrow> mblock \<Rightarrow> mblock list" where
  "split_block sz it =
     (if sz < bsize it then
        [\<lparr>g_start = g_start it, bsize = sz, bfree = False\<rparr>,
         it\<lparr>g_start := g_start it + sz, bsize := bsize it - sz\<rparr>]
      else [it\<lparr>bfree := False\<rparr>])"

lemma first_fit_None: "first_fit sz bs = None \<longleftrightarrow> (\<forall>b \<in> set bs. \<not> (bfree b \<and> sz \<le> bsize b))"
  by (induction bs) auto

lemma any_fits_first_fit: "any_fits sz bs \<longleftrightarrow> first_fit sz bs \<noteq> None"
  by (induction bs) auto

lemma first_fit_SomeD:
  assumes "first_fit sz bs = Some (p, bs')"
  shows "\<exists>pre it post. bs = pre @ it # post \<and> bfree it \<and> sz \<le> bsize it \<and> p = g_start it \<and>
    (\<forall>c \<in> set pre. \<not> (bfree c \<and> sz \<le> bsize c)) \<and> bs' = pre @ split_block sz it @ post"
  using assms
proof (induction bs arbitrary: bs')
  case Nil
  then show ?case by simp
next
  case (Cons b bs)
  show ?case
  proof (cases "bfree b \<and> sz \<le> bsize b")
    case True
    with Cons.prems have "p = g_start b \<and> bs' = split_block sz b @ bs"
      by (auto simp: split_block_def split: if_splits)
    with True show ?thesis by (intro exI [of _ "[]"] exI [of _ b] exI [of _ bs]) simp
  next
    case False
    with Cons.prems obtain bs1 where f: "first_fit sz bs = Some (p, bs1)" and e: "bs' = b # bs1"
      by (auto split: if_splits)
    from Cons.IH [OF f] obtain pre it post where
      "bs = pre @ it # post" "bfree it" "sz \<le> bsize it" "p = g_start it"
      "\<forall>c \<in> set pre. \<not> (bfree c \<and> sz \<le> bsize c)" "bs1 = pre @ split_block sz it @ post"
      by blast
    with e False show ?thesis
      by (intro exI [of _ "b # pre"] exI [of _ it] exI [of _ post]) auto
  qed
qed

lemma tiled_split_block:
  assumes "unat (g_start it) = m" "0 < unat (bsize it)" "m + unat (bsize it) \<le> e" "e \<le> 2 ^ 64"
    "0 < sz" "sz \<le> bsize it"
  shows "tiled m (split_block sz it) (m + unat (bsize it))"
proof (cases "sz < bsize it")
  case True
  then have lt: "unat sz < unat (bsize it)" by (simp add: word_less_nat_alt)
  have "unat (g_start it + sz) = unat (g_start it) + unat sz"
    by (rule unat_add_no_wrap) (use assms lt in linarith)
  moreover have "unat (bsize it - sz) = unat (bsize it) - unat sz"
    by (rule unat_sub_no_wrap) (rule assms)
  moreover have "0 < unat sz" using assms(5) by (simp add: word_less_nat_alt)
  ultimately show ?thesis using True assms lt by (simp add: split_block_def)
next
  case False
  with assms show ?thesis by (simp add: split_block_def)
qed

lemma split_block_ne [simp]: "split_block sz it \<noteq> []"
  by (simp add: split_block_def)

lemma hd_split_block [simp]: "\<not> bfree (hd (split_block sz it))"
  by (simp add: split_block_def)

lemma coalesced_split_block: "coalesced (split_block sz it)"
  by (simp add: split_block_def)

lemma last_split_block: "bfree (last (split_block sz it)) \<Longrightarrow> bfree it"
  by (simp add: split_block_def split: if_splits)

lemma live_append [simp]: "live (xs @ ys) = live xs \<union> live ys"
  by (auto simp: live_def)

lemma live_Nil [simp]: "live [] = {}"
  by (simp add: live_def)

lemma live_Cons: "live (b # bs) = (if bfree b then {} else {(g_start b, bsize b)}) \<union> live bs"
  by (auto simp: live_def)

lemma live_split_block:
  "bfree it \<Longrightarrow> sz \<le> bsize it \<Longrightarrow> live (split_block sz it) = {(g_start it, sz)}"
  by (auto simp: split_block_def live_Cons)

lemma first_fit_inv:
  assumes "blocks_inv a e bs" "first_fit sz bs = Some (p, bs')" "0 < sz"
  shows "blocks_inv a e bs'"
proof -
  from first_fit_SomeD [OF assms(2)] obtain pre it post where
    bs: "bs = pre @ it # post" and it: "bfree it" "sz \<le> bsize it"
    and bs': "bs' = pre @ split_block sz it @ post" by blast
  from assms(1) have e: "e \<le> 2 ^ 64" and t: "tiled a bs e" and c: "coalesced bs" and ae: "a < e" "e < a + 2 ^ 64"
    by (auto simp: blocks_inv_def)
  from t bs obtain m where m: "tiled a pre m" "unat (g_start it) = m" "0 < unat (bsize it)"
    and post: "tiled (m + unat (bsize it)) post e" by (auto simp: tiled_append)
  from tiled_le [OF post] have "m + unat (bsize it) \<le> e" .
  with m e it assms(3) have "tiled m (split_block sz it) (m + unat (bsize it))"
    by (intro tiled_split_block) auto
  with m(1) post have "tiled a bs' e" unfolding bs' tiled_append by blast
  moreover have "coalesced bs'"
    using c coalesced_split_block [of sz it] it unfolding bs bs'
    by (auto simp: coalesced_append coalesced_Cons hd_append dest!: last_split_block)
  ultimately show ?thesis using ae e by (simp add: blocks_inv_def)
qed


lemma first_fit_live:
  assumes "blocks_inv a e bs" "first_fit sz bs = Some (p, bs')" "0 < sz"
  shows "live bs' = insert (p, sz) (live bs)" and "p \<notin> fst ` live bs"
    and "a \<le> unat p \<and> unat p + unat sz \<le> e"
    and "\<forall>(q, n) \<in> live bs. region p sz \<inter> region q n = {}"
proof -
  from first_fit_SomeD [OF assms(2)] obtain pre it post where
    bs: "bs = pre @ it # post" and it: "bfree it" "sz \<le> bsize it" and p: "p = g_start it"
    and bs': "bs' = pre @ split_block sz it @ post" by blast
  from assms(1) bs have t: "tiled a (pre @ it # post) e" by (simp add: blocks_inv_def)
  show "live bs' = insert (p, sz) (live bs)"
    using it p unfolding bs bs' by (auto simp: live_split_block live_Cons)
  have others: "(q, n) \<in> live bs \<Longrightarrow> \<exists>c \<in> set (pre @ post). q = g_start c \<and> n = bsize c" for q n
    using it unfolding bs by (auto simp: live_def)
  show "p \<notin> fst ` live bs"
    using others tiled_start_unique [OF t] p by fastforce
  have le: "unat sz \<le> unat (bsize it)" using it by (simp add: word_le_nat_alt)
  show "a \<le> unat p \<and> unat p + unat sz \<le> e"
    using tiled_bounds [OF t, of it] le p by auto
  have sub: "region p sz \<subseteq> region (g_start it) (bsize it)"
    using le p by (auto simp: region_def)
  show "\<forall>(q, n) \<in> live bs. region p sz \<inter> region q n = {}"
    using others tiled_disjoint [OF t] sub by fast
qed

section \<open>The release step\<close>

lemma tiled_merge_next:
  assumes "tiled m (b # c # bs) e" "e < m + 2 ^ 64"
  shows "tiled m (b\<lparr>bsize := bsize b + bsize c\<rparr> # bs) e"
proof -
  have "m + unat (bsize b) + unat (bsize c) \<le> e"
    using assms(1) by (auto dest: tiled_le)
  with assms(2) have "unat (bsize b) + unat (bsize c) < 2 ^ 64" by linarith
  then have "unat (bsize b + bsize c) = unat (bsize b) + unat (bsize c)"
    by (rule unat_add_no_wrap)
  with assms(1) show ?thesis by (simp add: add.assoc)
qed

lemma tiled_merge_prev:
  assumes "tiled m (b # c # bs) e" "e < m + 2 ^ 64"
  shows "tiled m (c\<lparr>g_start := g_start b, bsize := bsize c + bsize b\<rparr> # bs) e"
  using tiled_merge_next [OF assms] assms(1) by (simp add: add.commute)

lemma merge_next_spec:
  assumes "tiled m (it # rest) e" "e < m + 2 ^ 64" "coalesced rest"
    and "merge_next it rest = (it1, rest1)"
  shows "tiled m (it1 # rest1) e" "coalesced rest1" "rest1 \<noteq> [] \<Longrightarrow> \<not> bfree (hd rest1)"
    "live rest1 = live rest" "g_start it1 = g_start it" "bfree it1 = bfree it"
  using assms tiled_merge_next [of m it "hd rest" "tl rest" e]
  by (cases rest; auto simp: coalesced_Cons live_Cons split: if_splits)+

lemma merge_prev_spec:
  assumes "tiled a (rev pre @ it # rest) e" "e < a + 2 ^ 64" "coalesced (rev pre)"
    and "merge_prev it pre = (it2, pre1)"
  shows "tiled a (rev pre1 @ it2 # rest) e" "coalesced (rev pre1)"
    "pre1 \<noteq> [] \<Longrightarrow> \<not> bfree (hd pre1)" "live (rev pre1) = live (rev pre)"
proof -
  show "coalesced (rev pre1)" "pre1 \<noteq> [] \<Longrightarrow> \<not> bfree (hd pre1)" "live (rev pre1) = live (rev pre)"
    using assms(3,4)
    by (cases pre; auto simp: coalesced_append live_Cons last_rev split: if_splits)+
  show "tiled a (rev pre1 @ it2 # rest) e"
  proof (cases "pre = [] \<or> \<not> bfree (hd pre)")
    case True
    with assms show ?thesis by (cases pre) auto
  next
    case False
    then obtain q qs where pre: "pre = q # qs" "bfree q" by (cases pre) auto
    with assms(4) have r: "it2 = it\<lparr>g_start := g_start q, bsize := bsize it + bsize q\<rparr>" "pre1 = qs"
      by auto
    from assms(1) pre obtain k where k: "tiled a (rev qs) k" "tiled k (q # it # rest) e"
      by (auto simp: tiled_append)
    from tiled_le [OF k(1)] assms(2) have "e < k + 2 ^ 64" by linarith
    from tiled_merge_prev [OF k(2) this] k(1) r show ?thesis by (auto simp: tiled_append)
  qed
qed

lemma tiled_bfree_update [simp]: "tiled a (xs @ b\<lparr>bfree := f\<rparr> # ys) e = tiled a (xs @ b # ys) e"
  by (simp add: tiled_append)

lemma release_block_inv:
  assumes "blocks_inv a e (rev pre @ it # rest)"
  shows "blocks_inv a e (release_block pre it rest)"
    and "live (release_block pre it rest) = live (rev pre) \<union> live rest"
proof -
  obtain it1 rest1 where n: "merge_next it rest = (it1, rest1)" by fastforce
  obtain it2 pre1 where v: "merge_prev it1 pre = (it2, pre1)" by fastforce
  from assms have e: "a < e" "e \<le> 2 ^ 64" "e < a + 2 ^ 64" and t: "tiled a (rev pre @ it # rest) e"
    and c: "coalesced (rev pre)" "coalesced rest"
    by (auto simp: blocks_inv_def coalesced_append coalesced_Cons)
  from t obtain m where m: "tiled a (rev pre) m" "tiled m (it # rest) e"
    unfolding tiled_append by blast
  have "e < m + 2 ^ 64" using tiled_le [OF m(1)] e by linarith
  note N = merge_next_spec [OF m(2) this c(2) n]
  have t1: "tiled a (rev pre @ it1 # rest1) e" using m(1) N(1) unfolding tiled_append by blast
  note V = merge_prev_spec [OF t1 e(3) c(1) v]
  have R: "release_block pre it rest = rev pre1 @ it2\<lparr>bfree := True\<rparr> # rest1"
    by (simp add: release_block_def n v)
  have "coalesced (rev pre1 @ it2\<lparr>bfree := True\<rparr> # rest1)"
    using V(2,3) N(2,3) by (auto simp: coalesced_append coalesced_Cons last_rev)
  with V(1) e show "blocks_inv a e (release_block pre it rest)"
    by (simp add: R blocks_inv_def)
  show "live (release_block pre it rest) = live (rev pre) \<union> live rest"
    using V(4) N(4) by (simp add: R live_Cons)
qed

section \<open>Searching for a block by its start\<close>

text \<open>
  Under the invariant a start address names at most one block, so the first match is the only
  one.
\<close>

fun split_at_start :: "u64 \<Rightarrow> mblock list \<Rightarrow> mblock list \<Rightarrow> (mblock list \<times> mblock \<times> mblock list) option" where
  "split_at_start p pre [] = None"
| "split_at_start p pre (it # rest) =
     (if g_start it = p then Some (pre, it, rest) else split_at_start p (it # pre) rest)"

lemma split_at_start_Some:
  "split_at_start p pre bs = Some (pre', it, rest) \<Longrightarrow>
     rev pre @ bs = rev pre' @ it # rest \<and> g_start it = p \<and> it \<in> set bs"
  by (induction p pre bs rule: split_at_start.induct) (auto split: if_splits)

lemma split_at_start_None:
  "split_at_start p pre bs = None \<longleftrightarrow> (\<forall>b \<in> set bs. g_start b \<noteq> p)"
  by (induction p pre bs rule: split_at_start.induct) auto

lemma split_at_start_mem:
  assumes "blocks_inv a e bs" "b \<in> set bs"
  obtains pre rest where "split_at_start (g_start b) [] bs = Some (pre, b, rest)"
    "bs = rev pre @ b # rest" "\<forall>c \<in> set (rev pre @ rest). g_start c \<noteq> g_start b"
proof -
  from assms(2) obtain pre it rest where s: "split_at_start (g_start b) [] bs = Some (pre, it, rest)"
    using split_at_start_None [of "g_start b" "[]" bs] by fastforce
  from split_at_start_Some [OF s] have r: "bs = rev pre @ it # rest" "g_start it = g_start b" by auto
  from assms(1) r have t: "tiled a (rev pre @ it # rest) e" by (simp add: blocks_inv_def)
  have u: "\<forall>c \<in> set (rev pre @ rest). g_start c \<noteq> g_start b"
    using tiled_start_unique [OF t] r(2) by simp
  with assms(2) r have "b = it" by auto
  with s r u that show ?thesis by blast
qed

lemma split_at_start_live:
  assumes "blocks_inv a e bs" "(p, n) \<in> live bs"
  obtains pre it rest where "split_at_start p [] bs = Some (pre, it, rest)"
    "bs = rev pre @ it # rest" "g_start it = p" "bsize it = n" "\<not> bfree it"
    "live (rev pre) \<union> live rest = live bs - {(p, n)}"
proof -
  from assms(2) obtain b where b: "b \<in> set bs" "g_start b = p" "bsize b = n" "\<not> bfree b"
    by (auto simp: live_def)
  from split_at_start_mem [OF assms(1) b(1)] obtain pre rest where
    s: "split_at_start p [] bs = Some (pre, b, rest)" and r: "bs = rev pre @ b # rest"
    and u: "\<forall>c \<in> set (rev pre @ rest). g_start c \<noteq> p"
    using b(2) by metis
  have "(p, n) \<notin> live (rev pre) \<union> live rest" using u by (auto simp: live_def)
  with s r b that show ?thesis by (auto simp: live_Cons)
qed

text \<open>When nothing is live, merging has left exactly one free block: there is no fragmentation.\<close>

lemma live_empty_single:
  assumes "blocks_inv a e bs" "live bs = {}"
  shows "\<exists>b. bs = [b] \<and> bfree b \<and> unat (g_start b) = a \<and> a + unat (bsize b) = e"
proof -
  from assms have t: "tiled a bs e" and ae: "a < e" and c: "coalesced bs"
    by (auto simp: blocks_inv_def)
  from assms(2) have f: "\<forall>b \<in> set bs. bfree b" by (auto simp: live_def)
  from t ae obtain b bs' where bs: "bs = b # bs'" by (cases bs) auto
  with c f have "bs' = []" by (cases bs') auto
  with bs t f show ?thesis by auto
qed


lemma split_at_start_append:
  "\<forall>b \<in> set xs. g_start b \<noteq> p \<Longrightarrow>
     split_at_start p acc (xs @ ys) = split_at_start p (rev xs @ acc) ys"
  by (induction xs arbitrary: acc) auto

text \<open>Releasing a block right after its allocation undoes the split.\<close>

lemma first_fit_release:
  assumes "blocks_inv a e bs" "first_fit sz bs = Some (p, bs')" "0 < sz"
  shows "\<exists>pre it rest. split_at_start p [] bs' = Some (pre, it, rest) \<and> bsize it = sz \<and>
    release_block pre it rest = bs"
proof -
  from first_fit_SomeD [OF assms(2)] obtain pre it post where
    bs: "bs = pre @ it # post" and it: "bfree it" "sz \<le> bsize it" and p: "p = g_start it"
    and bs': "bs' = pre @ split_block sz it @ post" by blast
  from assms(1) bs have t: "tiled a (pre @ it # post) e" and c: "coalesced (pre @ it # post)"
    by (auto simp: blocks_inv_def)
  have u: "\<forall>b \<in> set pre. g_start b \<noteq> p" using tiled_start_unique [OF t] p by auto
  have pre: "merge_prev x (rev pre) = (x, rev pre)" for x
    using c it by (cases pre rule: rev_cases) (auto simp: coalesced_append)
  have post: "merge_next x post = (x, post)" for x
    using c it by (cases post) (auto simp: coalesced_append)
  show ?thesis
  proof (cases "sz < bsize it")
    case True
    let ?n = "\<lparr>g_start = g_start it, bsize = sz, bfree = False\<rparr>"
    let ?r = "it\<lparr>g_start := g_start it + sz, bsize := bsize it - sz\<rparr>"
    from True have "split_at_start p [] bs' = Some (rev pre, ?n, ?r # post)"
      using u p by (simp add: bs' split_at_start_append split_block_def)
    moreover have "release_block (rev pre) ?n (?r # post) = bs"
      using it by (simp add: release_block_def pre bs)
    ultimately show ?thesis by auto
  next
    case False
    with it have "bsize it = sz" by simp
    moreover from False have "split_at_start p [] bs' = Some (rev pre, it\<lparr>bfree := False\<rparr>, post)"
      using u p by (simp add: bs' split_at_start_append split_block_def)
    moreover have "release_block (rev pre) (it\<lparr>bfree := False\<rparr>) post = bs"
      using it by (simp add: release_block_def pre post bs)
    ultimately show ?thesis by auto
  qed
qed

text \<open>Releasing a block that is already free changes nothing.\<close>

lemma release_free_block:
  assumes "blocks_inv a e (rev pre @ it # rest)" "bfree it"
  shows "release_block pre it rest = rev pre @ it # rest"
proof -
  from assms have c: "coalesced (rev pre @ it # rest)" by (simp add: blocks_inv_def)
  have "merge_prev it pre = (it, pre)"
    using c assms(2) by (cases pre) (auto simp: coalesced_append)
  moreover have "merge_next it rest = (it, rest)"
    using c assms(2) by (cases rest) (auto simp: coalesced_append)
  ultimately show ?thesis using assms(2) by (simp add: release_block_def)
qed

section \<open>The interface of a region allocator\<close>

text \<open>
  What a client of the managers relies on: allocation returns a fresh region, a live region
  can be given back, and giving back the region just obtained restores the state.
\<close>

locale region_allocator =
  fixes inv :: "'s \<Rightarrow> bool"
    and livs :: "'s \<Rightarrow> (u64 \<times> u64) set"
    and alloc :: "u64 \<Rightarrow> 's \<Rightarrow> (u64 \<times> 's) res"
    and dealloc :: "u64 \<Rightarrow> u64 \<Rightarrow> 's \<Rightarrow> 's res"
  assumes alloc_inv: "inv s \<Longrightarrow> 0 < n \<Longrightarrow> alloc n s = Inr (p, s') \<Longrightarrow> inv s'"
    and alloc_live: "inv s \<Longrightarrow> 0 < n \<Longrightarrow> alloc n s = Inr (p, s') \<Longrightarrow> livs s' = insert (p, n) (livs s)"
    and alloc_fresh: "inv s \<Longrightarrow> 0 < n \<Longrightarrow> alloc n s = Inr (p, s') \<Longrightarrow> (q, m) \<in> livs s \<Longrightarrow>
      region p n \<inter> region q m = {}"
    and alloc_new: "inv s \<Longrightarrow> 0 < n \<Longrightarrow> alloc n s = Inr (p, s') \<Longrightarrow> p \<notin> fst ` livs s"
    and dealloc_live: "inv s \<Longrightarrow> (p, n) \<in> livs s \<Longrightarrow>
      \<exists>s'. dealloc p n s = Inr s' \<and> inv s' \<and> livs s' = livs s - {(p, n)}"
    and dealloc_undo: "inv s \<Longrightarrow> 0 < n \<Longrightarrow> alloc n s = Inr (p, s') \<Longrightarrow> dealloc p n s' = Inr s"

text \<open>
  Objects in nested scopes: each constructor allocates, the destructors run in the opposite
  order.
\<close>

fun scoped_alloc :: "(u64 \<Rightarrow> 's \<Rightarrow> (u64 \<times> 's) res) \<Rightarrow> u64 list \<Rightarrow> 's \<Rightarrow> ((u64 \<times> u64) list \<times> 's) res" where
  "scoped_alloc alloc [] s = Inr ([], s)"
| "scoped_alloc alloc (n # ns) s =
     rbind (alloc n s) (\<lambda>(p, s1). rbind (scoped_alloc alloc ns s1) (\<lambda>(ps, s2). Inr ((p, n) # ps, s2)))"

fun scoped_free :: "(u64 \<Rightarrow> u64 \<Rightarrow> 's \<Rightarrow> 's res) \<Rightarrow> (u64 \<times> u64) list \<Rightarrow> 's \<Rightarrow> 's res" where
  "scoped_free dealloc [] s = Inr s"
| "scoped_free dealloc ((p, n) # ps) s = rbind (scoped_free dealloc ps s) (dealloc p n)"

definition pairwise_apart :: "(u64 \<times> u64) set \<Rightarrow> bool" where
  "pairwise_apart R \<longleftrightarrow>
     (\<forall>(p, n) \<in> R. \<forall>(q, m) \<in> R. (p, n) \<noteq> (q, m) \<longrightarrow> region p n \<inter> region q m = {})"

context region_allocator begin

lemma scoped_alloc_inv:
  "inv s \<Longrightarrow> 0 \<notin> set ns \<Longrightarrow> scoped_alloc alloc ns s = Inr (ps, s') \<Longrightarrow>
     inv s' \<and> livs s' = set ps \<union> livs s \<and> map snd ps = ns"
proof (induction ns arbitrary: s ps)
  case Nil
  then show ?case by auto
next
  case (Cons n ns)
  from Cons.prems(3) obtain p s1 ps1 where a: "alloc n s = Inr (p, s1)"
    and r: "scoped_alloc alloc ns s1 = Inr (ps1, s')" and ps: "ps = (p, n) # ps1"
    by auto
  have n: "0 < n" using Cons.prems(2) by (simp add: word_neq_0_conv [symmetric])
  from alloc_inv [OF Cons.prems(1) n a] have "inv s1" .
  from Cons.IH [OF this _ r] Cons.prems(2) have
    "inv s' \<and> livs s' = set ps1 \<union> livs s1 \<and> map snd ps1 = ns" by simp
  then show ?case using alloc_live [OF Cons.prems(1) n a] ps by auto
qed

lemma scoped_restores:
  "inv s \<Longrightarrow> 0 \<notin> set ns \<Longrightarrow> scoped_alloc alloc ns s = Inr (ps, s') \<Longrightarrow>
     scoped_free dealloc ps s' = Inr s"
proof (induction ns arbitrary: s ps)
  case Nil
  then show ?case by auto
next
  case (Cons n ns)
  from Cons.prems(3) obtain p s1 ps1 where a: "alloc n s = Inr (p, s1)"
    and r: "scoped_alloc alloc ns s1 = Inr (ps1, s')" and ps: "ps = (p, n) # ps1"
    by auto
  have n: "0 < n" using Cons.prems(2) by (simp add: word_neq_0_conv [symmetric])
  from Cons.IH [OF alloc_inv [OF Cons.prems(1) n a] _ r] Cons.prems(2)
  have "scoped_free dealloc ps1 s' = Inr s1" by simp
  then show ?case using dealloc_undo [OF Cons.prems(1) n a] ps by simp
qed

lemma scoped_apart:
  "inv s \<Longrightarrow> pairwise_apart (livs s) \<Longrightarrow> 0 \<notin> set ns \<Longrightarrow> scoped_alloc alloc ns s = Inr (ps, s') \<Longrightarrow>
     pairwise_apart (set ps \<union> livs s)"
proof (induction ns arbitrary: s ps)
  case Nil
  then show ?case by auto
next
  case (Cons n ns)
  from Cons.prems(4) obtain p s1 ps1 where a: "alloc n s = Inr (p, s1)"
    and r: "scoped_alloc alloc ns s1 = Inr (ps1, s')" and ps: "ps = (p, n) # ps1"
    by auto
  have n: "0 < n" using Cons.prems(3) by (simp add: word_neq_0_conv [symmetric])
  note l = alloc_live [OF Cons.prems(1) n a]
  have "pairwise_apart (livs s1)"
    using Cons.prems(2) alloc_fresh [OF Cons.prems(1) n a]
    unfolding l pairwise_apart_def by fast
  from Cons.IH [OF alloc_inv [OF Cons.prems(1) n a] this _ r] Cons.prems(3)
  have "pairwise_apart (set ps1 \<union> livs s1)" by simp
  then show ?case unfolding l ps by simp
qed

end

end
