(* ===== verification/Memory_Manager.thy ===== *)
theory Memory_Manager
  imports Block_List
begin

text \<open>
  \<open>segment/MemoryManager.cpp\<close>: the allocator of a segment's memory.  Every operation runs
  under the manager's mutex, so it is one atomic state transformer on \<open>_blocks\<close>.  Pointers are
  64-bit words; \<open>NULL\<close> is 0.
\<close>

section \<open>State and operations\<close>

record mem_manager =
  mm_blocks :: "mblock list"

definition mm_construct :: "u64 \<Rightarrow> u64 \<Rightarrow> mem_manager" where
  "mm_construct memory_segment_ptr memory_segment_size =
     \<lparr>mm_blocks = [\<lparr>g_start = memory_segment_ptr, bsize = memory_segment_size, bfree = True\<rparr>]\<rparr>"

definition mm_allocate :: "u64 \<Rightarrow> mem_manager \<Rightarrow> (u64 \<times> mem_manager) res" where
  "mm_allocate sz s =
     (if sz = 0 then Inr (0, s)
      else case first_fit sz (mm_blocks s) of
             None \<Rightarrow> Inl BadAlloc
           | Some (p, bs) \<Rightarrow> Inr (p, s\<lparr>mm_blocks := bs\<rparr>))"

definition mm_canAllocate :: "u64 \<Rightarrow> mem_manager \<Rightarrow> bool" where
  "mm_canAllocate size_requested s =
     (if size_requested = 0 then True else any_fits size_requested (mm_blocks s))"

definition mm_deallocate :: "u64 \<Rightarrow> u64 \<Rightarrow> mem_manager \<Rightarrow> mem_manager res" where
  "mm_deallocate g_ptr g_size s =
     (if g_ptr = 0 then Inr s
      else case split_at_start g_ptr [] (mm_blocks s) of
             None \<Rightarrow> Inl BadAlloc
           | Some (pre, it, rest) \<Rightarrow>
               if bsize it \<noteq> g_size then Inl (RuntimeError ''Not released'')
               else Inr (s\<lparr>mm_blocks := release_block pre it rest\<rparr>))"

text \<open>The condition under which the destructor reports memory still in use.\<close>

definition mm_still_in_use :: "mem_manager \<Rightarrow> bool" where
  "mm_still_in_use s = (case mm_blocks s of [] \<Rightarrow> False | b # bs \<Rightarrow> bs \<noteq> [] \<or> \<not> bfree b)"

section \<open>Invariant\<close>

definition mm_inv :: "nat \<Rightarrow> nat \<Rightarrow> mem_manager \<Rightarrow> bool" where
  "mm_inv a e s \<longleftrightarrow> 0 < a \<and> blocks_inv a e (mm_blocks s)"

definition mm_live :: "mem_manager \<Rightarrow> (u64 \<times> u64) set" where
  "mm_live s = live (mm_blocks s)"

lemma mm_construct_inv:
  "0 < base \<Longrightarrow> 0 < sz \<Longrightarrow> unat base + unat sz \<le> 2 ^ 64 \<Longrightarrow>
     mm_inv (unat base) (unat base + unat sz) (mm_construct base sz)"
  by (simp add: mm_inv_def blocks_inv_def mm_construct_def word_less_nat_alt)

lemma mm_allocate_Inr:
  assumes "mm_inv a e s" "0 < n" "mm_allocate n s = Inr (p, s')"
  shows "first_fit n (mm_blocks s) = Some (p, mm_blocks s')"
  using assms by (auto simp: mm_allocate_def split: option.splits if_splits)

lemma mm_inv_start_pos:
  assumes "mm_inv a e s" "(p, n) \<in> mm_live s"
  shows "p \<noteq> 0"
proof -
  from assms obtain b where b: "b \<in> set (mm_blocks s)" "g_start b = p"
    by (auto simp: mm_live_def live_def)
  have "tiled a (mm_blocks s) e" "0 < a" using assms(1) by (auto simp: mm_inv_def blocks_inv_def)
  with tiled_bounds [OF this(1) b(1)] b(2) show ?thesis by auto
qed

section \<open>The memory manager is a region allocator\<close>

interpretation mm: region_allocator "mm_inv a e" mm_live mm_allocate mm_deallocate for a e
proof
  fix s n p s' q m
  assume i: "mm_inv a e s" and n: "0 < n" and a: "mm_allocate n s = Inr (p, s')"
  note f = mm_allocate_Inr [OF i n a]
  have b: "blocks_inv a e (mm_blocks s)" and a0: "0 < a" using i by (auto simp: mm_inv_def)
  from first_fit_inv [OF b f n] a0 show i': "mm_inv a e s'" by (simp add: mm_inv_def)
  from first_fit_live [OF b f n] show l: "mm_live s' = insert (p, n) (mm_live s)"
    and "p \<notin> fst ` mm_live s"
    by (auto simp: mm_live_def)
  show "(q, m) \<in> mm_live s \<Longrightarrow> region p n \<inter> region q m = {}"
    using first_fit_live(4) [OF b f n] unfolding mm_live_def by fast
  from first_fit_release [OF b f n] obtain pre it rest where
    "split_at_start p [] (mm_blocks s') = Some (pre, it, rest)" "bsize it = n"
    "release_block pre it rest = mm_blocks s" by blast
  then show "mm_deallocate p n s' = Inr s"
    using mm_inv_start_pos [OF i', of p n] l by (simp add: mm_deallocate_def)
next
  fix s p n
  assume i: "mm_inv a e s" and l: "(p, n) \<in> mm_live s"
  have b: "blocks_inv a e (mm_blocks s)" using i by (simp add: mm_inv_def)
  from split_at_start_live [OF b l [unfolded mm_live_def]]
  obtain pre it rest where s: "split_at_start p [] (mm_blocks s) = Some (pre, it, rest)"
    and r: "mm_blocks s = rev pre @ it # rest" "bsize it = n"
    "live (rev pre) \<union> live rest = live (mm_blocks s) - {(p, n)}"
    by metis
  let ?s' = "s\<lparr>mm_blocks := release_block pre it rest\<rparr>"
  have "mm_deallocate p n s = Inr ?s'"
    using s r mm_inv_start_pos [OF i l] by (simp add: mm_deallocate_def)
  moreover have "mm_inv a e ?s' \<and> mm_live ?s' = mm_live s - {(p, n)}"
    using release_block_inv [of a e pre it rest] b r i by (simp add: mm_inv_def mm_live_def)
  ultimately show "\<exists>s'. mm_deallocate p n s = Inr s' \<and> mm_inv a e s' \<and> mm_live s' = mm_live s - {(p, n)}"
    by blast
qed

section \<open>Behaviour on every branch\<close>



definition mm_example :: mem_manager where
  "mm_example = mm_construct 4096 1024"

lemma mm_example_inv: "mm_inv 4096 5120 mm_example"
  using mm_construct_inv [of 4096 1024] by (simp add: mm_example_def)


text \<open>
  Property C32. \<open>deallocate\<close> on every branch: \<open>NULL\<close> is ignored; a pointer that starts no block
  raises \<open>std::bad_alloc\<close>; a size that differs from the block's raises
  \<open>std::runtime_error\<close>; a live region is given back (it is no longer live, everything else
  is, and the invariant holds); a block that is already free is silently accepted and the
  state does not change, so a double release is not detected.
\<close>

theorem mm_deallocate_correct:
  assumes "mm_inv a e s"
  shows "mm_deallocate 0 n s = Inr s
    \<and> (\<forall>p. p \<noteq> 0 \<longrightarrow> (\<forall>b \<in> set (mm_blocks s). g_start b \<noteq> p) \<longrightarrow> mm_deallocate p n s = Inl BadAlloc)
    \<and> (\<forall>b \<in> set (mm_blocks s).
         (bsize b \<noteq> n \<longrightarrow> mm_deallocate (g_start b) n s = Inl (RuntimeError ''Not released'')) \<and>
         (bfree b \<longrightarrow> mm_deallocate (g_start b) (bsize b) s = Inr s))
    \<and> (\<forall>(p, m) \<in> mm_live s. \<exists>s'. mm_deallocate p m s = Inr s' \<and> mm_inv a e s' \<and>
         mm_live s' = mm_live s - {(p, m)})"
proof (intro conjI ballI allI impI)
  show "mm_deallocate 0 n s = Inr s" by (simp add: mm_deallocate_def)
next
  fix p assume "p \<noteq> 0" "\<forall>b \<in> set (mm_blocks s). g_start b \<noteq> p"
  then show "mm_deallocate p n s = Inl BadAlloc"
    by (simp add: mm_deallocate_def split_at_start_None [THEN iffD2])
next
  fix b assume b: "b \<in> set (mm_blocks s)"
  have i: "blocks_inv a e (mm_blocks s)" and a: "0 < a" using assms by (auto simp: mm_inv_def)
  then have "tiled a (mm_blocks s) e" by (simp add: blocks_inv_def)
  from tiled_bounds [OF this b] a have p0: "g_start b \<noteq> 0" by auto
  from split_at_start_mem [OF i b] obtain pre rest where
    s: "split_at_start (g_start b) [] (mm_blocks s) = Some (pre, b, rest)"
    and r: "mm_blocks s = rev pre @ b # rest" by blast
  have "bfree b \<Longrightarrow> release_block pre b rest = mm_blocks s"
    using release_free_block [of a e pre b rest] i r by simp
  with s p0 show "bsize b \<noteq> n \<Longrightarrow> mm_deallocate (g_start b) n s = Inl (RuntimeError ''Not released'')"
    "bfree b \<Longrightarrow> mm_deallocate (g_start b) (bsize b) s = Inr s"
    by (simp_all add: mm_deallocate_def)
next
  fix r assume "r \<in> mm_live s"
  with mm.dealloc_live [OF assms] show "case r of (p, m) \<Rightarrow> \<exists>s'. mm_deallocate p m s = Inr s' \<and>
      mm_inv a e s' \<and> mm_live s' = mm_live s - {(p, m)}"
    by (cases r) simp
qed

theorem mm_deallocate_correct_witness:
  "mm_inv 4096 5120 mm_example \<and> mm_deallocate 4096 1024 mm_example = Inr mm_example \<and>
   mm_deallocate 4096 7 mm_example = Inl (RuntimeError ''Not released'') \<and>
   mm_deallocate 5000 7 mm_example = Inl BadAlloc"
  using mm_deallocate_correct [OF mm_example_inv, of 1024] mm_deallocate_correct [OF mm_example_inv, of 7]
    mm_example_inv
  by (simp add: mm_example_def mm_construct_def)

text \<open>
  Objects in nested scopes (\<open>MemoryAllocation\<close>, \<open>ScopedAllocation\<close>): allocating
  any list of positive sizes and releasing them in the opposite order succeeds and restores
  exactly the state before the first allocation; while they live, their regions are pairwise
  disjoint.
\<close>

theorem mm_scoped_restores:
  assumes "mm_inv a e s" and "pairwise_apart (mm_live s)" and "0 \<notin> set ns"
    and "scoped_alloc mm_allocate ns s = Inr (ps, s')"
  shows "scoped_free mm_deallocate ps s' = Inr s \<and> mm_live s' = set ps \<union> mm_live s \<and>
    map snd ps = ns \<and> pairwise_apart (mm_live s')"
  using mm.scoped_restores [OF assms(1,3,4)] mm.scoped_alloc_inv [OF assms(1,3,4)]
    mm.scoped_apart [OF assms] by simp

theorem mm_scoped_restores_witness:
  "\<exists>s'. scoped_alloc mm_allocate [100, 24] mm_example = Inr ([(4096, 100), (4196, 24)], s') \<and>
     scoped_free mm_deallocate [(4096, 100), (4196, 24)] s' = Inr mm_example"
proof -
  obtain s' where s': "scoped_alloc mm_allocate [100, 24] mm_example = Inr ([(4096, 100), (4196, 24)], s')"
    by (simp add: mm_example_def mm_construct_def mm_allocate_def word_less_nat_alt word_le_nat_alt)
  have "pairwise_apart (mm_live mm_example)"
    by (simp add: mm_example_def mm_construct_def mm_live_def live_Cons pairwise_apart_def)
  from mm_scoped_restores [OF mm_example_inv this _ s'] s' show ?thesis by (intro exI [of _ s']) simp
qed

section \<open>Histories\<close>

text \<open>Any sequence of successful allocations and releases of live regions.\<close>

inductive mm_history :: "mem_manager \<Rightarrow> mem_manager \<Rightarrow> bool" where
  start: "mm_history s s"
| allocated: "mm_history s t \<Longrightarrow> 0 < n \<Longrightarrow> mm_allocate n t = Inr (p, u) \<Longrightarrow> mm_history s u"
| released: "mm_history s t \<Longrightarrow> (p, n) \<in> mm_live t \<Longrightarrow> mm_deallocate p n t = Inr u \<Longrightarrow> mm_history s u"

lemma mm_history_inv: "mm_history s t \<Longrightarrow> mm_inv a e s \<Longrightarrow> mm_inv a e t"
proof (induction rule: mm_history.induct)
  case (allocated s t n p u)
  then show ?case using mm.alloc_inv by blast
next
  case (released s t p n u)
  then show ?case using mm.dealloc_live [of a e t p n] by auto
qed

lemma mm_empty_fresh:
  assumes "mm_inv (unat base) (unat base + unat sz) s" "mm_live s = {}"
  shows "s = mm_construct base sz"
proof -
  from assms obtain b where b: "mm_blocks s = [b]" "bfree b"
    "unat (g_start b) = unat base" "unat (bsize b) = unat sz"
    using live_empty_single [of "unat base" "unat base + unat sz" "mm_blocks s"]
    by (auto simp: mm_live_def mm_inv_def)
  then have "b = \<lparr>g_start = base, bsize = sz, bfree = True\<rparr>" by (cases b) (simp add: word_unat_eq_iff)
  with b show ?thesis by (cases s) (simp add: mm_construct_def)
qed

text \<open>
  There is no leak and no lasting fragmentation: after any history of allocations
  and releases, in whatever order, if every region has been released then the manager is back
  in its initial state (one free block over the whole segment) and the destructor reports
  nothing; and the destructor reports memory in use exactly when some region is live.
\<close>

theorem mm_no_leak:
  assumes "0 < base" and "0 < sz" and "unat base + unat sz \<le> 2 ^ 64"
    and "mm_history (mm_construct base sz) s"
  shows "(mm_live s = {} \<longrightarrow> s = mm_construct base sz) \<and> (mm_still_in_use s \<longleftrightarrow> mm_live s \<noteq> {})"
proof -
  have i: "mm_inv (unat base) (unat base + unat sz) s"
    using mm_history_inv [OF assms(4) mm_construct_inv [OF assms(1-3)]] .
  have e: "s = mm_construct base sz \<and> \<not> mm_still_in_use s" if l: "mm_live s = {}"
    using mm_empty_fresh [OF i l] by (simp add: mm_construct_def mm_still_in_use_def)
  have "mm_still_in_use s" if l: "mm_live s \<noteq> {}"
    using l by (auto simp: mm_live_def live_def mm_still_in_use_def split: list.splits)
  with e show ?thesis by blast
qed

theorem mm_no_leak_witness:
  "mm_history (mm_construct 4096 1024) (mm_construct 4096 1024) \<and>
   \<not> mm_still_in_use (mm_construct 4096 1024)"
  using mm_no_leak [of 4096 1024 "mm_construct 4096 1024"] mm_history.start [of "mm_construct 4096 1024"]
  by (simp add: mm_live_def mm_construct_def live_Cons)

end
