(* ===== verification/Notification_Manager.thy ===== *)
theory Notification_Manager
  imports Block_List
begin

text \<open>
  \<open>segment/NotificationManager.cpp\<close>: the allocator of a segment's notification identifiers.
  It keeps the same block list as the memory manager, over the identifiers from 0; a request
  for no notification is an error, and \<open>deallocate\<close> is given the start only.
\<close>

section \<open>State and operations\<close>

record notification_manager =
  nm_blocks :: "mblock list"

definition nm_construct :: "u64 \<Rightarrow> notification_manager" where
  "nm_construct notification_size =
     \<lparr>nm_blocks = [\<lparr>g_start = 0, bsize = notification_size, bfree = True\<rparr>]\<rparr>"

definition nm_allocate :: "u64 \<Rightarrow> notification_manager \<Rightarrow> (u64 \<times> notification_manager) res" where
  "nm_allocate sz s =
     (if sz = 0 then Inl (RuntimeError ''Requested 0 notifications'')
      else case first_fit sz (nm_blocks s) of
             None \<Rightarrow> Inl BadAlloc
           | Some (p, bs) \<Rightarrow> Inr (p, s\<lparr>nm_blocks := bs\<rparr>))"

definition nm_deallocate :: "u64 \<Rightarrow> notification_manager \<Rightarrow> notification_manager res" where
  "nm_deallocate g_ptr s =
     (case split_at_start g_ptr [] (nm_blocks s) of
        None \<Rightarrow> Inl BadAlloc
      | Some (pre, it, rest) \<Rightarrow> Inr (s\<lparr>nm_blocks := release_block pre it rest\<rparr>))"

section \<open>Invariant\<close>

definition nm_inv :: "nat \<Rightarrow> notification_manager \<Rightarrow> bool" where
  "nm_inv e s \<longleftrightarrow> e < 2 ^ 64 \<and> blocks_inv 0 e (nm_blocks s)"

definition nm_live :: "notification_manager \<Rightarrow> (u64 \<times> u64) set" where
  "nm_live s = live (nm_blocks s)"

lemma nm_construct_inv: "0 < n \<Longrightarrow> nm_inv (unat n) (nm_construct n)"
  by (simp add: nm_inv_def blocks_inv_def nm_construct_def word_less_nat_alt less_imp_le)

lemma nm_allocate_Inr:
  assumes "0 < n" "nm_allocate n s = Inr (p, s')"
  shows "first_fit n (nm_blocks s) = Some (p, nm_blocks s')"
  using assms by (auto simp: nm_allocate_def split: option.splits if_splits)

section \<open>The notification manager is a region allocator\<close>

interpretation nm: region_allocator "nm_inv e" nm_live nm_allocate "\<lambda>p n. nm_deallocate p" for e
proof
  fix s n p s' q m
  assume i: "nm_inv e s" and n: "0 < n" and a: "nm_allocate n s = Inr (p, s')"
  note f = nm_allocate_Inr [OF n a]
  have b: "blocks_inv 0 e (nm_blocks s)" and e: "e < 2 ^ 64" using i by (auto simp: nm_inv_def)
  from first_fit_inv [OF b f n] e show "nm_inv e s'" by (simp add: nm_inv_def)
  from first_fit_live [OF b f n] show "nm_live s' = insert (p, n) (nm_live s)"
    and "p \<notin> fst ` nm_live s"
    by (auto simp: nm_live_def)
  show "(q, m) \<in> nm_live s \<Longrightarrow> region p n \<inter> region q m = {}"
    using first_fit_live(4) [OF b f n] unfolding nm_live_def by fast
  from first_fit_release [OF b f n] show "nm_deallocate p s' = Inr s"
    by (auto simp: nm_deallocate_def)
next
  fix s p n
  assume i: "nm_inv e s" and l: "(p, n) \<in> nm_live s"
  have b: "blocks_inv 0 e (nm_blocks s)" and e: "e < 2 ^ 64" using i by (auto simp: nm_inv_def)
  from split_at_start_live [OF b l [unfolded nm_live_def]]
  obtain pre it rest where s: "split_at_start p [] (nm_blocks s) = Some (pre, it, rest)"
    and r: "nm_blocks s = rev pre @ it # rest"
    "live (rev pre) \<union> live rest = live (nm_blocks s) - {(p, n)}"
    by metis
  let ?s' = "s\<lparr>nm_blocks := release_block pre it rest\<rparr>"
  have "nm_deallocate p s = Inr ?s'" using s by (simp add: nm_deallocate_def)
  moreover have "nm_inv e ?s' \<and> nm_live ?s' = nm_live s - {(p, n)}"
    using release_block_inv [of 0 e pre it rest] b e r by (simp add: nm_inv_def nm_live_def)
  ultimately show "\<exists>s'. nm_deallocate p s = Inr s' \<and> nm_inv e s' \<and> nm_live s' = nm_live s - {(p, n)}"
    by blast
qed

section \<open>Behaviour on every branch\<close>

lemma nm_allocate_result:
  assumes "nm_inv e s" "nm_allocate n s = Inr (p, s')"
  shows "0 < n" "nm_inv e s'" "nm_live s' = insert (p, n) (nm_live s)"
    "unat p + unat n \<le> e" "p \<notin> fst ` nm_live s"
proof -
  show n: "0 < n" using assms(2) by (auto simp: nm_allocate_def word_neq_0_conv split: if_splits)
  have b: "blocks_inv 0 e (nm_blocks s)" using assms(1) by (simp add: nm_inv_def)
  from first_fit_live(3) [OF b nm_allocate_Inr [OF n assms(2)] n] show "unat p + unat n \<le> e" by simp
  show "nm_inv e s'" using nm.alloc_inv [OF assms(1) n assms(2)] .
  show "nm_live s' = insert (p, n) (nm_live s)" using nm.alloc_live [OF assms(1) n assms(2)] .
  show "p \<notin> fst ` nm_live s" using nm.alloc_new [OF assms(1) n assms(2)] .
qed

text \<open>
  The notification manager never hands out an identifier that is in use: an
  allocation of \<open>n\<close> identifiers is \<open>std::runtime_error\<close> for \<open>n = 0\<close>, \<open>std::bad_alloc\<close> when no
  free run of \<open>n\<close> identifiers is left, and otherwise a run below the number of notifications
  of GASPI, disjoint from every live run, that \<open>deallocate\<close> takes back to the state before.
\<close>

theorem nm_allocate_correct:
  assumes "nm_inv e s"
  shows "case nm_allocate n s of
      Inl ex \<Rightarrow> (if n = 0 then ex = RuntimeError ''Requested 0 notifications''
                else ex = BadAlloc \<and> (\<forall>b \<in> set (nm_blocks s). bfree b \<longrightarrow> bsize b < n))
    | Inr (p, s') \<Rightarrow> nm_inv e s' \<and> nm_live s' = insert (p, n) (nm_live s) \<and> unat p + unat n \<le> e \<and>
        (\<forall>(q, m) \<in> nm_live s. region p n \<inter> region q m = {}) \<and> nm_deallocate p s' = Inr s"
proof (cases "nm_allocate n s")
  case (Inl ex)
  then have "n \<noteq> 0 \<Longrightarrow> first_fit n (nm_blocks s) = None"
    by (auto simp: nm_allocate_def split: option.splits if_splits)
  with Inl show ?thesis
    by (auto simp: nm_allocate_def first_fit_None not_le split: if_splits option.splits)
next
  case (Inr r)
  obtain p s' where r: "r = (p, s')" by fastforce
  with Inr have al: "nm_allocate n s = Inr (p, s')" by simp
  note R = nm_allocate_result [OF assms al]
  have "\<forall>(q, m) \<in> nm_live s. region p n \<inter> region q m = {}"
    using nm.alloc_fresh [OF assms R(1) al] by fast
  with R nm.dealloc_undo [OF assms R(1) al] Inr r show ?thesis by simp
qed

theorem nm_allocate_correct_witness:
  "nm_inv 8 (nm_construct 8) \<and>
   (case nm_allocate 1 (nm_construct 8) of
      Inl ex \<Rightarrow> False
    | Inr (p, s') \<Rightarrow> p = 0 \<and> nm_live s' = {(0, 1)} \<and> nm_deallocate 0 s' = Inr (nm_construct 8))"
proof -
  have i: "nm_inv 8 (nm_construct 8)" using nm_construct_inv [of 8] by simp
  show ?thesis using nm_allocate_correct [OF i, of 1] i
    by (simp add: nm_allocate_def nm_construct_def nm_live_def live_Cons word_le_nat_alt word_less_nat_alt)
qed

end
