(* ===== verification/Group_Ranks.thy ===== *)
theory Group_Ranks
  imports Gaspi_Prelude
begin

text \<open>
  \<open>group/Rank.cpp\<close>, \<open>group/Utilities.cpp\<close> and \<open>group/Group.cpp\<close>: ranks are 16-bit, ring
  positions 64-bit, and a group is a list of distinct global ranks that contains the calling
  process.  \<open>gaspi_proc_rank\<close> and \<open>gaspi_proc_num\<close> are arguments of the constructors.
\<close>

section \<open>Rank\<close>

datatype rank = Rank (get: u16)

fun rank_pre_inc :: "rank \<Rightarrow> rank \<times> rank" where
  "rank_pre_inc (Rank r) = (let r' = Rank (r + 1) in (r', r'))"

fun rank_post_inc :: "rank \<Rightarrow> rank \<times> rank" where
  "rank_post_inc r = (let tmp = r in (fst (rank_pre_inc r), tmp))"

fun rank_pre_dec :: "rank \<Rightarrow> rank \<times> rank" where
  "rank_pre_dec (Rank r) = (let r' = Rank (r - 1) in (r', r'))"

fun rank_post_dec :: "rank \<Rightarrow> rank \<times> rank" where
  "rank_post_dec r = (let tmp = r in (fst (rank_pre_dec r), tmp))"

text \<open>
  The operands are promoted to \<open>int\<close> and the result is truncated by the constructor's
  \<open>unsigned short\<close> parameter, which is arithmetic on 16-bit words.  An \<open>int\<close> operand is
  truncated first.
\<close>

definition rank_plus :: "rank \<Rightarrow> rank \<Rightarrow> rank" where
  "rank_plus a b = Rank (get a + get b)"

definition rank_plus_int :: "rank \<Rightarrow> 32 word \<Rightarrow> rank" where
  "rank_plus_int a k = rank_plus a (Rank (ucast k))"

definition rank_minus :: "rank \<Rightarrow> rank \<Rightarrow> rank" where
  "rank_minus a b = Rank (get a - get b)"

definition rank_minus_int :: "rank \<Rightarrow> 32 word \<Rightarrow> rank" where
  "rank_minus_int a k = rank_minus a (Rank (ucast k))"

text \<open>
  The remainder is not truncated before the division; \<open>None\<close> is the undefined division by
  zero.  The dividend is never negative, so C++'s remainder is the one of the magnitudes.
\<close>

definition rank_mod :: "rank \<Rightarrow> rank \<Rightarrow> rank option" where
  "rank_mod a b = (if get b = 0 then None else Some (Rank (get a mod get b)))"

definition rank_mod_int :: "rank \<Rightarrow> 32 word \<Rightarrow> rank option" where
  "rank_mod_int a k =
     (if k = 0 then None else Some (Rank (word_of_int (int (unat (get a)) mod \<bar>sint k\<bar>))))"

instantiation rank :: linorder
begin

definition less_eq_rank :: "rank \<Rightarrow> rank \<Rightarrow> bool" where
  "less_eq_rank a b = (\<not> get b < get a)"

definition less_rank :: "rank \<Rightarrow> rank \<Rightarrow> bool" where
  "less_rank a b = (get a < get b)"

instance
proof
  fix a b c :: rank
  show "(a < b) = (a \<le> b \<and> \<not> b \<le> a)" by (auto simp: less_eq_rank_def less_rank_def)
  show "a \<le> a" by (simp add: less_eq_rank_def)
  show "a \<le> b \<Longrightarrow> b \<le> c \<Longrightarrow> a \<le> c" by (simp add: less_eq_rank_def)
  show "a \<le> b \<Longrightarrow> b \<le> a \<Longrightarrow> a = b" by (cases a; cases b) (simp add: less_eq_rank_def)
  show "a \<le> b \<or> b \<le> a" by (auto simp: less_eq_rank_def)
qed

end

definition rank_eq :: "rank \<Rightarrow> rank \<Rightarrow> bool" where
  "rank_eq a b = (get a = get b)"

definition rank_neq :: "rank \<Rightarrow> rank \<Rightarrow> bool" where
  "rank_neq a b = (\<not> rank_eq a b)"

lemma rank_eq_iff [simp]: "rank_eq a b \<longleftrightarrow> a = b"
  by (cases a; cases b) (simp add: rank_eq_def)

section \<open>Ring positions\<close>

definition incrementIndexOnRing :: "u64 \<Rightarrow> u64 \<Rightarrow> u64" where
  "incrementIndexOnRing index ring_size = (index + 1) mod ring_size"

definition incrementRankOnRing :: "rank \<Rightarrow> u64 \<Rightarrow> u64" where
  "incrementRankOnRing r ring_size = incrementIndexOnRing (ucast (get r)) ring_size"

definition decrementIndexOnRing :: "u64 \<Rightarrow> u64 \<Rightarrow> u64" where
  "decrementIndexOnRing index ring_size = (index - 1 + ring_size) mod ring_size"

definition decrementRankOnRing :: "rank \<Rightarrow> u64 \<Rightarrow> u64" where
  "decrementRankOnRing r ring_size = decrementIndexOnRing (ucast (get r)) ring_size"

record ring_index =
  ri_index :: u64
  ri_size :: u64

definition RingIndex :: "u64 \<Rightarrow> u64 \<Rightarrow> ring_index" where
  "RingIndex index ring_size = \<lparr>ri_index = index mod ring_size, ri_size = ring_size\<rparr>"

definition ring_to_int :: "ring_index \<Rightarrow> 32 word" where
  "ring_to_int r = ucast (ri_index r)"

definition ring_inc :: "ring_index \<Rightarrow> ring_index" where
  "ring_inc r = r\<lparr>ri_index := incrementIndexOnRing (ri_index r) (ri_size r)\<rparr>"

definition ring_dec :: "ring_index \<Rightarrow> ring_index" where
  "ring_dec r = r\<lparr>ri_index := decrementIndexOnRing (ri_index r) (ri_size r)\<rparr>"

definition ring_post_inc :: "ring_index \<Rightarrow> ring_index \<times> ring_index" where
  "ring_post_inc r = (let old = r in (ring_inc r, old))"

definition ring_post_dec :: "ring_index \<Rightarrow> ring_index \<times> ring_index" where
  "ring_post_dec r = (let old = r in (ring_dec r, old))"

text \<open>
  On positions below the ring size both functions are the steps of a cycle, although the
  decrement of position 0 passes through \<open>2 ^ 64 - 1\<close>.  The sum in the decrement must not
  wrap, which holds for every ring of at most \<open>2 ^ 63\<close> positions (groups have at most
  \<open>2 ^ 16\<close> ranks).
\<close>

lemma unat_incrementIndexOnRing [word_nat]:
  assumes "unat i < unat p"
  shows "unat (incrementIndexOnRing i p) = (unat i + 1) mod unat p"
proof -
  have "unat i + 1 < 2 ^ 64" using assms unat_lt_2p64 [of p] by linarith
  then have "unat i + unat (1 :: u64) < 2 ^ 64" by simp
  from unat_add_no_wrap [OF this] have "unat (i + 1) = unat i + 1" by simp
  then show ?thesis by (simp add: incrementIndexOnRing_def unat_mod_distrib)
qed

lemma unat_decrementIndexOnRing [word_nat]:
  assumes "unat i < unat p" "unat p \<le> 2 ^ 63"
  shows "unat (decrementIndexOnRing i p) = (unat i + unat p - 1) mod unat p"
proof -
  have "unat (i - 1 + p) = unat i + unat p - 1"
  proof (cases "i = 0")
    case True
    have "1 \<le> p" using assms by (simp add: word_le_nat_alt)
    from unat_sub_no_wrap [OF this] True show ?thesis by simp
  next
    case False
    then have "0 < unat i" by (simp add: unat_gt_0)
    moreover from this have "1 \<le> i" by (simp add: word_le_nat_alt)
    note unat_sub_no_wrap [OF this]
    ultimately have i: "unat (i - 1) = unat i - 1" "0 < unat i" by simp_all
    with assms have "unat (i - 1) + unat p < 2 ^ 64" by simp
    from unat_add_no_wrap [OF this] i show ?thesis by simp
  qed
  then show ?thesis by (simp add: decrementIndexOnRing_def unat_mod_distrib)
qed

text \<open>
  The same steps on natural numbers, as the models of the collectives use them; on every ring of
  at most \<open>2 ^ 63\<close> positions the functions of the code agree with them.
\<close>

definition ring_prev :: "nat \<Rightarrow> nat \<Rightarrow> nat" where
  "ring_prev p i = (i + p - 1) mod p"

definition ring_next :: "nat \<Rightarrow> nat \<Rightarrow> nat" where
  "ring_next p i = (i + 1) mod p"

lemma decrementIndexOnRing_nat:
  "i < p \<Longrightarrow> p \<le> 2 ^ 63 \<Longrightarrow> decrementIndexOnRing (of_nat i) (of_nat p) = of_nat (ring_prev p i)"
proof -
  assume b: "i < p" "p \<le> 2 ^ 63"
  then have u: "unat (of_nat i :: u64) = i" "unat (of_nat p :: u64) = p" by (simp_all add: unat_of_nat64)
  have "unat (decrementIndexOnRing (of_nat i) (of_nat p)) = ring_prev p i"
    using b by (subst unat_decrementIndexOnRing) (simp_all add: u ring_prev_def)
  then show ?thesis by (metis of_nat_unat ucast_id)
qed

lemma incrementIndexOnRing_nat:
  "i < p \<Longrightarrow> p \<le> 2 ^ 63 \<Longrightarrow> incrementIndexOnRing (of_nat i) (of_nat p) = of_nat (ring_next p i)"
proof -
  assume b: "i < p" "p \<le> 2 ^ 63"
  then have u: "unat (of_nat i :: u64) = i" "unat (of_nat p :: u64) = p" by (simp_all add: unat_of_nat64)
  have "unat (incrementIndexOnRing (of_nat i) (of_nat p)) = ring_next p i"
    using b by (subst unat_incrementIndexOnRing) (simp_all add: u ring_next_def)
  then show ?thesis by (metis of_nat_unat ucast_id)
qed

lemma ring_prev_alt: "i < p \<Longrightarrow> ring_prev p i = (if i = 0 then p - 1 else i - 1)"
  unfolding ring_prev_def using mod_dec_eq [of p i] by auto

lemma ring_next_alt: "i < p \<Longrightarrow> ring_next p i = (if i = p - 1 then 0 else i + 1)"
  unfolding ring_next_def using mod_inc_eq [of p i] by auto

lemma ring_bounds [simp]:
  assumes "i < p"
  shows "ring_prev p i < p" "ring_next p i < p"
  using assms by (auto simp: ring_prev_alt ring_next_alt)

lemma ring_inverse [simp]:
  assumes "i < p"
  shows "ring_next p (ring_prev p i) = i" "ring_prev p (ring_next p i) = i"
  using assms by (auto simp: ring_prev_alt ring_next_alt)

section \<open>Group\<close>

record group =
  g_ranks :: "u16 list"
  g_rank :: rank

definition generate_group_all :: "u16 \<Rightarrow> u16 list" where
  "generate_group_all nProc = map of_nat [0..<unat nProc]"

text \<open>\<open>std::find\<close> and the distance of its result from the beginning.\<close>

fun find_from :: "nat \<Rightarrow> u16 list \<Rightarrow> u16 \<Rightarrow> nat option" where
  "find_from n [] x = None"
| "find_from n (y # ys) x = (if y = x then Some n else find_from (Suc n) ys x)"

definition mk_group :: "u16 \<Rightarrow> u16 list \<Rightarrow> group res" where
  "mk_group global_rank group_ranks =
     (if length group_ranks = 0 then Inl (RuntimeError ''Cannot create empty group'')
      else if card (set group_ranks) \<noteq> length group_ranks
        then Inl (RuntimeError ''Cannot create group containing duplicated ranks'')
      else case find_from 0 group_ranks global_rank of
             None \<Rightarrow> Inl (RuntimeError ''Current rank does not belong to group'')
           | Some i \<Rightarrow> Inr \<lparr>g_ranks = group_ranks, g_rank = Rank (of_nat i)\<rparr>)"

definition mk_group_all :: "u16 \<Rightarrow> u16 \<Rightarrow> group res" where
  "mk_group_all nProc global_rank = mk_group global_rank (generate_group_all nProc)"

definition g_size :: "group \<Rightarrow> nat" where
  "g_size g = length (g_ranks g)"

definition g_global_rank :: "group \<Rightarrow> u16" where
  "g_global_rank g = g_ranks g ! unat (get (g_rank g))"

definition contains_rank :: "group \<Rightarrow> rank \<Rightarrow> bool" where
  "contains_rank g r = (r < Rank (of_nat (g_size g)))"

definition contains_global_rank :: "group \<Rightarrow> u16 \<Rightarrow> bool" where
  "contains_global_rank g x = (find_from 0 (g_ranks g) x \<noteq> None)"

definition toGlobalRank :: "group \<Rightarrow> rank \<Rightarrow> u16 res" where
  "toGlobalRank g r =
     (if g_size g \<le> unat (get r) then Inl (RuntimeError ''Invalid group GlobalRank'')
      else Inr (g_ranks g ! unat (get r)))"

definition toGroupRank :: "group \<Rightarrow> u16 \<Rightarrow> rank res" where
  "toGroupRank g x =
     (case find_from 0 (g_ranks g) x of
        Some i \<Rightarrow> Inr (Rank (of_nat i))
      | None \<Rightarrow> Inl (RuntimeError ''Global GlobalRank not part of group''))"

section \<open>Lemmas on groups\<close>

definition group_inv :: "group \<Rightarrow> bool" where
  "group_inv g \<longleftrightarrow> distinct (g_ranks g) \<and> unat (get (g_rank g)) < g_size g"

lemma find_from_Some: "find_from n xs x = Some i \<Longrightarrow> n \<le> i \<and> i < n + length xs \<and> xs ! (i - n) = x"
  by (induction n xs x rule: find_from.induct) (fastforce simp: nth_Cons' split: if_splits)+

lemma find_from_None: "find_from n xs x = None \<longleftrightarrow> x \<notin> set xs"
  by (induction n xs x rule: find_from.induct) auto

lemma find_from_nth: "distinct xs \<Longrightarrow> i < length xs \<Longrightarrow> find_from n xs (xs ! i) = Some (n + i)"
proof (induction xs arbitrary: n i)
  case Nil
  then show ?case by simp
next
  case (Cons x xs)
  then show ?case by (cases i) auto
qed

lemma distinct_u16_length: "distinct (xs :: u16 list) \<Longrightarrow> length xs \<le> 2 ^ 16"
proof -
  assume d: "distinct xs"
  have "unat ` set xs \<subseteq> {..<2 ^ 16}" by auto
  then have "card (unat ` set xs) \<le> 2 ^ 16" using card_mono [of "{..<2 ^ 16 :: nat}" "unat ` set xs"] by simp
  moreover have "card (unat ` set xs) = card (set xs)"
    by (rule card_image) (simp add: inj_on_def word_unat_eq_iff)
  ultimately show ?thesis using d by (simp add: distinct_card)
qed

lemma mk_group_Inr:
  assumes "mk_group me rs = Inr g"
  shows "group_inv g" "g_ranks g = rs" "g_global_rank g = me" "distinct rs" "rs \<noteq> []"
proof -
  from assms obtain i where i: "find_from 0 rs me = Some i"
    and g: "g = \<lparr>g_ranks = rs, g_rank = Rank (of_nat i)\<rparr>" and d: "distinct rs" and ne: "rs \<noteq> []"
    by (auto simp: mk_group_def card_distinct split: if_splits option.splits)
  from find_from_Some [OF i] have li: "i < length rs" "rs ! i = me" by auto
  with distinct_u16_length [OF d] have u: "unat (of_nat i :: u16) = i"
    by (intro unat_of_nat16) linarith
  show "group_inv g" "g_ranks g = rs" "g_global_rank g = me" "distinct rs" "rs \<noteq> []"
    using g li u d ne by (simp_all add: group_inv_def g_size_def g_global_rank_def)
qed

text \<open>
  The constructor accepts a list of global ranks exactly when it is non-empty,
  has no duplicate and contains the calling process; the group it builds is well formed, and
  its own rank names the calling process.
\<close>

theorem mk_group_correct:
  "(case mk_group me rs of
      Inr g \<Rightarrow> rs \<noteq> [] \<and> distinct rs \<and> me \<in> set rs \<and> group_inv g \<and> g_ranks g = rs \<and>
        g_global_rank g = me \<and> toGlobalRank g (g_rank g) = Inr me \<and> toGroupRank g me = Inr (g_rank g)
    | Inl ex \<Rightarrow> (rs = [] \<and> ex = RuntimeError ''Cannot create empty group'') \<or>
        (rs \<noteq> [] \<and> \<not> distinct rs \<and>
          ex = RuntimeError ''Cannot create group containing duplicated ranks'') \<or>
        (rs \<noteq> [] \<and> distinct rs \<and> me \<notin> set rs \<and>
          ex = RuntimeError ''Current rank does not belong to group''))"
proof (cases "mk_group me rs")
  case (Inl ex)
  then show ?thesis
    by (auto simp: mk_group_def find_from_None card_distinct distinct_card
        split: if_splits option.splits)
next
  case (Inr g)
  note G = mk_group_Inr [OF Inr]
  from Inr obtain i where i: "find_from 0 rs me = Some i" "g = \<lparr>g_ranks = rs, g_rank = Rank (of_nat i)\<rparr>"
    by (auto simp: mk_group_def split: if_splits option.splits)
  then have "me \<in> set rs" using find_from_None [of 0 rs me] by auto
  with Inr G i show ?thesis
    by (simp add: toGlobalRank_def toGroupRank_def group_inv_def not_le g_global_rank_def)
qed

text \<open>
  In a well-formed group the translations between group ranks and global ranks
  are inverse to each other, and each reports an error exactly outside the group.
\<close>

theorem rank_translation_roundtrip:
  assumes "group_inv g"
  shows "(\<forall>r. case toGlobalRank g r of Inr x \<Rightarrow> toGroupRank g x = Inr r \<and> contains_global_rank g x
            | Inl _ \<Rightarrow> g_size g \<le> unat (get r))
    \<and> (\<forall>x. case toGroupRank g x of Inr r \<Rightarrow> toGlobalRank g r = Inr x
            | Inl _ \<Rightarrow> \<not> contains_global_rank g x)"
proof (intro conjI allI)
  have d: "distinct (g_ranks g)" using assms by (simp add: group_inv_def)
  fix r
  show "case toGlobalRank g r of Inr x \<Rightarrow> toGroupRank g x = Inr r \<and> contains_global_rank g x
            | Inl _ \<Rightarrow> g_size g \<le> unat (get r)"
    using find_from_nth [OF d, of "unat (get r)" 0]
    by (auto simp: toGlobalRank_def toGroupRank_def contains_global_rank_def g_size_def)
next
  have d: "distinct (g_ranks g)" using assms by (simp add: group_inv_def)
  fix x
  show "case toGroupRank g x of Inr r \<Rightarrow> toGlobalRank g r = Inr x
            | Inl _ \<Rightarrow> \<not> contains_global_rank g x"
  proof (cases "find_from 0 (g_ranks g) x")
    case None
    then show ?thesis by (simp add: toGroupRank_def contains_global_rank_def)
  next
    case (Some i)
    from find_from_Some [OF this] have i: "i < g_size g" "g_ranks g ! i = x" by (auto simp: g_size_def)
    with distinct_u16_length [OF d] have "unat (of_nat i :: u16) = i"
      by (intro unat_of_nat16) (simp add: g_size_def)
    with i Some show ?thesis by (simp add: toGroupRank_def toGlobalRank_def)
  qed
qed

definition example_group :: group where
  "example_group = \<lparr>g_ranks = [4, 7, 1], g_rank = Rank 1\<rparr>"

theorem rank_translation_roundtrip_witness:
  "group_inv example_group \<and> toGlobalRank example_group (Rank 2) = Inr 1 \<and>
   toGroupRank example_group 1 = Inr (Rank 2)"
proof -
  have i: "group_inv example_group" by (simp add: example_group_def group_inv_def g_size_def)
  have "toGlobalRank example_group (Rank 2) = Inr 1"
    by (simp add: example_group_def toGlobalRank_def g_size_def)
  with rank_translation_roundtrip [OF i, THEN conjunct1, THEN spec, of "Rank 2"] i
  show ?thesis by simp
qed

text \<open>
  \<open>contains_rank\<close> compares with the group size truncated to 16 bits: for every
  group of fewer than 65536 ranks it says whether the rank can be translated, and for the
  group of all 65536 ranks it rejects every rank.
\<close>

theorem contains_rank_truncation:
  assumes "group_inv g"
  shows "contains_rank g r \<longleftrightarrow> g_size g \<noteq> 2 ^ 16 \<and> (\<exists>x. toGlobalRank g r = Inr x)"
proof -
  have le: "g_size g \<le> 2 ^ 16"
    using assms distinct_u16_length by (simp add: group_inv_def g_size_def)
  show ?thesis
  proof (cases "g_size g = 2 ^ 16")
    case True
    then have "unat (of_nat (g_size g) :: u16) = 0" by (simp add: unat_of_nat)
    then have "(of_nat (g_size g) :: u16) = 0" by (simp only: unat_eq_0)
    then have "\<not> contains_rank g r" unfolding contains_rank_def less_rank_def rank.sel
      by (simp only: word_not_simps not_False_eq_True)
    with True show ?thesis by simp
  next
    case False
    with le have "unat (of_nat (g_size g) :: u16) = g_size g" by (intro unat_of_nat16) simp
    with False show ?thesis
      by (auto simp: contains_rank_def less_rank_def toGlobalRank_def word_less_nat_alt)
  qed
qed

theorem contains_rank_truncation_witness:
  "group_inv example_group \<and> contains_rank example_group (Rank 2) \<and>
   \<not> contains_rank example_group (Rank 3)"
proof -
  have i: "group_inv example_group" by (simp add: example_group_def group_inv_def g_size_def)
  show ?thesis
    using contains_rank_truncation [OF i, of "Rank 2"] contains_rank_truncation [OF i, of "Rank 3"] i
    by (simp add: example_group_def toGlobalRank_def g_size_def)
qed

end
