(* ===== verification/Serialization.thy ===== *)
theory Serialization
  imports Gaspi_Prelude
begin

unbundle bit_operations_syntax

text \<open>
  \<open>utility/serialization.hpp\<close> and \<open>utility/serialization.cpp\<close>: the overloads of \<open>size\<close>,
  \<open>serialize\<close> and \<open>deserialize\<close> for one C++ type are the fields of a \<open>codec\<close>; a template over
  an element type is a function from the element's codec to the container's codec.
  Memory is a map from addresses to bytes, a pointer is a natural number; scalars are
  stored in the host's byte order, taken little-endian here.
\<close>

section \<open>Memory, streams\<close>

type_synonym mem = "nat \<Rightarrow> u8"

definition memcpy :: "mem \<Rightarrow> nat \<Rightarrow> u8 list \<Rightarrow> mem" where
  "memcpy m p bs = (\<lambda>a. if p \<le> a \<and> a < p + length bs then bs ! (a - p) else m a)"

definition load :: "mem \<Rightarrow> nat \<Rightarrow> nat \<Rightarrow> u8 list" where
  "load m p n = map (\<lambda>i. m (p + i)) [0..<n]"

record ostream =
  os_data :: "u8 list"
  os_good :: bool

record istream =
  is_data :: "u8 list"
  is_good :: bool

text \<open>\<open>ostream::write\<close> does nothing on a stream that is not good.\<close>

definition os_write :: "ostream \<Rightarrow> u8 list \<Rightarrow> ostream" where
  "os_write out bs = (if os_good out then out\<lparr>os_data := os_data out @ bs\<rparr> else out)"

text \<open>
  \<open>istream::read\<close> takes \<open>n\<close> bytes; if fewer are left it takes them all and the stream is no
  longer good.
\<close>

definition is_read :: "istream \<Rightarrow> nat \<Rightarrow> u8 list \<times> istream" where
  "is_read inp n =
     (if \<not> is_good inp then ([], inp)
      else if n \<le> length (is_data inp) then (take n (is_data inp), inp\<lparr>is_data := drop n (is_data inp)\<rparr>)
      else (is_data inp, inp\<lparr>is_data := [], is_good := False\<rparr>))"

section \<open>Codecs\<close>

record 'a codec =
  c_sizeof :: nat
  c_size :: "'a \<Rightarrow> nat"
  c_ser :: "mem \<Rightarrow> nat \<Rightarrow> 'a \<Rightarrow> mem \<times> nat"
  c_des :: "mem \<Rightarrow> nat \<Rightarrow> 'a \<times> nat"
  c_out :: "ostream \<Rightarrow> 'a \<Rightarrow> ostream res"
  c_in :: "istream \<Rightarrow> ('a \<times> istream) res"

subsection \<open>Scalars\<close>

definition to_bytes :: "nat \<Rightarrow> 'a::len word \<Rightarrow> u8 list" where
  "to_bytes w x = map (\<lambda>i. ucast (drop_bit (8 * i) x)) [0..<w]"

fun from_bytes :: "u8 list \<Rightarrow> 'a::len word" where
  "from_bytes [] = 0"
| "from_bytes (b # bs) = ucast b OR push_bit 8 (from_bytes bs)"

definition scalar_out :: "nat \<Rightarrow> ostream \<Rightarrow> 'a::len word \<Rightarrow> ostream res" where
  "scalar_out w out elem =
     (let out1 = os_write out (to_bytes w elem)
      in if \<not> os_good out1 then Inl (RuntimeError ''serialization::serialize (ostream &, T const &) failed'')
         else Inr out1)"

definition scalar_in :: "nat \<Rightarrow> istream \<Rightarrow> ('a::len word \<times> istream) res" where
  "scalar_in w inp =
     (case is_read inp w of (bs, inp1) \<Rightarrow>
        if \<not> is_good inp1 then Inl (RuntimeError ''serialization::deserialize (T &, istream &) failed'')
        else Inr (from_bytes bs, inp1))"

definition scalar_codec :: "nat \<Rightarrow> 'a::len word codec" where
  "scalar_codec w =
     \<lparr>c_sizeof = w,
      c_size = (\<lambda>elem. w),
      c_ser = (\<lambda>buffer p elem. (memcpy buffer p (to_bytes w elem), w)),
      c_des = (\<lambda>buffer p. (from_bytes (load buffer p w), w)),
      c_out = scalar_out w,
      c_in = scalar_in w\<rparr>"

text \<open>The explicit instantiations for \<open>char\<close>, \<open>short\<close>, \<open>int\<close>, \<open>long\<close> and their unsigned variants.\<close>

definition char_codec :: "u8 codec" where "char_codec = scalar_codec 1"
definition short_codec :: "u16 codec" where "short_codec = scalar_codec 2"
definition int_codec :: "u32 codec" where "int_codec = scalar_codec 4"
definition long_codec :: "u64 codec" where "long_codec = scalar_codec 8"

abbreviation size_t_codec :: "u64 codec" where "size_t_codec \<equiv> long_codec"

subsection \<open>Strings\<close>

definition string_size :: "u8 list \<Rightarrow> nat" where
  "string_size str = 8 + length str"

definition string_ser :: "mem \<Rightarrow> nat \<Rightarrow> u8 list \<Rightarrow> mem \<times> nat" where
  "string_ser buffer p str =
     (case c_ser size_t_codec buffer p (of_nat (length str)) of (m1, n) \<Rightarrow>
        (memcpy m1 (p + n) str, string_size str))"

definition string_des :: "mem \<Rightarrow> nat \<Rightarrow> u8 list \<times> nat" where
  "string_des buffer p =
     (case c_des size_t_codec buffer p of (len, n) \<Rightarrow>
        let str = load buffer (p + n) (unat len) in (str, string_size str))"

definition string_out :: "ostream \<Rightarrow> u8 list \<Rightarrow> ostream res" where
  "string_out out str =
     (let out1 = os_write out (to_bytes 8 (of_nat (length str) :: u64));
          out2 = os_write out1 str
      in if \<not> os_good out2 then Inl (RuntimeError ''serialization::serialize (ostream &, string const &) failed'')
         else Inr out2)"

definition string_in :: "istream \<Rightarrow> (u8 list \<times> istream) res" where
  "string_in inp =
     rbind (c_in size_t_codec inp) (\<lambda>(len, inp1).
       case is_read inp1 (unat len) of (str, inp2) \<Rightarrow>
         if \<not> is_good inp2 then Inl (RuntimeError ''serialization::deserialize (string &, istream &) failed'')
         else Inr (str, inp2))"

definition string_codec :: "nat \<Rightarrow> u8 list codec" where
  "string_codec sizeof_string =
     \<lparr>c_sizeof = sizeof_string, c_size = string_size, c_ser = string_ser, c_des = string_des,
      c_out = string_out, c_in = string_in\<rparr>"

subsection \<open>Pairs\<close>

definition pair_size :: "'a codec \<Rightarrow> 'b codec \<Rightarrow> 'a \<times> 'b \<Rightarrow> nat" where
  "pair_size U V data = c_sizeof U + c_sizeof V"

definition pair_ser :: "'a codec \<Rightarrow> 'b codec \<Rightarrow> mem \<Rightarrow> nat \<Rightarrow> 'a \<times> 'b \<Rightarrow> mem \<times> nat" where
  "pair_ser U V buffer p data =
     (case c_ser U buffer p (fst data) of (m1, n1) \<Rightarrow>
      case c_ser V m1 (p + n1) (snd data) of (m2, n2) \<Rightarrow> (m2, (p + n1 + n2) - p))"

definition pair_des :: "'a codec \<Rightarrow> 'b codec \<Rightarrow> mem \<Rightarrow> nat \<Rightarrow> ('a \<times> 'b) \<times> nat" where
  "pair_des U V buffer p =
     (case c_des U buffer p of (x, n1) \<Rightarrow>
      case c_des V buffer (p + n1) of (y, n2) \<Rightarrow> ((x, y), (p + n1 + n2) - p))"

definition pair_out :: "'a codec \<Rightarrow> 'b codec \<Rightarrow> ostream \<Rightarrow> 'a \<times> 'b \<Rightarrow> ostream res" where
  "pair_out U V out data =
     rbind (c_out U out (fst data)) (\<lambda>out1. rbind (c_out V out1 (snd data)) (\<lambda>out2.
       if \<not> os_good out2 then Inl (RuntimeError ''serialization::serialize (ostream &, pair<U,V> const &) failed'')
       else Inr out2))"

definition pair_in :: "'a codec \<Rightarrow> 'b codec \<Rightarrow> istream \<Rightarrow> (('a \<times> 'b) \<times> istream) res" where
  "pair_in U V inp =
     rbind (c_in U inp) (\<lambda>(x, inp1). rbind (c_in V inp1) (\<lambda>(y, inp2).
       if \<not> is_good inp2 then Inl (RuntimeError ''serialization::deserialize (pair<U,V> &, istream &) failed'')
       else Inr ((x, y), inp2)))"

definition pair_codec :: "nat \<Rightarrow> 'a codec \<Rightarrow> 'b codec \<Rightarrow> ('a \<times> 'b) codec" where
  "pair_codec sizeof_pair U V =
     \<lparr>c_sizeof = sizeof_pair, c_size = pair_size U V, c_ser = pair_ser U V, c_des = pair_des U V,
      c_out = pair_out U V, c_in = pair_in U V\<rparr>"

subsection \<open>Vectors and deques\<close>

definition vector_size :: "'a codec \<Rightarrow> 'a list \<Rightarrow> nat" where
  "vector_size T vec = foldl (\<lambda>totSize it. totSize + c_size T it) 8 vec"

fun ser_elems :: "'a codec \<Rightarrow> mem \<Rightarrow> nat \<Rightarrow> 'a list \<Rightarrow> mem \<times> nat" where
  "ser_elems T m cPtr [] = (m, cPtr)"
| "ser_elems T m cPtr (it # vec) =
     (case c_ser T m cPtr it of (m1, n) \<Rightarrow> ser_elems T m1 (cPtr + n) vec)"

fun des_elems :: "'a codec \<Rightarrow> mem \<Rightarrow> nat \<Rightarrow> nat \<Rightarrow> 'a list \<times> nat" where
  "des_elems T m cPtr 0 = ([], cPtr)"
| "des_elems T m cPtr (Suc k) =
     (case c_des T m cPtr of (x, n) \<Rightarrow>
      case des_elems T m (cPtr + n) k of (xs, q) \<Rightarrow> (x # xs, q))"

fun out_elems :: "'a codec \<Rightarrow> ostream \<Rightarrow> 'a list \<Rightarrow> ostream res" where
  "out_elems T out [] = Inr out"
| "out_elems T out (it # vec) = rbind (c_out T out it) (\<lambda>out1. out_elems T out1 vec)"

fun in_elems :: "'a codec \<Rightarrow> istream \<Rightarrow> nat \<Rightarrow> ('a list \<times> istream) res" where
  "in_elems T inp 0 = Inr ([], inp)"
| "in_elems T inp (Suc k) =
     rbind (c_in T inp) (\<lambda>(x, inp1). rbind (in_elems T inp1 k) (\<lambda>(xs, inp2). Inr (x # xs, inp2)))"

definition vector_ser :: "'a codec \<Rightarrow> mem \<Rightarrow> nat \<Rightarrow> 'a list \<Rightarrow> mem \<times> nat" where
  "vector_ser T buffer p vec =
     (case c_ser size_t_codec buffer p (of_nat (length vec)) of (m1, n) \<Rightarrow>
      case ser_elems T m1 (p + n) vec of (m2, cPtr) \<Rightarrow> (m2, vector_size T vec))"

definition vector_des :: "'a codec \<Rightarrow> mem \<Rightarrow> nat \<Rightarrow> 'a list \<times> nat" where
  "vector_des T buffer p =
     (case c_des size_t_codec buffer p of (len, n) \<Rightarrow>
      case des_elems T buffer (p + n) (unat len) of (vec, cPtr) \<Rightarrow> (vec, vector_size T vec))"

definition vector_out :: "'a codec \<Rightarrow> ostream \<Rightarrow> 'a list \<Rightarrow> ostream res" where
  "vector_out T out vec =
     rbind (c_out size_t_codec out (of_nat (length vec))) (\<lambda>out1. rbind (out_elems T out1 vec) (\<lambda>out2.
       if \<not> os_good out2 then Inl (RuntimeError ''serialization::serialize (ostream &, vector<T> const &) failed'')
       else Inr out2))"

definition vector_in :: "'a codec \<Rightarrow> istream \<Rightarrow> ('a list \<times> istream) res" where
  "vector_in T inp =
     rbind (c_in size_t_codec inp) (\<lambda>(len, inp1). rbind (in_elems T inp1 (unat len)) (\<lambda>(vec, inp2).
       if \<not> is_good inp2 then Inl (RuntimeError ''serialization::deserialize (vector<T> &, istream &) failed'')
       else Inr (vec, inp2)))"

definition vector_codec :: "nat \<Rightarrow> 'a codec \<Rightarrow> 'a list codec" where
  "vector_codec sizeof_vector T =
     \<lparr>c_sizeof = sizeof_vector, c_size = vector_size T, c_ser = vector_ser T, c_des = vector_des T,
      c_out = vector_out T, c_in = vector_in T\<rparr>"

text \<open>The overloads for \<open>std::deque\<close> repeat those for \<open>std::vector\<close> line by line.\<close>

definition deque_codec :: "nat \<Rightarrow> 'a codec \<Rightarrow> 'a list codec" where
  "deque_codec sizeof_deque T =
     \<lparr>c_sizeof = sizeof_deque, c_size = vector_size T, c_ser = vector_ser T, c_des = vector_des T,
      c_out = vector_out T, c_in = vector_in T\<rparr>"


subsection \<open>Sets and maps\<close>

text \<open>A \<open>std::set\<close> is the strictly increasing list of its elements, a \<open>std::map\<close> the list of its
  entries with strictly increasing keys; \<open>insert\<close> keeps an element that is already there.\<close>

fun set_insert :: "'a::linorder \<Rightarrow> 'a list \<Rightarrow> 'a list" where
  "set_insert x [] = [x]"
| "set_insert x (y # ys) =
     (if x < y then x # y # ys else if x = y then y # ys else y # set_insert x ys)"

fun map_insert :: "'a::linorder \<Rightarrow> 'b \<Rightarrow> ('a \<times> 'b) list \<Rightarrow> ('a \<times> 'b) list" where
  "map_insert k v [] = [(k, v)]"
| "map_insert k v ((l, w) # ys) =
     (if k < l then (k, v) # (l, w) # ys else if k = l then (l, w) # ys else (l, w) # map_insert k v ys)"

fun des_set_elems :: "'a::linorder codec \<Rightarrow> mem \<Rightarrow> nat \<Rightarrow> nat \<Rightarrow> 'a list \<Rightarrow> 'a list \<times> nat" where
  "des_set_elems T m cPtr 0 acc = (acc, cPtr)"
| "des_set_elems T m cPtr (Suc k) acc =
     (case c_des T m cPtr of (elem, n) \<Rightarrow> des_set_elems T m (cPtr + n) k (set_insert elem acc))"

fun in_set_elems :: "'a::linorder codec \<Rightarrow> istream \<Rightarrow> nat \<Rightarrow> 'a list \<Rightarrow> ('a list \<times> istream) res" where
  "in_set_elems T inp 0 acc = Inr (acc, inp)"
| "in_set_elems T inp (Suc k) acc =
     rbind (c_in T inp) (\<lambda>(elem, inp1). in_set_elems T inp1 k (set_insert elem acc))"

definition set_ser :: "'a codec \<Rightarrow> mem \<Rightarrow> nat \<Rightarrow> 'a list \<Rightarrow> mem \<times> nat" where
  "set_ser T buffer p st =
     (case c_ser size_t_codec buffer p (of_nat (length st)) of (m1, n) \<Rightarrow>
      case ser_elems T m1 (p + n) st of (m2, cPtr) \<Rightarrow> (m2, vector_size T st))"

definition set_des :: "'a::linorder codec \<Rightarrow> mem \<Rightarrow> nat \<Rightarrow> 'a list \<times> nat" where
  "set_des T buffer p =
     (case c_des size_t_codec buffer p of (len, n) \<Rightarrow>
      case des_set_elems T buffer (p + n) (unat len) [] of (st, cPtr) \<Rightarrow> (st, vector_size T st))"

definition set_out :: "'a codec \<Rightarrow> ostream \<Rightarrow> 'a list \<Rightarrow> ostream res" where
  "set_out T out st =
     rbind (out_elems T (os_write out (to_bytes 8 (of_nat (length st) :: u64))) st) (\<lambda>out2.
       if \<not> os_good out2 then Inl (RuntimeError ''serialization::serialize (ostream &, set<T> const &) failed'')
       else Inr out2)"

definition set_in :: "'a::linorder codec \<Rightarrow> istream \<Rightarrow> ('a list \<times> istream) res" where
  "set_in T inp =
     rbind (c_in size_t_codec inp) (\<lambda>(len, inp1). rbind (in_set_elems T inp1 (unat len) []) (\<lambda>(st, inp2).
       if \<not> is_good inp2 then Inl (RuntimeError ''serialization::deserialize (set<T> &, istream &) failed'')
       else Inr (st, inp2)))"

definition set_codec :: "nat \<Rightarrow> 'a::linorder codec \<Rightarrow> 'a list codec" where
  "set_codec sizeof_set T =
     \<lparr>c_sizeof = sizeof_set, c_size = vector_size T, c_ser = set_ser T, c_des = set_des T,
      c_out = set_out T, c_in = set_in T\<rparr>"

definition map_size :: "'a codec \<Rightarrow> 'b codec \<Rightarrow> ('a \<times> 'b) list \<Rightarrow> nat" where
  "map_size U V mp = foldl (\<lambda>totSize it. totSize + (c_size U (fst it) + c_size V (snd it))) 8 mp"

fun ser_entries :: "'a codec \<Rightarrow> 'b codec \<Rightarrow> mem \<Rightarrow> nat \<Rightarrow> ('a \<times> 'b) list \<Rightarrow> mem \<times> nat" where
  "ser_entries U V m cPtr [] = (m, cPtr)"
| "ser_entries U V m cPtr (it # mp) =
     (case c_ser U m cPtr (fst it) of (m1, n1) \<Rightarrow>
      case c_ser V m1 (cPtr + n1) (snd it) of (m2, n2) \<Rightarrow> ser_entries U V m2 (cPtr + n1 + n2) mp)"

fun des_entries :: "'a::linorder codec \<Rightarrow> 'b codec \<Rightarrow> mem \<Rightarrow> nat \<Rightarrow> nat \<Rightarrow> ('a \<times> 'b) list \<Rightarrow> ('a \<times> 'b) list \<times> nat" where
  "des_entries U V m cPtr 0 acc = (acc, cPtr)"
| "des_entries U V m cPtr (Suc k) acc =
     (case c_des U m cPtr of (key, n1) \<Rightarrow>
      case c_des V m (cPtr + n1) of (elem, n2) \<Rightarrow>
        des_entries U V m (cPtr + n1 + n2) k (map_insert key elem acc))"

fun out_entries :: "'a codec \<Rightarrow> 'b codec \<Rightarrow> ostream \<Rightarrow> ('a \<times> 'b) list \<Rightarrow> ostream res" where
  "out_entries U V out [] = Inr out"
| "out_entries U V out (it # mp) =
     rbind (c_out U out (fst it)) (\<lambda>out1. rbind (c_out V out1 (snd it)) (\<lambda>out2. out_entries U V out2 mp))"

fun in_entries :: "'a::linorder codec \<Rightarrow> 'b codec \<Rightarrow> istream \<Rightarrow> nat \<Rightarrow> ('a \<times> 'b) list \<Rightarrow> (('a \<times> 'b) list \<times> istream) res" where
  "in_entries U V inp 0 acc = Inr (acc, inp)"
| "in_entries U V inp (Suc k) acc =
     rbind (c_in U inp) (\<lambda>(key, inp1). rbind (c_in V inp1) (\<lambda>(elem, inp2).
       in_entries U V inp2 k (map_insert key elem acc)))"

definition map_ser :: "'a codec \<Rightarrow> 'b codec \<Rightarrow> mem \<Rightarrow> nat \<Rightarrow> ('a \<times> 'b) list \<Rightarrow> mem \<times> nat" where
  "map_ser U V buffer p mp =
     (case c_ser size_t_codec buffer p (of_nat (length mp)) of (m1, n) \<Rightarrow>
      case ser_entries U V m1 (p + n) mp of (m2, cPtr) \<Rightarrow> (m2, cPtr - p))"

definition map_des :: "'a::linorder codec \<Rightarrow> 'b codec \<Rightarrow> mem \<Rightarrow> nat \<Rightarrow> ('a \<times> 'b) list \<times> nat" where
  "map_des U V buffer p =
     (case c_des size_t_codec buffer p of (len, n) \<Rightarrow>
      case des_entries U V buffer (p + n) (unat len) [] of (mp, cPtr) \<Rightarrow> (mp, cPtr - p))"

definition map_out :: "'a codec \<Rightarrow> 'b codec \<Rightarrow> ostream \<Rightarrow> ('a \<times> 'b) list \<Rightarrow> ostream res" where
  "map_out U V out mp =
     rbind (out_entries U V (os_write out (to_bytes 8 (of_nat (length mp) :: u64))) mp) (\<lambda>out2.
       if \<not> os_good out2 then Inl (RuntimeError ''serialization::serialize (ostream &, map<U, V> const &) failed'')
       else Inr out2)"

definition map_in :: "'a::linorder codec \<Rightarrow> 'b codec \<Rightarrow> istream \<Rightarrow> (('a \<times> 'b) list \<times> istream) res" where
  "map_in U V inp =
     rbind (c_in size_t_codec inp) (\<lambda>(len, inp1). rbind (in_entries U V inp1 (unat len) []) (\<lambda>(mp, inp2).
       if \<not> is_good inp2 then Inl (RuntimeError ''serialization::deserialize (map<U, V> &, istream &) failed'')
       else Inr (mp, inp2)))"

definition map_codec :: "nat \<Rightarrow> 'a::linorder codec \<Rightarrow> 'b codec \<Rightarrow> ('a \<times> 'b) list codec" where
  "map_codec sizeof_map U V =
     \<lparr>c_sizeof = sizeof_map, c_size = map_size U V, c_ser = map_ser U V, c_des = map_des U V,
      c_out = map_out U V, c_in = map_in U V\<rparr>"

end
