(* ===== verification/Serialization_Laws.thy ===== *)
theory Serialization_Laws
  imports Serialization
begin

unbundle bit_operations_syntax

text \<open>
  The contract of a serializable type: a byte encoding such that \<open>size\<close> is its length, both
  \<open>serialize\<close> overloads write exactly it, and both \<open>deserialize\<close> overloads read it back and fail
  on every shorter input.  The contract is proved for the scalars and strings and carried
  through vectors, deques, sets, maps and pairs.
\<close>

section \<open>Bytes\<close>

lemma length_to_bytes [simp]: "length (to_bytes w x) = w"
  by (simp add: to_bytes_def)

lemma bit_from_bytes:
  "bit (from_bytes bs :: 'a::len word) n \<longleftrightarrow>
     n < LENGTH('a) \<and> n < 8 * length bs \<and> bit (bs ! (n div 8)) (n mod 8)"
proof (induction bs arbitrary: n)
  case Nil
  then show ?case by simp
next
  case (Cons b bs)
  show ?case
  proof (cases "n < 8")
    case True
    then show ?thesis by (auto simp: bit_simps Cons.IH)
  next
    case False
    then have n: "n div 8 = Suc ((n - 8) div 8)" "(n - 8) mod 8 = n mod 8" "n = (n - 8) + 8"
      by (simp_all add: le_div_geq le_mod_geq)
    have "\<not> bit b n" using False bit_imp_le_length [of b n] by auto
    then show ?thesis using False n by (auto simp: bit_simps Cons.IH)
  qed
qed

lemma from_to_bytes: "8 * w = LENGTH('a) \<Longrightarrow> from_bytes (to_bytes w x) = (x :: 'a::len word)"
proof (rule bit_word_eqI)
  fix n assume w: "8 * w = LENGTH('a)" and n: "n < LENGTH('a)"
  then have "n div 8 < w" by (simp add: less_mult_imp_div_less mult.commute)
  then have "to_bytes w x ! (n div 8) = ucast (drop_bit (8 * (n div 8)) x)"
    by (simp add: to_bytes_def)
  moreover have "8 * (n div 8) + n mod 8 = n" by simp
  ultimately show "bit (from_bytes (to_bytes w x) :: 'a word) n = bit x n"
    using n w by (simp add: bit_from_bytes bit_simps)
qed

lemma memcpy_Nil [simp]: "memcpy m p [] = m"
  by (rule ext) (auto simp: memcpy_def)

lemma memcpy_append: "memcpy (memcpy m p xs) (p + length xs) ys = memcpy m p (xs @ ys)"
proof (rule ext)
  fix a
  have "a - (p + length xs) = a - p - length xs" by simp
  then show "memcpy (memcpy m p xs) (p + length xs) ys a = memcpy m p (xs @ ys) a"
    by (auto simp: memcpy_def nth_append)
qed

lemma length_load [simp]: "length (load m p n) = n"
  by (simp add: load_def)

lemma nth_load [simp]: "i < n \<Longrightarrow> load m p n ! i = m (p + i)"
  by (simp add: load_def)

lemma load_add: "load m p (a + b) = load m p a @ load m (p + a) b"
  by (rule nth_equalityI) (simp_all add: nth_append del: nth_load, auto simp: load_def)

lemma load_memcpy: "load (memcpy m p bs) p (length bs) = bs"
  by (rule nth_equalityI) (simp_all add: memcpy_def)

lemma load_append_iff:
  "load m p (length (xs @ ys)) = xs @ ys \<longleftrightarrow>
     load m p (length xs) = xs \<and> load m (p + length xs) (length ys) = ys"
  by (simp add: load_add)

section \<open>Readers\<close>

text \<open>A reader returns \<open>x\<close> from every good stream that starts with \<open>bs\<close>, leaving the rest, and
  fails on a good stream that holds only a proper prefix of \<open>bs\<close>.\<close>

definition reads :: "(istream \<Rightarrow> ('a \<times> istream) res) \<Rightarrow> u8 list \<Rightarrow> 'a \<Rightarrow> bool" where
  "reads rd bs x \<longleftrightarrow>
     (\<forall>t r. is_good t \<longrightarrow> is_data t = bs @ r \<longrightarrow> rd t = Inr (x, t\<lparr>is_data := r\<rparr>)) \<and>
     (\<forall>t y ys. is_good t \<longrightarrow> bs = is_data t @ y # ys \<longrightarrow> (\<exists>e. rd t = Inl e))"

lemma reads_ok: "reads rd bs x \<Longrightarrow> is_good t \<Longrightarrow> is_data t = bs @ r \<Longrightarrow> rd t = Inr (x, t\<lparr>is_data := r\<rparr>)"
  by (simp add: reads_def)

lemma reads_short: "reads rd bs x \<Longrightarrow> is_good t \<Longrightarrow> bs = is_data t @ y # ys \<Longrightarrow> \<exists>e. rd t = Inl e"
  by (simp add: reads_def)

lemma reads_return: "(\<And>t. is_good t \<Longrightarrow> rd t = Inr (x, t)) \<Longrightarrow> reads rd [] x"
  by (simp add: reads_def)

lemma reads_bind:
  assumes 1: "reads rda bs1 x" and 2: "reads (rdb x) bs2 y"
    and rd: "\<And>t. rd t = rbind (rda t) (\<lambda>(x, t1). rdb x t1)"
  shows "reads rd (bs1 @ bs2) y"
  unfolding reads_def
proof (intro conjI allI impI)
  fix t :: istream and r assume "is_good t" "is_data t = (bs1 @ bs2) @ r"
  then show "rd t = Inr (y, t\<lparr>is_data := r\<rparr>)"
    using reads_ok [OF 1, of t "bs2 @ r"] reads_ok [OF 2, of "t\<lparr>is_data := bs2 @ r\<rparr>" r]
    by (simp add: rd)
next
  fix t :: istream and z zs assume g: "is_good t" and e: "bs1 @ bs2 = is_data t @ z # zs"
  then obtain vs where
    "bs1 = is_data t @ vs \<and> vs @ bs2 = z # zs \<or> bs1 @ vs = is_data t \<and> bs2 = vs @ z # zs"
    by (auto simp: append_eq_append_conv2)
  then consider us where "is_data t = bs1 @ us" "bs2 = us @ z # zs"
    | u us where "bs1 = is_data t @ u # us"
    by (cases vs) fastforce+
  then show "\<exists>e. rd t = Inl e"
  proof cases
    case 1
    then show ?thesis
      using reads_ok [OF assms(1) g 1(1)] reads_short [OF 2, of "t\<lparr>is_data := us\<rparr>" z zs] g
      by (simp add: rd)
  next
    case 2
    then show ?thesis using reads_short [OF 1 g 2] by (auto simp: rd)
  qed
qed

lemma reads_map: "reads rda bs x \<Longrightarrow>
    (\<And>t. rd t = rbind (rda t) (\<lambda>(x, t1). if \<not> is_good t1 then Inl (E t1) else Inr (f x, t1))) \<Longrightarrow>
    reads rd bs (f x)"
  using reads_bind [of rda bs x "\<lambda>x t1. if \<not> is_good t1 then Inl (E t1) else Inr (f x, t1)" "[]" "f x" rd]
  by (simp add: reads_return)

lemma reads_checked: "reads rda bs x \<Longrightarrow>
    reads (\<lambda>t. rbind (rda t) (\<lambda>(x, t1). if \<not> is_good t1 then Inl e else Inr (x, t1))) bs x"
  by (rule reads_map [where f = "\<lambda>x. x"]) simp_all

section \<open>The contract\<close>

locale codec_laws =
  fixes C :: "'a codec" and enc :: "'a \<Rightarrow> u8 list" and okv :: "'a \<Rightarrow> bool"
  assumes size_enc: "okv x \<Longrightarrow> c_size C x = length (enc x)"
    and ser_enc: "okv x \<Longrightarrow> c_ser C m p x = (memcpy m p (enc x), length (enc x))"
    and des_enc: "okv x \<Longrightarrow> load m p (length (enc x)) = enc x \<Longrightarrow> c_des C m p = (x, length (enc x))"
    and out_good: "okv x \<Longrightarrow> os_good s \<Longrightarrow> c_out C s x = Inr (s\<lparr>os_data := os_data s @ enc x\<rparr>)"
    and out_bad: "\<not> os_good s \<Longrightarrow> \<exists>e. c_out C s x = Inl e"
    and in_reads: "okv x \<Longrightarrow> reads (c_in C) (enc x) x"
    and in_bad: "\<not> is_good t \<Longrightarrow> \<exists>e. c_in C t = Inl e"

definition string_enc :: "u8 list \<Rightarrow> u8 list" where
  "string_enc str = to_bytes 8 (of_nat (length str) :: u64) @ str"

definition string_ok :: "u8 list \<Rightarrow> bool" where
  "string_ok str \<longleftrightarrow> length str < 2 ^ 64"

definition list_enc :: "('a \<Rightarrow> u8 list) \<Rightarrow> 'a list \<Rightarrow> u8 list" where
  "list_enc enc vec = to_bytes 8 (of_nat (length vec) :: u64) @ concat (map enc vec)"

definition list_ok :: "('a \<Rightarrow> bool) \<Rightarrow> 'a list \<Rightarrow> bool" where
  "list_ok okv vec \<longleftrightarrow> length vec < 2 ^ 64 \<and> (\<forall>x \<in> set vec. okv x)"

definition pair_enc :: "('a \<Rightarrow> u8 list) \<Rightarrow> ('b \<Rightarrow> u8 list) \<Rightarrow> 'a \<times> 'b \<Rightarrow> u8 list" where
  "pair_enc e f xy = e (fst xy) @ f (snd xy)"

definition pair_ok :: "('a \<Rightarrow> bool) \<Rightarrow> ('b \<Rightarrow> bool) \<Rightarrow> 'a \<times> 'b \<Rightarrow> bool" where
  "pair_ok P Q xy \<longleftrightarrow> P (fst xy) \<and> Q (snd xy)"

lemma unat_of_length [simp]: "length xs < 2 ^ 64 \<Longrightarrow> unat (of_nat (length xs) :: u64) = length xs"
  by (simp add: unat_of_nat take_bit_nat_eq_self)

section \<open>Scalars and strings\<close>

lemma is_read_reads: "reads (\<lambda>t :: istream. case is_read t (length bs) of (xs, t1) \<Rightarrow>
    if \<not> is_good t1 then Inl (E t1) else Inr (f xs, t1)) bs (f bs)"
  by (auto simp: reads_def is_read_def)

lemma scalar_codec_laws:
  assumes "8 * w = LENGTH('a)"
  shows "codec_laws (scalar_codec w :: 'a::len word codec) (to_bytes w) (\<lambda>_. True)"
proof
  fix x :: "'a word" and m p s and t :: istream
  show "c_size (scalar_codec w) x = length (to_bytes w x)"
    and "c_ser (scalar_codec w) m p x = (memcpy m p (to_bytes w x), length (to_bytes w x))"
    by (simp_all add: scalar_codec_def)
  show "load m p (length (to_bytes w x)) = to_bytes w x \<Longrightarrow>
      c_des (scalar_codec w) m p = (x, length (to_bytes w x))"
    by (simp add: scalar_codec_def from_to_bytes [OF assms])
  show "os_good s \<Longrightarrow> c_out (scalar_codec w) s x = Inr (s\<lparr>os_data := os_data s @ to_bytes w x\<rparr>)"
    and "\<not> os_good s \<Longrightarrow> \<exists>e. c_out (scalar_codec w) s x = Inl e"
    by (simp_all add: scalar_codec_def scalar_out_def os_write_def)
  show "\<not> is_good t \<Longrightarrow> \<exists>e. c_in (scalar_codec w :: 'a word codec) t = Inl e"
    by (simp add: scalar_codec_def scalar_in_def is_read_def)
  show "reads (c_in (scalar_codec w)) (to_bytes w x) x"
    using is_read_reads [where bs = "to_bytes w x" and f = "from_bytes :: u8 list \<Rightarrow> 'a word" and
        E = "\<lambda>_. RuntimeError ''serialization::deserialize (T &, istream &) failed''"]
    by (simp add: scalar_codec_def scalar_in_def [abs_def] from_to_bytes [OF assms])
qed

interpretation char_c: codec_laws char_codec "to_bytes 1" "\<lambda>_. True"
  unfolding char_codec_def by (rule scalar_codec_laws) simp

interpretation short_c: codec_laws short_codec "to_bytes 2" "\<lambda>_. True"
  unfolding short_codec_def by (rule scalar_codec_laws) simp

interpretation int_c: codec_laws int_codec "to_bytes 4" "\<lambda>_. True"
  unfolding int_codec_def by (rule scalar_codec_laws) simp

interpretation long_c: codec_laws long_codec "to_bytes 8" "\<lambda>_. True"
  unfolding long_codec_def by (rule scalar_codec_laws) simp

lemma string_codec_laws: "codec_laws (string_codec n) string_enc string_ok"
proof
  fix x :: "u8 list" and m p s
  assume "string_ok x"
  then have len: "unat (of_nat (length x) :: u64) = length x"
    unfolding string_ok_def by (rule unat_of_length)
  show "c_size (string_codec n) x = length (string_enc x)"
    by (simp add: string_codec_def string_size_def string_enc_def)
  show "c_ser (string_codec n) m p x = (memcpy m p (string_enc x), length (string_enc x))"
    using memcpy_append [of m p "to_bytes 8 (of_nat (length x) :: u64)" x]
    by (simp add: string_codec_def string_ser_def long_c.ser_enc string_size_def string_enc_def)
  show "c_des (string_codec n) m p = (x, length (string_enc x))"
    if "load m p (length (string_enc x)) = string_enc x"
  proof -
    from that have "load m p 8 = to_bytes 8 (of_nat (length x) :: u64)" "load m (p + 8) (length x) = x"
      unfolding string_enc_def load_append_iff by simp_all
    then show ?thesis
      by (simp add: string_codec_def string_des_def long_c.des_enc [where x = "of_nat (length x)"] len
          string_enc_def string_size_def)
  qed
  show "os_good s \<Longrightarrow> c_out (string_codec n) s x = Inr (s\<lparr>os_data := os_data s @ string_enc x\<rparr>)"
    by (simp add: string_codec_def string_out_def os_write_def string_enc_def)
  show "reads (c_in (string_codec n)) (string_enc x) x"
    unfolding string_enc_def string_codec_def codec.simps
    by (rule reads_bind [OF long_c.in_reads [OF TrueI]])
      (use is_read_reads [where bs = x and f = "\<lambda>x. x"] len in \<open>auto simp: string_in_def\<close>)
next
  fix x and s :: ostream and t :: istream
  show "\<not> os_good s \<Longrightarrow> \<exists>e. c_out (string_codec n) s x = Inl e"
    by (simp add: string_codec_def string_out_def os_write_def)
  show "\<not> is_good t \<Longrightarrow> \<exists>e. c_in (string_codec n) t = Inl e"
    using long_c.in_bad [of t] by (auto simp: string_codec_def string_in_def)
qed

section \<open>Vectors and deques\<close>

context codec_laws begin

lemma sizes: "\<forall>x \<in> set vec. okv x \<Longrightarrow>
    foldl (\<lambda>totSize it. totSize + c_size C it) k vec = k + length (concat (map enc vec))"
  by (induction vec arbitrary: k) (simp_all add: size_enc)

lemma ser_elems_enc: "\<forall>x \<in> set vec. okv x \<Longrightarrow>
    ser_elems C m p vec = (memcpy m p (concat (map enc vec)), p + length (concat (map enc vec)))"
  by (induction vec arbitrary: m p) (simp_all add: ser_enc memcpy_append add.assoc)

lemma des_elems_enc: "\<forall>x \<in> set vec. okv x \<Longrightarrow>
    load m p (length (concat (map enc vec))) = concat (map enc vec) \<Longrightarrow>
    des_elems C m p (length vec) = (vec, p + length (concat (map enc vec)))"
proof (induction vec arbitrary: p)
  case (Cons x vec)
  from Cons.prems(2) have "load m p (length (enc x)) = enc x"
    "load m (p + length (enc x)) (length (concat (map enc vec))) = concat (map enc vec)"
    unfolding list.map concat.simps load_append_iff by simp_all
  with Cons show ?case by (simp add: des_enc [where x = x])
qed simp

lemma out_elems_good: "\<forall>x \<in> set vec. okv x \<Longrightarrow> os_good s \<Longrightarrow>
    out_elems C s vec = Inr (s\<lparr>os_data := os_data s @ concat (map enc vec)\<rparr>)"
  by (induction vec arbitrary: s) (simp_all add: out_good)

lemma out_elems_bad:
  assumes "\<not> os_good s"
  shows "(\<exists>e. out_elems C s vec = Inl e) \<or> out_elems C s vec = Inr s"
proof (cases vec)
  case (Cons x xs)
  then show ?thesis using out_bad [of s x] assms by auto
qed simp

lemma in_elems_reads: "\<forall>x \<in> set vec. okv x \<Longrightarrow>
    reads (\<lambda>t. in_elems C t (length vec)) (concat (map enc vec)) vec"
proof (induction vec)
  case Nil
  show ?case by (simp add: reads_return)
next
  case (Cons x vec)
  then have "reads (\<lambda>t. rbind (in_elems C t (length vec)) (\<lambda>(xs, t2). Inr (x # xs, t2)))
      (concat (map enc vec) @ []) (x # vec)"
    by (intro reads_bind [where rdb = "\<lambda>xs t2. Inr (x # xs, t2)"] reads_return) simp_all
  with Cons.prems show ?case
    by (auto intro!: reads_bind [where rdb = "\<lambda>x t. rbind (in_elems C t (length vec)) (\<lambda>(xs, t2). Inr (x # xs, t2))"]
        in_reads)
qed

lemma vector_laws: "codec_laws (vector_codec n C) (list_enc enc) (list_ok okv)"
proof
  fix x m p s
  assume "list_ok okv x"
  then have len: "unat (of_nat (length x) :: u64) = length x" and ok: "\<forall>y \<in> set x. okv y"
    unfolding list_ok_def by (blast intro: unat_of_length)+
  show sz: "c_size (vector_codec n C) x = length (list_enc enc x)"
    by (simp add: vector_codec_def vector_size_def sizes [OF ok] list_enc_def)
  show "c_ser (vector_codec n C) m p x = (memcpy m p (list_enc enc x), length (list_enc enc x))"
    using memcpy_append [of m p "to_bytes 8 (of_nat (length x) :: u64)"] sz
    by (simp add: vector_codec_def vector_ser_def long_c.ser_enc ser_elems_enc [OF ok] list_enc_def)
  show "c_des (vector_codec n C) m p = (x, length (list_enc enc x))"
    if "load m p (length (list_enc enc x)) = list_enc enc x"
  proof -
    from that have "load m p 8 = to_bytes 8 (of_nat (length x) :: u64)"
      "load m (p + 8) (length (concat (map enc x))) = concat (map enc x)"
      unfolding list_enc_def load_append_iff by simp_all
    then show ?thesis using sz
      by (simp add: vector_codec_def vector_des_def long_c.des_enc [where x = "of_nat (length x)"] len
          des_elems_enc [OF ok])
  qed
  show "os_good s \<Longrightarrow> c_out (vector_codec n C) s x = Inr (s\<lparr>os_data := os_data s @ list_enc enc x\<rparr>)"
    by (simp add: vector_codec_def vector_out_def long_c.out_good out_elems_good [OF ok] list_enc_def)
  have "reads (\<lambda>t. rbind (in_elems C t (length x)) (\<lambda>(vec, t1).
       if \<not> is_good t1 then Inl (RuntimeError ''serialization::deserialize (vector<T> &, istream &) failed'')
       else Inr (vec, t1))) (concat (map enc x)) x"
    by (rule reads_checked [OF in_elems_reads [OF ok]])
  then show "reads (c_in (vector_codec n C)) (list_enc enc x) x"
    unfolding list_enc_def vector_codec_def codec.simps
    by (intro reads_bind [OF long_c.in_reads [OF TrueI]]) (auto simp: vector_in_def len)
next
  fix x and s :: ostream and t :: istream
  show "\<not> os_good s \<Longrightarrow> \<exists>e. c_out (vector_codec n C) s x = Inl e"
    using long_c.out_bad [of s "of_nat (length x)"] by (auto simp: vector_codec_def vector_out_def)
  show "\<not> is_good t \<Longrightarrow> \<exists>e. c_in (vector_codec n C) t = Inl e"
    using long_c.in_bad [of t] by (auto simp: vector_codec_def vector_in_def)
qed

lemma deque_laws: "codec_laws (deque_codec n C) (list_enc enc) (list_ok okv)"
  using vector_laws [of n] by (simp add: deque_codec_def vector_codec_def)

end

section \<open>Pairs\<close>

text \<open>
  \<open>size\<close> of a pair adds \<open>sizeof (U)\<close> and \<open>sizeof (V)\<close>, so the contract needs encodings of
  exactly these lengths: scalars have them, strings and containers do not.
\<close>

lemma pair_codec_laws:
  assumes U: "codec_laws U e P" and V: "codec_laws V f Q"
    and sz: "\<And>x. P x \<Longrightarrow> length (e x) = c_sizeof U" "\<And>y. Q y \<Longrightarrow> length (f y) = c_sizeof V"
  shows "codec_laws (pair_codec n U V) (pair_enc e f) (pair_ok P Q)"
proof
  fix xy m p s
  assume ok: "pair_ok P Q xy"
  then have P: "P (fst xy)" and Q: "Q (snd xy)" by (simp_all add: pair_ok_def)
  note Ux = U [THEN codec_laws.ser_enc, OF P] U [THEN codec_laws.out_good, OF P]
  note Vy = V [THEN codec_laws.ser_enc, OF Q] V [THEN codec_laws.out_good, OF Q]
  show "c_size (pair_codec n U V) xy = length (pair_enc e f xy)"
    by (simp add: pair_codec_def pair_size_def pair_enc_def sz P Q)
  show "c_ser (pair_codec n U V) m p xy = (memcpy m p (pair_enc e f xy), length (pair_enc e f xy))"
    by (simp add: pair_codec_def pair_ser_def pair_enc_def Ux Vy memcpy_append)
  show "c_des (pair_codec n U V) m p = (xy, length (pair_enc e f xy))"
    if "load m p (length (pair_enc e f xy)) = pair_enc e f xy"
    using that [unfolded pair_enc_def load_append_iff]
      U [THEN codec_laws.des_enc, OF P, of m p] V [THEN codec_laws.des_enc, OF Q, of m "p + length (e (fst xy))"]
    by (simp add: pair_codec_def pair_des_def pair_enc_def)
  show "os_good s \<Longrightarrow> c_out (pair_codec n U V) s xy = Inr (s\<lparr>os_data := os_data s @ pair_enc e f xy\<rparr>)"
    by (simp add: pair_codec_def pair_out_def pair_enc_def Ux Vy)
  have "reads (\<lambda>t. rbind (c_in V t) (\<lambda>(y, inp2).
      if \<not> is_good inp2 then Inl (RuntimeError ''serialization::deserialize (pair<U,V> &, istream &) failed'')
      else Inr ((fst xy, y), inp2))) (f (snd xy)) (fst xy, snd xy)"
    by (rule reads_map [OF V [THEN codec_laws.in_reads, OF Q], where f = "\<lambda>y. (fst xy, y)"]) simp
  then show "reads (c_in (pair_codec n U V)) (pair_enc e f xy) xy"
    unfolding pair_enc_def pair_codec_def codec.simps
    by (intro reads_bind [OF U [THEN codec_laws.in_reads, OF P]]) (simp_all add: pair_in_def)
next
  fix xy and s :: ostream and t :: istream
  show "\<not> os_good s \<Longrightarrow> \<exists>e. c_out (pair_codec n U V) s xy = Inl e"
    using U [THEN codec_laws.out_bad, of s "fst xy"] by (auto simp: pair_codec_def pair_out_def)
  show "\<not> is_good t \<Longrightarrow> \<exists>e. c_in (pair_codec n U V) t = Inl e"
    using U [THEN codec_laws.in_bad, of t] by (auto simp: pair_codec_def pair_in_def)
qed

section \<open>Sets\<close>

definition set_ok :: "('a::linorder \<Rightarrow> bool) \<Rightarrow> 'a list \<Rightarrow> bool" where
  "set_ok okv st \<longleftrightarrow> list_ok okv st \<and> sorted_wrt (<) st"

lemma set_insert_last: "\<forall>y \<in> set acc. y < x \<Longrightarrow> set_insert x acc = acc @ [x]"
  by (induction acc) auto

lemma set_insert_set: "set (set_insert x acc) = insert x (set acc)"
  by (induction acc) auto

lemma set_insert_sorted: "sorted_wrt (<) acc \<Longrightarrow> sorted_wrt (<) (set_insert x acc)"
  by (induction acc) (auto simp: set_insert_set)

lemma des_set_elems_fold: "des_set_elems C m p k acc =
    (case des_elems C m p k of (xs, q) \<Rightarrow> (foldl (\<lambda>a x. set_insert x a) acc xs, q))"
  by (induction k arbitrary: p acc) (simp_all split: prod.splits)

lemma in_set_elems_fold: "in_set_elems C t k acc =
    rbind (in_elems C t k) (\<lambda>(xs, t1). Inr (foldl (\<lambda>a x. set_insert x a) acc xs, t1))"
proof (induction k arbitrary: t acc)
  case (Suc k)
  show ?case
  proof (cases "c_in C t")
    case (Inr r)
    obtain x t1 where "r = (x, t1)" by (cases r)
    with Inr show ?thesis by (cases "in_elems C t1 k") (auto simp: Suc)
  qed simp
qed simp

lemma foldl_set_insert: "sorted_wrt (<) (acc @ st) \<Longrightarrow> foldl (\<lambda>a x. set_insert x a) acc st = acc @ st"
  by (induction st arbitrary: acc) (simp_all add: set_insert_last sorted_wrt_append)

lemma set_codec_laws:
  assumes C: "codec_laws C enc okv"
  shows "codec_laws (set_codec n C) (list_enc enc) (set_ok okv)"
proof
  fix x m p s
  assume "set_ok okv x"
  then have vec: "list_ok okv x" and sorted: "foldl (\<lambda>a x. set_insert x a) [] x = x"
    using foldl_set_insert [of "[]" x] by (simp_all add: set_ok_def)
  from vec have len: "unat (of_nat (length x) :: u64) = length x" and ok: "\<forall>y \<in> set x. okv y"
    unfolding list_ok_def by (blast intro: unat_of_length)+
  note V = codec_laws.vector_laws [OF C, of n]
  show "c_size (set_codec n C) x = length (list_enc enc x)"
    using V [THEN codec_laws.size_enc, OF vec] by (simp add: set_codec_def vector_codec_def)
  show "c_ser (set_codec n C) m p x = (memcpy m p (list_enc enc x), length (list_enc enc x))"
    using V [THEN codec_laws.ser_enc, OF vec, of m p]
    by (simp add: set_codec_def set_ser_def vector_codec_def vector_ser_def)
  show "load m p (length (list_enc enc x)) = list_enc enc x \<Longrightarrow>
      c_des (set_codec n C) m p = (x, length (list_enc enc x))"
    using V [THEN codec_laws.des_enc, OF vec, of m p]
    by (auto simp: set_codec_def set_des_def vector_codec_def vector_des_def des_set_elems_fold sorted
        split: prod.splits)
  show "os_good s \<Longrightarrow> c_out (set_codec n C) s x = Inr (s\<lparr>os_data := os_data s @ list_enc enc x\<rparr>)"
    by (simp add: set_codec_def set_out_def os_write_def codec_laws.out_elems_good [OF C ok] list_enc_def)
  have "reads (\<lambda>t. in_set_elems C t (length x) []) (concat (map enc x) @ []) x"
    by (rule reads_bind [OF codec_laws.in_elems_reads [OF C ok],
          where rdb = "\<lambda>xs t1. Inr (foldl (\<lambda>a x. set_insert x a) [] xs, t1)"])
      (simp_all add: reads_return sorted in_set_elems_fold)
  then have "reads (\<lambda>t. rbind (in_set_elems C t (length x) []) (\<lambda>(vec, t1).
       if \<not> is_good t1 then Inl (RuntimeError ''serialization::deserialize (set<T> &, istream &) failed'')
       else Inr (vec, t1))) (concat (map enc x)) x"
    by (simp add: reads_checked)
  then show "reads (c_in (set_codec n C)) (list_enc enc x) x"
    unfolding list_enc_def set_codec_def codec.simps
    by (intro reads_bind [OF long_c.in_reads [OF TrueI], where rdb = "\<lambda>l t. rbind (in_set_elems C t (unat l) [])
        (\<lambda>(st, t1). if \<not> is_good t1
           then Inl (RuntimeError ''serialization::deserialize (set<T> &, istream &) failed'') else Inr (st, t1))"])
      (simp_all add: set_in_def len)
next
  fix x and s :: ostream and t :: istream
  show "\<not> os_good s \<Longrightarrow> \<exists>e. c_out (set_codec n C) s x = Inl e"
    using codec_laws.out_elems_bad [OF C, of s x] by (auto simp: set_codec_def set_out_def os_write_def)
  show "\<not> is_good t \<Longrightarrow> \<exists>e. c_in (set_codec n C) t = Inl e"
    using long_c.in_bad [of t] by (auto simp: set_codec_def set_in_def)
qed

section \<open>Maps\<close>

text \<open>The entries of a map are encoded one after the other like a vector of entries whose
  encoding is the key's followed by the value's.\<close>

definition map_ok :: "('a::linorder \<Rightarrow> bool) \<Rightarrow> ('b \<Rightarrow> bool) \<Rightarrow> ('a \<times> 'b) list \<Rightarrow> bool" where
  "map_ok P Q mp \<longleftrightarrow> list_ok (pair_ok P Q) mp \<and> sorted_wrt (<) (map fst mp)"

lemma map_insert_last: "\<forall>y \<in> fst ` set acc. y < k \<Longrightarrow> map_insert k v acc = acc @ [(k, v)]"
proof (induction acc)
  case (Cons a acc)
  then show ?case by (cases a) auto
qed simp

lemma foldl_map_insert: "sorted_wrt (<) (map fst (acc @ mp)) \<Longrightarrow>
    foldl (\<lambda>a kv. map_insert (fst kv) (snd kv) a) acc mp = acc @ mp"
  by (induction mp arbitrary: acc) (simp_all add: map_insert_last sorted_wrt_append)

abbreviation entries_codec :: "'a codec \<Rightarrow> 'b codec \<Rightarrow> ('a \<times> 'b) codec" where
  "entries_codec U V \<equiv> (pair_codec 0 U V)\<lparr>c_size := (\<lambda>it. c_size U (fst it) + c_size V (snd it)),
     c_out := (\<lambda>s it. rbind (c_out U s (fst it)) (\<lambda>s1. c_out V s1 (snd it))),
     c_in := (\<lambda>t. rbind (c_in U t) (\<lambda>(x, t1). rbind (c_in V t1) (\<lambda>(y, t2). Inr ((x, y), t2))))\<rparr>"

lemma entries_laws:
  assumes U: "codec_laws U e P" and V: "codec_laws V f Q"
  shows "codec_laws (entries_codec U V) (pair_enc e f) (pair_ok P Q)"
proof
  fix xy m p s
  assume ok: "pair_ok P Q xy"
  then have P: "P (fst xy)" and Q: "Q (snd xy)" by (simp_all add: pair_ok_def)
  note Ux = U [THEN codec_laws.size_enc, OF P] U [THEN codec_laws.ser_enc, OF P] U [THEN codec_laws.out_good, OF P]
  note Vy = V [THEN codec_laws.size_enc, OF Q] V [THEN codec_laws.ser_enc, OF Q] V [THEN codec_laws.out_good, OF Q]
  show "c_size (entries_codec U V) xy = length (pair_enc e f xy)"
    and "c_ser (entries_codec U V) m p xy = (memcpy m p (pair_enc e f xy), length (pair_enc e f xy))"
    by (simp_all add: pair_codec_def pair_ser_def pair_enc_def Ux Vy memcpy_append)
  show "c_des (entries_codec U V) m p = (xy, length (pair_enc e f xy))"
    if "load m p (length (pair_enc e f xy)) = pair_enc e f xy"
    using that [unfolded pair_enc_def load_append_iff]
      U [THEN codec_laws.des_enc, OF P, of m p] V [THEN codec_laws.des_enc, OF Q, of m "p + length (e (fst xy))"]
    by (simp add: pair_codec_def pair_des_def pair_enc_def)
  show "os_good s \<Longrightarrow> c_out (entries_codec U V) s xy = Inr (s\<lparr>os_data := os_data s @ pair_enc e f xy\<rparr>)"
    by (simp add: pair_enc_def Ux Vy)
  have "reads (\<lambda>t. rbind (c_in V t) (\<lambda>(y, t2). Inr ((fst xy, y), t2))) (f (snd xy) @ []) (fst xy, snd xy)"
    by (rule reads_bind [OF V [THEN codec_laws.in_reads, OF Q], where rdb = "\<lambda>y t2. Inr ((fst xy, y), t2)"])
      (simp_all add: reads_return)
  then show "reads (c_in (entries_codec U V)) (pair_enc e f xy) xy"
    unfolding pair_enc_def codec.simps
    by (intro reads_bind [OF U [THEN codec_laws.in_reads, OF P]]) simp_all
next
  fix xy and s :: ostream and t :: istream
  show "\<not> os_good s \<Longrightarrow> \<exists>e. c_out (entries_codec U V) s xy = Inl e"
    using U [THEN codec_laws.out_bad, of s "fst xy"] by auto
  show "\<not> is_good t \<Longrightarrow> \<exists>e. c_in (entries_codec U V) t = Inl e"
    using U [THEN codec_laws.in_bad, of t] by auto
qed

lemma ser_entries_elems: "ser_entries U V m q mp = ser_elems (entries_codec U V) m q mp"
  by (induction mp arbitrary: m q) (simp_all add: pair_codec_def pair_ser_def add.assoc split: prod.splits)

lemma out_entries_elems: "out_entries U V s mp = out_elems (entries_codec U V) s mp"
proof (induction mp arbitrary: s)
  case (Cons it mp)
  show ?case by (cases "c_out U s (fst it)") (simp_all add: Cons)
qed simp

lemma des_entries_elems: "des_entries U V m q k acc =
    (case des_elems (entries_codec U V) m q k of (xs, r) \<Rightarrow>
       (foldl (\<lambda>a kv. map_insert (fst kv) (snd kv) a) acc xs, r))"
  by (induction k arbitrary: q acc) (simp_all add: pair_codec_def pair_des_def add.assoc split: prod.splits)

lemma in_entries_elems: "in_entries U V t k acc =
    rbind (in_elems (entries_codec U V) t k)
      (\<lambda>(xs, t1). Inr (foldl (\<lambda>a kv. map_insert (fst kv) (snd kv) a) acc xs, t1))"
proof (induction k arbitrary: t acc)
  case (Suc k)
  show ?case
  proof (cases "c_in U t")
    case (Inr r)
    obtain x t1 where r: "r = (x, t1)" by (cases r)
    show ?thesis
    proof (cases "c_in V t1")
      case (Inr w)
      obtain y t2 where "w = (y, t2)" by (cases w)
      with \<open>c_in U t = Inr r\<close> r Inr show ?thesis
        by (cases "in_elems (entries_codec U V) t2 k") (auto simp: Suc)
    qed (simp add: \<open>c_in U t = Inr r\<close> r)
  qed simp
qed simp

lemma map_codec_laws:
  assumes U: "codec_laws U e P" and V: "codec_laws V f Q"
  shows "codec_laws (map_codec n U V) (list_enc (pair_enc e f)) (map_ok P Q)"
proof
  note E = entries_laws [OF U V]
  fix x m p s
  assume "map_ok P Q x"
  then have vec: "list_ok (pair_ok P Q) x"
    and sorted: "foldl (\<lambda>a kv. map_insert (fst kv) (snd kv) a) [] x = x"
    using foldl_map_insert [of "[]" x] by (simp_all add: map_ok_def)
  from vec have len: "unat (of_nat (length x) :: u64) = length x" and ok: "\<forall>y \<in> set x. pair_ok P Q y"
    unfolding list_ok_def by (blast intro: unat_of_length)+
  note L = codec_laws.vector_laws [OF E, of n]
  show sz: "c_size (map_codec n U V) x = length (list_enc (pair_enc e f) x)"
    using L [THEN codec_laws.size_enc, OF vec]
    by (simp add: map_codec_def map_size_def vector_codec_def vector_size_def)
  show "c_ser (map_codec n U V) m p x =
      (memcpy m p (list_enc (pair_enc e f) x), length (list_enc (pair_enc e f) x))"
    using memcpy_append [of m p "to_bytes 8 (of_nat (length x) :: u64)"]
    by (simp add: map_codec_def map_ser_def ser_entries_elems long_c.ser_enc
        codec_laws.ser_elems_enc [OF E ok] list_enc_def)
  show "c_des (map_codec n U V) m p = (x, length (list_enc (pair_enc e f) x))"
    if "load m p (length (list_enc (pair_enc e f) x)) = list_enc (pair_enc e f) x"
  proof -
    from that have "load m p 8 = to_bytes 8 (of_nat (length x) :: u64)"
      "load m (p + 8) (length (concat (map (pair_enc e f) x))) = concat (map (pair_enc e f) x)"
      unfolding list_enc_def load_append_iff by simp_all
    then show ?thesis
      by (simp add: map_codec_def map_des_def long_c.des_enc [where x = "of_nat (length x)"] len
          des_entries_elems codec_laws.des_elems_enc [OF E ok] sorted list_enc_def)
  qed
  show "os_good s \<Longrightarrow> c_out (map_codec n U V) s x =
      Inr (s\<lparr>os_data := os_data s @ list_enc (pair_enc e f) x\<rparr>)"
    by (simp add: map_codec_def map_out_def os_write_def out_entries_elems
        codec_laws.out_elems_good [OF E ok] list_enc_def)
  have "reads (\<lambda>t. in_entries U V t (length x) []) (concat (map (pair_enc e f) x) @ []) x"
    by (rule reads_bind [OF codec_laws.in_elems_reads [OF E ok],
          where rdb = "\<lambda>xs t1. Inr (foldl (\<lambda>a kv. map_insert (fst kv) (snd kv) a) [] xs, t1)"])
      (simp_all add: reads_return sorted in_entries_elems)
  then have "reads (\<lambda>t. rbind (in_entries U V t (length x) []) (\<lambda>(mp, t1).
       if \<not> is_good t1 then Inl (RuntimeError ''serialization::deserialize (map<U, V> &, istream &) failed'')
       else Inr (mp, t1))) (concat (map (pair_enc e f) x)) x"
    by (simp add: reads_checked)
  then show "reads (c_in (map_codec n U V)) (list_enc (pair_enc e f) x) x"
    unfolding list_enc_def map_codec_def codec.simps
    by (intro reads_bind [OF long_c.in_reads [OF TrueI]]) (auto simp: map_in_def len)
next
  fix x and s :: ostream and t :: istream
  show "\<not> os_good s \<Longrightarrow> \<exists>e. c_out (map_codec n U V) s x = Inl e"
    using codec_laws.out_elems_bad [OF entries_laws [OF U V], of s x]
    by (auto simp: map_codec_def map_out_def os_write_def out_entries_elems)
  show "\<not> is_good t \<Longrightarrow> \<exists>e. c_in (map_codec n U V) t = Inl e"
    using long_c.in_bad [of t] by (auto simp: map_codec_def map_in_def)
qed

section \<open>Properties\<close>

lemma memcpy_outside: "a < p \<or> p + length bs \<le> a \<Longrightarrow> memcpy m p bs a = m a"
  by (auto simp: memcpy_def)

lemma codec_laws_buffer:
  assumes "codec_laws C enc okv" "okv x" "c_ser C m p x = (m1, n)"
  shows "n = c_size C x" "c_des C m1 p = (x, n)" "\<forall>a. a < p \<or> p + n \<le> a \<longrightarrow> m1 a = m a"
  using assms codec_laws.size_enc [OF assms(1,2)] codec_laws.ser_enc [OF assms(1,2), of m p]
    codec_laws.des_enc [OF assms(1,2), of m1 p] load_memcpy [of m p "enc x"]
  by (auto simp: memcpy_outside)

lemma codec_laws_stream:
  assumes C: "codec_laws C enc okv" and "okv x"
    and s: "c_out C \<lparr>os_data = [], os_good = True\<rparr> x = Inr s"
  shows "c_in C \<lparr>is_data = os_data s @ r, is_good = True\<rparr> = Inr (x, \<lparr>is_data = r, is_good = True\<rparr>)"
    and "length (os_data s) = c_size C x"
    and "k < length (os_data s) \<Longrightarrow> \<exists>e. c_in C \<lparr>is_data = take k (os_data s), is_good = True\<rparr> = Inl e"
proof -
  have d: "os_data s = enc x"
    using codec_laws.out_good [OF C assms(2), of "\<lparr>os_data = [], os_good = True\<rparr>"] s by simp
  note rd = codec_laws.in_reads [OF C assms(2)]
  show "c_in C \<lparr>is_data = os_data s @ r, is_good = True\<rparr> = Inr (x, \<lparr>is_data = r, is_good = True\<rparr>)"
    using reads_ok [OF rd] d by simp
  show "length (os_data s) = c_size C x"
    using codec_laws.size_enc [OF C assms(2)] d by simp
  assume k: "k < length (os_data s)"
  have "enc x = is_data \<lparr>is_data = take k (os_data s), is_good = True\<rparr> @
      os_data s ! k # drop (Suc k) (os_data s)"
    unfolding d [symmetric] istream.select_convs by (rule id_take_nth_drop [OF k])
  then show "\<exists>e. c_in C \<lparr>is_data = take k (os_data s), is_good = True\<rparr> = Inl e"
    by (rule reads_short [OF rd, rotated]) simp
qed

text \<open>A value of the program's nested type: a map from integers to strings.\<close>

abbreviation int_string_map :: "(u32 \<times> u8 list) list codec" where
  "int_string_map \<equiv> map_codec 48 int_codec (string_codec 32)"

lemma int_string_map_laws:
  "codec_laws int_string_map (list_enc (pair_enc (to_bytes 4) string_enc)) (map_ok (\<lambda>_. True) string_ok)"
  by (rule map_codec_laws [OF int_c.codec_laws_axioms string_codec_laws])

text \<open>
  Property C33. For every element type that keeps the contract of the serialization interface,
  the buffer overloads for \<open>std::vector\<close> round-trip: \<open>serialize\<close> writes exactly \<open>size\<close> bytes,
  returns that number, touches no byte outside them, and \<open>deserialize\<close> from the same address
  returns the vector and the same number of bytes.
\<close>

theorem vector_buffer_roundtrip:
  assumes "codec_laws T enc okv" "length vec < 2 ^ 64" "\<forall>x \<in> set vec. okv x"
    and "vector_ser T m p vec = (m1, n)"
  shows "n = vector_size T vec \<and> vector_des T m1 p = (vec, n) \<and>
    (\<forall>a. a < p \<or> p + n \<le> a \<longrightarrow> m1 a = m a)"
proof -
  note V = codec_laws.vector_laws [OF assms(1), of 24]
  have "list_ok okv vec" using assms(2,3) unfolding list_ok_def by blast
  from codec_laws_buffer [OF V this, of m p m1 n] assms(4) show ?thesis
    by (simp add: vector_codec_def)
qed

lemma vector_buffer_roundtrip_witness:
  "vector_des (vector_codec 24 int_codec)
     (fst (vector_ser (vector_codec 24 int_codec) (\<lambda>_. 0) 16 [[7, 8], []])) 16 = ([[7, 8], []], 32)"
  using vector_buffer_roundtrip [OF int_c.vector_laws, of "[[7, 8], []]" 24 "\<lambda>_. 0" 16
      "fst (vector_ser (vector_codec 24 int_codec) (\<lambda>_. 0) 16 [[7, 8], []])" 32]
  by (simp add: list_ok_def vector_ser_def vector_size_def vector_codec_def int_codec_def scalar_codec_def
      long_codec_def)

text \<open>
  The stream overloads for a \<open>std::map\<close> round-trip and detect truncation: what
  \<open>serialize\<close> wrote is read back entry by entry, leaving the rest of the stream, \<open>size\<close> is the
  number of bytes written, and every proper prefix of it makes \<open>deserialize\<close> throw.
\<close>

theorem map_stream_roundtrip:
  assumes "codec_laws U e P" "codec_laws V f Q" "map_ok P Q mp"
    and "map_out U V \<lparr>os_data = [], os_good = True\<rparr> mp = Inr s"
  shows "map_in U V \<lparr>is_data = os_data s @ r, is_good = True\<rparr> = Inr (mp, \<lparr>is_data = r, is_good = True\<rparr>) \<and>
    length (os_data s) = map_size U V mp \<and>
    (\<forall>k < length (os_data s). \<exists>e. map_in U V \<lparr>is_data = take k (os_data s), is_good = True\<rparr> = Inl e)"
  using codec_laws_stream [OF map_codec_laws [OF assms(1,2)] assms(3), of 48 s] assms(4)
  by (auto simp: map_codec_def)

lemma map_stream_roundtrip_witness:
  "map_in int_codec (string_codec 32) \<lparr>is_data = to_bytes 8 (1 :: u64) @ to_bytes 4 (3 :: u32) @
       to_bytes 8 (2 :: u64) @ [65, 66] @ [1], is_good = True\<rparr> =
     Inr ([(3, [65, 66])], \<lparr>is_data = [1], is_good = True\<rparr>)"
  using map_stream_roundtrip [OF int_c.codec_laws_axioms string_codec_laws [of 32], of "[(3, [65, 66])]"
      "\<lparr>os_data = to_bytes 8 (1 :: u64) @ to_bytes 4 (3 :: u32) @ to_bytes 8 (2 :: u64) @ [65, 66],
        os_good = True\<rparr>" "[1]"]
  by (simp add: map_ok_def list_ok_def pair_ok_def string_ok_def map_out_def os_write_def int_codec_def
      scalar_codec_def scalar_out_def string_codec_def string_out_def)

text \<open>
  \<open>size\<close> of a \<open>std::pair\<close> with a string component is the \<open>sizeof\<close> of the string
  object, not the length of its encoding: for every string of another encoded length the value
  of \<open>size\<close>, which callers use to allocate the buffer, differs from the bytes \<open>serialize\<close> writes.
\<close>

theorem pair_size_not_written:
  assumes "string_ok str" "8 + length str \<noteq> sizeof_string"
  shows "snd (pair_ser (string_codec sizeof_string) int_codec m p (str, i)) \<noteq>
         pair_size (string_codec sizeof_string) int_codec (str, i)"
proof -
  have "c_ser (string_codec sizeof_string) m p str = (memcpy m p (string_enc str), 8 + length str)"
    using codec_laws.ser_enc [OF string_codec_laws assms(1), of sizeof_string m p]
    by (simp add: string_enc_def)
  with assms(2) show ?thesis
    by (simp add: pair_ser_def pair_size_def int_c.ser_enc string_codec_def) (simp add: int_codec_def scalar_codec_def)
qed

lemma pair_size_not_written_witness:
  "snd (pair_ser (string_codec 32) int_codec (\<lambda>_. 0) 0 ([1, 2, 3], 5)) \<noteq>
   pair_size (string_codec 32) int_codec ([1, 2, 3], 5)"
  by (rule pair_size_not_written) (simp_all add: string_ok_def)

end
