(* ===== verification/Collective_LowLevel.thy ===== *)
theory Collective_LowLevel
  imports Gaspi_Prelude
begin

text \<open>
  \<open>CollectiveLowLevel.cpp\<close>: the life cycle every collective goes through.  The virtual
  \<open>...Impl\<close> functions of a concrete collective are the fields of a \<open>coll_impl\<close>, acting on an
  arbitrary world \<open>'n\<close>.  Each method holds the state mutex, so it is one atomic step;
  \<open>triggerProgress\<close> only tries to take the mutex, and whether it gets it is an argument.
\<close>

section \<open>States and methods\<close>

datatype cl_state = UNINITIALIZED | INITIALIZED | READY | RUNNING | FINISHED

record ('n, 'i, 'o) coll_impl =
  waitForSetupImpl :: "'n \<Rightarrow> 'n"
  copyInImpl :: "'i \<Rightarrow> 'n \<Rightarrow> 'n"
  startImpl :: "'n \<Rightarrow> 'n"
  triggerProgressImpl :: "'n \<Rightarrow> bool \<times> 'n"
  copyOutImpl :: "'n \<Rightarrow> 'o"

definition cl_waitForSetup :: "('n, 'i, 'o) coll_impl \<Rightarrow> cl_state \<times> 'n \<Rightarrow> (cl_state \<times> 'n) res" where
  "cl_waitForSetup impl s =
     (if fst s \<noteq> UNINITIALIZED
      then Inl (LogicError ''[CollectiveLowLevel::waitForSetup] Collective already initialized.'')
      else Inr (INITIALIZED, waitForSetupImpl impl (snd s)))"

definition cl_copyIn :: "('n, 'i, 'o) coll_impl \<Rightarrow> 'i \<Rightarrow> cl_state \<times> 'n \<Rightarrow> (cl_state \<times> 'n) res" where
  "cl_copyIn impl inputs s =
     (if fst s \<noteq> INITIALIZED
      then Inl (LogicError ''[CollectiveLowLevel::copyIn] Collective is not in the INITIALIZED state.'')
      else Inr (READY, copyInImpl impl inputs (snd s)))"

definition cl_start :: "('n, 'i, 'o) coll_impl \<Rightarrow> cl_state \<times> 'n \<Rightarrow> (cl_state \<times> 'n) res" where
  "cl_start impl s =
     (if fst s \<noteq> READY
      then Inl (LogicError ''[CollectiveLowLevel::start] Collective already started or not initialized.'')
      else Inr (RUNNING, startImpl impl (snd s)))"

definition cl_triggerProgress :: "('n, 'i, 'o) coll_impl \<Rightarrow> bool \<Rightarrow> cl_state \<times> 'n \<Rightarrow> bool \<times> cl_state \<times> 'n" where
  "cl_triggerProgress impl got_lock s =
     (if got_lock then
        if fst s = RUNNING then
          case triggerProgressImpl impl (snd s) of (isCompleted, n') \<Rightarrow>
            (isCompleted, if isCompleted then FINISHED else fst s, n')
        else (False, s)
      else (False, s))"

definition cl_copyOut :: "('n, 'i, 'o) coll_impl \<Rightarrow> cl_state \<times> 'n \<Rightarrow> ('o \<times> cl_state \<times> 'n) res" where
  "cl_copyOut impl s =
     (if fst s \<noteq> FINISHED
      then Inl (LogicError ''[CollectiveLowLevel::copyOut] Collective is not in the FINISHED state.'')
      else Inr (copyOutImpl impl (snd s), INITIALIZED, snd s))"

definition cl_checkForCompletion :: "cl_state \<times> 'n \<Rightarrow> bool" where
  "cl_checkForCompletion s = (fst s = FINISHED)"

text \<open>
  \<open>waitForCompletion\<close> loops until this thread completes the collective or another one has.
  The loop may not end, so it has fuel; between two of its own calls the world (and, when other
  threads work on the same object, the state) changes by \<open>others\<close>.
\<close>

fun cl_waitForCompletion :: "('n, 'i, 'o) coll_impl \<Rightarrow> (nat \<Rightarrow> cl_state \<times> 'n \<Rightarrow> cl_state \<times> 'n) \<Rightarrow>
    (nat \<Rightarrow> bool) \<Rightarrow> nat \<Rightarrow> cl_state \<times> 'n \<Rightarrow> (bool \<times> cl_state \<times> 'n) option" where
  "cl_waitForCompletion impl others lock 0 s = None"
| "cl_waitForCompletion impl others lock (Suc fuel) s =
     (if fst s \<noteq> RUNNING then Some (False, s)
      else case cl_triggerProgress impl (lock fuel) s of
             (True, s1) \<Rightarrow> Some (True, s1)
           | (False, s1) \<Rightarrow> cl_waitForCompletion impl others lock fuel (others fuel s1))"

section \<open>Calls from several threads\<close>

text \<open>
  The calls that threads make on one object are serialised by the mutex (those of
  \<open>triggerProgress\<close> that do not get it have no effect), so a history is a list of calls.
\<close>

datatype 'i call = CWaitForSetup | CCopyIn 'i | CStart | CTrigger bool | CCopyOut

fun cl_call :: "('n, 'i, 'o) coll_impl \<Rightarrow> 'i call \<Rightarrow> cl_state \<times> 'n \<Rightarrow> bool \<times> cl_state \<times> 'n" where
  "cl_call impl CWaitForSetup s = (case cl_waitForSetup impl s of Inl e \<Rightarrow> (False, s) | Inr s' \<Rightarrow> (False, s'))"
| "cl_call impl (CCopyIn x) s = (case cl_copyIn impl x s of Inl e \<Rightarrow> (False, s) | Inr s' \<Rightarrow> (False, s'))"
| "cl_call impl CStart s = (case cl_start impl s of Inl e \<Rightarrow> (False, s) | Inr s' \<Rightarrow> (False, s'))"
| "cl_call impl (CTrigger l) s = cl_triggerProgress impl l s"
| "cl_call impl CCopyOut s = (case cl_copyOut impl s of Inl e \<Rightarrow> (False, s) | Inr (y, s') \<Rightarrow> (False, s'))"

fun cl_history :: "('n, 'i, 'o) coll_impl \<Rightarrow> 'i call list \<Rightarrow> cl_state \<times> 'n \<Rightarrow> bool list \<times> cl_state \<times> 'n" where
  "cl_history impl [] s = ([], s)"
| "cl_history impl (c # cs) s =
     (case cl_call impl c s of (b, s1) \<Rightarrow> case cl_history impl cs s1 of (bs, s2) \<Rightarrow> (b # bs, s2))"

text \<open>How many of the calls of a history were successful starts or copy-outs.\<close>

fun successes :: "('n, 'i, 'o) coll_impl \<Rightarrow> ('i call \<Rightarrow> cl_state \<Rightarrow> bool) \<Rightarrow> 'i call list \<Rightarrow> cl_state \<times> 'n \<Rightarrow> nat" where
  "successes impl P [] s = 0"
| "successes impl P (c # cs) s =
     (if P c (fst s) then 1 else 0) + successes impl P cs (snd (cl_call impl c s))"

fun good_start :: "'i call \<Rightarrow> cl_state \<Rightarrow> bool" where
  "good_start c st \<longleftrightarrow> c = CStart \<and> st = READY"

fun good_copyOut :: "'i call \<Rightarrow> cl_state \<Rightarrow> bool" where
  "good_copyOut c st \<longleftrightarrow> c = CCopyOut \<and> st = FINISHED"

lemma cl_call_balance:
  "(if good_start c (fst s) then 1 else 0) + (if fst s = RUNNING then 1 else 0) =
   (if fst (cl_call impl c s) then 1 else 0) + (if fst (snd (cl_call impl c s)) = RUNNING then 1 else (0 :: nat))"
  by (cases c; cases s; cases "fst s")
    (auto simp: cl_waitForSetup_def cl_copyIn_def cl_start_def cl_triggerProgress_def cl_copyOut_def
      split: prod.splits)

lemma cl_call_finished:
  "(if fst (cl_call impl c s) then 1 else 0) + (if fst s = FINISHED then 1 else 0) =
   (if good_copyOut c (fst s) then 1 else 0) + (if fst (snd (cl_call impl c s)) = FINISHED then 1 else (0 :: nat))"
  by (cases c; cases s; cases "fst s")
    (auto simp: cl_waitForSetup_def cl_copyIn_def cl_start_def cl_triggerProgress_def cl_copyOut_def
      split: prod.splits)

lemma count_Cons_True: "count_list (b # bs) True = (if b then 1 else 0) + count_list bs True"
  by simp

text \<open>
  Property C30. Over any sequence of calls from any number of threads, with \<open>try_lock\<close>
  succeeding or failing arbitrarily, exactly one \<open>triggerProgress\<close> call returns \<open>true\<close> for
  every execution that was started and is no longer running; and a finished execution can be
  copied out exactly once.
\<close>

theorem one_completion_per_start:
  "successes impl good_start cs s + (if fst s = RUNNING then 1 else 0) =
     count_list (fst (cl_history impl cs s)) True +
     (if fst (snd (cl_history impl cs s)) = RUNNING then 1 else 0) \<and>
   count_list (fst (cl_history impl cs s)) True + (if fst s = FINISHED then 1 else 0) =
     successes impl good_copyOut cs s + (if fst (snd (cl_history impl cs s)) = FINISHED then 1 else 0)"
proof (induction cs arbitrary: s)
  case (Cons c cs)
  obtain b s1 where c: "cl_call impl c s = (b, s1)" by (cases "cl_call impl c s")
  obtain bs s2 where h: "cl_history impl cs s1 = (bs, s2)" by (cases "cl_history impl cs s1")
  from cl_call_balance [of c s impl] cl_call_finished [of impl c s] Cons.IH [of s1]
  show ?case unfolding successes.simps cl_history.simps c h prod.case fst_conv snd_conv count_Cons_True
    by linarith
qed simp

text \<open>
  The methods follow the documented life cycle: each one succeeds in exactly one
  state and leads to the next, every other call throws and leaves object and buffers unchanged,
  and \<open>triggerProgress\<close> acts only in state \<open>RUNNING\<close> with the mutex taken.
\<close>

lemma life_cycle:
  "(cl_waitForSetup impl (st, n) = Inr (INITIALIZED, waitForSetupImpl impl n) \<longleftrightarrow> st = UNINITIALIZED) \<and>
   (cl_copyIn impl x (st, n) = Inr (READY, copyInImpl impl x n) \<longleftrightarrow> st = INITIALIZED) \<and>
   (cl_start impl (st, n) = Inr (RUNNING, startImpl impl n) \<longleftrightarrow> st = READY) \<and>
   (cl_copyOut impl (st, n) = Inr (copyOutImpl impl n, INITIALIZED, n) \<longleftrightarrow> st = FINISHED) \<and>
   (\<not> (got_lock \<and> st = RUNNING) \<longrightarrow> cl_triggerProgress impl got_lock (st, n) = (False, st, n)) \<and>
   (cl_triggerProgress impl True (RUNNING, n) =
      (fst (triggerProgressImpl impl n),
       if fst (triggerProgressImpl impl n) then FINISHED else RUNNING,
       snd (triggerProgressImpl impl n)))"
  by (auto simp: cl_waitForSetup_def cl_copyIn_def cl_start_def cl_triggerProgress_def cl_copyOut_def
      split: prod.splits)

text \<open>
  \<open>waitForCompletion\<close> returns as soon as the implementation reports completion: if
  the thread gets the mutex in every iteration and the implementation, driven through the world
  changes in between, reports completion after \<open>k\<close> calls, then \<open>k + 1\<close> iterations suffice and
  it returns \<open>true\<close> with the object finished.
\<close>

fun completes_after :: "('n, 'i, 'o) coll_impl \<Rightarrow> (nat \<Rightarrow> 'n \<Rightarrow> 'n) \<Rightarrow> nat \<Rightarrow> nat \<Rightarrow> 'n \<Rightarrow> bool" where
  "completes_after impl w fuel 0 n = fst (triggerProgressImpl impl n)"
| "completes_after impl w fuel (Suc k) n =
     (\<not> fst (triggerProgressImpl impl n) \<and>
      completes_after impl w (fuel - 1) k (w fuel (snd (triggerProgressImpl impl n))))"

theorem waitForCompletion_returns:
  assumes "completes_after impl w fuel k n" "k \<le> fuel"
  shows "\<exists>n'. cl_waitForCompletion impl (\<lambda>i s. (fst s, w i (snd s))) (\<lambda>_. True) (Suc fuel) (RUNNING, n) =
    Some (True, FINISHED, n')"
  using assms
proof (induction k arbitrary: n fuel)
  case 0
  then show ?case by (auto simp: cl_triggerProgress_def split: prod.splits)
next
  case (Suc k)
  then obtain f where f: "fuel = Suc f" by (cases fuel) auto
  from Suc.prems obtain n1 where t: "triggerProgressImpl impl n = (False, n1)"
    and c: "completes_after impl w f k (w fuel n1)"
    by (cases "triggerProgressImpl impl n") (simp add: f)
  from Suc.prems(2) f have "k \<le> f" by simp
  from Suc.IH [OF c this] show ?case
    by (subst cl_waitForCompletion.simps)
      (simp add: cl_triggerProgress_def t f del: cl_waitForCompletion.simps)
qed

lemma waitForCompletion_returns_witness:
  "\<exists>n'. cl_waitForCompletion \<lparr>waitForSetupImpl = id, copyInImpl = \<lambda>x n. x, startImpl = id,
     triggerProgressImpl = \<lambda>n. (n = (0 :: nat), n - 1), copyOutImpl = id\<rparr>
     (\<lambda>i s. (fst s, id (snd s))) (\<lambda>_. True) (Suc 2) (RUNNING, 2) = Some (True, FINISHED, n')"
  using waitForCompletion_returns [of "\<lparr>waitForSetupImpl = id, copyInImpl = \<lambda>x n. x, startImpl = id,
     triggerProgressImpl = \<lambda>n. (n = (0 :: nat), n - 1), copyOutImpl = id\<rparr>" "\<lambda>_. id" 2 2 2]
  by (simp add: numeral_2_eq_2)

end
