(* ===== verification/Channel_Network.thy ===== *)
theory Channel_Network
  imports Collective_LowLevel
begin

text \<open>
  The world a collective runs in: the collective object of every rank, the memory slots its
  communication buffers stand for, and the one-sided transfers between them.  A channel is a
  connected pair of a \<open>SourceBuffer\<close> and a \<open>TargetBuffer\<close> (\<open>singlesided/write\<close>).  Posting a
  transfer or an acknowledgement records a request; when and in which order the requests are
  carried out is not decided here: it is the parameter \<open>env\<close>, of which the documented behaviour
  of \<open>gaspi_write_notify\<close> and \<open>gaspi_notify\<close> is assumed (\<open>gaspi_env\<close>).
\<close>

section \<open>Channels and the network\<close>

record 'l chan =
  c_src :: nat
  c_sslot :: 'l
  c_dst :: nat
  c_dslot :: 'l
  c_tag :: nat

record ('s, 'l, 'v) net =
  phase :: "nat \<Rightarrow> cl_state"
  ctl :: "nat \<Rightarrow> 's"
  buf :: "nat \<Rightarrow> 'l \<Rightarrow> 'v"
  pend :: "'l chan \<Rightarrow> nat"
  flag :: "'l chan \<Rightarrow> bool"
  apend :: "'l chan \<Rightarrow> nat"
  aflag :: "'l chan \<Rightarrow> bool"

text \<open>
  A constructor asks for connections: \<open>connectToRemoteTarget\<close> on a source buffer,
  \<open>connectToRemoteSource\<close> on a target buffer, each with partner rank and tag.  A channel is made
  from two requests that name each other with the same tag.
\<close>

record 'l endpoint =
  ep_source :: bool
  ep_slot :: 'l
  ep_partner :: nat
  ep_tag :: nat

definition connected :: "(nat \<Rightarrow> 'l endpoint list) \<Rightarrow> 'l chan \<Rightarrow> bool" where
  "connected conns c \<longleftrightarrow>
     \<lparr>ep_source = True, ep_slot = c_sslot c, ep_partner = c_dst c, ep_tag = c_tag c\<rparr> \<in> set (conns (c_src c)) \<and>
     \<lparr>ep_source = False, ep_slot = c_dslot c, ep_partner = c_src c, ep_tag = c_tag c\<rparr> \<in> set (conns (c_dst c))"

subsection \<open>The buffer operations\<close>

definition initTransfer :: "'l chan \<Rightarrow> ('s, 'l, 'v) net \<Rightarrow> ('s, 'l, 'v) net" where
  "initTransfer c n = n\<lparr>pend := (pend n)(c := pend n c + 1)\<rparr>"

definition checkForCompletion :: "'l chan \<Rightarrow> ('s, 'l, 'v) net \<Rightarrow> bool \<times> ('s, 'l, 'v) net" where
  "checkForCompletion c n = (if flag n c then (True, n\<lparr>flag := (flag n)(c := False)\<rparr>) else (False, n))"

definition ackTransfer :: "'l chan \<Rightarrow> ('s, 'l, 'v) net \<Rightarrow> ('s, 'l, 'v) net" where
  "ackTransfer c n = n\<lparr>apend := (apend n)(c := apend n c + 1)\<rparr>"

definition checkForTransferAck :: "'l chan \<Rightarrow> ('s, 'l, 'v) net \<Rightarrow> bool \<times> ('s, 'l, 'v) net" where
  "checkForTransferAck c n = (if aflag n c then (True, n\<lparr>aflag := (aflag n)(c := False)\<rparr>) else (False, n))"

definition set_ctl :: "nat \<Rightarrow> 's \<Rightarrow> ('s, 'l, 'v) net \<Rightarrow> ('s, 'l, 'v) net" where
  "set_ctl r x n = n\<lparr>ctl := (ctl n)(r := x)\<rparr>"

definition set_buf :: "nat \<Rightarrow> ('l \<Rightarrow> 'v) \<Rightarrow> ('s, 'l, 'v) net \<Rightarrow> ('s, 'l, 'v) net" where
  "set_buf r x n = n\<lparr>buf := (buf n)(r := x)\<rparr>"

text \<open>\<open>std::copy\<close> or \<open>std::memcpy\<close> of a block to position \<open>off\<close> of the user's buffer.\<close>

definition write_at :: "nat \<Rightarrow> 'a list \<Rightarrow> 'a list \<Rightarrow> 'a list" where
  "write_at off seg out = take off out @ seg @ drop (off + length seg) out"

subsection \<open>The environment\<close>

definition deliver :: "'l chan \<Rightarrow> ('s, 'l, 'v) net \<Rightarrow> ('s, 'l, 'v) net" where
  "deliver c n = n\<lparr>buf := (buf n)(c_dst c := (buf n (c_dst c))(c_dslot c := buf n (c_src c) (c_sslot c))),
     pend := (pend n)(c := pend n c - 1), flag := (flag n)(c := True)\<rparr>"

definition deliver_ack :: "'l chan \<Rightarrow> ('s, 'l, 'v) net \<Rightarrow> ('s, 'l, 'v) net" where
  "deliver_ack c n = n\<lparr>apend := (apend n)(c := apend n c - 1), aflag := (aflag n)(c := True)\<rparr>"

text \<open>
  Safety: every step of the environment completes one posted request; a write copies the source
  memory and sets the notification after it.  Liveness: a posted request can be completed.
\<close>

definition gaspi_env :: "(('s, 'l, 'v) net \<Rightarrow> ('s, 'l, 'v) net \<Rightarrow> bool) \<Rightarrow> bool" where
  "gaspi_env env \<longleftrightarrow> (\<forall>n n'. env n n' \<longrightarrow>
     (\<exists>c. 0 < pend n c \<and> n' = deliver c n) \<or> (\<exists>c. 0 < apend n c \<and> n' = deliver_ack c n))"

definition gaspi_live :: "(('s, 'l, 'v) net \<Rightarrow> ('s, 'l, 'v) net \<Rightarrow> bool) \<Rightarrow> bool" where
  "gaspi_live env \<longleftrightarrow> (\<forall>n c. (0 < pend n c \<longrightarrow> env n (deliver c n)) \<and> (0 < apend n c \<longrightarrow> env n (deliver_ack c n)))"

text \<open>The environment that may complete any posted request; it shows that both can hold.\<close>

definition any_env :: "('s, 'l, 'v) net \<Rightarrow> ('s, 'l, 'v) net \<Rightarrow> bool" where
  "any_env n n' \<longleftrightarrow>
     (\<exists>c. 0 < pend n c \<and> n' = deliver c n) \<or> (\<exists>c. 0 < apend n c \<and> n' = deliver_ack c n)"

lemma any_env_gaspi: "gaspi_env any_env" "gaspi_live any_env"
  by (auto simp: gaspi_env_def gaspi_live_def any_env_def)

section \<open>Effects field by field\<close>

lemma initTransfer_sel [cnet]:
  "phase (initTransfer c n) = phase n" "ctl (initTransfer c n) = ctl n" "buf (initTransfer c n) = buf n"
  "pend (initTransfer c n) = (pend n)(c := pend n c + 1)" "flag (initTransfer c n) = flag n"
  "apend (initTransfer c n) = apend n" "aflag (initTransfer c n) = aflag n"
  by (simp_all add: initTransfer_def)

lemma ackTransfer_sel [cnet]:
  "phase (ackTransfer c n) = phase n" "ctl (ackTransfer c n) = ctl n" "buf (ackTransfer c n) = buf n"
  "pend (ackTransfer c n) = pend n" "flag (ackTransfer c n) = flag n"
  "apend (ackTransfer c n) = (apend n)(c := apend n c + 1)" "aflag (ackTransfer c n) = aflag n"
  by (simp_all add: ackTransfer_def)

lemma set_ctl_sel [cnet]:
  "phase (set_ctl r x n) = phase n" "ctl (set_ctl r x n) = (ctl n)(r := x)" "buf (set_ctl r x n) = buf n"
  "pend (set_ctl r x n) = pend n" "flag (set_ctl r x n) = flag n"
  "apend (set_ctl r x n) = apend n" "aflag (set_ctl r x n) = aflag n"
  by (simp_all add: set_ctl_def)

lemma set_buf_sel [cnet]:
  "phase (set_buf r x n) = phase n" "ctl (set_buf r x n) = ctl n" "buf (set_buf r x n) = (buf n)(r := x)"
  "pend (set_buf r x n) = pend n" "flag (set_buf r x n) = flag n"
  "apend (set_buf r x n) = apend n" "aflag (set_buf r x n) = aflag n"
  by (simp_all add: set_buf_def)

lemma deliver_sel [cnet]:
  "phase (deliver c n) = phase n" "ctl (deliver c n) = ctl n"
  "buf (deliver c n) = (buf n)(c_dst c := (buf n (c_dst c))(c_dslot c := buf n (c_src c) (c_sslot c)))"
  "pend (deliver c n) = (pend n)(c := pend n c - 1)" "flag (deliver c n) = (flag n)(c := True)"
  "apend (deliver c n) = apend n" "aflag (deliver c n) = aflag n"
  by (simp_all add: deliver_def)

lemma deliver_ack_sel [cnet]:
  "phase (deliver_ack c n) = phase n" "ctl (deliver_ack c n) = ctl n" "buf (deliver_ack c n) = buf n"
  "pend (deliver_ack c n) = pend n" "flag (deliver_ack c n) = flag n"
  "apend (deliver_ack c n) = (apend n)(c := apend n c - 1)" "aflag (deliver_ack c n) = (aflag n)(c := True)"
  by (simp_all add: deliver_ack_def)

lemma checkForCompletion_sel [cnet]:
  "phase (snd (checkForCompletion c n)) = phase n" "ctl (snd (checkForCompletion c n)) = ctl n"
  "buf (snd (checkForCompletion c n)) = buf n" "pend (snd (checkForCompletion c n)) = pend n"
  "flag (snd (checkForCompletion c n)) = (flag n)(c := False)"
  "apend (snd (checkForCompletion c n)) = apend n" "aflag (snd (checkForCompletion c n)) = aflag n"
  "fst (checkForCompletion c n) = flag n c"
  by (auto simp: checkForCompletion_def fun_eq_iff)

lemma checkForTransferAck_sel [cnet]:
  "phase (snd (checkForTransferAck c n)) = phase n" "ctl (snd (checkForTransferAck c n)) = ctl n"
  "buf (snd (checkForTransferAck c n)) = buf n" "pend (snd (checkForTransferAck c n)) = pend n"
  "aflag (snd (checkForTransferAck c n)) = (aflag n)(c := False)"
  "apend (snd (checkForTransferAck c n)) = apend n" "flag (snd (checkForTransferAck c n)) = flag n"
  "fst (checkForTransferAck c n) = aflag n c"
  by (auto simp: checkForTransferAck_def fun_eq_iff)

section \<open>Runs\<close>

text \<open>
  One execution of a collective by the ranks below \<open>p\<close>: every rank copies in its input, starts,
  and triggers progress any number of times, interleaved with the environment in any way.
\<close>

definition set_phase :: "nat \<Rightarrow> cl_state \<times> ('s, 'l, 'v) net \<Rightarrow> ('s, 'l, 'v) net" where
  "set_phase r s = (snd s)\<lparr>phase := (phase (snd s))(r := fst s)\<rparr>"

lemma set_phase_sel [cnet]:
  "phase (set_phase r (st, n)) = (phase n)(r := st)" "ctl (set_phase r (st, n)) = ctl n"
  "buf (set_phase r (st, n)) = buf n" "pend (set_phase r (st, n)) = pend n"
  "flag (set_phase r (st, n)) = flag n" "apend (set_phase r (st, n)) = apend n"
  "aflag (set_phase r (st, n)) = aflag n"
  by (simp_all add: set_phase_def)

lemma set_phase_same: "phase n r = st \<Longrightarrow> set_phase r (st, n) = n"
  by (cases n) (auto simp: set_phase_def)

lemma neq_via: "f x \<noteq> f y \<Longrightarrow> x \<noteq> y"
  by blast

lemma sum_change:
  assumes "finite A" "a \<in> A" "\<And>x. x \<in> A \<Longrightarrow> x \<noteq> a \<Longrightarrow> f x = g x"
  shows "sum f A + g a = sum g A + (f a :: nat)"
proof -
  have "sum f (A - {a}) = sum g (A - {a})" by (rule sum.cong) (use assms(3) in auto)
  then show ?thesis
    using sum.remove [OF assms(1,2), of f] sum.remove [OF assms(1,2), of g] by linarith
qed

inductive coll_step for env :: "('s, 'l, 'v) net \<Rightarrow> ('s, 'l, 'v) net \<Rightarrow> bool"
  and I :: "nat \<Rightarrow> (('s, 'l, 'v) net, 'i, 'o) coll_impl" and p :: nat and inp :: "nat \<Rightarrow> 'i" where
  copyIn: "r < p \<Longrightarrow> cl_copyIn (I r) (inp r) (phase n r, n) = Inr s \<Longrightarrow> coll_step env I p inp n (set_phase r s)"
| start: "r < p \<Longrightarrow> cl_start (I r) (phase n r, n) = Inr s \<Longrightarrow> coll_step env I p inp n (set_phase r s)"
| progress: "r < p \<Longrightarrow> cl_triggerProgress (I r) lock (phase n r, n) = (b, s) \<Longrightarrow>
    coll_step env I p inp n (set_phase r s)"
| transfer: "env n n' \<Longrightarrow> coll_step env I p inp n n'"

abbreviation coll_reach where
  "coll_reach env I p inp \<equiv> (coll_step env I p inp)\<^sup>*\<^sup>*"

text \<open>The state after the setup: everything connected, nothing posted.\<close>

definition coll_init :: "nat \<Rightarrow> ('s, 'l, 'v) net \<Rightarrow> bool" where
  "coll_init p n \<longleftrightarrow> (\<forall>r < p. phase n r = INITIALIZED) \<and> pend n = (\<lambda>_. 0) \<and> flag n = (\<lambda>_. False) \<and>
     apend n = (\<lambda>_. 0) \<and> aflag n = (\<lambda>_. False)"

text \<open>A schedule that drives a run, for concrete executions.\<close>

datatype 'l event = CopyIn nat | Start nat | Progress nat | Deliver "'l chan" | DeliverAck "'l chan"

fun do_event :: "(nat \<Rightarrow> (('s, 'l, 'v) net, 'i, 'o) coll_impl) \<Rightarrow> nat \<Rightarrow> (nat \<Rightarrow> 'i) \<Rightarrow> 'l event \<Rightarrow>
    ('s, 'l, 'v) net \<Rightarrow> ('s, 'l, 'v) net option" where
  "do_event I p inp (CopyIn r) n =
     (if r < p \<and> phase n r = INITIALIZED then Some (set_phase r (READY, copyInImpl (I r) (inp r) n)) else None)"
| "do_event I p inp (Start r) n =
     (if r < p \<and> phase n r = READY then Some (set_phase r (RUNNING, startImpl (I r) n)) else None)"
| "do_event I p inp (Progress r) n =
     (if r < p then Some (set_phase r (snd (cl_triggerProgress (I r) True (phase n r, n)))) else None)"
| "do_event I p inp (Deliver c) n = (if 0 < pend n c then Some (deliver c n) else None)"
| "do_event I p inp (DeliverAck c) n = (if 0 < apend n c then Some (deliver_ack c n) else None)"

fun do_events :: "(nat \<Rightarrow> (('s, 'l, 'v) net, 'i, 'o) coll_impl) \<Rightarrow> nat \<Rightarrow> (nat \<Rightarrow> 'i) \<Rightarrow> 'l event list \<Rightarrow>
    ('s, 'l, 'v) net \<Rightarrow> ('s, 'l, 'v) net option" where
  "do_events I p inp [] n = Some n"
| "do_events I p inp (e # es) n =
     (case do_event I p inp e n of None \<Rightarrow> None | Some n' \<Rightarrow> do_events I p inp es n')"

lemma do_event_step: "do_event I p inp e n = Some n' \<Longrightarrow> coll_step any_env I p inp n n'"
proof (cases e)
  case (Progress r)
  assume "do_event I p inp e n = Some n'"
  with Progress show ?thesis
    using coll_step.progress [of r p I True n _ _ any_env inp]
    by (cases "cl_triggerProgress (I r) True (phase n r, n)") (auto split: if_splits)
next
  case (Deliver c)
  assume "do_event I p inp e n = Some n'"
  with Deliver show ?thesis by (auto intro!: coll_step.transfer simp: any_env_def split: if_splits)
next
  case (DeliverAck c)
  assume "do_event I p inp e n = Some n'"
  with DeliverAck show ?thesis by (auto intro!: coll_step.transfer simp: any_env_def split: if_splits)
next
  case (CopyIn r)
  assume "do_event I p inp e n = Some n'"
  with CopyIn show ?thesis
    using coll_step.copyIn [of r p I inp n "(READY, copyInImpl (I r) (inp r) n)" any_env]
    by (auto simp: cl_copyIn_def split: if_splits)
next
  case (Start r)
  assume "do_event I p inp e n = Some n'"
  with Start show ?thesis
    using coll_step.start [of r p I n "(RUNNING, startImpl (I r) n)" any_env inp]
    by (auto simp: cl_start_def split: if_splits)
qed

lemma do_events_reach: "do_events I p inp es n = Some n' \<Longrightarrow> coll_reach any_env I p inp n n'"
proof (induction es arbitrary: n)
  case (Cons e es)
  then show ?case
    by (auto split: option.splits intro: converse_rtranclp_into_rtranclp dest: do_event_step)
qed simp

section \<open>Whole lives\<close>

text \<open>
  Schedules in which ranks also copy out and execute the collective again; \<open>life_run\<close> collects what
  the copy-outs returned and is \<open>None\<close> when a call throws.
\<close>

datatype ('l, 'i) life_event =
  LCopyIn nat 'i | LStart nat | LProgress nat | LDeliver "'l chan" | LDeliverAck "'l chan" | LCopyOut nat

fun do_life :: "(nat \<Rightarrow> (('s, 'l, 'v) net, 'i, 'o) coll_impl) \<Rightarrow> nat \<Rightarrow> ('l, 'i) life_event \<Rightarrow>
    ('s, 'l, 'v) net \<Rightarrow> ((nat \<times> 'o) list \<times> ('s, 'l, 'v) net) option" where
  "do_life I p (LCopyIn r x) n =
     (case cl_copyIn (I r) x (phase n r, n) of Inl e \<Rightarrow> None | Inr s \<Rightarrow> Some ([], set_phase r s))"
| "do_life I p (LStart r) n =
     (case cl_start (I r) (phase n r, n) of Inl e \<Rightarrow> None | Inr s \<Rightarrow> Some ([], set_phase r s))"
| "do_life I p (LProgress r) n = Some ([], set_phase r (snd (cl_triggerProgress (I r) True (phase n r, n))))"
| "do_life I p (LCopyOut r) n =
     (case cl_copyOut (I r) (phase n r, n) of Inl e \<Rightarrow> None | Inr (y, s) \<Rightarrow> Some ([(r, y)], set_phase r s))"
| "do_life I p (LDeliver c) n = (if 0 < pend n c then Some ([], deliver c n) else None)"
| "do_life I p (LDeliverAck c) n = (if 0 < apend n c then Some ([], deliver_ack c n) else None)"

fun life_run :: "(nat \<Rightarrow> (('s, 'l, 'v) net, 'i, 'o) coll_impl) \<Rightarrow> nat \<Rightarrow> ('l, 'i) life_event list \<Rightarrow>
    ('s, 'l, 'v) net \<Rightarrow> ((nat \<times> 'o) list \<times> ('s, 'l, 'v) net) option" where
  "life_run I p [] n = Some ([], n)"
| "life_run I p (e # es) n =
     (case do_life I p e n of None \<Rightarrow> None
      | Some (ys, n1) \<Rightarrow> (case life_run I p es n1 of None \<Rightarrow> None | Some (zs, n2) \<Rightarrow> Some (ys @ zs, n2)))"

end
