(* ===== verification/Ring_Pipeline.thy ===== *)
theory Ring_Pipeline
  imports Channel_Network Group_Ranks
begin

text \<open>
  The protocol that the ring collectives share: rank \<open>r\<close> posts message 0 when it starts, and at
  step \<open>k\<close> waits for message \<open>k\<close> of its left neighbour, works on its memory, and posts message
  \<open>k + 1\<close>; after the last of \<open>M\<close> steps it acknowledges the last message and waits for the
  acknowledgement of its own.  The locale states this shape of the \<open>...Impl\<close> functions; inside
  it the control invariant, the absence of deadlock and the bound on the number of effective
  steps are proved once.
\<close>

definition pl_advance ::
  "nat \<Rightarrow> nat \<Rightarrow> (nat \<Rightarrow> nat \<Rightarrow> 'l chan) \<Rightarrow> (nat \<Rightarrow> nat \<Rightarrow> ('l \<Rightarrow> 'v) \<Rightarrow> ('l \<Rightarrow> 'v)) \<Rightarrow>
   nat \<Rightarrow> nat \<Rightarrow> 's \<Rightarrow> ('s, 'l, 'v) net \<Rightarrow> ('s, 'l, 'v) net" where
  "pl_advance p M mch work r k s' n =
     (let n1 = set_ctl r s' (set_buf r (work r k (buf n r)) (snd (checkForCompletion (mch (ring_prev p r) k) n)))
      in if k + 1 < M then initTransfer (mch r (k + 1)) n1 else ackTransfer (mch (ring_prev p r) k) n1)"

lemma pl_advance_sel [cnet]:
  "phase (pl_advance p M mch work r k s' n) = phase n"
  "ctl (pl_advance p M mch work r k s' n) = (ctl n)(r := s')"
  "buf (pl_advance p M mch work r k s' n) = (buf n)(r := work r k (buf n r))"
  "pend (pl_advance p M mch work r k s' n) =
     (if k + 1 < M then (pend n)(mch r (k + 1) := pend n (mch r (k + 1)) + 1) else pend n)"
  "flag (pl_advance p M mch work r k s' n) = (flag n)(mch (ring_prev p r) k := False)"
  "apend (pl_advance p M mch work r k s' n) =
     (if k + 1 < M then apend n
      else (apend n)(mch (ring_prev p r) k := apend n (mch (ring_prev p r) k) + 1))"
  "aflag (pl_advance p M mch work r k s' n) = aflag n"
  by (simp_all add: pl_advance_def Let_def cnet)

locale ring_pipeline =
  fixes p M :: nat and mch :: "nat \<Rightarrow> nat \<Rightarrow> 'l chan"
    and stepno :: "'s \<Rightarrow> nat" and wf :: "nat \<Rightarrow> 's \<Rightarrow> bool"
    and work :: "nat \<Rightarrow> nat \<Rightarrow> ('l \<Rightarrow> 'v) \<Rightarrow> ('l \<Rightarrow> 'v)"
    and fill :: "nat \<Rightarrow> 'i \<Rightarrow> ('l \<Rightarrow> 'v) \<Rightarrow> ('l \<Rightarrow> 'v)"
    and I :: "nat \<Rightarrow> (('s, 'l, 'v) net, 'i, 'o) coll_impl"
  assumes p_bounds: "2 \<le> p" and M_pos: "0 < M"
    and mch_inj: "r < p \<Longrightarrow> m < M \<Longrightarrow> r' < p \<Longrightarrow> m' < M \<Longrightarrow> mch r m = mch r' m' \<Longrightarrow> r = r' \<and> m = m'"
    and copyIn_spec: "r < p \<Longrightarrow>
      \<exists>s'. copyInImpl (I r) x n = set_ctl r s' (set_buf r (fill r x (buf n r)) n)"
    and start_spec: "r < p \<Longrightarrow>
      \<exists>s'. stepno s' = 0 \<and> wf r s' \<and> startImpl (I r) n = initTransfer (mch r 0) (set_ctl r s' n)"
    and trig_ack: "r < p \<Longrightarrow> wf r (ctl n r) \<Longrightarrow> stepno (ctl n r) = M \<Longrightarrow>
      triggerProgressImpl (I r) n = checkForTransferAck (mch r (M - 1)) n"
    and trig_idle: "r < p \<Longrightarrow> wf r (ctl n r) \<Longrightarrow> stepno (ctl n r) < M \<Longrightarrow>
      \<not> flag n (mch (ring_prev p r) (stepno (ctl n r))) \<Longrightarrow> triggerProgressImpl (I r) n = (False, n)"
    and trig_go: "r < p \<Longrightarrow> wf r (ctl n r) \<Longrightarrow> stepno (ctl n r) < M \<Longrightarrow>
      flag n (mch (ring_prev p r) (stepno (ctl n r))) \<Longrightarrow>
      \<exists>s'. stepno s' = stepno (ctl n r) + 1 \<and> wf r s' \<and>
        triggerProgressImpl (I r) n = (False, pl_advance p M mch work r (stepno (ctl n r)) s' n)"
begin

abbreviation "left \<equiv> ring_prev p"
abbreviation "right \<equiv> ring_next p"

lemma nb [simp]: "r < p \<Longrightarrow> left r < p" "r < p \<Longrightarrow> right r < p" "r < p \<Longrightarrow> right (left r) = r"
    "r < p \<Longrightarrow> left (right r) = r"
  using p_bounds by simp_all

lemma nb_neq [simp]: "r < p \<Longrightarrow> left r \<noteq> r" "r < p \<Longrightarrow> r \<noteq> left r" "r < p \<Longrightarrow> right r \<noteq> r" "r < p \<Longrightarrow> r \<noteq> right r"
  using p_bounds by (auto simp: ring_prev_alt ring_next_alt)

lemma right_eq_iff [simp]: "r < p \<Longrightarrow> q < p \<Longrightarrow> right q = r \<longleftrightarrow> q = left r"
  by auto

lemma mch_eq [simp]: "r < p \<Longrightarrow> m < M \<Longrightarrow> r' < p \<Longrightarrow> m' < M \<Longrightarrow> mch r m = mch r' m' \<longleftrightarrow> r = r' \<and> m = m'"
  using mch_inj by blast

definition started :: "('s, 'l, 'v) net \<Rightarrow> nat \<Rightarrow> bool" where
  "started n r \<longleftrightarrow> phase n r = RUNNING \<or> phase n r = FINISHED"

definition K :: "('s, 'l, 'v) net \<Rightarrow> nat \<Rightarrow> nat" where
  "K n r = (if started n r then stepno (ctl n r) else 0)"

definition sent :: "('s, 'l, 'v) net \<Rightarrow> nat \<Rightarrow> nat" where
  "sent n r = (if started n r then min (K n r + 1) M else 0)"

definition inflight :: "('s, 'l, 'v) net \<Rightarrow> nat \<Rightarrow> nat \<Rightarrow> bool" where
  "inflight n r m \<longleftrightarrow> K n (right r) \<le> m \<and> m < sent n r"

definition ack_open :: "('s, 'l, 'v) net \<Rightarrow> nat \<Rightarrow> bool" where
  "ack_open n r \<longleftrightarrow> K n (right r) = M \<and> phase n r \<noteq> FINISHED"

definition inv_ranks :: "('s, 'l, 'v) net \<Rightarrow> bool" where
  "inv_ranks n \<longleftrightarrow> (\<forall>r < p. phase n r \<noteq> UNINITIALIZED \<and> (started n r \<longrightarrow> wf r (ctl n r)) \<and> K n r \<le> M \<and>
     K n (right r) \<le> sent n r \<and> (phase n r = FINISHED \<longrightarrow> K n r = M \<and> K n (right r) = M))"

definition inv_msgs :: "('s, 'l, 'v) net \<Rightarrow> bool" where
  "inv_msgs n \<longleftrightarrow> (\<forall>r < p. \<forall>m < M. pend n (mch r m) + of_bool (flag n (mch r m)) = of_bool (inflight n r m)) \<and>
     (\<forall>c. (\<forall>r < p. \<forall>m < M. c \<noteq> mch r m) \<longrightarrow> pend n c = 0 \<and> \<not> flag n c)"

definition inv_acks :: "('s, 'l, 'v) net \<Rightarrow> bool" where
  "inv_acks n \<longleftrightarrow> (\<forall>r < p. apend n (mch r (M - 1)) + of_bool (aflag n (mch r (M - 1))) = of_bool (ack_open n r)) \<and>
     (\<forall>c. (\<forall>r < p. c \<noteq> mch r (M - 1)) \<longrightarrow> apend n c = 0 \<and> \<not> aflag n c)"

definition pl_inv :: "('s, 'l, 'v) net \<Rightarrow> bool" where
  "pl_inv n \<longleftrightarrow> inv_ranks n \<and> inv_msgs n \<and> inv_acks n"

lemma msg_state: "pl_inv n \<Longrightarrow> r < p \<Longrightarrow> m < M \<Longrightarrow>
    pend n (mch r m) + of_bool (flag n (mch r m)) = of_bool (inflight n r m)"
  by (simp add: pl_inv_def inv_msgs_def)

lemma ack_state: "pl_inv n \<Longrightarrow> r < p \<Longrightarrow>
    apend n (mch r (M - 1)) + of_bool (aflag n (mch r (M - 1))) = of_bool (ack_open n r)"
  by (simp add: pl_inv_def inv_acks_def)

lemma inv_init: "coll_init p n \<Longrightarrow> pl_inv n"
  using M_pos
  by (auto simp: pl_inv_def inv_ranks_def inv_msgs_def inv_acks_def coll_init_def started_def K_def sent_def
      inflight_def ack_open_def)

subsection \<open>What a step does\<close>

text \<open>The invariant depends only on the phases, the step numbers of started ranks and the
  requests.\<close>

lemma pl_inv_cong:
  assumes "\<And>r. r < p \<Longrightarrow> started n' r = started n r \<and> (started n r \<longrightarrow> ctl n' r = ctl n r)"
    and "\<And>r. r < p \<Longrightarrow> phase n' r \<noteq> UNINITIALIZED \<and> (phase n' r = FINISHED \<longleftrightarrow> phase n r = FINISHED)"
    and "pend n' = pend n" "flag n' = flag n" "apend n' = apend n" "aflag n' = aflag n"
    and "pl_inv n"
  shows "pl_inv n'"
proof -
  have K: "K n' r = K n r" "sent n' r = sent n r" if "r < p" for r
    using assms(1) [OF that] by (auto simp: K_def sent_def)
  have "inflight n' r m = inflight n r m" "ack_open n' r = ack_open n r" if "r < p" for r m
    using K that assms(2) [OF that] by (simp_all add: inflight_def ack_open_def)
  with K assms show ?thesis
    by (simp add: pl_inv_def inv_ranks_def inv_msgs_def inv_acks_def)
qed

lemma inv_copyIn:
  assumes i: "pl_inv n" and r: "r < p" and ph: "phase n r = INITIALIZED"
    and n': "n' = set_phase r (READY, copyInImpl (I r) x n)"
  shows "pl_inv n'"
proof -
  obtain s' where "n' = set_phase r (READY, set_ctl r s' (set_buf r (fill r x (buf n r)) n))"
    using copyIn_spec [OF r] n' by metis
  then show ?thesis using i ph
    by (intro pl_inv_cong [OF _ _ _ _ _ _ i]) (auto simp: cnet started_def pl_inv_def inv_ranks_def)
qed

lemma inv_start:
  assumes i: "pl_inv n" and r: "r < p" and ph: "phase n r = READY"
    and n': "n' = set_phase r (RUNNING, startImpl (I r) n)"
  shows "pl_inv n'"
proof -
  obtain s' where s': "stepno s' = 0" "wf r s'"
    and "n' = set_phase r (RUNNING, initTransfer (mch r 0) (set_ctl r s' n))"
    using start_spec [OF r] n' by metis
  then have n': "phase n' = (phase n)(r := RUNNING)" "ctl n' = (ctl n)(r := s')" "flag n' = flag n"
    "pend n' = (pend n)(mch r 0 := pend n (mch r 0) + 1)" "apend n' = apend n" "aflag n' = aflag n"
    by (simp_all add: cnet)
  have un: "\<not> started n r" using ph by (simp add: started_def)
  have K: "K n' q = K n q" for q using s' un by (auto simp: K_def started_def n')
  have sent: "sent n' q = (if q = r then 1 else sent n q)" for q
    using s' un M_pos by (auto simp: sent_def K started_def n' K_def)
  have sr: "sent n r = 0" using un by (simp add: sent_def)
  have Kr: "K n (right r) = 0" using i r un by (auto simp: pl_inv_def inv_ranks_def sent_def)
  have fl: "inflight n' q m = (inflight n q m \<or> q = r \<and> m = 0)" "\<not> inflight n r m" for q m
    using Kr sr by (auto simp: inflight_def K sent)
  have "inv_ranks n'" using i s' r un
    by (auto simp: pl_inv_def inv_ranks_def K sent n' started_def sent_def)
  moreover have "inv_msgs n'" unfolding inv_msgs_def
  proof (intro conjI allI impI)
    fix q m assume q: "q < p" "m < M"
    then have "pend n (mch q m) + of_bool (flag n (mch q m)) = of_bool (inflight n q m)"
      using i by (auto simp: pl_inv_def inv_msgs_def)
    then show "pend n' (mch q m) + of_bool (flag n' (mch q m)) = of_bool (inflight n' q m)"
      using q r M_pos fl(2) [of m] by (auto simp: n' fl(1))
  next
    fix c assume "\<forall>r < p. \<forall>m < M. c \<noteq> mch r m"
    then show "pend n' c = 0" "\<not> flag n' c"
      using i r M_pos by (auto simp: pl_inv_def inv_msgs_def n')
  qed
  moreover have "inv_acks n'" using i ph by (auto simp: pl_inv_def inv_acks_def n' ack_open_def K)
  ultimately show ?thesis by (simp add: pl_inv_def)
qed

lemma inv_advance:
  assumes i: "pl_inv n" and r: "r < p" and ph: "phase n r = RUNNING"
    and k: "k = stepno (ctl n r)" "k < M" and fg: "flag n (mch (left r) k)"
    and s': "stepno s' = k + 1" "wf r s'"
    and n': "n' = set_phase r (RUNNING, pl_advance p M mch work r k s' n)"
  shows "pl_inv n'"
proof -
  have n': "phase n' = phase n" "ctl n' = (ctl n)(r := s')"
    "pend n' = (if k + 1 < M then (pend n)(mch r (k + 1) := pend n (mch r (k + 1)) + 1) else pend n)"
    "flag n' = (flag n)(mch (left r) k := False)" "aflag n' = aflag n"
    "apend n' = (if k + 1 < M then apend n
      else (apend n)(mch (left r) k := apend n (mch (left r) k) + 1))"
    using ph by (auto simp: n' cnet fun_eq_iff)
  have st: "started n r" using ph by (simp add: started_def)
  have Kr: "K n r = k" using st k by (simp add: K_def)
  have K: "K n' q = (if q = r then k + 1 else K n q)" for q
    using st s' by (auto simp: K_def started_def n')
  have sent: "sent n' q = (if q = r then min (k + 2) M else sent n q)" for q
    using st by (auto simp: sent_def K started_def n')
  have sr: "sent n r = k + 1" using st k by (simp add: sent_def Kr)
  have msg: "q < p \<Longrightarrow> m < M \<Longrightarrow> pend n (mch q m) + of_bool (flag n (mch q m)) = of_bool (inflight n q m)" for q m
    using msg_state [OF i] .
  from msg [of "left r" k] fg r k have if0: "inflight n (left r) k" "pend n (mch (left r) k) = 0"
    by (auto simp: of_bool_def split: if_splits)
  have ir: "q < p \<Longrightarrow> K n (right q) \<le> sent n q \<and> K n q \<le> M" for q
    using i by (auto simp: pl_inv_def inv_ranks_def)
  have fl: "inflight n' q m = ((inflight n q m \<and> \<not> (q = left r \<and> m = k)) \<or> (q = r \<and> m = k + 1 \<and> k + 1 < M))"
    if "q < p" "m < M" for q m
    using that r if0 Kr ir [OF r] by (auto simp: inflight_def K sent sr)
  have new: "\<not> inflight n r (k + 1)" by (simp add: inflight_def sr)
  have "inv_ranks n'" unfolding inv_ranks_def
  proof (intro allI impI conjI)
    fix q assume q: "q < p"
    with i have q': "phase n q \<noteq> UNINITIALIZED" "started n q \<longrightarrow> wf q (ctl n q)"
      "phase n q = FINISHED \<longrightarrow> K n q = M \<and> K n (right q) = M"
      by (auto simp: pl_inv_def inv_ranks_def)
    show "phase n' q \<noteq> UNINITIALIZED" using q' by (simp add: n')
    show "started n' q \<Longrightarrow> wf q (ctl n' q)" using q' s' by (auto simp: n' started_def)
    show "K n' q \<le> M" using ir [OF q] k by (simp add: K)
    show "K n' (right q) \<le> sent n' q"
      using ir [OF q] r q if0(1) Kr k by (auto simp: K sent sr inflight_def)
    show "phase n' q = FINISHED \<Longrightarrow> K n' q = M" "phase n' q = FINISHED \<Longrightarrow> K n' (right q) = M"
      using q' ph q r Kr k by (auto simp: n' K)
  qed
  moreover have "inv_msgs n'" unfolding inv_msgs_def
  proof (intro conjI allI impI)
    fix q m assume q: "q < p" "m < M"
    show "pend n' (mch q m) + of_bool (flag n' (mch q m)) = of_bool (inflight n' q m)"
      using q r k new msg [OF q] if0(2) by (auto simp: n' fl)
  next
    fix c assume c: "\<forall>r < p. \<forall>m < M. c \<noteq> mch r m"
    then have "c \<noteq> mch r (k + 1)" if "k + 1 < M" using r that by blast
    with c show "pend n' c = 0" "\<not> flag n' c"
      using i by (auto simp: pl_inv_def inv_msgs_def n')
  qed
  moreover have "inv_acks n'"
  proof (cases "k + 1 < M")
    case True
    then have "ack_open n' q = ack_open n q" if "q < p" for q
      using that r Kr by (auto simp: ack_open_def K n')
    with i True show ?thesis by (auto simp: pl_inv_def inv_acks_def n')
  next
    case False
    with k have kM: "k = M - 1" "Suc k = M" by simp_all
    have "phase n (left r) \<noteq> FINISHED"
    proof
      assume "phase n (left r) = FINISHED"
      with i nb(1) [OF r] have "K n (right (left r)) = M" unfolding pl_inv_def inv_ranks_def by blast
      with Kr k r show False by simp
    qed
    then have ao: "ack_open n' q = (ack_open n q \<or> q = left r)" "\<not> ack_open n (left r)" if "q < p" for q
      using that r Kr kM k by (auto simp: ack_open_def K n')
    show ?thesis unfolding inv_acks_def
    proof (intro conjI allI impI)
      fix q assume q: "q < p"
      then have "apend n (mch q (M - 1)) + of_bool (aflag n (mch q (M - 1))) = of_bool (ack_open n q)"
        using i by (auto simp: pl_inv_def inv_acks_def)
      then show "apend n' (mch q (M - 1)) + of_bool (aflag n' (mch q (M - 1))) = of_bool (ack_open n' q)"
        using q r kM False M_pos ao by (auto simp: n')
    next
      fix c assume c: "\<forall>r < p. c \<noteq> mch r (M - 1)"
      then show "apend n' c = 0" "\<not> aflag n' c"
        using i r kM False by (auto simp: pl_inv_def inv_acks_def n')
    qed
  qed
  ultimately show ?thesis by (simp add: pl_inv_def)
qed

lemma inv_finish:
  assumes i: "pl_inv n" and r: "r < p" and ph: "phase n r = RUNNING"
    and k: "stepno (ctl n r) = M" and fg: "aflag n (mch r (M - 1))"
    and n': "n' = set_phase r (FINISHED, snd (checkForTransferAck (mch r (M - 1)) n))"
  shows "pl_inv n'"
proof -
  have n': "phase n' = (phase n)(r := FINISHED)" "ctl n' = ctl n" "pend n' = pend n" "flag n' = flag n"
    "apend n' = apend n" "aflag n' = (aflag n)(mch r (M - 1) := False)"
    by (simp_all add: n' cnet)
  have st: "started n' q = started n q" for q using ph by (simp add: started_def n')
  have K: "K n' q = K n q" "sent n' q = sent n q" for q by (simp_all add: K_def sent_def st n')
  have ack: "q < p \<Longrightarrow> apend n (mch q (M - 1)) + of_bool (aflag n (mch q (M - 1))) = of_bool (ack_open n q)" for q
    using i by (auto simp: pl_inv_def inv_acks_def)
  from ack [OF r] fg have ao: "ack_open n r" "apend n (mch r (M - 1)) = 0"
    by (auto simp: of_bool_def split: if_splits)
  have Kr: "K n r = M" using ph k by (simp add: K_def started_def)
  have "inv_ranks n'" using i ao(1) Kr
    by (auto simp: pl_inv_def inv_ranks_def K st n' ack_open_def)
  moreover have "inv_msgs n'" using i by (auto simp: pl_inv_def inv_msgs_def n' inflight_def K)
  moreover have "inv_acks n'" unfolding inv_acks_def
  proof (intro conjI allI impI)
    fix q assume q: "q < p"
    show "apend n' (mch q (M - 1)) + of_bool (aflag n' (mch q (M - 1))) = of_bool (ack_open n' q)"
      using ack [OF q] q r M_pos ao(2) by (auto simp: n' ack_open_def K)
  next
    fix c assume "\<forall>r < p. c \<noteq> mch r (M - 1)"
    then show "apend n' c = 0" "\<not> aflag n' c"
      using i by (auto simp: pl_inv_def inv_acks_def n')
  qed
  ultimately show ?thesis by (simp add: pl_inv_def)
qed

lemma inv_deliver:
  assumes i: "pl_inv n" and c: "0 < pend n c"
  shows "pl_inv (deliver c n)" and "\<exists>r < p. \<exists>m < M. c = mch r m \<and> inflight n r m" and "\<not> flag n c"
proof -
  from i c obtain r m where rm: "r < p" "m < M" "c = mch r m"
    unfolding pl_inv_def inv_msgs_def by (metis less_numeral_extra(3))
  have msg: "q < p \<Longrightarrow> l < M \<Longrightarrow> pend n (mch q l) + of_bool (flag n (mch q l)) = of_bool (inflight n q l)" for q l
    using i by (auto simp: pl_inv_def inv_msgs_def)
  from msg [OF rm(1,2)] c rm(3) have d: "pend n c = 1" "\<not> flag n c" "inflight n r m"
    by (auto simp: of_bool_def split: if_splits)
  then show "\<exists>r < p. \<exists>m < M. c = mch r m \<and> inflight n r m" "\<not> flag n c" using rm by auto
  have K: "K (deliver c n) q = K n q" "sent (deliver c n) q = sent n q" for q
    by (simp_all add: K_def sent_def started_def cnet)
  then have fl: "inflight (deliver c n) q l = inflight n q l" for q l by (simp add: inflight_def)
  have "inv_msgs (deliver c n)" unfolding inv_msgs_def
  proof (intro conjI allI impI)
    fix q l assume q: "q < p" "l < M"
    show "pend (deliver c n) (mch q l) + of_bool (flag (deliver c n) (mch q l)) =
        of_bool (inflight (deliver c n) q l)"
      using msg [OF q] d rm q by (auto simp: cnet fl [unfolded rm(3)])
  next
    fix c' assume "\<forall>r < p. \<forall>m < M. c' \<noteq> mch r m"
    then show "pend (deliver c n) c' = 0" "\<not> flag (deliver c n) c'"
      using i rm by (auto simp: pl_inv_def inv_msgs_def cnet)
  qed
  moreover have "inv_ranks (deliver c n)" "inv_acks (deliver c n)"
    using i by (auto simp: pl_inv_def inv_ranks_def inv_acks_def K cnet started_def ack_open_def)
  ultimately show "pl_inv (deliver c n)" by (simp add: pl_inv_def)
qed

lemma inv_deliver_ack:
  assumes i: "pl_inv n" and c: "0 < apend n c"
  shows "pl_inv (deliver_ack c n)" and "\<exists>r < p. c = mch r (M - 1)"
proof -
  from i c show ex: "\<exists>r < p. c = mch r (M - 1)"
    unfolding pl_inv_def inv_acks_def by (metis less_numeral_extra(3))
  then obtain r where r: "r < p" "c = mch r (M - 1)" by blast
  have ack: "q < p \<Longrightarrow> apend n (mch q (M - 1)) + of_bool (aflag n (mch q (M - 1))) = of_bool (ack_open n q)" for q
    using i by (auto simp: pl_inv_def inv_acks_def)
  from ack [OF r(1)] c r(2) have d: "apend n c = 1" "\<not> aflag n c" "ack_open n r"
    by (auto simp: of_bool_def split: if_splits)
  have K: "K (deliver_ack c n) q = K n q" "sent (deliver_ack c n) q = sent n q" for q
    by (simp_all add: K_def sent_def started_def cnet)
  then have ao: "ack_open (deliver_ack c n) q = ack_open n q" for q by (simp add: ack_open_def cnet)
  have "inv_acks (deliver_ack c n)" unfolding inv_acks_def
  proof (intro conjI allI impI)
    fix q assume q: "q < p"
    show "apend (deliver_ack c n) (mch q (M - 1)) + of_bool (aflag (deliver_ack c n) (mch q (M - 1))) =
        of_bool (ack_open (deliver_ack c n) q)"
      using ack [OF q] d r q M_pos by (auto simp: cnet ao [unfolded r(2)] simp del: One_nat_def)
  next
    fix c' assume "\<forall>r < p. c' \<noteq> mch r (M - 1)"
    then show "apend (deliver_ack c n) c' = 0" "\<not> aflag (deliver_ack c n) c'"
      using i r by (auto simp: pl_inv_def inv_acks_def cnet)
  qed
  moreover have "inv_ranks (deliver_ack c n)" "inv_msgs (deliver_ack c n)"
    using i by (auto simp: pl_inv_def inv_ranks_def inv_msgs_def K cnet started_def inflight_def)
  ultimately show "pl_inv (deliver_ack c n)" by (simp add: pl_inv_def)
qed

subsection \<open>Every step of a run\<close>

text \<open>The step relation with the shape of the \<open>...Impl\<close> functions filled in.\<close>

inductive pl_step :: "(nat \<Rightarrow> 'i) \<Rightarrow> ('s, 'l, 'v) net \<Rightarrow> ('s, 'l, 'v) net \<Rightarrow> bool" for inp where
  s_idle: "pl_step inp n n"
| s_copyIn: "r < p \<Longrightarrow> phase n r = INITIALIZED \<Longrightarrow>
    pl_step inp n (set_phase r (READY, copyInImpl (I r) (inp r) n))"
| s_start: "r < p \<Longrightarrow> phase n r = READY \<Longrightarrow> pl_step inp n (set_phase r (RUNNING, startImpl (I r) n))"
| s_advance: "r < p \<Longrightarrow> phase n r = RUNNING \<Longrightarrow> k = stepno (ctl n r) \<Longrightarrow> k < M \<Longrightarrow>
    flag n (mch (left r) k) \<Longrightarrow> stepno s' = k + 1 \<Longrightarrow> wf r s' \<Longrightarrow>
    pl_step inp n (set_phase r (RUNNING, pl_advance p M mch work r k s' n))"
| s_finish: "r < p \<Longrightarrow> phase n r = RUNNING \<Longrightarrow> stepno (ctl n r) = M \<Longrightarrow> aflag n (mch r (M - 1)) \<Longrightarrow>
    pl_step inp n (set_phase r (FINISHED, snd (checkForTransferAck (mch r (M - 1)) n)))"
| s_deliver: "0 < pend n c \<Longrightarrow> pl_step inp n (deliver c n)"
| s_ack: "0 < apend n c \<Longrightarrow> pl_step inp n (deliver_ack c n)"

lemma pl_step_inv: "pl_step inp n n' \<Longrightarrow> pl_inv n \<Longrightarrow> pl_inv n'"
proof (induction rule: pl_step.induct)
  case (s_copyIn r n)
  then show ?case using inv_copyIn by blast
next
  case (s_start r n)
  then show ?case using inv_start by blast
next
  case (s_advance r n k s')
  then show ?case using inv_advance [OF s_advance(8,1-7) refl] by blast
next
  case (s_finish r n)
  then show ?case using inv_finish [OF s_finish(5,1-4) refl] by blast
qed (simp_all add: inv_deliver(1) inv_deliver_ack(1))

lemma coll_step_pl_step:
  assumes "coll_step env I p inp n n'" and i: "pl_inv n" and env: "gaspi_env env"
  shows "pl_step inp n n'"
  using assms(1)
proof cases
  case (copyIn r s)
  then show ?thesis using s_copyIn by (auto simp: cl_copyIn_def split: if_splits)
next
  case (start r s)
  then show ?thesis using s_start by (auto simp: cl_start_def split: if_splits)
next
  case (progress r lock b s)
  show ?thesis
  proof (cases "lock \<and> phase n r = RUNNING")
    case False
    then have "s = (phase n r, n)" using progress by (auto simp: cl_triggerProgress_def split: if_splits)
    then show ?thesis using progress s_idle by (simp add: set_phase_same)
  next
    case run: True
    have wf: "wf r (ctl n r)" and le: "stepno (ctl n r) \<le> M"
      using i run progress(2) by (auto simp: pl_inv_def inv_ranks_def started_def K_def)
    consider "stepno (ctl n r) = M" | "stepno (ctl n r) < M" "\<not> flag n (mch (left r) (stepno (ctl n r)))"
      | "stepno (ctl n r) < M" "flag n (mch (left r) (stepno (ctl n r)))"
      using le by linarith
    then show ?thesis
    proof cases
      case 1
      from trig_ack [OF progress(2) wf 1] progress run
      have "(b, s) = (case checkForTransferAck (mch r (M - 1)) n of
          (d, n1) \<Rightarrow> (d, if d then FINISHED else RUNNING, n1))"
        by (auto simp: cl_triggerProgress_def split: prod.splits)
      then have "s = (if aflag n (mch r (M - 1))
          then (FINISHED, snd (checkForTransferAck (mch r (M - 1)) n)) else (RUNNING, n))"
        by (auto simp: checkForTransferAck_def split: if_splits)
      then show ?thesis
        using progress(1,2) run 1 s_finish [of r n] s_idle by (auto simp: set_phase_same)
    next
      case 2
      from trig_idle [OF progress(2) wf 2] progress run have "s = (RUNNING, n)"
        by (simp add: cl_triggerProgress_def)
      then show ?thesis using progress(1) run s_idle by (simp add: set_phase_same)
    next
      case 3
      from trig_go [OF progress(2) wf 3] obtain s' where s': "stepno s' = stepno (ctl n r) + 1" "wf r s'"
        "triggerProgressImpl (I r) n = (False, pl_advance p M mch work r (stepno (ctl n r)) s' n)" by blast
      with progress run have "s = (RUNNING, pl_advance p M mch work r (stepno (ctl n r)) s' n)"
        by (simp add: cl_triggerProgress_def)
      then show ?thesis using progress(1,2) run 3 s' s_advance by simp
    qed
  qed
next
  case transfer
  with env have "(\<exists>c. 0 < pend n c \<and> n' = deliver c n) \<or> (\<exists>c. 0 < apend n c \<and> n' = deliver_ack c n)"
    unfolding gaspi_env_def by blast
  then show ?thesis using s_deliver s_ack by blast
qed

lemma reach_inv: "coll_reach env I p inp n0 n \<Longrightarrow> coll_init p n0 \<Longrightarrow> gaspi_env env \<Longrightarrow> pl_inv n"
  by (induction rule: rtranclp_induct) (blast intro: inv_init pl_step_inv coll_step_pl_step)+

subsection \<open>Neighbours are at most one step apart\<close>

lemma K_right: "pl_inv n \<Longrightarrow> r < p \<Longrightarrow> K n (right r) \<le> K n r + 1"
proof -
  assume "pl_inv n" "r < p"
  then have "K n (right r) \<le> sent n r" unfolding pl_inv_def inv_ranks_def by blast
  then show ?thesis by (auto simp: sent_def split: if_splits)
qed

lemma right_iter: "r < p \<Longrightarrow> (right ^^ j) r = (r + j) mod p"
proof (induction j)
  case (Suc j)
  then have "(right ^^ Suc j) r = right ((r + j) mod p)" by simp
  also have "\<dots> = ((r + j) mod p + 1) mod p" by (simp add: ring_next_def)
  also have "\<dots> = (r + Suc j) mod p" by (simp add: mod_Suc_eq)
  finally show ?case .
qed simp

lemma K_chain: "pl_inv n \<Longrightarrow> r < p \<Longrightarrow> K n ((r + j) mod p) \<le> K n r + j"
proof (induction j)
  case (Suc j)
  have lt: "(r + j) mod p < p" using Suc.prems p_bounds by simp
  have "(r + Suc j) mod p = right ((r + j) mod p)"
    using right_iter [OF Suc.prems(2), of j] right_iter [OF Suc.prems(2), of "Suc j"] by simp
  with K_right [OF Suc.prems(1) lt] Suc show ?case by simp
qed simp

subsection \<open>Progress\<close>

fun phw :: "cl_state \<Rightarrow> nat" where
  "phw RUNNING = 1"
| "phw FINISHED = 0"
| "phw READY = 3"
| "phw _ = 4"

definition weight :: "('s, 'l, 'v) net \<Rightarrow> nat \<Rightarrow> nat" where
  "weight n r = phw (phase n r) + 3 * (M - K n r)"

definition work_left :: "('s, 'l, 'v) net \<Rightarrow> nat" where
  "work_left n = (\<Sum>r < p. weight n r) + (\<Sum>r < p. \<Sum>m < M. pend n (mch r m)) + (\<Sum>r < p. apend n (mch r (M - 1)))"

lemma sum2_change:
  assumes "q < p" "l < M" "\<And>r m. r < p \<Longrightarrow> m < M \<Longrightarrow> (r, m) \<noteq> (q, l) \<Longrightarrow> f r m = g r m"
  shows "(\<Sum>r < p. \<Sum>m < M. f r m) + g q l = (\<Sum>r < p. \<Sum>m < M. g r m) + (f q l :: nat)"
proof -
  have "(\<Sum>m < M. f q m) + g q l = (\<Sum>m < M. g q m) + f q l"
    by (rule sum_change) (use assms in auto)
  moreover have "(\<Sum>r < p. \<Sum>m < M. f r m) + (\<Sum>m < M. g q m) = (\<Sum>r < p. \<Sum>m < M. g r m) + (\<Sum>m < M. f q m)"
    by (rule sum_change) (use assms in \<open>auto intro!: sum.cong\<close>)
  ultimately show ?thesis by linarith
qed

lemma pl_step_decreases:
  assumes "pl_step inp n n'" "pl_inv n"
  shows "n' = n \<or> work_left n' < work_left n"
  using assms
proof (induction rule: pl_step.induct)
  case (s_copyIn r n)
  obtain s' where s': "copyInImpl (I r) (inp r) n = set_ctl r s' (set_buf r (fill r (inp r) (buf n r)) n)"
    using copyIn_spec [OF s_copyIn(1)] by blast
  let ?n = "set_phase r (READY, copyInImpl (I r) (inp r) n)"
  have K: "K ?n q = K n q" for q using s_copyIn by (simp add: K_def started_def cnet s')
  have "(\<Sum>q < p. weight ?n q) + weight n r = (\<Sum>q < p. weight n q) + weight ?n r"
    by (rule sum_change) (use s_copyIn K in \<open>auto simp: weight_def cnet s'\<close>)
  moreover have "weight ?n r < weight n r" using s_copyIn K by (simp add: weight_def cnet)
  ultimately show ?case by (simp add: work_left_def cnet s')
next
  case (s_start r n)
  obtain s' where s': "stepno s' = 0" "startImpl (I r) n = initTransfer (mch r 0) (set_ctl r s' n)"
    using start_spec [OF s_start(1)] by blast
  let ?n = "set_phase r (RUNNING, startImpl (I r) n)"
  have K: "K ?n q = K n q" for q using s_start s' by (simp add: K_def started_def cnet)
  have 1: "(\<Sum>q < p. weight ?n q) + weight n r = (\<Sum>q < p. weight n q) + weight ?n r"
    by (rule sum_change) (use s_start K in \<open>auto simp: weight_def cnet s'\<close>)
  have 2: "weight ?n r + 2 = weight n r" using s_start K by (simp add: weight_def cnet)
  have 3: "pend ?n = (pend n)(mch r 0 := pend n (mch r 0) + 1)" "apend ?n = apend n" by (simp_all add: cnet s')
  have "(\<Sum>q < p. \<Sum>m < M. pend ?n (mch q m)) + pend n (mch r 0) =
      (\<Sum>q < p. \<Sum>m < M. pend n (mch q m)) + pend ?n (mch r 0)"
    by (rule sum2_change) (use s_start M_pos in \<open>auto simp: 3\<close>)
  with 1 2 show ?case unfolding work_left_def by (simp add: 3)
next
  case (s_advance r n k s')
  let ?n = "set_phase r (RUNNING, pl_advance p M mch work r k s' n)"
  have K: "K ?n q = (if q = r then k + 1 else K n q)" "K n r = k" for q
    using s_advance by (auto simp: K_def started_def cnet)
  have 1: "(\<Sum>q < p. weight ?n q) + weight n r = (\<Sum>q < p. weight n q) + weight ?n r"
    by (rule sum_change) (use s_advance K in \<open>auto simp: weight_def cnet\<close>)
  have 2: "weight ?n r + 3 = weight n r" using s_advance K by (simp add: weight_def cnet)
  have "(\<Sum>q < p. \<Sum>m < M. pend ?n (mch q m)) + (\<Sum>q < p. apend ?n (mch q (M - 1))) =
      (\<Sum>q < p. \<Sum>m < M. pend n (mch q m)) + (\<Sum>q < p. apend n (mch q (M - 1))) + 1"
  proof (cases "k + 1 < M")
    case True
    then have e: "pend ?n = (pend n)(mch r (k + 1) := pend n (mch r (k + 1)) + 1)" "apend ?n = apend n"
      by (simp_all add: cnet)
    have "(\<Sum>q < p. \<Sum>m < M. pend ?n (mch q m)) + pend n (mch r (k + 1)) =
        (\<Sum>q < p. \<Sum>m < M. pend n (mch q m)) + pend ?n (mch r (k + 1))"
      by (rule sum2_change) (use s_advance(1) True in \<open>auto simp: e\<close>)
    then show ?thesis by (simp add: e)
  next
    case False
    with s_advance have k: "k = M - 1" by simp
    from False have e: "pend ?n = pend n"
      "apend ?n = (apend n)(mch (left r) (M - 1) := apend n (mch (left r) (M - 1)) + 1)"
      by (simp_all add: cnet k)
    have "(\<Sum>q < p. apend ?n (mch q (M - 1))) + apend n (mch (left r) (M - 1)) =
        (\<Sum>q < p. apend n (mch q (M - 1))) + apend ?n (mch (left r) (M - 1))"
      by (rule sum_change) (use s_advance(1) M_pos in \<open>auto simp: e\<close>)
    then show ?thesis by (simp add: e)
  qed
  with 1 2 show ?case unfolding work_left_def by simp
next
  case (s_finish r n)
  let ?n = "set_phase r (FINISHED, snd (checkForTransferAck (mch r (M - 1)) n))"
  have K: "K ?n q = K n q" for q using s_finish by (auto simp: K_def started_def cnet)
  have "(\<Sum>q < p. weight ?n q) + weight n r = (\<Sum>q < p. weight n q) + weight ?n r"
    by (rule sum_change) (use s_finish K in \<open>auto simp: weight_def cnet\<close>)
  moreover have "weight ?n r < weight n r" using s_finish K by (simp add: weight_def cnet)
  ultimately show ?case by (simp add: work_left_def cnet)
next
  case (s_deliver n c)
  from inv_deliver(2) [OF s_deliver(2,1)] obtain r m where rm: "r < p" "m < M" "c = mch r m" by blast
  have "(\<Sum>q < p. \<Sum>l < M. pend (deliver c n) (mch q l)) + pend n (mch r m) =
      (\<Sum>q < p. \<Sum>l < M. pend n (mch q l)) + pend (deliver c n) (mch r m)"
    by (rule sum2_change) (use rm in \<open>auto simp: cnet\<close>)
  moreover have "weight (deliver c n) q = weight n q" for q by (simp add: weight_def K_def started_def cnet)
  moreover have "pend (deliver c n) (mch r m) + 1 = pend n (mch r m)" "apend (deliver c n) = apend n"
    using s_deliver(1) rm(3) by (simp_all add: cnet)
  ultimately show ?case unfolding work_left_def by simp
next
  case (s_ack n c)
  from inv_deliver_ack(2) [OF s_ack(2,1)] obtain r where r: "r < p" "c = mch r (M - 1)" by blast
  have "(\<Sum>q < p. apend (deliver_ack c n) (mch q (M - 1))) + apend n (mch r (M - 1)) =
      (\<Sum>q < p. apend n (mch q (M - 1))) + apend (deliver_ack c n) (mch r (M - 1))"
    by (rule sum_change) (use r M_pos in \<open>auto simp: cnet\<close>)
  moreover have "weight (deliver_ack c n) q = weight n q" for q by (simp add: weight_def K_def started_def cnet)
  moreover have "apend (deliver_ack c n) (mch r (M - 1)) + 1 = apend n (mch r (M - 1))"
      "pend (deliver_ack c n) = pend n"
    using s_ack(1) r(2) by (simp_all add: cnet)
  ultimately show ?case unfolding work_left_def by simp
qed simp

subsection \<open>No deadlock\<close>

definition all_finished :: "('s, 'l, 'v) net \<Rightarrow> bool" where
  "all_finished n \<longleftrightarrow> (\<forall>r < p. phase n r = FINISHED)"

text \<open>Some rank can move as long as not all are finished: look at a started rank whose left
  neighbour is not behind it.\<close>

lemma can_move:
  assumes i: "pl_inv n" and nf: "\<not> all_finished n"
  shows "\<exists>n'. pl_step inp n n' \<and> n' \<noteq> n"
proof -
  have dec: "\<exists>n'. pl_step inp n n' \<and> n' \<noteq> n" if "pl_step inp n n'" "work_left n' < work_left n" for n'
    using that by (metis less_irrefl)
  consider r where "r < p" "phase n r = INITIALIZED" | r where "r < p" "phase n r = READY"
    | c where "0 < pend n c" | c where "0 < apend n c"
    | "\<forall>r < p. started n r" "\<forall>c. pend n c = 0" "\<forall>c. apend n c = 0"
  proof -
    have "phase n r = INITIALIZED \<or> phase n r = READY \<or> started n r" if "r < p" for r
      using i that by (cases "phase n r") (auto simp: started_def pl_inv_def inv_ranks_def)
    then show ?thesis using that by (meson not_gr0)
  qed
  then show ?thesis
  proof cases
    case (1 r)
    have "set_phase r (READY, copyInImpl (I r) (inp r) n) \<noteq> n"
    proof
      assume "set_phase r (READY, copyInImpl (I r) (inp r) n) = n"
      then have "phase (set_phase r (READY, copyInImpl (I r) (inp r) n)) r = phase n r" by simp
      with 1 show False by (simp add: cnet)
    qed
    with 1 s_copyIn show ?thesis by blast
  next
    case (2 r)
    have "set_phase r (RUNNING, startImpl (I r) n) \<noteq> n"
    proof
      assume "set_phase r (RUNNING, startImpl (I r) n) = n"
      then have "phase (set_phase r (RUNNING, startImpl (I r) n)) r = phase n r" by simp
      with 2 show False by (simp add: cnet)
    qed
    with 2 s_start show ?thesis by blast
  next
    case (3 c)
    have "pend (deliver c n) c \<noteq> pend n c" using 3 by (simp add: cnet)
    then have "deliver c n \<noteq> n" by metis
    with 3 s_deliver show ?thesis by blast
  next
    case (4 c)
    have "apend (deliver_ack c n) c \<noteq> apend n c" using 4 by (simp add: cnet)
    then have "deliver_ack c n \<noteq> n" by metis
    with 4 s_ack show ?thesis by blast
  next
    case 5
    have Kle: "K n r \<le> M" "started n r" if "r < p" for r using i that 5 by (auto simp: pl_inv_def inv_ranks_def)
    show ?thesis
    proof (cases "\<forall>r < p. K n r = M")
      case True
      from nf obtain r where r: "r < p" "phase n r \<noteq> FINISHED" by (auto simp: all_finished_def)
      then have run: "phase n r = RUNNING" "ack_open n r" using 5 True by (auto simp: started_def ack_open_def)
      have "K n r = M" using True r(1) by blast
      then have st: "stepno (ctl n r) = M" using Kle(2) [OF r(1)] by (simp add: K_def)
      have "apend n (mch r (M - 1)) + of_bool (aflag n (mch r (M - 1))) = 1"
        using i r(1) run(2) unfolding pl_inv_def inv_acks_def by simp
      moreover have "apend n (mch r (M - 1)) = 0" using 5 by blast
      ultimately have fg: "aflag n (mch r (M - 1))" by (cases "aflag n (mch r (M - 1))") simp_all
      have s: "pl_step inp n (set_phase r (FINISHED, snd (checkForTransferAck (mch r (M - 1)) n)))"
        (is "pl_step inp n ?n") by (rule s_finish [OF r(1) run(1) st fg])
      have "phase ?n r \<noteq> phase n r" using run(1) by (simp add: cnet)
      then have "?n \<noteq> n" by (rule neq_via [where f = "\<lambda>n. phase n r"])
      with s show ?thesis by blast
    next
      case False
      define P where "P = Min (K n ` {..<p})"
      have "P \<in> K n ` {..<p}" unfolding P_def using p_bounds
        by (intro Min_in) (auto simp: lessThan_empty_iff)
      then obtain r where r: "r < p" "K n r = P" by auto
      have min: "P \<le> K n q" if "q < p" for q using that unfolding P_def by simp
      from False Kle(1) obtain q where "q < p" "K n q < M" by (meson le_neq_implies_less)
      with min have "P < M" by fastforce
      then have k: "K n r < M" using r by simp
      then have run: "phase n r = RUNNING" using Kle(2) [OF r(1)] i r(1)
        by (auto simp: started_def pl_inv_def inv_ranks_def)
      have st: "stepno (ctl n r) = K n r" using Kle(2) [OF r(1)] by (simp add: K_def)
      have "K n r < sent n (left r)" using min [OF nb(1) [OF r(1)]] r Kle(2) [OF nb(1) [OF r(1)]] k
        by (simp add: sent_def)
      then have "inflight n (left r) (K n r)" using r by (simp add: inflight_def)
      moreover have "pend n (mch (left r) (K n r)) + of_bool (flag n (mch (left r) (K n r))) =
          of_bool (inflight n (left r) (K n r))"
        using i r(1) k by (auto simp: pl_inv_def inv_msgs_def)
      ultimately have fg: "flag n (mch (left r) (K n r))" using 5
        by (cases "flag n (mch (left r) (K n r))") simp_all
      have "wf r (ctl n r)" using i r(1) Kle(2) by (auto simp: pl_inv_def inv_ranks_def)
      from trig_go [OF r(1) this] st k fg obtain s' where s': "stepno s' = K n r + 1" "wf r s'" by auto
      have s: "pl_step inp n (set_phase r (RUNNING, pl_advance p M mch work r (K n r) s' n))"
        (is "pl_step inp n ?n") by (rule s_advance [OF r(1) run _ k fg]) (simp_all add: st s')
      have "stepno (ctl ?n r) \<noteq> stepno (ctl n r)" using st s' by (simp add: cnet)
      then have "?n \<noteq> n" by (rule neq_via [where f = "\<lambda>n. stepno (ctl n r)"])
      with s show ?thesis by blast
    qed
  qed
qed

text \<open>Every such move is a step of the program or, with a live environment, of the environment.\<close>

lemma pl_step_coll_step:
  assumes "pl_step inp n n'" "gaspi_live env" "pl_inv n" "n' \<noteq> n"
  shows "\<exists>n''. coll_step env I p inp n n'' \<and> n'' \<noteq> n"
  using assms
proof (induction rule: pl_step.induct)
  case (s_copyIn r n)
  then show ?case using coll_step.copyIn [of r p I inp n "(READY, copyInImpl (I r) (inp r) n)" env]
    by (auto simp: cl_copyIn_def)
next
  case (s_start r n)
  then show ?case using coll_step.start [of r p I n "(RUNNING, startImpl (I r) n)" env inp]
    by (auto simp: cl_start_def)
next
  case (s_advance r n k s')
  have "wf r (ctl n r)" using s_advance by (auto simp: pl_inv_def inv_ranks_def started_def)
  from trig_go [OF s_advance(1) this] s_advance obtain s'' where s'': "stepno s'' = k + 1"
    "triggerProgressImpl (I r) n = (False, pl_advance p M mch work r k s'' n)" by auto
  let ?n = "set_phase r (RUNNING, pl_advance p M mch work r k s'' n)"
  have "coll_step env I p inp n ?n"
    using coll_step.progress [of r p I True n False "(RUNNING, pl_advance p M mch work r k s'' n)" env inp]
      s_advance s'' by (simp add: cl_triggerProgress_def)
  moreover have "stepno (ctl ?n r) \<noteq> stepno (ctl n r)" using s'' s_advance by (simp add: cnet)
  then have "?n \<noteq> n" by (rule neq_via [where f = "\<lambda>n. stepno (ctl n r)"])
  ultimately show ?case by blast
next
  case (s_finish r n)
  have "wf r (ctl n r)" using s_finish by (auto simp: pl_inv_def inv_ranks_def started_def)
  from trig_ack [OF s_finish(1) this] s_finish
  have "triggerProgressImpl (I r) n = (True, snd (checkForTransferAck (mch r (M - 1)) n))"
    by (simp add: checkForTransferAck_def)
  then show ?case
    using coll_step.progress [of r p I True n True
        "(FINISHED, snd (checkForTransferAck (mch r (M - 1)) n))" env inp] s_finish
    by (auto simp: cl_triggerProgress_def)
next
  case (s_deliver n c)
  then show ?case unfolding gaspi_live_def by (blast intro: coll_step.transfer)
next
  case (s_ack n c)
  then show ?case unfolding gaspi_live_def by (blast intro: coll_step.transfer)
qed simp

lemma coll_step_decreases:
  "coll_step env I p inp n n' \<Longrightarrow> pl_inv n \<Longrightarrow> gaspi_env env \<Longrightarrow> n' = n \<or> work_left n' < work_left n"
  using coll_step_pl_step pl_step_decreases by blast

lemma coll_no_deadlock:
  "pl_inv n \<Longrightarrow> gaspi_live env \<Longrightarrow> \<not> all_finished n \<Longrightarrow> \<exists>n'. coll_step env I p inp n n' \<and> n' \<noteq> n"
  using can_move pl_step_coll_step by blast

theorem coll_completes:
  assumes "pl_inv n" "gaspi_env env" "gaspi_live env"
  shows "\<exists>n'. coll_reach env I p inp n n' \<and> all_finished n'"
  using assms(1)
proof (induction "work_left n" arbitrary: n rule: less_induct)
  case less
  show ?case
  proof (cases "all_finished n")
    case False
    from coll_no_deadlock [OF less(2) assms(3) False] obtain n1 where
      n1: "coll_step env I p inp n n1" "n1 \<noteq> n" by blast
    have "work_left n1 < work_left n" using coll_step_decreases [OF n1(1) less(2) assms(2)] n1(2) by blast
    moreover have "pl_inv n1" using pl_step_inv [OF coll_step_pl_step [OF n1(1) less(2) assms(2)] less(2)] .
    ultimately obtain n' where "coll_reach env I p inp n1 n'" "all_finished n'" using less(1) by blast
    with n1(1) show ?thesis by (meson converse_rtranclp_into_rtranclp)
  qed blast
qed

lemma work_left_init: "coll_init p n \<Longrightarrow> work_left n = p * (3 * M + 4)"
  by (simp add: work_left_def weight_def coll_init_def K_def started_def)

end

end
