(* ===== verification/Allreduce_Ring.thy ===== *)
theory Allreduce_Ring
  imports Ring_Pipeline
begin

text \<open>
  \<open>AllreduceCommon\<close> and \<open>AllreduceRing.hpp\<close>: the ring allreduce.  The \<open>n\<close> elements are cut into
  \<open>p\<close> chunks; \<open>p - 1\<close> steps pass partial reductions around the ring, \<open>p - 1\<close> more pass the
  finished chunks.  The element type is a type variable, the element operation \<open>f\<close> is any
  function (\<open>apply_reduce_op\<close> gives it from the \<open>ReductionOp\<close>).
\<close>

section \<open>The reduction\<close>

datatype ReductionOp = PROD_op | SUM_op

fun reduction_functor :: "ReductionOp \<Rightarrow> 'a::{plus,times} \<Rightarrow> 'a \<Rightarrow> 'a" where
  "reduction_functor PROD_op = (\<lambda>a b. a * b)"
| "reduction_functor SUM_op = (\<lambda>a b. a + b)"

definition apply_reduce_op :: "('a \<Rightarrow> 'a \<Rightarrow> 'a) \<Rightarrow> 'a list \<Rightarrow> 'a list \<Rightarrow> 'a list" where
  "apply_reduce_op f source target = map2 f source target"

definition ceil_div :: "u64 \<Rightarrow> u64 \<Rightarrow> u64" where
  "ceil_div a b = (a + b - 1) div b"

definition number_elements_padded :: "nat \<Rightarrow> nat \<Rightarrow> nat" where
  "number_elements_padded n p = unat (ceil_div (of_nat n) (of_nat p))"

section \<open>The object of a rank\<close>

text \<open>
  Memory: \<open>SrcSlot i\<close> is the allocation of \<open>source_buffers_reduce[i]\<close>, which the gather buffers of
  index \<open>i\<close> share, \<open>TgtSlot i\<close> that of \<open>target_buffers_reduce[i]\<close>, \<open>OneRank\<close> is
  \<open>data_for_1rank_case\<close>.  The content of a slot is the list of its elements.
\<close>

datatype ar_slot = SrcSlot nat | TgtSlot nat | OneRank

record ar_ctl =
  current_step :: nat
  current_index :: nat

datatype RingStage = REDUCE | GATHER

definition reduce_chan :: "nat \<Rightarrow> nat \<Rightarrow> nat \<Rightarrow> ar_slot chan" where
  "reduce_chan p r i = \<lparr>c_src = r, c_sslot = SrcSlot i, c_dst = ring_next p r, c_dslot = TgtSlot i, c_tag = i\<rparr>"

definition gather_chan :: "nat \<Rightarrow> nat \<Rightarrow> nat \<Rightarrow> ar_slot chan" where
  "gather_chan p r i = \<lparr>c_src = r, c_sslot = SrcSlot i, c_dst = ring_next p r, c_dslot = SrcSlot i, c_tag = i + p\<rparr>"

text \<open>The connections the constructor asks for on rank \<open>r\<close>.\<close>

definition ar_connections :: "nat \<Rightarrow> nat \<Rightarrow> nat \<Rightarrow> ar_slot endpoint list" where
  "ar_connections p n r =
     (if n > 0 \<and> p > 1 then
        let left_neighbor = ring_prev p r; right_neighbor = ring_next p r
        in concat (map (\<lambda>i.
             [\<lparr>ep_source = True, ep_slot = SrcSlot i, ep_partner = right_neighbor, ep_tag = i\<rparr>,
              \<lparr>ep_source = False, ep_slot = TgtSlot i, ep_partner = left_neighbor, ep_tag = i\<rparr>,
              \<lparr>ep_source = True, ep_slot = SrcSlot i, ep_partner = right_neighbor, ep_tag = i + p\<rparr>,
              \<lparr>ep_source = False, ep_slot = SrcSlot i, ep_partner = left_neighbor, ep_tag = i + p\<rparr>]) [0..<p])
      else [])"

definition algorithm_get_current_stage :: "nat \<Rightarrow> ar_ctl \<Rightarrow> RingStage" where
  "algorithm_get_current_stage steps_per_stage s = (if current_step s div steps_per_stage = 0 then REDUCE else GATHER)"

definition is_last_step_reduce :: "nat \<Rightarrow> ar_ctl \<Rightarrow> bool" where
  "is_last_step_reduce steps_per_stage s = (current_step s = steps_per_stage - 1)"

definition is_last_step_gather :: "nat \<Rightarrow> ar_ctl \<Rightarrow> bool" where
  "is_last_step_gather steps_per_stage s = (current_step s = 2 * steps_per_stage - 1)"

definition is_last_step :: "nat \<Rightarrow> ar_ctl \<Rightarrow> bool" where
  "is_last_step steps_per_stage s = (current_step s = 2 * steps_per_stage)"

type_synonym 'a ar_net = "(ar_ctl, ar_slot, 'a list) net"

definition ar_start :: "nat \<Rightarrow> nat \<Rightarrow> nat \<Rightarrow> 'a ar_net \<Rightarrow> 'a ar_net" where
  "ar_start p n r net =
     (if n > 0 \<and> p > 1 then
        let current_index0 = r mod p;
            net1 = initTransfer (reduce_chan p r current_index0)
                     (set_ctl r \<lparr>current_step = 0, current_index = current_index0\<rparr> net)
        in set_ctl r ((ctl net1 r)\<lparr>current_index := ring_prev p current_index0\<rparr>) net1
      else net)"

definition ar_trigger :: "nat \<Rightarrow> nat \<Rightarrow> ('a \<Rightarrow> 'a \<Rightarrow> 'a) \<Rightarrow> nat \<Rightarrow> 'a ar_net \<Rightarrow> bool \<times> 'a ar_net" where
  "ar_trigger p n f r net =
     (if n = 0 \<or> p = 1 then (True, net)
      else
        let s = ctl net r; steps_per_stage = p - 1; i = current_index s; left_neighbor = ring_prev p r in
        if is_last_step steps_per_stage s then
          let index = (i + 2) mod p in checkForTransferAck (gather_chan p r index) net
        else
          case (case algorithm_get_current_stage steps_per_stage s of
                  REDUCE \<Rightarrow> checkForCompletion (reduce_chan p left_neighbor i) net
                | GATHER \<Rightarrow> checkForCompletion (gather_chan p left_neighbor i) net) of
            (made_progress, net1) \<Rightarrow>
              if \<not> made_progress then (False, net1)
              else
                let net2 =
                  (case algorithm_get_current_stage steps_per_stage s of
                     REDUCE \<Rightarrow>
                       let net' = set_buf r ((buf net1 r)(SrcSlot i :=
                              apply_reduce_op f (buf net1 r (SrcSlot i)) (buf net1 r (TgtSlot i)))) net1
                       in if \<not> is_last_step_reduce steps_per_stage s
                          then initTransfer (reduce_chan p r i) net'
                          else initTransfer (gather_chan p r i) net'
                   | GATHER \<Rightarrow>
                       if \<not> is_last_step_gather steps_per_stage s
                       then initTransfer (gather_chan p r i) net1
                       else ackTransfer (gather_chan p left_neighbor i) net1)
                in (False, set_ctl r (s\<lparr>current_step := current_step s + 1,
                                         current_index := ring_prev p i\<rparr>) net2))"

text \<open>
  The copy loops: \<open>cur\<close> is the rest of the user's buffer, \<open>tot\<close> is
  \<open>total_copied_elements\<close>; the size of a buffer is the length of its slot.
\<close>

fun copyIn_loop :: "nat \<Rightarrow> nat \<Rightarrow> 'a list \<Rightarrow> 'a list list \<Rightarrow> 'a list list" where
  "copyIn_loop n tot cur [] = []"
| "copyIn_loop n tot cur (b # bs) =
     (let elements_to_copy = (if tot + length b > n then n - tot else length b);
          b' = take elements_to_copy cur @ drop elements_to_copy b;
          tot' = tot + elements_to_copy
      in if tot' \<ge> n then b' # bs else b' # copyIn_loop n tot' (drop elements_to_copy cur) bs)"

fun copyOut_loop :: "nat \<Rightarrow> nat \<Rightarrow> 'a list list \<Rightarrow> 'a list" where
  "copyOut_loop n tot [] = []"
| "copyOut_loop n tot (b # bs) =
     (let elements_to_copy = (if tot + length b > n then n - tot else length b);
          tot' = tot + elements_to_copy
      in take elements_to_copy b @ (if tot' \<ge> n then [] else copyOut_loop n tot' bs))"

text \<open>The source buffers of a rank, in order; there are none with one rank or without elements.\<close>

definition source_buffers :: "nat \<Rightarrow> nat \<Rightarrow> (ar_slot \<Rightarrow> 'a list) \<Rightarrow> 'a list list" where
  "source_buffers p n b = (if n > 0 \<and> p > 1 then map (\<lambda>i. b (SrcSlot i)) [0..<p] else [])"

definition ar_fill :: "nat \<Rightarrow> nat \<Rightarrow> nat \<Rightarrow> 'a list \<Rightarrow> (ar_slot \<Rightarrow> 'a list) \<Rightarrow> (ar_slot \<Rightarrow> 'a list)" where
  "ar_fill p n r inputs b =
     (if p = 1 then b(OneRank := take n inputs)
      else (\<lambda>l. case l of
              SrcSlot i \<Rightarrow> (if i < length (source_buffers p n b)
                            then copyIn_loop n 0 inputs (source_buffers p n b) ! i else b l)
            | _ \<Rightarrow> b l))"

definition ar_copyIn :: "nat \<Rightarrow> nat \<Rightarrow> nat \<Rightarrow> 'a list \<Rightarrow> 'a ar_net \<Rightarrow> 'a ar_net" where
  "ar_copyIn p n r inputs net = set_buf r (ar_fill p n r inputs (buf net r)) net"

definition ar_copyOut :: "nat \<Rightarrow> nat \<Rightarrow> nat \<Rightarrow> 'a ar_net \<Rightarrow> 'a list" where
  "ar_copyOut p n r net =
     (if p = 1 then buf net r OneRank else copyOut_loop n 0 (source_buffers p n (buf net r)))"

text \<open>The setup waits for the connections and leaves the buffers as they are.\<close>

definition ar_impl :: "nat \<Rightarrow> nat \<Rightarrow> ('a \<Rightarrow> 'a \<Rightarrow> 'a) \<Rightarrow> nat \<Rightarrow> ('a ar_net, 'a list, 'a list) coll_impl" where
  "ar_impl p n f r =
     \<lparr>waitForSetupImpl = (\<lambda>net. net), copyInImpl = ar_copyIn p n r, startImpl = ar_start p n r,
      triggerProgressImpl = ar_trigger p n f r, copyOutImpl = ar_copyOut p n r\<rparr>"

section \<open>Positions on the ring\<close>

text \<open>Message \<open>m\<close> of rank \<open>r\<close> carries chunk \<open>mc p r m\<close>; \<open>dist p r c\<close> is the number of reduce
  steps chunk \<open>c\<close> needs to reach rank \<open>r\<close>.\<close>

definition mc :: "nat \<Rightarrow> nat \<Rightarrow> nat \<Rightarrow> nat" where
  "mc p r m = (r + 2 * p - m) mod p"

definition dist :: "nat \<Rightarrow> nat \<Rightarrow> nat \<Rightarrow> nat" where
  "dist p r c = (r + p - c) mod p"

lemma mod_small3: "(x::nat) < 3 * p \<Longrightarrow> x mod p = (if x < p then x else if x < 2 * p then x - p else x - 2 * p)"
  by (auto simp: le_mod_geq not_less)

lemma mc_eq: "r < p \<Longrightarrow> m \<le> 2 * p \<Longrightarrow>
    mc p r m = (if r + p < m then r + 2 * p - m else if r < m then r + p - m else r - m)"
  unfolding mc_def by (subst mod_small3) auto

lemma dist_eq: "r < p \<Longrightarrow> c < p \<Longrightarrow> dist p r c = (if c \<le> r then r - c else r + p - c)"
  unfolding dist_def by (subst mod_small3) auto

lemma mc_less [simp]: "r < p \<Longrightarrow> mc p r m < p"
  by (simp add: mc_def)

lemma dist_less [simp]: "r < p \<Longrightarrow> dist p r c < p"
  by (simp add: dist_def)

lemma mc_0 [simp]: "r < p \<Longrightarrow> mc p r 0 = r"
  by (simp add: mc_eq)

lemma ring_prev_mc: "r < p \<Longrightarrow> m < 2 * p \<Longrightarrow> ring_prev p (mc p r m) = mc p r (m + 1)"
  by (auto simp: mc_eq ring_prev_alt)

lemma mc_left: "r < p \<Longrightarrow> m < 2 * p \<Longrightarrow> mc p (ring_prev p r) m = mc p r (m + 1)"
  by (auto simp: mc_eq ring_prev_alt)

lemma mc_inj: "r < p \<Longrightarrow> m \<le> 2 * p \<Longrightarrow> m' \<le> 2 * p \<Longrightarrow> m < m' + p \<Longrightarrow> m' < m + p \<Longrightarrow>
    mc p r m = mc p r m' \<longleftrightarrow> m = m'"
  by (auto simp: mc_eq split: if_splits)

lemma dist_mc: "r < p \<Longrightarrow> m < 2 * p \<Longrightarrow> dist p r (mc p r m) = (if m < p then m else m - p)"
  by (auto simp: mc_eq dist_eq split: if_splits)

lemma mc_dist: "r < p \<Longrightarrow> c < p \<Longrightarrow> mc p r (dist p r c) = c"
  by (auto simp: mc_eq dist_eq split: if_splits)

lemma mc_dist_p: "r < p \<Longrightarrow> c < p \<Longrightarrow> mc p r (dist p r c + p) = c"
  by (auto simp: mc_eq dist_eq split: if_splits)

lemma dist_left: "r < p \<Longrightarrow> c < p \<Longrightarrow> dist p (ring_prev p r) c = (if dist p r c = 0 then p - 1 else dist p r c - 1)"
  by (auto simp: ring_prev_alt dist_eq split: if_splits)

lemma dist_right: "r < p \<Longrightarrow> c < p \<Longrightarrow> dist p (ring_next p r) c = (if dist p r c = p - 1 then 0 else dist p r c + 1)"
  by (auto simp: ring_next_alt dist_eq split: if_splits)

section \<open>The code follows the ring pipeline\<close>

text \<open>Message \<open>m\<close> of rank \<open>r\<close>: the first \<open>p - 1\<close> are reduce transfers, the others gather transfers.\<close>

definition ar_mch :: "nat \<Rightarrow> nat \<Rightarrow> nat \<Rightarrow> ar_slot chan" where
  "ar_mch p r m = (if m < p - 1 then reduce_chan p r (mc p r m) else gather_chan p r (mc p r m))"

definition ar_wf :: "nat \<Rightarrow> nat \<Rightarrow> ar_ctl \<Rightarrow> bool" where
  "ar_wf p r s \<longleftrightarrow> current_index s = mc p r (current_step s + 1)"

definition ar_work :: "nat \<Rightarrow> ('a \<Rightarrow> 'a \<Rightarrow> 'a) \<Rightarrow> nat \<Rightarrow> nat \<Rightarrow> (ar_slot \<Rightarrow> 'a list) \<Rightarrow> (ar_slot \<Rightarrow> 'a list)" where
  "ar_work p f r k b =
     (if k < p - 1 then b(SrcSlot (mc p r (k + 1)) :=
        map2 f (b (SrcSlot (mc p r (k + 1)))) (b (TgtSlot (mc p r (k + 1))))) else b)"

lemma ar_mch_inj:
  assumes "2 \<le> p" "r < p" "m < 2 * p - 2" "m' < 2 * p - 2" "ar_mch p r m = ar_mch p r' m'"
  shows "r = r' \<and> m = m'"
proof -
  have r: "r = r'" using assms(5) by (auto simp: ar_mch_def reduce_chan_def gather_chan_def split: if_splits)
  have lt: "mc p r m < p" "mc p r m' < p" using assms by simp_all
  have "m < p - 1 \<longleftrightarrow> m' < p - 1" and "mc p r m = mc p r m'"
    using assms(5) lt r by (auto simp: ar_mch_def reduce_chan_def gather_chan_def split: if_splits)
  with mc_inj [of r p m m'] assms r show ?thesis by auto
qed

lemma set_buf_same: "set_buf r (buf n r) n = n"
  by (simp add: set_buf_def)

lemma set_ctl_swap:
  "set_ctl r s (initTransfer c n) = initTransfer c (set_ctl r s n)"
  "set_ctl r s (ackTransfer c n) = ackTransfer c (set_ctl r s n)"
  by (simp_all add: set_ctl_def initTransfer_def ackTransfer_def)

lemma checkForCompletion_cases:
  "checkForCompletion c n = (flag n c, snd (checkForCompletion c n))"
  by (simp add: checkForCompletion_def)

lemma ar_pipeline:
  assumes p: "2 \<le> p" and n: "0 < n"
  shows "ring_pipeline p (2 * p - 2) (ar_mch p) current_step (ar_wf p) (ar_work p f) (ar_fill p n) (ar_impl p n f)"
proof
  show "2 \<le> p" by (rule p)
  show "0 < 2 * p - 2" using p by simp
  show "r < p \<Longrightarrow> m < 2 * p - 2 \<Longrightarrow> r' < p \<Longrightarrow> m' < 2 * p - 2 \<Longrightarrow> ar_mch p r m = ar_mch p r' m' \<Longrightarrow>
      r = r' \<and> m = m'" for r m r' m'
    by (rule ar_mch_inj [OF p])
  fix r and net :: "'a ar_net" assume r: "r < p"
  show "\<exists>s'. copyInImpl (ar_impl p n f r) x net = set_ctl r s' (set_buf r (ar_fill p n r x (buf net r)) net)" for x
    by (rule exI [of _ "ctl net r"]) (simp add: ar_impl_def ar_copyIn_def set_ctl_def set_buf_def)
  have "ar_start p n r net = initTransfer (reduce_chan p r r)
      (set_ctl r \<lparr>current_step = 0, current_index = ring_prev p r\<rparr> net)"
    using p n r by (simp add: ar_start_def Let_def set_ctl_def initTransfer_def)
  moreover have "ring_prev p r = mc p r 1" using ring_prev_mc [of r p 0] r by simp
  ultimately show "\<exists>s'. current_step s' = 0 \<and> ar_wf p r s' \<and>
      startImpl (ar_impl p n f r) net = initTransfer (ar_mch p r 0) (set_ctl r s' net)"
    using p r by (intro exI [of _ "\<lparr>current_step = 0, current_index = ring_prev p r\<rparr>"])
      (simp add: ar_impl_def ar_wf_def ar_mch_def)
  let ?s = "ctl net r" and ?k = "current_step (ctl net r)"
  assume wf: "ar_wf p r ?s"
  then have ix: "current_index ?s = mc p r (?k + 1)" by (simp add: ar_wf_def)
  have p1: "\<not> (n = 0 \<or> p = 1)" using p n by simp
  show "triggerProgressImpl (ar_impl p n f r) net = checkForTransferAck (ar_mch p r (2 * p - 2 - 1)) net"
    if k: "?k = 2 * p - 2"
  proof -
    have "\<not> 2 * p - 3 < p - Suc 0" using p by simp
    moreover have "(mc p r (?k + 1) + 2) mod p = mc p r (2 * p - 3)"
      using r p k by (auto simp: mc_eq mod_if)
    ultimately show ?thesis using k p p1 r
      by (simp add: ar_impl_def ar_trigger_def is_last_step_def ix Let_def ar_mch_def diff_mult_distrib2)
  qed
  note One_nat_def [simp del]
  assume k: "?k < 2 * p - 2"
  then have nl: "\<not> is_last_step (p - 1) ?s" by (simp add: is_last_step_def diff_mult_distrib2)
  have stage: "algorithm_get_current_stage (p - 1) ?s = (if ?k < p - 1 then REDUCE else GATHER)"
    using p by (auto simp: algorithm_get_current_stage_def div_eq_0_iff)
  have chk: "(case algorithm_get_current_stage (p - 1) ?s of
        REDUCE \<Rightarrow> checkForCompletion (reduce_chan p (ring_prev p r) (current_index ?s)) net
      | GATHER \<Rightarrow> checkForCompletion (gather_chan p (ring_prev p r) (current_index ?s)) net) =
      checkForCompletion (ar_mch p (ring_prev p r) ?k) net"
    using k r by (simp add: stage ar_mch_def ix mc_left)
  show "triggerProgressImpl (ar_impl p n f r) net = (False, net)"
    if "\<not> flag net (ar_mch p (ring_prev p r) ?k)"
    using that nl p1 by (simp add: ar_impl_def ar_trigger_def Let_def chk) (simp add: checkForCompletion_def)
  assume fg: "flag net (ar_mch p (ring_prev p r) ?k)"
  define net1 where "net1 = snd (checkForCompletion (ar_mch p (ring_prev p r) ?k) net)"
  let ?s' = "?s\<lparr>current_step := ?k + 1, current_index := mc p r (?k + 1 + 1)\<rparr>"
  have c: "checkForCompletion (ar_mch p (ring_prev p r) ?k) net = (True, net1)"
    using fg by (simp add: net1_def checkForCompletion_def)
  have b: "buf net1 = buf net" by (simp add: net1_def cnet)
  have ix2: "ring_prev p (mc p r (?k + 1)) = mc p r (?k + 1 + 1)" by (rule ring_prev_mc) (use r k in simp_all)
  have "ar_trigger p n f r net = (False, pl_advance p (2 * p - 2) (ar_mch p) (ar_work p f) r ?k ?s' net)"
  proof (cases "?k < p - 1")
    case True
    have "ar_mch p r (?k + 1) = (if is_last_step_reduce (p - 1) ?s
        then gather_chan p r (mc p r (?k + 1)) else reduce_chan p r (mc p r (?k + 1)))"
      using True by (auto simp: is_last_step_reduce_def ar_mch_def)
    moreover have "?k + 1 < 2 * p - 2" using True p by simp
    ultimately show ?thesis using p1 nl True
      by (simp add: ar_trigger_def Let_def chk c) 
        (simp add: stage ix ix2 pl_advance_def ar_work_def apply_reduce_op_def set_ctl_swap b c)
  next
    case False
    have g: "ar_mch p (ring_prev p r) ?k = gather_chan p (ring_prev p r) (mc p r (?k + 1))"
      "ar_mch p r (?k + 1) = gather_chan p r (mc p r (?k + 1))"
      using False r k by (simp_all add: ar_mch_def mc_left)
    moreover have "is_last_step_gather (p - 1) ?s \<longleftrightarrow> \<not> ?k + 1 < 2 * p - 2"
      using k by (auto simp: is_last_step_gather_def diff_mult_distrib2)
    ultimately show ?thesis using p1 nl False
      by (simp add: ar_trigger_def Let_def chk c [unfolded g(1)])
        (simp add: stage ix ix2 pl_advance_def ar_work_def set_ctl_swap b c [unfolded g(1)]
          set_buf_same [of r net1, unfolded b])
  qed
  then show "\<exists>s'. current_step s' = ?k + 1 \<and> ar_wf p r s' \<and> triggerProgressImpl (ar_impl p n f r) net =
      (False, pl_advance p (2 * p - 2) (ar_mch p) (ar_work p f) r ?k s' net)"
    by (intro exI [of _ ?s']) (simp add: ar_wf_def ar_impl_def)
qed

end
