(* ===== verification/Allreduce_Ring_Correct.thy ===== *)
theory Allreduce_Ring_Correct
  imports Allreduce_Ring
begin

text \<open>
  What the ring allreduce computes.  The data invariant says, for every rank, chunk and stage,
  which partial reduction the memory holds; it rests on the control invariant of the ring
  pipeline.
\<close>

locale allreduce_ring =
  fixes p n :: nat and f :: "'a \<Rightarrow> 'a \<Rightarrow> 'a" and inp :: "nat \<Rightarrow> 'a list" and n0 :: "'a ar_net"
  assumes two: "2 \<le> p" and pos: "0 < n"

sublocale allreduce_ring \<subseteq> pl: ring_pipeline p "2 * p - 2" "ar_mch p" current_step "ar_wf p"
    "ar_work p f" "ar_fill p n" "ar_impl p n f"
  by (rule ar_pipeline [OF two pos])

context allreduce_ring begin

abbreviation "M \<equiv> 2 * p - 2"

definition x :: "nat \<Rightarrow> nat \<Rightarrow> 'a list" where
  "x r c = ar_fill p n r (inp r) (buf n0 r) (SrcSlot c)"

primrec red :: "nat \<Rightarrow> nat \<Rightarrow> 'a list" where
  "red c 0 = x c c"
| "red c (Suc k) = map2 f (x ((c + Suc k) mod p) c) (red c k)"

definition delivered :: "'a ar_net \<Rightarrow> nat \<Rightarrow> nat \<Rightarrow> bool" where
  "delivered net q m \<longleftrightarrow> m < pl.sent net q \<and> pend net (ar_mch p q m) = 0"

definition gdel :: "'a ar_net \<Rightarrow> nat \<Rightarrow> nat \<Rightarrow> bool" where
  "gdel net r c \<longleftrightarrow> dist p r c \<le> p - 2 \<and> delivered net (pl.left r) (dist p r c + p - 1)"

definition src_val :: "'a ar_net \<Rightarrow> nat \<Rightarrow> nat \<Rightarrow> 'a list" where
  "src_val net r c =
     (if phase net r = INITIALIZED then buf n0 r (SrcSlot c)
      else if gdel net r c then red c (p - 1)
      else if pl.K net r < dist p r c then x r c
      else red c (dist p r c))"

definition data_inv :: "'a ar_net \<Rightarrow> bool" where
  "data_inv net \<longleftrightarrow> (\<forall>r < p. \<forall>c < p. buf net r (SrcSlot c) = src_val net r c \<and>
     (0 < dist p r c \<and> delivered net (pl.left r) (dist p r c - 1) \<longrightarrow>
        buf net r (TgtSlot c) = red c (dist p r c - 1)))"

lemma left_of_right: "r < p \<Longrightarrow> (pl.right r + (p - 2)) mod p = pl.left r"
  using two by (auto simp: ring_next_alt ring_prev_alt mod_if)

lemma posted_gather:
  assumes i: "pl.pl_inv net" and r: "r < p" and d: "d + p - 1 < pl.sent net (pl.left r)"
  shows "pl.started net r" "d \<le> pl.K net r" "d < pl.K net (pl.right r)"
proof -
  from d have "d + p - 1 \<le> pl.K net (pl.left r)" by (simp add: pl.sent_def split: if_splits)
  also have "\<dots> \<le> pl.K net (pl.right r) + (p - 2)"
    using pl.K_chain [OF i, of "pl.right r" "p - 2"] r by (simp add: left_of_right)
  finally show k: "d < pl.K net (pl.right r)" using two by simp
  have "pl.K net (pl.right r) \<le> pl.sent net r" using i r unfolding pl.pl_inv_def pl.inv_ranks_def by blast
  with k show "pl.started net r" "d \<le> pl.K net r" by (auto simp: pl.sent_def split: if_splits)
qed

lemma gdel_imp: "pl.pl_inv net \<Longrightarrow> r < p \<Longrightarrow> gdel net r c \<Longrightarrow>
    pl.started net r \<and> dist p r c \<le> pl.K net r \<and> dist p r c < pl.K net (pl.right r)"
  using posted_gather [of net r "dist p r c"] by (simp add: gdel_def delivered_def)

text \<open>The invariant depends only on these parts of the state.\<close>

lemma data_inv_cong:
  assumes "data_inv net" "\<And>r. r < p \<Longrightarrow> (phase net' r = INITIALIZED) = (phase net r = INITIALIZED)"
    and "\<And>r. r < p \<Longrightarrow> pl.K net' r = pl.K net r"
    and "\<And>r m. r < p \<Longrightarrow> m < M \<Longrightarrow> delivered net' r m = delivered net r m"
    and "\<And>r l. r < p \<Longrightarrow> buf net' r l = buf net r l"
  shows "data_inv net'"
proof -
  have g: "gdel net' r c = gdel net r c" if "r < p" "c < p" for r c
    using that assms(4) [of "pl.left r" "dist p r c + p - 1"] two by (auto simp: gdel_def)
  have "delivered net' (pl.left r) (dist p r c - 1) = delivered net (pl.left r) (dist p r c - 1)"
    if "r < p" "c < p" for r c
  proof (rule assms(4))
    show "pl.left r < p" using that by simp
    show "dist p r c - 1 < M" using dist_less [OF that(1), of c] two by linarith
  qed
  with g assms show ?thesis by (simp add: data_inv_def src_val_def)
qed

lemma sent_le_M: "pl.sent net r \<le> M"
  by (simp add: pl.sent_def)

lemma data_start:
  assumes d: "data_inv net" and i: "pl.pl_inv net" and r: "r < p" and ph: "phase net r = READY"
  shows "data_inv (set_phase r (RUNNING, startImpl (ar_impl p n f r) net))"
proof -
  obtain s' where s': "current_step s' = 0"
    "startImpl (ar_impl p n f r) net = initTransfer (ar_mch p r 0) (set_ctl r s' net)"
    using pl.start_spec [OF r] by blast
  let ?n = "set_phase r (RUNNING, initTransfer (ar_mch p r 0) (set_ctl r s' net))"
  have K: "pl.K ?n q = pl.K net q" for q using ph s' by (simp add: pl.K_def pl.started_def cnet)
  have sent: "pl.sent ?n q = (if q = r then 1 else pl.sent net q)" "pl.sent net r = 0" for q
    using ph s' two by (auto simp: pl.sent_def K pl.started_def cnet pl.K_def)
  show ?thesis unfolding s'(2)
  proof (rule data_inv_cong [OF d])
    fix q m assume q: "q < p" "m < M"
    then show "delivered ?n q m = delivered net q m"
      using r two by (auto simp: delivered_def sent cnet)
  qed (use ph K in \<open>auto simp: cnet\<close>)
qed

lemma data_finish:
  assumes d: "data_inv net" and ph: "phase net r = RUNNING"
  shows "data_inv (set_phase r (FINISHED, snd (checkForTransferAck c net)))"
proof -
  let ?n = "set_phase r (FINISHED, snd (checkForTransferAck c net))"
  have K: "pl.K ?n q = pl.K net q" "pl.sent ?n q = pl.sent net q" for q
    using ph by (simp_all add: pl.sent_def pl.K_def pl.started_def cnet)
  show ?thesis
    by (rule data_inv_cong [OF d]) (use ph K in \<open>auto simp: cnet delivered_def\<close>)
qed

lemma data_ack: "data_inv net \<Longrightarrow> data_inv (deliver_ack c net)"
  by (rule data_inv_cong) (auto simp: cnet delivered_def pl.sent_def pl.K_def pl.started_def)

lemma ar_fill_cong: "(\<And>c. c < p \<Longrightarrow> b (SrcSlot c) = b' (SrcSlot c)) \<Longrightarrow> c < p \<Longrightarrow>
    ar_fill p n r xs b (SrcSlot c) = ar_fill p n r xs b' (SrcSlot c)"
proof -
  assume a: "\<And>c. c < p \<Longrightarrow> b (SrcSlot c) = b' (SrcSlot c)" "c < p"
  have e: "map (\<lambda>i. b (SrcSlot i)) [0..<p] = map (\<lambda>i. b' (SrcSlot i)) [0..<p]" using a by simp
  show ?thesis using two pos a(2) by (simp add: ar_fill_def source_buffers_def e)
qed

lemma ar_fill_other: "ar_fill p n r xs b (TgtSlot c) = b (TgtSlot c)"
  using two by (auto simp: ar_fill_def)

lemma data_copyIn:
  assumes d: "data_inv net" and i: "pl.pl_inv net" and r: "r < p" and ph: "phase net r = INITIALIZED"
  shows "data_inv (set_phase r (READY, copyInImpl (ar_impl p n f r) (inp r) net))"
proof -
  have n: "copyInImpl (ar_impl p n f r) (inp r) net = set_buf r (ar_fill p n r (inp r) (buf net r)) net"
    by (simp add: ar_impl_def ar_copyIn_def)
  let ?n = "set_phase r (READY, set_buf r (ar_fill p n r (inp r) (buf net r)) net)"
  have K: "pl.K ?n q = pl.K net q" "pl.sent ?n q = pl.sent net q" "pl.K net r = 0" for q
    using ph by (auto simp: pl.sent_def pl.K_def pl.started_def cnet)
  then have dl: "delivered ?n q m = delivered net q m" for q m by (simp add: delivered_def cnet)
  then have g: "gdel ?n q c = gdel net q c" for q c by (simp add: gdel_def)
  have ng: "\<not> gdel net r c" for c using gdel_imp [OF i r, of c] ph by (auto simp: pl.started_def)
  have old: "c < p \<Longrightarrow> buf net r (SrcSlot c) = buf n0 r (SrcSlot c)" for c
    using d r ph by (auto simp: data_inv_def src_val_def)
  have new: "ar_fill p n r (inp r) (buf net r) (SrcSlot c) = x r c" if "c < p" for c
    unfolding x_def by (rule ar_fill_cong) (simp_all add: old that)
  show ?thesis unfolding n data_inv_def
  proof (intro allI impI conjI)
    fix q c assume q: "q < p" "c < p"
    show "buf ?n q (SrcSlot c) = src_val ?n q c"
    proof (cases "q = r")
      case True
      moreover have "dist p r c = 0 \<Longrightarrow> r = c" using mc_dist [of r p c] r q by simp
      ultimately show ?thesis using q new ng g by (auto simp: src_val_def cnet K)
    next
      case False
      then show ?thesis using d q by (simp add: data_inv_def src_val_def cnet K g)
    qed
    show "buf ?n q (TgtSlot c) = red c (dist p q c - 1)"
      if "0 < dist p q c \<and> delivered ?n (pl.left q) (dist p q c - 1)"
      using that d q by (auto simp: data_inv_def cnet dl ar_fill_other)
  qed
qed

lemma data_advance:
  assumes d: "data_inv net" and i: "pl.pl_inv net" and r: "r < p" and ph: "phase net r = RUNNING"
    and k: "k = current_step (ctl net r)" "k < M" and fg: "flag net (ar_mch p (pl.left r) k)"
    and s': "current_step s' = k + 1"
  shows "data_inv (set_phase r (RUNNING, pl_advance p M (ar_mch p) (ar_work p f) r k s' net))"
proof -
  let ?n = "set_phase r (RUNNING, pl_advance p M (ar_mch p) (ar_work p f) r k s' net)"
  have Kr: "pl.K net r = k" "pl.started net r" using ph k by (simp_all add: pl.K_def pl.started_def)
  have K: "pl.K ?n q = (if q = r then k + 1 else pl.K net q)" for q
    using ph s' by (auto simp: pl.K_def pl.started_def cnet)
  have sent: "pl.sent ?n q = (if q = r then min (k + 2) M else pl.sent net q)" "pl.sent net r = k + 1" for q
    using ph k(2) Kr by (simp_all add: pl.sent_def K pl.started_def cnet)
  have msg: "pend net (ar_mch p (pl.left r) k) + of_bool (flag net (ar_mch p (pl.left r) k)) =
      of_bool (pl.inflight net (pl.left r) k)"
    by (rule pl.msg_state) (use i r k(2) in simp_all)
  with fg have got: "delivered net (pl.left r) k"
    by (auto simp: delivered_def pl.inflight_def of_bool_def split: if_splits)
  have new: "pend net (ar_mch p r (k + 1)) = 0" if "k + 1 < M"
  proof -
    have "\<not> pl.inflight net r (k + 1)" by (simp add: pl.inflight_def sent(2))
    then show ?thesis using pl.msg_state [OF i r that] by simp
  qed
  have dl: "delivered ?n q m = delivered net q m" if "q < p" "m < M" for q m
    using that r k(2) by (auto simp: delivered_def sent cnet)
  have g: "gdel ?n q c = gdel net q c" if "q < p" "c < p" for q c
    using that two dl [of "pl.left q" "dist p q c + p - 1"] by (auto simp: gdel_def)
  have dl1: "delivered ?n (pl.left q) (dist p q c - 1) = delivered net (pl.left q) (dist p q c - 1)"
    if "q < p" "c < p" for q c
  proof (rule dl)
    show "pl.left q < p" using that by simp
    show "dist p q c - 1 < M" using dist_less [OF that(1), of c] two by linarith
  qed
  define c0 where "c0 = mc p r (k + 1)"
  have c0: "c0 < p" using r by (simp add: c0_def)
  have buf: "buf ?n q l = (if q = r \<and> k < p - 1 \<and> l = SrcSlot c0
      then map2 f (buf net r (SrcSlot c0)) (buf net r (TgtSlot c0)) else buf net q l)" for q l
    by (auto simp: cnet ar_work_def c0_def)
  have dist0: "dist p r c0 = k + 1" if "k < p - 1" using that r by (simp add: c0_def dist_mc)
  have mod0: "(c0 + (k + 1)) mod p = r" if "k < p - 1"
    using that r by (auto simp: c0_def mc_eq mod_if)
  have red: "map2 f (buf net r (SrcSlot c0)) (buf net r (TgtSlot c0)) = red c0 (k + 1)" if "k < p - 1"
  proof -
    have "\<not> gdel net r c0" using gdel_imp [OF i r, of c0] dist0 [OF that] Kr by auto
    then have "buf net r (SrcSlot c0) = x r c0"
      using d r c0 ph Kr dist0 [OF that] by (simp add: data_inv_def src_val_def)
    moreover have "buf net r (TgtSlot c0) = red c0 k"
      using d r c0 got dist0 [OF that] by (simp add: data_inv_def)
    ultimately show ?thesis using mod0 [OF that] by simp
  qed
  show ?thesis unfolding data_inv_def
  proof (intro allI impI conjI)
    fix q c assume q: "q < p" "c < p"
    show "buf ?n q (SrcSlot c) = src_val ?n q c"
    proof (cases "q = r \<and> k < p - 1 \<and> c = c0")
      case True
      then have "\<not> gdel net r c0" using gdel_imp [OF i r, of c0] dist0 Kr by auto
      then show ?thesis using True red g [OF q] K [of r] dist0 ph
        by (simp add: buf src_val_def) (simp add: cnet)
    next
      case False
      have "phase ?n q = phase net q" using ph by (simp add: cnet)
      moreover have "pl.K ?n q < dist p q c \<longleftrightarrow> pl.K net q < dist p q c"
      proof (cases "q = r")
        case True
        have "dist p r c \<noteq> k + 1"
        proof
          assume e: "dist p r c = k + 1"
          with dist_less [OF r, of c] have "k < p - 1" by simp
          moreover have "c = c0" using mc_dist [OF r q(2)] e by (simp add: c0_def)
          ultimately show False using False True by simp
        qed
        then show ?thesis using True Kr by (auto simp: K)
      qed (simp add: K)
      ultimately have "src_val ?n q c = src_val net q c" by (simp add: src_val_def g [OF q])
      moreover have "buf ?n q (SrcSlot c) = buf net q (SrcSlot c)" using False by (auto simp: buf)
      ultimately show ?thesis using d q by (simp add: data_inv_def)
    qed
    show "buf ?n q (TgtSlot c) = red c (dist p q c - 1)"
      if "0 < dist p q c \<and> delivered ?n (pl.left q) (dist p q c - 1)"
      using that d q dl1 [OF q] by (auto simp: data_inv_def buf)
  qed
qed

lemma source_ready:
  assumes d: "data_inv net" and i: "pl.pl_inv net" and q: "q < p" "m < M"
    and fl: "pl.inflight net q m" and pd: "0 < pend net (ar_mch p q m)"
  shows "buf net q (SrcSlot (mc p q m)) = red (mc p q m) (min m (p - 1))"
proof -
  let ?c = "mc p q m"
  have c: "?c < p" using q by simp
  have Kq: "m \<le> pl.K net q" "pl.started net q" using fl by (auto simp: pl.inflight_def pl.sent_def split: if_splits)
  then have ph: "phase net q \<noteq> INITIALIZED" by (auto simp: pl.started_def)
  have sv: "buf net q (SrcSlot ?c) = src_val net q ?c" using d q c by (simp add: data_inv_def)
  have dq: "dist p q ?c = (if m < p then m else m - p)" using q by (simp add: dist_mc)
  show ?thesis
  proof (cases "m < p")
    case True
    have "\<not> gdel net q ?c"
    proof
      assume "gdel net q ?c"
      with gdel_imp [OF i q(1), of ?c] dq True have "m < pl.K net (pl.right q)" by simp
      with fl show False by (simp add: pl.inflight_def)
    qed
    then show ?thesis using sv ph dq True Kq by (simp add: src_val_def min_def) (metis Suc_pred le_antisym less_Suc_eq_le nat_less_le not_less_zero zero_less_iff_neq_zero)
  next
    case False
    have "delivered net (pl.left q) (m - 1)" unfolding delivered_def
    proof
      have "pl.K net (pl.right (pl.left q)) \<le> pl.sent net (pl.left q)"
        using i pl.nb(1) [OF q(1)] unfolding pl.pl_inv_def pl.inv_ranks_def by blast
      moreover have "m - 1 < pl.K net q" using Kq(1) False two by linarith
      ultimately show "m - 1 < pl.sent net (pl.left q)" using q by simp
      have "m - 1 < pl.K net q" using Kq(1) False two by linarith
      then have "\<not> pl.inflight net (pl.left q) (m - 1)" using q by (simp add: pl.inflight_def)
      then show "pend net (ar_mch p (pl.left q) (m - 1)) = 0"
        using pl.msg_state [OF i, of "pl.left q" "m - 1"] q by simp
    qed
    then have "gdel net q ?c" using dq False q two by (simp add: gdel_def)
    then show ?thesis using sv ph False by (simp add: src_val_def)
  qed
qed

lemma data_deliver:
  assumes d: "data_inv net" and i: "pl.pl_inv net" and pd: "0 < pend net c"
  shows "data_inv (deliver c net)"
proof -
  from pl.inv_deliver(2) [OF i pd] obtain q m where q: "q < p" "m < M" and c: "c = ar_mch p q m"
    and fl: "pl.inflight net q m" by blast
  let ?n = "deliver c net" and ?c = "mc p q m" and ?r = "pl.right q"
  have r: "?r < p" "?c < p" using q by simp_all
  have one: "pend net c = 1" using pl.msg_state [OF i q] pd c by (cases "flag net c") (auto simp: of_bool_def split: if_splits)
  have K: "pl.K ?n q' = pl.K net q'" "pl.sent ?n q' = pl.sent net q'" for q'
    by (simp_all add: pl.K_def pl.sent_def pl.started_def cnet)
  have ms: "m < pl.sent net q" using fl by (simp add: pl.inflight_def)
  have dl: "delivered ?n q' m' = (delivered net q' m' \<or> (q' = q \<and> m' = m))" if "q' < p" "m' < M" for q' m'
    using that q ms one by (auto simp: delivered_def K [unfolded c] cnet c)
  have val: "buf net q (SrcSlot ?c) = red ?c (min m (p - 1))"
    by (rule source_ready [OF d i q fl]) (use pd c in simp)
  have lt: "dist p q' c' - 1 < M" if "q' < p" for q' c'
    using dist_less [OF that, of c'] two by linarith
  have mcr: "mc p ?r (m + 1) = ?c" using mc_left [of ?r p m] q by simp
  show ?thesis
  proof (cases "m < p - 1")
    case True
    then have dst: "c_dst c = ?r" "c_dslot c = TgtSlot ?c" "c_src c = q" "c_sslot c = SrcSlot ?c"
      by (simp_all add: c ar_mch_def reduce_chan_def)
    have buf: "buf ?n q' l = (if q' = ?r \<and> l = TgtSlot ?c then red ?c m else buf net q' l)" for q' l
      using val True by (auto simp: cnet dst min_def)
    have g: "gdel ?n q' c' = gdel net q' c'" if q': "q' < p" "c' < p" for q' c'
    proof (cases "dist p q' c' \<le> p - 2")
      case le: True
      then have "dist p q' c' + p - 1 < M" "dist p q' c' + p - 1 \<noteq> m" using True two by linarith+
      with dl [of "pl.left q'" "dist p q' c' + p - 1"] q' show ?thesis by (simp add: gdel_def)
    qed (simp add: gdel_def)
    have dr: "dist p ?r ?c = m + 1" using dist_right [OF q(1) r(2)] dist_mc [OF q(1), of m] True by simp
    show ?thesis unfolding data_inv_def
    proof (intro allI impI conjI)
      fix q' c' assume q': "q' < p" "c' < p"
      show "buf ?n q' (SrcSlot c') = src_val ?n q' c'"
        using d q' g [OF q'] by (simp add: buf data_inv_def src_val_def K) (simp add: cnet)
      assume a: "0 < dist p q' c' \<and> delivered ?n (pl.left q') (dist p q' c' - 1)"
      show "buf ?n q' (TgtSlot c') = red c' (dist p q' c' - 1)"
      proof (cases "q' = ?r \<and> c' = ?c")
        case True
        then show ?thesis using dr by (simp add: buf)
      next
        case False
        have "\<not> (pl.left q' = q \<and> dist p q' c' - 1 = m)"
        proof
          assume e: "pl.left q' = q \<and> dist p q' c' - 1 = m"
          then have "q' = ?r" "dist p ?r c' = m + 1" using a q' by auto
          then have "c' = ?c" using mc_dist [OF r(1) q'(2)] mcr by simp
          with False \<open>q' = ?r\<close> show False by simp
        qed
        then have "delivered net (pl.left q') (dist p q' c' - 1)"
          using a dl [of "pl.left q'" "dist p q' c' - 1"] q' lt [OF q'(1), of c'] by auto
        then show ?thesis using d q' a False by (auto simp: buf data_inv_def)
      qed
    qed
  next
    case False
    then have dst: "c_dst c = ?r" "c_dslot c = SrcSlot ?c" "c_src c = q" "c_sslot c = SrcSlot ?c"
      by (simp_all add: c ar_mch_def gather_chan_def)
    have buf: "buf ?n q' l = (if q' = ?r \<and> l = SrcSlot ?c then red ?c (p - 1) else buf net q' l)" for q' l
      using val False by (auto simp: cnet dst min_def)
    have dr: "dist p ?r ?c = m + 1 - p"
      using dist_right [OF q(1) r(2)] dist_mc [OF q(1), of m] False q(2) by (auto split: if_splits)
    have g: "gdel ?n q' c' = (gdel net q' c' \<or> (q' = ?r \<and> c' = ?c))" if q': "q' < p" "c' < p" for q' c'
    proof -
      have "pl.left q' = q \<and> dist p q' c' + p - 1 = m \<longleftrightarrow> q' = ?r \<and> c' = ?c"
      proof
        assume e: "pl.left q' = q \<and> dist p q' c' + p - 1 = m"
        then have "q' = ?r" "dist p ?r c' + p = m + 1" using q' two by auto
        then show "q' = ?r \<and> c' = ?c" using mc_dist_p [OF r(1) q'(2)] mcr by simp
      next
        assume "q' = ?r \<and> c' = ?c"
        then show "pl.left q' = q \<and> dist p q' c' + p - 1 = m" using dr q two False by auto
      qed
      moreover have le: "dist p ?r ?c \<le> p - 2" using dr q(2) two by linarith
      have "delivered ?n (pl.left q') (dist p q' c' + p - 1) =
          (delivered net (pl.left q') (dist p q' c' + p - 1) \<or> (pl.left q' = q \<and> dist p q' c' + p - 1 = m))"
        if "dist p q' c' \<le> p - 2"
        by (rule dl) (use q' that two in \<open>simp, linarith\<close>)
      ultimately show ?thesis using le by (auto simp: gdel_def)
    qed
    have ph: "phase net ?r \<noteq> INITIALIZED"
    proof -
      have "dist p ?r ?c + p - 1 = m" using dr False two by simp
      then have "pl.started net ?r" using posted_gather(1) [OF i r(1), of "dist p ?r ?c"] ms q by simp
      then show ?thesis by (auto simp: pl.started_def)
    qed
    show ?thesis unfolding data_inv_def
    proof (intro allI impI conjI)
      fix q' c' assume q': "q' < p" "c' < p"
      show "buf ?n q' (SrcSlot c') = src_val ?n q' c'"
      proof (cases "q' = ?r \<and> c' = ?c")
        case True
        then have "src_val ?n q' c' = red c' (p - 1)" using g [OF q'] ph by (simp add: src_val_def deliver_sel(1))
        then show ?thesis using True buf by simp
      next
        case F: False
        then have "gdel ?n q' c' = gdel net q' c'" using g [OF q'] by blast
        then have "src_val ?n q' c' = src_val net q' c'" by (simp add: src_val_def K deliver_sel(1))
        moreover have "buf net q' (SrcSlot c') = src_val net q' c'" using d q' by (simp add: data_inv_def)
        ultimately show ?thesis using F buf [of q' "SrcSlot c'"] by auto
      qed
      assume a: "0 < dist p q' c' \<and> delivered ?n (pl.left q') (dist p q' c' - 1)"
      have "dist p q' c' - 1 \<noteq> m" using dist_less [OF q'(1), of c'] False two by linarith
      then have "delivered net (pl.left q') (dist p q' c' - 1)"
        using a dl [of "pl.left q'" "dist p q' c' - 1"] q' lt [OF q'(1), of c'] by auto
      then show "buf ?n q' (TgtSlot c') = red c' (dist p q' c' - 1)"
        using d q' a by (auto simp: buf data_inv_def)
    qed
  qed
qed

lemma data_init: "coll_init p n0 \<Longrightarrow> data_inv n0"
  using two by (auto simp: data_inv_def src_val_def delivered_def pl.sent_def pl.started_def coll_init_def)

lemma data_step: "pl.pl_step inp net net' \<Longrightarrow> pl.pl_inv net \<Longrightarrow> data_inv net \<Longrightarrow> data_inv net'"
proof (induction rule: pl.pl_step.induct)
  case (s_copyIn r net)
  then show ?case by (intro data_copyIn)
next
  case (s_start r net)
  then show ?case by (intro data_start)
next
  case (s_advance r net k s')
  then show ?case by (intro data_advance)
next
  case (s_finish r net)
  then show ?case by (intro data_finish)
next
  case (s_deliver net c)
  then show ?case by (intro data_deliver)
next
  case (s_ack net c)
  then show ?case by (intro data_ack)
qed simp

lemma reach_inv:
  assumes "coll_reach env (ar_impl p n f) p inp n0 net" "coll_init p n0" "gaspi_env env"
  shows "pl.pl_inv net \<and> data_inv net"
  using assms(1)
proof (induction rule: rtranclp_induct)
  case base
  then show ?case using assms pl.inv_init data_init by blast
next
  case (step net net')
  then show ?case using pl.coll_step_pl_step [OF step(2) _ assms(3)] pl.pl_step_inv data_step by blast
qed

lemma finished_chunks:
  assumes "coll_reach env (ar_impl p n f) p inp n0 net" "coll_init p n0" "gaspi_env env"
    and "r < p" "phase net r = FINISHED" "c < p"
  shows "buf net r (SrcSlot c) = red c (p - 1)"
proof -
  from reach_inv [OF assms(1-3)] have i: "pl.pl_inv net" and d: "data_inv net" by simp_all
  have sv: "buf net r (SrcSlot c) = src_val net r c" using d assms by (simp add: data_inv_def)
  have K: "pl.K net r = M" "pl.K net (pl.right r) = M"
    using i assms(4,5) unfolding pl.pl_inv_def pl.inv_ranks_def by blast+
  have dp: "dist p r c < p" using assms by simp
  show ?thesis
  proof (cases "dist p r c = p - 1")
    case True
    then show ?thesis using sv assms K two by (auto simp: src_val_def gdel_def)
  next
    case False
    let ?m = "dist p r c + p - 1"
    have m: "?m < M" "dist p r c \<le> p - 2" using False dp by linarith+
    have "pl.K net (pl.right (pl.left r)) \<le> pl.sent net (pl.left r)"
      using i pl.nb(1) [OF assms(4)] unfolding pl.pl_inv_def pl.inv_ranks_def by blast
    then have s: "?m < pl.sent net (pl.left r)" "?m < pl.K net (pl.right (pl.left r))"
      using K m assms(4) by simp_all
    then have "\<not> pl.inflight net (pl.left r) ?m" by (simp add: pl.inflight_def)
    then have "pend net (ar_mch p (pl.left r) ?m) = 0"
      using pl.msg_state [OF i pl.nb(1) [OF assms(4)] m(1)] by simp
    then have "gdel net r c" using s m by (simp add: gdel_def delivered_def)
    then show ?thesis using sv assms by (simp add: src_val_def)
  qed
qed

end

section \<open>The copy loops\<close>

lemma copyIn_loop_length [simp]: "length (copyIn_loop n tot cur bs) = length bs"
  by (induction n tot cur bs rule: copyIn_loop.induct) (simp_all add: Let_def)

lemma copyIn_loop_chunks:
  "\<forall>b \<in> set bs. length b = e \<Longrightarrow> length cur = n - tot \<Longrightarrow> tot \<le> n \<Longrightarrow> i < length bs \<Longrightarrow>
   length (copyIn_loop n tot cur bs ! i) = e \<and>
   (\<forall>j < e. tot + i * e + j < n \<longrightarrow> copyIn_loop n tot cur bs ! i ! j = cur ! (i * e + j))"
proof (induction n tot cur bs arbitrary: i rule: copyIn_loop.induct)
  case (2 n tot cur b bs)
  then have b: "length b = e" by simp
  show ?case
  proof (cases "tot + e < n")
    case True
    then show ?thesis using 2 b
      by (cases i) (auto simp: Let_def nth_append add.assoc)
  next
    case False
    then have eq: "copyIn_loop n tot cur (b # bs) = (take (n - tot) cur @ drop (n - tot) b) # bs"
      using 2(3,4) b by (cases "tot + e = n") (auto simp: Let_def)
    show ?thesis
    proof (cases i)
      case 0
      then show ?thesis using 2(3,4) b False unfolding eq by (auto simp: nth_append)
    next
      case (Suc k)
      have "\<not> tot + i * e + j < n" for j using False Suc by simp
      then show ?thesis using 2(2,5) Suc unfolding eq by simp
    qed
  qed
qed simp

lemma concat_nth_eq:
  "\<forall>b \<in> set bs. length b = e \<Longrightarrow> j < length bs * e \<Longrightarrow> concat bs ! j = bs ! (j div e) ! (j mod e)"
proof (induction bs arbitrary: j)
  case (Cons b bs)
  show ?case
  proof (cases "j < e")
    case False
    moreover have "0 < e" using Cons.prems by (cases "e = 0") auto
    ultimately have "j div e = Suc ((j - e) div e)" "j mod e = (j - e) mod e"
      using le_div_geq [of e j] le_mod_geq [of e j] by (simp_all only: not_less)
    moreover have "j - e < length bs * e" using Cons.prems False \<open>0 < e\<close> by simp
    ultimately show ?thesis using Cons False by (simp add: nth_append)
  qed (use Cons in \<open>simp add: nth_append\<close>)
qed simp

lemma length_concat_eq: "\<forall>b \<in> set bs. length b = e \<Longrightarrow> length (concat bs) = length bs * e"
  by (induction bs) simp_all

lemma copyOut_loop_eq:
  "\<forall>b \<in> set bs. length b = e \<Longrightarrow> tot \<le> n \<Longrightarrow> n \<le> tot + length bs * e \<Longrightarrow>
   copyOut_loop n tot bs = take (n - tot) (concat bs)"
proof (induction n tot bs rule: copyOut_loop.induct)
  case (2 n tot b bs)
  then have b: "length b = e" by simp
  show ?case
  proof (cases "tot + e < n")
    case True
    then show ?thesis using 2 b by (simp add: Let_def)
  next
    case False
    then show ?thesis using 2 b by (auto simp: Let_def)
  qed
qed simp

section \<open>The result, element by element\<close>

text \<open>The order in which the ring combines the values \<open>y\<close> of one element: it starts at the rank
  that owns the chunk and goes around.\<close>

primrec ring_fold :: "('a \<Rightarrow> 'a \<Rightarrow> 'a) \<Rightarrow> nat \<Rightarrow> (nat \<Rightarrow> 'a) \<Rightarrow> nat \<Rightarrow> nat \<Rightarrow> 'a" where
  "ring_fold f p y c 0 = y c"
| "ring_fold f p y c (Suc k) = f (y ((c + Suc k) mod p)) (ring_fold f p y c k)"

definition ar_init :: "nat \<Rightarrow> nat \<Rightarrow> 'a ar_net \<Rightarrow> bool" where
  "ar_init p n net \<longleftrightarrow> coll_init p net \<and>
     (\<forall>r < p. \<forall>i < p. length (buf net r (SrcSlot i)) = number_elements_padded n p)"

lemma number_elements_padded_eq:
  assumes "0 < p" "n + p \<le> 2 ^ 63"
  shows "number_elements_padded n p = (n + p - 1) div p"
proof -
  have b: "n < 2 ^ 64" "p < 2 ^ 64" "n + p < 2 ^ 64" using assms by auto
  have u: "unat (of_nat n :: u64) = n" "unat (of_nat p :: u64) = p" using b unat_of_nat64 by blast+
  then have a: "unat (of_nat n + of_nat p :: u64) = n + p" using unat_add_no_wrap b by metis
  have "(1 :: u64) \<le> of_nat n + of_nat p" using a assms(1) by (simp add: word_le_nat_alt)
  then have "unat (of_nat n + of_nat p - 1 :: u64) = n + p - 1" using a unat_sub_no_wrap by fastforce
  then show ?thesis using u by (simp add: number_elements_padded_def ceil_div_def unat_div)
qed

lemma padded_bounds:
  assumes "0 < p" "0 < n" "n + p \<le> 2 ^ 63"
  shows "0 < number_elements_padded n p" "n \<le> p * number_elements_padded n p"
proof -
  let ?e = "number_elements_padded n p"
  have "n + p - 1 < p * ?e + p" unfolding number_elements_padded_eq [OF assms(1,3)]
    using mod_less_divisor [OF assms(1), of "n + p - 1"]
      mult_div_mod_eq [of p "n + p - 1"] by linarith
  then show le: "n \<le> p * ?e" by linarith
  then show "0 < ?e" using assms(2) by (cases "?e = 0") auto
qed

context allreduce_ring begin

abbreviation "e \<equiv> number_elements_padded n p"

lemma source_buffers_eq: "source_buffers p n b = map (\<lambda>i. b (SrcSlot i)) [0..<p]"
  using two pos by (simp add: source_buffers_def)

lemma x_chunk:
  assumes "ar_init p n n0" "r < p" "c < p" "length (inp r) = n"
  shows "length (x r c) = e" "j < e \<Longrightarrow> c * e + j < n \<Longrightarrow> x r c ! j = inp r ! (c * e + j)"
  using copyIn_loop_chunks [of "source_buffers p n (buf n0 r)" e "inp r" n 0 c] assms two
  by (auto simp: x_def ar_fill_def source_buffers_eq ar_init_def)

lemma red_chunk:
  assumes "ar_init p n n0" "\<forall>r < p. length (inp r) = n" "c < p"
  shows "length (red c k) = e \<and> (\<forall>j < e. c * e + j < n \<longrightarrow>
    red c k ! j = ring_fold f p (\<lambda>q. inp q ! (c * e + j)) c k)"
proof (induction k)
  case 0
  then show ?case using x_chunk [OF assms(1) assms(3) assms(3)] assms by simp
next
  case (Suc k)
  have q: "(c + Suc k) mod p < p" using two by simp
  show ?case using Suc x_chunk [OF assms(1) q assms(3)] assms(2) q by simp
qed

lemma copyOut_finished:
  assumes "ar_init p n n0" "\<forall>r < p. length (inp r) = n" "n + p \<le> 2 ^ 63"
    and "\<forall>c < p. buf net r (SrcSlot c) = red c (p - 1)"
  shows "ar_copyOut p n r net = map (\<lambda>j. ring_fold f p (\<lambda>q. inp q ! j) (j div e) (p - 1)) [0..<n]"
proof -
  note pb = padded_bounds [OF _ pos assms(3)]
  let ?bs = "map (\<lambda>c. red c (p - 1)) [0..<p]"
  have "source_buffers p n (buf net r) = ?bs" using assms(4) by (simp add: source_buffers_eq)
  moreover have len: "\<forall>b \<in> set ?bs. length b = e" using red_chunk [OF assms(1,2)] by auto
  ultimately have out: "ar_copyOut p n r net = take n (concat ?bs)"
    using two pb copyOut_loop_eq [OF len, of 0 n] by (simp add: ar_copyOut_def)
  have lc: "length (concat ?bs) = p * e" using length_concat_eq [OF len] by simp
  show ?thesis unfolding out
  proof (rule nth_equalityI)
    show "length (take n (concat ?bs)) = length (map (\<lambda>j. ring_fold f p (\<lambda>q. inp q ! j) (j div e) (p - 1)) [0..<n])"
      using lc pb two by simp
    fix j assume "j < length (take n (concat ?bs))"
    then have j: "j < n" "j < p * e" using lc by auto
    then have c: "j div e < p" using pb two by (simp add: less_mult_imp_div_less)
    have "concat ?bs ! j = red (j div e) (p - 1) ! (j mod e)"
      using concat_nth_eq [OF len, of j] j c by simp
    also have "\<dots> = ring_fold f p (\<lambda>q. inp q ! j) (j div e) (p - 1)"
      using red_chunk [OF assms(1,2) c, of "p - 1", THEN conjunct2, rule_format, of "j mod e",
          unfolded div_mult_mod_eq] pb two j
      by simp
    finally show "take n (concat ?bs) ! j = map (\<lambda>j. ring_fold f p (\<lambda>q. inp q ! j) (j div e) (p - 1)) [0..<n] ! j"
      using j by simp
  qed
qed

lemma result:
  assumes "coll_reach env (ar_impl p n f) p inp n0 net" "ar_init p n n0" "gaspi_env env"
    and "\<forall>r < p. length (inp r) = n" "n + p \<le> 2 ^ 63" "r < p" "phase net r = FINISHED"
  shows "ar_copyOut p n r net = map (\<lambda>j. ring_fold f p (\<lambda>q. inp q ! j) (j div e) (p - 1)) [0..<n]"
proof (rule copyOut_finished [OF assms(2,4,5)])
  show "\<forall>c < p. buf net r (SrcSlot c) = red c (p - 1)"
    using finished_chunks [OF assms(1) _ assms(3,6,7)] assms(2) by (auto simp: ar_init_def)
qed

end

interpretation ar_ring: allreduce_ring "Suc (Suc q)" "Suc m" f inp n0 for q m f inp n0
  by unfold_locales simp_all

lemma ring_fold_sum: "ring_fold (\<lambda>a b. a + b) p y c k = (\<Sum>i \<le> k. y ((c + i) mod p))"
  if "c < p" for y :: "nat \<Rightarrow> 'a::comm_monoid_add"
  using that by (induction k) (simp_all add: add.commute)

lemma ring_fold_prod: "ring_fold (\<lambda>a b. a * b) p y c k = (\<Prod>i \<le> k. y ((c + i) mod p))"
  if "c < p" for y :: "nat \<Rightarrow> 'a::comm_monoid_mult"
  using that by (induction k) (simp_all add: mult.commute)

lemma bij_shift:
  assumes c: "c < p"
  shows "bij_betw (\<lambda>i. (c + i) mod p) {..<p} {..<(p::nat)}"
proof (rule bij_betw_byWitness [where f' = "\<lambda>i. (i + (p - c)) mod p"])
  show "\<forall>i \<in> {..<p}. ((c + i) mod p + (p - c)) mod p = i"
    "\<forall>i \<in> {..<p}. (c + (i + (p - c)) mod p) mod p = i"
    using c by (simp_all only: mod_add_left_eq mod_add_right_eq) auto
  show "(\<lambda>i. (c + i) mod p) ` {..<p} \<subseteq> {..<p}" "(\<lambda>i. (i + (p - c)) mod p) ` {..<p} \<subseteq> {..<p}"
    using c by auto
qed

lemma ring_fold_comm:
  assumes "c < p"
  shows "ring_fold (\<lambda>a b. a + b) p (y :: nat \<Rightarrow> 'a::comm_semiring_1) c (p - 1) = (\<Sum>q < p. y q)"
    and "ring_fold (\<lambda>a b. a * b) p y c (p - 1) = (\<Prod>q < p. y q)"
proof -
  have "{..p - 1} = {..<p}" using assms by auto
  then show "ring_fold (\<lambda>a b. a + b) p y c (p - 1) = (\<Sum>q < p. y q)"
    and "ring_fold (\<lambda>a b. a * b) p y c (p - 1) = (\<Prod>q < p. y q)"
    using sum.reindex_bij_betw [OF bij_shift [OF assms], of y]
      prod.reindex_bij_betw [OF bij_shift [OF assms], of y]
    by (simp_all add: ring_fold_sum [OF assms] ring_fold_prod [OF assms])
qed

end
