(* ===== verification/Allreduce_Ring_Props.thy ===== *)
theory Allreduce_Ring_Props
  imports Allreduce_Ring_Correct
begin

text \<open>
  The properties of the ring allreduce: the result, its independence of the rank, completion,
  the bound on the number of effective steps, and freedom from data races.
\<close>

section \<open>Steps bounded, runs complete\<close>

context ring_pipeline begin

lemma coll_step_inv: "coll_step env I p inp n n' \<Longrightarrow> pl_inv n \<Longrightarrow> gaspi_env env \<Longrightarrow> pl_inv n'"
  using coll_step_pl_step pl_step_inv by blast

lemma effective_steps:
  assumes "coll_init p (s 0)" "gaspi_env env"
    and "\<And>i. i < k \<Longrightarrow> coll_step env I p inp (s i) (s (Suc i)) \<and> s (Suc i) \<noteq> s i"
  shows "k \<le> p * (3 * M + 4)"
proof -
  have "j \<le> k \<Longrightarrow> pl_inv (s j) \<and> work_left (s j) + j \<le> work_left (s 0)" for j
  proof (induction j)
    case 0
    then show ?case using inv_init [OF assms(1)] by simp
  next
    case (Suc j)
    then have i: "pl_inv (s j)" and st: "coll_step env I p inp (s j) (s (Suc j))" "s (Suc j) \<noteq> s j"
      using assms(3) by simp_all
    show ?case using Suc coll_step_inv [OF st(1) i assms(2)] coll_step_decreases [OF st(1) i assms(2)] st(2)
      by auto
  qed
  from this [of k] work_left_init [OF assms(1)] show ?thesis by simp
qed

end

section \<open>Races\<close>

text \<open>Every write to a slot: what a step can change in the memory of a rank.\<close>

context allreduce_ring begin

lemma src_stable:
  assumes i: "pl.pl_inv net" and q: "q < p" "m < M" and pd: "0 < pend net (ar_mch p q m)"
  shows "phase net q \<noteq> INITIALIZED" "m \<le> pl.K net q" "pl.K net (pl.right q) \<le> m"
    and "\<not> (dist p q (mc p q m) \<le> p - 2 \<and>
      0 < pend net (ar_mch p (pl.left q) (dist p q (mc p q m) + p - 1)))"
proof -
  have fl: "pl.inflight net q m"
    using pl.msg_state [OF i q] pd by (cases "pl.inflight net q m") auto
  then have st: "pl.started net q" and K: "m \<le> pl.K net q" "pl.K net (pl.right q) \<le> m"
    by (auto simp: pl.inflight_def pl.sent_def split: if_splits)
  then show "phase net q \<noteq> INITIALIZED" "m \<le> pl.K net q" "pl.K net (pl.right q) \<le> m"
    by (auto simp: pl.started_def)
  let ?d = "dist p q (mc p q m)"
  show "\<not> (?d \<le> p - 2 \<and> 0 < pend net (ar_mch p (pl.left q) (?d + p - 1)))"
  proof
    assume a: "?d \<le> p - 2 \<and> 0 < pend net (ar_mch p (pl.left q) (?d + p - 1))"
    then have lt: "?d + p - 1 < M" using two by linarith
    have g: "pl.inflight net (pl.left q) (?d + p - 1)"
      using pl.msg_state [OF i pl.nb(1) [OF q(1)] lt] a
      by (cases "pl.inflight net (pl.left q) (?d + p - 1)") auto
    show False
    proof (cases "m < p")
      case True
      then have "?d = m" using q dist_mc [of q p m] by simp
      moreover have "?d < pl.K net (pl.right q)"
        using posted_gather(3) [OF i q(1), of ?d] g by (simp add: pl.inflight_def)
      ultimately show False using K by simp
    next
      case False
      then have "?d + p - 1 = m - 1" using q two dist_mc [of q p m] by simp
      moreover have "pl.K net q \<le> ?d + p - 1" using g q by (simp add: pl.inflight_def)
      ultimately show False using K(1) False two by linarith
    qed
  qed
qed

lemma written_slot:
  assumes "pl.pl_step inp net net'" "buf net' r l \<noteq> buf net r l" "r < p" "pl.pl_inv net"
  shows "phase net r = INITIALIZED \<and> (\<nexists>c. l = TgtSlot c) \<or>
    (\<exists>k < p - 1. phase net r = RUNNING \<and> k = pl.K net r \<and> l = SrcSlot (mc p r (k + 1)) \<and>
       flag net (ar_mch p (pl.left r) k)) \<or>
    (\<exists>q < p. \<exists>m < M. 0 < pend net (ar_mch p q m) \<and> c_dst (ar_mch p q m) = r \<and>
       c_dslot (ar_mch p q m) = l \<and> net' = deliver (ar_mch p q m) net)"
  using assms
proof (induction rule: pl.pl_step.induct)
  case (s_copyIn q net)
  then show ?case
    by (auto simp: ar_impl_def ar_copyIn_def cnet ar_fill_other split: if_splits)
next
  case (s_start q net)
  obtain s' where "startImpl (ar_impl p n f q) net = initTransfer (ar_mch p q 0) (set_ctl q s' net)"
    using pl.start_spec [OF s_start(1)] by blast
  then show ?case using s_start by (simp add: cnet)
next
  case (s_advance q net k s')
  then show ?case by (auto simp: cnet ar_work_def pl.K_def pl.started_def split: if_splits)
next
  case (s_deliver net c)
  from pl.inv_deliver(2) [OF s_deliver(4,1)] obtain q m where "q < p" "m < M" "c = ar_mch p q m" by blast
  with s_deliver show ?case by (auto simp: cnet split: if_splits)
qed (simp_all add: cnet)

lemma not_same_delivery:
  assumes "pl.pl_inv net" "q < p" "m < M" "0 < pend (deliver (ar_mch p q m) net) (ar_mch p q m)"
  shows False
proof -
  have "pend net (ar_mch p q m) \<le> 1"
    using pl.msg_state [OF assms(1-3)] by (cases "pl.inflight net q m") auto
  with assms(4) show False by (simp add: cnet)
qed

lemma race_free_src:
  assumes i: "pl.pl_inv net" and st: "pl.pl_step inp net net'"
    and q: "q < p" "m < M" and pd: "0 < pend net (ar_mch p q m)"
  shows "buf net' q (SrcSlot (mc p q m)) = buf net q (SrcSlot (mc p q m))"
proof (rule ccontr)
  let ?c = "mc p q m"
  note ss = src_stable [OF i q pd]
  assume "buf net' q (SrcSlot ?c) \<noteq> buf net q (SrcSlot ?c)"
  from written_slot [OF st this q(1) i] ss(1) consider k where "k < p - 1" "k = pl.K net q" "?c = mc p q (k + 1)"
    | q' m' where "q' < p" "m' < M" "0 < pend net (ar_mch p q' m')" "c_dst (ar_mch p q' m') = q"
      "c_dslot (ar_mch p q' m') = SrcSlot ?c" by auto
  then show False
  proof cases
    case 1
    have "m = k + 1 \<longleftrightarrow> mc p q m = mc p q (k + 1)"
      by (rule sym, rule mc_inj) (use 1 ss(2) q in auto)
    with 1 ss(2) show False by simp
  next
    case 2
    then have m': "\<not> m' < p - 1" by (auto simp: ar_mch_def reduce_chan_def)
    have "pl.right q' = q" using 2(4) by (auto simp: ar_mch_def reduce_chan_def gather_chan_def split: if_splits)
    then have q': "q' = pl.left q" using 2(1) by auto
    have "?c = mc p q' m'" using 2(5) m' by (simp add: ar_mch_def gather_chan_def)
    also have "\<dots> = mc p q (m' + 1)" unfolding q' by (rule mc_left) (use q 2(2) in auto)
    finally have "dist p q ?c = m' + 1 - p" using dist_mc [OF q(1), of "m' + 1"] 2(2) m' by auto
    then have "dist p q ?c \<le> p - 2" "dist p q ?c + p - 1 = m'" using 2(2) m' two by linarith+
    with ss(4) 2(3) q' show False by simp
  qed
qed

lemma race_free_dst:
  assumes i: "pl.pl_inv net" and st: "pl.pl_step inp net net'"
    and q: "q < p" "m < M" and pd: "0 < pend net (ar_mch p q m)" "0 < pend net' (ar_mch p q m)"
  shows "buf net' (pl.right q) (c_dslot (ar_mch p q m)) = buf net (pl.right q) (c_dslot (ar_mch p q m))"
proof (rule ccontr)
  let ?c = "mc p q m" and ?r = "pl.right q" and ?l = "c_dslot (ar_mch p q m)"
  have r: "?r < p" using q by simp
  have mcr: "mc p ?r (m + 1) = ?c" using mc_left [of ?r p m] q by simp
  assume ne: "buf net' ?r ?l \<noteq> buf net ?r ?l"
  have only: "q' = q \<and> m' = m" if "q' < p" "m' < M" "c_dst (ar_mch p q' m') = ?r" "c_dslot (ar_mch p q' m') = ?l" for q' m'
  proof -
    have "pl.right q' = ?r" using that(3) by (auto simp: ar_mch_def reduce_chan_def gather_chan_def split: if_splits)
    then have q': "q' = q" using that(1) q by (metis pl.nb(4))
    have "m' < p - 1 \<longleftrightarrow> m < p - 1" "mc p q m' = mc p q m"
      using that(4) q' by (auto simp: ar_mch_def reduce_chan_def gather_chan_def split: if_splits)
    then have "m' = m" using mc_inj [OF q(1), of m' m] that(2) q(2) by auto
    with q' show ?thesis by simp
  qed
  have gather: "\<not> m < p - 1 \<Longrightarrow> pl.started net ?r \<and> dist p ?r ?c \<le> pl.K net ?r"
  proof -
    assume m: "\<not> m < p - 1"
    have "dist p ?r ?c = m + 1 - p" using dist_mc [OF r, of "m + 1"] mcr q(2) m by auto
    then have e: "dist p ?r ?c + p - 1 = m" using m two by linarith
    have "pl.inflight net q m"
      using pl.msg_state [OF i q] pd(1) by (cases "pl.inflight net q m") auto
    then have "dist p ?r ?c + p - 1 < pl.sent net (pl.left ?r)" using q e by (simp add: pl.inflight_def)
    from posted_gather(1,2) [OF i r this] show ?thesis by simp
  qed
  from written_slot [OF st ne r i] consider "phase net ?r = INITIALIZED" "\<nexists>c. ?l = TgtSlot c"
    | k where "k < p - 1" "k = pl.K net ?r" "?l = SrcSlot (mc p ?r (k + 1))"
    | q' m' where "q' < p" "m' < M" "c_dst (ar_mch p q' m') = ?r" "c_dslot (ar_mch p q' m') = ?l"
      "net' = deliver (ar_mch p q' m') net" by blast
  then show False
  proof cases
    case 1
    then have "\<not> m < p - 1" by (auto simp: ar_mch_def reduce_chan_def)
    with gather 1 show False by (simp add: pl.started_def)
  next
    case (2 k)
    then have m: "\<not> m < p - 1" "mc p ?r (k + 1) = ?c"
      by (auto simp: ar_mch_def reduce_chan_def gather_chan_def split: if_splits)
    then have "dist p ?r ?c = k + 1" using dist_mc [OF r, of "k + 1"] 2(1) by auto
    with gather m 2(2) show False by simp
  next
    case (3 q' m')
    with only have "net' = deliver (ar_mch p q m) net" by blast
    with pd(2) not_same_delivery [OF i q] show False by simp
  qed
qed

lemma race_free_step:
  assumes "pl.pl_inv net" "pl.pl_step inp net net'" "0 < pend net c" "0 < pend net' c"
  shows "buf net' (c_src c) (c_sslot c) = buf net (c_src c) (c_sslot c) \<and>
    buf net' (c_dst c) (c_dslot c) = buf net (c_dst c) (c_dslot c)"
proof -
  from pl.inv_deliver(2) [OF assms(1,3)] obtain q m where q: "q < p" "m < M" and c: "c = ar_mch p q m" by blast
  have "c_src c = q" "c_sslot c = SrcSlot (mc p q m)" "c_dst c = pl.right q"
    by (simp_all add: c ar_mch_def reduce_chan_def gather_chan_def)
  then show ?thesis using race_free_src [OF assms(1,2) q] race_free_dst [OF assms(1,2) q] assms(3,4) c by simp
qed

end

section \<open>Properties\<close>

text \<open>A concrete group of two ranks.\<close>

definition ar_net0 :: "nat ar_net" where
  "ar_net0 = \<lparr>phase = \<lambda>_. INITIALIZED, ctl = \<lambda>_. \<lparr>current_step = 0, current_index = 0\<rparr>, buf = \<lambda>_ _. [0],
     pend = \<lambda>_. 0, flag = \<lambda>_. False, apend = \<lambda>_. 0, aflag = \<lambda>_. False\<rparr>"

definition ar_inp0 :: "nat \<Rightarrow> nat list" where
  "ar_inp0 r = (if r = 0 then [1, 2] else [10, 20])"

lemma ar_net0_init: "ar_init 2 2 ar_net0" "coll_init 2 ar_net0"
  by (simp_all add: ar_init_def ar_net0_def coll_init_def number_elements_padded_def ceil_div_def)

lemma two_ranks:
  "[0..<2] = [0, 1 :: nat]" "(\<Sum>q < (2 :: nat). g q) = g 0 + (g 1 :: 'a::comm_monoid_add)"
  "number_elements_padded 2 2 = 1"
  by (simp_all add: upt_rec numeral_2_eq_2) (simp add: number_elements_padded_def ceil_div_def)

lemma ar_inp0_length: "\<forall>r < 2. length (ar_inp0 r) = 2"
  by (simp add: ar_inp0_def)

text \<open>
  Property C1. Ring allreduce computes the elementwise reduction: for a commutative ring of
  elements, on every group of at least two ranks, for every interleaving of the ranks' calls and
  every order in which the network carries out the transfers, a rank whose collective is
  \<open>FINISHED\<close> copies out, for every element, the sum or the product over all ranks' inputs.
\<close>

theorem allreduce_ring_result:
  assumes "2 \<le> p" "0 < n" "n + p \<le> 2 ^ 63" "ar_init p n n0" "gaspi_env env"
    and "\<forall>r < p. length (inp r) = n"
    and "coll_reach env (ar_impl p n (reduction_functor op)) p inp n0 net"
    and "r < p" "phase net r = FINISHED"
  shows "copyOutImpl (ar_impl p n (reduction_functor op) r) net =
    map (\<lambda>j. case op of SUM_op \<Rightarrow> \<Sum>q < p. (inp q ! j :: 'a::comm_semiring_1) | PROD_op \<Rightarrow> \<Prod>q < p. inp q ! j) [0..<n]"
proof -
  have L: "allreduce_ring p n" using assms(1,2) by unfold_locales
  have c: "j div number_elements_padded n p < p" if "j < n" for j
    using that padded_bounds [of p n] assms(1-3) by (simp add: less_mult_imp_div_less)
  have "copyOutImpl (ar_impl p n (reduction_functor op) r) net =
      map (\<lambda>j. ring_fold (reduction_functor op) p (\<lambda>q. inp q ! j) (j div number_elements_padded n p) (p - 1)) [0..<n]"
    using allreduce_ring.result [OF L assms(7,4,5,6,3,8,9)] by (simp add: ar_impl_def)
  also have "\<dots> = map (\<lambda>j. case op of SUM_op \<Rightarrow> \<Sum>q < p. inp q ! j | PROD_op \<Rightarrow> \<Prod>q < p. inp q ! j) [0..<n]"
  proof (rule map_cong [OF refl])
    fix j assume "j \<in> set [0..<n]"
    then have "j < n" by simp
    from ring_fold_comm [OF c [OF this], of "\<lambda>q. inp q ! j"]
    show "ring_fold (reduction_functor op) p (\<lambda>q. inp q ! j) (j div number_elements_padded n p) (p - 1) =
        (case op of SUM_op \<Rightarrow> \<Sum>q < p. inp q ! j | PROD_op \<Rightarrow> \<Prod>q < p. inp q ! j)"
      by (cases op) simp_all
  qed
  finally show ?thesis .
qed

lemma allreduce_ring_result_witness:
  "\<exists>net. coll_reach any_env (ar_impl 2 2 (reduction_functor SUM_op)) 2 ar_inp0 ar_net0 net \<and>
     copyOutImpl (ar_impl 2 2 (reduction_functor SUM_op) 0) net = [11, 22]"
proof -
  have P: "ring_pipeline 2 2 (ar_mch 2) current_step (ar_wf 2) (ar_work 2 (reduction_functor SUM_op))
      (ar_fill 2 2) (ar_impl 2 2 (reduction_functor SUM_op :: nat \<Rightarrow> nat \<Rightarrow> nat))"
    using ar_pipeline [of 2 2 "reduction_functor SUM_op :: nat \<Rightarrow> nat \<Rightarrow> nat"] by simp
  obtain net where n: "coll_reach any_env (ar_impl 2 2 (reduction_functor SUM_op)) 2 ar_inp0 ar_net0 net"
    "phase net 0 = FINISHED"
    using ring_pipeline.coll_completes [OF P ring_pipeline.inv_init [OF P ar_net0_init(2)] any_env_gaspi]
    unfolding ring_pipeline.all_finished_def [OF P] by fastforce
  have "copyOutImpl (ar_impl 2 2 (reduction_functor SUM_op) 0) net = [11, 22]"
    using allreduce_ring_result [OF _ _ _ ar_net0_init(1) any_env_gaspi(1) ar_inp0_length n(1) _ n(2)]
    by (simp add: ar_inp0_def two_ranks)
  with n(1) show ?thesis by blast
qed

text \<open>
  Property C2. For any element operation, associative or not (floating point), every finished
  rank copies out the same values: element \<open>j\<close> is combined in the fixed order that starts at the
  rank owning its chunk and goes once around the ring.
\<close>

theorem allreduce_ring_deterministic:
  assumes "2 \<le> p" "0 < n" "n + p \<le> 2 ^ 63" "ar_init p n n0" "gaspi_env env"
    and "\<forall>r < p. length (inp r) = n"
    and "coll_reach env (ar_impl p n f) p inp n0 net"
    and "r < p" "phase net r = FINISHED"
  shows "copyOutImpl (ar_impl p n f r) net =
    map (\<lambda>j. ring_fold f p (\<lambda>q. inp q ! j) (j div number_elements_padded n p) (p - 1)) [0..<n]"
proof -
  have L: "allreduce_ring p n" using assms(1,2) by unfold_locales
  from allreduce_ring.result [OF L assms(7,4,5,6,3,8,9)] show ?thesis by (simp add: ar_impl_def)
qed

lemma allreduce_ring_deterministic_witness:
  "\<exists>net. coll_reach any_env (ar_impl 2 2 (-)) 2 ar_inp0 ar_net0 net \<and>
     copyOutImpl (ar_impl 2 2 (-) 1) net = [9, 0]"
proof -
  have P: "ring_pipeline 2 2 (ar_mch 2) current_step (ar_wf 2) (ar_work 2 (-))
      (ar_fill 2 2) (ar_impl 2 2 ((-) :: nat \<Rightarrow> nat \<Rightarrow> nat))"
    using ar_pipeline [of 2 2 "(-) :: nat \<Rightarrow> nat \<Rightarrow> nat"] by simp
  obtain net where n: "coll_reach any_env (ar_impl 2 2 (-)) 2 ar_inp0 ar_net0 net" "phase net 1 = FINISHED"
    using ring_pipeline.coll_completes [OF P ring_pipeline.inv_init [OF P ar_net0_init(2)] any_env_gaspi]
    unfolding ring_pipeline.all_finished_def [OF P] by fastforce
  have "copyOutImpl (ar_impl 2 2 (-) 1) net = [9, 0]"
    using allreduce_ring_deterministic [OF _ _ _ ar_net0_init(1) any_env_gaspi(1) ar_inp0_length n(1) _ n(2)]
    by (simp add: ar_inp0_def two_ranks)
  with n(1) show ?thesis by blast
qed

text \<open>
  Property C3. The ring allreduce completes: whatever has happened so far, and however the
  network orders the transfers, the run can be continued until every rank is \<open>FINISHED\<close>.
\<close>

theorem allreduce_ring_completes:
  assumes "2 \<le> p" "0 < n" "coll_init p n0" "gaspi_env env" "gaspi_live env"
    and "coll_reach env (ar_impl p n f) p inp n0 net"
  shows "\<exists>net'. coll_reach env (ar_impl p n f) p inp net net' \<and> (\<forall>r < p. phase net' r = FINISHED)"
proof -
  note P = ar_pipeline [OF assms(1,2), of f]
  from ring_pipeline.coll_completes [OF P ring_pipeline.reach_inv [OF P assms(6,3,4)] assms(4,5)]
  show ?thesis unfolding ring_pipeline.all_finished_def [OF P] .
qed

lemma allreduce_ring_completes_witness:
  "\<exists>net'. coll_reach any_env (ar_impl 2 2 (+)) 2 ar_inp0 ar_net0 net' \<and> (\<forall>r < 2. phase net' r = FINISHED)"
  using allreduce_ring_completes [OF _ _ ar_net0_init(2) any_env_gaspi, of 2 "(+)" ar_inp0 ar_net0] by simp

text \<open>
  Property C4. No livelock: in any run of the ring allreduce at most \<open>p (6 p - 2)\<close> steps change
  the state, so a progress engine that keeps calling \<open>triggerProgress\<close> on every rank, over a
  network that carries out its requests, finishes.
\<close>

theorem allreduce_ring_bounded:
  assumes "2 \<le> p" "0 < n" "coll_init p (s 0)" "gaspi_env env"
    and "\<forall>i < k. coll_step env (ar_impl p n f) p inp (s i) (s (Suc i)) \<and> s (Suc i) \<noteq> s i"
  shows "k \<le> p * (6 * p - 2)"
proof -
  have "k \<le> p * (3 * (2 * p - 2) + 4)"
    using ring_pipeline.effective_steps [OF ar_pipeline [OF assms(1,2), of f], of s env k inp] assms(3-5)
    by blast
  moreover have "3 * (2 * p - 2) + 4 = 6 * p - 2" using assms(1) by simp
  ultimately show ?thesis by simp
qed

lemma allreduce_ring_bounded_witness:
  "coll_step any_env (ar_impl 2 2 (+)) 2 ar_inp0 ar_net0 (set_phase 0 (READY, ar_copyIn 2 2 0 [1, 2] ar_net0)) \<and>
   (1 :: nat) \<le> 2 * (6 * 2 - 2)"
proof
  show step: "coll_step any_env (ar_impl 2 2 (+)) 2 ar_inp0 ar_net0 (set_phase 0 (READY, ar_copyIn 2 2 0 [1, 2] ar_net0))"
    using coll_step.copyIn [of 0 2 "ar_impl 2 2 (+)" ar_inp0 ar_net0 "(READY, ar_copyIn 2 2 0 [1, 2] ar_net0)" any_env]
    by (simp add: cl_copyIn_def ar_net0_def ar_impl_def ar_inp0_def)
  let ?s = "\<lambda>i. if i = 0 then ar_net0 else set_phase 0 (READY, ar_copyIn 2 2 0 [1, 2] ar_net0)"
  have "?s (Suc 0) \<noteq> ?s 0"
    by (rule neq_via [where f = "\<lambda>net. phase net 0"]) (simp add: cnet ar_net0_def)
  with step show "(1 :: nat) \<le> 2 * (6 * 2 - 2)"
    using allreduce_ring_bounded [of 2 2 ?s any_env 1 "(+)" ar_inp0] ar_net0_init(2) any_env_gaspi(1) by simp
qed

text \<open>
  Property C5. The ring allreduce is free of data races: while a transfer is on its way, no step
  of any rank and no other transfer changes the memory it reads from or the memory it writes to,
  so it does not matter when the network reads the source.
\<close>

theorem allreduce_ring_race_free:
  assumes "2 \<le> p" "0 < n" "coll_init p n0" "gaspi_env env"
    and "coll_reach env (ar_impl p n f) p inp n0 net" "coll_step env (ar_impl p n f) p inp net net'"
    and "0 < pend net c" "0 < pend net' c"
  shows "buf net' (c_src c) (c_sslot c) = buf net (c_src c) (c_sslot c) \<and>
    buf net' (c_dst c) (c_dslot c) = buf net (c_dst c) (c_dslot c)"
proof -
  note P = ar_pipeline [OF assms(1,2), of f]
  have i: "ring_pipeline.pl_inv p (2 * p - 2) (ar_mch p) current_step (ar_wf p) net"
    by (rule ring_pipeline.reach_inv [OF P assms(5,3,4)])
  have L: "allreduce_ring p n" using assms(1,2) by unfold_locales
  from allreduce_ring.race_free_step [OF L i ring_pipeline.coll_step_pl_step [OF P assms(6) i assms(4)] assms(7,8)]
  show ?thesis .
qed

lemma allreduce_ring_race_free_witness:
  "let net = set_phase 0 (RUNNING, ar_start 2 2 0 (set_phase 0 (READY, ar_copyIn 2 2 0 [1, 2] ar_net0)));
       net' = set_phase 1 (READY, ar_copyIn 2 2 1 [10, 20] net)
   in buf net' 0 (SrcSlot 0) = buf net 0 (SrcSlot 0)"
proof -
  let ?I = "ar_impl 2 2 (+)"
  let ?n1 = "set_phase 0 (READY, ar_copyIn 2 2 0 [1, 2] ar_net0)"
  let ?net = "set_phase 0 (RUNNING, ar_start 2 2 0 ?n1)"
  let ?net' = "set_phase 1 (READY, ar_copyIn 2 2 1 [10, 20] ?net)"
  have 1: "coll_step any_env ?I 2 ar_inp0 ar_net0 ?n1"
    by (rule do_event_step [of _ _ _ "CopyIn 0"]) (simp add: ar_net0_def ar_impl_def ar_inp0_def)
  have 2: "coll_step any_env ?I 2 ar_inp0 ?n1 ?net"
    by (rule do_event_step [of _ _ _ "Start 0"]) (simp add: ar_impl_def cnet)
  have 3: "coll_step any_env ?I 2 ar_inp0 ?net ?net'"
    by (rule do_event_step [of _ _ _ "CopyIn 1"])
      (simp add: ar_impl_def ar_inp0_def cnet ar_start_def Let_def ar_copyIn_def, simp add: ar_net0_def)
  have "coll_reach any_env ?I 2 ar_inp0 ar_net0 ?net" using 1 2 by (meson r_into_rtranclp rtranclp.rtrancl_into_rtrancl)
  from allreduce_ring_race_free [OF _ _ ar_net0_init(2) any_env_gaspi(1) this 3, of "reduce_chan 2 0 0"]
  show ?thesis
    by (simp add: Let_def cnet ar_start_def reduce_chan_def ar_copyIn_def)
qed

lemma ar_source_endpoint:
  "2 \<le> p \<Longrightarrow> 0 < n \<Longrightarrow>
   \<lparr>ep_source = True, ep_slot = l, ep_partner = q, ep_tag = t\<rparr> \<in> set (ar_connections p n r) \<longleftrightarrow>
   (\<exists>i < p. l = SrcSlot i \<and> q = ring_next p r \<and> (t = i \<or> t = i + p))"
  by (auto simp: ar_connections_def Let_def)

lemma ar_target_endpoint:
  "2 \<le> p \<Longrightarrow> 0 < n \<Longrightarrow>
   \<lparr>ep_source = False, ep_slot = l, ep_partner = q, ep_tag = t\<rparr> \<in> set (ar_connections p n r) \<longleftrightarrow>
   (\<exists>i < p. q = ring_prev p r \<and> (t = i \<and> l = TgtSlot i \<or> t = i + p \<and> l = SrcSlot i))"
  by (auto simp: ar_connections_def Let_def)

text \<open>
  Property C6. The connections of the ring allreduce match: with two ranks or more, the requests
  that all constructors make pair up to exactly the reduce and gather channels the algorithm
  uses, one for every rank and chunk, and no other pair of endpoints is connected.
\<close>

theorem allreduce_ring_connections:
  assumes "2 \<le> p" "0 < n" "c_src c < p" "c_dst c < p"
  shows "connected (ar_connections p n) c \<longleftrightarrow>
    (\<exists>r < p. \<exists>i < p. c = reduce_chan p r i \<or> c = gather_chan p r i)"
proof
  assume "connected (ar_connections p n) c"
  then obtain i j where i: "i < p" "c_sslot c = SrcSlot i" "c_dst c = ring_next p (c_src c)"
      "c_tag c = i \<or> c_tag c = i + p"
    and j: "j < p" "c_tag c = j \<and> c_dslot c = TgtSlot j \<or> c_tag c = j + p \<and> c_dslot c = SrcSlot j"
    unfolding connected_def ar_source_endpoint [OF assms(1,2)] ar_target_endpoint [OF assms(1,2)] by blast
  then have "i = j" by auto
  with i j have "c = reduce_chan p (c_src c) i \<or> c = gather_chan p (c_src c) i"
    by (cases c) (auto simp: reduce_chan_def gather_chan_def)
  with i(1) assms(3) show "\<exists>r < p. \<exists>i < p. c = reduce_chan p r i \<or> c = gather_chan p r i" by blast
next
  assume "\<exists>r < p. \<exists>i < p. c = reduce_chan p r i \<or> c = gather_chan p r i"
  then show "connected (ar_connections p n) c"
    unfolding connected_def ar_source_endpoint [OF assms(1,2)] ar_target_endpoint [OF assms(1,2)]
    by (auto simp: reduce_chan_def gather_chan_def)
qed

lemma allreduce_ring_connections_witness:
  "connected (ar_connections 2 2) (gather_chan 2 1 0)"
proof (rule allreduce_ring_connections [THEN iffD2])
  show "\<exists>r < 2. \<exists>i < 2. gather_chan 2 1 0 = reduce_chan 2 r i \<or> gather_chan 2 1 0 = gather_chan 2 r i"
    by (intro exI [of _ 1] conjI exI [of _ 0]) simp_all
qed (simp_all add: gather_chan_def ring_next_def)

end
