(* ===== verification/Allgatherv_Ring.thy ===== *)
theory Allgatherv_Ring
  imports Allreduce_Ring
begin

text \<open>
  \<open>AllgathervCommon.cpp\<close> and \<open>AllgathervRing.hpp\<close>: every rank's block travels once around the
  ring.  The second use of the ring pipeline, with \<open>p - 1\<close> messages per rank.
\<close>

section \<open>Counts and offsets\<close>

text \<open>
  \<open>number_elements\<close> is \<open>std::accumulate\<close> with the initial value \<open>0\<close> of type \<open>int\<close>: every partial
  sum is converted to a 32-bit integer, the result is converted back to \<open>std::size_t\<close>.
\<close>

definition agv_number_elements :: "nat list \<Rightarrow> u64" where
  "agv_number_elements counts =
     scast (foldl (\<lambda>(acc :: 32 word) c. ucast (scast acc + (of_nat c :: u64))) 0 counts)"

fun partial_sum :: "nat \<Rightarrow> nat list \<Rightarrow> nat list" where
  "partial_sum acc [] = []"
| "partial_sum acc (c # cs) = (acc + c) # partial_sum (acc + c) cs"

definition agv_offsets :: "nat list \<Rightarrow> nat list" where
  "agv_offsets counts = (if length counts > 1 then 0 # partial_sum 0 (butlast counts) else replicate (length counts) 0)"

section \<open>The object of a rank\<close>

text \<open>
  \<open>OwnSlot\<close> is the allocation of \<open>source_buffers[0]\<close>, \<open>RecvSlot i\<close> that of \<open>target_buffers[i]\<close>,
  which \<open>source_buffers[i + 1]\<close> shares.
\<close>

datatype agv_slot = OwnSlot | RecvSlot nat | OneRankData

fun agv_source :: "nat \<Rightarrow> agv_slot" where
  "agv_source 0 = OwnSlot"
| "agv_source (Suc i) = RecvSlot i"

definition agv_chan :: "nat \<Rightarrow> nat \<Rightarrow> nat \<Rightarrow> agv_slot chan" where
  "agv_chan p r i = \<lparr>c_src = r, c_sslot = agv_source i, c_dst = ring_next p r, c_dslot = RecvSlot i, c_tag = i\<rparr>"

type_synonym 'a agv_net = "(nat, agv_slot, 'a list) net"

definition agv_is_last_step :: "nat \<Rightarrow> nat \<Rightarrow> bool" where
  "agv_is_last_step p cstep = (cstep = p - 1)"

definition agv_start :: "nat \<Rightarrow> nat \<Rightarrow> 'a agv_net \<Rightarrow> 'a agv_net" where
  "agv_start p r net = (if p > 1 then initTransfer (agv_chan p r 0) (set_ctl r 0 net) else net)"

definition agv_trigger :: "nat \<Rightarrow> nat \<Rightarrow> 'a agv_net \<Rightarrow> bool \<times> 'a agv_net" where
  "agv_trigger p r net =
     (if p = 1 then (True, net)
      else
        let cstep = ctl net r; left_neighbor = ring_prev p r in
        if agv_is_last_step p cstep
        then checkForTransferAck (agv_chan p r (cstep - 1)) net
        else
          case checkForCompletion (agv_chan p left_neighbor cstep) net of
            (made_progress, net1) \<Rightarrow>
              if \<not> made_progress then (False, net1)
              else
                let step' = cstep + 1; net2 = set_ctl r step' net1
                in (False, if agv_is_last_step p step'
                           then ackTransfer (agv_chan p left_neighbor (step' - 1)) net2
                           else initTransfer (agv_chan p r step') net2))"

definition agv_fill :: "nat \<Rightarrow> nat list \<Rightarrow> nat \<Rightarrow> 'a list \<Rightarrow> (agv_slot \<Rightarrow> 'a list) \<Rightarrow> (agv_slot \<Rightarrow> 'a list)" where
  "agv_fill p counts r inputs b =
     (if p = 1 then b(OneRankData := take (unat (agv_number_elements counts)) inputs)
      else let elements_to_copy = length (b OwnSlot)
           in b(OwnSlot := take elements_to_copy inputs @ drop elements_to_copy (b OwnSlot)))"

definition agv_copyIn :: "nat \<Rightarrow> nat list \<Rightarrow> nat \<Rightarrow> 'a list \<Rightarrow> 'a agv_net \<Rightarrow> 'a agv_net" where
  "agv_copyIn p counts r inputs net = set_buf r (agv_fill p counts r inputs (buf net r)) net"

fun agv_copyOut_loop :: "nat \<Rightarrow> nat list \<Rightarrow> (agv_slot \<Rightarrow> 'a list) \<Rightarrow> nat \<Rightarrow> nat \<Rightarrow> nat \<Rightarrow> 'a list \<Rightarrow> 'a list" where
  "agv_copyOut_loop p counts b i receive_index 0 out = out"
| "agv_copyOut_loop p counts b i receive_index (Suc k) out =
     agv_copyOut_loop p counts b (i + 1) (ring_prev p receive_index) k
       (write_at (agv_offsets counts ! receive_index) (take (counts ! receive_index) (b (RecvSlot i))) out)"

definition agv_copyOut :: "nat \<Rightarrow> nat list \<Rightarrow> nat \<Rightarrow> 'a agv_net \<Rightarrow> 'a list \<Rightarrow> 'a list" where
  "agv_copyOut p counts r net out =
     (let b = buf net r in
      if p = 1 then write_at 0 (b OneRankData) out
      else
        let send_index = r; receive_index = ring_prev p send_index
        in agv_copyOut_loop p counts b 0 receive_index (p - 1)
             (write_at (agv_offsets counts ! send_index) (take (counts ! send_index) (b OwnSlot)) out))"

definition agv_impl :: "nat \<Rightarrow> nat list \<Rightarrow> nat \<Rightarrow> ('a agv_net, 'a list, 'a list \<Rightarrow> 'a list) coll_impl" where
  "agv_impl p counts r =
     \<lparr>waitForSetupImpl = (\<lambda>net. net), copyInImpl = agv_copyIn p counts r, startImpl = agv_start p r,
      triggerProgressImpl = agv_trigger p r, copyOutImpl = agv_copyOut p counts r\<rparr>"

definition agv_connections :: "nat \<Rightarrow> nat \<Rightarrow> agv_slot endpoint list" where
  "agv_connections p r =
     (if p > 1 then
        let left_neighbor = ring_prev p r; right_neighbor = ring_next p r
        in concat (map (\<lambda>i.
             [\<lparr>ep_source = True, ep_slot = agv_source i, ep_partner = right_neighbor, ep_tag = i\<rparr>,
              \<lparr>ep_source = False, ep_slot = RecvSlot i, ep_partner = left_neighbor, ep_tag = i\<rparr>]) [0..<p - 1])
      else [])"

section \<open>The code follows the ring pipeline\<close>

lemma agv_pipeline:
  assumes p: "2 \<le> p"
  shows "ring_pipeline p (p - 1) (agv_chan p) id (\<lambda>r s. True) (\<lambda>r k b. b) (agv_fill p counts) (agv_impl p counts)"
proof
  show "2 \<le> p" by (rule p)
  show "0 < p - 1" using p by simp
  show "agv_chan p r m = agv_chan p r' m' \<Longrightarrow> r = r' \<and> m = m'" for r m r' m' by (simp add: agv_chan_def)
  fix r and net :: "'a agv_net" assume r: "r < p"
  show "\<exists>s'. copyInImpl (agv_impl p counts r) x net = set_ctl r s' (set_buf r (agv_fill p counts r x (buf net r)) net)" for x
    by (rule exI [of _ "ctl net r"]) (simp add: agv_impl_def agv_copyIn_def set_ctl_def set_buf_def)
  show "\<exists>s'. id s' = 0 \<and> True \<and> startImpl (agv_impl p counts r) net = initTransfer (agv_chan p r 0) (set_ctl r s' net)"
    using p by (simp add: agv_impl_def agv_start_def)
  let ?k = "ctl net r"
  show "triggerProgressImpl (agv_impl p counts r) net = checkForTransferAck (agv_chan p r (p - 1 - 1)) net"
    if "id ?k = p - 1"
    using p that by (simp add: agv_impl_def agv_trigger_def agv_is_last_step_def Let_def)
  assume k: "id ?k < p - 1"
  show "triggerProgressImpl (agv_impl p counts r) net = (False, net)"
    if "\<not> flag net (agv_chan p (ring_prev p r) (id ?k))"
    using p k that by (simp add: agv_impl_def agv_trigger_def agv_is_last_step_def Let_def checkForCompletion_def)
  assume fg: "flag net (agv_chan p (ring_prev p r) (id ?k))"
  define net1 where "net1 = snd (checkForCompletion (agv_chan p (ring_prev p r) ?k) net)"
  have c: "checkForCompletion (agv_chan p (ring_prev p r) ?k) net = (True, net1)"
    using fg by (simp add: net1_def checkForCompletion_def)
  have b: "set_buf r (buf net r) net1 = net1" by (simp add: net1_def set_buf_def checkForCompletion_def)
  have "triggerProgressImpl (agv_impl p counts r) net =
      (False, pl_advance p (p - 1) (agv_chan p) (\<lambda>r k b. b) r (id ?k) (?k + 1) net)"
    using p k by (auto simp: agv_impl_def agv_trigger_def agv_is_last_step_def Let_def c pl_advance_def b)
  then show "\<exists>s'. id s' = id ?k + 1 \<and> True \<and> triggerProgressImpl (agv_impl p counts r) net =
      (False, pl_advance p (p - 1) (agv_chan p) (\<lambda>r k b. b) r (id ?k) s' net)"
    by (intro exI [of _ "?k + 1"]) simp
qed

end
