(* ===== verification/Allgatherv_Ring_Props.thy ===== *)
theory Allgatherv_Ring_Props
  imports Allgatherv_Ring Allreduce_Ring_Props
begin

text \<open>
  What the ring allgatherv computes, its completion, and where it goes wrong: the element count
  beyond 31 bits, and the reuse of the collective before a neighbour has copied its result out.
\<close>

section \<open>Data invariant\<close>

locale allgatherv_ring =
  fixes p M :: nat and counts :: "nat list" and inp :: "nat \<Rightarrow> 'a list" and n0 :: "'a agv_net"
  assumes two: "2 \<le> p" and M: "M = p - 1"

sublocale allgatherv_ring \<subseteq> pl: ring_pipeline p M "agv_chan p" id "\<lambda>r s. True" "\<lambda>r k b. b"
    "agv_fill p counts" "agv_impl p counts"
  unfolding M by (rule agv_pipeline [OF two])

context allgatherv_ring begin

lemma M_bounds: "0 < M" "M \<le> p" "M < 2 * p"
  using two M by simp_all

definition y :: "nat \<Rightarrow> 'a list" where
  "y r = agv_fill p counts r (inp r) (buf n0 r) OwnSlot"

definition delivered :: "'a agv_net \<Rightarrow> nat \<Rightarrow> nat \<Rightarrow> bool" where
  "delivered net q m \<longleftrightarrow> m < pl.sent net q \<and> pend net (agv_chan p q m) = 0"

text \<open>Message \<open>m\<close> of rank \<open>q\<close> carries the block of rank \<open>mc p q m\<close>.\<close>

definition data_inv :: "'a agv_net \<Rightarrow> bool" where
  "data_inv net \<longleftrightarrow> (\<forall>r < p.
     buf net r OwnSlot = (if phase net r = INITIALIZED then buf n0 r OwnSlot else y r) \<and>
     (\<forall>m < M. delivered net (pl.left r) m \<longrightarrow> buf net r (RecvSlot m) = y (mc p r (m + 1))))"

lemma data_inv_cong:
  assumes "data_inv net" "\<And>r. r < p \<Longrightarrow> (phase net' r = INITIALIZED) = (phase net r = INITIALIZED)"
    and "\<And>r m. r < p \<Longrightarrow> m < M \<Longrightarrow> delivered net' r m = delivered net r m"
    and "\<And>r. r < p \<Longrightarrow> buf net' r = buf net r"
  shows "data_inv net'"
  using assms by (simp add: data_inv_def)

lemma data_init: "coll_init p n0 \<Longrightarrow> data_inv n0"
  by (simp add: data_inv_def coll_init_def delivered_def pl.sent_def pl.started_def)

lemma consumed_delivered:
  assumes i: "pl.pl_inv net" and r: "r < p" and m: "m < pl.K net r"
  shows "delivered net (pl.left r) m"
proof -
  have q: "pl.left r < p" using r by simp
  have le: "pl.K net (pl.right (pl.left r)) \<le> pl.sent net (pl.left r)"
    using i q unfolding pl.pl_inv_def pl.inv_ranks_def by blast
  then have "m < M" using m r by (simp add: pl.sent_def split: if_splits)
  moreover have "\<not> pl.inflight net (pl.left r) m" using m r by (simp add: pl.inflight_def)
  ultimately have "pend net (agv_chan p (pl.left r) m) = 0" using pl.msg_state [OF i q, of m] by simp
  then show ?thesis using le m r by (simp add: delivered_def)
qed

lemma data_deliver:
  assumes d: "data_inv net" and i: "pl.pl_inv net" and pd: "0 < pend net c"
  shows "data_inv (deliver c net)"
proof -
  from pl.inv_deliver(2) [OF i pd] obtain q m where q: "q < p" "m < M" and c: "c = agv_chan p q m"
    and fl: "pl.inflight net q m" by blast
  let ?n = "deliver c net" and ?r = "pl.right q"
  have one: "pend net c = 1" using pl.msg_state [OF i q] pd c fl by (cases "flag net c") auto
  have K: "pl.sent ?n q' = pl.sent net q'" for q'
    by (simp add: pl.K_def pl.sent_def pl.started_def cnet)
  have ms: "m < pl.sent net q" "pl.started net q" "m \<le> pl.K net q"
    using fl by (auto simp: pl.inflight_def pl.sent_def split: if_splits)
  have dl: "delivered ?n q' m' = (delivered net q' m' \<or> (q' = q \<and> m' = m))" if "q' < p" "m' < M" for q' m'
    using that q ms one by (auto simp: delivered_def K [unfolded c] cnet c)
  have "buf net q (agv_source m) = y (mc p q m)"
  proof (cases m)
    case 0
    then show ?thesis using d q ms by (auto simp: data_inv_def pl.started_def)
  next
    case (Suc k)
    have "delivered net (pl.left q) k" using consumed_delivered [OF i q(1)] ms(3) Suc by simp
    then show ?thesis using d q Suc by (simp add: data_inv_def flip: Suc_eq_plus1)
  qed
  then have buf: "buf ?n q' l = (if q' = ?r \<and> l = RecvSlot m then y (mc p q m) else buf net q' l)" for q' l
    by (simp add: cnet c agv_chan_def)
  have mcr: "mc p ?r (m + 1) = mc p q m" using mc_left [of ?r p m] q M by simp
  show ?thesis unfolding data_inv_def
  proof (intro allI impI conjI)
    fix q' assume q': "q' < p"
    show "buf ?n q' OwnSlot = (if phase ?n q' = INITIALIZED then buf n0 q' OwnSlot else y q')"
      using d q' by (simp add: buf data_inv_def deliver_sel(1))
    fix m' assume m': "m' < M" and dd: "delivered ?n (pl.left q') m'"
    show "buf ?n q' (RecvSlot m') = y (mc p q' (m' + 1))"
    proof (cases "q' = ?r \<and> m' = m")
      case True
      then show ?thesis using mcr by (simp add: buf)
    next
      case False
      then have "\<not> (pl.left q' = q \<and> m' = m)" using q' by auto
      moreover have "delivered net (pl.left q') m' \<or> (pl.left q' = q \<and> m' = m)"
        using dd dl [of "pl.left q'" m'] q' m' by simp
      ultimately have "delivered net (pl.left q') m'" by blast
      then show ?thesis using d q' m' False by (auto simp: buf data_inv_def)
    qed
  qed
qed

lemma data_copyIn:
  assumes d: "data_inv net" and r: "r < p" and ph: "phase net r = INITIALIZED"
  shows "data_inv (set_phase r (READY, copyInImpl (agv_impl p counts r) (inp r) net))"
proof -
  have n: "copyInImpl (agv_impl p counts r) (inp r) net = set_buf r (agv_fill p counts r (inp r) (buf net r)) net"
    by (simp add: agv_impl_def agv_copyIn_def)
  let ?n = "set_phase r (READY, set_buf r (agv_fill p counts r (inp r) (buf net r)) net)"
  have "pl.sent ?n q = pl.sent net q" for q
    using ph by (auto simp: pl.sent_def pl.K_def pl.started_def cnet)
  then have dl: "delivered ?n q m = delivered net q m" for q m by (simp add: delivered_def cnet)
  have "buf net r OwnSlot = buf n0 r OwnSlot" using d r ph by (simp add: data_inv_def)
  then have new: "agv_fill p counts r (inp r) (buf net r) OwnSlot = y r"
    using two by (simp add: y_def agv_fill_def Let_def)
  have old: "agv_fill p counts r xs b (RecvSlot m) = b (RecvSlot m)" for xs b m
    using two by (simp add: agv_fill_def Let_def)
  show ?thesis unfolding n data_inv_def using d
    by (auto simp: cnet dl new old data_inv_def)
qed

lemma data_step: "pl.pl_step inp net net' \<Longrightarrow> pl.pl_inv net \<Longrightarrow> data_inv net \<Longrightarrow> data_inv net'"
proof (induction rule: pl.pl_step.induct)
  case (s_copyIn r net)
  then show ?case by (intro data_copyIn)
next
  case (s_start r net)
  obtain s' where s': "id s' = 0" "startImpl (agv_impl p counts r) net = initTransfer (agv_chan p r 0) (set_ctl r s' net)"
    using pl.start_spec [OF s_start(1)] by blast
  let ?n = "set_phase r (RUNNING, initTransfer (agv_chan p r 0) (set_ctl r s' net))"
  have K: "pl.K ?n q = pl.K net q" for q using s_start(2) s' by (simp add: pl.K_def pl.started_def cnet)
  have sent: "pl.sent ?n q = (if q = r then 1 else pl.sent net q)" "pl.sent net r = 0" for q
    using s_start(2) s' M_bounds by (auto simp: pl.sent_def K pl.started_def cnet pl.K_def)
  show ?case unfolding s'(2)
  proof (rule data_inv_cong [OF s_start(4)])
    fix q m assume "q < p" "m < M"
    then show "delivered ?n q m = delivered net q m"
      using s_start(1) two by (auto simp: delivered_def sent cnet)
  qed (use s_start(2) in \<open>auto simp: cnet\<close>)
next
  case (s_advance r net k s')
  let ?n = "set_phase r (RUNNING, pl_advance p (M) (agv_chan p) (\<lambda>r k b. b) r k s' net)"
  have Kr: "pl.K net r = k" "pl.started net r" using s_advance by (simp_all add: pl.K_def pl.started_def)
  have K: "pl.K ?n q = (if q = r then k + 1 else pl.K net q)" for q
    using s_advance by (auto simp: pl.K_def pl.started_def cnet)
  have sent: "pl.sent ?n q = (if q = r then min (k + 1 + 1) (M) else pl.sent net q)" "pl.sent net r = k + 1" for q
    using s_advance(2,4) Kr by (simp_all add: pl.sent_def K pl.started_def cnet)
  show ?case
  proof (rule data_inv_cong [OF s_advance(9)])
    fix q m assume "q < p" "m < M"
    then show "delivered ?n q m = delivered net q m"
      using s_advance(1,4) by (auto simp: delivered_def sent cnet)
  qed (use s_advance(2) in \<open>auto simp: cnet\<close>)
next
  case (s_finish r net)
  show ?case
    by (rule data_inv_cong [OF s_finish(6)])
      (use s_finish(2) in \<open>auto simp: cnet delivered_def pl.sent_def pl.K_def pl.started_def\<close>)
next
  case (s_deliver net c)
  then show ?case by (intro data_deliver)
next
  case (s_ack net c)
  show ?case
    by (rule data_inv_cong [OF s_ack(3)]) (auto simp: cnet delivered_def pl.sent_def pl.K_def pl.started_def)
qed simp

lemma reach_inv:
  assumes "coll_reach env (agv_impl p counts) p inp n0 net" "coll_init p n0" "gaspi_env env"
  shows "pl.pl_inv net \<and> data_inv net"
  using assms(1)
proof (induction rule: rtranclp_induct)
  case base
  then show ?case using assms pl.inv_init data_init by blast
next
  case (step net net')
  then show ?case using pl.coll_step_pl_step [OF step(2) _ assms(3)] pl.pl_step_inv data_step by blast
qed

lemma finished_blocks:
  assumes "coll_reach env (agv_impl p counts) p inp n0 net" "coll_init p n0" "gaspi_env env"
    and "r < p" "phase net r = FINISHED"
  shows "buf net r OwnSlot = y r" and "m < M \<Longrightarrow> buf net r (RecvSlot m) = y (mc p r (m + 1))"
proof -
  from reach_inv [OF assms(1-3)] have i: "pl.pl_inv net" and d: "data_inv net" by simp_all
  show "buf net r OwnSlot = y r" using d assms(4,5) by (simp add: data_inv_def)
  assume m: "m < M"
  have "pl.K net r = M" using i assms(4,5) unfolding pl.pl_inv_def pl.inv_ranks_def by blast
  then have "delivered net (pl.left r) m" using consumed_delivered [OF i assms(4)] m by simp
  then show "buf net r (RecvSlot m) = y (mc p r (m + 1))" using d assms(4) m by (simp add: data_inv_def)
qed

end

interpretation agv_ring: allgatherv_ring "Suc (Suc q)" "Suc q" counts inp n0 for q counts inp n0
  by unfold_locales simp_all

section \<open>The copy-out\<close>

lemma partial_sum_length [simp]: "length (partial_sum acc cs) = length cs"
  by (induction cs arbitrary: acc) simp_all

lemma partial_sum_nth: "i < length cs \<Longrightarrow> partial_sum acc cs ! i = acc + sum_list (take (i + 1) cs)"
  by (induction cs arbitrary: acc i) (auto simp: nth_Cons' take_Cons')

lemma agv_offsets_nth: "c < length counts \<Longrightarrow> agv_offsets counts ! c = sum_list (take c counts)"
  by (cases c) (auto simp: agv_offsets_def partial_sum_nth take_butlast)

lemma sum_take_mono:
  assumes "c < c'" "c' \<le> length (counts :: nat list)"
  shows "sum_list (take c counts) + counts ! c \<le> sum_list (take c' counts)"
proof -
  have "take c' counts = take c counts @ counts ! c # drop (Suc c) (take c' counts)"
    using id_take_nth_drop [of c "take c' counts"] assms by (simp add: min_def)
  then have "sum_list (take c' counts) = sum_list (take c counts) + (counts ! c + sum_list (drop (Suc c) (take c' counts)))"
    by (metis sum_list.Cons sum_list.append)
  then show ?thesis by simp
qed

lemma sum_take_total: "c < length counts \<Longrightarrow> sum_list (take c counts) + counts ! c \<le> sum_list (counts :: nat list)"
  using sum_take_mono [of c "length counts" counts] by simp

lemma write_at_length: "off + length seg \<le> length out \<Longrightarrow> length (write_at off seg out) = length out"
  by (simp add: write_at_def)

lemma write_at_same: "off + length seg \<le> length out \<Longrightarrow>
    take (length seg) (drop off (write_at off seg out)) = seg"
  by (simp add: write_at_def)

lemma write_at_other:
  assumes "off + length seg \<le> length out" "k + n \<le> off \<or> off + length seg \<le> k"
  shows "take n (drop k (write_at off seg out)) = take n (drop k out)"
proof (rule nth_equalityI)
  show "length (take n (drop k (write_at off seg out))) = length (take n (drop k out))"
    using assms(1) by (simp add: write_at_length)
  fix i assume "i < length (take n (drop k (write_at off seg out)))"
  then show "take n (drop k (write_at off seg out)) ! i = take n (drop k out) ! i"
    using assms by (auto simp: write_at_length nth_append write_at_def)
qed

text \<open>The block of rank \<open>c\<close> stands at its offset in the user's buffer.\<close>

definition block_ok :: "nat list \<Rightarrow> (nat \<Rightarrow> 'a list) \<Rightarrow> 'a list \<Rightarrow> nat \<Rightarrow> bool" where
  "block_ok counts inp out c \<longleftrightarrow> take (counts ! c) (drop (sum_list (take c counts)) out) = inp c"

definition blocks_fit :: "nat \<Rightarrow> nat list \<Rightarrow> (nat \<Rightarrow> 'a list) \<Rightarrow> bool" where
  "blocks_fit p counts inp \<longleftrightarrow> length counts = p \<and> (\<forall>c < p. length (inp c) = counts ! c)"

lemma write_block:
  assumes f: "blocks_fit p counts inp" and c: "c < p" and len: "length out = sum_list counts"
  defines "out' \<equiv> write_at (agv_offsets counts ! c) (take (counts ! c) (inp c)) out"
  shows "length out' = sum_list counts" "block_ok counts inp out' c"
    and "c' < p \<Longrightarrow> block_ok counts inp out c' \<Longrightarrow> block_ok counts inp out' c'"
proof -
  have o: "agv_offsets counts ! c = sum_list (take c counts)" "take (counts ! c) (inp c) = inp c"
    "length (inp c) = counts ! c"
    using f c by (simp_all add: blocks_fit_def agv_offsets_nth)
  have fit: "sum_list (take c counts) + length (inp c) \<le> length out"
    using sum_take_total [of c counts] f c len o by (simp add: blocks_fit_def)
  show "length out' = sum_list counts" using write_at_length [OF fit] len by (simp add: out'_def o)
  show "block_ok counts inp out' c" using write_at_same [OF fit] by (simp add: block_ok_def out'_def o)
  assume c': "c' < p" and ok: "block_ok counts inp out c'"
  show "block_ok counts inp out' c'"
  proof (cases "c' = c")
    case True
    then show ?thesis using \<open>block_ok counts inp out' c\<close> by simp
  next
    case False
    have lc: "c \<le> length counts" "c' \<le> length counts" using f c c' by (simp_all add: blocks_fit_def)
    have "sum_list (take c' counts) + counts ! c' \<le> sum_list (take c counts) \<or>
        sum_list (take c counts) + length (inp c) \<le> sum_list (take c' counts)"
      using sum_take_mono [of c' c counts] sum_take_mono [of c c' counts] False lc o(3) by linarith
    from write_at_other [OF fit this] ok show ?thesis by (simp add: block_ok_def out'_def o)
  qed
qed

lemma copyOut_loop_blocks:
  assumes f: "blocks_fit p counts inp"
  shows "receive_index < p \<Longrightarrow> k \<le> p \<Longrightarrow> length out = sum_list counts \<Longrightarrow>
    \<forall>m < k. b (RecvSlot (i + m)) = inp (mc p receive_index m) \<Longrightarrow>
    (let out' = agv_copyOut_loop p counts b i receive_index k out
     in length out' = sum_list counts \<and>
       (\<forall>c < p. (\<exists>m < k. c = mc p receive_index m) \<or> block_ok counts inp out c \<longrightarrow> block_ok counts inp out' c))"
proof (induction k arbitrary: i receive_index out)
  case (Suc k)
  let ?out = "write_at (agv_offsets counts ! receive_index) (take (counts ! receive_index) (inp receive_index)) out"
  have b0: "b (RecvSlot i) = inp receive_index" using Suc.prems(1,4) by (auto dest: spec [of _ 0])
  note w = write_block [OF f Suc.prems(1,3)]
  have mcp: "mc p (ring_prev p receive_index) m = mc p receive_index (m + 1)" if "m < k" for m
    by (rule mc_left) (use Suc.prems that in auto)
  have "\<forall>m < k. b (RecvSlot (i + 1 + m)) = inp (mc p (ring_prev p receive_index) m)"
  proof (intro allI impI)
    fix m assume m: "m < k"
    then have "b (RecvSlot (i + Suc m)) = inp (mc p receive_index (Suc m))" using Suc.prems(4) by blast
    then show "b (RecvSlot (i + 1 + m)) = inp (mc p (ring_prev p receive_index) m)" using mcp [OF m] by simp
  qed
  from Suc.IH [OF _ _ w(1) this] Suc.prems(1,2)
  have r: "length (agv_copyOut_loop p counts b (i + 1) (ring_prev p receive_index) k ?out) = sum_list counts"
    "c < p \<Longrightarrow> (\<exists>m < k. c = mc p (ring_prev p receive_index) m) \<or> block_ok counts inp ?out c \<Longrightarrow>
       block_ok counts inp (agv_copyOut_loop p counts b (i + 1) (ring_prev p receive_index) k ?out) c" for c
    by (auto simp: Let_def)
  have "(\<exists>m < k. c = mc p (ring_prev p receive_index) m) \<or> block_ok counts inp ?out c"
    if "c < p" "(\<exists>m < Suc k. c = mc p receive_index m) \<or> block_ok counts inp out c" for c
    using that(2)
  proof
    assume "\<exists>m < Suc k. c = mc p receive_index m"
    then obtain m where m: "m < Suc k" "c = mc p receive_index m" by blast
    show ?thesis
    proof (cases m)
      case 0
      then show ?thesis using w(2) m Suc.prems(1) by simp
    next
      case (Suc l)
      then have "l < k" "c = mc p (ring_prev p receive_index) l" using m mcp [of l] by simp_all
      then show ?thesis by blast
    qed
  qed (use w(3) that in blast)
  with r show ?case by (simp add: Let_def b0)
qed simp

lemma blocks_concat:
  assumes f: "blocks_fit p counts inp" and len: "length out = sum_list counts"
    and ok: "\<forall>c < p. block_ok counts inp out c"
  shows "out = concat (map inp [0..<p])"
proof -
  have "c \<le> p \<Longrightarrow> take (sum_list (take c counts)) out = concat (map inp [0..<c])" for c
  proof (induction c)
    case (Suc c)
    then have "c < length counts" using f by (simp add: blocks_fit_def)
    then have "sum_list (take (Suc c) counts) = sum_list (take c counts) + counts ! c"
      by (simp add: take_Suc_conv_app_nth)
    then show ?case using Suc ok by (simp add: take_add block_ok_def)
  qed simp
  from this [of p] show ?thesis using f len by (simp add: blocks_fit_def)
qed

context allgatherv_ring begin

lemma result:
  assumes "coll_reach env (agv_impl p counts) p inp n0 net" "coll_init p n0" "gaspi_env env"
    and f: "blocks_fit p counts inp" and "\<forall>r < p. length (buf n0 r OwnSlot) = counts ! r"
    and r: "r < p" and "phase net r = FINISHED" and len: "length out = sum_list counts"
  shows "agv_copyOut p counts r net out = concat (map inp [0..<p])"
proof -
  have y: "y q = inp q" if "q < p" for q
    using assms(4,5) that two by (simp add: y_def agv_fill_def Let_def blocks_fit_def)
  note fb = finished_blocks [OF assms(1-3) r assms(7)]
  let ?out = "write_at (agv_offsets counts ! r) (take (counts ! r) (inp r)) out"
  note w = write_block [OF f r len]
  have recv: "\<forall>m < M. buf net r (RecvSlot (0 + m)) = inp (mc p (ring_prev p r) m)"
    using fb(2) y r mc_left [OF r] M by simp
  note L = copyOut_loop_blocks [OF f pl.nb(1) [OF r] M_bounds(2) w(1) recv, unfolded Let_def]
  have "agv_copyOut p counts r net out = agv_copyOut_loop p counts (buf net r) 0 (ring_prev p r) (M) ?out"
    using two fb(1) y r by (simp add: agv_copyOut_def Let_def M)
  moreover have "block_ok counts inp (agv_copyOut_loop p counts (buf net r) 0 (ring_prev p r) (M) ?out) c"
    if c: "c < p" for c
  proof -
    have "(\<exists>m < M. c = mc p (ring_prev p r) m) \<or> block_ok counts inp ?out c"
    proof (cases "c = r")
      case False
      have "dist p r c \<noteq> 0" using mc_dist [OF r c] False r by (metis mc_0)
      then have "dist p (ring_prev p r) c < M" using dist_left [OF r c] dist_less [OF r, of c] M by simp
      then show ?thesis using mc_dist [of "ring_prev p r" p c] r c by (metis pl.nb(1))
    qed (use w(2) in simp)
    with L [THEN conjunct2, rule_format, OF c] show ?thesis by blast
  qed
  ultimately show ?thesis using blocks_concat [OF f L [THEN conjunct1]] by metis
qed

end

section \<open>Properties\<close>

definition agv_net0 :: "nat agv_net" where
  "agv_net0 = \<lparr>phase = \<lambda>_. INITIALIZED, ctl = \<lambda>_. 0, buf = \<lambda>r _. replicate (r + 1) 0,
     pend = \<lambda>_. 0, flag = \<lambda>_. False, apend = \<lambda>_. 0, aflag = \<lambda>_. False\<rparr>"

definition agv_inp0 :: "nat \<Rightarrow> nat list" where
  "agv_inp0 r = (if r = 0 then [7] else [10, 20])"

lemma agv_net0_init: "coll_init 2 agv_net0"
  by (simp add: agv_net0_def coll_init_def)

text \<open>
  Property C10. The ring allgatherv completes from every reachable state, whatever the order of
  calls and deliveries so far.
\<close>

theorem allgatherv_ring_completes:
  assumes "2 \<le> p" "coll_init p n0" "gaspi_env env" "gaspi_live env"
    and "coll_reach env (agv_impl p counts) p inp n0 net"
  shows "\<exists>net'. coll_reach env (agv_impl p counts) p inp net net' \<and> (\<forall>r < p. phase net' r = FINISHED)"
proof -
  note P = agv_pipeline [OF assms(1), of counts]
  from ring_pipeline.coll_completes [OF P ring_pipeline.reach_inv [OF P assms(5,2,3)] assms(3,4)]
  show ?thesis unfolding ring_pipeline.all_finished_def [OF P] .
qed

lemma allgatherv_ring_completes_witness:
  "\<exists>net'. coll_reach any_env (agv_impl 2 [1, 2]) 2 agv_inp0 agv_net0 net' \<and> (\<forall>r < 2. phase net' r = FINISHED)"
  using allgatherv_ring_completes [OF _ agv_net0_init any_env_gaspi, of "[1, 2]" agv_inp0 agv_net0] by simp

text \<open>
  Property C9. The ring allgatherv gathers: for blocks of any sizes (empty ones included) a
  finished rank's \<open>copyOut\<close> overwrites the user's buffer with the concatenation of all ranks'
  inputs in rank order.
\<close>

theorem allgatherv_ring_result:
  assumes "2 \<le> p" "coll_init p n0" "gaspi_env env"
    and "length counts = p" "\<forall>r < p. length (inp r) = counts ! r \<and> length (buf n0 r OwnSlot) = counts ! r"
    and "coll_reach env (agv_impl p counts) p inp n0 net" "r < p" "phase net r = FINISHED"
    and "length out = sum_list counts"
  shows "copyOutImpl (agv_impl p counts r) net out = concat (map inp [0..<p])"
proof -
  have L: "allgatherv_ring p (p - 1)" using assms(1) by unfold_locales simp_all
  have "blocks_fit p counts inp" using assms(4,5) by (simp add: blocks_fit_def)
  from allgatherv_ring.result [OF L assms(6,2,3) this _ assms(7-9)] assms(5)
  show ?thesis by (simp add: agv_impl_def)
qed

lemma allgatherv_ring_result_witness:
  "\<exists>net. coll_reach any_env (agv_impl 2 [1, 2]) 2 agv_inp0 agv_net0 net \<and>
     copyOutImpl (agv_impl 2 [1, 2] 0) net [0, 0, 0] = [7, 10, 20]"
proof -
  note P = agv_pipeline [of 2 "[1, 2]", OF order_refl]
  obtain net where n: "coll_reach any_env (agv_impl 2 [1, 2]) 2 agv_inp0 agv_net0 net" "phase net 0 = FINISHED"
    using ring_pipeline.coll_completes [OF P ring_pipeline.inv_init [OF P agv_net0_init] any_env_gaspi]
    unfolding ring_pipeline.all_finished_def [OF P] by fastforce
  have l: "\<forall>r < 2. length (agv_inp0 r) = [1, 2] ! r \<and> length (buf agv_net0 r OwnSlot) = [1, 2] ! r"
    by (auto simp: agv_inp0_def agv_net0_def less_2_cases_iff)
  have "copyOutImpl (agv_impl 2 [1, 2] 0) net [0, 0, 0] = [7, 10, 20]"
    using allgatherv_ring_result [OF _ agv_net0_init any_env_gaspi(1) _ l n(1) _ n(2), of "[0, 0, 0]"]
    by (simp add: agv_inp0_def two_ranks)
  with n(1) show ?thesis by blast
qed

lemma narrow_add: "ucast (x + y :: u64) = (ucast x + ucast y :: 32 word)"
proof -
  have "((a :: int) mod 2 ^ 64 + b mod 2 ^ 64) mod 2 ^ 32 = (a + b) mod 2 ^ 32" for a b
  proof -
    have "(a mod 2 ^ 64 + b mod 2 ^ 64) mod 2 ^ 32 = ((a mod 2 ^ 64) mod 2 ^ 32 + (b mod 2 ^ 64) mod 2 ^ 32) mod 2 ^ 32"
      by (simp only: mod_add_eq)
    also have "\<dots> = (a + b) mod 2 ^ 32" by (simp add: mod_mod_cancel mod_add_eq)
    finally show ?thesis .
  qed
  then show ?thesis by transfer (simp add: take_bit_eq_mod mod_mod_cancel)
qed

lemma narrow_scast: "ucast (scast (a :: 32 word) :: u64) = a"
  by (rule bit_word_eqI) (auto simp: bit_simps)

lemma narrow_of_nat: "ucast (of_nat a :: u64) = (of_nat a :: 32 word)"
  by transfer (simp add: take_bit_eq_mod mod_mod_cancel)

lemma agv_number_elements_word: "agv_number_elements counts = scast (of_nat (sum_list counts) :: 32 word)"
proof -
  have "foldl (\<lambda>(acc :: 32 word) c. ucast (scast acc + (of_nat c :: u64))) acc counts = acc + of_nat (sum_list counts)" for acc
    by (induction counts arbitrary: acc) (simp_all add: narrow_add narrow_scast narrow_of_nat add.assoc)
  then show ?thesis by (simp add: agv_number_elements_def)
qed

lemma scast_small: assumes "n < 2 ^ 31" shows "scast (of_nat n :: 32 word) = (of_nat n :: u64)"
proof -
  have "sint (of_nat n :: 32 word) = int n"
    using assms by (simp add: signed_of_nat signed_take_bit_int_eq_self)
  moreover have "(scast w :: u64) = of_int (sint w)" for w :: "32 word" by transfer simp
  ultimately show ?thesis by (metis of_int_of_nat_eq)
qed

text \<open>
  The element count of an allgatherv (the value of \<open>getOutputCount\<close> and the size of
  the one-rank buffer) is the sum of the counts only below \<open>2 ^ 31\<close>: the accumulator is an
  \<open>int\<close>, so a total of \<open>2 ^ 31\<close> elements is reported as \<open>2 ^ 64 - 2 ^ 31\<close>.
\<close>

theorem allgatherv_count_bounds:
  "(sum_list counts < 2 ^ 31 \<longrightarrow> unat (agv_number_elements counts) = sum_list counts) \<and>
   (sum_list counts = 2 ^ 31 \<longrightarrow> unat (agv_number_elements counts) = 2 ^ 64 - 2 ^ 31)"
proof (intro conjI impI)
  assume "sum_list counts < 2 ^ 31"
  then show "unat (agv_number_elements counts) = sum_list counts"
    by (simp add: agv_number_elements_word scast_small unat_of_nat take_bit_nat_eq_self)
next
  assume "sum_list counts = 2 ^ 31"
  then have "agv_number_elements counts = scast (2147483648 :: 32 word)"
    by (simp add: agv_number_elements_word)
  then show "unat (agv_number_elements counts) = 2 ^ 64 - 2 ^ 31" by simp
qed

lemma allgatherv_count_bounds_witness: "unat (agv_number_elements [3, 4]) = 7"
  using allgatherv_count_bounds [of "[3, 4]"] by simp

text \<open>
  A ring allgatherv must not be reused before the neighbours have copied out: the
  acknowledgement only says that the right neighbour has received everything.  In this schedule
  of two ranks, rank 0 completes, copies out, copies in its second input and starts again while
  rank 1 is still in its first execution; rank 1 then copies out rank 0's second input (2) where
  the first execution's (1) belongs.
\<close>

theorem allgatherv_reuse_race:
  "map_option (\<lambda>(ys, n). map (\<lambda>(r, f). (r, f [0, 0])) ys) (life_run (agv_impl 2 [1, 1]) 2
     [LCopyIn 0 [1], LCopyIn 1 [10], LStart 0, LStart 1, LDeliver (agv_chan 2 0 0), LDeliver (agv_chan 2 1 0),
      LProgress 0, LProgress 1, LDeliverAck (agv_chan 2 0 0), LProgress 0, LCopyOut 0,
      LCopyIn 0 [2], LStart 0, LDeliver (agv_chan 2 0 0), LDeliverAck (agv_chan 2 1 0), LProgress 1, LCopyOut 1]
     (agv_net0\<lparr>buf := \<lambda>_ _. [0]\<rparr>)) =
   Some [(0, [1, 10]), (1, [2, 10])]"
  by (simp add: agv_net0_def agv_impl_def cl_copyIn_def cl_start_def cl_triggerProgress_def cl_copyOut_def
    agv_copyIn_def agv_fill_def agv_start_def agv_trigger_def agv_chan_def agv_copyOut_def agv_is_last_step_def
    ring_prev_def ring_next_def Let_def set_buf_def set_ctl_def set_phase_def initTransfer_def
    checkForCompletion_def checkForTransferAck_def deliver_def deliver_ack_def ackTransfer_def write_at_def
    agv_offsets_def numeral_2_eq_2)

end
