(* ===== verification/Collective_Run.thy ===== *)
theory Collective_Run
  imports Channel_Network Group_Ranks
begin

text \<open>
  What the collectives that use every channel at most once per execution share: the bookkeeping
  of posted requests against what the ranks have sent, received, acknowledged and seen
  acknowledged (\<open>wires\<close>), and the locale \<open>one_execution\<close>, which turns the step-wise facts of one
  collective into the statements about all its runs.
\<close>

section \<open>Ranks\<close>

text \<open>\<open>Rank\<close> holds 16 bits; the argument of its constructor is a \<open>std::size_t\<close> here.\<close>

definition as_rank :: "nat \<Rightarrow> nat" where
  "as_rank n = n mod 2 ^ 16"

lemma as_rank_less: "n < p \<Longrightarrow> p \<le> 2 ^ 16 \<Longrightarrow> as_rank n = n"
  by (simp add: as_rank_def)

section \<open>Channels by identifier\<close>

text \<open>A predicate on identifiers as a predicate on the channels they stand for.\<close>

definition lift :: "'i set \<Rightarrow> ('i \<Rightarrow> 'c) \<Rightarrow> ('i \<Rightarrow> bool) \<Rightarrow> 'c \<Rightarrow> bool" where
  "lift ids f P c \<longleftrightarrow> (\<exists>i \<in> ids. P i \<and> c = f i)"

lemma lift_at: "inj_on f ids \<Longrightarrow> i \<in> ids \<Longrightarrow> lift ids f P (f i) \<longleftrightarrow> P i"
  by (auto simp: lift_def inj_on_def)

lemma lift_cong: "(\<And>i. i \<in> ids \<Longrightarrow> P i = Q i) \<Longrightarrow> lift ids f P = lift ids f Q"
  by (auto simp: lift_def fun_eq_iff)

lemma lift_upd:
  "i \<in> ids \<Longrightarrow> (\<And>j. j \<in> ids \<Longrightarrow> P' j = (P j \<or> j = i)) \<Longrightarrow>
   lift ids f P' = (lift ids f P)(f i := True)"
  by (auto simp: lift_def fun_eq_iff)

section \<open>Requests and notifications of single-use channels\<close>

definition wires ::
  "'l chan set \<Rightarrow> ('l chan \<Rightarrow> bool) \<Rightarrow> ('l chan \<Rightarrow> bool) \<Rightarrow> ('l chan \<Rightarrow> bool) \<Rightarrow> ('l chan \<Rightarrow> bool) \<Rightarrow>
   ('s, 'l, 'v) net \<Rightarrow> bool" where
  "wires C sent rcvd acked seen n \<longleftrightarrow>
     (\<forall>c. (rcvd c \<longrightarrow> sent c) \<and> (seen c \<longrightarrow> acked c) \<and> (sent c \<or> acked c \<longrightarrow> c \<in> C) \<and>
        pend n c + of_bool (flag n c) = of_bool (sent c \<and> \<not> rcvd c) \<and>
        apend n c + of_bool (aflag n c) = (of_bool (acked c \<and> \<not> seen c) :: nat))"

lemma wires_same:
  "wires C S R A B n \<Longrightarrow> pend n' = pend n \<Longrightarrow> flag n' = flag n \<Longrightarrow> apend n' = apend n \<Longrightarrow> aflag n' = aflag n \<Longrightarrow>
   wires C S R A B n'"
  by (simp add: wires_def)

lemma wires_init:
  "coll_init p n \<Longrightarrow> wires C (\<lambda>_. False) (\<lambda>_. False) (\<lambda>_. False) (\<lambda>_. False) n"
  by (simp add: wires_def coll_init_def)

lemma wires_post:
  "wires C S R A B n \<Longrightarrow> c \<in> C \<Longrightarrow> \<not> S c \<Longrightarrow> S' = S(c := True) \<Longrightarrow> wires C S' R A B (initTransfer c n)"
  unfolding wires_def by (intro allI; drule_tac x = ca in spec) (auto simp: cnet)

lemma wires_receive:
  "wires C S R A B n \<Longrightarrow> flag n c \<Longrightarrow> R' = R(c := True) \<Longrightarrow>
   wires C S R' A B (snd (checkForCompletion c n))"
  unfolding wires_def by (intro allI; drule_tac x = ca in spec) (auto simp: cnet of_bool_def split: if_splits)

lemma wires_ack:
  "wires C S R A B n \<Longrightarrow> c \<in> C \<Longrightarrow> \<not> A c \<Longrightarrow> A' = A(c := True) \<Longrightarrow> wires C S R A' B (ackTransfer c n)"
  unfolding wires_def by (intro allI; drule_tac x = ca in spec) (auto simp: cnet)

lemma wires_see:
  "wires C S R A B n \<Longrightarrow> aflag n c \<Longrightarrow> B' = B(c := True) \<Longrightarrow>
   wires C S R A B' (snd (checkForTransferAck c n))"
  unfolding wires_def by (intro allI; drule_tac x = ca in spec) (auto simp: cnet of_bool_def split: if_splits)

lemma wires_deliver: "wires C S R A B n \<Longrightarrow> 0 < pend n c \<Longrightarrow> wires C S R A B (deliver c n)"
  unfolding wires_def by (intro allI; drule_tac x = ca in spec) (auto simp: cnet of_bool_def split: if_splits)

lemma wires_deliver_ack: "wires C S R A B n \<Longrightarrow> 0 < apend n c \<Longrightarrow> wires C S R A B (deliver_ack c n)"
  unfolding wires_def by (intro allI; drule_tac x = ca in spec) (auto simp: cnet of_bool_def split: if_splits)

lemma wires_pend: "wires C S R A B n \<Longrightarrow> 0 < pend n c \<Longrightarrow> c \<in> C \<and> S c \<and> \<not> R c"
  unfolding wires_def by (drule_tac x = c in spec) (auto simp: of_bool_def split: if_splits)

lemma wires_apend: "wires C S R A B n \<Longrightarrow> 0 < apend n c \<Longrightarrow> c \<in> C \<and> A c \<and> \<not> B c"
  unfolding wires_def by (drule_tac x = c in spec) (auto simp: of_bool_def split: if_splits)

lemma wires_flag: "wires C S R A B n \<Longrightarrow> flag n c \<Longrightarrow> c \<in> C \<and> S c \<and> \<not> R c"
  unfolding wires_def by (drule_tac x = c in spec) (auto simp: of_bool_def split: if_splits)

lemma wires_aflag: "wires C S R A B n \<Longrightarrow> aflag n c \<Longrightarrow> c \<in> C \<and> A c \<and> \<not> B c"
  unfolding wires_def by (drule_tac x = c in spec) (auto simp: of_bool_def split: if_splits)

lemma wires_quiet: "wires C S R A B n \<Longrightarrow> pend n c = 0 \<Longrightarrow> S c \<Longrightarrow> flag n c \<or> R c"
  unfolding wires_def by (drule_tac x = c in spec) (auto simp: of_bool_def split: if_splits)

lemma wires_quiet_ack: "wires C S R A B n \<Longrightarrow> apend n c = 0 \<Longrightarrow> A c \<Longrightarrow> aflag n c \<or> B c"
  unfolding wires_def by (drule_tac x = c in spec) (auto simp: of_bool_def split: if_splits)

lemma wires_rcvd: "wires C S R A B n \<Longrightarrow> R c \<Longrightarrow> S c"
  by (simp add: wires_def)

lemma wires_seen: "wires C S R A B n \<Longrightarrow> B c \<Longrightarrow> A c"
  by (simp add: wires_def)

subsection \<open>The same by identifier\<close>

definition wires_ids where
  "wires_ids ids f S R A B n = wires (f ` ids) (lift ids f S) (lift ids f R) (lift ids f A) (lift ids f B) n"

lemma wires_ids_init:
  "coll_init p n \<Longrightarrow> wires_ids ids f (\<lambda>_. False) (\<lambda>_. False) (\<lambda>_. False) (\<lambda>_. False) n"
proof -
  assume "coll_init p n"
  moreover have "lift ids f (\<lambda>_. False) = (\<lambda>_. False)" by (simp add: lift_def fun_eq_iff)
  ultimately show ?thesis using wires_init [of p n "f ` ids"] by (simp add: wires_ids_def)
qed

lemma wires_ids_cong:
  assumes "wires_ids ids f S R A B n"
    "\<And>i. i \<in> ids \<Longrightarrow> S' i = S i" "\<And>i. i \<in> ids \<Longrightarrow> R' i = R i"
    "\<And>i. i \<in> ids \<Longrightarrow> A' i = A i" "\<And>i. i \<in> ids \<Longrightarrow> B' i = B i"
    "pend n' = pend n" "flag n' = flag n" "apend n' = apend n" "aflag n' = aflag n"
  shows "wires_ids ids f S' R' A' B' n'"
proof -
  have "lift ids f S' = lift ids f S" "lift ids f R' = lift ids f R" "lift ids f A' = lift ids f A"
    "lift ids f B' = lift ids f B"
    by (rule lift_cong; use assms in simp)+
  then show ?thesis using assms(1) wires_same [OF _ assms(6-9)] unfolding wires_ids_def by metis
qed

lemma wires_ids_post:
  assumes "wires_ids ids f S R A B n" "inj_on f ids" "i \<in> ids" "\<not> S i"
  shows "wires_ids ids f (S(i := True)) R A B (initTransfer (f i) n)"
proof -
  have "lift ids f (S(i := True)) = (lift ids f S)(f i := True)" by (rule lift_upd) (use assms in auto)
  then show ?thesis using assms wires_post [OF assms(1) [unfolded wires_ids_def], of "f i"]
    by (simp add: wires_ids_def lift_at)
qed

lemma wires_ids_ack:
  assumes "wires_ids ids f S R A B n" "inj_on f ids" "i \<in> ids" "\<not> A i"
  shows "wires_ids ids f S R (A(i := True)) B (ackTransfer (f i) n)"
proof -
  have "lift ids f (A(i := True)) = (lift ids f A)(f i := True)" by (rule lift_upd) (use assms in auto)
  then show ?thesis using assms wires_ack [OF assms(1) [unfolded wires_ids_def], of "f i"]
    by (simp add: wires_ids_def lift_at)
qed

lemma wires_ids_receive:
  assumes "wires_ids ids f S R A B n" "i \<in> ids" "flag n (f i)"
  shows "wires_ids ids f S (R(i := True)) A B (snd (checkForCompletion (f i) n))"
proof -
  have "lift ids f (R(i := True)) = (lift ids f R)(f i := True)" by (rule lift_upd) (use assms in auto)
  then show ?thesis using assms wires_receive [OF assms(1) [unfolded wires_ids_def]]
    by (simp add: wires_ids_def)
qed

lemma wires_ids_see:
  assumes "wires_ids ids f S R A B n" "i \<in> ids" "aflag n (f i)"
  shows "wires_ids ids f S R A (B(i := True)) (snd (checkForTransferAck (f i) n))"
proof -
  have "lift ids f (B(i := True)) = (lift ids f B)(f i := True)" by (rule lift_upd) (use assms in auto)
  then show ?thesis using assms wires_see [OF assms(1) [unfolded wires_ids_def]]
    by (simp add: wires_ids_def)
qed

lemma wires_ids_state:
  assumes w: "wires_ids ids f S R A B n" and f: "inj_on f ids" "i \<in> ids"
  shows "0 < pend n (f i) \<or> flag n (f i) \<Longrightarrow> S i \<and> \<not> R i" "0 < apend n (f i) \<or> aflag n (f i) \<Longrightarrow> A i \<and> \<not> B i"
    "pend n (f i) = 0 \<Longrightarrow> S i \<Longrightarrow> \<not> R i \<Longrightarrow> flag n (f i)"
    "apend n (f i) = 0 \<Longrightarrow> A i \<Longrightarrow> \<not> B i \<Longrightarrow> aflag n (f i)"
    "R i \<Longrightarrow> S i" "B i \<Longrightarrow> A i"
proof -
  note W = w [unfolded wires_ids_def]
  have at: "lift ids f P (f i) = P i" for P by (rule lift_at [OF f])
  show "0 < pend n (f i) \<or> flag n (f i) \<Longrightarrow> S i \<and> \<not> R i"
    using wires_pend [OF W, of "f i"] wires_flag [OF W, of "f i"] by (auto simp: at)
  show "0 < apend n (f i) \<or> aflag n (f i) \<Longrightarrow> A i \<and> \<not> B i"
    using wires_apend [OF W, of "f i"] wires_aflag [OF W, of "f i"] by (auto simp: at)
  show "pend n (f i) = 0 \<Longrightarrow> S i \<Longrightarrow> \<not> R i \<Longrightarrow> flag n (f i)"
    using wires_quiet [OF W, of "f i"] by (auto simp: at)
  show "apend n (f i) = 0 \<Longrightarrow> A i \<Longrightarrow> \<not> B i \<Longrightarrow> aflag n (f i)"
    using wires_quiet_ack [OF W, of "f i"] by (auto simp: at)
  show "R i \<Longrightarrow> S i" using wires_rcvd [OF W, of "f i"] by (simp add: at)
  show "B i \<Longrightarrow> A i" using wires_seen [OF W, of "f i"] by (simp add: at)
qed

lemma wires_ids_source:
  assumes "wires_ids ids f S R A B n" "0 < pend n c \<or> 0 < apend n c"
  shows "\<exists>i \<in> ids. c = f i"
proof -
  note W = assms(1) [unfolded wires_ids_def]
  have "c \<in> f ` ids" using assms(2) wires_pend [OF W, of c] wires_apend [OF W, of c] by blast
  then show ?thesis by blast
qed

section \<open>Work still to be done\<close>

definition posted :: "'l chan set \<Rightarrow> ('s, 'l, 'v) net \<Rightarrow> nat" where
  "posted C n = (\<Sum>c \<in> C. pend n c + apend n c)"

lemma posted_same: "pend n' = pend n \<Longrightarrow> apend n' = apend n \<Longrightarrow> posted C n' = posted C n"
  by (simp add: posted_def)

lemma posted_initTransfer: "finite C \<Longrightarrow> c \<in> C \<Longrightarrow> posted C (initTransfer c n) = posted C n + 1"
  using sum_change [of C c "\<lambda>c. pend n c + apend n c"
      "\<lambda>d. pend (initTransfer c n) d + apend (initTransfer c n) d"]
  by (simp add: posted_def cnet)

lemma posted_ackTransfer: "finite C \<Longrightarrow> c \<in> C \<Longrightarrow> posted C (ackTransfer c n) = posted C n + 1"
  using sum_change [of C c "\<lambda>c. pend n c + apend n c"
      "\<lambda>d. pend (ackTransfer c n) d + apend (ackTransfer c n) d"]
  by (simp add: posted_def cnet)

lemma posted_deliver: "finite C \<Longrightarrow> c \<in> C \<Longrightarrow> 0 < pend n c \<Longrightarrow> posted C (deliver c n) + 1 = posted C n"
  using sum_change [of C c "\<lambda>c. pend n c + apend n c" "\<lambda>d. pend (deliver c n) d + apend (deliver c n) d"]
  by (simp add: posted_def cnet)

lemma posted_deliver_ack: "finite C \<Longrightarrow> c \<in> C \<Longrightarrow> 0 < apend n c \<Longrightarrow> posted C (deliver_ack c n) + 1 = posted C n"
  using sum_change [of C c "\<lambda>c. pend n c + apend n c" "\<lambda>d. pend (deliver_ack c n) d + apend (deliver_ack c n) d"]
  by (simp add: posted_def cnet)

definition ranks_work :: "nat \<Rightarrow> (cl_state \<Rightarrow> 's \<Rightarrow> nat) \<Rightarrow> ('s, 'l, 'v) net \<Rightarrow> nat" where
  "ranks_work p w n = (\<Sum>r < p. w (phase n r) (ctl n r))"

lemma ranks_work_change:
  assumes "r < p" "\<And>q. q \<noteq> r \<Longrightarrow> phase n' q = phase n q" "\<And>q. q \<noteq> r \<Longrightarrow> ctl n' q = ctl n q"
  shows "ranks_work p w n' + w (phase n r) (ctl n r) = ranks_work p w n + w (phase n' r) (ctl n' r)"
  unfolding ranks_work_def by (rule sum_change) (use assms in auto)

lemma ranks_work_same: "phase n' = phase n \<Longrightarrow> ctl n' = ctl n \<Longrightarrow> ranks_work p w n' = ranks_work p w n"
  by (simp add: ranks_work_def)

section \<open>One execution\<close>

definition trigger_result :: "(('s, 'l, 'v) net, 'i, 'o) coll_impl \<Rightarrow> nat \<Rightarrow> ('s, 'l, 'v) net \<Rightarrow> ('s, 'l, 'v) net" where
  "trigger_result impl r n =
     set_phase r (if fst (triggerProgressImpl impl n) then FINISHED else RUNNING, snd (triggerProgressImpl impl n))"

definition finished_all :: "nat \<Rightarrow> ('s, 'l, 'v) net \<Rightarrow> bool" where
  "finished_all p n \<longleftrightarrow> (\<forall>r < p. phase n r = FINISHED)"

text \<open>The contract of a collective's \<open>...Impl\<close> functions for one execution, with its invariant
  and a measure of the work left.\<close>

locale one_execution =
  fixes p :: nat and I :: "nat \<Rightarrow> (('s, 'l, 'v) net, 'i, 'o) coll_impl" and inp :: "nat \<Rightarrow> 'i"
    and ok :: bool and Inv :: "('s, 'l, 'v) net \<Rightarrow> bool" and work_left :: "('s, 'l, 'v) net \<Rightarrow> nat"
  assumes inv_init: "ok \<Longrightarrow> coll_init p n \<Longrightarrow> Inv n"
    and no_uninit: "Inv n \<Longrightarrow> r < p \<Longrightarrow> phase n r \<noteq> UNINITIALIZED"
    and copyIn_ok: "Inv n \<Longrightarrow> r < p \<Longrightarrow> phase n r = INITIALIZED \<Longrightarrow>
      n' = set_phase r (READY, copyInImpl (I r) (inp r) n) \<Longrightarrow> Inv n' \<and> work_left n' < work_left n"
    and start_ok: "Inv n \<Longrightarrow> r < p \<Longrightarrow> phase n r = READY \<Longrightarrow>
      n' = set_phase r (RUNNING, startImpl (I r) n) \<Longrightarrow> Inv n' \<and> work_left n' < work_left n"
    and trigger_ok: "Inv n \<Longrightarrow> r < p \<Longrightarrow> phase n r = RUNNING \<Longrightarrow> n' = trigger_result (I r) r n \<Longrightarrow>
      n' \<noteq> n \<Longrightarrow> Inv n' \<and> work_left n' < work_left n"
    and deliver_ok: "Inv n \<Longrightarrow> 0 < pend n c \<Longrightarrow> Inv (deliver c n) \<and> work_left (deliver c n) < work_left n"
    and deliver_ack_ok: "Inv n \<Longrightarrow> 0 < apend n c \<Longrightarrow>
      Inv (deliver_ack c n) \<and> work_left (deliver_ack c n) < work_left n"
    and can_move: "Inv n \<Longrightarrow> \<forall>r < p. phase n r = RUNNING \<or> phase n r = FINISHED \<Longrightarrow>
      \<forall>c. pend n c = 0 \<and> apend n c = 0 \<Longrightarrow> \<not> finished_all p n \<Longrightarrow>
      \<exists>r < p. phase n r = RUNNING \<and> trigger_result (I r) r n \<noteq> n"
begin

lemma step_ok:
  assumes "coll_step env I p inp n n'" "Inv n" "gaspi_env env"
  shows "n' = n \<or> Inv n' \<and> work_left n' < work_left n"
  using assms(1)
proof cases
  case (copyIn r s)
  then show ?thesis using copyIn_ok [OF assms(2) copyIn(2)]
    by (auto simp: cl_copyIn_def split: if_splits)
next
  case (start r s)
  then show ?thesis using start_ok [OF assms(2) start(2)]
    by (auto simp: cl_start_def split: if_splits)
next
  case (progress r lock b s)
  show ?thesis
  proof (cases "lock \<and> phase n r = RUNNING")
    case False
    then have "s = (phase n r, n)" using progress by (auto simp: cl_triggerProgress_def split: if_splits)
    then show ?thesis using progress by (simp add: set_phase_same)
  next
    case True
    then have "n' = trigger_result (I r) r n"
      using progress by (auto simp: cl_triggerProgress_def trigger_result_def split: prod.splits if_splits)
    then show ?thesis using trigger_ok [OF assms(2) progress(2)] True by blast
  qed
next
  case transfer
  with assms(3) have "(\<exists>c. 0 < pend n c \<and> n' = deliver c n) \<or> (\<exists>c. 0 < apend n c \<and> n' = deliver_ack c n)"
    unfolding gaspi_env_def by blast
  then show ?thesis using deliver_ok deliver_ack_ok assms(2) by blast
qed

lemma reach_inv:
  "coll_reach env I p inp n0 n \<Longrightarrow> ok \<Longrightarrow> coll_init p n0 \<Longrightarrow> gaspi_env env \<Longrightarrow> Inv n"
  by (induction rule: rtranclp_induct) (use inv_init step_ok in blast)+

lemma enabled:
  assumes "Inv n" "gaspi_live env" "\<not> finished_all p n"
  shows "\<exists>n'. coll_step env I p inp n n' \<and> n' \<noteq> n"
proof -
  consider r where "r < p" "phase n r = INITIALIZED" | r where "r < p" "phase n r = READY"
    | c where "0 < pend n c" | c where "0 < apend n c"
    | "\<forall>r < p. phase n r = RUNNING \<or> phase n r = FINISHED" "\<forall>c. pend n c = 0 \<and> apend n c = 0"
    using no_uninit [OF assms(1)] by (meson cl_state.exhaust not_gr0)
  then show ?thesis
  proof cases
    case (1 r)
    have "coll_step env I p inp n (set_phase r (READY, copyInImpl (I r) (inp r) n))"
      by (rule coll_step.copyIn) (use 1 in \<open>simp_all add: cl_copyIn_def\<close>)
    with copyIn_ok [OF assms(1) 1 refl] show ?thesis by (metis less_irrefl)
  next
    case (2 r)
    have "coll_step env I p inp n (set_phase r (RUNNING, startImpl (I r) n))"
      by (rule coll_step.start) (use 2 in \<open>simp_all add: cl_start_def\<close>)
    with start_ok [OF assms(1) 2 refl] show ?thesis by (metis less_irrefl)
  next
    case (3 c)
    then have "coll_step env I p inp n (deliver c n)"
      using assms(2) by (auto simp: gaspi_live_def intro: coll_step.transfer)
    with deliver_ok [OF assms(1) 3] show ?thesis by (metis less_irrefl)
  next
    case (4 c)
    then have "coll_step env I p inp n (deliver_ack c n)"
      using assms(2) by (auto simp: gaspi_live_def intro: coll_step.transfer)
    with deliver_ack_ok [OF assms(1) 4] show ?thesis by (metis less_irrefl)
  next
    case 5
    from can_move [OF assms(1) 5 assms(3)] obtain r where
      r: "r < p" "phase n r = RUNNING" "trigger_result (I r) r n \<noteq> n" by blast
    have "coll_step env I p inp n (trigger_result (I r) r n)"
      unfolding trigger_result_def
      by (rule coll_step.progress [where lock = True and b = "fst (triggerProgressImpl (I r) n)"])
        (use r in \<open>simp_all add: cl_triggerProgress_def split: prod.splits\<close>)
    with r(3) show ?thesis by blast
  qed
qed

theorem completes:
  assumes "Inv n" "gaspi_env env" "gaspi_live env"
  shows "\<exists>n'. coll_reach env I p inp n n' \<and> finished_all p n'"
  using assms(1)
proof (induction "work_left n" arbitrary: n rule: less_induct)
  case less
  show ?case
  proof (cases "finished_all p n")
    case False
    from enabled [OF less(2) assms(3) False] obtain n1 where n1: "coll_step env I p inp n n1" "n1 \<noteq> n" by blast
    with step_ok [OF n1(1) less(2) assms(2)] less(1)
    obtain n' where "coll_reach env I p inp n1 n'" "finished_all p n'" by blast
    with n1(1) show ?thesis by (meson converse_rtranclp_into_rtranclp)
  qed blast
qed

lemma reach_completes:
  "coll_reach env I p inp n0 n \<Longrightarrow> ok \<Longrightarrow> coll_init p n0 \<Longrightarrow> gaspi_env env \<Longrightarrow> gaspi_live env \<Longrightarrow>
   \<exists>n'. coll_reach env I p inp n n' \<and> finished_all p n'"
  by (rule completes [OF reach_inv])

end

end
