(* ===== verification/Broadcast_Linear.thy ===== *)
theory Broadcast_Linear
  imports Collective_Run
begin

text \<open>
  \<open>BroadcastBasicLinear.hpp\<close>: the root's block travels along the chain of ranks that starts at the
  root; only the last but one rank waits for an acknowledgement.
\<close>

section \<open>The object of a rank\<close>

definition rank_after_first :: "nat \<Rightarrow> nat \<Rightarrow> nat \<Rightarrow> nat" where
  "rank_after_first p first r = as_rank ((p + r - first) mod p)"

definition second_last :: "nat \<Rightarrow> nat \<Rightarrow> nat" where
  "second_last p first = as_rank ((p + first - 2) mod p)"

definition last_rank :: "nat \<Rightarrow> nat \<Rightarrow> nat" where
  "last_rank p first = as_rank ((p + first - 1) mod p)"

definition left_neighbour :: "nat \<Rightarrow> nat \<Rightarrow> nat" where
  "left_neighbour p r = as_rank ((p + r - 1) mod p)"

definition right_neighbour :: "nat \<Rightarrow> nat \<Rightarrow> nat" where
  "right_neighbour p r = as_rank ((p + r + 1) mod p)"

text \<open>
  \<open>BlSource\<close> is the memory allocated by \<open>source_buffer\<close> on the root, \<open>BlTarget\<close> that of
  \<open>target_buffer\<close>, which the forwarding \<open>source_buffer\<close> of an inner rank shares.
\<close>

datatype bl_slot = BlSource | BlTarget

type_synonym 'a bl_net = "(nat, bl_slot, 'a list) net"

definition bl_source_slot :: "nat \<Rightarrow> nat \<Rightarrow> bl_slot" where
  "bl_source_slot first r = (if r = first then BlSource else BlTarget)"

definition bl_chan :: "nat \<Rightarrow> nat \<Rightarrow> nat \<Rightarrow> bl_slot chan" where
  "bl_chan p first r = \<lparr>c_src = r, c_sslot = bl_source_slot first r, c_dst = right_neighbour p r,
     c_dslot = BlTarget, c_tag = right_neighbour p r\<rparr>"

definition bl_connections :: "nat \<Rightarrow> nat \<Rightarrow> nat \<Rightarrow> nat \<Rightarrow> bl_slot endpoint list" where
  "bl_connections p number_elements first r =
     (if number_elements = 0 then []
      else if p = 1 then []
      else
        (if r = first
         then [\<lparr>ep_source = True, ep_slot = BlSource, ep_partner = right_neighbour p r, ep_tag = right_neighbour p r\<rparr>]
         else []) @
        (if r \<noteq> first
         then [\<lparr>ep_source = False, ep_slot = BlTarget, ep_partner = left_neighbour p r, ep_tag = r\<rparr>]
         else []) @
        (if r \<noteq> first \<and> r \<noteq> last_rank p first
         then [\<lparr>ep_source = True, ep_slot = BlTarget, ep_partner = right_neighbour p r, ep_tag = right_neighbour p r\<rparr>]
         else []))"

definition bl_construct :: "group \<Rightarrow> nat \<Rightarrow> rank \<Rightarrow> bl_slot endpoint list res" where
  "bl_construct g number_elements root =
     (if \<not> contains_rank g root
      then Inl (LogicError ''BroadcastLowLevel<T, BroadcastAlgorithm::BASIC_LINEAR>: `group` must contain `root`'')
      else Inr (bl_connections (g_size g) number_elements (unat (get root)) (unat (get (g_rank g)))))"

definition bl_start :: "nat \<Rightarrow> nat \<Rightarrow> nat \<Rightarrow> nat \<Rightarrow> 'a bl_net \<Rightarrow> 'a bl_net" where
  "bl_start p number_elements first r net =
     (if p = 1 \<or> number_elements = 0 then net
      else
        let net1 = set_ctl r 0 net;
            net2 = (if r = first then initTransfer (bl_chan p first r) net1 else net1)
        in set_ctl r (ctl net2 r + 1) net2)"

definition bl_trigger :: "nat \<Rightarrow> nat \<Rightarrow> nat \<Rightarrow> nat \<Rightarrow> 'a bl_net \<Rightarrow> bool \<times> 'a bl_net" where
  "bl_trigger p number_elements first r net =
     (if p = 1 \<or> number_elements = 0 then (True, net)
      else
        let iteration = ctl net r; last_iteration = p in
        if iteration = last_iteration
        then if r = second_last p first then checkForTransferAck (bl_chan p first r) net else (True, net)
        else if rank_after_first p first r = as_rank iteration then
          let left = bl_chan p first (left_neighbour p r) in
          case checkForCompletion left net of
            (made_progress, net1) \<Rightarrow>
              if \<not> made_progress then (False, net1)
              else
                let net2 = (if r \<noteq> last_rank p first then initTransfer (bl_chan p first r) net1
                            else ackTransfer left net1)
                in (False, set_ctl r (iteration + 1) net2)
        else (False, set_ctl r (iteration + 1) net))"

definition bl_copyIn :: "nat \<Rightarrow> nat \<Rightarrow> nat \<Rightarrow> 'a list \<Rightarrow> 'a bl_net \<Rightarrow> 'a bl_net" where
  "bl_copyIn number_elements first r inputs net =
     (if number_elements = 0 then net
      else if r = first then set_buf r ((buf net r)(BlSource := take number_elements inputs)) net
      else net)"

definition bl_copyOut :: "nat \<Rightarrow> nat \<Rightarrow> nat \<Rightarrow> 'a bl_net \<Rightarrow> 'a list \<Rightarrow> 'a list" where
  "bl_copyOut number_elements first r net out =
     (if number_elements = 0 then out
      else if r = first then write_at 0 (buf net r BlSource) out
      else write_at 0 (buf net r BlTarget) out)"

definition bl_impl :: "nat \<Rightarrow> nat \<Rightarrow> nat \<Rightarrow> nat \<Rightarrow> ('a bl_net, 'a list, 'a list \<Rightarrow> 'a list) coll_impl" where
  "bl_impl p n first r =
     \<lparr>waitForSetupImpl = (\<lambda>net. net), copyInImpl = bl_copyIn n first r, startImpl = bl_start p n first r,
      triggerProgressImpl = bl_trigger p n first r, copyOutImpl = bl_copyOut n first r\<rparr>"

section \<open>The chain\<close>

definition bl_ok :: "nat \<Rightarrow> nat \<Rightarrow> nat \<Rightarrow> bool" where
  "bl_ok p n first \<longleftrightarrow> 2 \<le> p \<and> p \<le> 2 ^ 16 \<and> first < p \<and> 0 < n"

text \<open>The rank at position \<open>k\<close> of the chain.\<close>

definition rk :: "nat \<Rightarrow> nat \<Rightarrow> nat \<Rightarrow> nat" where
  "rk p first k = (first + k) mod p"

lemma rk_alt: "first < p \<Longrightarrow> k < p \<Longrightarrow> rk p first k = (if first + k < p then first + k else first + k - p)"
  by (simp add: rk_def mod_if)

lemma rk_less: "first < p \<Longrightarrow> rk p first k < p"
  by (simp add: rk_def)

lemma rk_eq: "first < p \<Longrightarrow> j < p \<Longrightarrow> k < p \<Longrightarrow> rk p first j = rk p first k \<longleftrightarrow> j = k"
  by (auto simp: rk_alt)

lemma rk_onto: "first < p \<Longrightarrow> r < p \<Longrightarrow> \<exists>k < p. r = rk p first k"
  by (rule exI [of _ "if first \<le> r then r - first else p + r - first"]) (auto simp: rk_alt)

lemma rk_first: "first < p \<Longrightarrow> k < p \<Longrightarrow> rk p first k = first \<longleftrightarrow> k = 0"
  by (auto simp: rk_alt)

lemma rk_0: "first < p \<Longrightarrow> rk p first 0 = first"
  by (simp add: rk_def)

lemma mod_once: "(a::nat) < 2 * p \<Longrightarrow> a mod p = (if a < p then a else a - p)"
  by (auto simp: mod_if)

lemma bl_ranks:
  assumes ok: "bl_ok p n first" and k: "k < p"
  shows "rank_after_first p first (rk p first k) = k"
    and "second_last p first = rk p first (p - 2)"
    and "last_rank p first = rk p first (p - 1)"
    and "k + 1 < p \<Longrightarrow> right_neighbour p (rk p first k) = rk p first (k + 1)"
    and "0 < k \<Longrightarrow> left_neighbour p (rk p first k) = rk p first (k - 1)"
    and "k < p \<Longrightarrow> as_rank k = k"
proof -
  have p: "0 < p" "p \<le> 2 ^ 16" "first < p" "2 \<le> p" using ok by (auto simp: bl_ok_def)
  have a: "as_rank (x mod p) = x mod p" for x by (rule as_rank_less [of _ p]) (use p in simp_all)
  show "rank_after_first p first (rk p first k) = k"
    unfolding rank_after_first_def a using p k by (subst mod_once) (auto simp: rk_alt)
  show "second_last p first = rk p first (p - 2)"
    unfolding second_last_def a rk_def using p by (simp add: algebra_simps)
  show "last_rank p first = rk p first (p - 1)"
    unfolding last_rank_def a rk_def using p by (simp add: algebra_simps)
  show "k + 1 < p \<Longrightarrow> right_neighbour p (rk p first k) = rk p first (k + 1)"
    unfolding right_neighbour_def a add.assoc mod_add_self1 rk_def by (simp add: mod_Suc_eq)
  show "0 < k \<Longrightarrow> left_neighbour p (rk p first k) = rk p first (k - 1)"
    unfolding left_neighbour_def a using p k by (subst mod_once) (auto simp: rk_alt)
  show "k < p \<Longrightarrow> as_rank k = k" using p by (simp add: as_rank_less)
qed

abbreviation ch :: "nat \<Rightarrow> nat \<Rightarrow> nat \<Rightarrow> bl_slot chan" where
  "ch p first k \<equiv> bl_chan p first (rk p first k)"

lemma ch_eq: "bl_ok p n first \<Longrightarrow> j < p \<Longrightarrow> k < p \<Longrightarrow> ch p first j = ch p first k \<longleftrightarrow> j = k"
  by (auto simp: bl_chan_def bl_ok_def rk_eq)

section \<open>The invariant\<close>

text \<open>Position \<open>k\<close> has done its part: sent on what it received, or acknowledged it.\<close>

definition did :: "nat \<Rightarrow> nat \<Rightarrow> 'a bl_net \<Rightarrow> nat \<Rightarrow> bool" where
  "did p first net k \<longleftrightarrow> k < p \<and> (phase net (rk p first k) = RUNNING \<or> phase net (rk p first k) = FINISHED) \<and>
     k < ctl net (rk p first k)"

definition bl_chans :: "nat \<Rightarrow> nat \<Rightarrow> bl_slot chan set" where
  "bl_chans p first = ch p first ` {..<p - 1}"

definition bl_sent :: "nat \<Rightarrow> nat \<Rightarrow> (nat \<Rightarrow> bool) \<Rightarrow> bl_slot chan \<Rightarrow> bool" where
  "bl_sent p first D c \<longleftrightarrow> (\<exists>k. k + 1 < p \<and> D k \<and> c = ch p first k)"

definition bl_rcvd :: "nat \<Rightarrow> nat \<Rightarrow> (nat \<Rightarrow> bool) \<Rightarrow> bl_slot chan \<Rightarrow> bool" where
  "bl_rcvd p first D c \<longleftrightarrow> (\<exists>k. k + 1 < p \<and> D (k + 1) \<and> c = ch p first k)"

definition bl_last :: "nat \<Rightarrow> nat \<Rightarrow> bool \<Rightarrow> bl_slot chan \<Rightarrow> bool" where
  "bl_last p first b c \<longleftrightarrow> b \<and> c = ch p first (p - 2)"

definition bl_wires :: "nat \<Rightarrow> nat \<Rightarrow> (nat \<Rightarrow> bool) \<Rightarrow> bool \<Rightarrow> 'a bl_net \<Rightarrow> bool" where
  "bl_wires p first D fin net = wires (bl_chans p first) (bl_sent p first D) (bl_rcvd p first D)
     (bl_last p first (D (p - 1))) (bl_last p first fin) net"

definition bl_data :: "nat \<Rightarrow> nat \<Rightarrow> 'a list \<Rightarrow> 'a bl_net \<Rightarrow> bool" where
  "bl_data p first x net \<longleftrightarrow>
     (phase net first \<noteq> INITIALIZED \<longrightarrow> buf net first BlSource = x) \<and>
     (\<forall>k. k + 1 < p \<and> (flag net (ch p first k) \<or> did p first net (k + 1)) \<longrightarrow>
        buf net (rk p first (k + 1)) BlTarget = x)"

definition bl_inv :: "nat \<Rightarrow> nat \<Rightarrow> nat \<Rightarrow> 'a list \<Rightarrow> 'a bl_net \<Rightarrow> bool" where
  "bl_inv p n first x net \<longleftrightarrow> bl_ok p n first \<and>
     (\<forall>k < p. phase net (rk p first k) \<noteq> UNINITIALIZED \<and>
        (phase net (rk p first k) = RUNNING \<longrightarrow> 0 < ctl net (rk p first k) \<and> ctl net (rk p first k) \<le> p) \<and>
        (phase net (rk p first k) = FINISHED \<longrightarrow> ctl net (rk p first k) = p)) \<and>
     bl_wires p first (did p first net) (phase net (rk p first (p - 2)) = FINISHED) net \<and>
     bl_data p first x net"

definition bl_work :: "nat \<Rightarrow> cl_state \<Rightarrow> nat \<Rightarrow> nat" where
  "bl_work p st i = (case st of RUNNING \<Rightarrow> 2 * (p - i) + 1 | FINISHED \<Rightarrow> 0 | READY \<Rightarrow> 2 * p + 3 | _ \<Rightarrow> 2 * p + 4)"

definition bl_left :: "nat \<Rightarrow> nat \<Rightarrow> 'a bl_net \<Rightarrow> nat" where
  "bl_left p first net = ranks_work p (bl_work p) net + posted (bl_chans p first) net"

lemma bl_sent_upd:
  "bl_ok p n first \<Longrightarrow> j < p \<Longrightarrow> bl_sent p first (D(j := True)) =
     (if j + 1 < p then (bl_sent p first D)(ch p first j := True) else bl_sent p first D)"
  unfolding bl_sent_def by (auto simp: fun_eq_iff)

lemma bl_rcvd_upd:
  "bl_ok p n first \<Longrightarrow> j < p \<Longrightarrow> bl_rcvd p first (D(j := True)) =
     (if 0 < j then (bl_rcvd p first D)(ch p first (j - 1) := True) else bl_rcvd p first D)"
  unfolding bl_rcvd_def by (rule ext) (cases j; auto; metis)

lemma bl_sent_ch: "bl_ok p n first \<Longrightarrow> k + 1 < p \<Longrightarrow> bl_sent p first D (ch p first k) = D k"
  unfolding bl_sent_def using ch_eq by (metis add_lessD1)

lemma bl_rcvd_ch: "bl_ok p n first \<Longrightarrow> k + 1 < p \<Longrightarrow> bl_rcvd p first D (ch p first k) = D (k + 1)"
  unfolding bl_rcvd_def using ch_eq by (metis add_lessD1)

lemma bl_chans_fin: "finite (bl_chans p first)"
  by (simp add: bl_chans_def)

lemma bl_chans_in: "k + 1 < p \<Longrightarrow> ch p first k \<in> bl_chans p first"
  by (auto simp: bl_chans_def)

lemma bl_did_upd:
  assumes "bl_ok p n first" "k < p" "phase net' = (phase net)(rk p first k := st)"
    "ctl net' = (ctl net)(rk p first k := i)" "st = RUNNING \<or> st = FINISHED"
  shows "did p first net' = (did p first net)(k := k < i)"
  using assms by (auto simp: did_def fun_eq_iff rk_eq bl_ok_def)

lemma bl_inv_update:
  assumes i: "bl_inv p n first x net" and k: "k < p"
    and e: "phase net' = (phase net)(rk p first k := st)" "ctl net' = (ctl net)(rk p first k := i)"
    and st: "st = RUNNING \<Longrightarrow> 0 < i \<and> i \<le> p" "st = FINISHED \<Longrightarrow> i = p" "st \<noteq> UNINITIALIZED"
    and w: "bl_wires p first (did p first net') (phase net' (rk p first (p - 2)) = FINISHED) net'"
    and d: "bl_data p first x net'"
  shows "bl_inv p n first x net'"
  using assms by (auto simp: bl_inv_def rk_eq bl_ok_def)

section \<open>Every step keeps the invariant and leaves less work\<close>

lemma bl_work_change:
  assumes "k < p" "bl_ok p n first" "phase net' = (phase net)(rk p first k := st)" "ctl net' = (ctl net)(rk p first k := i)"
    and "posted (bl_chans p first) net' \<le> posted (bl_chans p first) net + d"
    and "bl_work p st i + d < bl_work p (phase net (rk p first k)) (ctl net (rk p first k))"
  shows "bl_left p first net' < bl_left p first net"
proof -
  have "rk p first k < p" using assms by (simp add: bl_ok_def rk_less)
  from ranks_work_change [OF this, of net' net "bl_work p"] assms show ?thesis
    by (simp add: bl_left_def)
qed

lemma bl_did_ctl: "bl_inv p n first x net \<Longrightarrow> k < p \<Longrightarrow> phase net (rk p first k) = RUNNING \<Longrightarrow>
    did p first net k \<longleftrightarrow> k < ctl net (rk p first k)"
  by (simp add: did_def)

lemma bl_copyIn_ok:
  assumes i: "bl_inv p n first (take n (inp first)) net" and k: "k < p" and ph: "phase net (rk p first k) = INITIALIZED"
    and n': "net' = set_phase (rk p first k) (READY, bl_copyIn n first (rk p first k) (inp (rk p first k)) net)"
  shows "bl_inv p n first (take n (inp first)) net' \<and> bl_left p first net' < bl_left p first net"
proof -
  let ?r = "rk p first k"
  have ok: "bl_ok p n first" using i by (simp add: bl_inv_def)
  then have n: "n \<noteq> 0" by (simp add: bl_ok_def)
  have f: "phase net' = (phase net)(?r := READY)" "ctl net' = (ctl net)(?r := ctl net ?r)" "pend net' = pend net"
    "flag net' = flag net" "apend net' = apend net" "aflag net' = aflag net"
    "\<And>q s. s \<noteq> BlSource \<or> q \<noteq> first \<Longrightarrow> buf net' q s = buf net q s"
    "?r = first \<Longrightarrow> buf net' first BlSource = take n (inp first)"
    "?r \<noteq> first \<Longrightarrow> buf net' first BlSource = buf net first BlSource"
    using n by (auto simp: n' bl_copyIn_def cnet)
  have did: "did p first net' = did p first net"
    using ph ok k by (auto simp: did_def fun_eq_iff f rk_eq bl_ok_def)
  have "bl_wires p first (did p first net') (phase net' (rk p first (p - 2)) = FINISHED) net'"
  proof -
    have fin: "(phase net' (rk p first (p - 2)) = FINISHED) = (phase net (rk p first (p - 2)) = FINISHED)"
      using ph by (auto simp: f)
    show ?thesis unfolding did fin bl_wires_def
      by (rule wires_same [where n = net]) (use i in \<open>simp_all add: f bl_inv_def bl_wires_def\<close>)
  qed
  moreover have "bl_data p first (take n (inp first)) net'"
  proof -
    have t: "buf net' q BlTarget = buf net q BlTarget" for q by (rule f(7)) simp
    have d: "bl_data p first (take n (inp first)) net" using i by (simp add: bl_inv_def)
    have "buf net' first BlSource = take n (inp first)" if "phase net' first \<noteq> INITIALIZED"
      using that d f(8,9) by (cases "?r = first") (simp_all add: f(1) bl_data_def)
    with d show ?thesis unfolding bl_data_def did f(4) t by blast
  qed
  ultimately have "bl_inv p n first (take n (inp first)) net'"
    using bl_inv_update [OF i k f(1,2)] by simp
  moreover have "bl_left p first net' < bl_left p first net"
    by (rule bl_work_change [OF k ok f(1,2), of 0]) (simp_all add: posted_same [OF f(3,5)] ph bl_work_def)
  ultimately show ?thesis by blast
qed

lemma bl_start_ok:
  assumes i: "bl_inv p n first x net" and k: "k < p" and ph: "phase net (rk p first k) = READY"
    and n': "net' = set_phase (rk p first k) (RUNNING, bl_start p n first (rk p first k) net)"
  shows "bl_inv p n first x net' \<and> bl_left p first net' < bl_left p first net"
proof -
  let ?r = "rk p first k"
  have ok: "bl_ok p n first" using i by (simp add: bl_inv_def)
  then have p: "n \<noteq> 0" "2 \<le> p" "first < p" by (simp_all add: bl_ok_def)
  define mid where "mid = (if k = 0 then initTransfer (ch p first k) net else net)"
  have "ctl (initTransfer c (set_ctl ?r 0 net)) ?r = 0" "ctl (set_ctl ?r 0 net) ?r = 0" for c by (simp_all add: cnet)
  then have st: "bl_start p n first ?r net =
      set_ctl ?r 1 (if k = 0 then initTransfer (ch p first k) (set_ctl ?r 0 net) else set_ctl ?r 0 net)"
    using p k by (simp add: bl_start_def rk_first Let_def cnet)
  have f: "phase net' = (phase net)(?r := RUNNING)" "ctl net' = (ctl net)(?r := 1)" "pend net' = pend mid"
    "flag net' = flag mid" "apend net' = apend mid" "aflag net' = aflag mid" "buf net' = buf net" "flag mid = flag net"
    unfolding n' st mid_def by (cases "k = 0"; simp add: cnet)+
  have nd: "\<not> did p first net k" using ph by (simp add: did_def)
  have did: "did p first net' = (if k = 0 then (did p first net)(k := True) else did p first net)"
    using bl_did_upd [OF ok k f(1,2)] nd by (auto simp: fun_eq_iff)
  have w0: "wires (bl_chans p first) (bl_sent p first (did p first net)) (bl_rcvd p first (did p first net))
     (bl_last p first (did p first net (p - 1))) (bl_last p first (phase net (rk p first (p - 2)) = FINISHED)) net"
    using i by (simp add: bl_inv_def bl_wires_def)
  have fin: "(phase net' (rk p first (p - 2)) = FINISHED) = (phase net (rk p first (p - 2)) = FINISHED)"
    using ph by (auto simp: f)
  have "wires (bl_chans p first) (bl_sent p first (did p first net')) (bl_rcvd p first (did p first net'))
     (bl_last p first (did p first net' (p - 1))) (bl_last p first (phase net (rk p first (p - 2)) = FINISHED)) mid"
  proof (cases "k = 0")
    case True
    have d: "did p first net' (p - 1) = did p first net (p - 1)" using p by (simp add: did True)
    have c: "ch p first k \<in> bl_chans p first" "\<not> bl_sent p first (did p first net) (ch p first k)"
      using p True nd ok by (auto intro!: bl_chans_in simp: bl_sent_ch)
    have m: "mid = initTransfer (ch p first k) net" using True by (simp add: mid_def)
    have s: "bl_sent p first (did p first net') = (bl_sent p first (did p first net))(ch p first k := True)"
      "bl_rcvd p first (did p first net') = bl_rcvd p first (did p first net)"
      using did True bl_sent_upd [OF ok k] bl_rcvd_upd [OF ok k] p by simp_all
    show ?thesis unfolding s m d by (rule wires_post [OF w0 c refl])
  qed (use w0 did mid_def in simp)
  then have "bl_wires p first (did p first net') (phase net' (rk p first (p - 2)) = FINISHED) net'"
    unfolding bl_wires_def fin by (rule wires_same) (simp_all add: f)
  moreover have "bl_data p first x net'"
    using i ph unfolding bl_data_def bl_inv_def by (auto simp: f did)
  ultimately have "bl_inv p n first x net'"
    using bl_inv_update [OF i k f(1,2)] p by simp
  moreover have "posted (bl_chans p first) net' \<le> posted (bl_chans p first) net + 1"
    using p posted_initTransfer [OF bl_chans_fin bl_chans_in, of k p first net]
    by (auto simp: posted_same [OF f(3,5)] mid_def)
  then have "bl_left p first net' < bl_left p first net"
    by (rule bl_work_change [OF k ok f(1,2)]) (use p in \<open>simp add: ph bl_work_def\<close>)
  ultimately show ?thesis by blast
qed

text \<open>The four ways a progress call can go at position \<open>k\<close>.\<close>

lemma bl_trigger_cases:
  assumes inv: "bl_inv p n first x net" and k: "k < p" and r: "r = rk p first k"
    and ph: "phase net r = RUNNING" and i: "i = ctl net r"
  shows "i = p \<and> (k = p - 2 \<longrightarrow> aflag net (ch p first k)) \<and>
           trigger_result (bl_impl p n first r) r net =
             set_phase r (FINISHED, if k = p - 2 then snd (checkForTransferAck (ch p first k) net) else net) \<or>
         i = k \<and> 0 < k \<and> flag net (ch p first (k - 1)) \<and>
           trigger_result (bl_impl p n first r) r net =
             set_phase r (RUNNING, set_ctl r (k + 1)
               ((if k + 1 < p then initTransfer (ch p first k) else ackTransfer (ch p first (k - 1)))
                  (snd (checkForCompletion (ch p first (k - 1)) net)))) \<or>
         i < p \<and> i \<noteq> k \<and> trigger_result (bl_impl p n first r) r net = set_phase r (RUNNING, set_ctl r (i + 1) net) \<or>
         trigger_result (bl_impl p n first r) r net = net \<and>
           (i = k \<and> \<not> flag net (ch p first (k - 1)) \<and> 0 < k \<or> i = p \<and> k = p - 2 \<and> \<not> aflag net (ch p first k))"
proof -
  have ok: "bl_ok p n first" and b: "0 < i" "i \<le> p" using inv k ph by (auto simp: bl_inv_def i r)
  note R = bl_ranks [OF ok k]
  have p: "n \<noteq> 0" "p \<noteq> 1" "first < p" "2 \<le> p" "p - 1 < p" "p - 2 < p" using ok by (auto simp: bl_ok_def)
  have T: "trigger_result (bl_impl p n first r) r net =
      (case bl_trigger p n first r net of (d, m) \<Rightarrow> set_phase r (if d then FINISHED else RUNNING, m))"
    by (simp add: trigger_result_def bl_impl_def split: prod.splits)
  have raf: "rank_after_first p first r = k" using R(1) r by simp
  have as: "as_rank i = i" if "i < p" using that ok by (simp add: as_rank_less bl_ok_def)
  have sl: "(r = second_last p first) = (k = p - 2)" and lst: "(r = last_rank p first) = (\<not> k + 1 < p)"
    using p k by (auto simp: r R(2,3) rk_eq)
  have c: "bl_chan p first r = ch p first k" using r by simp
  note D = bl_trigger_def Let_def i [symmetric] raf sl lst c
  consider "i = p" | "i < p" "i = k" | "i < p" "i \<noteq> k" using b by linarith
  then show ?thesis
  proof cases
    case 1
    have "bl_trigger p n first r net = (if k = p - 2 then checkForTransferAck (ch p first k) net else (True, net))"
      using p 1 by (simp add: D)
    then show ?thesis unfolding T using 1 ph by (simp add: checkForTransferAck_def set_phase_same)
  next
    case 2
    then have l: "left_neighbour p r = rk p first (k - 1)" "0 < k" using R(5) b r by auto
    have "bl_trigger p n first r net = (if flag net (ch p first (k - 1))
      then (False, set_ctl r (k + 1) ((if k + 1 < p then initTransfer (ch p first k) else ackTransfer (ch p first (k - 1)))
                  (snd (checkForCompletion (ch p first (k - 1)) net))))
      else (False, net))"
      using p 2 as by (simp add: D l checkForCompletion_def)
    then show ?thesis unfolding T using 2 l ph by (simp add: set_phase_same)
  next
    case 3
    then have "bl_trigger p n first r net = (False, set_ctl r (i + 1) net)" using p as by (simp add: D)
    then show ?thesis unfolding T using 3 by simp
  qed
qed

lemma bl_advance_ok:
  assumes i: "bl_inv p n first x net" and k: "k < p" and r: "r = rk p first k" and ph: "phase net r = RUNNING"
    and ik: "ctl net r = k" "0 < k" and fg: "flag net (ch p first (k - 1))"
    and n': "net' = set_phase r (RUNNING, set_ctl r (k + 1)
               ((if k + 1 < p then initTransfer (ch p first k) else ackTransfer (ch p first (k - 1)))
                  (snd (checkForCompletion (ch p first (k - 1)) net))))"
  shows "bl_inv p n first x net' \<and> bl_left p first net' < bl_left p first net"
proof -
  have ok: "bl_ok p n first" using i by (simp add: bl_inv_def)
  then have p: "2 \<le> p" "first < p" by (simp_all add: bl_ok_def)
  define mid where "mid = snd (checkForCompletion (ch p first (k - 1)) net)"
  define mid2 where "mid2 = (if k + 1 < p then initTransfer (ch p first k) mid else ackTransfer (ch p first (k - 1)) mid)"
  have f: "phase net' = (phase net)(rk p first k := RUNNING)" "ctl net' = (ctl net)(rk p first k := k + 1)"
    "pend net' = pend mid2" "flag net' = flag mid2" "apend net' = apend mid2" "aflag net' = aflag mid2" "buf net' = buf net"
    "flag mid2 = (flag net)(ch p first (k - 1) := False)"
    unfolding n' r mid2_def mid_def by (cases "k + 1 < p"; simp add: cnet)+
  have nd: "\<not> did p first net k" using ik r by (simp add: did_def)
  have did: "did p first net' = (did p first net)(k := True)"
    using bl_did_upd [OF ok k f(1,2)] by simp
  let ?D = "did p first net" and ?F = "phase net (rk p first (p - 2)) = FINISHED"
  have fin: "(phase net' (rk p first (p - 2)) = FINISHED) = ?F" using ph r by (auto simp: f)
  have "wires (bl_chans p first) (bl_sent p first ?D) (bl_rcvd p first ?D) (bl_last p first (?D (p - 1))) (bl_last p first ?F) net"
    using i by (simp add: bl_inv_def bl_wires_def)
  then have w1: "wires (bl_chans p first) (bl_sent p first ?D) ((bl_rcvd p first ?D)(ch p first (k - 1) := True))
      (bl_last p first (?D (p - 1))) (bl_last p first ?F) mid"
    unfolding mid_def by (rule wires_receive [OF _ fg refl])
  have "wires (bl_chans p first) (bl_sent p first (?D(k := True))) (bl_rcvd p first (?D(k := True)))
      (bl_last p first ((?D(k := True)) (p - 1))) (bl_last p first ?F) mid2"
  proof (cases "k + 1 < p")
    case True
    have c: "ch p first k \<in> bl_chans p first" "\<not> bl_sent p first ?D (ch p first k)"
      using True nd ok by (auto intro!: bl_chans_in simp: bl_sent_ch)
    have s: "bl_rcvd p first (?D(k := True)) = (bl_rcvd p first ?D)(ch p first (k - 1) := True)"
      "bl_sent p first (?D(k := True)) = (bl_sent p first ?D)(ch p first k := True)" "(?D(k := True)) (p - 1) = ?D (p - 1)"
      using bl_sent_upd [OF ok k] bl_rcvd_upd [OF ok k] True ik(2) by auto
    show ?thesis using True wires_post [OF w1 c refl] unfolding mid2_def s by simp
  next
    case False
    then have kp: "k = p - 1" using k by simp
    have c: "ch p first (k - 1) \<in> bl_chans p first" "\<not> bl_last p first (?D (p - 1)) (ch p first (k - 1))"
      using nd p kp by (auto intro!: bl_chans_in simp: bl_last_def)
    have s: "bl_rcvd p first (?D(k := True)) = (bl_rcvd p first ?D)(ch p first (k - 1) := True)"
      "bl_sent p first (?D(k := True)) = bl_sent p first ?D"
      using bl_sent_upd [OF ok k] bl_rcvd_upd [OF ok k] False ik(2) by simp_all
    have t: "bl_last p first ((?D(k := True)) (p - 1)) = (bl_last p first (?D (p - 1)))(ch p first (k - 1) := True)"
      using nd kp by (auto simp: bl_last_def fun_eq_iff numeral_2_eq_2)
    show ?thesis using False wires_ack [OF w1 c refl] unfolding mid2_def s t by simp
  qed
  then have "bl_wires p first (did p first net') (phase net' (rk p first (p - 2)) = FINISHED) net'"
    unfolding bl_wires_def fin did by (rule wires_same) (simp_all add: f)
  moreover have "bl_data p first x net'"
  proof -
    have d: "bl_data p first x net" using i by (simp add: bl_inv_def)
    obtain j where j: "k = j + 1" using ik(2) by (cases k) auto
    then have "buf net (rk p first k) BlTarget = x" using d fg k unfolding bl_data_def by auto
    with d ph show ?thesis unfolding bl_data_def did f r by (auto simp: ch_eq [OF ok])
  qed
  ultimately have "bl_inv p n first x net'"
    using bl_inv_update [OF i k f(1,2)] k by simp
  moreover have "posted (bl_chans p first) net' \<le> posted (bl_chans p first) net + 1"
  proof -
    have "posted (bl_chans p first) mid = posted (bl_chans p first) net"
      by (rule posted_same) (simp_all add: mid_def cnet)
    then show ?thesis
      using k ik(2) posted_initTransfer [OF bl_chans_fin bl_chans_in, of k p first mid]
        posted_ackTransfer [OF bl_chans_fin bl_chans_in, of "k - 1" p first mid]
      by (simp add: posted_same [OF f(3,5)] mid2_def)
  qed
  then have "bl_left p first net' < bl_left p first net"
    by (rule bl_work_change [OF k ok f(1,2)]) (use k ph ik r in \<open>simp add: bl_work_def\<close>)
  ultimately show ?thesis by blast
qed

lemma bl_skip_ok:
  assumes i: "bl_inv p n first x net" and k: "k < p" and r: "r = rk p first k" and ph: "phase net r = RUNNING"
    and ik: "ctl net r < p" "ctl net r \<noteq> k" and n': "net' = set_phase r (RUNNING, set_ctl r (ctl net r + 1) net)"
  shows "bl_inv p n first x net' \<and> bl_left p first net' < bl_left p first net"
proof -
  have ok: "bl_ok p n first" using i by (simp add: bl_inv_def)
  have f: "phase net' = (phase net)(rk p first k := RUNNING)" "ctl net' = (ctl net)(rk p first k := ctl net r + 1)"
    "pend net' = pend net" "flag net' = flag net" "apend net' = apend net" "aflag net' = aflag net" "buf net' = buf net"
    unfolding n' r by (simp_all add: cnet)
  have did: "did p first net' = did p first net"
    unfolding bl_did_upd [OF ok k f(1,2), simplified] using ik ph k r by (auto simp: did_def fun_eq_iff)
  have same: "phase net' = phase net" using ph r by (simp add: f fun_eq_iff)
  have "bl_wires p first (did p first net') (phase net' (rk p first (p - 2)) = FINISHED) net'"
    unfolding bl_wires_def did same
    by (rule wires_same [where n = net]) (use i in \<open>simp_all add: f bl_inv_def bl_wires_def\<close>)
  moreover have "bl_data p first x net'"
    using i unfolding bl_inv_def bl_data_def did f(4,7) same by blast
  ultimately have "bl_inv p n first x net'"
    using bl_inv_update [OF i k f(1,2)] ik by simp
  moreover have "bl_left p first net' < bl_left p first net"
    by (rule bl_work_change [OF k ok f(1,2), of 0]) (use ik ph r in \<open>simp_all add: posted_same [OF f(3,5)] bl_work_def\<close>)
  ultimately show ?thesis by blast
qed

lemma bl_finish_ok:
  assumes i: "bl_inv p n first x net" and k: "k < p" and r: "r = rk p first k" and ph: "phase net r = RUNNING"
    and ik: "ctl net r = p" and fg: "k = p - 2 \<longrightarrow> aflag net (ch p first k)"
    and n': "net' = set_phase r (FINISHED, if k = p - 2 then snd (checkForTransferAck (ch p first k) net) else net)"
  shows "bl_inv p n first x net' \<and> bl_left p first net' < bl_left p first net"
proof -
  have ok: "bl_ok p n first" using i by (simp add: bl_inv_def)
  have f: "phase net' = (phase net)(rk p first k := FINISHED)" "ctl net' = (ctl net)(rk p first k := p)"
    "pend net' = pend net" "flag net' = flag net" "apend net' = apend net" "buf net' = buf net"
    "aflag net' = (if k = p - 2 then (aflag net)(ch p first k := False) else aflag net)"
    unfolding n' using ik r by (auto simp: cnet)
  have did: "did p first net' = did p first net"
    unfolding bl_did_upd [OF ok k f(1,2), simplified] using ik ph k r by (auto simp: did_def fun_eq_iff)
  let ?W = "wires (bl_chans p first) (bl_sent p first (did p first net)) (bl_rcvd p first (did p first net))
    (bl_last p first (did p first net (p - 1)))"
  have w: "?W (bl_last p first (phase net (rk p first (p - 2)) = FINISHED)) net"
    using i by (simp add: bl_inv_def bl_wires_def)
  have "?W (bl_last p first (phase net' (rk p first (p - 2)) = FINISHED)) net'"
  proof (cases "k = p - 2")
    case True
    have w1: "?W ((bl_last p first (phase net (rk p first (p - 2)) = FINISHED))(ch p first k := True))
        (snd (checkForTransferAck (ch p first k) net))"
      by (rule wires_see [OF w _ refl]) (use fg True in blast)
    have e: "bl_last p first (phase net' (rk p first (p - 2)) = FINISHED) =
        (bl_last p first (phase net (rk p first (p - 2)) = FINISHED))(ch p first k := True)"
      using True ph r by (auto simp: bl_last_def fun_eq_iff f)
    show ?thesis unfolding e by (rule wires_same [OF w1]) (simp_all add: f cnet True)
  next
    case False
    then have "(phase net' (rk p first (p - 2)) = FINISHED) = (phase net (rk p first (p - 2)) = FINISHED)"
      using k ok by (simp add: f rk_eq bl_ok_def)
    then show ?thesis using False by (simp only:) (rule wires_same [OF w], simp_all add: f)
  qed
  then have "bl_wires p first (did p first net') (phase net' (rk p first (p - 2)) = FINISHED) net'"
    unfolding bl_wires_def did .
  moreover have "bl_data p first x net'"
    using i ph r unfolding bl_inv_def bl_data_def did f(4,6) by (auto simp: f)
  ultimately have "bl_inv p n first x net'"
    using bl_inv_update [OF i k f(1,2)] by simp
  moreover have "bl_left p first net' < bl_left p first net"
    by (rule bl_work_change [OF k ok f(1,2), of 0]) (use ik ph r in \<open>simp_all add: posted_same [OF f(3,5)] bl_work_def\<close>)
  ultimately show ?thesis by blast
qed

lemma bl_deliver_ok:
  assumes i: "bl_inv p n first x net" and c: "0 < pend net c"
  shows "bl_inv p n first x (deliver c net) \<and> bl_left p first (deliver c net) < bl_left p first net"
proof -
  have ok: "bl_ok p n first" using i by (simp add: bl_inv_def)
  have p: "first < p" using ok by (simp add: bl_ok_def)
  have w: "bl_wires p first (did p first net) (phase net (rk p first (p - 2)) = FINISHED) net"
    using i by (simp add: bl_inv_def)
  from wires_pend [OF w [unfolded bl_wires_def] c] obtain k where
    k: "k + 1 < p" "did p first net k" "c = ch p first k" and C: "c \<in> bl_chans p first"
    by (auto simp: bl_sent_def)
  have did: "did p first (deliver c net) = did p first net" by (simp add: did_def cnet fun_eq_iff)
  have d: "bl_data p first x net" using i by (simp add: bl_inv_def)
  have right: "right_neighbour p (rk p first k) = rk p first (k + 1)" using bl_ranks(4) [OF ok] k by simp
  have src: "buf net (c_src c) (c_sslot c) = x"
  proof (cases "k = 0")
    case True
    then show ?thesis using d k p unfolding bl_data_def
      by (auto simp: bl_chan_def bl_source_slot_def rk_0 did_def)
  next
    case False
    then obtain j where j: "k = j + 1" by (cases k) auto
    then have "buf net (rk p first (j + 1)) BlTarget = x"
      using d k(1,2) unfolding bl_data_def by auto
    then show ?thesis using k p j by (simp add: bl_chan_def bl_source_slot_def rk_first)
  qed
  have "bl_data p first x (deliver c net)"
  proof -
    have c': "c_dst c = rk p first (k + 1)" "c_dslot c = BlTarget" using k(3) right by (simp_all add: bl_chan_def)
    have b: "buf (deliver c net) q BlSource = buf net q BlSource"
      "buf (deliver c net) q BlTarget = (if q = rk p first (k + 1) then x else buf net q BlTarget)" for q
      using src by (simp_all add: deliver_sel c')
    have f: "flag (deliver c net) (ch p first j) \<Longrightarrow> j + 1 < p \<Longrightarrow> flag net (ch p first j) \<or> j = k" for j
      using k ch_eq [OF ok, of j k] by (auto simp: deliver_sel split: if_splits)
    have ph: "phase (deliver c net) = phase net" by (simp add: deliver_sel)
    from d f show ?thesis unfolding bl_data_def did b ph by metis
  qed
  moreover have "bl_wires p first (did p first (deliver c net))
      (phase (deliver c net) (rk p first (p - 2)) = FINISHED) (deliver c net)"
    unfolding did using wires_deliver [OF w [unfolded bl_wires_def] c] by (simp add: bl_wires_def cnet)
  ultimately have "bl_inv p n first x (deliver c net)"
    using i by (simp add: bl_inv_def cnet)
  moreover have "ranks_work p (bl_work p) (deliver c net) = ranks_work p (bl_work p) net"
    by (rule ranks_work_same) (simp_all add: cnet)
  ultimately show ?thesis
    using posted_deliver [OF bl_chans_fin C c] by (simp add: bl_left_def)
qed

lemma bl_deliver_ack_ok:
  assumes i: "bl_inv p n first x net" and c: "0 < apend net c"
  shows "bl_inv p n first x (deliver_ack c net) \<and> bl_left p first (deliver_ack c net) < bl_left p first net"
proof -
  have w: "bl_wires p first (did p first net) (phase net (rk p first (p - 2)) = FINISHED) net"
    using i by (simp add: bl_inv_def)
  have C: "c \<in> bl_chans p first" using wires_apend [OF w [unfolded bl_wires_def] c] by blast
  have did: "did p first (deliver_ack c net) = did p first net" by (simp add: did_def cnet fun_eq_iff)
  have "bl_wires p first (did p first (deliver_ack c net))
      (phase (deliver_ack c net) (rk p first (p - 2)) = FINISHED) (deliver_ack c net)"
    unfolding did using wires_deliver_ack [OF w [unfolded bl_wires_def] c] by (simp add: bl_wires_def cnet)
  moreover have "bl_data p first x (deliver_ack c net)"
    using i unfolding bl_inv_def bl_data_def did by (simp add: cnet)
  ultimately have "bl_inv p n first x (deliver_ack c net)"
    using i by (simp add: bl_inv_def cnet)
  moreover have "ranks_work p (bl_work p) (deliver_ack c net) = ranks_work p (bl_work p) net"
    by (rule ranks_work_same) (simp_all add: cnet)
  ultimately show ?thesis
    using posted_deliver_ack [OF bl_chans_fin C c] by (simp add: bl_left_def)
qed

lemma bl_trigger_ok:
  assumes i: "bl_inv p n first x net" and k: "k < p" and ph: "phase net (rk p first k) = RUNNING"
    and n': "net' = trigger_result (bl_impl p n first (rk p first k)) (rk p first k) net"
  shows "bl_inv p n first x net' \<and> bl_left p first net' < bl_left p first net \<or>
    net' = net \<and> (ctl net (rk p first k) = k \<and> \<not> flag net (ch p first (k - 1)) \<and> 0 < k \<or>
      ctl net (rk p first k) = p \<and> k = p - 2 \<and> \<not> aflag net (ch p first k))"
proof -
  from bl_trigger_cases [OF i k refl ph refl, folded n'] show ?thesis
    by (elim disjE conjE) (simp_all add: bl_finish_ok [OF i k refl ph] bl_advance_ok [OF i k refl ph] bl_skip_ok [OF i k refl ph])
qed

lemma bl_can_move:
  assumes i: "bl_inv p n first x net"
    and all: "\<forall>k < p. phase net (rk p first k) = RUNNING \<or> phase net (rk p first k) = FINISHED"
    and quiet: "\<forall>c. pend net c = 0 \<and> apend net c = 0"
    and stuck: "\<forall>k < p. phase net (rk p first k) = RUNNING \<longrightarrow>
      trigger_result (bl_impl p n first (rk p first k)) (rk p first k) net = net"
  shows "\<forall>k < p. phase net (rk p first k) = FINISHED"
proof -
  have ok: "bl_ok p n first" using i by (simp add: bl_inv_def)
  then have p: "2 \<le> p" by (simp add: bl_ok_def)
  note w = i [unfolded bl_inv_def bl_wires_def, THEN conjunct2, THEN conjunct2, THEN conjunct1]
  have st: "ctl net (rk p first k) = k \<and> \<not> flag net (ch p first (k - 1)) \<and> 0 < k \<or>
      ctl net (rk p first k) = p \<and> k = p - 2 \<and> \<not> aflag net (ch p first k)"
    if "k < p" "phase net (rk p first k) = RUNNING" for k
    using bl_trigger_ok [OF i that refl] stuck that by auto
  have c: "k < p \<Longrightarrow> ctl net (rk p first k) = p" for k
  proof (induction k rule: less_induct)
    case (less k)
    show ?case
    proof (rule ccontr)
      assume n: "ctl net (rk p first k) \<noteq> p"
      then have r: "phase net (rk p first k) = RUNNING" using all less.prems i by (auto simp: bl_inv_def)
      with st [OF less.prems] n have s: "ctl net (rk p first k) = k" "\<not> flag net (ch p first (k - 1))" "0 < k" by auto
      obtain j where j: "k = j + 1" using s(3) by (cases k) auto
      have "ctl net (rk p first j) = p" using less j by simp
      then have "bl_sent p first (did p first net) (ch p first j)"
        using all less.prems j bl_sent_ch [OF ok] by (simp add: did_def)
      then have "flag net (ch p first j) \<or> bl_rcvd p first (did p first net) (ch p first j)"
        using wires_quiet [OF w] quiet by blast
      then show False using s j less.prems bl_rcvd_ch [OF ok, of j] by (simp add: did_def)
    qed
  qed
  show ?thesis
  proof (intro allI impI, rule ccontr)
    fix k assume k: "k < p" and "phase net (rk p first k) \<noteq> FINISHED"
    then have r: "phase net (rk p first k) = RUNNING" using all by blast
    with st [OF k] c [OF k] k have s: "k = p - 2" "\<not> aflag net (ch p first k)" by auto
    have "did p first net (p - 1)" using c [of "p - 1"] all p by (simp add: did_def)
    then have "bl_last p first (did p first net (p - 1)) (ch p first k)" by (simp add: bl_last_def s)
    then have "aflag net (ch p first k) \<or> bl_last p first (phase net (rk p first (p - 2)) = FINISHED) (ch p first k)"
      using wires_quiet_ack [OF w] quiet by blast
    with s r show False by (simp add: bl_last_def)
  qed
qed

lemma bl_inv_init:
  assumes ok: "bl_ok p n first" and init: "coll_init p net"
  shows "bl_inv p n first x net"
proof -
  have ph: "phase net (rk p first k) = INITIALIZED" for k using assms by (simp add: coll_init_def bl_ok_def rk_less)
  have d: "did p first net = (\<lambda>_. False)" by (auto simp: did_def ph fun_eq_iff)
  have "phase net first = INITIALIZED" using assms by (simp add: coll_init_def bl_ok_def)
  moreover have "flag net c = False" for c using init by (simp add: coll_init_def)
  moreover have "bl_wires p first (\<lambda>_. False) False net"
  proof -
    have "bl_sent p first (\<lambda>_. False) = (\<lambda>_. False)" "bl_rcvd p first (\<lambda>_. False) = (\<lambda>_. False)"
      "bl_last p first False = (\<lambda>_. False)"
      by (simp_all add: bl_sent_def bl_rcvd_def bl_last_def fun_eq_iff)
    then show ?thesis using wires_init [OF init, of "bl_chans p first"] by (simp add: bl_wires_def)
  qed
  ultimately show ?thesis using ok ph by (simp add: bl_inv_def d bl_data_def)
qed

lemma bl_ranks_exist: "bl_inv p n first x net \<Longrightarrow> r < p \<Longrightarrow> \<exists>k < p. r = rk p first k"
  by (rule rk_onto) (simp_all add: bl_inv_def bl_ok_def)

interpretation bl: one_execution p "bl_impl p n first" inp "bl_ok p n first"
  "bl_inv p n first (take n (inp first))" "bl_left p first"
proof
  fix net net' :: "'a bl_net" and r c
  let ?inv = "bl_inv p n first (take n (inp first))"
  show "bl_ok p n first \<Longrightarrow> coll_init p net \<Longrightarrow> ?inv net" by (rule bl_inv_init)
  assume i: "?inv net"
  show "0 < pend net c \<Longrightarrow> ?inv (deliver c net) \<and> bl_left p first (deliver c net) < bl_left p first net"
    by (rule bl_deliver_ok [OF i])
  show "0 < apend net c \<Longrightarrow> ?inv (deliver_ack c net) \<and> bl_left p first (deliver_ack c net) < bl_left p first net"
    by (rule bl_deliver_ack_ok [OF i])
  show "\<exists>r < p. phase net r = RUNNING \<and> trigger_result (bl_impl p n first r) r net \<noteq> net"
    if "\<forall>r < p. phase net r = RUNNING \<or> phase net r = FINISHED" "\<forall>c. pend net c = 0 \<and> apend net c = 0"
      "\<not> finished_all p net"
  proof (rule ccontr)
    have f: "first < p" using i by (simp add: bl_inv_def bl_ok_def)
    assume "\<not> ?thesis"
    with bl_can_move [OF i _ that(2)] that(1) f have "\<forall>k < p. phase net (rk p first k) = FINISHED"
      by (meson rk_less)
    then show False using that(3) bl_ranks_exist [OF i] by (metis finished_all_def)
  qed
  assume "r < p"
  then obtain k where k: "k < p" "r = rk p first k" using bl_ranks_exist [OF i] by blast
  show "phase net r \<noteq> UNINITIALIZED" using i k by (simp add: bl_inv_def)
  show "?inv net' \<and> bl_left p first net' < bl_left p first net"
    if "phase net r = INITIALIZED" "net' = set_phase r (READY, copyInImpl (bl_impl p n first r) (inp r) net)"
    using bl_copyIn_ok [where inp = inp, OF i k(1)] that k by (simp add: bl_impl_def)
  show "?inv net' \<and> bl_left p first net' < bl_left p first net"
    if "phase net r = READY" "net' = set_phase r (RUNNING, startImpl (bl_impl p n first r) net)"
    using bl_start_ok [OF i k(1)] that k by (simp add: bl_impl_def)
  show "?inv net' \<and> bl_left p first net' < bl_left p first net"
    if "phase net r = RUNNING" "net' = trigger_result (bl_impl p n first r) r net" "net' \<noteq> net"
    using bl_trigger_ok [OF i k(1)] that k by blast
qed

section \<open>Properties\<close>

definition bl_net0 :: "nat bl_net" where
  "bl_net0 = \<lparr>phase = \<lambda>_. INITIALIZED, ctl = \<lambda>_. 0, buf = \<lambda>_ _. [0], pend = \<lambda>_. 0, flag = \<lambda>_. False,
     apend = \<lambda>_. 0, aflag = \<lambda>_. False\<rparr>"

lemma bl_net0_init: "coll_init p bl_net0"
  by (simp add: bl_net0_def coll_init_def)

text \<open>
  Property C11. Linear broadcast: for every root, number of ranks up to \<open>2 ^ 16\<close>, interleaving and
  delivery order, a finished rank copies out the root's elements, and every reachable state can be
  continued until all ranks are finished.
\<close>

theorem broadcast_linear_correct:
  assumes "2 \<le> p" "p \<le> 2 ^ 16" "root < p" "0 < n" "n \<le> length (inp root)"
    and "coll_init p n0" "gaspi_env env" "coll_reach env (bl_impl p n root) p inp n0 net"
  shows "(\<forall>r < p. phase net r = FINISHED \<longrightarrow>
            copyOutImpl (bl_impl p n root r) net out = take n (inp root) @ drop n out) \<and>
    (gaspi_live env \<longrightarrow>
       (\<exists>net'. coll_reach env (bl_impl p n root) p inp net net' \<and> (\<forall>r < p. phase net' r = FINISHED)))"
proof -
  have ok: "bl_ok p n root" using assms by (simp add: bl_ok_def)
  note i = bl.reach_inv [OF assms(8) ok assms(6,7)]
  have "copyOutImpl (bl_impl p n root r) net out = take n (inp root) @ drop n out"
    if r: "r < p" "phase net r = FINISHED" for r
  proof -
    obtain k where k: "k < p" "r = rk p root k" using bl_ranks_exist [OF i r(1)] by blast
    have d: "bl_data p root (take n (inp root)) net" using i by (simp add: bl_inv_def)
    have "buf net r (if r = root then BlSource else BlTarget) = take n (inp root)"
    proof (cases k)
      case 0
      then show ?thesis using d r k assms(3) by (simp add: bl_data_def rk_0)
    next
      case (Suc j)
      have "did p root net k" using r k i by (simp add: did_def bl_inv_def)
      then show ?thesis using d k Suc assms(3) by (simp add: bl_data_def rk_first)
    qed
    then show ?thesis using assms(4,5) by (auto simp: bl_impl_def bl_copyOut_def write_at_def)
  qed
  moreover have "\<exists>net'. coll_reach env (bl_impl p n root) p inp net net' \<and> finished_all p net'" if "gaspi_live env"
    by (rule bl.completes) (fact i assms(7) that)+
  ultimately show ?thesis unfolding finished_all_def by blast
qed

lemma broadcast_linear_correct_witness:
  "\<exists>net'. coll_reach any_env (bl_impl 3 1 2) 3 (\<lambda>r. [r]) bl_net0 net' \<and> (\<forall>r < 3. phase net' r = FINISHED)"
  by (rule broadcast_linear_correct [OF _ _ _ _ _ bl_net0_init any_env_gaspi(1) rtranclp.rtrancl_refl,
      of 3 2 1 "\<lambda>r. [r]", THEN conjunct2, THEN mp, OF _ _ _ _ _ any_env_gaspi(2)]) simp_all

text \<open>
  The linear broadcast must not be reused at once: only the last but one rank waits
  for an acknowledgement.  In this schedule of three ranks the root finishes before its transfer
  has been carried out and copies in a second input (2); rank 1 then copies out 2 from its first
  execution, where the root's first input (1) belongs.
\<close>

theorem broadcast_linear_reuse_race:
  "map_option (\<lambda>(ys, n). map (\<lambda>(r, f). (r, f [0])) ys) (life_run (bl_impl 3 1 0) 3
     [LCopyIn 0 [1], LStart 0, LProgress 0, LProgress 0, LProgress 0, LCopyOut 0, LCopyIn 0 [2],
      LCopyIn 1 [], LStart 1, LDeliver (bl_chan 3 0 0), LProgress 1, LDeliver (bl_chan 3 0 1), LProgress 1,
      LCopyIn 2 [], LStart 2, LProgress 2, LProgress 2, LDeliverAck (bl_chan 3 0 1), LProgress 1, LCopyOut 1] bl_net0) =
   Some [(0, [1]), (1, [2])]"
  by (simp add: bl_net0_def bl_impl_def cl_copyIn_def cl_start_def cl_triggerProgress_def cl_copyOut_def
    bl_copyIn_def bl_start_def bl_trigger_def bl_chan_def bl_copyOut_def second_last_def last_rank_def
    rank_after_first_def left_neighbour_def right_neighbour_def as_rank_def bl_source_slot_def
    Let_def set_buf_def set_ctl_def set_phase_def initTransfer_def
    checkForCompletion_def checkForTransferAck_def deliver_def deliver_ack_def ackTransfer_def write_at_def)

end
