(* ===== verification/Broadcast_SendToAll.thy ===== *)
theory Broadcast_SendToAll
  imports Broadcast_Linear
begin

text \<open>
  \<open>BroadcastSendToAll.hpp\<close>: the root writes to every other rank from one memory block and counts
  the acknowledgements.
\<close>

section \<open>The object of a rank\<close>

text \<open>\<open>BsSource\<close> is the memory that all source buffers of the root share.\<close>

datatype bs_slot = BsSource | BsTarget

type_synonym 'a bs_net = "(nat, bs_slot, 'a list) net"

definition generate_non_root_ranks :: "nat \<Rightarrow> nat \<Rightarrow> nat list" where
  "generate_non_root_ranks p root = map as_rank (filter (\<lambda>i. root \<noteq> as_rank i) [0..<p])"

text \<open>The partners of \<open>source_buffers\<close>: the last non-root rank first, then the remaining ones.\<close>

definition bs_targets :: "nat \<Rightarrow> nat \<Rightarrow> nat list" where
  "bs_targets p root =
     (let non_root_ranks = generate_non_root_ranks p root in last non_root_ranks # butlast non_root_ranks)"

definition bs_chan :: "nat \<Rightarrow> nat \<Rightarrow> bs_slot chan" where
  "bs_chan root r = \<lparr>c_src = root, c_sslot = BsSource, c_dst = r, c_dslot = BsTarget, c_tag = r\<rparr>"

definition bs_connections :: "nat \<Rightarrow> nat \<Rightarrow> nat \<Rightarrow> bs_slot endpoint list" where
  "bs_connections p root r =
     (if p = 1 then []
      else if r = root
      then map (\<lambda>q. \<lparr>ep_source = True, ep_slot = BsSource, ep_partner = q, ep_tag = q\<rparr>) (bs_targets p root)
      else [\<lparr>ep_source = False, ep_slot = BsTarget, ep_partner = root, ep_tag = r\<rparr>])"

definition bs_construct :: "group \<Rightarrow> rank \<Rightarrow> bs_slot endpoint list res" where
  "bs_construct g root =
     (if root \<ge> Rank (of_nat (g_size g))
      then Inl (LogicError ''BroadcastLowLevel<T, BroadcastAlgorithm::SEND_TO_ALL>: `group` must contain `root`'')
      else Inr (bs_connections (g_size g) (unat (get root)) (unat (get (g_rank g)))))"

definition bs_start :: "nat \<Rightarrow> nat \<Rightarrow> nat \<Rightarrow> 'a bs_net \<Rightarrow> 'a bs_net" where
  "bs_start p root r net =
     (if p = 1 then net
      else if r = root
      then set_ctl r (length (bs_targets p root))
             (foldl (\<lambda>n q. initTransfer (bs_chan root q) n) net (bs_targets p root))
      else net)"

fun bs_poll :: "nat \<Rightarrow> nat list \<Rightarrow> 'a bs_net \<Rightarrow> 'a bs_net" where
  "bs_poll root [] net = net"
| "bs_poll root (q # qs) net =
     (case checkForTransferAck (bs_chan root q) net of
        (done, net1) \<Rightarrow> bs_poll root qs (if done then set_ctl root (ctl net1 root - 1) net1 else net1))"

definition bs_trigger :: "nat \<Rightarrow> nat \<Rightarrow> nat \<Rightarrow> 'a bs_net \<Rightarrow> bool \<times> 'a bs_net" where
  "bs_trigger p root r net =
     (if p = 1 then (True, net)
      else if r = root
      then let net1 = bs_poll root (bs_targets p root) net
           in if ctl net1 root = 0 then (True, net1) else (False, net1)
      else
        case checkForCompletion (bs_chan root r) net of
          (done, net1) \<Rightarrow> if done then (True, ackTransfer (bs_chan root r) net1) else (False, net1))"

definition bs_copyIn :: "nat \<Rightarrow> nat \<Rightarrow> nat \<Rightarrow> 'a list \<Rightarrow> 'a bs_net \<Rightarrow> 'a bs_net" where
  "bs_copyIn number_elements root r inputs net =
     (if r = root then set_buf r ((buf net r)(BsSource := take number_elements inputs)) net else net)"

definition bs_copyOut :: "nat \<Rightarrow> nat \<Rightarrow> 'a bs_net \<Rightarrow> 'a list \<Rightarrow> 'a list" where
  "bs_copyOut root r net out =
     (if r = root then write_at 0 (buf net r BsSource) out else write_at 0 (buf net r BsTarget) out)"

definition bs_impl :: "nat \<Rightarrow> nat \<Rightarrow> nat \<Rightarrow> nat \<Rightarrow> ('a bs_net, 'a list, 'a list \<Rightarrow> 'a list) coll_impl" where
  "bs_impl p n root r =
     \<lparr>waitForSetupImpl = (\<lambda>net. net), copyInImpl = bs_copyIn n root r, startImpl = bs_start p root r,
      triggerProgressImpl = bs_trigger p root r, copyOutImpl = bs_copyOut root r\<rparr>"

section \<open>The targets\<close>

definition bs_ok :: "nat \<Rightarrow> nat \<Rightarrow> bool" where
  "bs_ok p root \<longleftrightarrow> 2 \<le> p \<and> p \<le> 2 ^ 16 \<and> root < p"

definition others :: "nat \<Rightarrow> nat \<Rightarrow> nat set" where
  "others p root = {..<p} - {root}"

lemma non_root_ranks: "bs_ok p root \<Longrightarrow> generate_non_root_ranks p root = filter (\<lambda>i. i \<noteq> root) [0..<p]"
proof -
  assume "bs_ok p root"
  then have a: "as_rank i = i" if "i < p" for i using that by (simp add: as_rank_less bs_ok_def)
  have "filter (\<lambda>i. root \<noteq> as_rank i) [0..<p] = filter (\<lambda>i. i \<noteq> root) [0..<p]"
    by (rule filter_cong) (auto simp: a)
  then show ?thesis unfolding generate_non_root_ranks_def by (simp only:) (rule map_idI, simp add: a)
qed

lemma bs_targets:
  assumes "bs_ok p root"
  shows "set (bs_targets p root) = others p root" "distinct (bs_targets p root)"
proof -
  let ?xs = "filter (\<lambda>i. i \<noteq> root) [0..<p]"
  have s: "set ?xs = others p root" by (auto simp: others_def)
  have "(if root = 0 then 1 else 0) \<in> set ?xs" using assms by (auto simp: bs_ok_def)
  then have ne: "?xs \<noteq> []" by (metis empty_iff empty_set)
  have t: "bs_targets p root = last ?xs # butlast ?xs" using non_root_ranks [OF assms] by (simp add: bs_targets_def Let_def)
  have e: "butlast ?xs @ [last ?xs] = ?xs" by (rule append_butlast_last_id [OF ne])
  have "set (bs_targets p root) = set (butlast ?xs @ [last ?xs])" by (simp add: t)
  then show "set (bs_targets p root) = others p root" unfolding e s .
  have "distinct (bs_targets p root) = distinct (butlast ?xs @ [last ?xs])" by (auto simp: t)
  then show "distinct (bs_targets p root)" unfolding e by simp
qed

lemma others_card: "bs_ok p root \<Longrightarrow> card (others p root) = length (bs_targets p root)"
  using bs_targets by (metis distinct_card)

lemma others_fin: "finite (others p root)"
  by (simp add: others_def)

lemma bs_chan_eq [simp]: "bs_chan root q = bs_chan root r \<longleftrightarrow> q = r"
  by (auto simp: bs_chan_def)

section \<open>The invariant\<close>

definition bs_chans :: "nat \<Rightarrow> nat \<Rightarrow> bs_slot chan set" where
  "bs_chans p root = bs_chan root ` others p root"

definition on :: "nat \<Rightarrow> nat set \<Rightarrow> bs_slot chan \<Rightarrow> bool" where
  "on root Q c \<longleftrightarrow> (\<exists>r \<in> Q. c = bs_chan root r)"

lemma on_chan [simp]: "on root Q (bs_chan root r) \<longleftrightarrow> r \<in> Q"
  by (auto simp: on_def)

lemma on_insert: "on root (insert r Q) = (on root Q)(bs_chan root r := True)"
  by (auto simp: on_def fun_eq_iff)

lemma bs_chans_fin: "finite (bs_chans p root)"
  by (simp add: bs_chans_def others_fin)

text \<open>\<open>T\<close> the ranks written to, \<open>F\<close> those that have finished, \<open>B\<close> those whose
  acknowledgement the root has counted.\<close>

definition bs_wires :: "nat \<Rightarrow> nat \<Rightarrow> nat set \<Rightarrow> nat set \<Rightarrow> nat set \<Rightarrow> 'a bs_net \<Rightarrow> bool" where
  "bs_wires p root T F B net = wires (bs_chans p root) (on root T) (on root F) (on root F) (on root B) net"

definition bs_done :: "nat \<Rightarrow> nat \<Rightarrow> 'a bs_net \<Rightarrow> nat set" where
  "bs_done p root net = {r \<in> others p root. phase net r = FINISHED}"

definition bs_data :: "nat \<Rightarrow> nat \<Rightarrow> 'a list \<Rightarrow> 'a bs_net \<Rightarrow> bool" where
  "bs_data p root x net \<longleftrightarrow>
     (phase net root \<noteq> INITIALIZED \<longrightarrow> buf net root BsSource = x) \<and>
     (\<forall>r \<in> others p root. flag net (bs_chan root r) \<or> phase net r = FINISHED \<longrightarrow> buf net r BsTarget = x)"

definition bs_root :: "nat \<Rightarrow> nat \<Rightarrow> nat set \<Rightarrow> 'a bs_net \<Rightarrow> bool" where
  "bs_root p root B net \<longleftrightarrow> B \<subseteq> others p root \<and>
     (phase net root = RUNNING \<longrightarrow> B \<noteq> others p root \<and> ctl net root + card B = card (others p root)) \<and>
     (phase net root = FINISHED \<longrightarrow> B = others p root)"

definition bs_sent :: "nat \<Rightarrow> nat \<Rightarrow> 'a bs_net \<Rightarrow> nat set" where
  "bs_sent p root net = (if phase net root = RUNNING \<or> phase net root = FINISHED then others p root else {})"

definition bs_inv :: "nat \<Rightarrow> nat \<Rightarrow> 'a list \<Rightarrow> 'a bs_net \<Rightarrow> bool" where
  "bs_inv p root x net \<longleftrightarrow> bs_ok p root \<and> (\<forall>r < p. phase net r \<noteq> UNINITIALIZED) \<and> bs_data p root x net \<and>
     (\<exists>B. bs_wires p root (bs_sent p root net) (bs_done p root net) B net \<and> bs_root p root B net)"

definition bs_work :: "nat \<Rightarrow> cl_state \<Rightarrow> nat \<Rightarrow> nat" where
  "bs_work p st i = (case st of RUNNING \<Rightarrow> 2 + i | FINISHED \<Rightarrow> 0 | READY \<Rightarrow> 2 * p + 4 + i | _ \<Rightarrow> 2 * p + 5 + i)"

definition bs_left :: "nat \<Rightarrow> nat \<Rightarrow> 'a bs_net \<Rightarrow> nat" where
  "bs_left p root net = ranks_work p (bs_work p) net + posted (bs_chans p root) net"

lemma bs_work_change:
  assumes "r < p" "phase net' = (phase net)(r := st)" "ctl net' = (ctl net)(r := i)"
    and "posted (bs_chans p root) net' \<le> posted (bs_chans p root) net + d"
    and "bs_work p st i + d < bs_work p (phase net r) (ctl net r)"
  shows "bs_left p root net' < bs_left p root net"
  using ranks_work_change [OF assms(1), of net' net "bs_work p"] assms by (simp add: bs_left_def)

section \<open>Posting to all and polling all\<close>

lemma post_all_sel:
  "phase (foldl (\<lambda>n q. initTransfer (bs_chan root q) n) net qs) = phase net \<and>
   ctl (foldl (\<lambda>n q. initTransfer (bs_chan root q) n) net qs) = ctl net \<and>
   buf (foldl (\<lambda>n q. initTransfer (bs_chan root q) n) net qs) = buf net \<and>
   flag (foldl (\<lambda>n q. initTransfer (bs_chan root q) n) net qs) = flag net"
  by (induction qs arbitrary: net) (simp_all add: cnet)

lemma post_all_wires:
  assumes "bs_wires p root T F B net" "set qs \<subseteq> others p root" "distinct qs" "set qs \<inter> T = {}"
  shows "bs_wires p root (T \<union> set qs) F B (foldl (\<lambda>n q. initTransfer (bs_chan root q) n) net qs)"
  using assms
proof (induction qs arbitrary: T net)
  case (Cons q qs)
  have "bs_wires p root (insert q T) F B (initTransfer (bs_chan root q) net)"
    using wires_post [of "bs_chans p root" "on root T" _ _ _ net "bs_chan root q"] Cons.prems
    by (simp add: bs_wires_def on_insert bs_chans_def)
  from Cons.IH [OF this] Cons.prems show ?case by simp
qed simp

lemma post_all_posted:
  "set qs \<subseteq> others p root \<Longrightarrow>
   posted (bs_chans p root) (foldl (\<lambda>n q. initTransfer (bs_chan root q) n) net qs) = posted (bs_chans p root) net + length qs"
proof (induction qs arbitrary: net)
  case (Cons q qs)
  then show ?case using posted_initTransfer [OF bs_chans_fin, of "bs_chan root q" p root net]
    by (simp add: bs_chans_def)
qed simp

lemma poll_spec:
  assumes "bs_wires p root T F B net" "set qs \<subseteq> others p root" "B \<subseteq> others p root"
    "ctl net root + card B = card (others p root)"
  shows "\<exists>B'. bs_wires p root T F B' (bs_poll root qs net) \<and> B' \<subseteq> others p root \<and> B \<subseteq> B' \<and>
    (\<forall>q \<in> set qs. aflag net (bs_chan root q) \<longrightarrow> q \<in> B') \<and>
    ctl (bs_poll root qs net) root + card B' = card (others p root) \<and>
    (B' = B \<longrightarrow> bs_poll root qs net = net) \<and>
    phase (bs_poll root qs net) = phase net \<and> buf (bs_poll root qs net) = buf net \<and>
    flag (bs_poll root qs net) = flag net \<and> pend (bs_poll root qs net) = pend net \<and>
    apend (bs_poll root qs net) = apend net \<and> (\<forall>r. r \<noteq> root \<longrightarrow> ctl (bs_poll root qs net) r = ctl net r)"
  using assms
proof (induction qs arbitrary: B net)
  case Nil
  then show ?case by auto
next
  case (Cons q qs)
  show ?case
  proof (cases "aflag net (bs_chan root q)")
    case False
    then have "bs_poll root (q # qs) net = bs_poll root qs net" by (simp add: checkForTransferAck_def)
    with Cons.IH [OF Cons.prems(1)] Cons.prems False show ?thesis by simp
  next
    case True
    define net1 where "net1 = snd (checkForTransferAck (bs_chan root q) net)"
    define net2 where "net2 = set_ctl root (ctl net1 root - 1) net1"
    have e: "bs_poll root (q # qs) net = bs_poll root qs net2"
      using True by (simp add: checkForTransferAck_def net1_def net2_def)
    have sel: "phase net2 = phase net" "buf net2 = buf net" "flag net2 = flag net" "pend net2 = pend net"
      "apend net2 = apend net" "aflag net2 = (aflag net)(bs_chan root q := False)"
      "ctl net2 = (ctl net)(root := ctl net root - 1)"
      by (simp_all add: net2_def net1_def cnet)
    have q: "q \<notin> B" using wires_aflag [OF Cons.prems(1) [unfolded bs_wires_def] True] by simp
    have "bs_wires p root T F (insert q B) net1"
      using wires_see [OF Cons.prems(1) [unfolded bs_wires_def] True refl] by (simp add: bs_wires_def on_insert net1_def)
    then have w: "bs_wires p root T F (insert q B) net2"
      unfolding bs_wires_def net2_def by (rule wires_same) (simp_all add: cnet)
    have i: "insert q B \<subseteq> others p root" using Cons.prems by simp
    then have "card (insert q B) \<le> card (others p root)" by (rule card_mono [OF others_fin])
    moreover have cB: "card (insert q B) = card B + 1"
      using q i finite_subset [OF Cons.prems(3) others_fin] by simp
    ultimately have c: "ctl net2 root + card (insert q B) = card (others p root)"
      using Cons.prems(4) by (simp add: sel)
    from Cons.IH [OF w _ i c] Cons.prems(2) obtain B' where B': "bs_wires p root T F B' (bs_poll root qs net2)"
      "B' \<subseteq> others p root" "insert q B \<subseteq> B'" "\<forall>q \<in> set qs. aflag net2 (bs_chan root q) \<longrightarrow> q \<in> B'"
      "ctl (bs_poll root qs net2) root + card B' = card (others p root)"
      "phase (bs_poll root qs net2) = phase net2" "buf (bs_poll root qs net2) = buf net2"
      "flag (bs_poll root qs net2) = flag net2" "pend (bs_poll root qs net2) = pend net2"
      "apend (bs_poll root qs net2) = apend net2" "\<forall>r. r \<noteq> root \<longrightarrow> ctl (bs_poll root qs net2) r = ctl net2 r"
      by auto
    have "\<forall>x \<in> set (q # qs). aflag net (bs_chan root x) \<longrightarrow> x \<in> B'"
      using B'(3,4) by (auto simp: sel split: if_splits)
    moreover have "B' \<noteq> B" using B'(3) q by blast
    ultimately show ?thesis unfolding e using B' by (intro exI [of _ B']) (simp add: sel)
  qed
qed

section \<open>Every step keeps the invariant and leaves less work\<close>

lemma bs_copyIn_ok:
  assumes i: "bs_inv p root (take n (inp root)) net" and r: "r < p" and ph: "phase net r = INITIALIZED"
    and n': "net' = set_phase r (READY, bs_copyIn n root r (inp r) net)"
  shows "bs_inv p root (take n (inp root)) net' \<and> bs_left p root net' < bs_left p root net"
proof -
  obtain B where B: "bs_wires p root (bs_sent p root net) (bs_done p root net) B net" "bs_root p root B net"
    and d: "bs_data p root (take n (inp root)) net" using i by (auto simp: bs_inv_def)
  have f: "phase net' = (phase net)(r := READY)" "ctl net' = (ctl net)(r := ctl net r)" "pend net' = pend net"
    "flag net' = flag net" "apend net' = apend net" "aflag net' = aflag net"
    "\<And>q. buf net' q BsTarget = buf net q BsTarget"
    "buf net' root BsSource = (if r = root then take n (inp root) else buf net root BsSource)"
    by (auto simp: n' bs_copyIn_def cnet)
  have s: "bs_sent p root net' = bs_sent p root net" "bs_done p root net' = bs_done p root net"
    using ph by (auto simp: bs_sent_def bs_done_def f)
  have "bs_wires p root (bs_sent p root net') (bs_done p root net') B net'"
    using B(1) unfolding s bs_wires_def by (rule wires_same) (simp_all add: f)
  moreover have "bs_root p root B net'" using B(2) ph by (auto simp: bs_root_def f)
  moreover have "bs_data p root (take n (inp root)) net'" using d ph by (auto simp: bs_data_def f)
  ultimately have "bs_inv p root (take n (inp root)) net'" using i by (auto simp: bs_inv_def f)
  moreover have "bs_left p root net' < bs_left p root net"
    by (rule bs_work_change [OF r f(1,2), where d = 0]) (simp_all add: posted_same [OF f(3,5)] bs_work_def ph)
  ultimately show ?thesis ..
qed

lemma bs_start_ok:
  assumes i: "bs_inv p root x net" and r: "r < p" and ph: "phase net r = READY"
    and n': "net' = set_phase r (RUNNING, bs_start p root r net)"
  shows "bs_inv p root x net' \<and> bs_left p root net' < bs_left p root net"
proof -
  obtain B where B: "bs_wires p root (bs_sent p root net) (bs_done p root net) B net" "bs_root p root B net"
    and d: "bs_data p root x net" and ok: "bs_ok p root" using i by (auto simp: bs_inv_def)
  have p: "p \<noteq> 1" "root < p" "2 \<le> p" using ok by (simp_all add: bs_ok_def)
  show ?thesis
  proof (cases "r = root")
    case False
    then have f: "phase net' = (phase net)(r := RUNNING)" "ctl net' = (ctl net)(r := ctl net r)" "pend net' = pend net"
      "flag net' = flag net" "apend net' = apend net" "aflag net' = aflag net" "buf net' = buf net"
      by (auto simp: n' bs_start_def cnet)
    have s: "bs_sent p root net' = bs_sent p root net" "bs_done p root net' = bs_done p root net"
      using ph False by (auto simp: bs_sent_def bs_done_def f)
    have "bs_wires p root (bs_sent p root net') (bs_done p root net') B net'"
      using B(1) unfolding s bs_wires_def by (rule wires_same) (simp_all add: f)
    moreover have "bs_root p root B net'" using B(2) False by (auto simp: bs_root_def f)
    moreover have "bs_data p root x net'" using d ph by (auto simp: bs_data_def f)
    ultimately have "bs_inv p root x net'" using i by (auto simp: bs_inv_def f)
    moreover have "bs_left p root net' < bs_left p root net"
      by (rule bs_work_change [OF r f(1,2), where d = 0]) (simp_all add: posted_same [OF f(3,5)] bs_work_def ph)
    ultimately show ?thesis ..
  next
    case True
    define mid where "mid = foldl (\<lambda>n q. initTransfer (bs_chan root q) n) net (bs_targets p root)"
    note m = post_all_sel [of root net "bs_targets p root", folded mid_def]
    have f: "phase net' = (phase net)(r := RUNNING)" "ctl net' = (ctl net)(r := card (others p root))"
      "pend net' = pend mid" "flag net' = flag mid" "apend net' = apend mid" "aflag net' = aflag mid" "buf net' = buf net"
      using True p m by (auto simp: n' bs_start_def mid_def [symmetric] cnet others_card [OF ok])
    have s: "bs_sent p root net = {}" "bs_sent p root net' = others p root" "bs_done p root net' = bs_done p root net"
      using ph True by (auto simp: bs_sent_def bs_done_def f others_def)
    have "bs_wires p root (others p root) (bs_done p root net) B mid"
      using post_all_wires [OF B(1), of "bs_targets p root"] bs_targets [OF ok] by (simp add: s mid_def)
    then have "bs_wires p root (bs_sent p root net') (bs_done p root net') B net'"
      unfolding s bs_wires_def by (rule wires_same) (simp_all add: f)
    moreover have "bs_root p root B net'"
    proof -
      have "B = {}"
      proof (rule ccontr)
        assume "B \<noteq> {}"
        then obtain q where "q \<in> B" by blast
        then have "on root (bs_sent p root net) (bs_chan root q)"
          using wires_seen [OF B(1) [unfolded bs_wires_def], of "bs_chan root q"]
            wires_rcvd [OF B(1) [unfolded bs_wires_def], of "bs_chan root q"] by simp
        then show False by (simp add: s)
      qed
      moreover have "others p root \<noteq> {}" using others_card [OF ok] by (auto simp: bs_targets_def Let_def)
      ultimately show ?thesis using True by (auto simp: bs_root_def f)
    qed
    moreover have "bs_data p root x net'" using d ph True by (auto simp: bs_data_def f m others_def)
    ultimately have "bs_inv p root x net'" using i by (auto simp: bs_inv_def f)
    moreover have "posted (bs_chans p root) net' \<le> posted (bs_chans p root) net + card (others p root)"
      using post_all_posted [of "bs_targets p root" p root net] bs_targets [OF ok] others_card [OF ok]
      by (simp add: posted_same [OF f(3,5)] mid_def)
    then have "bs_left p root net' < bs_left p root net"
    proof (rule bs_work_change [OF r f(1,2)])
      have "card (others p root) = p - 1" using p by (simp add: others_def)
      then show "bs_work p RUNNING (card (others p root)) + card (others p root) < bs_work p (phase net r) (ctl net r)"
        using p by (simp add: bs_work_def ph)
    qed
    ultimately show ?thesis ..
  qed
qed

lemma bs_root_trigger_ok:
  assumes i: "bs_inv p root x net" and ph: "phase net root = RUNNING"
    and n': "net' = trigger_result (bs_impl p n root root) root net"
  shows "bs_inv p root x net' \<and> bs_left p root net' < bs_left p root net \<or>
    net' = net \<and> (\<forall>q \<in> others p root. aflag net (bs_chan root q) \<longrightarrow> False)"
proof -
  obtain B where B: "bs_wires p root (bs_sent p root net) (bs_done p root net) B net" "bs_root p root B net"
    and d: "bs_data p root x net" and ok: "bs_ok p root" using i by (auto simp: bs_inv_def)
  have p: "p \<noteq> 1" "root < p" using ok by (simp_all add: bs_ok_def)
  define mid where "mid = bs_poll root (bs_targets p root) net"
  from B(2) ph have Bs: "B \<subseteq> others p root" "B \<noteq> others p root" "ctl net root + card B = card (others p root)"
    by (auto simp: bs_root_def)
  from poll_spec [OF B(1) _ Bs(1,3), of "bs_targets p root"] bs_targets(1) [OF ok] obtain B' where
    B': "bs_wires p root (bs_sent p root net) (bs_done p root net) B' mid" "B' \<subseteq> others p root" "B \<subseteq> B'"
      "\<forall>q \<in> others p root. aflag net (bs_chan root q) \<longrightarrow> q \<in> B'" "ctl mid root + card B' = card (others p root)"
      "B' = B \<longrightarrow> mid = net"
    and e: "phase mid = phase net" "buf mid = buf net" "flag mid = flag net" "pend mid = pend net"
      "apend mid = apend net" "\<forall>r. r \<noteq> root \<longrightarrow> ctl mid r = ctl net r"
    by (auto simp: mid_def)
  let ?st = "if ctl mid root = 0 then FINISHED else RUNNING"
  have n'': "net' = set_phase root (?st, mid)"
    unfolding n' using p by (simp add: trigger_result_def bs_impl_def bs_trigger_def Let_def mid_def)
  have full: "ctl mid root = 0 \<longleftrightarrow> B' = others p root"
    using B'(2,5) card_subset_eq [OF others_fin B'(2)] by auto
  show ?thesis
  proof (cases "B' = B")
    case True
    then have "mid = net" "ctl mid root \<noteq> 0" using B'(6) full Bs(2) by auto
    moreover have "\<not> aflag net (bs_chan root q)" if "q \<in> others p root" for q
      using B'(4) that True wires_aflag [OF B(1) [unfolded bs_wires_def], of "bs_chan root q"] by auto
    ultimately show ?thesis using ph by (simp add: n'' set_phase_same)
  next
    case False
    have f: "phase net' = (phase net)(root := ?st)" "ctl net' = (ctl net)(root := ctl mid root)" "pend net' = pend net"
      "flag net' = flag net" "apend net' = apend net" "aflag net' = aflag mid" "buf net' = buf net"
      using e by (auto simp: n'' cnet fun_eq_iff)
    have s: "bs_sent p root net' = bs_sent p root net" "bs_done p root net' = bs_done p root net"
      using ph by (auto simp: bs_sent_def bs_done_def f others_def)
    have "bs_wires p root (bs_sent p root net') (bs_done p root net') B' net'"
      using B'(1) unfolding s bs_wires_def by (rule wires_same) (simp_all add: f e)
    moreover have "bs_root p root B' net'" using B'(2,5) full by (auto simp: bs_root_def f)
    moreover have "bs_data p root x net'" using d ph by (auto simp: bs_data_def f others_def)
    ultimately have "bs_inv p root x net'" using i by (auto simp: bs_inv_def f)
    moreover have "card B < card B'"
      using False B'(2,3) by (intro psubset_card_mono) (auto intro: finite_subset [OF _ others_fin])
    then have "bs_left p root net' < bs_left p root net"
      by (intro bs_work_change [OF p(2) f(1,2), where d = 0])
        (use Bs(3) B'(5) in \<open>auto simp: posted_same [OF f(3,5)] bs_work_def ph\<close>)
    ultimately show ?thesis by blast
  qed
qed

lemma bs_other_trigger_ok:
  assumes i: "bs_inv p root x net" and r: "r \<in> others p root" and ph: "phase net r = RUNNING"
    and n': "net' = trigger_result (bs_impl p n root r) r net"
  shows "bs_inv p root x net' \<and> bs_left p root net' < bs_left p root net \<or>
    net' = net \<and> \<not> flag net (bs_chan root r)"
proof -
  obtain B where B: "bs_wires p root (bs_sent p root net) (bs_done p root net) B net" "bs_root p root B net"
    and d: "bs_data p root x net" and ok: "bs_ok p root" using i by (auto simp: bs_inv_def)
  have p: "p \<noteq> 1" "root < p" "r < p" "r \<noteq> root" using ok r by (simp_all add: bs_ok_def others_def)
  define mid where "mid = snd (checkForCompletion (bs_chan root r) net)"
  have n'': "net' = (if flag net (bs_chan root r) then set_phase r (FINISHED, ackTransfer (bs_chan root r) mid) else net)"
    unfolding n' using p ph
    by (simp add: trigger_result_def bs_impl_def bs_trigger_def mid_def checkForCompletion_def set_phase_same)
  show ?thesis
  proof (cases "flag net (bs_chan root r)")
    case True
    have f: "phase net' = (phase net)(r := FINISHED)" "ctl net' = (ctl net)(r := ctl net r)" "pend net' = pend net"
      "flag net' = (flag net)(bs_chan root r := False)" "buf net' = buf net"
      using True by (auto simp: n'' mid_def cnet)
    have s: "bs_sent p root net' = bs_sent p root net" "bs_done p root net' = insert r (bs_done p root net)"
      using r p(4) by (auto simp: bs_sent_def bs_done_def f)
    have c: "bs_chan root r \<in> bs_chans p root" using r by (simp add: bs_chans_def)
    have nd: "r \<notin> bs_done p root net" using ph by (simp add: bs_done_def)
    let ?F = "on root (bs_done p root net)" and ?F' = "on root (insert r (bs_done p root net))"
    have "wires (bs_chans p root) (on root (bs_sent p root net)) ?F' ?F (on root B) mid"
      unfolding mid_def by (rule wires_receive [OF B(1) [unfolded bs_wires_def] True]) (rule on_insert)
    then have "wires (bs_chans p root) (on root (bs_sent p root net)) ?F' ?F' (on root B) (ackTransfer (bs_chan root r) mid)"
      by (rule wires_ack [OF _ c]) (simp add: nd, rule on_insert)
    then have "bs_wires p root (bs_sent p root net') (bs_done p root net') B net'"
      unfolding s bs_wires_def by (rule wires_same) (simp_all add: n'' True cnet)
    moreover have "bs_root p root B net'" using B(2) p by (auto simp: bs_root_def f)
    moreover have "bs_data p root x net'" using d ph True r p by (auto simp: bs_data_def f)
    ultimately have "bs_inv p root x net'" using i by (auto simp: bs_inv_def f)
    moreover have "posted (bs_chans p root) mid = posted (bs_chans p root) net"
      by (rule posted_same) (simp_all add: mid_def cnet)
    then have "posted (bs_chans p root) net' \<le> posted (bs_chans p root) net + 1"
      using posted_ackTransfer [OF bs_chans_fin c, of mid] True
      by (simp add: n'' posted_same [of "set_phase _ _" "ackTransfer _ _"] cnet)
    then have "bs_left p root net' < bs_left p root net"
      by (rule bs_work_change [OF p(3) f(1,2)]) (simp add: bs_work_def ph)
    ultimately show ?thesis by blast
  qed (use n'' in simp)
qed

lemma bs_deliver_ok:
  assumes i: "bs_inv p root x net" and c: "0 < pend net c"
  shows "bs_inv p root x (deliver c net) \<and> bs_left p root (deliver c net) < bs_left p root net"
proof -
  obtain B where B: "bs_wires p root (bs_sent p root net) (bs_done p root net) B net" "bs_root p root B net"
    and d: "bs_data p root x net" using i by (auto simp: bs_inv_def)
  from wires_pend [OF B(1) [unfolded bs_wires_def] c] obtain r where
    r: "r \<in> bs_sent p root net" "c = bs_chan root r" "c \<in> bs_chans p root" by (auto simp: on_def)
  have s: "bs_sent p root (deliver c net) = bs_sent p root net" "bs_done p root (deliver c net) = bs_done p root net"
    "bs_root p root B (deliver c net) = bs_root p root B net"
    by (simp_all add: bs_sent_def bs_done_def bs_root_def cnet)
  have "bs_wires p root (bs_sent p root (deliver c net)) (bs_done p root (deliver c net)) B (deliver c net)"
    unfolding s bs_wires_def by (rule wires_deliver [OF B(1) [unfolded bs_wires_def] c])
  moreover have "bs_data p root x (deliver c net)"
  proof -
    have "buf net root BsSource = x" using r(1) d by (auto simp: bs_sent_def bs_data_def split: if_splits)
    then have b: "buf (deliver c net) q BsTarget = (if q = r then x else buf net q BsTarget)"
      "buf (deliver c net) q BsSource = buf net q BsSource" for q
      by (simp_all add: r(2) bs_chan_def cnet)
    have fl: "flag (deliver c net) (bs_chan root q) = (flag net (bs_chan root q) \<or> q = r)" for q
      by (simp add: r(2) cnet)
    have ph: "phase (deliver c net) = phase net" by (simp add: cnet)
    show ?thesis using d unfolding bs_data_def b fl ph by simp
  qed
  ultimately have "bs_inv p root x (deliver c net)" using i B(2) s(3) by (auto simp: bs_inv_def cnet)
  moreover have "ranks_work p (bs_work p) (deliver c net) = ranks_work p (bs_work p) net"
    by (rule ranks_work_same) (simp_all add: cnet)
  ultimately show ?thesis
    using posted_deliver [OF bs_chans_fin r(3) c] by (simp add: bs_left_def)
qed

lemma bs_deliver_ack_ok:
  assumes i: "bs_inv p root x net" and c: "0 < apend net c"
  shows "bs_inv p root x (deliver_ack c net) \<and> bs_left p root (deliver_ack c net) < bs_left p root net"
proof -
  obtain B where B: "bs_wires p root (bs_sent p root net) (bs_done p root net) B net" "bs_root p root B net"
    and d: "bs_data p root x net" using i by (auto simp: bs_inv_def)
  have C: "c \<in> bs_chans p root" using wires_apend [OF B(1) [unfolded bs_wires_def] c] by blast
  have s: "bs_sent p root (deliver_ack c net) = bs_sent p root net" "bs_done p root (deliver_ack c net) = bs_done p root net"
    "bs_root p root B (deliver_ack c net) = bs_root p root B net" "bs_data p root x (deliver_ack c net) = bs_data p root x net"
    by (simp_all add: bs_sent_def bs_done_def bs_root_def bs_data_def cnet)
  have "bs_wires p root (bs_sent p root (deliver_ack c net)) (bs_done p root (deliver_ack c net)) B (deliver_ack c net)"
    unfolding s bs_wires_def by (rule wires_deliver_ack [OF B(1) [unfolded bs_wires_def] c])
  then have "bs_inv p root x (deliver_ack c net)" using i B(2) s(3,4) by (auto simp: bs_inv_def cnet)
  moreover have "ranks_work p (bs_work p) (deliver_ack c net) = ranks_work p (bs_work p) net"
    by (rule ranks_work_same) (simp_all add: cnet)
  ultimately show ?thesis
    using posted_deliver_ack [OF bs_chans_fin C c] by (simp add: bs_left_def)
qed

lemma bs_can_move:
  assumes i: "bs_inv p root x net" and all: "\<forall>r < p. phase net r = RUNNING \<or> phase net r = FINISHED"
    and quiet: "\<forall>c. pend net c = 0 \<and> apend net c = 0"
    and stuck: "\<forall>r < p. phase net r = RUNNING \<longrightarrow> trigger_result (bs_impl p n root r) r net = net"
  shows "\<forall>r < p. phase net r = FINISHED"
proof -
  obtain B where B: "bs_wires p root (bs_sent p root net) (bs_done p root net) B net" "bs_root p root B net"
    and ok: "bs_ok p root" using i by (auto simp: bs_inv_def)
  have p: "root < p" using ok by (simp add: bs_ok_def)
  have o: "phase net r = FINISHED" if r: "r \<in> others p root" for r
  proof (rule ccontr)
    assume "phase net r \<noteq> FINISHED"
    then have run: "phase net r = RUNNING" using all r by (auto simp: others_def)
    then have "\<not> flag net (bs_chan root r)" using bs_other_trigger_ok [where n = n, OF i r run refl] stuck r by (auto simp: others_def)
    moreover have "on root (bs_sent p root net) (bs_chan root r)" using all p r by (simp add: bs_sent_def)
    ultimately have "on root (bs_done p root net) (bs_chan root r)"
      using wires_quiet [OF B(1) [unfolded bs_wires_def]] quiet by blast
    then show False using run by (simp add: bs_done_def)
  qed
  have "phase net root = FINISHED"
  proof (rule ccontr)
    assume "phase net root \<noteq> FINISHED"
    then have run: "phase net root = RUNNING" using all p by blast
    with B(2) obtain q where q: "q \<in> others p root" "q \<notin> B" by (auto simp: bs_root_def)
    have "on root (bs_done p root net) (bs_chan root q)" using o q by (simp add: bs_done_def)
    then have "aflag net (bs_chan root q)"
      using wires_quiet_ack [OF B(1) [unfolded bs_wires_def]] quiet q(2) by (metis on_chan)
    with bs_root_trigger_ok [where n = n, OF i run refl] stuck p run q(1) show False by auto
  qed
  with o show ?thesis by (auto simp: others_def)
qed

lemma bs_inv_init: "bs_ok p root \<Longrightarrow> coll_init p net \<Longrightarrow> bs_inv p root x net"
proof -
  assume ok: "bs_ok p root" and init: "coll_init p net"
  have ph: "phase net r = INITIALIZED" if "r < p" for r using init that by (simp add: coll_init_def)
  have p: "phase net root = INITIALIZED" "bs_done p root net = {}" "bs_sent p root net = {}"
    using ph ok by (auto simp: bs_ok_def bs_done_def bs_sent_def others_def)
  have e: "on root {} = (\<lambda>_. False)" by (simp add: on_def fun_eq_iff)
  have "bs_wires p root {} {} {} net" using wires_init [OF init] by (simp add: bs_wires_def e)
  moreover have "bs_data p root x net"
    using init ok by (auto simp: bs_data_def coll_init_def bs_ok_def others_def)
  moreover have "bs_root p root {} net" by (simp add: bs_root_def p)
  ultimately show ?thesis using ok ph p by (auto simp: bs_inv_def)
qed

interpretation bs: one_execution p "bs_impl p n root" inp "bs_ok p root"
  "bs_inv p root (take n (inp root))" "bs_left p root"
proof
  fix net net' :: "'a bs_net" and r c
  let ?inv = "bs_inv p root (take n (inp root))"
  show "bs_ok p root \<Longrightarrow> coll_init p net \<Longrightarrow> ?inv net" by (rule bs_inv_init)
  assume i: "?inv net"
  have p: "root < p" using i by (simp add: bs_inv_def bs_ok_def)
  show "0 < pend net c \<Longrightarrow> ?inv (deliver c net) \<and> bs_left p root (deliver c net) < bs_left p root net"
    by (rule bs_deliver_ok [OF i])
  show "0 < apend net c \<Longrightarrow> ?inv (deliver_ack c net) \<and> bs_left p root (deliver_ack c net) < bs_left p root net"
    by (rule bs_deliver_ack_ok [OF i])
  show "\<exists>r < p. phase net r = RUNNING \<and> trigger_result (bs_impl p n root r) r net \<noteq> net"
    if "\<forall>r < p. phase net r = RUNNING \<or> phase net r = FINISHED" "\<forall>c. pend net c = 0 \<and> apend net c = 0"
      "\<not> finished_all p net"
    using bs_can_move [OF i that(1,2)] that(3) by (auto simp: finished_all_def)
  assume r: "r < p"
  show "phase net r \<noteq> UNINITIALIZED" using i r by (simp add: bs_inv_def)
  show "?inv net' \<and> bs_left p root net' < bs_left p root net"
    if "phase net r = INITIALIZED" "net' = set_phase r (READY, copyInImpl (bs_impl p n root r) (inp r) net)"
    using bs_copyIn_ok [where inp = inp, OF i r] that by (simp add: bs_impl_def)
  show "?inv net' \<and> bs_left p root net' < bs_left p root net"
    if "phase net r = READY" "net' = set_phase r (RUNNING, startImpl (bs_impl p n root r) net)"
    using bs_start_ok [OF i r] that by (simp add: bs_impl_def)
  show "?inv net' \<and> bs_left p root net' < bs_left p root net"
    if "phase net r = RUNNING" "net' = trigger_result (bs_impl p n root r) r net" "net' \<noteq> net"
    using bs_root_trigger_ok [OF i, of net' n] bs_other_trigger_ok [OF i _ that(1,2)] that r
    by (cases "r = root") (auto simp: others_def)
qed

section \<open>Properties\<close>

definition bs_net0 :: "nat bs_net" where
  "bs_net0 = \<lparr>phase = \<lambda>_. INITIALIZED, ctl = \<lambda>_. 0, buf = \<lambda>_ _. [0], pend = \<lambda>_. 0, flag = \<lambda>_. False,
     apend = \<lambda>_. 0, aflag = \<lambda>_. False\<rparr>"

lemma bs_net0_init: "coll_init p bs_net0"
  by (simp add: bs_net0_def coll_init_def)

text \<open>
  Property C12. Send-to-all broadcast: for every root, number of ranks up to \<open>2 ^ 16\<close>, interleaving
  and delivery order, a finished rank copies out the root's elements, the root finishes only when
  all other ranks have, and every reachable state can be continued until all ranks are finished.
\<close>

theorem broadcast_sendtoall_correct:
  assumes "2 \<le> p" "p \<le> 2 ^ 16" "root < p" "n \<le> length (inp root)"
    and "coll_init p n0" "gaspi_env env" "coll_reach env (bs_impl p n root) p inp n0 net"
  shows "(\<forall>r < p. phase net r = FINISHED \<longrightarrow>
            copyOutImpl (bs_impl p n root r) net out = take n (inp root) @ drop n out) \<and>
    (phase net root = FINISHED \<longrightarrow> (\<forall>r < p. phase net r = FINISHED)) \<and>
    (gaspi_live env \<longrightarrow>
       (\<exists>net'. coll_reach env (bs_impl p n root) p inp net net' \<and> (\<forall>r < p. phase net' r = FINISHED)))"
proof -
  have ok: "bs_ok p root" using assms by (simp add: bs_ok_def)
  note i = bs.reach_inv [OF assms(7) ok assms(5,6)]
  have "copyOutImpl (bs_impl p n root r) net out = take n (inp root) @ drop n out"
    if r: "r < p" "phase net r = FINISHED" for r
  proof -
    have d: "bs_data p root (take n (inp root)) net" using i by (simp add: bs_inv_def)
    then have "buf net r (if r = root then BsSource else BsTarget) = take n (inp root)"
      using r by (auto simp: bs_data_def others_def)
    then show ?thesis using assms(4) by (auto simp: bs_impl_def bs_copyOut_def write_at_def)
  qed
  moreover have "\<forall>r < p. phase net r = FINISHED" if f: "phase net root = FINISHED"
  proof -
    obtain B where B: "bs_wires p root (bs_sent p root net) (bs_done p root net) B net" "bs_root p root B net"
      using i by (auto simp: bs_inv_def)
    then have "B = others p root" using f by (simp add: bs_root_def)
    then have "r \<in> bs_done p root net" if "r \<in> others p root" for r
      using wires_seen [OF B(1) [unfolded bs_wires_def], of "bs_chan root r"] that by simp
    with f show ?thesis by (auto simp: bs_done_def others_def)
  qed
  moreover have "\<exists>net'. coll_reach env (bs_impl p n root) p inp net net' \<and> finished_all p net'" if "gaspi_live env"
    by (rule bs.completes) (fact i assms(6) that)+
  ultimately show ?thesis unfolding finished_all_def by blast
qed

lemma broadcast_sendtoall_correct_witness:
  "\<exists>net'. coll_reach any_env (bs_impl 3 1 2) 3 (\<lambda>r. [r]) bs_net0 net' \<and> (\<forall>r < 3. phase net' r = FINISHED)"
  by (rule broadcast_sendtoall_correct [OF _ _ _ _ bs_net0_init any_env_gaspi(1) rtranclp.rtrancl_refl,
      of 3 2 1 "\<lambda>r. [r]", THEN conjunct2, THEN conjunct2, THEN mp, OF _ _ _ _ any_env_gaspi(2)]) simp_all

end
