(* ===== verification/Allreduce_Doubling.thy ===== *)
theory Allreduce_Doubling
  imports Collective_Run Allreduce_Ring
begin

unbundle bit_operations_syntax

text \<open>
  \<open>AllreduceRecursiveDoubling.hpp\<close>: the model.  The largest power of two of ranks exchanges whole
  vectors at distance \<open>1, 2, 4, ...\<close>; the remaining ranks hand their input to a neighbour first
  and get the result back at the end.
\<close>

section \<open>Ranks and their roles\<close>

text \<open>The truncated binary logarithm (of a number below \<open>2 ^ 48\<close>, where the C++ code's detour over
  \<open>double\<close> is exact).\<close>

fun floor_log2 :: "nat \<Rightarrow> nat" where
  "floor_log2 n = (if n \<le> 1 then 0 else Suc (floor_log2 (n div 2)))"

declare floor_log2.simps [simp del]

definition nearest_power_of_two_less_equal :: "nat \<Rightarrow> nat" where
  "nearest_power_of_two_less_equal i = (let exponent = floor_log2 i in 2 ^ exponent)"

definition number_ranks_used :: "nat \<Rightarrow> nat" where
  "number_ranks_used p = nearest_power_of_two_less_equal p"

definition number_ranks_rest :: "nat \<Rightarrow> nat" where
  "number_ranks_rest p = p - number_ranks_used p"

definition number_iterations :: "nat \<Rightarrow> nat" where
  "number_iterations p = floor_log2 (number_ranks_used p)"

definition is_extra_rank :: "nat \<Rightarrow> nat \<Rightarrow> bool" where
  "is_extra_rank p r = (r \<ge> 2 * number_ranks_rest p)"

definition is_non_extra_rank :: "nat \<Rightarrow> nat \<Rightarrow> bool" where
  "is_non_extra_rank p r = (\<not> is_extra_rank p r)"

definition is_even_non_extra_rank :: "nat \<Rightarrow> nat \<Rightarrow> bool" where
  "is_even_non_extra_rank p r = (r mod 2 = 0 \<and> is_non_extra_rank p r)"

definition is_odd_non_extra_rank :: "nat \<Rightarrow> nat \<Rightarrow> bool" where
  "is_odd_non_extra_rank p r = (r mod 2 = 1 \<and> is_non_extra_rank p r)"

definition is_active_rank :: "nat \<Rightarrow> nat \<Rightarrow> bool" where
  "is_active_rank p r = (is_even_non_extra_rank p r \<or> is_extra_rank p r)"

definition is_power_two_case :: "nat \<Rightarrow> bool" where
  "is_power_two_case p = (number_ranks_rest p = 0)"

definition is_last_iteration :: "nat \<Rightarrow> nat \<Rightarrow> bool" where
  "is_last_iteration p iteration = (iteration = number_iterations p - 1)"

definition relabeled_rank :: "nat \<Rightarrow> nat \<Rightarrow> nat" where
  "relabeled_rank p r = (if r < 2 * number_ranks_rest p then r div 2 else r - number_ranks_rest p)"

definition old_rank :: "nat \<Rightarrow> nat \<Rightarrow> nat" where
  "old_rank p j =
     (if j < number_ranks_rest p then as_rank (j * 2) else as_rank (j + number_ranks_rest p))"

definition neighbor :: "nat \<Rightarrow> nat \<Rightarrow> nat \<Rightarrow> nat" where
  "neighbor p r iteration = (let distance = 2 ^ iteration in old_rank p (relabeled_rank p r XOR distance))"

definition pair_neighbor :: "nat \<Rightarrow> nat" where
  "pair_neighbor r = as_rank (r XOR 1)"

section \<open>The object of a rank\<close>

text \<open>
  \<open>RdSource\<close> is the memory that all source buffers of an active rank share (the one of the
  non-power-of-two case included); \<open>NptSource\<close> is the source of a non-active rank; \<open>RdTarget i\<close>
  and \<open>NptTarget\<close> are the target buffers.
\<close>

datatype rd_slot = RdSource | RdTarget nat | NptSource | NptTarget | RdOneRank

datatype AlgStage = NOT_STARTED | WAIT_FOR_DATA | WAIT_FOR_ACK
  | INITIAL_STEP_NON_POWER_TWO | FINAL_STEP_NON_POWER_TWO

record rd_ctl =
  iteration :: nat
  alg_stage :: AlgStage

type_synonym 'a rd_net = "(rd_ctl, rd_slot, 'a list) net"

definition npt_source :: "nat \<Rightarrow> nat \<Rightarrow> rd_slot" where
  "npt_source p r = (if is_even_non_extra_rank p r then RdSource else NptSource)"

definition data_chan :: "nat \<Rightarrow> nat \<Rightarrow> nat \<Rightarrow> rd_slot chan" where
  "data_chan p r i = \<lparr>c_src = r, c_sslot = RdSource, c_dst = neighbor p r i, c_dslot = RdTarget i, c_tag = i\<rparr>"

definition npt_chan :: "nat \<Rightarrow> nat \<Rightarrow> rd_slot chan" where
  "npt_chan p r = \<lparr>c_src = r, c_sslot = npt_source p r, c_dst = pair_neighbor r, c_dslot = NptTarget,
     c_tag = number_iterations p\<rparr>"

definition rd_connections :: "nat \<Rightarrow> nat \<Rightarrow> nat \<Rightarrow> rd_slot endpoint list" where
  "rd_connections p number_elements r =
     (if number_elements > 0 \<and> p > 1 then
        (if is_active_rank p r
         then concat (map (\<lambda>i.
                [\<lparr>ep_source = True, ep_slot = RdSource, ep_partner = neighbor p r i, ep_tag = i\<rparr>,
                 \<lparr>ep_source = False, ep_slot = RdTarget i, ep_partner = neighbor p r i, ep_tag = i\<rparr>])
                [0..<number_iterations p])
         else []) @
        (if is_non_extra_rank p r
         then [\<lparr>ep_source = True, ep_slot = npt_source p r, ep_partner = pair_neighbor r, ep_tag = number_iterations p\<rparr>,
               \<lparr>ep_source = False, ep_slot = NptTarget, ep_partner = pair_neighbor r, ep_tag = number_iterations p\<rparr>]
         else [])
      else [])"

definition rd_start :: "nat \<Rightarrow> nat \<Rightarrow> nat \<Rightarrow> 'a rd_net \<Rightarrow> 'a rd_net" where
  "rd_start p number_elements r net =
     (if number_elements = 0 \<or> p = 1 then net
      else
        let stage = (if is_non_extra_rank p r then INITIAL_STEP_NON_POWER_TWO else WAIT_FOR_DATA);
            net1 = set_ctl r \<lparr>iteration = 0, alg_stage = stage\<rparr> net;
            net2 = (if is_extra_rank p r then initTransfer (data_chan p r 0) net1 else net1)
        in if is_odd_non_extra_rank p r then initTransfer (npt_chan p r) net2 else net2)"

definition rd_reduce :: "('a \<Rightarrow> 'a \<Rightarrow> 'a) \<Rightarrow> nat \<Rightarrow> rd_slot \<Rightarrow> 'a rd_net \<Rightarrow> 'a rd_net" where
  "rd_reduce f r target net =
     set_buf r ((buf net r)(RdSource := apply_reduce_op f (buf net r RdSource) (buf net r target))) net"

text \<open>The end of \<open>triggerProgressImpl\<close>: the last iteration sends the result back.\<close>

definition rd_advance :: "nat \<Rightarrow> nat \<Rightarrow> 'a rd_net \<Rightarrow> bool \<times> 'a rd_net" where
  "rd_advance p r net =
     (let s = ctl net r;
          net1 = (if is_last_iteration p (iteration s)
                  then set_ctl r (s\<lparr>alg_stage := FINAL_STEP_NON_POWER_TWO\<rparr>)
                         (if is_even_non_extra_rank p r then initTransfer (npt_chan p r) net else net)
                  else net)
      in (False, set_ctl r ((ctl net1 r)\<lparr>iteration := iteration s + 1\<rparr>) net1))"

definition rd_final :: "nat \<Rightarrow> nat \<Rightarrow> 'a rd_net \<Rightarrow> bool \<times> 'a rd_net" where
  "rd_final p r net =
     (if is_power_two_case p then (True, net)
      else if is_even_non_extra_rank p r then checkForTransferAck (npt_chan p r) net
      else if is_odd_non_extra_rank p r then
        case checkForCompletion (npt_chan p (pair_neighbor r)) net of
          (done, net1) \<Rightarrow> (done, if done then ackTransfer (npt_chan p (pair_neighbor r)) net1 else net1)
      else (True, net))"

definition rd_active :: "nat \<Rightarrow> ('a \<Rightarrow> 'a \<Rightarrow> 'a) \<Rightarrow> nat \<Rightarrow> 'a rd_net \<Rightarrow> bool \<times> 'a rd_net" where
  "rd_active p f r net =
     (let s = ctl net r; i = iteration s; from = data_chan p (neighbor p r i) i in
      case (if alg_stage s = WAIT_FOR_DATA then checkForCompletion from net
            else if alg_stage s = WAIT_FOR_ACK then checkForTransferAck (data_chan p r i) net
            else (False, net)) of
        (made_progress, net1) \<Rightarrow>
          if \<not> made_progress then (False, net1)
          else if alg_stage s = WAIT_FOR_DATA
          then (False, set_ctl r (s\<lparr>alg_stage := WAIT_FOR_ACK\<rparr>) (ackTransfer from net1))
          else
            let net2 = rd_reduce f r (RdTarget i) net1
            in rd_advance p r
                 (if \<not> is_last_iteration p i
                  then set_ctl r (s\<lparr>alg_stage := WAIT_FOR_DATA\<rparr>) (initTransfer (data_chan p r (i + 1)) net2)
                  else net2))"

definition rd_rest :: "nat \<Rightarrow> ('a \<Rightarrow> 'a \<Rightarrow> 'a) \<Rightarrow> nat \<Rightarrow> 'a rd_net \<Rightarrow> bool \<times> 'a rd_net" where
  "rd_rest p f r net =
     (if alg_stage (ctl net r) = FINAL_STEP_NON_POWER_TWO then rd_final p r net
      else if is_active_rank p r then rd_active p f r net
      else rd_advance p r net)"

definition rd_trigger :: "nat \<Rightarrow> nat \<Rightarrow> ('a \<Rightarrow> 'a \<Rightarrow> 'a) \<Rightarrow> nat \<Rightarrow> 'a rd_net \<Rightarrow> bool \<times> 'a rd_net" where
  "rd_trigger p number_elements f r net =
     (if number_elements = 0 \<or> p = 1 then (True, net)
      else if is_even_non_extra_rank p r \<and> alg_stage (ctl net r) = INITIAL_STEP_NON_POWER_TWO then
        case checkForCompletion (npt_chan p (pair_neighbor r)) net of
          (made_progress, net1) \<Rightarrow>
            if \<not> made_progress then (False, net1)
            else rd_rest p f r
                   (set_ctl r ((ctl net r)\<lparr>alg_stage := WAIT_FOR_DATA\<rparr>)
                     (initTransfer (data_chan p r (iteration (ctl net r))) (rd_reduce f r NptTarget net1)))
      else rd_rest p f r net)"

definition rd_copyIn :: "nat \<Rightarrow> nat \<Rightarrow> nat \<Rightarrow> 'a list \<Rightarrow> 'a rd_net \<Rightarrow> 'a rd_net" where
  "rd_copyIn p number_elements r inputs net =
     (let data = take number_elements inputs; write = (\<lambda>sl. set_buf r ((buf net r)(sl := data)) net) in
      if number_elements > 0 \<and> p > 1 then
        if is_active_rank p r then write RdSource else write NptSource
      else if number_elements > 0 \<and> p = 1 then write RdOneRank
      else net)"

definition rd_copyOut :: "nat \<Rightarrow> nat \<Rightarrow> nat \<Rightarrow> 'a rd_net \<Rightarrow> 'a list \<Rightarrow> 'a list" where
  "rd_copyOut p number_elements r net out =
     (if number_elements > 0 \<and> p > 1 then
        if is_active_rank p r then write_at 0 (buf net r RdSource) out else write_at 0 (buf net r NptTarget) out
      else if number_elements > 0 \<and> p = 1 then write_at 0 (buf net r RdOneRank) out
      else out)"

definition rd_impl :: "nat \<Rightarrow> nat \<Rightarrow> ('a \<Rightarrow> 'a \<Rightarrow> 'a) \<Rightarrow> nat \<Rightarrow> ('a rd_net, 'a list, 'a list \<Rightarrow> 'a list) coll_impl" where
  "rd_impl p n f r =
     \<lparr>waitForSetupImpl = (\<lambda>net. net), copyInImpl = rd_copyIn p n r, startImpl = rd_start p n r,
      triggerProgressImpl = rd_trigger p n f r, copyOutImpl = rd_copyOut p n r\<rparr>"

section \<open>Powers of two\<close>

lemma floor_log2_bounds: "0 < n \<Longrightarrow> 2 ^ floor_log2 n \<le> n \<and> n < 2 ^ Suc (floor_log2 n)"
proof (induction n rule: floor_log2.induct)
  case (1 n)
  show ?case
  proof (cases "n \<le> 1")
    case True
    with 1 show ?thesis by (simp add: floor_log2.simps [of n])
  next
    case False
    with 1 have "2 ^ floor_log2 (n div 2) \<le> n div 2 \<and> n div 2 < 2 ^ Suc (floor_log2 (n div 2))" by simp
    with False show ?thesis by (subst (1 2) floor_log2.simps) auto
  qed
qed

lemma floor_log2_pow: "floor_log2 (2 ^ k) = k"
proof (induction k)
  case (Suc k)
  have "(0 :: nat) < 2 ^ k" by simp
  then have "\<not> (2 :: nat) ^ Suc k \<le> 1" unfolding power_Suc by linarith
  with Suc show ?case by (subst floor_log2.simps) simp
qed (simp add: floor_log2.simps)

lemma used_pow: "number_ranks_used p = 2 ^ number_iterations p"
  by (simp add: number_ranks_used_def number_iterations_def nearest_power_of_two_less_equal_def floor_log2_pow)

lemma used_bounds:
  "0 < p \<Longrightarrow> number_ranks_used p \<le> p \<and> p < 2 * number_ranks_used p \<and> p = number_ranks_used p + number_ranks_rest p"
  using floor_log2_bounds [of p]
  by (simp add: number_ranks_used_def nearest_power_of_two_less_equal_def number_ranks_rest_def)

lemma iterations_pos: "2 \<le> p \<Longrightarrow> 0 < number_iterations p"
  using used_bounds [of p] used_pow [of p] by (cases "number_iterations p") auto

section \<open>Labels\<close>

abbreviation Lp :: "nat \<Rightarrow> nat" where "Lp \<equiv> number_iterations"

lemmas rd_roles = is_active_rank_def is_even_non_extra_rank_def is_odd_non_extra_rank_def is_non_extra_rank_def
  is_extra_rank_def

lemma label_less: "2 \<le> p \<Longrightarrow> r < p \<Longrightarrow> is_active_rank p r \<Longrightarrow> relabeled_rank p r < 2 ^ Lp p"
  using used_bounds [of p] by (auto simp: relabeled_rank_def used_pow [symmetric])

lemma old_rank_label:
  "2 \<le> p \<Longrightarrow> p \<le> 2 ^ 16 \<Longrightarrow> r < p \<Longrightarrow> is_active_rank p r \<Longrightarrow> old_rank p (relabeled_rank p r) = r"
  using used_bounds [of p] by (auto simp: old_rank_def relabeled_rank_def rd_roles as_rank_def)

lemma old_rank:
  assumes "2 \<le> p" "p \<le> 2 ^ 16" "j < 2 ^ Lp p"
  shows "old_rank p j < p" "is_active_rank p (old_rank p j)" "relabeled_rank p (old_rank p j) = j"
proof -
  have b: "j < number_ranks_used p" "p = number_ranks_used p + number_ranks_rest p"
    "number_ranks_rest p < number_ranks_used p"
    using assms used_bounds [of p] by (auto simp: used_pow)
  then have e: "old_rank p j = (if j < number_ranks_rest p then j * 2 else j + number_ranks_rest p)"
    using assms(2) by (auto simp: old_rank_def as_rank_def)
  show "old_rank p j < p" "is_active_rank p (old_rank p j)" "relabeled_rank p (old_rank p j) = j"
    using b by (auto simp: e rd_roles relabeled_rank_def)
qed

lemma xor_less: "(j :: nat) < 2 ^ L \<Longrightarrow> k < L \<Longrightarrow> j XOR 2 ^ k < 2 ^ L"
proof -
  assume "j < 2 ^ L" "k < L"
  moreover have "(2 :: nat) ^ k < 2 ^ L" using \<open>k < L\<close> by simp
  ultimately have "take_bit L (j XOR 2 ^ k) = j XOR 2 ^ k" by (simp add: take_bit_nat_eq_self)
  then show ?thesis by (metis take_bit_nat_less_exp)
qed

lemma xor_neq: "(j :: nat) XOR 2 ^ k \<noteq> j"
proof
  assume "j XOR 2 ^ k = j"
  then have "j XOR (j XOR 2 ^ k) = 0" by simp
  then have "(j XOR j) XOR 2 ^ k = (0 :: nat)" by (simp only: xor.assoc)
  then show False by simp
qed

definition rd_ok :: "nat \<Rightarrow> nat \<Rightarrow> bool" where
  "rd_ok p n \<longleftrightarrow> 2 \<le> p \<and> p \<le> 2 ^ 16 \<and> 0 < n"

lemma neighbor_label:
  "rd_ok p n \<Longrightarrow> r < p \<Longrightarrow> is_active_rank p r \<Longrightarrow> k < Lp p \<Longrightarrow>
   relabeled_rank p (neighbor p r k) = relabeled_rank p r XOR 2 ^ k"
  by (simp add: neighbor_def rd_ok_def old_rank(3) xor_less label_less)

lemma neighbor:
  assumes "rd_ok p n" "r < p" "is_active_rank p r" "k < Lp p"
  shows "neighbor p r k < p" "is_active_rank p (neighbor p r k)" "neighbor p (neighbor p r k) k = r"
    "neighbor p r k \<noteq> r"
proof -
  have x: "relabeled_rank p r XOR 2 ^ k < 2 ^ Lp p" using assms by (intro xor_less label_less) (simp_all add: rd_ok_def)
  then show "neighbor p r k < p" "is_active_rank p (neighbor p r k)"
    using assms by (simp_all add: neighbor_def rd_ok_def old_rank(1,2))
  have "neighbor p (neighbor p r k) k = old_rank p ((relabeled_rank p r XOR 2 ^ k) XOR 2 ^ k)"
    using neighbor_label [OF assms] by (simp add: neighbor_def)
  then show "neighbor p (neighbor p r k) k = r"
    using assms by (simp add: xor.assoc old_rank_label rd_ok_def)
  show "neighbor p r k \<noteq> r" using neighbor_label [OF assms] xor_neq by metis
qed

lemma pair_neighbor:
  assumes "rd_ok p n" "r < p" "is_non_extra_rank p r"
  shows "pair_neighbor r = (if even r then r + 1 else r - 1)" "pair_neighbor r < p"
    "is_non_extra_rank p (pair_neighbor r)" "pair_neighbor (pair_neighbor r) = r" "pair_neighbor r \<noteq> r"
    "is_even_non_extra_rank p (pair_neighbor r) = is_odd_non_extra_rank p r"
    "is_odd_non_extra_rank p (pair_neighbor r) = is_even_non_extra_rank p r"
proof -
  have b: "p \<le> 65536" "r < 2 * number_ranks_rest p" "2 * number_ranks_rest p \<le> p"
    using assms used_bounds [of p] by (auto simp: rd_ok_def rd_roles)
  have x: "q XOR 1 = (if even q then q + 1 else q - 1)" for q :: nat
    by (simp add: xor_Suc_0_eq)
  have lt: "(if even q then q + 1 else q - 1) < 2 * number_ranks_rest p" if "q < 2 * number_ranks_rest p" for q
    using that by presburger
  have e: "pair_neighbor q = (if even q then q + 1 else q - 1)" if "q < 2 * number_ranks_rest p" for q
    using lt [OF that] b that unfolding pair_neighbor_def x as_rank_def by simp
  note e1 = e [OF b(2)] and l1 = lt [OF b(2)]
  show "pair_neighbor r = (if even r then r + 1 else r - 1)" by (rule e1)
  show "pair_neighbor r < p" unfolding e1 using l1 b by linarith
  show "is_non_extra_rank p (pair_neighbor r)" unfolding e1 using l1 by (simp add: rd_roles)
  show "pair_neighbor (pair_neighbor r) = r" unfolding e1 using e [OF l1] by (auto elim: oddE)
  show "pair_neighbor r \<noteq> r" unfolding e1 by (auto elim: oddE)
  have m: "(if even r then r + 1 else r - 1) mod 2 = (if r mod 2 = 0 then 1 else 0)" by presburger
  show "is_even_non_extra_rank p (pair_neighbor r) = is_odd_non_extra_rank p r"
    "is_odd_non_extra_rank p (pair_neighbor r) = is_even_non_extra_rank p r"
    using l1 assms(3) unfolding e1 is_even_non_extra_rank_def is_odd_non_extra_rank_def m
    by (auto simp: rd_roles)
qed

end
