(* ===== verification/Doubling_Correct.thy ===== *)
theory Doubling_Correct
  imports Allreduce_Doubling
begin

text \<open>The invariant of the recursive-doubling allreduce, kept by every step.\<close>

section \<open>Messages\<close>

text \<open>\<open>D r k\<close>: the vector that active rank \<open>r\<close> sends in iteration \<open>k\<close>; \<open>N r\<close>: what the non-extra
  rank \<open>r\<close> sends to the other rank of its pair.\<close>

datatype rd_id = D nat nat | N nat

definition rd_ids :: "nat \<Rightarrow> rd_id set" where
  "rd_ids p = {D r k | r k. r < p \<and> is_active_rank p r \<and> k < Lp p} \<union> {N r | r. r < p \<and> is_non_extra_rank p r}"

fun rd_chan :: "nat \<Rightarrow> rd_id \<Rightarrow> rd_slot chan" where
  "rd_chan p (D r k) = data_chan p r k"
| "rd_chan p (N r) = npt_chan p r"

lemma in_ids [simp]:
  "D r k \<in> rd_ids p \<longleftrightarrow> r < p \<and> is_active_rank p r \<and> k < Lp p"
  "N r \<in> rd_ids p \<longleftrightarrow> r < p \<and> is_non_extra_rank p r"
  by (auto simp: rd_ids_def)

lemma rd_chan_inj: "inj_on (rd_chan p) (rd_ids p)"
proof (rule inj_onI)
  fix i j assume "i \<in> rd_ids p" "j \<in> rd_ids p" "rd_chan p i = rd_chan p j"
  then show "i = j" by (cases i; cases j) (auto simp: data_chan_def npt_chan_def)
qed

lemma rd_ids_fin: "finite (rd_ids p)"
proof -
  have "rd_ids p \<subseteq> (\<lambda>(r, k). D r k) ` ({..<p} \<times> {..<Lp p}) \<union> N ` {..<p}" by (auto simp: rd_ids_def)
  then show ?thesis by (rule finite_subset) simp
qed

section \<open>What the ranks have done\<close>

definition going :: "cl_state \<Rightarrow> bool" where
  "going ph \<longleftrightarrow> ph = RUNNING \<or> ph = FINISHED"

fun stage_sent :: "nat \<Rightarrow> AlgStage \<Rightarrow> nat \<Rightarrow> nat" where
  "stage_sent L WAIT_FOR_DATA it = it + 1"
| "stage_sent L WAIT_FOR_ACK it = it + 1"
| "stage_sent L FINAL_STEP_NON_POWER_TWO it = L"
| "stage_sent L _ it = 0"

fun stage_rcvd :: "nat \<Rightarrow> AlgStage \<Rightarrow> nat \<Rightarrow> nat" where
  "stage_rcvd L WAIT_FOR_DATA it = it"
| "stage_rcvd L WAIT_FOR_ACK it = it + 1"
| "stage_rcvd L FINAL_STEP_NON_POWER_TWO it = L"
| "stage_rcvd L _ it = 0"

fun stage_seen :: "nat \<Rightarrow> AlgStage \<Rightarrow> nat \<Rightarrow> nat" where
  "stage_seen L WAIT_FOR_DATA it = it"
| "stage_seen L WAIT_FOR_ACK it = it"
| "stage_seen L FINAL_STEP_NON_POWER_TWO it = L"
| "stage_seen L _ it = 0"

abbreviation stg :: "'a rd_net \<Rightarrow> nat \<Rightarrow> AlgStage" where "stg net r \<equiv> alg_stage (ctl net r)"
abbreviation itr :: "'a rd_net \<Rightarrow> nat \<Rightarrow> nat" where "itr net r \<equiv> iteration (ctl net r)"

definition n_sent :: "nat \<Rightarrow> 'a rd_net \<Rightarrow> nat \<Rightarrow> nat" where
  "n_sent p net r = (if going (phase net r) then stage_sent (Lp p) (stg net r) (itr net r) else 0)"

definition n_rcvd :: "nat \<Rightarrow> 'a rd_net \<Rightarrow> nat \<Rightarrow> nat" where
  "n_rcvd p net r = (if going (phase net r) then stage_rcvd (Lp p) (stg net r) (itr net r) else 0)"

definition n_seen :: "nat \<Rightarrow> 'a rd_net \<Rightarrow> nat \<Rightarrow> nat" where
  "n_seen p net r = (if going (phase net r) then stage_seen (Lp p) (stg net r) (itr net r) else 0)"

fun id_sent :: "nat \<Rightarrow> 'a rd_net \<Rightarrow> rd_id \<Rightarrow> bool" where
  "id_sent p net (D r k) = (k < n_sent p net r)"
| "id_sent p net (N r) = (going (phase net r) \<and> (even r \<longrightarrow> stg net r = FINAL_STEP_NON_POWER_TWO))"

fun id_rcvd :: "nat \<Rightarrow> 'a rd_net \<Rightarrow> rd_id \<Rightarrow> bool" where
  "id_rcvd p net (D r k) = (k < n_rcvd p net (neighbor p r k))"
| "id_rcvd p net (N r) =
     (if even r then phase net (pair_neighbor r) = FINISHED
      else going (phase net (pair_neighbor r)) \<and> stg net (pair_neighbor r) \<noteq> INITIAL_STEP_NON_POWER_TWO)"

fun id_acked :: "nat \<Rightarrow> 'a rd_net \<Rightarrow> rd_id \<Rightarrow> bool" where
  "id_acked p net (D r k) = (k < n_rcvd p net (neighbor p r k))"
| "id_acked p net (N r) = (even r \<and> phase net (pair_neighbor r) = FINISHED)"

fun id_seen :: "nat \<Rightarrow> 'a rd_net \<Rightarrow> rd_id \<Rightarrow> bool" where
  "id_seen p net (D r k) = (k < n_seen p net r)"
| "id_seen p net (N r) = (even r \<and> phase net r = FINISHED)"

definition rd_wires :: "nat \<Rightarrow> 'a rd_net \<Rightarrow> bool" where
  "rd_wires p net = wires_ids (rd_ids p) (rd_chan p) (id_sent p net) (id_rcvd p net) (id_acked p net) (id_seen p net) net"

section \<open>The data\<close>

text \<open>The vector of rank \<open>r\<close> after \<open>k\<close> iterations; \<open>x\<close> are the inputs.\<close>

fun rd_val :: "nat \<Rightarrow> ('a \<Rightarrow> 'a \<Rightarrow> 'a) \<Rightarrow> (nat \<Rightarrow> 'a list) \<Rightarrow> nat \<Rightarrow> nat \<Rightarrow> 'a list" where
  "rd_val p f x 0 r = (if is_even_non_extra_rank p r then apply_reduce_op f (x r) (x (pair_neighbor r)) else x r)"
| "rd_val p f x (Suc k) r = apply_reduce_op f (rd_val p f x k r) (rd_val p f x k (neighbor p r k))"

fun payload :: "nat \<Rightarrow> ('a \<Rightarrow> 'a \<Rightarrow> 'a) \<Rightarrow> (nat \<Rightarrow> 'a list) \<Rightarrow> rd_id \<Rightarrow> 'a list" where
  "payload p f x (D r k) = rd_val p f x k r"
| "payload p f x (N r) = (if even r then rd_val p f x (Lp p) r else x r)"

definition current :: "nat \<Rightarrow> ('a \<Rightarrow> 'a \<Rightarrow> 'a) \<Rightarrow> (nat \<Rightarrow> 'a list) \<Rightarrow> 'a rd_net \<Rightarrow> nat \<Rightarrow> 'a list" where
  "current p f x net r =
     (if going (phase net r) \<and> stg net r \<noteq> INITIAL_STEP_NON_POWER_TWO then rd_val p f x (n_seen p net r) r else x r)"

definition rd_data :: "nat \<Rightarrow> ('a \<Rightarrow> 'a \<Rightarrow> 'a) \<Rightarrow> (nat \<Rightarrow> 'a list) \<Rightarrow> 'a rd_net \<Rightarrow> bool" where
  "rd_data p f x net \<longleftrightarrow>
     (\<forall>r < p. phase net r \<noteq> INITIALIZED \<longrightarrow>
        (is_active_rank p r \<longrightarrow> buf net r RdSource = current p f x net r) \<and>
        (\<not> is_active_rank p r \<longrightarrow> buf net r NptSource = x r)) \<and>
     (\<forall>i \<in> rd_ids p. flag net (rd_chan p i) \<or> id_rcvd p net i \<longrightarrow>
        buf net (c_dst (rd_chan p i)) (c_dslot (rd_chan p i)) = payload p f x i)"

definition rd_valid :: "nat \<Rightarrow> nat \<Rightarrow> cl_state \<Rightarrow> rd_ctl \<Rightarrow> bool" where
  "rd_valid p r ph s \<longleftrightarrow> ph \<noteq> UNINITIALIZED \<and> (going ph \<longrightarrow>
     alg_stage s = FINAL_STEP_NON_POWER_TWO \<and> iteration s = Lp p \<or>
     ph = RUNNING \<and>
       (if is_active_rank p r
        then alg_stage s = INITIAL_STEP_NON_POWER_TWO \<and> is_even_non_extra_rank p r \<and> iteration s = 0 \<or>
             (alg_stage s = WAIT_FOR_DATA \<or> alg_stage s = WAIT_FOR_ACK) \<and> iteration s < Lp p
        else alg_stage s = INITIAL_STEP_NON_POWER_TWO \<and> iteration s < Lp p))"

definition rd_inv :: "nat \<Rightarrow> nat \<Rightarrow> ('a \<Rightarrow> 'a \<Rightarrow> 'a) \<Rightarrow> (nat \<Rightarrow> 'a list) \<Rightarrow> 'a rd_net \<Rightarrow> bool" where
  "rd_inv p n f x net \<longleftrightarrow> rd_ok p n \<and> (\<forall>r < p. rd_valid p r (phase net r) (ctl net r)) \<and>
     rd_wires p net \<and> rd_data p f x net"

text \<open>What has to be checked for a step of rank \<open>r\<close>.\<close>

lemma rd_step_inv:
  assumes i: "rd_inv p n f x net" and r: "r < p"
    and e: "phase net' = (phase net)(r := ph)" "ctl net' = (ctl net)(r := s)"
    and b: "\<And>q. q \<noteq> r \<Longrightarrow> buf net' q = buf net q"
      "\<And>sl. sl \<noteq> RdSource \<Longrightarrow> sl \<noteq> NptSource \<Longrightarrow> buf net' r sl = buf net r sl"
    and v: "rd_valid p r ph s" and w: "rd_wires p net'"
    and fl: "\<And>c. flag net' c \<Longrightarrow> flag net c"
    and new: "\<And>i. i \<in> rd_ids p \<Longrightarrow> id_rcvd p net' i \<Longrightarrow> id_rcvd p net i \<or> flag net (rd_chan p i)"
    and d: "ph \<noteq> INITIALIZED \<Longrightarrow> is_active_rank p r \<Longrightarrow> buf net' r RdSource = current p f x net' r"
      "ph \<noteq> INITIALIZED \<Longrightarrow> \<not> is_active_rank p r \<Longrightarrow> buf net' r NptSource = x r"
  shows "rd_inv p n f x net'"
proof -
  have same: "current p f x net' q = current p f x net q" if "q \<noteq> r" for q
    using that by (simp add: current_def e n_seen_def)
  have "rd_data p f x net'"
    unfolding rd_data_def
  proof (intro conjI allI ballI impI)
    fix q assume q: "q < p" "phase net' q \<noteq> INITIALIZED"
    have o: "rd_data p f x net" using i by (simp add: rd_inv_def)
    show "buf net' q RdSource = current p f x net' q" if "is_active_rank p q"
      using d(1) q that o b(1) same by (cases "q = r") (auto simp: e rd_data_def)
    show "buf net' q NptSource = x q" if "\<not> is_active_rank p q"
      using d(2) q that o b(1) by (cases "q = r") (auto simp: e rd_data_def)
  next
    fix j assume j: "j \<in> rd_ids p" "flag net' (rd_chan p j) \<or> id_rcvd p net' j"
    then have "flag net (rd_chan p j) \<or> id_rcvd p net j" using fl new by blast
    then have "buf net (c_dst (rd_chan p j)) (c_dslot (rd_chan p j)) = payload p f x j"
      using i j(1) unfolding rd_inv_def rd_data_def by blast
    moreover have "c_dslot (rd_chan p j) \<noteq> RdSource" "c_dslot (rd_chan p j) \<noteq> NptSource"
      by (cases j; simp add: data_chan_def npt_chan_def)+
    ultimately show "buf net' (c_dst (rd_chan p j)) (c_dslot (rd_chan p j)) = payload p f x j"
      using b by (cases "c_dst (rd_chan p j) = r") simp_all
  qed
  then show ?thesis using i v w by (auto simp: rd_inv_def e)
qed

section \<open>Work\<close>

fun stage_work :: "AlgStage \<Rightarrow> nat" where
  "stage_work INITIAL_STEP_NON_POWER_TWO = 20"
| "stage_work WAIT_FOR_DATA = 9"
| "stage_work _ = 5"

definition rd_work :: "nat \<Rightarrow> cl_state \<Rightarrow> rd_ctl \<Rightarrow> nat" where
  "rd_work p ph s = (case ph of RUNNING \<Rightarrow> 10 * (Lp p - iteration s) + stage_work (alg_stage s)
     | FINISHED \<Rightarrow> 0 | READY \<Rightarrow> 10 * Lp p + 29 | _ \<Rightarrow> 10 * Lp p + 30)"

definition rd_left :: "nat \<Rightarrow> 'a rd_net \<Rightarrow> nat" where
  "rd_left p net = ranks_work p (rd_work p) net + posted (rd_chan p ` rd_ids p) net"

lemma rd_work_change:
  assumes "r < p" "phase net' = (phase net)(r := ph)" "ctl net' = (ctl net)(r := s)"
    and "posted (rd_chan p ` rd_ids p) net' \<le> posted (rd_chan p ` rd_ids p) net + d"
    and "rd_work p ph s + d < rd_work p (phase net r) (ctl net r)"
  shows "rd_left p net' < rd_left p net"
  using ranks_work_change [OF assms(1), of net' net "rd_work p"] assms by (simp add: rd_left_def)

lemma rd_posted:
  assumes "i \<in> rd_ids p"
  shows "posted (rd_chan p ` rd_ids p) (initTransfer (rd_chan p i) net) = posted (rd_chan p ` rd_ids p) net + 1"
    "posted (rd_chan p ` rd_ids p) (ackTransfer (rd_chan p i) net) = posted (rd_chan p ` rd_ids p) net + 1"
  by (rule posted_initTransfer posted_ackTransfer; use assms rd_ids_fin in simp)+

section \<open>The steps of an active rank\<close>

lemma counts_upd:
  assumes "phase net' = (phase net)(r := ph)" "ctl net' = (ctl net)(r := s)"
  shows "n_sent p net' = (n_sent p net)(r := if going ph then stage_sent (Lp p) (alg_stage s) (iteration s) else 0)"
    "n_rcvd p net' = (n_rcvd p net)(r := if going ph then stage_rcvd (Lp p) (alg_stage s) (iteration s) else 0)"
    "n_seen p net' = (n_seen p net)(r := if going ph then stage_seen (Lp p) (alg_stage s) (iteration s) else 0)"
  by (simp_all add: fun_eq_iff n_sent_def n_rcvd_def n_seen_def assms)

lemma neighbor_of: "rd_ok p n \<Longrightarrow> r < p \<Longrightarrow> is_active_rank p r \<Longrightarrow> D q k \<in> rd_ids p \<Longrightarrow>
    neighbor p q k = r \<longleftrightarrow> q = neighbor p r k"
  using neighbor by auto

text \<open>The messages of a pair are not concerned by steps between the first and the last stage.\<close>

lemma pair_ids_same:
  assumes "phase net' = phase net"
    "\<And>q. q \<noteq> r \<Longrightarrow> ctl net' q = ctl net q"
    "stg net' r = FINAL_STEP_NON_POWER_TWO \<longleftrightarrow> stg net r = FINAL_STEP_NON_POWER_TWO"
    "stg net' r = INITIAL_STEP_NON_POWER_TWO \<longleftrightarrow> stg net r = INITIAL_STEP_NON_POWER_TWO"
  shows "id_sent p net' (N q) = id_sent p net (N q)" "id_rcvd p net' (N q) = id_rcvd p net (N q)"
    "id_acked p net' (N q) = id_acked p net (N q)" "id_seen p net' (N q) = id_seen p net (N q)"
proof -
  have "(stg net' x = FINAL_STEP_NON_POWER_TWO) = (stg net x = FINAL_STEP_NON_POWER_TWO)"
    "(stg net' x = INITIAL_STEP_NON_POWER_TWO) = (stg net x = INITIAL_STEP_NON_POWER_TWO)" for x
    using assms by (cases "x = r"; simp)+
  then show "id_sent p net' (N q) = id_sent p net (N q)" "id_rcvd p net' (N q) = id_rcvd p net (N q)"
    "id_acked p net' (N q) = id_acked p net (N q)" "id_seen p net' (N q) = id_seen p net (N q)"
    using assms(1) by simp_all
qed

lemma id_count_up:
  assumes "rd_ok p n" "r < p" "is_active_rank p r" "j \<in> rd_ids p"
  shows "n_sent p net' = (n_sent p net)(r := k + 1) \<Longrightarrow> n_sent p net r = k \<Longrightarrow>
      (\<And>q. id_sent p net' (N q) = id_sent p net (N q)) \<Longrightarrow>
      id_sent p net' j = ((id_sent p net)(D r k := True)) j"
    and "n_rcvd p net' = (n_rcvd p net)(r := k + 1) \<Longrightarrow> n_rcvd p net r = k \<Longrightarrow>
      (\<And>q. id_rcvd p net' (N q) = id_rcvd p net (N q)) \<Longrightarrow>
      id_rcvd p net' j = ((id_rcvd p net)(D (neighbor p r k) k := True)) j"
    and "n_rcvd p net' = (n_rcvd p net)(r := k + 1) \<Longrightarrow> n_rcvd p net r = k \<Longrightarrow>
      (\<And>q. id_acked p net' (N q) = id_acked p net (N q)) \<Longrightarrow>
      id_acked p net' j = ((id_acked p net)(D (neighbor p r k) k := True)) j"
    and "n_seen p net' = (n_seen p net)(r := k + 1) \<Longrightarrow> n_seen p net r = k \<Longrightarrow>
      (\<And>q. id_seen p net' (N q) = id_seen p net (N q)) \<Longrightarrow>
      id_seen p net' j = ((id_seen p net)(D r k := True)) j"
proof -
  have nb: "neighbor p q m = r \<longleftrightarrow> q = neighbor p r m" if "j = D q m" for q m
    using neighbor_of [OF assms(1-3)] assms(4) that by simp
  show "n_sent p net' = (n_sent p net)(r := k + 1) \<Longrightarrow> n_sent p net r = k \<Longrightarrow>
      (\<And>q. id_sent p net' (N q) = id_sent p net (N q)) \<Longrightarrow>
      id_sent p net' j = ((id_sent p net)(D r k := True)) j"
    by (cases j) (simp add: less_Suc_eq, simp del: id_sent.simps)
  show "n_seen p net' = (n_seen p net)(r := k + 1) \<Longrightarrow> n_seen p net r = k \<Longrightarrow>
      (\<And>q. id_seen p net' (N q) = id_seen p net (N q)) \<Longrightarrow>
      id_seen p net' j = ((id_seen p net)(D r k := True)) j"
    by (cases j) (simp add: less_Suc_eq, simp del: id_seen.simps)
  show "n_rcvd p net' = (n_rcvd p net)(r := k + 1) \<Longrightarrow> n_rcvd p net r = k \<Longrightarrow>
      (\<And>q. id_rcvd p net' (N q) = id_rcvd p net (N q)) \<Longrightarrow>
      id_rcvd p net' j = ((id_rcvd p net)(D (neighbor p r k) k := True)) j"
    using nb by (cases j; cases "j = D (neighbor p r k) k"; auto simp: less_Suc_eq simp del: id_rcvd.simps(2))
  show "n_rcvd p net' = (n_rcvd p net)(r := k + 1) \<Longrightarrow> n_rcvd p net r = k \<Longrightarrow>
      (\<And>q. id_acked p net' (N q) = id_acked p net (N q)) \<Longrightarrow>
      id_acked p net' j = ((id_acked p net)(D (neighbor p r k) k := True)) j"
    using nb by (cases j; cases "j = D (neighbor p r k) k"; auto simp: less_Suc_eq simp del: id_acked.simps(2))
qed

lemma id_count_same:
  "n_sent p net' = n_sent p net \<Longrightarrow> (\<And>q. id_sent p net' (N q) = id_sent p net (N q)) \<Longrightarrow>
   id_sent p net' j = id_sent p net j"
  "n_rcvd p net' = n_rcvd p net \<Longrightarrow> (\<And>q. id_rcvd p net' (N q) = id_rcvd p net (N q)) \<Longrightarrow>
   id_rcvd p net' j = id_rcvd p net j"
  "n_rcvd p net' = n_rcvd p net \<Longrightarrow> (\<And>q. id_acked p net' (N q) = id_acked p net (N q)) \<Longrightarrow>
   id_acked p net' j = id_acked p net j"
  "n_seen p net' = n_seen p net \<Longrightarrow> (\<And>q. id_seen p net' (N q) = id_seen p net (N q)) \<Longrightarrow>
   id_seen p net' j = id_seen p net j"
  by (cases j; simp only: id_sent.simps(1) id_rcvd.simps(1) id_acked.simps(1) id_seen.simps(1))+

lemma rd_receive_ok:
  assumes i: "rd_inv p n f x net" and r: "r < p" "is_active_rank p r" and ph: "phase net r = RUNNING"
    and st: "stg net r = WAIT_FOR_DATA" and k: "itr net r = k"
    and c: "c = data_chan p (neighbor p r k) k" and fg: "flag net c"
    and n': "net' = set_ctl r ((ctl net r)\<lparr>alg_stage := WAIT_FOR_ACK\<rparr>) (ackTransfer c (snd (checkForCompletion c net)))"
  shows "rd_inv p n f x net' \<and> rd_left p net' < rd_left p net"
proof -
  have ok: "rd_ok p n" and w: "rd_wires p net" and kL: "k < Lp p"
    using i r ph st k by (auto simp: rd_inv_def rd_valid_def going_def)
  let ?i = "D (neighbor p r k) k"
  have id: "?i \<in> rd_ids p" "rd_chan p ?i = c" using neighbor [OF ok r kL] kL c by simp_all
  have e: "phase net' = (phase net)(r := RUNNING)" "ctl net' = (ctl net)(r := (ctl net r)\<lparr>alg_stage := WAIT_FOR_ACK\<rparr>)"
    "buf net' = buf net" "flag net' = (flag net)(c := False)"
    unfolding n' using ph by (auto simp: cnet)
  note cu = counts_upd [OF e(1,2), of p]
  have old: "n_sent p net r = k + 1" "n_rcvd p net r = k" "n_seen p net r = k"
    using ph st k by (simp_all add: n_sent_def n_rcvd_def n_seen_def going_def)
  have cu': "n_sent p net' = n_sent p net" "n_seen p net' = n_seen p net" "n_rcvd p net' = (n_rcvd p net)(r := k + 1)"
    unfolding cu using old k by (simp_all add: going_def fun_eq_iff)
  have ph': "phase net' = phase net" using ph by (simp add: e(1) fun_eq_iff)
  have N: "id_sent p net' (N q) = id_sent p net (N q)" "id_rcvd p net' (N q) = id_rcvd p net (N q)"
    "id_acked p net' (N q) = id_acked p net (N q)" "id_seen p net' (N q) = id_seen p net (N q)" for q
    by (rule pair_ids_same [OF ph', of r]; simp add: e st)+
  have "wires_ids (rd_ids p) (rd_chan p) (id_sent p net) ((id_rcvd p net)(?i := True)) ((id_acked p net)(?i := True))
      (id_seen p net) (ackTransfer c (snd (checkForCompletion c net)))"
    unfolding id(2) [symmetric]
    by (rule wires_ids_ack [OF wires_ids_receive [OF w [unfolded rd_wires_def] id(1)] rd_chan_inj id(1)])
      (use fg id(2) old neighbor [OF ok r kL] in simp_all)
  then have w': "rd_wires p net'"
    unfolding rd_wires_def
  proof (rule wires_ids_cong)
    fix j assume j: "j \<in> rd_ids p"
    show "id_sent p net' j = id_sent p net j" by (rule id_count_same(1) [OF cu'(1) N(1)])
    show "id_seen p net' j = id_seen p net j" by (rule id_count_same(4) [OF cu'(2) N(4)])
    show "id_rcvd p net' j = ((id_rcvd p net)(?i := True)) j" by (rule id_count_up(2) [OF ok r j cu'(3) old(2) N(2)])
    show "id_acked p net' j = ((id_acked p net)(?i := True)) j" by (rule id_count_up(3) [OF ok r j cu'(3) old(2) N(3)])
  qed (simp_all add: n' cnet)
  have "rd_inv p n f x net'"
  proof (rule rd_step_inv [OF i r(1) e(1,2)])
    show "rd_valid p r RUNNING ((ctl net r)\<lparr>alg_stage := WAIT_FOR_ACK\<rparr>)"
      using r kL k by (simp add: rd_valid_def)
    show "buf net' r RdSource = current p f x net' r" if "is_active_rank p r"
      using i r ph st unfolding rd_inv_def rd_data_def by (simp add: current_def cu' e going_def)
    show "id_rcvd p net j \<or> flag net (rd_chan p j)" if "j \<in> rd_ids p" "id_rcvd p net' j" for j
      using id_count_up(2) [OF ok r that(1) cu'(3) old(2) N(2)] that(2) fg id(2) by (cases "j = ?i") auto
  qed (use r w' in \<open>simp_all add: e split: if_splits\<close>)
  moreover have "posted (rd_chan p ` rd_ids p) net' \<le> posted (rd_chan p ` rd_ids p) net + 1"
  proof -
    have "posted (rd_chan p ` rd_ids p) net' = posted (rd_chan p ` rd_ids p) (ackTransfer c (snd (checkForCompletion c net)))"
      by (rule posted_same) (simp_all add: n' cnet)
    also have "\<dots> = posted (rd_chan p ` rd_ids p) (snd (checkForCompletion c net)) + 1"
      by (rule rd_posted(2) [OF id(1), unfolded id(2)])
    also have "posted (rd_chan p ` rd_ids p) (snd (checkForCompletion c net)) = posted (rd_chan p ` rd_ids p) net"
      by (rule posted_same) (simp_all add: cnet)
    finally show ?thesis by simp
  qed
  then have "rd_left p net' < rd_left p net"
    by (rule rd_work_change [OF r(1) e(1,2)]) (simp add: ph st rd_work_def k)
  ultimately show ?thesis ..
qed

lemma rd_reduce_sel [cnet]:
  "phase (rd_reduce f r t net) = phase net" "ctl (rd_reduce f r t net) = ctl net"
  "buf (rd_reduce f r t net) = (buf net)(r := (buf net r)(RdSource := apply_reduce_op f (buf net r RdSource) (buf net r t)))"
  "pend (rd_reduce f r t net) = pend net" "flag (rd_reduce f r t net) = flag net"
  "apend (rd_reduce f r t net) = apend net" "aflag (rd_reduce f r t net) = aflag net"
  by (simp_all add: rd_reduce_def cnet)

text \<open>What an active rank finds in its target buffers.\<close>

lemma rd_received:
  assumes i: "rd_inv p n f x net" and r: "r < p" "is_active_rank p r" and k: "k < n_rcvd p net r" "k < Lp p"
  shows "buf net r (RdTarget k) = rd_val p f x k (neighbor p r k)"
proof -
  have ok: "rd_ok p n" using i by (simp add: rd_inv_def)
  note nb = neighbor [OF ok r k(2)]
  have "D (neighbor p r k) k \<in> rd_ids p" "id_rcvd p net (D (neighbor p r k) k)" using nb k by simp_all
  then have "buf net (c_dst (rd_chan p (D (neighbor p r k) k))) (c_dslot (rd_chan p (D (neighbor p r k) k))) =
      payload p f x (D (neighbor p r k) k)"
    using i unfolding rd_inv_def rd_data_def by blast
  then show ?thesis using nb by (simp add: data_chan_def)
qed

lemma rd_combine_ok:
  assumes i: "rd_inv p n f x net" and r: "r < p" "is_active_rank p r" and ph: "phase net r = RUNNING"
    and st: "stg net r = WAIT_FOR_ACK" and k: "itr net r = k" and last: "k + 1 < Lp p"
    and fg: "aflag net (data_chan p r k)"
    and n': "net' = set_ctl r \<lparr>iteration = k + 1, alg_stage = WAIT_FOR_DATA\<rparr> (initTransfer (data_chan p r (k + 1))
       (rd_reduce f r (RdTarget k) (snd (checkForTransferAck (data_chan p r k) net))))"
  shows "rd_inv p n f x net' \<and> rd_left p net' < rd_left p net"
proof -
  let ?s = "\<lparr>iteration = k + 1, alg_stage = WAIT_FOR_DATA\<rparr>"
  let ?mid = "rd_reduce f r (RdTarget k) (snd (checkForTransferAck (data_chan p r k) net))"
  have ok: "rd_ok p n" and w: "rd_wires p net" using i by (simp_all add: rd_inv_def)
  have id: "D r k \<in> rd_ids p" "D r (k + 1) \<in> rd_ids p" using r last by simp_all
  have e: "phase net' = (phase net)(r := RUNNING)" "ctl net' = (ctl net)(r := ?s)" "flag net' = flag net"
    "buf net' = (buf net)(r := (buf net r)(RdSource := apply_reduce_op f (buf net r RdSource) (buf net r (RdTarget k))))"
    unfolding n' using ph by (auto simp: cnet)
  note cu = counts_upd [OF e(1,2), of p]
  have old: "n_sent p net r = k + 1" "n_rcvd p net r = k + 1" "n_seen p net r = k"
    using ph st k by (simp_all add: n_sent_def n_rcvd_def n_seen_def going_def)
  have cu': "n_sent p net' = (n_sent p net)(r := k + 1 + 1)" "n_rcvd p net' = n_rcvd p net"
    "n_seen p net' = (n_seen p net)(r := k + 1)"
    unfolding cu using old k by (simp_all add: going_def fun_eq_iff)
  have ph': "phase net' = phase net" using ph by (simp add: e(1) fun_eq_iff)
  have N: "id_sent p net' (N q) = id_sent p net (N q)" "id_rcvd p net' (N q) = id_rcvd p net (N q)"
    "id_acked p net' (N q) = id_acked p net (N q)" "id_seen p net' (N q) = id_seen p net (N q)" for q
    by (rule pair_ids_same [OF ph', of r]; simp add: e st)+
  have "wires_ids (rd_ids p) (rd_chan p) (id_sent p net) (id_rcvd p net) (id_acked p net) ((id_seen p net)(D r k := True))
      (snd (checkForTransferAck (data_chan p r k) net))"
    using wires_ids_see [OF w [unfolded rd_wires_def] id(1)] fg by simp
  then have "wires_ids (rd_ids p) (rd_chan p) (id_sent p net) (id_rcvd p net) (id_acked p net)
      ((id_seen p net)(D r k := True)) ?mid"
    by (rule wires_ids_cong) (simp_all add: cnet)
  from wires_ids_post [OF this rd_chan_inj id(2)]
  have "wires_ids (rd_ids p) (rd_chan p) ((id_sent p net)(D r (k + 1) := True)) (id_rcvd p net) (id_acked p net)
      ((id_seen p net)(D r k := True)) (initTransfer (data_chan p r (k + 1)) ?mid)"
    using old by simp
  then have w': "rd_wires p net'"
    unfolding rd_wires_def
  proof (rule wires_ids_cong)
    fix j assume j: "j \<in> rd_ids p"
    show "id_sent p net' j = ((id_sent p net)(D r (k + 1) := True)) j" by (rule id_count_up(1) [OF ok r j cu'(1) old(1) N(1)])
    show "id_rcvd p net' j = id_rcvd p net j" by (rule id_count_same(2) [OF cu'(2) N(2)])
    show "id_acked p net' j = id_acked p net j" by (rule id_count_same(3) [OF cu'(2) N(3)])
    show "id_seen p net' j = ((id_seen p net)(D r k := True)) j" by (rule id_count_up(4) [OF ok r j cu'(3) old(3) N(4)])
  qed (simp_all add: n' cnet)
  have "rd_inv p n f x net'"
  proof (rule rd_step_inv [OF i r(1) e(1,2)])
    show "rd_valid p r RUNNING ?s" using r last by (simp add: rd_valid_def)
    show "buf net' r RdSource = current p f x net' r" if "is_active_rank p r"
      using i r ph st rd_received [OF i r, of k] old last unfolding rd_inv_def rd_data_def
      by (simp add: current_def cu' e going_def)
    show "id_rcvd p net j \<or> flag net (rd_chan p j)" if "j \<in> rd_ids p" "id_rcvd p net' j" for j
      using id_count_same(2) [OF cu'(2) N(2)] that by blast
  qed (use r w' in \<open>simp_all add: e\<close>)
  moreover have "posted (rd_chan p ` rd_ids p) net' \<le> posted (rd_chan p ` rd_ids p) net + 1"
  proof -
    have "posted (rd_chan p ` rd_ids p) net' = posted (rd_chan p ` rd_ids p) (initTransfer (data_chan p r (k + 1)) ?mid)"
      by (rule posted_same) (simp_all add: n' cnet)
    also have "\<dots> = posted (rd_chan p ` rd_ids p) ?mid + 1"
      by (rule rd_posted(1) [OF id(2), unfolded rd_chan.simps])
    also have "posted (rd_chan p ` rd_ids p) ?mid = posted (rd_chan p ` rd_ids p) net"
      by (rule posted_same) (simp_all add: cnet)
    finally show ?thesis by simp
  qed
  then have "rd_left p net' < rd_left p net"
    by (rule rd_work_change [OF r(1) e(1,2)]) (use last in \<open>simp add: ph st rd_work_def k\<close>)
  ultimately show ?thesis ..
qed

lemma rd_last_ok:
  assumes i: "rd_inv p n f x net" and r: "r < p" "is_active_rank p r" and ph: "phase net r = RUNNING"
    and st: "stg net r = WAIT_FOR_ACK" and k: "itr net r = k" and last: "k + 1 = Lp p"
    and fg: "aflag net (data_chan p r k)"
    and mid: "mid = rd_reduce f r (RdTarget k) (snd (checkForTransferAck (data_chan p r k) net))"
    and n': "net' = set_ctl r \<lparr>iteration = k + 1, alg_stage = FINAL_STEP_NON_POWER_TWO\<rparr>
       (if is_even_non_extra_rank p r then initTransfer (npt_chan p r) mid else mid)"
  shows "rd_inv p n f x net' \<and> rd_left p net' < rd_left p net"
proof -
  let ?s = "\<lparr>iteration = k + 1, alg_stage = FINAL_STEP_NON_POWER_TWO\<rparr>" and ?e = "is_even_non_extra_rank p r"
  have ok: "rd_ok p n" and w: "rd_wires p net" using i by (simp_all add: rd_inv_def)
  have id: "D r k \<in> rd_ids p" "?e \<Longrightarrow> N r \<in> rd_ids p" using r last by (simp_all add: is_even_non_extra_rank_def)
  have e: "phase net' = (phase net)(r := RUNNING)" "ctl net' = (ctl net)(r := ?s)" "flag net' = flag net"
    "buf net' = (buf net)(r := (buf net r)(RdSource := apply_reduce_op f (buf net r RdSource) (buf net r (RdTarget k))))"
    unfolding n' mid using ph by (auto simp: cnet)
  note cu = counts_upd [OF e(1,2), of p]
  have old: "n_sent p net r = k + 1" "n_rcvd p net r = k + 1" "n_seen p net r = k"
    using ph st k by (simp_all add: n_sent_def n_rcvd_def n_seen_def going_def)
  have cu': "n_sent p net' = n_sent p net" "n_rcvd p net' = n_rcvd p net" "n_seen p net' = (n_seen p net)(r := k + 1)"
    unfolding cu using old k last by (simp_all add: going_def fun_eq_iff)
  have ph': "phase net' = phase net" using ph by (simp add: e(1) fun_eq_iff)
  have N: "id_rcvd p net' (N q) = id_rcvd p net (N q)" "id_acked p net' (N q) = id_acked p net (N q)"
    "id_seen p net' (N q) = id_seen p net (N q)" for q
    using st by (auto simp: e(2) ph')
  have Ns: "id_sent p net' j = (if ?e then (id_sent p net)(N r := True) else id_sent p net) j" if "j \<in> rd_ids p" for j
    using that r ph by (cases j) (auto simp: cu' e(2) ph' going_def rd_roles)
  have "wires_ids (rd_ids p) (rd_chan p) (id_sent p net) (id_rcvd p net) (id_acked p net) ((id_seen p net)(D r k := True))
      (snd (checkForTransferAck (data_chan p r k) net))"
    using wires_ids_see [OF w [unfolded rd_wires_def] id(1)] fg by simp
  then have w1: "wires_ids (rd_ids p) (rd_chan p) (id_sent p net) (id_rcvd p net) (id_acked p net)
      ((id_seen p net)(D r k := True)) mid"
    by (rule wires_ids_cong) (simp_all add: cnet mid)
  have ns: "\<not> id_sent p net (N r)" if "?e" using that st by (simp add: rd_roles even_iff_mod_2_eq_zero)
  have "wires_ids (rd_ids p) (rd_chan p) (if ?e then (id_sent p net)(N r := True) else id_sent p net) (id_rcvd p net)
      (id_acked p net) ((id_seen p net)(D r k := True)) (if ?e then initTransfer (npt_chan p r) mid else mid)"
    using w1 wires_ids_post [OF w1 rd_chan_inj id(2) ns] by simp
  then have w': "rd_wires p net'"
    unfolding rd_wires_def
  proof (rule wires_ids_cong)
    fix j assume j: "j \<in> rd_ids p"
    show "id_sent p net' j = (if ?e then (id_sent p net)(N r := True) else id_sent p net) j" by (rule Ns [OF j])
    show "id_rcvd p net' j = id_rcvd p net j" by (rule id_count_same(2) [OF cu'(2) N(1)])
    show "id_acked p net' j = id_acked p net j" by (rule id_count_same(3) [OF cu'(2) N(2)])
    show "id_seen p net' j = ((id_seen p net)(D r k := True)) j" by (rule id_count_up(4) [OF ok r j cu'(3) old(3) N(3)])
  qed (simp_all add: n' cnet)
  have "rd_inv p n f x net'"
  proof (rule rd_step_inv [OF i r(1) e(1,2)])
    show "rd_valid p r RUNNING ?s" using r last by (simp add: rd_valid_def)
    have "rd_val p f x (Lp p) r = apply_reduce_op f (rd_val p f x k r) (rd_val p f x k (neighbor p r k))"
      by (simp flip: last)
    then show "buf net' r RdSource = current p f x net' r" if "is_active_rank p r"
      using i r ph st rd_received [OF i r, of k] old last unfolding rd_inv_def rd_data_def
      by (simp add: current_def cu' e going_def)
    show "id_rcvd p net j \<or> flag net (rd_chan p j)" if "j \<in> rd_ids p" "id_rcvd p net' j" for j
      using id_count_same(2) [OF cu'(2) N(1)] that by blast
  qed (use r w' in \<open>simp_all add: e\<close>)
  moreover have "posted (rd_chan p ` rd_ids p) net' \<le> posted (rd_chan p ` rd_ids p) net + 1"
  proof -
    have "posted (rd_chan p ` rd_ids p) net' = posted (rd_chan p ` rd_ids p) (if ?e then initTransfer (npt_chan p r) mid else mid)"
      by (rule posted_same) (simp_all add: n' cnet)
    also have "\<dots> \<le> posted (rd_chan p ` rd_ids p) mid + 1"
      using rd_posted(1) [of "N r" p mid] id(2) by simp
    also have "posted (rd_chan p ` rd_ids p) mid = posted (rd_chan p ` rd_ids p) net"
      by (rule posted_same) (simp_all add: cnet mid)
    finally show ?thesis .
  qed
  then have "rd_left p net' < rd_left p net"
    by (rule rd_work_change [OF r(1) e(1,2)]) (use last in \<open>simp add: ph st rd_work_def k\<close>)
  ultimately show ?thesis ..
qed

section \<open>The steps of a pair\<close>

lemma rd_paired:
  assumes i: "rd_inv p n f x net" and q: "q < p" "is_non_extra_rank p q"
    and g: "flag net (npt_chan p q) \<or> id_rcvd p net (N q)"
  shows "buf net (pair_neighbor q) NptTarget = payload p f x (N q)"
proof -
  have "N q \<in> rd_ids p" "flag net (rd_chan p (N q)) \<or> id_rcvd p net (N q)" using q g by simp_all
  then have "buf net (c_dst (rd_chan p (N q))) (c_dslot (rd_chan p (N q))) = payload p f x (N q)"
    using i unfolding rd_inv_def rd_data_def by blast
  then show ?thesis by (simp add: npt_chan_def)
qed

lemma rd_collect_ok:
  assumes i: "rd_inv p n f x net" and r: "r < p" "is_even_non_extra_rank p r" and ph: "phase net r = RUNNING"
    and st: "stg net r = INITIAL_STEP_NON_POWER_TWO" and fg: "flag net (npt_chan p (pair_neighbor r))"
    and mid: "mid = rd_reduce f r NptTarget (snd (checkForCompletion (npt_chan p (pair_neighbor r)) net))"
    and n': "net' = set_ctl r ((ctl net r)\<lparr>alg_stage := WAIT_FOR_DATA\<rparr>) (initTransfer (data_chan p r (itr net r)) mid)"
  shows "rd_inv p n f x net' \<and> rd_left p net' < rd_left p net"
proof -
  let ?s = "(ctl net r)\<lparr>alg_stage := WAIT_FOR_DATA\<rparr>"
  have ok: "rd_ok p n" and w: "rd_wires p net" using i by (simp_all add: rd_inv_def)
  have act: "is_active_rank p r" "is_non_extra_rank p r" "even r"
    using r by (auto simp: is_active_rank_def is_even_non_extra_rank_def even_iff_mod_2_eq_zero)
  have it: "itr net r = 0" using i r(1) st ph act(1) by (auto simp: rd_inv_def rd_valid_def going_def)
  note pn = pair_neighbor [OF ok r(1) act(2)]
  have odd: "odd (pair_neighbor r)" using pn(1) act(3) by simp
  let ?q = "pair_neighbor r"
  have L: "0 < Lp p" using ok by (simp add: rd_ok_def iterations_pos)
  have id: "N ?q \<in> rd_ids p" "D r 0 \<in> rd_ids p" using r(1) act pn L by simp_all
  have e: "phase net' = (phase net)(r := RUNNING)" "ctl net' = (ctl net)(r := ?s)"
    "flag net' = (flag net)(npt_chan p ?q := False)"
    "buf net' = (buf net)(r := (buf net r)(RdSource := apply_reduce_op f (buf net r RdSource) (buf net r NptTarget)))"
    unfolding n' mid using ph by (auto simp: cnet)
  note cu = counts_upd [OF e(1,2), of p]
  have old: "n_sent p net r = 0" "n_rcvd p net r = 0" "n_seen p net r = 0"
    using ph st by (simp_all add: n_sent_def n_rcvd_def n_seen_def)
  have cu': "n_sent p net' = (n_sent p net)(r := 0 + 1)" "n_rcvd p net' = n_rcvd p net" "n_seen p net' = n_seen p net"
    unfolding cu using old it by (simp_all add: going_def fun_eq_iff)
  have ph': "phase net' = phase net" using ph by (simp add: e(1) fun_eq_iff)
  have N: "id_sent p net' (N q) = id_sent p net (N q)" "id_acked p net' (N q) = id_acked p net (N q)"
    "id_seen p net' (N q) = id_seen p net (N q)" for q
    using st by (auto simp: e(2) ph')
  have Nr: "id_rcvd p net' j = ((id_rcvd p net)(N ?q := True)) j" if "j \<in> rd_ids p" for j
  proof (cases j)
    case (N q)
    have "pair_neighbor q = r \<longleftrightarrow> q = ?q" using that N pair_neighbor(4) [OF ok, of q] pn(4) by auto
    then show ?thesis using N ph st odd by (auto simp: e(2) ph' going_def)
  qed (simp add: cu')
  have nr: "\<not> id_rcvd p net (N ?q)" using odd st pn(4) by simp
  have "wires_ids (rd_ids p) (rd_chan p) (id_sent p net) ((id_rcvd p net)(N ?q := True)) (id_acked p net) (id_seen p net)
      (snd (checkForCompletion (npt_chan p ?q) net))"
    using wires_ids_receive [OF w [unfolded rd_wires_def] id(1)] fg by simp
  then have w1: "wires_ids (rd_ids p) (rd_chan p) (id_sent p net) ((id_rcvd p net)(N ?q := True)) (id_acked p net)
      (id_seen p net) mid"
    by (rule wires_ids_cong) (simp_all add: cnet mid)
  from wires_ids_post [OF this rd_chan_inj id(2)]
  have "wires_ids (rd_ids p) (rd_chan p) ((id_sent p net)(D r 0 := True)) ((id_rcvd p net)(N ?q := True)) (id_acked p net)
      (id_seen p net) (initTransfer (data_chan p r 0) mid)"
    using old by simp
  then have w': "rd_wires p net'"
    unfolding rd_wires_def
  proof (rule wires_ids_cong)
    fix j assume j: "j \<in> rd_ids p"
    show "id_sent p net' j = ((id_sent p net)(D r 0 := True)) j" by (rule id_count_up(1) [OF ok r(1) act(1) j cu'(1) old(1) N(1)])
    show "id_rcvd p net' j = ((id_rcvd p net)(N ?q := True)) j" by (rule Nr [OF j])
    show "id_acked p net' j = id_acked p net j" by (rule id_count_same(3) [OF cu'(2) N(2)])
    show "id_seen p net' j = id_seen p net j" by (rule id_count_same(4) [OF cu'(3) N(3)])
  qed (simp_all add: n' it cnet)
  have "rd_inv p n f x net'"
  proof (rule rd_step_inv [OF i r(1) e(1,2)])
    show "rd_valid p r RUNNING ?s" using act it L by (simp add: rd_valid_def)
    have "buf net r NptTarget = x ?q" using rd_paired [OF i _ _ disjI1 [OF fg]] pn odd by simp
    moreover have "buf net r RdSource = x r"
      using i r(1) act(1) ph st unfolding rd_inv_def rd_data_def by (simp add: current_def)
    ultimately show "buf net' r RdSource = current p f x net' r" if "is_active_rank p r"
      using ph r(2) by (simp add: current_def e cu' old going_def)
    show "id_rcvd p net j \<or> flag net (rd_chan p j)" if "j \<in> rd_ids p" "id_rcvd p net' j" for j
      using Nr [OF that(1)] that(2) fg by (auto split: if_splits)
  qed (use r act w' in \<open>simp_all add: e split: if_splits\<close>)
  moreover have "posted (rd_chan p ` rd_ids p) net' \<le> posted (rd_chan p ` rd_ids p) net + 1"
  proof -
    have "posted (rd_chan p ` rd_ids p) net' = posted (rd_chan p ` rd_ids p) (initTransfer (data_chan p r 0) mid)"
      by (rule posted_same) (simp_all add: n' it cnet)
    also have "\<dots> = posted (rd_chan p ` rd_ids p) mid + 1"
      by (rule rd_posted(1) [OF id(2), unfolded rd_chan.simps])
    also have "posted (rd_chan p ` rd_ids p) mid = posted (rd_chan p ` rd_ids p) net"
      by (rule posted_same) (simp_all add: cnet mid)
    finally show ?thesis by simp
  qed
  then have "rd_left p net' < rd_left p net"
    by (rule rd_work_change [OF r(1) e(1,2)]) (simp add: ph st rd_work_def it)
  ultimately show ?thesis ..
qed

text \<open>A non-active rank only counts iterations until the last stage.\<close>

lemma rd_idle_ok:
  assumes i: "rd_inv p n f x net" and r: "r < p" "\<not> is_active_rank p r" and ph: "phase net r = RUNNING"
    and st: "stg net r \<noteq> FINAL_STEP_NON_POWER_TWO"
    and n': "net' = set_ctl r \<lparr>iteration = itr net r + 1,
       alg_stage = (if itr net r = Lp p - 1 then FINAL_STEP_NON_POWER_TWO else stg net r)\<rparr> net"
  shows "rd_inv p n f x net' \<and> rd_left p net' < rd_left p net"
proof -
  let ?s = "\<lparr>iteration = itr net r + 1, alg_stage = (if itr net r = Lp p - 1 then FINAL_STEP_NON_POWER_TWO else stg net r)\<rparr>"
  have ok: "rd_ok p n" and w: "rd_wires p net" using i by (simp_all add: rd_inv_def)
  have stI: "stg net r = INITIAL_STEP_NON_POWER_TWO" "itr net r < Lp p"
    using i r ph st by (auto simp: rd_inv_def rd_valid_def going_def)
  have odd: "odd r" "is_non_extra_rank p r" using r(2) by (auto simp: rd_roles even_iff_mod_2_eq_zero)
  have e: "phase net' = phase net" "ctl net' = (ctl net)(r := ?s)" "flag net' = flag net" "buf net' = buf net"
    by (simp_all add: n' cnet)
  have e1: "phase net' = (phase net)(r := RUNNING)" using ph by (simp add: e(1) fun_eq_iff)
  have D: "q \<noteq> r" if "D q k \<in> rd_ids p" for q k using that r by auto
  have nb: "neighbor p q k \<noteq> r" if "D q k \<in> rd_ids p" for q k using that neighbor(2) [OF ok] r by auto
  have pn: "pair_neighbor q \<noteq> r" if "N q \<in> rd_ids p" "odd q" for q
    using pair_neighbor(1) [OF ok] that odd by auto
  have same: "id_sent p net' j = id_sent p net j" "id_rcvd p net' j = id_rcvd p net j"
    "id_acked p net' j = id_acked p net j" "id_seen p net' j = id_seen p net j" if "j \<in> rd_ids p" for j
    using that D nb pn odd by (cases j; auto simp: e n_sent_def n_rcvd_def n_seen_def)+
  have w': "rd_wires p net'" unfolding rd_wires_def
    by (rule wires_ids_cong [OF w [unfolded rd_wires_def] same]) (simp_all add: n' cnet)
  have "rd_inv p n f x net'"
  proof (rule rd_step_inv [OF i r(1) e1 e(2)])
    show "rd_valid p r RUNNING ?s" using r stI by (simp add: rd_valid_def) linarith
    show "id_rcvd p net j \<or> flag net (rd_chan p j)" if "j \<in> rd_ids p" "id_rcvd p net' j" for j
      using same(2) that by blast
    show "buf net' r NptSource = x r" using i r ph unfolding rd_inv_def rd_data_def by (simp add: e)
  qed (use r w' in \<open>simp_all add: e\<close>)
  moreover have "posted (rd_chan p ` rd_ids p) net' = posted (rd_chan p ` rd_ids p) net"
    by (rule posted_same) (simp_all add: n' cnet)
  then have "rd_left p net' < rd_left p net"
    by (intro rd_work_change [OF r(1) e1 e(2), where d = 0]) (use stI in \<open>auto simp: ph rd_work_def\<close>)
  ultimately show ?thesis ..
qed

section \<open>The last stage\<close>

lemma rd_finish_update:
  assumes i: "rd_inv p n f x net" and r: "r < p" and ph: "phase net r = RUNNING" and st: "stg net r = FINAL_STEP_NON_POWER_TWO"
    and e: "phase net' = (phase net)(r := FINISHED)" "ctl net' = ctl net" "buf net' = buf net"
      "\<And>c. flag net' c \<Longrightarrow> flag net c"
    and w: "rd_wires p net'"
    and new: "\<And>j. j \<in> rd_ids p \<Longrightarrow> id_rcvd p net' j \<Longrightarrow> id_rcvd p net j \<or> flag net (rd_chan p j)"
    and d: "posted (rd_chan p ` rd_ids p) net' \<le> posted (rd_chan p ` rd_ids p) net + 1"
  shows "rd_inv p n f x net' \<and> rd_left p net' < rd_left p net"
proof -
  have e2: "ctl net' = (ctl net)(r := ctl net r)" by (simp add: e)
  have "rd_valid p r (phase net r) (ctl net r)" using i r by (simp add: rd_inv_def)
  then have it: "itr net r = Lp p" using ph st by (auto simp: rd_valid_def going_def split: if_splits)
  have "rd_inv p n f x net'"
  proof (rule rd_step_inv [OF i r e(1) e2])
    show "rd_valid p r FINISHED (ctl net r)" using st it by (simp add: rd_valid_def)
    show "buf net' r RdSource = current p f x net' r" if "is_active_rank p r"
      using i r that ph st unfolding rd_inv_def rd_data_def by (simp add: current_def e n_seen_def going_def)
    show "buf net' r NptSource = x r" if "\<not> is_active_rank p r"
      using i r that ph unfolding rd_inv_def rd_data_def by (simp add: e)
  qed (use w new e in simp_all)
  moreover have "rd_left p net' < rd_left p net"
    by (rule rd_work_change [OF r e(1) e2 d]) (simp add: ph st rd_work_def)
  ultimately show ?thesis ..
qed

lemma finish_counts:
  assumes "phase net r = RUNNING" "phase net' = (phase net)(r := FINISHED)" "ctl net' = ctl net"
  shows "n_sent p net' = n_sent p net" "n_rcvd p net' = n_rcvd p net" "n_seen p net' = n_seen p net"
    "going (phase net' q) = going (phase net q)"
  using assms by (auto simp: fun_eq_iff n_sent_def n_rcvd_def n_seen_def going_def)

lemma rd_finish_extra_ok:
  assumes i: "rd_inv p n f x net" and r: "r < p" "is_extra_rank p r" and ph: "phase net r = RUNNING"
    and st: "stg net r = FINAL_STEP_NON_POWER_TWO" and n': "net' = set_phase r (FINISHED, net)"
  shows "rd_inv p n f x net' \<and> rd_left p net' < rd_left p net"
proof (rule rd_finish_update [OF i r(1) ph st])
  have ok: "rd_ok p n" and w: "rd_wires p net" using i by (simp_all add: rd_inv_def)
  show e: "phase net' = (phase net)(r := FINISHED)" "ctl net' = ctl net" "buf net' = buf net"
    "\<And>c. flag net' c \<Longrightarrow> flag net c" by (simp_all add: n' cnet)
  note fc = finish_counts [OF ph e(1,2)]
  have N: "pair_neighbor q \<noteq> r \<and> q \<noteq> r" if "N q \<in> rd_ids p" for q
    using that r(2) pair_neighbor(3) [OF ok, of q] by (auto simp: is_non_extra_rank_def)
  have same: "id_sent p net' j = id_sent p net j" "id_rcvd p net' j = id_rcvd p net j"
    "id_acked p net' j = id_acked p net j" "id_seen p net' j = id_seen p net j" if "j \<in> rd_ids p" for j
    using that N by (cases j; auto simp: e(1,2) fc(1-3))+
  show "rd_wires p net'" unfolding rd_wires_def
    by (rule wires_ids_cong [OF w [unfolded rd_wires_def] same]) (simp_all add: n' cnet)
  show "id_rcvd p net j \<or> flag net (rd_chan p j)" if "j \<in> rd_ids p" "id_rcvd p net' j" for j
    using same(2) that by blast
  show "posted (rd_chan p ` rd_ids p) net' \<le> posted (rd_chan p ` rd_ids p) net + 1"
    using posted_same [of net' net] by (simp add: n' cnet)
qed

lemma rd_finish_even_ok:
  assumes i: "rd_inv p n f x net" and r: "r < p" "is_even_non_extra_rank p r" and ph: "phase net r = RUNNING"
    and st: "stg net r = FINAL_STEP_NON_POWER_TWO" and fg: "aflag net (npt_chan p r)"
    and n': "net' = set_phase r (FINISHED, snd (checkForTransferAck (npt_chan p r) net))"
  shows "rd_inv p n f x net' \<and> rd_left p net' < rd_left p net"
proof (rule rd_finish_update [OF i r(1) ph st])
  have ok: "rd_ok p n" and w: "rd_wires p net" using i by (simp_all add: rd_inv_def)
  show e: "phase net' = (phase net)(r := FINISHED)" "ctl net' = ctl net" "buf net' = buf net"
    "\<And>c. flag net' c \<Longrightarrow> flag net c" by (simp_all add: n' cnet)
  note fc = finish_counts [OF ph e(1,2)]
  have ev: "even r" "is_non_extra_rank p r" using r(2) by (auto simp: is_even_non_extra_rank_def even_iff_mod_2_eq_zero)
  have id: "N r \<in> rd_ids p" using r ev by simp
  have N: "pair_neighbor q \<noteq> r" if "N q \<in> rd_ids p" "even q" for q
    using that pair_neighbor(1) [OF ok, of q] ev by auto
  have same: "id_sent p net' j = id_sent p net j" "id_rcvd p net' j = id_rcvd p net j"
    "id_acked p net' j = id_acked p net j" "id_seen p net' j = ((id_seen p net)(N r := True)) j" if "j \<in> rd_ids p" for j
    using that N ev ph by (cases j; auto simp: e(1,2) fc going_def)+
  show "rd_wires p net'" unfolding rd_wires_def
  proof (rule wires_ids_cong [OF _ same])
    show "wires_ids (rd_ids p) (rd_chan p) (id_sent p net) (id_rcvd p net) (id_acked p net) ((id_seen p net)(N r := True))
        (snd (checkForTransferAck (npt_chan p r) net))"
      using wires_ids_see [OF w [unfolded rd_wires_def] id] fg by simp
  qed (simp_all add: n' cnet)
  show "id_rcvd p net j \<or> flag net (rd_chan p j)" if "j \<in> rd_ids p" "id_rcvd p net' j" for j
    using same(2) that by blast
  show "posted (rd_chan p ` rd_ids p) net' \<le> posted (rd_chan p ` rd_ids p) net + 1"
    using posted_same [of net' net] by (simp add: n' cnet)
qed

lemma rd_finish_odd_ok:
  assumes i: "rd_inv p n f x net" and r: "r < p" "is_odd_non_extra_rank p r" and ph: "phase net r = RUNNING"
    and st: "stg net r = FINAL_STEP_NON_POWER_TWO" and c: "c = npt_chan p (pair_neighbor r)" and fg: "flag net c"
    and n': "net' = set_phase r (FINISHED, ackTransfer c (snd (checkForCompletion c net)))"
  shows "rd_inv p n f x net' \<and> rd_left p net' < rd_left p net"
proof (rule rd_finish_update [OF i r(1) ph st])
  have ok: "rd_ok p n" and w: "rd_wires p net" using i by (simp_all add: rd_inv_def)
  show e: "phase net' = (phase net)(r := FINISHED)" "ctl net' = ctl net" "buf net' = buf net"
    and fl: "\<And>d. flag net' d \<Longrightarrow> flag net d" by (simp_all add: n' cnet split: if_splits)
  note fc = finish_counts [OF ph e(1,2)]
  have od: "odd r" "is_non_extra_rank p r" using r(2) by (auto simp: is_odd_non_extra_rank_def odd_iff_mod_2_eq_one)
  note pn = pair_neighbor [OF ok r(1) od(2)]
  let ?q = "pair_neighbor r"
  have q: "even ?q" using pn(1) od by simp
  have id: "N ?q \<in> rd_ids p" "rd_chan p (N ?q) = c" using pn c by simp_all
  have N: "pair_neighbor q = r \<longleftrightarrow> q = ?q" if "N q \<in> rd_ids p" for q
    using that pair_neighbor(4) [OF ok, of q] pn(4) by auto
  have same: "id_sent p net' j = id_sent p net j" "id_rcvd p net' j = ((id_rcvd p net)(N ?q := True)) j"
    "id_acked p net' j = ((id_acked p net)(N ?q := True)) j" "id_seen p net' j = id_seen p net j" if "j \<in> rd_ids p" for j
    using that N od q ph st by (cases j; auto simp: e(1,2) fc going_def)+
  have na: "\<not> id_acked p net (N ?q)" using pn(4) ph by simp
  show "rd_wires p net'" unfolding rd_wires_def
  proof (rule wires_ids_cong [OF _ same])
    show "wires_ids (rd_ids p) (rd_chan p) (id_sent p net) ((id_rcvd p net)(N ?q := True)) ((id_acked p net)(N ?q := True))
        (id_seen p net) (ackTransfer c (snd (checkForCompletion c net)))"
      unfolding id(2) [symmetric]
      by (rule wires_ids_ack [OF wires_ids_receive [OF w [unfolded rd_wires_def] id(1)] rd_chan_inj id(1) na])
        (use fg id(2) in simp)
  qed (simp_all add: n' cnet)
  show "id_rcvd p net j \<or> flag net (rd_chan p j)" if "j \<in> rd_ids p" "id_rcvd p net' j" for j
    using same(2) [OF that(1)] that(2) fg id(2) by (cases "j = N ?q") auto
  have "posted (rd_chan p ` rd_ids p) net' = posted (rd_chan p ` rd_ids p) (ackTransfer c (snd (checkForCompletion c net)))"
    by (rule posted_same) (simp_all add: n' cnet)
  also have "\<dots> = posted (rd_chan p ` rd_ids p) (snd (checkForCompletion c net)) + 1"
    by (rule rd_posted(2) [OF id(1), unfolded id(2)])
  also have "posted (rd_chan p ` rd_ids p) (snd (checkForCompletion c net)) = posted (rd_chan p ` rd_ids p) net"
    by (rule posted_same) (simp_all add: cnet)
  finally show "posted (rd_chan p ` rd_ids p) net' \<le> posted (rd_chan p ` rd_ids p) net + 1" by simp
qed

section \<open>Copying in and starting\<close>

lemma rd_copyIn_ok:
  assumes i: "rd_inv p n f x net" and r: "r < p" and ph: "phase net r = INITIALIZED"
    and xr: "x r = take n inputs" and n': "net' = set_phase r (READY, rd_copyIn p n r inputs net)"
  shows "rd_inv p n f x net' \<and> rd_left p net' < rd_left p net"
proof -
  have ok: "n > 0" "p > 1" and w: "rd_wires p net" using i by (simp_all add: rd_inv_def rd_ok_def)
  let ?sl = "if is_active_rank p r then RdSource else NptSource"
  have m: "rd_copyIn p n r inputs net = set_buf r ((buf net r)(?sl := take n inputs)) net"
    using ok by (simp add: rd_copyIn_def)
  have e: "phase net' = (phase net)(r := READY)" "ctl net' = (ctl net)(r := ctl net r)" "flag net' = flag net"
    "buf net' = (buf net)(r := (buf net r)(?sl := take n inputs))"
    unfolding n' m by (auto simp: cnet)
  have cu: "n_sent p net' = n_sent p net" "n_rcvd p net' = n_rcvd p net" "n_seen p net' = n_seen p net"
    using ph by (auto simp: e n_sent_def n_rcvd_def n_seen_def going_def fun_eq_iff)
  have same: "id_sent p net' j = id_sent p net j" "id_rcvd p net' j = id_rcvd p net j"
    "id_acked p net' j = id_acked p net j" "id_seen p net' j = id_seen p net j" for j
    using ph by (cases j; auto simp: e(1,2) cu going_def)+
  have w': "rd_wires p net'" unfolding rd_wires_def
    by (rule wires_ids_cong [OF w [unfolded rd_wires_def] same]) (simp_all add: n' m cnet)
  have "rd_inv p n f x net'"
  proof (rule rd_step_inv [OF i r e(1,2)])
    show "rd_valid p r READY (ctl net r)" by (simp add: rd_valid_def going_def)
    show "id_rcvd p net j \<or> flag net (rd_chan p j)" if "id_rcvd p net' j" for j using same(2) that by blast
    show "buf net' r RdSource = current p f x net' r" if "is_active_rank p r"
      using that xr by (simp add: e current_def going_def)
    show "buf net' r NptSource = x r" if "\<not> is_active_rank p r" using that xr by (simp add: e)
  qed (use w' in \<open>simp_all add: e\<close>)
  moreover have "posted (rd_chan p ` rd_ids p) net' = posted (rd_chan p ` rd_ids p) net"
    by (rule posted_same) (simp_all add: n' m cnet)
  then have "rd_left p net' < rd_left p net"
    by (intro rd_work_change [OF r e(1,2), where d = 0]) (simp_all add: ph rd_work_def)
  ultimately show ?thesis ..
qed

lemma rd_start_ok:
  assumes i: "rd_inv p n f x net" and r: "r < p" and ph: "phase net r = READY"
    and n': "net' = set_phase r (RUNNING, rd_start p n r net)"
  shows "rd_inv p n f x net' \<and> rd_left p net' < rd_left p net"
proof -
  have ok: "rd_ok p n" "n \<noteq> 0" "p \<noteq> 1" "0 < Lp p" and w: "rd_wires p net"
    using i by (auto simp: rd_inv_def rd_ok_def iterations_pos)
  let ?s = "\<lparr>iteration = 0, alg_stage = if is_non_extra_rank p r then INITIAL_STEP_NON_POWER_TWO else WAIT_FOR_DATA\<rparr>"
  let ?i = "if is_extra_rank p r then D r 0 else N r"
  let ?b = "is_extra_rank p r \<or> is_odd_non_extra_rank p r"
  define mid where "mid = (if ?b then initTransfer (rd_chan p ?i) net else net)"
  have e: "phase net' = (phase net)(r := RUNNING)" "ctl net' = (ctl net)(r := ?s)" "flag net' = flag net" "buf net' = buf net"
    "pend net' = pend mid" "apend net' = apend mid" "aflag net' = aflag mid" "flag mid = flag net"
    unfolding n' mid_def rd_start_def using ok
    by (auto simp: cnet Let_def is_odd_non_extra_rank_def is_non_extra_rank_def)
  have id: "?i \<in> rd_ids p" if ?b using that r ok by (auto simp: is_active_rank_def is_odd_non_extra_rank_def)
  have old: "n_sent p net r = 0" "n_rcvd p net r = 0" "n_seen p net r = 0"
    using ph by (simp_all add: n_sent_def n_rcvd_def n_seen_def going_def)
  note cu = counts_upd [OF e(1,2), of p]
  have cu': "n_sent p net' = (n_sent p net)(r := if is_extra_rank p r then 1 else 0)" "n_rcvd p net' = n_rcvd p net"
    "n_seen p net' = n_seen p net"
    unfolding cu using old by (auto simp: going_def fun_eq_iff is_non_extra_rank_def)
  have same: "id_rcvd p net' j = id_rcvd p net j" "id_acked p net' j = id_acked p net j"
    "id_seen p net' j = id_seen p net j" if "j \<in> rd_ids p" for j
    using that ph pair_neighbor(3) [OF ok(1)]
    by (cases j; auto simp: e(1,2) cu' going_def is_non_extra_rank_def)+
  have s: "id_sent p net' j = (if ?b then (id_sent p net)(?i := True) else id_sent p net) j" if "j \<in> rd_ids p" for j
    using that ph old by (cases j) (auto simp: e(1,2) cu' going_def rd_roles even_iff_mod_2_eq_zero)
  have ns: "\<not> id_sent p net ?i" using ph old by (simp add: going_def)
  have "wires_ids (rd_ids p) (rd_chan p) (if ?b then (id_sent p net)(?i := True) else id_sent p net) (id_rcvd p net)
      (id_acked p net) (id_seen p net) mid"
    using w wires_ids_post [OF w [unfolded rd_wires_def] rd_chan_inj id ns] by (simp add: mid_def rd_wires_def)
  then have w': "rd_wires p net'" unfolding rd_wires_def
    by (rule wires_ids_cong [OF _ s same]) (simp_all add: e)
  have "rd_inv p n f x net'"
  proof (rule rd_step_inv [OF i r e(1,2)])
    show "rd_valid p r RUNNING ?s" using ok by (simp add: rd_valid_def is_active_rank_def) (auto simp: rd_roles)
    show "id_rcvd p net j \<or> flag net (rd_chan p j)" if "j \<in> rd_ids p" "id_rcvd p net' j" for j using same(1) that by blast
    show "buf net' r RdSource = current p f x net' r" if "is_active_rank p r"
      using that i r ph unfolding rd_inv_def rd_data_def
      by (simp add: e(1,2,4) current_def going_def cu' old) (simp add: rd_roles)
    show "buf net' r NptSource = x r" if "\<not> is_active_rank p r"
      using that i r ph unfolding rd_inv_def rd_data_def by (simp add: e)
  qed (use w' in \<open>simp_all add: e\<close>)
  moreover have "posted (rd_chan p ` rd_ids p) net' \<le> posted (rd_chan p ` rd_ids p) net + 1"
    using rd_posted(1) [OF id, of net] by (simp add: posted_same [OF e(5,6)] mid_def)
  then have "rd_left p net' < rd_left p net"
    by (rule rd_work_change [OF r e(1,2)]) (simp add: ph rd_work_def)
  ultimately show ?thesis ..
qed

section \<open>The environment\<close>

lemma rd_same_ranks:
  "phase net' = phase net \<Longrightarrow> ctl net' = ctl net \<Longrightarrow>
   id_sent p net' = id_sent p net \<and> id_rcvd p net' = id_rcvd p net \<and> id_acked p net' = id_acked p net \<and>
   id_seen p net' = id_seen p net \<and> current p f x net' = current p f x net"
proof -
  assume a: "phase net' = phase net" "ctl net' = ctl net"
  then have c: "n_sent p net' = n_sent p net" "n_rcvd p net' = n_rcvd p net" "n_seen p net' = n_seen p net"
    by (simp_all add: n_sent_def n_rcvd_def n_seen_def fun_eq_iff)
  have "id_sent p net' j = id_sent p net j \<and> id_rcvd p net' j = id_rcvd p net j \<and> id_acked p net' j = id_acked p net j \<and>
   id_seen p net' j = id_seen p net j" for j by (cases j) (simp_all add: a c)
  then show ?thesis using a c by (simp add: fun_eq_iff current_def)
qed

text \<open>A transfer is carried out while its source still holds what was posted.\<close>

lemma rd_source:
  assumes i: "rd_inv p n f x net" and j: "j \<in> rd_ids p" "id_sent p net j" "\<not> id_rcvd p net j"
  shows "buf net (c_src (rd_chan p j)) (c_sslot (rd_chan p j)) = payload p f x j"
proof -
  have ok: "rd_ok p n" and w: "rd_wires p net" and d: "rd_data p f x net" using i by (simp_all add: rd_inv_def)
  have v: "rd_valid p r (phase net r) (ctl net r)" if "r < p" for r using i that by (simp add: rd_inv_def)
  show ?thesis
  proof (cases j)
    case (D r k)
    have "\<not> id_seen p net j" using wires_ids_state(6) [OF w [unfolded rd_wires_def] rd_chan_inj j(1)] j(3) D by auto
    then have "n_sent p net r = k + 1" "n_seen p net r = k" "going (phase net r)" "stg net r \<noteq> INITIAL_STEP_NON_POWER_TWO"
      using D j v [of r]
      by (auto simp: n_sent_def n_seen_def rd_valid_def going_def split: if_splits)
    moreover have "r < p" "is_active_rank p r" "phase net r \<noteq> INITIALIZED" using D j(1) calculation(3) by (auto simp: going_def)
    ultimately show ?thesis using d D by (simp add: rd_data_def data_chan_def current_def)
  next
    case (N r)
    then have r: "r < p" "is_non_extra_rank p r" "going (phase net r)" using j by simp_all
    then have ph: "phase net r \<noteq> INITIALIZED" by (auto simp: going_def)
    show ?thesis
    proof (cases "even r")
      case True
      then have a: "is_even_non_extra_rank p r" "is_active_rank p r" "stg net r = FINAL_STEP_NON_POWER_TWO"
        using r N j(2) by (auto simp: rd_roles)
      then have "n_seen p net r = Lp p" using r by (simp add: n_seen_def)
      then show ?thesis using d N r a ph True by (simp add: rd_data_def npt_chan_def npt_source_def current_def)
    next
      case False
      then have "\<not> is_even_non_extra_rank p r" "\<not> is_active_rank p r"
        using r by (auto simp: rd_roles even_iff_mod_2_eq_zero)
      then show ?thesis using d N r ph False by (simp add: rd_data_def npt_chan_def npt_source_def)
    qed
  qed
qed

lemma rd_dst_inj:
  assumes "rd_ok p n" "i \<in> rd_ids p" "j \<in> rd_ids p" "c_dst (rd_chan p i) = c_dst (rd_chan p j)"
    "c_dslot (rd_chan p i) = c_dslot (rd_chan p j)"
  shows "i = j"
proof (cases i)
  case (D r k)
  with assms show ?thesis using neighbor(3) [OF assms(1)] by (cases j) (auto simp: data_chan_def npt_chan_def, metis)
next
  case (N r)
  with assms show ?thesis using pair_neighbor(4) [OF assms(1)] by (cases j) (auto simp: data_chan_def npt_chan_def, metis)
qed

lemma rd_deliver_ok:
  assumes i: "rd_inv p n f x net" and c: "0 < pend net c"
  shows "rd_inv p n f x (deliver c net) \<and> rd_left p (deliver c net) < rd_left p net"
proof -
  have ok: "rd_ok p n" and w: "rd_wires p net" and d: "rd_data p f x net" using i by (simp_all add: rd_inv_def)
  obtain j where j: "j \<in> rd_ids p" "c = rd_chan p j" using wires_ids_source [OF w [unfolded rd_wires_def]] c by blast
  have sr: "id_sent p net j" "\<not> id_rcvd p net j"
    using wires_ids_state(1) [OF w [unfolded rd_wires_def] rd_chan_inj j(1)] c j(2) by auto
  note src = rd_source [OF i j(1) sr, folded j(2)]
  let ?n = "deliver c net"
  have S: "id_sent p ?n = id_sent p net" "id_rcvd p ?n = id_rcvd p net" "id_acked p ?n = id_acked p net"
    "id_seen p ?n = id_seen p net" "current p f x ?n = current p f x net"
    using rd_same_ranks [of ?n net p f x] by (simp_all add: cnet)
  have "rd_wires p ?n" using w wires_deliver [OF _ c] unfolding rd_wires_def wires_ids_def S by blast
  moreover have "rd_data p f x ?n"
    unfolding rd_data_def S
  proof (intro conjI allI ballI impI)
    fix r assume r: "r < p" "phase ?n r \<noteq> INITIALIZED"
    have dsl: "c_dslot c \<noteq> RdSource" "c_dslot c \<noteq> NptSource" unfolding j(2) by (cases j; simp add: data_chan_def npt_chan_def)+
    have b: "buf ?n r RdSource = buf net r RdSource" "buf ?n r NptSource = buf net r NptSource"
      using dsl by (simp_all add: cnet)
    have ph: "phase net r \<noteq> INITIALIZED" using r by (simp add: cnet)
    show "buf ?n r RdSource = current p f x net r" if "is_active_rank p r"
      using d r(1) ph that unfolding b rd_data_def by blast
    show "buf ?n r NptSource = x r" if "\<not> is_active_rank p r"
      using d r(1) ph that unfolding b rd_data_def by blast
  next
    fix l assume l: "l \<in> rd_ids p" "flag ?n (rd_chan p l) \<or> id_rcvd p net l"
    show "buf ?n (c_dst (rd_chan p l)) (c_dslot (rd_chan p l)) = payload p f x l"
    proof (cases "l = j")
      case True
      then show ?thesis using src j(2) by (simp add: cnet)
    next
      case False
      then have "rd_chan p l \<noteq> c" using rd_chan_inj l(1) j by (auto simp: inj_on_def)
      then have "flag net (rd_chan p l) \<or> id_rcvd p net l" using l(2) by (simp add: cnet)
      then have o: "buf net (c_dst (rd_chan p l)) (c_dslot (rd_chan p l)) = payload p f x l"
        using d l(1) unfolding rd_data_def by blast
      have "c_dst (rd_chan p l) \<noteq> c_dst c \<or> c_dslot (rd_chan p l) \<noteq> c_dslot c"
        using rd_dst_inj [OF ok l(1) j(1)] False j(2) by blast
      then show ?thesis using o by (auto simp: cnet)
    qed
  qed
  ultimately have "rd_inv p n f x ?n" using i by (simp add: rd_inv_def cnet)
  moreover have "ranks_work p (rd_work p) ?n = ranks_work p (rd_work p) net"
    by (rule ranks_work_same) (simp_all add: cnet)
  ultimately show ?thesis
    using posted_deliver [of "rd_chan p ` rd_ids p" c net] c j rd_ids_fin by (simp add: rd_left_def)
qed

lemma rd_deliver_ack_ok:
  assumes i: "rd_inv p n f x net" and c: "0 < apend net c"
  shows "rd_inv p n f x (deliver_ack c net) \<and> rd_left p (deliver_ack c net) < rd_left p net"
proof -
  have w: "rd_wires p net" using i by (simp add: rd_inv_def)
  obtain j where j: "j \<in> rd_ids p" "c = rd_chan p j" using wires_ids_source [OF w [unfolded rd_wires_def]] c by blast
  let ?n = "deliver_ack c net"
  have S: "id_sent p ?n = id_sent p net" "id_rcvd p ?n = id_rcvd p net" "id_acked p ?n = id_acked p net"
    "id_seen p ?n = id_seen p net" "current p f x ?n = current p f x net"
    using rd_same_ranks [of ?n net p f x] by (simp_all add: cnet)
  have "rd_wires p ?n" using w wires_deliver_ack [OF _ c] unfolding rd_wires_def wires_ids_def S by blast
  moreover have "rd_data p f x ?n" using i unfolding rd_inv_def rd_data_def S by (simp add: cnet)
  ultimately have "rd_inv p n f x ?n" using i by (simp add: rd_inv_def cnet)
  moreover have "ranks_work p (rd_work p) ?n = ranks_work p (rd_work p) net"
    by (rule ranks_work_same) (simp_all add: cnet)
  ultimately show ?thesis
    using posted_deliver_ack [of "rd_chan p ` rd_ids p" c net] c j rd_ids_fin by (simp add: rd_left_def)
qed

end
