(* ===== verification/Doubling_Props.thy ===== *)
theory Doubling_Props
  imports Doubling_Correct
begin

text \<open>The progress calls of the recursive-doubling allreduce, and what its runs guarantee.\<close>

section \<open>Progress calls\<close>

lemma set_ctl_twice: "set_ctl r a (set_ctl r b net) = set_ctl r a net"
  by (simp add: set_ctl_def)

lemma rd_ctl_eq: "s\<lparr>alg_stage := a, iteration := i\<rparr> = \<lparr>iteration = i, alg_stage = a\<rparr>" for s :: rd_ctl
  by (cases s) simp

lemma rd_ctl_eq2: "s\<lparr>iteration := i\<rparr> = \<lparr>iteration = i, alg_stage = alg_stage s\<rparr>" for s :: rd_ctl
  by (cases s) simp

lemma ctl_set_ctl: "ctl (set_ctl r a net) r = a"
  by (simp add: set_ctl_def)

lemma rd_advance_eq:
  "rd_advance p r net =
     (False, set_ctl r \<lparr>iteration = itr net r + 1,
        alg_stage = (if itr net r = Lp p - 1 then FINAL_STEP_NON_POWER_TWO else stg net r)\<rparr>
      (if itr net r = Lp p - 1 \<and> is_even_non_extra_rank p r then initTransfer (npt_chan p r) net else net))"
  by (auto simp: rd_advance_def Let_def is_last_iteration_def ctl_set_ctl set_ctl_twice rd_ctl_eq rd_ctl_eq2)

text \<open>The calls that find nothing to do.\<close>

definition rd_waiting :: "nat \<Rightarrow> nat \<Rightarrow> 'a rd_net \<Rightarrow> bool" where
  "rd_waiting p r net \<longleftrightarrow>
     (case stg net r of
        INITIAL_STEP_NON_POWER_TWO \<Rightarrow> is_even_non_extra_rank p r \<and> \<not> flag net (npt_chan p (pair_neighbor r))
      | WAIT_FOR_DATA \<Rightarrow> is_active_rank p r \<and> \<not> flag net (data_chan p (neighbor p r (itr net r)) (itr net r))
      | WAIT_FOR_ACK \<Rightarrow> is_active_rank p r \<and> \<not> aflag net (data_chan p r (itr net r))
      | FINAL_STEP_NON_POWER_TWO \<Rightarrow>
          is_even_non_extra_rank p r \<and> \<not> aflag net (npt_chan p r) \<or>
          is_odd_non_extra_rank p r \<and> \<not> flag net (npt_chan p (pair_neighbor r))
      | NOT_STARTED \<Rightarrow> False)"

abbreviation settle :: "nat \<Rightarrow> bool \<times> 'a rd_net \<Rightarrow> 'a rd_net" where
  "settle r res \<equiv> set_phase r (if fst res then FINISHED else RUNNING, snd res)"

lemma power_two_extra: "is_power_two_case p \<Longrightarrow> is_extra_rank p r"
  by (simp add: is_power_two_case_def is_extra_rank_def)

lemma rd_final_ok:
  assumes i: "rd_inv p n f x net" and r: "r < p" and ph: "phase net r = RUNNING"
    and st: "stg net r = FINAL_STEP_NON_POWER_TWO" and n': "net' = settle r (rd_final p r net)"
  shows "rd_inv p n f x net' \<and> rd_left p net' < rd_left p net \<or> net' = net \<and> rd_waiting p r net"
proof -
  consider "is_extra_rank p r" | "is_even_non_extra_rank p r" "\<not> is_power_two_case p"
    | "is_odd_non_extra_rank p r" "\<not> is_even_non_extra_rank p r" "\<not> is_power_two_case p"
    using power_two_extra [of p r]
    by (cases "is_power_two_case p"; cases "2 * number_ranks_rest p \<le> r"; cases "r mod 2 = 0"; auto simp: rd_roles)
  then show ?thesis
  proof cases
    case 1
    then have "rd_final p r net = (True, net)"
      by (simp add: rd_final_def is_even_non_extra_rank_def is_odd_non_extra_rank_def is_non_extra_rank_def)
    then show ?thesis using rd_finish_extra_ok [OF i r 1 ph st] n' by simp
  next
    case 2
    then have e: "rd_final p r net = checkForTransferAck (npt_chan p r) net" by (simp add: rd_final_def)
    show ?thesis
    proof (cases "aflag net (npt_chan p r)")
      case True
      then show ?thesis using rd_finish_even_ok [OF i r 2(1) ph st True] n' e by (simp add: checkForTransferAck_def)
    next
      case False
      then have "net' = net" using n' e ph by (simp add: checkForTransferAck_def set_phase_same)
      then show ?thesis using 2 False st by (simp add: rd_waiting_def)
    qed
  next
    case 3
    show ?thesis
    proof (cases "flag net (npt_chan p (pair_neighbor r))")
      case True
      then show ?thesis using rd_finish_odd_ok [OF i r 3(1) ph st refl True] n' 3
        by (simp add: rd_final_def checkForCompletion_def)
    next
      case False
      then have "net' = net" using n' ph 3 by (simp add: rd_final_def checkForCompletion_def set_phase_same)
      then show ?thesis using 3 False st by (simp add: rd_waiting_def)
    qed
  qed
qed

lemma rd_active_ok:
  assumes i: "rd_inv p n f x net" and r: "r < p" "is_active_rank p r" and ph: "phase net r = RUNNING"
    and st: "stg net r = WAIT_FOR_DATA \<or> stg net r = WAIT_FOR_ACK" and n': "net' = settle r (rd_active p f r net)"
  shows "rd_inv p n f x net' \<and> rd_left p net' < rd_left p net \<or> net' = net \<and> rd_waiting p r net"
proof -
  define k where "k = itr net r"
  let ?from = "data_chan p (neighbor p r k) k"
  have kL: "k < Lp p" using i r ph st by (auto simp: rd_inv_def rd_valid_def going_def k_def)
  have run: "set_phase r (RUNNING, m) = m" if "phase m r = RUNNING" for m :: "'a rd_net"
    using that by (rule set_phase_same)
  consider (d) "stg net r = WAIT_FOR_DATA" "flag net ?from" | (dn) "stg net r = WAIT_FOR_DATA" "\<not> flag net ?from"
    | (a) "stg net r = WAIT_FOR_ACK" "aflag net (data_chan p r k)"
    | (an) "stg net r = WAIT_FOR_ACK" "\<not> aflag net (data_chan p r k)"
    using st by blast
  then show ?thesis
  proof cases
    case d
    then have "rd_active p f r net = (False, set_ctl r ((ctl net r)\<lparr>alg_stage := WAIT_FOR_ACK\<rparr>)
        (ackTransfer ?from (snd (checkForCompletion ?from net))))"
      by (simp add: rd_active_def Let_def k_def checkForCompletion_def)
    then have "net' = set_ctl r ((ctl net r)\<lparr>alg_stage := WAIT_FOR_ACK\<rparr>) (ackTransfer ?from (snd (checkForCompletion ?from net)))"
      using ph n' by (simp add: run cnet)
    then show ?thesis using rd_receive_ok [OF i r ph d(1) k_def [symmetric] refl d(2)] by blast
  next
    case dn
    then have "net' = net" using n' ph by (simp add: rd_active_def Let_def k_def [symmetric] checkForCompletion_def run)
    then show ?thesis using dn r by (simp add: rd_waiting_def k_def)
  next
    case a
    let ?mid = "rd_reduce f r (RdTarget k) (snd (checkForTransferAck (data_chan p r k) net))"
    have e: "rd_active p f r net = rd_advance p r
        (if k \<noteq> Lp p - 1 then set_ctl r ((ctl net r)\<lparr>alg_stage := WAIT_FOR_DATA\<rparr>) (initTransfer (data_chan p r (k + 1)) ?mid)
         else ?mid)"
    proof -
      obtain m where T: "checkForTransferAck (data_chan p r k) net = (True, m)"
        using a by (simp add: checkForTransferAck_def)
      show ?thesis using a unfolding rd_active_def Let_def k_def [symmetric] T by (simp add: is_last_iteration_def)
    qed
    show ?thesis
    proof (cases "k + 1 = Lp p")
      case True
      then have "net' = set_ctl r \<lparr>iteration = k + 1, alg_stage = FINAL_STEP_NON_POWER_TWO\<rparr>
          (if is_even_non_extra_rank p r then initTransfer (npt_chan p r) ?mid else ?mid)"
        using n' ph unfolding e rd_advance_eq by (simp add: cnet run k_def)
      from rd_last_ok [OF i r ph a(1) k_def [symmetric] True a(2) refl this] show ?thesis by blast
    next
      case False
      let ?n = "set_ctl r ((ctl net r)\<lparr>alg_stage := WAIT_FOR_DATA\<rparr>) (initTransfer (data_chan p r (k + 1)) ?mid)"
      have c: "ctl ?n r = (ctl net r)\<lparr>alg_stage := WAIT_FOR_DATA\<rparr>" by (simp add: cnet)
      have kn: "k \<noteq> Lp p - 1" using False kL by linarith
      then have "rd_active p f r net = rd_advance p r ?n" unfolding e by simp
      also have "\<dots> = (False, set_ctl r \<lparr>iteration = k + 1, alg_stage = WAIT_FOR_DATA\<rparr>
          (initTransfer (data_chan p r (k + 1)) ?mid))"
        using kn unfolding rd_advance_eq c by (simp add: set_ctl_twice k_def [symmetric])
      finally have "net' = set_ctl r \<lparr>iteration = k + 1, alg_stage = WAIT_FOR_DATA\<rparr>
          (initTransfer (data_chan p r (k + 1)) ?mid)"
        using n' ph by (simp add: cnet run)
      from rd_combine_ok [OF i r ph a(1) k_def [symmetric] _ a(2) this] False kL show ?thesis by simp
    qed
  next
    case an
    then have "net' = net" using n' ph by (simp add: rd_active_def Let_def k_def [symmetric] checkForTransferAck_def run)
    then show ?thesis using an r by (simp add: rd_waiting_def k_def)
  qed
qed

lemma rd_rest_ok:
  assumes i: "rd_inv p n f x net" and r: "r < p" and ph: "phase net r = RUNNING"
    and st: "is_active_rank p r \<Longrightarrow> stg net r \<noteq> INITIAL_STEP_NON_POWER_TWO" and n': "net' = settle r (rd_rest p f r net)"
  shows "rd_inv p n f x net' \<and> rd_left p net' < rd_left p net \<or> net' = net \<and> rd_waiting p r net"
proof -
  have v: "rd_valid p r RUNNING (ctl net r)" using i r ph by (auto simp: rd_inv_def)
  consider "stg net r = FINAL_STEP_NON_POWER_TWO"
    | "stg net r \<noteq> FINAL_STEP_NON_POWER_TWO" "is_active_rank p r" "stg net r = WAIT_FOR_DATA \<or> stg net r = WAIT_FOR_ACK"
    | "stg net r \<noteq> FINAL_STEP_NON_POWER_TWO" "\<not> is_active_rank p r"
    using v st by (auto simp: rd_valid_def going_def split: if_splits)
  then show ?thesis
  proof cases
    case 1
    then show ?thesis using rd_final_ok [OF i r ph 1] n' by (simp add: rd_rest_def)
  next
    case 2
    then show ?thesis using rd_active_ok [OF i r 2(2) ph 2(3)] n' by (simp add: rd_rest_def)
  next
    case 3
    then have "\<not> is_even_non_extra_rank p r" by (simp add: is_active_rank_def)
    then have "net' = set_ctl r \<lparr>iteration = itr net r + 1,
        alg_stage = (if itr net r = Lp p - 1 then FINAL_STEP_NON_POWER_TWO else stg net r)\<rparr> net"
      using n' 3 ph by (simp add: rd_rest_def rd_advance_eq set_phase_same cnet)
    then show ?thesis using rd_idle_ok [OF i r 3(2) ph 3(1)] by simp
  qed
qed

lemma rd_trigger_ok:
  assumes i: "rd_inv p n f x net" and r: "r < p" and ph: "phase net r = RUNNING"
    and n': "net' = trigger_result (rd_impl p n f r) r net"
  shows "rd_inv p n f x net' \<and> rd_left p net' < rd_left p net \<or> net' = net \<and> rd_waiting p r net"
proof -
  have p: "n \<noteq> 0" "p \<noteq> 1" using i by (auto simp: rd_inv_def rd_ok_def)
  have t: "net' = settle r (rd_trigger p n f r net)" using n' by (simp add: trigger_result_def rd_impl_def)
  have v: "rd_valid p r RUNNING (ctl net r)" using i r ph by (auto simp: rd_inv_def)
  let ?c = "npt_chan p (pair_neighbor r)"
  show ?thesis
  proof (cases "is_even_non_extra_rank p r \<and> stg net r = INITIAL_STEP_NON_POWER_TWO")
    case False
    then have "stg net r \<noteq> INITIAL_STEP_NON_POWER_TWO" if "is_active_rank p r"
      using v that by (auto simp: rd_valid_def going_def split: if_splits)
    moreover have "net' = settle r (rd_rest p f r net)" using t False p by (simp add: rd_trigger_def)
    ultimately show ?thesis using rd_rest_ok [OF i r ph] by blast
  next
    case True
    show ?thesis
    proof (cases "flag net ?c")
      case False
      then have "net' = net" using t p ph True by (simp add: rd_trigger_def checkForCompletion_def set_phase_same)
      then show ?thesis using True False by (simp add: rd_waiting_def)
    next
      case fg: True
      let ?n1 = "set_ctl r ((ctl net r)\<lparr>alg_stage := WAIT_FOR_DATA\<rparr>) (initTransfer (data_chan p r (itr net r))
          (rd_reduce f r NptTarget (snd (checkForCompletion ?c net))))"
      have n1: "rd_inv p n f x ?n1 \<and> rd_left p ?n1 < rd_left p net"
        by (rule rd_collect_ok [OF i r True [THEN conjunct1] ph True [THEN conjunct2] fg refl refl])
      have "net' = settle r (rd_rest p f r ?n1)"
        using t p True fg by (simp add: rd_trigger_def checkForCompletion_def)
      with rd_rest_ok [OF n1 [THEN conjunct1] r, of net'] n1 ph show ?thesis by (auto simp: cnet)
    qed
  qed
qed

section \<open>No deadlock\<close>

lemma rd_all_final:
  assumes i: "rd_inv p n f x net" and all: "\<forall>r < p. going (phase net r)"
    and quiet: "\<forall>c. pend net c = 0 \<and> apend net c = 0"
    and wait: "\<forall>r < p. phase net r = RUNNING \<longrightarrow> rd_waiting p r net" and r: "r < p" "is_active_rank p r"
  shows "stg net r = FINAL_STEP_NON_POWER_TWO"
proof -
  have ok: "rd_ok p n" and w: "rd_wires p net" using i by (simp_all add: rd_inv_def)
  note st = wires_ids_state [OF w [unfolded rd_wires_def] rd_chan_inj]
  have v: "rd_valid p q (phase net q) (ctl net q)" if "q < p" for q using i that by (simp add: rd_inv_def)
  have past: "stg net q \<noteq> INITIAL_STEP_NON_POWER_TWO" if q: "q < p" "is_active_rank p q" for q
  proof
    assume s: "stg net q = INITIAL_STEP_NON_POWER_TWO"
    then have run: "phase net q = RUNNING" "is_even_non_extra_rank p q"
      using v [OF q(1)] all q by (auto simp: rd_valid_def)
    then have ne: "is_non_extra_rank p q" "even q" by (auto simp: is_even_non_extra_rank_def even_iff_mod_2_eq_zero)
    note pn = pair_neighbor [OF ok q(1) ne(1)]
    have "odd (pair_neighbor q)" using pn(1) ne(2) by simp
    then have "flag net (npt_chan p (pair_neighbor q))"
      using st(3) [of "N (pair_neighbor q)"] pn all quiet s by simp
    then show False using wait q(1) run s by (auto simp: rd_waiting_def)
  qed
  have val: "stg net q = FINAL_STEP_NON_POWER_TWO \<and> n_seen p net q = Lp p \<or>
      phase net q = RUNNING \<and> (stg net q = WAIT_FOR_DATA \<or> stg net q = WAIT_FOR_ACK) \<and> n_seen p net q = itr net q \<and> itr net q < Lp p"
    if "q < p" "is_active_rank p q" for q
    using v [OF that(1)] past [OF that] all that by (auto simp: rd_valid_def n_seen_def split: if_splits)
  define A where "A = {q. q < p \<and> is_active_rank p q}"
  define m where "m = Min (n_seen p net ` A)"
  have fin: "finite (n_seen p net ` A)" "n_seen p net ` A \<noteq> {}" using r by (auto simp: A_def)
  from Min_in [OF fin] obtain q where q: "q < p" "is_active_rank p q" "n_seen p net q = m" by (auto simp: A_def m_def)
  have least: "m \<le> n_seen p net q'" if "q' < p" "is_active_rank p q'" for q'
    using Min_le [OF fin(1)] that by (auto simp: A_def m_def)
  have "m = Lp p"
  proof (rule ccontr)
    assume "m \<noteq> Lp p"
    then have run: "phase net q = RUNNING" "stg net q = WAIT_FOR_DATA \<or> stg net q = WAIT_FOR_ACK" "itr net q = m" "m < Lp p"
      using val [OF q(1,2)] q(3) by auto
    have wd: "stg net q' = WAIT_FOR_ACK" if q': "q' < p" "is_active_rank p q'" "n_seen p net q' = m" for q'
    proof (rule ccontr)
      assume "stg net q' \<noteq> WAIT_FOR_ACK"
      then have d: "phase net q' = RUNNING" "stg net q' = WAIT_FOR_DATA" "itr net q' = m"
        using val [OF q'(1,2)] q'(3) run(4) by auto
      note nb = neighbor [OF ok q'(1,2) run(4)]
      have "m < n_sent p net (neighbor p q' m)"
        using val [OF nb(1,2)] least [OF nb(1,2)] run(4) all nb(1) by (auto simp: n_sent_def n_seen_def)
      moreover have "n_rcvd p net q' = m" using d by (simp add: n_rcvd_def going_def)
      ultimately have "flag net (data_chan p (neighbor p q' m) m)"
        using st(3) [of "D (neighbor p q' m) m"] nb run(4) quiet by simp
      then show False using wait q'(1) d by (auto simp: rd_waiting_def)
    qed
    note nb = neighbor [OF ok q(1,2) run(4)]
    have "m < n_rcvd p net (neighbor p q m)"
    proof (cases "n_seen p net (neighbor p q m) = m")
      case True
      have "itr net (neighbor p q m) = m" using val [OF nb(1,2)] True run(4) by auto
      then show ?thesis using wd [OF nb(1,2) True] all nb(1) by (simp add: n_rcvd_def)
    next
      case False
      with least [OF nb(1,2)] have "m < n_seen p net (neighbor p q m)" by simp
      then show ?thesis using val [OF nb(1,2)] all nb(1) by (auto simp: n_rcvd_def n_seen_def)
    qed
    then have "aflag net (data_chan p q m)"
      using st(4) [of "D q m"] q run(4) quiet by simp
    then show False using wait q(1) run wd [OF q] by (auto simp: rd_waiting_def)
  qed
  with least [OF r] val [OF r] show ?thesis by auto
qed

lemma rd_can_move:
  assumes i: "rd_inv p n f x net" and all: "\<forall>r < p. going (phase net r)"
    and quiet: "\<forall>c. pend net c = 0 \<and> apend net c = 0"
    and wait: "\<forall>r < p. phase net r = RUNNING \<longrightarrow> rd_waiting p r net"
  shows "\<forall>r < p. phase net r = FINISHED"
proof -
  have ok: "rd_ok p n" and w: "rd_wires p net" using i by (simp_all add: rd_inv_def)
  note st = wires_ids_state [OF w [unfolded rd_wires_def] rd_chan_inj]
  note act = rd_all_final [OF i all quiet wait]
  have odd: "phase net r = FINISHED" if r: "r < p" "is_odd_non_extra_rank p r" for r
  proof (rule ccontr)
    assume "phase net r \<noteq> FINISHED"
    then have run: "phase net r = RUNNING" using all r by (auto simp: going_def)
    have ne: "is_non_extra_rank p r" "odd r" "\<not> is_even_non_extra_rank p r" "\<not> is_active_rank p r"
      using r by (auto simp: rd_roles odd_iff_mod_2_eq_one)
    note pn = pair_neighbor [OF ok r(1) ne(1)]
    have "rd_waiting p r net" using wait r(1) run by blast
    then have nf: "\<not> flag net (npt_chan p (pair_neighbor r))" using ne
      by (auto simp: rd_waiting_def split: AlgStage.splits)
    have "even (pair_neighbor r)" using pn(1) ne by simp
    moreover have "is_active_rank p (pair_neighbor r)" using pn(6) r(2) by (simp add: is_active_rank_def)
    ultimately have "id_sent p net (N (pair_neighbor r))" "\<not> id_rcvd p net (N (pair_neighbor r))"
      using act [OF pn(2)] all pn run by simp_all
    then have "flag net (npt_chan p (pair_neighbor r))" using st(3) [of "N (pair_neighbor r)"] pn quiet by simp
    with nf show False by blast
  qed
  show ?thesis
  proof (intro allI impI, rule ccontr)
    fix r assume r: "r < p" and "phase net r \<noteq> FINISHED"
    then have run: "phase net r = RUNNING" using all by (auto simp: going_def)
    then have "is_active_rank p r" using odd [OF r] by (cases "r mod 2 = 0"; auto simp: rd_roles)
    then have "stg net r = FINAL_STEP_NON_POWER_TWO" using act [OF r] by blast
    moreover have "rd_waiting p r net" using wait r run by blast
    moreover have "\<not> is_odd_non_extra_rank p r" using odd [OF r] run by auto
    ultimately have e: "is_even_non_extra_rank p r" "\<not> aflag net (npt_chan p r)"
      by (simp_all add: rd_waiting_def)
    have ne: "is_non_extra_rank p r" "even r" using e(1) by (auto simp: rd_roles even_iff_mod_2_eq_zero)
    note pn = pair_neighbor [OF ok r ne(1)]
    have "phase net (pair_neighbor r) = FINISHED" using odd pn e(1) by simp
    then have "aflag net (npt_chan p r)" using st(4) [of "N r"] r ne run quiet by simp
    with e(2) show False by blast
  qed
qed

lemma rd_inv_init:
  assumes ok: "rd_ok p n" and init: "coll_init p net"
  shows "rd_inv p n f x net"
proof -
  have ph: "phase net r = INITIALIZED" if "r < p" for r using init that by (simp add: coll_init_def)
  have nb: "neighbor p r k < p" if "D r k \<in> rd_ids p" for r k using that neighbor(1) [OF ok] by simp
  have pn: "pair_neighbor r < p" if "N r \<in> rd_ids p" for r using that pair_neighbor(2) [OF ok] by simp
  have none: "\<not> id_sent p net j" "\<not> id_rcvd p net j" "\<not> id_acked p net j" "\<not> id_seen p net j" if "j \<in> rd_ids p" for j
    using that nb pn by (cases j; auto simp: ph n_sent_def n_rcvd_def n_seen_def going_def)+
  have "rd_wires p net" unfolding rd_wires_def
    by (rule wires_ids_cong [OF wires_ids_init [OF init]]) (use none in simp_all)
  moreover have "flag net c = False" for c using init by (simp add: coll_init_def)
  ultimately show ?thesis using ok ph none by (simp add: rd_inv_def rd_valid_def going_def rd_data_def)
qed

interpretation rd: one_execution p "rd_impl p n f" inp "rd_ok p n" "rd_inv p n f (\<lambda>r. take n (inp r))" "rd_left p"
proof
  fix net net' :: "'a rd_net" and r c
  let ?inv = "rd_inv p n f (\<lambda>r. take n (inp r))"
  show "rd_ok p n \<Longrightarrow> coll_init p net \<Longrightarrow> ?inv net" by (rule rd_inv_init)
  assume i: "?inv net"
  show "0 < pend net c \<Longrightarrow> ?inv (deliver c net) \<and> rd_left p (deliver c net) < rd_left p net"
    by (rule rd_deliver_ok [OF i])
  show "0 < apend net c \<Longrightarrow> ?inv (deliver_ack c net) \<and> rd_left p (deliver_ack c net) < rd_left p net"
    by (rule rd_deliver_ack_ok [OF i])
  show "\<exists>r < p. phase net r = RUNNING \<and> trigger_result (rd_impl p n f r) r net \<noteq> net"
    if a: "\<forall>r < p. phase net r = RUNNING \<or> phase net r = FINISHED" "\<forall>c. pend net c = 0 \<and> apend net c = 0"
      "\<not> finished_all p net"
  proof (rule ccontr)
    assume "\<not> ?thesis"
    then have "\<forall>r < p. phase net r = RUNNING \<longrightarrow> rd_waiting p r net" using rd_trigger_ok [OF i _ _ refl] by fastforce
    with rd_can_move [OF i _ a(2)] a(1) have "\<forall>r < p. phase net r = FINISHED" by (simp add: going_def)
    with a(3) show False by (simp add: finished_all_def)
  qed
  assume r: "r < p"
  show "phase net r \<noteq> UNINITIALIZED" using i r by (auto simp: rd_inv_def rd_valid_def)
  show "?inv net' \<and> rd_left p net' < rd_left p net"
    if "phase net r = INITIALIZED" "net' = set_phase r (READY, copyInImpl (rd_impl p n f r) (inp r) net)"
    by (rule rd_copyIn_ok [OF i r that(1) refl]) (use that in \<open>simp add: rd_impl_def\<close>)
  show "?inv net' \<and> rd_left p net' < rd_left p net"
    if "phase net r = READY" "net' = set_phase r (RUNNING, startImpl (rd_impl p n f r) net)"
    by (rule rd_start_ok [OF i r that(1)]) (use that in \<open>simp add: rd_impl_def\<close>)
  show "?inv net' \<and> rd_left p net' < rd_left p net"
    if "phase net r = RUNNING" "net' = trigger_result (rd_impl p n f r) r net" "net' \<noteq> net"
    using rd_trigger_ok [OF i r that(1,2)] that(3) by blast
qed

section \<open>What the vectors contain\<close>

lemma xor_block: "(j XOR 2 ^ k) div 2 ^ k = (j div 2 ^ k) XOR (1 :: nat)"
proof -
  have "drop_bit k (j XOR 2 ^ k) = drop_bit k j XOR drop_bit k (2 ^ k :: nat)" by simp
  moreover have "drop_bit k (2 ^ k :: nat) = 1" by (simp add: drop_bit_eq_div)
  ultimately show ?thesis by (simp add: drop_bit_eq_div)
qed

lemma half_block: "(a div 2 = b div 2) \<longleftrightarrow> a = b \<or> a = b XOR (1 :: nat)"
  by (cases "even a"; cases "even b") (auto simp: xor_Suc_0_eq elim!: evenE oddE)

text \<open>The ranks whose inputs are combined in the vector of \<open>r\<close> after \<open>k\<close> iterations.\<close>

definition block :: "nat \<Rightarrow> nat \<Rightarrow> nat \<Rightarrow> nat set" where
  "block p k r = {q. q < p \<and> relabeled_rank p q div 2 ^ k = relabeled_rank p r div 2 ^ k}"

lemma block_Suc:
  assumes "rd_ok p n" "r < p" "is_active_rank p r" "k < Lp p"
  shows "block p (Suc k) r = block p k r \<union> block p k (neighbor p r k)"
    "block p k r \<inter> block p k (neighbor p r k) = {}"
proof -
  have l: "relabeled_rank p (neighbor p r k) div 2 ^ k = (relabeled_rank p r div 2 ^ k) XOR 1"
    using neighbor_label [OF assms] xor_block by simp
  have h: "a div 2 ^ Suc k = b div 2 ^ Suc k \<longleftrightarrow> a div 2 ^ k = b div 2 ^ k \<or> a div 2 ^ k = (b div 2 ^ k) XOR 1" for a b :: nat
    unfolding power_Suc2 div_mult2_eq by (rule half_block)
  show "block p (Suc k) r = block p k r \<union> block p k (neighbor p r k)"
    unfolding block_def h l by blast
  have "relabeled_rank p r div 2 ^ k XOR 1 \<noteq> relabeled_rank p r div 2 ^ k"
    using xor_neq [of "relabeled_rank p r div 2 ^ k" 0] by simp
  then show "block p k r \<inter> block p k (neighbor p r k) = {}"
    unfolding block_def l disjoint_iff mem_Collect_eq by metis
qed

lemma label_eq:
  "r < 2 * R \<Longrightarrow> r mod 2 = 0 \<Longrightarrow> (if q < 2 * R then q div 2 else q - R) = r div 2 \<longleftrightarrow> q = r \<or> q = r + 1" for R r q :: nat
proof -
  assume r: "r < 2 * R" "r mod 2 = 0"
  then obtain t where t: "r = 2 * t" by (metis mod_0_imp_dvd dvdE)
  show ?thesis
  proof (cases "q < 2 * R")
    case True
    have "q div 2 = t \<longleftrightarrow> q = 2 * t \<or> q = 2 * t + 1" by linarith
    then show ?thesis using True t by simp
  next
    case False
    then show ?thesis using r t by auto
  qed
qed

lemma label_eq_extra:
  "2 * R \<le> r \<Longrightarrow> (if q < 2 * R then q div 2 else q - R) = r - R \<longleftrightarrow> q = r" for R r q :: nat
proof -
  assume r: "2 * R \<le> r"
  have "q div 2 < R" if "q < 2 * R" using that by linarith
  then show ?thesis using r by auto
qed

lemma block_0:
  assumes "rd_ok p n" "r < p" "is_active_rank p r"
  shows "block p 0 r = (if is_even_non_extra_rank p r then {r, pair_neighbor r} else {r})"
proof -
  have b: "2 * number_ranks_rest p \<le> p" using used_bounds [of p] assms by (auto simp: rd_ok_def)
  have "q \<in> block p 0 r \<longleftrightarrow> q < p \<and> relabeled_rank p q = relabeled_rank p r" for q by (simp add: block_def)
  moreover have "(q < p \<and> relabeled_rank p q = relabeled_rank p r) \<longleftrightarrow> q = r \<or> is_even_non_extra_rank p r \<and> q = r + 1" for q
  proof (cases "is_extra_rank p r")
    case True
    then show ?thesis using assms(2) label_eq_extra [of "number_ranks_rest p" r q]
      by (auto simp: relabeled_rank_def rd_roles)
  next
    case False
    then have r: "r < 2 * number_ranks_rest p" "r mod 2 = 0" "is_even_non_extra_rank p r"
      using assms(3) by (auto simp: rd_roles)
    then have "r + 1 < 2 * number_ranks_rest p" by presburger
    then show ?thesis using r b label_eq [OF r(1,2), of q] by (auto simp: relabeled_rank_def)
  qed
  moreover have "pair_neighbor r = r + 1" if "is_even_non_extra_rank p r"
    using pair_neighbor(1) [OF assms(1,2)] that by (simp add: is_even_non_extra_rank_def even_iff_mod_2_eq_zero)
  ultimately show ?thesis by auto
qed

lemma block_all: "rd_ok p n \<Longrightarrow> r < p \<Longrightarrow> is_active_rank p r \<Longrightarrow> block p (Lp p) r = {..<p}"
proof -
  assume a: "rd_ok p n" "r < p" "is_active_rank p r"
  have "relabeled_rank p q div 2 ^ Lp p = 0" if "q < p" for q
    using that used_bounds [of p] a by (auto simp: relabeled_rank_def used_pow rd_ok_def)
  then show ?thesis using a by (auto simp: block_def)
qed

lemma rd_val_length:
  assumes "rd_ok p n" "\<forall>r < p. length (x r) = m" "r < p" "is_active_rank p r" "k \<le> Lp p"
  shows "length (rd_val p f x k r) = m"
  using assms(3-5)
proof (induction k arbitrary: r)
  case 0
  then show ?case using assms(1,2) pair_neighbor(2) [OF assms(1)]
    by (auto simp: apply_reduce_op_def is_even_non_extra_rank_def)
next
  case (Suc k)
  then show ?case using neighbor(1,2) [OF assms(1) Suc.prems(1,2), of k] by (simp add: apply_reduce_op_def)
qed

lemma apply_reduce_op_comm: "(\<And>a b. f a b = f b a) \<Longrightarrow> apply_reduce_op f xs ys = apply_reduce_op f ys xs"
  unfolding apply_reduce_op_def by (induction xs ys rule: list_induct2') auto

text \<open>With a commutative operation, associative or not, ranks of one block hold the same vector.\<close>

lemma rd_val_same:
  assumes ok: "rd_ok p n" and comm: "\<And>a b. f a b = f b a"
    and "r < p" "is_active_rank p r" "q < p" "is_active_rank p q" "k \<le> Lp p" "block p k q = block p k r"
  shows "rd_val p f x k q = rd_val p f x k r"
  using assms(3-8)
proof (induction k arbitrary: q r)
  case 0
  then have "relabeled_rank p q = relabeled_rank p r" by (auto simp: block_def)
  then have "q = r" using old_rank_label [of p] 0 ok by (metis rd_ok_def)
  then show ?case by simp
next
  case (Suc k)
  have kL: "k < Lp p" using Suc.prems by simp
  note nr = neighbor [OF ok Suc.prems(1,2) kL] and nq = neighbor [OF ok Suc.prems(3,4) kL]
  have mem: "x \<in> block p k x" if "x < p" for x using that by (simp add: block_def)
  have eqI: "block p k a = block p k b" if "a \<in> block p k b" for a b using that by (auto simp: block_def)
  have "q \<in> block p k r \<union> block p k (neighbor p r k)"
    using Suc.prems(3,6) block_Suc(1) [OF ok Suc.prems(1,2) kL] by (auto simp: block_def)
  then consider "q \<in> block p k r" | "q \<in> block p k (neighbor p r k)" by blast
  then show ?case
  proof cases
    case 1
    have "neighbor p q k \<in> block p k (neighbor p r k)"
      using 1 nq(1) neighbor_label [OF ok Suc.prems(1,2) kL] neighbor_label [OF ok Suc.prems(3,4) kL]
      by (simp add: block_def xor_block)
    then have "rd_val p f x k (neighbor p q k) = rd_val p f x k (neighbor p r k)"
      using Suc.IH [OF nr(1,2) nq(1,2) less_imp_le [OF kL]] eqI by blast
    moreover have "rd_val p f x k q = rd_val p f x k r"
      using Suc.IH [OF Suc.prems(1-4) less_imp_le [OF kL]] eqI [OF 1] by blast
    ultimately show ?thesis by simp
  next
    case 2
    have "neighbor p q k \<in> block p k r"
      using 2 nq(1) neighbor_label [OF ok Suc.prems(1,2) kL] neighbor_label [OF ok Suc.prems(3,4) kL]
      by (simp add: block_def xor_block xor.assoc)
    then have "rd_val p f x k (neighbor p q k) = rd_val p f x k r"
      using Suc.IH [OF Suc.prems(1,2) nq(1,2) less_imp_le [OF kL]] eqI by blast
    moreover have "rd_val p f x k q = rd_val p f x k (neighbor p r k)"
      using Suc.IH [OF nr(1,2) Suc.prems(3,4) less_imp_le [OF kL]] eqI [OF 2] by blast
    ultimately show ?thesis using apply_reduce_op_comm [OF comm] by simp
  qed
qed

lemma rd_val_fold:
  assumes m: "comm_monoid_set f z" and ok: "rd_ok p n" and len: "\<forall>r < p. length (x r) = m" and j: "j < m"
    and "r < p" "is_active_rank p r" "k \<le> Lp p"
  shows "rd_val p f x k r ! j = comm_monoid_set.F f z (\<lambda>q. x q ! j) (block p k r)"
  using assms(5-7)
proof (induction k arbitrary: r)
  case 0
  have "finite {r}" by simp
  have pn: "pair_neighbor r < p" "pair_neighbor r \<noteq> r" if "is_even_non_extra_rank p r"
    using that pair_neighbor(2,5) [OF ok 0(1)] by (auto simp: is_even_non_extra_rank_def)
  have one: "comm_monoid_set.F f z g {a} = g a" for g and a :: nat
    using comm_monoid_set.insert [OF m, of "{}" a g] comm_monoid_set.empty [OF m, of g]
      comm_monoid.comm_neutral [OF comm_monoid_set.axioms [OF m]] by simp
  have two: "comm_monoid_set.F f z g {a, b} = f (g a) (g b)" if "a \<noteq> b" for g and a b :: nat
    using comm_monoid_set.insert [OF m, of "{b}" a g] that one by simp
  show ?case using block_0 [OF ok 0(1,2)] one two pn len 0(1) j by (auto simp: apply_reduce_op_def)
next
  case (Suc k)
  have kL: "k < Lp p" using Suc.prems by simp
  note nb = neighbor [OF ok Suc.prems(1,2) kL]
  have fin: "finite (block p k q)" for q by (simp add: block_def)
  have "rd_val p f x (Suc k) r ! j = f (rd_val p f x k r ! j) (rd_val p f x k (neighbor p r k) ! j)"
    using rd_val_length [OF ok len Suc.prems(1,2), of k f] rd_val_length [OF ok len nb(1,2), of k f] kL j
    by (simp add: apply_reduce_op_def)
  also have "\<dots> = comm_monoid_set.F f z (\<lambda>q. x q ! j) (block p (Suc k) r)"
    using Suc.IH [OF Suc.prems(1,2)] Suc.IH [OF nb(1,2)] kL block_Suc [OF ok Suc.prems(1,2) kL]
      comm_monoid_set.union_disjoint [OF m fin fin] by simp
  finally show ?case .
qed

section \<open>Properties\<close>

lemma rd_result:
  assumes i: "rd_inv p n f x net" and r: "r < p" "phase net r = FINISHED"
  shows "buf net r (if is_active_rank p r then RdSource else NptTarget) =
    rd_val p f x (Lp p) (if is_active_rank p r then r else pair_neighbor r)"
proof -
  have ok: "rd_ok p n" and d: "rd_data p f x net" using i by (simp_all add: rd_inv_def)
  have v: "rd_valid p r (phase net r) (ctl net r)" using i r(1) by (auto simp: rd_inv_def)
  have st: "stg net r = FINAL_STEP_NON_POWER_TWO" using v r(2) by (auto simp: rd_valid_def going_def)
  show ?thesis
  proof (cases "is_active_rank p r")
    case True
    then show ?thesis using d r st by (simp add: rd_data_def current_def going_def n_seen_def)
  next
    case False
    then have ne: "is_non_extra_rank p r" "odd r" by (auto simp: rd_roles even_iff_mod_2_eq_zero)
    note pn = pair_neighbor [OF ok r(1) ne(1)]
    have "even (pair_neighbor r)" using pn(1) ne by simp
    then have "id_rcvd p net (N (pair_neighbor r))" using pn r(2) by simp
    then show ?thesis using rd_paired [OF i pn(2,3)] pn(4) False \<open>even (pair_neighbor r)\<close> by simp
  qed
qed

lemma rd_holder:
  assumes "rd_ok p n" "r < p"
  shows "(if is_active_rank p r then r else pair_neighbor r) < p"
    "is_active_rank p (if is_active_rank p r then r else pair_neighbor r)"
proof -
  have "pair_neighbor r < p \<and> is_active_rank p (pair_neighbor r)" if "\<not> is_active_rank p r"
  proof -
    have o: "is_odd_non_extra_rank p r" "is_non_extra_rank p r" using that by (auto simp: rd_roles)
    from pair_neighbor(2,6) [OF assms o(2)] o(1) show ?thesis by (simp add: is_active_rank_def)
  qed
  then show "(if is_active_rank p r then r else pair_neighbor r) < p"
    "is_active_rank p (if is_active_rank p r then r else pair_neighbor r)" using assms by auto
qed

lemma rd_copyOut_val:
  assumes i: "rd_inv p n f x net" and r: "r < p" "phase net r = FINISHED" and len: "\<forall>r < p. length (x r) = n"
  shows "copyOutImpl (rd_impl p n f r) net out =
    rd_val p f x (Lp p) (if is_active_rank p r then r else pair_neighbor r) @ drop n out"
proof -
  have ok: "rd_ok p n" using i by (simp add: rd_inv_def)
  note h = rd_holder [OF ok r(1)]
  have "length (rd_val p f x (Lp p) (if is_active_rank p r then r else pair_neighbor r)) = n"
    by (rule rd_val_length [OF ok len h order_refl])
  then show ?thesis using rd_result [OF i r] ok by (auto simp: rd_impl_def rd_copyOut_def write_at_def rd_ok_def)
qed

text \<open>
  Property C7. Recursive doubling computes the elementwise reduction for every number of ranks
  from 2 to \<open>2 ^ 16\<close>, powers of two or not: for a commutative semiring, every interleaving of the
  ranks' calls and every order of deliveries, a finished rank copies out the sums or products over
  all ranks' inputs.
\<close>

theorem allreduce_doubling_result:
  assumes "2 \<le> p" "p \<le> 2 ^ 16" "0 < n" "\<forall>r < p. length (inp r) = n"
    and "coll_init p n0" "gaspi_env env"
    and "coll_reach env (rd_impl p n (reduction_functor op)) p inp n0 net"
    and "r < p" "phase net r = FINISHED"
  shows "copyOutImpl (rd_impl p n (reduction_functor op) r) net out =
    map (\<lambda>j. case op of SUM_op \<Rightarrow> \<Sum>q < p. (inp q ! j :: 'a::comm_semiring_1) | PROD_op \<Rightarrow> \<Prod>q < p. inp q ! j) [0..<n]
      @ drop n out"
proof -
  have ok: "rd_ok p n" using assms by (simp add: rd_ok_def)
  let ?f = "reduction_functor op" and ?x = "\<lambda>r. take n (inp r)"
  note i = rd.reach_inv [OF assms(7) ok assms(5,6)]
  have len: "\<forall>r < p. length (?x r) = n" using assms(4) by simp
  let ?h = "if is_active_rank p r then r else pair_neighbor r"
  note h = rd_holder [OF ok assms(8)]
  have m: "comm_monoid_set ((+) :: 'a \<Rightarrow> _) 0" "comm_monoid_set ((*) :: 'a \<Rightarrow> _) 1"
    by (rule sum.comm_monoid_set_axioms prod.comm_monoid_set_axioms)+
  have "rd_val p ?f ?x (Lp p) ?h ! j = (case op of SUM_op \<Rightarrow> \<Sum>q < p. inp q ! j | PROD_op \<Rightarrow> \<Prod>q < p. inp q ! j)"
    if j: "j < n" for j
  proof (cases op)
    case SUM_op
    then show ?thesis
      using rd_val_fold [OF m(1) ok len j h order_refl, folded sum_def] j block_all [OF ok h] by simp
  next
    case PROD_op
    then show ?thesis
      using rd_val_fold [OF m(2) ok len j h order_refl, folded prod_def] j block_all [OF ok h] by simp
  qed
  then have "rd_val p ?f ?x (Lp p) ?h =
      map (\<lambda>j. case op of SUM_op \<Rightarrow> \<Sum>q < p. inp q ! j | PROD_op \<Rightarrow> \<Prod>q < p. inp q ! j) [0..<n]"
    using rd_val_length [OF ok len h order_refl, of ?f] by (intro nth_equalityI) (simp_all split: ReductionOp.split)
  then show ?thesis using rd_copyOut_val [OF i assms(8,9) len] by simp
qed

definition rd_net0 :: "nat rd_net" where
  "rd_net0 = \<lparr>phase = \<lambda>_. INITIALIZED, ctl = \<lambda>_. \<lparr>iteration = 0, alg_stage = NOT_STARTED\<rparr>, buf = \<lambda>_ _. [0], pend = \<lambda>_. 0,
     flag = \<lambda>_. False, apend = \<lambda>_. 0, aflag = \<lambda>_. False\<rparr>"

lemma rd_net0_init: "coll_init p rd_net0"
  by (simp add: rd_net0_def coll_init_def)

lemma rd_witness_run:
  "\<exists>net. coll_reach any_env (rd_impl 3 1 f) 3 (\<lambda>r. [r + 1]) rd_net0 net \<and> (\<forall>r < 3. phase net r = FINISHED)"
  using rd.reach_completes [OF rtranclp.rtrancl_refl _ rd_net0_init any_env_gaspi, of 3 1 f "\<lambda>r. [r + 1]"]
  by (simp add: rd_ok_def finished_all_def)

lemma allreduce_doubling_result_witness:
  "\<exists>net. coll_reach any_env (rd_impl 3 1 (reduction_functor SUM_op)) 3 (\<lambda>r. [r + 1]) rd_net0 net \<and>
     copyOutImpl (rd_impl 3 1 (reduction_functor SUM_op) 1) net [0, 5] = [6, 5]"
proof -
  obtain net where n: "coll_reach any_env (rd_impl 3 1 (reduction_functor SUM_op)) 3 (\<lambda>r. [r + 1]) rd_net0 net"
    "\<forall>r < 3. phase net r = FINISHED" using rd_witness_run by blast
  have "copyOutImpl (rd_impl 3 1 (reduction_functor SUM_op) 1) net [0, 5] = [6, 5]"
    using allreduce_doubling_result [OF _ _ _ _ rd_net0_init any_env_gaspi(1) n(1), of 1 "[0, 5]"] n(2)
    by (simp add: numeral_3_eq_3)
  with n(1) show ?thesis by blast
qed

text \<open>
  Recursive doubling gives every rank the same values for every commutative
  operation, associative or not (floating-point sums and products): all finished ranks copy out one
  and the same vector.
\<close>

theorem allreduce_doubling_same:
  assumes "2 \<le> p" "p \<le> 2 ^ 16" "0 < n" "\<forall>r < p. length (inp r) = n" "\<And>a b. f a b = f b a"
    and "coll_init p n0" "gaspi_env env" "coll_reach env (rd_impl p n f) p inp n0 net"
    and "r < p" "phase net r = FINISHED" "q < p" "phase net q = FINISHED"
  shows "copyOutImpl (rd_impl p n f r) net out = copyOutImpl (rd_impl p n f q) net out"
proof -
  have ok: "rd_ok p n" using assms by (simp add: rd_ok_def)
  note i = rd.reach_inv [OF assms(8) ok assms(6,7)]
  have len: "\<forall>r < p. length (take n (inp r)) = n" using assms(4) by simp
  note h = rd_holder [OF ok assms(9)] and g = rd_holder [OF ok assms(11)]
  have "rd_val p f (\<lambda>r. take n (inp r)) (Lp p) (if is_active_rank p r then r else pair_neighbor r) =
      rd_val p f (\<lambda>r. take n (inp r)) (Lp p) (if is_active_rank p q then q else pair_neighbor q)"
    by (rule rd_val_same [OF ok assms(5) g h order_refl]) (simp add: block_all [OF ok h] block_all [OF ok g])
  then show ?thesis using rd_copyOut_val [OF i assms(9,10) len] rd_copyOut_val [OF i assms(11,12) len] by simp
qed

lemma allreduce_doubling_same_witness:
  "\<exists>net. coll_reach any_env (rd_impl 3 1 (\<lambda>a b. a * b + 1)) 3 (\<lambda>r. [r + 1]) rd_net0 net \<and>
     copyOutImpl (rd_impl 3 1 (\<lambda>a b. a * b + 1) 0) net [] = copyOutImpl (rd_impl 3 1 (\<lambda>a b. a * b + 1) 1) net []"
proof -
  obtain net where n: "coll_reach any_env (rd_impl 3 1 (\<lambda>a b. a * b + 1)) 3 (\<lambda>r. [r + 1]) rd_net0 net"
    "\<forall>r < 3. phase net r = FINISHED" using rd_witness_run by blast
  have "copyOutImpl (rd_impl 3 1 (\<lambda>a b. a * b + 1) 0) net [] = copyOutImpl (rd_impl 3 1 (\<lambda>a b. a * b + 1) 1) net []"
    by (rule allreduce_doubling_same [OF _ _ _ _ _ rd_net0_init any_env_gaspi(1) n(1)]) (use n(2) in simp_all)
  with n(1) show ?thesis by blast
qed

text \<open>
  Property C8. Recursive doubling completes: from every reachable state the run can be continued
  until all ranks are finished.
\<close>

theorem allreduce_doubling_completes:
  assumes "2 \<le> p" "p \<le> 2 ^ 16" "0 < n" "coll_init p n0" "gaspi_env env" "gaspi_live env"
    and "coll_reach env (rd_impl p n f) p inp n0 net"
  shows "\<exists>net'. coll_reach env (rd_impl p n f) p inp net net' \<and> (\<forall>r < p. phase net' r = FINISHED)"
proof -
  have ok: "rd_ok p n" using assms by (simp add: rd_ok_def)
  show ?thesis using rd.reach_completes [OF assms(7) ok assms(4-6)] by (simp add: finished_all_def)
qed

lemma allreduce_doubling_completes_witness:
  "\<exists>net'. coll_reach any_env (rd_impl 7 1 (+)) 7 (\<lambda>r. [r]) rd_net0 net' \<and> (\<forall>r < 7. phase net' r = FINISHED)"
  by (rule allreduce_doubling_completes [OF _ _ _ rd_net0_init any_env_gaspi rtranclp.rtrancl_refl]) simp_all

end
