(* ===== verification/Buffer_Description.thy ===== *)
theory Buffer_Description
  imports Serialization_Laws
begin

text \<open>
  \<open>singlesided/BufferDescription\<close>: the address of a buffer as it is sent to a communication
  partner, and its serialization.  The widths are those of the GASPI types: ranks 16 bits,
  segment identifiers 8, offsets and sizes 64, notification identifiers 32.
\<close>

section \<open>Data\<close>

record buffer_description =
  bd_rank :: u16
  bd_segmentId :: u8
  bd_offset :: u64
  bd_size :: u64
  bd_notificationId :: u32

definition bd_default :: buffer_description where
  "bd_default = \<lparr>bd_rank = 0, bd_segmentId = 0, bd_offset = 0, bd_size = 0, bd_notificationId = 0\<rparr>"

section \<open>Serialization\<close>

definition bd_ssize :: "buffer_description \<Rightarrow> nat" where
  "bd_ssize desc =
     c_size short_codec (bd_rank desc)
     + c_size char_codec (bd_segmentId desc)
     + c_size long_codec (bd_offset desc)
     + c_size long_codec (bd_size desc)
     + c_size int_codec (bd_notificationId desc)"

definition bd_out :: "ostream \<Rightarrow> buffer_description \<Rightarrow> ostream res" where
  "bd_out os desc =
     rbind (c_out short_codec os (bd_rank desc)) (\<lambda>os1.
     rbind (c_out char_codec os1 (bd_segmentId desc)) (\<lambda>os2.
     rbind (c_out long_codec os2 (bd_offset desc)) (\<lambda>os3.
     rbind (c_out long_codec os3 (bd_size desc)) (\<lambda>os4.
     c_out int_codec os4 (bd_notificationId desc)))))"

definition bd_ser :: "mem \<Rightarrow> nat \<Rightarrow> buffer_description \<Rightarrow> mem \<times> nat" where
  "bd_ser m buffer desc =
     (let cPtr0 = buffer;
          (m1, n1) = c_ser short_codec m cPtr0 (bd_rank desc); cPtr1 = cPtr0 + n1;
          (m2, n2) = c_ser char_codec m1 cPtr1 (bd_segmentId desc); cPtr2 = cPtr1 + n2;
          (m3, n3) = c_ser long_codec m2 cPtr2 (bd_offset desc); cPtr3 = cPtr2 + n3;
          (m4, n4) = c_ser long_codec m3 cPtr3 (bd_size desc); cPtr4 = cPtr3 + n4;
          (m5, n5) = c_ser int_codec m4 cPtr4 (bd_notificationId desc); cPtr5 = cPtr4 + n5
      in (m5, cPtr5 - buffer))"

definition bd_in :: "istream \<Rightarrow> (buffer_description \<times> istream) res" where
  "bd_in i =
     rbind (c_in short_codec i) (\<lambda>(rank, i1).
     rbind (c_in char_codec i1) (\<lambda>(segmentId, i2).
     rbind (c_in long_codec i2) (\<lambda>(offset, i3).
     rbind (c_in long_codec i3) (\<lambda>(sz, i4).
     rbind (c_in int_codec i4) (\<lambda>(notificationId, i5).
     Inr (\<lparr>bd_rank = rank, bd_segmentId = segmentId, bd_offset = offset, bd_size = sz,
           bd_notificationId = notificationId\<rparr>, i5))))))"

definition bd_des :: "mem \<Rightarrow> nat \<Rightarrow> buffer_description \<times> nat" where
  "bd_des m buffer =
     (let cPtr0 = buffer;
          (rank, n1) = c_des short_codec m cPtr0; cPtr1 = cPtr0 + n1;
          (segmentId, n2) = c_des char_codec m cPtr1; cPtr2 = cPtr1 + n2;
          (offset, n3) = c_des long_codec m cPtr2; cPtr3 = cPtr2 + n3;
          (sz, n4) = c_des long_codec m cPtr3; cPtr4 = cPtr3 + n4;
          (notificationId, n5) = c_des int_codec m cPtr4; cPtr5 = cPtr4 + n5
      in (\<lparr>bd_rank = rank, bd_segmentId = segmentId, bd_offset = offset, bd_size = sz,
           bd_notificationId = notificationId\<rparr>, cPtr5 - buffer))"

definition bd_codec :: "nat \<Rightarrow> buffer_description codec" where
  "bd_codec sizeof_desc =
     \<lparr>c_sizeof = sizeof_desc, c_size = bd_ssize, c_ser = bd_ser, c_des = bd_des,
      c_out = bd_out, c_in = bd_in\<rparr>"

section \<open>The contract of a serializable type\<close>

definition bd_enc :: "buffer_description \<Rightarrow> u8 list" where
  "bd_enc desc =
     to_bytes 2 (bd_rank desc) @ to_bytes 1 (bd_segmentId desc) @ to_bytes 8 (bd_offset desc)
     @ to_bytes 8 (bd_size desc) @ to_bytes 4 (bd_notificationId desc)"

lemma length_bd_enc [simp]: "length (bd_enc desc) = 23"
  by (simp add: bd_enc_def)

lemma bd_ssize_23: "bd_ssize d = 23"
  by (simp add: bd_ssize_def short_c.size_enc char_c.size_enc long_c.size_enc int_c.size_enc)

lemma bd_ser_enc: "bd_ser m p x = (memcpy m p (bd_enc x), 23)"
proof -
  have "memcpy (memcpy (memcpy (memcpy (memcpy m p (to_bytes 2 (bd_rank x)))
           (p + 2) (to_bytes 1 (bd_segmentId x))) (p + 3) (to_bytes 8 (bd_offset x)))
           (p + 11) (to_bytes 8 (bd_size x))) (p + 19) (to_bytes 4 (bd_notificationId x))
      = memcpy m p (bd_enc x)"
    using memcpy_append [of m p "to_bytes 2 (bd_rank x)"]
      memcpy_append [of m p "to_bytes 2 (bd_rank x) @ to_bytes 1 (bd_segmentId x)"]
      memcpy_append [of m p "to_bytes 2 (bd_rank x) @ to_bytes 1 (bd_segmentId x) @ to_bytes 8 (bd_offset x)"]
      memcpy_append [of m p "to_bytes 2 (bd_rank x) @ to_bytes 1 (bd_segmentId x) @ to_bytes 8 (bd_offset x)
        @ to_bytes 8 (bd_size x)"]
    by (simp add: bd_enc_def add.assoc del: One_nat_def add_2_eq_Suc add_2_eq_Suc')
  then show ?thesis
    by (simp add: bd_ser_def short_c.ser_enc char_c.ser_enc long_c.ser_enc int_c.ser_enc add.assoc
        del: One_nat_def add_2_eq_Suc add_2_eq_Suc')
qed

lemma bd_des_enc:
  assumes "load m p 23 = bd_enc x"
  shows "bd_des m p = (x, 23)"
proof -
  from assms have "load m p (length (bd_enc x)) = bd_enc x" by simp
  then have "load m p 2 = to_bytes 2 (bd_rank x)" "load m (p + 2) 1 = to_bytes 1 (bd_segmentId x)"
    "load m (p + 3) 8 = to_bytes 8 (bd_offset x)" "load m (p + 11) 8 = to_bytes 8 (bd_size x)"
    "load m (p + 19) 4 = to_bytes 4 (bd_notificationId x)"
    unfolding bd_enc_def load_append_iff length_to_bytes add.assoc by simp_all
  then have "c_des short_codec m p = (bd_rank x, 2)"
    "c_des char_codec m (p + 2) = (bd_segmentId x, 1)"
    "c_des long_codec m (p + 3) = (bd_offset x, 8)"
    "c_des long_codec m (p + 11) = (bd_size x, 8)"
    "c_des int_codec m (p + 19) = (bd_notificationId x, 4)"
    using short_c.des_enc [where x = "bd_rank x"] char_c.des_enc [where x = "bd_segmentId x"]
      long_c.des_enc [where x = "bd_offset x"] long_c.des_enc [where x = "bd_size x"]
      int_c.des_enc [where x = "bd_notificationId x"] by simp_all
  then show ?thesis by (simp add: bd_des_def add.assoc del: One_nat_def add_2_eq_Suc add_2_eq_Suc')
qed

lemma bd_in_reads: "reads bd_in (bd_enc x) x"
proof -
  let ?d = "\<lambda>r s o' z n. \<lparr>bd_rank = r, bd_segmentId = s, bd_offset = o', bd_size = z, bd_notificationId = n\<rparr>"
  define r5 where "r5 = (\<lambda>r s o' z. \<lambda>i. rbind (c_in int_codec i) (\<lambda>(n, i5). Inr (?d r s o' z n, i5)))"
  define r4 where "r4 = (\<lambda>r s o'. \<lambda>i. rbind (c_in long_codec i) (\<lambda>(z, i4). r5 r s o' z i4))"
  define r3 where "r3 = (\<lambda>r s. \<lambda>i. rbind (c_in long_codec i) (\<lambda>(o', i3). r4 r s o' i3))"
  define r2 where "r2 = (\<lambda>r. \<lambda>i. rbind (c_in char_codec i) (\<lambda>(s, i2). r3 r s i2))"
  have "reads (r5 (bd_rank x) (bd_segmentId x) (bd_offset x) (bd_size x))
      (to_bytes 4 (bd_notificationId x) @ []) x"
    by (rule reads_bind [OF int_c.in_reads [OF TrueI],
          where rdb = "\<lambda>n i. Inr (?d (bd_rank x) (bd_segmentId x) (bd_offset x) (bd_size x) n, i)"])
      (simp_all add: r5_def reads_return)
  then have r4: "reads (r4 (bd_rank x) (bd_segmentId x) (bd_offset x))
      (to_bytes 8 (bd_size x) @ to_bytes 4 (bd_notificationId x)) x"
    by (intro reads_bind [OF long_c.in_reads [OF TrueI], where rdb = "r5 (bd_rank x) (bd_segmentId x) (bd_offset x)"])
      (simp_all add: r4_def)
  have "reads (r3 (bd_rank x) (bd_segmentId x))
      (to_bytes 8 (bd_offset x) @ to_bytes 8 (bd_size x) @ to_bytes 4 (bd_notificationId x)) x"
    by (rule reads_bind [OF long_c.in_reads [OF TrueI], where rdb = "r4 (bd_rank x) (bd_segmentId x)", OF r4])
      (simp add: r3_def)
  then have "reads (r2 (bd_rank x)) (to_bytes 1 (bd_segmentId x) @
      to_bytes 8 (bd_offset x) @ to_bytes 8 (bd_size x) @ to_bytes 4 (bd_notificationId x)) x"
    by (intro reads_bind [OF char_c.in_reads [OF TrueI], where rdb = "r3 (bd_rank x)"])
      (simp_all add: r2_def)
  then show ?thesis unfolding bd_enc_def
    by (intro reads_bind [OF short_c.in_reads [OF TrueI], where rdb = r2])
      (simp_all add: bd_in_def r2_def r3_def r4_def r5_def)
qed

lemma bd_codec_laws: "codec_laws (bd_codec n) bd_enc (\<lambda>_. True)"
proof
  fix x m p and s :: ostream and t :: istream
  show "c_size (bd_codec n) x = length (bd_enc x)"
    by (simp add: bd_codec_def bd_ssize_def short_c.size_enc char_c.size_enc long_c.size_enc int_c.size_enc)
  show "c_ser (bd_codec n) m p x = (memcpy m p (bd_enc x), length (bd_enc x))"
    by (simp add: bd_codec_def bd_ser_enc)
  show "load m p (length (bd_enc x)) = bd_enc x \<Longrightarrow> c_des (bd_codec n) m p = (x, length (bd_enc x))"
    by (simp add: bd_codec_def bd_des_enc)
  show "os_good s \<Longrightarrow> c_out (bd_codec n) s x = Inr (s\<lparr>os_data := os_data s @ bd_enc x\<rparr>)"
    by (simp add: bd_codec_def bd_out_def bd_enc_def short_c.out_good char_c.out_good
        long_c.out_good int_c.out_good)
  show "\<not> os_good s \<Longrightarrow> \<exists>e. c_out (bd_codec n) s x = Inl e"
    using short_c.out_bad [of s "bd_rank x"] by (auto simp: bd_codec_def bd_out_def)
  show "reads (c_in (bd_codec n)) (bd_enc x) x"
    by (simp add: bd_codec_def bd_in_reads)
  show "\<not> is_good t \<Longrightarrow> \<exists>e. c_in (bd_codec n) t = Inl e"
    using short_c.in_bad [of t] by (auto simp: bd_codec_def bd_in_def)
qed

interpretation bd_c: codec_laws "bd_codec n" bd_enc "\<lambda>_. True"
  by (rule bd_codec_laws)

section \<open>Properties\<close>

text \<open>
  A buffer description occupies exactly 23 bytes. Serialized into memory it is
  read back from there unchanged and nothing outside the 23 bytes is written; written to a good
  stream it is read back by \<open>deserialize\<close>, which consumes exactly these bytes, and every stream
  that breaks off earlier is rejected with an exception.
\<close>

theorem buffer_description_roundtrip:
  "bd_ssize desc = 23 \<and>
   (case bd_ser m p desc of (m', n) \<Rightarrow> n = 23 \<and> bd_des m' p = (desc, 23)) \<and>
   (\<forall>a. a < p \<or> p + 23 \<le> a \<longrightarrow> fst (bd_ser m p desc) a = m a) \<and>
   (\<exists>bs. length bs = 23
      \<and> bd_out \<lparr>os_data = pre, os_good = True\<rparr> desc = Inr \<lparr>os_data = pre @ bs, os_good = True\<rparr>
      \<and> bd_in \<lparr>is_data = bs @ rest, is_good = True\<rparr> = Inr (desc, \<lparr>is_data = rest, is_good = True\<rparr>)
      \<and> (\<forall>k < 23. \<exists>e. bd_in \<lparr>is_data = take k bs, is_good = True\<rparr> = Inl e))"
proof (intro conjI exI [of _ "bd_enc desc"] allI impI)
  show "bd_ssize desc = 23" using bd_c.size_enc [where x = desc] by (simp add: bd_codec_def)
  show "case bd_ser m p desc of (m', n) \<Rightarrow> n = 23 \<and> bd_des m' p = (desc, 23)"
    using load_memcpy [of m p "bd_enc desc"] by (simp add: bd_ser_enc bd_des_enc)
  show "fst (bd_ser m p desc) a = m a" if "a < p \<or> p + 23 \<le> a" for a
    using that by (simp add: bd_ser_enc memcpy_outside)
  show "bd_out \<lparr>os_data = pre, os_good = True\<rparr> desc = Inr \<lparr>os_data = pre @ bd_enc desc, os_good = True\<rparr>"
    using bd_c.out_good [where x = desc and s = "\<lparr>os_data = pre, os_good = True\<rparr>"] by (simp add: bd_codec_def)
  show "bd_in \<lparr>is_data = bd_enc desc @ rest, is_good = True\<rparr> = Inr (desc, \<lparr>is_data = rest, is_good = True\<rparr>)"
    using reads_ok [OF bd_in_reads, of "\<lparr>is_data = bd_enc desc @ rest, is_good = True\<rparr>"] by simp
  show "\<exists>e. bd_in \<lparr>is_data = take k (bd_enc desc), is_good = True\<rparr> = Inl e" if "k < 23" for k
    using reads_short [OF bd_in_reads, of "\<lparr>is_data = take k (bd_enc desc), is_good = True\<rparr>" desc
        "bd_enc desc ! k" "drop (Suc k) (bd_enc desc)"] that
    by (simp add: id_take_nth_drop [symmetric])
qed simp

lemma buffer_description_roundtrip_witness:
  "fst (bd_ser (\<lambda>_. 7) 10 \<lparr>bd_rank = 513, bd_segmentId = 3, bd_offset = 64, bd_size = 8,
      bd_notificationId = 9\<rparr>) 33 = 7"
  using buffer_description_roundtrip [where desc = "\<lparr>bd_rank = 513, bd_segmentId = 3, bd_offset = 64, bd_size = 8,
      bd_notificationId = 9\<rparr>" and m = "\<lambda>_. 7" and p = 10] by simp

end
