(* ===== verification/Gaspi_Api.thy ===== *)
theory Gaspi_Api
  imports Buffer_Description
begin

text \<open>
  The GASPI interface the code calls, as a parameter: a record of functions on an arbitrary
  state of the library, with the return codes the code distinguishes; and operations that
  change that state and may throw (\<open>act\<close>), with the \<open>GASPI_CHECK\<close> macros of
  \<open>utility/Macros.hpp\<close>.
\<close>

section \<open>Operations that change a state and may throw\<close>

text \<open>An exception does not undo what was done before it: the state is returned with it.\<close>

type_synonym ('s, 'a) act = "'s \<Rightarrow> 'a res \<times> 's"

definition act_return :: "'a \<Rightarrow> ('s, 'a) act" where
  "act_return a = (\<lambda>s. (Inr a, s))"

definition act_throw :: "exn \<Rightarrow> ('s, 'a) act" where
  "act_throw e = (\<lambda>s. (Inl e, s))"

definition act_bind :: "('s, 'a) act \<Rightarrow> ('a \<Rightarrow> ('s, 'b) act) \<Rightarrow> ('s, 'b) act" where
  "act_bind m f = (\<lambda>s. case m s of (Inl e, s1) \<Rightarrow> (Inl e, s1) | (Inr a, s1) \<Rightarrow> f a s1)"

lemma act_return_apply [simp]: "act_return a s = (Inr a, s)"
  by (simp add: act_return_def)

lemma act_throw_apply [simp]: "act_throw e s = (Inl e, s)"
  by (simp add: act_throw_def)

lemma act_bind_return [simp]: "act_bind (act_return a) f = f a"
  by (simp add: act_bind_def act_return_def)

lemma act_bind_throw [simp]: "act_bind (act_throw e) f = act_throw e"
  by (simp add: act_bind_def act_throw_def)

lemma act_bind_apply:
  "act_bind m f s = (case m s of (Inl e, s1) \<Rightarrow> (Inl e, s1) | (Inr a, s1) \<Rightarrow> f a s1)"
  by (simp add: act_bind_def)

lemma act_bind_eq_Inr:
  "act_bind m f s = (Inr b, s') \<longleftrightarrow> (\<exists>a s1. m s = (Inr a, s1) \<and> f a s1 = (Inr b, s'))"
  by (auto simp: act_bind_def split: sum.splits prod.splits)

lemma act_bind_eq_Inl:
  "act_bind m f s = (Inl e, s') \<longleftrightarrow>
     m s = (Inl e, s') \<or> (\<exists>a s1. m s = (Inr a, s1) \<and> f a s1 = (Inl e, s'))"
  by (auto simp: act_bind_def split: sum.splits prod.splits)

text \<open>\<open>m\<close>, and if it throws the destructors \<open>f\<close> of what was constructed before.\<close>

definition act_on_error :: "('s, 'a) act \<Rightarrow> ('s, unit) act \<Rightarrow> ('s, 'a) act" where
  "act_on_error m f = (\<lambda>s. case m s of
     (Inl e, s1) \<Rightarrow> act_bind f (\<lambda>_. act_throw e) s1
   | (Inr a, s1) \<Rightarrow> (Inr a, s1))"

section \<open>The interface\<close>

datatype gaspi_return =
    GASPI_SUCCESS
  | GASPI_TIMEOUT
  | GASPI_QUEUE_FULL
  | GASPI_ERR nat

datatype gaspi_timeout = GASPI_BLOCK | GASPI_TEST

text \<open>The arguments of \<open>gaspi_write_notify\<close> and \<open>gaspi_notify\<close>, in the order of the calls.\<close>

datatype request =
    WriteNotify u8 u64 u16 u8 u64 u64 u32 u32
  | Notify u8 u16 u32 u32

record 's gaspi_api =
  gaspi_error_str :: "gaspi_return \<Rightarrow> string"
  gaspi_queue_create :: "gaspi_timeout \<Rightarrow> 's \<Rightarrow> (gaspi_return \<times> u8) \<times> 's"
  gaspi_queue_delete :: "u8 \<Rightarrow> 's \<Rightarrow> gaspi_return \<times> 's"
  gaspi_queue_num :: "'s \<Rightarrow> (gaspi_return \<times> u32) \<times> 's"
  gaspi_queue_max :: "'s \<Rightarrow> (gaspi_return \<times> u32) \<times> 's"
  gaspi_wait :: "u8 \<Rightarrow> gaspi_timeout \<Rightarrow> 's \<Rightarrow> gaspi_return \<times> 's"
  gaspi_post :: "request \<Rightarrow> u8 \<Rightarrow> gaspi_timeout \<Rightarrow> 's \<Rightarrow> gaspi_return \<times> 's"
  gaspi_notify_waitsome :: "u8 \<Rightarrow> u32 \<Rightarrow> u32 \<Rightarrow> gaspi_timeout \<Rightarrow> 's \<Rightarrow> (gaspi_return \<times> u32) \<times> 's"
  gaspi_notify_reset :: "u8 \<Rightarrow> u32 \<Rightarrow> 's \<Rightarrow> (gaspi_return \<times> u32) \<times> 's"

section \<open>The checking macros\<close>

definition gaspi_check :: "('s, 'z) gaspi_api_scheme \<Rightarrow> gaspi_return \<Rightarrow> ('s, unit) act" where
  "gaspi_check G retval =
     (if retval \<noteq> GASPI_SUCCESS
      then act_throw (RuntimeError (''In Gaspi error: '' @ gaspi_error_str G retval))
      else act_return ())"

text \<open>\<open>GASPI_CHECK\<close> of a call, and of a call with an output argument.\<close>

definition gaspi_checked :: "('s, 'z) gaspi_api_scheme \<Rightarrow> ('s \<Rightarrow> gaspi_return \<times> 's) \<Rightarrow> ('s, unit) act" where
  "gaspi_checked G call = (\<lambda>s. case call s of (ret, s1) \<Rightarrow> gaspi_check G ret s1)"

definition gaspi_checked_out ::
    "('s, 'z) gaspi_api_scheme \<Rightarrow> ('s \<Rightarrow> (gaspi_return \<times> 'a) \<times> 's) \<Rightarrow> ('s, 'a) act" where
  "gaspi_checked_out G call =
     (\<lambda>s. case call s of ((ret, out), s1) \<Rightarrow> act_bind (gaspi_check G ret) (\<lambda>_. act_return out) s1)"

text \<open>\<open>GASPI_CHECK_NOTHROW\<close> prints the error and goes on.\<close>

definition gaspi_check_nothrow :: "('s \<Rightarrow> gaspi_return \<times> 's) \<Rightarrow> ('s, unit) act" where
  "gaspi_check_nothrow call = (\<lambda>s. case call s of (ret, s1) \<Rightarrow> act_return () s1)"

lemma gaspi_check_success [simp]: "gaspi_check G GASPI_SUCCESS = act_return ()"
  by (simp add: gaspi_check_def)

lemma gaspi_check_eq:
  "gaspi_check G ret s = (if ret = GASPI_SUCCESS then (Inr (), s)
     else (Inl (RuntimeError (''In Gaspi error: '' @ gaspi_error_str G ret)), s))"
  by (simp add: gaspi_check_def)

lemma gaspi_checked_eq:
  "gaspi_checked G call s = (case call s of (ret, s1) \<Rightarrow>
     (if ret = GASPI_SUCCESS then (Inr (), s1)
      else (Inl (RuntimeError (''In Gaspi error: '' @ gaspi_error_str G ret)), s1)))"
  by (simp add: gaspi_checked_def gaspi_check_eq)

lemma gaspi_checked_out_eq:
  "gaspi_checked_out G call s = (case call s of ((ret, out), s1) \<Rightarrow>
     (if ret = GASPI_SUCCESS then (Inr out, s1)
      else (Inl (RuntimeError (''In Gaspi error: '' @ gaspi_error_str G ret)), s1)))"
  by (simp add: gaspi_checked_out_def gaspi_check_eq act_bind_apply split: prod.split)

section \<open>What an operation leaves as it is\<close>

text \<open>An observation of the state that a call, or an operation built from such calls, does not change.\<close>

named_theorems keeps_intros

definition keeps :: "('s \<Rightarrow> 'o) \<Rightarrow> ('s \<Rightarrow> 'r \<times> 's) \<Rightarrow> bool" where
  "keeps f m \<longleftrightarrow> (\<forall>s. f (snd (m s)) = f s)"

lemma keepsD: "keeps f m \<Longrightarrow> m s = (r, s1) \<Longrightarrow> f s1 = f s"
  unfolding keeps_def by (metis snd_conv)

lemma keeps_return [keeps_intros]: "keeps f (act_return a)" and keeps_throw [keeps_intros]: "keeps f (act_throw e)"
  by (simp_all add: keeps_def)

lemma keeps_bind [keeps_intros]: "keeps f m \<Longrightarrow> (\<And>a. keeps f (k a)) \<Longrightarrow> keeps f (act_bind m k)"
  unfolding keeps_def act_bind_def by (auto split: sum.splits prod.splits) (metis snd_conv)+

lemma keeps_on_error [keeps_intros]: "keeps f m \<Longrightarrow> keeps f h \<Longrightarrow> keeps f (act_on_error m h)"
  unfolding keeps_def act_on_error_def act_bind_def by (auto split: sum.splits prod.splits) (metis snd_conv)+

lemma keeps_checked [keeps_intros]: "keeps f call \<Longrightarrow> keeps f (gaspi_checked G call)"
  "keeps f call' \<Longrightarrow> keeps f (gaspi_checked_out G call')"
  "keeps f call \<Longrightarrow> keeps f (gaspi_check_nothrow call)"
  unfolding keeps_def by (auto simp: gaspi_checked_eq gaspi_checked_out_eq gaspi_check_nothrow_def split: prod.splits) (metis snd_conv)+

end
