(* ===== verification/Segments.thy ===== *)
theory Segments
  imports Gaspi_Api Memory_Manager Notification_Manager
begin

unbundle bit_operations_syntax

text \<open>
  \<open>segment/SegmentResource\<close>, \<open>segment/SegmentManager\<close>, \<open>segment/Segment\<close>,
  \<open>segment/Allocator\<close> and the two segment pools: a GASPI segment, its memory and notification
  managers, and the choice of a segment with enough free memory.
\<close>

section \<open>The GASPI calls on segments\<close>

text \<open>\<open>SegmentID\<close> and \<open>Notification\<close> are 32-bit integers; the GASPI segment identifier has 8 bits.\<close>

record 's segment_api = "'s gaspi_api" +
  gaspi_proc_rank :: "'s \<Rightarrow> (gaspi_return \<times> u16) \<times> 's"
  gaspi_segment_size :: "u8 \<Rightarrow> u16 \<Rightarrow> 's \<Rightarrow> (gaspi_return \<times> u64) \<times> 's"
  gaspi_segment_ptr :: "u8 \<Rightarrow> 's \<Rightarrow> (gaspi_return \<times> u64) \<times> 's"
  gaspi_notification_num :: "'s \<Rightarrow> (gaspi_return \<times> u32) \<times> 's"
  gaspi_segment_avail_local :: "'s \<Rightarrow> (gaspi_return \<times> u8) \<times> 's"
  gaspi_segment_alloc :: "u8 \<Rightarrow> u64 \<Rightarrow> 's \<Rightarrow> gaspi_return \<times> 's"
  gaspi_segment_register :: "u8 \<Rightarrow> u16 \<Rightarrow> gaspi_timeout \<Rightarrow> 's \<Rightarrow> gaspi_return \<times> 's"
  gaspi_segment_delete :: "u8 \<Rightarrow> 's \<Rightarrow> gaspi_return \<times> 's"

section \<open>SegmentResource\<close>

record segment_resource =
  sr_segmentId :: u32
  sr_contains_valid_segment :: bool

definition getFreeLocalSegmentId :: "'s segment_api \<Rightarrow> ('s, u32) act" where
  "getFreeLocalSegmentId G =
     act_bind (gaspi_checked_out G (gaspi_segment_avail_local G)) (\<lambda>avail_seg_id.
     act_return (ucast avail_seg_id))"

definition remoteRegistration :: "'s segment_api \<Rightarrow> segment_resource \<Rightarrow> u16 \<Rightarrow> ('s, unit) act" where
  "remoteRegistration G R rank =
     (if sr_contains_valid_segment R
      then gaspi_checked G (gaspi_segment_register G (ucast (sr_segmentId R)) rank GASPI_BLOCK)
      else act_return ())"

definition sr_construct_id :: "'s segment_api \<Rightarrow> u32 \<Rightarrow> u64 \<Rightarrow> ('s, segment_resource) act" where
  "sr_construct_id G segmentId segmentSize =
     (let R = \<lparr>sr_segmentId = segmentId, sr_contains_valid_segment = True\<rparr>
      in act_bind (gaspi_checked G (gaspi_segment_alloc G (ucast segmentId) segmentSize)) (\<lambda>_.
         act_bind (gaspi_checked_out G (gaspi_proc_rank G)) (\<lambda>rank.
         act_bind (remoteRegistration G R rank) (\<lambda>_. act_return R))))"

definition sr_construct :: "'s segment_api \<Rightarrow> u64 \<Rightarrow> ('s, segment_resource) act" where
  "sr_construct G segmentSize =
     act_bind (getFreeLocalSegmentId G) (\<lambda>segmentId. sr_construct_id G segmentId segmentSize)"

text \<open>The move constructor: the new resource and what is left of the old one.\<close>

definition sr_move :: "segment_resource \<Rightarrow> segment_resource \<times> segment_resource" where
  "sr_move other_segment_resource =
     (other_segment_resource, other_segment_resource\<lparr>sr_contains_valid_segment := False\<rparr>)"

definition sr_destroy :: "'s segment_api \<Rightarrow> segment_resource \<Rightarrow> ('s, unit) act" where
  "sr_destroy G R =
     (if sr_contains_valid_segment R
      then gaspi_check_nothrow (gaspi_segment_delete G (ucast (sr_segmentId R)))
      else act_return ())"

section \<open>SegmentManager\<close>

record segment_manager =
  sm_segmentID :: u32
  sm_memoryManager :: mem_manager
  sm_notifyManager :: notification_manager

definition getSegmentSize :: "'s segment_api \<Rightarrow> u32 \<Rightarrow> ('s, u64) act" where
  "getSegmentSize G segmentID =
     act_bind (gaspi_checked_out G (gaspi_proc_rank G)) (\<lambda>rank.
     gaspi_checked_out G (gaspi_segment_size G (ucast segmentID) rank))"

definition getSegmentPtr :: "'s segment_api \<Rightarrow> u32 \<Rightarrow> ('s, u64) act" where
  "getSegmentPtr G segmentID = gaspi_checked_out G (gaspi_segment_ptr G (ucast segmentID))"

definition getNumNotificationsMax :: "'s segment_api \<Rightarrow> ('s, u64) act" where
  "getNumNotificationsMax G =
     act_bind (gaspi_checked_out G (gaspi_notification_num G)) (\<lambda>nmax. act_return (ucast nmax))"

text \<open>The two arguments of the memory manager are taken from left to right.\<close>

definition sm_construct :: "'s segment_api \<Rightarrow> u32 \<Rightarrow> ('s, segment_manager) act" where
  "sm_construct G segmentID =
     act_bind (getSegmentPtr G segmentID) (\<lambda>ptr.
     act_bind (getSegmentSize G segmentID) (\<lambda>sz.
     act_bind (getNumNotificationsMax G) (\<lambda>nmax.
     act_return \<lparr>sm_segmentID = segmentID, sm_memoryManager = mm_construct ptr sz,
                 sm_notifyManager = nm_construct nmax\<rparr>)))"

definition sm_size :: "'s segment_api \<Rightarrow> segment_manager \<Rightarrow> ('s, u64) act" where
  "sm_size G S = getSegmentSize G (sm_segmentID S)"

definition pointerToOffset :: "'s segment_api \<Rightarrow> segment_manager \<Rightarrow> u64 \<Rightarrow> ('s, u64) act" where
  "pointerToOffset G S pointer =
     act_bind (getSegmentPtr G (sm_segmentID S)) (\<lambda>base. act_return (pointer - base))"

definition hasFreeMemory :: "segment_manager \<Rightarrow> u64 \<Rightarrow> bool" where
  "hasFreeMemory S sz = mm_canAllocate sz (sm_memoryManager S)"

text \<open>The notification is an \<open>int\<close>: the identifier is cut to 32 bits and back.\<close>

definition acquire_notification :: "(segment_manager, u32) act" where
  "acquire_notification = (\<lambda>S.
     case nm_allocate 1 (sm_notifyManager S) of
       Inl e \<Rightarrow> (Inl e, S)
     | Inr (n, nm) \<Rightarrow> (Inr (ucast n), S\<lparr>sm_notifyManager := nm\<rparr>))"

definition release_notification :: "u32 \<Rightarrow> (segment_manager, unit) act" where
  "release_notification notification = (\<lambda>S.
     case nm_deallocate (scast notification) (sm_notifyManager S) of
       Inl e \<Rightarrow> (Inl e, S)
     | Inr nm \<Rightarrow> (Inr (), S\<lparr>sm_notifyManager := nm\<rparr>))"

subsection \<open>Allocator\<close>

text \<open>An allocator is a handle of the segment's memory manager; \<open>sizeof_T\<close> is its element size.\<close>

definition allocator_allocate :: "u64 \<Rightarrow> u64 \<Rightarrow> (segment_manager, u64) act" where
  "allocator_allocate sizeof_T n = (\<lambda>S.
     case mm_allocate (n * sizeof_T) (sm_memoryManager S) of
       Inl e \<Rightarrow> (Inl e, S)
     | Inr (p, mm) \<Rightarrow> (Inr p, S\<lparr>sm_memoryManager := mm\<rparr>))"

definition allocator_deallocate :: "u64 \<Rightarrow> u64 \<Rightarrow> u64 \<Rightarrow> (segment_manager, unit) act" where
  "allocator_deallocate sizeof_T p n = (\<lambda>S.
     case mm_deallocate p (n * sizeof_T) (sm_memoryManager S) of
       Inl e \<Rightarrow> (Inl e, S)
     | Inr mm \<Rightarrow> (Inr (), S\<lparr>sm_memoryManager := mm\<rparr>))"

section \<open>Segment\<close>

text \<open>A segment is a resource and a manager; when the manager's constructor throws, the resource
  is destroyed.\<close>

record segment =
  sg_resource :: segment_resource
  sg_manager :: segment_manager

definition segment_manage :: "'s segment_api \<Rightarrow> segment_resource \<Rightarrow> ('s, segment) act" where
  "segment_manage G R =
     act_on_error
       (act_bind (sm_construct G (sr_segmentId R)) (\<lambda>M. act_return \<lparr>sg_resource = R, sg_manager = M\<rparr>))
       (sr_destroy G R)"

definition segment_construct :: "'s segment_api \<Rightarrow> u64 \<Rightarrow> ('s, segment) act" where
  "segment_construct G segmentSize = act_bind (sr_construct G segmentSize) (segment_manage G)"

definition segment_construct_id :: "'s segment_api \<Rightarrow> u32 \<Rightarrow> u64 \<Rightarrow> ('s, segment) act" where
  "segment_construct_id G segmentId segmentSize =
     act_bind (sr_construct_id G segmentId segmentSize) (segment_manage G)"

definition segment_id :: "segment \<Rightarrow> u32" where
  "segment_id S = sr_segmentId (sg_resource S)"

section \<open>SingleSegmentPool\<close>

definition ssp_construct :: "'s segment_api \<Rightarrow> u64 \<Rightarrow> ('s, segment) act" where
  "ssp_construct G sz = segment_construct G sz"

definition ssp_construct_default :: "'s segment_api \<Rightarrow> ('s, segment) act" where
  "ssp_construct_default G = ssp_construct G (1024 * 1024)"

definition ssp_getSegment :: "u64 \<Rightarrow> segment \<Rightarrow> segment res" where
  "ssp_getSegment sz S =
     (if \<not> hasFreeMemory (sg_manager S) sz
      then Inl (RuntimeError ''SingleSegmentPool::getSegment: Not enough memory available'')
      else Inr S)"

section \<open>DynamicSegmentPool\<close>

record segment_pool =
  dp_sizePerSegment :: u64
  dp_maxSegmentSize :: u64
  dp_segments :: "segment list"

definition dp_construct :: "u64 \<Rightarrow> segment_pool res" where
  "dp_construct sizePerSegment =
     (let P = \<lparr>dp_sizePerSegment = sizePerSegment, dp_maxSegmentSize = 4 * 1024 * 1024 * 1024,
               dp_segments = []\<rparr>
      in if dp_sizePerSegment P > dp_maxSegmentSize P
         then Inl (RuntimeError
           ''DynamicSegmentPool: Requested size per segment larger than maximally allowed size per segment'')
         else Inr P)"

definition dp_construct_default :: "segment_pool res" where
  "dp_construct_default = dp_construct (1024 * 1024)"

fun find_if :: "('a \<Rightarrow> bool) \<Rightarrow> 'a list \<Rightarrow> nat option" where
  "find_if P [] = None"
| "find_if P (x # xs) = (if P x then Some 0 else map_option Suc (find_if P xs))"

text \<open>
  \<open>getSegment\<close>: the check, the adjustment of \<open>_sizePerSegment\<close> before the mutex is taken, and
  the search under the mutex.  \<open>pow2_up\<close> stands for the floating point computation
  \<open>std::pow (2, std::ceil (std::log (size) / std::log (2)))\<close>.  A segment is returned as its
  position in the list.
\<close>

definition dp_adjust :: "(u64 \<Rightarrow> u64) \<Rightarrow> u64 \<Rightarrow> segment_pool \<Rightarrow> segment_pool" where
  "dp_adjust pow2_up sz P = P\<lparr>dp_sizePerSegment := pow2_up sz\<rparr>"

definition dp_clamp :: "segment_pool \<Rightarrow> segment_pool" where
  "dp_clamp P = P\<lparr>dp_sizePerSegment := min (dp_sizePerSegment P) (dp_maxSegmentSize P)\<rparr>"

definition dp_find :: "'s segment_api \<Rightarrow> u64 \<Rightarrow> (segment_pool \<times> 's, nat) act" where
  "dp_find G sz = (\<lambda>(P, s).
     case find_if (\<lambda>S. hasFreeMemory (sg_manager S) sz) (dp_segments P) of
       Some i \<Rightarrow> (Inr i, P, s)
     | None \<Rightarrow>
         (case segment_construct G (dp_sizePerSegment P) s of
            (Inl e, s1) \<Rightarrow> (Inl e, P, s1)
          | (Inr S, s1) \<Rightarrow> (Inr 0, P\<lparr>dp_segments := S # dp_segments P\<rparr>, s1)))"

definition dp_getSegment ::
    "'s segment_api \<Rightarrow> (u64 \<Rightarrow> u64) \<Rightarrow> u64 \<Rightarrow> (segment_pool \<times> 's, nat) act" where
  "dp_getSegment G pow2_up sz = (\<lambda>(P, s).
     if sz > dp_maxSegmentSize P
     then (Inl (RuntimeError
       ''DynamicSegmentPool::getSegment: Requested size larger than maximally allowed size per segment''), P, s)
     else let P1 = (if sz > dp_sizePerSegment P then dp_clamp (dp_adjust pow2_up sz P) else P)
          in dp_find G sz (P1, s))"

subsection \<open>Several threads in one pool\<close>

text \<open>The same code with its unsynchronised accesses to \<open>_sizePerSegment\<close> as single steps.\<close>

datatype pool_thread =
    Entering u64
  | Adjusting u64
  | Clamping u64
  | Locking u64
  | Returned u64 "nat res"

definition pool_thread_step ::
    "'s segment_api \<Rightarrow> (u64 \<Rightarrow> u64) \<Rightarrow> pool_thread \<Rightarrow> segment_pool \<times> 's
      \<Rightarrow> pool_thread \<times> segment_pool \<times> 's" where
  "pool_thread_step G pow2_up t = (\<lambda>(P, s).
     case t of
       Entering sz \<Rightarrow>
         if sz > dp_maxSegmentSize P
         then (Returned sz (Inl (RuntimeError
           ''DynamicSegmentPool::getSegment: Requested size larger than maximally allowed size per segment'')), P, s)
         else if sz > dp_sizePerSegment P then (Adjusting sz, P, s) else (Locking sz, P, s)
     | Adjusting sz \<Rightarrow> (Clamping sz, dp_adjust pow2_up sz P, s)
     | Clamping sz \<Rightarrow> (Locking sz, dp_clamp P, s)
     | Locking sz \<Rightarrow> (case dp_find G sz (P, s) of (r, P1, s1) \<Rightarrow> (Returned sz r, P1, s1))
     | Returned sz r \<Rightarrow> (t, P, s))"

inductive pool_step ::
    "'s segment_api \<Rightarrow> (u64 \<Rightarrow> u64) \<Rightarrow> pool_thread list \<times> segment_pool \<times> 's
      \<Rightarrow> pool_thread list \<times> segment_pool \<times> 's \<Rightarrow> bool"
  for G pow2_up where
  pool_step_thread: "i < length ts \<Longrightarrow> pool_thread_step G pow2_up (ts ! i) cs = (t1, cs1) \<Longrightarrow>
    pool_step G pow2_up (ts, cs) (ts[i := t1], cs1)"

end
