(* ===== verification/Communication_Context.thy ===== *)
theory Communication_Context
  imports Gaspi_Api
begin

text \<open>
  \<open>singlesided/Queue\<close>, \<open>CommunicationContext\<close>, \<open>SingleQueueContext\<close> and
  \<open>RoundRobinQueuesContext\<close>: posting a write with notification to a queue, flushing and posting
  again while the queue is full.  A loop that may not end is a \<open>partial_function\<close> into
  \<open>option\<close>: not returning is the value \<open>None\<close>.
\<close>

section \<open>Queues\<close>

text \<open>The destructor's call of \<open>flush\<close> may throw out of a destructor, which terminates the
  program: this is the left value here.\<close>

definition queue_construct :: "('s, 'z) gaspi_api_scheme \<Rightarrow> ('s, u8) act" where
  "queue_construct G = gaspi_checked_out G (gaspi_queue_create G GASPI_BLOCK)"

definition queue_flush :: "('s, 'z) gaspi_api_scheme \<Rightarrow> u8 \<Rightarrow> ('s, unit) act" where
  "queue_flush G queue_id = gaspi_checked G (gaspi_wait G queue_id GASPI_BLOCK)"

definition queue_destroy :: "('s, 'z) gaspi_api_scheme \<Rightarrow> u8 \<Rightarrow> ('s, unit) act" where
  "queue_destroy G queue_id =
     act_bind (queue_flush G queue_id) (\<lambda>_. gaspi_check_nothrow (gaspi_queue_delete G queue_id))"

section \<open>The common base: notifications\<close>

definition checkForBufferNotification :: "('s, 'z) gaspi_api_scheme \<Rightarrow> buffer_description \<Rightarrow> ('s, bool) act" where
  "checkForBufferNotification G target =
     (\<lambda>s. case gaspi_notify_waitsome G (bd_segmentId target) (bd_notificationId target) 1 GASPI_TEST s of
        ((gaspi_return, nid), s1) \<Rightarrow>
          if gaspi_return \<noteq> GASPI_TIMEOUT
          then act_bind (gaspi_check G gaspi_return) (\<lambda>_.
               act_bind (gaspi_checked_out G (gaspi_notify_reset G (bd_segmentId target) nid)) (\<lambda>val.
               act_return (val \<noteq> 0))) s1
          else (Inr False, s1))"

definition waitForBufferNotification :: "('s, 'z) gaspi_api_scheme \<Rightarrow> buffer_description \<Rightarrow> ('s, bool) act" where
  "waitForBufferNotification G target =
     act_bind (gaspi_checked_out G
         (gaspi_notify_waitsome G (bd_segmentId target) (bd_notificationId target) 1 GASPI_BLOCK)) (\<lambda>nid.
     act_bind (gaspi_checked_out G (gaspi_notify_reset G (bd_segmentId target) nid)) (\<lambda>val.
     act_return (val \<noteq> 0)))"

text \<open>The arguments of the two posting calls; \<open>source.offset() + offset\<close> wraps at 64 bits.\<close>

definition write_request :: "buffer_description \<Rightarrow> buffer_description \<Rightarrow> u64 \<Rightarrow> u64 \<Rightarrow> request" where
  "write_request source target sz offset =
     WriteNotify (bd_segmentId source) (bd_offset source + offset) (bd_rank target)
       (bd_segmentId target) (bd_offset target) sz (bd_notificationId target) 1"

definition notify_request :: "buffer_description \<Rightarrow> request" where
  "notify_request target =
     Notify (bd_segmentId target) (bd_rank target) (bd_notificationId target) 1"

section \<open>SingleQueueContext\<close>

definition sq_construct :: "('s, 'z) gaspi_api_scheme \<Rightarrow> ('s, u8) act" where
  "sq_construct G = queue_construct G"

text \<open>The loop \<open>while ((ret = post) == GASPI_QUEUE_FULL) flush\<close>, returning the last \<open>ret\<close>.\<close>

partial_function (option) sq_post_loop ::
    "('s, 'z) gaspi_api_scheme \<Rightarrow> u8 \<Rightarrow> request \<Rightarrow> 's \<Rightarrow> (gaspi_return res \<times> 's) option" where
  "sq_post_loop G pQueue r s =
     (case gaspi_post G r pQueue GASPI_BLOCK s of (ret, s1) \<Rightarrow>
        if ret = GASPI_QUEUE_FULL
        then (case queue_flush G pQueue s1 of
                (Inl e, s2) \<Rightarrow> Some (Inl e, s2)
              | (Inr u, s2) \<Rightarrow> sq_post_loop G pQueue r s2)
        else Some (Inr ret, s1))"

text \<open>\<open>GASPI_CHECK\<close> in a \<open>try\<close> block whose handler rethrows with the buffers' addresses; the
  printed addresses are left out of the message.\<close>

definition check_rethrow :: "('s, 'z) gaspi_api_scheme \<Rightarrow> string \<Rightarrow> gaspi_return \<Rightarrow> ('s, unit) act" where
  "check_rethrow G suffix ret =
     (\<lambda>s. case gaspi_check G ret s of
        (Inl (RuntimeError what), s1) \<Rightarrow> (Inl (RuntimeError (what @ suffix)), s1)
      | r \<Rightarrow> r)"

definition sq_notify :: "('s, 'z) gaspi_api_scheme \<Rightarrow> u8 \<Rightarrow> buffer_description \<Rightarrow> 's \<Rightarrow> (unit res \<times> 's) option" where
  "sq_notify G pQueue target s =
     (case sq_post_loop G pQueue (notify_request target) s of
        None \<Rightarrow> None
      | Some (Inl e, s1) \<Rightarrow> Some (Inl e, s1)
      | Some (Inr ret, s1) \<Rightarrow> Some (check_rethrow G ''! target: '' ret s1))"

definition sq_writePart ::
    "('s, 'z) gaspi_api_scheme \<Rightarrow> u8 \<Rightarrow> buffer_description \<Rightarrow> buffer_description \<Rightarrow> u64 \<Rightarrow> u64
      \<Rightarrow> 's \<Rightarrow> (unit res \<times> 's) option" where
  "sq_writePart G pQueue source target sz offset s =
     (if offset + sz > bd_size source
      then Some (Inl (RuntimeError ''Offset + size > size of source buffer''), s)
      else if sz > bd_size target
      then Some (Inl (RuntimeError ''size > size of target buffer''), s)
      else if sz > 0
      then (case sq_post_loop G pQueue (write_request source target sz offset) s of
              None \<Rightarrow> None
            | Some (Inl e, s1) \<Rightarrow> Some (Inl e, s1)
            | Some (Inr ret, s1) \<Rightarrow> Some (check_rethrow G ''! source: , target: '' ret s1))
      else sq_notify G pQueue target s)"

definition sq_flush :: "('s, 'z) gaspi_api_scheme \<Rightarrow> u8 \<Rightarrow> ('s, unit) act" where
  "sq_flush G pQueue = queue_flush G pQueue"

text \<open>\<open>CommunicationContext::write\<close> calls the virtual \<open>writePart\<close> with the whole source.\<close>

definition ctx_write ::
    "(buffer_description \<Rightarrow> buffer_description \<Rightarrow> u64 \<Rightarrow> u64 \<Rightarrow> 'r) \<Rightarrow>
     buffer_description \<Rightarrow> buffer_description \<Rightarrow> 'r" where
  "ctx_write writePart source target = writePart source target (bd_size source) 0"

section \<open>RoundRobinQueuesContext\<close>

record rr_context =
  rr_queues :: "u8 list"
  rr_index :: nat

definition get_number_allocated_gaspi_queues :: "('s, 'z) gaspi_api_scheme \<Rightarrow> ('s, u64) act" where
  "get_number_allocated_gaspi_queues G =
     act_bind (gaspi_checked_out G (gaspi_queue_num G)) (\<lambda>number_queues. act_return (ucast number_queues))"

definition get_number_queues_allowed :: "('s, 'z) gaspi_api_scheme \<Rightarrow> u64 \<Rightarrow> ('s, u64) act" where
  "get_number_queues_allowed G num_queues =
     act_bind (gaspi_checked_out G (gaspi_queue_max G)) (\<lambda>max_number_queues_allowed.
     act_bind (get_number_allocated_gaspi_queues G) (\<lambda>allocated.
       let number_queues_allowed = ucast max_number_queues_allowed - allocated
       in if num_queues > number_queues_allowed
          then act_throw (RuntimeError ''[RoundRobinQueuesContext] Cannot create queues'')
          else act_return num_queues))"

text \<open>The destructor removes the queues from the back.\<close>

fun destroy_queues :: "('s, 'z) gaspi_api_scheme \<Rightarrow> u8 list \<Rightarrow> ('s, unit) act" where
  "destroy_queues G [] = act_return ()"
| "destroy_queues G (q # qs) = act_bind (queue_destroy G q) (\<lambda>_. destroy_queues G qs)"

definition rr_destroy :: "('s, 'z) gaspi_api_scheme \<Rightarrow> rr_context \<Rightarrow> ('s, unit) act" where
  "rr_destroy G C = destroy_queues G (rev (rr_queues C))"

text \<open>\<open>std::vector\<close>'s constructor: if a queue cannot be created, the earlier ones are destroyed.\<close>

fun construct_queues :: "('s, 'z) gaspi_api_scheme \<Rightarrow> nat \<Rightarrow> u8 list \<Rightarrow> ('s, u8 list) act" where
  "construct_queues G 0 qs = act_return qs"
| "construct_queues G (Suc k) qs =
     (\<lambda>s. case queue_construct G s of
        (Inl e, s1) \<Rightarrow> act_bind (destroy_queues G qs) (\<lambda>_. act_throw e) s1
      | (Inr q, s1) \<Rightarrow> construct_queues G k (qs @ [q]) s1)"

text \<open>An exception in the constructor's body destroys the members: here the empty vector.\<close>

definition rr_construct :: "('s, 'z) gaspi_api_scheme \<Rightarrow> u64 \<Rightarrow> ('s, rr_context) act" where
  "rr_construct G num_queues =
     act_bind (get_number_queues_allowed G num_queues) (\<lambda>n.
     act_bind (construct_queues G (unat num_queues) []) (\<lambda>qs.
       if num_queues \<le> 0
       then act_bind (destroy_queues G (rev qs)) (\<lambda>_. act_throw (RuntimeError
              ''[RoundRobinQueuesContext] Context creation requires at least one queue''))
       else act_return \<lparr>rr_queues = qs, rr_index = 0\<rparr>))"

definition out_of_range :: exn where
  "out_of_range = LogicError ''vector::_M_range_check''"

text \<open>\<open>select_available_queue\<close>, under the mutex: one atomic step on the context and the library.\<close>

definition select_available_queue :: "('s, 'z) gaspi_api_scheme \<Rightarrow> nat \<Rightarrow> (rr_context \<times> 's, nat) act" where
  "select_available_queue G full_queue_index =
     (\<lambda>(C, s).
        let current_queue_index = rr_index C
        in if current_queue_index = full_queue_index
           then let next_index = (current_queue_index + 1) mod length (rr_queues C)
                in if next_index < length (rr_queues C)
                   then (case queue_flush G (rr_queues C ! next_index) s of
                           (Inl e, s1) \<Rightarrow> (Inl e, C, s1)
                         | (Inr u, s1) \<Rightarrow> (Inr next_index, C\<lparr>rr_index := next_index\<rparr>, s1))
                   else (Inl out_of_range, C, s)
           else (Inr current_queue_index, C, s))"

text \<open>
  One thread inside \<open>writePart\<close> or \<open>notify\<close>: it has its request, or posts to the queue it
  reads from \<open>current_queue_index\<close>, or has found that queue full, or is through.
\<close>

datatype rr_thread =
    Ready request
  | Posting request nat
  | Full request nat
  | Finished "unit res"

definition rr_thread_step :: "('s, 'z) gaspi_api_scheme \<Rightarrow> rr_thread \<Rightarrow> rr_context \<times> 's \<Rightarrow> rr_thread \<times> rr_context \<times> 's" where
  "rr_thread_step G t = (\<lambda>(C, s).
     case t of
       Ready r \<Rightarrow> (Posting r (rr_index C), C, s)
     | Posting r current \<Rightarrow>
         if current < length (rr_queues C)
         then (case gaspi_post G r (rr_queues C ! current) GASPI_BLOCK s of
                 (ret, s1) \<Rightarrow>
                   if ret = GASPI_SUCCESS then (Finished (Inr ()), C, s1)
                   else if ret = GASPI_QUEUE_FULL then (Full r current, C, s1)
                   else (Finished (fst (gaspi_check G ret s1)), C, s1))
         else (Finished (Inl out_of_range), C, s)
     | Full r current \<Rightarrow>
         (case select_available_queue G current (C, s) of
            (Inl e, C1, s1) \<Rightarrow> (Finished (Inl e), C1, s1)
          | (Inr current1, C1, s1) \<Rightarrow> (Posting r current1, C1, s1))
     | Finished r \<Rightarrow> (t, C, s))"

text \<open>A thread on its own: the \<open>while (true)\<close> loop.\<close>

partial_function (option) rr_run ::
    "('s, 'z) gaspi_api_scheme \<Rightarrow> rr_thread \<Rightarrow> rr_context \<times> 's \<Rightarrow> (unit res \<times> rr_context \<times> 's) option" where
  "rr_run G t cs =
     (case t of
        Finished r \<Rightarrow> Some (r, cs)
      | _ \<Rightarrow> (case rr_thread_step G t cs of (t1, cs1) \<Rightarrow> rr_run G t1 cs1))"

text \<open>What \<open>writePart\<close> decides before it enters the loop; \<open>size == 0\<close> is a notification without
  any check.\<close>

definition rr_writePart_entry ::
    "buffer_description \<Rightarrow> buffer_description \<Rightarrow> u64 \<Rightarrow> u64 \<Rightarrow> rr_thread" where
  "rr_writePart_entry source target sz offset =
     (if sz = 0 then Ready (notify_request target)
      else if offset + sz > bd_size source
      then Finished (Inl (RuntimeError
             ''[RoundRobinQueuesContext:writePart] Write size larger than provided source buffer''))
      else if sz > bd_size target
      then Finished (Inl (RuntimeError
             ''[RoundRobinQueuesContext:writePart] Write size larger than provided target buffer''))
      else Ready (write_request source target sz offset))"

definition rr_writePart ::
    "('s, 'z) gaspi_api_scheme \<Rightarrow> buffer_description \<Rightarrow> buffer_description \<Rightarrow> u64 \<Rightarrow> u64
      \<Rightarrow> rr_context \<times> 's \<Rightarrow> (unit res \<times> rr_context \<times> 's) option" where
  "rr_writePart G source target sz offset = rr_run G (rr_writePart_entry source target sz offset)"

definition rr_notify ::
    "('s, 'z) gaspi_api_scheme \<Rightarrow> buffer_description \<Rightarrow> rr_context \<times> 's \<Rightarrow> (unit res \<times> rr_context \<times> 's) option" where
  "rr_notify G target = rr_run G (Ready (notify_request target))"

fun flush_queues :: "('s, 'z) gaspi_api_scheme \<Rightarrow> u8 list \<Rightarrow> ('s, unit) act" where
  "flush_queues G [] = act_return ()"
| "flush_queues G (q # qs) = act_bind (queue_flush G q) (\<lambda>_. flush_queues G qs)"

definition rr_flush :: "('s, 'z) gaspi_api_scheme \<Rightarrow> rr_context \<Rightarrow> ('s, unit) act" where
  "rr_flush G C = flush_queues G (rr_queues C)"

text \<open>Several threads on one context: any thread makes the next step.\<close>

inductive rr_step :: "('s, 'z) gaspi_api_scheme \<Rightarrow> rr_thread list \<times> rr_context \<times> 's \<Rightarrow> rr_thread list \<times> rr_context \<times> 's \<Rightarrow> bool"
  for G where
  rr_step_thread: "i < length ts \<Longrightarrow> rr_thread_step G (ts ! i) cs = (t1, cs1) \<Longrightarrow>
    rr_step G (ts, cs) (ts[i := t1], cs1)"

section \<open>The contract of the queues\<close>

text \<open>
  What the code relies on: \<open>posted\<close> is the log of the requests the library has accepted, with
  their queue; \<open>room s q\<close> says that queue \<open>q\<close> takes another request.  A post is accepted exactly
  when it returns \<open>GASPI_SUCCESS\<close>; it is answered \<open>GASPI_QUEUE_FULL\<close> only by a queue without
  room; a successful wait empties the queue.
\<close>

definition queue_contract :: "('s, 'z) gaspi_api_scheme \<Rightarrow> ('s \<Rightarrow> (u8 \<times> request) list) \<Rightarrow> ('s \<Rightarrow> u8 \<Rightarrow> bool) \<Rightarrow> bool" where
  "queue_contract G posted room \<longleftrightarrow>
     (\<forall>r q s ret s1. gaspi_post G r q GASPI_BLOCK s = (ret, s1) \<longrightarrow>
        posted s1 = (if ret = GASPI_SUCCESS then posted s @ [(q, r)] else posted s)
        \<and> (ret = GASPI_QUEUE_FULL \<longrightarrow> \<not> room s q)) \<and>
     (\<forall>q s ret s1. gaspi_wait G q GASPI_BLOCK s = (ret, s1) \<longrightarrow>
        posted s1 = posted s \<and> (ret = GASPI_SUCCESS \<longrightarrow> room s1 q))"

text \<open>No call fails: posts are accepted or find the queue full, waits succeed.\<close>

definition fault_free :: "('s, 'z) gaspi_api_scheme \<Rightarrow> bool" where
  "fault_free G \<longleftrightarrow>
     (\<forall>r q s. fst (gaspi_post G r q GASPI_BLOCK s) \<in> {GASPI_SUCCESS, GASPI_QUEUE_FULL}) \<and>
     (\<forall>q s. fst (gaspi_wait G q GASPI_BLOCK s) = GASPI_SUCCESS)"

lemma post_log: "queue_contract G posted room \<Longrightarrow> gaspi_post G r q GASPI_BLOCK s = (ret, s1) \<Longrightarrow>
    posted s1 = (if ret = GASPI_SUCCESS then posted s @ [(q, r)] else posted s)"
  unfolding queue_contract_def by blast

lemma post_full: "queue_contract G posted room \<Longrightarrow> gaspi_post G r q GASPI_BLOCK s = (GASPI_QUEUE_FULL, s1) \<Longrightarrow>
    \<not> room s q"
  unfolding queue_contract_def by blast

lemma flush_log: "queue_contract G posted room \<Longrightarrow> queue_flush G q s = (r, s1) \<Longrightarrow> posted s1 = posted s"
  unfolding queue_contract_def by (force simp: queue_flush_def gaspi_checked_eq split: prod.splits if_splits)

lemma flush_room: "queue_contract G posted room \<Longrightarrow> queue_flush G q s = (Inr u, s1) \<Longrightarrow> room s1 q"
  unfolding queue_contract_def by (force simp: queue_flush_def gaspi_checked_eq split: prod.splits if_splits)

lemma flush_fault_free: "fault_free G \<Longrightarrow> queue_flush G q s = (r, s1) \<Longrightarrow> r = Inr ()"
  unfolding fault_free_def by (auto simp: queue_flush_def gaspi_checked_eq split: prod.splits if_splits)
    (metis fst_conv)

end
