(* ===== verification/Buffers.thy ===== *)
theory Buffers
  imports Segments Group_Ranks Communication_Context
begin

unbundle bit_operations_syntax

text \<open>
  \<open>singlesided/Buffer\<close>, \<open>singlesided/Endpoint\<close>, \<open>singlesided/write/SourceBuffer\<close> and
  \<open>singlesided/write/TargetBuffer\<close>: what the constructors acquire from the segment, what the
  destructors give back, and the exchange of the buffer descriptions of two partners.

  The state is one segment with the control blocks of the shared allocations made in it
  (\<open>std::shared_ptr<MemoryAllocation>\<close>: the region and its number of owners).
\<close>

section \<open>MemoryAllocation and NotifyAllocation\<close>

record mem_alloc =
  al_pointer :: u64
  al_size :: u64
  al_owners :: nat

record bworld =
  bw_segment :: segment
  bw_allocs :: "mem_alloc list"

definition on_manager :: "(segment_manager, 'a) act \<Rightarrow> (bworld, 'a) act" where
  "on_manager m = (\<lambda>w. case m (sg_manager (bw_segment w)) of
     (r, M) \<Rightarrow> (r, w\<lparr>bw_segment := (bw_segment w)\<lparr>sg_manager := M\<rparr>\<rparr>))"

definition memory_allocation :: "u64 \<Rightarrow> (bworld, nat) act" where
  "memory_allocation sz =
     act_bind (on_manager (allocator_allocate 1 sz)) (\<lambda>p. \<lambda>w.
       (Inr (length (bw_allocs w)),
        w\<lparr>bw_allocs := bw_allocs w @ [\<lparr>al_pointer = p, al_size = sz, al_owners = 1\<rparr>]\<rparr>))"

definition notify_allocation :: "(bworld, u32) act" where
  "notify_allocation = on_manager acquire_notification"

text \<open>A further \<open>shared_ptr\<close> to an allocation, and the end of one: the last owner deallocates.\<close>

definition memory_share :: "nat option \<Rightarrow> bworld \<Rightarrow> bworld" where
  "memory_share h w = (case h of
     None \<Rightarrow> w
   | Some i \<Rightarrow> w\<lparr>bw_allocs := (bw_allocs w)[i := (bw_allocs w ! i)\<lparr>al_owners := al_owners (bw_allocs w ! i) + 1\<rparr>]\<rparr>)"

definition memory_release :: "nat option \<Rightarrow> (bworld, unit) act" where
  "memory_release h = (\<lambda>w. case h of
     None \<Rightarrow> (Inr (), w)
   | Some i \<Rightarrow>
       let al = bw_allocs w ! i;
           w1 = w\<lparr>bw_allocs := (bw_allocs w)[i := al\<lparr>al_owners := al_owners al - 1\<rparr>]\<rparr>
       in if al_owners al = 1
          then on_manager (allocator_deallocate 1 (al_pointer al) (al_size al)) w1
          else (Inr (), w1))"

definition notify_release :: "u32 option \<Rightarrow> (bworld, unit) act" where
  "notify_release h = (case h of None \<Rightarrow> act_return () | Some n \<Rightarrow> on_manager (release_notification n))"

section \<open>Buffer\<close>

record buffer =
  bf_allocMemory :: "nat option"
  bf_allocNotify :: "u32 option"
  bf_pointer :: u64
  bf_size :: u64
  bf_notification :: u32

text \<open>The four constructors on a given segment: memory and notification acquired or given.\<close>

definition bf_construct :: "u64 \<Rightarrow> (bworld, buffer) act" where
  "bf_construct sz =
     act_bind (memory_allocation sz) (\<lambda>i.
     act_bind (act_on_error notify_allocation (memory_release (Some i))) (\<lambda>n. \<lambda>w.
     (Inr \<lparr>bf_allocMemory = Some i, bf_allocNotify = Some n, bf_pointer = al_pointer (bw_allocs w ! i),
           bf_size = sz, bf_notification = n\<rparr>, w)))"

definition bf_construct_at :: "u64 \<Rightarrow> u64 \<Rightarrow> (bworld, buffer) act" where
  "bf_construct_at pointer sz =
     act_bind notify_allocation (\<lambda>n.
     act_return \<lparr>bf_allocMemory = None, bf_allocNotify = Some n, bf_pointer = pointer,
           bf_size = sz, bf_notification = n\<rparr>)"

definition bf_construct_notify :: "u64 \<Rightarrow> u32 \<Rightarrow> (bworld, buffer) act" where
  "bf_construct_notify sz notification =
     act_bind (memory_allocation sz) (\<lambda>i. \<lambda>w.
     (Inr \<lparr>bf_allocMemory = Some i, bf_allocNotify = None, bf_pointer = al_pointer (bw_allocs w ! i),
           bf_size = sz, bf_notification = notification\<rparr>, w))"

definition bf_construct_at_notify :: "u64 \<Rightarrow> u64 \<Rightarrow> u32 \<Rightarrow> (bworld, buffer) act" where
  "bf_construct_at_notify pointer sz notification =
     act_return \<lparr>bf_allocMemory = None, bf_allocNotify = None, bf_pointer = pointer,
           bf_size = sz, bf_notification = notification\<rparr>"

text \<open>The members are destroyed in the opposite order of their declaration.\<close>

definition bf_destroy :: "('z) buffer_scheme \<Rightarrow> (bworld, unit) act" where
  "bf_destroy b =
     act_bind (notify_release (bf_allocNotify b)) (\<lambda>_. memory_release (bf_allocMemory b))"

definition bf_description :: "'s segment_api \<Rightarrow> u16 \<Rightarrow> segment \<Rightarrow> ('z) buffer_scheme \<Rightarrow> ('s, buffer_description) act" where
  "bf_description G global_rank S b =
     act_bind (pointerToOffset G (sg_manager S) (bf_pointer b)) (\<lambda>offset.
     act_return \<lparr>bd_rank = global_rank, bd_segmentId = ucast (segment_id S), bd_offset = offset,
                 bd_size = bf_size b, bd_notificationId = bf_notification b\<rparr>)"

definition bf_address :: "('z) buffer_scheme \<Rightarrow> u64" where
  "bf_address b = bf_pointer b"

definition bf_checkForNotification :: "'s segment_api \<Rightarrow> segment \<Rightarrow> ('z) buffer_scheme \<Rightarrow> ('s, bool) act" where
  "bf_checkForNotification G S b =
     (\<lambda>s. case gaspi_notify_waitsome G (ucast (segment_id S)) (bf_notification b) 1 GASPI_TEST s of
        ((gaspi_return, activeId), s1) \<Rightarrow>
          if gaspi_return \<noteq> GASPI_TIMEOUT
          then act_bind (gaspi_check G gaspi_return) (\<lambda>_.
               act_bind (gaspi_checked_out G (gaspi_notify_reset G (ucast (segment_id S)) activeId)) (\<lambda>val.
               act_return (val \<noteq> 0))) s1
          else (Inr False, s1))"

definition bf_waitForNotification :: "'s segment_api \<Rightarrow> segment \<Rightarrow> ('z) buffer_scheme \<Rightarrow> ('s, bool) act" where
  "bf_waitForNotification G S b =
     act_bind (gaspi_checked_out G
         (gaspi_notify_waitsome G (ucast (segment_id S)) (bf_notification b) 1 GASPI_BLOCK)) (\<lambda>activeId.
     act_bind (gaspi_checked_out G (gaspi_notify_reset G (ucast (segment_id S)) activeId)) (\<lambda>val.
     act_return (val \<noteq> 0)))"

section \<open>Endpoint\<close>

datatype EndpointType = SOURCE | TARGET | GENERIC

record endpoint_buffer = buffer +
  ep_type :: EndpointType
  ep_pLocalBufferDesc :: buffer_description
  ep_pOtherBufferDesc :: buffer_description
  ep_isConnected :: bool

text \<open>Operations on the segment and on the GASPI library beside each other.\<close>

definition on_world :: "(bworld, 'a) act \<Rightarrow> (bworld \<times> 's, 'a) act" where
  "on_world m = (\<lambda>(w, s). case m w of (r, w1) \<Rightarrow> (r, w1, s))"

definition on_lib :: "(bworld \<Rightarrow> ('s, 'a) act) \<Rightarrow> (bworld \<times> 's, 'a) act" where
  "on_lib m = (\<lambda>(w, s). case m w s of (r, s1) \<Rightarrow> (r, w, s1))"

text \<open>What all constructors do after the base class: if the description throws, the base is
  destroyed.\<close>

definition ep_initialise :: "'s segment_api \<Rightarrow> u16 \<Rightarrow> EndpointType \<Rightarrow> buffer \<Rightarrow> (bworld \<times> 's, endpoint_buffer) act" where
  "ep_initialise G global_rank type b =
     act_bind (act_on_error (on_lib (\<lambda>w. bf_description G global_rank (bw_segment w) b))
                            (on_world (bf_destroy b))) (\<lambda>desc.
     act_return (buffer.extend b (endpoint_buffer.fields type desc bd_default False)))"

definition ep_construct :: "'s segment_api \<Rightarrow> u16 \<Rightarrow> u64 \<Rightarrow> EndpointType \<Rightarrow> (bworld \<times> 's, endpoint_buffer) act" where
  "ep_construct G global_rank sz type =
     act_bind (on_world (bf_construct sz)) (ep_initialise G global_rank type)"

definition ep_construct_at :: "'s segment_api \<Rightarrow> u16 \<Rightarrow> u64 \<Rightarrow> u64 \<Rightarrow> EndpointType \<Rightarrow> (bworld \<times> 's, endpoint_buffer) act" where
  "ep_construct_at G global_rank pointer sz type =
     act_bind (on_world (bf_construct_at pointer sz)) (ep_initialise G global_rank type)"

definition ep_construct_notify :: "'s segment_api \<Rightarrow> u16 \<Rightarrow> u64 \<Rightarrow> u32 \<Rightarrow> EndpointType \<Rightarrow> (bworld \<times> 's, endpoint_buffer) act" where
  "ep_construct_notify G global_rank sz notification type =
     act_bind (on_world (bf_construct_notify sz notification)) (ep_initialise G global_rank type)"

definition ep_construct_at_notify ::
    "'s segment_api \<Rightarrow> u16 \<Rightarrow> u64 \<Rightarrow> u64 \<Rightarrow> u32 \<Rightarrow> EndpointType \<Rightarrow> (bworld \<times> 's, endpoint_buffer) act" where
  "ep_construct_at_notify G global_rank pointer sz notification type =
     act_bind (on_world (bf_construct_at_notify pointer sz notification)) (ep_initialise G global_rank type)"

text \<open>The copy has its own notification and shares the memory.\<close>

definition ep_copy :: "'s segment_api \<Rightarrow> u16 \<Rightarrow> endpoint_buffer \<Rightarrow> (bworld \<times> 's, endpoint_buffer) act" where
  "ep_copy G global_rank other =
     act_bind (ep_construct_at G global_rank (bf_pointer other) (bf_size other) (ep_type other)) (\<lambda>e. \<lambda>(w, s).
     (Inr (e\<lparr>bf_allocMemory := bf_allocMemory other\<rparr>), memory_share (bf_allocMemory other) w, s))"

definition setRemotePartner :: "buffer_description \<Rightarrow> endpoint_buffer \<Rightarrow> endpoint_buffer" where
  "setRemotePartner partnerDescription e =
     e\<lparr>ep_pOtherBufferDesc := partnerDescription, ep_isConnected := True\<rparr>"

subsection \<open>SourceBuffer and TargetBuffer\<close>

definition src_construct where
  "src_construct G global_rank sz = ep_construct G global_rank sz SOURCE"
definition src_construct_at where
  "src_construct_at G global_rank pointer sz = ep_construct_at G global_rank pointer sz SOURCE"
definition src_construct_notify where
  "src_construct_notify G global_rank sz notification = ep_construct_notify G global_rank sz notification SOURCE"
definition src_construct_at_notify where
  "src_construct_at_notify G global_rank pointer sz notification =
     ep_construct_at_notify G global_rank pointer sz notification SOURCE"
definition src_copy where
  "src_copy G global_rank other =
     act_bind (ep_copy G global_rank other) (\<lambda>e. act_return (e\<lparr>ep_type := SOURCE\<rparr>))"

definition tgt_construct where
  "tgt_construct G global_rank sz = ep_construct G global_rank sz TARGET"
definition tgt_construct_at where
  "tgt_construct_at G global_rank pointer sz = ep_construct_at G global_rank pointer sz TARGET"
definition tgt_construct_notify where
  "tgt_construct_notify G global_rank sz notification = ep_construct_notify G global_rank sz notification TARGET"
definition tgt_construct_at_notify where
  "tgt_construct_at_notify G global_rank pointer sz notification =
     ep_construct_at_notify G global_rank pointer sz notification TARGET"
definition tgt_copy where
  "tgt_copy G global_rank other =
     act_bind (ep_copy G global_rank other) (\<lambda>e. act_return (e\<lparr>ep_type := TARGET\<rparr>))"

text \<open>
  The transfer operations are calls of the communication context on the two descriptions; their
  \<open>assert (isConnected ())\<close> is the condition \<open>None\<close> stands for.
\<close>

definition asserted :: "endpoint_buffer \<Rightarrow> 'r \<Rightarrow> 'r option" where
  "asserted e r = (if ep_isConnected e then Some r else None)"

definition src_initTransfer where
  "src_initTransfer writePart e =
     asserted e (ctx_write writePart (ep_pLocalBufferDesc e) (ep_pOtherBufferDesc e))"

definition src_initTransferPart where
  "src_initTransferPart writePart e sz offset =
     asserted e (writePart (ep_pLocalBufferDesc e) (ep_pOtherBufferDesc e) sz offset)"

definition src_checkForTransferAck where
  "src_checkForTransferAck G S e = asserted e (bf_checkForNotification G S e)"

definition src_waitForTransferAck where
  "src_waitForTransferAck G S e = asserted e (bf_waitForNotification G S e)"

definition tgt_waitForCompletion where
  "tgt_waitForCompletion G S e = asserted e (bf_waitForNotification G S e)"

definition tgt_checkForCompletion where
  "tgt_checkForCompletion G S e = asserted e (bf_checkForNotification G S e)"

definition tgt_ackTransfer where
  "tgt_ackTransfer notify e = asserted e (notify (ep_pOtherBufferDesc e))"

end
