(* ===== verification/Buffer_Ownership.thy ===== *)
theory Buffer_Ownership
  imports Buffers
begin

unbundle bit_operations_syntax

text \<open>
  Who owns what: over any history of constructions, copies and destructions of buffers in one
  segment, the live regions of the memory manager are exactly the allocations that still have an
  owner, and the live notifications exactly those the buffers acquired.
\<close>

section \<open>The memory side\<close>

abbreviation w_mm :: "bworld \<Rightarrow> mem_manager" where
  "w_mm w \<equiv> sm_memoryManager (sg_manager (bw_segment w))"

abbreviation w_nm :: "bworld \<Rightarrow> notification_manager" where
  "w_nm w \<equiv> sm_notifyManager (sg_manager (bw_segment w))"

definition held :: "mem_alloc list \<Rightarrow> nat \<Rightarrow> bool" where
  "held als i \<longleftrightarrow> i < length als \<and> 0 < al_owners (als ! i) \<and> 0 < al_size (als ! i)"

definition held_regions :: "mem_alloc list \<Rightarrow> (u64 \<times> u64) set" where
  "held_regions als = (\<lambda>i. (al_pointer (als ! i), al_size (als ! i))) ` {i. held als i}"

text \<open>\<open>f i\<close> is the number of owners of allocation \<open>i\<close>.\<close>

definition mem_inv :: "nat \<Rightarrow> nat \<Rightarrow> (nat \<Rightarrow> nat) \<Rightarrow> bworld \<Rightarrow> bool" where
  "mem_inv a e f w \<longleftrightarrow>
     mm_inv a e (w_mm w) \<and> pairwise_apart (mm_live (w_mm w)) \<and>
     (\<forall>i < length (bw_allocs w). al_owners (bw_allocs w ! i) = f i) \<and>
     (\<forall>i < length (bw_allocs w). al_size (bw_allocs w ! i) = 0 \<longrightarrow> al_pointer (bw_allocs w ! i) = 0) \<and>
     (\<forall>i. 0 < f i \<longrightarrow> i < length (bw_allocs w)) \<and>
     mm_live (w_mm w) = held_regions (bw_allocs w) \<and>
     inj_on (\<lambda>i. al_pointer (bw_allocs w ! i)) {i. held (bw_allocs w) i}"

lemma held_regions_snoc:
  "held_regions (als @ [al]) =
     (if 0 < al_owners al \<and> 0 < al_size al then {(al_pointer al, al_size al)} else {}) \<union> held_regions als"
proof -
  have "{i. held (als @ [al]) i} =
      (if 0 < al_owners al \<and> 0 < al_size al then {length als} else {}) \<union> {i. held als i}"
    by (auto simp: held_def nth_append less_Suc_eq)
  then show ?thesis by (auto simp: held_regions_def nth_append held_def)
qed

lemma held_snoc: "held (als @ [al]) i \<longleftrightarrow>
    held als i \<or> i = length als \<and> 0 < al_owners al \<and> 0 < al_size al"
  by (auto simp: held_def nth_append less_Suc_eq)

lemma memory_allocation_mem:
  assumes inv: "mem_inv a e f w" and m: "memory_allocation sz w = (r, w')"
  shows "w_nm w' = w_nm w \<and> (case r of Inl ex \<Rightarrow> w' = w
    | Inr i \<Rightarrow> i = length (bw_allocs w) \<and> f i = 0 \<and> mem_inv a e (f(i := 1)) w' \<and>
        (\<exists>p. bw_allocs w' = bw_allocs w @ [\<lparr>al_pointer = p, al_size = sz, al_owners = 1\<rparr>]))"
proof (cases "mm_allocate sz (w_mm w)")
  case (Inl ex)
  with m show ?thesis
    by (auto simp: memory_allocation_def act_bind_apply on_manager_def allocator_allocate_def)
next
  case (Inr pm)
  obtain p mm where pm: "pm = (p, mm)" by force
  let ?al = "\<lparr>al_pointer = p, al_size = sz, al_owners = 1\<rparr>"
  have r: "r = Inr (length (bw_allocs w))" "w_mm w' = mm" "w_nm w' = w_nm w"
    "bw_allocs w' = bw_allocs w @ [?al]"
    using m Inr pm
    by (auto simp: memory_allocation_def act_bind_apply on_manager_def allocator_allocate_def)
  have i: "mm_inv a e (w_mm w)" and ap: "pairwise_apart (mm_live (w_mm w))"
    and l: "mm_live (w_mm w) = held_regions (bw_allocs w)" and f0: "f (length (bw_allocs w)) = 0"
    and inj: "inj_on (\<lambda>i. al_pointer (bw_allocs w ! i)) {i. held (bw_allocs w) i}"
    using inv by (auto simp: mem_inv_def)
  have "mm_inv a e mm \<and> pairwise_apart (mm_live mm) \<and> mm_live mm = held_regions (bw_allocs w @ [?al]) \<and>
      (sz = 0 \<longrightarrow> p = 0) \<and> inj_on (\<lambda>i. al_pointer ((bw_allocs w @ [?al]) ! i)) {i. held (bw_allocs w @ [?al]) i}"
  proof (cases "sz = 0")
    case True
    with Inr pm have "p = 0" "mm = w_mm w" by (simp_all add: mm_allocate_def)
    moreover have "{i. held (bw_allocs w @ [?al]) i} = {i. held (bw_allocs w) i}"
      using True by (simp add: held_snoc)
    moreover have "inj_on (\<lambda>i. al_pointer ((bw_allocs w @ [?al]) ! i)) {i. held (bw_allocs w) i}"
      using inj by (rule inj_on_cong [THEN iffD1, rotated]) (auto simp: held_def nth_append)
    ultimately show ?thesis using i ap l True by (simp add: held_regions_snoc)
  next
    case False
    then have sz: "0 < sz" by (simp add: word_neq_0_conv)
    have al: "mm_allocate sz (w_mm w) = Inr (p, mm)" using Inr pm by simp
    note lv = mm.alloc_live [OF i sz al]
    have ap': "pairwise_apart (mm_live mm)"
      using ap mm.alloc_fresh [OF i sz al] unfolding lv pairwise_apart_def by fast
    have "p \<notin> (\<lambda>i. al_pointer (bw_allocs w ! i)) ` {i. held (bw_allocs w) i}"
      using mm.alloc_new [OF i sz al] unfolding l held_regions_def by force
    moreover have "{i. held (bw_allocs w @ [?al]) i} = insert (length (bw_allocs w)) {i. held (bw_allocs w) i}"
      using sz by (auto simp: held_snoc)
    moreover have "inj_on (\<lambda>i. al_pointer ((bw_allocs w @ [?al]) ! i)) {i. held (bw_allocs w) i}"
      using inj by (rule inj_on_cong [THEN iffD1, rotated]) (auto simp: held_def nth_append)
    moreover have "(\<lambda>i. al_pointer ((bw_allocs w @ [?al]) ! i)) ` {i. held (bw_allocs w) i}
        = (\<lambda>i. al_pointer (bw_allocs w ! i)) ` {i. held (bw_allocs w) i}"
      by (rule image_cong) (auto simp: held_def nth_append)
    ultimately show ?thesis
      using mm.alloc_inv [OF i sz al] ap' lv l sz False
      by (auto simp: held_regions_snoc held_def)
  qed
  then show ?thesis using inv r f0
    by (auto simp: mem_inv_def nth_append less_Suc_eq)
qed

lemma held_update: "i < length als \<Longrightarrow> held (als[i := al]) j \<longleftrightarrow>
    (if j = i then 0 < al_owners al \<and> 0 < al_size al else held als j)"
  by (auto simp: held_def nth_list_update)

lemma held_update_same:
  assumes "i < length als" "0 < n" "0 < al_owners (als ! i)"
  shows "held (als[i := (als ! i)\<lparr>al_owners := n\<rparr>]) = held als"
    "al_pointer (als[i := (als ! i)\<lparr>al_owners := n\<rparr>] ! j) = al_pointer (als ! j)"
    "al_size (als[i := (als ! i)\<lparr>al_owners := n\<rparr>] ! j) = al_size (als ! j)"
  using assms by (auto simp: fun_eq_iff held_def nth_list_update)

text \<open>A change of the number of owners that leaves one.\<close>

lemma mem_inv_owners:
  assumes inv: "mem_inv a e f w" and i: "0 < f i" and n: "0 < n"
  shows "mem_inv a e (f(i := n)) (w\<lparr>bw_allocs := (bw_allocs w)[i := (bw_allocs w ! i)\<lparr>al_owners := n\<rparr>]\<rparr>)"
proof -
  have l: "i < length (bw_allocs w)" "0 < al_owners (bw_allocs w ! i)" using inv i by (auto simp: mem_inv_def)
  note h = held_update_same [OF l(1) n l(2)]
  have "held_regions ((bw_allocs w)[i := (bw_allocs w ! i)\<lparr>al_owners := n\<rparr>]) = held_regions (bw_allocs w)"
    unfolding held_regions_def h ..
  moreover have "inj_on (\<lambda>j. al_pointer ((bw_allocs w)[i := (bw_allocs w ! i)\<lparr>al_owners := n\<rparr>] ! j))
      {j. held ((bw_allocs w)[i := (bw_allocs w ! i)\<lparr>al_owners := n\<rparr>]) j}"
    unfolding h using inv by (simp add: mem_inv_def)
  ultimately show ?thesis using inv l
    by (auto simp: mem_inv_def h(2,3); simp add: nth_list_update)
qed

lemma memory_share_mem:
  assumes "mem_inv a e f w" "0 < f i"
  shows "mem_inv a e (f(i := f i + 1)) (memory_share (Some i) w)"
    "w_nm (memory_share h w) = w_nm w"
    "length (bw_allocs (memory_share h w)) = length (bw_allocs w)"
    "al_pointer (bw_allocs (memory_share h w) ! j) = al_pointer (bw_allocs w ! j)"
    "al_size (bw_allocs (memory_share h w) ! j) = al_size (bw_allocs w ! j)"
proof -
  have "al_owners (bw_allocs w ! i) = f i" using assms by (auto simp: mem_inv_def)
  then show "mem_inv a e (f(i := f i + 1)) (memory_share (Some i) w)"
    using mem_inv_owners [OF assms, of "f i + 1"] by (simp add: memory_share_def)
qed (cases h; cases "the h < length (bw_allocs w)";
    auto simp: memory_share_def nth_list_update list_update_beyond not_less)+

lemma memory_release_mem:
  assumes inv: "mem_inv a e f w" and i: "0 < f i" and m: "memory_release (Some i) w = (r, w')"
  shows "r = Inr () \<and> mem_inv a e (f(i := f i - 1)) w' \<and> w_nm w' = w_nm w \<and>
     length (bw_allocs w') = length (bw_allocs w) \<and>
     (\<forall>j. al_pointer (bw_allocs w' ! j) = al_pointer (bw_allocs w ! j)
        \<and> al_size (bw_allocs w' ! j) = al_size (bw_allocs w ! j))"
proof -
  let ?al = "bw_allocs w ! i"
  have l: "i < length (bw_allocs w)" "al_owners ?al = f i" using inv i by (auto simp: mem_inv_def)
  show ?thesis
  proof (cases "f i = 1")
    case False
    then have w': "r = Inr ()" "w' = w\<lparr>bw_allocs := (bw_allocs w)[i := ?al\<lparr>al_owners := f i - 1\<rparr>]\<rparr>"
      using m l by (auto simp: memory_release_def Let_def)
    have "0 < f i - 1" using i False by simp
    then show ?thesis using mem_inv_owners [OF inv i, of "f i - 1"] w' l
      by (simp add: nth_list_update)
  next
    case True
    let ?als = "(bw_allocs w)[i := ?al\<lparr>al_owners := 0\<rparr>]"
    have hd: "held ?als j \<longleftrightarrow> held (bw_allocs w) j \<and> j \<noteq> i" for j
      using l by (auto simp: held_update)
    have rest: "al_pointer (?als ! j) = al_pointer (bw_allocs w ! j)"
      "al_size (?als ! j) = al_size (bw_allocs w ! j)" for j
      using l by (auto simp: nth_list_update)
    have inv': "mm_inv a e (w_mm w)" "pairwise_apart (mm_live (w_mm w))"
      "mm_live (w_mm w) = held_regions (bw_allocs w)"
      "inj_on (\<lambda>i. al_pointer (bw_allocs w ! i)) {i. held (bw_allocs w) i}"
      using inv by (auto simp: mem_inv_def)
    have "\<exists>mm. mm_deallocate (al_pointer ?al) (al_size ?al) (w_mm w) = Inr mm \<and> mm_inv a e mm \<and>
        mm_live mm = held_regions ?als"
    proof (cases "al_size ?al = 0")
      case True
      then have "{j. held ?als j} = {j. held (bw_allocs w) j}"
        unfolding hd by (auto simp: held_def)
      then have "al_pointer ?al = 0" "held_regions ?als = held_regions (bw_allocs w)"
        using inv l True unfolding held_regions_def rest by (auto simp: mem_inv_def)
      then show ?thesis using inv' by (simp add: mm_deallocate_def)
    next
      case False
      then have h: "held (bw_allocs w) i" using l True by (simp add: held_def word_neq_0_conv)
      then have "(al_pointer ?al, al_size ?al) \<in> mm_live (w_mm w)"
        unfolding inv' held_regions_def by blast
      from mm.dealloc_live [OF inv'(1) this] obtain mm where
        mm: "mm_deallocate (al_pointer ?al) (al_size ?al) (w_mm w) = Inr mm" "mm_inv a e mm"
          "mm_live mm = mm_live (w_mm w) - {(al_pointer ?al, al_size ?al)}" by blast
      have "held_regions ?als = held_regions (bw_allocs w) - {(al_pointer ?al, al_size ?al)}"
        unfolding held_regions_def rest hd using inj_onD [OF inv'(4)] h by auto
      then show ?thesis using mm inv' by simp
    qed
    then obtain mm where mm: "mm_deallocate (al_pointer ?al) (al_size ?al) (w_mm w) = Inr mm" "mm_inv a e mm"
      "mm_live mm = held_regions ?als" by blast
    have w': "r = Inr ()" "w_mm w' = mm" "w_nm w' = w_nm w" "bw_allocs w' = ?als"
      using m l True mm by (auto simp: memory_release_def Let_def on_manager_def allocator_deallocate_def)
    have "pairwise_apart (mm_live mm)"
      using inv'(2) unfolding mm(3) inv'(3) held_regions_def rest hd pairwise_apart_def by blast
    moreover have "inj_on (\<lambda>j. al_pointer (?als ! j)) {j. held ?als j}"
      unfolding rest hd using inv'(4) by (rule inj_on_subset) auto
    ultimately show ?thesis using w' mm True inv l rest
      by (simp add: mem_inv_def nth_list_update)
  qed
qed

section \<open>The notification side\<close>

definition note_inv :: "nat \<Rightarrow> u32 list \<Rightarrow> bworld \<Rightarrow> bool" where
  "note_inv e ns w \<longleftrightarrow>
     e \<le> 2 ^ 31 \<and> nm_inv e (w_nm w) \<and> distinct ns \<and> (\<forall>n \<in> set ns. unat n < 2 ^ 31) \<and>
     nm_live (w_nm w) = (\<lambda>n. (scast n, 1)) ` set ns"

lemma scast_small32: "unat (n :: u32) < 2 ^ 31 \<Longrightarrow> unat (scast n :: u64) = unat n"
proof -
  assume n: "unat n < 2 ^ 31"
  from n have "int (unat n) < int (2 ^ 31)" by (simp only: of_nat_less_iff)
  then have u: "uint n < 2 ^ (LENGTH(32) - 1)" by simp
  have "- (2 ^ (LENGTH(32) - 1)) \<le> uint n" by (rule order_trans [OF _ uint_ge_0]) simp
  from signed_take_bit_int_eq_self [OF this u] have "sint n = uint n"
    by (simp only: sint_uint One_nat_def)
  then have "(scast n :: u64) = ucast n" by (metis scast_eq ucast_eq)
  then show ?thesis using n by (simp add: unsigned_ucast_eq unsigned_take_bit_eq take_bit_nat_eq_self)
qed

lemma scast_small_inj: "unat (n :: u32) < 2 ^ 31 \<Longrightarrow> unat (m :: u32) < 2 ^ 31 \<Longrightarrow>
    (scast n :: u64) = scast m \<longleftrightarrow> n = m"
  using scast_small32 [of n] scast_small32 [of m] by (metis word_unat_eq_iff)

lemma scast_ucast_small: "unat (p :: u64) < 2 ^ 31 \<Longrightarrow> unat (ucast p :: u32) = unat p \<and> scast (ucast p :: u32) = p"
proof -
  assume p: "unat p < 2 ^ 31"
  then have u: "unat (ucast p :: u32) = unat p" by (simp add: unsigned_ucast_eq unsigned_take_bit_eq take_bit_nat_eq_self)
  with p scast_small32 [of "ucast p"] show ?thesis by (simp add: word_unat_eq_iff)
qed

lemma notify_allocation_note:
  assumes inv: "note_inv e ns w" and m: "notify_allocation w = (r, w')"
  shows "w_mm w' = w_mm w \<and> bw_allocs w' = bw_allocs w \<and>
    (case r of Inl ex \<Rightarrow> w' = w | Inr n \<Rightarrow> note_inv e (n # ns) w')"
proof (cases "nm_allocate 1 (w_nm w)")
  case (Inl ex)
  with m show ?thesis by (auto simp: notify_allocation_def on_manager_def acquire_notification_def)
next
  case (Inr pn)
  obtain p nm where pn: "pn = (p, nm)" by force
  have w': "r = Inr (ucast p)" "w_nm w' = nm" "w_mm w' = w_mm w" "bw_allocs w' = bw_allocs w"
    using m Inr pn by (auto simp: notify_allocation_def on_manager_def acquire_notification_def)
  have i: "nm_inv e (w_nm w)" "e \<le> 2 ^ 31" using inv by (auto simp: note_inv_def)
  have al: "nm_allocate 1 (w_nm w) = Inr (p, nm)" using Inr pn by simp
  note A = nm_allocate_result [OF i(1) al]
  have p: "unat p < 2 ^ 31" using A(4) i(2) by simp
  note c = scast_ucast_small [OF p]
  have "ucast p \<notin> set ns"
    using A(5) inv c by (force simp: note_inv_def)
  then show ?thesis using inv w' A c p by (simp add: note_inv_def)
qed

lemma notify_release_note:
  assumes inv: "note_inv e (xs @ n # ys) w" and m: "notify_release (Some n) w = (r, w')"
  shows "r = Inr () \<and> note_inv e (xs @ ys) w' \<and> w_mm w' = w_mm w \<and> bw_allocs w' = bw_allocs w"
proof -
  have i: "nm_inv e (w_nm w)" and l: "(scast n, 1) \<in> nm_live (w_nm w)"
    using inv by (auto simp: note_inv_def)
  from nm.dealloc_live [OF i l] obtain nm where
    d: "nm_deallocate (scast n) (w_nm w) = Inr nm" "nm_inv e nm" "nm_live nm = nm_live (w_nm w) - {(scast n, 1)}"
    by blast
  have w': "r = Inr ()" "w_nm w' = nm" "w_mm w' = w_mm w" "bw_allocs w' = bw_allocs w"
    using m unfolding notify_release_def on_manager_def release_notification_def option.case d(1) sum.case
    by auto
  have "distinct (xs @ n # ys)" and s: "\<forall>k \<in> set (xs @ n # ys). unat k < 2 ^ 31"
    and lv: "nm_live (w_nm w) = (\<lambda>k. (scast k, 1)) ` set (xs @ n # ys)"
    using inv unfolding note_inv_def by blast+
  then have ne: "\<forall>k \<in> set (xs @ ys). k \<noteq> n" and ds: "distinct (xs @ ys)" by auto
  have "(scast k :: u64) \<noteq> scast n" if "k \<in> set (xs @ ys)" for k
  proof -
    have k: "unat k < 2 ^ 31" by (rule bspec [OF s]) (use that in auto)
    have n: "unat n < 2 ^ 31" by (rule bspec [OF s]) auto
    have "k \<noteq> n" using ne that by (rule bspec)
    then show ?thesis unfolding scast_small_inj [OF k n] .
  qed
  then have "(scast n, 1) \<notin> (\<lambda>k. (scast k :: u64, 1 :: u64)) ` set (xs @ ys)"
    by (metis (no_types, lifting) imageE prod.inject)
  then have "(\<lambda>k. (scast k :: u64, 1 :: u64)) ` set (xs @ n # ys) - {(scast n, 1)} = (\<lambda>k. (scast k, 1)) ` set (xs @ ys)"
    by (simp add: insert_Diff_if)
  then show ?thesis using inv d w' lv ds s by (simp add: note_inv_def)
qed

section \<open>Histories\<close>

text \<open>The constructors of a buffer.\<close>

inductive buffer_ctor :: "(bworld, buffer) act \<Rightarrow> bool" where
  "buffer_ctor (bf_construct sz)"
| "buffer_ctor (bf_construct_at pointer sz)"
| "buffer_ctor (bf_construct_notify sz notification)"
| "buffer_ctor (bf_construct_at_notify pointer sz notification)"

text \<open>
  One construction (which may throw), copy or destruction, on the segment and the buffers alive.
  The copy is the effect of \<open>Endpoint\<close>'s copy constructor on the base class.
\<close>

inductive buffer_step :: "bworld \<times> buffer list \<Rightarrow> bworld \<times> buffer list \<Rightarrow> bool" where
  made: "buffer_ctor m \<Longrightarrow> m w = (Inr b, w') \<Longrightarrow> buffer_step (w, bs) (w', b # bs)"
| thrown: "buffer_ctor m \<Longrightarrow> m w = (Inl e, w') \<Longrightarrow> buffer_step (w, bs) (w', bs)"
| copied: "b \<in> set bs \<Longrightarrow> bf_construct_at (bf_pointer b) (bf_size b) w = (Inr c, w') \<Longrightarrow>
    buffer_step (w, bs) (memory_share (bf_allocMemory b) w', c\<lparr>bf_allocMemory := bf_allocMemory b\<rparr> # bs)"
| destroyed: "bf_destroy b w = (r, w') \<Longrightarrow> buffer_step (w, xs @ b # ys) (w', xs @ ys)"

text \<open>The owners of an allocation, and the notifications the buffers have acquired.\<close>

definition owners :: "buffer list \<Rightarrow> nat \<Rightarrow> nat" where
  "owners bs i = length (filter (\<lambda>b. bf_allocMemory b = Some i) bs)"

definition acquired :: "buffer list \<Rightarrow> u32 list" where
  "acquired bs = List.map_filter bf_allocNotify bs"

lemma owners_Cons: "owners (b # bs) = (case bf_allocMemory b of None \<Rightarrow> owners bs
    | Some i \<Rightarrow> (owners bs)(i := owners bs i + 1))"
  by (auto simp: owners_def fun_eq_iff split: option.split)

lemma owners_Nil [simp]: "owners [] i = 0"
  by (simp add: owners_def)

lemma owners_remove: "owners (xs @ b # ys) = owners (b # xs @ ys)"
  by (simp add: owners_def fun_eq_iff)

lemma acquired_Cons: "acquired (b # bs) = (case bf_allocNotify b of None \<Rightarrow> acquired bs
    | Some n \<Rightarrow> n # acquired bs)"
  by (simp add: acquired_def List.map_filter_def split: option.split)

lemma acquired_append: "acquired (xs @ ys) = acquired xs @ acquired ys"
  by (simp add: acquired_def List.map_filter_def)

definition owned_inv :: "nat \<Rightarrow> nat \<Rightarrow> nat \<Rightarrow> bworld \<times> buffer list \<Rightarrow> bool" where
  "owned_inv a e k = (\<lambda>(w, bs).
     mem_inv a e (owners bs) w \<and> note_inv k (acquired bs) w \<and>
     (\<forall>b \<in> set bs. \<forall>i. bf_allocMemory b = Some i \<longrightarrow>
        al_pointer (bw_allocs w ! i) = bf_pointer b \<and> al_size (bw_allocs w ! i) = bf_size b))"

lemma mem_inv_frame: "mem_inv a e f w \<Longrightarrow> w_mm w' = w_mm w \<Longrightarrow> bw_allocs w' = bw_allocs w \<Longrightarrow> mem_inv a e f w'"
  by (auto simp: mem_inv_def)

lemma note_inv_frame: "note_inv k ns w \<Longrightarrow> w_nm w' = w_nm w \<Longrightarrow> note_inv k ns w'"
  by (simp add: note_inv_def)

lemma owned_destroy:
  assumes inv: "owned_inv a e k (w, xs @ b # ys)" and d: "bf_destroy b w = (r, w')"
  shows "r = Inr () \<and> owned_inv a e k (w', xs @ ys)"
proof -
  obtain r1 w1 where d1: "notify_release (bf_allocNotify b) w = (r1, w1)" by force
  have I: "mem_inv a e (owners (b # xs @ ys)) w" "note_inv k (acquired (xs @ b # ys)) w"
    and M: "\<forall>c \<in> set (xs @ b # ys). \<forall>i. bf_allocMemory c = Some i \<longrightarrow>
        al_pointer (bw_allocs w ! i) = bf_pointer c \<and> al_size (bw_allocs w ! i) = bf_size c"
    using inv by (auto simp: owned_inv_def owners_remove)
  have 1: "r1 = Inr () \<and> note_inv k (acquired (xs @ ys)) w1 \<and> w_mm w1 = w_mm w \<and> bw_allocs w1 = bw_allocs w"
  proof (cases "bf_allocNotify b")
    case None
    then show ?thesis using d1 I(2) by (simp add: notify_release_def acquired_append acquired_Cons)
  next
    case (Some n)
    then show ?thesis using notify_release_note [of k "acquired xs" n "acquired ys" w r1 w1] d1 I(2)
      by (simp add: acquired_append acquired_Cons)
  qed
  then have d2: "memory_release (bf_allocMemory b) w1 = (r, w')" and I1: "mem_inv a e (owners (b # xs @ ys)) w1"
    using d d1 mem_inv_frame [OF I(1), of w1] by (auto simp: bf_destroy_def act_bind_apply)
  show ?thesis
  proof (cases "bf_allocMemory b")
    case None
    then have "r = Inr ()" "w' = w1" using d2 by (simp_all add: memory_release_def)
    then show ?thesis using 1 I1 M None by (simp add: owned_inv_def owners_Cons)
  next
    case (Some i)
    have i: "0 < owners (b # xs @ ys) i" using Some by (simp add: owners_Cons)
    note R = memory_release_mem [OF I1 i d2 [unfolded Some]]
    have "(owners (b # xs @ ys))(i := owners (b # xs @ ys) i - 1) = owners (xs @ ys)"
      using Some by (simp add: owners_Cons)
    then show ?thesis using R 1 M note_inv_frame [of k "acquired (xs @ ys)" w1 w']
      by (simp add: owned_inv_def)
  qed
qed

text \<open>A new buffer and a copy.\<close>

lemma owned_notify_buffer:
  assumes inv: "owned_inv a e k (w, bs)" and n: "notify_allocation w = (Inr n, w')"
    and b: "bf_allocMemory b = None" "bf_allocNotify b = Some n"
  shows "owned_inv a e k (w', b # bs)"
proof -
  have "note_inv k (acquired bs) w" using inv by (simp add: owned_inv_def)
  from notify_allocation_note [OF this n]
  have "w_mm w' = w_mm w \<and> bw_allocs w' = bw_allocs w \<and> note_inv k (n # acquired bs) w'" by simp
  then show ?thesis using inv b mem_inv_frame [of a e "owners bs" w w']
    by (auto simp: owned_inv_def owners_Cons acquired_Cons)
qed

lemma owned_thrown:
  assumes inv: "owned_inv a e k (w, bs)" and n: "notify_allocation w = (Inl x, w')"
  shows "w' = w"
  using inv notify_allocation_note [OF _ n] by (auto simp: owned_inv_def)

text \<open>After an allocation one more buffer, which has no notification yet, owns it.\<close>

lemma owned_allocated:
  assumes inv: "owned_inv a e k (w, bs)" and m: "memory_allocation sz w = (r, w')"
  shows "case r of Inl x \<Rightarrow> w' = w
    | Inr i \<Rightarrow> \<forall>b. bf_allocMemory b = Some i \<longrightarrow> bf_allocNotify b = None \<longrightarrow> bf_size b = sz \<longrightarrow>
        bf_pointer b = al_pointer (bw_allocs w' ! i) \<longrightarrow> owned_inv a e k (w', b # bs)"
proof -
  have I: "mem_inv a e (owners bs) w" "note_inv k (acquired bs) w"
    and M: "\<forall>c \<in> set bs. \<forall>i. bf_allocMemory c = Some i \<longrightarrow>
        al_pointer (bw_allocs w ! i) = bf_pointer c \<and> al_size (bw_allocs w ! i) = bf_size c"
    using inv by (auto simp: owned_inv_def)
  note A = memory_allocation_mem [OF I(1) m]
  show ?thesis
  proof (cases r)
    case (Inl x)
    then show ?thesis using A by simp
  next
    case (Inr i)
    then obtain p where i: "i = length (bw_allocs w)" "owners bs i = 0" "mem_inv a e ((owners bs)(i := 1)) w'"
      "bw_allocs w' = bw_allocs w @ [\<lparr>al_pointer = p, al_size = sz, al_owners = 1\<rparr>]" "w_nm w' = w_nm w"
      using A by auto
    have "\<forall>c \<in> set bs. \<forall>j. bf_allocMemory c = Some j \<longrightarrow> j < length (bw_allocs w)"
    proof (intro ballI allI impI)
      fix c j assume "c \<in> set bs" "bf_allocMemory c = Some j"
      then have "0 < owners bs j" by (auto simp: owners_def filter_empty_conv)
      then show "j < length (bw_allocs w)" using I(1) by (simp add: mem_inv_def)
    qed
    then show ?thesis using i M Inr note_inv_frame [OF I(2) i(5)]
      by (auto simp: owned_inv_def owners_Cons acquired_Cons nth_append)
  qed
qed

lemma owned_ctor:
  assumes "buffer_ctor m" and inv: "owned_inv a e k (w, bs)" and m: "m w = (r, w')"
  shows "case r of Inl x \<Rightarrow> owned_inv a e k (w', bs) | Inr b \<Rightarrow> owned_inv a e k (w', b # bs)"
  using assms(1)
proof cases
  case (1 sz)
  obtain ri w1 where a: "memory_allocation sz w = (ri, w1)" by force
  note A = owned_allocated [OF inv a]
  show ?thesis
  proof (cases ri)
    case (Inl x)
    then show ?thesis using A inv m a 1 by (auto simp: bf_construct_def act_bind_apply)
  next
    case (Inr i)
    let ?b = "\<lambda>n. \<lparr>bf_allocMemory = Some i, bf_allocNotify = n, bf_pointer = al_pointer (bw_allocs w1 ! i),
        bf_size = sz, bf_notification = (case n of None \<Rightarrow> 0 | Some n \<Rightarrow> n)\<rparr>"
    have J: "owned_inv a e k (w1, ?b None # bs)" using A Inr by simp
    then have N: "note_inv k (acquired bs) w1" by (simp add: owned_inv_def acquired_Cons)
    obtain rn w2 where n: "notify_allocation w1 = (rn, w2)" by force
    note B = notify_allocation_note [OF N n]
    show ?thesis
    proof (cases rn)
      case (Inl x)
      obtain rr w3 where d: "memory_release (Some i) w1 = (rr, w3)" by force
      have "bf_destroy (?b None) w1 = (rr, w3)"
        using d by (simp add: bf_destroy_def notify_release_def)
      with owned_destroy [where xs = "[]" and ys = bs] J
      have "rr = Inr ()" "owned_inv a e k (w3, bs)" by force+
      moreover have "w2 = w1" using B Inl by simp
      ultimately show ?thesis using m a Inr n Inl d 1
        by (auto simp: bf_construct_def act_bind_apply act_on_error_def)
    next
      case (Inr nn)
      have "w' = w2" "r = Inr (?b (Some nn))"
        using m a \<open>ri = Inr i\<close> n Inr 1 B by (auto simp: bf_construct_def act_bind_apply act_on_error_def)
      moreover have "owned_inv a e k (w2, ?b (Some nn) # bs)"
        using J B Inr mem_inv_frame [of a e _ w1 w2]
        by (auto simp: owned_inv_def owners_Cons acquired_Cons)
      ultimately show ?thesis by simp
    qed
  qed
next
  case (2 pointer sz)
  obtain rn w2 where n: "notify_allocation w = (rn, w2)" by force
  show ?thesis
  proof (cases rn)
    case (Inl x)
    then show ?thesis using owned_thrown [OF inv] n m inv 2 by (auto simp: bf_construct_at_def act_bind_apply)
  next
    case (Inr nn)
    then show ?thesis using owned_notify_buffer [OF inv] n m 2 by (auto simp: bf_construct_at_def act_bind_apply)
  qed
next
  case (3 sz notification)
  obtain ri w1 where a: "memory_allocation sz w = (ri, w1)" by force
  then show ?thesis using owned_allocated [OF inv a] inv m 3
    by (cases ri) (auto simp: bf_construct_notify_def act_bind_apply)
next
  case (4 pointer sz notification)
  then show ?thesis using inv m
    by (auto simp: bf_construct_at_notify_def owned_inv_def owners_Cons acquired_Cons)
qed

lemma owned_copy:
  assumes inv: "owned_inv a e k (w, bs)" and b: "b \<in> set bs"
    and m: "bf_construct_at (bf_pointer b) (bf_size b) w = (Inr c, w')"
  shows "owned_inv a e k (memory_share (bf_allocMemory b) w', c\<lparr>bf_allocMemory := bf_allocMemory b\<rparr> # bs)"
proof -
  obtain n where n: "notify_allocation w = (Inr n, w')" and c: "c = \<lparr>bf_allocMemory = None, bf_allocNotify = Some n,
      bf_pointer = bf_pointer b, bf_size = bf_size b, bf_notification = n\<rparr>"
    using m by (auto simp: bf_construct_at_def act_bind_eq_Inr)
  have "note_inv k (acquired bs) w" using inv by (simp add: owned_inv_def)
  from notify_allocation_note [OF this n]
  have N: "w_mm w' = w_mm w" "bw_allocs w' = bw_allocs w" "note_inv k (n # acquired bs) w'" by simp_all
  have I: "mem_inv a e (owners bs) w'" using inv mem_inv_frame [of a e _ w w'] N by (simp add: owned_inv_def)
  have M: "\<forall>d \<in> set bs. \<forall>i. bf_allocMemory d = Some i \<longrightarrow>
        al_pointer (bw_allocs w' ! i) = bf_pointer d \<and> al_size (bw_allocs w' ! i) = bf_size d"
    using inv N by (simp add: owned_inv_def)
  show ?thesis
  proof (cases "bf_allocMemory b")
    case None
    then show ?thesis using I N M c by (auto simp: owned_inv_def owners_Cons acquired_Cons memory_share_def)
  next
    case (Some i)
    then have i: "0 < owners bs i" using b by (auto simp: owners_def filter_empty_conv)
    note S = memory_share_mem [OF I i]
    have "note_inv k (n # acquired bs) (memory_share (Some i) w')"
      using N(3) S(2) by (rule note_inv_frame)
    then show ?thesis using S M c Some b by (simp add: owned_inv_def owners_Cons acquired_Cons)
  qed
qed

lemma owned_step:
  assumes "buffer_step x y" "owned_inv a e k x"
  shows "owned_inv a e k y"
  using assms(1)
proof cases
  case (made m w b w' bs)
  then show ?thesis using owned_ctor [of m a e k w bs "Inr b" w'] assms(2) by simp
next
  case (thrown m w ex w' bs)
  then show ?thesis using owned_ctor [of m a e k w bs "Inl ex" w'] assms(2) by simp
next
  case (copied b bs w c w')
  then show ?thesis using owned_copy [of a e k w bs b c w'] assms(2) by simp
next
  case (destroyed b w r w' xs ys)
  then show ?thesis using owned_destroy [of a e k w xs b ys r w'] assms(2) by simp
qed

lemma nm_empty_fresh:
  assumes "nm_inv (unat n) nm" "nm_live nm = {}"
  shows "nm = nm_construct n"
proof -
  from assms obtain b where b: "nm_blocks nm = [b]" "bfree b" "unat (g_start b) = 0" "unat (bsize b) = unat n"
    using live_empty_single [of 0 "unat n" "nm_blocks nm"] by (auto simp: nm_live_def nm_inv_def)
  then have "b = \<lparr>g_start = 0, bsize = n, bfree = True\<rparr>" by (cases b) (simp add: word_unat_eq_iff)
  with b show ?thesis by (cases nm) (simp add: nm_construct_def)
qed

lemma owned_fresh:
  assumes "0 < base" "0 < sz" "unat base + unat sz \<le> 2 ^ 64" "0 < nmax" "unat nmax \<le> 2 ^ 31"
    and "sm_memoryManager (sg_manager S) = mm_construct base sz"
      "sm_notifyManager (sg_manager S) = nm_construct nmax"
  shows "owned_inv (unat base) (unat base + unat sz) (unat nmax) (\<lparr>bw_segment = S, bw_allocs = []\<rparr>, [])"
proof -
  have "mm_live (mm_construct base sz) = {}" "nm_live (nm_construct nmax) = {}"
    by (simp_all add: mm_live_def nm_live_def mm_construct_def nm_construct_def live_Cons)
  then show ?thesis
    using mm_construct_inv [OF assms(1-3)] nm_construct_inv [OF assms(4)] assms
    by (simp add: owned_inv_def mem_inv_def note_inv_def acquired_def held_regions_def held_def
        pairwise_apart_def)
qed

lemma owned_reach:
  "rtranclp buffer_step s0 s \<Longrightarrow> owned_inv a e n s0 \<Longrightarrow> owned_inv a e n s"
  by (induction rule: rtranclp_induct) (use owned_step in \<open>metis prod.collapse\<close>)+

text \<open>Two buffers whose memory is not one allocation do not overlap.\<close>

lemma owned_disjoint:
  assumes inv: "owned_inv a e n (w, bs)" and b: "b \<in> set bs" "bf_allocMemory b = Some i"
    and c: "c \<in> set bs" "bf_allocMemory c = Some j" and ij: "i \<noteq> j"
  shows "region (bf_pointer b) (bf_size b) \<inter> region (bf_pointer c) (bf_size c) = {}"
proof (cases "bf_size b = 0 \<or> bf_size c = 0")
  case True
  then show ?thesis by (auto simp: region_def)
next
  case False
  have I: "mem_inv a e (owners bs) w"
    and M: "\<And>b i. b \<in> set bs \<Longrightarrow> bf_allocMemory b = Some i \<Longrightarrow>
       al_pointer (bw_allocs w ! i) = bf_pointer b \<and> al_size (bw_allocs w ! i) = bf_size b"
    using inv by (simp_all add: owned_inv_def)
  have "0 < owners bs i" "0 < owners bs j" using b c by (auto simp: owners_def filter_empty_conv)
  then have h: "held (bw_allocs w) i" "held (bw_allocs w) j"
    using I M [OF b] M [OF c] False by (auto simp: mem_inv_def held_def word_neq_0_conv)
  moreover have "inj_on (\<lambda>i. al_pointer (bw_allocs w ! i)) {i. held (bw_allocs w) i}"
    using I by (simp add: mem_inv_def)
  ultimately have "al_pointer (bw_allocs w ! i) \<noteq> al_pointer (bw_allocs w ! j)"
    using ij unfolding inj_on_def by blast
  moreover have "(al_pointer (bw_allocs w ! i), al_size (bw_allocs w ! i)) \<in> mm_live (w_mm w)"
    "(al_pointer (bw_allocs w ! j), al_size (bw_allocs w ! j)) \<in> mm_live (w_mm w)"
    using I h by (auto simp: mem_inv_def held_regions_def)
  moreover have "pairwise_apart (mm_live (w_mm w))" using I unfolding mem_inv_def by (elim conjE)
  ultimately show ?thesis unfolding pairwise_apart_def using M [OF b] M [OF c] by fastforce
qed

lemma owned_destroyable: "owned_inv a e n (w, bs) \<Longrightarrow> b \<in> set bs \<Longrightarrow> fst (bf_destroy b w) = Inr ()"
  using owned_destroy [of a e n w _ b] split_list by (metis prod.collapse)

lemma owned_empty:
  assumes "owned_inv (unat base) (unat base + unat sz) (unat nmax) (w, [])"
    "0 < base" "0 < sz" "unat base + unat sz \<le> 2 ^ 64" "0 < nmax" "unat nmax \<le> 2 ^ 31"
  shows "w_mm w = mm_construct base sz \<and> w_nm w = nm_construct nmax"
proof -
  have I: "mem_inv (unat base) (unat base + unat sz) (owners []) w" "note_inv (unat nmax) (acquired []) w"
    using assms(1) by (simp_all add: owned_inv_def)
  then have "mm_live (w_mm w) = {}" "nm_live (w_nm w) = {}"
    by (auto simp: mem_inv_def note_inv_def acquired_def held_regions_def held_def)
  then show ?thesis using I assms(2-) by (auto simp: mem_inv_def note_inv_def mm_empty_fresh nm_empty_fresh)
qed

text \<open>
  Property C34: ownership of buffers. From a fresh segment, over any history of constructions of
  buffers (with memory and notification acquired or given, also those that throw), copies, and
  destructions in any order: no destructor throws; no two buffers alive have acquired the same
  notification; the memory of two buffers is disjoint unless they share one allocation; and once
  all buffers are destroyed both managers are back in their initial state: nothing is leaked and
  nothing is released while a copy still uses it.
\<close>

theorem buffer_ownership:
  assumes seg: "0 < base" "0 < sz" "unat base + unat sz \<le> 2 ^ 64" "0 < nmax" "unat nmax \<le> 2 ^ 31"
    and S: "sm_memoryManager (sg_manager S) = mm_construct base sz"
      "sm_notifyManager (sg_manager S) = nm_construct nmax"
    and run: "rtranclp buffer_step (\<lparr>bw_segment = S, bw_allocs = []\<rparr>, []) (w, bs)"
  shows "(\<forall>b \<in> set bs. fst (bf_destroy b w) = Inr ()) \<and> distinct (acquired bs) \<and>
    (\<forall>b \<in> set bs. \<forall>c \<in> set bs. \<forall>i j. bf_allocMemory b = Some i \<longrightarrow> bf_allocMemory c = Some j \<longrightarrow> i \<noteq> j \<longrightarrow>
       region (bf_pointer b) (bf_size b) \<inter> region (bf_pointer c) (bf_size c) = {}) \<and>
    (bs = [] \<longrightarrow> sm_memoryManager (sg_manager (bw_segment w)) = mm_construct base sz \<and>
                sm_notifyManager (sg_manager (bw_segment w)) = nm_construct nmax)"
proof -
  have inv: "owned_inv (unat base) (unat base + unat sz) (unat nmax) (w, bs)"
    by (rule owned_reach [OF run owned_fresh [OF seg S]])
  then have "distinct (acquired bs)" by (simp add: owned_inv_def note_inv_def)
  then show ?thesis using owned_destroyable [OF inv] owned_disjoint [OF inv] owned_empty [OF _ seg] inv by blast
qed

lemma buffer_ownership_witness:
  "\<exists>w b. rtranclp buffer_step
       (\<lparr>bw_segment = \<lparr>sg_resource = \<lparr>sr_segmentId = 1, sr_contains_valid_segment = True\<rparr>,
          sg_manager = \<lparr>sm_segmentID = 1, sm_memoryManager = mm_construct 4096 1024, sm_notifyManager = nm_construct 16\<rparr>\<rparr>,
         bw_allocs = []\<rparr>, []) (w, [b])
     \<and> bf_pointer b = 4096 \<and> bf_size b = 64 \<and> fst (bf_destroy b w) = Inr ()"
proof -
  let ?S = "\<lparr>sg_resource = \<lparr>sr_segmentId = 1, sr_contains_valid_segment = True\<rparr>,
      sg_manager = \<lparr>sm_segmentID = 1, sm_memoryManager = mm_construct 4096 1024, sm_notifyManager = nm_construct 16\<rparr>\<rparr>"
  let ?w = "\<lparr>bw_segment = ?S, bw_allocs = []\<rparr>"
  obtain b w where c: "bf_construct 64 ?w = (Inr b, w)" "bf_pointer b = 4096" "bf_size b = 64"
    by (simp add: bf_construct_def memory_allocation_def on_manager_def act_bind_apply allocator_allocate_def
        act_on_error_def notify_allocation_def acquire_notification_def mm_allocate_def nm_allocate_def
        mm_construct_def nm_construct_def)
  have run: "rtranclp buffer_step (?w, []) (w, [b])"
    using buffer_step.made [OF buffer_ctor.intros(1) c(1)] by (rule r_into_rtranclp)
  have "fst (bf_destroy b w) = Inr ()"
    using buffer_ownership [where S = ?S and base = 4096 and sz = 1024 and nmax = 16, OF _ _ _ _ _ _ _ run] by simp
  with run c show ?thesis by blast
qed

end
