(* ===== verification/Communication_Context_Props.thy ===== *)
theory Communication_Context_Props
  imports Communication_Context "HOL-Library.Multiset"
begin

text \<open>
  What the two contexts promise: a request that passes the checks is accepted exactly once, the
  retry loop ends after at most one flush of a thread on its own, threads sharing a round-robin
  context never lose or repeat a request, and the check of the source range is exact up to
  64-bit wrap-around.
\<close>

section \<open>The retry loop of SingleQueueContext\<close>

lemma sq_post_loop_now:
  assumes "gaspi_post G r q GASPI_BLOCK s = (ret, s1)" "ret \<noteq> GASPI_QUEUE_FULL"
  shows "sq_post_loop G q r s = Some (Inr ret, s1)"
  by (subst sq_post_loop.simps) (simp add: assms)

lemma sq_post_loop_flush:
  assumes "gaspi_post G r q GASPI_BLOCK s = (GASPI_QUEUE_FULL, s1)"
  shows "sq_post_loop G q r s = (case queue_flush G q s1 of
      (Inl e, s2) \<Rightarrow> Some (Inl e, s2) | (Inr u, s2) \<Rightarrow> sq_post_loop G q r s2)"
  by (subst sq_post_loop.simps) (simp add: assms)

lemma sq_post_loop_spec:
  assumes C: "queue_contract G posted room"
  shows "\<exists>res s1. sq_post_loop G q r s = Some (res, s1) \<and> res \<noteq> Inr GASPI_QUEUE_FULL \<and>
     posted s1 = (if res = Inr GASPI_SUCCESS then posted s @ [(q, r)] else posted s) \<and>
     (fault_free G \<longrightarrow> res = Inr GASPI_SUCCESS)"
proof -
  obtain ret s1 where p: "gaspi_post G r q GASPI_BLOCK s = (ret, s1)" by force
  have ff: "fault_free G \<Longrightarrow> gaspi_post G r q GASPI_BLOCK t = (rt, t1) \<Longrightarrow> rt \<noteq> GASPI_QUEUE_FULL \<Longrightarrow>
      rt = GASPI_SUCCESS" for t rt t1
    unfolding fault_free_def by (metis fst_conv insertE singletonD)
  show ?thesis
  proof (cases "ret = GASPI_QUEUE_FULL")
    case False
    then show ?thesis using sq_post_loop_now [OF p] post_log [OF C p] ff [OF _ p] by simp
  next
    case True
    obtain res s2 where f: "queue_flush G q s1 = (res, s2)" by force
    have l1: "posted s2 = posted s" using post_log [OF C p] flush_log [OF C f] True by simp
    show ?thesis
    proof (cases res)
      case (Inl e)
      then show ?thesis
        using sq_post_loop_flush [of G r q s s1] p True f l1 flush_fault_free [OF _ f] by auto
    next
      case (Inr u)
      obtain ret2 s3 where p2: "gaspi_post G r q GASPI_BLOCK s2 = (ret2, s3)" by force
      have "room s2 q" using flush_room [OF C] f Inr by blast
      then have n: "ret2 \<noteq> GASPI_QUEUE_FULL" using post_full [OF C] p2 by blast
      have "sq_post_loop G q r s = Some (Inr ret2, s3)"
        using sq_post_loop_flush [of G r q s s1] p True f Inr sq_post_loop_now [OF p2 n] by simp
      then show ?thesis using post_log [OF C p2] l1 n ff [OF _ p2 n] by auto
    qed
  qed
qed

lemma check_rethrow_eq: "check_rethrow G suffix ret s =
    (if ret = GASPI_SUCCESS then (Inr (), s)
     else (Inl (RuntimeError ((''In Gaspi error: '' @ gaspi_error_str G ret) @ suffix)), s))"
  by (simp add: check_rethrow_def gaspi_check_eq)

lemma sq_notify_spec:
  assumes C: "queue_contract G posted room"
  shows "\<exists>res s1. sq_notify G q target s = Some (res, s1) \<and>
     posted s1 = (if res = Inr () then posted s @ [(q, notify_request target)] else posted s) \<and>
     (fault_free G \<longrightarrow> res = Inr ())"
  using sq_post_loop_spec [OF C, of q "notify_request target" s]
  by (auto simp: sq_notify_def check_rethrow_eq split: sum.splits)

text \<open>
  \<open>SingleQueueContext::writePart\<close>. It always returns, after at most one flush. It
  throws without touching the library when \<open>offset + size\<close> exceeds the source or \<open>size\<close> the
  target; otherwise it either returns and exactly one request is posted to its queue (the write
  with notification, or the bare notification if \<open>size\<close> is 0), or it throws and none is; it does
  not throw if no GASPI call fails.
\<close>

theorem single_queue_write:
  assumes "queue_contract G posted room"
  shows "\<exists>res s1. sq_writePart G q source target sz offset s = Some (res, s1) \<and>
     (if offset + sz > bd_size source \<or> sz > bd_size target
      then (\<exists>e. res = Inl (RuntimeError e)) \<and> s1 = s
      else posted s1 = (if res = Inr ()
              then posted s @ [(q, if sz > 0 then write_request source target sz offset
                                   else notify_request target)]
              else posted s)
           \<and> (fault_free G \<longrightarrow> res = Inr ()))"
proof (cases "offset + sz > bd_size source \<or> sz > bd_size target")
  case True
  then show ?thesis by (auto simp: sq_writePart_def)
next
  case False
  then show ?thesis
    using sq_post_loop_spec [OF assms, of q "write_request source target sz offset" s]
      sq_notify_spec [OF assms, of q target s]
    by (auto simp: sq_writePart_def check_rethrow_eq split: sum.splits)
qed

section \<open>Round robin: one thread\<close>

lemma rr_run_step: "(\<And>r. t \<noteq> Finished r) \<Longrightarrow>
    rr_run G t cs = (case rr_thread_step G t cs of (t1, cs1) \<Rightarrow> rr_run G t1 cs1)"
  by (subst rr_run.simps) (simp split: rr_thread.split)

lemma rr_run_finished [simp]: "rr_run G (Finished r) cs = Some (r, cs)"
  by (subst rr_run.simps) simp

definition rr_ok :: "rr_context \<Rightarrow> bool" where
  "rr_ok C \<longleftrightarrow> rr_index C < length (rr_queues C)"

lemma select_cases:
  assumes "rr_ok C" "select_available_queue G cur (C, s) = (res, C1, s1)"
  shows "rr_ok C1 \<and> rr_queues C1 = rr_queues C \<and> res \<noteq> Inl out_of_range
     \<and> (\<forall>i. res = Inr i \<longrightarrow> i < length (rr_queues C))"
proof -
  have "(rr_index C + 1) mod length (rr_queues C) < length (rr_queues C)"
    using assms(1) by (intro mod_less_divisor) (auto simp: rr_ok_def)
  then show ?thesis using assms
    by (auto simp: select_available_queue_def rr_ok_def Let_def out_of_range_def queue_flush_def
        gaspi_checked_eq split: if_splits prod.splits sum.splits)
qed

lemma select_log:
  assumes "queue_contract G posted room" "select_available_queue G cur (C, s) = (res, C1, s1)"
  shows "posted s1 = posted s"
  using assms(2) flush_log [OF assms(1)]
  by (auto simp: select_available_queue_def Let_def split: if_splits prod.splits sum.splits)

lemma select_advances:
  assumes "rr_ok C" "select_available_queue G (rr_index C) (C, s) = (Inr i, C1, s1)"
    "queue_contract G posted room"
  shows "room s1 (rr_queues C ! i)"
  using assms(2) flush_room [OF assms(3)]
  by (auto simp: select_available_queue_def Let_def split: if_splits prod.splits sum.splits)

lemma select_fault_free:
  assumes "rr_ok C" "select_available_queue G cur (C, s) = (res, C1, s1)" "fault_free G"
  shows "\<exists>i. res = Inr i"
proof -
  have "(rr_index C + 1) mod length (rr_queues C) < length (rr_queues C)"
    using assms(1) by (intro mod_less_divisor) (auto simp: rr_ok_def)
  then have n: "Suc (rr_index C) mod length (rr_queues C) < length (rr_queues C)" by simp
  obtain fr fs where f: "queue_flush G (rr_queues C ! (Suc (rr_index C) mod length (rr_queues C))) s = (fr, fs)"
    by force
  then have "fr = Inr ()" by (rule flush_fault_free [OF assms(3)])
  then show ?thesis using assms(2) f n
    by (auto simp: select_available_queue_def Let_def split: if_splits)
qed

text \<open>The outcome of one post by a thread.\<close>

lemma posting_step:
  assumes C: "queue_contract G posted room" and "cur < length (rr_queues C)"
    and "rr_thread_step G (Posting r cur) (C, s) = (t1, C1, s1)"
  shows "C1 = C \<and>
    (t1 = Finished (Inr ()) \<and> posted s1 = posted s @ [(rr_queues C ! cur, r)]
     \<or> t1 = Full r cur \<and> posted s1 = posted s \<and> \<not> room s (rr_queues C ! cur)
     \<or> (\<exists>e. t1 = Finished (Inl (RuntimeError e))) \<and> posted s1 = posted s \<and> \<not> fault_free G)"
proof -
  obtain ret s2 where p: "gaspi_post G r (rr_queues C ! cur) GASPI_BLOCK s = (ret, s2)" by force
  have "ret \<noteq> GASPI_SUCCESS \<Longrightarrow> ret \<noteq> GASPI_QUEUE_FULL \<Longrightarrow> \<not> fault_free G"
    using p unfolding fault_free_def by (metis fst_conv insertE singletonD)
  then show ?thesis
    using assms(2,3) post_log [OF C p] post_full [OF C] p
    by (auto simp: rr_thread_step_def gaspi_check_eq split: if_splits)
qed

text \<open>A thread that posts \<open>r\<close> is through after two posts, with at most one change of queue between.\<close>

lemma rr_run_posted:
  assumes C: "queue_contract G posted room" and ok: "rr_ok ctx"
  shows "\<exists>res ctx1 s1. rr_run G (Posting r (rr_index ctx)) (ctx, s) = Some (res, ctx1, s1)
     \<and> rr_ok ctx1 \<and> rr_queues ctx1 = rr_queues ctx \<and>
     (res = Inr () \<and> (\<exists>q \<in> set (rr_queues ctx). posted s1 = posted s @ [(q, r)])
      \<or> res \<noteq> Inr () \<and> posted s1 = posted s \<and> \<not> fault_free G)"
proof -
  let ?i = "rr_index ctx"
  have i: "?i < length (rr_queues ctx)" using ok by (simp add: rr_ok_def)
  obtain t1 c1 s1 where t1: "rr_thread_step G (Posting r ?i) (ctx, s) = (t1, c1, s1)" by (metis prod_cases3)
  have st1: "rr_run G (Posting r ?i) (ctx, s) = rr_run G t1 (c1, s1)"
    using rr_run_step [of "Posting r ?i" G "(ctx, s)"] t1 by simp
  show ?thesis
  proof (cases "t1 = Full r ?i \<and> posted s1 = posted s \<and> c1 = ctx")
    case False
    then show ?thesis using posting_step [OF C i t1] st1 ok nth_mem [OF i] by auto
  next
    case full: True
    obtain res2 c2 s2 where sel: "select_available_queue G ?i (ctx, s1) = (res2, c2, s2)" by (metis prod_cases3)
    have l2: "posted s2 = posted s" using select_log [OF C sel] full by simp
    note c2 = select_cases [OF ok sel]
    have st2: "rr_run G (Full r ?i) (ctx, s1) = (case res2 of Inl e \<Rightarrow> Some (Inl e, c2, s2)
        | Inr k \<Rightarrow> rr_run G (Posting r k) (c2, s2))"
      using rr_run_step [of "Full r ?i" G "(ctx, s1)"] sel
      by (cases res2) (simp_all add: rr_thread_step_def)
    show ?thesis
    proof (cases res2)
      case (Inl e)
      then show ?thesis using st1 st2 full c2 l2 select_fault_free [OF ok sel] by auto
    next
      case (Inr k)
      have k: "k < length (rr_queues c2)" using c2 Inr by simp
      have rm: "room s2 (rr_queues c2 ! k)" using select_advances [OF ok _ C, of s1 k c2 s2] sel Inr c2 by simp
      obtain t3 c3 s3 where t3: "rr_thread_step G (Posting r k) (c2, s2) = (t3, c3, s3)" by (metis prod_cases3)
      have st3: "rr_run G (Posting r k) (c2, s2) = rr_run G t3 (c3, s3)"
        using rr_run_step [of "Posting r k" G "(c2, s2)"] t3 by simp
      have "rr_queues ctx ! k \<in> set (rr_queues ctx)" using k c2 by (simp add: nth_mem)
      then show ?thesis using posting_step [OF C k t3] rm st1 full st2 st3 c2 l2 Inr by auto
    qed
  qed
qed

text \<open>
  Property C35: \<open>RoundRobinQueuesContext::writePart\<close> of a thread on its own. It always returns,
  after at most two posts. It throws without touching the library when a non-empty write does not
  pass the checks; otherwise exactly one request is posted to one of the context's queues, or it
  throws and none is; it does not throw if no GASPI call fails, and the current queue index stays
  in range.
\<close>

theorem round_robin_write:
  assumes C: "queue_contract G posted room" and ok: "rr_ok ctx"
  shows "\<exists>res ctx1 s1. rr_writePart G source target sz offset (ctx, s) = Some (res, ctx1, s1)
     \<and> rr_ok ctx1 \<and> rr_queues ctx1 = rr_queues ctx \<and>
     (if sz > 0 \<and> (offset + sz > bd_size source \<or> sz > bd_size target)
      then (\<exists>e. res = Inl (RuntimeError e)) \<and> ctx1 = ctx \<and> s1 = s
      else (res = Inr () \<and> (\<exists>q \<in> set (rr_queues ctx). posted s1 = posted s @
               [(q, if sz > 0 then write_request source target sz offset else notify_request target)])
            \<or> res \<noteq> Inr () \<and> posted s1 = posted s \<and> \<not> fault_free G))"
proof (cases "sz > 0 \<and> (offset + sz > bd_size source \<or> sz > bd_size target)")
  case True
  then show ?thesis using ok by (auto simp: rr_writePart_def rr_writePart_entry_def)
next
  case False
  define r where "r = (if sz > 0 then write_request source target sz offset else notify_request target)"
  have "rr_writePart G source target sz offset (ctx, s) = rr_run G (Posting r (rr_index ctx)) (ctx, s)"
    using False rr_run_step [of "Ready r" G "(ctx, s)"]
    by (auto simp: rr_writePart_def rr_writePart_entry_def r_def rr_thread_step_def word_neq_0_conv)
  moreover have "\<not> (sz > 0 \<and> (offset + sz > bd_size source \<or> sz > bd_size target))" using False .
  ultimately show ?thesis using rr_run_posted [OF C ok, of r s] by (simp only: if_False r_def)
qed

section \<open>Round robin: several threads\<close>

text \<open>The requests of the threads that are through, and the log entries since the start.\<close>

definition through :: "request list \<Rightarrow> rr_thread list \<Rightarrow> request multiset" where
  "through rs ts = (\<Sum>i<length ts. if ts ! i = Finished (Inr ()) then {# rs ! i #} else {#})"

definition thread_ok :: "nat \<Rightarrow> request \<Rightarrow> rr_thread \<Rightarrow> bool" where
  "thread_ok n r t \<longleftrightarrow>
     (case t of Ready r' \<Rightarrow> r' = r | Posting r' i \<Rightarrow> r' = r \<and> i < n | Full r' i \<Rightarrow> r' = r \<and> i < n
      | Finished res \<Rightarrow> res \<noteq> Inl out_of_range)"

definition rr_inv :: "('s \<Rightarrow> (u8 \<times> request) list) \<Rightarrow> u8 list \<Rightarrow> (u8 \<times> request) list \<Rightarrow> request list
    \<Rightarrow> rr_thread list \<times> rr_context \<times> 's \<Rightarrow> bool" where
  "rr_inv posted qs old rs = (\<lambda>(ts, C, s).
     rr_ok C \<and> rr_queues C = qs \<and> length ts = length rs \<and>
     (\<forall>i < length rs. thread_ok (length qs) (rs ! i) (ts ! i)) \<and>
     (\<exists>new. posted s = old @ new \<and> mset (map snd new) = through rs ts \<and> (\<forall>x \<in> set new. fst x \<in> set qs)))"

lemma through_update:
  assumes "i < length ts" "ts ! i \<noteq> Finished (Inr ())"
  shows "through rs (ts[i := t]) = (if t = Finished (Inr ()) then {# rs ! i #} else {#}) + through rs ts"
proof -
  have "(\<Sum>j\<in>{..<length ts} - {i}. if ts[i := t] ! j = Finished (Inr ()) then {# rs ! j #} else {#})
      = (\<Sum>j\<in>{..<length ts} - {i}. if ts ! j = Finished (Inr ()) then {# rs ! j #} else {#})"
    by (rule sum.cong) auto
  then show ?thesis using assms
    by (simp add: through_def sum.remove [where x = i and A = "{..<length ts}"])
qed

lemma rr_inv_step:
  assumes C: "queue_contract G posted room" and st: "rr_step G x y" and inv: "rr_inv posted qs old rs x"
  shows "rr_inv posted qs old rs y"
  using st
proof cases
  case (rr_step_thread i ts cs t1 cs1)
  obtain c s c1 s1 where cs: "cs = (c, s)" "cs1 = (c1, s1)" by (metis surj_pair)
  have i: "i < length rs" and ok: "rr_ok c" "rr_queues c = qs" and th: "thread_ok (length qs) (rs ! i) (ts ! i)"
    using inv rr_step_thread cs by (auto simp: rr_inv_def)
  have "rr_ok c1 \<and> rr_queues c1 = qs \<and> thread_ok (length qs) (rs ! i) t1 \<and>
      (\<exists>new. posted s1 = posted s @ new \<and> through rs (ts[i := t1]) = mset (map snd new) + through rs ts
         \<and> (\<forall>x \<in> set new. fst x \<in> set qs))"
  proof (cases "ts ! i")
    case (Ready r)
    then show ?thesis using rr_step_thread cs ok th through_update [of i ts rs t1]
      by (auto simp: rr_thread_step_def thread_ok_def rr_ok_def)
  next
    case (Posting r cur)
    then have cur: "cur < length (rr_queues c)" "r = rs ! i" using th ok by (auto simp: thread_ok_def)
    have "rr_thread_step G (Posting r cur) (c, s) = (t1, c1, s1)" using rr_step_thread cs Posting by simp
    from posting_step [OF C cur(1) this] show ?thesis
      using ok cur nth_mem [OF cur(1)] through_update [of i ts rs t1] rr_step_thread Posting
      by (auto simp: thread_ok_def out_of_range_def)
  next
    case (Full r cur)
    obtain res c2 s2 where sel: "select_available_queue G cur (c, s) = (res, c2, s2)" by (metis prod_cases3)
    then have t1: "t1 = (case res of Inl e \<Rightarrow> Finished (Inl e) | Inr k \<Rightarrow> Posting r k)" "c1 = c2" "s1 = s2"
      using rr_step_thread cs Full by (auto simp: rr_thread_step_def split: sum.splits)
    show ?thesis
      using select_cases [OF ok(1) sel] select_log [OF C sel] t1 ok th Full
        through_update [of i ts rs t1] rr_step_thread
      by (auto simp: thread_ok_def split: sum.splits)
  next
    case (Finished r)
    then have "t1 = ts ! i" using rr_step_thread by (simp add: rr_thread_step_def cs)
    then have "ts[i := t1] = ts" by simp
    then show ?thesis using rr_step_thread cs ok th Finished by (simp add: rr_thread_step_def)
  qed
  then show ?thesis using inv rr_step_thread i cs
    by (auto simp: rr_inv_def nth_list_update add.commute)
qed

text \<open>
  Property C36: any number of threads writing or notifying through one round-robin context, in any
  interleaving. The current queue index stays in range and no thread indexes outside the vector of
  queues; the requests accepted since the start are, as a multiset, exactly those of the threads
  that have returned (none lost, none repeated), each on a queue of the context.
\<close>

theorem round_robin_threads:
  assumes "queue_contract G posted room" "rr_ok ctx"
    and run: "rtranclp (rr_step G) (map Ready rs, ctx, s) (ts, ctx1, s1)"
  shows "rr_ok ctx1 \<and> rr_queues ctx1 = rr_queues ctx \<and> Finished (Inl out_of_range) \<notin> set ts \<and>
    (\<exists>new. posted s1 = posted s @ new
       \<and> mset (map snd new) = (\<Sum>i<length rs. if ts ! i = Finished (Inr ()) then {# rs ! i #} else {#})
       \<and> (\<forall>x \<in> set new. fst x \<in> set (rr_queues ctx)))"
proof -
  have "rr_inv posted (rr_queues ctx) (posted s) rs (map Ready rs, ctx, s)"
    using assms(2) by (simp add: rr_inv_def thread_ok_def through_def)
  with run have inv: "rr_inv posted (rr_queues ctx) (posted s) rs (ts, ctx1, s1)"
    by (rule rtranclp_induct) (use rr_inv_step [OF assms(1)] in blast)+
  then have "Finished (Inl out_of_range) \<notin> set ts"
    by (force simp: rr_inv_def thread_ok_def in_set_conv_nth)
  with inv show ?thesis by (auto simp: rr_inv_def through_def)
qed

section \<open>The check of the source range\<close>

lemma unat_add_wrap: "unat ((a :: u64) + b) =
    (if unat a + unat b < 18446744073709551616 then unat a + unat b
     else unat a + unat b - 18446744073709551616)"
  by (simp add: unat_plus_if')


section \<open>Witnesses\<close>

text \<open>A library whose queues take one request each, as the state: the log and the full queues.\<close>

definition one_slot :: "((u8 \<times> request) list \<times> (u8 \<Rightarrow> bool)) gaspi_api" where
  "one_slot =
     \<lparr>gaspi_error_str = (\<lambda>_. ''error''),
      gaspi_queue_create = (\<lambda>_ s. ((GASPI_SUCCESS, 0), s)),
      gaspi_queue_delete = (\<lambda>_ s. (GASPI_SUCCESS, s)),
      gaspi_queue_num = (\<lambda>s. ((GASPI_SUCCESS, 1), s)),
      gaspi_queue_max = (\<lambda>s. ((GASPI_SUCCESS, 16), s)),
      gaspi_wait = (\<lambda>q _ s. (GASPI_SUCCESS, (fst s, (snd s)(q := False)))),
      gaspi_post = (\<lambda>r q _ s. if snd s q then (GASPI_QUEUE_FULL, s)
                                else (GASPI_SUCCESS, (fst s @ [(q, r)], (snd s)(q := True)))),
      gaspi_notify_waitsome = (\<lambda>_ n _ _ s. ((GASPI_SUCCESS, n), s)),
      gaspi_notify_reset = (\<lambda>_ _ s. ((GASPI_SUCCESS, 1), s))\<rparr>"

lemma one_slot_contract: "queue_contract one_slot fst (\<lambda>s q. \<not> snd s q)"
  by (auto simp: queue_contract_def one_slot_def split: if_splits)

lemma one_slot_fault_free: "fault_free one_slot"
  by (simp add: fault_free_def one_slot_def)

definition demo_buffer :: "u16 \<Rightarrow> u64 \<Rightarrow> buffer_description" where
  "demo_buffer rank offset = \<lparr>bd_rank = rank, bd_segmentId = 1, bd_offset = offset, bd_size = 64,
     bd_notificationId = 5\<rparr>"

lemma single_queue_write_witness:
  "\<exists>s1. sq_writePart one_slot 3 (demo_buffer 0 128) (demo_buffer 1 0) 32 16 ([], \<lambda>_. True) = Some (Inr (), s1)
     \<and> fst s1 = [(3, WriteNotify 1 144 1 1 0 32 5 1)]"
  using single_queue_write [OF one_slot_contract, where q = 3 and source = "demo_buffer 0 128" and
      target = "demo_buffer 1 0" and sz = 32 and offset = 16 and s = "([], \<lambda>_. True)"] one_slot_fault_free
  by (auto simp: demo_buffer_def write_request_def word_less_nat_alt)

lemma round_robin_write_witness:
  "\<exists>ctx1 s1 q. rr_writePart one_slot (demo_buffer 0 128) (demo_buffer 1 0) 0 16
      (\<lparr>rr_queues = [3, 4], rr_index = 1\<rparr>, [], \<lambda>_. True) = Some (Inr (), ctx1, s1)
     \<and> fst s1 = [(q, Notify 1 1 5 1)] \<and> (q = 3 \<or> q = 4)"
  using round_robin_write [OF one_slot_contract, where ctx = "\<lparr>rr_queues = [3, 4], rr_index = 1\<rparr>" and
      source = "demo_buffer 0 128" and target = "demo_buffer 1 0" and sz = 0 and offset = 16 and
      s = "([], \<lambda>_. True)"] one_slot_fault_free
  by (auto simp: demo_buffer_def notify_request_def rr_ok_def)

lemma round_robin_threads_witness:
  "\<exists>ts ctx1 s1. rtranclp (rr_step one_slot)
       ([Ready (Notify 1 1 5 1)], \<lparr>rr_queues = [3, 4], rr_index = 1\<rparr>, [], \<lambda>_. False) (ts, ctx1, s1)
     \<and> ts = [Finished (Inr ())] \<and> fst s1 = [(4, Notify 1 1 5 1)] \<and> rr_ok ctx1"
proof -
  let ?c = "\<lparr>rr_queues = [3, 4], rr_index = 1\<rparr>" and ?r = "Notify 1 1 5 1"
  have 1: "rr_step one_slot ([Ready ?r], ?c, [], \<lambda>_. False) ([Posting ?r 1], ?c, [], \<lambda>_. False)"
    using rr_step_thread [of 0 "[Ready ?r]" one_slot "(?c, [], \<lambda>_. False)"]
    by (simp add: rr_thread_step_def)
  have 2: "rr_step one_slot ([Posting ?r 1], ?c, [], \<lambda>_. False)
      ([Finished (Inr ())], ?c, [(4, ?r)], (\<lambda>_. False)(4 := True))"
    using rr_step_thread [of 0 "[Posting ?r 1]" one_slot "(?c, [], \<lambda>_. False)"]
    by (simp add: rr_thread_step_def one_slot_def)
  from 1 2 have run: "rtranclp (rr_step one_slot) (map Ready [?r], ?c, [], \<lambda>_. False)
      ([Finished (Inr ())], ?c, [(4, ?r)], (\<lambda>_. False)(4 := True))"
    by (simp add: rtranclp.rtrancl_into_rtrancl r_into_rtranclp)
  have "rr_ok ?c" by (simp add: rr_ok_def)
  from round_robin_threads [OF one_slot_contract this run] run show ?thesis by fastforce
qed


end
