(* ===== verification/Segment_Props.thy ===== *)
theory Segment_Props
  imports Segments
begin

text \<open>
  The promise of a segment pool, "a reference to a segment that has at least \<open>size\<close> bytes of
  memory available": kept by \<open>DynamicSegmentPool::getSegment\<close> when calls do not overlap, and
  broken by an interleaving of its unsynchronised adjustment of \<open>_sizePerSegment\<close>.
\<close>

section \<open>The contract of GASPI segments\<close>

text \<open>
  \<open>seg_info s id\<close> is the base address and size of the allocated segment \<open>id\<close>. A successful
  allocation gives the segment the requested size, inside the address space; no other call
  changes it; the two queries return it.
\<close>

definition segment_contract :: "'s segment_api \<Rightarrow> ('s \<Rightarrow> u8 \<Rightarrow> (u64 \<times> u64) option) \<Rightarrow> bool" where
  "segment_contract G seg_info \<longleftrightarrow>
     (\<forall>i sz s s1. gaspi_segment_alloc G i sz s = (GASPI_SUCCESS, s1) \<longrightarrow>
        (\<exists>base. seg_info s1 i = Some (base, sz) \<and> 0 < unat base \<and> unat base + unat sz \<le> 2 ^ 64)) \<and>
     (\<forall>s r s1. gaspi_proc_rank G s = (r, s1) \<longrightarrow> seg_info s1 = seg_info s) \<and>
     (\<forall>i k t s r s1. gaspi_segment_register G i k t s = (r, s1) \<longrightarrow> seg_info s1 = seg_info s) \<and>
     (\<forall>s r s1. gaspi_notification_num G s = (r, s1) \<longrightarrow> seg_info s1 = seg_info s) \<and>
     (\<forall>i s p s1. gaspi_segment_ptr G i s = ((GASPI_SUCCESS, p), s1) \<longrightarrow>
        seg_info s1 = seg_info s \<and> (\<forall>base sz. seg_info s i = Some (base, sz) \<longrightarrow> p = base)) \<and>
     (\<forall>i k s z s1. gaspi_segment_size G i k s = ((GASPI_SUCCESS, z), s1) \<longrightarrow>
        seg_info s1 = seg_info s \<and> (\<forall>base sz. seg_info s i = Some (base, sz) \<longrightarrow> z = sz))"

lemma checked_Inr: "gaspi_checked G call s = (Inr u, s1) \<Longrightarrow> call s = (GASPI_SUCCESS, s1)"
  by (auto simp: gaspi_checked_eq split: prod.splits if_splits)

lemma checked_out_Inr: "gaspi_checked_out G call s = (Inr a, s1) \<Longrightarrow> call s = ((GASPI_SUCCESS, a), s1)"
  by (auto simp: gaspi_checked_out_eq split: prod.splits if_splits)

lemma sr_construct_id_info:
  assumes C: "segment_contract G seg_info" and c: "sr_construct_id G i sz s = (Inr R, s1)"
  shows "sr_segmentId R = i \<and> (\<exists>base. seg_info s1 (ucast i) = Some (base, sz) \<and> 0 < unat base
           \<and> unat base + unat sz \<le> 2 ^ 64)"
proof -
  obtain s2 s3 rank where
    1: "gaspi_segment_alloc G (ucast i) sz s = (GASPI_SUCCESS, s2)" and
    2: "gaspi_proc_rank G s2 = ((GASPI_SUCCESS, rank), s3)" and
    3: "gaspi_segment_register G (ucast i) rank GASPI_BLOCK s3 = (GASPI_SUCCESS, s1)" and
    R: "R = \<lparr>sr_segmentId = i, sr_contains_valid_segment = True\<rparr>"
    using c by (auto simp: sr_construct_id_def Let_def act_bind_eq_Inr remoteRegistration_def
        dest!: checked_Inr checked_out_Inr)
  from C 2 3 have "seg_info s1 = seg_info s2" unfolding segment_contract_def by metis
  with C 1 R show ?thesis unfolding segment_contract_def by auto
qed

lemma sm_construct_info:
  assumes C: "segment_contract G seg_info" and c: "sm_construct G i s = (Inr M, s1)"
    and "seg_info s (ucast i) = Some (base, sz)"
  shows "sm_memoryManager M = mm_construct base sz"
proof -
  obtain p s2 r s3 z s4 where
    1: "gaspi_segment_ptr G (ucast i) s = ((GASPI_SUCCESS, p), s2)" and
    2: "gaspi_proc_rank G s2 = ((GASPI_SUCCESS, r), s3)" and
    3: "gaspi_segment_size G (ucast i) r s3 = ((GASPI_SUCCESS, z), s4)" and
    M: "sm_memoryManager M = mm_construct p z"
    using c by (auto simp: sm_construct_def getSegmentPtr_def getSegmentSize_def act_bind_eq_Inr
        dest!: checked_out_Inr)
  from C 1 2 3 assms(3) have "p = base" "z = sz" unfolding segment_contract_def by metis+
  with M show ?thesis by simp
qed

lemma segment_construct_memory:
  assumes C: "segment_contract G seg_info" and c: "segment_construct G sz s = (Inr S, s1)"
  shows "\<exists>base. sm_memoryManager (sg_manager S) = mm_construct base sz \<and> 0 < unat base
           \<and> unat base + unat sz \<le> 2 ^ 64"
proof -
  obtain i s2 R s3 where
    1: "sr_construct_id G i sz s2 = (Inr R, s3)" and
    2: "sm_construct G (sr_segmentId R) s3 = (Inr (sg_manager S), s1)"
    using c by (auto simp: segment_construct_def sr_construct_def segment_manage_def act_on_error_def
        act_bind_eq_Inr act_bind_apply split: sum.splits prod.splits)
  from sr_construct_id_info [OF C 1] sm_construct_info [OF C 2] show ?thesis by auto
qed

lemma fresh_free: "mm_canAllocate n (mm_construct base sz) \<longleftrightarrow> n \<le> sz"
  by (auto simp: mm_canAllocate_def mm_construct_def)

lemma segment_construct_free:
  assumes "segment_contract G seg_info" "segment_construct G sz s = (Inr S, s1)"
  shows "hasFreeMemory (sg_manager S) n \<longleftrightarrow> n \<le> sz"
  using segment_construct_memory [OF assms] by (auto simp: hasFreeMemory_def fresh_free)

lemma hasFreeMemory_allocate:
  "hasFreeMemory M n \<longleftrightarrow> (\<exists>p M'. allocator_allocate 1 n M = (Inr p, M'))"
  by (auto simp: hasFreeMemory_def allocator_allocate_def mm_canAllocate_def mm_allocate_def
      any_fits_first_fit split: option.splits)

section \<open>The search\<close>

lemma find_if_Some: "find_if P xs = Some i \<longleftrightarrow> i < length xs \<and> P (xs ! i) \<and> (\<forall>j < i. \<not> P (xs ! j))"
proof (induction xs arbitrary: i)
  case (Cons x xs)
  then show ?case by (cases i) (auto simp: less_Suc_eq_0_disj all_conj_distrib)
qed simp

lemma find_if_None: "find_if P xs = None \<longleftrightarrow> (\<forall>x \<in> set xs. \<not> P x)"
  by (induction xs) auto

section \<open>Calls that do not overlap\<close>

definition dp_ok :: "segment_pool \<Rightarrow> bool" where
  "dp_ok P \<longleftrightarrow> dp_maxSegmentSize P = 4 * 1024 * 1024 * 1024 \<and> dp_sizePerSegment P \<le> dp_maxSegmentSize P"

lemma dp_construct_ok: "dp_construct sz = Inr P \<Longrightarrow> dp_ok P \<and> dp_segments P = []"
  by (auto simp: dp_construct_def dp_ok_def Let_def split: if_splits)

text \<open>
  \<open>DynamicSegmentPool::getSegment\<close> refines the abstract promise of a segment pool.
  A request above 4 GiB throws and changes nothing. Otherwise the result is a position in the
  pool's list at which a segment stands whose allocator will grant \<open>size\<close> bytes: the first such
  segment if there was one, in an unchanged list, else a new one put in front of the list; or the
  creation of the new segment threw, and the list is unchanged. The size of the next segment
  never exceeds the maximum.
\<close>

lemma dynamic_pool_getSegment:
  assumes C: "segment_contract G seg_info"
    and pow: "\<And>n. n \<le> 4 * 1024 * 1024 * 1024 \<Longrightarrow> n \<le> pow2_up n"
    and ok: "dp_ok P"
    and get: "dp_getSegment G pow2_up sz (P, s) = (r, P1, s1)"
  shows "dp_ok P1 \<and>
    (if sz > 4 * 1024 * 1024 * 1024 then (\<exists>e. r = Inl (RuntimeError e)) \<and> P1 = P \<and> s1 = s
     else case r of
         Inl e \<Rightarrow> dp_segments P1 = dp_segments P
       | Inr i \<Rightarrow>
           i < length (dp_segments P1) \<and>
           (\<exists>p M. allocator_allocate 1 sz (sg_manager (dp_segments P1 ! i)) = (Inr p, M)) \<and>
           (dp_segments P1 = dp_segments P \<and> s1 = s
              \<and> (\<forall>j < i. \<not> hasFreeMemory (sg_manager (dp_segments P ! j)) sz)
            \<or> i = 0 \<and> tl (dp_segments P1) = dp_segments P
              \<and> (\<forall>S \<in> set (dp_segments P). \<not> hasFreeMemory (sg_manager S) sz)))"
proof (cases "sz > 4 * 1024 * 1024 * 1024")
  case True
  then show ?thesis using ok get by (auto simp: dp_getSegment_def dp_ok_def)
next
  case False
  define P2 where "P2 = (if sz > dp_sizePerSegment P then dp_clamp (dp_adjust pow2_up sz P) else P)"
  have P2: "dp_ok P2" "dp_segments P2 = dp_segments P" "sz \<le> dp_sizePerSegment P2"
    using ok pow [of sz] False by (auto simp: P2_def dp_ok_def dp_clamp_def dp_adjust_def not_less min_def)
  have f: "dp_find G sz (P2, s) = (r, P1, s1)"
    using get False ok by (simp add: dp_getSegment_def P2_def dp_ok_def Let_def)
  show ?thesis
  proof (cases "find_if (\<lambda>S. hasFreeMemory (sg_manager S) sz) (dp_segments P)")
    case (Some i)
    with f P2 have "r = Inr i" "P1 = P2" "s1 = s" by (simp_all add: dp_find_def)
    with Some P2 False show ?thesis by (auto simp: find_if_Some hasFreeMemory_allocate)
  next
    case None
    obtain r3 s3 where c: "segment_construct G (dp_sizePerSegment P2) s = (r3, s3)" by force
    show ?thesis
    proof (cases r3)
      case (Inl e)
      with f None P2 c False show ?thesis by (auto simp: dp_find_def)
    next
      case (Inr S)
      then have "hasFreeMemory (sg_manager S) sz"
        using segment_construct_free [OF C, of "dp_sizePerSegment P2" s S s3] c P2 by simp
      then have "\<exists>p M. allocator_allocate 1 sz (sg_manager S) = (Inr p, M)"
        by (simp add: hasFreeMemory_allocate)
      moreover have "r = Inr 0" "P1 = P2\<lparr>dp_segments := S # dp_segments P\<rparr>" "s1 = s3"
        using f None P2 c Inr by (simp_all add: dp_find_def)
      ultimately show ?thesis using None P2 False
        by (auto simp: find_if_None dp_ok_def)
    qed
  qed
qed

section \<open>Calls that overlap\<close>

lemma pool_step_then:
  assumes "i < length ts" "pool_thread_step G pow2_up (ts ! i) cs = (t', cs')"
    and "rtranclp (pool_step G pow2_up) (ts[i := t'], cs') z"
  shows "rtranclp (pool_step G pow2_up) (ts, cs) z"
  using pool_step_thread [OF assms(1,2)] assms(3) by (rule converse_rtranclp_into_rtranclp)

text \<open>
  With two threads in \<open>getSegment\<close> the promise is broken. From a fresh pool of 1 MiB
  segments, one thread asking for 3 MiB and one for 2 MiB, there is an interleaving, with no
  GASPI call failing, in which the first thread is given a segment of 2 MiB, whose allocator
  refuses its request.
\<close>

theorem dynamic_pool_race:
  assumes C: "segment_contract G seg_info"
    and new: "segment_construct G (2 * 1024 * 1024) s = (Inr S, s1)"
    and pow: "pow2_up (3 * 1024 * 1024) = 4 * 1024 * 1024" "pow2_up (2 * 1024 * 1024) = 2 * 1024 * 1024"
    and P: "dp_construct_default = Inr P"
  shows "\<exists>t P1. rtranclp (pool_step G pow2_up) ([Entering (3 * 1024 * 1024), Entering (2 * 1024 * 1024)], P, s)
       ([Returned (3 * 1024 * 1024) (Inr 0), t], P1, s1)
     \<and> dp_segments P1 = [S] \<and> \<not> hasFreeMemory (sg_manager S) (3 * 1024 * 1024)"
proof -
  let ?n3 = "3 * 1024 * 1024 :: u64" and ?n2 = "2 * 1024 * 1024 :: u64"
  let ?Q = "\<lambda>z Ss. \<lparr>dp_sizePerSegment = z, dp_maxSegmentSize = 4294967296, dp_segments = Ss\<rparr>"
  have P: "P = ?Q (1024 * 1024) []" using P by (simp add: dp_construct_default_def dp_construct_def Let_def)
  have "rtranclp (pool_step G pow2_up) ([Entering ?n3, Entering ?n2], P, s)
      ([Returned ?n3 (Inr 0), Clamping ?n2], ?Q ?n2 [S], s1)"
    unfolding P
    apply (rule pool_step_then [where i = 0 and t' = "Adjusting ?n3" and cs' = "(?Q (1024 * 1024) [], s)"])
      apply (simp_all add: pool_thread_step_def)[2]
    apply (rule pool_step_then [where i = 1 and t' = "Adjusting ?n2" and cs' = "(?Q (1024 * 1024) [], s)"])
      apply (simp_all add: pool_thread_step_def)[2]
    apply (rule pool_step_then [where i = 0 and t' = "Clamping ?n3" and cs' = "(?Q (4 * 1024 * 1024) [], s)"])
      apply (use pow in \<open>simp_all add: pool_thread_step_def dp_adjust_def\<close>)[2]
    apply (rule pool_step_then [where i = 0 and t' = "Locking ?n3" and cs' = "(?Q (4 * 1024 * 1024) [], s)"])
      apply (simp_all add: pool_thread_step_def dp_clamp_def min_def)[2]
    apply (rule pool_step_then [where i = 1 and t' = "Clamping ?n2" and cs' = "(?Q ?n2 [], s)"])
      apply (use pow in \<open>simp_all add: pool_thread_step_def dp_adjust_def\<close>)[2]
    apply (rule pool_step_then [where i = 0 and t' = "Returned ?n3 (Inr 0)" and cs' = "(?Q ?n2 [S], s1)"])
      apply (use new in \<open>simp_all add: pool_thread_step_def dp_find_def\<close>)[2]
    apply simp
    done
  moreover have "\<not> hasFreeMemory (sg_manager S) ?n3"
    using segment_construct_free [OF C new] by simp
  ultimately show ?thesis by (intro exI [of _ "Clamping ?n2"] exI [of _ "?Q ?n2 [S]"]) simp
qed

section \<open>Witnesses\<close>

text \<open>A library with one segment identifier, whose allocations all succeed at address 4096.\<close>

definition demo_segments :: "(u8 \<Rightarrow> (u64 \<times> u64) option) segment_api" where
  "demo_segments =
     \<lparr>gaspi_error_str = (\<lambda>_. ''error''),
      gaspi_queue_create = (\<lambda>_ s. ((GASPI_SUCCESS, 0), s)),
      gaspi_queue_delete = (\<lambda>_ s. (GASPI_SUCCESS, s)),
      gaspi_queue_num = (\<lambda>s. ((GASPI_SUCCESS, 1), s)),
      gaspi_queue_max = (\<lambda>s. ((GASPI_SUCCESS, 16), s)),
      gaspi_wait = (\<lambda>q _ s. (GASPI_SUCCESS, s)),
      gaspi_post = (\<lambda>r q _ s. (GASPI_SUCCESS, s)),
      gaspi_notify_waitsome = (\<lambda>_ n _ _ s. ((GASPI_SUCCESS, n), s)),
      gaspi_notify_reset = (\<lambda>_ _ s. ((GASPI_SUCCESS, 1), s)),
      gaspi_proc_rank = (\<lambda>s. ((GASPI_SUCCESS, 0), s)),
      gaspi_segment_size = (\<lambda>i _ s. case s i of None \<Rightarrow> ((GASPI_ERR 1, 0), s)
                                          | Some (base, sz) \<Rightarrow> ((GASPI_SUCCESS, sz), s)),
      gaspi_segment_ptr = (\<lambda>i s. case s i of None \<Rightarrow> ((GASPI_ERR 1, 0), s)
                                          | Some (base, sz) \<Rightarrow> ((GASPI_SUCCESS, base), s)),
      gaspi_notification_num = (\<lambda>s. ((GASPI_SUCCESS, 65536), s)),
      gaspi_segment_avail_local = (\<lambda>s. ((GASPI_SUCCESS, 7), s)),
      gaspi_segment_alloc = (\<lambda>i sz s. if unat sz \<le> 2 ^ 40 then (GASPI_SUCCESS, s(i \<mapsto> (4096, sz)))
                                       else (GASPI_ERR 2, s)),
      gaspi_segment_register = (\<lambda>_ _ _ s. (GASPI_SUCCESS, s)),
      gaspi_segment_delete = (\<lambda>i s. (GASPI_SUCCESS, s(i := None)))\<rparr>"

lemma demo_segments_contract: "segment_contract demo_segments (\<lambda>s. s)"
  by (auto simp: segment_contract_def demo_segments_def split: if_splits option.splits prod.splits)

definition demo_segment :: "u64 \<Rightarrow> segment" where
  "demo_segment sz =
     \<lparr>sg_resource = \<lparr>sr_segmentId = 7, sr_contains_valid_segment = True\<rparr>,
      sg_manager = \<lparr>sm_segmentID = 7, sm_memoryManager = mm_construct 4096 sz,
                    sm_notifyManager = nm_construct 65536\<rparr>\<rparr>"

lemma demo_segment_construct: "unat sz \<le> 2 ^ 40 \<Longrightarrow>
    segment_construct demo_segments sz s = (Inr (demo_segment sz), s(7 \<mapsto> (4096, sz)))"
  by (simp add: segment_construct_def sr_construct_def getFreeLocalSegmentId_def sr_construct_id_def
      segment_manage_def sm_construct_def getSegmentPtr_def getSegmentSize_def getNumNotificationsMax_def
      remoteRegistration_def gaspi_checked_eq gaspi_checked_out_eq act_bind_apply act_on_error_def Let_def
      demo_segments_def demo_segment_def)

lemma dynamic_pool_getSegment_witness:
  "case dp_getSegment demo_segments (\<lambda>n. 4294967296) (3 * 1024 * 1024)
      (\<lparr>dp_sizePerSegment = 1024, dp_maxSegmentSize = 4294967296, dp_segments = [demo_segment 1024]\<rparr>, Map.empty)
   of (r, P1, s1) \<Rightarrow> r = Inr 0 \<and> length (dp_segments P1) = 2 \<and> dp_ok P1 \<and>
        (\<exists>p M. allocator_allocate 1 (3 * 1024 * 1024) (sg_manager (dp_segments P1 ! 0)) = (Inr p, M))"
proof -
  let ?P = "\<lparr>dp_sizePerSegment = 1024, dp_maxSegmentSize = 4294967296, dp_segments = [demo_segment 1024]\<rparr>"
  have n: "\<not> hasFreeMemory (sg_manager (demo_segment 1024)) 3145728"
    by (simp add: hasFreeMemory_def demo_segment_def fresh_free)
  have e: "dp_getSegment demo_segments (\<lambda>n. 4294967296) 3145728 (?P, Map.empty)
      = (Inr 0, ?P\<lparr>dp_sizePerSegment := 4294967296, dp_segments := [demo_segment 4294967296, demo_segment 1024]\<rparr>,
         [7 \<mapsto> (4096, 4294967296)])"
    using n demo_segment_construct [of 4294967296 Map.empty]
    by (simp add: dp_getSegment_def dp_clamp_def dp_adjust_def dp_find_def)
  have "dp_ok ?P" by (simp add: dp_ok_def)
  from dynamic_pool_getSegment [OF demo_segments_contract _ this e] show ?thesis using e by simp
qed

lemma dynamic_pool_race_witness:
  "\<exists>t P1 s1 P. rtranclp (pool_step demo_segments (\<lambda>n. if n = 2097152 then 2097152 else 4194304))
       ([Entering (3 * 1024 * 1024), Entering (2 * 1024 * 1024)], P, Map.empty)
       ([Returned (3 * 1024 * 1024) (Inr 0), t], P1, s1)
     \<and> dp_segments P = [] \<and> dp_segments P1 = [demo_segment (2 * 1024 * 1024)]"
proof -
  have "segment_construct demo_segments (2 * 1024 * 1024) Map.empty
      = (Inr (demo_segment (2 * 1024 * 1024)), [7 \<mapsto> (4096, 2 * 1024 * 1024)])"
    by (rule demo_segment_construct) simp
  from dynamic_pool_race [OF demo_segments_contract this, where pow2_up = "\<lambda>n. if n = 2097152 then 2097152 else 4194304"]
  show ?thesis by (fastforce simp: dp_construct_default_def dp_construct_def Let_def)
qed

end
