(* ===== verification/Endpoint_Connect.thy ===== *)
theory Endpoint_Connect
  imports Buffers Segment_Props
begin

unbundle bit_operations_syntax

text \<open>
  \<open>Endpoint::connectToRemotePartner\<close> and \<open>Endpoint::ConnectHandle\<close>: two partners exchange
  the descriptions of their buffers by tagged passive messages.
\<close>

section \<open>Operations\<close>

text \<open>The two calls of the passive component, as a parameter: global rank, tag, buffer.\<close>

record 's passive_api =
  iSendTagMessg :: "u16 \<Rightarrow> u64 \<Rightarrow> buffer \<Rightarrow> ('s, unit) act"
  iRecvTagMessg :: "u16 \<Rightarrow> u64 \<Rightarrow> buffer \<Rightarrow> ('s, unit) act"

text \<open>The tags: an endpoint tag is an \<open>int\<close>, a passive tag a \<open>long\<close>.\<close>

definition connect_tags :: "EndpointType \<Rightarrow> u32 \<Rightarrow> (u64 \<times> u64) res" where
  "connect_tags type tag =
     (if sint (scast tag :: u64) \<ge> (2 ^ 63 - 1) div 3
      then Inl (RuntimeError ''tag out of bounds'')
      else let sendTag = 3 * scast tag; recvTag = 3 * scast tag
           in case type of
                SOURCE \<Rightarrow> Inr (sendTag + 1, recvTag + 2)
              | TARGET \<Rightarrow> Inr (sendTag + 2, recvTag + 1)
              | GENERIC \<Rightarrow> Inr (sendTag + 0, recvTag + 0))"

text \<open>The state: the segment with its allocations, its memory, the libraries.\<close>

type_synonym 's cstate = "bworld \<times> mem \<times> 's"

definition at_world :: "(bworld, 'a) act \<Rightarrow> ('s cstate, 'a) act" where
  "at_world m = (\<lambda>(w, ms). case m w of (r, w1) \<Rightarrow> (r, w1, ms))"

definition at_lib :: "(bworld \<Rightarrow> ('s, 'a) act) \<Rightarrow> ('s cstate, 'a) act" where
  "at_lib m = (\<lambda>(w, mm, s). case m w s of (r, s1) \<Rightarrow> (r, w, mm, s1))"

definition at_result :: "'a res \<Rightarrow> ('s, 'a) act" where
  "at_result r = (\<lambda>s. (r, s))"

definition write_description :: "u64 \<Rightarrow> buffer_description \<Rightarrow> ('s cstate, unit) act" where
  "write_description address desc =
     (\<lambda>(w, mm, s). case bd_ser mm (unat address) desc of (mm1, n) \<Rightarrow> (Inr (), w, mm1, s))"

record connect_handle =
  ch_pSendBuffer :: buffer
  ch_pRecvBuffer :: buffer

definition connectToRemotePartner ::
    "'s segment_api \<Rightarrow> 's passive_api \<Rightarrow> group \<Rightarrow> rank \<Rightarrow> u32 \<Rightarrow> endpoint_buffer \<Rightarrow> ('s cstate, connect_handle) act" where
  "connectToRemotePartner G Pa g r tag e =
     (if \<not> contains_rank g r
      then act_throw (LogicError ''`group` does not contain `rank`'')
      else act_bind (at_result (connect_tags (ep_type e) tag)) (\<lambda>(sendTag, recvTag).
           act_bind (at_result (toGlobalRank g r)) (\<lambda>global_rank.
           act_bind (at_lib (\<lambda>w. remoteRegistration G (sg_resource (bw_segment w)) global_rank)) (\<lambda>_.
           act_bind (at_world (bf_construct (of_nat (bd_ssize (ep_pLocalBufferDesc e))))) (\<lambda>pSendBuffer.
           act_on_error
             (act_bind (write_description (bf_address pSendBuffer) (ep_pLocalBufferDesc e)) (\<lambda>_.
              act_bind (at_lib (\<lambda>_. iSendTagMessg Pa global_rank sendTag pSendBuffer)) (\<lambda>_.
              act_bind (at_world (bf_construct (of_nat (bd_ssize (ep_pOtherBufferDesc e))))) (\<lambda>pRecvBuffer.
              act_on_error
                (act_bind (at_lib (\<lambda>_. iRecvTagMessg Pa global_rank recvTag pRecvBuffer)) (\<lambda>_.
                 act_return \<lparr>ch_pSendBuffer = pSendBuffer, ch_pRecvBuffer = pRecvBuffer\<rparr>))
                (at_world (bf_destroy pRecvBuffer))))))
             (at_world (bf_destroy pSendBuffer)))))))"

text \<open>\<open>ConnectHandle::waitForCompletion\<close>: the endpoint is changed even if the last wait throws.\<close>

definition ch_waitForCompletion ::
    "'s segment_api \<Rightarrow> connect_handle \<Rightarrow> endpoint_buffer \<Rightarrow> 's cstate \<Rightarrow> unit res \<times> endpoint_buffer \<times> 's cstate" where
  "ch_waitForCompletion G h e = (\<lambda>(w, mm, s).
     case bf_waitForNotification G (bw_segment w) (ch_pRecvBuffer h) s of
       (Inl ex, s1) \<Rightarrow> (Inl ex, e, w, mm, s1)
     | (Inr received, s1) \<Rightarrow>
         if \<not> received then (Inl (RuntimeError ''Unexpected behavior''), e, w, mm, s1)
         else (case bd_des mm (unat (bf_address (ch_pRecvBuffer h))) of
                 (remotePartnerDescription, n) \<Rightarrow>
                   (case bf_waitForNotification G (bw_segment w) (ch_pSendBuffer h) s1 of
                      (Inl ex, s2) \<Rightarrow> (Inl ex, setRemotePartner remotePartnerDescription e, w, mm, s2)
                    | (Inr sent, s2) \<Rightarrow>
                        ((if \<not> sent then Inl (RuntimeError ''Unexpected behavior'') else Inr ()),
                         setRemotePartner remotePartnerDescription e, w, mm, s2))))"

text \<open>The destructor of the handle: \<open>_pRecvBuffer\<close> is destroyed before \<open>_pSendBuffer\<close>.\<close>

definition ch_destroy :: "connect_handle \<Rightarrow> (bworld, unit) act" where
  "ch_destroy h = act_bind (bf_destroy (ch_pRecvBuffer h)) (\<lambda>_. bf_destroy (ch_pSendBuffer h))"

section \<open>The tags\<close>

definition complementary :: "EndpointType \<Rightarrow> EndpointType \<Rightarrow> bool" where
  "complementary t u \<longleftrightarrow> (t = SOURCE \<and> u = TARGET) \<or> (t = TARGET \<and> u = SOURCE) \<or> (t = GENERIC \<and> u = GENERIC)"

lemma sint_scast_tag: "sint (scast (tag :: u32) :: u64) = sint tag"
  by (simp add: sint_up_scast is_up)

lemma sint_tag_bounds: "- 2147483648 \<le> sint (tag :: u32) \<and> sint tag < 2147483648"
  using sint_ge [of tag] sint_lt [of tag] by simp

lemma tag_in_bounds: "\<not> sint (scast (tag :: u32) :: u64) \<ge> (2 ^ 63 - 1) div 3"
  using sint_tag_bounds [of tag] by (simp add: sint_scast_tag)

definition tag_number :: "u32 \<Rightarrow> nat \<Rightarrow> int" where
  "tag_number tag k = 3 * sint tag + int k"

lemma sint_tag: "k < 3 \<Longrightarrow> sint (3 * scast (tag :: u32) + of_nat k :: u64) = tag_number tag k"
proof -
  assume k: "k < 3"
  have b: "- (2 ^ (LENGTH(64) - 1)) \<le> 3 * sint tag + int k" "3 * sint tag + int k < 2 ^ (LENGTH(64) - 1)"
    using sint_tag_bounds [of tag] k by auto
  have "(scast tag :: u64) = of_int (sint tag)" by transfer simp
  then have "3 * scast tag + of_nat k = (of_int (3 * sint tag + int k) :: u64)"
    by (simp only: of_int_add of_int_mult of_int_numeral of_int_of_nat_eq)
  then show ?thesis
    using sint_sbintrunc' [of "3 * sint tag + int k", where 'a = 64] signed_take_bit_int_eq_self [OF b]
    by (simp only: tag_number_def)
qed

fun send_slot :: "EndpointType \<Rightarrow> nat" where
  "send_slot SOURCE = 1" | "send_slot TARGET = 2" | "send_slot GENERIC = 0"

fun recv_slot :: "EndpointType \<Rightarrow> nat" where
  "recv_slot SOURCE = 2" | "recv_slot TARGET = 1" | "recv_slot GENERIC = 0"

lemma slot_bounds [simp]: "send_slot t < 3" "recv_slot t < 3"
  by (cases t; simp)+

lemma slots_meet: "send_slot t = recv_slot u \<longleftrightarrow> complementary t u"
  by (cases t; cases u) (simp_all add: complementary_def)

lemma connect_tags_eq: "connect_tags t tag =
    Inr (3 * scast tag + of_nat (send_slot t), 3 * scast tag + of_nat (recv_slot t))"
  unfolding connect_tags_def if_not_P [OF tag_in_bounds] by (cases t) (simp_all add: Let_def)

lemma sint_inject: "sint (a :: 'a::len word) = sint b \<longleftrightarrow> a = b"
  by (auto intro: signed_word_eqI)

lemma tag_number_inj: "k < 3 \<Longrightarrow> l < 3 \<Longrightarrow> tag_number a k = tag_number b l \<longleftrightarrow> a = b \<and> k = l"
proof -
  assume "k < 3" "l < 3"
  then have "tag_number a k = tag_number b l \<longleftrightarrow> sint a = sint b \<and> k = l"
    unfolding tag_number_def by presburger
  then show ?thesis by (simp add: sint_inject)
qed

lemma tags_meet: "3 * scast (a :: u32) + of_nat (send_slot t) = (3 * scast (b :: u32) + of_nat (recv_slot u) :: u64)
    \<longleftrightarrow> a = b \<and> complementary t u"
proof -
  have "3 * scast a + of_nat (send_slot t) = (3 * scast b + of_nat (recv_slot u) :: u64)
      \<longleftrightarrow> tag_number a (send_slot t) = tag_number b (recv_slot u)"
    unfolding sint_tag [OF slot_bounds(1), symmetric] sint_tag [OF slot_bounds(2), symmetric]
    by (simp only: sint_inject)
  then show ?thesis by (simp add: tag_number_inj slots_meet)
qed

text \<open>
  Property C38: the tags of the connection messages. No \<open>int\<close> tag is out of bounds, and the
  message of one endpoint carries the tag another endpoint waits for if and only if both were
  given the same tag and their types are complementary (a source and a target, or two generic
  endpoints), also for negative tags.
\<close>

theorem endpoint_tags:
  "\<exists>sendTag recvTag. connect_tags type tag = Inr (sendTag, recvTag) \<and>
     (\<forall>type' tag'. \<exists>sendTag' recvTag'. connect_tags type' tag' = Inr (sendTag', recvTag') \<and>
        (sendTag = recvTag' \<longleftrightarrow> tag = tag' \<and> complementary type type'))"
  unfolding connect_tags_eq sum.inject prod.inject using tags_meet by blast

section \<open>The exchange\<close>

lemma connect_sends:
  assumes "connectToRemotePartner G Pa g r tag e (w, m, s) = (Inr h, w1, m1, s1)"
  shows "load m1 (unat (bf_address (ch_pSendBuffer h))) 23 = bd_enc (ep_pLocalBufferDesc e)"
proof -
  have "\<exists>m0. m1 = memcpy m0 (unat (bf_address (ch_pSendBuffer h))) (bd_enc (ep_pLocalBufferDesc e))"
    using assms
    by (auto simp: connectToRemotePartner_def act_bind_eq_Inr at_world_def at_lib_def at_result_def
        act_on_error_def act_bind_apply write_description_def bd_ser_enc bf_address_def
        split: if_splits prod.splits sum.splits)
  then show ?thesis using load_memcpy [where bs = "bd_enc (ep_pLocalBufferDesc e)"] by auto
qed

text \<open>
  After one partner has connected, and the 23 bytes at its send buffer have been
  delivered to the other partner's receive buffer, the other's \<open>waitForCompletion\<close> makes exactly
  the first partner's local description the remote description of its endpoint, marks it as
  connected and changes nothing else of it; a rank outside the group is rejected before anything
  is acquired or sent.
\<close>

theorem endpoint_exchange:
  assumes "connectToRemotePartner G Pa g r tag eA (wA, mA, sA) = (Inr hA, wA1, mA1, sA1)"
    and "load mB (unat (bf_address (ch_pRecvBuffer hB))) 23 = load mA1 (unat (bf_address (ch_pSendBuffer hA))) 23"
    and "bf_waitForNotification G (bw_segment wB) (ch_pRecvBuffer hB) sB = (Inr True, sB1)"
    and "bf_waitForNotification G (bw_segment wB) (ch_pSendBuffer hB) sB1 = (Inr True, sB2)"
  shows "ch_waitForCompletion G hB eB (wB, mB, sB) =
       (Inr (), eB\<lparr>ep_pOtherBufferDesc := ep_pLocalBufferDesc eA, ep_isConnected := True\<rparr>, wB, mB, sB2)
    \<and> contains_rank g r
    \<and> (\<forall>r'. \<not> contains_rank g r' \<longrightarrow> (\<exists>e. connectToRemotePartner G Pa g r' tag eA (wA, mA, sA)
           = (Inl (LogicError e), wA, mA, sA)))"
proof (intro conjI allI impI)
  have "load mB (unat (bf_address (ch_pRecvBuffer hB))) 23 = bd_enc (ep_pLocalBufferDesc eA)"
    using connect_sends [OF assms(1)] assms(2) by simp
  then have "bd_des mB (unat (bf_address (ch_pRecvBuffer hB))) = (ep_pLocalBufferDesc eA, 23)"
    by (rule bd_des_enc)
  then show "ch_waitForCompletion G hB eB (wB, mB, sB) =
       (Inr (), eB\<lparr>ep_pOtherBufferDesc := ep_pLocalBufferDesc eA, ep_isConnected := True\<rparr>, wB, mB, sB2)"
    using assms(3,4) by (simp add: ch_waitForCompletion_def setRemotePartner_def)
  show "contains_rank g r"
    using assms(1) by (simp add: connectToRemotePartner_def split: if_splits)
  show "\<exists>e. connectToRemotePartner G Pa g r' tag eA (wA, mA, sA) = (Inl (LogicError e), wA, mA, sA)"
    if "\<not> contains_rank g r'" for r'
    using that by (simp add: connectToRemotePartner_def)
qed

definition demo_world :: bworld where
  "demo_world = \<lparr>bw_segment = demo_segment 1024, bw_allocs = []\<rparr>"

definition demo_endpoint :: "EndpointType \<Rightarrow> endpoint_buffer" where
  "demo_endpoint type =
     \<lparr>bf_allocMemory = None, bf_allocNotify = None, bf_pointer = 4608, bf_size = 64, bf_notification = 9,
      ep_type = type,
      ep_pLocalBufferDesc = \<lparr>bd_rank = 0, bd_segmentId = 7, bd_offset = 512, bd_size = 64, bd_notificationId = 9\<rparr>,
      ep_pOtherBufferDesc = bd_default, ep_isConnected = False\<rparr>"

definition demo_passive :: "'s passive_api" where
  "demo_passive = \<lparr>iSendTagMessg = (\<lambda>_ _ _. act_return ()), iRecvTagMessg = (\<lambda>_ _ _. act_return ())\<rparr>"

lemma demo_connect:
  "\<exists>h w m. connectToRemotePartner demo_segments demo_passive \<lparr>g_ranks = [0, 1], g_rank = Rank 0\<rparr> (Rank 1) 4
      (demo_endpoint SOURCE) (demo_world, \<lambda>_. 0, Map.empty) = (Inr h, w, m, Map.empty)"
  by (simp add: connectToRemotePartner_def contains_rank_def less_rank_def word_less_nat_alt g_size_def toGlobalRank_def connect_tags_eq
      at_result_def act_bind_apply at_lib_def at_world_def remoteRegistration_def gaspi_checked_eq
      demo_segments_def demo_world_def demo_segment_def demo_endpoint_def demo_passive_def bf_construct_def
      memory_allocation_def on_manager_def allocator_allocate_def mm_allocate_def mm_construct_def
      notify_allocation_def acquire_notification_def nm_allocate_def nm_construct_def act_on_error_def
      write_description_def bd_ser_enc bd_ssize_def short_c.size_enc char_c.size_enc long_c.size_enc
      int_c.size_enc)

lemma demo_wait: "bf_waitForNotification demo_segments S b s = (Inr True, s)"
  by (simp add: bf_waitForNotification_def demo_segments_def act_bind_apply gaspi_checked_out_eq)

lemma endpoint_exchange_witness:
  "\<exists>h m. ch_waitForCompletion demo_segments h (demo_endpoint TARGET) (demo_world, m, Map.empty) =
      (Inr (), (demo_endpoint TARGET)\<lparr>ep_pOtherBufferDesc := ep_pLocalBufferDesc (demo_endpoint SOURCE),
          ep_isConnected := True\<rparr>, demo_world, m, Map.empty)"
proof -
  obtain h w m where c: "connectToRemotePartner demo_segments demo_passive \<lparr>g_ranks = [0, 1], g_rank = Rank 0\<rparr>
      (Rank 1) 4 (demo_endpoint SOURCE) (demo_world, \<lambda>_. 0, Map.empty) = (Inr h, w, m, Map.empty)"
    using demo_connect by blast
  let ?h = "h\<lparr>ch_pRecvBuffer := ch_pSendBuffer h\<rparr>"
  have "load m (unat (bf_address (ch_pRecvBuffer ?h))) 23 = load m (unat (bf_address (ch_pSendBuffer h))) 23"
    by simp
  from endpoint_exchange [OF c this demo_wait demo_wait, of "demo_endpoint TARGET" demo_world Map.empty]
  show ?thesis by blast
qed

end
