(* ===== verification/Passive.thy ===== *)
theory Passive
  imports Endpoint_Connect
begin

unbundle bit_operations_syntax

text \<open>
  \<open>passive/Passive\<close>: messages between processes without a prior connection.  A message is a
  frame of tag, size and payload; tagged buffers of sender and receiver meet in two maps; a data
  message is handed by the passive thread to the thread in \<open>recvMessg\<close>.
\<close>

section \<open>Interfaces and state\<close>

text \<open>The communication context the component was given.\<close>

record 's context_api =
  cx_write :: "buffer_description \<Rightarrow> buffer_description \<Rightarrow> ('s, unit) act"
  cx_notify :: "buffer_description \<Rightarrow> ('s, unit) act"
  cx_flush :: "('s, unit) act"

text \<open>
  \<open>gaspi_passive_send\<close> reads the segment's memory: the bytes at the given offset are passed with
  the call.  \<open>gaspi_passive_receive\<close> writes there: it returns the bytes it writes.  So do the
  one-sided writes of other processes: \<open>gaspi_segment_memory\<close> is the memory with those that a process
  sees when a wait for a notification has returned.
\<close>

record 's passive_gaspi = "'s segment_api" +
  gaspi_passive_send :: "u8 \<Rightarrow> u64 \<Rightarrow> u16 \<Rightarrow> u64 \<Rightarrow> gaspi_timeout \<Rightarrow> u8 list \<Rightarrow> 's \<Rightarrow> gaspi_return \<times> 's"
  gaspi_passive_receive :: "u8 \<Rightarrow> u64 \<Rightarrow> u64 \<Rightarrow> gaspi_timeout \<Rightarrow> 's \<Rightarrow> (gaspi_return \<times> u16 \<times> u8 list) \<times> 's"
  gaspi_segment_memory :: "mem \<Rightarrow> 's \<Rightarrow> mem"

type_synonym key = "u64 \<times> u32"

record 's pstate =
  pv_world :: bworld
  pv_mem :: mem
  pv_srcTargetBuffers :: "key \<Rightarrow> buffer_description option"
  pv_rcvTargetBuffers :: "key \<Rightarrow> buffer_description option"
  pv_msg_size :: u32
  pv_msg_rank :: u32
  pv_msg_ptr :: "buffer option"
  pv_lib :: 's

definition with_world :: "(bworld, 'a) act \<Rightarrow> ('s pstate, 'a) act" where
  "with_world m = (\<lambda>p. case m (pv_world p) of (r, w) \<Rightarrow> (r, p\<lparr>pv_world := w\<rparr>))"

definition with_lib :: "('s pstate \<Rightarrow> ('s, 'a) act) \<Rightarrow> ('s pstate, 'a) act" where
  "with_lib m = (\<lambda>p. case m p (pv_lib p) of (r, s) \<Rightarrow> (r, p\<lparr>pv_lib := s\<rparr>))"

definition store :: "u64 \<Rightarrow> u8 list \<Rightarrow> ('s pstate, unit) act" where
  "store address bs = (\<lambda>p. (Inr (), p\<lparr>pv_mem := memcpy (pv_mem p) (unat address) bs\<rparr>))"

definition fetch :: "u64 \<Rightarrow> nat \<Rightarrow> ('s pstate, u8 list) act" where
  "fetch address n = (\<lambda>p. (Inr (load (pv_mem p) (unat address) n), p))"

definition pv_segment :: "'s pstate \<Rightarrow> segment" where
  "pv_segment p = bw_segment (pv_world p)"

definition pv_seg_id :: "'s pstate \<Rightarrow> u8" where
  "pv_seg_id p = ucast (segment_id (pv_segment p))"

datatype MSG_TAG = IDLE | GERR | FNSH | DATP | DATE | RTBD

fun msg_tag_number :: "MSG_TAG \<Rightarrow> u32" where
  "msg_tag_number IDLE = 0" | "msg_tag_number GERR = 1" | "msg_tag_number FNSH = 2"
| "msg_tag_number DATP = 3" | "msg_tag_number DATE = 4" | "msg_tag_number RTBD = 5"

section \<open>Sizes\<close>

definition passiveBufSize :: "u64 \<Rightarrow> u64" where
  "passiveBufSize segment_size = min 1024 (segment_size div 2)"

definition MAX_PASSIVE_MESSAGE_SIZE :: "u64 \<Rightarrow> u32" where
  "MAX_PASSIVE_MESSAGE_SIZE segment_size = ucast ((passiveBufSize segment_size - 4 * 4) div 2)"

definition PASSIVE_SENDRECVBUF_SIZE :: "u64 \<Rightarrow> u32" where
  "PASSIVE_SENDRECVBUF_SIZE segment_size = MAX_PASSIVE_MESSAGE_SIZE segment_size + 4 + 4"

section \<open>Frames\<close>

text \<open>
  \<open>sendPassive\<close>: a failing \<open>gaspi_passive_send\<close> leaves the frame allocated.  The sizes are
  \<open>int\<close>; \<open>allocate\<close> takes them as \<open>std::size_t\<close>.
\<close>

definition sendPassive :: "'s passive_gaspi \<Rightarrow> u32 \<Rightarrow> u8 list \<Rightarrow> u16 \<Rightarrow> ('s pstate, unit) act" where
  "sendPassive G msg_tag pMessage destRank =
     (let srcSize = of_nat (length pMessage) :: u32; sz = srcSize + 2 * 4
      in act_bind (with_world (on_manager (allocator_allocate 1 (scast sz)))) (\<lambda>g_ptr.
         act_bind (store g_ptr (to_bytes 4 msg_tag)) (\<lambda>_.
         act_bind (store (g_ptr + 4) (to_bytes 4 srcSize)) (\<lambda>_.
         act_bind (store (g_ptr + 8) pMessage) (\<lambda>_.
         act_bind (with_lib (\<lambda>p. pointerToOffset (segment_api.truncate G) (sg_manager (pv_segment p)) g_ptr)) (\<lambda>offset.
         act_bind (fetch g_ptr (unat sz)) (\<lambda>bytes.
         act_bind (with_lib (\<lambda>p. gaspi_checked G
             (gaspi_passive_send G (pv_seg_id p) offset destRank (scast sz) GASPI_BLOCK bytes))) (\<lambda>_.
         with_world (on_manager (allocator_deallocate 1 g_ptr (scast sz)))))))))))"

text \<open>\<open>new char[size]\<close> throws \<open>std::bad_array_new_length\<close>, a \<open>std::bad_alloc\<close>, for a negative size.\<close>

definition recvPassive :: "'s passive_gaspi \<Rightarrow> u32 \<Rightarrow> ('s pstate, u32 \<times> u32 \<times> u32 \<times> u8 list) act" where
  "recvPassive G bufSize =
     act_bind (with_world (on_manager (allocator_allocate 1 (scast bufSize)))) (\<lambda>g_ptr.
     act_bind (with_lib (\<lambda>p. pointerToOffset (segment_api.truncate G) (sg_manager (pv_segment p)) g_ptr)) (\<lambda>offset.
     act_bind (with_lib (\<lambda>p. gaspi_checked_out G
         (gaspi_passive_receive G (pv_seg_id p) offset (scast bufSize) GASPI_BLOCK))) (\<lambda>(senderRank, bytes).
     act_bind (store g_ptr bytes) (\<lambda>_.
     act_bind (fetch g_ptr 4) (\<lambda>pMsgTag.
     act_bind (fetch (g_ptr + 4) 4) (\<lambda>pMsgSize.
       let msg_tag = from_bytes pMsgTag :: u32; sz = from_bytes pMsgSize :: u32
       in if sint sz < 0 then act_throw BadAlloc
          else act_bind (fetch (g_ptr + 8) (unat sz)) (\<lambda>pMsg.
               act_bind (with_world (on_manager (allocator_deallocate 1 g_ptr (scast bufSize)))) (\<lambda>_.
               act_return (msg_tag, sz, ucast senderRank, pMsg)))))))))"

definition sendError :: "'s passive_gaspi \<Rightarrow> u8 list \<Rightarrow> ('s pstate, unit) act" where
  "sendError G ErrMsg = sendPassive G (msg_tag_number GERR) ErrMsg 0"

definition pv_global_rank :: "'s passive_gaspi \<Rightarrow> ('s pstate, u16) act" where
  "pv_global_rank G = with_lib (\<lambda>_. gaspi_checked_out G (gaspi_proc_rank G))"

text \<open>The message with which \<open>finish\<close> ends the passive thread.\<close>

definition finish_message :: "'s passive_gaspi \<Rightarrow> ('s pstate, unit) act" where
  "finish_message G = act_bind (pv_global_rank G) (\<lambda>rank. sendPassive G (msg_tag_number FNSH) [] rank)"

section \<open>Tagged buffers\<close>

definition iSendRecvComm ::
    "'s context_api \<Rightarrow> buffer_description \<Rightarrow> buffer_description \<Rightarrow> ('s pstate, unit) act" where
  "iSendRecvComm Cx srcTargetBufferDesc rcvTargetBufferDesc =
     act_bind (with_lib (\<lambda>_. cx_write Cx srcTargetBufferDesc rcvTargetBufferDesc)) (\<lambda>_.
     act_bind (with_lib (\<lambda>_. cx_flush Cx)) (\<lambda>_.
     act_bind (with_lib (\<lambda>_. cx_notify Cx srcTargetBufferDesc)) (\<lambda>_.
     with_lib (\<lambda>_. cx_flush Cx))))"

text \<open>
  The part under the mutex: the maps after the call, and what is to be done after the mutex is
  released.  \<open>std::map::insert\<close> leaves an existing entry unchanged.
\<close>

datatype rendezvous =
    Communicate buffer_description buffer_description
  | Queued
  | KeyExists

definition meet_src ::
    "key \<Rightarrow> buffer_description \<Rightarrow> 's pstate \<Rightarrow> rendezvous \<times> 's pstate" where
  "meet_src key srcTargetBufferDesc p =
     (case pv_rcvTargetBuffers p key of
        Some rcvTargetBufferDesc \<Rightarrow>
          (Communicate srcTargetBufferDesc rcvTargetBufferDesc,
           p\<lparr>pv_rcvTargetBuffers := (pv_rcvTargetBuffers p)(key := None)\<rparr>)
      | None \<Rightarrow>
          (case pv_srcTargetBuffers p key of
             Some _ \<Rightarrow> (KeyExists, p)
           | None \<Rightarrow> (Queued, p\<lparr>pv_srcTargetBuffers := (pv_srcTargetBuffers p)(key \<mapsto> srcTargetBufferDesc)\<rparr>)))"

definition meet_rcv ::
    "key \<Rightarrow> buffer_description \<Rightarrow> 's pstate \<Rightarrow> rendezvous \<times> 's pstate" where
  "meet_rcv key rcvTargetBufferDesc p =
     (case pv_srcTargetBuffers p key of
        Some srcTargetBufferDesc \<Rightarrow>
          (Communicate srcTargetBufferDesc rcvTargetBufferDesc,
           p\<lparr>pv_srcTargetBuffers := (pv_srcTargetBuffers p)(key := None)\<rparr>)
      | None \<Rightarrow>
          (case pv_rcvTargetBuffers p key of
             Some _ \<Rightarrow> (KeyExists, p)
           | None \<Rightarrow> (Queued, p\<lparr>pv_rcvTargetBuffers := (pv_rcvTargetBuffers p)(key \<mapsto> rcvTargetBufferDesc)\<rparr>)))"

definition after_meeting :: "'s context_api \<Rightarrow> rendezvous \<Rightarrow> ('s pstate, unit) act" where
  "after_meeting Cx r = (case r of
     Communicate src rcv \<Rightarrow> iSendRecvComm Cx src rcv
   | Queued \<Rightarrow> act_return ()
   | KeyExists \<Rightarrow> act_throw (RuntimeError ''key exists already''))"

definition handleTaggedSrcBufferDesc ::
    "'s context_api \<Rightarrow> u32 \<Rightarrow> u64 \<Rightarrow> buffer_description \<Rightarrow> ('s pstate, unit) act" where
  "handleTaggedSrcBufferDesc Cx rank tag desc =
     (\<lambda>p. case meet_src (tag, rank) desc p of (r, p1) \<Rightarrow> after_meeting Cx r p1)"

definition handleTaggedRcvBufferDesc ::
    "'s context_api \<Rightarrow> u32 \<Rightarrow> u64 \<Rightarrow> buffer_description \<Rightarrow> ('s pstate, unit) act" where
  "handleTaggedRcvBufferDesc Cx rank tag desc =
     (\<lambda>p. case meet_rcv (tag, rank) desc p of (r, p1) \<Rightarrow> after_meeting Cx r p1)"

definition pv_description :: "'s passive_gaspi \<Rightarrow> u16 \<Rightarrow> buffer \<Rightarrow> ('s pstate, buffer_description) act" where
  "pv_description G global_rank b =
     with_lib (\<lambda>p. bf_description (segment_api.truncate G) global_rank (pv_segment p) b)"

text \<open>The buffer that is passed lies in a segment of the caller, of which the description is made.\<close>

definition user_description ::
    "'s passive_gaspi \<Rightarrow> u16 \<Rightarrow> segment \<Rightarrow> buffer \<Rightarrow> ('s pstate, buffer_description) act" where
  "user_description G global_rank S b = with_lib (\<lambda>_. bf_description (segment_api.truncate G) global_rank S b)"

definition pv_iSendTagMessg ::
    "'s passive_gaspi \<Rightarrow> 's context_api \<Rightarrow> u16 \<Rightarrow> u32 \<Rightarrow> u64 \<Rightarrow> segment \<Rightarrow> buffer \<Rightarrow> ('s pstate, bool) act" where
  "pv_iSendTagMessg G Cx me rank tag S srcTargetBuffer =
     act_bind (user_description G me S srcTargetBuffer) (\<lambda>desc.
     act_bind (handleTaggedSrcBufferDesc Cx rank tag desc) (\<lambda>_. act_return False))"

text \<open>The package: the tag and the description of the buffer.\<close>

definition tag_package :: "u64 \<Rightarrow> buffer_description \<Rightarrow> u8 list" where
  "tag_package tag desc =
     (let (m1, n1) = c_ser long_codec (\<lambda>_. 0) 0 tag;
          (m2, n2) = bd_ser m1 n1 desc
      in load m2 0 (c_size long_codec tag + bd_ssize desc))"

definition pv_iRecvTagMessg ::
    "'s passive_gaspi \<Rightarrow> 's context_api \<Rightarrow> u16 \<Rightarrow> u32 \<Rightarrow> u64 \<Rightarrow> segment \<Rightarrow> buffer \<Rightarrow> ('s pstate, bool) act" where
  "pv_iRecvTagMessg G Cx me rank tag S rcvTargetBuffer =
     act_bind (user_description G me S rcvTargetBuffer) (\<lambda>desc.
     act_bind (pv_global_rank G) (\<lambda>global_rank.
       if rank = ucast global_rank
       then act_bind (handleTaggedRcvBufferDesc Cx rank tag desc) (\<lambda>_. act_return False)
       else act_bind (sendPassive G (msg_tag_number RTBD) (tag_package tag desc) (ucast rank)) (\<lambda>_.
            act_return True)))"

section \<open>Data messages\<close>

definition date_package :: "u64 \<Rightarrow> buffer_description \<Rightarrow> u8 list" where
  "date_package datSize desc =
     (let (m1, n1) = c_ser size_t_codec (\<lambda>_. 0) 0 datSize;
          (m2, n2) = bd_ser m1 n1 desc
      in load m2 0 (c_size size_t_codec datSize + bd_ssize desc))"

text \<open>
  \<open>sendMessg\<close>: ask the target for a buffer, wait for its description in a temporary buffer, write
  the data there.  Buffers on the stack are destroyed on every way out.
\<close>

definition with_buffer :: "u64 \<Rightarrow> (buffer \<Rightarrow> ('s pstate, 'a) act) \<Rightarrow> ('s pstate, 'a) act" where
  "with_buffer sz body =
     act_bind (with_world (bf_construct sz)) (\<lambda>b.
     act_bind (act_on_error (body b) (with_world (bf_destroy b))) (\<lambda>r.
     act_bind (with_world (bf_destroy b)) (\<lambda>_. act_return r)))"

definition pv_register :: "'s passive_gaspi \<Rightarrow> u16 \<Rightarrow> ('s pstate, unit) act" where
  "pv_register G rank =
     with_lib (\<lambda>p. remoteRegistration (segment_api.truncate G) (sg_resource (pv_segment p)) rank)"

definition pv_waitForNotification :: "'s passive_gaspi \<Rightarrow> buffer \<Rightarrow> ('s pstate, bool) act" where
  "pv_waitForNotification G b = (\<lambda>p.
     case with_lib (\<lambda>p. bf_waitForNotification (segment_api.truncate G) (pv_segment p) b) p of
       (r, p1) \<Rightarrow> (r, p1\<lparr>pv_mem := gaspi_segment_memory G (pv_mem p1) (pv_lib p1)\<rparr>))"

definition request_target :: "'s passive_gaspi \<Rightarrow> u16 \<Rightarrow> u64 \<Rightarrow> u16 \<Rightarrow> ('s pstate, buffer_description) act" where
  "request_target G me datSize targetRank =
     act_bind (pv_register G targetRank) (\<lambda>_.
     with_buffer (of_nat (bd_ssize bd_default)) (\<lambda>tempBuffer.
       act_bind (pv_description G me tempBuffer) (\<lambda>tempBufferDesc.
       act_bind (sendPassive G (msg_tag_number DATE) (date_package datSize tempBufferDesc) targetRank) (\<lambda>_.
       act_bind (pv_waitForNotification G tempBuffer) (\<lambda>notified.
         if \<not> notified then act_throw (RuntimeError ''Unexpected behavior'')
         else (\<lambda>p. (Inr (fst (bd_des (pv_mem p) (unat (bf_address tempBuffer)))), p)))))))"

definition sendMessg ::
    "'s passive_gaspi \<Rightarrow> 's context_api \<Rightarrow> u16 \<Rightarrow> u8 list \<Rightarrow> u16 \<Rightarrow> ('s pstate, bool) act" where
  "sendMessg G Cx me pData targetRank =
     act_bind (request_target G me (of_nat (length pData)) targetRank) (\<lambda>targetBufferDesc.
     with_buffer (of_nat (length pData)) (\<lambda>sourceBuffer.
       act_bind (store (bf_address sourceBuffer) pData) (\<lambda>_.
       act_bind (pv_description G me sourceBuffer) (\<lambda>sourceBufferDesc.
       act_bind (with_lib (\<lambda>_. cx_write Cx sourceBufferDesc targetBufferDesc)) (\<lambda>_.
       act_bind (with_lib (\<lambda>_. cx_flush Cx)) (\<lambda>_.
       act_return True))))))"

text \<open>The copy in \<open>recvMessg\<close>, between the two barriers; no buffer is a null pointer dereference.\<close>

definition recv_copy :: "'s passive_gaspi \<Rightarrow> ('s pstate, (u8 list \<times> u32) option) act" where
  "recv_copy G = (\<lambda>p. case pv_msg_ptr p of
     None \<Rightarrow> (Inr None, p)
   | Some b \<Rightarrow>
       act_bind (pv_waitForNotification G b) (\<lambda>_.
       act_bind (fetch (bf_address b) (unat (scast (pv_msg_size p) :: u64))) (\<lambda>Data.
       act_bind (with_world (bf_destroy b)) (\<lambda>_. \<lambda>p1.
       (Inr (Some (Data, pv_msg_rank p1)), p1\<lparr>pv_msg_ptr := None\<rparr>)))) p)"

text \<open>
  One message of \<open>passive_thread_func_\<close>: what it does before the thread either goes on, hands a
  data message over in the two barriers, ends, or raises \<open>SIGINT\<close>.
\<close>

datatype dispatched =
    NextMessage
  | HandOver
  | ThreadFinished
  | RaisedSIGINT

definition store_description :: "u64 \<Rightarrow> buffer_description \<Rightarrow> ('s pstate, unit) act" where
  "store_description address desc =
     (\<lambda>p. (Inr (), p\<lparr>pv_mem := fst (bd_ser (pv_mem p) (unat address) desc)\<rparr>))"

definition serve_request :: "'s passive_gaspi \<Rightarrow> 's context_api \<Rightarrow> u16 \<Rightarrow> u8 list \<Rightarrow> u32 \<Rightarrow> ('s pstate, dispatched) act" where
  "serve_request G Cx me msg msg_rank =
     (let m = memcpy (\<lambda>_. 0) 0 msg;
          (g_requested_size, n1) = c_des size_t_codec m 0;
          (remoteInfoBufferDesc, n2) = bd_des m n1
      in act_bind (pv_register G (bd_rank remoteInfoBufferDesc)) (\<lambda>_.
         act_bind (with_world (bf_construct g_requested_size)) (\<lambda>pRequestedBuffer.
         act_bind (act_on_error
           (act_bind (pv_description G me pRequestedBuffer) (\<lambda>descr.
            with_buffer (of_nat (bd_ssize descr)) (\<lambda>g_temp_buffer.
              act_bind (store_description (bf_address g_temp_buffer) descr) (\<lambda>_.
              act_bind (pv_description G me g_temp_buffer) (\<lambda>tempDesc.
              act_bind (with_lib (\<lambda>_. cx_write Cx tempDesc remoteInfoBufferDesc)) (\<lambda>_.
              with_lib (\<lambda>_. cx_flush Cx)))))))
           (with_world (bf_destroy pRequestedBuffer))) (\<lambda>_. \<lambda>p.
         (Inr HandOver, p\<lparr>pv_msg_size := ucast g_requested_size, pv_msg_rank := msg_rank,
                          pv_msg_ptr := Some pRequestedBuffer\<rparr>)))))"

definition dispatch ::
    "'s passive_gaspi \<Rightarrow> 's context_api \<Rightarrow> u16 \<Rightarrow> u32 \<Rightarrow> u8 list \<Rightarrow> u32 \<Rightarrow> ('s pstate, dispatched) act" where
  "dispatch G Cx me msg_tag msg msg_rank =
     (if msg_tag = msg_tag_number GERR then act_return RaisedSIGINT
      else if msg_tag = msg_tag_number FNSH then act_return ThreadFinished
      else if msg_tag = msg_tag_number RTBD
      then (let m = memcpy (\<lambda>_. 0) 0 msg;
                (rcvTargetBufferTag, n1) = c_des long_codec m 0;
                (rcvTargetBufferDesc, n2) = bd_des m n1
            in act_bind (handleTaggedRcvBufferDesc Cx msg_rank rcvTargetBufferTag rcvTargetBufferDesc) (\<lambda>_.
               act_return NextMessage))
      else if msg_tag = msg_tag_number DATP \<or> msg_tag = msg_tag_number DATE
      then serve_request G Cx me msg msg_rank
      else act_return NextMessage)"

definition passive_thread_message ::
    "'s passive_gaspi \<Rightarrow> 's context_api \<Rightarrow> u16 \<Rightarrow> u32 \<Rightarrow> ('s pstate, dispatched) act" where
  "passive_thread_message G Cx me bufSize =
     act_bind (recvPassive G bufSize) (\<lambda>(msg_tag, msg_size, msg_rank, msg).
     dispatch G Cx me msg_tag msg msg_rank)"

end
