(* ===== verification/Passive_Props.thy ===== *)
theory Passive_Props
  imports Passive Buffer_Ownership
begin

text \<open>
  Correctness of the passive component: tagged sends and receives with the same tag and partner
  are paired in order whatever their interleaving, frames round-trip, and the hand-over of data
  messages between the two threads, which is safe only without spurious wake-ups.
\<close>

section \<open>Tagged buffers: the abstract pairing\<close>

datatype tagged =
    Src key buffer_description
  | Rcv key buffer_description

fun meet :: "tagged \<Rightarrow> 's pstate \<Rightarrow> rendezvous \<times> 's pstate" where
  "meet (Src key desc) p = meet_src key desc p"
| "meet (Rcv key desc) p = meet_rcv key desc p"

text \<open>The calls in the order in which they get the mutex, with the outcome of each.\<close>

fun meet_all :: "tagged list \<Rightarrow> 's pstate \<Rightarrow> (tagged \<times> rendezvous) list \<times> 's pstate" where
  "meet_all [] p = ([], p)"
| "meet_all (e # es) p =
     (case meet e p of (r, p1) \<Rightarrow> case meet_all es p1 of (rs, p2) \<Rightarrow> ((e, r) # rs, p2))"

fun tagged_key :: "tagged \<Rightarrow> key" where
  "tagged_key (Src k d) = k" | "tagged_key (Rcv k d) = k"

definition sources :: "key \<Rightarrow> tagged list \<Rightarrow> buffer_description list" where
  "sources k es = List.map_filter (\<lambda>e. case e of Src l d \<Rightarrow> if l = k then Some d else None | Rcv _ _ \<Rightarrow> None) es"

definition receivers :: "key \<Rightarrow> tagged list \<Rightarrow> buffer_description list" where
  "receivers k es = List.map_filter (\<lambda>e. case e of Rcv l d \<Rightarrow> if l = k then Some d else None | Src _ _ \<Rightarrow> None) es"

definition communications :: "key \<Rightarrow> (tagged \<times> rendezvous) list \<Rightarrow> (buffer_description \<times> buffer_description) list" where
  "communications k rs = List.map_filter (\<lambda>(e, r). case r of
     Communicate s d \<Rightarrow> if tagged_key e = k then Some (s, d) else None | _ \<Rightarrow> None) rs"

lemma sources_snoc: "sources k (es @ [e]) = sources k es @
    (case e of Src l d \<Rightarrow> if l = k then [d] else [] | Rcv _ _ \<Rightarrow> [])"
  by (simp add: sources_def List.map_filter_def split: tagged.split)

lemma receivers_snoc: "receivers k (es @ [e]) = receivers k es @
    (case e of Rcv l d \<Rightarrow> if l = k then [d] else [] | Src _ _ \<Rightarrow> [])"
  by (simp add: receivers_def List.map_filter_def split: tagged.split)

lemma communications_snoc: "communications k (rs @ [(e, r)]) = communications k rs @
    (case r of Communicate s d \<Rightarrow> if tagged_key e = k then [(s, d)] else [] | _ \<Rightarrow> [])"
  by (simp add: communications_def List.map_filter_def split: rendezvous.split)

lemma meet_all_snoc: "meet_all (es @ [e]) p =
    (case meet_all es p of (rs, p1) \<Rightarrow> case meet e p1 of (r, p2) \<Rightarrow> (rs @ [(e, r)], p2))"
  by (induction es arbitrary: p) (simp_all split: prod.split)

text \<open>What the maps hold for a key whose sources \<open>S\<close> and receivers \<open>R\<close> have arrived.\<close>

definition key_inv ::
    "buffer_description list \<Rightarrow> buffer_description list \<Rightarrow> (buffer_description \<times> buffer_description) list
      \<Rightarrow> buffer_description option \<Rightarrow> buffer_description option \<Rightarrow> bool" where
  "key_inv S R cs s r \<longleftrightarrow>
     cs = zip S R \<and> length S \<le> length R + 1 \<and> length R \<le> length S + 1 \<and>
     s = (if length R < length S then Some (last S) else None) \<and>
     r = (if length S < length R then Some (last R) else None)"

lemma zip_last:
  assumes "length R = length S + 1"
  shows "zip (S @ [d]) R = zip S R @ [(d, last R)]"
proof -
  obtain R' x where R: "R = R' @ [x]" using assms by (cases R rule: rev_cases) auto
  with assms show ?thesis by (simp add: zip_append2)
qed

lemma zip_last2:
  assumes "length S = length R + 1"
  shows "zip S (R @ [d]) = zip S R @ [(last S, d)]"
proof -
  obtain S' x where S: "S = S' @ [x]" using assms by (cases S rule: rev_cases) auto
  with assms show ?thesis by (simp add: zip_append1)
qed

lemma key_inv_src:
  assumes "key_inv S R cs s r"
  shows "case r of
      Some d' \<Rightarrow> key_inv (S @ [d]) R (cs @ [(d, d')]) s None
    | None \<Rightarrow> s = None \<longrightarrow> key_inv (S @ [d]) R cs (Some d) None"
  using assms zip_last [of R S d] by (auto simp: key_inv_def zip_append1 split: option.split if_splits)

lemma key_inv_rcv:
  assumes "key_inv S R cs s r"
  shows "case s of
      Some d' \<Rightarrow> key_inv S (R @ [d]) (cs @ [(d', d)]) None r
    | None \<Rightarrow> r = None \<longrightarrow> key_inv S (R @ [d]) cs None (Some d)"
  using assms zip_last2 [of S R d] by (auto simp: key_inv_def zip_append2 split: option.split if_splits)

text \<open>No side of a key is two ahead of the other, at any time.\<close>

definition balanced :: "tagged list \<Rightarrow> bool" where
  "balanced es \<longleftrightarrow> (\<forall>n k. length (sources k (take n es)) \<le> length (receivers k (take n es)) + 1
     \<and> length (receivers k (take n es)) \<le> length (sources k (take n es)) + 1)"

lemma balanced_at: "balanced es \<Longrightarrow> length (sources k (take n es)) \<le> length (receivers k (take n es)) + 1
     \<and> length (receivers k (take n es)) \<le> length (sources k (take n es)) + 1"
  unfolding balanced_def by blast

lemma balanced_snoc: "balanced (es @ [e]) \<Longrightarrow> balanced es"
  unfolding balanced_def
proof (intro allI)
  fix n k
  assume "\<forall>n k. length (sources k (take n (es @ [e]))) \<le> length (receivers k (take n (es @ [e]))) + 1
     \<and> length (receivers k (take n (es @ [e]))) \<le> length (sources k (take n (es @ [e]))) + 1"
  from spec [OF spec [OF this, of "min n (length es)"], of k]
  show "length (sources k (take n es)) \<le> length (receivers k (take n es)) + 1
     \<and> length (receivers k (take n es)) \<le> length (sources k (take n es)) + 1"
    by (simp add: min_def split: if_splits)
qed

definition meet_inv :: "tagged list \<Rightarrow> (tagged \<times> rendezvous) list \<Rightarrow> 's pstate \<Rightarrow> bool" where
  "meet_inv es rs p \<longleftrightarrow> (\<forall>k. key_inv (sources k es) (receivers k es) (communications k rs)
     (pv_srcTargetBuffers p k) (pv_rcvTargetBuffers p k))"

lemma meet_inv_snoc:
  assumes inv: "meet_inv es rs p" and m: "meet e p = (r, p1)" "r \<noteq> KeyExists"
  shows "meet_inv (es @ [e]) (rs @ [(e, r)]) p1"
  unfolding meet_inv_def
proof
  fix k
  have I: "key_inv (sources k es) (receivers k es) (communications k rs)
     (pv_srcTargetBuffers p k) (pv_rcvTargetBuffers p k)" using inv unfolding meet_inv_def by (rule spec)
  show "key_inv (sources k (es @ [e])) (receivers k (es @ [e])) (communications k (rs @ [(e, r)]))
     (pv_srcTargetBuffers p1 k) (pv_rcvTargetBuffers p1 k)"
  proof (cases e)
    case (Src l d)
    then show ?thesis using I key_inv_src [OF I, of d] m
      by (auto simp: sources_snoc receivers_snoc communications_snoc meet_src_def split: option.splits)
  next
    case (Rcv l d)
    then show ?thesis using I key_inv_rcv [OF I, of d] m
      by (auto simp: sources_snoc receivers_snoc communications_snoc meet_rcv_def split: option.splits)
  qed
qed

lemma meet_exists:
  assumes inv: "meet_inv es rs p" and m: "meet e p = (KeyExists, p1)"
  shows "\<not> (length (sources (tagged_key e) (es @ [e])) \<le> length (receivers (tagged_key e) (es @ [e])) + 1
     \<and> length (receivers (tagged_key e) (es @ [e])) \<le> length (sources (tagged_key e) (es @ [e])) + 1)"
proof -
  let ?k = "tagged_key e"
  have I: "key_inv (sources ?k es) (receivers ?k es) (communications ?k rs)
     (pv_srcTargetBuffers p ?k) (pv_rcvTargetBuffers p ?k)" using inv unfolding meet_inv_def by (rule spec)
  then show ?thesis using m
    by (cases e) (auto simp: key_inv_def meet_src_def meet_rcv_def sources_snoc receivers_snoc
        split: option.splits if_splits)
qed

lemma meet_all_inv:
  assumes "meet_all es p = (rs, p1)" "pv_srcTargetBuffers p = (\<lambda>_. None)" "pv_rcvTargetBuffers p = (\<lambda>_. None)"
    and "KeyExists \<notin> snd ` set rs"
  shows "meet_inv es rs p1"
  using assms(1,4)
proof (induction es arbitrary: rs p1 rule: rev_induct)
  case Nil
  then show ?case using assms(2,3)
    by (simp add: meet_inv_def key_inv_def sources_def receivers_def communications_def List.map_filter_def)
next
  case (snoc e es)
  obtain rs' p' where rs': "meet_all es p = (rs', p')" by force
  obtain r p2 where r: "meet e p' = (r, p2)" by force
  with snoc.prems rs' have "rs = rs' @ [(e, r)]" "p1 = p2" "r \<noteq> KeyExists" "KeyExists \<notin> snd ` set rs'"
    by (auto simp: meet_all_snoc)
  then show ?case using meet_inv_snoc [OF snoc.IH [OF rs'] r] by simp
qed

lemma meet_all_fails:
  assumes "pv_srcTargetBuffers p = (\<lambda>_. None)" "pv_rcvTargetBuffers p = (\<lambda>_. None)" "balanced es"
  shows "KeyExists \<notin> snd ` set (fst (meet_all es p))"
  using assms(3)
proof (induction es rule: rev_induct)
  case (snoc e es)
  obtain rs p1 where rs: "meet_all es p = (rs, p1)" by force
  obtain r p2 where r: "meet e p1 = (r, p2)" by force
  have ok: "KeyExists \<notin> snd ` set rs" using snoc.IH [OF balanced_snoc [OF snoc.prems]] rs by simp
  have "r \<noteq> KeyExists"
    using meet_exists [OF meet_all_inv [OF rs assms(1,2) ok], of e p2] r
      balanced_at [OF snoc.prems, of "tagged_key e" "length es + 1"] by auto
  with ok show ?case by (auto simp: meet_all_snoc rs r)
qed simp

text \<open>
  Property C39: the rendezvous of tagged buffers refines the pairing of two sequences. Whatever
  the interleaving of sends and receives, if no call threw then, for every tag and partner, the
  communications made are the \<open>i\<close>-th send with the \<open>i\<close>-th receive, each once and in order, and the
  one buffer that may be left over waits in the map of its side; and a call throws only when some
  side is two ahead of the other.
\<close>

theorem tagged_rendezvous:
  assumes "meet_all es p = (rs, p1)" "pv_srcTargetBuffers p = (\<lambda>_. None)" "pv_rcvTargetBuffers p = (\<lambda>_. None)"
  shows "(KeyExists \<notin> snd ` set rs \<longrightarrow>
      (\<forall>k. communications k rs = zip (sources k es) (receivers k es) \<and>
        pv_srcTargetBuffers p1 k = (if length (receivers k es) < length (sources k es)
                                    then Some (last (sources k es)) else None) \<and>
        pv_rcvTargetBuffers p1 k = (if length (sources k es) < length (receivers k es)
                                    then Some (last (receivers k es)) else None)))
    \<and> (KeyExists \<in> snd ` set rs \<longrightarrow>
        (\<exists>n k. length (sources k (take n es)) > length (receivers k (take n es)) + 1
             \<or> length (receivers k (take n es)) > length (sources k (take n es)) + 1))"
proof (intro conjI impI allI)
  fix k
  assume "KeyExists \<notin> snd ` set rs"
  from meet_all_inv [OF assms this]
  have "key_inv (sources k es) (receivers k es) (communications k rs)
     (pv_srcTargetBuffers p1 k) (pv_rcvTargetBuffers p1 k)"
    unfolding meet_inv_def by (rule spec)
  then show "communications k rs = zip (sources k es) (receivers k es)"
    "pv_srcTargetBuffers p1 k = (if length (receivers k es) < length (sources k es)
                                    then Some (last (sources k es)) else None)"
    "pv_rcvTargetBuffers p1 k = (if length (sources k es) < length (receivers k es)
                                    then Some (last (receivers k es)) else None)"
    by (simp_all add: key_inv_def)
next
  assume "KeyExists \<in> snd ` set rs"
  then have "\<not> balanced es" using meet_all_fails [OF assms(2,3), of es] assms(1) by (metis fst_conv)
  then show "\<exists>n k. length (sources k (take n es)) > length (receivers k (take n es)) + 1
             \<or> length (receivers k (take n es)) > length (sources k (take n es)) + 1"
    unfolding balanced_def by (meson not_le)
qed

definition demo_pstate :: "unit pstate" where
  "demo_pstate = \<lparr>pv_world = demo_world, pv_mem = (\<lambda>_. 0), pv_srcTargetBuffers = (\<lambda>_. None),
     pv_rcvTargetBuffers = (\<lambda>_. None), pv_msg_size = 0, pv_msg_rank = 0, pv_msg_ptr = None, pv_lib = ()\<rparr>"

lemma tagged_rendezvous_witness:
  "pv_rcvTargetBuffers (snd (meet_all [Src (1, 0) bd_default, Rcv (1, 0) bd_default] demo_pstate)) (1, 0) = None"
proof -
  obtain rs p1 where m: "meet_all [Src (1, 0) bd_default, Rcv (1, 0) bd_default] demo_pstate = (rs, p1)"
    by force
  have "pv_srcTargetBuffers demo_pstate = (\<lambda>_. None)" "pv_rcvTargetBuffers demo_pstate = (\<lambda>_. None)"
    by (simp_all add: demo_pstate_def)
  note T = tagged_rendezvous [OF m this]
  have "KeyExists \<notin> snd ` set rs" using m by (auto simp: demo_pstate_def meet_src_def meet_rcv_def)
  with T have "pv_rcvTargetBuffers p1 (1, 0) = None"
    by (simp add: sources_def receivers_def List.map_filter_def del: split_paired_All)
  then show ?thesis unfolding m by simp
qed

section \<open>Frames\<close>

definition frame :: "u32 \<Rightarrow> u8 list \<Rightarrow> u8 list" where
  "frame msg_tag pMessage = to_bytes 4 msg_tag @ to_bytes 4 (of_nat (length pMessage) :: u32) @ pMessage"

text \<open>The successful passive sends of a process, in order; the query for the base address adds none.\<close>

definition passive_contract :: "'s passive_gaspi \<Rightarrow> ('s \<Rightarrow> (u16 \<times> u8 list) list) \<Rightarrow> bool" where
  "passive_contract G outbox \<longleftrightarrow>
     (\<forall>sid off rank n bs s ret s1. gaspi_passive_send G sid off rank n GASPI_BLOCK bs s = (ret, s1) \<longrightarrow>
        outbox s1 = outbox s @ (if ret = GASPI_SUCCESS then [(rank, bs)] else [])) \<and>
     (\<forall>sid s r s1. gaspi_segment_ptr G sid s = (r, s1) \<longrightarrow> outbox s1 = outbox s)"

lemma mm_allocate_bounds:
  assumes "mm_inv a e mm" "0 < n" "mm_allocate n mm = Inr (p, mm')"
  shows "unat p + unat n \<le> 2 ^ 64" "mm_deallocate p n mm' = Inr mm"
proof -
  have b: "blocks_inv a e (mm_blocks mm)" using assms(1) by (simp add: mm_inv_def)
  from first_fit_live(3) [OF b mm_allocate_Inr [OF assms] assms(2)] b
  show "unat p + unat n \<le> 2 ^ 64" by (simp add: blocks_inv_def)
  show "mm_deallocate p n mm' = Inr mm" by (rule mm.dealloc_undo [OF assms])
qed

lemma frame_stored:
  assumes "unat g + 8 + length msg \<le> 2 ^ 64"
  shows "load (memcpy (memcpy (memcpy m (unat g) (to_bytes 4 tag)) (unat (g + 4 :: u64))
      (to_bytes 4 (of_nat (length msg) :: u32))) (unat (g + 8)) msg) (unat g) (8 + length msg) = frame tag msg"
proof -
  have 4: "unat (g + 4) = unat g + 4" using assms by (simp add: unat_plus_if')
  have m: "memcpy (memcpy (memcpy m (unat g) (to_bytes 4 tag)) (unat g + 4)
      (to_bytes 4 (of_nat (length msg) :: u32))) (unat g + 8) msg = memcpy m (unat g) (frame tag msg)"
    using memcpy_append [of m "unat g" "to_bytes 4 tag" "to_bytes 4 (of_nat (length msg) :: u32)"]
      memcpy_append [of m "unat g" "to_bytes 4 tag @ to_bytes 4 (of_nat (length msg) :: u32)" msg]
    by (simp add: frame_def)
  have "memcpy M (unat (g + 8)) msg = memcpy M (unat g + 8) msg" for M
  proof (cases "msg = []")
    case False
    then have "unat g + 8 < 2 ^ 64" using assms by (cases msg) auto
    then have "unat (g + 8) = unat g + 8" by (simp add: unat_plus_if')
    then show ?thesis by simp
  qed simp
  then show ?thesis
    using m load_memcpy [of m "unat g" "frame tag msg"] by (simp add: 4 frame_def add.assoc)
qed

lemma unat_scast_len: "n < 2 ^ 31 \<Longrightarrow> unat (scast (of_nat n :: u32) :: u64) = n \<and> unat (of_nat n :: u32) = n"
proof -
  assume n: "n < 2 ^ 31"
  then have "unat (of_nat n :: u32) = n" by (simp add: unat_of_nat take_bit_nat_eq_self)
  with n scast_small32 [of "of_nat n"] show ?thesis by simp
qed

text \<open>The successful outcome of the single steps.\<close>

definition set_mm :: "mem_manager \<Rightarrow> bworld \<Rightarrow> bworld" where
  "set_mm mm w = w\<lparr>bw_segment := (bw_segment w)\<lparr>sg_manager := (sg_manager (bw_segment w))\<lparr>sm_memoryManager := mm\<rparr>\<rparr>\<rparr>"

lemma set_mm_simps [simp]: "w_mm (set_mm mm w) = mm" "set_mm mm' (set_mm mm w) = set_mm mm' w"
  "set_mm (w_mm w) w = w"
  by (simp_all add: set_mm_def)

lemma with_world_Inr: "with_world m p = (Inr x, q) \<longleftrightarrow> (\<exists>w. m (pv_world p) = (Inr x, w) \<and> q = p\<lparr>pv_world := w\<rparr>)"
  by (auto simp: with_world_def split: prod.splits)

lemma with_lib_Inr: "with_lib m p = (Inr x, q) \<longleftrightarrow> (\<exists>s. m p (pv_lib p) = (Inr x, s) \<and> q = p\<lparr>pv_lib := s\<rparr>)"
  by (auto simp: with_lib_def split: prod.splits)

lemma store_Inr: "store g bs p = (Inr u, q) \<longleftrightarrow> q = p\<lparr>pv_mem := memcpy (pv_mem p) (unat g) bs\<rparr>"
  by (auto simp: store_def)

lemma fetch_Inr: "fetch g n p = (Inr bs, q) \<longleftrightarrow> bs = load (pv_mem p) (unat g) n \<and> q = p"
  by (auto simp: fetch_def)

lemma allocate_Inr: "on_manager (allocator_allocate 1 n) w = (Inr g, w') \<longleftrightarrow>
    (\<exists>mm. mm_allocate n (w_mm w) = Inr (g, mm) \<and> w' = set_mm mm w)"
  by (auto simp: on_manager_def allocator_allocate_def set_mm_def split: sum.splits)

lemma deallocate_Inr: "on_manager (allocator_deallocate 1 g n) w = (Inr u, w') \<longleftrightarrow>
    (\<exists>mm. mm_deallocate g n (w_mm w) = Inr mm \<and> w' = set_mm mm w)"
  by (auto simp: on_manager_def allocator_deallocate_def set_mm_def split: sum.splits)

lemma checked_Inr_iff: "gaspi_checked G call s = (Inr u, s1) \<longleftrightarrow> call s = (GASPI_SUCCESS, s1)"
  by (auto simp: gaspi_checked_eq split: prod.splits)

lemma checked_out_Inr_iff: "gaspi_checked_out G call s = (Inr a, s1) \<longleftrightarrow> call s = ((GASPI_SUCCESS, a), s1)"
  by (auto simp: gaspi_checked_out_eq split: prod.splits)

lemma offset_Inr: "pointerToOffset G S g s = (Inr off, s1) \<longleftrightarrow>
    (\<exists>base. gaspi_segment_ptr G (ucast (sm_segmentID S)) s = ((GASPI_SUCCESS, base), s1) \<and> off = g - base)"
  by (auto simp: pointerToOffset_def getSegmentPtr_def act_bind_eq_Inr checked_out_Inr_iff)

lemmas step_Inr = act_bind_eq_Inr with_world_Inr with_lib_Inr store_Inr fetch_Inr allocate_Inr deallocate_Inr
  checked_Inr_iff checked_out_Inr_iff offset_Inr

lemma sendPassive_sends:
  assumes C: "passive_contract G outbox" and i: "mm_inv a e (w_mm (pv_world p))"
    and len: "length msg + 8 < 2 ^ 31" and s: "sendPassive G tag msg dest p = (Inr u, p1)"
  shows "outbox (pv_lib p1) = outbox (pv_lib p) @ [(dest, frame tag msg)]" "pv_world p1 = pv_world p"
proof -
  let ?sz = "of_nat (length msg) + 2 * 4 :: u32" and ?w = "pv_world p"
  have sz: "?sz = of_nat (length msg + 8)" by simp
  have n: "unat (scast ?sz :: u64) = length msg + 8" "unat ?sz = length msg + 8"
    using unat_scast_len [OF len] unfolding sz by simp_all
  then have pos: "0 < (scast ?sz :: u64)" by (simp add: word_less_nat_alt)
  from s obtain g mm base s1 k sid i where al: "mm_allocate (scast ?sz) (w_mm ?w) = Inr (g, mm)"
    and 1: "gaspi_segment_ptr G i (pv_lib p) = ((GASPI_SUCCESS, base), s1)"
    and 2: "gaspi_passive_send G sid (g - base) dest k GASPI_BLOCK
      (load (memcpy (memcpy (memcpy (pv_mem p) (unat g) (to_bytes 4 tag)) (unat (g + 4))
         (to_bytes 4 (of_nat (length msg) :: u32))) (unat (g + 8)) msg) (unat g) (unat ?sz)) s1
      = (GASPI_SUCCESS, pv_lib p1)"
    and w: "\<exists>mm'. mm_deallocate g (scast ?sz) mm = Inr mm' \<and> pv_world p1 = set_mm mm' ?w"
    by (auto simp: sendPassive_def Let_def step_Inr segment_api.truncate_def)
  note B = mm_allocate_bounds [OF i pos al]
  have "unat g + 8 + length msg \<le> 2 ^ 64" using B(1) n by simp
  note F = frame_stored [OF this, of "pv_mem p" tag]
  have "outbox s1 = outbox (pv_lib p)" using C 1 unfolding passive_contract_def by blast
  with C 2 F n(2) show "outbox (pv_lib p1) = outbox (pv_lib p) @ [(dest, frame tag msg)]"
    unfolding passive_contract_def by (simp add: add.commute)
  show "pv_world p1 = ?w" using w B(2) by auto
qed

lemma recvPassive_result:
  assumes i: "mm_inv a e (w_mm (pv_world p))" and n: "unat bufSize < 2 ^ 31" "0 < bufSize"
    and r: "recvPassive G bufSize p = (Inr (tag', size', rank', msg'), p1)"
  obtains l sid off num src bs base s1 where
    "gaspi_segment_ptr G l (pv_lib p) = ((GASPI_SUCCESS, base), s1)"
    "gaspi_passive_receive G sid off num GASPI_BLOCK s1 = ((GASPI_SUCCESS, src, bs), pv_lib p1)"
    "pv_world p1 = pv_world p" "rank' = ucast src"
    "\<forall>tag msg. bs = frame tag msg \<longrightarrow> 8 + length msg \<le> unat bufSize \<longrightarrow>
       tag' = tag \<and> unat size' = length msg \<and> msg' = msg"
proof -
  let ?w = "pv_world p"
  have "unat (scast bufSize :: u64) = unat bufSize" using n(1) by (rule scast_small32)
  then have pos: "0 < (scast bufSize :: u64)" and bsz: "unat (scast bufSize :: u64) = unat bufSize"
    using n(2) by (simp_all add: word_less_nat_alt)
  from r obtain g mm base s1 src bs sid off k l mm' where
    al: "mm_allocate (scast bufSize) (w_mm ?w) = Inr (g, mm)" and
    ptr: "gaspi_segment_ptr G l (pv_lib p) = ((GASPI_SUCCESS, base), s1)" and
    rc: "gaspi_passive_receive G sid off k GASPI_BLOCK s1 = ((GASPI_SUCCESS, src, bs), pv_lib p1)" and
    T: "tag' = from_bytes (load (memcpy (pv_mem p) (unat g) bs) (unat g) 4)"
      "size' = from_bytes (load (memcpy (pv_mem p) (unat g) bs) (unat (g + 4)) 4)"
      "rank' = ucast src" "msg' = load (memcpy (pv_mem p) (unat g) bs) (unat (g + 8)) (unat size')" and
    w: "mm_deallocate g (scast bufSize) mm = Inr mm'" "pv_world p1 = set_mm mm' ?w"
    by (auto simp: recvPassive_def Let_def step_Inr segment_api.truncate_def act_throw_def split: if_splits)
  note B = mm_allocate_bounds [OF i pos al]
  have "tag' = tag \<and> unat size' = length msg \<and> msg' = msg"
    if D: "bs = frame tag msg" and len: "8 + length msg \<le> unat bufSize" for tag msg
  proof -
    have g: "unat g + 8 + length msg \<le> 2 ^ 64" using B(1) bsz len by simp
    then have 4: "unat (g + 4) = unat g + 4" by (simp add: unat_plus_if')
    have l: "length msg < 2 ^ 31" using len n by simp
    have "load (memcpy (pv_mem p) (unat g) bs) (unat g) (length (frame tag msg)) = frame tag msg"
      unfolding D by (rule load_memcpy)
    then have L: "load (memcpy (pv_mem p) (unat g) bs) (unat g) 4 = to_bytes 4 tag"
      "load (memcpy (pv_mem p) (unat g) bs) (unat g + 4) 4 = to_bytes 4 (of_nat (length msg) :: u32)"
      "load (memcpy (pv_mem p) (unat g) bs) (unat g + 8) (length msg) = msg"
      unfolding frame_def load_append_iff length_to_bytes by (simp_all add: add.assoc)
    have t: "tag' = tag" "size' = of_nat (length msg)"
      using T L 4 from_to_bytes [of 4 tag] from_to_bytes [of 4 "of_nat (length msg) :: u32"] by simp_all
    have "unat (g + 8) = unat g + 8" if "msg \<noteq> []"
      using g that by (cases msg) (simp_all add: unat_plus_if')
    then have "msg' = msg" using T(4) t L(3) unat_scast_len [OF l] by (cases "msg = []") (simp_all add: load_def)
    with t unat_scast_len [OF l] show ?thesis by simp
  qed
  moreover have "pv_world p1 = ?w" using w B(2) by auto
  ultimately show thesis using that [OF ptr rc _ T(3)] by blast
qed

lemma recvPassive_receives:
  assumes i: "mm_inv a e (w_mm (pv_world p))" and len: "8 + length msg \<le> unat bufSize" "unat bufSize < 2 ^ 31"
    and deliver: "\<And>sid off n s src bs s1. gaspi_passive_receive G sid off n GASPI_BLOCK s
        = ((GASPI_SUCCESS, src, bs), s1) \<Longrightarrow> src = me \<and> bs = frame tag msg"
    and r: "recvPassive G bufSize p = (Inr (tag', size', rank', msg'), p1)"
  shows "tag' = tag \<and> unat size' = length msg \<and> rank' = ucast me \<and> msg' = msg \<and> pv_world p1 = pv_world p"
proof -
  have "0 < bufSize" using len(1) by (simp add: word_less_nat_alt)
  from recvPassive_result [OF i len(2) this r] show ?thesis using deliver len(1) by metis
qed

text \<open>
  A passive message arrives as it was sent. If \<open>sendPassive\<close> returns, exactly one
  message went out, to the given rank; and when a process with a large enough receive buffer is
  delivered that message, \<open>recvPassive\<close> returns the same tag and the same bytes, with the sender's
  rank. On both sides the segment's memory manager is back in the state it was in before.
\<close>

theorem passive_frame_roundtrip:
  assumes "passive_contract G outbox"
    and "mm_inv a e (w_mm (pv_world pA))" "length msg + 8 < 2 ^ 31"
    and "sendPassive G tag msg dest pA = (Inr u, pA1)"
    and "mm_inv c d (w_mm (pv_world pB))" "8 + length msg \<le> unat bufSize" "unat bufSize < 2 ^ 31"
    and "\<And>sid off n s src bs s1. gaspi_passive_receive H sid off n GASPI_BLOCK s
        = ((GASPI_SUCCESS, src, bs), s1) \<Longrightarrow> src = me \<and> bs = snd (last (outbox (pv_lib pA1)))"
    and "recvPassive H bufSize pB = (Inr (tag', size', rank', msg'), pB1)"
  shows "(\<exists>bs. outbox (pv_lib pA1) = outbox (pv_lib pA) @ [(dest, bs)]) \<and>
    tag' = tag \<and> unat size' = length msg \<and> rank' = ucast me \<and> msg' = msg \<and>
    pv_world pA1 = pv_world pA \<and> pv_world pB1 = pv_world pB"
  using sendPassive_sends [OF assms(1-4)]
    recvPassive_receives [OF assms(5-7) _ assms(9), of me tag] assms(8) by simp

text \<open>A library that keeps what is sent, and one that delivers a given message from rank 3.\<close>

definition mailbox :: "u8 list \<Rightarrow> ((u16 \<times> u8 list) list) passive_gaspi" where
  "mailbox msg =
     \<lparr>gaspi_error_str = (\<lambda>_. ''error''),
      gaspi_queue_create = (\<lambda>_ s. ((GASPI_SUCCESS, 0), s)),
      gaspi_queue_delete = (\<lambda>_ s. (GASPI_SUCCESS, s)),
      gaspi_queue_num = (\<lambda>s. ((GASPI_SUCCESS, 1), s)),
      gaspi_queue_max = (\<lambda>s. ((GASPI_SUCCESS, 16), s)),
      gaspi_wait = (\<lambda>q _ s. (GASPI_SUCCESS, s)),
      gaspi_post = (\<lambda>r q _ s. (GASPI_SUCCESS, s)),
      gaspi_notify_waitsome = (\<lambda>_ n _ _ s. ((GASPI_SUCCESS, n), s)),
      gaspi_notify_reset = (\<lambda>_ _ s. ((GASPI_SUCCESS, 1), s)),
      gaspi_proc_rank = (\<lambda>s. ((GASPI_SUCCESS, 0), s)),
      gaspi_segment_size = (\<lambda>_ _ s. ((GASPI_SUCCESS, 1024), s)),
      gaspi_segment_ptr = (\<lambda>_ s. ((GASPI_SUCCESS, 4096), s)),
      gaspi_notification_num = (\<lambda>s. ((GASPI_SUCCESS, 65536), s)),
      gaspi_segment_avail_local = (\<lambda>s. ((GASPI_SUCCESS, 7), s)),
      gaspi_segment_alloc = (\<lambda>_ _ s. (GASPI_SUCCESS, s)),
      gaspi_segment_register = (\<lambda>_ _ _ s. (GASPI_SUCCESS, s)),
      gaspi_segment_delete = (\<lambda>_ s. (GASPI_SUCCESS, s)),
      gaspi_passive_send = (\<lambda>_ _ rank _ _ bs s. (GASPI_SUCCESS, s @ [(rank, bs)])),
      gaspi_passive_receive = (\<lambda>_ _ _ _ s. ((GASPI_SUCCESS, 3, msg), s)),
      gaspi_segment_memory = (\<lambda>m _. m)\<rparr>"

lemma mailbox_contract: "passive_contract (mailbox msg) (\<lambda>s. s)"
  by (simp add: passive_contract_def mailbox_def)

definition demo_mail :: "((u16 \<times> u8 list) list) pstate" where
  "demo_mail = \<lparr>pv_world = demo_world, pv_mem = (\<lambda>_. 0), pv_srcTargetBuffers = (\<lambda>_. None),
     pv_rcvTargetBuffers = (\<lambda>_. None), pv_msg_size = 0, pv_msg_rank = 0, pv_msg_ptr = None, pv_lib = []\<rparr>"

lemma demo_mail_inv: "mm_inv 4096 5120 (w_mm (pv_world demo_mail))"
  using mm_construct_inv [of 4096 1024] by (simp add: demo_mail_def demo_world_def demo_segment_def)

lemma demo_mail_allocate: "unat n \<le> 512 \<Longrightarrow> 0 < n \<Longrightarrow>
    \<exists>mm. mm_allocate n (w_mm (pv_world demo_mail)) = Inr (4096, mm) \<and> mm_deallocate 4096 n mm = Inr (w_mm (pv_world demo_mail))"
proof -
  assume n: "unat n \<le> 512" "0 < n"
  then have "n \<noteq> 0" "n < 1024" "n \<le> 1024" by (auto simp: word_less_nat_alt word_le_nat_alt)
  then obtain mm where "mm_allocate n (w_mm (pv_world demo_mail)) = Inr (4096, mm)"
    by (simp add: mm_allocate_def demo_mail_def demo_world_def demo_segment_def mm_construct_def)
  then show ?thesis using mm_allocate_bounds [OF demo_mail_inv n(2)] by blast
qed

lemma demo_send: "\<exists>p1. sendPassive (mailbox []) 4 [1, 2] 5 demo_mail = (Inr (), p1)"
proof -
  obtain mm where "mm_allocate 10 (w_mm (pv_world demo_mail)) = Inr (4096, mm)"
    "mm_deallocate 4096 10 mm = Inr (w_mm (pv_world demo_mail))" using demo_mail_allocate [of 10] by auto
  then show ?thesis
    by (simp add: sendPassive_def Let_def step_Inr segment_api.truncate_def mailbox_def)
qed

lemma demo_recv: "\<exists>t n r m p1. recvPassive (mailbox (frame 4 [1, 2])) 64 demo_mail = (Inr (t, n, r, m), p1)"
proof -
  obtain mm where a: "mm_allocate 64 (w_mm (pv_world demo_mail)) = Inr (4096, mm)"
    "mm_deallocate 4096 64 mm = Inr (w_mm (pv_world demo_mail))" using demo_mail_allocate [of 64] by auto
  have "load (memcpy (\<lambda>_. 0) 4096 (frame 4 [1, 2])) (4096 + 4) 4 = to_bytes 4 (2 :: u32)"
    by (rule nth_equalityI) (simp_all add: memcpy_def frame_def nth_append)
  then have "from_bytes (load (memcpy (\<lambda>_. 0) 4096 (frame 4 [1, 2])) 4100 4) = (2 :: u32)"
    using from_to_bytes [of 4 "2 :: u32"] by simp
  with a show ?thesis
    by (simp add: recvPassive_def Let_def step_Inr segment_api.truncate_def mailbox_def demo_mail_def)
qed

lemma passive_frame_roundtrip_witness:
  "\<exists>pA1 n pB1. sendPassive (mailbox []) 4 [1, 2] 5 demo_mail = (Inr (), pA1) \<and>
     recvPassive (mailbox (frame 4 [1, 2])) 64 demo_mail = (Inr (4, n, 3, [1, 2]), pB1) \<and> unat n = 2"
proof -
  obtain pA1 where s: "sendPassive (mailbox []) 4 [1, 2] 5 demo_mail = (Inr (), pA1)"
    using demo_send by blast
  obtain t n r m pB1 where r: "recvPassive (mailbox (frame 4 [1, 2])) 64 demo_mail = (Inr (t, n, r, m), pB1)"
    using demo_recv by blast
  have out: "snd (last (pv_lib pA1)) = frame 4 [1, 2]"
    using sendPassive_sends [OF mailbox_contract demo_mail_inv _ s] by simp
  have d: "src = 3 \<and> bs = snd (last (pv_lib pA1))"
    if "gaspi_passive_receive (mailbox (frame 4 [1, 2])) sid off k GASPI_BLOCK q = ((GASPI_SUCCESS, src, bs), s1)"
    for sid off k q src bs s1
    using that out by (simp add: mailbox_def)
  from passive_frame_roundtrip [OF mailbox_contract demo_mail_inv _ s demo_mail_inv _ _ d r]
  have "t = 4 \<and> unat n = 2 \<and> r = 3 \<and> m = [1, 2]" by simp
  with s r show ?thesis by auto
qed

end
