(* ===== verification/Passive_Handoff.thy ===== *)
theory Passive_Handoff
  imports Gaspi_Prelude
begin

text \<open>
  The hand-over of data messages in \<open>Passive\<close>: the passive thread stores a message in
  \<open>passive_msg_ptr_\<close> and passes two "two thread barriers"; the thread in \<open>recvMessg\<close> passes the
  same two barriers around its copy.  A barrier is a flag under a mutex and one
  \<open>pthread_cond_wait\<close> without a loop around it.  The section under the mutex up to the wait is one
  step, waking up is another; POSIX allows a wait to return without a signal.
\<close>

section \<open>State and steps\<close>

datatype passive_pc = PReceive | PFirst | PFirstWait | PSecond | PSecondWait
datatype user_pc = UFirst | UFirstWait | UCopy | USecond | USecondWait

record 'm handoff =
  ho_bool :: bool
  ho_passive :: passive_pc
  ho_user :: user_pc
  ho_passive_signalled :: bool
  ho_user_signalled :: bool
  ho_msg_ptr :: "'m option"
  ho_incoming :: "'m list"
  ho_received :: "'m list"
  ho_null_dereferenced :: bool

definition handoff_init :: "'m list \<Rightarrow> 'm handoff" where
  "handoff_init ms =
     \<lparr>ho_bool = False, ho_passive = PReceive, ho_user = UFirst, ho_passive_signalled = False,
      ho_user_signalled = False, ho_msg_ptr = None, ho_incoming = ms, ho_received = [],
      ho_null_dereferenced = False\<rparr>"

text \<open>\<open>pthread_cond_signal\<close> wakes a thread that waits, and is lost if none does.\<close>

definition signal_user :: "'m handoff \<Rightarrow> 'm handoff" where
  "signal_user s =
     (if ho_user s = UFirstWait \<or> ho_user s = USecondWait then s\<lparr>ho_user_signalled := True\<rparr> else s)"

definition signal_passive :: "'m handoff \<Rightarrow> 'm handoff" where
  "signal_passive s =
     (if ho_passive s = PFirstWait \<or> ho_passive s = PSecondWait then s\<lparr>ho_passive_signalled := True\<rparr> else s)"

text \<open>A barrier of each thread: wait behind it, or go through and signal.\<close>

definition passive_barrier :: "passive_pc \<Rightarrow> passive_pc \<Rightarrow> 'm handoff \<Rightarrow> 'm handoff" where
  "passive_barrier waiting behind s =
     (if \<not> ho_bool s then s\<lparr>ho_bool := True, ho_passive := waiting\<rparr>
      else signal_user (s\<lparr>ho_bool := False, ho_passive := behind\<rparr>))"

definition user_barrier :: "user_pc \<Rightarrow> user_pc \<Rightarrow> 'm handoff \<Rightarrow> 'm handoff" where
  "user_barrier waiting behind s =
     (if \<not> ho_bool s then s\<lparr>ho_bool := True, ho_user := waiting\<rparr>
      else signal_passive (s\<lparr>ho_bool := False, ho_user := behind\<rparr>))"

definition passive_step :: "bool \<Rightarrow> 'm handoff \<Rightarrow> 'm handoff option" where
  "passive_step spurious s =
     (case ho_passive s of
        PReceive \<Rightarrow> (case ho_incoming s of
            [] \<Rightarrow> None
          | m # ms \<Rightarrow> Some (s\<lparr>ho_msg_ptr := Some m, ho_incoming := ms, ho_passive := PFirst\<rparr>))
      | PFirst \<Rightarrow> Some (passive_barrier PFirstWait PSecond s)
      | PFirstWait \<Rightarrow> (if ho_passive_signalled s \<or> spurious
          then Some (s\<lparr>ho_passive := PSecond, ho_passive_signalled := False\<rparr>) else None)
      | PSecond \<Rightarrow> Some (passive_barrier PSecondWait PReceive s)
      | PSecondWait \<Rightarrow> (if ho_passive_signalled s \<or> spurious
          then Some (s\<lparr>ho_passive := PReceive, ho_passive_signalled := False\<rparr>) else None))"

definition user_step :: "bool \<Rightarrow> 'm handoff \<Rightarrow> 'm handoff option" where
  "user_step spurious s =
     (case ho_user s of
        UFirst \<Rightarrow> Some (user_barrier UFirstWait UCopy s)
      | UFirstWait \<Rightarrow> (if ho_user_signalled s \<or> spurious
          then Some (s\<lparr>ho_user := UCopy, ho_user_signalled := False\<rparr>) else None)
      | UCopy \<Rightarrow> Some (case ho_msg_ptr s of
            None \<Rightarrow> s\<lparr>ho_null_dereferenced := True, ho_user := USecond\<rparr>
          | Some m \<Rightarrow> s\<lparr>ho_received := ho_received s @ [m], ho_msg_ptr := None, ho_user := USecond\<rparr>)
      | USecond \<Rightarrow> Some (user_barrier USecondWait UFirst s)
      | USecondWait \<Rightarrow> (if ho_user_signalled s \<or> spurious
          then Some (s\<lparr>ho_user := UFirst, ho_user_signalled := False\<rparr>) else None))"

inductive handoff_step :: "bool \<Rightarrow> 'm handoff \<Rightarrow> 'm handoff \<Rightarrow> bool" for spurious where
  passive_moves: "passive_step w s = Some s' \<Longrightarrow> w \<longrightarrow> spurious \<Longrightarrow> handoff_step spurious s s'"
| user_moves: "user_step w s = Some s' \<Longrightarrow> w \<longrightarrow> spurious \<Longrightarrow> handoff_step spurious s s'"

section \<open>Invariant\<close>

text \<open>
  The reachable control states: program counter and signal of each thread, the flag, and whether a
  message is stored; first those between the second barrier and the first, then those between
  the first and the second.
\<close>

definition control :: "'m handoff \<Rightarrow> passive_pc \<times> bool \<times> user_pc \<times> bool \<times> bool \<times> bool" where
  "control s = (ho_passive s, ho_passive_signalled s, ho_user s, ho_user_signalled s, ho_bool s,
     ho_msg_ptr s \<noteq> None)"

definition controls :: "(passive_pc \<times> bool \<times> user_pc \<times> bool \<times> bool \<times> bool) set" where
  "controls =
     {(PSecondWait, True, UFirst, False, False, False),
      (PSecondWait, True, UFirstWait, False, True, False),
      (PReceive, False, USecondWait, True, False, False),
      (PReceive, False, UFirst, False, False, False),
      (PReceive, False, UFirstWait, False, True, False),
      (PFirst, False, USecondWait, True, False, True),
      (PFirst, False, UFirst, False, False, True),
      (PFirst, False, UFirstWait, False, True, True),
      (PFirstWait, False, USecondWait, True, True, True),
      (PFirstWait, False, UFirst, False, True, True),
      (PFirstWait, True, UCopy, False, False, True),
      (PFirstWait, True, USecond, False, False, False),
      (PFirstWait, True, USecondWait, False, True, False),
      (PSecond, False, UFirstWait, True, False, True),
      (PSecond, False, UCopy, False, False, True),
      (PSecond, False, USecond, False, False, False),
      (PSecond, False, USecondWait, False, True, False),
      (PSecondWait, False, UFirstWait, True, True, True),
      (PSecondWait, False, UCopy, False, True, True),
      (PSecondWait, False, USecond, False, True, False)}"

definition handoff_inv :: "'m list \<Rightarrow> 'm handoff \<Rightarrow> bool" where
  "handoff_inv ms s \<longleftrightarrow> control s \<in> controls \<and> \<not> ho_null_dereferenced s \<and>
     ho_received s @ (case ho_msg_ptr s of None \<Rightarrow> [] | Some m \<Rightarrow> [m]) @ ho_incoming s = ms"

lemma handoff_init_inv: "handoff_inv ms (handoff_init ms)"
  by (simp add: handoff_inv_def handoff_init_def control_def controls_def)

lemma in_controls [simp]:
  "(PSecondWait, True, UFirst, False, False, False) \<in> controls"
  "(PSecondWait, True, UFirstWait, False, True, False) \<in> controls"
  "(PReceive, False, USecondWait, True, False, False) \<in> controls"
  "(PReceive, False, UFirst, False, False, False) \<in> controls"
  "(PReceive, False, UFirstWait, False, True, False) \<in> controls"
  "(PFirst, False, USecondWait, True, False, True) \<in> controls"
  "(PFirst, False, UFirst, False, False, True) \<in> controls"
  "(PFirst, False, UFirstWait, False, True, True) \<in> controls"
  "(PFirstWait, False, USecondWait, True, True, True) \<in> controls"
  "(PFirstWait, False, UFirst, False, True, True) \<in> controls"
  "(PFirstWait, True, UCopy, False, False, True) \<in> controls"
  "(PFirstWait, True, USecond, False, False, False) \<in> controls"
  "(PFirstWait, True, USecondWait, False, True, False) \<in> controls"
  "(PSecond, False, UFirstWait, True, False, True) \<in> controls"
  "(PSecond, False, UCopy, False, False, True) \<in> controls"
  "(PSecond, False, USecond, False, False, False) \<in> controls"
  "(PSecond, False, USecondWait, False, True, False) \<in> controls"
  "(PSecondWait, False, UFirstWait, True, True, True) \<in> controls"
  "(PSecondWait, False, UCopy, False, True, True) \<in> controls"
  "(PSecondWait, False, USecond, False, True, False) \<in> controls"
  by (simp_all add: controls_def)

lemma passive_step_control:
  assumes c: "control s \<in> controls" and st: "passive_step False s = Some s'"
  shows "control s' \<in> controls"
  using c [unfolded controls_def] st
  by (elim insertE emptyE)
    (auto simp: control_def passive_step_def passive_barrier_def signal_user_def split: list.splits)

lemma user_step_control:
  assumes c: "control s \<in> controls" and st: "user_step False s = Some s'"
  shows "control s' \<in> controls \<and> (ho_null_dereferenced s' \<longrightarrow> ho_null_dereferenced s)"
  using c [unfolded controls_def] st
  by (elim insertE emptyE)
    (auto simp: control_def user_step_def user_barrier_def signal_passive_def split: option.splits)

text \<open>The messages, in order, and the pointer.\<close>

lemma passive_step_messages:
  assumes "passive_step False s = Some s'" "ho_passive s = PReceive \<longrightarrow> ho_msg_ptr s = None"
  shows "ho_received s' @ (case ho_msg_ptr s' of None \<Rightarrow> [] | Some m \<Rightarrow> [m]) @ ho_incoming s' =
     ho_received s @ (case ho_msg_ptr s of None \<Rightarrow> [] | Some m \<Rightarrow> [m]) @ ho_incoming s \<and>
     ho_null_dereferenced s' = ho_null_dereferenced s"
  using assms
  by (cases "ho_passive s")
    (auto simp: passive_step_def passive_barrier_def signal_user_def split: list.splits if_splits)

lemma user_step_messages:
  assumes "user_step False s = Some s'"
  shows "ho_received s' @ (case ho_msg_ptr s' of None \<Rightarrow> [] | Some m \<Rightarrow> [m]) @ ho_incoming s' =
     ho_received s @ (case ho_msg_ptr s of None \<Rightarrow> [] | Some m \<Rightarrow> [m]) @ ho_incoming s"
  using assms
  by (cases "ho_user s")
    (auto simp: user_step_def user_barrier_def signal_passive_def split: option.splits if_splits)

lemma passive_step_inv: "handoff_inv ms s \<Longrightarrow> passive_step False s = Some s' \<Longrightarrow> handoff_inv ms s'"
proof -
  assume i: "handoff_inv ms s" and st: "passive_step False s = Some s'"
  then have "ho_passive s = PReceive \<longrightarrow> ho_msg_ptr s = None"
    unfolding handoff_inv_def controls_def control_def by auto
  with passive_step_control [of s s'] passive_step_messages [OF st] i st show ?thesis
    unfolding handoff_inv_def by metis
qed

lemma user_step_inv: "handoff_inv ms s \<Longrightarrow> user_step False s = Some s' \<Longrightarrow> handoff_inv ms s'"
  using user_step_control [of s s'] user_step_messages [of s s'] unfolding handoff_inv_def by metis

lemma handoff_step_inv: "handoff_step False s s' \<Longrightarrow> handoff_inv ms s \<Longrightarrow> handoff_inv ms s'"
  by (auto elim!: handoff_step.cases dest: passive_step_inv user_step_inv)

lemma handoff_progress:
  assumes "handoff_inv ms s" "ho_received s \<noteq> ms"
  shows "\<exists>s'. handoff_step False s s'"
proof -
  have "passive_step False s \<noteq> None \<or> user_step False s \<noteq> None"
    using assms unfolding handoff_inv_def controls_def control_def
    by (elim conjE insertE emptyE; cases "ho_incoming s")
      (auto simp: passive_step_def user_step_def split: option.splits)
  then show ?thesis by (auto intro: handoff_step.intros)
qed

section \<open>Properties\<close>

text \<open>
  Property C40: the hand-over of data messages, if no wait returns without a signal. The copying
  thread never dereferences a null pointer, the messages received are those that arrived, each
  once and in order (the one being handed over and those not yet fetched follow), and as long as
  a message has not been received some thread can move.
\<close>

theorem message_handoff:
  assumes "rtranclp (handoff_step False) (handoff_init ms) s"
  shows "\<not> ho_null_dereferenced s \<and>
    ho_received s @ (case ho_msg_ptr s of None \<Rightarrow> [] | Some m \<Rightarrow> [m]) @ ho_incoming s = ms \<and>
    (ho_received s \<noteq> ms \<longrightarrow> (\<exists>s'. handoff_step False s s'))"
proof -
  have "handoff_inv ms s"
    using assms by (rule rtranclp_induct) (use handoff_init_inv handoff_step_inv in blast)+
  then show ?thesis using handoff_progress [of ms s] by (simp add: handoff_inv_def)
qed

lemma message_handoff_witness:
  "\<exists>s. rtranclp (handoff_step False) (handoff_init [7 :: nat]) s \<and> ho_received s = [7] \<and> ho_incoming s = []"
proof -
  let ?s1 = "(handoff_init [7 :: nat])\<lparr>ho_bool := True, ho_user := UFirstWait\<rparr>"
  let ?s2 = "?s1\<lparr>ho_msg_ptr := Some 7, ho_incoming := [], ho_passive := PFirst\<rparr>"
  let ?s3 = "?s2\<lparr>ho_bool := False, ho_passive := PSecond, ho_user_signalled := True\<rparr>"
  let ?s4 = "?s3\<lparr>ho_user := UCopy, ho_user_signalled := False\<rparr>"
  let ?s5 = "?s4\<lparr>ho_received := [7], ho_msg_ptr := None, ho_user := USecond\<rparr>"
  have "handoff_step False (handoff_init [7]) ?s1"
    by (rule user_moves [where w = False]) (simp_all add: user_step_def user_barrier_def handoff_init_def)
  moreover have "handoff_step False ?s1 ?s2"
    by (rule passive_moves [where w = False]) (simp_all add: passive_step_def handoff_init_def)
  moreover have "handoff_step False ?s2 ?s3"
    by (rule passive_moves [where w = False])
      (simp_all add: passive_step_def passive_barrier_def signal_user_def handoff_init_def)
  moreover have "handoff_step False ?s3 ?s4"
    by (rule user_moves [where w = False]) (simp_all add: user_step_def handoff_init_def)
  moreover have "handoff_step False ?s4 ?s5"
    by (rule user_moves [where w = False]) (simp_all add: user_step_def handoff_init_def)
  ultimately have run: "rtranclp (handoff_step False) (handoff_init [7]) ?s5"
    by (meson r_into_rtranclp rtranclp_trans)
  from message_handoff [OF run] run show ?thesis
    by (intro exI [of _ ?s5]) (simp add: handoff_init_def)
qed

text \<open>
  With a wake-up without a signal, which POSIX allows, the hand-over fails: the
  thread in \<open>recvMessg\<close> leaves the first barrier before any message is there and dereferences the
  null pointer.
\<close>

theorem message_handoff_spurious:
  "\<exists>s. rtranclp (handoff_step True) (handoff_init ms) s \<and> ho_null_dereferenced s \<and> ho_incoming s = ms"
proof -
  let ?s1 = "(handoff_init ms)\<lparr>ho_bool := True, ho_user := UFirstWait\<rparr>"
  let ?s2 = "?s1\<lparr>ho_user := UCopy\<rparr>"
  let ?s3 = "?s2\<lparr>ho_null_dereferenced := True, ho_user := USecond\<rparr>"
  have "handoff_step True (handoff_init ms) ?s1"
    by (rule user_moves [where w = False]) (simp_all add: user_step_def user_barrier_def handoff_init_def)
  moreover have "handoff_step True ?s1 ?s2"
    by (rule user_moves [where w = True]) (simp_all add: user_step_def handoff_init_def)
  moreover have "handoff_step True ?s2 ?s3"
    by (rule user_moves [where w = False]) (simp_all add: user_step_def handoff_init_def)
  ultimately have "rtranclp (handoff_step True) (handoff_init ms) ?s3"
    by (meson r_into_rtranclp rtranclp_trans)
  then show ?thesis by (intro exI [of _ ?s3]) (simp add: handoff_init_def)
qed

end
