(* ===== verification/Dissemination_Barrier.thy ===== *)
theory Dissemination_Barrier
  imports Channel_Network Group_Ranks Collective_Run "HOL-Library.Log_Nat"
begin

text \<open>
  \<open>collectives/Barrier.cpp\<close>, the dissemination barrier: in step \<open>i\<close> a rank signals the rank
  \<open>2 ^ i\<close> positions after it and waits for the one \<open>2 ^ i\<close> positions before it.  The buffers are
  empty; what they carry is the notification.  \<open>execute\<close> is a blocking call: its control state is
  the place where it stands, and a wait that finds no notification changes nothing.
\<close>

section \<open>Constructor\<close>

text \<open>
  \<open>std::ceil(std::log2(group.size()))\<close>: the logarithm of a power of two is exact, and no other
  group size comes near one, so that the rounding of the floating point numbers plays no role.
\<close>

definition number_steps :: "nat \<Rightarrow> nat" where
  "number_steps p = ceillog2 p"

text \<open>
  The operators of \<open>Rank\<close> with an \<open>int\<close> argument; the group size is converted to \<open>int\<close>.
\<close>

definition bar_target :: "nat \<Rightarrow> nat \<Rightarrow> nat \<Rightarrow> nat" where
  "bar_target p r i = unat (get (the (rank_mod_int (rank_plus_int (Rank (of_nat r)) (2 ^ i)) (of_nat p))))"

definition bar_source :: "nat \<Rightarrow> nat \<Rightarrow> nat \<Rightarrow> nat" where
  "bar_source p r i =
     unat (get (the (rank_mod_int
       (rank_minus_int (rank_plus_int (Rank (of_nat r)) (of_nat p)) (2 ^ i)) (of_nat p))))"

datatype bar_slot = SourceBuffers nat | TargetBuffers nat

text \<open>The connection requests in the order of the loop.\<close>

definition bar_connections :: "nat \<Rightarrow> nat \<Rightarrow> bar_slot endpoint list" where
  "bar_connections p r =
     concat (map (\<lambda>i.
       [\<lparr>ep_source = True, ep_slot = SourceBuffers i, ep_partner = bar_target p r i, ep_tag = bar_target p r i\<rparr>,
        \<lparr>ep_source = False, ep_slot = TargetBuffers i, ep_partner = bar_source p r i, ep_tag = r\<rparr>])
       [0..<number_steps p])"

text \<open>The channel of \<open>source_buffers[i]\<close> of rank \<open>r\<close>.\<close>

definition bar_chan :: "nat \<Rightarrow> nat \<Rightarrow> nat \<Rightarrow> bar_slot chan" where
  "bar_chan p r i = \<lparr>c_src = r, c_sslot = SourceBuffers i, c_dst = bar_target p r i, c_dslot = TargetBuffers i,
                     c_tag = bar_target p r i\<rparr>"

section \<open>The execution\<close>

datatype bar_pc =
  Outside | InitTransfer nat | WaitForCompletion nat | AckTransfer nat | WaitForTransferAck nat

record bar_ctl =
  returned :: nat
  place :: bar_pc

type_synonym 'v bar_net = "(bar_ctl, bar_slot, 'v) net"

text \<open>The head of the loop: the next step, or the return of \<open>execute\<close>.\<close>

definition bar_loop :: "nat \<Rightarrow> nat \<Rightarrow> bar_ctl \<Rightarrow> bar_ctl" where
  "bar_loop p i s =
     (if i < number_steps p then s\<lparr>place := InitTransfer i\<rparr> else s\<lparr>place := Outside, returned := returned s + 1\<rparr>)"

definition bar_execute :: "nat \<Rightarrow> nat \<Rightarrow> 'v bar_net \<Rightarrow> 'v bar_net" where
  "bar_execute p r n =
     (let s = ctl n r in
      case place s of
        Outside \<Rightarrow> set_ctl r (bar_loop p 0 s) n
      | InitTransfer i \<Rightarrow> set_ctl r (s\<lparr>place := WaitForCompletion i\<rparr>) (initTransfer (bar_chan p r i) n)
      | WaitForCompletion i \<Rightarrow>
          (case checkForCompletion (bar_chan p (bar_source p r i) i) n of
             (done, n1) \<Rightarrow> if done then set_ctl r (s\<lparr>place := AckTransfer i\<rparr>) n1 else n1)
      | AckTransfer i \<Rightarrow>
          set_ctl r (s\<lparr>place := WaitForTransferAck i\<rparr>) (ackTransfer (bar_chan p (bar_source p r i) i) n)
      | WaitForTransferAck i \<Rightarrow>
          (case checkForTransferAck (bar_chan p r i) n of
             (done, n1) \<Rightarrow> if done then set_ctl r (bar_loop p (i + 1) s) n1 else n1))"

inductive bar_step for env :: "'v bar_net \<Rightarrow> 'v bar_net \<Rightarrow> bool" and p :: nat where
  thread: "r < p \<Longrightarrow> bar_step env p n (bar_execute p r n)"
| transfer: "env n n' \<Longrightarrow> bar_step env p n n'"

definition bar_init :: "'v bar_net \<Rightarrow> bool" where
  "bar_init n \<longleftrightarrow> ctl n = (\<lambda>_. \<lparr>returned = 0, place = Outside\<rparr>) \<and> pend n = (\<lambda>_. 0) \<and> flag n = (\<lambda>_. False) \<and>
     apend n = (\<lambda>_. 0) \<and> aflag n = (\<lambda>_. False)"

text \<open>How many calls of \<open>execute\<close> a rank has made.\<close>

definition entered :: "bar_ctl \<Rightarrow> nat" where
  "entered s = returned s + (if place s = Outside then 0 else 1)"

section \<open>The partners\<close>

lemma step_below: "i < number_steps p \<Longrightarrow> 2 ^ i < p"
  unfolding number_steps_def
  by (metis ceillog2_le_iff ceillog2_0 leI linorder_not_less not_less_zero neq0_conv)

lemma steps_enough: "p \<le> 2 ^ number_steps p"
  unfolding number_steps_def
  by (metis ceillog2_le_iff le_refl neq0_conv zero_le)

lemma unat_rank_mod:
  assumes "0 < p" "p \<le> 2 ^ 15"
  shows "unat (get (the (rank_mod_int a (of_nat p)))) = unat (get a) mod p"
proof -
  have s: "sint (of_nat p :: 32 word) = int p"
    using assms by (simp add: signed_of_nat signed_take_bit_int_eq_self)
  have "(of_nat p :: 32 word) \<noteq> 0" using s assms(1) by (metis of_nat_eq_0_iff not_gr0 signed_0)
  moreover have "unat (word_of_int (int x mod int p) :: u16) = x mod p" for x
  proof -
    have "x mod p < p" using assms(1) by simp
    then have "x mod p < 2 ^ 16" using assms(2) by simp
    moreover have "(word_of_int (int x mod int p) :: u16) = of_nat (x mod p)" by (simp flip: zmod_int)
    ultimately show ?thesis by (simp add: unat_of_nat take_bit_nat_eq_self)
  qed
  from this [of "unat (get a)"] have "unat (word_of_int (uint (get a) mod int p) :: u16) = unat (get a) mod p"
    by simp
  ultimately show ?thesis by (simp add: rank_mod_int_def s)
qed

lemma ucast_of_nat_small: "b < 2 ^ 16 \<Longrightarrow> (ucast (of_nat b :: 32 word) :: u16) = of_nat b"
  by (simp add: unsigned_of_nat take_bit_nat_eq_self)

lemma unat_rank_plus_small:
  assumes "a + b < 2 ^ 16" shows "rank_plus_int (Rank (of_nat a)) (of_nat b) = Rank (of_nat (a + b))"
  using assms ucast_of_nat_small [of b] by (simp add: rank_plus_int_def rank_plus_def)

lemma bar_target_eq:
  assumes "p \<le> 2 ^ 15" "r < p" "i < number_steps p"
  shows "bar_target p r i = (r + 2 ^ i) mod p"
proof -
  have b: "r + 2 ^ i < 2 ^ 16" using step_below [OF assms(3)] assms(1,2) by simp
  have "rank_plus_int (Rank (of_nat r)) (2 ^ i) = Rank (of_nat (r + 2 ^ i))"
    using unat_rank_plus_small [OF b] by simp
  then show ?thesis using assms b
    by (simp add: bar_target_def unat_rank_mod unat_of_nat take_bit_nat_eq_self del: of_nat_add)
qed

lemma bar_source_eq:
  assumes "p \<le> 2 ^ 15" "r < p" "i < number_steps p"
  shows "bar_source p r i = (r + (p - 2 ^ i)) mod p"
proof -
  have lt: "2 ^ i < p" by (rule step_below [OF assms(3)])
  have b: "r + p < 2 ^ 16" using assms(1,2) by simp
  have "rank_minus_int (Rank (of_nat (r + p))) (2 ^ i) = Rank (of_nat (r + (p - 2 ^ i)))"
  proof -
    have "r + p = (r + (p - 2 ^ i)) + 2 ^ i" using lt by simp
    then have e: "(of_nat (r + p) :: u16) = of_nat (r + (p - 2 ^ i)) + of_nat (2 ^ i)"
      by (metis of_nat_add)
    have "(ucast (2 ^ i :: 32 word) :: u16) = of_nat (2 ^ i)"
      using ucast_of_nat_small [of "2 ^ i"] lt assms(1) by simp
    then show ?thesis by (simp add: rank_minus_int_def rank_minus_def e del: of_nat_add)
  qed
  then show ?thesis using assms b
    by (simp add: bar_source_def unat_rank_plus_small unat_rank_mod unat_of_nat take_bit_nat_eq_self del: of_nat_add)
qed

lemma bar_partners:
  assumes "p \<le> 2 ^ 15" "r < p" "i < number_steps p"
  shows "bar_target p r i < p" "bar_source p r i < p"
    "bar_source p (bar_target p r i) i = r" "bar_target p (bar_source p r i) i = r"
proof -
  have lt: "2 ^ i < p" by (rule step_below [OF assms(3)])
  show t: "bar_target p r i < p" and s: "bar_source p r i < p"
    using assms by (simp_all add: bar_target_eq bar_source_eq)
  have "((r + 2 ^ i) mod p + (p - 2 ^ i)) mod p = (r + 2 ^ i + (p - 2 ^ i)) mod p"
    by (rule mod_add_left_eq)
  with t lt assms show "bar_source p (bar_target p r i) i = r"
    by (simp add: bar_source_eq) (simp add: bar_target_eq)
  have "((r + (p - 2 ^ i)) mod p + 2 ^ i) mod p = (r + (p - 2 ^ i) + 2 ^ i) mod p"
    by (rule mod_add_left_eq)
  with s lt assms show "bar_target p (bar_source p r i) i = r"
    by (simp add: bar_target_eq) (simp add: bar_source_eq)
qed

lemma bar_chan_inj [simp]: "bar_chan p r i = bar_chan p q j \<longleftrightarrow> r = q \<and> i = j"
  by (auto simp: bar_chan_def)

section \<open>The program order\<close>

text \<open>
  The places of one execution are numbered; \<open>passed s k\<close> says how often place \<open>k\<close> has been left.
\<close>

primrec position :: "bar_pc \<Rightarrow> nat" where
  "position Outside = 0"
| "position (InitTransfer i) = 4 * i + 1"
| "position (WaitForCompletion i) = 4 * i + 2"
| "position (AckTransfer i) = 4 * i + 3"
| "position (WaitForTransferAck i) = 4 * i + 4"

definition passed :: "bar_ctl \<Rightarrow> nat \<Rightarrow> nat" where
  "passed s k = returned s + of_bool (k < position (place s))"

definition in_program :: "nat \<Rightarrow> bar_ctl \<Rightarrow> bool" where
  "in_program p s \<longleftrightarrow> position (place s) \<le> 4 * number_steps p"

lemma entered_passed: "entered s = passed s 0"
  by (cases "place s") (simp_all add: entered_def passed_def)

lemma passed_mono: "j \<le> k \<Longrightarrow> passed s k \<le> passed s j"
  by (auto simp: passed_def)

lemma passed_Suc: "passed s j \<le> passed s k + 1"
  by (auto simp: passed_def)

lemma passed_last: "in_program p s \<Longrightarrow> passed s (4 * number_steps p) = returned s"
  by (simp add: passed_def in_program_def)

text \<open>\<open>moved\<close>: one place further, at the end of the loop back to the caller.\<close>

definition moved :: "nat \<Rightarrow> bar_ctl \<Rightarrow> bar_ctl \<Rightarrow> bool" where
  "moved p s s' \<longleftrightarrow> in_program p s' \<and>
     (\<forall>k \<le> 4 * number_steps p. passed s' k = passed s k + of_bool (k = position (place s)))"

lemma moved_inside:
  "in_program p s \<Longrightarrow> position c = position (place s) + 1 \<Longrightarrow> position c \<le> 4 * number_steps p \<Longrightarrow>
   moved p s (s\<lparr>place := c\<rparr>)"
  by (auto simp: moved_def in_program_def passed_def)

lemma moved_loop:
  "in_program p s \<Longrightarrow> position (place s) = 4 * i \<Longrightarrow> moved p s (bar_loop p i s)"
  by (auto simp: moved_def in_program_def passed_def bar_loop_def)

section \<open>Invariant\<close>

text \<open>
  On the channel of step \<open>i\<close> of rank \<open>r\<close>, what was sent was received or is on its way, and
  likewise for the acknowledgements.
\<close>

definition line_inv :: "nat \<Rightarrow> 'v bar_net \<Rightarrow> nat \<Rightarrow> nat \<Rightarrow> bool" where
  "line_inv p n r i \<longleftrightarrow> (let c = bar_chan p r i; s = ctl n r; t = ctl n (bar_target p r i) in
     passed s (4 * i + 1) = passed t (4 * i + 2) + pend n c + of_bool (flag n c) \<and>
     passed t (4 * i + 3) = passed s (4 * i + 4) + apend n c + of_bool (aflag n c))"

definition bar_inv :: "nat \<Rightarrow> 'v bar_net \<Rightarrow> bool" where
  "bar_inv p n \<longleftrightarrow> (\<forall>r < p. in_program p (ctl n r)) \<and>
     (\<forall>r < p. \<forall>i < number_steps p. line_inv p n r i) \<and>
     (\<forall>c. 0 < pend n c \<or> 0 < apend n c \<longrightarrow> (\<exists>r < p. \<exists>i < number_steps p. c = bar_chan p r i))"

lemma bar_inv_init: "bar_init n \<Longrightarrow> bar_inv p n"
  by (simp add: bar_init_def bar_inv_def line_inv_def in_program_def passed_def)

text \<open>At most one transfer and one acknowledgement are on a channel, so that no flag is lost.\<close>

lemma line_single:
  assumes "line_inv p n r i"
  shows "pend n (bar_chan p r i) + of_bool (flag n (bar_chan p r i)) \<le> 1"
    "apend n (bar_chan p r i) + of_bool (aflag n (bar_chan p r i)) \<le> 1"
proof -
  let ?s = "ctl n r" and ?t = "ctl n (bar_target p r i)"
  have "passed ?s (4 * i + 1) \<le> passed ?s (4 * i + 4) + 1" by (rule passed_Suc)
  moreover have "passed ?t (4 * i + 3) \<le> passed ?t (4 * i + 2)" by (rule passed_mono) simp
  moreover have "passed ?s (4 * i + 4) \<le> passed ?s (4 * i + 1)" by (rule passed_mono) simp
  moreover have "passed ?t (4 * i + 2) \<le> passed ?t (4 * i + 3) + 1" by (rule passed_Suc)
  ultimately show "pend n (bar_chan p r i) + of_bool (flag n (bar_chan p r i)) \<le> 1"
    "apend n (bar_chan p r i) + of_bool (aflag n (bar_chan p r i)) \<le> 1"
    using assms by (simp_all add: line_inv_def Let_def)
qed

lemma bar_inv_deliver:
  assumes "bar_inv p n" "0 < pend n c"
  shows "bar_inv p (deliver c n)"
proof -
  obtain r i where c: "r < p" "i < number_steps p" "c = bar_chan p r i"
    using assms unfolding bar_inv_def by blast
  have "line_inv p n r i" using assms c by (simp add: bar_inv_def)
  from line_single(1) [OF this] have "pend n c = 1" "\<not> flag n c"
    using assms(2) c(3) by (simp_all add: of_bool_def split: if_splits)
  then show ?thesis using assms c by (auto simp: bar_inv_def line_inv_def Let_def cnet)
qed

lemma bar_inv_deliver_ack:
  assumes "bar_inv p n" "0 < apend n c"
  shows "bar_inv p (deliver_ack c n)"
proof -
  obtain r i where c: "r < p" "i < number_steps p" "c = bar_chan p r i"
    using assms unfolding bar_inv_def by blast
  have "line_inv p n r i" using assms c by (simp add: bar_inv_def)
  from line_single(2) [OF this] have "apend n c = 1" "\<not> aflag n c"
    using assms(2) c(3) by (simp_all add: of_bool_def split: if_splits)
  then show ?thesis using assms c by (auto simp: bar_inv_def line_inv_def Let_def cnet)
qed

text \<open>
  A step of rank \<open>q\<close>: it stays where it is, or moves one place and does to its channels what the
  place asks for.
\<close>

definition bar_effect :: "nat \<Rightarrow> nat \<Rightarrow> 'v bar_net \<Rightarrow> 'v bar_net \<Rightarrow> bool" where
  "bar_effect p q n n' \<longleftrightarrow>
     (\<exists>s'. moved p (ctl n q) s' \<and> ctl n' = (ctl n)(q := s')) \<and>
     (case place (ctl n q) of
        Outside \<Rightarrow> pend n' = pend n \<and> flag n' = flag n \<and> apend n' = apend n \<and> aflag n' = aflag n
      | InitTransfer i \<Rightarrow> i < number_steps p \<and> pend n' = (pend n)(bar_chan p q i := pend n (bar_chan p q i) + 1) \<and>
          flag n' = flag n \<and> apend n' = apend n \<and> aflag n' = aflag n
      | WaitForCompletion i \<Rightarrow> i < number_steps p \<and> flag n (bar_chan p (bar_source p q i) i) \<and>
          flag n' = (flag n)(bar_chan p (bar_source p q i) i := False) \<and>
          pend n' = pend n \<and> apend n' = apend n \<and> aflag n' = aflag n
      | AckTransfer i \<Rightarrow> i < number_steps p \<and>
          apend n' = (apend n)(bar_chan p (bar_source p q i) i := apend n (bar_chan p (bar_source p q i) i) + 1) \<and>
          pend n' = pend n \<and> flag n' = flag n \<and> aflag n' = aflag n
      | WaitForTransferAck i \<Rightarrow> i < number_steps p \<and> aflag n (bar_chan p q i) \<and>
          aflag n' = (aflag n)(bar_chan p q i := False) \<and> pend n' = pend n \<and> flag n' = flag n \<and> apend n' = apend n)"

definition waiting :: "nat \<Rightarrow> nat \<Rightarrow> 'v bar_net \<Rightarrow> bool" where
  "waiting p q n \<longleftrightarrow>
     (case place (ctl n q) of
        WaitForCompletion i \<Rightarrow> \<not> flag n (bar_chan p (bar_source p q i) i)
      | WaitForTransferAck i \<Rightarrow> \<not> aflag n (bar_chan p q i)
      | _ \<Rightarrow> False)"

lemma bar_execute_effect:
  assumes "in_program p (ctl n q)"
  shows "bar_execute p q n = n \<and> waiting p q n \<or> bar_effect p q n (bar_execute p q n)"
proof (cases "place (ctl n q)")
  case Outside
  then show ?thesis using moved_loop [OF assms, of 0]
    by (auto simp: bar_execute_def bar_effect_def waiting_def cnet)
next
  case (InitTransfer i)
  then have i: "i < number_steps p" using assms by (simp add: in_program_def)
  then have "moved p (ctl n q) (ctl n q\<lparr>place := WaitForCompletion i\<rparr>)"
    using assms InitTransfer by (intro moved_inside) simp_all
  then show ?thesis using InitTransfer i by (auto simp: bar_execute_def bar_effect_def waiting_def cnet)
next
  case (WaitForCompletion i)
  then have i: "i < number_steps p" using assms by (simp add: in_program_def)
  then have "moved p (ctl n q) (ctl n q\<lparr>place := AckTransfer i\<rparr>)"
    using assms WaitForCompletion by (intro moved_inside) simp_all
  then show ?thesis using WaitForCompletion i
    by (auto simp: bar_execute_def bar_effect_def waiting_def checkForCompletion_def set_ctl_def)
next
  case (AckTransfer i)
  then have i: "i < number_steps p" using assms by (simp add: in_program_def)
  then have "moved p (ctl n q) (ctl n q\<lparr>place := WaitForTransferAck i\<rparr>)"
    using assms AckTransfer by (intro moved_inside) simp_all
  then show ?thesis using AckTransfer i by (auto simp: bar_execute_def bar_effect_def waiting_def cnet)
next
  case (WaitForTransferAck i)
  then have "moved p (ctl n q) (bar_loop p (i + 1) (ctl n q))" "i < number_steps p"
    using assms moved_loop [OF assms, of "i + 1"] by (simp_all add: in_program_def)
  then show ?thesis using WaitForTransferAck
    by (auto simp: bar_execute_def bar_effect_def waiting_def checkForTransferAck_def set_ctl_def)
qed

lemma moved_passed:
  assumes "moved p (ctl n q) s'" "ctl n' = (ctl n)(q := s')" "k \<le> 4 * number_steps p"
  shows "passed (ctl n' r) k = passed (ctl n r) k + of_bool (r = q \<and> k = position (place (ctl n q)))"
  using assms by (auto simp: moved_def)

lemma bar_inv_effect:
  assumes inv: "bar_inv p n" and q: "q < p" "p \<le> 2 ^ 15" and e: "bar_effect p q n n'"
  shows "bar_inv p n'"
proof -
  obtain s' where m: "moved p (ctl n q) s'" "ctl n' = (ctl n)(q := s')"
    using e by (auto simp: bar_effect_def)
  note P = moved_passed [OF m]
  have "line_inv p n' r i" if r: "r < p" "i < number_steps p" for r i
  proof -
    have l: "line_inv p n r i" using inv r by (simp add: bar_inv_def)
    have ne: "4 * i + 1 \<noteq> 4 * j + 2" "4 * i + 1 \<noteq> 4 * j + 3" "4 * i + 1 \<noteq> 4 * j + 4"
      "4 * i + 2 \<noteq> 4 * j + 1" "4 * i + 2 \<noteq> 4 * j + 3" "4 * i + 2 \<noteq> 4 * j + 4"
      "4 * i + 3 \<noteq> 4 * j + 1" "4 * i + 3 \<noteq> 4 * j + 2" "4 * i + 3 \<noteq> 4 * j + 4"
      "4 * i + 4 \<noteq> 4 * j + 1" "4 * i + 4 \<noteq> 4 * j + 2" "4 * i + 4 \<noteq> 4 * j + 3" for j
      by presburger+
    have src: "r = bar_source p q i \<longleftrightarrow> bar_target p r i = q"
      using bar_partners(4) [OF q(2,1) r(2)] bar_partners(3) [OF q(2) r] by auto
    have b: "4 * i + 1 \<le> 4 * number_steps p" "4 * i + 2 \<le> 4 * number_steps p"
      "4 * i + 3 \<le> 4 * number_steps p" "4 * i + 4 \<le> 4 * number_steps p" using r(2) by simp_all
    note Q = P [OF b(1), of r] P [OF b(4), of r] P [OF b(2), of "bar_target p r i"] P [OF b(3), of "bar_target p r i"]
    show ?thesis
    proof (cases "place (ctl n q)")
      case Outside
      with e l Q show ?thesis by (simp add: line_inv_def Let_def bar_effect_def)
    next
      case (InitTransfer j)
      with e l Q ne show ?thesis by (auto simp: line_inv_def Let_def bar_effect_def)
    next
      case (WaitForCompletion j)
      with e l Q ne src show ?thesis by (auto simp: line_inv_def Let_def bar_effect_def)
    next
      case (AckTransfer j)
      with e l Q ne src show ?thesis by (auto simp: line_inv_def Let_def bar_effect_def)
    next
      case (WaitForTransferAck j)
      with e l Q ne show ?thesis by (auto simp: line_inv_def Let_def bar_effect_def)
    qed
  qed
  moreover have "in_program p (ctl n' r)" if "r < p" for r
    using inv m that by (simp add: bar_inv_def moved_def)
  moreover have "\<exists>r < p. \<exists>i < number_steps p. c = bar_chan p r i" if "0 < pend n' c \<or> 0 < apend n' c" for c
  proof (cases "0 < pend n c \<or> 0 < apend n c")
    case True
    then show ?thesis using inv unfolding bar_inv_def by blast
  next
    case False
    then show ?thesis using that e q bar_partners [OF q(2,1)]
      by (cases "place (ctl n q)") (auto simp: bar_effect_def split: if_splits)
  qed
  ultimately show ?thesis unfolding bar_inv_def by blast
qed

lemma bar_inv_step:
  assumes "bar_step env p n n'" "bar_inv p n" "p \<le> 2 ^ 15" "gaspi_env env"
  shows "bar_inv p n'"
  using assms(1)
proof cases
  case (thread r)
  then show ?thesis
    using bar_execute_effect [of p n r] bar_inv_effect [OF assms(2) _ assms(3)] assms(2)
    by (metis bar_inv_def)
next
  case transfer
  with assms(4) show ?thesis
    unfolding gaspi_env_def using bar_inv_deliver [OF assms(2)] bar_inv_deliver_ack [OF assms(2)] by blast
qed

abbreviation bar_reach where
  "bar_reach env p \<equiv> (bar_step env p)\<^sup>*\<^sup>*"

lemma bar_inv_reach:
  "bar_reach env p n0 n \<Longrightarrow> bar_inv p n0 \<Longrightarrow> p \<le> 2 ^ 15 \<Longrightarrow> gaspi_env env \<Longrightarrow> bar_inv p n"
  by (induction rule: rtranclp_induct) (blast intro: bar_inv_step)+

section \<open>Synchronisation\<close>

lemma line_order:
  assumes "line_inv p n r i"
  shows "passed (ctl n (bar_target p r i)) (4 * i + 4) \<le> passed (ctl n r) (4 * i)"
proof -
  let ?s = "ctl n r" and ?t = "ctl n (bar_target p r i)"
  have "passed ?t (4 * i + 4) \<le> passed ?t (4 * i + 2)" "passed ?s (4 * i + 1) \<le> passed ?s (4 * i)"
    by (simp_all add: passed_mono)
  then show ?thesis using assms by (simp add: line_inv_def Let_def)
qed

text \<open>Whoever has finished \<open>m\<close> steps has heard of the \<open>2 ^ m\<close> ranks up to itself.\<close>

lemma heard:
  assumes "bar_inv p n" "p \<le> 2 ^ 15" "m \<le> number_steps p" "r < p" "k < passed (ctl n r) (4 * m)"
    "q < p" "d < 2 ^ m" "(q + d) mod p = r"
  shows "k < entered (ctl n q)"
  using assms(3-8)
proof (induction m arbitrary: r q d)
  case 0
  then show ?case by (simp add: entered_passed)
next
  case (Suc m)
  have m: "m < number_steps p" using Suc.prems(1) by simp
  have own: "k < passed (ctl n r) (4 * m)"
    using Suc.prems(3) passed_mono [of "4 * m" "4 * Suc m" "ctl n r"] by simp
  show ?case
  proof (cases "d < 2 ^ m")
    case True
    with Suc.IH [OF _ Suc.prems(2) own Suc.prems(4) True Suc.prems(6)] m show ?thesis by simp
  next
    case False
    define q' where "q' = (q + (d - 2 ^ m)) mod p"
    have q': "q' < p" using Suc.prems(2) by (simp add: q'_def)
    have "(q' + 2 ^ m) mod p = r"
      using False Suc.prems(6) by (simp add: q'_def mod_add_left_eq)
    then have t: "bar_target p q' m = r" using bar_target_eq [OF assms(2) q' m] by simp
    have "line_inv p n q' m" using assms(1) q' m by (simp add: bar_inv_def)
    from line_order [OF this] have "k < passed (ctl n q') (4 * m)"
      using Suc.prems(3) t by (simp add: add.commute)
    from Suc.IH [OF _ q' this Suc.prems(4), of "d - 2 ^ m"] show ?thesis
      using m False Suc.prems(5) by (simp add: q'_def)
  qed
qed

lemma bar_inv_synchronised:
  assumes "bar_inv p n" "p \<le> 2 ^ 15" "r < p" "q < p"
  shows "returned (ctl n r) \<le> entered (ctl n q)"
proof (cases "returned (ctl n r)")
  case (Suc k)
  have "in_program p (ctl n r)" using assms by (simp add: bar_inv_def)
  then have k: "k < passed (ctl n r) (4 * number_steps p)" using Suc by (simp add: passed_last)
  define d where "d = (r + (p - q)) mod p"
  have "d < p" using assms(3) by (simp add: d_def)
  then have "d < 2 ^ number_steps p" using steps_enough [of p] by simp
  moreover have "(q + d) mod p = r"
  proof -
    have "(q + d) mod p = (q + (r + (p - q))) mod p" by (simp add: d_def mod_add_right_eq)
    also have "q + (r + (p - q)) = r + p" using assms(4) by simp
    finally show ?thesis using assms(3) by simp
  qed
  ultimately show ?thesis using heard [OF assms(1,2) le_refl assms(3) k assms(4)] Suc
    by (simp add: Suc_le_eq)
qed simp

section \<open>Progress\<close>

definition places :: "nat \<Rightarrow> nat" where
  "places p = 4 * number_steps p + 1"

definition travelled :: "nat \<Rightarrow> bar_ctl \<Rightarrow> nat" where
  "travelled p s = returned s * places p + position (place s)"

lemma travelled_passed:
  assumes "in_program p s" "c * places p + k < travelled p s" "k \<le> 4 * number_steps p"
  shows "c < passed s k"
proof -
  have "c \<le> returned s"
  proof (rule ccontr)
    assume "\<not> c \<le> returned s"
    then have "(returned s + 1) * places p \<le> c * places p" by (intro mult_le_mono) simp_all
    with assms show False by (simp add: travelled_def in_program_def places_def)
  qed
  then show ?thesis using assms(2) by (cases "c = returned s") (auto simp: passed_def travelled_def)
qed

lemma moved_travelled: "in_program p s \<Longrightarrow> moved p s s' \<Longrightarrow> travelled p s' = travelled p s + 1"
proof -
  assume s: "in_program p s" and m: "moved p s s'"
  let ?N = "4 * number_steps p"
  have s': "in_program p s'" and e: "\<And>k. k \<le> ?N \<Longrightarrow> passed s' k = passed s k + of_bool (k = position (place s))"
    using m by (auto simp: moved_def)
  have N: "returned s' = returned s + of_bool (?N = position (place s))"
    using e [of ?N] passed_last [OF s] passed_last [OF s'] by simp
  show ?thesis
  proof (cases "position (place s) = ?N")
    case True
    then have "\<not> 0 < position (place s')"
      using e [of 0] N by (cases "?N = 0") (auto simp: passed_def)
    with True N show ?thesis by (simp add: travelled_def places_def)
  next
    case False
    have lt: "position (place s) < ?N" using False s by (simp add: in_program_def)
    have a: "position (place s) < position (place s')"
      using e [of "position (place s)"] N False lt by (auto simp: passed_def of_bool_def split: if_splits)
    have "\<not> position (place s) + 1 < position (place s')"
      using e [of "position (place s) + 1"] N False lt by (auto simp: passed_def)
    with a N False show ?thesis by (simp add: travelled_def)
  qed
qed

definition bar_chans :: "nat \<Rightarrow> bar_slot chan set" where
  "bar_chans p = (\<lambda>(r, i). bar_chan p r i) ` ({..<p} \<times> {..<number_steps p})"

lemma bar_chans_iff: "c \<in> bar_chans p \<longleftrightarrow> (\<exists>r < p. \<exists>i < number_steps p. c = bar_chan p r i)"
  by (auto simp: bar_chans_def)

lemma finite_bar_chans [simp]: "finite (bar_chans p)"
  by (simp add: bar_chans_def)

text \<open>What is left until every rank has returned \<open>K\<close> times.\<close>

definition bar_work :: "nat \<Rightarrow> nat \<Rightarrow> 'v bar_net \<Rightarrow> nat" where
  "bar_work p K n = 2 * (\<Sum>r < p. K * places p - travelled p (ctl n r)) + posted (bar_chans p) n"

lemma posted_effect:
  assumes "bar_effect p q n n'" "q < p" "p \<le> 2 ^ 15"
  shows "posted (bar_chans p) n' \<le> posted (bar_chans p) n + 1"
proof (cases "place (ctl n q)")
  case (InitTransfer i)
  then have "posted (bar_chans p) n' = posted (bar_chans p) (initTransfer (bar_chan p q i) n)"
    "bar_chan p q i \<in> bar_chans p"
    using assms by (auto intro!: posted_same simp: bar_effect_def cnet bar_chans_iff)
  then show ?thesis by (simp add: posted_initTransfer)
next
  case (AckTransfer i)
  then have "posted (bar_chans p) n' = posted (bar_chans p) (ackTransfer (bar_chan p (bar_source p q i) i) n)"
    "bar_chan p (bar_source p q i) i \<in> bar_chans p"
    using assms bar_partners [OF assms(3,2)]
    by (auto intro!: posted_same simp: bar_effect_def cnet bar_chans_iff)
  then show ?thesis by (simp add: posted_ackTransfer)
qed (use assms in \<open>auto simp: bar_effect_def posted_def\<close>)

lemma bar_work_effect:
  assumes "bar_effect p q n n'" "q < p" "p \<le> 2 ^ 15" "in_program p (ctl n q)"
    "travelled p (ctl n q) < K * places p"
  shows "bar_work p K n' < bar_work p K n"
proof -
  obtain s' where m: "moved p (ctl n q) s'" "ctl n' = (ctl n)(q := s')"
    using assms(1) by (auto simp: bar_effect_def)
  have "travelled p (ctl n' q) = travelled p (ctl n q) + 1"
    using moved_travelled [OF assms(4) m(1)] m(2) by simp
  moreover have "(\<Sum>r < p. K * places p - travelled p (ctl n' r)) + (K * places p - travelled p (ctl n q)) =
      (\<Sum>r < p. K * places p - travelled p (ctl n r)) + (K * places p - travelled p (ctl n' q))"
    by (rule sum_change) (use assms(2) m(2) in auto)
  ultimately show ?thesis using assms(5) posted_effect [OF assms(1-3)] unfolding bar_work_def by linarith
qed

lemma bar_work_deliver:
  assumes "bar_inv p n"
  shows "0 < pend n c \<Longrightarrow> bar_work p K (deliver c n) < bar_work p K n"
    "0 < apend n c \<Longrightarrow> bar_work p K (deliver_ack c n) < bar_work p K n"
proof -
  have c: "0 < pend n c \<or> 0 < apend n c \<Longrightarrow> c \<in> bar_chans p"
    using assms unfolding bar_chans_iff bar_inv_def by blast
  show "0 < pend n c \<Longrightarrow> bar_work p K (deliver c n) < bar_work p K n"
    using c posted_deliver [of "bar_chans p" c n] by (simp add: bar_work_def cnet)
  show "0 < apend n c \<Longrightarrow> bar_work p K (deliver_ack c n) < bar_work p K n"
    using c posted_deliver_ack [of "bar_chans p" c n] by (simp add: bar_work_def cnet)
qed

text \<open>A rank that has come least far does not wait once the posted requests are carried out.\<close>

lemma least_not_waiting:
  assumes inv: "bar_inv p n" and r: "r < p" "p \<le> 2 ^ 15" and quiet: "\<forall>c. pend n c = 0 \<and> apend n c = 0"
    and least: "\<forall>q < p. travelled p (ctl n r) \<le> travelled p (ctl n q)"
  shows "\<not> waiting p r n"
proof -
  have prog: "in_program p (ctl n q)" if "q < p" for q using inv that by (simp add: bar_inv_def)
  have ahead: "returned (ctl n r) < passed (ctl n q) k"
    if "q < p" "k < position (place (ctl n r))" for q k
  proof (rule travelled_passed)
    show "in_program p (ctl n q)" by (rule prog [OF that(1)])
    show "k \<le> 4 * number_steps p" using that(2) prog [OF r(1)] by (simp add: in_program_def)
    show "returned (ctl n r) * places p + k < travelled p (ctl n q)"
      using least that by (fastforce simp: travelled_def)
  qed
  have line: "line_inv p n q i" if "q < p" "i < number_steps p" for q i
    using inv that by (simp add: bar_inv_def)
  show ?thesis
  proof (cases "place (ctl n r)")
    case (WaitForCompletion i)
    then have i: "i < number_steps p" using prog [OF r(1)] by (simp add: in_program_def)
    note b = bar_partners [OF r(2,1) i]
    have "returned (ctl n r) < passed (ctl n (bar_source p r i)) (4 * i + 1)"
      by (rule ahead) (use b WaitForCompletion in simp_all)
    then show ?thesis using line [OF b(2) i] b quiet WaitForCompletion
      by (auto simp: line_inv_def Let_def waiting_def passed_def [of "ctl n r"])
  next
    case (WaitForTransferAck i)
    then have i: "i < number_steps p" using prog [OF r(1)] by (simp add: in_program_def)
    note b = bar_partners [OF r(2,1) i]
    have "returned (ctl n r) < passed (ctl n (bar_target p r i)) (4 * i + 3)"
      by (rule ahead) (use b WaitForTransferAck in simp_all)
    then show ?thesis using line [OF r(1) i] quiet WaitForTransferAck
      by (auto simp: line_inv_def Let_def waiting_def passed_def [of "ctl n r"])
  qed (simp_all add: waiting_def)
qed

lemma travelled_done:
  assumes "in_program p s" "travelled p s = K * places p"
  shows "s = \<lparr>returned = K, place = Outside\<rparr>"
proof -
  have lt: "position (place s) < places p" using assms(1) by (simp add: in_program_def places_def)
  have "travelled p s div places p = returned s" "travelled p s mod places p = position (place s)"
    using lt by (simp_all add: travelled_def)
  moreover have "travelled p s div places p = K" "travelled p s mod places p = 0"
    using assms(2) lt by simp_all
  ultimately show ?thesis by (cases s; cases "place s") auto
qed

lemma bar_finish:
  assumes "bar_inv p n" "p \<le> 2 ^ 15" "gaspi_env env" "gaspi_live env"
    "\<forall>r < p. travelled p (ctl n r) \<le> K * places p"
  shows "\<exists>n'. bar_reach env p n n' \<and> (\<forall>r < p. ctl n' r = \<lparr>returned = K, place = Outside\<rparr>)"
  using assms(1,5)
proof (induction n rule: measure_induct_rule [of "bar_work p K"])
  case (less n)
  have go: ?case if s: "bar_step env p n n'" and w: "bar_work p K n' < bar_work p K n"
    and t: "\<forall>r < p. travelled p (ctl n' r) \<le> K * places p" for n'
  proof -
    have "bar_inv p n'" by (rule bar_inv_step [OF s less.prems(1) assms(2,3)])
    from less.IH [OF w this t] s show ?thesis by (meson converse_rtranclp_into_rtranclp)
  qed
  have prog: "in_program p (ctl n r)" if "r < p" for r using less.prems(1) that by (simp add: bar_inv_def)
  consider c where "0 < pend n c" | c where "0 < apend n c"
    | "\<forall>c. pend n c = 0 \<and> apend n c = 0" "\<forall>r < p. travelled p (ctl n r) = K * places p"
    | r where "\<forall>c. pend n c = 0 \<and> apend n c = 0" "r < p" "travelled p (ctl n r) < K * places p"
    using less.prems(2) by (metis le_neq_implies_less not_gr0)
  then show ?case
  proof cases
    case (1 c)
    show ?thesis
      by (rule go [OF bar_step.transfer, of "deliver c n"]) (use 1 assms(4) less.prems bar_work_deliver in \<open>auto simp: gaspi_live_def cnet\<close>)
  next
    case (2 c)
    show ?thesis
      by (rule go [OF bar_step.transfer, of "deliver_ack c n"]) (use 2 assms(4) less.prems bar_work_deliver in \<open>auto simp: gaspi_live_def cnet\<close>)
  next
    case 3
    then have "\<forall>r < p. ctl n r = \<lparr>returned = K, place = Outside\<rparr>"
      using prog travelled_done by blast
    then show ?thesis by blast
  next
    case (4 r')
    obtain r where r: "r < p" "\<forall>q < p. travelled p (ctl n r) \<le> travelled p (ctl n q)"
      using ex_has_least_nat [of "\<lambda>q. q < p" r' "\<lambda>q. travelled p (ctl n q)"] 4(2) by auto
    have lt: "travelled p (ctl n r) < K * places p" using r(2) 4(2,3) le_less_trans by blast
    have e: "bar_effect p r n (bar_execute p r n)"
      using bar_execute_effect [OF prog [OF r(1)]] least_not_waiting [OF less.prems(1) r(1) assms(2) 4(1) r(2)]
      by blast
    then obtain s' where m: "moved p (ctl n r) s'" "ctl (bar_execute p r n) = (ctl n)(r := s')"
      by (auto simp: bar_effect_def)
    show ?thesis
    proof (rule go [OF bar_step.thread [OF r(1)]])
      show "bar_work p K (bar_execute p r n) < bar_work p K n"
        by (rule bar_work_effect [OF e r(1) assms(2) prog [OF r(1)] lt])
      show "\<forall>q < p. travelled p (ctl (bar_execute p r n) q) \<le> K * places p"
        using less.prems(2) m moved_travelled [OF prog [OF r(1)] m(1)] lt by simp
    qed
  qed
qed

lemma travelled_entered:
  assumes "in_program p s" "entered s \<le> K" shows "travelled p s \<le> K * places p"
proof (cases "place s = Outside")
  case True
  then show ?thesis using assms(2) by (simp add: travelled_def entered_def)
next
  case False
  then have "(returned s + 1) * places p \<le> K * places p"
    using assms(2) by (intro mult_le_mono) (simp_all add: entered_def)
  then show ?thesis using assms(1) by (simp add: travelled_def in_program_def places_def)
qed

section \<open>Properties\<close>

text \<open>
  Property C14: the barrier synchronises.  Ranks may call \<open>execute\<close> again and again, in any
  interleaving with each other and with the network: whenever a rank has returned \<open>k\<close> times, every
  rank has called at least \<open>k\<close> times.
\<close>

theorem barrier_synchronises:
  assumes "gaspi_env env" "p \<le> 2 ^ 15" "bar_init n0" "bar_reach env p n0 n" "r < p" "q < p"
  shows "returned (ctl n r) \<le> entered (ctl n q)"
  by (rule bar_inv_synchronised [OF bar_inv_reach [OF assms(4) bar_inv_init [OF assms(3)] assms(2,1)] assms(2,5,6)])

definition quiet_net :: "unit bar_net" where
  "quiet_net = \<lparr>phase = \<lambda>_. INITIALIZED, ctl = \<lambda>_. \<lparr>returned = 0, place = Outside\<rparr>, buf = \<lambda>_ _. (),
     pend = \<lambda>_. 0, flag = \<lambda>_. False, apend = \<lambda>_. 0, aflag = \<lambda>_. False\<rparr>"

lemma quiet_net_init: "bar_init quiet_net"
  by (simp add: bar_init_def quiet_net_def)

lemma barrier_synchronises_witness:
  "returned (ctl (bar_execute 2 0 quiet_net) 1) \<le> entered (ctl (bar_execute 2 0 quiet_net) 0)"
  by (rule barrier_synchronises [OF any_env_gaspi(1) _ quiet_net_init, of 2])
    (simp_all add: r_into_rtranclp bar_step.thread)

text \<open>
  Property C15: the barrier is free of deadlock.  From every reachable state in which no rank has
  called more than \<open>K\<close> times, the run can be continued until every rank has returned \<open>K\<close> times.
\<close>

theorem barrier_completes:
  assumes "gaspi_env env" "gaspi_live env" "p \<le> 2 ^ 15" "bar_init n0" "bar_reach env p n0 n"
    "\<forall>r < p. entered (ctl n r) \<le> K"
  shows "\<exists>n'. bar_reach env p n n' \<and> (\<forall>r < p. ctl n' r = \<lparr>returned = K, place = Outside\<rparr>)"
proof -
  have inv: "bar_inv p n" by (rule bar_inv_reach [OF assms(5) bar_inv_init [OF assms(4)] assms(3,1)])
  then have "\<forall>r < p. travelled p (ctl n r) \<le> K * places p"
    using assms(6) travelled_entered unfolding bar_inv_def by blast
  then show ?thesis by (rule bar_finish [OF inv assms(3,1,2)])
qed

lemma barrier_completes_witness:
  "\<exists>n'. bar_reach any_env 5 quiet_net n' \<and> (\<forall>r < 5. ctl n' r = \<lparr>returned = 3, place = Outside\<rparr>)"
  by (rule barrier_completes [OF any_env_gaspi _ quiet_net_init])
    (simp_all add: quiet_net_def entered_def)

lemma connection_request:
  "\<lparr>ep_source = True, ep_slot = sl, ep_partner = q, ep_tag = t\<rparr> \<in> set (bar_connections p r) \<longleftrightarrow>
     (\<exists>i < number_steps p. sl = SourceBuffers i \<and> q = bar_target p r i \<and> t = bar_target p r i)"
  "\<lparr>ep_source = False, ep_slot = sl, ep_partner = q, ep_tag = t\<rparr> \<in> set (bar_connections p r) \<longleftrightarrow>
     (\<exists>i < number_steps p. sl = TargetBuffers i \<and> q = bar_source p r i \<and> t = r)"
  by (auto simp: bar_connections_def)

text \<open>
  The connections of the barrier.  In a group of at most \<open>2 ^ 15\<close> ranks the requests of
  all constructors pair up to exactly the channels on which \<open>execute\<close> works.
\<close>

theorem barrier_connections:
  assumes "p \<le> 2 ^ 15"
  shows "Channel_Network.connected (\<lambda>r. if r < p then bar_connections p r else []) c \<longleftrightarrow>
         (\<exists>r < p. \<exists>i < number_steps p. c = bar_chan p r i)"
proof
  assume c: "Channel_Network.connected (\<lambda>r. if r < p then bar_connections p r else []) c"
  then have r: "c_src c < p" "c_dst c < p" by (auto simp: Channel_Network.connected_def split: if_splits)
  have "\<lparr>ep_source = True, ep_slot = c_sslot c, ep_partner = c_dst c, ep_tag = c_tag c\<rparr> \<in> set (bar_connections p (c_src c))"
    using c r(1) unfolding Channel_Network.connected_def by simp
  then obtain i where i: "i < number_steps p" "c_sslot c = SourceBuffers i"
      "c_dst c = bar_target p (c_src c) i" "c_tag c = bar_target p (c_src c) i"
    unfolding connection_request by blast
  have "\<lparr>ep_source = False, ep_slot = c_dslot c, ep_partner = c_src c, ep_tag = c_tag c\<rparr> \<in> set (bar_connections p (c_dst c))"
    using c r(2) unfolding Channel_Network.connected_def by simp
  then obtain j where j: "j < number_steps p" "c_dslot c = TargetBuffers j" "c_src c = bar_source p (c_dst c) j"
    unfolding connection_request by blast
  have "bar_target p (c_src c) j = c_dst c" using bar_partners(4) [OF assms r(2) j(1)] j(3) by metis
  then have "(c_src c + 2 ^ j) mod p = (c_src c + 2 ^ i) mod p"
    using bar_target_eq [OF assms r(1) i(1)] bar_target_eq [OF assms r(1) j(1)] i(3) by metis
  then have "2 ^ j mod p = 2 ^ i mod p" by (simp add: nat_mod_eq_iff)
  then have "(2 :: nat) ^ j = 2 ^ i"
    using step_below [OF i(1)] step_below [OF j(1)] by simp
  then have "j = i" by simp
  then show "\<exists>r < p. \<exists>i < number_steps p. c = bar_chan p r i"
    using i(1,2,4) j(2) r(1) i(3) [symmetric]
    by (intro exI [of _ "c_src c"] conjI exI [of _ i]) (simp_all add: bar_chan_def)
next
  assume "\<exists>r < p. \<exists>i < number_steps p. c = bar_chan p r i"
  then obtain r i where r: "r < p" "i < number_steps p" "c = bar_chan p r i" by blast
  note b = bar_partners [OF assms r(1,2)]
  show "Channel_Network.connected (\<lambda>r. if r < p then bar_connections p r else []) c"
    using r b by (auto simp: Channel_Network.connected_def connection_request bar_chan_def)
qed

lemma barrier_connections_witness:
  "Channel_Network.connected (\<lambda>r. if r < 2 then bar_connections 2 r else []) (bar_chan 2 1 0)"
proof -
  have "number_steps 2 = 1" by (simp add: number_steps_def)
  then show ?thesis using barrier_connections [of 2 "bar_chan 2 1 0"] by (simp; fastforce)
qed

text \<open>
  In larger groups the sum of rank and group size wraps at 16 bits: among 40000 ranks the last one
  waits for a rank that signals another one.
\<close>

lemma barrier_rank_overflow:
  "bar_source 40000 39999 0 = 14462 \<and> bar_target 40000 14462 0 = 14463"
  by (simp add: bar_source_def bar_target_def rank_mod_int_def rank_plus_int_def rank_minus_int_def
      rank_plus_def rank_minus_def)

end
