(* ===== verification/Progress_Engine.thy ===== *)
theory Progress_Engine
  imports Gaspi_Prelude
begin

text \<open>
  \<open>progress_engine/RoundRobinDedicatedThread\<close>: collectives are registered in a table; a thread of
  its own copies the table when it has changed and calls \<open>triggerProgress\<close> of every collective in
  turn.  Between two accesses to the mutex or to the condition variable the threads interleave in
  any way.
\<close>

section \<open>State\<close>

text \<open>
  \<open>ManHead\<close>: the head of the while loop; \<open>ManLock\<close>: before the mutex is taken; \<open>ManWait\<close>: inside
  \<open>condition.wait\<close>; \<open>ManCheck\<close>: before the second look at \<open>terminate_man_thread\<close>; \<open>ManPass cs\<close>: in
  the for loop, with \<open>cs\<close> still to be visited.
\<close>

datatype 'c man_place = ManHead | ManLock | ManWait | ManCheck | ManPass "'c list" | ManEnded

text \<open>
  A thread inside \<open>register_collective\<close>: it has left the mutex and is about to notify, or it has
  notified and is about to read \<open>current_handle\<close> for its result.
\<close>

datatype caller_place = NotCalling | Notifying | Returning

text \<open>
  \<open>woken\<close>: the condition has been notified since the thread began to wait; \<open>visited\<close> and
  \<open>results\<close> record the calls of \<open>triggerProgress\<close> and what \<open>register_collective\<close> returned.
\<close>

record 'c engine =
  updated_operators :: bool
  current_handle :: u64
  operators :: "u64 \<rightharpoonup> 'c"
  terminate_man_thread :: bool
  man_place :: "'c man_place"
  current_operators :: "'c list"
  woken :: bool
  caller :: "nat \<Rightarrow> caller_place"
  closing :: bool
  visited :: "'c list"
  results :: "(nat \<times> u64) list"

definition engine_construct :: "'c engine" where
  "engine_construct = \<lparr>updated_operators = False, current_handle = 0, operators = (\<lambda>_. None),
     terminate_man_thread = False, man_place = ManHead, current_operators = [], woken = False,
     caller = (\<lambda>_. NotCalling), closing = False, visited = [], results = []\<rparr>"

section \<open>The management thread\<close>

text \<open>
  The section under the mutex: the predicate of the wait, then the copy of the table.  The order in
  which an \<open>unordered_map\<close> is iterated is unspecified; it is the parameter \<open>enum\<close>.
\<close>

definition man_section :: "((u64 \<rightharpoonup> 'c) \<Rightarrow> (u64 \<times> 'c) list) \<Rightarrow> 'c engine \<Rightarrow> 'c engine" where
  "man_section enum s =
     (if operators s \<noteq> (\<lambda>_. None) \<or> terminate_man_thread s then
        let s1 = (if updated_operators s
                  then s\<lparr>current_operators := map snd (enum (operators s)), updated_operators := False\<rparr> else s)
        in s1\<lparr>man_place := ManCheck\<rparr>
      else s\<lparr>man_place := ManWait, woken := False\<rparr>)"

definition generate_progress :: "((u64 \<rightharpoonup> 'c) \<Rightarrow> (u64 \<times> 'c) list) \<Rightarrow> 'c engine \<Rightarrow> 'c engine" where
  "generate_progress enum s =
     (case man_place s of
        ManHead \<Rightarrow> s\<lparr>man_place := (if terminate_man_thread s then ManEnded else ManLock)\<rparr>
      | ManLock \<Rightarrow> man_section enum s
      | ManWait \<Rightarrow> if woken s then man_section enum s else s
      | ManCheck \<Rightarrow> s\<lparr>man_place := (if terminate_man_thread s then ManHead else ManPass (current_operators s))\<rparr>
      | ManPass [] \<Rightarrow> s\<lparr>man_place := ManHead\<rparr>
      | ManPass (op # ops) \<Rightarrow> s\<lparr>man_place := ManPass ops, visited := visited s @ [op]\<rparr>
      | ManEnded \<Rightarrow> s)"

definition notify_one :: "'c engine \<Rightarrow> 'c engine" where
  "notify_one s = s\<lparr>woken := True\<rparr>"

section \<open>The callers\<close>

text \<open>The section under the mutex.  An exception leaves the flag and the counter changed.\<close>

definition register_section :: "nat \<Rightarrow> 'c \<Rightarrow> 'c engine \<Rightarrow> unit res \<times> 'c engine" where
  "register_section t collective s =
     (let s1 = s\<lparr>updated_operators := True, current_handle := current_handle s + 1\<rparr>
      in case operators s1 (current_handle s1) of
           None \<Rightarrow> (Inr (), s1\<lparr>operators := (operators s1)(current_handle s1 \<mapsto> collective),
                              caller := (caller s1)(t := Notifying)\<rparr>)
         | Some _ \<Rightarrow> (Inl (LogicError ''ProgressEngine: Handle has already been used.''), s1))"

definition register_notify :: "nat \<Rightarrow> 'c engine \<Rightarrow> 'c engine" where
  "register_notify t s = (notify_one s)\<lparr>caller := (caller s)(t := Returning)\<rparr>"

definition register_return :: "nat \<Rightarrow> 'c engine \<Rightarrow> u64 \<times> 'c engine" where
  "register_return t s =
     (current_handle s, s\<lparr>caller := (caller s)(t := NotCalling), results := results s @ [(t, current_handle s)]\<rparr>)"

definition deregister_collective :: "u64 \<Rightarrow> 'c engine \<Rightarrow> unit res \<times> 'c engine" where
  "deregister_collective handle s =
     (let s1 = s\<lparr>updated_operators := True, operators := (operators s)(handle := None)\<rparr>
      in case operators s handle of
           Some _ \<Rightarrow> (Inr (), s1)
         | None \<Rightarrow> (Inl (LogicError ''ProgressEngine: Could not remove operator''), s1))"

text \<open>The destructor: the flag under the mutex, then the notification; the join waits for
  \<open>ManEnded\<close>.\<close>

definition engine_destroy_section :: "'c engine \<Rightarrow> 'c engine" where
  "engine_destroy_section s = s\<lparr>terminate_man_thread := True, closing := True\<rparr>"

definition engine_destroy_notify :: "'c engine \<Rightarrow> 'c engine" where
  "engine_destroy_notify s = (notify_one s)\<lparr>closing := False\<rparr>"

text \<open>\<open>spurious\<close>: a wait may return without a notification.\<close>

inductive engine_step :: "((u64 \<rightharpoonup> 'c) \<Rightarrow> (u64 \<times> 'c) list) \<Rightarrow> 'c engine \<Rightarrow> 'c engine \<Rightarrow> bool" for enum where
  manage: "engine_step enum s (generate_progress enum s)"
| spurious: "man_place s = ManWait \<Longrightarrow> engine_step enum s (man_section enum s)"
| register: "caller s t = NotCalling \<Longrightarrow> engine_step enum s (snd (register_section t c s))"
| notify: "caller s t = Notifying \<Longrightarrow> engine_step enum s (register_notify t s)"
| return: "caller s t = Returning \<Longrightarrow> engine_step enum s (snd (register_return t s))"
| deregister: "engine_step enum s (snd (deregister_collective h s))"
| destroy: "\<not> terminate_man_thread s \<Longrightarrow> engine_step enum s (engine_destroy_section s)"
| destroy_notify: "closing s \<Longrightarrow> engine_step enum s (engine_destroy_notify s)"

abbreviation engine_reach where
  "engine_reach enum \<equiv> (engine_step enum)\<^sup>*\<^sup>*"

text \<open>What is required of the iteration: every entry of the table once.\<close>

definition lists_table :: "((u64 \<rightharpoonup> 'c) \<Rightarrow> (u64 \<times> 'c) list) \<Rightarrow> bool" where
  "lists_table enum \<longleftrightarrow> (\<forall>m. finite (dom m) \<longrightarrow> distinct (map fst (enum m)) \<and> map_of (enum m) = m)"

text \<open>The iteration by increasing handle.\<close>

definition by_handle :: "(u64 \<rightharpoonup> 'c) \<Rightarrow> (u64 \<times> 'c) list" where
  "by_handle m = map (\<lambda>k. (k, the (m k))) (sorted_list_of_set (dom m))"

lemma by_handle_lists: "lists_table by_handle"
proof -
  have "map_of (by_handle m) = m" if "finite (dom m)" for m :: "u64 \<rightharpoonup> 'c"
  proof
    fix k
    show "map_of (by_handle m) k = m k"
      using that by (auto simp: by_handle_def map_of_map_restrict restrict_map_def dom_def)
  qed
  moreover have "distinct (map fst (by_handle m))" for m :: "u64 \<rightharpoonup> 'c"
    by (simp add: by_handle_def comp_def)
  ultimately show ?thesis unfolding lists_table_def by blast
qed

section \<open>Invariant\<close>

definition signal_due :: "'c engine \<Rightarrow> bool" where
  "signal_due s \<longleftrightarrow> closing s \<or> (\<exists>t. caller s t = Notifying)"

definition engine_inv :: "((u64 \<rightharpoonup> 'c) \<Rightarrow> (u64 \<times> 'c) list) \<Rightarrow> 'c engine \<Rightarrow> bool" where
  "engine_inv enum s \<longleftrightarrow> finite (dom (operators s)) \<and> (man_place s = ManEnded \<longrightarrow> terminate_man_thread s) \<and>
     (\<not> updated_operators s \<longrightarrow> current_operators s = map snd (enum (operators s))) \<and>
     (man_place s = ManWait \<and> \<not> woken s \<longrightarrow>
        operators s = (\<lambda>_. None) \<and> \<not> terminate_man_thread s \<or> signal_due s)"

lemma engine_inv_construct: "lists_table enum \<Longrightarrow> engine_inv enum engine_construct"
proof -
  assume "lists_table enum"
  then have "map_of (enum (\<lambda>_. None)) = (\<lambda>_. None)" by (simp add: lists_table_def)
  then have "enum (\<lambda>_. None) = []" by (metis map_of_eq_empty_iff)
  then show ?thesis by (simp add: engine_inv_def engine_construct_def)
qed

lemma engine_inv_step: "engine_step enum s s' \<Longrightarrow> engine_inv enum s \<Longrightarrow> engine_inv enum s'"
proof (induction rule: engine_step.induct)
  case (manage s)
  then show ?case
    by (auto simp: engine_inv_def generate_progress_def man_section_def signal_due_def Let_def
        split: man_place.splits list.splits)
next
  case (spurious s)
  then show ?case by (auto simp: engine_inv_def man_section_def signal_due_def Let_def)
next
  case (register s t c)
  then show ?case by (auto simp: engine_inv_def register_section_def signal_due_def Let_def split: option.splits)
next
  case (notify s t)
  then show ?case by (auto simp: engine_inv_def register_notify_def notify_one_def)
next
  case (return s t)
  then have "signal_due (snd (register_return t s)) \<longleftrightarrow> signal_due s"
    by (simp add: signal_due_def register_return_def) (metis caller_place.simps(5))
  with return show ?case by (auto simp: engine_inv_def register_return_def)
next
  case (deregister s h)
  then show ?case
    by (auto simp: engine_inv_def deregister_collective_def signal_due_def Let_def dom_def
        intro: rev_finite_subset split: option.splits)
next
  case (destroy s)
  then show ?case by (auto simp: engine_inv_def engine_destroy_section_def signal_due_def)
next
  case (destroy_notify s)
  then show ?case by (auto simp: engine_inv_def engine_destroy_notify_def notify_one_def)
qed

lemma engine_inv_reach:
  "engine_reach enum engine_construct s \<Longrightarrow> lists_table enum \<Longrightarrow> engine_inv enum s"
  by (induction rule: rtranclp_induct) (use engine_inv_construct engine_inv_step in blast)+

section \<open>Runs of the management thread\<close>

abbreviation progress_steps :: "((u64 \<rightharpoonup> 'c) \<Rightarrow> (u64 \<times> 'c) list) \<Rightarrow> nat \<Rightarrow> 'c engine \<Rightarrow> 'c engine" where
  "progress_steps enum k \<equiv> (generate_progress enum ^^ k)"

lemma progress_drain:
  "man_place s = ManPass ops \<Longrightarrow>
   progress_steps enum (length ops) s = s\<lparr>man_place := ManPass [], visited := visited s @ ops\<rparr>"
proof (induction ops arbitrary: s)
  case (Cons op ops)
  have "generate_progress enum s = s\<lparr>man_place := ManPass ops, visited := visited s @ [op]\<rparr>"
    using Cons.prems by (simp add: generate_progress_def)
  then show ?case using Cons.IH [of "s\<lparr>man_place := ManPass ops, visited := visited s @ [op]\<rparr>"]
    by (simp add: funpow_swap1 del: funpow.simps(2) add: funpow_Suc_right)
qed simp

text \<open>The calls that are left of the pass the thread is in, or is about to begin.\<close>

definition pass_left :: "'c engine \<Rightarrow> 'c list" where
  "pass_left s = (case man_place s of ManPass ops \<Rightarrow> ops
     | ManCheck \<Rightarrow> if terminate_man_thread s then [] else current_operators s
     | _ \<Rightarrow> [])"

lemma progress_compose:
  "progress_steps enum j s = s1 \<Longrightarrow> progress_steps enum k s1 = s2 \<Longrightarrow> progress_steps enum (j + k) s = s2"
  by (metis add.commute comp_apply funpow_add)

lemma progress_to_head:
  assumes "man_place s = ManPass ops"
  shows "progress_steps enum (length ops + 1) s = s\<lparr>man_place := ManHead, visited := visited s @ ops\<rparr>"
  by (rule progress_compose [OF progress_drain [OF assms]]) (simp add: generate_progress_def)

text \<open>Whatever the thread is doing, it comes to the section under the mutex or ends.\<close>

lemma progress_settles:
  assumes "man_place s \<noteq> ManWait" "man_place s \<noteq> ManEnded"
  shows "\<exists>k \<le> length (pass_left s) + 3. progress_steps enum k s =
    s\<lparr>man_place := (if man_place s = ManLock then ManLock
                      else if terminate_man_thread s then ManEnded else ManLock),
      visited := visited s @ pass_left s\<rparr>"
proof (cases "man_place s")
  case ManHead
  then show ?thesis
    by (intro exI [of _ 1]) (simp add: generate_progress_def pass_left_def)
next
  case ManLock
  then show ?thesis by (intro exI [of _ 0]) (simp add: pass_left_def)
next
  case ManCheck
  show ?thesis
  proof (cases "terminate_man_thread s")
    case True
    then show ?thesis using ManCheck
      by (intro exI [of _ 2]) (simp add: generate_progress_def pass_left_def numeral_2_eq_2)
  next
    case False
    have "progress_steps enum 1 s = s\<lparr>man_place := ManPass (current_operators s)\<rparr>"
      using ManCheck False by (simp add: generate_progress_def)
    from progress_compose [OF this progress_to_head [of _ "current_operators s"]]
    have "progress_steps enum (1 + (length (current_operators s) + 1)) s =
        s\<lparr>man_place := ManHead, visited := visited s @ current_operators s\<rparr>" by simp
    moreover have "generate_progress enum (s\<lparr>man_place := ManHead, visited := visited s @ current_operators s\<rparr>) =
        s\<lparr>man_place := ManLock, visited := visited s @ current_operators s\<rparr>"
      using False by (simp add: generate_progress_def)
    ultimately have "progress_steps enum (Suc (1 + (length (current_operators s) + 1))) s =
        s\<lparr>man_place := ManLock, visited := visited s @ current_operators s\<rparr>" by (simp only: funpow.simps comp_apply)
    then show ?thesis using ManCheck False
      by (intro exI [of _ "Suc (1 + (length (current_operators s) + 1))"] conjI) (simp_all add: pass_left_def del: funpow.simps)
  qed
next
  case (ManPass ops)
  have "generate_progress enum (s\<lparr>man_place := ManHead, visited := visited s @ ops\<rparr>) =
      s\<lparr>man_place := (if terminate_man_thread s then ManEnded else ManLock), visited := visited s @ ops\<rparr>"
    by (simp add: generate_progress_def)
  with progress_to_head [OF ManPass, of enum]
  have "progress_steps enum (Suc (length ops + 1)) s =
      s\<lparr>man_place := (if terminate_man_thread s then ManEnded else ManLock), visited := visited s @ ops\<rparr>"
    by (simp only: funpow.simps comp_apply)
  then show ?thesis using ManPass
    by (intro exI [of _ "Suc (length ops + 1)"] conjI) (simp_all add: pass_left_def del: funpow.simps)
qed (use assms in simp_all)

text \<open>From the section on, one pass over the table.\<close>

lemma progress_pass:
  assumes "engine_inv enum s" "operators s \<noteq> (\<lambda>_. None)" "\<not> terminate_man_thread s"
    "man_place s = ManLock \<or> man_place s = ManWait \<and> woken s"
  shows "visited (progress_steps enum (length (enum (operators s)) + 2) s) =
         visited s @ map snd (enum (operators s))"
proof -
  let ?ops = "map snd (enum (operators s))"
  have "generate_progress enum s = man_section enum s" using assms(4) by (auto simp: generate_progress_def)
  then have "\<exists>s1. generate_progress enum s = s1 \<and> man_place s1 = ManCheck \<and> \<not> terminate_man_thread s1 \<and>
      current_operators s1 = ?ops \<and> visited s1 = visited s"
    using assms(1-3) by (cases "updated_operators s") (simp_all add: man_section_def engine_inv_def)
  then obtain s1 where s1: "generate_progress enum s = s1" "man_place s1 = ManCheck"
    "\<not> terminate_man_thread s1" "current_operators s1 = ?ops" "visited s1 = visited s" by blast
  have "progress_steps enum 2 s = s1\<lparr>man_place := ManPass ?ops\<rparr>"
    using s1 by (simp add: numeral_2_eq_2) (simp add: generate_progress_def)
  from progress_compose [OF this progress_drain [of _ ?ops]] s1(5) show ?thesis
    by (simp add: add.commute)
qed

section \<open>Properties\<close>

text \<open>
  Property C20: every registered collective is triggered.  Whatever has happened, once no
  notification is outstanding and the engine is not being destroyed, the thread finishes the pass it
  is in and then triggers exactly the registered collectives, each entry of the table once; it
  needs no more than a fixed number of its own steps beyond the calls themselves.  In particular
  it never sleeps while a collective is registered.
\<close>

theorem progress_engine_visits:
  assumes "lists_table enum" "engine_reach enum engine_construct s"
    "operators s \<noteq> (\<lambda>_. None)" "\<not> terminate_man_thread s" "\<not> signal_due s"
  shows "\<exists>k \<le> length (pass_left s) + length (enum (operators s)) + 5.
       visited (progress_steps enum k s) = visited s @ pass_left s @ map snd (enum (operators s))"
proof (cases "man_place s = ManWait")
  case True
  have inv: "engine_inv enum s" by (rule engine_inv_reach [OF assms(2,1)])
  then have "woken s" using True assms(3-5) by (auto simp: engine_inv_def)
  with progress_pass [OF inv assms(3,4)] True show ?thesis
    by (auto simp: pass_left_def intro!: exI [of _ "length (enum (operators s)) + 2"])
next
  case False
  have False': "man_place s \<noteq> ManEnded"
    using engine_inv_reach [OF assms(2,1)] assms(4) by (auto simp: engine_inv_def)
  from progress_settles [OF False False', of enum] assms(4)
  obtain k where k: "k \<le> length (pass_left s) + 3"
    "progress_steps enum k s = s\<lparr>man_place := ManLock, visited := visited s @ pass_left s\<rparr>" by auto
  let ?s = "s\<lparr>man_place := ManLock, visited := visited s @ pass_left s\<rparr>"
  have "engine_inv enum ?s" using engine_inv_reach [OF assms(2,1)] by (simp add: engine_inv_def)
  from progress_pass [OF this] assms(3,4)
  have "visited (progress_steps enum (length (enum (operators s)) + 2) ?s) =
      visited s @ pass_left s @ map snd (enum (operators s))" by simp
  then have "visited (progress_steps enum (k + (length (enum (operators s)) + 2)) s) =
      visited s @ pass_left s @ map snd (enum (operators s))"
    using progress_compose [OF k(2) refl] by simp
  then show ?thesis using k(1)
    by (intro exI [of _ "k + (length (enum (operators s)) + 2)"]) simp
qed

text \<open>One collective registered while the thread sleeps.\<close>

definition registered_one :: "nat engine" where
  "registered_one = register_notify 0 (snd (register_section 0 7
     (progress_steps by_handle 2 engine_construct)))"

lemma registered_one_reach: "engine_reach by_handle engine_construct registered_one"
proof -
  have "engine_reach by_handle engine_construct (progress_steps by_handle 2 (engine_construct :: nat engine))"
    by (simp add: numeral_2_eq_2) (meson engine_step.manage r_into_rtranclp rtranclp_trans)
  also have "engine_step by_handle (progress_steps by_handle 2 (engine_construct :: nat engine))
      (snd (register_section 0 7 (progress_steps by_handle 2 engine_construct)))"
    by (rule engine_step.register) (simp add: numeral_2_eq_2 generate_progress_def man_section_def engine_construct_def)
  also have "engine_step by_handle (snd (register_section 0 7 (progress_steps by_handle 2 engine_construct))) registered_one"
    unfolding registered_one_def
    by (rule engine_step.notify)
      (simp add: numeral_2_eq_2 generate_progress_def man_section_def engine_construct_def register_section_def)
  finally show ?thesis .
qed

lemma registered_one_state:
  "man_place registered_one = ManWait" "operators registered_one = [1 \<mapsto> 7]" "visited registered_one = []"
  "\<not> terminate_man_thread registered_one" "\<not> signal_due registered_one"
  by (simp_all add: registered_one_def numeral_2_eq_2 generate_progress_def man_section_def engine_construct_def
      register_section_def register_notify_def notify_one_def signal_due_def)

lemma progress_engine_visits_witness: "\<exists>k \<le> 6. visited (progress_steps by_handle k registered_one) = [7]"
  using progress_engine_visits [OF by_handle_lists registered_one_reach]
  by (simp add: registered_one_state pass_left_def by_handle_def)

text \<open>The section under the mutex is the last thing the thread does once termination is asked for.\<close>

lemma last_section:
  assumes "terminate_man_thread s" "man_place s = ManLock \<or> man_place s = ManWait \<and> woken s"
  shows "man_place (progress_steps enum 3 s) = ManEnded \<and> visited (progress_steps enum 3 s) = visited s"
proof -
  have "generate_progress enum s = man_section enum s" using assms(2) by (auto simp: generate_progress_def)
  then obtain s2 where s2: "generate_progress enum s = s2" "man_place s2 = ManCheck" "terminate_man_thread s2"
    "visited s2 = visited s"
    using assms(1) by (cases "updated_operators s") (simp_all add: man_section_def)
  have "generate_progress enum s2 = s2\<lparr>man_place := ManHead\<rparr>"
    using s2(2,3) by (simp add: generate_progress_def)
  moreover have "generate_progress enum (s2\<lparr>man_place := ManHead\<rparr>) = s2\<lparr>man_place := ManEnded\<rparr>"
    using s2(3) by (simp add: generate_progress_def)
  ultimately show ?thesis using s2(1,4) by (simp add: numeral_3_eq_3)
qed

lemma ended_stays: "man_place s = ManEnded \<Longrightarrow> progress_steps enum j s = s"
  by (induction j) (simp_all add: generate_progress_def)

lemma thread_ends:
  assumes "engine_inv enum s" "terminate_man_thread s" "\<not> signal_due s"
  shows "\<exists>k \<le> length (pass_left s) + 5. man_place (progress_steps enum k s) = ManEnded \<and>
    visited (progress_steps enum k s) = visited s @ pass_left s"
proof -
  consider (locked) "man_place s = ManLock \<or> man_place s = ManWait"
    | (ended) "man_place s = ManEnded"
    | (pass) "man_place s \<noteq> ManWait" "man_place s \<noteq> ManLock" "man_place s \<noteq> ManEnded" by blast
  then show ?thesis
  proof cases
    case locked
    then have "man_place s = ManLock \<or> man_place s = ManWait \<and> woken s"
      using assms by (auto simp: engine_inv_def)
    from last_section [OF assms(2) this, of enum] locked show ?thesis
      by (intro exI [of _ 3]) (auto simp: pass_left_def)
  next
    case ended
    then show ?thesis by (intro exI [of _ 0]) (simp add: pass_left_def)
  next
    case pass
    from progress_settles [of s enum] pass assms(2)
    obtain k where "k \<le> length (pass_left s) + 3"
      "progress_steps enum k s = s\<lparr>man_place := ManEnded, visited := visited s @ pass_left s\<rparr>" by auto
    then show ?thesis by (intro exI [of _ k]) auto
  qed
qed

text \<open>
  Property C21: the destructor's join returns.  Once termination has been asked for and notified, the
  thread finishes the pass it is in at most and ends; an ended thread does nothing more.
\<close>

theorem progress_engine_ends:
  assumes "lists_table enum" "engine_reach enum engine_construct s" "terminate_man_thread s" "\<not> signal_due s"
  shows "\<exists>k \<le> length (pass_left s) + 5. man_place (progress_steps enum k s) = ManEnded \<and>
    visited (progress_steps enum k s) = visited s @ pass_left s \<and>
    (\<forall>j. progress_steps enum (k + j) s = progress_steps enum k s)"
proof -
  obtain k where k: "k \<le> length (pass_left s) + 5" "man_place (progress_steps enum k s) = ManEnded"
    "visited (progress_steps enum k s) = visited s @ pass_left s"
    using thread_ends [OF engine_inv_reach [OF assms(2,1)] assms(3,4)] by blast
  moreover have "progress_steps enum (k + j) s = progress_steps enum k s" for j
    by (rule progress_compose [OF refl ended_stays [OF k(2)]])
  ultimately show ?thesis by blast
qed

definition destroyed_one :: "nat engine" where
  "destroyed_one = engine_destroy_notify (engine_destroy_section registered_one)"

lemma progress_engine_ends_witness:
  "\<exists>k \<le> 5. man_place (progress_steps by_handle k destroyed_one) = ManEnded"
proof -
  have "engine_step by_handle registered_one (engine_destroy_section registered_one)"
    by (rule engine_step.destroy) (rule registered_one_state)
  moreover have "engine_step by_handle (engine_destroy_section registered_one) destroyed_one"
    unfolding destroyed_one_def by (rule engine_step.destroy_notify) (simp add: engine_destroy_section_def)
  ultimately have r: "engine_reach by_handle engine_construct destroyed_one"
    using registered_one_reach by (meson rtranclp.rtrancl_into_rtrancl)
  have d: "terminate_man_thread destroyed_one" "\<not> signal_due destroyed_one" "pass_left destroyed_one = []"
    using registered_one_state
    by (simp_all add: destroyed_one_def engine_destroy_notify_def engine_destroy_section_def notify_one_def
        signal_due_def pass_left_def)
  show ?thesis using progress_engine_ends [OF by_handle_lists r d(1,2)] d(3) by auto
qed

text \<open>
  The handle a registration returns.  Alone, a caller gets the handle under which its
  collective is in the table.  Two callers at once can both get the later handle, since
  \<open>current_handle\<close> is read after the mutex has been released: the second of them to deregister
  fails, and the collective of the first caller stays in the table.
\<close>

theorem register_handle:
  "(operators s (current_handle s + 1) = None \<longrightarrow>
      (case register_section t c s of (r, s1) \<Rightarrow> r = Inr () \<and>
         (case register_return t (register_notify t s1) of (h, s2) \<Rightarrow>
            operators s2 = (operators s)(h \<mapsto> c) \<and> operators s h = None))) \<and>
   (\<exists>s'. engine_reach enum engine_construct s' \<and> results s' = [(0, 2), (1, 2)] \<and>
      operators s' = [1 \<mapsto> c, 2 \<mapsto> d] \<and>
      (case deregister_collective 2 s' of (r, s1) \<Rightarrow> r = Inr () \<and> operators s1 = [1 \<mapsto> c] \<and>
         (case deregister_collective 2 s1 of (r', s2) \<Rightarrow> (\<exists>e. r' = Inl e) \<and> operators s2 = [1 \<mapsto> c])))"
proof
  define s1 where "s1 = snd (register_section 0 c (engine_construct :: 'a engine))"
  define s2 where "s2 = snd (register_section 1 d s1)"
  define s3 where "s3 = register_notify 1 (register_notify 0 s2)"
  define s4 where "s4 = snd (register_return 1 (snd (register_return 0 s3)))"
  have c0: "caller (engine_construct :: 'a engine) t = NotCalling" for t by (simp add: engine_construct_def)
  have f1: "operators s1 = [1 \<mapsto> c]" "current_handle s1 = 1" "results s1 = []"
      "caller s1 = (\<lambda>_. NotCalling)(0 := Notifying)"
    by (simp_all add: s1_def register_section_def engine_construct_def)
  have f2: "operators s2 = [1 \<mapsto> c, 2 \<mapsto> d]" "current_handle s2 = 2" "results s2 = []"
      "caller s2 = (\<lambda>_. NotCalling)(0 := Notifying, 1 := Notifying)"
    by (simp_all add: s2_def register_section_def f1)
  have f3: "operators s3 = operators s2" "current_handle s3 = 2" "results s3 = []"
      "caller s3 0 = Returning" "caller s3 1 = Returning" "caller (register_notify 0 s2) 1 = Notifying"
    by (simp_all add: s3_def register_notify_def notify_one_def f2)
  have f4: "operators s4 = [1 \<mapsto> c, 2 \<mapsto> d]" "results s4 = [(0, 2), (1, 2)]"
      "caller (snd (register_return 0 s3)) 1 = Returning"
    using f3(5) by (simp_all add: s4_def register_return_def f3(1-4) f2)
  have "engine_step enum engine_construct s1" unfolding s1_def
    by (rule engine_step.register) (rule c0)
  moreover have "engine_step enum s1 s2" unfolding s2_def
    by (rule engine_step.register) (simp add: f1)
  moreover have "engine_step enum s2 (register_notify 0 s2)" by (rule engine_step.notify) (simp add: f2)
  moreover have "engine_step enum (register_notify 0 s2) s3" unfolding s3_def
    by (rule engine_step.notify) (rule f3)
  moreover have "engine_step enum s3 (snd (register_return 0 s3))" by (rule engine_step.return) (rule f3)
  moreover have "engine_step enum (snd (register_return 0 s3)) s4" unfolding s4_def
    by (rule engine_step.return) (rule f4)
  ultimately have reach: "engine_reach enum engine_construct s4"
    by (meson rtranclp.rtrancl_into_rtrancl rtranclp.rtrancl_refl)
  have dereg: "case deregister_collective 2 s4 of (r, s1) \<Rightarrow> r = Inr () \<and> operators s1 = [1 \<mapsto> c] \<and>
      (case deregister_collective 2 s1 of (r', s2) \<Rightarrow> (\<exists>e. r' = Inl e) \<and> operators s2 = [1 \<mapsto> c])"
    by (simp add: deregister_collective_def f4(1) fun_eq_iff)
  show "\<exists>s'. engine_reach enum engine_construct s' \<and> results s' = [(0, 2), (1, 2)] \<and>
      operators s' = [1 \<mapsto> c, 2 \<mapsto> d] \<and>
      (case deregister_collective 2 s' of (r, s1) \<Rightarrow> r = Inr () \<and> operators s1 = [1 \<mapsto> c] \<and>
         (case deregister_collective 2 s1 of (r', s2) \<Rightarrow> (\<exists>e. r' = Inl e) \<and> operators s2 = [1 \<mapsto> c]))"
    by (intro exI [of _ s4] conjI reach f4(1,2) dereg)
qed (simp add: register_section_def register_return_def register_notify_def notify_one_def Let_def)

lemma register_handle_witness:
  "fst (register_return 0 (register_notify 0 (snd (register_section 0 (7 :: nat) engine_construct)))) = 1"
  using register_handle [of engine_construct 0 7 by_handle 7]
  by (simp add: register_section_def register_return_def register_notify_def notify_one_def engine_construct_def)

end
