(* ===== verification/Blocking_Exchange.thy ===== *)
theory Blocking_Exchange
  imports Collective_Run Buffers
begin

unbundle bit_operations_syntax

text \<open>
  \<open>collectives/Allgather.cpp\<close> and \<open>collectives/Alltoall.cpp\<close>: the four blocking collectives
  \<open>allgather\<close>, \<open>allgatherv\<close>, \<open>alltoall\<close>, \<open>alltoallv\<close>.  They differ in the offsets and sizes of
  the blocks; the loops over the ranks are the same.  First the local part: the descriptions of the
  blocks; then the four loops as a step relation of all ranks, the network and the passive
  component, which carries the descriptions.
\<close>

section \<open>Offsets and sizes\<close>

text \<open>The running offsets are sums of 64-bit numbers, which wrap.\<close>

record layout =
  source_offset :: "nat \<Rightarrow> u64"
  source_size :: "nat \<Rightarrow> u64"
  target_offset :: "nat \<Rightarrow> u64"
  target_size :: "nat \<Rightarrow> u64"

fun running :: "(nat \<Rightarrow> u64) \<Rightarrow> nat \<Rightarrow> u64" where
  "running sizes 0 = 0"
| "running sizes (Suc i) = running sizes i + sizes i"

definition allgather_layout :: "u64 \<Rightarrow> layout" where
  "allgather_layout sz = \<lparr>source_offset = (\<lambda>i. 0), source_size = (\<lambda>i. sz),
     target_offset = (\<lambda>i. of_nat i * sz), target_size = (\<lambda>i. sz)\<rparr>"

definition allgatherv_layout :: "nat \<Rightarrow> (nat \<Rightarrow> u64) \<Rightarrow> layout" where
  "allgatherv_layout rank sizes = \<lparr>source_offset = (\<lambda>i. 0), source_size = (\<lambda>i. sizes rank),
     target_offset = running sizes, target_size = sizes\<rparr>"

definition alltoall_layout :: "u64 \<Rightarrow> layout" where
  "alltoall_layout sz = \<lparr>source_offset = (\<lambda>i. of_nat i * sz), source_size = (\<lambda>i. sz),
     target_offset = (\<lambda>i. of_nat i * sz), target_size = (\<lambda>i. sz)\<rparr>"

definition alltoallv_layout :: "(nat \<Rightarrow> u64) \<Rightarrow> (nat \<Rightarrow> u64) \<Rightarrow> layout" where
  "alltoallv_layout sourceSizes targetSizes = \<lparr>source_offset = running sourceSizes, source_size = sourceSizes,
     target_offset = running targetSizes, target_size = targetSizes\<rparr>"

section \<open>The local descriptions\<close>

text \<open>
  Segments are objects; source and target may be the same one, so that a segment is a number and
  its state is looked up.
\<close>

type_synonym 's segments = "(nat \<Rightarrow> segment) \<times> 's"

definition on_segment :: "nat \<Rightarrow> (segment_manager, 'a) act \<Rightarrow> ('s segments, 'a) act" where
  "on_segment k m = (\<lambda>(sg, s). case m (sg_manager (sg k)) of
     (r, M) \<Rightarrow> (r, sg(k := (sg k)\<lparr>sg_manager := M\<rparr>), s))"

definition with_segment :: "nat \<Rightarrow> (segment \<Rightarrow> ('s, 'a) act) \<Rightarrow> ('s segments, 'a) act" where
  "with_segment k m = (\<lambda>(sg, s). case m (sg k) s of (r, s1) \<Rightarrow> (r, sg, s1))"

definition local_description ::
    "'s segment_api \<Rightarrow> u16 \<Rightarrow> nat \<Rightarrow> u64 \<Rightarrow> u64 \<Rightarrow> u64 \<Rightarrow> ('s segments, buffer_description) act" where
  "local_description G rank k pointer offset sz =
     act_bind (with_segment k (\<lambda>S. pointerToOffset G (sg_manager S) pointer)) (\<lambda>base.
     act_bind (on_segment k acquire_notification) (\<lambda>notification. \<lambda>(sg, s).
     (Inr \<lparr>bd_rank = rank, bd_segmentId = ucast (segment_id (sg k)), bd_offset = base + offset,
           bd_size = sz, bd_notificationId = notification\<rparr>, sg, s)))"

text \<open>
  A buffer made in a segment, and its destruction.  It is the only owner of its memory, so that the
  table of shared allocations holds this one entry.
\<close>

definition new_buffer :: "nat \<Rightarrow> u64 \<Rightarrow> ('s segments, buffer) act" where
  "new_buffer k sz = (\<lambda>(sg, s). case bf_construct sz \<lparr>bw_segment = sg k, bw_allocs = []\<rparr> of
     (r, w) \<Rightarrow> (r, sg(k := bw_segment w), s))"

definition delete_buffer :: "nat \<Rightarrow> buffer \<Rightarrow> ('s segments, unit) act" where
  "delete_buffer k b = (\<lambda>(sg, s).
     case bf_destroy b \<lparr>bw_segment = sg k,
            bw_allocs = [\<lparr>al_pointer = bf_pointer b, al_size = bf_size b, al_owners = 1\<rparr>]\<rparr> of
     (r, w) \<Rightarrow> (r, sg(k := bw_segment w), s))"

text \<open>What iteration \<open>i\<close> of the first loop makes: two descriptions and the two buffers that carry
  descriptions to and from the partner.\<close>

record exchange_item =
  it_source :: buffer_description
  it_target :: buffer_description
  it_send :: buffer
  it_recv :: buffer

definition local_descriptions ::
    "'s segment_api \<Rightarrow> group \<Rightarrow> nat \<Rightarrow> u64 \<Rightarrow> nat \<Rightarrow> u64 \<Rightarrow> layout \<Rightarrow> nat \<Rightarrow> ('s segments, exchange_item) act" where
  "local_descriptions G g sourceSegment gSource targetSegment gTarget L i =
     (case (toGlobalRank g (Rank (of_nat i)), toGlobalRank g (g_rank g)) of
        (Inl e, _) \<Rightarrow> act_throw e
      | (_, Inl e) \<Rightarrow> act_throw e
      | (Inr iGlobalRank, Inr own) \<Rightarrow>
          act_bind (with_segment sourceSegment (\<lambda>S. remoteRegistration G (sg_resource S) iGlobalRank)) (\<lambda>_.
          act_bind (with_segment targetSegment (\<lambda>S. remoteRegistration G (sg_resource S) iGlobalRank)) (\<lambda>_.
          act_bind (local_description G own sourceSegment gSource (source_offset L i) (source_size L i)) (\<lambda>src.
          act_bind (local_description G own targetSegment gTarget (target_offset L i) (target_size L i)) (\<lambda>tgt.
          act_bind (new_buffer targetSegment (of_nat (bd_ssize tgt) + of_nat (bd_ssize src))) (\<lambda>send.
          act_bind (new_buffer targetSegment (of_nat (bd_ssize bd_default) + of_nat (bd_ssize bd_default))) (\<lambda>recv.
          act_return \<lparr>it_source = src, it_target = tgt, it_send = send, it_recv = recv\<rparr>)))))))"

fun describe_loop ::
    "'s segment_api \<Rightarrow> group \<Rightarrow> nat \<Rightarrow> u64 \<Rightarrow> nat \<Rightarrow> u64 \<Rightarrow> layout \<Rightarrow> nat \<Rightarrow> nat \<Rightarrow>
     ('s segments, exchange_item list) act" where
  "describe_loop G g ss gs ts gt L i 0 = act_return []"
| "describe_loop G g ss gs ts gt L i (Suc k) =
     act_bind (local_descriptions G g ss gs ts gt L i) (\<lambda>d.
     act_bind (describe_loop G g ss gs ts gt L (i + 1) k) (\<lambda>ds. act_return (d # ds)))"

text \<open>The first loops of the four functions.\<close>

definition allgather_describe where
  "allgather_describe G g ss gs ts gt sz = describe_loop G g ss gs ts gt (allgather_layout sz) 0 (g_size g)"

definition allgatherv_describe where
  "allgatherv_describe G g ss gs ts gt sizes =
     describe_loop G g ss gs ts gt (allgatherv_layout (unat (get (g_rank g))) sizes) 0 (g_size g)"

definition alltoall_describe where
  "alltoall_describe G g ss gs ts gt sz = describe_loop G g ss gs ts gt (alltoall_layout sz) 0 (g_size g)"

definition alltoallv_describe where
  "alltoallv_describe G g ss gs ts gt sourceSizes targetSizes =
     describe_loop G g ss gs ts gt (alltoallv_layout sourceSizes targetSizes) 0 (g_size g)"

text \<open>
  What the later loops give back: the receive buffers in the second, the notifications of the
  target blocks in the third, the send buffers and the notifications of the source blocks in the
  fourth.
\<close>

fun for_each :: "('i \<Rightarrow> ('s, unit) act) \<Rightarrow> 'i list \<Rightarrow> ('s, unit) act" where
  "for_each f [] = act_return ()"
| "for_each f (x # xs) = act_bind (f x) (\<lambda>_. for_each f xs)"

definition release_received :: "nat \<Rightarrow> exchange_item list \<Rightarrow> ('s segments, unit) act" where
  "release_received ts = for_each (\<lambda>it. delete_buffer ts (it_recv it))"

definition release_target :: "nat \<Rightarrow> exchange_item list \<Rightarrow> ('s segments, unit) act" where
  "release_target ts = for_each (\<lambda>it. on_segment ts (release_notification (bd_notificationId (it_target it))))"

definition release_source :: "nat \<Rightarrow> nat \<Rightarrow> exchange_item list \<Rightarrow> ('s segments, unit) act" where
  "release_source ss ts = for_each (\<lambda>it.
     act_bind (delete_buffer ts (it_send it)) (\<lambda>_.
     on_segment ss (release_notification (bd_notificationId (it_source it)))))"

definition release_exchange :: "nat \<Rightarrow> nat \<Rightarrow> exchange_item list \<Rightarrow> ('s segments, unit) act" where
  "release_exchange ss ts ds =
     act_bind (release_received ts ds) (\<lambda>_.
     act_bind (release_target ts ds) (\<lambda>_.
     release_source ss ts ds))"

text \<open>The content of a send buffer, and how a receive buffer is read.\<close>

definition pack_descriptions :: "buffer_description \<Rightarrow> buffer_description \<Rightarrow> u8 list" where
  "pack_descriptions localTarget localSource =
     (let (m1, n1) = bd_ser (\<lambda>_. 0) 0 localTarget;
          (m2, n2) = bd_ser m1 n1 localSource
      in load m2 0 (bd_ssize localTarget + bd_ssize localSource))"

definition unpack_descriptions :: "u8 list \<Rightarrow> buffer_description \<times> buffer_description" where
  "unpack_descriptions bytes =
     (let m = memcpy (\<lambda>_. 0) 0 bytes;
          (remoteTarget, n1) = bd_des m 0;
          (remoteSource, n2) = bd_des m n1
      in (remoteTarget, remoteSource))"

lemma unpack_pack [simp]: "unpack_descriptions (pack_descriptions t s) = (t, s)"
proof -
  have "pack_descriptions t s = bd_enc t @ bd_enc s"
    using load_memcpy [of "\<lambda>_. 0" 0 "bd_enc t @ bd_enc s"] memcpy_append [of "\<lambda>_. 0" 0 "bd_enc t" "bd_enc s"]
      bd_c.size_enc [where x = t] bd_c.size_enc [where x = s]
    by (simp add: pack_descriptions_def bd_ser_enc bd_codec_def)
  moreover have "load (memcpy (\<lambda>_. 0) 0 (bd_enc t @ bd_enc s)) 0 23 = bd_enc t"
      "load (memcpy (\<lambda>_. 0) 0 (bd_enc t @ bd_enc s)) 23 23 = bd_enc s"
    using load_memcpy [of "\<lambda>_. 0" 0 "bd_enc t @ bd_enc s"]
    by (simp_all add: load_append_iff [of _ 0 "bd_enc t" "bd_enc s", simplified])
  ultimately show ?thesis by (simp add: unpack_descriptions_def bd_des_enc)
qed

section \<open>The loops of all ranks\<close>

text \<open>
  A process is named by its global rank, a piece of memory by segment, offset and size.
  \<open>Prepare i\<close>: body \<open>i\<close> of the first loop, which ends with posting the two passive messages;
  \<open>Write i\<close>: the second loop; \<open>Collect i\<close>, \<open>Answer i\<close>: the wait and the notification of the third;
  \<open>Confirm i\<close>, \<open>Sent i\<close>: the two waits of the fourth.
\<close>

datatype mem_block = Mem u8 u64 u64

datatype ex_place = Prepare nat | Write nat | Collect nat | Answer nat | Confirm nat | Sent nat | ExReturned | ExThrown

text \<open>\<open>remote\<close>: the descriptions (target, source) that arrived; \<open>sent\<close>: the send buffer's
  notification.\<close>

record ex_ctl =
  ex_place :: ex_place
  remote :: "nat \<Rightarrow> (buffer_description \<times> buffer_description) option"
  sent :: "nat \<Rightarrow> bool"

type_synonym ex_net = "(ex_ctl, mem_block, u8 list) net"

definition ex_chan :: "buffer_description \<Rightarrow> buffer_description \<Rightarrow> mem_block chan" where
  "ex_chan s t = \<lparr>c_src = unat (bd_rank s), c_sslot = Mem (bd_segmentId s) (bd_offset s) (bd_size s),
     c_dst = unat (bd_rank t), c_dslot = Mem (bd_segmentId t) (bd_offset t) (bd_size s),
     c_tag = unat (bd_notificationId t)\<rparr>"

definition ex_loop :: "nat \<Rightarrow> nat \<Rightarrow> (nat \<Rightarrow> ex_place) \<Rightarrow> ex_place \<Rightarrow> ex_place" where
  "ex_loop p i body next = (if i < p then body i else next)"

text \<open>\<open>S\<close> and \<open>T\<close> are the local descriptions of the rank, \<open>q\<close> is its global rank.  A write whose
  source is larger than its target throws.\<close>

definition ex_execute ::
    "nat \<Rightarrow> (nat \<Rightarrow> buffer_description) \<Rightarrow> (nat \<Rightarrow> buffer_description) \<Rightarrow> nat \<Rightarrow> ex_net \<Rightarrow> ex_net" where
  "ex_execute p S T q n =
     (let s = ctl n q in
      case ex_place s of
        Prepare i \<Rightarrow> set_ctl q (s\<lparr>ex_place := ex_loop p (i + 1) Prepare (Write 0)\<rparr>) n
      | Write i \<Rightarrow>
          (case remote s i of
             None \<Rightarrow> n
           | Some (tgt, src) \<Rightarrow>
               if bd_size (S i) > bd_size tgt then set_ctl q (s\<lparr>ex_place := ExThrown\<rparr>) n
               else set_ctl q (s\<lparr>ex_place := ex_loop p (i + 1) Write (Collect 0)\<rparr>) (initTransfer (ex_chan (S i) tgt) n))
      | Collect i \<Rightarrow>
          (case remote s i of
             None \<Rightarrow> n
           | Some (tgt, src) \<Rightarrow>
               (case checkForCompletion (ex_chan src (T i)) n of
                  (done, n1) \<Rightarrow> if done then set_ctl q (s\<lparr>ex_place := Answer i\<rparr>) n1 else n1))
      | Answer i \<Rightarrow>
          (case remote s i of
             None \<Rightarrow> n
           | Some (tgt, src) \<Rightarrow>
               set_ctl q (s\<lparr>ex_place := ex_loop p (i + 1) Collect (Confirm 0)\<rparr>) (ackTransfer (ex_chan src (T i)) n))
      | Confirm i \<Rightarrow>
          (case remote s i of
             None \<Rightarrow> n
           | Some (tgt, src) \<Rightarrow>
               (case checkForTransferAck (ex_chan (S i) tgt) n of
                  (done, n1) \<Rightarrow> if done then set_ctl q (s\<lparr>ex_place := Sent i\<rparr>) n1 else n1))
      | Sent i \<Rightarrow> if sent s i then set_ctl q (s\<lparr>ex_place := ex_loop p (i + 1) Confirm ExReturned\<rparr>) n else n
      | ExReturned \<Rightarrow> n
      | ExThrown \<Rightarrow> n)"

text \<open>Whether a rank has posted its messages to and from rank \<open>i\<close>.\<close>

definition has_posted :: "ex_ctl \<Rightarrow> nat \<Rightarrow> bool" where
  "has_posted s i = (case ex_place s of Prepare j \<Rightarrow> i < j | _ \<Rightarrow> True)"

text \<open>
  The messages of \<open>a\<close> to \<open>b\<close> carry the tag \<open>a\<close> on both sides and therefore meet: the descriptions
  that \<open>a\<close> made for \<open>b\<close>, as packed by \<open>a\<close> and unpacked by \<open>b\<close>, are stored at \<open>b\<close>, and both buffers are notified.
\<close>

definition meet :: "(nat \<Rightarrow> nat) \<Rightarrow> (nat \<Rightarrow> nat \<Rightarrow> buffer_description) \<Rightarrow> (nat \<Rightarrow> nat \<Rightarrow> buffer_description) \<Rightarrow>
    nat \<Rightarrow> nat \<Rightarrow> ex_net \<Rightarrow> ex_net" where
  "meet gl S T a b n =
     (let n1 = set_ctl (gl b) ((ctl n (gl b))\<lparr>remote := (remote (ctl n (gl b)))(a \<mapsto> unpack_descriptions (pack_descriptions (T a b) (S a b)))\<rparr>) n
      in set_ctl (gl a) ((ctl n1 (gl a))\<lparr>sent := (sent (ctl n1 (gl a)))(b := True)\<rparr>) n1)"

inductive ex_step for env :: "ex_net \<Rightarrow> ex_net \<Rightarrow> bool" and p :: nat and gl :: "nat \<Rightarrow> nat"
  and S T :: "nat \<Rightarrow> nat \<Rightarrow> buffer_description" where
  thread: "r < p \<Longrightarrow> ex_step env p gl S T n (ex_execute p (S r) (T r) (gl r) n)"
| transfer: "env n n' \<Longrightarrow> ex_step env p gl S T n n'"
| message: "a < p \<Longrightarrow> b < p \<Longrightarrow> has_posted (ctl n (gl a)) b \<Longrightarrow> has_posted (ctl n (gl b)) a \<Longrightarrow>
    remote (ctl n (gl b)) a = None \<Longrightarrow> ex_step env p gl S T n (meet gl S T a b n)"

definition ex_init :: "nat \<Rightarrow> (nat \<Rightarrow> nat) \<Rightarrow> (nat \<Rightarrow> nat \<Rightarrow> buffer_description) \<Rightarrow> (nat \<Rightarrow> nat \<Rightarrow> u8 list) \<Rightarrow> ex_net \<Rightarrow> bool" where
  "ex_init p gl S inp n \<longleftrightarrow>
     (\<forall>r < p. ctl n (gl r) = \<lparr>ex_place = ex_loop p 0 Prepare ExReturned, remote = (\<lambda>_. None), sent = (\<lambda>_. False)\<rparr>) \<and>
     (\<forall>a < p. \<forall>b < p. buf n (gl a) (c_sslot (ex_chan (S a b) (S a b))) = inp a b) \<and>
     pend n = (\<lambda>_. 0) \<and> flag n = (\<lambda>_. False) \<and> apend n = (\<lambda>_. 0) \<and> aflag n = (\<lambda>_. False)"

abbreviation ex_reach where
  "ex_reach env p gl S T \<equiv> (ex_step env p gl S T)\<^sup>*\<^sup>*"

end
