(* ===== verification/Blocking_Exchange_Props.thy ===== *)
theory Blocking_Exchange_Props
  imports Blocking_Exchange
begin

text \<open>
  What the blocking collectives guarantee: the invariant of the four loops over all ranks, the data
  in the target blocks, absence of deadlock, and the layouts of the four functions.
\<close>

section \<open>Positions\<close>

primrec ex_pos :: "nat \<Rightarrow> ex_place \<Rightarrow> nat" where
  "ex_pos p (Prepare i) = i"
| "ex_pos p (Write i) = p + i"
| "ex_pos p (Collect i) = 2 * p + 2 * i"
| "ex_pos p (Answer i) = 2 * p + 2 * i + 1"
| "ex_pos p (Confirm i) = 4 * p + 2 * i"
| "ex_pos p (Sent i) = 4 * p + 2 * i + 1"
| "ex_pos p ExReturned = 6 * p"
| "ex_pos p ExThrown = 0"

primrec ex_ok_place :: "nat \<Rightarrow> ex_place \<Rightarrow> bool" where
  "ex_ok_place p (Prepare i) \<longleftrightarrow> i < p"
| "ex_ok_place p (Write i) \<longleftrightarrow> i < p"
| "ex_ok_place p (Collect i) \<longleftrightarrow> i < p"
| "ex_ok_place p (Answer i) \<longleftrightarrow> i < p"
| "ex_ok_place p (Confirm i) \<longleftrightarrow> i < p"
| "ex_ok_place p (Sent i) \<longleftrightarrow> i < p"
| "ex_ok_place p ExReturned \<longleftrightarrow> True"
| "ex_ok_place p ExThrown \<longleftrightarrow> False"

lemma ex_pos_loop:
  "i < p \<Longrightarrow> ex_pos p (ex_loop p (i + 1) Prepare (Write 0)) = i + 1"
  "i < p \<Longrightarrow> ex_pos p (ex_loop p (i + 1) Write (Collect 0)) = p + i + 1"
  "i < p \<Longrightarrow> ex_pos p (ex_loop p (i + 1) Collect (Confirm 0)) = 2 * p + 2 * i + 2"
  "i < p \<Longrightarrow> ex_pos p (ex_loop p (i + 1) Confirm ExReturned) = 4 * p + 2 * i + 2"
  by (auto simp: ex_loop_def)

lemma ex_ok_loop:
  "i < p \<Longrightarrow> ex_ok_place p (ex_loop p (i + 1) Prepare (Write 0))"
  "i < p \<Longrightarrow> ex_ok_place p (ex_loop p (i + 1) Write (Collect 0))"
  "i < p \<Longrightarrow> ex_ok_place p (ex_loop p (i + 1) Collect (Confirm 0))"
  "i < p \<Longrightarrow> ex_ok_place p (ex_loop p (i + 1) Confirm ExReturned)"
  by (auto simp: ex_loop_def)

lemma ex_pos_le: "ex_ok_place p pl \<Longrightarrow> ex_pos p pl \<le> 6 * p"
  by (cases pl) auto

lemma has_posted_pos: "ex_ok_place p (ex_place s) \<Longrightarrow> i < p \<Longrightarrow> has_posted s i \<longleftrightarrow> i < ex_pos p (ex_place s)"
  by (cases "ex_place s") (auto simp: has_posted_def)

text \<open>What the ranks have done on the channel from \<open>a\<close> to \<open>b\<close>, by their positions.\<close>

definition wrote :: "nat \<Rightarrow> (nat \<Rightarrow> nat) \<Rightarrow> nat \<times> nat \<Rightarrow> bool" where
  "wrote p P = (\<lambda>(a, b). p + b < P a)"

definition collected :: "nat \<Rightarrow> (nat \<Rightarrow> nat) \<Rightarrow> nat \<times> nat \<Rightarrow> bool" where
  "collected p P = (\<lambda>(a, b). 2 * p + 2 * a < P b)"

definition answered :: "nat \<Rightarrow> (nat \<Rightarrow> nat) \<Rightarrow> nat \<times> nat \<Rightarrow> bool" where
  "answered p P = (\<lambda>(a, b). 2 * p + 2 * a + 1 < P b)"

definition confirmed :: "nat \<Rightarrow> (nat \<Rightarrow> nat) \<Rightarrow> nat \<times> nat \<Rightarrow> bool" where
  "confirmed p P = (\<lambda>(a, b). 4 * p + 2 * b < P a)"

lemmas channel_history = wrote_def collected_def answered_def confirmed_def

lemma threshold_other: "P r \<noteq> t \<Longrightarrow> (t < (P(r := P r + 1)) a) = (t < (P a :: nat))"
  by auto

lemma history_other:
  assumes "x \<in> {..<p} \<times> {..<p}" "P' = P(r := P r + 1)"
  shows "P r < p \<or> 2 * p \<le> P r \<Longrightarrow> wrote p P' x = wrote p P x"
    "P r < 2 * p \<or> 4 * p \<le> P r \<or> odd (P r) \<Longrightarrow> collected p P' x = collected p P x"
    "P r < 2 * p \<or> 4 * p \<le> P r \<or> even (P r) \<Longrightarrow> answered p P' x = answered p P x"
    "P r < 4 * p \<or> odd (P r) \<Longrightarrow> confirmed p P' x = confirmed p P x"
proof -
  obtain a b where x: "x = (a, b)" "a < p" "b < p" using assms(1) by auto
  show "wrote p P' x = wrote p P x" if "P r < p \<or> 2 * p \<le> P r"
  proof -
    have "P r \<noteq> p + b" using that x by auto
    then show ?thesis unfolding x(1) wrote_def assms(2) prod.case by (rule threshold_other)
  qed
  show "collected p P' x = collected p P x" if "P r < 2 * p \<or> 4 * p \<le> P r \<or> odd (P r)"
  proof -
    have "P r \<noteq> 2 * p + 2 * a" using that x by auto
    then show ?thesis unfolding x(1) collected_def assms(2) prod.case by (rule threshold_other)
  qed
  show "answered p P' x = answered p P x" if "P r < 2 * p \<or> 4 * p \<le> P r \<or> even (P r)"
  proof -
    have "P r \<noteq> 2 * p + 2 * a + 1" using that x by auto
    then show ?thesis unfolding x(1) answered_def assms(2) prod.case by (rule threshold_other)
  qed
  show "confirmed p P' x = confirmed p P x" if "P r < 4 * p \<or> odd (P r)"
  proof -
    have "P r \<noteq> 4 * p + 2 * b" using that x by auto
    then show ?thesis unfolding x(1) confirmed_def assms(2) prod.case by (rule threshold_other)
  qed
qed

lemma history_wrote: "P r = p + i \<Longrightarrow> wrote p (P(r := P r + 1)) = (wrote p P)((r, i) := True)"
  by (auto simp: channel_history fun_eq_iff)

lemma history_collected: "P r = 2 * p + 2 * i \<Longrightarrow> collected p (P(r := P r + 1)) = (collected p P)((i, r) := True)"
  by (auto simp: channel_history fun_eq_iff)

lemma history_answered:
  "P r = 2 * p + 2 * i + 1 \<Longrightarrow> answered p (P(r := P r + 1)) = (answered p P)((i, r) := True)"
  by (auto simp: channel_history fun_eq_iff)

lemma history_confirmed: "P r = 4 * p + 2 * i \<Longrightarrow> confirmed p (P(r := P r + 1)) = (confirmed p P)((r, i) := True)"
  by (auto simp: channel_history fun_eq_iff)

section \<open>Well-formed descriptions\<close>

text \<open>
  What the theorem asks of the descriptions of all ranks: they name their owners, the blocks that \<open>a\<close>
  sends to \<open>b\<close> and that \<open>b\<close> expects from \<open>a\<close> have one size, the notifications of the target blocks of
  a rank differ, and the memory of a target block is disjoint from that of every other block.
\<close>

fun apart :: "mem_block \<Rightarrow> mem_block \<Rightarrow> bool" where
  "apart (Mem k o1 s1) (Mem l o2 s2) \<longleftrightarrow>
     k \<noteq> l \<or> unat o1 + unat s1 \<le> unat o2 \<or> unat o2 + unat s2 \<le> unat o1"

definition block_of :: "buffer_description \<Rightarrow> mem_block" where
  "block_of d = Mem (bd_segmentId d) (bd_offset d) (bd_size d)"

definition ex_descriptions :: "nat \<Rightarrow> (nat \<Rightarrow> nat) \<Rightarrow> (nat \<Rightarrow> nat \<Rightarrow> buffer_description) \<Rightarrow>
    (nat \<Rightarrow> nat \<Rightarrow> buffer_description) \<Rightarrow> (nat \<Rightarrow> nat \<Rightarrow> u8 list) \<Rightarrow> bool" where
  "ex_descriptions p gl S T inp \<longleftrightarrow> inj_on gl {..<p} \<and>
     (\<forall>a < p. \<forall>b < p. unat (bd_rank (S a b)) = gl a \<and> unat (bd_rank (T a b)) = gl a \<and>
        bd_size (S a b) = bd_size (T b a) \<and> length (inp a b) = unat (bd_size (S a b)) \<and>
        (\<forall>c < p. c \<noteq> b \<longrightarrow> bd_notificationId (T a b) \<noteq> bd_notificationId (T a c) \<and>
           apart (block_of (T a b)) (block_of (T a c))) \<and>
        (\<forall>c < p. apart (block_of (T a b)) (block_of (S a c))))"

definition exch :: "(nat \<Rightarrow> nat \<Rightarrow> buffer_description) \<Rightarrow> (nat \<Rightarrow> nat \<Rightarrow> buffer_description) \<Rightarrow> nat \<times> nat \<Rightarrow> mem_block chan" where
  "exch S T = (\<lambda>(a, b). ex_chan (S a b) (T b a))"

lemma exch_fields:
  assumes "ex_descriptions p gl S T inp" "a < p" "b < p"
  shows "c_src (exch S T (a, b)) = gl a" "c_dst (exch S T (a, b)) = gl b"
    "c_sslot (exch S T (a, b)) = block_of (S a b)" "c_dslot (exch S T (a, b)) = block_of (T b a)"
  using assms by (simp_all add: ex_descriptions_def exch_def ex_chan_def block_of_def)

lemma exch_inj:
  assumes "ex_descriptions p gl S T inp"
  shows "inj_on (exch S T) ({..<p} \<times> {..<p})"
proof (rule inj_onI, clarsimp)
  fix a b a' b' assume l: "a < p" "b < p" "a' < p" "b' < p" and e: "exch S T (a, b) = exch S T (a', b')"
  have gl: "inj_on gl {..<p}" using assms by (simp add: ex_descriptions_def)
  have "gl a = gl a'" "gl b = gl b'" using e exch_fields [OF assms] l by metis+
  then show "a = a' \<and> b = b'" using gl l by (simp add: inj_on_def)
qed

text \<open>Blocks that are apart and equal are empty.\<close>

lemma apart_same: "apart (Mem k o1 s1) (Mem k o1 s1) \<Longrightarrow> s1 = 0"
  by (simp add: unat_eq_0)

section \<open>Invariant\<close>

definition ex_position :: "nat \<Rightarrow> (nat \<Rightarrow> nat) \<Rightarrow> ex_net \<Rightarrow> nat \<Rightarrow> nat" where
  "ex_position p gl n r = ex_pos p (ex_place (ctl n (gl r)))"

definition ex_wires where
  "ex_wires p S T P n \<longleftrightarrow>
     wires_ids ({..<p} \<times> {..<p}) (exch S T) (wrote p P) (collected p P) (answered p P) (confirmed p P) n"

definition ex_local_inv :: "nat \<Rightarrow> (nat \<Rightarrow> nat) \<Rightarrow> (nat \<Rightarrow> nat \<Rightarrow> buffer_description) \<Rightarrow>
    (nat \<Rightarrow> nat \<Rightarrow> buffer_description) \<Rightarrow> ex_net \<Rightarrow> bool" where
  "ex_local_inv p gl S T n \<longleftrightarrow> (\<forall>r < p. ex_ok_place p (ex_place (ctl n (gl r))) \<and>
     (\<forall>i < p. (remote (ctl n (gl r)) i = None \<or> remote (ctl n (gl r)) i = Some (T i r, S i r)) \<and>
        (remote (ctl n (gl r)) i \<noteq> None \<longleftrightarrow> sent (ctl n (gl i)) r) \<and>
        (p + i < ex_position p gl n r \<longrightarrow> remote (ctl n (gl r)) i \<noteq> None)))"

definition ex_data_inv :: "nat \<Rightarrow> (nat \<Rightarrow> nat) \<Rightarrow> (nat \<Rightarrow> nat \<Rightarrow> buffer_description) \<Rightarrow>
    (nat \<Rightarrow> nat \<Rightarrow> buffer_description) \<Rightarrow> (nat \<Rightarrow> nat \<Rightarrow> u8 list) \<Rightarrow> ex_net \<Rightarrow> bool" where
  "ex_data_inv p gl S T inp n \<longleftrightarrow> (\<forall>a < p. \<forall>b < p. buf n (gl a) (block_of (S a b)) = inp a b \<and>
     (flag n (exch S T (a, b)) \<or> collected p (ex_position p gl n) (a, b) \<longrightarrow>
        buf n (gl b) (block_of (T b a)) = inp a b))"

definition ex_inv where
  "ex_inv p gl S T inp n \<longleftrightarrow> ex_local_inv p gl S T n \<and> ex_wires p S T (ex_position p gl n) n \<and>
     ex_data_inv p gl S T inp n"

lemma ex_inv_init:
  assumes "ex_init p gl S inp n"
  shows "ex_inv p gl S T inp n"
proof -
  have P: "ex_position p gl n r = 0" "ctl n (gl r) = \<lparr>ex_place = Prepare 0, remote = \<lambda>_. None, sent = \<lambda>_. False\<rparr>"
    if "r < p" for r
    using assms that by (simp_all add: ex_init_def ex_position_def ex_loop_def)
  have none: "lift ({..<p} \<times> {..<p}) (exch S T) Q = (\<lambda>_. False)"
    if "\<And>a b. a < p \<Longrightarrow> b < p \<Longrightarrow> \<not> Q (a, b)" for Q
    using that by (auto simp: lift_def fun_eq_iff)
  have "ex_wires p S T (ex_position p gl n) n"
    unfolding ex_wires_def wires_ids_def
    by (subst none, simp add: channel_history P)+ (use assms in \<open>simp add: wires_def ex_init_def\<close>)
  moreover have "ex_local_inv p gl S T n" using P by (simp add: ex_local_inv_def)
  moreover have "ex_data_inv p gl S T inp n"
    using assms P by (auto simp: ex_data_inv_def ex_init_def ex_chan_def block_of_def collected_def)
  ultimately show ?thesis by (simp add: ex_inv_def)
qed

section \<open>Steps of a rank\<close>

definition same_wires :: "ex_net \<Rightarrow> ex_net \<Rightarrow> bool" where
  "same_wires n m \<longleftrightarrow> pend n = pend m \<and> flag n = flag m \<and> apend n = apend m \<and> aflag n = aflag m"

definition ex_effect where
  "ex_effect p gl S T r n n' \<longleftrightarrow> (\<exists>pl. ex_ok_place p pl \<and> ex_pos p pl = ex_position p gl n r + 1 \<and>
       ctl n' = (ctl n)(gl r := (ctl n (gl r))\<lparr>ex_place := pl\<rparr>)) \<and> buf n' = buf n \<and>
     (case ex_place (ctl n (gl r)) of
        Write i \<Rightarrow> remote (ctl n (gl r)) i \<noteq> None \<and> same_wires n' (initTransfer (exch S T (r, i)) n)
      | Collect i \<Rightarrow> flag n (exch S T (i, r)) \<and> same_wires n' (snd (checkForCompletion (exch S T (i, r)) n))
      | Answer i \<Rightarrow> same_wires n' (ackTransfer (exch S T (i, r)) n)
      | Confirm i \<Rightarrow> aflag n (exch S T (r, i)) \<and> same_wires n' (snd (checkForTransferAck (exch S T (r, i)) n))
      | _ \<Rightarrow> same_wires n' n)"

definition ex_waiting where
  "ex_waiting S T r q n \<longleftrightarrow>
     (case ex_place (ctl n q) of
        Write i \<Rightarrow> remote (ctl n q) i = None
      | Collect i \<Rightarrow> \<not> flag n (exch S T (i, r))
      | Confirm i \<Rightarrow> \<not> aflag n (exch S T (r, i))
      | Sent i \<Rightarrow> \<not> sent (ctl n q) i
      | ExReturned \<Rightarrow> True
      | _ \<Rightarrow> False)"

lemma ex_execute_effect:
  assumes inv: "ex_local_inv p gl S T n" and ok: "ex_descriptions p gl S T inp" and r: "r < p"
  shows "ex_execute p (S r) (T r) (gl r) n = n \<and> ex_waiting S T r (gl r) n \<or>
    ex_effect p gl S T r n (ex_execute p (S r) (T r) (gl r) n)"
proof -
  let ?s = "ctl n (gl r)"
  have rem: "remote ?s i = None \<or> remote ?s i = Some (T i r, S i r)" if "i < p" for i
    using inv r that by (simp add: ex_local_inv_def)
  have got: "remote ?s i = Some (T i r, S i r)" if "i < p" "p + i < ex_pos p (ex_place ?s)" for i
    using inv r that rem [OF that(1)] unfolding ex_local_inv_def ex_position_def by metis
  have pl: "ex_ok_place p (ex_place ?s)" using inv r by (simp add: ex_local_inv_def)
  have size: "bd_size (S r i) = bd_size (T i r)" if "i < p" for i
    using ok r that by (simp add: ex_descriptions_def)
  note defs = ex_execute_def ex_effect_def ex_waiting_def ex_position_def Let_def same_wires_def cnet exch_def
  have moved: "\<exists>pl. ex_ok_place p pl \<and> ex_pos p pl = ex_position p gl n r + 1 \<and>
      (ctl n)(gl r := ?s\<lparr>ex_place := pl0\<rparr>) = (ctl n)(gl r := ?s\<lparr>ex_place := pl\<rparr>)"
    if "ex_ok_place p pl0" "ex_pos p pl0 = ex_pos p (ex_place ?s) + 1" for pl0
    using that by (intro exI [of _ pl0]) (simp add: ex_position_def)
  show ?thesis
  proof (cases "ex_place ?s")
    case (Prepare i)
    with moved [of "ex_loop p (i + 1) Prepare (Write 0)"] pl ex_pos_loop(1) [of i p] ex_ok_loop(1) [of i p]
    show ?thesis by (simp add: ex_execute_def ex_effect_def same_wires_def cnet)
  next
    case (Write i)
    with moved [of "ex_loop p (i + 1) Write (Collect 0)"] pl ex_pos_loop(2) [of i p] ex_ok_loop(2) [of i p]
      rem [of i] size [of i]
    show ?thesis by (auto simp: ex_execute_def ex_effect_def ex_waiting_def same_wires_def cnet exch_def)
  next
    case (Collect i)
    then have i: "i < p" "remote ?s i = Some (T i r, S i r)" using pl got [of i] by auto
    show ?thesis
    proof (cases "flag n (exch S T (i, r))")
      case True
      with moved [of "Answer i"] Collect i show ?thesis
        by (simp add: ex_execute_def ex_effect_def same_wires_def cnet exch_def checkForCompletion_def)
    qed (use Collect i in \<open>simp add: ex_execute_def ex_waiting_def exch_def checkForCompletion_def\<close>)
  next
    case (Answer i)
    then have i: "i < p" "remote ?s i = Some (T i r, S i r)" using pl got [of i] by auto
    with moved [of "ex_loop p (i + 1) Collect (Confirm 0)"] Answer ex_pos_loop(3) [of i p] ex_ok_loop(3) [of i p]
    show ?thesis by (simp add: ex_execute_def ex_effect_def same_wires_def cnet exch_def)
  next
    case (Confirm i)
    then have i: "i < p" "remote ?s i = Some (T i r, S i r)" using pl got [of i] by auto
    show ?thesis
    proof (cases "aflag n (exch S T (r, i))")
      case True
      with moved [of "Sent i"] Confirm i show ?thesis
        by (simp add: ex_execute_def ex_effect_def same_wires_def cnet exch_def checkForTransferAck_def)
    qed (use Confirm i in \<open>simp add: ex_execute_def ex_waiting_def exch_def checkForTransferAck_def\<close>)
  next
    case (Sent i)
    with moved [of "ex_loop p (i + 1) Confirm ExReturned"] pl ex_pos_loop(4) [of i p] ex_ok_loop(4) [of i p]
    show ?thesis
      by (cases "sent ?s i") (simp_all add: ex_execute_def ex_effect_def ex_waiting_def same_wires_def cnet Let_def)
  qed (use pl in \<open>simp_all add: ex_execute_def ex_waiting_def\<close>)
qed

lemma wires_ids_same:
  "wires_ids ids f S R A B m \<Longrightarrow> same_wires n m \<Longrightarrow> wires_ids ids f S R A B n"
  by (rule wires_ids_cong) (simp_all add: same_wires_def)

lemma ex_effect_position:
  assumes "ex_effect p gl S T r n n'" "inj_on gl {..<p}" "r < p" "q < p"
  shows "ex_position p gl n' q = ((ex_position p gl n)(r := ex_position p gl n r + 1)) q"
proof (cases "q = r")
  case False
  then have "gl q \<noteq> gl r" using assms(2-4) by (metis inj_onD lessThan_iff)
  with assms(1) False show ?thesis by (auto simp: ex_effect_def ex_position_def)
qed (use assms(1) in \<open>auto simp: ex_effect_def ex_position_def\<close>)

lemma history_cong:
  assumes "x \<in> {..<p} \<times> {..<p}" "\<And>q. q < p \<Longrightarrow> P q = Q q"
  shows "wrote p P x = wrote p Q x" "collected p P x = collected p Q x" "answered p P x = answered p Q x"
    "confirmed p P x = confirmed p Q x"
  using assms by (auto simp: channel_history)

lemma ex_wires_cong:
  assumes "ex_wires p S T P n" "\<And>q. q < p \<Longrightarrow> P' q = P q" "same_wires n' n"
  shows "ex_wires p S T P' n'"
  unfolding ex_wires_def
proof (rule wires_ids_cong [OF assms(1) [unfolded ex_wires_def]])
  fix x assume x: "x \<in> {..<p} \<times> {..<p}"
  show "wrote p P' x = wrote p P x" "collected p P' x = collected p P x" "answered p P' x = answered p P x"
    "confirmed p P' x = confirmed p P x"
    by (rule history_cong [OF x assms(2)]; assumption)+
qed (use assms(3) in \<open>simp_all add: same_wires_def\<close>)

lemma ex_wires_effect:
  assumes w: "ex_wires p S T P n" and e: "ex_effect p gl S T r n n'" and r: "r < p"
    and inj: "inj_on (exch S T) ({..<p} \<times> {..<p})" and pl: "ex_ok_place p (ex_place (ctl n (gl r)))"
    and P: "P r = ex_pos p (ex_place (ctl n (gl r)))"
  shows "ex_wires p S T (P(r := P r + 1)) n'"
proof -
  let ?ids = "{..<p} \<times> {..<p}" and ?P = "P(r := P r + 1)"
  note W = w [unfolded ex_wires_def]
  note other = history_other [OF _ refl, where P = P and r = r and p = p]
  have finish: "ex_wires p S T ?P n'"
    if "wires_ids ?ids (exch S T) S1 R1 A1 B1 m" "same_wires n' m"
      "\<And>x. x \<in> ?ids \<Longrightarrow> wrote p ?P x = S1 x" "\<And>x. x \<in> ?ids \<Longrightarrow> collected p ?P x = R1 x"
      "\<And>x. x \<in> ?ids \<Longrightarrow> answered p ?P x = A1 x" "\<And>x. x \<in> ?ids \<Longrightarrow> confirmed p ?P x = B1 x"
    for S1 R1 A1 B1 m
    unfolding ex_wires_def
    by (rule wires_ids_cong [OF that(1)]) (use that(2-6) in \<open>simp_all add: same_wires_def\<close>)
  show ?thesis
  proof (cases "ex_place (ctl n (gl r))")
    case (Prepare i)
    show ?thesis
      by (rule finish [OF W]; (rule other)?) (use Prepare P e pl in \<open>auto simp: ex_effect_def\<close>)
  next
    case (Write i)
    with P pl have i: "P r = p + i" "i < p" by simp_all
    have "wires_ids ?ids (exch S T) ((wrote p P)((r, i) := True)) (collected p P) (answered p P) (confirmed p P)
        (initTransfer (exch S T (r, i)) n)"
      by (rule wires_ids_post [OF W inj]) (use i r in \<open>simp_all add: wrote_def\<close>)
    note this [folded history_wrote [where P = P and r = r and p = p and i = i, OF i(1)]]
    then show ?thesis
      by (rule finish [OF _ _ refl other(2) other(3) other(4)]) (use Write i e in \<open>auto simp: ex_effect_def\<close>)
  next
    case (Collect i)
    with P pl have i: "P r = 2 * p + 2 * i" "i < p" by simp_all
    have "wires_ids ?ids (exch S T) (wrote p P) ((collected p P)((i, r) := True)) (answered p P) (confirmed p P)
        (snd (checkForCompletion (exch S T (i, r)) n))"
      by (rule wires_ids_receive [OF W]) (use i r e Collect in \<open>simp_all add: ex_effect_def\<close>)
    note this [folded history_collected [where P = P and r = r and p = p and i = i, OF i(1)]]
    then show ?thesis
      by (rule finish [OF _ _ other(1) refl other(3) other(4)]) (use Collect i e in \<open>auto simp: ex_effect_def\<close>)
  next
    case (Answer i)
    with P pl have i: "P r = 2 * p + 2 * i + 1" "i < p" by simp_all
    have "wires_ids ?ids (exch S T) (wrote p P) (collected p P) ((answered p P)((i, r) := True)) (confirmed p P)
        (ackTransfer (exch S T (i, r)) n)"
      by (rule wires_ids_ack [OF W inj]) (use i r in \<open>simp_all add: answered_def\<close>)
    note this [folded history_answered [where P = P and r = r and p = p and i = i, OF i(1)]]
    then show ?thesis
      by (rule finish [OF _ _ other(1) other(2) refl other(4)]) (use Answer i e in \<open>auto simp: ex_effect_def\<close>)
  next
    case (Confirm i)
    with P pl have i: "P r = 4 * p + 2 * i" "i < p" by simp_all
    have "wires_ids ?ids (exch S T) (wrote p P) (collected p P) (answered p P) ((confirmed p P)((r, i) := True))
        (snd (checkForTransferAck (exch S T (r, i)) n))"
      by (rule wires_ids_see [OF W]) (use i r e Confirm in \<open>simp_all add: ex_effect_def\<close>)
    note this [folded history_confirmed [where P = P and r = r and p = p and i = i, OF i(1)]]
    then show ?thesis
      by (rule finish [OF _ _ other(1) other(2) other(3) refl]) (use Confirm i e in \<open>auto simp: ex_effect_def\<close>)
  next
    case (Sent i)
    show ?thesis
      by (rule finish [OF W]; (rule other)?) (use Sent P e pl in \<open>auto simp: ex_effect_def\<close>)
  next
    case ExReturned
    then have False using e ex_pos_le unfolding ex_effect_def ex_position_def by fastforce
    then show ?thesis ..
  qed (use pl in simp)
qed

lemma ex_local_effect:
  assumes "ex_local_inv p gl S T n" "ex_effect p gl S T r n n'" "inj_on gl {..<p}" "r < p"
  shows "ex_local_inv p gl S T n'"
proof -
  obtain pl where pl: "ex_ok_place p pl" "ex_pos p pl = ex_position p gl n r + 1"
    "ctl n' = (ctl n)(gl r := (ctl n (gl r))\<lparr>ex_place := pl\<rparr>)"
    using assms(2) by (auto simp: ex_effect_def)
  have keep: "remote (ctl n' x) = remote (ctl n x)" "sent (ctl n' x) = sent (ctl n x)" for x
    using pl(3) by simp_all
  have place: "ex_ok_place p (ex_place (ctl n' (gl q)))" if "q < p" for q
    using pl assms(1) that by (auto simp: ex_local_inv_def)
  have "remote (ctl n (gl q)) i \<noteq> None" if q: "q < p" "i < p" "p + i < ex_position p gl n' q" for q i
  proof (cases "p + i < ex_position p gl n q")
    case True
    then show ?thesis using assms(1) q(1,2) unfolding ex_local_inv_def by blast
  next
    case False
    then have "q = r" "ex_position p gl n r = p + i"
      using q(3) ex_effect_position [OF assms(2-4) q(1)] by (auto split: if_splits)
    moreover have "ex_ok_place p (ex_place (ctl n (gl r)))" using assms(1,4) by (simp add: ex_local_inv_def)
    ultimately have "ex_place (ctl n (gl r)) = Write i"
      using q(2) by (cases "ex_place (ctl n (gl r))") (auto simp: ex_position_def)
    with assms(2) \<open>q = r\<close> show ?thesis by (simp add: ex_effect_def)
  qed
  with assms(1) keep place show ?thesis unfolding ex_local_inv_def by metis
qed

lemma ex_data_effect:
  assumes "ex_data_inv p gl S T inp n" "ex_effect p gl S T r n n'" "inj_on gl {..<p}" "r < p"
    "inj_on (exch S T) ({..<p} \<times> {..<p})" "ex_ok_place p (ex_place (ctl n (gl r)))"
  shows "ex_data_inv p gl S T inp n'"
proof -
  have buf: "buf n' = buf n" using assms(2) by (simp add: ex_effect_def)
  have "flag n (exch S T (a, b)) \<or> collected p (ex_position p gl n) (a, b)"
    if ab: "a < p" "b < p" and f: "flag n' (exch S T (a, b)) \<or> collected p (ex_position p gl n') (a, b)" for a b
  proof (cases "flag n' (exch S T (a, b))")
    case True
    then show ?thesis using assms(2)
      by (auto simp: ex_effect_def same_wires_def cnet split: ex_place.splits if_splits)
  next
    case False
    with f have c: "2 * p + 2 * a < ex_position p gl n' b" by (simp add: collected_def)
    show ?thesis
    proof (cases "2 * p + 2 * a < ex_position p gl n b")
      case False
      then have "b = r" "ex_position p gl n r = 2 * p + 2 * a"
        using c ex_effect_position [OF assms(2-4) ab(2)] by (auto split: if_splits)
      with assms(6) ab have "ex_place (ctl n (gl r)) = Collect a"
        by (cases "ex_place (ctl n (gl r))") (auto simp: ex_position_def, presburger)
      with assms(2) \<open>b = r\<close> show ?thesis by (simp add: ex_effect_def)
    qed (simp add: collected_def)
  qed
  with assms(1) buf show ?thesis unfolding ex_data_inv_def by metis
qed

lemma ex_inv_effect:
  assumes "ex_inv p gl S T inp n" "ex_descriptions p gl S T inp" "r < p" "ex_effect p gl S T r n n'"
  shows "ex_inv p gl S T inp n'"
proof -
  have inj: "inj_on gl {..<p}" using assms(2) by (simp add: ex_descriptions_def)
  note chan_inj = exch_inj [OF assms(2)]
  have pl: "ex_ok_place p (ex_place (ctl n (gl r)))" using assms(1,3) by (simp add: ex_inv_def ex_local_inv_def)
  have "ex_wires p S T ((ex_position p gl n)(r := ex_position p gl n r + 1)) n'"
    by (rule ex_wires_effect [OF _ assms(4,3) chan_inj pl])
      (use assms(1) in \<open>simp_all add: ex_inv_def ex_position_def\<close>)
  then have "ex_wires p S T (ex_position p gl n') n'"
    by (rule ex_wires_cong) (use ex_effect_position [OF assms(4) inj assms(3)] in \<open>simp_all add: same_wires_def\<close>)
  with ex_local_effect [OF _ assms(4) inj assms(3)] ex_data_effect [OF _ assms(4) inj assms(3) chan_inj pl] assms(1)
  show ?thesis by (simp add: ex_inv_def)
qed

section \<open>Steps of the environment\<close>

lemma meet_sel:
  assumes "inj_on gl {..<p}" "a < p" "b < p" "q < p"
  shows "ex_place (ctl (meet gl S T a b n) (gl q)) = ex_place (ctl n (gl q))"
    "remote (ctl (meet gl S T a b n) (gl q)) =
       (if q = b then (remote (ctl n (gl b)))(a \<mapsto> (T a b, S a b)) else remote (ctl n (gl q)))"
    "sent (ctl (meet gl S T a b n) (gl q)) =
       (if q = a then (sent (ctl n (gl a)))(b := True) else sent (ctl n (gl q)))"
    "buf (meet gl S T a b n) = buf n" "same_wires (meet gl S T a b n) n"
proof -
  have e: "gl q = gl a \<longleftrightarrow> q = a" "gl q = gl b \<longleftrightarrow> q = b" "gl a = gl b \<longleftrightarrow> a = b"
    using assms by (auto dest: inj_onD)
  show "ex_place (ctl (meet gl S T a b n) (gl q)) = ex_place (ctl n (gl q))"
    "remote (ctl (meet gl S T a b n) (gl q)) =
       (if q = b then (remote (ctl n (gl b)))(a \<mapsto> (T a b, S a b)) else remote (ctl n (gl q)))"
    "sent (ctl (meet gl S T a b n) (gl q)) =
       (if q = a then (sent (ctl n (gl a)))(b := True) else sent (ctl n (gl q)))"
    by (simp_all add: meet_def Let_def cnet e)
  show "buf (meet gl S T a b n) = buf n" "same_wires (meet gl S T a b n) n"
    by (simp_all add: meet_def Let_def cnet same_wires_def)
qed

lemma ex_inv_meet:
  assumes "ex_inv p gl S T inp n" "ex_descriptions p gl S T inp" "a < p" "b < p"
  shows "ex_inv p gl S T inp (meet gl S T a b n)"
proof -
  have inj: "inj_on gl {..<p}" using assms(2) by (simp add: ex_descriptions_def)
  note sel = meet_sel [OF inj assms(3,4)]
  have P: "ex_position p gl (meet gl S T a b n) q = ex_position p gl n q" if "q < p" for q
    by (simp add: ex_position_def sel(1) [OF that])
  have "ex_local_inv p gl S T (meet gl S T a b n)"
    using assms(1,3,4) P by (auto simp: ex_inv_def ex_local_inv_def sel)
  moreover have "ex_wires p S T (ex_position p gl (meet gl S T a b n)) (meet gl S T a b n)"
    by (rule ex_wires_cong [OF _ P sel(5) [OF assms(3)]]) (use assms(1) in \<open>simp add: ex_inv_def\<close>)
  moreover have "ex_data_inv p gl S T inp (meet gl S T a b n)"
  proof -
    have "collected p (ex_position p gl (meet gl S T a b n)) (c, d) = collected p (ex_position p gl n) (c, d)"
      if "d < p" for c d using P [OF that] by (simp add: collected_def)
    moreover have "flag (meet gl S T a b n) = flag n" using sel(5) [OF assms(3)] by (simp add: same_wires_def)
    ultimately show ?thesis using assms(1) by (simp add: ex_inv_def ex_data_inv_def sel(4) [OF assms(3)])
  qed
  ultimately show ?thesis by (simp add: ex_inv_def)
qed

lemma ex_empty_block:
  assumes "ex_descriptions p gl S T inp" "a < p" "b < p" "c < p"
  shows "block_of (T a b) = block_of (T a c) \<Longrightarrow> b = c \<or> inp b a = [] \<and> inp c a = []"
    "block_of (T a b) = block_of (S a c) \<Longrightarrow> inp b a = [] \<and> inp a c = []"
proof -
  have size: "bd_size (T x y) = bd_size (S y x)" "length (inp x y) = unat (bd_size (S x y))" if "x < p" "y < p" for x y
    using assms(1) that by (simp_all add: ex_descriptions_def)
  show "b = c \<or> inp b a = [] \<and> inp c a = []" if e: "block_of (T a b) = block_of (T a c)"
  proof (cases "b = c")
    case False
    then have "apart (block_of (T a b)) (block_of (T a c))" using assms by (simp add: ex_descriptions_def)
    with e have "bd_size (T a b) = 0" "bd_size (T a c) = 0" by (auto simp: block_of_def unat_eq_0)
    then have "length (inp b a) = 0" "length (inp c a) = 0" using size assms(2-4) by simp_all
    then show ?thesis by simp
  qed simp
  show "inp b a = [] \<and> inp a c = []" if e: "block_of (T a b) = block_of (S a c)"
  proof -
    have "apart (block_of (T a b)) (block_of (S a c))" using assms by (simp add: ex_descriptions_def)
    with e have "bd_size (T a b) = 0" "bd_size (S a c) = 0" by (auto simp: block_of_def unat_eq_0)
    then have "length (inp b a) = 0" "length (inp a c) = 0" using size assms(2-4) by simp_all
    then show ?thesis by simp
  qed
qed

lemma ex_local_inv_same: "ex_local_inv p gl S T n \<Longrightarrow> ctl n' = ctl n \<Longrightarrow> ex_local_inv p gl S T n'"
  unfolding ex_local_inv_def ex_position_def by (simp only:)

lemma ex_data_inv_same:
  "ex_data_inv p gl S T inp n \<Longrightarrow> ctl n' = ctl n \<Longrightarrow> buf n' = buf n \<Longrightarrow> flag n' = flag n \<Longrightarrow> ex_data_inv p gl S T inp n'"
  by (simp add: ex_data_inv_def collected_def ex_position_def)

lemma ex_inv_deliver:
  assumes inv: "ex_inv p gl S T inp n" and ok: "ex_descriptions p gl S T inp" and c: "0 < pend n c"
  shows "ex_inv p gl S T inp (deliver c n)"
proof -
  note W = inv [unfolded ex_inv_def ex_wires_def, THEN conjunct2, THEN conjunct1]
  obtain a b where ab: "a < p" "b < p" "c = exch S T (a, b)"
    using wires_ids_source [OF W] c by blast
  note fields = exch_fields [OF ok ab(1,2)]
  have inj: "inj_on gl {..<p}" using ok by (simp add: ex_descriptions_def)
  have D: "ex_data_inv p gl S T inp n" using inv by (simp add: ex_inv_def)
  have src: "buf n (gl a) (block_of (S a b)) = inp a b" using D ab by (simp add: ex_data_inv_def)
  have pos: "ex_position p gl (deliver c n) = ex_position p gl n"
    by (simp add: ex_position_def fun_eq_iff cnet)
  have b: "buf (deliver c n) = (buf n)(gl b := (buf n (gl b))(block_of (T b a) := inp a b))"
    by (simp add: cnet ab(3) fields src)
  have "ex_local_inv p gl S T (deliver c n)"
    by (rule ex_local_inv_same [of p gl S T n]) (use inv in \<open>simp_all add: ex_inv_def cnet\<close>)
  moreover have "ex_wires p S T (ex_position p gl (deliver c n)) (deliver c n)"
    using wires_ids_def wires_deliver [OF W [unfolded wires_ids_def] c] by (simp add: ex_wires_def pos wires_ids_def)
  moreover have "ex_data_inv p gl S T inp (deliver c n)"
    unfolding ex_data_inv_def
  proof (intro allI impI conjI)
    fix a' b' assume l: "a' < p" "b' < p"
    have e: "gl a' = gl b \<longleftrightarrow> a' = b" "gl b' = gl b \<longleftrightarrow> b' = b" using inj l ab by (auto dest: inj_onD)
    show "buf (deliver c n) (gl a') (block_of (S a' b')) = inp a' b'"
      using D l ex_empty_block(2) [OF ok ab(2,1) l(2)] by (auto simp: b e ex_data_inv_def)
    assume f: "flag (deliver c n) (exch S T (a', b')) \<or> collected p (ex_position p gl (deliver c n)) (a', b')"
    show "buf (deliver c n) (gl b') (block_of (T b' a')) = inp a' b'"
    proof (cases "b' = b \<and> block_of (T b a') = block_of (T b a)")
      case True
      then show ?thesis using ex_empty_block(1) [OF ok ab(2) l(1) ab(1)] by (auto simp: b)
    next
      case False
      have "(a', b') \<noteq> (a, b)" using False by auto
      then have "exch S T (a', b') \<noteq> c" using exch_inj [OF ok] l ab by (auto dest: inj_onD)
      then have "flag n (exch S T (a', b')) \<or> collected p (ex_position p gl n) (a', b')"
        using f by (simp add: cnet pos)
      with D l False show ?thesis by (auto simp: b e ex_data_inv_def)
    qed
  qed
  ultimately show ?thesis by (simp add: ex_inv_def)
qed

lemma ex_inv_deliver_ack:
  assumes inv: "ex_inv p gl S T inp n" and c: "0 < apend n c"
  shows "ex_inv p gl S T inp (deliver_ack c n)"
proof -
  note W = inv [unfolded ex_inv_def ex_wires_def, THEN conjunct2, THEN conjunct1]
  have pos: "ex_position p gl (deliver_ack c n) = ex_position p gl n"
    by (simp add: ex_position_def fun_eq_iff cnet)
  have "ex_wires p S T (ex_position p gl (deliver_ack c n)) (deliver_ack c n)"
    using wires_deliver_ack [OF W [unfolded wires_ids_def] c] by (simp add: ex_wires_def pos wires_ids_def)
  moreover have "ex_local_inv p gl S T (deliver_ack c n)"
    by (rule ex_local_inv_same [of p gl S T n]) (use inv in \<open>simp_all add: ex_inv_def cnet\<close>)
  moreover have "ex_data_inv p gl S T inp (deliver_ack c n)"
    by (rule ex_data_inv_same [of p gl S T inp n]) (use inv in \<open>simp_all add: ex_inv_def cnet\<close>)
  ultimately show ?thesis by (simp add: ex_inv_def)
qed

lemma ex_inv_step:
  assumes "ex_step env p gl S T n n'" "ex_inv p gl S T inp n" "ex_descriptions p gl S T inp" "gaspi_env env"
  shows "ex_inv p gl S T inp n'"
  using assms(1)
proof cases
  case (thread r)
  then show ?thesis
    using ex_execute_effect [OF _ assms(3), of n r] ex_inv_effect [OF assms(2,3)] assms(2)
    by (metis ex_inv_def)
next
  case transfer
  with assms(4) show ?thesis
    unfolding gaspi_env_def using ex_inv_deliver [OF assms(2,3)] ex_inv_deliver_ack [OF assms(2)] by blast
next
  case (message a b)
  then show ?thesis using ex_inv_meet [OF assms(2,3)] by simp
qed

lemma ex_inv_reach:
  "ex_reach env p gl S T n0 n \<Longrightarrow> ex_inv p gl S T inp n0 \<Longrightarrow> ex_descriptions p gl S T inp \<Longrightarrow> gaspi_env env \<Longrightarrow>
   ex_inv p gl S T inp n"
  by (induction rule: rtranclp_induct) (blast intro: ex_inv_step)+

section \<open>Progress\<close>

definition unmet :: "nat \<Rightarrow> (nat \<Rightarrow> nat) \<Rightarrow> ex_net \<Rightarrow> nat" where
  "unmet p gl n = (\<Sum>(a, b) \<in> {..<p} \<times> {..<p}. of_bool (remote (ctl n (gl b)) a = None))"

definition exchange_work :: "nat \<Rightarrow> (nat \<Rightarrow> nat) \<Rightarrow> (nat \<Rightarrow> nat \<Rightarrow> buffer_description) \<Rightarrow>
    (nat \<Rightarrow> nat \<Rightarrow> buffer_description) \<Rightarrow> ex_net \<Rightarrow> nat" where
  "exchange_work p gl S T n = 2 * (\<Sum>r < p. 6 * p - ex_position p gl n r) + unmet p gl n +
     posted (exch S T ` ({..<p} \<times> {..<p})) n"

lemma posted_like: "same_wires n m \<Longrightarrow> posted C n = posted C m"
  by (simp add: posted_def same_wires_def)

lemma posted_ex_effect:
  assumes "ex_effect p gl S T r n n'" "r < p" "ex_ok_place p (ex_place (ctl n (gl r)))"
  shows "posted (exch S T ` ({..<p} \<times> {..<p})) n' \<le> posted (exch S T ` ({..<p} \<times> {..<p})) n + 1"
proof -
  let ?C = "exch S T ` ({..<p} \<times> {..<p})"
  have fin: "finite ?C" by simp
  have mem: "exch S T (r, i) \<in> ?C" "exch S T (i, r) \<in> ?C" if "i < p" for i using that assms(2) by auto
  show ?thesis
  proof (cases "ex_place (ctl n (gl r))")
    case (Write i)
    then have "same_wires n' (initTransfer (exch S T (r, i)) n)" "i < p" using assms by (simp_all add: ex_effect_def)
    then show ?thesis using posted_like [of n'] posted_initTransfer [OF fin mem(1), of i n] by simp
  next
    case (Answer i)
    then have "same_wires n' (ackTransfer (exch S T (i, r)) n)" "i < p" using assms by (simp_all add: ex_effect_def)
    then show ?thesis using posted_like [of n'] posted_ackTransfer [OF fin mem(2), of i n] by simp
  qed (use assms(1) in \<open>auto simp: ex_effect_def posted_def same_wires_def cnet\<close>)
qed

lemma exchange_work_effect:
  assumes e: "ex_effect p gl S T r n n'" and inj: "inj_on gl {..<p}" and r: "r < p"
    and pl: "ex_ok_place p (ex_place (ctl n (gl r)))"
  shows "exchange_work p gl S T n' < exchange_work p gl S T n"
proof -
  obtain pl' where pl': "ex_ok_place p pl'" "ex_pos p pl' = ex_position p gl n r + 1"
    "ctl n' = (ctl n)(gl r := (ctl n (gl r))\<lparr>ex_place := pl'\<rparr>)"
    using e by (auto simp: ex_effect_def)
  have lt: "ex_position p gl n r < 6 * p" using ex_pos_le [OF pl'(1)] pl'(2) by simp
  have "(\<Sum>q < p. 6 * p - ex_position p gl n' q) + (6 * p - ex_position p gl n r) =
      (\<Sum>q < p. 6 * p - ex_position p gl n q) + (6 * p - ex_position p gl n' r)"
    by (rule sum_change) (use r ex_effect_position [OF e inj r] in auto)
  moreover have "ex_position p gl n' r = ex_position p gl n r + 1" using ex_effect_position [OF e inj r r] by simp
  moreover have "unmet p gl n' = unmet p gl n"
    unfolding unmet_def by (rule sum.cong) (auto simp: pl'(3))
  ultimately show ?thesis using posted_ex_effect [OF e r pl] lt unfolding exchange_work_def by linarith
qed

lemma exchange_work_deliver:
  assumes "ex_inv p gl S T inp n"
  shows "0 < pend n c \<Longrightarrow> exchange_work p gl S T (deliver c n) < exchange_work p gl S T n"
    "0 < apend n c \<Longrightarrow> exchange_work p gl S T (deliver_ack c n) < exchange_work p gl S T n"
proof -
  note W = assms [unfolded ex_inv_def ex_wires_def, THEN conjunct2, THEN conjunct1]
  have c: "0 < pend n c \<or> 0 < apend n c \<Longrightarrow> c \<in> exch S T ` ({..<p} \<times> {..<p})"
    using wires_ids_source [OF W] by blast
  have same: "ex_position p gl (deliver c n) = ex_position p gl n" "unmet p gl (deliver c n) = unmet p gl n"
    "ex_position p gl (deliver_ack c n) = ex_position p gl n" "unmet p gl (deliver_ack c n) = unmet p gl n"
    by (simp_all add: ex_position_def unmet_def fun_eq_iff cnet)
  show "0 < pend n c \<Longrightarrow> exchange_work p gl S T (deliver c n) < exchange_work p gl S T n"
    using c posted_deliver [of "exch S T ` ({..<p} \<times> {..<p})" c n] by (simp add: exchange_work_def same)
  show "0 < apend n c \<Longrightarrow> exchange_work p gl S T (deliver_ack c n) < exchange_work p gl S T n"
    using c posted_deliver_ack [of "exch S T ` ({..<p} \<times> {..<p})" c n] by (simp add: exchange_work_def same)
qed

lemma exchange_work_meet:
  assumes inj: "inj_on gl {..<p}" and ab: "a < p" "b < p" and none: "remote (ctl n (gl b)) a = None"
  shows "exchange_work p gl S T (meet gl S T a b n) < exchange_work p gl S T n"
proof -
  note sel = meet_sel [OF inj ab, where S = S and T = T and n = n]
  have "unmet p gl (meet gl S T a b n) + 1 = unmet p gl n + 0"
  proof -
    have "unmet p gl (meet gl S T a b n) + (case (a, b) of (x, y) \<Rightarrow> of_bool (remote (ctl n (gl y)) x = None)) =
        unmet p gl n + (case (a, b) of (x, y) \<Rightarrow> of_bool (remote (ctl (meet gl S T a b n) (gl y)) x = None))"
      unfolding unmet_def
      by (rule sum_change) (use ab in \<open>auto simp: sel(2) split: if_splits\<close>)
    then show ?thesis using none by (simp add: sel(2) [OF ab(2)])
  qed
  moreover have "(\<Sum>r < p. 6 * p - ex_position p gl (meet gl S T a b n) r) = (\<Sum>r < p. 6 * p - ex_position p gl n r)"
    by (rule sum.cong) (simp_all add: ex_position_def sel(1))
  ultimately show ?thesis using posted_like [OF sel(5) [OF ab(1)]] unfolding exchange_work_def by simp
qed

text \<open>When every message has met and every request is carried out, the last rank can move.\<close>

lemma last_not_waiting:
  assumes inv: "ex_inv p gl S T inp n" and ok: "ex_descriptions p gl S T inp" and r: "r < p"
    and quiet: "\<forall>c. pend n c = 0 \<and> apend n c = 0"
    and met: "\<forall>a < p. \<forall>b < p. p \<le> ex_position p gl n a \<longrightarrow> p \<le> ex_position p gl n b \<longrightarrow> remote (ctl n (gl b)) a \<noteq> None"
    and least: "\<forall>q < p. ex_position p gl n r \<le> ex_position p gl n q"
    and more: "ex_place (ctl n (gl r)) \<noteq> ExReturned"
  shows "\<not> ex_waiting S T r (gl r) n"
proof -
  note W = inv [unfolded ex_inv_def ex_wires_def, THEN conjunct2, THEN conjunct1]
  note inj = exch_inj [OF ok]
  have pl: "ex_ok_place p (ex_place (ctl n (gl r)))" using inv r by (simp add: ex_inv_def ex_local_inv_def)
  have sent: "remote (ctl n (gl i)) r \<noteq> None \<longleftrightarrow> sent (ctl n (gl r)) i" if "i < p" for i
    using inv r that unfolding ex_inv_def ex_local_inv_def by blast
  show ?thesis
  proof (cases "ex_place (ctl n (gl r))")
    case (Write i)
    then have "i < p" "p \<le> ex_position p gl n r" using pl by (simp_all add: ex_position_def)
    then show ?thesis using Write met least r by (fastforce simp: ex_waiting_def)
  next
    case (Collect i)
    then have i: "i < p" "ex_position p gl n r = 2 * p + 2 * i" using pl by (simp_all add: ex_position_def)
    then have "2 * p + 2 * i \<le> ex_position p gl n i" using least by metis
    then have "wrote p (ex_position p gl n) (i, r)" "\<not> collected p (ex_position p gl n) (i, r)"
      using i r by (simp_all add: channel_history)
    then show ?thesis using wires_ids_state(3) [OF W inj, of "(i, r)"] quiet i r Collect by (simp add: ex_waiting_def)
  next
    case (Confirm i)
    then have i: "i < p" "ex_position p gl n r = 4 * p + 2 * i" using pl by (simp_all add: ex_position_def)
    then have "4 * p \<le> ex_position p gl n i" using least by (metis le_add1 le_trans)
    then have "answered p (ex_position p gl n) (r, i)" "\<not> confirmed p (ex_position p gl n) (r, i)"
      using i r by (simp_all add: channel_history)
    then show ?thesis using wires_ids_state(4) [OF W inj, of "(r, i)"] quiet i r Confirm by (simp add: ex_waiting_def)
  next
    case (Sent i)
    then have i: "i < p" "p \<le> ex_position p gl n r" using pl by (simp_all add: ex_position_def)
    then have "p \<le> ex_position p gl n i" using least le_trans by blast
    then show ?thesis using Sent met i r sent [OF i(1)] by (auto simp: ex_waiting_def)
  qed (use pl more in \<open>auto simp: ex_waiting_def\<close>)
qed

lemma exchange_finish:
  assumes "ex_inv p gl S T inp n" "ex_descriptions p gl S T inp" "gaspi_env env" "gaspi_live env"
  shows "\<exists>n'. ex_reach env p gl S T n n' \<and> (\<forall>r < p. ex_place (ctl n' (gl r)) = ExReturned)"
  using assms(1)
proof (induction n rule: measure_induct_rule [of "exchange_work p gl S T"])
  case (less n)
  have go: ?case if s: "ex_step env p gl S T n n'" and w: "exchange_work p gl S T n' < exchange_work p gl S T n" for n'
    using less.IH [OF w ex_inv_step [OF s less.prems assms(2,3)]] s by (meson converse_rtranclp_into_rtranclp)
  have inj: "inj_on gl {..<p}" using assms(2) by (simp add: ex_descriptions_def)
  have loc: "ex_local_inv p gl S T n" using less.prems by (simp add: ex_inv_def)
  have pl: "ex_ok_place p (ex_place (ctl n (gl r)))" if "r < p" for r
    using loc that by (simp add: ex_local_inv_def)
  have done_pos: "ex_place (ctl n (gl r)) = ExReturned \<longleftrightarrow> 6 * p \<le> ex_position p gl n r" if "r < p" for r
    using pl [OF that] by (cases "ex_place (ctl n (gl r))") (auto simp: ex_position_def)
  consider c where "0 < pend n c" | c where "0 < apend n c"
    | a b where "a < p" "b < p" "p \<le> ex_position p gl n a" "p \<le> ex_position p gl n b" "remote (ctl n (gl b)) a = None"
    | "\<forall>r < p. ex_place (ctl n (gl r)) = ExReturned"
    | r where "\<forall>c. pend n c = 0 \<and> apend n c = 0"
        "\<forall>a < p. \<forall>b < p. p \<le> ex_position p gl n a \<longrightarrow> p \<le> ex_position p gl n b \<longrightarrow> remote (ctl n (gl b)) a \<noteq> None"
        "r < p" "ex_place (ctl n (gl r)) \<noteq> ExReturned"
    by (metis not_gr0)
  then show ?case
  proof cases
    case (1 c)
    show ?thesis
      by (rule go [OF ex_step.transfer, of "deliver c n"])
        (use 1 assms(4) exchange_work_deliver [OF less.prems] in \<open>auto simp: gaspi_live_def\<close>)
  next
    case (2 c)
    show ?thesis
      by (rule go [OF ex_step.transfer, of "deliver_ack c n"])
        (use 2 assms(4) exchange_work_deliver [OF less.prems] in \<open>auto simp: gaspi_live_def\<close>)
  next
    case (3 a b)
    have "has_posted (ctl n (gl a)) b" "has_posted (ctl n (gl b)) a"
      using has_posted_pos [OF pl [OF 3(1)] 3(2)] has_posted_pos [OF pl [OF 3(2)] 3(1)] 3(1-4)
      by (simp_all add: ex_position_def)
    with 3 show ?thesis
      by (intro go [OF ex_step.message]) (auto intro: exchange_work_meet [OF inj])
  next
    case 4
    then show ?thesis by blast
  next
    case (5 r')
    obtain r where r: "r < p" "\<forall>q < p. ex_position p gl n r \<le> ex_position p gl n q"
      using ex_has_least_nat [of "\<lambda>q. q < p" r' "ex_position p gl n"] 5(3) by auto
    have "ex_place (ctl n (gl r)) \<noteq> ExReturned"
      using done_pos r 5(3,4) le_trans by blast
    from last_not_waiting [OF less.prems assms(2) r(1) 5(1,2) r(2) this]
    have "ex_effect p gl S T r n (ex_execute p (S r) (T r) (gl r) n)"
      using ex_execute_effect [OF loc assms(2) r(1)] by blast
    then show ?thesis
      by (intro go [OF ex_step.thread [OF r(1)]]) (rule exchange_work_effect [OF _ inj r(1) pl [OF r(1)]])
  qed
qed

section \<open>Layouts\<close>

text \<open>Where the user's source and target areas of a rank lie: segment and offset.\<close>

definition described :: "nat \<Rightarrow> (nat \<Rightarrow> nat) \<Rightarrow> (nat \<Rightarrow> layout) \<Rightarrow> (nat \<Rightarrow> u8 \<times> u64) \<Rightarrow> (nat \<Rightarrow> u8 \<times> u64) \<Rightarrow>
    (nat \<Rightarrow> nat \<Rightarrow> buffer_description) \<Rightarrow> (nat \<Rightarrow> nat \<Rightarrow> buffer_description) \<Rightarrow> bool" where
  "described p gl L sA tA S T \<longleftrightarrow> (\<forall>a < p. \<forall>b < p.
     unat (bd_rank (S a b)) = gl a \<and> unat (bd_rank (T a b)) = gl a \<and>
     block_of (S a b) = Mem (fst (sA a)) (snd (sA a) + source_offset (L a) b) (source_size (L a) b) \<and>
     block_of (T a b) = Mem (fst (tA a)) (snd (tA a) + target_offset (L a) b) (target_size (L a) b) \<and>
     (\<forall>c < p. c \<noteq> b \<longrightarrow> bd_notificationId (T a b) \<noteq> bd_notificationId (T a c)))"

definition consistent_layouts :: "nat \<Rightarrow> (nat \<Rightarrow> layout) \<Rightarrow> bool" where
  "consistent_layouts p L \<longleftrightarrow> (\<forall>a < p. \<forall>b < p. source_size (L a) b = target_size (L b) a \<and>
     target_offset (L a) b = running (target_size (L a)) b)"

definition source_extent :: "nat \<Rightarrow> layout \<Rightarrow> nat" where
  "source_extent p L = Max (insert 0 ((\<lambda>b. unat (source_offset L b) + unat (source_size L b)) ` {..<p}))"

definition target_extent :: "nat \<Rightarrow> layout \<Rightarrow> nat" where
  "target_extent p L = (\<Sum>b < p. unat (target_size L b))"

text \<open>The areas do not wrap around the address space and do not overlap.\<close>

definition areas_ok :: "nat \<Rightarrow> (nat \<Rightarrow> layout) \<Rightarrow> (nat \<Rightarrow> u8 \<times> u64) \<Rightarrow> (nat \<Rightarrow> u8 \<times> u64) \<Rightarrow> bool" where
  "areas_ok p L sA tA \<longleftrightarrow> (\<forall>a < p.
     unat (snd (sA a)) + source_extent p (L a) < 2 ^ 64 \<and> unat (snd (tA a)) + target_extent p (L a) < 2 ^ 64 \<and>
     (fst (sA a) \<noteq> fst (tA a) \<or> unat (snd (sA a)) + source_extent p (L a) \<le> unat (snd (tA a)) \<or>
        unat (snd (tA a)) + target_extent p (L a) \<le> unat (snd (sA a))))"

lemma unat_running:
  assumes "(\<Sum>j < i. unat (sizes j)) < 2 ^ 64"
  shows "unat (running sizes i) = (\<Sum>j < i. unat (sizes j))"
  using assms by (induction i) (simp_all add: unat_add_no_wrap)

lemma running_const: "running (\<lambda>_. sz) i = of_nat i * sz"
  by (induction i) (simp_all add: algebra_simps)

lemma sum_prefix: "i \<le> p \<Longrightarrow> (\<Sum>j < (i :: nat). f j) \<le> (\<Sum>j < p. f j :: nat)"
  by (rule sum_mono2) auto

lemma target_block_range:
  assumes "unat base + (\<Sum>j < p. unat (sizes j)) < 2 ^ 64" "i < p"
  shows "unat (base + running sizes i) = unat base + (\<Sum>j < i. unat (sizes j))"
    "unat (base + running sizes i) + unat (sizes i) = unat base + (\<Sum>j < Suc i. unat (sizes j))"
proof -
  have "(\<Sum>j < i. unat (sizes j)) \<le> (\<Sum>j < p. unat (sizes j))" by (rule sum_prefix) (use assms in simp)
  then have lt: "unat base + (\<Sum>j < i. unat (sizes j)) < 2 ^ 64" using assms(1) by linarith
  then have r: "unat (running sizes i) = (\<Sum>j < i. unat (sizes j))" by (intro unat_running) linarith
  with lt show e: "unat (base + running sizes i) = unat base + (\<Sum>j < i. unat (sizes j))"
    by (simp add: unat_add_no_wrap)
  show "unat (base + running sizes i) + unat (sizes i) = unat base + (\<Sum>j < Suc i. unat (sizes j))"
    by (simp add: e)
qed

lemma running_apart:
  assumes "unat base + (\<Sum>j < p. unat (sizes j)) < 2 ^ 64" "i < p" "j < p" "i \<noteq> j"
  shows "apart (Mem k (base + running sizes i) (sizes i)) (Mem k (base + running sizes j) (sizes j))"
proof -
  note r = target_block_range [OF assms(1)]
  have le: "unat (base + running sizes x) + unat (sizes x) \<le> unat (base + running sizes y)"
    if "x < y" "y < p" for x y
    using r(2) [of x] r(1) [of y] sum_prefix [of "Suc x" y "\<lambda>j. unat (sizes j)"] that by simp
  show ?thesis using le [of i j] le [of j i] assms(2-4) by (cases "i < j") auto
qed

lemma source_block_range:
  assumes "unat base + source_extent p L < 2 ^ 64" "b < p"
  shows "unat (base + source_offset L b) = unat base + unat (source_offset L b)"
    "unat base + unat (source_offset L b) + unat (source_size L b) \<le> unat base + source_extent p L"
proof -
  have "unat (source_offset L b) + unat (source_size L b) \<le> source_extent p L"
    unfolding source_extent_def by (rule Max_ge) (use assms(2) in auto)
  with assms(1) show "unat (base + source_offset L b) = unat base + unat (source_offset L b)"
    "unat base + unat (source_offset L b) + unat (source_size L b) \<le> unat base + source_extent p L"
    by (simp_all add: unat_add_no_wrap)
qed

lemma layouts_descriptions:
  assumes D: "described p gl L sA tA S T" and C: "consistent_layouts p L" and A: "areas_ok p L sA tA"
    and gl: "inj_on gl {..<p}" and len: "\<forall>a < p. \<forall>b < p. length (inp a b) = unat (source_size (L a) b)"
  shows "ex_descriptions p gl S T inp"
  unfolding ex_descriptions_def
proof (intro conjI allI impI gl)
  fix a b assume ab: "a < p" "b < p"
  have blocks: "block_of (S a c) = Mem (fst (sA a)) (snd (sA a) + source_offset (L a) c) (source_size (L a) c)"
    "block_of (T a c) = Mem (fst (tA a)) (snd (tA a) + running (target_size (L a)) c) (target_size (L a) c)"
    if "c < p" for c
    using D C ab that unfolding described_def consistent_layouts_def by metis+
  have tgt: "unat (snd (tA a)) + (\<Sum>j < p. unat (target_size (L a) j)) < 2 ^ 64"
    and src: "unat (snd (sA a)) + source_extent p (L a) < 2 ^ 64"
    using A ab by (simp_all add: areas_ok_def target_extent_def)
  show "unat (bd_rank (S a b)) = gl a" "unat (bd_rank (T a b)) = gl a" using D ab by (simp_all add: described_def)
  have size: "bd_size (S x y) = source_size (L x) y" "bd_size (T x y) = target_size (L x) y" if "x < p" "y < p" for x y
    using D that by (simp_all add: described_def block_of_def)
  show "bd_size (S a b) = bd_size (T b a)" using C ab by (simp add: size consistent_layouts_def)
  show "length (inp a b) = unat (bd_size (S a b))" using len ab by (simp add: size)
  fix c assume c: "c < p"
  show "c \<noteq> b \<Longrightarrow> bd_notificationId (T a b) \<noteq> bd_notificationId (T a c)" using D ab c by (simp add: described_def)
  show "c \<noteq> b \<Longrightarrow> apart (block_of (T a b)) (block_of (T a c))"
    unfolding blocks(2) [OF ab(2)] blocks(2) [OF c] by (rule running_apart [OF tgt ab(2) c]) simp
  have "unat (snd (tA a)) \<le> unat (snd (tA a) + running (target_size (L a)) b)"
    "unat (snd (tA a) + running (target_size (L a)) b) + unat (target_size (L a) b)
       \<le> unat (snd (tA a)) + target_extent p (L a)"
    using target_block_range [OF tgt ab(2)] sum_prefix [of "Suc b" p "\<lambda>j. unat (target_size (L a) j)"] ab(2)
    by (simp_all add: target_extent_def)
  moreover note source_block_range [OF src c]
  moreover have "fst (sA a) \<noteq> fst (tA a) \<or> unat (snd (sA a)) + source_extent p (L a) \<le> unat (snd (tA a)) \<or>
      unat (snd (tA a)) + target_extent p (L a) \<le> unat (snd (sA a))"
    using A ab by (simp add: areas_ok_def)
  ultimately show "apart (block_of (T a b)) (block_of (S a c))"
    unfolding blocks(2) [OF ab(2)] blocks(1) [OF c] by auto
qed

section \<open>Properties\<close>

text \<open>
  Property C16: the blocking collectives deliver.  When a rank returns, each of its target blocks
  holds the block the sender meant for it, for every interleaving of the ranks, the passive
  messages and the network; and no transfer from or into its blocks is outstanding, so that the
  caller may use both areas again.
\<close>

theorem exchange_result:
  assumes "gaspi_env env" "described p gl L sA tA S T" "consistent_layouts p L" "areas_ok p L sA tA"
    "inj_on gl {..<p}" "\<forall>a < p. \<forall>b < p. length (inp a b) = unat (source_size (L a) b)"
    "ex_init p gl S inp n0" "ex_reach env p gl S T n0 n" "b < p" "ex_place (ctl n (gl b)) = ExReturned" "a < p"
  shows "buf n (gl b) (Mem (fst (tA b)) (snd (tA b) + target_offset (L b) a) (target_size (L b) a)) = inp a b \<and>
    pend n (ex_chan (S b a) (T a b)) = 0 \<and> pend n (ex_chan (S a b) (T b a)) = 0"
proof -
  have ok: "ex_descriptions p gl S T inp" by (rule layouts_descriptions [OF assms(2-6)])
  have inv: "ex_inv p gl S T inp n" by (rule ex_inv_reach [OF assms(8) ex_inv_init [OF assms(7)] ok assms(1)])
  have pos: "ex_position p gl n b = 6 * p" using assms(10) by (simp add: ex_position_def)
  note W = inv [unfolded ex_inv_def ex_wires_def, THEN conjunct2, THEN conjunct1]
  note state = wires_ids_state [OF W exch_inj [OF ok]]
  have c: "collected p (ex_position p gl n) (a, b)" "confirmed p (ex_position p gl n) (b, a)"
    using pos assms(9,11) by (simp_all add: channel_history)
  have "block_of (T b a) = Mem (fst (tA b)) (snd (tA b) + target_offset (L b) a) (target_size (L b) a)"
    using assms(2,9,11) unfolding described_def by blast
  with c(1) inv assms(9,11)
  have data: "buf n (gl b) (Mem (fst (tA b)) (snd (tA b) + target_offset (L b) a) (target_size (L b) a)) = inp a b"
    unfolding ex_inv_def ex_data_inv_def by metis
  have "answered p (ex_position p gl n) (b, a)" using state(6) [of "(b, a)"] c(2) assms(9,11) by simp
  then have "collected p (ex_position p gl n) (b, a)" by (simp add: channel_history)
  moreover have m: "(b, a) \<in> {..<p} \<times> {..<p}" "(a, b) \<in> {..<p} \<times> {..<p}" using assms(9,11) by simp_all
  from state(1) [OF m(1)] state(1) [OF m(2)]
  have "0 < pend n (exch S T (b, a)) \<Longrightarrow> \<not> collected p (ex_position p gl n) (b, a)"
    "0 < pend n (exch S T (a, b)) \<Longrightarrow> \<not> collected p (ex_position p gl n) (a, b)" by simp_all
  ultimately have "pend n (exch S T (b, a)) = 0" "pend n (exch S T (a, b)) = 0" using c(1) by auto
  with data show ?thesis by (simp add: exch_def)
qed

text \<open>Two ranks that gather one byte each.\<close>

definition demo_S :: "nat \<Rightarrow> nat \<Rightarrow> buffer_description" where
  "demo_S a b = \<lparr>bd_rank = of_nat a, bd_segmentId = 0, bd_offset = 0, bd_size = 1, bd_notificationId = of_nat b\<rparr>"

definition demo_T :: "nat \<Rightarrow> nat \<Rightarrow> buffer_description" where
  "demo_T a b = \<lparr>bd_rank = of_nat a, bd_segmentId = 0, bd_offset = 8 + of_nat b, bd_size = 1,
     bd_notificationId = 2 + of_nat b\<rparr>"

definition demo_inp :: "nat \<Rightarrow> nat \<Rightarrow> u8 list" where
  "demo_inp a b = [of_nat a + 5]"

definition demo_net :: ex_net where
  "demo_net = \<lparr>phase = \<lambda>_. INITIALIZED,
     ctl = \<lambda>_. \<lparr>ex_place = Prepare 0, remote = \<lambda>_. None, sent = \<lambda>_. False\<rparr>,
     buf = \<lambda>a _. [of_nat a + 5], pend = \<lambda>_. 0, flag = \<lambda>_. False, apend = \<lambda>_. 0, aflag = \<lambda>_. False\<rparr>"

lemma below_2: "(\<forall>a < 2. P a) \<longleftrightarrow> P 0 \<and> P (Suc 0)" for P :: "nat \<Rightarrow> bool"
  by (auto simp: less_2_cases_iff)

lemma demo_ok:
  "described 2 id (\<lambda>_. allgather_layout 1) (\<lambda>_. (0, 0)) (\<lambda>_. (0, 8)) demo_S demo_T"
  "consistent_layouts 2 (\<lambda>_. allgather_layout 1)"
  "areas_ok 2 (\<lambda>_. allgather_layout 1) (\<lambda>_. (0, 0)) (\<lambda>_. (0, 8))"
  "inj_on id {..<2 :: nat}"
  "\<forall>a < 2. \<forall>b < 2. length (demo_inp a b) = unat (source_size (allgather_layout 1) b)"
  "ex_init 2 id demo_S demo_inp demo_net"
proof -
  show "described 2 id (\<lambda>_. allgather_layout 1) (\<lambda>_. (0, 0)) (\<lambda>_. (0, 8)) demo_S demo_T"
    by (simp add: described_def below_2 demo_S_def demo_T_def block_of_def allgather_layout_def)
  show "consistent_layouts 2 (\<lambda>_. allgather_layout 1)"
    by (simp add: consistent_layouts_def allgather_layout_def running_const)
  show "areas_ok 2 (\<lambda>_. allgather_layout 1) (\<lambda>_. (0, 0)) (\<lambda>_. (0, 8))"
  proof -
    have "{..<2 :: nat} = {0, 1}" by auto
    then show ?thesis by (simp add: areas_ok_def source_extent_def target_extent_def allgather_layout_def)
  qed
  show "ex_init 2 id demo_S demo_inp demo_net"
    by (simp add: ex_init_def demo_net_def demo_inp_def ex_loop_def)
qed (simp_all add: demo_inp_def allgather_layout_def)

lemma exchange_result_witness:
  "\<exists>n. ex_reach any_env 2 id demo_S demo_T demo_net n \<and> buf n 1 (Mem 0 8 1) = [5] \<and> buf n 1 (Mem 0 9 1) = [6]"
proof -
  note ok = layouts_descriptions [OF demo_ok(1-5)]
  obtain n where n: "ex_reach any_env 2 id demo_S demo_T demo_net n" "\<forall>r < 2. ex_place (ctl n (id r)) = ExReturned"
    using exchange_finish [OF ex_inv_init [OF demo_ok(6)] ok any_env_gaspi] by blast
  have "buf n 1 (Mem 0 (8 + target_offset (allgather_layout 1) a) 1) = demo_inp a 1" if "a < 2" for a
    using exchange_result [OF any_env_gaspi(1) demo_ok n(1), of 1 a] n(2) that by (simp add: allgather_layout_def)
  from this [of 0] this [of 1] n(1) show ?thesis by (auto simp: allgather_layout_def demo_inp_def)
qed

text \<open>
  Property C17: the blocking collectives return.  Every reachable state can be continued until all
  ranks have returned; no rank throws.
\<close>

theorem exchange_completes:
  assumes "gaspi_env env" "gaspi_live env" "described p gl L sA tA S T" "consistent_layouts p L" "areas_ok p L sA tA"
    "inj_on gl {..<p}" "\<forall>a < p. \<forall>b < p. length (inp a b) = unat (source_size (L a) b)"
    "ex_init p gl S inp n0" "ex_reach env p gl S T n0 n"
  shows "(\<exists>n'. ex_reach env p gl S T n n' \<and> (\<forall>r < p. ex_place (ctl n' (gl r)) = ExReturned)) \<and>
    (\<forall>r < p. ex_place (ctl n (gl r)) \<noteq> ExThrown)"
proof -
  have ok: "ex_descriptions p gl S T inp" by (rule layouts_descriptions [OF assms(3-7)])
  have inv: "ex_inv p gl S T inp n" by (rule ex_inv_reach [OF assms(9) ex_inv_init [OF assms(8)] ok assms(1)])
  then have "ex_place (ctl n (gl r)) \<noteq> ExThrown" if "r < p" for r
    using that by (auto simp: ex_inv_def ex_local_inv_def)
  then show ?thesis using exchange_finish [OF inv ok assms(1,2)] by blast
qed

lemma exchange_completes_witness:
  "\<exists>n. ex_reach any_env 2 id demo_S demo_T demo_net n \<and> (\<forall>r < 2. ex_place (ctl n r) = ExReturned)"
  using exchange_completes [OF any_env_gaspi demo_ok rtranclp.rtrancl_refl] by simp

text \<open>
  The layouts of the four functions.  In each of them the blocks that two ranks exchange
  have the same size on both sides and the target blocks lie one after the other: for
  \<open>allgatherv\<close> if all ranks pass the same sizes, for \<open>alltoallv\<close> if the source sizes of a rank are the
  target sizes of its partners.  Without these conditions they do not.
\<close>

theorem blocking_layouts:
  "consistent_layouts p (\<lambda>a. allgather_layout sz) \<and>
   consistent_layouts p (\<lambda>a. alltoall_layout sz) \<and>
   (consistent_layouts p (\<lambda>a. allgatherv_layout a (sizes a)) \<longleftrightarrow> (\<forall>a < p. \<forall>b < p. sizes a a = sizes b a)) \<and>
   (consistent_layouts p (\<lambda>a. alltoallv_layout (ssizes a) (tsizes a)) \<longleftrightarrow>
      (\<forall>a < p. \<forall>b < p. ssizes a b = tsizes b a))"
  by (auto simp: consistent_layouts_def allgather_layout_def alltoall_layout_def allgatherv_layout_def
      alltoallv_layout_def running_const)

end
