(* ===== verification/Blocking_Resources.thy ===== *)
theory Blocking_Resources
  imports Blocking_Exchange Buffer_Ownership "HOL-Library.Multiset"
begin

unbundle bit_operations_syntax

text \<open>
  What a call of a blocking collective takes from the source and the target segment it gives back.
  A segment's live notifications and regions are those it had before the call and a multiset of
  acquired ones; every step adds to the multisets or takes from them.
\<close>

section \<open>A set that has grown by a multiset\<close>

definition grown :: "'a set \<Rightarrow> 'a multiset \<Rightarrow> 'a set \<Rightarrow> bool" where
  "grown A X B \<longleftrightarrow> B = A \<union> set_mset X \<and> A \<inter> set_mset X = {} \<and> (\<forall>x. count X x \<le> 1)"

lemma grown_empty [simp]: "grown A {#} B \<longleftrightarrow> B = A"
  by (simp add: grown_def)

lemma grown_add: "grown A X B \<Longrightarrow> x \<notin> B \<Longrightarrow> grown A (add_mset x X) (insert x B)"
  by (auto simp: grown_def not_in_iff)

lemma grown_remove: "grown A (add_mset x X) B \<Longrightarrow> x \<in> B \<and> grown A X (B - {x})"
proof -
  assume g: "grown A (add_mset x X) B"
  then have c: "count (add_mset x X) y \<le> 1" for y by (simp add: grown_def)
  from c [of x] have "x \<notin># X" by (simp add: not_in_iff)
  moreover have "count X y \<le> 1" for y using c [of y] by (simp split: if_splits)
  ultimately show ?thesis using g by (auto simp: grown_def)
qed

lemma grown_distinct:
  assumes "grown A (mset xs + Y) B" shows "distinct xs"
proof -
  have "count (mset xs) x = (if x \<in> set xs then 1 else 0)" for x
  proof -
    have "count (mset xs + Y) x \<le> 1" using assms by (simp add: grown_def)
    then have "count (mset xs) x \<le> 1" by simp
    moreover have "x \<in> set xs \<Longrightarrow> count (mset xs) x \<noteq> 0" by simp
    moreover have "x \<notin> set xs \<Longrightarrow> count (mset xs) x = 0" by simp
    ultimately show ?thesis by presburger
  qed
  then show ?thesis by (simp add: distinct_count_atmost_1)
qed

section \<open>The books of the segments\<close>

abbreviation notes_of :: "(nat \<Rightarrow> segment) \<Rightarrow> nat \<Rightarrow> notification_manager" where
  "notes_of sg k \<equiv> sm_notifyManager (sg_manager (sg k))"

abbreviation memory_of :: "(nat \<Rightarrow> segment) \<Rightarrow> nat \<Rightarrow> mem_manager" where
  "memory_of sg k \<equiv> sm_memoryManager (sg_manager (sg k))"

type_synonym book = "nat \<Rightarrow> (u64 \<times> u64) multiset"

definition at :: "nat \<Rightarrow> 'a \<Rightarrow> nat \<Rightarrow> 'a multiset" where
  "at k x = (\<lambda>j. if j = k then {#x#} else {#})"

definition sound :: "nat \<Rightarrow> (nat \<Rightarrow> nat) \<Rightarrow> (nat \<Rightarrow> nat) \<Rightarrow> nat set \<Rightarrow> (nat \<Rightarrow> segment) \<Rightarrow> bool" where
  "sound e lo hi K sg \<longleftrightarrow> e \<le> 2 ^ 31 \<and>
     (\<forall>k \<in> K. nm_inv e (notes_of sg k) \<and> mm_inv (lo k) (hi k) (memory_of sg k))"

definition booked :: "nat \<Rightarrow> (nat \<Rightarrow> nat) \<Rightarrow> (nat \<Rightarrow> nat) \<Rightarrow> nat set \<Rightarrow> (nat \<Rightarrow> segment) \<Rightarrow>
    book \<Rightarrow> book \<Rightarrow> (nat \<Rightarrow> segment) \<Rightarrow> bool" where
  "booked e lo hi K sg0 N M sg \<longleftrightarrow> sound e lo hi K sg \<and>
     (\<forall>k \<in> K. grown (nm_live (notes_of sg0 k)) (N k) (nm_live (notes_of sg k)) \<and>
              grown (mm_live (memory_of sg0 k)) (M k) (mm_live (memory_of sg k)))"

lemma booked_start: "sound e lo hi K sg \<Longrightarrow> booked e lo hi K sg (\<lambda>_. {#}) (\<lambda>_. {#}) sg"
  by (simp add: booked_def)

text \<open>The four changes.\<close>

lemma booked_note:
  assumes B: "booked e lo hi K sg0 N M sg" and k: "k \<in> K"
    and a: "nm_allocate 1 (notes_of sg k) = Inr (q, nm)" and m: "notes_of sg' = (notes_of sg)(k := nm)"
      "memory_of sg' = memory_of sg"
  shows "booked e lo hi K sg0 (\<lambda>j. N j + at k (scast (ucast q :: u32), 1) j) M sg'"
proof -
  have i: "nm_inv e (notes_of sg k)" "e \<le> 2 ^ 31" using B k by (auto simp: booked_def sound_def)
  note A = nm_allocate_result [OF i(1) a]
  have "unat q < 2 ^ 31" using A(1,4) i(2) by simp
  then have q: "scast (ucast q :: u32) = q" using scast_ucast_small by blast
  have "notes_of sg' j = (if j = k then nm else notes_of sg j)" "memory_of sg' j = memory_of sg j" for j
    using fun_cong [OF m(1), of j] fun_cong [OF m(2), of j] by auto
  moreover have "(q, 1) \<notin> nm_live (notes_of sg k)" using A(5) by force
  ultimately show ?thesis
    using B k A(2,3) grown_add [of "nm_live (notes_of sg0 k)" "N k" "nm_live (notes_of sg k)" "(q, 1)"]
    by (simp add: booked_def sound_def at_def q)
qed

lemma booked_memory:
  assumes B: "booked e lo hi K sg0 N M sg" and k: "k \<in> K" and z: "0 < z"
    and a: "mm_allocate z (memory_of sg k) = Inr (p, mm)" and m: "notes_of sg' = notes_of sg"
      "memory_of sg' = (memory_of sg)(k := mm)"
  shows "booked e lo hi K sg0 N (\<lambda>j. M j + at k (p, z) j) sg'"
proof -
  have i: "mm_inv (lo k) (hi k) (memory_of sg k)" using B k by (auto simp: booked_def sound_def)
  have "memory_of sg' j = (if j = k then mm else memory_of sg j)" "notes_of sg' j = notes_of sg j" for j
    using fun_cong [OF m(1), of j] fun_cong [OF m(2), of j] by auto
  moreover have "(p, z) \<notin> mm_live (memory_of sg k)" using mm.alloc_new [OF i z a] by force
  ultimately show ?thesis
    using B k mm.alloc_inv [OF i z a] mm.alloc_live [OF i z a]
      grown_add [of "mm_live (memory_of sg0 k)" "M k" "mm_live (memory_of sg k)" "(p, z)"]
    by (simp add: booked_def sound_def at_def)
qed

lemma booked_unnote:
  assumes B: "booked e lo hi K sg0 (\<lambda>j. at k (q, 1) j + N j) M sg" and k: "k \<in> K"
  shows "\<exists>nm. nm_deallocate q (notes_of sg k) = Inr nm \<and>
    (\<forall>sg'. notes_of sg' = (notes_of sg)(k := nm) \<longrightarrow> memory_of sg' = memory_of sg \<longrightarrow> booked e lo hi K sg0 N M sg')"
proof -
  have i: "nm_inv e (notes_of sg k)" using B k by (auto simp: booked_def sound_def)
  have "grown (nm_live (notes_of sg0 k)) (at k (q, 1) k + N k) (nm_live (notes_of sg k))"
    using B k unfolding booked_def by blast
  then have "grown (nm_live (notes_of sg0 k)) (add_mset (q, 1) (N k)) (nm_live (notes_of sg k))" by (simp add: at_def)
  note g = grown_remove [OF this]
  from nm.dealloc_live [OF i conjunct1 [OF g]] obtain nm where
    d: "nm_deallocate q (notes_of sg k) = Inr nm" "nm_inv e nm" "nm_live nm = nm_live (notes_of sg k) - {(q, 1)}" by blast
  have "booked e lo hi K sg0 N M sg'" if m: "notes_of sg' = (notes_of sg)(k := nm)" "memory_of sg' = memory_of sg" for sg'
  proof -
    have "notes_of sg' j = (if j = k then nm else notes_of sg j)" "memory_of sg' j = memory_of sg j" for j
      using fun_cong [OF m(1), of j] fun_cong [OF m(2), of j] by auto
    then show ?thesis using B g d(2,3) by (auto simp: booked_def sound_def at_def)
  qed
  then show ?thesis using d(1) by blast
qed

lemma booked_unmemory:
  assumes B: "booked e lo hi K sg0 N (\<lambda>j. at k (p, z) j + M j) sg" and k: "k \<in> K"
  shows "\<exists>mm. mm_deallocate p z (memory_of sg k) = Inr mm \<and>
    (\<forall>sg'. notes_of sg' = notes_of sg \<longrightarrow> memory_of sg' = (memory_of sg)(k := mm) \<longrightarrow> booked e lo hi K sg0 N M sg')"
proof -
  have i: "mm_inv (lo k) (hi k) (memory_of sg k)" using B k by (auto simp: booked_def sound_def)
  have "grown (mm_live (memory_of sg0 k)) (at k (p, z) k + M k) (mm_live (memory_of sg k))"
    using B k unfolding booked_def by blast
  then have "grown (mm_live (memory_of sg0 k)) (add_mset (p, z) (M k)) (mm_live (memory_of sg k))" by (simp add: at_def)
  note g = grown_remove [OF this]
  from mm.dealloc_live [OF i conjunct1 [OF g]] obtain mm where
    d: "mm_deallocate p z (memory_of sg k) = Inr mm" "mm_inv (lo k) (hi k) mm"
      "mm_live mm = mm_live (memory_of sg k) - {(p, z)}" by blast
  have "booked e lo hi K sg0 N M sg'" if m: "notes_of sg' = notes_of sg" "memory_of sg' = (memory_of sg)(k := mm)" for sg'
  proof -
    have "memory_of sg' j = (if j = k then mm else memory_of sg j)" "notes_of sg' j = notes_of sg j" for j
      using fun_cong [OF m(1), of j] fun_cong [OF m(2), of j] by auto
    then show ?thesis using B g d(2,3) by (auto simp: booked_def sound_def at_def)
  qed
  then show ?thesis using d(1) by blast
qed

section \<open>The operations\<close>

lemma booked_acquire:
  assumes "on_segment k acquire_notification (sg, s) = (Inr n, sg', s')" "booked e lo hi K sg0 N M sg" "k \<in> K"
  shows "booked e lo hi K sg0 (\<lambda>j. N j + at k (scast n, 1) j) M sg'"
proof -
  from assms(1) obtain q nm where a: "nm_allocate 1 (notes_of sg k) = Inr (q, nm)" and n: "n = ucast q"
    and sg': "sg' = sg(k := (sg k)\<lparr>sg_manager := (sg_manager (sg k))\<lparr>sm_notifyManager := nm\<rparr>\<rparr>)"
    by (auto simp: on_segment_def acquire_notification_def split: sum.splits prod.splits)
  show ?thesis unfolding n by (rule booked_note [OF assms(2,3) a]) (simp_all add: sg' fun_eq_iff)
qed

lemma booked_release:
  assumes "booked e lo hi K sg0 (\<lambda>j. at k (scast n, 1) j + N j) M sg" "k \<in> K"
  shows "\<exists>sg'. on_segment k (release_notification n) (sg, s) = (Inr (), sg', s) \<and> booked e lo hi K sg0 N M sg'"
proof -
  from booked_unnote [OF assms] obtain nm where d: "nm_deallocate (scast n) (notes_of sg k) = Inr nm"
    and b: "\<And>sg'. notes_of sg' = (notes_of sg)(k := nm) \<Longrightarrow> memory_of sg' = memory_of sg \<Longrightarrow> booked e lo hi K sg0 N M sg'"
    by blast
  let ?sg = "sg(k := (sg k)\<lparr>sg_manager := (sg_manager (sg k))\<lparr>sm_notifyManager := nm\<rparr>\<rparr>)"
  have "booked e lo hi K sg0 N M ?sg" by (rule b) (simp_all add: fun_eq_iff)
  then show ?thesis using d by (simp add: on_segment_def release_notification_def)
qed

lemma booked_new_buffer:
  assumes c: "new_buffer k z (sg, s) = (Inr b, sg', s')" and B: "booked e lo hi K sg0 N M sg" and k: "k \<in> K" and z: "0 < z"
  shows "booked e lo hi K sg0 (\<lambda>j. N j + at k (scast (bf_notification b), 1) j) (\<lambda>j. M j + at k (bf_pointer b, z) j) sg' \<and>
    bf_allocMemory b = Some 0 \<and> bf_allocNotify b = Some (bf_notification b) \<and> bf_size b = z"
proof -
  from c obtain p mm q nm where a: "mm_allocate z (memory_of sg k) = Inr (p, mm)" "nm_allocate 1 (notes_of sg k) = Inr (q, nm)"
    and sg': "sg' = sg(k := (sg k)\<lparr>sg_manager := (sg_manager (sg k))\<lparr>sm_memoryManager := mm, sm_notifyManager := nm\<rparr>\<rparr>)"
    and b: "b = \<lparr>bf_allocMemory = Some 0, bf_allocNotify = Some (ucast q), bf_pointer = p, bf_size = z, bf_notification = ucast q\<rparr>"
    by (auto simp: new_buffer_def bf_construct_def memory_allocation_def notify_allocation_def on_manager_def
        allocator_allocate_def acquire_notification_def act_bind_apply act_on_error_def split: sum.splits prod.splits)
  let ?sg = "sg(k := (sg k)\<lparr>sg_manager := (sg_manager (sg k))\<lparr>sm_memoryManager := mm\<rparr>\<rparr>)"
  have 1: "booked e lo hi K sg0 N (\<lambda>j. M j + at k (p, z) j) ?sg"
    by (rule booked_memory [OF B k z a(1)]) (simp_all add: fun_eq_iff)
  have 2: "nm_allocate 1 (notes_of ?sg k) = Inr (q, nm)" using a(2) by simp
  have "booked e lo hi K sg0 (\<lambda>j. N j + at k (scast (ucast q :: u32), 1) j) (\<lambda>j. M j + at k (p, z) j) sg'"
    by (rule booked_note [OF 1 k 2]) (simp_all add: sg' fun_eq_iff)
  then show ?thesis by (simp add: b)
qed

lemma booked_delete_buffer:
  assumes B: "booked e lo hi K sg0 (\<lambda>j. at k (scast (bf_notification b), 1) j + N j) (\<lambda>j. at k (bf_pointer b, bf_size b) j + M j) sg"
    and k: "k \<in> K" and b: "bf_allocMemory b = Some 0" "bf_allocNotify b = Some (bf_notification b)"
  shows "\<exists>sg'. delete_buffer k b (sg, s) = (Inr (), sg', s) \<and> booked e lo hi K sg0 N M sg'"
proof -
  from booked_unnote [OF B k] obtain nm where n: "nm_deallocate (scast (bf_notification b)) (notes_of sg k) = Inr nm"
    and bn: "\<And>sg'. notes_of sg' = (notes_of sg)(k := nm) \<Longrightarrow> memory_of sg' = memory_of sg \<Longrightarrow>
      booked e lo hi K sg0 N (\<lambda>j. at k (bf_pointer b, bf_size b) j + M j) sg'" by blast
  let ?sg = "sg(k := (sg k)\<lparr>sg_manager := (sg_manager (sg k))\<lparr>sm_notifyManager := nm\<rparr>\<rparr>)"
  have 1: "booked e lo hi K sg0 N (\<lambda>j. at k (bf_pointer b, bf_size b) j + M j) ?sg"
    by (rule bn) (simp_all add: fun_eq_iff)
  from booked_unmemory [OF 1 k] obtain mm where m: "mm_deallocate (bf_pointer b) (bf_size b) (memory_of ?sg k) = Inr mm"
    and bm: "\<And>sg'. notes_of sg' = notes_of ?sg \<Longrightarrow> memory_of sg' = (memory_of ?sg)(k := mm) \<Longrightarrow> booked e lo hi K sg0 N M sg'"
    by blast
  let ?sg' = "sg(k := (sg k)\<lparr>sg_manager := (sg_manager (sg k))\<lparr>sm_notifyManager := nm, sm_memoryManager := mm\<rparr>\<rparr>)"
  have "booked e lo hi K sg0 N M ?sg'" by (rule bm) (simp_all add: fun_eq_iff)
  then show ?thesis using n m
    by (simp add: delete_buffer_def bf_destroy_def b notify_release_def memory_release_def on_manager_def
        release_notification_def allocator_deallocate_def act_bind_apply)
qed

section \<open>The loops\<close>

definition item_notes :: "nat \<Rightarrow> nat \<Rightarrow> exchange_item \<Rightarrow> book" where
  "item_notes ss ts it j =
     at ts (scast (bf_notification (it_recv it)), 1) j + (at ts (scast (bd_notificationId (it_target it)), 1) j +
     (at ts (scast (bf_notification (it_send it)), 1) j + at ss (scast (bd_notificationId (it_source it)), 1) j))"

definition item_memory :: "nat \<Rightarrow> exchange_item \<Rightarrow> book" where
  "item_memory ts it j =
     at ts (bf_pointer (it_recv it), bf_size (it_recv it)) j + at ts (bf_pointer (it_send it), bf_size (it_send it)) j"

definition owning :: "buffer \<Rightarrow> bool" where
  "owning b \<longleftrightarrow> bf_allocMemory b = Some 0 \<and> bf_allocNotify b = Some (bf_notification b)"

declare bd_ssize_23 [simp]

lemma local_description_booked:
  assumes "local_description G r k pt off z (sg, s) = (Inr d, sg', s')" "booked e lo hi K sg0 N M sg" "k \<in> K"
  shows "booked e lo hi K sg0 (\<lambda>j. N j + at k (scast (bd_notificationId d), 1) j) M sg'"
proof -
  from assms(1) obtain s1 n where a: "on_segment k acquire_notification (sg, s1) = (Inr n, sg', s')"
    and d: "bd_notificationId d = n"
    by (auto simp: local_description_def act_bind_eq_Inr with_segment_def split: prod.splits)
  show ?thesis unfolding d by (rule booked_acquire [OF a assms(2,3)])
qed

lemma with_segment_sg: "with_segment k m (sg, s) = (Inr u, sg', s') \<Longrightarrow> sg' = sg"
  by (auto simp: with_segment_def split: prod.splits)

lemma local_descriptions_booked:
  assumes c: "local_descriptions G g ss gs ts gt L i (sg, s) = (Inr it, sg', s')"
    and B: "booked e lo hi K sg0 N M sg" and k: "ss \<in> K" "ts \<in> K"
  shows "booked e lo hi K sg0 (\<lambda>j. N j + item_notes ss ts it j) (\<lambda>j. M j + item_memory ts it j) sg' \<and>
    owning (it_send it) \<and> owning (it_recv it)"
proof -
  from c obtain r own where rk: "toGlobalRank g (Rank (of_nat i)) = Inr r" "toGlobalRank g (g_rank g) = Inr own"
    by (auto simp: local_descriptions_def split: sum.splits)
  from c obtain u v sga sa sgb sb src sg1 s1 tgt sg2 s2 send sg3 s3 recv where
    r1: "with_segment ss (\<lambda>S. remoteRegistration G (sg_resource S) r) (sg, s) = (Inr u, sga, sa)" and
    r2: "with_segment ts (\<lambda>S. remoteRegistration G (sg_resource S) r) (sga, sa) = (Inr v, sgb, sb)" and
    d1: "local_description G own ss gs (source_offset L i) (source_size L i) (sgb, sb) = (Inr src, sg1, s1)" and
    d2: "local_description G own ts gt (target_offset L i) (target_size L i) (sg1, s1) = (Inr tgt, sg2, s2)" and
    b1: "new_buffer ts 46 (sg2, s2) = (Inr send, sg3, s3)" and
    b2: "new_buffer ts 46 (sg3, s3) = (Inr recv, sg', s')" and
    it: "it = \<lparr>it_source = src, it_target = tgt, it_send = send, it_recv = recv\<rparr>"
    unfolding local_descriptions_def rk by (auto simp: act_bind_eq_Inr)
  have sgb: "sgb = sg" using with_segment_sg [OF r1] with_segment_sg [OF r2] by simp
  note 1 = local_description_booked [OF d1 B [folded sgb] k(1)]
  note 2 = local_description_booked [OF d2 1 k(2)]
  note 3 = booked_new_buffer [OF b1 2 k(2), simplified]
  note 4 = booked_new_buffer [OF b2 conjunct1 [OF 3] k(2), simplified]
  show ?thesis using 3 4 by (simp add: it item_notes_def item_memory_def owning_def ac_simps)
qed

lemma describe_loop_booked:
  assumes "describe_loop G g ss gs ts gt L i k (sg, s) = (Inr ds, sg', s')"
    and "booked e lo hi K sg0 N M sg" and k: "ss \<in> K" "ts \<in> K"
  shows "booked e lo hi K sg0 (\<lambda>j. N j + (\<Sum>it\<leftarrow>ds. item_notes ss ts it j)) (\<lambda>j. M j + (\<Sum>it\<leftarrow>ds. item_memory ts it j)) sg' \<and>
    (\<forall>it \<in> set ds. owning (it_send it) \<and> owning (it_recv it))"
  using assms(1,2)
proof (induction k arbitrary: i sg s ds N M)
  case (Suc k)
  obtain it ds1 sg1 s1 where
    1: "local_descriptions G g ss gs ts gt L i (sg, s) = (Inr it, sg1, s1)" and
    2: "describe_loop G g ss gs ts gt L (i + 1) k (sg1, s1) = (Inr ds1, sg', s')" and ds: "ds = it # ds1"
    using Suc.prems(1) by (auto simp: act_bind_eq_Inr)
  note L = local_descriptions_booked [OF 1 Suc.prems(2) k]
  from Suc.IH [OF 2 conjunct1 [OF L]] L show ?case by (simp add: ds add.assoc)
qed auto

lemma for_each_booked:
  assumes step: "\<And>it N M sg. it \<in> set ds \<Longrightarrow>
      booked e lo hi K sg0 (\<lambda>j. fn it j + N j) (\<lambda>j. fm it j + M j) sg \<Longrightarrow>
      \<exists>sg'. f it (sg, s) = (Inr (), sg', s) \<and> booked e lo hi K sg0 N M sg'"
    and "booked e lo hi K sg0 (\<lambda>j. (\<Sum>it\<leftarrow>ds. fn it j) + N j) (\<lambda>j. (\<Sum>it\<leftarrow>ds. fm it j) + M j) sg"
  shows "\<exists>sg'. for_each f ds (sg, s) = (Inr (), sg', s) \<and> booked e lo hi K sg0 N M sg'"
  using assms
proof (induction ds arbitrary: sg)
  case (Cons it ds)
  have "booked e lo hi K sg0 (\<lambda>j. fn it j + ((\<Sum>it\<leftarrow>ds. fn it j) + N j)) (\<lambda>j. fm it j + ((\<Sum>it\<leftarrow>ds. fm it j) + M j)) sg"
    using Cons.prems(2) by (simp add: add.assoc)
  from Cons.prems(1) [OF _ this] obtain sg1 where
    1: "f it (sg, s) = (Inr (), sg1, s)"
      "booked e lo hi K sg0 (\<lambda>j. (\<Sum>it\<leftarrow>ds. fn it j) + N j) (\<lambda>j. (\<Sum>it\<leftarrow>ds. fm it j) + M j) sg1" by auto
  from Cons.IH [OF Cons.prems(1) 1(2)] obtain sg' where
    "for_each f ds (sg1, s) = (Inr (), sg', s)" "booked e lo hi K sg0 N M sg'" by auto
  then show ?case using 1(1) by (auto simp: act_bind_apply)
qed simp

lemma delete_booked:
  assumes "booked e lo hi K sg0 (\<lambda>j. at k (scast (bf_notification b), 1) j + N j) (\<lambda>j. at k (bf_pointer b, bf_size b) j + M j) sg"
    and "k \<in> K" "owning b"
  shows "\<exists>sg'. delete_buffer k b (sg, s) = (Inr (), sg', s) \<and> booked e lo hi K sg0 N M sg'"
  using booked_delete_buffer [OF assms(1,2)] assms(3) by (simp add: owning_def)

lemma release_exchange_booked:
  assumes B: "booked e lo hi K sg0 (\<lambda>j. \<Sum>it\<leftarrow>ds. item_notes ss ts it j) (\<lambda>j. \<Sum>it\<leftarrow>ds. item_memory ts it j) sg"
    and own: "\<forall>it \<in> set ds. owning (it_send it) \<and> owning (it_recv it)" and k: "ss \<in> K" "ts \<in> K"
  shows "\<exists>sg'. release_exchange ss ts ds (sg, s) = (Inr (), sg', s) \<and> booked e lo hi K sg0 (\<lambda>_. {#}) (\<lambda>_. {#}) sg'"
proof -
  define rn tn sn where "rn = (\<lambda>(it :: exchange_item) j. at ts (scast (bf_notification (it_recv it)) :: u64, 1 :: u64) j)"
    and "tn = (\<lambda>(it :: exchange_item) j. at ts (scast (bd_notificationId (it_target it)) :: u64, 1 :: u64) j)"
    and "sn = (\<lambda>(it :: exchange_item) j. at ts (scast (bf_notification (it_send it)) :: u64, 1 :: u64) j + at ss (scast (bd_notificationId (it_source it)), 1) j)"
  define rm sm where "rm = (\<lambda>(it :: exchange_item) j. at ts (bf_pointer (it_recv it), bf_size (it_recv it)) j)"
    and "sm = (\<lambda>(it :: exchange_item) j. at ts (bf_pointer (it_send it), bf_size (it_send it)) j)"
  note defs = rn_def tn_def sn_def rm_def sm_def
  have n: "item_notes ss ts it j = rn it j + (tn it j + sn it j)" and m: "item_memory ts it j = rm it j + sm it j" for it j
    by (simp_all add: item_notes_def item_memory_def defs)
  have "booked e lo hi K sg0 (\<lambda>j. (\<Sum>it\<leftarrow>ds. rn it j) + ((\<Sum>it\<leftarrow>ds. tn it j) + (\<Sum>it\<leftarrow>ds. sn it j)))
      (\<lambda>j. (\<Sum>it\<leftarrow>ds. rm it j) + (\<Sum>it\<leftarrow>ds. sm it j)) sg"
    using B unfolding n m by (simp add: sum_list_addf)
  then have "\<exists>sg'. release_received ts ds (sg, s) = (Inr (), sg', s) \<and>
      booked e lo hi K sg0 (\<lambda>j. (\<Sum>it\<leftarrow>ds. tn it j) + (\<Sum>it\<leftarrow>ds. sn it j)) (\<lambda>j. \<Sum>it\<leftarrow>ds. sm it j) sg'"
    unfolding release_received_def
  proof (rule for_each_booked [rotated])
    fix it N M sg
    assume it: "it \<in> set ds" and b: "booked e lo hi K sg0 (\<lambda>j. rn it j + N j) (\<lambda>j. rm it j + M j) sg"
    show "\<exists>sg'. delete_buffer ts (it_recv it) (sg, s) = (Inr (), sg', s) \<and> booked e lo hi K sg0 N M sg'"
      by (rule delete_booked [OF b [unfolded rn_def rm_def] k(2)]) (use own it in blast)
  qed
  then obtain sg1 where 1: "release_received ts ds (sg, s) = (Inr (), sg1, s)"
      "booked e lo hi K sg0 (\<lambda>j. (\<Sum>it\<leftarrow>ds. tn it j) + (\<Sum>it\<leftarrow>ds. sn it j)) (\<lambda>j. \<Sum>it\<leftarrow>ds. sm it j) sg1" by blast
  have "booked e lo hi K sg0 (\<lambda>j. (\<Sum>it\<leftarrow>ds. tn it j) + (\<Sum>it\<leftarrow>ds. sn it j)) (\<lambda>j. (\<Sum>it\<leftarrow>ds. {#}) + (\<Sum>it\<leftarrow>ds. sm it j)) sg1"
    using 1(2) by simp
  then have "\<exists>sg'. release_target ts ds (sg1, s) = (Inr (), sg', s) \<and>
      booked e lo hi K sg0 (\<lambda>j. \<Sum>it\<leftarrow>ds. sn it j) (\<lambda>j. \<Sum>it\<leftarrow>ds. sm it j) sg'"
    unfolding release_target_def
  proof (rule for_each_booked [rotated])
    fix it N M sg
    assume "it \<in> set ds" and b: "booked e lo hi K sg0 (\<lambda>j. tn it j + N j) (\<lambda>j. {#} + M j) sg"
    show "\<exists>sg'. on_segment ts (release_notification (bd_notificationId (it_target it))) (sg, s) = (Inr (), sg', s) \<and>
        booked e lo hi K sg0 N M sg'"
      by (rule booked_release [OF b [unfolded tn_def add_0] k(2)])
  qed
  then obtain sg2 where 2: "release_target ts ds (sg1, s) = (Inr (), sg2, s)"
      "booked e lo hi K sg0 (\<lambda>j. \<Sum>it\<leftarrow>ds. sn it j) (\<lambda>j. \<Sum>it\<leftarrow>ds. sm it j) sg2" by blast
  have "booked e lo hi K sg0 (\<lambda>j. (\<Sum>it\<leftarrow>ds. sn it j) + {#}) (\<lambda>j. (\<Sum>it\<leftarrow>ds. sm it j) + {#}) sg2" using 2(2) by simp
  then have "\<exists>sg'. release_source ss ts ds (sg2, s) = (Inr (), sg', s) \<and> booked e lo hi K sg0 (\<lambda>_. {#}) (\<lambda>_. {#}) sg'"
    unfolding release_source_def
  proof (rule for_each_booked [rotated])
    fix it N M sg
    assume it: "it \<in> set ds" and b: "booked e lo hi K sg0 (\<lambda>j. sn it j + N j) (\<lambda>j. sm it j + M j) sg"
    have "owning (it_send it)" using own it by blast
    from delete_booked [OF b [unfolded sn_def sm_def add.assoc] k(2) this, of s] obtain sg1 where
      a: "delete_buffer ts (it_send it) (sg, s) = (Inr (), sg1, s)"
        "booked e lo hi K sg0 (\<lambda>j. at ss (scast (bd_notificationId (it_source it)), 1) j + N j) M sg1" by blast
    from booked_release [OF a(2) k(1), of s] obtain sg2 where
      "on_segment ss (release_notification (bd_notificationId (it_source it))) (sg1, s) = (Inr (), sg2, s)"
      "booked e lo hi K sg0 N M sg2" by blast
    with a(1) show "\<exists>sg'. act_bind (delete_buffer ts (it_send it)) (\<lambda>_. on_segment ss (release_notification (bd_notificationId (it_source it)))) (sg, s) =
        (Inr (), sg', s) \<and> booked e lo hi K sg0 N M sg'"
      by (simp add: act_bind_apply)
  qed
  then show ?thesis using 1(1) 2(1) by (simp add: release_exchange_def act_bind_apply)
qed


end
