(* ===== verification/Blocking_Descriptions.thy ===== *)
theory Blocking_Descriptions
  imports Blocking_Exchange_Props Blocking_Resources Segment_Props
begin

text \<open>
  The descriptions that the first loop of the blocking collectives makes are the ones the exchange
  relies on: block by block the offsets and sizes of the layout, and notifications of the target
  segment that were free and differ from each other.
\<close>

section \<open>One description\<close>

text \<open>What a step of the loop leaves alone, and that live notifications stay live.\<close>

definition same_segments :: "(nat \<Rightarrow> segment) \<Rightarrow> (nat \<Rightarrow> segment) \<Rightarrow> bool" where
  "same_segments sg sg' \<longleftrightarrow> (\<forall>k. sg_resource (sg' k) = sg_resource (sg k) \<and>
     sm_segmentID (sg_manager (sg' k)) = sm_segmentID (sg_manager (sg k)))"

lemma same_segments_refl [simp]: "same_segments sg sg"
  by (simp add: same_segments_def)

lemma same_segments_trans: "same_segments sg sg1 \<Longrightarrow> same_segments sg1 sg2 \<Longrightarrow> same_segments sg sg2"
  by (simp add: same_segments_def)

lemma same_segments_id: "same_segments sg sg' \<Longrightarrow> segment_id (sg' k) = segment_id (sg k)"
  by (simp add: same_segments_def segment_id_def)

definition wf_ids :: "(nat \<Rightarrow> segment) \<Rightarrow> bool" where
  "wf_ids sg \<longleftrightarrow> (\<forall>k. sm_segmentID (sg_manager (sg k)) = segment_id (sg k))"

lemma same_segments_wf_ids: "same_segments sg sg' \<Longrightarrow> wf_ids sg \<Longrightarrow> wf_ids sg'"
  by (simp add: same_segments_def wf_ids_def segment_id_def)

lemma contract_ptr:
  "segment_contract G seg_info \<Longrightarrow> gaspi_segment_ptr G i s = ((GASPI_SUCCESS, p), s1) \<Longrightarrow>
   seg_info s1 = seg_info s \<and> (seg_info s i = Some (base, sz) \<longrightarrow> p = base)"
  unfolding segment_contract_def by blast

lemma contract_register:
  "segment_contract G seg_info \<Longrightarrow> gaspi_segment_register G i k t s = (r, s1) \<Longrightarrow> seg_info s1 = seg_info s"
  unfolding segment_contract_def by blast

lemma local_description_Inr:
  assumes C: "segment_contract G seg_info"
    and c: "local_description G rank k pointer offset sz (sg, s) = (Inr d, sg', s')"
    and b: "seg_info s (ucast (segment_id (sg k))) = Some (base, z)" and w: "wf_ids sg"
  shows "bd_rank d = rank \<and> block_of d = Mem (ucast (segment_id (sg k))) (pointer - base + offset) sz \<and>
    same_segments sg sg' \<and> seg_info s' = seg_info s"
proof -
  obtain p s1 x M where ptr: "gaspi_segment_ptr G (ucast (segment_id (sg k))) s = ((GASPI_SUCCESS, p), s1)"
    and acq: "acquire_notification (sg_manager (sg k)) = (Inr x, M)"
    and sg': "sg' = sg(k := (sg k)\<lparr>sg_manager := M\<rparr>)" "s' = s1"
    and d: "d = \<lparr>bd_rank = rank, bd_segmentId = ucast (segment_id (sg' k)), bd_offset = pointer - p + offset,
                 bd_size = sz, bd_notificationId = x\<rparr>"
    using c w
    by (auto simp: local_description_def act_bind_eq_Inr with_segment_def on_segment_def pointerToOffset_def
        getSegmentPtr_def wf_ids_def split: prod.splits dest!: checked_out_Inr)
  have "sm_segmentID M = sm_segmentID (sg_manager (sg k))"
    using acq by (auto simp: acquire_notification_def split: sum.splits)
  then have k: "same_segments sg sg'" using sg' by (simp add: same_segments_def)
  from contract_ptr [OF C ptr] b have p: "p = base" "seg_info s' = seg_info s" using sg' by auto
  show ?thesis using k p sg' by (auto simp: d block_of_def segment_id_def)
qed

lemma new_buffer_keeps: "new_buffer k z (sg, s) = (Inr b, sg', s') \<Longrightarrow> same_segments sg sg' \<and> s' = s"
  by (auto simp: new_buffer_def bf_construct_def memory_allocation_def notify_allocation_def on_manager_def
      allocator_allocate_def acquire_notification_def act_bind_apply act_on_error_def same_segments_def
      split: sum.splits prod.splits)

section \<open>The loop\<close>

lemma registration_info:
  "segment_contract G seg_info \<Longrightarrow>
   with_segment k (\<lambda>S. remoteRegistration G (sg_resource S) r) (sg, s) = (Inr u, sg', s') \<Longrightarrow>
   seg_info s' = seg_info s"
  by (auto simp: with_segment_def remoteRegistration_def contract_register
      split: prod.splits if_splits dest!: checked_Inr)

lemma local_descriptions_Inr:
  assumes C: "segment_contract G seg_info"
    and c: "local_descriptions G g ss gs ts gt L i (sg, s) = (Inr it, sg', s')"
    and own: "toGlobalRank g (g_rank g) = Inr own"
    and b: "seg_info s (ucast (segment_id (sg ss))) = Some (bs, zs)" "seg_info s (ucast (segment_id (sg ts))) = Some (bt, zt)"
    and w: "wf_ids sg"
  shows "bd_rank (it_source it) = own \<and> bd_rank (it_target it) = own \<and>
    block_of (it_source it) = Mem (ucast (segment_id (sg ss))) (gs - bs + source_offset L i) (source_size L i) \<and>
    block_of (it_target it) = Mem (ucast (segment_id (sg ts))) (gt - bt + target_offset L i) (target_size L i) \<and>
    same_segments sg sg' \<and> seg_info s' = seg_info s"
proof -
  obtain k where k: "toGlobalRank g (Rank (of_nat i)) = Inr k"
    using c by (auto simp: local_descriptions_def split: sum.splits)
  obtain sg1 s1 sg2 s2 sg3 s3 sg4 s4 sg5 s5 u v send recv where
    r1: "with_segment ss (\<lambda>S. remoteRegistration G (sg_resource S) k) (sg, s) = (Inr u, sg1, s1)" and
    r2: "with_segment ts (\<lambda>S. remoteRegistration G (sg_resource S) k) (sg1, s1) = (Inr v, sg2, s2)" and
    l3: "local_description G own ss gs (source_offset L i) (source_size L i) (sg2, s2) = (Inr (it_source it), sg3, s3)" and
    4: "local_description G own ts gt (target_offset L i) (target_size L i) (sg3, s3) = (Inr (it_target it), sg4, s4)" and
    5: "new_buffer ts 46 (sg4, s4) = (Inr send, sg5, s5)" and 6: "new_buffer ts 46 (sg5, s5) = (Inr recv, sg', s')"
    using c own k by (auto simp: local_descriptions_def act_bind_eq_Inr)
  have e: "sg1 = sg" "sg2 = sg" using with_segment_sg [OF r1] with_segment_sg [OF r2] by simp_all
  note 1 = r1 [unfolded e] and 2 = r2 [unfolded e] and 3 = l3 [unfolded e]
  have info: "seg_info s2 = seg_info s" using registration_info [OF C 1] registration_info [OF C 2] by simp
  note D = local_description_Inr [OF C 3 b(1) [folded info] w]
  have k3: "same_segments sg sg3" using D by simp
  have b3: "seg_info s3 (ucast (segment_id (sg3 ts))) = Some (bt, zt)"
    using D b(2) info same_segments_id [OF k3] by simp
  note E = local_description_Inr [OF C 4 b3 same_segments_wf_ids [OF k3 w]]
  note N = new_buffer_keeps [OF 5] new_buffer_keeps [OF 6]
  have "same_segments sg sg'" using k3 E N same_segments_trans by blast
  then show ?thesis using D E N info same_segments_id [OF k3] by simp
qed

lemma describe_loop_Inr:
  assumes C: "segment_contract G seg_info"
    and c: "describe_loop G g ss gs ts gt L i k (sg, s) = (Inr ds, w)"
    and own: "toGlobalRank g (g_rank g) = Inr own"
    and b: "seg_info s (ucast (segment_id (sg ss))) = Some (bs, zs)" "seg_info s (ucast (segment_id (sg ts))) = Some (bt, zt)"
    and wf: "wf_ids sg"
  shows "length ds = k \<and> (\<forall>j < k. bd_rank (it_source (ds ! j)) = own \<and> bd_rank (it_target (ds ! j)) = own \<and>
      block_of (it_source (ds ! j)) = Mem (ucast (segment_id (sg ss))) (gs - bs + source_offset L (i + j)) (source_size L (i + j)) \<and>
      block_of (it_target (ds ! j)) = Mem (ucast (segment_id (sg ts))) (gt - bt + target_offset L (i + j)) (target_size L (i + j)))"
  using c b wf
proof (induction k arbitrary: i sg s ds)
  case 0
  then show ?case by simp
next
  case (Suc k)
  obtain it ds1 sg1 s1 where
    1: "local_descriptions G g ss gs ts gt L i (sg, s) = (Inr it, sg1, s1)" and
    2: "describe_loop G g ss gs ts gt L (i + 1) k (sg1, s1) = (Inr ds1, w)" and ds: "ds = it # ds1"
    using Suc.prems(1) by (auto simp: act_bind_eq_Inr)
  note D = local_descriptions_Inr [OF C 1 own Suc.prems(2-4)]
  have kp: "same_segments sg sg1" using D by simp
  note id = same_segments_id [OF kp]
  have "seg_info s1 (ucast (segment_id (sg1 ss))) = Some (bs, zs)" "seg_info s1 (ucast (segment_id (sg1 ts))) = Some (bt, zt)"
    using D Suc.prems(2,3) id by simp_all
  note IH = Suc.IH [OF 2 this same_segments_wf_ids [OF kp Suc.prems(4)], unfolded id]
  have "bd_rank (it_source (ds ! j)) = own \<and> bd_rank (it_target (ds ! j)) = own \<and>
      block_of (it_source (ds ! j)) = Mem (ucast (segment_id (sg ss))) (gs - bs + source_offset L (i + j)) (source_size L (i + j)) \<and>
      block_of (it_target (ds ! j)) = Mem (ucast (segment_id (sg ts))) (gt - bt + target_offset L (i + j)) (target_size L (i + j))"
    if "j < Suc k" for j
    using that D IH by (cases j) (simp_all add: ds)
  then show ?case using IH by (simp add: ds)
qed

lemma target_notes: "mset (map (\<lambda>it. (scast (bd_notificationId (it_target it)) :: u64, 1 :: u64)) ds) \<subseteq># (\<Sum>it\<leftarrow>ds. item_notes ss ts it ts)"
proof (induction ds)
  case (Cons it ds)
  have "add_mset x X \<subseteq># a + ({#x#} + c) + Y" if "X \<subseteq># Y" for x :: "u64 \<times> u64" and X Y a c
  proof -
    have "X + {#x#} \<subseteq># Y + {#x#} + (a + c)"
      by (rule subset_mset.order_trans [OF _ mset_subset_eq_add_left]) (simp add: that)
    then show ?thesis by (simp add: ac_simps)
  qed
  note add = this [OF Cons]
  have "item_notes ss ts it ts = at ts (scast (bf_notification (it_recv it)), 1) ts +
      ({#(scast (bd_notificationId (it_target it)), 1)#} +
       (at ts (scast (bf_notification (it_send it)), 1) ts + at ss (scast (bd_notificationId (it_source it)), 1) ts))"
    by (simp add: item_notes_def at_def)
  then show ?case using add by (simp only: list.map mset.simps sum_list.Cons)
qed simp

lemma describe_loop_notes:
  assumes "describe_loop G g ss gs ts gt L i k (sg, s) = (Inr ds, sg', s')" "sound e lo hi {ss, ts} sg"
  shows "distinct (map (\<lambda>it. bd_notificationId (it_target it)) ds)"
proof -
  have "booked e lo hi {ss, ts} sg (\<lambda>j. \<Sum>it\<leftarrow>ds. item_notes ss ts it j) (\<lambda>j. \<Sum>it\<leftarrow>ds. item_memory ts it j) sg'"
    using describe_loop_booked [OF assms(1) booked_start [OF assms(2)]] by simp
  then have "grown (nm_live (notes_of sg ts)) (\<Sum>it\<leftarrow>ds. item_notes ss ts it ts) (nm_live (notes_of sg' ts))"
    by (simp add: booked_def)
  moreover obtain Y where "(\<Sum>it\<leftarrow>ds. item_notes ss ts it ts) = mset (map (\<lambda>it. (scast (bd_notificationId (it_target it)) :: u64, 1 :: u64)) ds) + Y"
    using target_notes subset_mset.le_iff_add by blast
  ultimately have "distinct (map (\<lambda>it. (scast (bd_notificationId (it_target it)) :: u64, 1 :: u64)) ds)"
    using grown_distinct by metis
  then show ?thesis by (auto simp: distinct_map inj_on_def)
qed

text \<open>
  What the ranks describe is what the exchange needs.  If on every rank the first loop
  ends without an exception, the descriptions of all ranks name their owners, follow the layout
  relative to the start of the segments, and the notifications of a rank's target blocks are
  pairwise different.
\<close>

theorem descriptions_described:
  assumes "segment_contract G seg_info"
    "\<forall>a < p. describe_loop G (g a) (ss a) (gs a) (ts a) (gt a) (L a) 0 p (sg a, s a) = (Inr (ds a), w a)"
    "\<forall>a < p. toGlobalRank (g a) (g_rank (g a)) = Inr (own a)"
    "\<forall>a < p. seg_info (s a) (ucast (segment_id (sg a (ss a)))) = Some (bs a, zs a)"
    "\<forall>a < p. seg_info (s a) (ucast (segment_id (sg a (ts a)))) = Some (bt a, zt a)"
    "\<forall>a < p. wf_ids (sg a) \<and> sound e lo hi {ss a, ts a} (sg a)"
  shows "described p (\<lambda>a. unat (own a)) L
    (\<lambda>a. (ucast (segment_id (sg a (ss a))), gs a - bs a)) (\<lambda>a. (ucast (segment_id (sg a (ts a))), gt a - bt a))
    (\<lambda>a b. it_source (ds a ! b)) (\<lambda>a b. it_target (ds a ! b))"
  unfolding described_def
proof (intro allI impI conjI)
  fix a b assume ab: "a < p" "b < p"
  have F: "length (ds a) = p \<and> (\<forall>j < p. bd_rank (it_source (ds a ! j)) = own a \<and> bd_rank (it_target (ds a ! j)) = own a \<and>
      block_of (it_source (ds a ! j)) = Mem (ucast (segment_id (sg a (ss a)))) (gs a - bs a + source_offset (L a) (0 + j)) (source_size (L a) (0 + j)) \<and>
      block_of (it_target (ds a ! j)) = Mem (ucast (segment_id (sg a (ts a)))) (gt a - bt a + target_offset (L a) (0 + j)) (target_size (L a) (0 + j)))"
    by (rule describe_loop_Inr [OF assms(1)]) (use assms(2-6) ab(1) in blast)+
  then show "unat (bd_rank (it_source (ds a ! b))) = unat (own a)" "unat (bd_rank (it_target (ds a ! b))) = unat (own a)"
    "block_of (it_source (ds a ! b)) = Mem (fst (ucast (segment_id (sg a (ss a))), gs a - bs a))
       (snd (ucast (segment_id (sg a (ss a))) :: u8, gs a - bs a) + source_offset (L a) b) (source_size (L a) b)"
    "block_of (it_target (ds a ! b)) = Mem (fst (ucast (segment_id (sg a (ts a))), gt a - bt a))
       (snd (ucast (segment_id (sg a (ts a))) :: u8, gt a - bt a) + target_offset (L a) b) (target_size (L a) b)"
    using ab(2) by simp_all
  fix c assume c: "c < p" "c \<noteq> b"
  obtain sg' s' where "w a = (sg', s')" by force
  with assms(2) ab(1) have "describe_loop G (g a) (ss a) (gs a) (ts a) (gt a) (L a) 0 p (sg a, s a) = (Inr (ds a), sg', s')"
    by simp
  from describe_loop_notes [OF this] assms(6) ab(1)
  have "distinct (map (\<lambda>it. bd_notificationId (it_target it)) (ds a))" by blast
  then show "bd_notificationId (it_target (ds a ! b)) \<noteq> bd_notificationId (it_target (ds a ! c))"
    using F ab(2) c by (simp add: distinct_conv_nth)
qed

text \<open>Two ranks that describe the blocks of an \<open>alltoall\<close> of 16 bytes.\<close>

definition demo_group :: "nat \<Rightarrow> group" where
  "demo_group a = \<lparr>g_ranks = [3, 5], g_rank = Rank (of_nat a)\<rparr>"

definition demo_loop :: "nat \<Rightarrow> exchange_item list res \<times> (u8 \<Rightarrow> (u64 \<times> u64) option) segments" where
  "demo_loop a = describe_loop demo_segments (demo_group a) 0 4096 0 4196 (alltoall_layout 16) 0 (Suc (Suc 0))
     (\<lambda>_. demo_segment 1024, [7 \<mapsto> (4096, 1024)])"

definition demo_state :: "mblock list \<Rightarrow> mblock list \<Rightarrow> nat \<Rightarrow> segment" where
  "demo_state bs ms = (\<lambda>_. demo_segment 1024)(0 := (demo_segment 1024)\<lparr>sg_manager :=
     \<lparr>sm_segmentID = 7, sm_memoryManager = \<lparr>mm_blocks = ms\<rparr>, sm_notifyManager = \<lparr>nm_blocks = bs\<rparr>\<rparr>\<rparr>)"

lemma demo_state_sel:
  "sg_manager (demo_state bs ms 0) = \<lparr>sm_segmentID = 7, sm_memoryManager = \<lparr>mm_blocks = ms\<rparr>, sm_notifyManager = \<lparr>nm_blocks = bs\<rparr>\<rparr>"
  "segment_id (demo_state bs ms 0) = 7"
  by (simp_all add: demo_state_def demo_segment_def segment_id_def)

lemma demo_state_upd:
  "(demo_state bs ms)(0 := (demo_state bs ms 0)\<lparr>sg_manager :=
     \<lparr>sm_segmentID = 7, sm_memoryManager = \<lparr>mm_blocks = ms'\<rparr>, sm_notifyManager = \<lparr>nm_blocks = bs'\<rparr>\<rparr>\<rparr>)
   = demo_state bs' ms'"
  by (simp add: demo_state_def demo_segment_def fun_eq_iff)

lemma demo_acquire:
  assumes "first_fit 1 bs \<noteq> None" "map_option fst (s 7) = Some 4096"
  shows "local_description demo_segments r 0 pt off sz (demo_state bs ms, s) =
    (case the (first_fit 1 bs) of (q, bs') \<Rightarrow>
     (Inr \<lparr>bd_rank = r, bd_segmentId = 7, bd_offset = pt - 4096 + off, bd_size = sz, bd_notificationId = ucast q\<rparr>,
      demo_state bs' ms, s))"
proof -
  have p: "with_segment 0 (\<lambda>S. pointerToOffset demo_segments (sg_manager S) pt) (demo_state bs ms, s)
      = (Inr (pt - 4096), demo_state bs ms, s)"
    using assms(2) by (auto simp add: with_segment_def pointerToOffset_def getSegmentPtr_def gaspi_checked_out_eq demo_segments_def
        act_bind_apply demo_state_def demo_segment_def)
  show ?thesis
    using assms by (auto simp: local_description_def act_bind_apply p on_segment_def acquire_notification_def nm_allocate_def
        demo_state_sel demo_state_upd)
qed

lemma demo_new_buffer:
  assumes "first_fit 46 ms \<noteq> None" "first_fit 1 bs \<noteq> None"
  shows "new_buffer 0 46 (demo_state bs ms, s) =
    (case the (first_fit 46 ms) of (p, ms') \<Rightarrow> case the (first_fit 1 bs) of (q, bs') \<Rightarrow>
    (Inr \<lparr>bf_allocMemory = Some 0, bf_allocNotify = Some (ucast q), bf_pointer = p, bf_size = 46, bf_notification = ucast q\<rparr>,
     demo_state bs' ms', s))"
  using assms
  by (auto simp: new_buffer_def bf_construct_def memory_allocation_def notify_allocation_def on_manager_def
      allocator_allocate_def acquire_notification_def act_bind_apply act_on_error_def mm_allocate_def nm_allocate_def
      demo_state_sel demo_state_upd)

lemma demo_register: "with_segment 0 (\<lambda>S. remoteRegistration demo_segments (sg_resource S) r) (sg, s) = (Inr (), sg, s)"
  by (simp add: with_segment_def remoteRegistration_def gaspi_checked_eq demo_segments_def)

lemma demo_start: "(\<lambda>_. demo_segment 1024) =
    demo_state [\<lparr>g_start = 0, bsize = 65536, bfree = True\<rparr>] [\<lparr>g_start = 4096, bsize = 1024, bfree = True\<rparr>]"
  by (simp add: demo_state_def demo_segment_def nm_construct_def mm_construct_def fun_eq_iff)

lemma demo_loop_run: "a < 2 \<Longrightarrow> \<exists>ds w. demo_loop a = (Inr ds, w)"
proof -
  have "\<exists>ds w. demo_loop 0 = (Inr ds, w)" "\<exists>ds w. demo_loop 1 = (Inr ds, w)"
    by (simp_all add: demo_loop_def local_descriptions_def demo_group_def toGlobalRank_def
        g_size_def act_bind_apply demo_register demo_start demo_acquire demo_new_buffer)
  then show "a < 2 \<Longrightarrow> ?thesis" by (auto simp: less_2_cases_iff)
qed

lemma demo_sound: "wf_ids (\<lambda>_. demo_segment 1024) \<and> sound 65536 (\<lambda>_. 4096) (\<lambda>_. 5120) {0, 0} (\<lambda>_. demo_segment 1024)"
  using nm_construct_inv [of 65536] mm_construct_inv [of 4096 1024]
  by (simp add: sound_def wf_ids_def demo_segment_def segment_id_def)

lemma descriptions_described_witness:
  "described 2 (\<lambda>a. unat ([3, 5] ! a :: u16)) (\<lambda>_. alltoall_layout 16) (\<lambda>_. (7, 0)) (\<lambda>_. (7, 100))
     (\<lambda>a b. it_source (projr (fst (demo_loop a)) ! b)) (\<lambda>a b. it_target (projr (fst (demo_loop a)) ! b))"
proof -
  have run: "\<forall>a < 2. describe_loop demo_segments (demo_group a) 0 4096 0 4196 (alltoall_layout 16) 0 2
      (\<lambda>_. demo_segment 1024, [7 \<mapsto> (4096, 1024)]) = (Inr (projr (fst (demo_loop a))), snd (demo_loop a))"
    using demo_loop_run unfolding demo_loop_def numeral_2_eq_2 by (metis fst_conv snd_conv sum.sel(2))
  have own: "\<forall>a < 2. toGlobalRank (demo_group a) (g_rank (demo_group a)) = Inr ([3, 5] ! a)"
    by (auto simp: less_2_cases_iff demo_group_def toGlobalRank_def g_size_def)
  have i: "\<forall>a < (2 :: nat). [7 \<mapsto> (4096, 1024)] (ucast (segment_id (demo_segment 1024))) = Some (4096 :: u64, 1024 :: u64)"
    by (simp add: segment_id_def demo_segment_def)
  have r: "\<forall>a < (2 :: nat). wf_ids (\<lambda>_. demo_segment 1024) \<and>
      sound 65536 (\<lambda>_. 4096) (\<lambda>_. 5120) {0, 0} (\<lambda>_. demo_segment 1024)" using demo_sound by blast
  from descriptions_described [where G = demo_segments and e = 65536 and p = 2 and g = demo_group and ss = "\<lambda>_. 0"
      and gs = "\<lambda>_. 4096" and ts = "\<lambda>_. 0" and gt = "\<lambda>_. 4196" and L = "\<lambda>_. alltoall_layout 16"
      and sg = "\<lambda>_ _. demo_segment 1024" and s = "\<lambda>_. [7 \<mapsto> (4096, 1024)]" and seg_info = "\<lambda>s. s"
      and own = "\<lambda>a. [3, 5] ! a" and bs = "\<lambda>_. 4096" and bt = "\<lambda>_. 4096" and zs = "\<lambda>_. 1024" and zt = "\<lambda>_. 1024"
      and ds = "\<lambda>a. projr (fst (demo_loop a))" and w = "\<lambda>a. snd (demo_loop a)",
      OF demo_segments_contract run own i i r]
  show ?thesis by (simp add: segment_id_def demo_segment_def)
qed


end
