(* ===== verification/Filesystem.thy ===== *)
theory Filesystem
  imports Gaspi_Prelude
begin

text \<open>
  \<open>utility/Filesystem.cpp\<close>: the working directory of the process, and the messages of the
  exceptions when the operating system refuses.  \<open>getcwd\<close> and \<open>chdir\<close> are parameters: the first
  returns a path or an error number, the second an error number or success.
\<close>

section \<open>Error numbers and the message stream\<close>

datatype errno =
  EACCES | EFAULT | EINVAL | ENOMEM | ENOENT | ERANGE | EIO | ELOOP | ENAMETOOLONG | ENOTDIR | EOTHER nat

text \<open>
  A \<open>std::stringstream\<close> that is constructed with a text holds the text, but its put position is
  at the beginning: what is written goes over the text.
\<close>

record stringstream =
  ss_text :: string
  ss_put :: nat

definition ss_construct :: "string \<Rightarrow> stringstream" where
  "ss_construct text = \<lparr>ss_text = text, ss_put = 0\<rparr>"

definition ss_write :: "stringstream \<Rightarrow> string \<Rightarrow> stringstream" where
  "ss_write ss s = \<lparr>ss_text = take (ss_put ss) (ss_text ss) @ s @ drop (ss_put ss + length s) (ss_text ss),
     ss_put = ss_put ss + length s\<rparr>"

section \<open>getCurrentWorkingDirectory\<close>

definition cwd_reason :: "errno \<Rightarrow> string list" where
  "cwd_reason errsv = (case errsv of
     EACCES \<Rightarrow> [''Permission to read or search a component of the filename '', ''was denied'']
   | EFAULT \<Rightarrow> [''buf=NULL points to a bad address'']
   | EINVAL \<Rightarrow> [''The size argument is zero and buf=NULL is not a null pointer'']
   | ENOMEM \<Rightarrow> [''Out of memory'']
   | ENOENT \<Rightarrow> [''The current working directory has been unlinked'']
   | ERANGE \<Rightarrow> [''The size=0 argument is less than the length of the absolute '',
               ''pathname of the working directory, including the terminating '',
               ''null byte. You need to allocate a bigger array and try again'']
   | _ \<Rightarrow> [''Unknown error''])"

definition getCurrentWorkingDirectory :: "('s \<Rightarrow> (errno + string) \<times> 's) \<Rightarrow> 's \<Rightarrow> string res \<times> 's" where
  "getCurrentWorkingDirectory getcwd s =
     (case getcwd s of
        (Inl errsv, s1) \<Rightarrow>
          (let ss = ss_construct ''Could not determine current working directory: ''
           in (Inl (RuntimeError (ss_text (foldl ss_write ss (cwd_reason errsv)))), s1))
      | (Inr currentDirectory, s1) \<Rightarrow> (Inr (currentDirectory @ ''/''), s1))"

section \<open>setCurrentWorkingDirectory\<close>

definition chdir_reason :: "string \<Rightarrow> errno \<Rightarrow> string list" where
  "chdir_reason dir errsv = (case errsv of
     EACCES \<Rightarrow> [''Search permission is denied for one of the components of '', dir]
   | EFAULT \<Rightarrow> [dir, '' points outside your accessible address space'']
   | EIO \<Rightarrow> [''An I/O error orccured: '', dir]
   | ELOOP \<Rightarrow> [''Too many symbolic links were encountered in resolving '', dir]
   | ENAMETOOLONG \<Rightarrow> [dir, '' is too long'']
   | ENOENT \<Rightarrow> [''The file does not exist: '', dir]
   | ENOMEM \<Rightarrow> [''Insufficient kernel memory was available'']
   | ENOTDIR \<Rightarrow> [''A component of '', dir, '' is not a directory'']
   | _ \<Rightarrow> [''Unknown error: '', dir])"

definition setCurrentWorkingDirectory :: "(string \<Rightarrow> 's \<Rightarrow> errno option \<times> 's) \<Rightarrow> string \<Rightarrow> 's \<Rightarrow> unit res \<times> 's" where
  "setCurrentWorkingDirectory chdir dir s =
     (case chdir dir s of
        (None, s1) \<Rightarrow> (Inr (), s1)
      | (Some errsv, s1) \<Rightarrow>
          (let ss = ss_construct ''Could not change current working directory: ''
           in (Inl (RuntimeError (ss_text (foldl ss_write ss (chdir_reason dir errsv)))), s1)))"

section \<open>The messages\<close>

lemma ss_write_fold:
  "ss_put ss \<le> length (ss_text ss) \<Longrightarrow>
   foldl ss_write ss xs = \<lparr>ss_text = take (ss_put ss) (ss_text ss) @ concat xs @
       drop (ss_put ss + length (concat xs)) (ss_text ss), ss_put = ss_put ss + length (concat xs)\<rparr>"
proof (induction xs arbitrary: ss)
  case (Cons x xs)
  have "ss_put (ss_write ss x) \<le> length (ss_text (ss_write ss x))"
    using Cons.prems by (simp add: ss_write_def)
  from Cons.IH [OF this] Cons.prems show ?case
    by (simp add: ss_write_def add.assoc add.commute add.left_commute min_def drop_drop)
qed simp

lemma ss_message: "ss_text (foldl ss_write (ss_construct t) xs) = concat xs @ drop (length (concat xs)) t"
  by (simp add: ss_write_fold ss_construct_def)

text \<open>
  The prefix that was to announce the failed operation is overwritten by the reason; what is left
  of it stands behind the reason.
\<close>

lemma filesystem_messages:
  "getcwd s = (Inl errsv, s1) \<Longrightarrow>
     getCurrentWorkingDirectory getcwd s = (Inl (RuntimeError (concat (cwd_reason errsv) @
       drop (length (concat (cwd_reason errsv))) ''Could not determine current working directory: '')), s1)"
  "chdir dir s = (Some errsv, s1) \<Longrightarrow>
     setCurrentWorkingDirectory chdir dir s = (Inl (RuntimeError (concat (chdir_reason dir errsv) @
       drop (length (concat (chdir_reason dir errsv))) ''Could not change current working directory: '')), s1)"
  by (simp_all add: getCurrentWorkingDirectory_def setCurrentWorkingDirectory_def ss_message)

lemma filesystem_message_example:
  "fst (getCurrentWorkingDirectory (\<lambda>s. (Inl ENOMEM, s)) ()) =
     Inl (RuntimeError ''Out of memoryermine current working directory: '')"
  by (simp add: filesystem_messages cwd_reason_def)

end
