(* ===== verification/Gaspi_Runtime.thy ===== *)
theory Gaspi_Runtime
  imports Passive Progress_Engine Segment_Props
begin

text \<open>
  \<open>Runtime\<close> and \<open>RuntimeConfiguration\<close>: the singleton that owns the management segment, the
  passive component, the communication context, and, created at their first use, the segment pool,
  the progress engine and the global barrier; the configuration that says of which kind they are.
\<close>

section \<open>RuntimeConfiguration\<close>

datatype SegmentPoolType = NoSegmentPool | SingleSegment | DynamicSegmentPool
datatype ProgressEngineType = NoProgressEngine | RoundRobinDedicatedThread
datatype CommunicationContextType = NoCommunicationContext | SingleQueue | RoundRobinQueues

record RuntimeConfiguration =
  segment_pool_type :: SegmentPoolType
  progress_engine_type :: ProgressEngineType
  communication_context_type :: CommunicationContextType

definition default_configuration :: RuntimeConfiguration where
  "default_configuration = \<lparr>segment_pool_type = DynamicSegmentPool,
     progress_engine_type = RoundRobinDedicatedThread, communication_context_type = RoundRobinQueues\<rparr>"

datatype pool =
    SinglePool segment
  | DynamicPool segment_pool

datatype comm_context =
    SingleQueueContext u8
  | RoundRobinContext rr_context

text \<open>The factories; \<open>None\<close> is the null pointer.\<close>

definition createSegmentPool :: "'s segment_api \<Rightarrow> SegmentPoolType \<Rightarrow> ('s, pool option) act" where
  "createSegmentPool G pool_type =
     (let default_size = 100 * 1024 * 1024
      in case pool_type of
           SingleSegment \<Rightarrow> act_bind (ssp_construct G default_size) (\<lambda>S. act_return (Some (SinglePool S)))
         | DynamicSegmentPool \<Rightarrow>
             (case dp_construct default_size of Inl e \<Rightarrow> act_throw e | Inr P \<Rightarrow> act_return (Some (DynamicPool P)))
         | NoSegmentPool \<Rightarrow> act_return None)"

definition createProgressEngine :: "ProgressEngineType \<Rightarrow> 'c engine option" where
  "createProgressEngine engine_type =
     (case engine_type of
        RoundRobinDedicatedThread \<Rightarrow> Some engine_construct
      | NoProgressEngine \<Rightarrow> None)"

definition createCommunicationContext :: "'s segment_api \<Rightarrow> CommunicationContextType \<Rightarrow> ('s, comm_context option) act" where
  "createCommunicationContext G context_type =
     (case context_type of
        SingleQueue \<Rightarrow> act_bind (sq_construct G) (\<lambda>q. act_return (Some (SingleQueueContext q)))
      | RoundRobinQueues \<Rightarrow>
          (let num_queues = 4 in act_bind (rr_construct G num_queues) (\<lambda>C. act_return (Some (RoundRobinContext C))))
      | NoCommunicationContext \<Rightarrow> act_return None)"

section \<open>The members\<close>

record 's runtime_api = "'s passive_gaspi" +
  gaspi_proc_init :: "gaspi_timeout \<Rightarrow> 's \<Rightarrow> gaspi_return \<times> 's"
  gaspi_proc_term :: "gaspi_timeout \<Rightarrow> 's \<Rightarrow> gaspi_return \<times> 's"
  gaspi_proc_num :: "'s \<Rightarrow> (gaspi_return \<times> u16) \<times> 's"

abbreviation seg_api :: "'s runtime_api \<Rightarrow> 's segment_api" where
  "seg_api G \<equiv> segment_api.truncate G"

text \<open>\<open>Group()\<close>: all processes; an empty group is refused before the own rank is asked for.\<close>

definition group_all :: "'s runtime_api \<Rightarrow> ('s, group) act" where
  "group_all G =
     act_bind (gaspi_checked_out G (gaspi_proc_num G)) (\<lambda>nProc.
       if nProc = 0 then act_throw (RuntimeError ''Cannot create empty group'')
       else act_bind (gaspi_checked_out G (gaspi_proc_rank G)) (\<lambda>global_rank.
            case mk_group_all nProc global_rank of Inl e \<Rightarrow> act_throw e | Inr g \<Rightarrow> act_return g))"

text \<open>
  The data of \<open>Passive\<close>'s constructor, on the segment it is given: the buffer and the sizes of the
  frames.  The thread it starts is modelled elsewhere.
\<close>

record passive_members =
  pm_passiveBufSize :: u64
  pm_passiveBufPointer :: u64
  pm_MAX_PASSIVE_MESSAGE_SIZE :: u32
  pm_PASSIVE_SENDRECVBUF_SIZE :: u32

definition passive_construct :: "'s segment_api \<Rightarrow> (segment \<times> 's, passive_members) act" where
  "passive_construct G = (\<lambda>(S, s).
     case sm_size G (sg_manager S) s of
       (Inl e, s1) \<Rightarrow> (Inl e, S, s1)
     | (Inr sz, s1) \<Rightarrow>
         (case allocator_allocate 1 (passiveBufSize sz) (sg_manager S) of
            (Inl e, M) \<Rightarrow> (Inl e, S\<lparr>sg_manager := M\<rparr>, s1)
          | (Inr p, M) \<Rightarrow>
              (Inr \<lparr>pm_passiveBufSize = passiveBufSize sz, pm_passiveBufPointer = p,
                    pm_MAX_PASSIVE_MESSAGE_SIZE = MAX_PASSIVE_MESSAGE_SIZE sz,
                    pm_PASSIVE_SENDRECVBUF_SIZE = PASSIVE_SENDRECVBUF_SIZE sz\<rparr>,
               S\<lparr>sg_manager := M\<rparr>, s1)))"

text \<open>
  The destructor: the message that ends the thread, then the release of the buffer.  What the memory
  held before plays no role, since the frame is written in full before it is sent.
\<close>

definition passive_destroy :: "'s passive_gaspi \<Rightarrow> passive_members \<Rightarrow> (segment \<times> 's, unit) act" where
  "passive_destroy G P = (\<lambda>(S, s).
     case finish_message G \<lparr>pv_world = \<lparr>bw_segment = S, bw_allocs = []\<rparr>, pv_mem = (\<lambda>_. 0),
            pv_srcTargetBuffers = Map.empty, pv_rcvTargetBuffers = Map.empty, pv_msg_size = 0, pv_msg_rank = 0,
            pv_msg_ptr = None, pv_lib = s\<rparr> of
       (Inl e, p) \<Rightarrow> (Inl e, pv_segment p, pv_lib p)
     | (Inr _, p) \<Rightarrow>
         (case allocator_deallocate 1 (pm_passiveBufPointer P) (pm_passiveBufSize P) (sg_manager (pv_segment p)) of
            (r, M) \<Rightarrow> (r, (pv_segment p)\<lparr>sg_manager := M\<rparr>, pv_lib p)))"

section \<open>Runtime\<close>

record 'c runtime =
  rt_queue :: u8
  rt_group_all :: group
  rt_segment :: segment
  rt_passive :: passive_members
  rt_segment_pool :: "pool option"
  rt_comm_context :: "comm_context option"
  rt_engine :: "'c engine option"
  rt_global_barrier :: "group option"

text \<open>
  The constructor: the bases \<open>RuntimeBase\<close> and \<open>SingleQueueContext\<close>, then the members in the order
  of their declaration; if one throws, those before it are destroyed.
\<close>

definition runtime_construct :: "'s runtime_api \<Rightarrow> RuntimeConfiguration \<Rightarrow> ('s, 'c runtime) act" where
  "runtime_construct G configuration =
     act_bind (gaspi_checked G (gaspi_proc_init G GASPI_BLOCK)) (\<lambda>_.
     act_on_error
       (act_bind (sq_construct G) (\<lambda>q.
        act_on_error
          (act_bind (group_all G) (\<lambda>g.
           act_bind (segment_construct (seg_api G) (1024 * 1024)) (\<lambda>S. \<lambda>s.
             case passive_construct (seg_api G) (S, s) of
               (Inl e, S1, s1) \<Rightarrow> act_bind (sr_destroy (seg_api G) (sg_resource S1)) (\<lambda>_. act_throw e) s1
             | (Inr P, S1, s1) \<Rightarrow>
                 (case createCommunicationContext (seg_api G) (communication_context_type configuration) s1 of
                    (Inl e, s2) \<Rightarrow>
                      (case passive_destroy (passive_gaspi.truncate G) P (S1, s2) of
                         (_, S3, s3) \<Rightarrow> act_bind (sr_destroy (seg_api G) (sg_resource S3)) (\<lambda>_. act_throw e) s3)
                  | (Inr C, s2) \<Rightarrow>
                      (Inr \<lparr>rt_queue = q, rt_group_all = g, rt_segment = S1, rt_passive = P, rt_segment_pool = None,
                            rt_comm_context = C, rt_engine = None, rt_global_barrier = None\<rparr>, s2)))))
          (queue_destroy G q)))
       (gaspi_check_nothrow (gaspi_proc_term G GASPI_BLOCK)))"

definition pool_getSegment :: "'s segment_api \<Rightarrow> (u64 \<Rightarrow> u64) \<Rightarrow> u64 \<Rightarrow> (pool \<times> 's, nat) act" where
  "pool_getSegment G pow2_up sz = (\<lambda>(p, s).
     case p of
       SinglePool S \<Rightarrow> (case ssp_getSegment sz S of Inl e \<Rightarrow> (Inl e, p, s) | Inr _ \<Rightarrow> (Inr 0, p, s))
     | DynamicPool P \<Rightarrow> (case dp_getSegment G pow2_up sz (P, s) of (r, P1, s1) \<Rightarrow> (r, DynamicPool P1, s1)))"

definition getFreeSegment ::
    "'s segment_api \<Rightarrow> (u64 \<Rightarrow> u64) \<Rightarrow> RuntimeConfiguration \<Rightarrow> u64 \<Rightarrow> ('c runtime \<times> 's, nat) act" where
  "getFreeSegment G pow2_up configuration sz = (\<lambda>(R, s).
     case (case rt_segment_pool R of
             Some p \<Rightarrow> (Inr (Some p), s)
           | None \<Rightarrow> createSegmentPool G (segment_pool_type configuration) s) of
       (Inl e, s1) \<Rightarrow> (Inl e, R, s1)
     | (Inr None, s1) \<Rightarrow> (Inl (RuntimeError ''[Runtime::getFreeSegment] Segment Pool undefined.''), R, s1)
     | (Inr (Some p), s1) \<Rightarrow>
         (case pool_getSegment G pow2_up sz (p, s1) of (r, p1, s2) \<Rightarrow> (r, R\<lparr>rt_segment_pool := Some p1\<rparr>, s2)))"

definition getDefaultProgressEngine :: "RuntimeConfiguration \<Rightarrow> 'c runtime \<Rightarrow> unit res \<times> 'c runtime" where
  "getDefaultProgressEngine configuration R =
     (let R1 = (case rt_engine R of
                  None \<Rightarrow> R\<lparr>rt_engine := createProgressEngine (progress_engine_type configuration)\<rparr>
                | Some _ \<Rightarrow> R)
      in case rt_engine R1 of
           None \<Rightarrow> (Inl (RuntimeError ''[Runtime::getDefaultProgressEngine] Progress engine undefined.''), R1)
         | Some _ \<Rightarrow> (Inr (), R1))"

text \<open>The reference is that of a dereferenced pointer; \<open>None\<close> is the null pointer dereferenced.\<close>

definition getDefaultCommunicationContext :: "'c runtime \<Rightarrow> comm_context option" where
  "getDefaultCommunicationContext R = rt_comm_context R"

text \<open>\<open>barrier\<close>: the group over which the barrier runs that is then executed.\<close>

definition runtime_barrier :: "'c runtime \<Rightarrow> group \<times> 'c runtime" where
  "runtime_barrier R =
     (let R1 = (case rt_global_barrier R of
                  None \<Rightarrow> R\<lparr>rt_global_barrier := Some (rt_group_all R)\<rparr>
                | Some _ \<Rightarrow> R)
      in (the (rt_global_barrier R1), R1))"

section \<open>The singleton and its configuration\<close>

record ('c, 's) process =
  pr_configuration :: RuntimeConfiguration
  pr_runtime :: "'c runtime option"
  pr_lib :: 's

definition process_start :: "'s \<Rightarrow> ('c, 's) process" where
  "process_start s = \<lparr>pr_configuration = default_configuration, pr_runtime = None, pr_lib = s\<rparr>"

text \<open>A static local variable whose constructor throws is constructed again by the next call.\<close>

definition getRuntime :: "'s runtime_api \<Rightarrow> (('c, 's) process, 'c runtime) act" where
  "getRuntime G p =
     (case pr_runtime p of
        Some R \<Rightarrow> (Inr R, p)
      | None \<Rightarrow> (case runtime_construct G (pr_configuration p) (pr_lib p) of
                    (Inl e, s) \<Rightarrow> (Inl e, p\<lparr>pr_lib := s\<rparr>)
                  | (Inr R, s) \<Rightarrow> (Inr R, p\<lparr>pr_runtime := Some R, pr_lib := s\<rparr>)))"

definition initGaspiCxx :: "'s runtime_api \<Rightarrow> (('c, 's) process, unit) act" where
  "initGaspiCxx G = act_bind (getRuntime G) (\<lambda>_. act_return ())"

definition initGaspiCxx_config :: "'s runtime_api \<Rightarrow> RuntimeConfiguration \<Rightarrow> (('c, 's) process, unit) act" where
  "initGaspiCxx_config G config =
     (\<lambda>p. act_bind (getRuntime G) (\<lambda>_. act_return ()) (p\<lparr>pr_configuration := config\<rparr>))"

text \<open>The calls through the singleton.\<close>

definition on_runtime :: "'s runtime_api \<Rightarrow> (RuntimeConfiguration \<Rightarrow> ('c runtime \<times> 's, 'a) act) \<Rightarrow> (('c, 's) process, 'a) act" where
  "on_runtime G m =
     act_bind (getRuntime G) (\<lambda>R. \<lambda>p. case m (pr_configuration p) (R, pr_lib p) of
       (r, R1, s1) \<Rightarrow> (r, p\<lparr>pr_runtime := Some R1, pr_lib := s1\<rparr>))"

inductive process_step :: "'s runtime_api \<Rightarrow> (u64 \<Rightarrow> u64) \<Rightarrow> ('c, 's) process \<Rightarrow> ('c, 's) process \<Rightarrow> bool" for G pow2_up where
  init: "process_step G pow2_up p (snd (initGaspiCxx G p))"
| init_config: "process_step G pow2_up p (snd (initGaspiCxx_config G config p))"
| free_segment: "process_step G pow2_up p (snd (on_runtime G (\<lambda>c. getFreeSegment (seg_api G) pow2_up c sz) p))"
| engine: "process_step G pow2_up p
    (snd (on_runtime G (\<lambda>c (R, s). case getDefaultProgressEngine c R of (r, R1) \<Rightarrow> (r, R1, s)) p))"
| barrier: "process_step G pow2_up p
    (snd (on_runtime G (\<lambda>c (R, s). case runtime_barrier R of (g, R1) \<Rightarrow> (Inr g, R1, s)) p))"

section \<open>Buffers in a segment of the runtime\<close>

definition pool_segments :: "pool \<Rightarrow> segment list" where
  "pool_segments p = (case p of SinglePool S \<Rightarrow> [S] | DynamicPool P \<Rightarrow> dp_segments P)"

definition pool_update :: "nat \<Rightarrow> segment \<Rightarrow> pool \<Rightarrow> pool" where
  "pool_update i S p = (case p of
     SinglePool _ \<Rightarrow> SinglePool S
   | DynamicPool P \<Rightarrow> DynamicPool (P\<lparr>dp_segments := (dp_segments P)[i := S]\<rparr>))"

text \<open>\<open>m\<close> is one of the constructors on a given segment.\<close>

definition buffer_in_free_segment ::
    "'s segment_api \<Rightarrow> (u64 \<Rightarrow> u64) \<Rightarrow> RuntimeConfiguration \<Rightarrow> u64 \<Rightarrow> (bworld, buffer) act \<Rightarrow>
     ('c runtime \<times> 's, nat \<times> buffer) act" where
  "buffer_in_free_segment G pow2_up configuration sz m =
     act_bind (getFreeSegment G pow2_up configuration sz) (\<lambda>i. \<lambda>(R, s).
       let p = the (rt_segment_pool R)
       in case m \<lparr>bw_segment = pool_segments p ! i, bw_allocs = []\<rparr> of
            (r, w) \<Rightarrow> (map_sum id (Pair i) r, R\<lparr>rt_segment_pool := Some (pool_update i (bw_segment w) p)\<rparr>, s))"

definition rt_buffer_construct where
  "rt_buffer_construct G pow2_up configuration sz =
     buffer_in_free_segment G pow2_up configuration sz (bf_construct sz)"

definition rt_buffer_construct_notify where
  "rt_buffer_construct_notify G pow2_up configuration sz notification =
     buffer_in_free_segment G pow2_up configuration sz (bf_construct_notify sz notification)"

end
