(* ===== verification/Runtime_Props.thy ===== *)
theory Runtime_Props
  imports Gaspi_Runtime
begin

unbundle bit_operations_syntax

text \<open>
  What the runtime promises: its parts are created once and stay, each of the kind the configuration
  names when it is created; a free segment has the requested memory; a buffer made in it gets that
  memory.
\<close>

section \<open>The parts\<close>

definition pool_kind :: "pool \<Rightarrow> SegmentPoolType" where
  "pool_kind p = (case p of SinglePool S \<Rightarrow> SingleSegment | DynamicPool P \<Rightarrow> DynamicSegmentPool)"

definition context_kind :: "comm_context option \<Rightarrow> CommunicationContextType" where
  "context_kind C = (case C of None \<Rightarrow> NoCommunicationContext | Some (SingleQueueContext q) \<Rightarrow> SingleQueue
     | Some (RoundRobinContext c) \<Rightarrow> RoundRobinQueues)"

definition keeps_parts :: "'c runtime \<Rightarrow> 'c runtime \<Rightarrow> bool" where
  "keeps_parts R R' \<longleftrightarrow>
     rt_queue R' = rt_queue R \<and> rt_group_all R' = rt_group_all R \<and> rt_segment R' = rt_segment R \<and>
     rt_passive R' = rt_passive R \<and> rt_comm_context R' = rt_comm_context R \<and>
     (rt_segment_pool R \<noteq> None \<longrightarrow> map_option pool_kind (rt_segment_pool R') = map_option pool_kind (rt_segment_pool R)) \<and>
     (rt_engine R \<noteq> None \<longrightarrow> rt_engine R' = rt_engine R) \<and>
     (rt_global_barrier R \<noteq> None \<longrightarrow> rt_global_barrier R' = rt_global_barrier R)"

lemma keeps_parts_refl [simp]: "keeps_parts R R"
  by (simp add: keeps_parts_def)

lemma keeps_parts_trans: "keeps_parts R S \<Longrightarrow> keeps_parts S T \<Longrightarrow> keeps_parts R T"
  unfolding keeps_parts_def by (smt (verit) option.map_disc_iff)

lemma createSegmentPool_kind:
  "createSegmentPool G t s = (Inr (Some p), s1) \<Longrightarrow> pool_kind p = t"
  "createSegmentPool G t s = (Inr None, s1) \<Longrightarrow> t = NoSegmentPool"
  by (cases t; auto simp: createSegmentPool_def pool_kind_def Let_def act_bind_eq_Inr dp_construct_def split: sum.splits)+

lemma createCommunicationContext_kind:
  "createCommunicationContext G t s = (Inr C, s1) \<Longrightarrow> context_kind C = t"
  by (cases t) (auto simp: createCommunicationContext_def context_kind_def Let_def act_bind_eq_Inr)

lemma pool_getSegment_kind: "pool_getSegment G pow2_up sz (p, s) = (r, p1, s1) \<Longrightarrow> pool_kind p1 = pool_kind p"
  by (auto simp: pool_getSegment_def pool_kind_def split: pool.splits sum.splits prod.splits)

lemma getFreeSegment_parts:
  assumes "getFreeSegment G pow2_up c sz (R, s) = (r, R1, s1)"
  shows "keeps_parts R R1" "rt_segment_pool R = None \<Longrightarrow> rt_segment_pool R1 = Some p \<Longrightarrow> pool_kind p = segment_pool_type c"
  using assms
  by (auto simp: getFreeSegment_def keeps_parts_def dest!: pool_getSegment_kind createSegmentPool_kind(1)
      split: option.splits sum.splits prod.splits)

lemma engine_parts:
  assumes "getDefaultProgressEngine c R = (r, R1)"
  shows "keeps_parts R R1"
  using assms by (auto simp: getDefaultProgressEngine_def keeps_parts_def Let_def split: option.splits)

lemma barrier_parts: "runtime_barrier R = (g, R1) \<Longrightarrow> keeps_parts R R1"
  by (auto simp: runtime_barrier_def keeps_parts_def Let_def split: option.splits)

lemma on_runtime_parts:
  assumes "on_runtime G m p = (r, p1)" "pr_runtime p = Some R"
    and "\<And>r R1 s1. m (pr_configuration p) (R, pr_lib p) = (r, R1, s1) \<Longrightarrow> keeps_parts R R1"
  shows "\<exists>R1. pr_runtime p1 = Some R1 \<and> keeps_parts R R1"
  using assms by (auto simp: on_runtime_def act_bind_apply getRuntime_def split: prod.splits)

lemma process_step_parts:
  assumes "process_step G pow2_up p p1" "pr_runtime p = Some R"
  shows "\<exists>R1. pr_runtime p1 = Some R1 \<and> keeps_parts R R1"
  using assms(1)
proof cases
  case init
  then show ?thesis using assms(2) by (simp add: initGaspiCxx_def act_bind_apply getRuntime_def)
next
  case (init_config config)
  then show ?thesis using assms(2) by (simp add: initGaspiCxx_config_def act_bind_apply getRuntime_def)
next
  case (free_segment sz)
  obtain r q where "on_runtime G (\<lambda>c. getFreeSegment (seg_api G) pow2_up c sz) p = (r, q)" by force
  from on_runtime_parts [OF this assms(2) getFreeSegment_parts(1)] free_segment this show ?thesis by simp
next
  case engine
  obtain r q where e: "on_runtime G (\<lambda>c (R, s). case getDefaultProgressEngine c R of (r, R1) \<Rightarrow> (r, R1, s)) p = (r, q)" by force
  from on_runtime_parts [OF this assms(2)] engine_parts
  have "\<exists>R1. pr_runtime q = Some R1 \<and> keeps_parts R R1" by (fastforce split: prod.splits)
  then show ?thesis using e engine by simp
next
  case barrier
  obtain r q where e: "on_runtime G (\<lambda>c (R, s). case runtime_barrier R of (g, R1) \<Rightarrow> (Inr g, R1, s)) p = (r :: group res, q)" by force
  from on_runtime_parts [OF this assms(2)] barrier_parts
  have "\<exists>R1. pr_runtime q = Some R1 \<and> keeps_parts R R1" by (fastforce split: prod.splits)
  then show ?thesis using e barrier by simp
qed

lemma runtime_construct_context:
  "runtime_construct G c s = (Inr R, s1) \<Longrightarrow> context_kind (rt_comm_context R) = communication_context_type c \<and>
     rt_segment_pool R = None \<and> rt_engine R = None \<and> rt_global_barrier R = None"
  by (auto simp: runtime_construct_def act_bind_apply act_on_error_def dest: createCommunicationContext_kind
      split: sum.splits prod.splits if_splits)

text \<open>
  The runtime is a singleton whose parts are created once.  Whatever calls follow, of
  \<open>initGaspiCxx\<close> with or without a configuration, \<open>getFreeSegment\<close>, \<open>getDefaultProgressEngine\<close> and
  \<open>barrier\<close>, and whether they throw or not, the management segment, the passive component, the group
  and the communication context stay, and a segment pool, a progress engine or a global barrier that
  exists is not replaced.
\<close>

theorem runtime_singleton:
  assumes "rtranclp (process_step G pow2_up) p p'" "pr_runtime p = Some R"
  shows "\<exists>R'. pr_runtime p' = Some R' \<and> keeps_parts R R'"
  using assms
proof (induction rule: rtranclp_induct)
  case base
  then show ?case by simp
next
  case (step p1 p2)
  then show ?case using process_step_parts keeps_parts_trans by blast
qed

text \<open>
  When a configuration takes effect.  If the first initialisation with \<open>c1\<close> returns, the
  communication context is of \<open>c1\<close>'s kind; a later initialisation with \<open>c2\<close> returns without a call of
  the GASPI library and changes nothing of the runtime, but the parts that are first used afterwards are
  of \<open>c2\<close>'s kind, and asking for a kind that \<open>c2\<close> leaves out throws.
\<close>

theorem runtime_reconfigured:
  assumes "initGaspiCxx_config G c1 (process_start s) = (Inr (), p1)"
  shows "\<exists>R. pr_runtime p1 = Some R \<and> context_kind (rt_comm_context R) = communication_context_type c1 \<and>
    initGaspiCxx_config G c2 p1 = (Inr (), p1\<lparr>pr_configuration := c2\<rparr>) \<and>
    (\<forall>sz r p2. on_runtime G (\<lambda>c. getFreeSegment (seg_api G) pow2_up c sz) (p1\<lparr>pr_configuration := c2\<rparr>) = (r, p2) \<longrightarrow>
       (if segment_pool_type c2 = NoSegmentPool
        then r = Inl (RuntimeError ''[Runtime::getFreeSegment] Segment Pool undefined.'')
        else \<forall>R2 q. pr_runtime p2 = Some R2 \<longrightarrow> rt_segment_pool R2 = Some q \<longrightarrow> pool_kind q = segment_pool_type c2)) \<and>
    (\<forall>r R2. getDefaultProgressEngine c2 R = (r, R2) \<longrightarrow>
       (if progress_engine_type c2 = NoProgressEngine
        then r = Inl (RuntimeError ''[Runtime::getDefaultProgressEngine] Progress engine undefined.'')
        else r = Inr () \<and> rt_engine R2 = Some engine_construct))"
proof -
  obtain R s1 where c: "runtime_construct G c1 s = (Inr R, s1)"
    and p1: "p1 = \<lparr>pr_configuration = c1, pr_runtime = Some R, pr_lib = s1\<rparr>"
    using assms by (auto simp: initGaspiCxx_config_def process_start_def act_bind_apply getRuntime_def
        split: sum.splits prod.splits)
  note R = runtime_construct_context [OF c]
  have e: "if progress_engine_type c2 = NoProgressEngine
        then r = Inl (RuntimeError ''[Runtime::getDefaultProgressEngine] Progress engine undefined.'')
        else r = Inr () \<and> rt_engine R2 = Some engine_construct"
    if "getDefaultProgressEngine c2 R = (r, R2)" for r R2
    using that R by (cases "progress_engine_type c2")
      (auto simp: getDefaultProgressEngine_def createProgressEngine_def Let_def)
  have f: "if segment_pool_type c2 = NoSegmentPool
        then r = Inl (RuntimeError ''[Runtime::getFreeSegment] Segment Pool undefined.'')
        else \<forall>R2 q. pr_runtime p2 = Some R2 \<longrightarrow> rt_segment_pool R2 = Some q \<longrightarrow> pool_kind q = segment_pool_type c2"
    if g: "on_runtime G (\<lambda>c. getFreeSegment (seg_api G) pow2_up c sz) (p1\<lparr>pr_configuration := c2\<rparr>) = (r, p2)" for sz r p2
  proof -
    obtain r' R2 s2 where g': "getFreeSegment (seg_api G) pow2_up c2 sz (R, s1) = (r', R2, s2)" by (metis surj_pair)
    with g have r: "r = r'" "pr_runtime p2 = Some R2"
      by (auto simp: on_runtime_def p1 act_bind_apply getRuntime_def)
    show ?thesis
    proof (cases "segment_pool_type c2 = NoSegmentPool")
      case True
      then show ?thesis using g' R r by (auto simp: getFreeSegment_def createSegmentPool_def)
    next
      case False
      then show ?thesis using getFreeSegment_parts(2) [OF g'] R r by auto
    qed
  qed
  have "initGaspiCxx_config G c2 p1 = (Inr (), p1\<lparr>pr_configuration := c2\<rparr>)"
    by (simp add: initGaspiCxx_config_def p1 act_bind_apply getRuntime_def)
  then show ?thesis using R e f by (simp add: p1)
qed

section \<open>A free segment has the memory\<close>

abbreviation s_mm :: "segment \<Rightarrow> mem_manager" where
  "s_mm S \<equiv> sm_memoryManager (sg_manager S)"

definition seg_ok :: "segment \<Rightarrow> bool" where
  "seg_ok S \<longleftrightarrow> (\<exists>a e. mm_inv a e (s_mm S))"

definition pool_ok :: "pool \<Rightarrow> bool" where
  "pool_ok p \<longleftrightarrow> (\<forall>S \<in> set (pool_segments p). seg_ok S) \<and>
     (case p of SinglePool S \<Rightarrow> True | DynamicPool P \<Rightarrow> dp_ok P \<and> 0 < dp_sizePerSegment P)"

definition rt_ok :: "'c runtime \<Rightarrow> bool" where
  "rt_ok R \<longleftrightarrow> (\<forall>p. rt_segment_pool R = Some p \<longrightarrow> pool_ok p)"

lemma segment_construct_ok:
  assumes "segment_contract G seg_info" "segment_construct G sz s = (Inr S, s1)" "0 < sz"
  shows "seg_ok S"
  using segment_construct_memory [OF assms(1,2)] mm_construct_inv [OF _ assms(3)]
  unfolding seg_ok_def word_less_nat_alt by (metis unat_0)

lemma createSegmentPool_ok:
  assumes C: "segment_contract G seg_info" and c: "createSegmentPool G t s = (Inr (Some p), s1)"
  shows "pool_ok p"
proof (cases t)
  case SingleSegment
  then obtain S where "segment_construct G (100 * 1024 * 1024) s = (Inr S, s1)" "p = SinglePool S"
    using c by (auto simp: createSegmentPool_def ssp_construct_def act_bind_eq_Inr)
  with segment_construct_ok [OF C this(1)] show ?thesis by (simp add: pool_ok_def pool_segments_def)
next
  case DynamicSegmentPool
  then show ?thesis using c
    by (auto simp: createSegmentPool_def dp_construct_def Let_def pool_ok_def pool_segments_def dp_ok_def)
qed (use c in \<open>simp add: createSegmentPool_def\<close>)

lemma dp_find_ok:
  assumes C: "segment_contract G seg_info" and P: "pool_ok (DynamicPool P)"
    and f: "dp_find G sz (P, s) = (r, P1, s1)"
  shows "pool_ok (DynamicPool P1)"
proof (cases "find_if (\<lambda>S. hasFreeMemory (sg_manager S) sz) (dp_segments P)")
  case (Some i)
  then show ?thesis using f P by (simp add: dp_find_def)
next
  case None
  show ?thesis
  proof (cases "segment_construct G (dp_sizePerSegment P) s")
    case (Pair r3 s3)
    then show ?thesis
      using f None P segment_construct_ok [OF C, of "dp_sizePerSegment P" s _ s3]
      by (cases r3) (auto simp: dp_find_def pool_ok_def pool_segments_def dp_ok_def)
  qed
qed

lemma pool_getSegment_ok:
  assumes C: "segment_contract G seg_info" and pow: "\<And>n. n \<le> 4 * 1024 * 1024 * 1024 \<Longrightarrow> n \<le> pow2_up n"
    and p: "pool_ok p" and g: "pool_getSegment G pow2_up sz (p, s) = (r, p1, s1)"
  shows "pool_ok p1 \<and> (\<forall>i. r = Inr i \<longrightarrow> i < length (pool_segments p1) \<and> hasFreeMemory (sg_manager (pool_segments p1 ! i)) sz)"
proof (cases p)
  case (SinglePool S)
  then show ?thesis using g p
    by (auto simp: pool_getSegment_def ssp_getSegment_def pool_segments_def split: if_splits)
next
  case (DynamicPool P)
  obtain P1 where d: "dp_getSegment G pow2_up sz (P, s) = (r, P1, s1)" "p1 = DynamicPool P1"
    using g DynamicPool by (auto simp: pool_getSegment_def split: prod.splits)
  have ok: "dp_ok P" "0 < dp_sizePerSegment P" using p DynamicPool by (simp_all add: pool_ok_def)
  note D = dynamic_pool_getSegment [OF C pow ok(1) d(1)]
  have "pool_ok (DynamicPool P1)"
  proof (cases "sz > dp_maxSegmentSize P")
    case True
    then show ?thesis using d p DynamicPool by (auto simp: dp_getSegment_def)
  next
    case False
    define P2 where "P2 = (if sz > dp_sizePerSegment P then dp_clamp (dp_adjust pow2_up sz P) else P)"
    have f: "dp_find G sz (P2, s) = (r, P1, s1)" using d(1) False by (simp add: dp_getSegment_def P2_def Let_def)
    have "pool_ok (DynamicPool P2)"
    proof (cases "sz > dp_sizePerSegment P")
      case True
      have "sz \<le> pow2_up sz" using pow [of sz] False ok(1) by (simp add: dp_ok_def)
      then have "0 < min (pow2_up sz) (dp_maxSegmentSize P)"
        using True ok by (auto simp: dp_ok_def min_def dest: order.strict_trans1 order.strict_trans2)
      then show ?thesis using True p DynamicPool
        by (auto simp: P2_def pool_ok_def pool_segments_def dp_ok_def dp_clamp_def dp_adjust_def)
    next
      case False
      then show ?thesis using p DynamicPool by (simp add: P2_def)
    qed
    from dp_find_ok [OF C this f] show ?thesis .
  qed
  moreover have "i < length (dp_segments P1) \<and> hasFreeMemory (sg_manager (dp_segments P1 ! i)) sz" if "r = Inr i" for i
    using D that by (auto simp: hasFreeMemory_allocate split: if_splits)
  ultimately show ?thesis by (simp add: d(2) pool_segments_def)
qed

lemma getFreeSegment_ok:
  assumes C: "segment_contract G seg_info" and pow: "\<And>n. n \<le> 4 * 1024 * 1024 * 1024 \<Longrightarrow> n \<le> pow2_up n"
    and R: "rt_ok R" and g: "getFreeSegment G pow2_up c sz (R, s) = (r, R1, s1)"
  shows "rt_ok R1 \<and> (\<forall>i. r = Inr i \<longrightarrow> (\<exists>p. rt_segment_pool R1 = Some p \<and> pool_ok p \<and> i < length (pool_segments p) \<and>
    hasFreeMemory (sg_manager (pool_segments p ! i)) sz))"
proof -
  consider "R1 = R" "\<exists>e. r = Inl e"
    | p s2 p1 where "pool_ok p" "pool_getSegment G pow2_up sz (p, s2) = (r, p1, s1)" "R1 = R\<lparr>rt_segment_pool := Some p1\<rparr>"
    using g R createSegmentPool_ok [OF C]
    by (fastforce simp: getFreeSegment_def rt_ok_def split: option.splits sum.splits prod.splits)
  then show ?thesis
  proof cases
    case 1
    then show ?thesis using R by auto
  next
    case 2
    from pool_getSegment_ok [OF C pow 2(1,2)] 2(3) show ?thesis by (auto simp: rt_ok_def)
  qed
qed

section \<open>A buffer in a free segment\<close>

lemma bf_construct_free:
  assumes h: "hasFreeMemory (sg_manager S) sz" and ok: "seg_ok S"
    and c: "bf_construct sz \<lparr>bw_segment = S, bw_allocs = []\<rparr> = (r, w)"
  shows "seg_ok (bw_segment w) \<and> (case r of
      Inr b \<Rightarrow> bf_size b = sz \<and> (0 < sz \<longrightarrow> (bf_pointer b, sz) \<in> mm_live (s_mm (bw_segment w)))
    | Inl e \<Rightarrow> nm_allocate 1 (sm_notifyManager (sg_manager S)) = Inl e \<and> bw_segment w = S)"
proof -
  obtain a e where i: "mm_inv a e (s_mm S)" using ok by (auto simp: seg_ok_def)
  obtain p mm where m: "mm_allocate sz (s_mm S) = Inr (p, mm)"
    using h hasFreeMemory_allocate [of "sg_manager S" sz]
    by (auto simp: allocator_allocate_def split: sum.splits prod.splits)
  have inv: "mm_inv a e mm" and undo: "mm_deallocate p sz mm = Inr (s_mm S)"
    and live: "0 < sz \<longrightarrow> (p, sz) \<in> mm_live mm"
  proof -
    show "mm_inv a e mm"
      using m i mm.alloc_inv [OF i _ m] by (cases "sz = 0") (auto simp: mm_allocate_def word_neq_0_conv)
    show "mm_deallocate p sz mm = Inr (s_mm S)"
      using m mm.dealloc_undo [OF i _ m] by (cases "sz = 0") (auto simp: mm_allocate_def mm_deallocate_def word_neq_0_conv)
    show "0 < sz \<longrightarrow> (p, sz) \<in> mm_live mm"
      using mm.alloc_live [OF i _ m] by blast
  qed
  note defs = bf_construct_def memory_allocation_def notify_allocation_def on_manager_def allocator_allocate_def
    acquire_notification_def act_bind_apply act_on_error_def memory_release_def allocator_deallocate_def
  show ?thesis
  proof (cases "nm_allocate 1 (sm_notifyManager (sg_manager S))")
    case (Inl x)
    then show ?thesis using c ok m undo by (auto simp: defs Let_def)
  next
    case (Inr qn)
    have so: "seg_ok S'" if "s_mm S' = mm" for S'
      unfolding seg_ok_def that using inv by blast
    show ?thesis using c m live Inr by (cases qn) (auto simp: defs intro: so)
  qed
qed

lemma pool_update_same: "i < length (pool_segments p) \<Longrightarrow> pool_update i (pool_segments p ! i) p = p"
  by (cases p) (simp_all add: pool_update_def pool_segments_def)

lemma pool_update_segments:
  "i < length (pool_segments p) \<Longrightarrow> pool_segments (pool_update i S p) = (pool_segments p)[i := S]"
  by (cases p) (simp_all add: pool_update_def pool_segments_def)

lemma pool_update_ok: "pool_ok p \<Longrightarrow> i < length (pool_segments p) \<Longrightarrow> seg_ok S \<Longrightarrow> pool_ok (pool_update i S p)"
  by (cases p) (auto simp: pool_ok_def pool_update_def pool_segments_def dp_ok_def dest!: set_update_subset_insert [THEN subsetD])

text \<open>
  A buffer whose segment the runtime chooses.  The constructor that takes only a size
  either returns a buffer whose region of that size is now in use in a segment of the pool, or throws
  what \<open>getFreeSegment\<close> threw, or throws because the chosen segment has no notification left, and
  then the pool is as \<open>getFreeSegment\<close> left it.  It never fails for lack of memory in the chosen
  segment.  The pool stays well-formed in each case.
\<close>

theorem runtime_buffer:
  assumes C: "segment_contract G seg_info" and pow: "\<And>n. n \<le> 4 * 1024 * 1024 * 1024 \<Longrightarrow> n \<le> pow2_up n"
    and R: "rt_ok R" and c: "rt_buffer_construct G pow2_up c sz (R, s) = (r, R1, s1)"
  shows "rt_ok R1 \<and> (case r of
      Inr (i, b) \<Rightarrow> bf_size b = sz \<and> (\<exists>p. rt_segment_pool R1 = Some p \<and> i < length (pool_segments p) \<and>
        (0 < sz \<longrightarrow> (bf_pointer b, sz) \<in> mm_live (s_mm (pool_segments p ! i))))
    | Inl e \<Rightarrow> getFreeSegment G pow2_up c sz (R, s) = (Inl e, R1, s1) \<or>
        (\<exists>i p. getFreeSegment G pow2_up c sz (R, s) = (Inr i, R1, s1) \<and> rt_segment_pool R1 = Some p \<and>
           nm_allocate 1 (sm_notifyManager (sg_manager (pool_segments p ! i))) = Inl e))"
proof -
  obtain g R2 s2 where g: "getFreeSegment G pow2_up c sz (R, s) = (g, R2, s2)" by (metis surj_pair)
  note F = getFreeSegment_ok [OF C pow R g]
  show ?thesis
  proof (cases g)
    case (Inl e)
    then have "r = Inl e" "R1 = R2" "s1 = s2" using c g
      by (simp_all add: rt_buffer_construct_def buffer_in_free_segment_def act_bind_apply)
    then show ?thesis using g F Inl by simp
  next
    case (Inr i)
    then obtain p where p: "rt_segment_pool R2 = Some p" "pool_ok p" "i < length (pool_segments p)"
      "hasFreeMemory (sg_manager (pool_segments p ! i)) sz" using F by blast
    obtain r' w where b: "bf_construct sz \<lparr>bw_segment = pool_segments p ! i, bw_allocs = []\<rparr> = (r', w)" by force
    have r: "r = map_sum id (Pair i) r'" "R1 = R2\<lparr>rt_segment_pool := Some (pool_update i (bw_segment w) p)\<rparr>" "s1 = s2"
      using c g Inr p b by (auto simp: rt_buffer_construct_def buffer_in_free_segment_def act_bind_apply)
    have "seg_ok (pool_segments p ! i)" using p(2,3) by (simp add: pool_ok_def)
    note B = bf_construct_free [OF p(4) this b]
    have "rt_ok R1" using r(2) pool_update_ok [OF p(2,3) conjunct1 [OF B]] by (simp add: rt_ok_def)
    moreover have "R1 = R2" if "bw_segment w = pool_segments p ! i"
      using that r(2) p(1) pool_update_same [OF p(3)] by simp
    ultimately show ?thesis
      using B r g Inr p pool_update_segments [OF p(3), of "bw_segment w"] by (cases r') auto
  qed
qed

section \<open>Witnesses\<close>

text \<open>The library of the segment witnesses as one of two processes.\<close>

definition demo_library :: "(u8 \<Rightarrow> (u64 \<times> u64) option) runtime_api" where
  "demo_library = passive_gaspi.extend
     (segment_api.extend demo_segments
       (passive_gaspi.fields (\<lambda>i off r n t bs s. (GASPI_SUCCESS, s)) (\<lambda>i off n t s. ((GASPI_SUCCESS, 0, []), s)) (\<lambda>m s. m)))
     (runtime_api.fields (\<lambda>t s. (GASPI_SUCCESS, s)) (\<lambda>t s. (GASPI_SUCCESS, s)) (\<lambda>s. ((GASPI_SUCCESS, 2), s)))"

lemma demo_library_seg: "seg_api demo_library = demo_segments"
  by (simp add: demo_library_def runtime_api.defs passive_gaspi.defs segment_api.defs)

definition single_queue :: RuntimeConfiguration where
  "single_queue = default_configuration\<lparr>communication_context_type := SingleQueue\<rparr>"

abbreviation demo_process :: "(unit, u8 \<Rightarrow> (u64 \<times> u64) option) process" where
  "demo_process \<equiv> process_start Map.empty"

lemma demo_init: "\<exists>p. initGaspiCxx_config demo_library single_queue demo_process = (Inr (), p)"
proof -
  have all: "generate_group_all 2 = [0, 1]" by (simp add: generate_group_all_def upt_rec)
  have g: "group_all demo_library s = (Inr \<lparr>g_ranks = [0, 1], g_rank = Rank 0\<rparr>, s)" for s
    by (simp add: group_all_def gaspi_checked_out_eq act_bind_apply demo_library_def runtime_api.defs passive_gaspi.defs
        segment_api.defs demo_segments_def mk_group_all_def all mk_group_def)
  have q: "sq_construct demo_library s = (Inr 0, s)" "sq_construct demo_segments s = (Inr 0, s)" for s
    by (simp_all add: sq_construct_def queue_construct_def gaspi_checked_out_eq demo_library_def runtime_api.defs passive_gaspi.defs
        segment_api.defs demo_segments_def)
  have i: "gaspi_checked demo_library (gaspi_proc_init demo_library t) s = (Inr (), s)" for t s
    by (simp add: gaspi_checked_eq demo_library_def runtime_api.defs passive_gaspi.defs segment_api.defs)
  have S: "segment_construct demo_segments (1024 * 1024) s = (Inr (demo_segment 1048576), s(7 \<mapsto> (4096, 1048576)))" for s
    using demo_segment_construct [of 1048576 s] by simp
  have P: "\<exists>P S1. passive_construct demo_segments (demo_segment 1048576, Map.empty(7 \<mapsto> (4096, 1048576))) = (Inr P, S1, Map.empty(7 \<mapsto> (4096, 1048576)))"
    by (simp add: passive_construct_def sm_size_def getSegmentSize_def act_bind_apply gaspi_checked_out_eq
        demo_segments_def demo_segment_def allocator_allocate_def mm_allocate_def mm_construct_def passiveBufSize_def)
  from P obtain P S1 where P: "passive_construct demo_segments (demo_segment 1048576, Map.empty(7 \<mapsto> (4096, 1048576))) = (Inr P, S1, Map.empty(7 \<mapsto> (4096, 1048576)))"
    by blast
  show ?thesis
    by (simp add: initGaspiCxx_config_def process_start_def getRuntime_def act_bind_apply runtime_construct_def i q g
        act_on_error_def demo_library_seg S [simplified] P createCommunicationContext_def single_queue_def default_configuration_def)
qed

lemma runtime_reconfigured_witness:
  "\<exists>p1 R. initGaspiCxx_config demo_library single_queue demo_process = (Inr (), p1) \<and>
     pr_runtime p1 = Some R \<and> context_kind (rt_comm_context R) = SingleQueue \<and>
     initGaspiCxx_config demo_library default_configuration p1 = (Inr (), p1\<lparr>pr_configuration := default_configuration\<rparr>)"
proof -
  obtain p1 where i: "initGaspiCxx_config demo_library single_queue demo_process = (Inr (), p1)"
    using demo_init by blast
  from runtime_reconfigured [OF i, of default_configuration] i show ?thesis
    by (fastforce simp: single_queue_def default_configuration_def)
qed

lemma runtime_singleton_witness:
  "\<exists>p1 R R'. initGaspiCxx_config demo_library single_queue demo_process = (Inr (), p1) \<and>
     pr_runtime p1 = Some R \<and> pr_runtime (snd (initGaspiCxx_config demo_library default_configuration p1)) = Some R' \<and>
     keeps_parts R R'"
proof -
  obtain p1 where i: "initGaspiCxx_config demo_library single_queue demo_process = (Inr (), p1)"
    using demo_init by blast
  then obtain R where R: "pr_runtime p1 = Some R"
    by (auto simp: initGaspiCxx_config_def act_bind_apply getRuntime_def split: option.splits sum.splits prod.splits)
  have "rtranclp (process_step demo_library id) p1 (snd (initGaspiCxx_config demo_library default_configuration p1))"
    by (intro r_into_rtranclp process_step.init_config)
  from runtime_singleton [OF this R] i R show ?thesis by blast
qed

lemma runtime_buffer_witness:
  "\<exists>r R1 s1. rt_buffer_construct demo_segments id default_configuration 64
      (\<lparr>rt_queue = 0, rt_group_all = \<lparr>g_ranks = [0], g_rank = Rank 0\<rparr>, rt_segment = demo_segment 1024,
        rt_passive = undefined, rt_segment_pool = None, rt_comm_context = None, rt_engine = None,
        rt_global_barrier = None\<rparr> :: unit runtime, Map.empty) = (r, R1, s1) \<and> rt_ok R1"
proof -
  let ?R = "\<lparr>rt_queue = 0, rt_group_all = \<lparr>g_ranks = [0], g_rank = Rank 0\<rparr>, rt_segment = demo_segment 1024,
        rt_passive = undefined, rt_segment_pool = None, rt_comm_context = None, rt_engine = None,
        rt_global_barrier = None\<rparr> :: unit runtime"
  obtain r R1 s1 where c: "rt_buffer_construct demo_segments id default_configuration 64 (?R, Map.empty) = (r, R1, s1)"
    by (metis surj_pair)
  have "rt_ok ?R" by (simp add: rt_ok_def)
  from runtime_buffer [OF demo_segments_contract _ this c] c show ?thesis by auto
qed

end
