(* ===== verification/Front_Ends.thy ===== *)
theory Front_Ends
  imports Allgatherv_Ring_Props Progress_Engine Gaspi_Api
begin

text \<open>
  The classes a user works with, \<open>Allreduce\<close>, \<open>Allgatherv\<close> and \<open>Broadcast\<close> of
  \<open>collectives/non_blocking\<close>: an object of the low-level class, set up and registered with a progress
  engine in the constructor and deregistered in the destructor; \<open>start\<close> copies in and starts,
  \<open>waitForCompletion\<close> waits and copies out.  The low-level class is the record of its virtual
  functions, so that one definition stands for the member functions that the three classes share.
\<close>

section \<open>Registration\<close>

text \<open>A call of \<open>register_collective\<close> that no other thread interrupts.\<close>

definition register_collective :: "nat \<Rightarrow> 'c \<Rightarrow> 'c engine \<Rightarrow> u64 res \<times> 'c engine" where
  "register_collective t collective E =
     (case register_section t collective E of
        (Inl e, E1) \<Rightarrow> (Inl e, E1)
      | (Inr _, E1) \<Rightarrow> (case register_return t (register_notify t E1) of (handle, E2) \<Rightarrow> (Inr handle, E2)))"

text \<open>
  The constructors of \<open>Allreduce\<close> and \<open>Broadcast\<close>, and the second half of that of \<open>Allgatherv\<close>: \<open>n\<close> is
  the world after the low-level object has been made.
\<close>

definition fe_construct :: "('n, 'i, 'o) coll_impl \<Rightarrow> nat \<Rightarrow> 'c \<Rightarrow> 'n \<Rightarrow> 'c engine \<Rightarrow>
    (u64 \<times> cl_state \<times> 'n) res \<times> 'c engine" where
  "fe_construct impl t collective n E =
     (case cl_waitForSetup impl (UNINITIALIZED, n) of
        Inl e \<Rightarrow> (Inl e, E)
      | Inr s \<Rightarrow> (case register_collective t collective E of
            (Inl e, E1) \<Rightarrow> (Inl e, E1)
          | (Inr handle, E1) \<Rightarrow> (Inr (handle, s), E1)))"

definition allreduce_construct where
  "allreduce_construct impl t collective n E = fe_construct impl t collective n E"

definition broadcast_construct where
  "broadcast_construct impl t collective n E = fe_construct impl t collective n E"

text \<open>The destructors; an exception would end the process.\<close>

definition allreduce_destroy :: "u64 \<Rightarrow> 'c engine \<Rightarrow> unit res \<times> 'c engine" where
  "allreduce_destroy handle E = deregister_collective handle E"

definition allgatherv_destroy :: "u64 \<Rightarrow> 'c engine \<Rightarrow> unit res \<times> 'c engine" where
  "allgatherv_destroy handle E = deregister_collective handle E"

definition broadcast_destroy :: "u64 \<Rightarrow> 'c engine \<Rightarrow> unit res \<times> 'c engine" where
  "broadcast_destroy handle E = deregister_collective handle E"

section \<open>Execution\<close>

definition fe_start :: "('n, 'i, 'o) coll_impl \<Rightarrow> 'i \<Rightarrow> (cl_state \<times> 'n, unit) act" where
  "fe_start impl inputs s =
     (case cl_copyIn impl inputs s of
        Inl e \<Rightarrow> (Inl e, s)
      | Inr s1 \<Rightarrow> (case cl_start impl s1 of Inl e \<Rightarrow> (Inl e, s1) | Inr s2 \<Rightarrow> (Inr (), s2)))"

definition allreduce_start where
  "allreduce_start impl inputs = fe_start impl inputs"

definition allgatherv_start where
  "allgatherv_start impl inputs = fe_start impl inputs"

definition broadcast_start_inputs :: "('n, 'i, 'o) coll_impl \<Rightarrow> nat \<Rightarrow> nat \<Rightarrow> 'i \<Rightarrow> (cl_state \<times> 'n, unit) act" where
  "broadcast_start_inputs impl rank root_rank inputs =
     (if rank \<noteq> root_rank
      then act_throw (LogicError ''Broadcast: start(void const* inputs) may only be called on root rank.'')
      else fe_start impl inputs)"

text \<open>\<open>NO_DATA\<close> is a null pointer: no elements.\<close>

definition broadcast_start :: "('n, 'a list, 'o) coll_impl \<Rightarrow> nat \<Rightarrow> nat \<Rightarrow> (cl_state \<times> 'n, unit) act" where
  "broadcast_start impl rank root_rank =
     (if rank = root_rank
      then act_throw (LogicError ''Broadcast: start() may only be called on non-root ranks.'')
      else fe_start impl [])"

text \<open>\<open>None\<close>: the fuel of the wait has run out.\<close>

definition fe_waitForCompletion :: "('n, 'i, 'o) coll_impl \<Rightarrow> (nat \<Rightarrow> cl_state \<times> 'n \<Rightarrow> cl_state \<times> 'n) \<Rightarrow>
    (nat \<Rightarrow> bool) \<Rightarrow> nat \<Rightarrow> cl_state \<times> 'n \<Rightarrow> ('o res \<times> cl_state \<times> 'n) option" where
  "fe_waitForCompletion impl others lock fuel s =
     (case cl_waitForCompletion impl others lock fuel s of
        None \<Rightarrow> None
      | Some (_, s1) \<Rightarrow> Some (case cl_copyOut impl s1 of
            Inl e \<Rightarrow> (Inl e, s1)
          | Inr (out, s2) \<Rightarrow> (Inr out, s2)))"

definition allreduce_waitForCompletion where
  "allreduce_waitForCompletion impl others lock fuel s = fe_waitForCompletion impl others lock fuel s"

definition allgatherv_waitForCompletion where
  "allgatherv_waitForCompletion impl others lock fuel s = fe_waitForCompletion impl others lock fuel s"

definition broadcast_waitForCompletion where
  "broadcast_waitForCompletion impl others lock fuel s = fe_waitForCompletion impl others lock fuel s"

section \<open>The counts of Allgatherv\<close>

text \<open>
  The first half of \<open>Allgatherv\<close>'s constructor: an allgatherv of one number per rank, whose result
  is written over \<open>counts\<close>, which is zero before.
\<close>

definition agv_count_impl :: "nat \<Rightarrow> nat \<Rightarrow> (nat agv_net, nat list, nat list \<Rightarrow> nat list) coll_impl" where
  "agv_count_impl p = (let counter = replicate p 1 in agv_impl p counter)"

definition agv_counts :: "nat \<Rightarrow> nat \<Rightarrow> nat agv_net \<Rightarrow> nat list" where
  "agv_counts p r net = copyOutImpl (agv_count_impl p r) net (replicate p 0)"

section \<open>Registration and deregistration\<close>

lemma register_collective_eq:
  "register_collective t c E =
     (if operators E (current_handle E + 1) = None
      then (Inr (current_handle E + 1),
            E\<lparr>updated_operators := True, current_handle := current_handle E + 1,
              operators := (operators E)(current_handle E + 1 \<mapsto> c), woken := True,
              caller := (caller E)(t := NotCalling), results := results E @ [(t, current_handle E + 1)]\<rparr>)
      else (Inl (LogicError ''ProgressEngine: Handle has already been used.''),
            E\<lparr>updated_operators := True, current_handle := current_handle E + 1\<rparr>))"
  by (auto simp: register_collective_def register_section_def register_notify_def register_return_def notify_one_def
      Let_def split: option.splits)

text \<open>
  Construction and destruction of a collective.  The constructor throws exactly if the
  next handle of the progress engine is still in use, and otherwise the engine drives the collective,
  which is ready for a first execution; whatever other collectives are registered or deregistered
  before the object is destroyed, the destructor does not throw, and it removes this collective and no
  other.
\<close>

theorem front_end_registered:
  assumes "fe_construct impl t c n E = (r, E1)"
  shows "(\<exists>e. r = Inl e) = (operators E (current_handle E + 1) \<noteq> None) \<and>
    (\<forall>handle s. r = Inr (handle, s) \<longrightarrow>
       s = (INITIALIZED, waitForSetupImpl impl n) \<and> operators E handle = None \<and>
       operators E1 = (operators E)(handle \<mapsto> c) \<and> updated_operators E1 \<and> woken E1 \<and>
       (\<forall>E2. operators E2 handle = Some c \<longrightarrow>
          (\<exists>E3. allreduce_destroy handle E2 = (Inr (), E3) \<and> operators E3 = (operators E2)(handle := None) \<and>
             updated_operators E3)))"
  using assms
  by (auto simp: fe_construct_def cl_waitForSetup_def register_collective_eq allreduce_destroy_def
      deregister_collective_def Let_def split: if_splits)

section \<open>An execution\<close>

text \<open>What progress threads do to a collective: any number of calls of \<open>triggerProgress\<close>, while the
  network moves on.\<close>

inductive driven :: "('n, 'i, 'o) coll_impl \<Rightarrow> cl_state \<times> 'n \<Rightarrow> cl_state \<times> 'n \<Rightarrow> bool" for impl where
  driven_refl: "driven impl s s"
| driven_trigger: "driven impl s s1 \<Longrightarrow> cl_triggerProgress impl lock s1 = (b, s2) \<Longrightarrow> driven impl s s2"
| driven_world: "driven impl s (st, n) \<Longrightarrow> driven impl s (st, n')"

lemma driven_state: "driven impl s s' \<Longrightarrow> fst s = RUNNING \<or> fst s = FINISHED \<Longrightarrow>
    fst s' = fst s \<or> fst s = RUNNING \<and> fst s' = FINISHED"
proof (induction rule: driven.induct)
  case (driven_trigger s s1 lock b s2)
  then show ?case by (auto simp: cl_triggerProgress_def split: if_splits prod.splits)
qed auto

lemma driven_other: "driven impl s s' \<Longrightarrow> fst s \<noteq> RUNNING \<Longrightarrow> fst s' = fst s"
proof (induction rule: driven.induct)
  case (driven_trigger s s1 lock b s2)
  then show ?case by (auto simp: cl_triggerProgress_def split: if_splits prod.splits)
qed auto

lemma wait_finishes:
  assumes "\<And>i s. driven impl s (others i s)"
  shows "fst s = RUNNING \<or> fst s = FINISHED \<Longrightarrow>
    cl_waitForCompletion impl others lock fuel s = Some (b, s1) \<Longrightarrow> fst s1 = FINISHED"
proof (induction fuel arbitrary: s)
  case (Suc fuel)
  show ?case
  proof (cases "fst s = RUNNING")
    case False
    then show ?thesis using Suc.prems by auto
  next
    case True
    obtain b1 s2 where t: "cl_triggerProgress impl (lock fuel) s = (b1, s2)"
      by (cases "cl_triggerProgress impl (lock fuel) s") blast
    have f: "b1 \<longrightarrow> fst s2 = FINISHED" "fst s2 = RUNNING \<or> fst s2 = FINISHED"
      using t True by (auto simp: cl_triggerProgress_def split: if_splits prod.splits)
    show ?thesis
    proof (cases b1)
      case True
      then show ?thesis using Suc.prems(2) t \<open>fst s = RUNNING\<close> f by auto
    next
      case False
      then have w: "cl_waitForCompletion impl others lock fuel (others fuel s2) = Some (b, s1)"
        using Suc.prems(2) t True by simp
      have "fst (others fuel s2) = RUNNING \<or> fst (others fuel s2) = FINISHED"
        using driven_state [OF assms [of s2 fuel] f(2)] f(2) by auto
      from Suc.IH [OF this w] show ?thesis .
    qed
  qed
qed simp

text \<open>
  Property C22: the calls of a user.  On a collective that is set up or has been copied out,
  \<open>start\<close> succeeds; after it, and however many progress threads drive the collective before and
  during the wait, a \<open>waitForCompletion\<close> that returns does not throw, and the collective can be
  started again.  A second \<open>start\<close> before that, and a \<open>waitForCompletion\<close> without a \<open>start\<close>, throw
  and change nothing.
\<close>

theorem front_end_execution:
  assumes others: "\<And>i s. driven impl s (others i s)" and s: "fst s = INITIALIZED"
  shows "(\<exists>s1. fe_start impl x s = (Inr (), s1) \<and> fst s1 = RUNNING \<and>
      (\<forall>s2. driven impl s1 s2 \<longrightarrow>
         (\<exists>e. fe_start impl y s2 = (Inl (LogicError e), s2)) \<and>
         (\<forall>lock fuel r s3. fe_waitForCompletion impl others lock fuel s2 = Some (r, s3) \<longrightarrow>
            r = Inr (copyOutImpl impl (snd s3)) \<and> fst s3 = INITIALIZED))) \<and>
    (\<exists>e. fe_waitForCompletion impl others lock0 (Suc fuel0) s = Some (Inl (LogicError e), s))"
proof -
  obtain s1 where s1: "fe_start impl x s = (Inr (), s1)" "fst s1 = RUNNING"
    using s by (cases s) (auto simp: fe_start_def cl_copyIn_def cl_start_def)
  have "(\<exists>e. fe_start impl y s2 = (Inl (LogicError e), s2)) \<and>
         (\<forall>lock fuel r s3. fe_waitForCompletion impl others lock fuel s2 = Some (r, s3) \<longrightarrow>
            r = Inr (copyOutImpl impl (snd s3)) \<and> fst s3 = INITIALIZED)" if d: "driven impl s1 s2" for s2
  proof -
    have st: "fst s2 = RUNNING \<or> fst s2 = FINISHED" using driven_state [OF d] s1(2) by auto
    have w: "r = Inr (copyOutImpl impl (snd s3)) \<and> fst s3 = INITIALIZED"
      if wf: "fe_waitForCompletion impl others lock fuel s2 = Some (r, s3)" for lock fuel r s3
    proof -
      obtain b s4 where c: "cl_waitForCompletion impl others lock fuel s2 = Some (b, s4)"
        using wf by (auto simp: fe_waitForCompletion_def split: option.splits prod.splits)
      from wait_finishes [OF others st c] wf c show ?thesis
        by (auto simp: fe_waitForCompletion_def cl_copyOut_def)
    qed
    have "\<exists>e. fe_start impl y s2 = (Inl (LogicError e), s2)"
      using st by (auto simp: fe_start_def cl_copyIn_def)
    then show ?thesis using w by blast
  qed
  moreover have "\<exists>e. fe_waitForCompletion impl others lock0 (Suc fuel0) s = Some (Inl (LogicError e), s)"
    using s by (simp add: fe_waitForCompletion_def cl_copyOut_def)
  ultimately show ?thesis using s1 by blast
qed

definition counting_impl :: "(nat, nat, nat) coll_impl" where
  "counting_impl = \<lparr>waitForSetupImpl = id, copyInImpl = \<lambda>x n. x, startImpl = id,
     triggerProgressImpl = \<lambda>n. (n = 0, n - 1), copyOutImpl = id\<rparr>"

lemma front_end_execution_witness:
  "\<exists>s1 s3. fe_start counting_impl 2 (INITIALIZED, 7) = (Inr (), s1) \<and>
     fe_waitForCompletion counting_impl (\<lambda>i s. s) (\<lambda>_. True) 5 s1 = Some (Inr 0, s3) \<and> fst s3 = INITIALIZED"
proof -
  obtain s1 where s1: "fe_start counting_impl 2 (INITIALIZED, 7) = (Inr (), s1)"
    "\<And>lock fuel r s3. fe_waitForCompletion counting_impl (\<lambda>i s. s) lock fuel s1 = Some (r, s3) \<Longrightarrow>
       r = Inr (copyOutImpl counting_impl (snd s3)) \<and> fst s3 = INITIALIZED"
    using front_end_execution [of counting_impl "\<lambda>i s. s" "(INITIALIZED, 7)" 2] driven_refl by fastforce
  have "\<exists>r s3. fe_waitForCompletion counting_impl (\<lambda>i s. s) (\<lambda>_. True) 5 s1 = Some (r, s3) \<and> snd s3 = 0"
    using s1(1) by (auto simp: fe_start_def cl_copyIn_def cl_start_def counting_impl_def fe_waitForCompletion_def
        cl_triggerProgress_def cl_copyOut_def numeral_eq_Suc)
  then obtain r s3 where w: "fe_waitForCompletion counting_impl (\<lambda>i s. s) (\<lambda>_. True) 5 s1 = Some (r, s3)" "snd s3 = 0" by blast
  have "r = Inr 0" "fst s3 = INITIALIZED" using s1(2) [OF w(1)] w(2) by (simp_all add: counting_impl_def)
  then show ?thesis using s1(1) w(1) by blast
qed

lemma front_end_registered_witness:
  "\<exists>s E1. fe_construct counting_impl 0 (5 :: nat) 0 engine_construct = (Inr (1, s), E1) \<and>
     (\<exists>E3. allreduce_destroy 1 E1 = (Inr (), E3) \<and> operators E3 = Map.empty)"
proof -
  obtain st m E1 where c: "fe_construct counting_impl 0 (5 :: nat) 0 engine_construct = (Inr (1, st, m), E1)"
    by (simp add: fe_construct_def cl_waitForSetup_def register_collective_eq engine_construct_def)
  from front_end_registered [OF c] have o: "operators E1 = (operators (engine_construct :: nat engine))(1 \<mapsto> 5)"
    and a: "\<And>E2. operators E2 1 = Some (5 :: nat) \<Longrightarrow> \<exists>E3. allreduce_destroy 1 E2 = (Inr (), E3) \<and> operators E3 = (operators E2)(1 := None)" by auto
  have d: "\<exists>E3. allreduce_destroy 1 E1 = (Inr (), E3) \<and> operators E3 = (operators E1)(1 := None)" by (rule a) (simp add: o)
  from d o have "\<exists>E3. allreduce_destroy 1 E1 = (Inr (), E3) \<and> operators E3 = Map.empty"
    by (auto simp: engine_construct_def)
  with c show ?thesis by blast
qed

section \<open>The counts that all ranks agree on\<close>

lemma coll_step_cong:
  "coll_step env I p inp n n' \<Longrightarrow> (\<And>r. r < p \<Longrightarrow> I r = I' r \<and> inp r = inp' r) \<Longrightarrow> coll_step env I' p inp' n n'"
  by (erule coll_step.cases) (auto intro: coll_step.intros)

lemma coll_reach_cong:
  assumes "coll_reach env I p inp n n'" "\<And>r. r < p \<Longrightarrow> I r = I' r \<and> inp r = inp' r"
  shows "coll_reach env I' p inp' n n'"
  using assms(1)
proof (induction rule: rtranclp_induct)
  case (step n1 n2)
  have "coll_step env I' p inp' n1 n2" by (rule coll_step_cong [OF step(2) assms(2)])
  with step.IH show ?case by simp
qed simp

lemma agv_counts_all:
  assumes p: "2 \<le> p" "gaspi_env env" and made: "coll_init p n0" "\<forall>r < p. length (buf n0 r OwnSlot) = 1"
    and run: "coll_reach env (agv_count_impl p) p (\<lambda>r. [count r]) n0 n1" "\<forall>r < p. phase n1 r = FINISHED" and q: "q < p"
  shows "agv_counts p q n1 = map count [0..<p]"
proof -
  have L: "allgatherv_ring p (p - 1)" using p(1) by unfold_locales simp_all
  have f: "blocks_fit p (replicate p 1) (\<lambda>r. [count r])" by (simp add: blocks_fit_def)
  have b: "\<forall>r < p. length (buf n0 r OwnSlot) = replicate p 1 ! r" using made(2) by simp
  have l: "length (replicate p (0 :: nat)) = sum_list (replicate p 1)" by (simp add: sum_list_replicate)
  have run': "coll_reach env (agv_impl p (replicate p 1)) p (\<lambda>r. [count r]) n0 n1"
    using run(1) by (simp add: agv_count_impl_def)
  have "phase n1 q = FINISHED" using run(2) q by simp
  from allgatherv_ring.result [OF L run' made(1) p(2) f b q this l]
  show ?thesis by (simp add: agv_counts_def agv_count_impl_def agv_impl_def)
qed

text \<open>
  Property C23: \<open>Allgatherv\<close> with a count per rank.  The exchange in the constructor gives every rank
  the list of all ranks' counts; and an execution of the object, in which every rank works with the
  counts it found, gathers the concatenation of all ranks' inputs.
\<close>

theorem allgatherv_counts:
  assumes p: "2 \<le> p" "gaspi_env env"
    and made: "coll_init p n0" "\<forall>r < p. length (buf n0 r OwnSlot) = 1"
    and counts: "coll_reach env (agv_count_impl p) p (\<lambda>r. [count r]) n0 n1" "\<forall>r < p. phase n1 r = FINISHED"
    and exec: "coll_init p m0" "\<forall>r < p. length (inp r) = count r \<and> length (buf m0 r OwnSlot) = agv_counts p r n1 ! r"
      "coll_reach env (\<lambda>r. agv_impl p (agv_counts p r n1) r) p inp m0 m" "r < p" "phase m r = FINISHED"
      "length out = sum_list (agv_counts p r n1)"
  shows "agv_counts p r n1 = map count [0..<p] \<and>
    copyOutImpl (agv_impl p (agv_counts p r n1) r) m out = concat (map inp [0..<p])"
proof -
  have L: "allgatherv_ring p (p - 1)" using p(1) by unfold_locales simp_all
  note C = agv_counts_all [OF p made counts]
  then have 1: "agv_counts p r n1 = map count [0..<p]" using exec(4) by simp
  let ?C = "map count [0..<p]"
  have run: "coll_reach env (agv_impl p ?C) p inp m0 m"
    by (rule coll_reach_cong [OF exec(3)]) (simp add: C)
  have f: "blocks_fit p ?C inp" using exec(2) by (simp add: blocks_fit_def)
  have b: "\<forall>r < p. length (buf m0 r OwnSlot) = ?C ! r" using exec(2) C by simp
  have l: "length out = sum_list ?C" using exec(6) 1 by simp
  from allgatherv_ring.result [OF L run exec(1) p(2) f b exec(4,5) l]
  show ?thesis unfolding 1 by (simp add: agv_impl_def)
qed

definition count_net0 :: "nat agv_net" where
  "count_net0 = \<lparr>phase = \<lambda>_. INITIALIZED, ctl = \<lambda>_. 0, buf = \<lambda>_ _. [0], pend = \<lambda>_. 0, flag = \<lambda>_. False,
     apend = \<lambda>_. 0, aflag = \<lambda>_. False\<rparr>"

lemma allgatherv_counts_witness:
  "\<exists>n1 m. agv_counts 2 0 n1 = [1, 2] \<and> copyOutImpl (agv_impl 2 (agv_counts 2 0 n1) 0) m [0, 0, 0] = [7, 10, 20 :: nat]"
proof -
  define count :: "nat \<Rightarrow> nat" where "count = (\<lambda>r. [1, 2] ! r)"
  have i: "coll_init 2 count_net0" by (simp add: coll_init_def count_net0_def)
  note P = agv_pipeline [of 2, OF order_refl]
  obtain n1 where n1: "coll_reach any_env (agv_count_impl 2) 2 (\<lambda>r. [count r]) count_net0 n1" "\<forall>r < 2. phase n1 r = FINISHED"
    using ring_pipeline.coll_completes [OF P ring_pipeline.inv_init [OF P i] any_env_gaspi]
    unfolding ring_pipeline.all_finished_def [OF P] agv_count_impl_def by fastforce
  obtain m where m: "coll_reach any_env (agv_impl 2 [1, 2]) 2 agv_inp0 agv_net0 m" "phase m 0 = FINISHED"
    using ring_pipeline.coll_completes [OF P ring_pipeline.inv_init [OF P agv_net0_init] any_env_gaspi]
    unfolding ring_pipeline.all_finished_def [OF P] by fastforce
  have own: "\<forall>r < 2. length (buf count_net0 r OwnSlot) = 1" by (simp add: count_net0_def)
  have "map count [0..<2] = [1, 2]" by (simp add: upt_rec count_def)
  then have c: "agv_counts 2 q n1 = [1, 2]" if "q < 2" for q
    using agv_counts_all [OF order_refl any_env_gaspi(1) i own n1 that] by simp
  have run: "coll_reach any_env (\<lambda>r. agv_impl 2 (agv_counts 2 r n1) r) 2 agv_inp0 agv_net0 m"
    by (rule coll_reach_cong [OF m(1)]) (simp add: c)
  have l: "\<forall>r < 2. length (agv_inp0 r) = count r \<and> length (buf agv_net0 r OwnSlot) = agv_counts 2 r n1 ! r"
    by (auto simp: agv_inp0_def agv_net0_def less_2_cases_iff c count_def)
  have "copyOutImpl (agv_impl 2 (agv_counts 2 0 n1) 0) m [0, 0, 0] = [7, 10, 20]"
    using allgatherv_counts [OF order_refl any_env_gaspi(1) i own n1 agv_net0_init l run _ m(2), of "[0, 0, 0]"]
    by (simp add: c count_def agv_inp0_def upt_rec)
  with c [of 0] show ?thesis by (intro exI [of _ n1] exI [of _ m]) simp
qed

end
