(* ===== verification/Runtime_Transfers.thy ===== *)
theory Runtime_Transfers
  imports Gaspi_Runtime Endpoint_Connect
begin

unbundle bit_operations_syntax

text \<open>
  The overloads of \<open>singlesided/Endpoint\<close>, \<open>write/SourceBuffer\<close> and \<open>write/TargetBuffer\<close> that leave the
  choice of segment and communication context to the runtime, and the virtual calls of a
  communication context.
\<close>

section \<open>The virtual functions of CommunicationContext\<close>

definition comm_writePart ::
    "('s, 'z) gaspi_api_scheme \<Rightarrow> buffer_description \<Rightarrow> buffer_description \<Rightarrow> u64 \<Rightarrow> u64 \<Rightarrow>
     comm_context \<times> 's \<Rightarrow> (unit res \<times> comm_context \<times> 's) option" where
  "comm_writePart G source target sz offset = (\<lambda>(C, s).
     case C of
       SingleQueueContext q \<Rightarrow> map_option (\<lambda>(r, s1). (r, C, s1)) (sq_writePart G q source target sz offset s)
     | RoundRobinContext R \<Rightarrow>
         map_option (\<lambda>(r, R1, s1). (r, RoundRobinContext R1, s1)) (rr_writePart G source target sz offset (R, s)))"

definition comm_notify ::
    "('s, 'z) gaspi_api_scheme \<Rightarrow> buffer_description \<Rightarrow> comm_context \<times> 's \<Rightarrow> (unit res \<times> comm_context \<times> 's) option" where
  "comm_notify G target = (\<lambda>(C, s).
     case C of
       SingleQueueContext q \<Rightarrow> map_option (\<lambda>(r, s1). (r, C, s1)) (sq_notify G q target s)
     | RoundRobinContext R \<Rightarrow>
         map_option (\<lambda>(r, R1, s1). (r, RoundRobinContext R1, s1)) (rr_notify G target (R, s)))"

definition comm_flush :: "('s, 'z) gaspi_api_scheme \<Rightarrow> comm_context \<Rightarrow> ('s, unit) act" where
  "comm_flush G C = (case C of SingleQueueContext q \<Rightarrow> sq_flush G q | RoundRobinContext R \<Rightarrow> rr_flush G R)"

section \<open>The default communication context\<close>

text \<open>A call on the context of the runtime; a null pointer has no defined behaviour, which \<open>None\<close>
  stands for like a call that does not return.\<close>

definition on_default_context ::
    "(comm_context \<times> 's \<Rightarrow> (unit res \<times> comm_context \<times> 's) option) \<Rightarrow> 'c runtime \<times> 's \<Rightarrow>
     (unit res \<times> 'c runtime \<times> 's) option" where
  "on_default_context call = (\<lambda>(R, s).
     case getDefaultCommunicationContext R of
       None \<Rightarrow> None
     | Some C \<Rightarrow> map_option (\<lambda>(r, C1, s1). (r, R\<lparr>rt_comm_context := Some C1\<rparr>, s1)) (call (C, s)))"

definition src_initTransfer_default ::
    "('s, 'z) gaspi_api_scheme \<Rightarrow> endpoint_buffer \<Rightarrow> ('c runtime \<times> 's \<Rightarrow> (unit res \<times> 'c runtime \<times> 's) option) option" where
  "src_initTransfer_default G e = map_option on_default_context (src_initTransfer (comm_writePart G) e)"

definition src_initTransferPart_default ::
    "('s, 'z) gaspi_api_scheme \<Rightarrow> endpoint_buffer \<Rightarrow> u64 \<Rightarrow> u64 \<Rightarrow>
     ('c runtime \<times> 's \<Rightarrow> (unit res \<times> 'c runtime \<times> 's) option) option" where
  "src_initTransferPart_default G e sz offset =
     map_option on_default_context (src_initTransferPart (comm_writePart G) e sz offset)"

definition tgt_ackTransfer_default ::
    "('s, 'z) gaspi_api_scheme \<Rightarrow> endpoint_buffer \<Rightarrow> ('c runtime \<times> 's \<Rightarrow> (unit res \<times> 'c runtime \<times> 's) option) option" where
  "tgt_ackTransfer_default G e = map_option on_default_context (tgt_ackTransfer (comm_notify G) e)"

section \<open>Endpoints in a segment of the runtime\<close>

text \<open>\<open>m\<close> is one of the constructors on a given segment.\<close>

definition endpoint_in_free_segment ::
    "'s segment_api \<Rightarrow> (u64 \<Rightarrow> u64) \<Rightarrow> RuntimeConfiguration \<Rightarrow> u64 \<Rightarrow> (bworld \<times> 's, endpoint_buffer) act \<Rightarrow>
     ('c runtime \<times> 's, nat \<times> endpoint_buffer) act" where
  "endpoint_in_free_segment G pow2_up configuration sz m =
     act_bind (getFreeSegment G pow2_up configuration sz) (\<lambda>i. \<lambda>(R, s).
       let p = the (rt_segment_pool R)
       in case m (\<lparr>bw_segment = pool_segments p ! i, bw_allocs = []\<rparr>, s) of
            (r, w, s1) \<Rightarrow> (map_sum id (Pair i) r, R\<lparr>rt_segment_pool := Some (pool_update i (bw_segment w) p)\<rparr>, s1))"

definition rt_ep_construct where
  "rt_ep_construct G pow2_up configuration global_rank sz type =
     endpoint_in_free_segment G pow2_up configuration sz (ep_construct G global_rank sz type)"

definition rt_ep_construct_notify where
  "rt_ep_construct_notify G pow2_up configuration global_rank sz notification type =
     endpoint_in_free_segment G pow2_up configuration sz (ep_construct_notify G global_rank sz notification type)"

definition rt_src_construct where
  "rt_src_construct G pow2_up configuration global_rank sz =
     rt_ep_construct G pow2_up configuration global_rank sz SOURCE"

definition rt_src_construct_notify where
  "rt_src_construct_notify G pow2_up configuration global_rank sz notification =
     rt_ep_construct_notify G pow2_up configuration global_rank sz notification SOURCE"

definition rt_tgt_construct where
  "rt_tgt_construct G pow2_up configuration global_rank sz =
     rt_ep_construct G pow2_up configuration global_rank sz TARGET"

definition rt_tgt_construct_notify where
  "rt_tgt_construct_notify G pow2_up configuration global_rank sz notification =
     rt_ep_construct_notify G pow2_up configuration global_rank sz notification TARGET"

definition connectToRemoteTarget where
  "connectToRemoteTarget G Pa g r tag e = connectToRemotePartner G Pa g r tag e"

definition connectToRemoteSource where
  "connectToRemoteSource G Pa g r tag e = connectToRemotePartner G Pa g r tag e"

end
