(* ===== verification/Transfer_Library.thy ===== *)
theory Transfer_Library
  imports Runtime_Transfers Communication_Context_Props Blocking_Exchange_Props
begin

unbundle bit_operations_syntax

text \<open>
  What is assumed of the GASPI library when all processes are seen together: requests that were
  accepted are completed at some time, and notifications are set, tested and reset.  Under this
  contract a communication context, of either kind or the runtime's, posts exactly one request per
  call that does not throw.
\<close>

section \<open>What can be observed of the library\<close>

text \<open>
  The requests accepted from a process and not yet completed, the notifications (by process, segment
  and identifier), and the memory of the segments of all processes.
\<close>

record gview =
  outstanding :: "(u16 \<times> request) multiset"
  noted :: "u16 \<times> u8 \<times> u32 \<Rightarrow> u32"
  cell :: "u16 \<Rightarrow> u8 \<Rightarrow> u64 \<Rightarrow> u8"

fun get_block :: "(u16 \<Rightarrow> u8 \<Rightarrow> u64 \<Rightarrow> u8) \<Rightarrow> u16 \<Rightarrow> mem_block \<Rightarrow> u8 list" where
  "get_block m q (Mem k off sz) = map (\<lambda>i. m q k (off + of_nat i)) [0..<unat sz]"

fun put_block :: "(u16 \<Rightarrow> u8 \<Rightarrow> u64 \<Rightarrow> u8) \<Rightarrow> u16 \<Rightarrow> mem_block \<Rightarrow> u8 list \<Rightarrow> (u16 \<Rightarrow> u8 \<Rightarrow> u64 \<Rightarrow> u8)" where
  "put_block m q (Mem k off sz) bs =
     m(q := (m q)(k := (\<lambda>x. if unat (x - off) < unat sz then bs ! unat (x - off) else m q k x)))"

text \<open>The completion of a request: the data first, then the notification.\<close>

fun complete :: "u16 \<times> request \<Rightarrow> gview \<Rightarrow> gview" where
  "complete (q, WriteNotify k off rank rk roff sz nid val) v =
     v\<lparr>outstanding := outstanding v - {#(q, WriteNotify k off rank rk roff sz nid val)#},
       noted := (noted v)((rank, rk, nid) := val),
       cell := put_block (cell v) rank (Mem rk roff sz) (get_block (cell v) q (Mem k off sz))\<rparr>"
| "complete (q, Notify rk rank nid val) v =
     v\<lparr>outstanding := outstanding v - {#(q, Notify rk rank nid val)#}, noted := (noted v)((rank, rk, nid) := val)\<rparr>"

definition completes :: "gview \<Rightarrow> gview \<Rightarrow> bool" where
  "completes v v' \<longleftrightarrow> (\<exists>x. x \<in># outstanding v \<and> v' = complete x v)"

abbreviation moves :: "gview \<Rightarrow> gview \<Rightarrow> bool" where
  "moves \<equiv> completes\<^sup>*\<^sup>*"

text \<open>While the calling process does \<open>f\<close>, requests are completed before and after.\<close>

definition around :: "(gview \<Rightarrow> gview) \<Rightarrow> gview \<Rightarrow> gview \<Rightarrow> bool" where
  "around f v v' \<longleftrightarrow> (\<exists>u. moves v u \<and> moves (f u) v')"

definition post_one :: "u16 \<times> request \<Rightarrow> gview \<Rightarrow> gview" where
  "post_one x v = v\<lparr>outstanding := add_mset x (outstanding v)\<rparr>"

definition reset_note :: "u16 \<times> u8 \<times> u32 \<Rightarrow> gview \<Rightarrow> gview" where
  "reset_note key v = v\<lparr>noted := (noted v)(key := 0)\<rparr>"

text \<open>
  The documented behaviour of the calls.  \<open>room s q qu\<close>: queue \<open>qu\<close> of process \<open>q\<close> takes another
  request.  A test of a notification that times out has found it zero at some moment; a reset
  returns the value it has overwritten.
\<close>

definition library_contract ::
    "(u16 \<Rightarrow> 's segment_api) \<Rightarrow> ('s \<Rightarrow> gview) \<Rightarrow> ('s \<Rightarrow> u16 \<Rightarrow> u8 \<Rightarrow> bool) \<Rightarrow> bool" where
  "library_contract api view room \<longleftrightarrow>
     (\<forall>q r qu s ret s1. gaspi_post (api q) r qu GASPI_BLOCK s = (ret, s1) \<longrightarrow>
        around (if ret = GASPI_SUCCESS then post_one (q, r) else id) (view s) (view s1) \<and>
        (ret = GASPI_QUEUE_FULL \<longrightarrow> \<not> room s q qu)) \<and>
     (\<forall>q qu s ret s1. gaspi_wait (api q) qu GASPI_BLOCK s = (ret, s1) \<longrightarrow>
        moves (view s) (view s1) \<and> (ret = GASPI_SUCCESS \<longrightarrow> room s1 q qu)) \<and>
     (\<forall>q k i t s ret j s1. gaspi_notify_waitsome (api q) k i 1 t s = ((ret, j), s1) \<longrightarrow>
        moves (view s) (view s1) \<and>
        (ret = GASPI_SUCCESS \<longrightarrow> j = i \<and> noted (view s1) (q, k, i) \<noteq> 0) \<and>
        (ret = GASPI_TIMEOUT \<longrightarrow> (\<exists>u. moves (view s) u \<and> noted u (q, k, i) = 0 \<and> moves u (view s1)))) \<and>
     (\<forall>q k i s ret val s1. gaspi_notify_reset (api q) k i s = ((ret, val), s1) \<longrightarrow>
        (if ret = GASPI_SUCCESS
         then \<exists>u. moves (view s) u \<and> val = noted u (q, k, i) \<and> moves (reset_note (q, k, i) u) (view s1)
         else moves (view s) (view s1)))"

lemma contract_post:
  assumes "library_contract api view room" "gaspi_post (api q) r qu GASPI_BLOCK s = (ret, s1)"
  shows "around (if ret = GASPI_SUCCESS then post_one (q, r) else id) (view s) (view s1)"
    "ret = GASPI_QUEUE_FULL \<Longrightarrow> \<not> room s q qu"
  using assms(1) [unfolded library_contract_def, THEN conjunct1, THEN spec, THEN spec, THEN spec, THEN spec,
      THEN spec, THEN spec, THEN mp, OF assms(2)] by simp_all

lemma contract_wait:
  assumes "library_contract api view room" "gaspi_wait (api q) qu GASPI_BLOCK s = (ret, s1)"
  shows "moves (view s) (view s1)" "ret = GASPI_SUCCESS \<Longrightarrow> room s1 q qu"
  using assms(1) [unfolded library_contract_def, THEN conjunct2, THEN conjunct1, THEN spec, THEN spec, THEN spec,
      THEN spec, THEN spec, THEN mp, OF assms(2)] by simp_all

lemma contract_waitsome:
  assumes "library_contract api view room" "gaspi_notify_waitsome (api q) k i 1 t s = ((ret, j), s1)"
  shows "moves (view s) (view s1)" "ret = GASPI_SUCCESS \<Longrightarrow> j = i \<and> noted (view s1) (q, k, i) \<noteq> 0"
    "ret = GASPI_TIMEOUT \<Longrightarrow> \<exists>u. moves (view s) u \<and> noted u (q, k, i) = 0 \<and> moves u (view s1)"
  using assms(1) [unfolded library_contract_def, THEN conjunct2, THEN conjunct2, THEN conjunct1, THEN spec, THEN spec,
      THEN spec, THEN spec, THEN spec, THEN spec, THEN spec, THEN spec, THEN mp, OF assms(2)] by simp_all

lemma contract_reset:
  assumes "library_contract api view room" "gaspi_notify_reset (api q) k i s = ((ret, val), s1)"
  shows "if ret = GASPI_SUCCESS
     then \<exists>u. moves (view s) u \<and> val = noted u (q, k, i) \<and> moves (reset_note (q, k, i) u) (view s1)
     else moves (view s) (view s1)"
  using assms(1) [unfolded library_contract_def, THEN conjunct2, THEN conjunct2, THEN conjunct2, THEN spec, THEN spec,
      THEN spec, THEN spec, THEN spec, THEN spec, THEN spec, THEN mp, OF assms(2)] .

lemma around_id [simp]: "around id v v' \<longleftrightarrow> moves v v'"
  by (auto simp: around_def intro: rtranclp_trans)

lemma around_before: "moves v w \<Longrightarrow> around f w v' \<Longrightarrow> around f v v'"
  unfolding around_def by (meson rtranclp_trans)

section \<open>Posting through a communication context\<close>

definition posts :: "u16 \<times> request \<Rightarrow> unit res \<Rightarrow> gview \<Rightarrow> gview \<Rightarrow> bool" where
  "posts x r = around (if r = Inr () then post_one x else id)"

text \<open>
  The interface of \<open>CommunicationContext\<close>: the two virtual functions return, and a call that does
  not throw has posted exactly one request, one that throws none.
\<close>

definition write_item :: "buffer_description \<Rightarrow> buffer_description \<Rightarrow> u64 \<Rightarrow> u64 \<Rightarrow> request" where
  "write_item source target sz offset =
     (if sz > 0 then write_request source target sz offset else notify_request target)"

locale communication_context =
  fixes wp :: "'s segment_api \<Rightarrow> buffer_description \<Rightarrow> buffer_description \<Rightarrow> u64 \<Rightarrow> u64 \<Rightarrow>
      'c \<times> 's \<Rightarrow> (unit res \<times> 'c \<times> 's) option"
    and nt :: "'s segment_api \<Rightarrow> buffer_description \<Rightarrow> 'c \<times> 's \<Rightarrow> (unit res \<times> 'c \<times> 's) option"
    and ok :: "'c \<Rightarrow> bool"
  assumes write_law: "library_contract api view room \<Longrightarrow> ok C \<Longrightarrow> offset + sz \<le> bd_size source \<Longrightarrow> sz \<le> bd_size target \<Longrightarrow>
      \<exists>r C1 s1. wp (api q) source target sz offset (C, s) = Some (r, C1, s1) \<and> ok C1 \<and>
        posts (q, write_item source target sz offset) r (view s) (view s1)"
    and notify_law: "library_contract api view room \<Longrightarrow> ok C \<Longrightarrow>
      \<exists>r C1 s1. nt (api q) target (C, s) = Some (r, C1, s1) \<and> ok C1 \<and>
        posts (q, notify_request target) r (view s) (view s1)"
begin

lemma whole_write:
  assumes "library_contract api view room" "ok C" "bd_size source \<le> bd_size target"
  shows "\<exists>r C1 s1. ctx_write (wp (api q)) source target (C, s) = Some (r, C1, s1) \<and> ok C1 \<and>
    posts (q, write_item source target (bd_size source) 0) r (view s) (view s1)"
  unfolding ctx_write_def using assms by (intro write_law) simp_all

lemma source_initTransfer:
  assumes "library_contract api view room" "ok C" "ep_isConnected e"
    "bd_size (ep_pLocalBufferDesc e) \<le> bd_size (ep_pOtherBufferDesc e)"
  shows "\<exists>call r C1 s1. src_initTransfer (wp (api q)) e = Some call \<and> call (C, s) = Some (r, C1, s1) \<and> ok C1 \<and>
    posts (q, write_item (ep_pLocalBufferDesc e) (ep_pOtherBufferDesc e) (bd_size (ep_pLocalBufferDesc e)) 0) r (view s) (view s1)"
  using whole_write [OF assms(1,2,4)] assms(3) by (simp add: src_initTransfer_def asserted_def)

lemma target_ackTransfer:
  assumes "library_contract api view room" "ok C" "ep_isConnected e"
  shows "\<exists>call r C1 s1. tgt_ackTransfer (nt (api q)) e = Some call \<and> call (C, s) = Some (r, C1, s1) \<and> ok C1 \<and>
    posts (q, notify_request (ep_pOtherBufferDesc e)) r (view s) (view s1)"
  using notify_law [OF assms(1,2)] assms(3) by (simp add: tgt_ackTransfer_def asserted_def)

end

subsection \<open>SingleQueueContext\<close>

lemma flush_moves:
  "library_contract api view room \<Longrightarrow> queue_flush (api q) qu s = (res, s1) \<Longrightarrow>
   moves (view s) (view s1) \<and> (res = Inr () \<longrightarrow> room s1 q qu)"
  by (auto simp: queue_flush_def gaspi_checked_eq dest: contract_wait split: prod.splits if_splits)

lemma sq_post_loop_posts:
  assumes C: "library_contract api view room"
  shows "\<exists>res s1. sq_post_loop (api q) qu r s = Some (res, s1) \<and>
    around (if res = Inr GASPI_SUCCESS then post_one (q, r) else id) (view s) (view s1)"
proof -
  obtain ret s1 where p: "gaspi_post (api q) r qu GASPI_BLOCK s = (ret, s1)" by force
  show ?thesis
  proof (cases "ret = GASPI_QUEUE_FULL")
    case False
    then show ?thesis using sq_post_loop_now [OF p] contract_post [OF C p] by simp
  next
    case True
    then have m: "moves (view s) (view s1)" using contract_post [OF C p] by simp
    obtain res s2 where f: "queue_flush (api q) qu s1 = (res, s2)" by force
    note f2 = flush_moves [OF C f]
    have m2: "moves (view s) (view s2)" using m f2 by (meson rtranclp_trans)
    show ?thesis
    proof (cases res)
      case (Inl e)
      then show ?thesis using sq_post_loop_flush [of "api q" r qu s s1] p True f m2 by simp
    next
      case (Inr u)
      obtain ret2 s3 where p2: "gaspi_post (api q) r qu GASPI_BLOCK s2 = (ret2, s3)" by force
      have "ret2 \<noteq> GASPI_QUEUE_FULL" using contract_post [OF C p2] f2 Inr by auto
      then have "sq_post_loop (api q) qu r s = Some (Inr ret2, s3)"
        using sq_post_loop_flush [of "api q" r qu s s1] p True f Inr sq_post_loop_now [OF p2] by simp
      then show ?thesis using contract_post [OF C p2] around_before [OF m2] by auto
    qed
  qed
qed

lemma sq_notify_posts:
  assumes "library_contract api view room"
  shows "\<exists>res s1. sq_notify (api q) qu target s = Some (res, s1) \<and>
    posts (q, notify_request target) res (view s) (view s1)"
proof -
  obtain res s1 where l: "sq_post_loop (api q) qu (notify_request target) s = Some (res, s1)"
    "around (if res = Inr GASPI_SUCCESS then post_one (q, notify_request target) else id) (view s) (view s1)"
    using sq_post_loop_posts [OF assms] by blast
  show ?thesis
    by (cases res; cases "res = Inr GASPI_SUCCESS") (use l in \<open>simp_all add: sq_notify_def check_rethrow_eq posts_def\<close>)
qed

lemma sq_writePart_posts:
  assumes "library_contract api view room" "offset + sz \<le> bd_size source" "sz \<le> bd_size target"
  shows "\<exists>res s1. sq_writePart (api q) qu source target sz offset s = Some (res, s1) \<and>
    posts (q, write_item source target sz offset) res (view s) (view s1)"
proof (cases "sz > 0")
  case True
  obtain res s1 where l: "sq_post_loop (api q) qu (write_request source target sz offset) s = Some (res, s1)"
    "around (if res = Inr GASPI_SUCCESS then post_one (q, write_request source target sz offset) else id) (view s) (view s1)"
    using sq_post_loop_posts [OF assms(1)] by blast
  show ?thesis
    by (cases res; cases "res = Inr GASPI_SUCCESS")
      (use l True assms(2,3) in \<open>simp_all add: sq_writePart_def write_item_def check_rethrow_eq posts_def not_less [symmetric]\<close>)
next
  case False
  then show ?thesis using sq_notify_posts [OF assms(1)] assms(2,3)
    by (simp add: sq_writePart_def write_item_def not_less [symmetric])
qed

interpretation single_queue: communication_context
  "\<lambda>G source target sz offset (qu, s). map_option (\<lambda>(r, s1). (r, qu, s1)) (sq_writePart G qu source target sz offset s)"
  "\<lambda>G target (qu, s). map_option (\<lambda>(r, s1). (r, qu, s1)) (sq_notify G qu target s)"
  "\<lambda>_. True"
proof (unfold_locales, goal_cases)
  case (1 api view room C offset sz source target q s)
  then show ?case using sq_writePart_posts [of api view room offset sz source target q C s] by auto
next
  case (2 api view room C q target s)
  then show ?case using sq_notify_posts [of api view room q C target s] by auto
qed

subsection \<open>RoundRobinQueuesContext\<close>

lemma select_moves:
  assumes "library_contract api view room" "select_available_queue (api q) cur (C, s) = (res, C1, s1)"
  shows "moves (view s) (view s1)"
  using assms(2) flush_moves [OF assms(1)]
  by (auto simp: select_available_queue_def Let_def split: if_splits prod.splits sum.splits)

lemma select_room:
  assumes "library_contract api view room" "select_available_queue (api q) (rr_index C) (C, s) = (Inr i, C1, s1)"
  shows "room s1 q (rr_queues C ! i)"
  using assms(2) flush_moves [OF assms(1)]
  by (auto simp: select_available_queue_def Let_def split: if_splits prod.splits sum.splits)

lemma posting_posts:
  assumes C: "library_contract api view room" and "cur < length (rr_queues C)"
    and "rr_thread_step (api q) (Posting r cur) (C, s) = (t1, C1, s1)"
  shows "C1 = C \<and> (t1 = Full r cur \<and> moves (view s) (view s1) \<and> \<not> room s q (rr_queues C ! cur)
     \<or> (\<exists>res. t1 = Finished res \<and> posts (q, r) res (view s) (view s1)))"
proof -
  obtain ret s2 where p: "gaspi_post (api q) r (rr_queues C ! cur) GASPI_BLOCK s = (ret, s2)" by force
  show ?thesis
    using assms(2,3) contract_post [OF C p] p
    by (cases "ret = GASPI_SUCCESS"; cases "ret = GASPI_QUEUE_FULL")
      (auto simp: rr_thread_step_def gaspi_check_eq posts_def)
qed

lemma posts_before: "moves v w \<Longrightarrow> posts x r w v' \<Longrightarrow> posts x r v v'"
  unfolding posts_def by (rule around_before)

lemma rr_run_posts:
  assumes C: "library_contract api view room" and ok: "rr_ok ctx"
  shows "\<exists>res ctx1 s1. rr_run (api q) (Ready r) (ctx, s) = Some (res, ctx1, s1) \<and> rr_ok ctx1 \<and>
    posts (q, r) res (view s) (view s1)"
proof -
  let ?i = "rr_index ctx"
  have run: "rr_run (api q) (Ready r) (ctx, s) = rr_run (api q) (Posting r ?i) (ctx, s)"
    using rr_run_step [of "Ready r" "api q" "(ctx, s)"] by (simp add: rr_thread_step_def)
  have i: "?i < length (rr_queues ctx)" using ok by (simp add: rr_ok_def)
  obtain t1 c1 s1 where t1: "rr_thread_step (api q) (Posting r ?i) (ctx, s) = (t1, c1, s1)" by (metis prod_cases3)
  have st1: "rr_run (api q) (Posting r ?i) (ctx, s) = rr_run (api q) t1 (c1, s1)"
    using rr_run_step [of "Posting r ?i" "api q" "(ctx, s)"] t1 by simp
  from posting_posts [OF C i t1] have c1: "c1 = ctx" and
    "t1 = Full r ?i \<and> moves (view s) (view s1) \<or> (\<exists>res. t1 = Finished res \<and> posts (q, r) res (view s) (view s1))"
    by blast+
  then consider res where "t1 = Finished res" "posts (q, r) res (view s) (view s1)"
    | "t1 = Full r ?i" "moves (view s) (view s1)" by blast
  then show ?thesis
  proof cases
    case (1 res)
    then show ?thesis using run st1 c1 ok by simp
  next
    case 2
    obtain res2 c2 s2 where sel: "select_available_queue (api q) ?i (ctx, s1) = (res2, c2, s2)" by (metis prod_cases3)
    have m: "moves (view s) (view s2)" using 2(2) select_moves [OF C sel] by (meson rtranclp_trans)
    note c2 = select_cases [OF ok sel]
    show ?thesis
    proof (cases res2)
      case (Inl e)
      have "rr_run (api q) (Full r ?i) (ctx, s1) = Some (Inl e, c2, s2)"
        using rr_run_step [of "Full r ?i" "api q" "(ctx, s1)"] sel Inl by (simp add: rr_thread_step_def)
      then show ?thesis using run st1 2 c1 c2 m by (simp add: posts_def)
    next
      case (Inr k)
      have st2: "rr_run (api q) (Full r ?i) (ctx, s1) = rr_run (api q) (Posting r k) (c2, s2)"
        using rr_run_step [of "Full r ?i" "api q" "(ctx, s1)"] sel Inr by (simp add: rr_thread_step_def)
      have k: "k < length (rr_queues c2)" using c2 Inr by simp
      have rm: "room s2 q (rr_queues c2 ! k)" using select_room [OF C] sel Inr c2 by simp
      obtain t3 c3 s3 where t3: "rr_thread_step (api q) (Posting r k) (c2, s2) = (t3, c3, s3)" by (metis prod_cases3)
      have st3: "rr_run (api q) (Posting r k) (c2, s2) = rr_run (api q) t3 (c3, s3)"
        using rr_run_step [of "Posting r k" "api q" "(c2, s2)"] t3 by simp
      obtain res where "t3 = Finished res" "posts (q, r) res (view s2) (view s3)" "c3 = c2"
        using posting_posts [OF C k t3] rm by blast
      then show ?thesis using run st1 2 c1 st2 st3 c2 posts_before [OF m] by simp
    qed
  qed
qed

lemma rr_notify_posts:
  assumes "library_contract api view room" "rr_ok ctx"
  shows "\<exists>res ctx1 s1. rr_notify (api q) target (ctx, s) = Some (res, ctx1, s1) \<and> rr_ok ctx1 \<and>
    posts (q, notify_request target) res (view s) (view s1)"
  unfolding rr_notify_def by (rule rr_run_posts [OF assms])

lemma rr_writePart_posts:
  assumes "library_contract api view room" "rr_ok ctx" "offset + sz \<le> bd_size source" "sz \<le> bd_size target"
  shows "\<exists>res ctx1 s1. rr_writePart (api q) source target sz offset (ctx, s) = Some (res, ctx1, s1) \<and> rr_ok ctx1 \<and>
    posts (q, write_item source target sz offset) res (view s) (view s1)"
proof -
  have "rr_writePart_entry source target sz offset = Ready (write_item source target sz offset)"
    using assms(3,4) by (simp add: rr_writePart_entry_def write_item_def not_less [symmetric] word_gt_0)
  then show ?thesis using rr_run_posts [OF assms(1,2)] by (simp add: rr_writePart_def)
qed

interpretation round_robin: communication_context rr_writePart rr_notify rr_ok
proof (unfold_locales, goal_cases)
  case 1
  then show ?case by (rule rr_writePart_posts)
next
  case 2
  then show ?case by (rule rr_notify_posts)
qed

subsection \<open>The context of the runtime\<close>

definition comm_ok :: "comm_context \<Rightarrow> bool" where
  "comm_ok C = (case C of SingleQueueContext q \<Rightarrow> True | RoundRobinContext R \<Rightarrow> rr_ok R)"

interpretation runtime_context: communication_context comm_writePart comm_notify comm_ok
proof (unfold_locales, goal_cases)
  case (1 api view room C offset sz source target q s)
  show ?case
  proof (cases C)
    case (SingleQueueContext qu)
    then show ?thesis using single_queue.write_law [OF 1(1) _ 1(3,4), where C = qu and q = q and s = s]
      by (auto simp: comm_writePart_def comm_ok_def)
  next
    case (RoundRobinContext R)
    then show ?thesis using round_robin.write_law [OF 1(1) _ 1(3,4), where C = R and q = q and s = s] 1(2)
      by (auto simp: comm_writePart_def comm_ok_def)
  qed
next
  case (2 api view room C q target s)
  show ?case
  proof (cases C)
    case (SingleQueueContext qu)
    then show ?thesis using single_queue.notify_law [OF 2(1), where C = qu and q = q and s = s and target = target]
      by (auto simp: comm_notify_def comm_ok_def)
  next
    case (RoundRobinContext R)
    then show ?thesis using round_robin.notify_law [OF 2(1), where C = R and q = q and s = s and target = target] 2(2)
      by (auto simp: comm_notify_def comm_ok_def)
  qed
qed

end
