(* ===== verification/Transfer_Refinement.thy ===== *)
theory Transfer_Refinement
  imports Transfer_Library
begin

unbundle bit_operations_syntax

text \<open>
  The channels of the network that the collectives run on are an abstraction of what source and
  target buffers do with the GASPI library: a posted transfer is a request the library has accepted
  and not completed, a flag is a notification of the target or the source buffer that is not zero,
  a slot is a block of bytes in a segment.  Every run of the buffer operations on the library, with
  the communication context of the runtime, is a run of the network operations with the same results.
\<close>

section \<open>Blocks of memory\<close>

fun block_size :: "mem_block \<Rightarrow> nat" where
  "block_size (Mem k off sz) = unat sz"

fun fits :: "mem_block \<Rightarrow> bool" where
  "fits (Mem k off sz) \<longleftrightarrow> unat off + unat sz \<le> 2 ^ 64"

lemma length_get_block [simp]: "length (get_block m q b) = block_size b"
  by (cases b) simp

lemma get_put_block: "length bs = block_size b \<Longrightarrow> get_block (put_block m q b bs) q b = bs"
proof (cases b)
  case (Mem k off sz)
  assume l: "length bs = block_size b"
  have "unat (of_nat i :: u64) = i" if "i < unat sz" for i
    using that unat_lt_2p64 [of sz] by (intro unat_of_nat64) linarith
  with l show ?thesis by (auto simp: Mem intro: nth_equalityI)
qed

lemma outside_block:
  assumes "apart (Mem k o1 z1) (Mem k o2 z2)" "fits (Mem k o1 z1)" "fits (Mem k o2 z2)" "i < unat z2"
  shows "\<not> unat (o2 + of_nat i - o1) < unat z1"
proof -
  have lt: "unat o2 + i < 2 ^ 64" using assms(3,4) by simp
  have i: "unat (of_nat i :: u64) = i" using lt by (intro unat_of_nat64) linarith
  have x: "unat (o2 + of_nat i) = unat o2 + i" using lt i by (simp add: unat_add_no_wrap)
  consider "unat o1 + unat z1 \<le> unat o2" | "unat o2 + unat z2 \<le> unat o1" using assms(1) by auto
  then show ?thesis
  proof cases
    case 1
    then have "o1 \<le> o2 + of_nat i" using x by (simp add: word_le_nat_alt)
    then show ?thesis using 1 x by (simp add: unat_sub)
  next
    case 2
    have "unat (o2 + of_nat i - o1) = 2 ^ 64 + (unat o2 + i) - unat o1"
      using 2 x assms(4) unat_lt_2p64 [of o1] by (subst unat_sub_if_size) (simp add: word_size word_le_nat_alt)
    then show ?thesis using 2 assms(2) by simp
  qed
qed

lemma get_put_apart:
  assumes "q = q' \<Longrightarrow> apart b c" "fits b" "fits c"
  shows "get_block (put_block m q b bs) q' c = get_block m q' c"
proof (cases b; cases c)
  fix k1 o1 z1 k2 o2 z2 assume bc: "b = Mem k1 o1 z1" "c = Mem k2 o2 z2"
  show ?thesis
  proof (cases "q = q' \<and> k1 = k2")
    case True
    then show ?thesis using outside_block [of k1 o1 z1 o2 z2] assms by (auto simp: bc)
  next
    case False
    then show ?thesis by (auto simp: bc)
  qed
qed

section \<open>Connected buffers\<close>

text \<open>A source and a target buffer, the segments they lie in, and the channel they stand for.\<close>

record 'l link =
  lk_source :: endpoint_buffer
  lk_source_segment :: segment
  lk_target :: endpoint_buffer
  lk_target_segment :: segment
  lk_chan :: "'l chan"

abbreviation src_desc :: "'l link \<Rightarrow> buffer_description" where
  "src_desc k \<equiv> ep_pLocalBufferDesc (lk_source k)"

abbreviation tgt_desc :: "'l link \<Rightarrow> buffer_description" where
  "tgt_desc k \<equiv> ep_pLocalBufferDesc (lk_target k)"

definition note_key :: "buffer_description \<Rightarrow> u16 \<times> u8 \<times> u32" where
  "note_key d = (bd_rank d, bd_segmentId d, bd_notificationId d)"

definition data_item :: "'l link \<Rightarrow> u16 \<times> request" where
  "data_item k = (bd_rank (src_desc k), write_item (src_desc k) (tgt_desc k) (bd_size (src_desc k)) 0)"

definition ack_item :: "'l link \<Rightarrow> u16 \<times> request" where
  "ack_item k = (bd_rank (tgt_desc k), notify_request (src_desc k))"

text \<open>What construction and the exchange of descriptions leave behind.\<close>

definition established :: "'l link \<Rightarrow> bool" where
  "established k \<longleftrightarrow>
     ep_isConnected (lk_source k) \<and> ep_isConnected (lk_target k) \<and>
     ep_pOtherBufferDesc (lk_source k) = tgt_desc k \<and> ep_pOtherBufferDesc (lk_target k) = src_desc k \<and>
     bf_notification (lk_source k) = bd_notificationId (src_desc k) \<and>
     bf_notification (lk_target k) = bd_notificationId (tgt_desc k) \<and>
     ucast (segment_id (lk_source_segment k)) = bd_segmentId (src_desc k) \<and>
     ucast (segment_id (lk_target_segment k)) = bd_segmentId (tgt_desc k) \<and>
     bd_size (src_desc k) \<le> bd_size (tgt_desc k) \<and>
     c_src (lk_chan k) = unat (bd_rank (src_desc k)) \<and> c_dst (lk_chan k) = unat (bd_rank (tgt_desc k))"

text \<open>
  The buffers of a collective: \<open>slots\<close> are its slots in each process, \<open>place\<close> where they lie.  Every
  buffer has a notification of its own, and different slots of a process do not overlap.
\<close>

definition wired :: "(nat \<Rightarrow> 'l link) \<Rightarrow> nat set \<Rightarrow> (u16 \<times> 'l) set \<Rightarrow> (u16 \<Rightarrow> 'l \<Rightarrow> mem_block) \<Rightarrow> bool" where
  "wired link K slots place \<longleftrightarrow>
     inj_on (\<lambda>i. lk_chan (link i)) K \<and>
     inj_on (\<lambda>i. note_key (src_desc (link i))) K \<and> inj_on (\<lambda>i. note_key (tgt_desc (link i))) K \<and>
     (\<forall>i \<in> K. \<forall>j \<in> K. note_key (src_desc (link i)) \<noteq> note_key (tgt_desc (link j))) \<and>
     (\<forall>i \<in> K. established (link i) \<and>
        (bd_rank (src_desc (link i)), c_sslot (lk_chan (link i))) \<in> slots \<and>
        (bd_rank (tgt_desc (link i)), c_dslot (lk_chan (link i))) \<in> slots \<and>
        place (bd_rank (src_desc (link i))) (c_sslot (lk_chan (link i))) = block_of (src_desc (link i)) \<and>
        place (bd_rank (tgt_desc (link i))) (c_dslot (lk_chan (link i))) =
          Mem (bd_segmentId (tgt_desc (link i))) (bd_offset (tgt_desc (link i))) (bd_size (src_desc (link i)))) \<and>
     (\<forall>q l. (q, l) \<in> slots \<longrightarrow> fits (place q l)) \<and>
     (\<forall>q l l'. (q, l) \<in> slots \<longrightarrow> (q, l') \<in> slots \<longrightarrow> l \<noteq> l' \<longrightarrow> apart (place q l) (place q l'))"

section \<open>The simulation relation\<close>

text \<open>\<open>dec\<close> reads the bytes of a slot as a value of the collective.\<close>

definition wire :: "'l link \<Rightarrow> gview \<Rightarrow> ('c, 'l, 'v) net \<Rightarrow> bool" where
  "wire k v n \<longleftrightarrow>
     pend n (lk_chan k) = count (outstanding v) (data_item k) \<and>
     apend n (lk_chan k) = count (outstanding v) (ack_item k) \<and>
     (flag n (lk_chan k) \<longleftrightarrow> noted v (note_key (tgt_desc k)) \<noteq> 0) \<and>
     (aflag n (lk_chan k) \<longleftrightarrow> noted v (note_key (src_desc k)) \<noteq> 0)"

definition represents :: "(u8 list \<Rightarrow> 'v) \<Rightarrow> (nat \<Rightarrow> 'l link) \<Rightarrow> nat set \<Rightarrow> (u16 \<times> 'l) set \<Rightarrow>
    (u16 \<Rightarrow> 'l \<Rightarrow> mem_block) \<Rightarrow> gview \<Rightarrow> ('c, 'l, 'v) net \<Rightarrow> bool" where
  "represents dec link K slots place v n \<longleftrightarrow>
     (\<forall>i \<in> K. wire (link i) v n) \<and>
     set_mset (outstanding v) \<subseteq> (\<lambda>i. data_item (link i)) ` K \<union> (\<lambda>i. ack_item (link i)) ` K \<and>
     (\<forall>q l. (q, l) \<in> slots \<longrightarrow> buf n (unat q) l = dec (get_block (cell v) q (place q l)))"

lemma representsI:
  assumes "represents dec link K slots place v n"
    "\<And>j. j \<in> K \<Longrightarrow> wire (link j) v n \<Longrightarrow> wire (link j) v' n'"
    "set_mset (outstanding v') \<subseteq> set_mset (outstanding v) \<union> ((\<lambda>i. data_item (link i)) ` K \<union> (\<lambda>i. ack_item (link i)) ` K)"
    "\<And>q l. (q, l) \<in> slots \<Longrightarrow> buf n (unat q) l = dec (get_block (cell v) q (place q l)) \<Longrightarrow>
       buf n' (unat q) l = dec (get_block (cell v') q (place q l))"
  shows "represents dec link K slots place v' n'"
  using assms unfolding represents_def by blast

fun item_key :: "u16 \<times> request \<Rightarrow> u16 \<times> u8 \<times> u32" where
  "item_key (q, WriteNotify k off rank rk roff sz nid val) = (rank, rk, nid)"
| "item_key (q, Notify rk rank nid val) = (rank, rk, nid)"

lemma item_keys: "item_key (data_item k) = note_key (tgt_desc k)" "item_key (ack_item k) = note_key (src_desc k)"
  by (simp_all add: data_item_def ack_item_def write_item_def write_request_def notify_request_def note_key_def)

lemma wired_keys:
  assumes "wired link K slots place" "i \<in> K" "j \<in> K"
  shows "note_key (tgt_desc (link i)) = note_key (tgt_desc (link j)) \<longleftrightarrow> i = j"
    "note_key (src_desc (link i)) = note_key (src_desc (link j)) \<longleftrightarrow> i = j"
    "note_key (src_desc (link i)) \<noteq> note_key (tgt_desc (link j))"
    "lk_chan (link i) = lk_chan (link j) \<longleftrightarrow> i = j"
  using assms by (auto simp: wired_def inj_on_def)

lemma wired_items:
  assumes "wired link K slots place" "i \<in> K" "j \<in> K"
  shows "data_item (link i) = data_item (link j) \<longleftrightarrow> i = j" "ack_item (link i) = ack_item (link j) \<longleftrightarrow> i = j"
    "data_item (link i) \<noteq> ack_item (link j)"
  using wired_keys [OF assms] wired_keys(3) [OF assms(1,3,2)] item_keys by metis+

lemma wired_established: "wired link K slots place \<Longrightarrow> i \<in> K \<Longrightarrow> established (link i)"
  by (simp add: wired_def)

lemma represents_post_data:
  assumes W: "wired link K slots place" and R: "represents dec link K slots place v n" and i: "i \<in> K"
  shows "represents dec link K slots place (post_one (data_item (link i)) v) (initTransfer (lk_chan (link i)) n)"
proof (rule representsI [OF R])
  fix j assume j: "j \<in> K" and w: "wire (link j) v n"
  show "wire (link j) (post_one (data_item (link i)) v) (initTransfer (lk_chan (link i)) n)"
    using w wired_items [OF W j i] wired_items(3) [OF W i j] wired_keys(4) [OF W j i]
    by (cases "j = i") (auto simp: wire_def post_one_def cnet)
qed (use i in \<open>auto simp: post_one_def cnet\<close>)

lemma represents_post_ack:
  assumes W: "wired link K slots place" and R: "represents dec link K slots place v n" and i: "i \<in> K"
  shows "represents dec link K slots place (post_one (ack_item (link i)) v) (ackTransfer (lk_chan (link i)) n)"
proof (rule representsI [OF R])
  fix j assume j: "j \<in> K" and w: "wire (link j) v n"
  show "wire (link j) (post_one (ack_item (link i)) v) (ackTransfer (lk_chan (link i)) n)"
    using w wired_items [OF W j i] wired_items(3) [OF W j i] wired_keys(4) [OF W j i]
    by (cases "j = i") (auto simp: wire_def post_one_def cnet)
qed (use i in \<open>auto simp: post_one_def cnet\<close>)

lemma represents_reset_target:
  assumes W: "wired link K slots place" and R: "represents dec link K slots place v n" and i: "i \<in> K"
  shows "represents dec link K slots place (reset_note (note_key (tgt_desc (link i))) v)
           (snd (checkForCompletion (lk_chan (link i)) n))"
    "fst (checkForCompletion (lk_chan (link i)) n) \<longleftrightarrow> noted v (note_key (tgt_desc (link i))) \<noteq> 0"
proof -
  show "represents dec link K slots place (reset_note (note_key (tgt_desc (link i))) v)
      (snd (checkForCompletion (lk_chan (link i)) n))"
  proof (rule representsI [OF R])
    fix j assume j: "j \<in> K" and w: "wire (link j) v n"
    show "wire (link j) (reset_note (note_key (tgt_desc (link i))) v) (snd (checkForCompletion (lk_chan (link i)) n))"
      using w wired_keys [OF W j i] by (cases "j = i") (auto simp: wire_def reset_note_def cnet)
  qed (auto simp: reset_note_def cnet)
  show "fst (checkForCompletion (lk_chan (link i)) n) \<longleftrightarrow> noted v (note_key (tgt_desc (link i))) \<noteq> 0"
    using R i by (simp add: represents_def wire_def cnet)
qed

lemma represents_reset_source:
  assumes W: "wired link K slots place" and R: "represents dec link K slots place v n" and i: "i \<in> K"
  shows "represents dec link K slots place (reset_note (note_key (src_desc (link i))) v)
           (snd (checkForTransferAck (lk_chan (link i)) n))"
    "fst (checkForTransferAck (lk_chan (link i)) n) \<longleftrightarrow> noted v (note_key (src_desc (link i))) \<noteq> 0"
proof -
  show "represents dec link K slots place (reset_note (note_key (src_desc (link i))) v)
      (snd (checkForTransferAck (lk_chan (link i)) n))"
  proof (rule representsI [OF R])
    fix j assume j: "j \<in> K" and w: "wire (link j) v n"
    have "note_key (tgt_desc (link j)) \<noteq> note_key (src_desc (link i))" using wired_keys(3) [OF W i j] by simp
    then show "wire (link j) (reset_note (note_key (src_desc (link i))) v) (snd (checkForTransferAck (lk_chan (link i)) n))"
      using w wired_keys [OF W j i] by (cases "j = i") (auto simp: wire_def reset_note_def cnet)
  qed (auto simp: reset_note_def cnet)
  show "fst (checkForTransferAck (lk_chan (link i)) n) \<longleftrightarrow> noted v (note_key (src_desc (link i))) \<noteq> 0"
    using R i by (simp add: represents_def wire_def cnet)
qed

definition write_cell :: "u16 \<Rightarrow> mem_block \<Rightarrow> u8 list \<Rightarrow> gview \<Rightarrow> gview" where
  "write_cell q b bs v = v\<lparr>cell := put_block (cell v) q b bs\<rparr>"

lemma slot_after_put:
  assumes W: "wired link K slots place" and "(q, l) \<in> slots" "length bs = block_size (place q l)" "(q', l') \<in> slots"
  shows "get_block (put_block m q (place q l) bs) q' (place q' l') =
    (if q' = q \<and> l' = l then bs else get_block m q' (place q' l'))"
proof (cases "q' = q \<and> l' = l")
  case True
  then show ?thesis using get_put_block [OF assms(3)] by simp
next
  case False
  have "q = q' \<Longrightarrow> apart (place q l) (place q' l')"
    using W assms(2,4) False unfolding wired_def by metis
  moreover have "fits (place q l)" "fits (place q' l')" using W assms(2,4) unfolding wired_def by metis+
  ultimately show ?thesis unfolding if_not_P [OF False] by (intro get_put_apart)
qed

lemma represents_write:
  assumes W: "wired link K slots place" and R: "represents dec link K slots place v n" and l: "(q, l) \<in> slots"
    "length bs = block_size (place q l)"
  shows "represents dec link K slots place (write_cell q (place q l) bs v)
    (set_buf (unat q) ((buf n (unat q))(l := dec bs)) n)"
proof (rule representsI [OF R])
  fix q' l' assume "(q', l') \<in> slots" "buf n (unat q') l' = dec (get_block (cell v) q' (place q' l'))"
  then show "buf (set_buf (unat q) ((buf n (unat q))(l := dec bs)) n) (unat q') l' =
      dec (get_block (cell (write_cell q (place q l) bs v)) q' (place q' l'))"
    using slot_after_put [OF W l, of q' l' "cell v"] by (auto simp: write_cell_def cnet word_unat_eq_iff)
qed (auto simp: wire_def write_cell_def cnet)

section \<open>Completion\<close>

lemma represents_complete_data:
  assumes W: "wired link K slots place" and R: "represents dec link K slots place v n" and i: "i \<in> K"
    and o: "data_item (link i) \<in># outstanding v"
  shows "represents dec link K slots place (complete (data_item (link i)) v) (deliver (lk_chan (link i)) n)"
proof (rule representsI [OF R])
  let ?s = "src_desc (link i)" and ?t = "tgt_desc (link i)" and ?c = "lk_chan (link i)"
  have noted: "noted (complete (data_item (link i)) v) = (noted v)(note_key ?t := 1)" and
    out: "outstanding (complete (data_item (link i)) v) = outstanding v - {#data_item (link i)#}"
    by (simp_all add: data_item_def write_item_def write_request_def notify_request_def note_key_def)
  then show "set_mset (outstanding (complete (data_item (link i)) v)) \<subseteq>
      set_mset (outstanding v) \<union> ((\<lambda>i. data_item (link i)) ` K \<union> (\<lambda>i. ack_item (link i)) ` K)"
    by (auto dest: in_diffD)
  show "wire (link j) (complete (data_item (link i)) v) (deliver ?c n)" if "j \<in> K" "wire (link j) v n" for j
    using that(2) wired_items [OF W that(1) i] wired_items(3) [OF W i that(1)] wired_keys [OF W that(1) i] o
    by (cases "j = i") (auto simp: wire_def noted out cnet)
  have E: "c_src ?c = unat (bd_rank ?s)" "c_dst ?c = unat (bd_rank ?t)"
    using wired_established [OF W i] by (simp_all add: established_def)
  have P: "(bd_rank ?s, c_sslot ?c) \<in> slots" "(bd_rank ?t, c_dslot ?c) \<in> slots"
    "place (bd_rank ?s) (c_sslot ?c) = block_of ?s"
    "place (bd_rank ?t) (c_dslot ?c) = Mem (bd_segmentId ?t) (bd_offset ?t) (bd_size ?s)"
    using W i by (simp_all add: wired_def)
  let ?bs = "get_block (cell v) (bd_rank ?s) (block_of ?s)"
  have src: "buf n (c_src ?c) (c_sslot ?c) = dec ?bs" using R P by (simp add: represents_def E)
  have len: "length ?bs = block_size (place (bd_rank ?t) (c_dslot ?c))" by (simp add: P block_of_def)
  have get: "get_block (cell (complete (data_item (link i)) v)) q (place q l) =
      get_block (put_block (cell v) (bd_rank ?t) (place (bd_rank ?t) (c_dslot ?c)) ?bs) q (place q l)" for q l
    by (cases "bd_size ?s = 0")
      (simp_all add: data_item_def write_item_def write_request_def notify_request_def P block_of_def word_gt_0)
  fix q l assume "(q, l) \<in> slots" "buf n (unat q) l = dec (get_block (cell v) q (place q l))"
  then show "buf (deliver ?c n) (unat q) l = dec (get_block (cell (complete (data_item (link i)) v)) q (place q l))"
    using slot_after_put [OF W P(2) len, of q l "cell v"] src by (auto simp: get E cnet word_unat_eq_iff)
qed

lemma represents_complete_ack:
  assumes W: "wired link K slots place" and R: "represents dec link K slots place v n" and i: "i \<in> K"
    and o: "ack_item (link i) \<in># outstanding v"
  shows "represents dec link K slots place (complete (ack_item (link i)) v) (deliver_ack (lk_chan (link i)) n)"
proof (rule representsI [OF R])
  have noted: "noted (complete (ack_item (link i)) v) = (noted v)(note_key (src_desc (link i)) := 1)" and
    out: "outstanding (complete (ack_item (link i)) v) = outstanding v - {#ack_item (link i)#}" and
    cell: "cell (complete (ack_item (link i)) v) = cell v"
    by (simp_all add: ack_item_def notify_request_def note_key_def)
  then show "set_mset (outstanding (complete (ack_item (link i)) v)) \<subseteq>
      set_mset (outstanding v) \<union> ((\<lambda>i. data_item (link i)) ` K \<union> (\<lambda>i. ack_item (link i)) ` K)"
    by (auto dest: in_diffD)
  show "wire (link j) (complete (ack_item (link i)) v) (deliver_ack (lk_chan (link i)) n)" if "j \<in> K" "wire (link j) v n" for j
    using that(2) wired_items [OF W that(1) i] wired_keys [OF W that(1) i] wired_keys(3) [OF W i that(1)] o
    by (cases "j = i") (auto simp: wire_def noted out cnet)
qed (simp add: ack_item_def notify_request_def cnet)

lemma represents_completes:
  assumes W: "wired link K slots place" and R: "represents dec link K slots place v n" and c: "completes v v'"
  shows "\<exists>n'. any_env n n' \<and> represents dec link K slots place v' n'"
proof -
  obtain x where x: "x \<in># outstanding v" "v' = complete x v" using c by (auto simp: completes_def)
  then consider i where "i \<in> K" "x = data_item (link i)" | i where "i \<in> K" "x = ack_item (link i)"
    using R by (auto simp: represents_def)
  then show ?thesis
  proof cases
    case (1 i)
    have "0 < pend n (lk_chan (link i))" using R x 1 by (simp add: represents_def wire_def)
    then show ?thesis using represents_complete_data [OF W R 1(1)] x 1 unfolding any_env_def by blast
  next
    case (2 i)
    have "0 < apend n (lk_chan (link i))" using R x 2 by (simp add: represents_def wire_def)
    then show ?thesis using represents_complete_ack [OF W R 2(1)] x 2 unfolding any_env_def by blast
  qed
qed

lemma represents_moves:
  assumes W: "wired link K slots place" and m: "moves v v'" and R: "represents dec link K slots place v n"
  shows "\<exists>n'. any_env\<^sup>*\<^sup>* n n' \<and> represents dec link K slots place v' n'"
  using m
proof induction
  case base
  then show ?case using R by blast
next
  case (step u w)
  then show ?case using represents_completes [OF W] by (meson rtranclp.rtrancl_into_rtrancl)
qed

section \<open>Runs\<close>

datatype 'l transfer_event =
    Transfer nat
  | Completion nat bool
  | Ack nat
  | TransferAck nat bool
  | Store u16 'l "u8 list"
  | Throws

text \<open>
  The operations of the buffers on the library.  \<open>put\<close> is a process writing to its own memory;
  without an event the library completes requests.
\<close>

inductive library_step :: "(u16 \<Rightarrow> 's segment_api) \<Rightarrow> ('s \<Rightarrow> gview) \<Rightarrow> (u16 \<Rightarrow> mem_block \<Rightarrow> u8 list \<Rightarrow> 's \<Rightarrow> 's) \<Rightarrow>
    (nat \<Rightarrow> 'l link) \<Rightarrow> nat set \<Rightarrow> (u16 \<times> 'l) set \<Rightarrow> (u16 \<Rightarrow> 'l \<Rightarrow> mem_block) \<Rightarrow>
    (u16 \<Rightarrow> comm_context) \<times> 's \<Rightarrow> 'l transfer_event option \<Rightarrow> (u16 \<Rightarrow> comm_context) \<times> 's \<Rightarrow> bool"
  for api view put link K slots place where
  initTransfer: "i \<in> K \<Longrightarrow> q = bd_rank (src_desc (link i)) \<Longrightarrow>
    src_initTransfer (comm_writePart (api q)) (lk_source (link i)) = Some call \<Longrightarrow>
    call (ctx q, s) = Some (r, C, s1) \<Longrightarrow>
    library_step api view put link K slots place (ctx, s) (Some (if r = Inr () then Transfer i else Throws)) (ctx(q := C), s1)"
| checkForCompletion: "i \<in> K \<Longrightarrow> q = bd_rank (tgt_desc (link i)) \<Longrightarrow>
    tgt_checkForCompletion (api q) (lk_target_segment (link i)) (lk_target (link i)) = Some call \<Longrightarrow>
    call s = (r, s1) \<Longrightarrow>
    library_step api view put link K slots place (ctx, s) (Some (case r of Inl e \<Rightarrow> Throws | Inr b \<Rightarrow> Completion i b)) (ctx, s1)"
| waitForCompletion: "i \<in> K \<Longrightarrow> q = bd_rank (tgt_desc (link i)) \<Longrightarrow>
    tgt_waitForCompletion (api q) (lk_target_segment (link i)) (lk_target (link i)) = Some call \<Longrightarrow>
    call s = (r, s1) \<Longrightarrow>
    library_step api view put link K slots place (ctx, s) (Some (case r of Inl e \<Rightarrow> Throws | Inr b \<Rightarrow> Completion i b)) (ctx, s1)"
| ackTransfer: "i \<in> K \<Longrightarrow> q = bd_rank (tgt_desc (link i)) \<Longrightarrow>
    tgt_ackTransfer (comm_notify (api q)) (lk_target (link i)) = Some call \<Longrightarrow>
    call (ctx q, s) = Some (r, C, s1) \<Longrightarrow>
    library_step api view put link K slots place (ctx, s) (Some (if r = Inr () then Ack i else Throws)) (ctx(q := C), s1)"
| checkForTransferAck: "i \<in> K \<Longrightarrow> q = bd_rank (src_desc (link i)) \<Longrightarrow>
    src_checkForTransferAck (api q) (lk_source_segment (link i)) (lk_source (link i)) = Some call \<Longrightarrow>
    call s = (r, s1) \<Longrightarrow>
    library_step api view put link K slots place (ctx, s) (Some (case r of Inl e \<Rightarrow> Throws | Inr b \<Rightarrow> TransferAck i b)) (ctx, s1)"
| waitForTransferAck: "i \<in> K \<Longrightarrow> q = bd_rank (src_desc (link i)) \<Longrightarrow>
    src_waitForTransferAck (api q) (lk_source_segment (link i)) (lk_source (link i)) = Some call \<Longrightarrow>
    call s = (r, s1) \<Longrightarrow>
    library_step api view put link K slots place (ctx, s) (Some (case r of Inl e \<Rightarrow> Throws | Inr b \<Rightarrow> TransferAck i b)) (ctx, s1)"
| storing: "(q, l) \<in> slots \<Longrightarrow> length bs = block_size (place q l) \<Longrightarrow>
    library_step api view put link K slots place (ctx, s) (Some (Store q l bs)) (ctx, put q (place q l) bs s)"
| background: "moves (view s) (view s1) \<Longrightarrow> library_step api view put link K slots place (ctx, s) None (ctx, s1)"

text \<open>The operations of the network.\<close>

inductive network_step :: "(u8 list \<Rightarrow> 'v) \<Rightarrow> (nat \<Rightarrow> 'l link) \<Rightarrow>
    ('c, 'l, 'v) net \<Rightarrow> 'l transfer_event option \<Rightarrow> ('c, 'l, 'v) net \<Rightarrow> bool" for dec link where
  "network_step dec link n (Some (Transfer i)) (initTransfer (lk_chan (link i)) n)"
| "checkForCompletion (lk_chan (link i)) n = (b, n1) \<Longrightarrow> network_step dec link n (Some (Completion i b)) n1"
| "network_step dec link n (Some (Ack i)) (ackTransfer (lk_chan (link i)) n)"
| "checkForTransferAck (lk_chan (link i)) n = (b, n1) \<Longrightarrow> network_step dec link n (Some (TransferAck i b)) n1"
| "network_step dec link n (Some (Store q l bs)) (set_buf (unat q) ((buf n (unat q))(l := dec bs)) n)"
| "network_step dec link n (Some Throws) n"
| "any_env n n1 \<Longrightarrow> network_step dec link n None n1"

text \<open>A run with the list of its events.\<close>

inductive run_of :: "('s \<Rightarrow> 'e option \<Rightarrow> 's \<Rightarrow> bool) \<Rightarrow> 's \<Rightarrow> 'e list \<Rightarrow> 's \<Rightarrow> bool" for step s where
  run_start: "run_of step s [] s"
| run_silent: "run_of step s es t \<Longrightarrow> step t None u \<Longrightarrow> run_of step s es u"
| run_event: "run_of step s es t \<Longrightarrow> step t (Some e) u \<Longrightarrow> run_of step s (es @ [e]) u"

lemma run_env: "any_env\<^sup>*\<^sup>* n n' \<Longrightarrow> run_of (network_step dec link) m es n \<Longrightarrow> run_of (network_step dec link) m es n'"
  by (induction rule: rtranclp_induct) (auto intro: run_silent network_step.intros)

subsection \<open>Testing a notification\<close>

definition tested :: "u16 \<times> u8 \<times> u32 \<Rightarrow> bool res \<Rightarrow> gview \<Rightarrow> gview \<Rightarrow> bool" where
  "tested key r v v' \<longleftrightarrow> (case r of
     Inl e \<Rightarrow> moves v v'
   | Inr b \<Rightarrow> \<exists>u. moves v u \<and> (b \<longleftrightarrow> noted u key \<noteq> 0) \<and> moves (reset_note key u) v')"

lemma reset_zero: "noted u key = 0 \<Longrightarrow> reset_note key u = u"
  by (cases u) (auto simp: reset_note_def)

lemma tested_before: "moves v w \<Longrightarrow> tested key r w v' \<Longrightarrow> tested key r v v'"
  by (cases r) (auto simp: tested_def intro: rtranclp_trans)

lemma reset_tested:
  assumes C: "library_contract api view room"
    and c: "act_bind (gaspi_checked_out G (gaspi_notify_reset (api q) k i)) (\<lambda>val. act_return (val \<noteq> 0)) s = (r, s1)"
  shows "tested (q, k, i) r (view s) (view s1)"
proof -
  obtain ret val s2 where p: "gaspi_notify_reset (api q) k i s = ((ret, val), s2)" by (metis surj_pair)
  then show ?thesis using contract_reset [OF C p] c
    by (cases "ret = GASPI_SUCCESS") (auto simp: act_bind_apply gaspi_checked_out_eq tested_def)
qed

lemma check_tested:
  assumes C: "library_contract api view room" and c: "bf_checkForNotification (api q) S e s = (r, s1)"
  shows "tested (q, ucast (segment_id S), bf_notification e) r (view s) (view s1)"
proof -
  obtain ret j s2 where p: "gaspi_notify_waitsome (api q) (ucast (segment_id S)) (bf_notification e) 1 GASPI_TEST s = ((ret, j), s2)"
    by (metis surj_pair)
  note w = contract_waitsome [OF C p]
  consider "ret = GASPI_SUCCESS" | "ret = GASPI_TIMEOUT" | "ret \<noteq> GASPI_SUCCESS" "ret \<noteq> GASPI_TIMEOUT" by blast
  then show ?thesis
  proof cases
    case 1
    then have "act_bind (gaspi_checked_out (api q) (gaspi_notify_reset (api q) (ucast (segment_id S)) (bf_notification e)))
        (\<lambda>val. act_return (val \<noteq> 0)) s2 = (r, s1)"
      using c p w(2) by (simp add: bf_checkForNotification_def)
    from tested_before [OF w(1) reset_tested [OF C this]] show ?thesis .
  next
    case 2
    then have "r = Inr False" "s1 = s2" using c p by (simp_all add: bf_checkForNotification_def)
    then show ?thesis using w(3) [OF 2] reset_zero by (auto simp: tested_def)
  next
    case 3
    then show ?thesis using c p w(1)
      by (auto simp: bf_checkForNotification_def act_bind_apply gaspi_check_eq tested_def)
  qed
qed

lemma wait_tested:
  assumes C: "library_contract api view room" and c: "bf_waitForNotification (api q) S e s = (r, s1)"
  shows "tested (q, ucast (segment_id S), bf_notification e) r (view s) (view s1)"
proof -
  obtain ret j s2 where p: "gaspi_notify_waitsome (api q) (ucast (segment_id S)) (bf_notification e) 1 GASPI_BLOCK s = ((ret, j), s2)"
    by (metis surj_pair)
  note w = contract_waitsome [OF C p]
  show ?thesis
  proof (cases "ret = GASPI_SUCCESS")
    case True
    then have "act_bind (gaspi_checked_out (api q) (gaspi_notify_reset (api q) (ucast (segment_id S)) (bf_notification e)))
        (\<lambda>val. act_return (val \<noteq> 0)) s2 = (r, s1)"
      using c p w(2) by (simp add: bf_waitForNotification_def act_bind_apply gaspi_checked_out_eq)
    from tested_before [OF w(1) reset_tested [OF C this]] show ?thesis .
  next
    case False
    then show ?thesis using c p w(1)
      by (auto simp: bf_waitForNotification_def act_bind_apply gaspi_checked_out_eq tested_def)
  qed
qed

section \<open>Simulation\<close>

definition store_contract :: "('s \<Rightarrow> gview) \<Rightarrow> (u16 \<Rightarrow> mem_block \<Rightarrow> u8 list \<Rightarrow> 's \<Rightarrow> 's) \<Rightarrow> bool" where
  "store_contract view put \<longleftrightarrow> (\<forall>q b bs s. length bs = block_size b \<longrightarrow>
     around (write_cell q b bs) (view s) (view (put q b bs s)))"

text \<open>An operation of the library, with completions before and after it, against one of the network.\<close>

lemma simulate_around:
  fixes n m :: "('c, 'l, 'v) net"
  assumes W: "wired link K slots place" and R: "represents dec link K slots place v n"
    and run: "run_of (network_step dec link) m es n" and a: "around f v v'"
    and f: "\<And>u (n :: ('c, 'l, 'v) net). moves v u \<Longrightarrow> represents dec link K slots place u n \<Longrightarrow>
      \<exists>n1. network_step dec link n (Some e) n1 \<and> represents dec link K slots place (f u) n1"
  shows "\<exists>n'. run_of (network_step dec link) m (es @ [e]) n' \<and> represents dec link K slots place v' n'"
proof -
  obtain u where u: "moves v u" "moves (f u) v'" using a by (auto simp: around_def)
  obtain n1 where n1: "any_env\<^sup>*\<^sup>* n n1" "represents dec link K slots place u n1"
    using represents_moves [OF W u(1) R] by blast
  obtain n2 where n2: "network_step dec link n1 (Some e) n2" "represents dec link K slots place (f u) n2"
    using f [OF u(1) n1(2)] by blast
  obtain n3 where n3: "any_env\<^sup>*\<^sup>* n2 n3" "represents dec link K slots place v' n3"
    using represents_moves [OF W u(2) n2(2)] by blast
  have "run_of (network_step dec link) m (es @ [e]) n3"
    by (rule run_env [OF n3(1) run_event [OF run_env [OF n1(1) run] n2(1)]])
  then show ?thesis using n3(2) by blast
qed

lemma simulate_throw:
  fixes n m :: "('c, 'l, 'v) net"
  assumes "wired link K slots place" "represents dec link K slots place v n"
    "run_of (network_step dec link) m es n" "moves v v'"
  shows "\<exists>n'. run_of (network_step dec link) m (es @ [Throws]) n' \<and> represents dec link K slots place v' n'"
  by (rule simulate_around [OF assms(1-3), where f = id]) (use assms(4) in \<open>auto intro: network_step.intros\<close>)

lemma simulate_post:
  fixes n m :: "('c, 'l, 'v) net"
  assumes W: "wired link K slots place" and R: "represents dec link K slots place v n"
    and run: "run_of (network_step dec link) m es n" and p: "posts x r v v'"
    and f: "\<And>u (n :: ('c, 'l, 'v) net). represents dec link K slots place u n \<Longrightarrow>
      \<exists>n1. network_step dec link n (Some e) n1 \<and> represents dec link K slots place (post_one x u) n1"
  shows "\<exists>n'. run_of (network_step dec link) m (es @ [if r = Inr () then e else Throws]) n' \<and>
    represents dec link K slots place v' n'"
proof (cases "r = Inr ()")
  case True
  then show ?thesis using simulate_around [OF W R run, of "post_one x" v' e, OF _ f] p by (simp add: posts_def)
next
  case False
  then show ?thesis using simulate_throw [OF W R run] p by (simp add: posts_def)
qed

lemma simulate_test:
  fixes n m :: "('c, 'l, 'v) net"
  assumes W: "wired link K slots place" and R: "represents dec link K slots place v n"
    and run: "run_of (network_step dec link) m es n" and p: "tested key r v v'"
    and f: "\<And>u (n :: ('c, 'l, 'v) net). represents dec link K slots place u n \<Longrightarrow>
      \<exists>n1. network_step dec link n (Some (e (noted u key \<noteq> 0))) n1 \<and> represents dec link K slots place (reset_note key u) n1"
  shows "\<exists>n'. run_of (network_step dec link) m (es @ [case r of Inl _ \<Rightarrow> Throws | Inr b \<Rightarrow> e b]) n' \<and>
    represents dec link K slots place v' n'"
proof (cases r)
  case (Inl x)
  then show ?thesis using simulate_throw [OF W R run] p by (simp add: tested_def)
next
  case (Inr b)
  obtain u where u: "moves v u" "b \<longleftrightarrow> noted u key \<noteq> 0" "moves (reset_note key u) v'"
    using p Inr by (auto simp: tested_def)
  obtain n1 where n1: "any_env\<^sup>*\<^sup>* n n1" "represents dec link K slots place u n1"
    using represents_moves [OF W u(1) R] by blast
  have "\<exists>n'. run_of (network_step dec link) m (es @ [e b]) n' \<and> represents dec link K slots place v' n'"
  proof -
    obtain n2 where n2: "network_step dec link n1 (Some (e b)) n2" "represents dec link K slots place (reset_note key u) n2"
      using f [OF n1(2)] u(2) by auto
    obtain n3 where n3: "any_env\<^sup>*\<^sup>* n2 n3" "represents dec link K slots place v' n3"
      using represents_moves [OF W u(3) n2(2)] by blast
    show ?thesis using run_env [OF n3(1) run_event [OF run_env [OF n1(1) run] n2(1)]] n3(2) by blast
  qed
  then show ?thesis by (simp add: Inr)
qed

text \<open>The four operations.\<close>

lemma simulate_data:
  assumes "wired link K slots place" "represents dec link K slots place u n" "i \<in> K"
  shows "\<exists>n1. network_step dec link n (Some (Transfer i)) n1 \<and>
    represents dec link K slots place (post_one (data_item (link i)) u) n1"
  using represents_post_data [OF assms] network_step.intros(1) by blast

lemma simulate_ack:
  assumes "wired link K slots place" "represents dec link K slots place u n" "i \<in> K"
  shows "\<exists>n1. network_step dec link n (Some (Ack i)) n1 \<and>
    represents dec link K slots place (post_one (ack_item (link i)) u) n1"
  using represents_post_ack [OF assms] network_step.intros(3) by blast

lemma simulate_completion:
  assumes "wired link K slots place" "represents dec link K slots place u n" "i \<in> K"
  shows "\<exists>n1. network_step dec link n (Some (Completion i (noted u (note_key (tgt_desc (link i))) \<noteq> 0))) n1 \<and>
    represents dec link K slots place (reset_note (note_key (tgt_desc (link i))) u) n1"
proof (cases "checkForCompletion (lk_chan (link i)) n")
  case (Pair b n1)
  show ?thesis
    using network_step.intros(2) [where link = link and i = i, OF Pair] represents_reset_target [OF assms, unfolded Pair prod.sel] by auto
qed

lemma simulate_transfer_ack:
  assumes "wired link K slots place" "represents dec link K slots place u n" "i \<in> K"
  shows "\<exists>n1. network_step dec link n (Some (TransferAck i (noted u (note_key (src_desc (link i))) \<noteq> 0))) n1 \<and>
    represents dec link K slots place (reset_note (note_key (src_desc (link i))) u) n1"
proof (cases "checkForTransferAck (lk_chan (link i)) n")
  case (Pair b n1)
  show ?thesis
    using network_step.intros(4) [where link = link and i = i, OF Pair] represents_reset_source [OF assms, unfolded Pair prod.sel] by auto
qed

lemma established_keys:
  assumes "established k"
  shows "(bd_rank (tgt_desc k), ucast (segment_id (lk_target_segment k)), bf_notification (lk_target k)) = note_key (tgt_desc k)"
    "(bd_rank (src_desc k), ucast (segment_id (lk_source_segment k)), bf_notification (lk_source k)) = note_key (src_desc k)"
  using assms by (simp_all add: established_def note_key_def)

lemma tested_target:
  assumes W: "wired link K slots place" and i: "i \<in> K" and C: "library_contract api view room"
    and f: "bf_checkForNotification (api (bd_rank (tgt_desc (link i)))) (lk_target_segment (link i)) (lk_target (link i)) s = (r, s1) \<or>
      bf_waitForNotification (api (bd_rank (tgt_desc (link i)))) (lk_target_segment (link i)) (lk_target (link i)) s = (r, s1)"
  shows "tested (note_key (tgt_desc (link i))) r (view s) (view s1)"
  using f check_tested [OF C] wait_tested [OF C] established_keys [OF wired_established [OF W i]] by metis

lemma tested_source:
  assumes W: "wired link K slots place" and i: "i \<in> K" and C: "library_contract api view room"
    and f: "bf_checkForNotification (api (bd_rank (src_desc (link i)))) (lk_source_segment (link i)) (lk_source (link i)) s = (r, s1) \<or>
      bf_waitForNotification (api (bd_rank (src_desc (link i)))) (lk_source_segment (link i)) (lk_source (link i)) s = (r, s1)"
  shows "tested (note_key (src_desc (link i))) r (view s) (view s1)"
  using f check_tested [OF C] wait_tested [OF C] established_keys [OF wired_established [OF W i]] by metis

lemma asserted_Some: "asserted e r = Some x \<longleftrightarrow> ep_isConnected e \<and> x = r"
  by (auto simp: asserted_def)

lemmas test_ops = tgt_checkForCompletion_def tgt_waitForCompletion_def src_checkForTransferAck_def
  src_waitForTransferAck_def asserted_Some

text \<open>The two posting operations return, and post what the channel's item is.\<close>

lemma source_posts:
  assumes W: "wired link K slots place" and i: "i \<in> K" and C: "library_contract api view room" and ok: "comm_ok C0"
  shows "\<exists>call r C1 s1. src_initTransfer (comm_writePart (api (bd_rank (src_desc (link i))))) (lk_source (link i)) = Some call \<and>
    call (C0, s) = Some (r, C1, s1) \<and> comm_ok C1 \<and> posts (data_item (link i)) r (view s) (view s1)"
proof -
  note E = wired_established [OF W i, unfolded established_def]
  show ?thesis
    using runtime_context.source_initTransfer [OF C ok, of "lk_source (link i)" "bd_rank (src_desc (link i))" s] E
    by (simp add: data_item_def)
qed

lemma target_posts:
  assumes W: "wired link K slots place" and i: "i \<in> K" and C: "library_contract api view room" and ok: "comm_ok C0"
  shows "\<exists>call r C1 s1. tgt_ackTransfer (comm_notify (api (bd_rank (tgt_desc (link i))))) (lk_target (link i)) = Some call \<and>
    call (C0, s) = Some (r, C1, s1) \<and> comm_ok C1 \<and> posts (ack_item (link i)) r (view s) (view s1)"
proof -
  note E = wired_established [OF W i, unfolded established_def]
  show ?thesis
    using runtime_context.target_ackTransfer [OF C ok, of "lk_target (link i)" "bd_rank (tgt_desc (link i))" s] E
    by (simp add: ack_item_def)
qed

definition event_list :: "'e option \<Rightarrow> 'e list" where
  "event_list e = (case e of None \<Rightarrow> [] | Some x \<Rightarrow> [x])"

lemma event_list_simps [simp]: "event_list None = []" "event_list (Some x) = [x]"
  by (simp_all add: event_list_def)

lemma simulate_step:
  fixes n m :: "('c, 'd, 'e) net"
  assumes C: "library_contract api view room" and W: "wired link K slots place" and S: "store_contract view put"
    and step: "library_step api view put link K slots place (ctx, s) e (ctx1, s1)"
    and ok: "\<forall>q. comm_ok (ctx q)" and R: "represents dec link K slots place (view s) n"
    and run: "run_of (network_step dec link) m es n"
  shows "(\<forall>q. comm_ok (ctx1 q)) \<and>
    (\<exists>n'. run_of (network_step dec link) m (es @ event_list e) n' \<and> represents dec link K slots place (view s1) n')"
  using step
proof cases
  case (initTransfer i q call r C1)
  obtain call' r' C' s' where p: "src_initTransfer (comm_writePart (api q)) (lk_source (link i)) = Some call'"
    "call' (ctx q, s) = Some (r', C', s')" "comm_ok C'" "posts (data_item (link i)) r' (view s) (view s')"
    using source_posts [OF W initTransfer(3) C, of "ctx q" s] ok initTransfer(4) by blast
  then have e: "posts (data_item (link i)) r (view s) (view s1)" "comm_ok C1" using initTransfer by auto
  show ?thesis
    using simulate_post [OF W R run e(1) simulate_data [OF W _ initTransfer(3)]] ok e(2) initTransfer by simp
next
  case (ackTransfer i q call r C1)
  obtain call' r' C' s' where p: "tgt_ackTransfer (comm_notify (api q)) (lk_target (link i)) = Some call'"
    "call' (ctx q, s) = Some (r', C', s')" "comm_ok C'" "posts (ack_item (link i)) r' (view s) (view s')"
    using target_posts [OF W ackTransfer(3) C, of "ctx q" s] ok ackTransfer(4) by blast
  then have e: "posts (ack_item (link i)) r (view s) (view s1)" "comm_ok C1" using ackTransfer by auto
  show ?thesis
    using simulate_post [OF W R run e(1) simulate_ack [OF W _ ackTransfer(3)]] ok e(2) ackTransfer by simp
next
  case (checkForCompletion i q call r)
  have t: "tested (note_key (tgt_desc (link i))) r (view s) (view s1)"
    using checkForCompletion by (intro tested_target [OF W _ C]) (auto simp: test_ops)
  show ?thesis
    using simulate_test [OF W R run t simulate_completion [OF W _ checkForCompletion(3)]] ok checkForCompletion by simp
next
  case (waitForCompletion i q call r)
  have t: "tested (note_key (tgt_desc (link i))) r (view s) (view s1)"
    using waitForCompletion by (intro tested_target [OF W _ C]) (auto simp: test_ops)
  show ?thesis
    using simulate_test [OF W R run t simulate_completion [OF W _ waitForCompletion(3)]] ok waitForCompletion by simp
next
  case (checkForTransferAck i q call r)
  have t: "tested (note_key (src_desc (link i))) r (view s) (view s1)"
    using checkForTransferAck by (intro tested_source [OF W _ C]) (auto simp: test_ops)
  show ?thesis
    using simulate_test [OF W R run t simulate_transfer_ack [OF W _ checkForTransferAck(3)]] ok checkForTransferAck by simp
next
  case (waitForTransferAck i q call r)
  have t: "tested (note_key (src_desc (link i))) r (view s) (view s1)"
    using waitForTransferAck by (intro tested_source [OF W _ C]) (auto simp: test_ops)
  show ?thesis
    using simulate_test [OF W R run t simulate_transfer_ack [OF W _ waitForTransferAck(3)]] ok waitForTransferAck by simp
next
  case (storing q l bs)
  have a: "around (write_cell q (place q l) bs) (view s) (view s1)"
    using S storing unfolding store_contract_def by metis
  have "\<exists>n'. run_of (network_step dec link) m (es @ [Store q l bs]) n' \<and> represents dec link K slots place (view s1) n'"
  proof (rule simulate_around [OF W R run a])
    fix u and n :: "('c, 'd, 'e) net" assume "represents dec link K slots place u n"
    from represents_write [OF W this storing(4,5)]
    show "\<exists>n1. network_step dec link n (Some (Store q l bs)) n1 \<and>
        represents dec link K slots place (write_cell q (place q l) bs u) n1"
      by (intro exI conjI) (rule network_step.intros(5))
  qed
  then show ?thesis using ok storing by simp
next
  case background
  obtain n' where n': "any_env\<^sup>*\<^sup>* n n'" "represents dec link K slots place (view s1) n'"
    using represents_moves [OF W background(3) R] by blast
  have "run_of (network_step dec link) m es n'" by (rule run_env [OF n'(1) run])
  then have "\<exists>n'. run_of (network_step dec link) m es n' \<and> represents dec link K slots place (view s1) n'"
    using n'(2) by blast
  then show ?thesis using ok background(1,2) by simp
qed

lemma simulate_run:
  fixes n0 :: "('c, 'd, 'e) net"
  assumes C: "library_contract api view room" and S: "store_contract view put" and W: "wired link K slots place"
    and run: "run_of (library_step api view put link K slots place) (ctx0, s0) es cs"
    and ok: "\<forall>q. comm_ok (ctx0 q)" and R: "represents dec link K slots place (view s0) n0"
  shows "(\<forall>q. comm_ok (fst cs q)) \<and>
    (\<exists>n. run_of (network_step dec link) n0 es n \<and> represents dec link K slots place (view (snd cs)) n)"
  using run
proof induction
  case run_start
  then show ?case using ok R by (auto intro: run_of.run_start)
next
  case (run_silent es cs cs1)
  then obtain n where n: "run_of (network_step dec link) n0 es n" "represents dec link K slots place (view (snd cs)) n"
    and o: "\<forall>q. comm_ok (fst cs q)" by blast
  have "library_step api view put link K slots place (fst cs, snd cs) None (fst cs1, snd cs1)"
    using run_silent(2) by simp
  from simulate_step [OF C W S this o n(2,1)] show ?case by simp
next
  case (run_event es cs e cs1)
  then obtain n where n: "run_of (network_step dec link) n0 es n" "represents dec link K slots place (view (snd cs)) n"
    and o: "\<forall>q. comm_ok (fst cs q)" by blast
  have "library_step api view put link K slots place (fst cs, snd cs) (Some e) (fst cs1, snd cs1)"
    using run_event(2) by simp
  from simulate_step [OF C W S this o n(2,1)] show ?case by simp
qed

section \<open>Properties\<close>

text \<open>
  Property C13: the network of the collectives is what the buffers do.  Let the buffers of a
  collective be connected in pairs and lie apart, and the network represent the library's state.
  Whatever the processes do with \<open>initTransfer\<close>, \<open>checkForCompletion\<close>, \<open>waitForCompletion\<close>,
  \<open>ackTransfer\<close>, \<open>checkForTransferAck\<close>, \<open>waitForTransferAck\<close> and their own memory, over either kind of
  communication context, and whenever the library completes the requests, the network can do the
  same operations with the same results and represents the state that is reached; and there both
  posting operations of every pair return.
\<close>

theorem transfers_refine:
  fixes n0 :: "('c, 'd, 'e) net"
  assumes "library_contract api view room" "store_contract view put" "wired link K slots place"
    "\<forall>q. comm_ok (ctx0 q)" "represents dec link K slots place (view s0) n0"
    "run_of (library_step api view put link K slots place) (ctx0, s0) es (ctx, s)"
  shows "(\<exists>n. run_of (network_step dec link) n0 es n \<and> represents dec link K slots place (view s) n) \<and>
    (\<forall>i \<in> K. \<exists>e \<in> {Transfer i, Throws}. \<exists>cs1. library_step api view put link K slots place (ctx, s) (Some e) cs1) \<and>
    (\<forall>i \<in> K. \<exists>e \<in> {Ack i, Throws}. \<exists>cs1. library_step api view put link K slots place (ctx, s) (Some e) cs1)"
proof (intro conjI ballI)
  note sim = simulate_run [OF assms(1-3,6,4,5)]
  show "\<exists>n. run_of (network_step dec link) n0 es n \<and> represents dec link K slots place (view s) n"
    using sim by simp
  have ok: "comm_ok (ctx q)" for q using sim by simp
  fix i assume i: "i \<in> K"
  obtain call r C1 s1 where "src_initTransfer (comm_writePart (api (bd_rank (src_desc (link i))))) (lk_source (link i)) = Some call"
    "call (ctx (bd_rank (src_desc (link i))), s) = Some (r, C1, s1)"
    using source_posts [OF assms(3) i assms(1) ok] by blast
  from library_step.initTransfer [where ctx = ctx and link = link and api = api, OF i refl this, of view put slots place]
  show "\<exists>e \<in> {Transfer i, Throws}. \<exists>cs1. library_step api view put link K slots place (ctx, s) (Some e) cs1"
    by (cases "r = Inr ()") auto
  obtain call r C1 s1 where "tgt_ackTransfer (comm_notify (api (bd_rank (tgt_desc (link i))))) (lk_target (link i)) = Some call"
    "call (ctx (bd_rank (tgt_desc (link i))), s) = Some (r, C1, s1)"
    using target_posts [OF assms(3) i assms(1) ok] by blast
  from library_step.ackTransfer [where ctx = ctx and link = link and api = api, OF i refl this, of view put slots place]
  show "\<exists>e \<in> {Ack i, Throws}. \<exists>cs1. library_step api view put link K slots place (ctx, s) (Some e) cs1"
    by (cases "r = Inr ()") auto
qed

text \<open>Two processes: the first stores two bytes and transfers them, the second sees the completion.\<close>

definition demo_lib :: "u16 \<Rightarrow> gview segment_api" where
  "demo_lib q =
     \<lparr>gaspi_error_str = (\<lambda>_. ''error''),
      gaspi_queue_create = (\<lambda>_ s. ((GASPI_SUCCESS, 0), s)),
      gaspi_queue_delete = (\<lambda>_ s. (GASPI_SUCCESS, s)),
      gaspi_queue_num = (\<lambda>s. ((GASPI_SUCCESS, 1), s)),
      gaspi_queue_max = (\<lambda>s. ((GASPI_SUCCESS, 16), s)),
      gaspi_wait = (\<lambda>qu _ s. (GASPI_SUCCESS, s)),
      gaspi_post = (\<lambda>r qu _ s. (GASPI_SUCCESS, post_one (q, r) s)),
      gaspi_notify_waitsome = (\<lambda>k i _ _ s. ((if noted s (q, k, i) = 0 then GASPI_TIMEOUT else GASPI_SUCCESS, i), s)),
      gaspi_notify_reset = (\<lambda>k i s. ((GASPI_SUCCESS, noted s (q, k, i)), reset_note (q, k, i) s)),
      gaspi_proc_rank = (\<lambda>s. ((GASPI_SUCCESS, q), s)),
      gaspi_segment_size = (\<lambda>_ _ s. ((GASPI_SUCCESS, 1024), s)),
      gaspi_segment_ptr = (\<lambda>_ s. ((GASPI_SUCCESS, 4096), s)),
      gaspi_notification_num = (\<lambda>s. ((GASPI_SUCCESS, 65536), s)),
      gaspi_segment_avail_local = (\<lambda>s. ((GASPI_SUCCESS, 7), s)),
      gaspi_segment_alloc = (\<lambda>_ _ s. (GASPI_SUCCESS, s)),
      gaspi_segment_register = (\<lambda>_ _ _ s. (GASPI_SUCCESS, s)),
      gaspi_segment_delete = (\<lambda>_ s. (GASPI_SUCCESS, s))\<rparr>"

lemma demo_lib_contract: "library_contract demo_lib id (\<lambda>_ _ _. True)"
  by (auto simp: library_contract_def demo_lib_def around_def)

lemma write_cell_contract: "store_contract id write_cell"
  by (auto simp: store_contract_def around_def)

definition demo_desc :: "u16 \<Rightarrow> buffer_description" where
  "demo_desc q = \<lparr>bd_rank = q, bd_segmentId = 7, bd_offset = 0, bd_size = 2, bd_notificationId = 3\<rparr>"

definition demo_buffer :: "EndpointType \<Rightarrow> u16 \<Rightarrow> u16 \<Rightarrow> endpoint_buffer" where
  "demo_buffer type q q' =
     \<lparr>bf_allocMemory = None, bf_allocNotify = None, bf_pointer = 4096, bf_size = 2, bf_notification = 3,
      ep_type = type, ep_pLocalBufferDesc = demo_desc q, ep_pOtherBufferDesc = demo_desc q', ep_isConnected = True\<rparr>"

definition demo_link :: "nat \<Rightarrow> unit link" where
  "demo_link _ =
     \<lparr>lk_source = demo_buffer SOURCE 0 1, lk_source_segment = demo_segment 1024,
      lk_target = demo_buffer TARGET 1 0, lk_target_segment = demo_segment 1024,
      lk_chan = \<lparr>c_src = 0, c_sslot = (), c_dst = 1, c_dslot = (), c_tag = 0\<rparr>\<rparr>"

abbreviation demo_slots :: "(u16 \<times> unit) set" where
  "demo_slots \<equiv> {(0, ()), (1, ())}"

abbreviation demo_place :: "u16 \<Rightarrow> unit \<Rightarrow> mem_block" where
  "demo_place \<equiv> \<lambda>_ _. Mem 7 0 2"

lemma demo_wired: "wired demo_link {0} demo_slots demo_place"
  by (simp add: wired_def demo_link_def demo_buffer_def demo_desc_def note_key_def established_def block_of_def
      demo_segment_def segment_id_def)

definition demo_view :: gview where
  "demo_view = \<lparr>outstanding = {#}, noted = (\<lambda>_. 0), cell = (\<lambda>_ _ _. 0)\<rparr>"

definition demo_channels :: "(unit, unit, u8 list) net" where
  "demo_channels = \<lparr>phase = \<lambda>_. INITIALIZED, ctl = \<lambda>_. (), buf = \<lambda>_ _. [0, 0], pend = \<lambda>_. 0,
     flag = \<lambda>_. False, apend = \<lambda>_. 0, aflag = \<lambda>_. False\<rparr>"

lemma demo_represents: "represents id demo_link {0} demo_slots demo_place demo_view demo_channels"
  by (auto simp: represents_def wire_def demo_view_def demo_channels_def upt_rec)

abbreviation demo_step where
  "demo_step \<equiv> library_step demo_lib id write_cell demo_link {0} demo_slots demo_place"

definition demo_stored :: gview where
  "demo_stored = write_cell 0 (Mem 7 0 2) [7, 9] demo_view"

definition demo_posted :: gview where
  "demo_posted = post_one (data_item (demo_link 0)) demo_stored"

definition demo_completed :: gview where
  "demo_completed = complete (data_item (demo_link 0)) demo_posted"

lemma demo_transfer: "\<exists>call. src_initTransfer (comm_writePart (demo_lib 0)) (lk_source (demo_link 0)) = Some call \<and>
    call (SingleQueueContext 0, s) = Some (Inr (), SingleQueueContext 0, post_one (data_item (demo_link 0)) s)"
  by (simp add: demo_link_def demo_buffer_def demo_desc_def src_initTransfer_def asserted_def ctx_write_def
      comm_writePart_def sq_writePart_def demo_lib_def data_item_def write_item_def sq_post_loop_now check_rethrow_eq)

lemma demo_check: "\<exists>call. tgt_checkForCompletion (demo_lib 1) (lk_target_segment (demo_link 0)) (lk_target (demo_link 0)) = Some call \<and>
    call demo_completed = (Inr True, reset_note (1, 7, 3) demo_completed)"
  by (simp add: demo_link_def demo_buffer_def demo_desc_def tgt_checkForCompletion_def asserted_def
      bf_checkForNotification_def demo_lib_def gaspi_checked_out_eq act_bind_apply demo_completed_def data_item_def
      write_item_def write_request_def demo_segment_def segment_id_def)

lemma demo_received: "get_block (cell (reset_note (1, 7, 3) demo_completed)) 1 (Mem 7 0 2) = [7, 9]"
proof -
  have "[0..<2] = [0, 1 :: nat]" by (simp add: upt_rec)
  then show ?thesis
    by (simp add: reset_note_def demo_completed_def demo_posted_def demo_stored_def post_one_def write_cell_def
        data_item_def write_item_def write_request_def demo_link_def demo_buffer_def demo_desc_def)
qed

lemma transfers_refine_witness:
  "\<exists>n. run_of (network_step id demo_link) demo_channels [Store 0 () [7, 9], Transfer 0, Completion 0 True] n \<and>
    buf n 1 () = [7, 9]"
proof -
  define ctx where "ctx = (\<lambda>_ :: u16. SingleQueueContext 0)"
  have 1: "demo_step (ctx, demo_view) (Some (Store 0 () [7, 9])) (ctx, demo_stored)"
    unfolding demo_stored_def by (rule library_step.storing) simp_all
  obtain call where c: "src_initTransfer (comm_writePart (demo_lib 0)) (lk_source (demo_link 0)) = Some call"
    "call (SingleQueueContext 0, demo_stored) = Some (Inr (), SingleQueueContext 0, demo_posted)"
    using demo_transfer unfolding demo_posted_def by blast
  have 2: "demo_step (ctx, demo_stored) (Some (if Inr () = (Inr () :: unit res) then Transfer 0 else Throws))
      (ctx(0 := SingleQueueContext 0), demo_posted)"
    by (rule library_step.initTransfer [of 0 _ 0 _ _ call])
      (use c in \<open>simp_all add: ctx_def demo_link_def demo_buffer_def demo_desc_def\<close>)
  have "completes demo_posted demo_completed"
    unfolding completes_def demo_completed_def
    by (intro exI [of _ "data_item (demo_link 0)"]) (simp add: demo_posted_def post_one_def)
  then have 3: "demo_step (ctx(0 := SingleQueueContext 0), demo_posted) None (ctx(0 := SingleQueueContext 0), demo_completed)"
    by (intro library_step.background) simp
  obtain call2 where c2: "tgt_checkForCompletion (demo_lib 1) (lk_target_segment (demo_link 0)) (lk_target (demo_link 0)) = Some call2"
    "call2 demo_completed = (Inr True, reset_note (1, 7, 3) demo_completed)"
    using demo_check by blast
  have 4: "demo_step (ctx(0 := SingleQueueContext 0), demo_completed)
      (Some (case Inr True :: bool res of Inl e \<Rightarrow> Throws | Inr b \<Rightarrow> Completion 0 b))
      (ctx(0 := SingleQueueContext 0), reset_note (1, 7, 3) demo_completed)"
    by (rule library_step.checkForCompletion [of 0 _ 1 _ _ call2])
      (use c2 in \<open>simp_all add: demo_link_def demo_buffer_def demo_desc_def\<close>)
  have run: "run_of demo_step (ctx, demo_view) [Store 0 () [7, 9], Transfer 0, Completion 0 True]
      (ctx(0 := SingleQueueContext 0), reset_note (1, 7, 3) demo_completed)"
    using run_event [where step = demo_step, OF run_silent [where step = demo_step, OF
        run_event [where step = demo_step, OF run_event [where step = demo_step, OF run_start 1] 2] 3] 4] by simp
  have ok: "\<forall>q. comm_ok (ctx q)" by (simp add: ctx_def comm_ok_def)
  have v: "id demo_view = demo_view" by simp
  obtain n where n: "run_of (network_step id demo_link) demo_channels [Store 0 () [7, 9], Transfer 0, Completion 0 True] n"
    "represents id demo_link {0} demo_slots demo_place (id (reset_note (1, 7, 3) demo_completed)) n"
    using transfers_refine [OF demo_lib_contract write_cell_contract demo_wired ok _ run, of id demo_channels]
      demo_represents by auto
  then have "buf n (unat (1 :: u16)) () = get_block (cell (reset_note (1, 7, 3) demo_completed)) 1 (Mem 7 0 2)"
    unfolding represents_def by auto
  then show ?thesis using n(1) demo_received by auto
qed

end
