(* ===== verification/Blocking_Failure.thy ===== *)
theory Blocking_Failure
  imports Blocking_Descriptions
begin

unbundle bit_operations_syntax

text \<open>
  What an exception in the first loop of a blocking collective leaves behind.  The two vectors of
  buffers are destroyed, the receive buffers first; the notifications in the local descriptions are
  plain numbers, which nobody releases.
\<close>

section \<open>The loop with its unwinding\<close>

definition destroy_buffers :: "nat \<Rightarrow> buffer list \<Rightarrow> buffer list \<Rightarrow> ('s segments, unit) act" where
  "destroy_buffers ts recvs sends =
     act_bind (for_each (delete_buffer ts) recvs) (\<lambda>_. for_each (delete_buffer ts) sends)"

text \<open>Iteration \<open>i\<close> up to the send buffer.\<close>

definition describe_sent ::
    "'s segment_api \<Rightarrow> group \<Rightarrow> nat \<Rightarrow> u64 \<Rightarrow> nat \<Rightarrow> u64 \<Rightarrow> layout \<Rightarrow> nat \<Rightarrow>
     ('s segments, buffer_description \<times> buffer_description \<times> buffer) act" where
  "describe_sent G g sourceSegment gSource targetSegment gTarget L i =
     (case (toGlobalRank g (Rank (of_nat i)), toGlobalRank g (g_rank g)) of
        (Inl e, _) \<Rightarrow> act_throw e
      | (_, Inl e) \<Rightarrow> act_throw e
      | (Inr iGlobalRank, Inr own) \<Rightarrow>
          act_bind (with_segment sourceSegment (\<lambda>S. remoteRegistration G (sg_resource S) iGlobalRank)) (\<lambda>_.
          act_bind (with_segment targetSegment (\<lambda>S. remoteRegistration G (sg_resource S) iGlobalRank)) (\<lambda>_.
          act_bind (local_description G own sourceSegment gSource (source_offset L i) (source_size L i)) (\<lambda>src.
          act_bind (local_description G own targetSegment gTarget (target_offset L i) (target_size L i)) (\<lambda>tgt.
          act_bind (new_buffer targetSegment (of_nat (bd_ssize tgt) + of_nat (bd_ssize src))) (\<lambda>send.
          act_return (src, tgt, send)))))))"

fun describe_or_unwind ::
    "'s segment_api \<Rightarrow> group \<Rightarrow> nat \<Rightarrow> u64 \<Rightarrow> nat \<Rightarrow> u64 \<Rightarrow> layout \<Rightarrow> nat \<Rightarrow> exchange_item list \<Rightarrow> nat \<Rightarrow>
     ('s segments, exchange_item list) act" where
  "describe_or_unwind G g ss gs ts gt L i made 0 = act_return made"
| "describe_or_unwind G g ss gs ts gt L i made (Suc k) = (\<lambda>st.
     case describe_sent G g ss gs ts gt L i st of
       (Inl e, st1) \<Rightarrow> act_bind (destroy_buffers ts (map it_recv made) (map it_send made)) (\<lambda>_. act_throw e) st1
     | (Inr (src, tgt, send), st1) \<Rightarrow>
         (case new_buffer ts (of_nat (bd_ssize bd_default) + of_nat (bd_ssize bd_default)) st1 of
            (Inl e, st2) \<Rightarrow>
              act_bind (destroy_buffers ts (map it_recv made) (map it_send made @ [send])) (\<lambda>_. act_throw e) st2
          | (Inr recv, st2) \<Rightarrow>
              describe_or_unwind G g ss gs ts gt L (i + 1)
                (made @ [\<lparr>it_source = src, it_target = tgt, it_send = send, it_recv = recv\<rparr>]) k st2))"

section \<open>An iteration that succeeds\<close>

lemma local_descriptions_sent:
  "local_descriptions G g ss gs ts gt L i st = (Inr it, st2) \<longleftrightarrow>
   (\<exists>st1. describe_sent G g ss gs ts gt L i st = (Inr (it_source it, it_target it, it_send it), st1) \<and>
      new_buffer ts (of_nat (bd_ssize bd_default) + of_nat (bd_ssize bd_default)) st1 = (Inr (it_recv it), st2))"
  by (cases it; cases st2; cases "toGlobalRank g (Rank (of_nat i))"; cases "toGlobalRank g (g_rank g)")
    (auto simp: local_descriptions_def describe_sent_def act_bind_eq_Inr)

lemma describe_or_unwind_Inr:
  "describe_or_unwind G g ss gs ts gt L i made k st = (Inr ds, st') \<longleftrightarrow>
   (\<exists>ds1. describe_loop G g ss gs ts gt L i k st = (Inr ds1, st') \<and> ds = made @ ds1)"
proof (induction k arbitrary: i made st)
  case 0
  then show ?case by auto
next
  case (Suc k)
  show ?case
  proof (cases "\<exists>it st2. local_descriptions G g ss gs ts gt L i st = (Inr it, st2)")
    case True
    then obtain it st2 where l: "local_descriptions G g ss gs ts gt L i st = (Inr it, st2)" by blast
    then obtain st1 where
      "describe_sent G g ss gs ts gt L i st = (Inr (it_source it, it_target it, it_send it), st1)"
      "new_buffer ts (of_nat (bd_ssize bd_default) + of_nat (bd_ssize bd_default)) st1 = (Inr (it_recv it), st2)"
      using local_descriptions_sent by blast
    then have "describe_or_unwind G g ss gs ts gt L i made (Suc k) st =
        describe_or_unwind G g ss gs ts gt L (i + 1) (made @ [it]) k st2" by (cases it) simp
    then show ?thesis using Suc.IH [of "i + 1" "made @ [it]" st2] l
      by (cases st') (auto simp: act_bind_eq_Inr simp del: describe_or_unwind.simps)
  next
    case False
    have "describe_or_unwind G g ss gs ts gt L i made (Suc k) st \<noteq> (Inr ds, st')"
    proof
      assume "describe_or_unwind G g ss gs ts gt L i made (Suc k) st = (Inr ds, st')"
      then obtain src tgt send st1 recv st2 where
        "describe_sent G g ss gs ts gt L i st = (Inr (src, tgt, send), st1)"
        "new_buffer ts (of_nat (bd_ssize bd_default) + of_nat (bd_ssize bd_default)) st1 = (Inr recv, st2)"
        by (cases st') (auto simp: act_bind_eq_Inr split: prod.splits sum.splits)
      then have "local_descriptions G g ss gs ts gt L i st =
          (Inr \<lparr>it_source = src, it_target = tgt, it_send = send, it_recv = recv\<rparr>, st2)"
        by (subst local_descriptions_sent) (intro exI [of _ st1], simp)
      then show False using False by blast
    qed
    moreover have "describe_loop G g ss gs ts gt L i (Suc k) st \<noteq> (Inr ds1, st')" for ds1
      using False by (auto simp: act_bind_eq_Inr)
    ultimately show ?thesis by blast
  qed
qed

text \<open>As long as no iteration throws, the loop is the one without unwinding.\<close>

lemma describe_or_unwind_success:
  "describe_or_unwind G g ss gs ts gt L 0 [] k st = (Inr ds, st') \<longleftrightarrow> describe_loop G g ss gs ts gt L 0 k st = (Inr ds, st')"
  by (simp add: describe_or_unwind_Inr)

section \<open>An iteration that throws\<close>

lemma acquire_Inl: "on_segment k acquire_notification (sg, s) = (Inl x, sg', s') \<Longrightarrow> sg' = sg"
  by (auto simp: on_segment_def acquire_notification_def split: sum.splits)

lemma local_description_Inl: "local_description G r k p off z (sg, s) = (Inl x, sg', s') \<Longrightarrow> sg' = sg"
  by (auto simp: local_description_def act_bind_eq_Inl with_segment_def dest: acquire_Inl split: prod.splits)

lemma with_segment_any: "with_segment k m (sg, s) = (r, sg', s') \<Longrightarrow> sg' = sg"
  by (auto simp: with_segment_def split: prod.splits)

lemma new_buffer_Inl_booked:
  assumes c: "new_buffer k z (sg, s) = (Inl x, sg', s')" and B: "booked e lo hi K sg0 N M sg" and k: "k \<in> K" and z: "0 < z"
  shows "booked e lo hi K sg0 N M sg'"
proof (cases "mm_allocate z (memory_of sg k)")
  case (Inl y)
  then have "sg' = sg" using c
    by (auto simp: new_buffer_def bf_construct_def memory_allocation_def on_manager_def allocator_allocate_def act_bind_apply)
  with B show ?thesis by simp
next
  case (Inr pm)
  obtain p mm where a: "mm_allocate z (memory_of sg k) = Inr (p, mm)" using Inr by (cases pm) auto
  let ?sg = "sg(k := (sg k)\<lparr>sg_manager := (sg_manager (sg k))\<lparr>sm_memoryManager := mm\<rparr>\<rparr>)"
  have "booked e lo hi K sg0 N (\<lambda>j. M j + at k (p, z) j) ?sg"
    by (rule booked_memory [OF B k z a]) (simp_all add: fun_eq_iff)
  then have "booked e lo hi K sg0 N (\<lambda>j. at k (p, z) j + M j) ?sg" by (simp only: add.commute)
  from booked_unmemory [OF this k] obtain mm' where d: "mm_deallocate p z mm = Inr mm'"
    and b: "\<And>sg'. notes_of sg' = notes_of ?sg \<Longrightarrow> memory_of sg' = (memory_of ?sg)(k := mm') \<Longrightarrow> booked e lo hi K sg0 N M sg'"
    by auto
  obtain y where "nm_allocate 1 (notes_of sg k) = Inl y"
    using c a by (cases "nm_allocate 1 (notes_of sg k)")
      (auto simp: new_buffer_def bf_construct_def memory_allocation_def notify_allocation_def on_manager_def
        allocator_allocate_def acquire_notification_def act_bind_apply act_on_error_def)
  then have sg': "sg' = sg(k := (sg k)\<lparr>sg_manager := (sg_manager (sg k))\<lparr>sm_memoryManager := mm'\<rparr>\<rparr>)"
    using c a d by (auto simp: new_buffer_def bf_construct_def memory_allocation_def notify_allocation_def on_manager_def
        allocator_allocate_def acquire_notification_def act_bind_apply act_on_error_def memory_release_def
        allocator_deallocate_def)
  show ?thesis by (rule b) (simp_all add: sg' fun_eq_iff)
qed

text \<open>How many notifications a description loses, at most two.\<close>

definition lost :: "nat set \<Rightarrow> book \<Rightarrow> nat" where
  "lost K X = (\<Sum>j \<in> K. size (X j))"

lemma lost_zero [simp]: "lost K (\<lambda>_. {#}) = 0"
  by (simp add: lost_def)

lemma lost_add: "lost K (\<lambda>j. X j + Y j) = lost K X + lost K Y"
  by (simp add: lost_def sum.distrib)

lemma lost_at: "finite K \<Longrightarrow> k \<in> K \<Longrightarrow> lost K (at k x) = 1"
  by (simp add: lost_def at_def if_distrib [of size] sum.If_cases Int_absorb1)

lemma describe_sent_Inl_booked:
  assumes c: "describe_sent G g ss gs ts gt L i (sg, s) = (Inl x, sg', s')"
    and B: "booked e lo hi K sg0 N M sg" and k: "ss \<in> K" "ts \<in> K" "finite K"
  shows "\<exists>X. booked e lo hi K sg0 (\<lambda>j. X j + N j) M sg' \<and> lost K X \<le> 2"
proof (cases "toGlobalRank g (Rank (of_nat i))")
  case (Inl y)
  then show ?thesis using c B by (intro exI [of _ "\<lambda>_. {#}"]) (auto simp: describe_sent_def)
next
  case r: (Inr r)
  show ?thesis
  proof (cases "toGlobalRank g (g_rank g)")
    case (Inl y)
    then show ?thesis using c B r by (intro exI [of _ "\<lambda>_. {#}"]) (auto simp: describe_sent_def)
  next
    case (Inr own)
    note c = c [unfolded describe_sent_def r Inr, simplified]
    consider (none) "sg' = sg"
      | (one) src s1 s2 where "local_description G own ss gs (source_offset L i) (source_size L i) (sg, s1) = (Inr src, sg', s2)"
      | (two) src tgt s1 sg1 s2 sg2 s3 where
        "local_description G own ss gs (source_offset L i) (source_size L i) (sg, s1) = (Inr src, sg1, s2)"
        "local_description G own ts gt (target_offset L i) (target_size L i) (sg1, s2) = (Inr tgt, sg2, s3)"
        "new_buffer ts 46 (sg2, s3) = (Inl x, sg', s')"
      using c by (auto simp: act_bind_eq_Inl dest!: with_segment_any local_description_Inl)
    then show ?thesis
    proof cases
      case none
      then show ?thesis using B by (intro exI [of _ "\<lambda>_. {#}"]) simp
    next
      case (one src)
      from local_description_booked [OF one(1) B k(1)] show ?thesis
        using lost_at [OF k(3,1)] by (intro exI [of _ "at ss (scast (bd_notificationId src), 1)"]) (simp add: add.commute)
    next
      case (two src tgt)
      note b1 = local_description_booked [OF two(1) B k(1)]
      note b2 = local_description_booked [OF two(2) b1 k(2)]
      have z: "(0 :: u64) < 46" by simp
      note b3 = new_buffer_Inl_booked [OF two(3) b2 k(2) z]
      let ?X = "\<lambda>j. at ss (scast (bd_notificationId src) :: u64, 1 :: u64) j + at ts (scast (bd_notificationId tgt), 1) j"
      have "lost K ?X = 2" unfolding lost_add using lost_at [OF k(3)] k by simp
      then show ?thesis using b3 by (intro exI [of _ ?X]) (simp add: ac_simps)
    qed
  qed
qed

lemma describe_sent_Inr_booked:
  assumes c: "describe_sent G g ss gs ts gt L i (sg, s) = (Inr (src, tgt, send), sg', s')"
    and B: "booked e lo hi K sg0 N M sg" and k: "ss \<in> K" "ts \<in> K"
  shows "booked e lo hi K sg0
      (\<lambda>j. N j + at ss (scast (bd_notificationId src), 1) j + at ts (scast (bd_notificationId tgt), 1) j +
           at ts (scast (bf_notification send), 1) j)
      (\<lambda>j. M j + at ts (bf_pointer send, bf_size send) j) sg' \<and> owning send"
proof -
  from c obtain r own where rk: "toGlobalRank g (Rank (of_nat i)) = Inr r" "toGlobalRank g (g_rank g) = Inr own"
    by (auto simp: describe_sent_def split: sum.splits)
  from c obtain u v sga sa sgb sb sg1 s1 sg2 s2 where
    r1: "with_segment ss (\<lambda>S. remoteRegistration G (sg_resource S) r) (sg, s) = (Inr u, sga, sa)" and
    r2: "with_segment ts (\<lambda>S. remoteRegistration G (sg_resource S) r) (sga, sa) = (Inr v, sgb, sb)" and
    d1: "local_description G own ss gs (source_offset L i) (source_size L i) (sgb, sb) = (Inr src, sg1, s1)" and
    d2: "local_description G own ts gt (target_offset L i) (target_size L i) (sg1, s1) = (Inr tgt, sg2, s2)" and
    b1: "new_buffer ts 46 (sg2, s2) = (Inr send, sg', s')"
    unfolding describe_sent_def rk by (auto simp: act_bind_eq_Inr)
  have sgb: "sgb = sg" using with_segment_sg [OF r1] with_segment_sg [OF r2] by simp
  note 1 = local_description_booked [OF d1 B [folded sgb] k(1)]
  note 2 = local_description_booked [OF d2 1 k(2)]
  from booked_new_buffer [OF b1 2 k(2), simplified] show ?thesis by (simp add: owning_def)
qed

lemma delete_all_booked:
  assumes "booked e lo hi K sg0 (\<lambda>j. (\<Sum>b\<leftarrow>bs. at k (scast (bf_notification b), 1) j) + N j)
      (\<lambda>j. (\<Sum>b\<leftarrow>bs. at k (bf_pointer b, bf_size b) j) + M j) sg"
    and "k \<in> K" "\<forall>b \<in> set bs. owning b"
  shows "\<exists>sg'. for_each (delete_buffer k) bs (sg, s) = (Inr (), sg', s) \<and> booked e lo hi K sg0 N M sg'"
  using assms(1)
proof (rule for_each_booked [rotated])
  fix b N M sg
  assume b: "b \<in> set bs" and B: "booked e lo hi K sg0 (\<lambda>j. at k (scast (bf_notification b), 1) j + N j)
      (\<lambda>j. at k (bf_pointer b, bf_size b) j + M j) sg"
  show "\<exists>sg'. delete_buffer k b (sg, s) = (Inr (), sg', s) \<and> booked e lo hi K sg0 N M sg'"
    by (rule delete_booked [OF B assms(2)]) (use assms(3) b in blast)
qed

definition buffer_notes :: "nat \<Rightarrow> buffer list \<Rightarrow> book" where
  "buffer_notes k bs j = (\<Sum>b\<leftarrow>bs. at k (scast (bf_notification b), 1) j)"

definition buffer_memory :: "nat \<Rightarrow> buffer list \<Rightarrow> book" where
  "buffer_memory k bs j = (\<Sum>b\<leftarrow>bs. at k (bf_pointer b, bf_size b) j)"

lemma buffer_books_append [simp]:
  "buffer_notes k (bs @ [b]) j = buffer_notes k bs j + at k (scast (bf_notification b), 1) j"
  "buffer_memory k (bs @ [b]) j = buffer_memory k bs j + at k (bf_pointer b, bf_size b) j"
  "buffer_notes k [] j = {#}" "buffer_memory k [] j = {#}"
  by (simp_all add: buffer_notes_def buffer_memory_def)

lemma destroy_buffers_booked:
  assumes B: "booked e lo hi K sg0 (\<lambda>j. buffer_notes ts recvs j + (buffer_notes ts sends j + N j))
      (\<lambda>j. buffer_memory ts recvs j + (buffer_memory ts sends j + M j)) sg"
    and k: "ts \<in> K" and own: "\<forall>b \<in> set recvs \<union> set sends. owning b"
  shows "\<exists>sg'. destroy_buffers ts recvs sends (sg, s) = (Inr (), sg', s) \<and> booked e lo hi K sg0 N M sg'"
proof -
  have o: "\<forall>b \<in> set recvs. owning b" "\<forall>b \<in> set sends. owning b" using own by simp_all
  from delete_all_booked [OF B [unfolded buffer_notes_def [of ts recvs] buffer_memory_def [of ts recvs]] k o(1), of s]
  obtain sg1 where 1: "for_each (delete_buffer ts) recvs (sg, s) = (Inr (), sg1, s)"
    and B1: "booked e lo hi K sg0 (\<lambda>j. buffer_notes ts sends j + N j) (\<lambda>j. buffer_memory ts sends j + M j) sg1"
    by (elim exE conjE)
  from delete_all_booked [OF B1 [unfolded buffer_notes_def buffer_memory_def] k o(2), of s]
  obtain sg2 where "for_each (delete_buffer ts) sends (sg1, s) = (Inr (), sg2, s)" "booked e lo hi K sg0 N M sg2"
    by (elim exE conjE)
  then show ?thesis using 1 by (simp add: destroy_buffers_def act_bind_apply)
qed

section \<open>The loop\<close>

text \<open>The notifications of the local descriptions.\<close>

definition kept_notes :: "nat \<Rightarrow> nat \<Rightarrow> exchange_item list \<Rightarrow> book" where
  "kept_notes ss ts ds j = (\<Sum>it\<leftarrow>ds. at ss (scast (bd_notificationId (it_source it)), 1) j +
     at ts (scast (bd_notificationId (it_target it)), 1) j)"

lemma kept_append [simp]: "kept_notes ss ts (ds @ [it]) j = kept_notes ss ts ds j +
    (at ss (scast (bd_notificationId (it_source it)), 1) j + at ts (scast (bd_notificationId (it_target it)), 1) j)"
    "kept_notes ss ts [] j = {#}"
  by (simp_all add: kept_notes_def)

lemma lost_kept: "finite K \<Longrightarrow> ss \<in> K \<Longrightarrow> ts \<in> K \<Longrightarrow> lost K (kept_notes ss ts ds) = 2 * length ds"
proof (induction ds rule: rev_induct)
  case (snoc it ds)
  have "kept_notes ss ts (ds @ [it]) = (\<lambda>j. kept_notes ss ts ds j +
    (at ss (scast (bd_notificationId (it_source it)), 1) j + at ts (scast (bd_notificationId (it_target it)), 1) j))"
    by (rule ext) simp
  then show ?case using snoc lost_at [OF snoc.prems(1)] by (simp add: lost_add)
qed (simp add: lost_def kept_notes_def)

definition made_books :: "nat \<Rightarrow> (nat \<Rightarrow> nat) \<Rightarrow> (nat \<Rightarrow> nat) \<Rightarrow> nat set \<Rightarrow> nat \<Rightarrow> nat \<Rightarrow> (nat \<Rightarrow> segment) \<Rightarrow>
    exchange_item list \<Rightarrow> (nat \<Rightarrow> segment) \<Rightarrow> bool" where
  "made_books e lo hi K ss ts sg0 made sg \<longleftrightarrow>
     booked e lo hi K sg0
       (\<lambda>j. buffer_notes ts (map it_recv made) j + (buffer_notes ts (map it_send made) j + kept_notes ss ts made j))
       (\<lambda>j. buffer_memory ts (map it_recv made) j + buffer_memory ts (map it_send made) j) sg \<and>
     (\<forall>b \<in> set (map it_recv made) \<union> set (map it_send made). owning b)"

lemma made_books_step:
  assumes m: "made_books e lo hi K ss ts sg0 made sg" and k: "ss \<in> K" "ts \<in> K"
    and 1: "describe_sent G g ss gs ts gt L i (sg, s) = (Inr (src, tgt, send), sg1, s1)"
    and 2: "new_buffer ts 46 (sg1, s1) = (Inr recv, sg2, s2)"
  shows "made_books e lo hi K ss ts sg0 (made @ [\<lparr>it_source = src, it_target = tgt, it_send = send, it_recv = recv\<rparr>]) sg2"
proof -
  note b1 = describe_sent_Inr_booked [OF 1 conjunct1 [OF m [unfolded made_books_def]] k]
  have z: "(0 :: u64) < 46" by simp
  note b2 = booked_new_buffer [OF 2 conjunct1 [OF b1] k(2) z]
  have "owning send" "owning recv" using b1 b2 by (simp_all add: owning_def)
  then show ?thesis using conjunct1 [OF b2] m b2 by (simp add: made_books_def ac_simps)
qed

lemma made_books_destroy:
  assumes B: "booked e lo hi K sg0
       (\<lambda>j. buffer_notes ts recvs j + (buffer_notes ts sends j + N j))
       (\<lambda>j. buffer_memory ts recvs j + buffer_memory ts sends j) sg"
    and k: "ts \<in> K" and o: "\<forall>b \<in> set recvs \<union> set sends. owning b"
  shows "\<exists>sg'. destroy_buffers ts recvs sends (sg, s) = (Inr (), sg', s) \<and> booked e lo hi K sg0 N (\<lambda>_. {#}) sg'"
  by (rule destroy_buffers_booked [OF _ k o]) (use B in simp)

lemma first_part_fails:
  assumes m: "made_books e lo hi K ss ts sg0 made sg" and k: "ss \<in> K" "ts \<in> K" "finite K"
    and 1: "describe_sent G g ss gs ts gt L i (sg, s) = (Inl x, sg1, s1)"
  shows "\<exists>sg2 X. destroy_buffers ts (map it_recv made) (map it_send made) (sg1, s1) = (Inr (), sg2, s1) \<and>
    booked e lo hi K sg0 (\<lambda>j. X j + kept_notes ss ts made j) (\<lambda>_. {#}) sg2 \<and> lost K X \<le> 2"
proof -
  obtain X where X: "booked e lo hi K sg0 (\<lambda>j. X j +
      (buffer_notes ts (map it_recv made) j + (buffer_notes ts (map it_send made) j + kept_notes ss ts made j)))
      (\<lambda>j. buffer_memory ts (map it_recv made) j + buffer_memory ts (map it_send made) j) sg1" "lost K X \<le> 2"
    using describe_sent_Inl_booked [OF 1 conjunct1 [OF m [unfolded made_books_def]] k] by (elim exE conjE)
  have "booked e lo hi K sg0 (\<lambda>j. buffer_notes ts (map it_recv made) j +
      (buffer_notes ts (map it_send made) j + (X j + kept_notes ss ts made j)))
      (\<lambda>j. buffer_memory ts (map it_recv made) j + buffer_memory ts (map it_send made) j) sg1"
    using X(1) by (simp only: ac_simps)
  from made_books_destroy [OF this k(2) conjunct2 [OF m [unfolded made_books_def]], of s1] X(2) show ?thesis by blast
qed

lemma second_part_fails:
  assumes m: "made_books e lo hi K ss ts sg0 made sg" and k: "ss \<in> K" "ts \<in> K" "finite K"
    and 1: "describe_sent G g ss gs ts gt L i (sg, s) = (Inr (src, tgt, send), sg1, s1)"
    and 2: "new_buffer ts 46 (sg1, s1) = (Inl x, sg2, s2)"
  shows "\<exists>sg3 X. destroy_buffers ts (map it_recv made) (map it_send made @ [send]) (sg2, s2) = (Inr (), sg3, s2) \<and>
    booked e lo hi K sg0 (\<lambda>j. X j + kept_notes ss ts made j) (\<lambda>_. {#}) sg3 \<and> lost K X \<le> 2"
proof -
  note b1 = describe_sent_Inr_booked [OF 1 conjunct1 [OF m [unfolded made_books_def]] k(1,2)]
  have z: "(0 :: u64) < 46" by simp
  note b2 = new_buffer_Inl_booked [OF 2 conjunct1 [OF b1] k(2) z]
  let ?X = "\<lambda>j. at ss (scast (bd_notificationId src) :: u64, 1 :: u64) j + at ts (scast (bd_notificationId tgt), 1) j"
  have B: "booked e lo hi K sg0 (\<lambda>j. buffer_notes ts (map it_recv made) j +
      (buffer_notes ts (map it_send made @ [send]) j + (?X j + kept_notes ss ts made j)))
      (\<lambda>j. buffer_memory ts (map it_recv made) j + buffer_memory ts (map it_send made @ [send]) j) sg2"
    using b2 by (simp add: ac_simps)
  have o: "\<forall>b \<in> set (map it_recv made) \<union> set (map it_send made @ [send]). owning b"
    using m b1 by (auto simp: made_books_def)
  from made_books_destroy [OF B k(2) o, of s2] obtain sg3 where "destroy_buffers ts (map it_recv made) (map it_send made @ [send]) (sg2, s2) = (Inr (), sg3, s2)"
    "booked e lo hi K sg0 (\<lambda>j. ?X j + kept_notes ss ts made j) (\<lambda>_. {#}) sg3"
    by (elim exE conjE)
  moreover have "lost K ?X = 2" unfolding lost_add using lost_at [OF k(3)] k by simp
  ultimately show ?thesis by (intro exI [of _ sg3] exI [of _ ?X]) simp
qed

lemma describe_loop_Cons:
  assumes "local_descriptions G g ss gs ts gt L i st = (Inr it, st2)"
  shows "describe_loop G g ss gs ts gt L i (Suc n) st = (Inr ds, w) \<longleftrightarrow>
    (\<exists>ds1. describe_loop G g ss gs ts gt L (i + 1) n st2 = (Inr ds1, w) \<and> ds = it # ds1)"
  using assms by (cases w) (auto simp: act_bind_eq_Inr)

lemma loop_fails:
  assumes "describe_or_unwind G g ss gs ts gt L i made k (sg, s) = (Inl x, sg', s')"
    "made_books e lo hi K ss ts sg0 made sg" and K: "ss \<in> K" "ts \<in> K" "finite K"
  shows "\<exists>ds X. booked e lo hi K sg0 (\<lambda>j. X j + kept_notes ss ts (made @ ds) j) (\<lambda>_. {#}) sg' \<and> lost K X \<le> 2 \<and>
    length ds < k \<and> (\<exists>w. describe_loop G g ss gs ts gt L i (length ds) (sg, s) = (Inr ds, w)) \<and>
    (\<forall>ds' w. describe_loop G g ss gs ts gt L i (Suc (length ds)) (sg, s) \<noteq> (Inr ds', w))"
  using assms(1,2)
proof (induction k arbitrary: i made sg s)
  case 0
  then show ?case by simp
next
  case (Suc k)
  obtain r sg1 s1 where 1: "describe_sent G g ss gs ts gt L i (sg, s) = (r, sg1, s1)" by (metis surj_pair)
  show ?case
  proof (cases r)
    case (Inl y)
    note 1 = 1 [unfolded Inl]
    obtain sg2 X where d: "destroy_buffers ts (map it_recv made) (map it_send made) (sg1, s1) = (Inr (), sg2, s1)"
      "booked e lo hi K sg0 (\<lambda>j. X j + kept_notes ss ts made j) (\<lambda>_. {#}) sg2" "lost K X \<le> 2"
      using first_part_fails [OF Suc.prems(2) K 1] by (elim exE conjE)
    have "sg' = sg2" using Suc.prems(1) d(1) 1 by (simp add: act_bind_apply)
    moreover have "local_descriptions G g ss gs ts gt L i (sg, s) \<noteq> (Inr it, w)" for it w
      using 1 by (simp add: local_descriptions_sent)
    ultimately show ?thesis using d by (intro exI [of _ "[]"] exI [of _ X]) (simp add: act_bind_eq_Inr)
  next
    case (Inr t)
    obtain src tgt send where t: "t = (src, tgt, send)" by (metis surj_pair)
    note 1 = 1 [unfolded Inr t]
    obtain q sg2 s2 where 2: "new_buffer ts 46 (sg1, s1) = (q, sg2, s2)" by (metis surj_pair)
    show ?thesis
    proof (cases q)
      case (Inl y)
      note 2 = 2 [unfolded Inl]
      obtain sg3 X where d: "destroy_buffers ts (map it_recv made) (map it_send made @ [send]) (sg2, s2) = (Inr (), sg3, s2)"
        "booked e lo hi K sg0 (\<lambda>j. X j + kept_notes ss ts made j) (\<lambda>_. {#}) sg3" "lost K X \<le> 2"
        using second_part_fails [OF Suc.prems(2) K 1 2] by (elim exE conjE)
      have "sg' = sg3" using Suc.prems(1) d(1) 1 2 by (simp add: act_bind_apply)
      moreover have "local_descriptions G g ss gs ts gt L i (sg, s) \<noteq> (Inr it, w)" for it w
        using 1 2 by (simp add: local_descriptions_sent)
      ultimately show ?thesis using d by (intro exI [of _ "[]"] exI [of _ X]) (simp add: act_bind_eq_Inr)
    next
      case (Inr recv)
      note 2 = 2 [unfolded Inr]
      let ?it = "\<lparr>it_source = src, it_target = tgt, it_send = send, it_recv = recv\<rparr>"
      have l: "local_descriptions G g ss gs ts gt L i (sg, s) = (Inr ?it, sg2, s2)"
        using 1 2 by (simp add: local_descriptions_sent)
      have "describe_or_unwind G g ss gs ts gt L (i + 1) (made @ [?it]) k (sg2, s2) = (Inl x, sg', s')"
        using Suc.prems(1) 1 2 by simp
      from Suc.IH [OF this made_books_step [OF Suc.prems(2) K(1,2) 1 2]] obtain ds X w where
        d: "booked e lo hi K sg0 (\<lambda>j. X j + kept_notes ss ts ((made @ [?it]) @ ds) j) (\<lambda>_. {#}) sg'" "lost K X \<le> 2"
        "length ds < k" "describe_loop G g ss gs ts gt L (i + 1) (length ds) (sg2, s2) = (Inr ds, w)"
        "\<forall>ds' w. describe_loop G g ss gs ts gt L (i + 1) (Suc (length ds)) (sg2, s2) \<noteq> (Inr ds', w)"
        by (elim exE conjE)
      have "describe_loop G g ss gs ts gt L i (length (?it # ds)) (sg, s) = (Inr (?it # ds), w)"
        unfolding list.size(4) add_0_right add_Suc_right by (rule iffD2 [OF describe_loop_Cons [OF l]]) (use d(4) in blast)
      moreover have "describe_loop G g ss gs ts gt L i (Suc (length (?it # ds))) (sg, s) \<noteq> (Inr ds', w')" for ds' w'
      proof
        assume "describe_loop G g ss gs ts gt L i (Suc (length (?it # ds))) (sg, s) = (Inr ds', w')"
        from iffD1 [OF describe_loop_Cons [OF l] this] d(5) show False unfolding list.size(4) add_0_right add_Suc_right by blast
      qed
      moreover have "booked e lo hi K sg0 (\<lambda>j. X j + kept_notes ss ts (made @ ?it # ds) j) (\<lambda>_. {#}) sg'"
        using d(1) by simp
      moreover have "length (?it # ds) < Suc k" using d(3) by simp
      ultimately show ?thesis using d(2) by blast
    qed
  qed
qed

section \<open>Property\<close>

lemma grown_card: "grown A X B \<Longrightarrow> A \<subseteq> B \<and> card (B - A) = size X"
proof -
  assume g: "grown A X B"
  have "count X x = 1" if "x \<in># X" for x
    using g that by (metis count_greater_eq_one_iff grown_def le_antisym)
  then have "size X = card (set_mset X)" by (simp add: size_multiset_overloaded_eq)
  moreover have "B - A = set_mset X" using g by (auto simp: grown_def)
  ultimately show ?thesis using g by (auto simp: grown_def)
qed

text \<open>
  A blocking collective that throws while it describes its blocks.  The segments' memory
  is in use exactly as before the call, but the notifications of the descriptions stay acquired for
  ever: two of every iteration that was completed, and up to two of the one that threw.  Without an
  exception the loop is the one of the descriptions.
\<close>

theorem blocking_failure:
  assumes "sound e lo hi {ss, ts} sg"
  shows "(\<forall>ds w. describe_or_unwind G g ss gs ts gt L 0 [] k (sg, s) = (Inr ds, w) \<longleftrightarrow>
            describe_loop G g ss gs ts gt L 0 k (sg, s) = (Inr ds, w)) \<and>
    (\<forall>x sg' s'. describe_or_unwind G g ss gs ts gt L 0 [] k (sg, s) = (Inl x, sg', s') \<longrightarrow>
       (\<exists>i < k. (\<exists>ds w. describe_loop G g ss gs ts gt L 0 i (sg, s) = (Inr ds, w)) \<and>
         (\<forall>ds w. describe_loop G g ss gs ts gt L 0 (Suc i) (sg, s) \<noteq> (Inr ds, w)) \<and>
         sound e lo hi {ss, ts} sg' \<and>
         (\<forall>j \<in> {ss, ts}. mm_live (memory_of sg' j) = mm_live (memory_of sg j) \<and>
            nm_live (notes_of sg j) \<subseteq> nm_live (notes_of sg' j)) \<and>
         (\<Sum>j \<in> {ss, ts}. card (nm_live (notes_of sg' j) - nm_live (notes_of sg j))) \<in> {2 * i..2 * i + 2}))"
proof (intro conjI allI impI)
  show "describe_or_unwind G g ss gs ts gt L 0 [] k (sg, s) = (Inr ds, w) \<longleftrightarrow>
      describe_loop G g ss gs ts gt L 0 k (sg, s) = (Inr ds, w)" for ds w
    by (rule describe_or_unwind_success)
  fix x sg' s' assume f: "describe_or_unwind G g ss gs ts gt L 0 [] k (sg, s) = (Inl x, sg', s')"
  let ?K = "{ss, ts}"
  have "made_books e lo hi ?K ss ts sg [] sg"
    using booked_start [OF assms] by (simp add: made_books_def)
  from loop_fails [OF f this, unfolded append_Nil] obtain ds X w where
    B: "booked e lo hi ?K sg (\<lambda>j. X j + kept_notes ss ts ds j) (\<lambda>_. {#}) sg'" and X: "lost ?K X \<le> 2" and
    d: "length ds < k" "describe_loop G g ss gs ts gt L 0 (length ds) (sg, s) = (Inr ds, w)"
      "\<forall>ds' w. describe_loop G g ss gs ts gt L 0 (Suc (length ds)) (sg, s) \<noteq> (Inr ds', w)"
    by auto
  have c: "nm_live (notes_of sg j) \<subseteq> nm_live (notes_of sg' j) \<and>
      card (nm_live (notes_of sg' j) - nm_live (notes_of sg j)) = size (X j + kept_notes ss ts ds j)" if "j \<in> ?K" for j
    by (rule grown_card) (use B that in \<open>simp only: booked_def\<close>)
  have "(\<Sum>j \<in> ?K. card (nm_live (notes_of sg' j) - nm_live (notes_of sg j))) = lost ?K (\<lambda>j. X j + kept_notes ss ts ds j)"
    unfolding lost_def by (rule sum.cong) (use c in blast)+
  also have "\<dots> = lost ?K X + 2 * length ds" using lost_kept [of ?K ss ts ds] by (simp add: lost_add)
  finally have s: "(\<Sum>j \<in> ?K. card (nm_live (notes_of sg' j) - nm_live (notes_of sg j))) \<in> {2 * length ds..2 * length ds + 2}"
    using X by simp
  show "\<exists>i < k. (\<exists>ds w. describe_loop G g ss gs ts gt L 0 i (sg, s) = (Inr ds, w)) \<and>
      (\<forall>ds w. describe_loop G g ss gs ts gt L 0 (Suc i) (sg, s) \<noteq> (Inr ds, w)) \<and> sound e lo hi ?K sg' \<and>
      (\<forall>j \<in> ?K. mm_live (memory_of sg' j) = mm_live (memory_of sg j) \<and> nm_live (notes_of sg j) \<subseteq> nm_live (notes_of sg' j)) \<and>
      (\<Sum>j \<in> ?K. card (nm_live (notes_of sg' j) - nm_live (notes_of sg j))) \<in> {2 * i..2 * i + 2}"
  proof (intro exI [of _ "length ds"] conjI ballI)
    show "\<exists>ds' w. describe_loop G g ss gs ts gt L 0 (length ds) (sg, s) = (Inr ds', w)" using d(2) by blast
    show "sound e lo hi ?K sg'" using B by (simp add: booked_def)
    show "mm_live (memory_of sg' j) = mm_live (memory_of sg j)" if "j \<in> ?K" for j
      using B that unfolding booked_def grown_empty by blast
  qed (use d(1,3) s c in blast)+
qed

text \<open>A segment of 40 bytes: there is no room for the first buffer, and two notifications stay acquired.\<close>

definition small_segment :: "nat \<Rightarrow> segment" where
  "small_segment = demo_state [\<lparr>g_start = 0, bsize = 65536, bfree = True\<rparr>] [\<lparr>g_start = 4096, bsize = 40, bfree = True\<rparr>]"

lemma small_sound: "sound 65536 (\<lambda>_. 4096) (\<lambda>_. 4136) {0, 0} small_segment"
  using nm_construct_inv [of 65536] mm_construct_inv [of 4096 40]
  by (simp add: sound_def small_segment_def demo_state_sel nm_construct_def mm_construct_def)

lemma small_new_buffer:
  "first_fit 46 ms = None \<Longrightarrow> \<exists>e. \<forall>bs s. new_buffer 0 46 (demo_state bs ms, s) = (Inl e, demo_state bs ms, s)"
  by (auto simp: new_buffer_def bf_construct_def memory_allocation_def on_manager_def allocator_allocate_def
      act_bind_apply mm_allocate_def demo_state_sel demo_state_upd)

lemma small_run:
  "\<exists>x s'. describe_or_unwind demo_segments (demo_group 0) 0 4096 0 4106 (alltoall_layout 10) 0 [] (Suc (Suc 0))
      (small_segment, [7 \<mapsto> (4096, 1024)]) =
    (Inl x, demo_state [\<lparr>g_start = 0, bsize = 1, bfree = False\<rparr>, \<lparr>g_start = 1, bsize = 1, bfree = False\<rparr>,
       \<lparr>g_start = 2, bsize = 65534, bfree = True\<rparr>] [\<lparr>g_start = 4096, bsize = 40, bfree = True\<rparr>], s')"
proof -
  obtain e where "\<And>bs (s :: u8 \<Rightarrow> (u64 \<times> u64) option). new_buffer 0 46 (demo_state bs [\<lparr>g_start = 4096, bsize = 40, bfree = True\<rparr>], s) =
      (Inl e, demo_state bs [\<lparr>g_start = 4096, bsize = 40, bfree = True\<rparr>], s)"
    using small_new_buffer [of "[\<lparr>g_start = 4096, bsize = 40, bfree = True\<rparr>]"] by auto
  then show ?thesis
    by (simp add: describe_sent_def small_segment_def demo_group_def toGlobalRank_def g_size_def act_bind_apply
        demo_register demo_acquire destroy_buffers_def)
qed

lemma blocking_failure_witness:
  "\<exists>x sg' s'. describe_or_unwind demo_segments (demo_group 0) 0 4096 0 4106 (alltoall_layout 10) 0 [] (Suc (Suc 0))
      (small_segment, [7 \<mapsto> (4096, 1024)]) = (Inl x, sg', s') \<and>
    mm_live (memory_of sg' 0) = mm_live (memory_of small_segment 0) \<and>
    nm_live (notes_of small_segment 0) = {} \<and> nm_live (notes_of sg' 0) = {(0, 1), (1, 1)}"
proof -
  let ?sg = "demo_state [\<lparr>g_start = 0, bsize = 1, bfree = False\<rparr>, \<lparr>g_start = 1, bsize = 1, bfree = False\<rparr>,
       \<lparr>g_start = 2, bsize = 65534, bfree = True\<rparr>] [\<lparr>g_start = 4096, bsize = 40, bfree = True\<rparr>]"
  obtain x s' where run: "describe_or_unwind demo_segments (demo_group 0) 0 4096 0 4106 (alltoall_layout 10) 0 [] (Suc (Suc 0))
      (small_segment, [7 \<mapsto> (4096, 1024)]) = (Inl x, ?sg, s')"
    using small_run by blast
  from blocking_failure [OF small_sound, THEN conjunct2, rule_format, OF run]
  have "mm_live (memory_of ?sg 0) = mm_live (memory_of small_segment 0)" by blast
  moreover have "nm_live (notes_of ?sg 0) = {(0, 1), (1, 1)}" "nm_live (notes_of small_segment 0) = {}"
    by (auto simp: nm_live_def small_segment_def demo_state_sel live_Cons)
  ultimately show ?thesis using run by blast
qed

end
