(* ===== verification/Blocking_Call.thy ===== *)
theory Blocking_Call
  imports Blocking_Failure Passive_Props
begin

unbundle bit_operations_syntax

text \<open>
  The blocking collectives as a call of one rank: the four loops with everything they do, the
  passive component, the library and the memory included, and the destruction of the local vectors
  when the function is left, by its end or by an exception of any call.  The segments of the call
  are not the one the passive component works in.
\<close>

section \<open>The local variables and the state\<close>

text \<open>The \<open>unique_ptr\<close>s of the two vectors of buffers are options.\<close>

record exchange_locals =
  localSources :: "buffer_description list"
  localTargets :: "buffer_description list"
  remoteSources :: "buffer_description list"
  remoteTargets :: "buffer_description list"
  sendBuffers :: "buffer option list"
  recvBuffers :: "buffer option list"

definition exchange_vectors :: "nat \<Rightarrow> exchange_locals" where
  "exchange_vectors n = \<lparr>localSources = replicate n bd_default, localTargets = replicate n bd_default,
     remoteSources = replicate n bd_default, remoteTargets = replicate n bd_default,
     sendBuffers = replicate n None, recvBuffers = replicate n None\<rparr>"

text \<open>
  The arguments of the call and what it finds around it: the context it is given, that of the
  passive component, the rank the runtime reports, and what other threads make of the passive
  component while the call waits.
\<close>

record 's exchange_env =
  xe_gaspi :: "'s passive_gaspi"
  xe_context :: "'s context_api"
  xe_passive_context :: "'s context_api"
  xe_others :: "'s pstate \<Rightarrow> 's pstate"
  xe_me :: u16
  xe_group :: group
  xe_sourceSegment :: nat
  xe_source :: u64
  xe_targetSegment :: nat
  xe_target :: u64
  xe_layout :: layout

type_synonym 's call = "exchange_locals \<times> (nat \<Rightarrow> segment) \<times> 's pstate"

definition on_locals :: "(exchange_locals \<Rightarrow> exchange_locals) \<Rightarrow> ('s call, unit) act" where
  "on_locals f = (\<lambda>(X, w). (Inr (), f X, w))"

definition with_locals :: "(exchange_locals \<Rightarrow> ('s call, 'a) act) \<Rightarrow> ('s call, 'a) act" where
  "with_locals f = (\<lambda>(X, w). f X (X, w))"

definition on_segments :: "('s segments, 'a) act \<Rightarrow> ('s call, 'a) act" where
  "on_segments m = (\<lambda>(X, sg, p). case m (sg, pv_lib p) of (r, sg', s') \<Rightarrow> (r, X, sg', p\<lparr>pv_lib := s'\<rparr>))"

definition on_passive :: "((nat \<Rightarrow> segment) \<Rightarrow> ('s pstate, 'a) act) \<Rightarrow> ('s call, 'a) act" where
  "on_passive m = (\<lambda>(X, sg, p). case m sg p of (r, p') \<Rightarrow> (r, X, sg, p'))"

text \<open>A wait for a notification: what other processes wrote is in the memory afterwards.\<close>

definition waited :: "'s exchange_env \<Rightarrow> ('s, bool) act \<Rightarrow> ('s pstate, bool) act" where
  "waited E m = (\<lambda>p. case with_lib (\<lambda>_. m) p of
     (r, p1) \<Rightarrow> (let p2 = xe_others E p1 in (r, p2\<lparr>pv_mem := gaspi_segment_memory (xe_gaspi E) (pv_mem p2) (pv_lib p2)\<rparr>)))"

definition store_descriptions :: "u64 \<Rightarrow> buffer_description \<Rightarrow> buffer_description \<Rightarrow> ('s pstate, unit) act" where
  "store_descriptions address localTarget localSource = (\<lambda>p.
     (let cPtr = unat address;
          (m1, n1) = bd_ser (pv_mem p) cPtr localTarget;
          (m2, n2) = bd_ser m1 (cPtr + n1) localSource
      in (Inr (), p\<lparr>pv_mem := m2\<rparr>)))"

definition load_descriptions :: "u64 \<Rightarrow> ('s pstate, buffer_description \<times> buffer_description) act" where
  "load_descriptions address = (\<lambda>p.
     (let cPtr = unat address;
          (remoteTarget, n1) = bd_des (pv_mem p) cPtr;
          (remoteSource, n2) = bd_des (pv_mem p) (cPtr + n1)
      in (Inr (remoteTarget, remoteSource), p)))"

section \<open>The four loop bodies\<close>

text \<open>The first in two parts: what follows when descriptions and send buffer are there.\<close>

definition post_descriptions ::
    "'s exchange_env \<Rightarrow> nat \<Rightarrow> buffer_description \<Rightarrow> buffer_description \<Rightarrow> buffer \<Rightarrow> ('s call, unit) act" where
  "post_descriptions E i src tgt send =
     act_bind (on_passive (\<lambda>_. store_descriptions (bf_address send) tgt src)) (\<lambda>_.
     act_bind (on_segments (new_buffer (xe_targetSegment E) (of_nat (bd_ssize bd_default) + of_nat (bd_ssize bd_default)))) (\<lambda>recv.
     act_bind (on_locals (\<lambda>X. X\<lparr>recvBuffers := (recvBuffers X)[i := Some recv]\<rparr>)) (\<lambda>_.
     (case toGlobalRank (xe_group E) (Rank (of_nat i)) of
        Inl e \<Rightarrow> act_throw e
      | Inr iGlobalRank \<Rightarrow>
          act_bind (on_passive (\<lambda>sg. pv_iSendTagMessg (xe_gaspi E) (xe_passive_context E) (xe_me E)
             (ucast iGlobalRank) (ucast (get (g_rank (xe_group E)))) (sg (xe_targetSegment E)) send)) (\<lambda>_.
          act_bind (on_passive (\<lambda>sg. pv_iRecvTagMessg (xe_gaspi E) (xe_passive_context E) (xe_me E)
             (ucast iGlobalRank) (of_nat i) (sg (xe_targetSegment E)) recv)) (\<lambda>_.
          act_return ()))))))"

definition describe_body :: "'s exchange_env \<Rightarrow> nat \<Rightarrow> ('s call, unit) act" where
  "describe_body E i =
     act_bind (on_segments (describe_sent (segment_api.truncate (xe_gaspi E)) (xe_group E)
        (xe_sourceSegment E) (xe_source E) (xe_targetSegment E) (xe_target E) (xe_layout E) i)) (\<lambda>(src, tgt, send).
     act_bind (on_locals (\<lambda>X. X\<lparr>localSources := (localSources X)[i := src],
        localTargets := (localTargets X)[i := tgt], sendBuffers := (sendBuffers X)[i := Some send]\<rparr>)) (\<lambda>_.
     post_descriptions E i src tgt send))"

text \<open>The loops before have filled the pointers that are dereferenced here.\<close>

definition dereference :: "buffer option \<Rightarrow> (buffer \<Rightarrow> ('s call, unit) act) \<Rightarrow> ('s call, unit) act" where
  "dereference pointer f = (case pointer of None \<Rightarrow> act_throw (LogicError ''null pointer'') | Some b \<Rightarrow> f b)"

definition receive_description :: "'s exchange_env \<Rightarrow> nat \<Rightarrow> buffer_description \<Rightarrow> buffer \<Rightarrow> ('s call, unit) act" where
  "receive_description E i src recv =
     act_bind (on_passive (\<lambda>sg. waited E
        (bf_waitForNotification (segment_api.truncate (xe_gaspi E)) (sg (xe_targetSegment E)) recv))) (\<lambda>_.
     act_bind (on_passive (\<lambda>_. load_descriptions (bf_address recv))) (\<lambda>(remoteTarget, remoteSource).
     act_bind (on_locals (\<lambda>X. X\<lparr>remoteTargets := (remoteTargets X)[i := remoteTarget],
        remoteSources := (remoteSources X)[i := remoteSource], recvBuffers := (recvBuffers X)[i := None]\<rparr>)) (\<lambda>_.
     act_bind (on_segments (delete_buffer (xe_targetSegment E) recv)) (\<lambda>_.
     on_passive (\<lambda>_. with_lib (\<lambda>_. cx_write (xe_context E) src remoteTarget))))))"

definition write_body :: "'s exchange_env \<Rightarrow> nat \<Rightarrow> ('s call, unit) act" where
  "write_body E i = with_locals (\<lambda>X. dereference (recvBuffers X ! i) (receive_description E i (localSources X ! i)))"

definition answer_body :: "'s exchange_env \<Rightarrow> nat \<Rightarrow> ('s call, unit) act" where
  "answer_body E i = with_locals (\<lambda>X.
     act_bind (on_passive (\<lambda>_. waited E (waitForBufferNotification (xe_gaspi E) (localTargets X ! i)))) (\<lambda>_.
     act_bind (on_passive (\<lambda>_. with_lib (\<lambda>_. cx_notify (xe_context E) (remoteSources X ! i)))) (\<lambda>_.
     on_segments (on_segment (xe_targetSegment E) (release_notification (bd_notificationId (localTargets X ! i)))))))"

definition finish_send :: "'s exchange_env \<Rightarrow> nat \<Rightarrow> buffer_description \<Rightarrow> buffer \<Rightarrow> ('s call, unit) act" where
  "finish_send E i src send =
     act_bind (on_passive (\<lambda>sg. waited E
        (bf_waitForNotification (segment_api.truncate (xe_gaspi E)) (sg (xe_targetSegment E)) send))) (\<lambda>_.
     act_bind (on_locals (\<lambda>X. X\<lparr>sendBuffers := (sendBuffers X)[i := None]\<rparr>)) (\<lambda>_.
     act_bind (on_segments (delete_buffer (xe_targetSegment E) send)) (\<lambda>_.
     on_segments (on_segment (xe_sourceSegment E) (release_notification (bd_notificationId src))))))"

definition confirm_body :: "'s exchange_env \<Rightarrow> nat \<Rightarrow> ('s call, unit) act" where
  "confirm_body E i = with_locals (\<lambda>X.
     act_bind (on_passive (\<lambda>_. waited E (waitForBufferNotification (xe_gaspi E) (localSources X ! i)))) (\<lambda>_.
     dereference (sendBuffers X ! i) (finish_send E i (localSources X ! i))))"

definition flush_body :: "'s exchange_env \<Rightarrow> ('s call, unit) act" where
  "flush_body E = on_passive (\<lambda>_. with_lib (\<lambda>_. cx_flush (xe_context E)))"

section \<open>The functions\<close>

definition exchange_body :: "'s exchange_env \<Rightarrow> ('s call, unit) act" where
  "exchange_body E =
     (let n = g_size (xe_group E)
      in act_bind (for_each (describe_body E) [0..<n]) (\<lambda>_.
         act_bind (for_each (write_body E) [0..<n]) (\<lambda>_.
         act_bind (for_each (answer_body E) [0..<n]) (\<lambda>_.
         act_bind (for_each (confirm_body E) [0..<n]) (\<lambda>_.
         flush_body E)))))"

definition pointers :: "buffer option list \<Rightarrow> buffer list" where
  "pointers bs = concat (map (\<lambda>b. case b of None \<Rightarrow> [] | Some b \<Rightarrow> [b]) bs)"

text \<open>
  On every way out the vectors are destroyed.  An exception of a destructor would end the program:
  it is the result then.
\<close>

definition blocking_exchange :: "'s exchange_env \<Rightarrow> ((nat \<Rightarrow> segment) \<times> 's pstate, unit) act" where
  "blocking_exchange E = (\<lambda>(sg, p).
     case exchange_body E (exchange_vectors (g_size (xe_group E)), sg, p) of
       (r, X, sg1, p1) \<Rightarrow>
         (case destroy_buffers (xe_targetSegment E) (pointers (recvBuffers X)) (pointers (sendBuffers X)) (sg1, pv_lib p1) of
            (Inl e, sg2, s2) \<Rightarrow> (Inl e, sg2, p1\<lparr>pv_lib := s2\<rparr>)
          | (Inr u, sg2, s2) \<Rightarrow> (r, sg2, p1\<lparr>pv_lib := s2\<rparr>)))"

text \<open>The four functions: the layout of the environment is the one of their sizes.\<close>

definition allgather where
  "allgather E sz = blocking_exchange (E\<lparr>xe_layout := allgather_layout sz\<rparr>)"

definition allgatherv where
  "allgatherv E sizes = blocking_exchange (E\<lparr>xe_layout := allgatherv_layout (unat (get (g_rank (xe_group E)))) sizes\<rparr>)"

definition alltoall where
  "alltoall E sz = blocking_exchange (E\<lparr>xe_layout := alltoall_layout sz\<rparr>)"

definition alltoallv where
  "alltoallv E sourceSizes targetSizes = blocking_exchange (E\<lparr>xe_layout := alltoallv_layout sourceSizes targetSizes\<rparr>)"

section \<open>Operations that end or throw\<close>

text \<open>What holds after an operation that ends, and after one that throws.\<close>

definition valid :: "('w \<Rightarrow> bool) \<Rightarrow> ('w, 'a) act \<Rightarrow> ('a \<Rightarrow> 'w \<Rightarrow> bool) \<Rightarrow> ('w \<Rightarrow> bool) \<Rightarrow> bool" where
  "valid P m Q E \<longleftrightarrow> (\<forall>w. P w \<longrightarrow> (case m w of (Inr a, w') \<Rightarrow> Q a w' | (Inl x, w') \<Rightarrow> E w'))"

lemma valid_bind: "valid P m Q E \<Longrightarrow> (\<And>a. valid (Q a) (f a) R E) \<Longrightarrow> valid P (act_bind m f) R E"
  unfolding valid_def act_bind_def by (fastforce split: sum.splits prod.splits)

lemma valid_conseq:
  "valid P m Q E \<Longrightarrow> (\<And>w. P' w \<Longrightarrow> P w) \<Longrightarrow> (\<And>a w. Q a w \<Longrightarrow> Q' a w) \<Longrightarrow> (\<And>w. E w \<Longrightarrow> E' w) \<Longrightarrow> valid P' m Q' E'"
  unfolding valid_def by (fastforce split: sum.splits prod.splits)

lemma valid_return: "(\<And>w. P w \<Longrightarrow> Q a w) \<Longrightarrow> valid P (act_return a) Q E"
  by (simp add: valid_def)

lemma valid_sum:
  "(\<And>e. valid P (f e) Q E) \<Longrightarrow> (\<And>a. valid P (g a) Q E) \<Longrightarrow> valid P (case x of Inl e \<Rightarrow> f e | Inr a \<Rightarrow> g a) Q E"
  by (cases x) simp_all

lemma valid_pair: "(\<And>a b. valid (P (a, b)) (f a b) Q E) \<Longrightarrow> valid (P t) (case t of (a, b) \<Rightarrow> f a b) Q E"
  by (cases t) simp

lemma valid_throw: "(\<And>w. P w \<Longrightarrow> E w) \<Longrightarrow> valid P (act_throw x) Q E"
  by (simp add: valid_def)

text \<open>A loop that throws does so in a first element, before which it has run.\<close>

lemma valid_for_each:
  assumes "\<And>k. k < length xs \<Longrightarrow> valid (I k) (f (xs ! k)) (\<lambda>_. I (Suc k)) (E k)" "I 0 w" "for_each f xs w = (r, w')"
  shows "case r of Inr u \<Rightarrow> I (length xs) w'
    | Inl x \<Rightarrow> \<exists>k < length xs. \<exists>w1. for_each f (take k xs) w = (Inr (), w1) \<and> f (xs ! k) w1 = (Inl x, w') \<and> E k w'"
  using assms
proof (induction xs arbitrary: I E w)
  case Nil
  then show ?case by auto
next
  case (Cons y ys)
  obtain q w1 where 1: "f y w = (q, w1)" by force
  have v: "valid (I 0) (f y) (\<lambda>_. I 1) (E 0)" using Cons.prems(1) [of 0] by simp
  show ?case
  proof (cases q)
    case (Inl x)
    then have "E 0 w1" using v Cons.prems(2) 1 by (force simp: valid_def)
    then show ?thesis using Cons.prems(3) 1 Inl
      by (auto simp: act_bind_apply intro!: exI [of _ "0 :: nat"])
  next
    case (Inr u)
    then have i: "I 1 w1" using v Cons.prems(2) 1 by (force simp: valid_def)
    have l: "for_each f ys w1 = (r, w')" using Cons.prems(3) 1 Inr by (simp add: act_bind_apply)
    have IH: "case r of Inr u \<Rightarrow> I (Suc (length ys)) w'
      | Inl x \<Rightarrow> \<exists>k < length ys. \<exists>w2. for_each f (take k ys) w1 = (Inr (), w2) \<and> f (ys ! k) w2 = (Inl x, w') \<and> E (Suc k) w'"
      by (rule Cons.IH [of "\<lambda>k. I (Suc k)" "\<lambda>k. E (Suc k)"]) (use Cons.prems(1) [of "Suc _"] i l in auto)
    show ?thesis
    proof (cases r)
      case (Inl x)
      then obtain k w2 where "k < length ys" "for_each f (take k ys) w1 = (Inr (), w2)" "f (ys ! k) w2 = (Inl x, w')" "E (Suc k) w'"
        using IH by auto
      then have "Suc k < length (y # ys)" "for_each f (take (Suc k) (y # ys)) w = (Inr (), w2)"
        "f ((y # ys) ! Suc k) w2 = (Inl x, w')" "E (Suc k) w'"
        using 1 \<open>q = Inr u\<close> by (simp_all add: act_bind_apply)
      then show ?thesis unfolding Inl sum.case by blast
    next
      case (Inr v)
      then show ?thesis using IH by simp
    qed
  qed
qed

text \<open>Assertions on the local variables and the segments.\<close>

abbreviation asserts :: "(exchange_locals \<Rightarrow> (nat \<Rightarrow> segment) \<Rightarrow> bool) \<Rightarrow> 's call \<Rightarrow> bool" where
  "asserts J \<equiv> (\<lambda>(X, sg, p). J X sg)"

lemma valid_passive: "(\<And>X sg. J X sg \<Longrightarrow> B X sg) \<Longrightarrow> valid (asserts J) (on_passive m) (\<lambda>_. asserts J) (asserts B)"
  by (auto simp: valid_def on_passive_def split: prod.splits sum.splits)

lemma valid_locals: "(\<And>X sg. J X sg \<Longrightarrow> J' (f X) sg) \<Longrightarrow> valid (asserts J) (on_locals f) (\<lambda>_. asserts J') E"
  by (auto simp: valid_def on_locals_def)

lemma valid_with_locals:
  "(\<And>X. valid (asserts (\<lambda>X' sg. X' = X \<and> J X sg)) (f X) Q E) \<Longrightarrow> valid (asserts J) (with_locals f) Q E"
  by (auto simp: valid_def with_locals_def)

lemma valid_segments:
  "(\<And>X sg s r sg' s'. J X sg \<Longrightarrow> m (sg, s) = (r, sg', s') \<Longrightarrow> (case r of Inr a \<Rightarrow> J' a X sg' | Inl x \<Rightarrow> B X sg')) \<Longrightarrow>
   valid (asserts J) (on_segments m) (\<lambda>a. asserts (J' a)) (asserts B)"
  by (fastforce simp: valid_def on_segments_def split: prod.splits sum.splits)

section \<open>The books of a call\<close>

lemma pointers_Cons: "pointers (x # xs) = (case x of None \<Rightarrow> [] | Some b \<Rightarrow> [b]) @ pointers xs"
  and pointers_Nil [simp]: "pointers [] = []"
  by (simp_all add: pointers_def)

lemma pointers_none [simp]: "pointers (replicate n None) = []"
  by (induction n) (simp_all add: pointers_Cons)

lemma pointers_put: "k < length xs \<Longrightarrow> xs ! k = None \<Longrightarrow> mset (pointers (xs[k := Some b])) = add_mset b (mset (pointers xs))"
  by (induction xs arbitrary: k) (auto simp: pointers_Cons nth_Cons' split: nat.split)

lemma pointers_drop: "k < length xs \<Longrightarrow> xs ! k = Some b \<Longrightarrow> mset (pointers xs) = add_mset b (mset (pointers (xs[k := None])))"
  by (induction xs arbitrary: k) (auto simp: pointers_Cons nth_Cons' split: nat.split)

lemma buffer_books_mset: "buffer_notes k bs j = \<Sum>\<^sub># (image_mset (\<lambda>b. at k (scast (bf_notification b), 1) j) (mset bs))"
  "buffer_memory k bs j = \<Sum>\<^sub># (image_mset (\<lambda>b. at k (bf_pointer b, bf_size b) j) (mset bs))"
  by (simp_all add: buffer_notes_def buffer_memory_def flip: mset_map sum_mset_sum_list)

text \<open>
  \<open>owed\<close>: the segments have grown by what the pointers hold and by the notifications \<open>Z\<close>.
  \<open>pending\<close>: the notifications of the descriptions made in the iterations before \<open>m\<close>, less those of
  the target blocks before \<open>a\<close> and of the source blocks before \<open>b\<close>.
\<close>

record ledger =
  le_size :: nat
  le_lo :: "nat \<Rightarrow> nat"
  le_hi :: "nat \<Rightarrow> nat"
  le_start :: "nat \<Rightarrow> segment"

abbreviation both :: "'s exchange_env \<Rightarrow> nat set" where
  "both E \<equiv> {xe_sourceSegment E, xe_targetSegment E}"

definition owed :: "ledger \<Rightarrow> 's exchange_env \<Rightarrow> exchange_locals \<Rightarrow> book \<Rightarrow> (nat \<Rightarrow> segment) \<Rightarrow> bool" where
  "owed l E X Z sg \<longleftrightarrow> booked (le_size l) (le_lo l) (le_hi l) (both E) (le_start l)
     (\<lambda>j. buffer_notes (xe_targetSegment E) (pointers (recvBuffers X)) j +
          (buffer_notes (xe_targetSegment E) (pointers (sendBuffers X)) j + Z j))
     (\<lambda>j. buffer_memory (xe_targetSegment E) (pointers (recvBuffers X)) j +
          buffer_memory (xe_targetSegment E) (pointers (sendBuffers X)) j) sg \<and>
     (\<forall>b \<in> set (pointers (recvBuffers X)) \<union> set (pointers (sendBuffers X)). owning b)"

abbreviation note_at :: "nat \<Rightarrow> buffer_description \<Rightarrow> book" where
  "note_at k d \<equiv> at k (scast (bd_notificationId d), 1)"

definition pending :: "'s exchange_env \<Rightarrow> exchange_locals \<Rightarrow> nat \<Rightarrow> nat \<Rightarrow> nat \<Rightarrow> book" where
  "pending E X a b m j = (\<Sum>i\<leftarrow>[a..<m]. note_at (xe_targetSegment E) (localTargets X ! i) j) +
     (\<Sum>i\<leftarrow>[b..<m]. note_at (xe_sourceSegment E) (localSources X ! i) j)"

text \<open>\<open>m\<close> descriptions made, \<open>q\<close> receive buffers made and the first \<open>w\<close> given back, \<open>a\<close> target
  notifications and \<open>b\<close> source notifications given back.\<close>

definition progress :: "ledger \<Rightarrow> 's exchange_env \<Rightarrow> nat \<Rightarrow> nat \<Rightarrow> nat \<Rightarrow> nat \<Rightarrow> nat \<Rightarrow> exchange_locals \<Rightarrow> (nat \<Rightarrow> segment) \<Rightarrow> bool" where
  "progress l E m q w a b X sg \<longleftrightarrow>
     (let n = g_size (xe_group E)
      in length (localSources X) = n \<and> length (localTargets X) = n \<and> length (sendBuffers X) = n \<and> length (recvBuffers X) = n \<and>
         (\<forall>i < n. recvBuffers X ! i \<noteq> None \<longleftrightarrow> w \<le> i \<and> i < q) \<and>
         (\<forall>i < n. sendBuffers X ! i \<noteq> None \<longleftrightarrow> b \<le> i \<and> i < m) \<and>
         owed l E X (pending E X a b m) sg)"

text \<open>What an exception leaves: \<open>c\<close> notifications more than the buffers hold.\<close>

definition leaks :: "ledger \<Rightarrow> 's exchange_env \<Rightarrow> nat set \<Rightarrow> exchange_locals \<Rightarrow> (nat \<Rightarrow> segment) \<Rightarrow> bool" where
  "leaks l E c X sg \<longleftrightarrow> (\<exists>Z. owed l E X Z sg \<and> lost (both E) Z \<in> c)"

lemma lost_list: "finite K \<Longrightarrow> k \<in> K \<Longrightarrow> lost K (\<lambda>j. \<Sum>x\<leftarrow>xs. at k (f x) j) = length xs"
  by (induction xs) (use lost_at [of K k] in \<open>simp_all add: lost_add\<close>)

lemma lost_pending [simp]: "lost (both E) (pending E X a b m) = (m - a) + (m - b)"
proof -
  have "pending E X a b m = (\<lambda>j. (\<Sum>i\<leftarrow>[a..<m]. note_at (xe_targetSegment E) (localTargets X ! i) j) +
     (\<Sum>i\<leftarrow>[b..<m]. note_at (xe_sourceSegment E) (localSources X ! i) j))"
    by (rule ext) (simp add: pending_def)
  then show ?thesis
    using lost_list [of "both E" "xe_targetSegment E" "\<lambda>i. (scast (bd_notificationId (localTargets X ! i)), 1)" "[a..<m]"]
      lost_list [of "both E" "xe_sourceSegment E" "\<lambda>i. (scast (bd_notificationId (localSources X ! i)), 1)" "[b..<m]"]
    by (simp add: lost_add)
qed

lemma progress_leaks: "progress l E m q w a b X sg \<Longrightarrow> (m - a) + (m - b) \<in> c \<Longrightarrow> leaks l E c X sg"
  unfolding progress_def Let_def leaks_def by (metis lost_pending)

text \<open>A pointer is filled, a pointer is reset.\<close>

lemma owed_recv_put:
  assumes "k < length (recvBuffers X)" "recvBuffers X ! k = None"
  shows "owed l E (X\<lparr>recvBuffers := (recvBuffers X)[k := Some b]\<rparr>) Z sg \<longleftrightarrow>
    booked (le_size l) (le_lo l) (le_hi l) (both E) (le_start l)
     (\<lambda>j. at (xe_targetSegment E) (scast (bf_notification b), 1) j +
          (buffer_notes (xe_targetSegment E) (pointers (recvBuffers X)) j +
          (buffer_notes (xe_targetSegment E) (pointers (sendBuffers X)) j + Z j)))
     (\<lambda>j. at (xe_targetSegment E) (bf_pointer b, bf_size b) j +
          (buffer_memory (xe_targetSegment E) (pointers (recvBuffers X)) j +
          buffer_memory (xe_targetSegment E) (pointers (sendBuffers X)) j)) sg \<and> owning b \<and>
     (\<forall>b \<in> set (pointers (recvBuffers X)) \<union> set (pointers (sendBuffers X)). owning b)"
proof -
  have m: "mset (pointers ((recvBuffers X)[k := Some b])) = add_mset b (mset (pointers (recvBuffers X)))"
    by (rule pointers_put [OF assms])
  have "set (pointers ((recvBuffers X)[k := Some b])) = insert b (set (pointers (recvBuffers X)))"
    using arg_cong [OF m, of set_mset] by simp
  then show ?thesis by (auto simp: owed_def buffer_books_mset m ac_simps)
qed

lemma owed_send_put:
  assumes "k < length (sendBuffers X)" "sendBuffers X ! k = None"
  shows "owed l E (X\<lparr>sendBuffers := (sendBuffers X)[k := Some b]\<rparr>) Z sg \<longleftrightarrow>
    booked (le_size l) (le_lo l) (le_hi l) (both E) (le_start l)
     (\<lambda>j. at (xe_targetSegment E) (scast (bf_notification b), 1) j +
          (buffer_notes (xe_targetSegment E) (pointers (recvBuffers X)) j +
          (buffer_notes (xe_targetSegment E) (pointers (sendBuffers X)) j + Z j)))
     (\<lambda>j. at (xe_targetSegment E) (bf_pointer b, bf_size b) j +
          (buffer_memory (xe_targetSegment E) (pointers (recvBuffers X)) j +
          buffer_memory (xe_targetSegment E) (pointers (sendBuffers X)) j)) sg \<and> owning b \<and>
     (\<forall>b \<in> set (pointers (recvBuffers X)) \<union> set (pointers (sendBuffers X)). owning b)"
proof -
  have m: "mset (pointers ((sendBuffers X)[k := Some b])) = add_mset b (mset (pointers (sendBuffers X)))"
    by (rule pointers_put [OF assms])
  have "set (pointers ((sendBuffers X)[k := Some b])) = insert b (set (pointers (sendBuffers X)))"
    using arg_cong [OF m, of set_mset] by simp
  then show ?thesis by (auto simp: owed_def buffer_books_mset m ac_simps)
qed

lemma owed_delete_recv:
  assumes "owed l E X Z sg" "k < length (recvBuffers X)" "recvBuffers X ! k = Some b"
  shows "\<exists>sg'. delete_buffer (xe_targetSegment E) b (sg, s) = (Inr (), sg', s) \<and>
    owed l E (X\<lparr>recvBuffers := (recvBuffers X)[k := None]\<rparr>) Z sg'"
proof -
  let ?X = "X\<lparr>recvBuffers := (recvBuffers X)[k := None]\<rparr>"
  have "owed l E (?X\<lparr>recvBuffers := (recvBuffers ?X)[k := Some b]\<rparr>) Z sg"
    using assms(1) list_update_id [of "recvBuffers X" k] assms(3) by simp
  note o = iffD1 [OF owed_recv_put this]
  have B: "k < length (recvBuffers ?X)" "recvBuffers ?X ! k = None" using assms(2) by simp_all
  have "owning b" "xe_targetSegment E \<in> both E" using o [OF B] by simp_all
  from delete_booked [OF conjunct1 [OF o [OF B]] this(2,1), of s] show ?thesis
    using o [OF B] unfolding owed_def [of l E ?X] by blast
qed

lemma owed_delete_send:
  assumes "owed l E X Z sg" "k < length (sendBuffers X)" "sendBuffers X ! k = Some b"
  shows "\<exists>sg'. delete_buffer (xe_targetSegment E) b (sg, s) = (Inr (), sg', s) \<and>
    owed l E (X\<lparr>sendBuffers := (sendBuffers X)[k := None]\<rparr>) Z sg'"
proof -
  let ?X = "X\<lparr>sendBuffers := (sendBuffers X)[k := None]\<rparr>"
  have "owed l E (?X\<lparr>sendBuffers := (sendBuffers ?X)[k := Some b]\<rparr>) Z sg"
    using assms(1) list_update_id [of "sendBuffers X" k] assms(3) by simp
  note o = iffD1 [OF owed_send_put this]
  have B: "k < length (sendBuffers ?X)" "sendBuffers ?X ! k = None" using assms(2) by simp_all
  have "owning b" "xe_targetSegment E \<in> both E" using o [OF B] by simp_all
  from delete_booked [OF conjunct1 [OF o [OF B]] this(2,1), of s] show ?thesis
    using o [OF B] unfolding owed_def [of l E ?X] by blast
qed

lemma owed_release:
  assumes "owed l E X (\<lambda>j. at k (scast n, 1) j + Z j) sg" "k \<in> both E"
  shows "\<exists>sg'. on_segment k (release_notification n) (sg, s) = (Inr (), sg', s) \<and> owed l E X Z sg'"
proof -
  have "booked (le_size l) (le_lo l) (le_hi l) (both E) (le_start l)
     (\<lambda>j. at k (scast n, 1) j + (buffer_notes (xe_targetSegment E) (pointers (recvBuffers X)) j +
          (buffer_notes (xe_targetSegment E) (pointers (sendBuffers X)) j + Z j)))
     (\<lambda>j. buffer_memory (xe_targetSegment E) (pointers (recvBuffers X)) j +
          buffer_memory (xe_targetSegment E) (pointers (sendBuffers X)) j) sg"
    using assms(1) by (simp add: owed_def ac_simps)
  from booked_release [OF this assms(2), of s] show ?thesis using assms(1) unfolding owed_def by blast
qed

lemma pending_buffers [simp]:
  "pending E (X\<lparr>sendBuffers := u\<rparr>) a b m = pending E X a b m"
  "pending E (X\<lparr>recvBuffers := u\<rparr>) a b m = pending E X a b m"
  "pending E (X\<lparr>remoteSources := v\<rparr>) a b m = pending E X a b m"
  "pending E (X\<lparr>remoteTargets := v\<rparr>) a b m = pending E X a b m"
  by (simp_all add: pending_def fun_eq_iff)

lemma owed_remote [simp]:
  "owed l E (X\<lparr>remoteSources := v\<rparr>) Z sg = owed l E X Z sg"
  "owed l E (X\<lparr>remoteTargets := v\<rparr>) Z sg = owed l E X Z sg"
  by (simp_all add: owed_def)

lemma pending_target: "a < m \<Longrightarrow> pending E X a b m j = note_at (xe_targetSegment E) (localTargets X ! a) j + pending E X (Suc a) b m j"
  by (simp add: pending_def upt_conv_Cons add.assoc)

lemma pending_source: "b < m \<Longrightarrow> pending E X a b m j = note_at (xe_sourceSegment E) (localSources X ! b) j + pending E X a (Suc b) m j"
  by (simp add: pending_def upt_conv_Cons ac_simps)

lemma pending_made:
  assumes "m < length (localTargets X)" "m < length (localSources X)"
    "localTargets Y = (localTargets X)[m := tgt]" "localSources Y = (localSources X)[m := src]"
  shows "pending E Y 0 0 (Suc m) j = pending E X 0 0 m j +
    (note_at (xe_sourceSegment E) src j + note_at (xe_targetSegment E) tgt j)"
proof -
  have "(\<Sum>i\<leftarrow>[0..<m]. note_at (xe_targetSegment E) (localTargets Y ! i) j) = (\<Sum>i\<leftarrow>[0..<m]. note_at (xe_targetSegment E) (localTargets X ! i) j)"
    "(\<Sum>i\<leftarrow>[0..<m]. note_at (xe_sourceSegment E) (localSources Y ! i) j) = (\<Sum>i\<leftarrow>[0..<m]. note_at (xe_sourceSegment E) (localSources X ! i) j)"
    by (rule arg_cong [of _ _ sum_list], rule map_cong, simp, simp add: assms)+
  then show ?thesis using assms by (simp add: pending_def ac_simps)
qed

section \<open>The steps of the loops\<close>

text \<open>First loop.\<close>

lemma describe_sent_progress:
  assumes p: "progress l E i i 0 0 0 X sg" and i: "i < g_size (xe_group E)"
    and c: "describe_sent G (xe_group E) (xe_sourceSegment E) gs (xe_targetSegment E) gt L i (sg, s) = (r, sg', s')"
  shows "case r of
      Inr (src, tgt, send) \<Rightarrow> progress l E (Suc i) i 0 0 0 (X\<lparr>localSources := (localSources X)[i := src],
        localTargets := (localTargets X)[i := tgt], sendBuffers := (sendBuffers X)[i := Some send]\<rparr>) sg'
    | Inl x \<Rightarrow> leaks l E {2 * i..2 * i + 2} X sg'"
proof -
  have o: "owed l E X (pending E X 0 0 i) sg" and le: "length (localSources X) = g_size (xe_group E)"
    "length (localTargets X) = g_size (xe_group E)" "length (sendBuffers X) = g_size (xe_group E)"
    and none: "sendBuffers X ! i = None"
    using p i by (auto simp: progress_def Let_def)
  note B = conjunct1 [OF o [unfolded owed_def]] and own = conjunct2 [OF o [unfolded owed_def]]
  have k: "xe_sourceSegment E \<in> both E" "xe_targetSegment E \<in> both E" "finite (both E)" by simp_all
  show ?thesis
  proof (cases r)
    case (Inl x)
    from describe_sent_Inl_booked [OF c [unfolded Inl] B k] obtain Z where
      Z: "booked (le_size l) (le_lo l) (le_hi l) (both E) (le_start l) (\<lambda>j. Z j +
           (buffer_notes (xe_targetSegment E) (pointers (recvBuffers X)) j +
           (buffer_notes (xe_targetSegment E) (pointers (sendBuffers X)) j + pending E X 0 0 i j)))
         (\<lambda>j. buffer_memory (xe_targetSegment E) (pointers (recvBuffers X)) j +
           buffer_memory (xe_targetSegment E) (pointers (sendBuffers X)) j) sg'" "lost (both E) Z \<le> 2"
      by (elim exE conjE)
    have "owed l E X (\<lambda>j. Z j + pending E X 0 0 i j) sg'" using Z(1) own by (simp add: owed_def ac_simps)
    moreover have "lost (both E) (\<lambda>j. Z j + pending E X 0 0 i j) \<in> {2 * i..2 * i + 2}"
      using Z(2) by (simp add: lost_add)
    ultimately show ?thesis unfolding Inl leaks_def sum.case by blast
  next
    case (Inr t)
    obtain src tgt send where t: "t = (src, tgt, send)" by (metis surj_pair)
    let ?X = "X\<lparr>localSources := (localSources X)[i := src], localTargets := (localTargets X)[i := tgt]\<rparr>"
    note S = describe_sent_Inr_booked [OF c [unfolded Inr t] B k(1,2)]
    have P: "pending E ?X 0 0 (Suc i) j = pending E X 0 0 i j +
        (note_at (xe_sourceSegment E) src j + note_at (xe_targetSegment E) tgt j)" for j
      by (rule pending_made) (use le i in simp_all)
    have "owed l E (?X\<lparr>sendBuffers := (sendBuffers ?X)[i := Some send]\<rparr>) (pending E ?X 0 0 (Suc i)) sg'"
      by (subst owed_send_put) (use S own le i none in \<open>simp_all add: P ac_simps\<close>)
    then show ?thesis using p i by (auto simp: Inr t progress_def Let_def nth_list_update less_Suc_eq)
  qed
qed

lemma new_buffer_progress:
  assumes p: "progress l E (Suc i) i 0 0 0 X sg" and i: "i < g_size (xe_group E)"
    and c: "new_buffer (xe_targetSegment E) 46 (sg, s) = (r, sg', s')"
  shows "case r of
      Inr recv \<Rightarrow> progress l E (Suc i) (Suc i) 0 0 0 (X\<lparr>recvBuffers := (recvBuffers X)[i := Some recv]\<rparr>) sg'
    | Inl x \<Rightarrow> leaks l E {2 * i..2 * i + 2} X sg'"
proof -
  have o: "owed l E X (pending E X 0 0 (Suc i)) sg" and le: "length (recvBuffers X) = g_size (xe_group E)"
    and none: "recvBuffers X ! i = None"
    using p i by (auto simp: progress_def Let_def)
  note B = conjunct1 [OF o [unfolded owed_def]] and own = conjunct2 [OF o [unfolded owed_def]]
  have k: "xe_targetSegment E \<in> both E" and z: "(0 :: u64) < 46" by simp_all
  show ?thesis
  proof (cases r)
    case (Inl x)
    from new_buffer_Inl_booked [OF c [unfolded Inl] B k z] own have "owed l E X (pending E X 0 0 (Suc i)) sg'"
      by (simp add: owed_def)
    moreover have "lost (both E) (pending E X 0 0 (Suc i)) \<in> {2 * i..2 * i + 2}" by simp
    ultimately show ?thesis unfolding Inl leaks_def sum.case by blast
  next
    case (Inr recv)
    let ?X = "X\<lparr>recvBuffers := (recvBuffers X)[i := Some recv]\<rparr>"
    note S = booked_new_buffer [OF c [unfolded Inr] B k z]
    have "owed l E ?X (pending E X 0 0 (Suc i)) sg'"
      by (subst owed_recv_put) (use S own le i none in \<open>simp_all add: owning_def ac_simps\<close>)
    then show ?thesis using p i by (auto simp: Inr progress_def Let_def nth_list_update less_Suc_eq)
  qed
qed

lemma post_valid:
  assumes i: "i < g_size (xe_group E)"
  shows "valid (asserts (progress l E (Suc i) i 0 0 0)) (post_descriptions E i src tgt send)
    (\<lambda>_. asserts (progress l E (Suc i) (Suc i) 0 0 0)) (asserts (leaks l E {2 * i..2 * i + 2}))"
proof -
  have bad: "leaks l E {2 * i..2 * i + 2} X sg" if "progress l E (Suc i) q 0 0 0 X sg" for q X sg
    by (rule progress_leaks [OF that]) simp
  have n: "valid (asserts (progress l E (Suc i) i 0 0 0))
      (on_segments (new_buffer (xe_targetSegment E) (of_nat (bd_ssize bd_default) + of_nat (bd_ssize bd_default))))
      (\<lambda>recv. asserts (\<lambda>X. progress l E (Suc i) (Suc i) 0 0 0 (X\<lparr>recvBuffers := (recvBuffers X)[i := Some recv]\<rparr>)))
      (asserts (leaks l E {2 * i..2 * i + 2}))"
    by (rule valid_segments) (use new_buffer_progress [OF _ i] in simp)
  show ?thesis unfolding post_descriptions_def
    apply (rule valid_bind [OF valid_passive [OF bad]], assumption)
    apply (rule valid_bind [OF n])
    apply (rule valid_bind [OF valid_locals [where J' = "progress l E (Suc i) (Suc i) 0 0 0"]], assumption)
    apply (rule valid_sum)
     apply (rule valid_throw, use bad in blast)
    apply (rule valid_bind [OF valid_passive [OF bad]], assumption)
    apply (rule valid_bind [OF valid_passive [OF bad]], assumption)
    apply (rule valid_return, assumption)
    done
qed

lemma describe_valid:
  assumes i: "i < g_size (xe_group E)"
  shows "valid (asserts (progress l E i i 0 0 0)) (describe_body E i) (\<lambda>_. asserts (progress l E (Suc i) (Suc i) 0 0 0))
    (asserts (leaks l E {2 * i..2 * i + 2}))"
proof -
  let ?set = "\<lambda>(src, tgt, send) X. X\<lparr>localSources := (localSources X)[i := src],
        localTargets := (localTargets X)[i := tgt], sendBuffers := (sendBuffers X)[i := Some send]\<rparr>"
  have d: "valid (asserts (progress l E i i 0 0 0)) (on_segments (describe_sent (segment_api.truncate (xe_gaspi E)) (xe_group E)
        (xe_sourceSegment E) (xe_source E) (xe_targetSegment E) (xe_target E) (xe_layout E) i))
      (\<lambda>t. asserts (\<lambda>X. progress l E (Suc i) i 0 0 0 (?set t X))) (asserts (leaks l E {2 * i..2 * i + 2}))"
  proof (rule valid_segments, goal_cases)
    case (1 X sg s r sg' s')
    from describe_sent_progress [OF 1(1) i 1(2)] show ?case
      by (cases r) (simp_all add: case_prod_beta)
  qed
  show ?thesis unfolding describe_body_def
    apply (rule valid_bind [OF d])
    apply (rule valid_pair)
    apply (rule valid_pair)
    apply (rule valid_bind [OF valid_locals [where J' = "progress l E (Suc i) i 0 0 0"] post_valid [OF i]])
    apply simp
    done
qed

text \<open>Second loop.\<close>

lemma delete_recv_progress:
  assumes p: "progress l E n n i 0 0 X sg" and i: "i < n" "n = g_size (xe_group E)" "recvBuffers X ! i = Some recv"
    and c: "delete_buffer (xe_targetSegment E) recv (sg, s) = (r, sg', s')"
  shows "\<exists>u. r = Inr u \<and> progress l E n n (Suc i) 0 0
    (X\<lparr>remoteTargets := v, remoteSources := v', recvBuffers := (recvBuffers X)[i := None]\<rparr>) sg'"
proof -
  have o: "owed l E X (pending E X 0 0 n) sg" "i < length (recvBuffers X)" using p i by (auto simp: progress_def Let_def)
  from owed_delete_recv [OF o(1,2) i(3), of s] c obtain u where r: "r = Inr u"
    and "owed l E (X\<lparr>recvBuffers := (recvBuffers X)[i := None]\<rparr>) (pending E X 0 0 n) sg'" by auto
  then have "owed l E (X\<lparr>remoteTargets := v, remoteSources := v', recvBuffers := (recvBuffers X)[i := None]\<rparr>) (pending E X 0 0 n) sg'"
    by (simp add: owed_def)
  then show ?thesis using p i r by (auto simp: progress_def Let_def nth_list_update pending_def)
qed

lemma write_valid:
  assumes i: "i < n" and n: "n = g_size (xe_group E)"
  shows "valid (asserts (progress l E n n i 0 0)) (write_body E i) (\<lambda>_. asserts (progress l E n n (Suc i) 0 0)) (asserts (leaks l E {2 * n}))"
proof -
  have bad: "leaks l E {2 * n} X sg" if "progress l E n n w 0 0 X sg" for w X sg
    by (rule progress_leaks [OF that]) simp
  show ?thesis unfolding write_body_def
  proof (rule valid_with_locals)
    fix X
    let ?J = "\<lambda>X' sg. X' = X \<and> progress l E n n i 0 0 X sg"
    let ?set = "\<lambda>t s X. X\<lparr>remoteTargets := (remoteTargets X)[i := t], remoteSources := (remoteSources X)[i := s],
      recvBuffers := (recvBuffers X)[i := None]\<rparr>"
    show "valid (asserts ?J) (dereference (recvBuffers X ! i) (receive_description E i (localSources X ! i)))
       (\<lambda>_. asserts (progress l E n n (Suc i) 0 0)) (asserts (leaks l E {2 * n}))"
    proof (cases "recvBuffers X ! i")
      case None
      then show ?thesis unfolding dereference_def by (simp, intro valid_throw) (use bad in auto)
    next
      case (Some recv)
      have d: "valid (asserts (\<lambda>X' sg. X' = ?set t u X \<and> progress l E n n i 0 0 X sg)) (on_segments (delete_buffer (xe_targetSegment E) recv))
          (\<lambda>_. asserts (progress l E n n (Suc i) 0 0)) (asserts (leaks l E {2 * n}))" for t u
        by (rule valid_segments) (use delete_recv_progress [OF _ i n Some] in fastforce)
      show ?thesis unfolding dereference_def Some option.case receive_description_def
        apply (rule valid_bind [OF valid_passive], use bad in blast)
        apply (rule valid_bind [OF valid_passive], use bad in blast)
        apply (rule valid_pair)
        apply (rule valid_bind [OF valid_locals valid_bind [OF d]], simp)
        apply (rule valid_passive, erule bad)
        done
    qed
  qed
qed

text \<open>Third loop.\<close>

lemma release_target_progress:
  assumes p: "progress l E n n n i 0 X sg" and i: "i < n"
    and c: "on_segment (xe_targetSegment E) (release_notification (bd_notificationId (localTargets X ! i))) (sg, s) = (r, sg', s')"
  shows "\<exists>u. r = Inr u \<and> progress l E n n n (Suc i) 0 X sg'"
proof -
  have "owed l E X (\<lambda>j. note_at (xe_targetSegment E) (localTargets X ! i) j + pending E X (Suc i) 0 n j) sg"
    using p pending_target [OF i, of E X 0] by (simp add: progress_def Let_def owed_def)
  from owed_release [OF this, of s] c have "r = Inr () \<and> owed l E X (pending E X (Suc i) 0 n) sg'" by auto
  then show ?thesis using p by (simp add: progress_def Let_def)
qed

lemma answer_valid:
  assumes i: "i < n"
  shows "valid (asserts (progress l E n n n i 0)) (answer_body E i) (\<lambda>_. asserts (progress l E n n n (Suc i) 0)) (asserts (leaks l E {2 * n - i}))"
proof -
  have bad: "leaks l E {2 * n - i} X sg" if "progress l E n n n i 0 X sg" for X sg
    by (rule progress_leaks [OF that]) (use i in simp)
  show ?thesis unfolding answer_body_def
  proof (rule valid_with_locals)
    fix X
    have r: "valid (asserts (\<lambda>X' sg. X' = X \<and> progress l E n n n i 0 X sg))
        (on_segments (on_segment (xe_targetSegment E) (release_notification (bd_notificationId (localTargets X ! i)))))
        (\<lambda>_. asserts (progress l E n n n (Suc i) 0)) (asserts (leaks l E {2 * n - i}))"
      by (rule valid_segments) (use release_target_progress [OF _ i] in fastforce)
    show "valid (asserts (\<lambda>X' sg. X' = X \<and> progress l E n n n i 0 X sg))
        (act_bind (on_passive (\<lambda>_. waited E (waitForBufferNotification (xe_gaspi E) (localTargets X ! i)))) (\<lambda>_.
         act_bind (on_passive (\<lambda>_. with_lib (\<lambda>_. cx_notify (xe_context E) (remoteSources X ! i)))) (\<lambda>_.
         on_segments (on_segment (xe_targetSegment E) (release_notification (bd_notificationId (localTargets X ! i)))))))
        (\<lambda>_. asserts (progress l E n n n (Suc i) 0)) (asserts (leaks l E {2 * n - i}))"
      by (rule valid_bind [OF valid_passive valid_bind [OF valid_passive r]]) (use bad in blast)+
  qed
qed

text \<open>Fourth loop.\<close>

lemma delete_send_owed:
  assumes p: "progress l E n n n n i X sg" and i: "i < n" "n = g_size (xe_group E)" "sendBuffers X ! i = Some send"
    and c: "delete_buffer (xe_targetSegment E) send (sg, s) = (r, sg', s')"
  shows "\<exists>u. r = Inr u \<and> owed l E (X\<lparr>sendBuffers := (sendBuffers X)[i := None]\<rparr>) (pending E X n i n) sg'"
proof -
  have "owed l E X (pending E X n i n) sg" "i < length (sendBuffers X)" using p i by (auto simp: progress_def Let_def)
  from owed_delete_send [OF this i(3), of s] c show ?thesis by auto
qed

lemma release_source_progress:
  assumes p: "progress l E n n n n i X sg0" and i: "i < n" "n = g_size (xe_group E)"
    and o: "owed l E (X\<lparr>sendBuffers := (sendBuffers X)[i := None]\<rparr>) (pending E X n i n) sg"
    and c: "on_segment (xe_sourceSegment E) (release_notification (bd_notificationId (localSources X ! i))) (sg, s) = (r, sg', s')"
  shows "\<exists>u. r = Inr u \<and> progress l E n n n n (Suc i) (X\<lparr>sendBuffers := (sendBuffers X)[i := None]\<rparr>) sg'"
proof -
  let ?X = "X\<lparr>sendBuffers := (sendBuffers X)[i := None]\<rparr>"
  have "owed l E ?X (\<lambda>j. note_at (xe_sourceSegment E) (localSources X ! i) j + pending E X n (Suc i) n j) sg"
    using o pending_source [OF i(1), of E X n] by (simp add: owed_def)
  from owed_release [OF this, of s] c have "r = Inr () \<and> owed l E ?X (pending E X n (Suc i) n) sg'" by auto
  then show ?thesis using p i by (auto simp: progress_def Let_def nth_list_update)
qed

lemma confirm_valid:
  assumes i: "i < n" "n = g_size (xe_group E)"
  shows "valid (asserts (progress l E n n n n i)) (confirm_body E i) (\<lambda>_. asserts (progress l E n n n n (Suc i))) (asserts (leaks l E {n - i}))"
proof -
  have bad: "leaks l E {n - i} X sg" if "progress l E n n n n i X sg" for X sg
    by (rule progress_leaks [OF that]) simp
  show ?thesis unfolding confirm_body_def
  proof (rule valid_with_locals)
    fix X
    let ?J = "\<lambda>X' sg. X' = X \<and> progress l E n n n n i X sg" and ?X = "X\<lparr>sendBuffers := (sendBuffers X)[i := None]\<rparr>"
    have h: "valid (asserts ?J) (dereference (sendBuffers X ! i) (finish_send E i (localSources X ! i)))
        (\<lambda>_. asserts (progress l E n n n n (Suc i))) (asserts (leaks l E {n - i}))"
    proof (cases "sendBuffers X ! i")
      case None
      then show ?thesis unfolding dereference_def by (simp, intro valid_throw) (use bad in auto)
    next
      case (Some send)
      have d: "valid (asserts (\<lambda>X' sg. X' = ?X \<and> progress l E n n n n i X sg)) (on_segments (delete_buffer (xe_targetSegment E) send))
          (\<lambda>_. asserts (\<lambda>X' sg. X' = ?X \<and> (\<exists>sg0. progress l E n n n n i X sg0) \<and> owed l E ?X (pending E X n i n) sg))
          (asserts (leaks l E {n - i}))"
        by (rule valid_segments) (use delete_send_owed [OF _ i Some] in fastforce)
      have r: "valid (asserts (\<lambda>X' sg. X' = ?X \<and> (\<exists>sg0. progress l E n n n n i X sg0) \<and> owed l E ?X (pending E X n i n) sg))
          (on_segments (on_segment (xe_sourceSegment E) (release_notification (bd_notificationId (localSources X ! i)))))
          (\<lambda>_. asserts (progress l E n n n n (Suc i))) (asserts (leaks l E {n - i}))"
        by (rule valid_segments) (use release_source_progress [OF _ i] in fastforce)
      show ?thesis unfolding dereference_def Some option.case finish_send_def
        by (rule valid_bind [OF valid_passive valid_bind [OF valid_locals valid_bind [OF d r]]]) (use bad in auto)
    qed
    show "valid (asserts ?J) (act_bind (on_passive (\<lambda>_. waited E (waitForBufferNotification (xe_gaspi E) (localSources X ! i))))
        (\<lambda>_. dereference (sendBuffers X ! i) (finish_send E i (localSources X ! i))))
        (\<lambda>_. asserts (progress l E n n n n (Suc i))) (asserts (leaks l E {n - i}))"
      by (rule valid_bind [OF valid_passive h]) (use bad in blast)
  qed
qed

lemma flush_valid: "valid (asserts (progress l E n n n n n)) (flush_body E) (\<lambda>_. asserts (progress l E n n n n n)) (asserts (leaks l E {0}))"
  unfolding flush_body_def by (rule valid_passive) (rule progress_leaks, assumption, simp)

section \<open>The whole call\<close>

text \<open>The steps of the four loops in the order in which they are made.\<close>

datatype exchange_step = XDescribe nat | XWrite nat | XAnswer nat | XConfirm nat | XFlush

fun exchange_do :: "'s exchange_env \<Rightarrow> exchange_step \<Rightarrow> ('s call, unit) act" where
  "exchange_do E (XDescribe i) = describe_body E i"
| "exchange_do E (XWrite i) = write_body E i"
| "exchange_do E (XAnswer i) = answer_body E i"
| "exchange_do E (XConfirm i) = confirm_body E i"
| "exchange_do E XFlush = flush_body E"

definition exchange_steps :: "nat \<Rightarrow> exchange_step list" where
  "exchange_steps n = map XDescribe [0..<n] @ map XWrite [0..<n] @ map XAnswer [0..<n] @ map XConfirm [0..<n] @ [XFlush]"

text \<open>How many notifications stay acquired when a step throws.\<close>

fun step_leaks :: "nat \<Rightarrow> exchange_step \<Rightarrow> nat set" where
  "step_leaks n (XDescribe i) = {2 * i..2 * i + 2}"
| "step_leaks n (XWrite i) = {2 * n}"
| "step_leaks n (XAnswer i) = {2 * n - i}"
| "step_leaks n (XConfirm i) = {n - i}"
| "step_leaks n XFlush = {0}"

lemma for_each_append: "for_each f (xs @ ys) = act_bind (for_each f xs) (\<lambda>_. for_each f ys)"
  by (induction xs) (simp_all add: fun_eq_iff act_bind_def split: sum.split prod.split)

lemma for_each_map: "for_each f (map g xs) = for_each (\<lambda>x. f (g x)) xs"
  by (induction xs) simp_all

lemma act_bind_unit: "act_bind m act_return = m"
  by (simp add: fun_eq_iff act_bind_def split: sum.split prod.split)

lemma exchange_body_steps: "exchange_body E = for_each (exchange_do E) (exchange_steps (g_size (xe_group E)))"
  by (simp add: exchange_body_def exchange_steps_def for_each_append for_each_map act_bind_unit Let_def)

lemma exchange_steps_nth:
  "k < n \<Longrightarrow> exchange_steps n ! k = XDescribe k"
  "k < n \<Longrightarrow> exchange_steps n ! (n + k) = XWrite k"
  "k < n \<Longrightarrow> exchange_steps n ! (2 * n + k) = XAnswer k"
  "k < n \<Longrightarrow> exchange_steps n ! (3 * n + k) = XConfirm k"
  "exchange_steps n ! (4 * n) = XFlush"
  "length (exchange_steps n) = 4 * n + 1"
  by (simp_all add: exchange_steps_def nth_append)

text \<open>What has been done before step \<open>k\<close>.\<close>

definition progress_at :: "ledger \<Rightarrow> 's exchange_env \<Rightarrow> nat \<Rightarrow> exchange_locals \<Rightarrow> (nat \<Rightarrow> segment) \<Rightarrow> bool" where
  "progress_at l E k = (let n = g_size (xe_group E) in
     progress l E (min k n) (min k n) (min (k - n) n) (min (k - 2 * n) n) (min (k - 3 * n) n))"

lemma step_valid:
  assumes k: "k < length (exchange_steps n)" and n: "n = g_size (xe_group E)"
  shows "valid (asserts (progress_at l E k)) (exchange_do E (exchange_steps n ! k)) (\<lambda>_. asserts (progress_at l E (Suc k)))
    (asserts (leaks l E (step_leaks n (exchange_steps n ! k))))"
proof -
  consider "k < n" | i where "i < n" "k = n + i" | i where "i < n" "k = 2 * n + i" | i where "i < n" "k = 3 * n + i" | "k = 4 * n"
  proof -
    have "k < n \<or> (k - n < n \<and> k = n + (k - n)) \<or> (k - 2 * n < n \<and> k = 2 * n + (k - 2 * n)) \<or>
        (k - 3 * n < n \<and> k = 3 * n + (k - 3 * n)) \<or> k = 4 * n"
      using k unfolding exchange_steps_nth by linarith
    then show ?thesis using that by metis
  qed
  then show ?thesis
  proof cases
    case 1
    then show ?thesis using describe_valid [of k E l] n by (simp add: progress_at_def Let_def exchange_steps_nth)
  next
    case (2 i)
    then show ?thesis using write_valid [OF 2(1) n, of l] n
      by (simp add: progress_at_def Let_def exchange_steps_nth Suc_diff_le)
  next
    case (3 i)
    then show ?thesis using answer_valid [OF 3(1), of l E] n
      by (simp add: progress_at_def Let_def exchange_steps_nth Suc_diff_le)
  next
    case (4 i)
    then show ?thesis using confirm_valid [OF 4(1) n, of l] n
      by (simp add: progress_at_def Let_def exchange_steps_nth Suc_diff_le)
  next
    case 5
    then show ?thesis using flush_valid [of l E n] n by (simp add: progress_at_def Let_def exchange_steps_nth)
  qed
qed

text \<open>The vectors' destruction.\<close>

lemma leaks_destroyed:
  assumes "owed l E X Z sg"
  shows "\<exists>sg'. destroy_buffers (xe_targetSegment E) (pointers (recvBuffers X)) (pointers (sendBuffers X)) (sg, s) = (Inr (), sg', s) \<and>
    booked (le_size l) (le_lo l) (le_hi l) (both E) (le_start l) Z (\<lambda>_. {#}) sg'"
  by (rule made_books_destroy) (use assms in \<open>simp_all add: owed_def\<close>)

lemma booked_live:
  assumes B: "booked e lo hi K sg Z (\<lambda>_. {#}) sg'"
  shows "(\<forall>j \<in> K. mm_live (memory_of sg' j) = mm_live (memory_of sg j) \<and> nm_live (notes_of sg j) \<subseteq> nm_live (notes_of sg' j)) \<and>
    (\<Sum>j \<in> K. card (nm_live (notes_of sg' j) - nm_live (notes_of sg j))) = lost K Z"
proof -
  have c: "nm_live (notes_of sg j) \<subseteq> nm_live (notes_of sg' j) \<and>
      card (nm_live (notes_of sg' j) - nm_live (notes_of sg j)) = size (Z j)" if "j \<in> K" for j
    by (rule grown_card) (use B that in \<open>simp only: booked_def\<close>)
  moreover have "(\<Sum>j \<in> K. card (nm_live (notes_of sg' j) - nm_live (notes_of sg j))) = lost K Z"
    unfolding lost_def by (rule sum.cong) (use c in blast)+
  ultimately show ?thesis using B by (simp add: booked_def)
qed

lemma steps_owed:
  assumes "sound e lo hi (both E) sg" and n: "n = g_size (xe_group E)"
    and run: "for_each (exchange_do E) (exchange_steps n) (exchange_vectors n, sg, p) = (r, X, sg1, p1)"
  shows "\<exists>Z. owed \<lparr>le_size = e, le_lo = lo, le_hi = hi, le_start = sg\<rparr> E X Z sg1 \<and>
    (case r of Inr u \<Rightarrow> lost (both E) Z = 0
     | Inl x \<Rightarrow> \<exists>k < length (exchange_steps n). \<exists>w.
        for_each (exchange_do E) (take k (exchange_steps n)) (exchange_vectors n, sg, p) = (Inr (), w) \<and>
        fst (exchange_do E (exchange_steps n ! k) w) = Inl x \<and> lost (both E) Z \<in> step_leaks n (exchange_steps n ! k))"
proof -
  let ?l = "\<lparr>le_size = e, le_lo = lo, le_hi = hi, le_start = sg\<rparr>"
  have "pending E (exchange_vectors n) 0 0 0 = (\<lambda>_. {#})" by (rule ext) (simp add: pending_def)
  then have start: "asserts (progress_at ?l E 0) (exchange_vectors n, sg, p)"
    using booked_start [OF assms(1)]
    by (simp add: progress_at_def progress_def Let_def exchange_vectors_def n owed_def)
  have v: "case r of Inr u \<Rightarrow> asserts (progress_at ?l E (length (exchange_steps n))) (X, sg1, p1)
    | Inl x \<Rightarrow> \<exists>k < length (exchange_steps n). \<exists>w.
        for_each (exchange_do E) (take k (exchange_steps n)) (exchange_vectors n, sg, p) = (Inr (), w) \<and>
        exchange_do E (exchange_steps n ! k) w = (Inl x, X, sg1, p1) \<and> asserts (leaks ?l E (step_leaks n (exchange_steps n ! k))) (X, sg1, p1)"
    by (rule valid_for_each [where I = "\<lambda>k. asserts (progress_at ?l E k)" and
          E = "\<lambda>k. asserts (leaks ?l E (step_leaks n (exchange_steps n ! k)))", OF step_valid [OF _ n] start run])
  show ?thesis
  proof (cases r)
    case (Inr u)
    then have "progress ?l E n n n n n X sg1" using v by (simp add: progress_at_def Let_def exchange_steps_nth flip: n)
    then show ?thesis using Inr by (intro exI [of _ "pending E X n n n"]) (simp add: progress_def Let_def)
  next
    case (Inl x)
    obtain k w Z where "k < length (exchange_steps n)"
      "for_each (exchange_do E) (take k (exchange_steps n)) (exchange_vectors n, sg, p) = (Inr (), w)"
      "fst (exchange_do E (exchange_steps n ! k) w) = Inl x" "owed ?l E X Z sg1" "lost (both E) Z \<in> step_leaks n (exchange_steps n ! k)"
      using v unfolding Inl leaks_def by auto
    then show ?thesis unfolding Inl sum.case by blast
  qed
qed

text \<open>
  Property C19: a call of a blocking collective, whatever the library, the contexts and the passive
  component answer.  The segments' memory is in use exactly as before the call.  If the call returns,
  so are the notifications.  If a step throws, the exception is passed on, no destructor throws, and
  notifications of the descriptions stay acquired for ever: two of every description completed and
  up to two of the one in the making in the first loop, all of them in the second, in the third and fourth
  those that had not yet been released, none in the flush.
\<close>

theorem blocking_call:
  assumes "sound e lo hi {xe_sourceSegment E, xe_targetSegment E} sg" and n: "n = g_size (xe_group E)"
  shows "\<exists>r sg' p'. blocking_exchange E (sg, p) = (r, sg', p') \<and>
    (\<forall>j \<in> {xe_sourceSegment E, xe_targetSegment E}. mm_live (memory_of sg' j) = mm_live (memory_of sg j) \<and>
       nm_live (notes_of sg j) \<subseteq> nm_live (notes_of sg' j)) \<and>
    (case r of
       Inr u \<Rightarrow> \<forall>j \<in> {xe_sourceSegment E, xe_targetSegment E}. nm_live (notes_of sg' j) = nm_live (notes_of sg j)
     | Inl x \<Rightarrow> \<exists>k < length (exchange_steps n). \<exists>w.
         for_each (exchange_do E) (take k (exchange_steps n)) (exchange_vectors n, sg, p) = (Inr (), w) \<and>
         fst (exchange_do E (exchange_steps n ! k) w) = Inl x \<and>
         (\<Sum>j \<in> {xe_sourceSegment E, xe_targetSegment E}. card (nm_live (notes_of sg' j) - nm_live (notes_of sg j)))
           \<in> step_leaks n (exchange_steps n ! k))"
proof -
  let ?l = "\<lparr>le_size = e, le_lo = lo, le_hi = hi, le_start = sg\<rparr>"
  obtain r X sg1 p1 where run: "for_each (exchange_do E) (exchange_steps n) (exchange_vectors n, sg, p) = (r, X, sg1, p1)"
    by (metis surj_pair)
  obtain Z where Z: "owed ?l E X Z sg1" "case r of Inr u \<Rightarrow> lost (both E) Z = 0
    | Inl x \<Rightarrow> \<exists>k < length (exchange_steps n). \<exists>w.
        for_each (exchange_do E) (take k (exchange_steps n)) (exchange_vectors n, sg, p) = (Inr (), w) \<and>
        fst (exchange_do E (exchange_steps n ! k) w) = Inl x \<and> lost (both E) Z \<in> step_leaks n (exchange_steps n ! k)"
    using steps_owed [OF assms run] by blast
  obtain sg2 where d: "destroy_buffers (xe_targetSegment E) (pointers (recvBuffers X)) (pointers (sendBuffers X)) (sg1, pv_lib p1) =
      (Inr (), sg2, pv_lib p1)" "booked e lo hi (both E) sg Z (\<lambda>_. {#}) sg2"
    using leaks_destroyed [OF Z(1), of "pv_lib p1"] by auto
  have call: "blocking_exchange E (sg, p) = (r, sg2, p1)"
    using run d(1) by (simp add: blocking_exchange_def exchange_body_steps flip: n)
  have live: "nm_live (notes_of sg2 j) = nm_live (notes_of sg j)" if "r = Inr u" "j \<in> both E" for u j
    using d(2) Z(2) that by (auto simp: booked_def lost_def)
  show ?thesis
    by (intro exI conjI, rule call) (use booked_live [OF d(2)] Z(2) live in \<open>auto split: sum.splits\<close>)
qed

text \<open>
  Rank 1 of two with a segment of 100 bytes, which has room for the buffers of one iteration: the
  second throws.  What the first has posted stays in the table of the passive component: the description of a
  buffer whose memory and notification have been given back.
\<close>

definition demo_gaspi :: "(u8 \<Rightarrow> (u64 \<times> u64) option) passive_gaspi" where
  "demo_gaspi = segment_api.extend demo_segments (passive_gaspi.fields (\<lambda>_ _ _ _ _ _ s. (GASPI_SUCCESS, s))
     (\<lambda>_ _ _ _ s. ((GASPI_SUCCESS, 3, []), s)) (\<lambda>m _. m))"

lemma demo_gaspi_sel [simp]:
  "segment_api.truncate demo_gaspi = demo_segments"
  "gaspi_passive_send demo_gaspi = (\<lambda>_ _ _ _ _ _ s. (GASPI_SUCCESS, s))"
  "gaspi_proc_rank demo_gaspi = (\<lambda>s. ((GASPI_SUCCESS, 0), s))"
  by (simp_all add: demo_gaspi_def segment_api.defs passive_gaspi.defs demo_segments_def)

definition silent_context :: "'s context_api" where
  "silent_context = \<lparr>cx_write = (\<lambda>_ _. act_return ()), cx_notify = (\<lambda>_. act_return ()), cx_flush = act_return ()\<rparr>"

definition demo_call :: "(u8 \<Rightarrow> (u64 \<times> u64) option) exchange_env" where
  "demo_call = \<lparr>xe_gaspi = demo_gaspi, xe_context = silent_context, xe_passive_context = silent_context,
     xe_others = (\<lambda>p. p), xe_me = 5, xe_group = demo_group 1, xe_sourceSegment = 0, xe_source = 4096,
     xe_targetSegment = 0, xe_target = 4196, xe_layout = alltoall_layout 10\<rparr>"

definition demo_own :: "(u8 \<Rightarrow> (u64 \<times> u64) option) pstate" where
  "demo_own = \<lparr>pv_world = \<lparr>bw_segment = \<lparr>sg_resource = \<lparr>sr_segmentId = 8, sr_contains_valid_segment = True\<rparr>,
        sg_manager = \<lparr>sm_segmentID = 8, sm_memoryManager = mm_construct 8192 1024, sm_notifyManager = nm_construct 65536\<rparr>\<rparr>,
      bw_allocs = []\<rparr>,
     pv_mem = (\<lambda>_. 0), pv_srcTargetBuffers = (\<lambda>_. None), pv_rcvTargetBuffers = (\<lambda>_. None),
     pv_msg_size = 0, pv_msg_rank = 0, pv_msg_ptr = None, pv_lib = [7 \<mapsto> (4096, 100), 8 \<mapsto> (8192, 1024)]\<rparr>"

abbreviation demo_room :: "nat \<Rightarrow> segment" where
  "demo_room \<equiv> demo_state [\<lparr>g_start = 0, bsize = 65536, bfree = True\<rparr>] [\<lparr>g_start = 4096, bsize = 100, bfree = True\<rparr>]"

abbreviation demo_sent :: buffer_description where
  "demo_sent \<equiv> \<lparr>bd_rank = 5, bd_segmentId = 7, bd_offset = 0, bd_size = 46, bd_notificationId = 2\<rparr>"

lemma demo_package:
  assumes "pv_world p = pv_world demo_own" "pv_lib p = pv_lib demo_own" "length m = 31"
  shows "sendPassive demo_gaspi t m 3 p = (Inr (), p\<lparr>pv_mem :=
    memcpy (memcpy (memcpy (pv_mem p) 8192 (to_bytes 4 t)) 8196 (to_bytes 4 (31 :: u32))) 8200 m\<rparr>)"
  using assms
  by (cases p) (simp add: sendPassive_def Let_def act_bind_apply with_world_def with_lib_def on_manager_def allocator_allocate_def
      allocator_deallocate_def store_def fetch_def pointerToOffset_def getSegmentPtr_def gaspi_checked_eq gaspi_checked_out_eq
      demo_own_def mm_construct_def mm_allocate_def mm_deallocate_def pv_segment_def pv_seg_id_def segment_id_def demo_segments_def release_block_def)

abbreviation demo_after :: "nat \<Rightarrow> segment" where
  "demo_after \<equiv> demo_state
     [\<lparr>g_start = 0, bsize = 1, bfree = False\<rparr>, \<lparr>g_start = 1, bsize = 1, bfree = False\<rparr>, \<lparr>g_start = 2, bsize = 1, bfree = False\<rparr>,
      \<lparr>g_start = 3, bsize = 1, bfree = False\<rparr>, \<lparr>g_start = 4, bsize = 65532, bfree = True\<rparr>]
     [\<lparr>g_start = 4096, bsize = 46, bfree = False\<rparr>, \<lparr>g_start = 4142, bsize = 46, bfree = False\<rparr>, \<lparr>g_start = 4188, bsize = 8, bfree = True\<rparr>]"

lemma demo_user_description:
  "map_option fst (s 7) = Some 4096 \<Longrightarrow> bf_description demo_segments me (demo_state bs ms 0) b s =
    (Inr \<lparr>bd_rank = me, bd_segmentId = 7, bd_offset = bf_pointer b - 4096, bd_size = bf_size b, bd_notificationId = bf_notification b\<rparr>, s)"
  by (auto simp: bf_description_def pointerToOffset_def getSegmentPtr_def gaspi_checked_out_eq demo_segments_def
      act_bind_apply demo_state_sel)

lemma length_tag_package [simp]: "length (tag_package t d) = 31"
  using long_c.size_enc [where x = t] by (simp add: tag_package_def Let_def split: prod.splits)

lemma demo_first: "\<exists>X p1. describe_body demo_call 0 (exchange_vectors (Suc (Suc 0)), demo_room, demo_own) = (Inr (), X, demo_after, p1) \<and>
    recvBuffers X = [Some \<lparr>bf_allocMemory = Some 0, bf_allocNotify = Some 3, bf_pointer = 4142, bf_size = 46, bf_notification = 3\<rparr>, None] \<and>
    sendBuffers X = [Some \<lparr>bf_allocMemory = Some 0, bf_allocNotify = Some 2, bf_pointer = 4096, bf_size = 46, bf_notification = 2\<rparr>, None] \<and>
    pv_srcTargetBuffers p1 = [(1, 3) \<mapsto> demo_sent] \<and> pv_lib p1 = pv_lib demo_own"
proof -
  obtain g where g: "\<And>a t s (p :: (u8 \<Rightarrow> (u64 \<times> u64) option) pstate). store_descriptions a t s p = (Inr (), p\<lparr>pv_mem := g a t s p\<rparr>)"
    unfolding store_descriptions_def Let_def by (simp add: case_prod_beta)
  show ?thesis
    by (simp add: describe_body_def describe_sent_def post_descriptions_def on_segments_def on_locals_def on_passive_def
      demo_call_def demo_group_def toGlobalRank_def g_size_def act_bind_apply demo_register demo_acquire demo_new_buffer
      pv_iSendTagMessg_def pv_iRecvTagMessg_def user_description_def with_lib_def demo_user_description
      pv_global_rank_def gaspi_checked_out_eq handleTaggedSrcBufferDesc_def meet_src_def after_meeting_def exchange_vectors_def
      demo_own_def demo_package g)
qed

lemma demo_second: "\<exists>x. describe_body demo_call (Suc 0) (X, demo_after, p1) = (Inl x, X, demo_state
     [\<lparr>g_start = 0, bsize = 1, bfree = False\<rparr>, \<lparr>g_start = 1, bsize = 1, bfree = False\<rparr>, \<lparr>g_start = 2, bsize = 1, bfree = False\<rparr>,
      \<lparr>g_start = 3, bsize = 1, bfree = False\<rparr>, \<lparr>g_start = 4, bsize = 1, bfree = False\<rparr>, \<lparr>g_start = 5, bsize = 1, bfree = False\<rparr>,
      \<lparr>g_start = 6, bsize = 65530, bfree = True\<rparr>]
     [\<lparr>g_start = 4096, bsize = 46, bfree = False\<rparr>, \<lparr>g_start = 4142, bsize = 46, bfree = False\<rparr>, \<lparr>g_start = 4188, bsize = 8, bfree = True\<rparr>], p1)"
  if "pv_lib p1 = pv_lib demo_own"
proof -
  let ?ms = "[\<lparr>g_start = 4096, bsize = 46, bfree = False\<rparr>, \<lparr>g_start = 4142, bsize = 46, bfree = False\<rparr>, \<lparr>g_start = 4188, bsize = 8, bfree = True\<rparr>]"
  obtain x where "\<And>bs (s :: u8 \<Rightarrow> (u64 \<times> u64) option). new_buffer 0 46 (demo_state bs ?ms, s) = (Inl x, demo_state bs ?ms, s)"
    using small_new_buffer [of ?ms] by auto
  then show ?thesis using that
    by (cases p1) (simp add: describe_body_def describe_sent_def on_segments_def demo_call_def demo_group_def toGlobalRank_def g_size_def
        act_bind_apply demo_register demo_acquire demo_own_def)
qed

lemma demo_delete:
  assumes "\<not> isl (nm_deallocate (scast n) \<lparr>nm_blocks = bs\<rparr>)" "\<not> isl (mm_deallocate a z \<lparr>mm_blocks = ms\<rparr>)"
  shows "delete_buffer 0 \<lparr>bf_allocMemory = Some 0, bf_allocNotify = Some n, bf_pointer = a, bf_size = z, bf_notification = n\<rparr>
      (demo_state bs ms, s) =
    (Inr (), demo_state (nm_blocks (projr (nm_deallocate (scast n) \<lparr>nm_blocks = bs\<rparr>)))
       (mm_blocks (projr (mm_deallocate a z \<lparr>mm_blocks = ms\<rparr>))), s)"
proof -
  obtain nm mm where d: "nm_deallocate (scast n) \<lparr>nm_blocks = bs\<rparr> = Inr nm" "mm_deallocate a z \<lparr>mm_blocks = ms\<rparr> = Inr mm"
    using assms by (metis sum.collapse(2))
  have "(demo_state bs ms)(0 := (demo_state bs ms 0)\<lparr>sg_manager := \<lparr>sm_segmentID = 7, sm_memoryManager = mm, sm_notifyManager = nm\<rparr>\<rparr>) =
      demo_state (nm_blocks nm) (mm_blocks mm)"
    using demo_state_upd [of bs ms "mm_blocks mm" "nm_blocks nm"] by (cases nm, cases mm) simp
  then show ?thesis
    by (simp add: d delete_buffer_def bf_destroy_def notify_release_def memory_release_def on_manager_def act_bind_apply
        release_notification_def allocator_deallocate_def demo_state_sel)
qed

lemma blocking_call_witness:
  "\<exists>x sg' p'. blocking_exchange demo_call (demo_room, demo_own) = (Inl x, sg', p') \<and>
     mm_live (memory_of sg' 0) = {} \<and> nm_live (notes_of sg' 0) = {(0, 1), (1, 1), (4, 1), (5, 1)} \<and>
     pv_srcTargetBuffers p' (1, 3) = Some demo_sent \<and> (ucast (bd_notificationId demo_sent), 1) \<notin> nm_live (notes_of sg' 0)"
proof -
  let ?left = "demo_state [\<lparr>g_start = 0, bsize = 1, bfree = False\<rparr>, \<lparr>g_start = 1, bsize = 1, bfree = False\<rparr>,
      \<lparr>g_start = 2, bsize = 2, bfree = True\<rparr>, \<lparr>g_start = 4, bsize = 1, bfree = False\<rparr>, \<lparr>g_start = 5, bsize = 1, bfree = False\<rparr>,
      \<lparr>g_start = 6, bsize = 65530, bfree = True\<rparr>] [\<lparr>g_start = 4096, bsize = 100, bfree = True\<rparr>]"
  obtain X p1 where 1: "describe_body demo_call 0 (exchange_vectors (Suc (Suc 0)), demo_room, demo_own) = (Inr (), X, demo_after, p1)"
    "recvBuffers X = [Some \<lparr>bf_allocMemory = Some 0, bf_allocNotify = Some 3, bf_pointer = 4142, bf_size = 46, bf_notification = 3\<rparr>, None]"
    "sendBuffers X = [Some \<lparr>bf_allocMemory = Some 0, bf_allocNotify = Some 2, bf_pointer = 4096, bf_size = 46, bf_notification = 2\<rparr>, None]"
    "pv_srcTargetBuffers p1 = [(1, 3) \<mapsto> demo_sent]" "pv_lib p1 = pv_lib demo_own"
    using demo_first by (elim exE conjE)
  obtain x where 2: "describe_body demo_call (Suc 0) (X, demo_after, p1) = (Inl x, X, demo_state
     [\<lparr>g_start = 0, bsize = 1, bfree = False\<rparr>, \<lparr>g_start = 1, bsize = 1, bfree = False\<rparr>, \<lparr>g_start = 2, bsize = 1, bfree = False\<rparr>,
      \<lparr>g_start = 3, bsize = 1, bfree = False\<rparr>, \<lparr>g_start = 4, bsize = 1, bfree = False\<rparr>, \<lparr>g_start = 5, bsize = 1, bfree = False\<rparr>,
      \<lparr>g_start = 6, bsize = 65530, bfree = True\<rparr>]
     [\<lparr>g_start = 4096, bsize = 46, bfree = False\<rparr>, \<lparr>g_start = 4142, bsize = 46, bfree = False\<rparr>, \<lparr>g_start = 4188, bsize = 8, bfree = True\<rparr>], p1)"
    using demo_second [OF 1(5), of X] by (elim exE)
  have n: "g_size (xe_group demo_call) = Suc (Suc 0)" "xe_targetSegment demo_call = 0" "xe_sourceSegment demo_call = 0"
    by (simp_all add: demo_call_def demo_group_def g_size_def)
  have run: "blocking_exchange demo_call (demo_room, demo_own) = (Inl x, ?left, p1)"
    by (simp add: blocking_exchange_def exchange_body_def Let_def n act_bind_apply 1 2 pointers_def destroy_buffers_def
        demo_delete nm_deallocate_def mm_deallocate_def release_block_def)
  have "sound 65536 (\<lambda>_. 4096) (\<lambda>_. 4196) {xe_sourceSegment demo_call, xe_targetSegment demo_call} demo_room"
    using nm_construct_inv [of 65536] mm_construct_inv [of 4096 100]
    by (simp add: sound_def n demo_state_sel nm_construct_def mm_construct_def)
  from blocking_call [OF this refl, of demo_own] run n
  have "mm_live (memory_of ?left 0) = mm_live (memory_of demo_room 0)" by auto
  moreover have "nm_live (notes_of ?left 0) = {(0, 1), (1, 1), (4, 1), (5, 1)}" "mm_live (memory_of demo_room 0) = {}"
    by (auto simp: nm_live_def mm_live_def demo_state_sel live_Cons)
  ultimately show ?thesis using run 1(4) by (intro exI) auto
qed

end
