(* ===== verification/Data_Messages.thy ===== *)
theory Data_Messages
  imports Passive_Props
begin

unbundle bit_operations_syntax

text \<open>
  A data message from \<open>sendMessg\<close> in one process, over the passive thread of the other, to the copy
  in \<open>recvMessg\<close>: three one-sided or passive transfers, each described by what the one before it
  brought.
\<close>

section \<open>What the library keeps\<close>

text \<open>
  The successful passive sends of a process, the pairs of descriptions it has written, and the
  addresses of its segments: the calls on other matters leave the first two as they are.
\<close>

definition quiet :: "('s \<Rightarrow> 'o) \<Rightarrow> ('s \<Rightarrow> 'w) \<Rightarrow> 's \<Rightarrow> 's \<Rightarrow> bool" where
  "quiet outbox writes s s1 \<longleftrightarrow> outbox s1 = outbox s \<and> writes s1 = writes s"

definition quiet_call :: "('s \<Rightarrow> 'o) \<Rightarrow> ('s \<Rightarrow> 'w) \<Rightarrow> ('s \<Rightarrow> 'r \<times> 's) \<Rightarrow> bool" where
  "quiet_call outbox writes call \<longleftrightarrow> (\<forall>s r s1. call s = (r, s1) \<longrightarrow> quiet outbox writes s s1)"

definition message_contract ::
    "'s passive_gaspi \<Rightarrow> 's context_api \<Rightarrow> ('s \<Rightarrow> (u16 \<times> u8 list) list) \<Rightarrow>
      ('s \<Rightarrow> (buffer_description \<times> buffer_description) list) \<Rightarrow> (u8 \<Rightarrow> u64) \<Rightarrow> bool" where
  "message_contract G Cx outbox writes base \<longleftrightarrow>
     (\<forall>sid off rank n bs s ret s1. gaspi_passive_send G sid off rank n GASPI_BLOCK bs s = (ret, s1) \<longrightarrow>
        outbox s1 = outbox s @ (if ret = GASPI_SUCCESS then [(rank, bs)] else []) \<and> writes s1 = writes s) \<and>
     (\<forall>src tgt s s1. cx_write Cx src tgt s = (Inr (), s1) \<longrightarrow>
        outbox s1 = outbox s \<and> writes s1 = writes s @ [(src, tgt)]) \<and>
     (\<forall>l s q s1. gaspi_segment_ptr G l s = ((GASPI_SUCCESS, q), s1) \<longrightarrow> q = base l) \<and>
     (\<forall>sid off n. quiet_call outbox writes (gaspi_passive_receive G sid off n GASPI_BLOCK)) \<and>
     (\<forall>l. quiet_call outbox writes (gaspi_segment_ptr G l)) \<and>
     (\<forall>l rank t. quiet_call outbox writes (gaspi_segment_register G l rank t)) \<and>
     (\<forall>l m num t. quiet_call outbox writes (gaspi_notify_waitsome G l m num t)) \<and>
     (\<forall>l m. quiet_call outbox writes (gaspi_notify_reset G l m)) \<and>
     quiet_call outbox writes (cx_flush Cx)"

lemma quiet_callD: "quiet_call outbox writes call \<Longrightarrow> call s = (r, s1) \<Longrightarrow> quiet outbox writes s s1"
  by (simp add: quiet_call_def)

lemma quiet_refl [simp]: "quiet outbox writes s s"
  by (simp add: quiet_def)

lemma quiet_trans: "quiet outbox writes s s1 \<Longrightarrow> quiet outbox writes s1 s2 \<Longrightarrow> quiet outbox writes s s2"
  by (simp add: quiet_def)

lemma contract_calls:
  assumes "message_contract G Cx outbox writes base"
  shows "gaspi_passive_send G sid off rank n GASPI_BLOCK bs s = (ret, s1) \<Longrightarrow> writes s1 = writes s"
    and "cx_write Cx src tgt s = (Inr (), s1) \<Longrightarrow> outbox s1 = outbox s \<and> writes s1 = writes s @ [(src, tgt)]"
    and "gaspi_segment_ptr G l s = ((GASPI_SUCCESS, q), s1) \<Longrightarrow> q = base l"
    and "quiet_call outbox writes (gaspi_passive_receive G sid off n GASPI_BLOCK)"
    and "quiet_call outbox writes (gaspi_segment_ptr G l)"
    and "quiet_call outbox writes (gaspi_segment_register G l rank t)"
    and "quiet_call outbox writes (gaspi_notify_waitsome G l m num t)"
    and "quiet_call outbox writes (gaspi_notify_reset G l m)"
    and "quiet_call outbox writes (cx_flush Cx)"
  using assms by (simp_all add: message_contract_def) blast

lemma message_contract_passive:
  assumes "message_contract G Cx outbox writes base"
  shows "passive_contract G outbox"
proof -
  have "outbox s1 = outbox s" if "gaspi_segment_ptr G sid s = (r, s1)" for sid s r s1
    using quiet_callD [OF contract_calls(5) [OF assms] that] by (simp add: quiet_def)
  then show ?thesis using assms by (simp add: passive_contract_def message_contract_def)
qed

text \<open>The identifiers of segment and manager agree, and stay.\<close>

definition world_id :: "u32 \<Rightarrow> bworld \<Rightarrow> bool" where
  "world_id i w \<longleftrightarrow> sm_segmentID (sg_manager (bw_segment w)) = i \<and> segment_id (bw_segment w) = i"

lemma on_manager_id:
  assumes "\<And>M r M1. m M = (r, M1) \<Longrightarrow> sm_segmentID M1 = sm_segmentID M" "on_manager m w = (r, w1)"
  shows "world_id i w1 = world_id i w"
  using assms(2) assms(1) by (auto simp: on_manager_def world_id_def segment_id_def split: prod.splits)

lemma manager_ids:
  "allocator_allocate k n M = (r, M1) \<Longrightarrow> sm_segmentID M1 = sm_segmentID M"
  "allocator_deallocate k p n M = (r', M1) \<Longrightarrow> sm_segmentID M1 = sm_segmentID M"
  "acquire_notification M = (r'', M1) \<Longrightarrow> sm_segmentID M1 = sm_segmentID M"
  "release_notification n' M = (r', M1) \<Longrightarrow> sm_segmentID M1 = sm_segmentID M"
  by (auto simp: allocator_allocate_def allocator_deallocate_def acquire_notification_def
      release_notification_def split: sum.splits prod.splits)

lemma world_ids:
  "on_manager (allocator_allocate l n) w = (ra, w1) \<Longrightarrow> world_id i w1 = world_id i w"
  "on_manager (allocator_deallocate l q n) w = (ru, w1) \<Longrightarrow> world_id i w1 = world_id i w"
  "on_manager acquire_notification w = (rn, w1) \<Longrightarrow> world_id i w1 = world_id i w"
  "on_manager (release_notification n') w = (ru, w1) \<Longrightarrow> world_id i w1 = world_id i w"
  by (erule on_manager_id [rotated], erule manager_ids)+

lemma world_id_allocs [simp]: "world_id i (w\<lparr>bw_allocs := x\<rparr>) = world_id i w"
  by (simp add: world_id_def)

lemma memory_release_id: "memory_release h w = (r, w1) \<Longrightarrow> world_id i w1 = world_id i w"
  by (auto simp: memory_release_def Let_def world_ids(2) [where i = i] split: option.splits if_splits)

lemma notify_release_id: "notify_release h w = (r, w1) \<Longrightarrow> world_id i w1 = world_id i w"
  by (auto simp: notify_release_def world_ids(4) [where i = i] split: option.splits)

lemma bf_destroy_id: "bf_destroy b w = (r, w1) \<Longrightarrow> world_id i w1 = world_id i w"
  by (auto simp: bf_destroy_def act_bind_apply notify_release_id [where i = i] memory_release_id [where i = i]
      split: sum.splits prod.splits)

lemma bf_construct_id:
  assumes "bf_construct sz w = (Inr b, w1)"
  shows "world_id i w1 = world_id i w \<and> bf_size b = sz"
proof -
  obtain k w2 n where m: "memory_allocation sz w = (Inr k, w2)" and n: "notify_allocation w2 = (Inr n, w1)"
    and "bf_size b = sz"
    using assms by (auto simp: bf_construct_def act_bind_eq_Inr act_on_error_def act_bind_apply
        split: sum.splits prod.splits)
  moreover have "world_id i w2 = world_id i w"
    using m world_ids(1) [where i = i and w = w] by (auto simp: memory_allocation_def act_bind_eq_Inr)
  ultimately show ?thesis using world_ids(3) [where i = i] by (auto simp: notify_allocation_def)
qed

section \<open>The single steps\<close>

text \<open>The buffers \<open>bs\<close> are what is alive on the segment with identifier \<open>i\<close>.\<close>

definition owns :: "nat \<Rightarrow> nat \<Rightarrow> nat \<Rightarrow> u32 \<Rightarrow> 's pstate \<Rightarrow> buffer list \<Rightarrow> bool" where
  "owns a e k i p bs \<longleftrightarrow> owned_inv a e k (pv_world p, bs) \<and> world_id i (pv_world p)"

lemma owns_frame: "pv_world q = pv_world p \<Longrightarrow> owns a e k i q bs = owns a e k i p bs"
  by (simp add: owns_def)

lemma owns_mm: "owns a e k i p bs \<Longrightarrow> mm_inv a e (w_mm (pv_world p))"
  by (simp add: owns_def owned_inv_def mem_inv_def)

lemma register_ok:
  assumes "message_contract G Cx outbox writes base" "pv_register G rank p = (Inr (), p1)"
  shows "pv_world p1 = pv_world p \<and> pv_mem p1 = pv_mem p \<and> quiet outbox writes (pv_lib p) (pv_lib p1)"
  using assms(2) quiet_callD [OF contract_calls(6) [OF assms(1)]]
  by (auto simp: pv_register_def step_Inr remoteRegistration_def segment_api.truncate_def split: if_splits)

definition described :: "u16 \<Rightarrow> (u8 \<Rightarrow> u64) \<Rightarrow> u32 \<Rightarrow> buffer \<Rightarrow> buffer_description" where
  "described me base i b = \<lparr>bd_rank = me, bd_segmentId = ucast i, bd_offset = bf_pointer b - base (ucast i),
     bd_size = bf_size b, bd_notificationId = bf_notification b\<rparr>"

lemma description_ok:
  assumes C: "message_contract G Cx outbox writes base" and i: "world_id i (pv_world p)"
    and d: "pv_description G me b p = (Inr d, p1)"
  shows "pv_world p1 = pv_world p \<and> pv_mem p1 = pv_mem p \<and> quiet outbox writes (pv_lib p) (pv_lib p1) \<and> d = described me base i b"
  using d i quiet_callD [OF contract_calls(5) [OF C]] contract_calls(3) [OF C]
  by (auto simp: pv_description_def bf_description_def step_Inr segment_api.truncate_def pv_segment_def
      world_id_def described_def)

lemma wait_ok:
  assumes "message_contract G Cx outbox writes base" "pv_waitForNotification G b p = (Inr v, p1)"
  shows "pv_world p1 = pv_world p \<and> pv_mem p1 = gaspi_segment_memory G (pv_mem p) (pv_lib p1) \<and>
    quiet outbox writes (pv_lib p) (pv_lib p1)"
proof -
  obtain s where w: "bf_waitForNotification (segment_api.truncate G) (pv_segment p) b (pv_lib p) = (Inr v, s)"
    and p1: "p1 = p\<lparr>pv_lib := s, pv_mem := gaspi_segment_memory G (pv_mem p) s\<rparr>"
    using assms(2) by (auto simp: pv_waitForNotification_def with_lib_def split: prod.splits)
  obtain l m k s2 rw rr where 1: "gaspi_notify_waitsome G l m 1 GASPI_BLOCK (pv_lib p) = (rw, s2)"
    and 2: "gaspi_notify_reset G l k s2 = (rr, s)"
    using w by (auto simp: bf_waitForNotification_def step_Inr segment_api.truncate_def)
  show ?thesis
    using quiet_callD [OF contract_calls(7) [OF assms(1)] 1] quiet_callD [OF contract_calls(8) [OF assms(1)] 2] p1
    by (auto intro: quiet_trans)
qed

lemma write_ok:
  assumes "message_contract G Cx outbox writes base" "with_lib (\<lambda>_. cx_write Cx src tgt) p = (Inr (), p1)"
  shows "pv_world p1 = pv_world p \<and> pv_mem p1 = pv_mem p \<and> outbox (pv_lib p1) = outbox (pv_lib p) \<and>
    writes (pv_lib p1) = writes (pv_lib p) @ [(src, tgt)]"
  using assms(2) contract_calls(2) [OF assms(1)] by (auto simp: with_lib_Inr)

lemma flush_ok:
  assumes "message_contract G Cx outbox writes base" "with_lib (\<lambda>_. cx_flush Cx) p = (Inr (), p1)"
  shows "pv_world p1 = pv_world p \<and> pv_mem p1 = pv_mem p \<and> quiet outbox writes (pv_lib p) (pv_lib p1)"
  using assms(2) quiet_callD [OF contract_calls(9) [OF assms(1)]] by (auto simp: with_lib_Inr)

lemma construct_ok:
  assumes "owns a e k i p bs" "with_world (bf_construct sz) p = (Inr b, p1)"
  shows "owns a e k i p1 (b # bs) \<and> bf_size b = sz \<and> pv_mem p1 = pv_mem p \<and> pv_lib p1 = pv_lib p"
proof -
  obtain w where w: "bf_construct sz (pv_world p) = (Inr b, w)" "p1 = p\<lparr>pv_world := w\<rparr>"
    using assms(2) by (auto simp: with_world_Inr)
  with assms(1) owned_ctor [OF buffer_ctor.intros(1) _ w(1)] bf_construct_id [OF w(1), of i] show ?thesis
    by (fastforce simp: owns_def)
qed

lemma destroy_ok:
  assumes "owns a e k i p (b # bs)" "with_world (bf_destroy b) p = (Inr (), p1)"
  shows "owns a e k i p1 bs \<and> pv_mem p1 = pv_mem p \<and> pv_lib p1 = pv_lib p"
proof -
  obtain w where w: "bf_destroy b (pv_world p) = (Inr (), w)" "p1 = p\<lparr>pv_world := w\<rparr>"
    using assms(2) by (auto simp: with_world_Inr)
  with assms(1) owned_destroy [of a e k "pv_world p" "[]" b bs, OF _ w(1)] bf_destroy_id [OF w(1), of i]
  show ?thesis by (simp add: owns_def)
qed

text \<open>A buffer on the stack: its scope is entered with it and left without it.\<close>

lemma with_buffer_ok:
  assumes p: "owns a e k i p bs" and b: "with_buffer sz body p = (Inr r, p1)"
  obtains b p2 p3 where "owns a e k i p2 (b # bs)" "bf_size b = sz" "pv_mem p2 = pv_mem p" "pv_lib p2 = pv_lib p"
    "body b p2 = (Inr r, p3)"
    "owns a e k i p3 (b # bs) \<longrightarrow> owns a e k i p1 bs \<and> pv_mem p1 = pv_mem p3 \<and> pv_lib p1 = pv_lib p3"
proof -
  obtain b p2 p3 where 1: "with_world (bf_construct sz) p = (Inr b, p2)" and 2: "body b p2 = (Inr r, p3)"
    and 3: "with_world (bf_destroy b) p3 = (Inr (), p1)"
    using b by (auto simp: with_buffer_def act_bind_eq_Inr act_on_error_def act_bind_apply split: sum.splits prod.splits)
  show thesis
    using that [OF _ _ _ _ 2] construct_ok [OF p 1] destroy_ok [OF _ 3] by blast
qed

lemma send_ok:
  assumes C: "message_contract G Cx outbox writes base" and p: "owns a e k i p bs"
    and len: "length msg + 8 < 2 ^ 31" and s: "sendPassive G tag msg dest p = (Inr (), p1)"
  shows "pv_world p1 = pv_world p \<and>
    outbox (pv_lib p1) = outbox (pv_lib p) @ [(dest, frame tag msg)] \<and> writes (pv_lib p1) = writes (pv_lib p)"
proof -
  note S = sendPassive_sends [OF message_contract_passive [OF C] owns_mm [OF p] len s]
  obtain l sid off n bs s1 rp where 1: "gaspi_segment_ptr G l (pv_lib p) = (rp, s1)"
    and 2: "gaspi_passive_send G sid off dest n GASPI_BLOCK bs s1 = (GASPI_SUCCESS, pv_lib p1)"
    using s by (auto simp: sendPassive_def Let_def step_Inr segment_api.truncate_def)
  have "writes (pv_lib p1) = writes (pv_lib p)"
    using quiet_callD [OF contract_calls(5) [OF C] 1] contract_calls(1) [OF C 2] by (simp add: quiet_def)
  then show ?thesis using S by simp
qed

section \<open>The three programs\<close>

lemma date_package_bytes: "date_package n d = to_bytes 8 n @ bd_enc d"
proof -
  have "date_package n d = load (memcpy (\<lambda>_. 0) 0 (to_bytes 8 n @ bd_enc d)) 0 (length (to_bytes 8 n @ bd_enc d))"
    using memcpy_append [of "\<lambda>_. 0" 0 "to_bytes 8 n" "bd_enc d"]
    by (simp add: date_package_def long_c.ser_enc bd_ser_enc bd_ssize_23 long_c.size_enc)
  then show ?thesis by (simp only: load_memcpy)
qed

lemma date_package_read:
  assumes "m = memcpy (\<lambda>_. 0) 0 (date_package n d)"
  shows "c_des size_t_codec m 0 = (n, 8)" "bd_des m 8 = (d, 23)"
proof -
  have "load m 0 (length (date_package n d)) = date_package n d"
    unfolding assms by (rule load_memcpy)
  then have "load m 0 8 = to_bytes 8 n" "load m 8 23 = bd_enc d"
    unfolding date_package_bytes load_append_iff by simp_all
  then show "c_des size_t_codec m 0 = (n, 8)" "bd_des m 8 = (d, 23)"
    using long_c.des_enc [where x = n and m = m and p = 0] bd_des_enc by simp_all
qed

text \<open>The request for a target buffer: one message, and the answer read where it was asked for.\<close>

lemma request_target_ok:
  assumes C: "message_contract G Cx outbox writes base" and p: "owns a e k i p bs"
    and r: "request_target G me n rank p = (Inr d, p1)"
  obtains tmp m s where "owns a e k i p1 bs" "writes (pv_lib p1) = writes (pv_lib p)"
    "outbox (pv_lib p1) = outbox (pv_lib p) @
       [(rank, frame (msg_tag_number DATE) (date_package n (described me base i tmp)))]"
    "d = fst (bd_des (gaspi_segment_memory G m s) (unat (bf_pointer tmp)))"
proof -
  obtain p2 where 1: "pv_register G rank p = (Inr (), p2)" and w: "with_buffer (of_nat (bd_ssize bd_default))
      (\<lambda>tempBuffer.
       act_bind (pv_description G me tempBuffer) (\<lambda>tempBufferDesc.
       act_bind (sendPassive G (msg_tag_number DATE) (date_package n tempBufferDesc) rank) (\<lambda>_.
       act_bind (pv_waitForNotification G tempBuffer) (\<lambda>notified.
         if \<not> notified then act_throw (RuntimeError ''Unexpected behavior'')
         else (\<lambda>p. (Inr (fst (bd_des (pv_mem p) (unat (bf_address tempBuffer)))), p)))))) p2 = (Inr d, p1)"
    using r by (auto simp: request_target_def act_bind_eq_Inr)
  note R = register_ok [OF C 1]
  have o2: "owns a e k i p2 bs" using p R owns_frame [of p2 p] by simp
  obtain b p3 p4 where
    o: "owns a e k i p3 (b # bs)" "bf_size b = of_nat (bd_ssize bd_default)" "pv_mem p3 = pv_mem p2" "pv_lib p3 = pv_lib p2" and
    B: "act_bind (pv_description G me b) (\<lambda>tempBufferDesc.
       act_bind (sendPassive G (msg_tag_number DATE) (date_package n tempBufferDesc) rank) (\<lambda>_.
       act_bind (pv_waitForNotification G b) (\<lambda>notified.
         if \<not> notified then act_throw (RuntimeError ''Unexpected behavior'')
         else (\<lambda>p. (Inr (fst (bd_des (pv_mem p) (unat (bf_address b)))), p))))) p3 = (Inr d, p4)" and
    E: "owns a e k i p4 (b # bs) \<longrightarrow> owns a e k i p1 bs \<and> pv_mem p1 = pv_mem p4 \<and> pv_lib p1 = pv_lib p4"
    by (rule with_buffer_ok [OF o2 w]) (rule that)
  from B obtain desc p5 p6 v where
    2: "pv_description G me b p3 = (Inr desc, p5)" and
    3: "sendPassive G (msg_tag_number DATE) (date_package n desc) rank p5 = (Inr (), p6)" and
    4: "pv_waitForNotification G b p6 = (Inr v, p4)" and
    d: "d = fst (bd_des (pv_mem p4) (unat (bf_pointer b)))"
    by (auto simp: act_bind_eq_Inr bf_address_def split: if_splits)
  have "world_id i (pv_world p3)" using o by (simp add: owns_def)
  note D = description_ok [OF C this 2]
  then have o5: "owns a e k i p5 (b # bs)" using o(1) owns_frame [of p5 p3] by simp
  note S = send_ok [OF C o5 _ 3, simplified date_package_bytes, simplified]
  note W = wait_ok [OF C 4]
  have "owns a e k i p4 (b # bs)" using o5 S W owns_frame [of p4 p5] by simp
  then show thesis using that [of b] E R D S W d o(4) by (auto simp: quiet_def date_package_bytes)
qed

text \<open>\<open>sendMessg\<close>: then one write of the data to where the answer says.\<close>

lemma sendMessg_ok:
  assumes C: "message_contract G Cx outbox writes base" and p: "owns a e k i p bs"
    and r: "sendMessg G Cx me pData rank p = (Inr ok, p1)"
  obtains tmp src m s where "owns a e k i p1 bs"
    "outbox (pv_lib p1) = outbox (pv_lib p) @
       [(rank, frame (msg_tag_number DATE) (date_package (of_nat (length pData)) (described me base i tmp)))]"
    "writes (pv_lib p1) = writes (pv_lib p) @
       [(described me base i src, fst (bd_des (gaspi_segment_memory G m s) (unat (bf_pointer tmp))))]"
    "bf_size src = of_nat (length pData)" "load (pv_mem p1) (unat (bf_pointer src)) (length pData) = pData"
proof -
  obtain d p2 where 1: "request_target G me (of_nat (length pData)) rank p = (Inr d, p2)" and
    w: "with_buffer (of_nat (length pData)) (\<lambda>sourceBuffer.
       act_bind (store (bf_address sourceBuffer) pData) (\<lambda>_.
       act_bind (pv_description G me sourceBuffer) (\<lambda>sourceBufferDesc.
       act_bind (with_lib (\<lambda>_. cx_write Cx sourceBufferDesc d)) (\<lambda>_.
       act_bind (with_lib (\<lambda>_. cx_flush Cx)) (\<lambda>_.
       act_return True))))) p2 = (Inr ok, p1)"
    using r by (auto simp: sendMessg_def act_bind_eq_Inr)
  from request_target_ok [OF C p 1] obtain tmp m s where o2: "owns a e k i p2 bs" and
    R: "writes (pv_lib p2) = writes (pv_lib p)" "outbox (pv_lib p2) = outbox (pv_lib p) @
       [(rank, frame (msg_tag_number DATE) (date_package (of_nat (length pData)) (described me base i tmp)))]"
    "d = fst (bd_des (gaspi_segment_memory G m s) (unat (bf_pointer tmp)))" .
  obtain b p3 p4 where
    o: "owns a e k i p3 (b # bs)" "bf_size b = of_nat (length pData)" "pv_mem p3 = pv_mem p2" "pv_lib p3 = pv_lib p2" and
    B: "act_bind (store (bf_address b) pData) (\<lambda>_.
       act_bind (pv_description G me b) (\<lambda>sourceBufferDesc.
       act_bind (with_lib (\<lambda>_. cx_write Cx sourceBufferDesc d)) (\<lambda>_.
       act_bind (with_lib (\<lambda>_. cx_flush Cx)) (\<lambda>_.
       act_return True)))) p3 = (Inr ok, p4)" and
    E: "owns a e k i p4 (b # bs) \<longrightarrow> owns a e k i p1 bs \<and> pv_mem p1 = pv_mem p4 \<and> pv_lib p1 = pv_lib p4"
    by (rule with_buffer_ok [OF o2 w]) (rule that)
  let ?p = "p3\<lparr>pv_mem := memcpy (pv_mem p3) (unat (bf_pointer b)) pData\<rparr>"
  from B obtain desc p5 p6 where
    2: "pv_description G me b ?p = (Inr desc, p5)" and
    3: "with_lib (\<lambda>_. cx_write Cx desc d) p5 = (Inr (), p6)" and
    4: "with_lib (\<lambda>_. cx_flush Cx) p6 = (Inr (), p4)"
    by (auto simp: act_bind_eq_Inr bf_address_def store_Inr)
  have "world_id i (pv_world ?p)" using o by (simp add: owns_def)
  note D = description_ok [OF C this 2]
  note W = write_ok [OF C 3]
  note F = flush_ok [OF C 4]
  have "owns a e k i p4 (b # bs)" using o(1) D W F owns_frame [of p4 p3] by simp
  moreover have "load (pv_mem p4) (unat (bf_pointer b)) (length pData) = pData"
    using D W F load_memcpy [of "pv_mem p3" "unat (bf_pointer b)" pData] by simp
  ultimately show thesis using that [of tmp b m s] E R D W F o by (simp add: quiet_def)
qed

text \<open>
  The passive thread on a request: a buffer for the data, kept for \<open>recvMessg\<close>, and one write of its
  description to the buffer that was named.
\<close>

lemma serve_request_ok:
  assumes C: "message_contract G Cx outbox writes base" and p: "owns a e k i p bs"
    and m: "c_des size_t_codec (memcpy (\<lambda>_. 0) 0 msg) 0 = (n, n1)" "bd_des (memcpy (\<lambda>_. 0) 0 msg) n1 = (d, n2)"
    and r: "serve_request G Cx me msg rank p = (Inr todo, p1)"
  obtains b tmp where "todo = HandOver" "owns a e k i p1 (b # bs)"
    "pv_msg_ptr p1 = Some b" "pv_msg_size p1 = ucast n" "pv_msg_rank p1 = rank" "bf_size b = n"
    "outbox (pv_lib p1) = outbox (pv_lib p)" "writes (pv_lib p1) = writes (pv_lib p) @ [(described me base i tmp, d)]"
    "bf_size tmp = 23" "load (pv_mem p1) (unat (bf_pointer tmp)) 23 = bd_enc (described me base i b)"
proof -
  obtain p2 b p3 p4 where 1: "pv_register G (bd_rank d) p = (Inr (), p2)" and
    2: "with_world (bf_construct n) p2 = (Inr b, p3)" and
    B: "act_bind (pv_description G me b) (\<lambda>descr.
            with_buffer (of_nat (bd_ssize descr)) (\<lambda>g_temp_buffer.
              act_bind (store_description (bf_address g_temp_buffer) descr) (\<lambda>_.
              act_bind (pv_description G me g_temp_buffer) (\<lambda>tempDesc.
              act_bind (with_lib (\<lambda>_. cx_write Cx tempDesc d)) (\<lambda>_.
              with_lib (\<lambda>_. cx_flush Cx)))))) p3 = (Inr (), p4)" and
    E: "todo = HandOver" "p1 = p4\<lparr>pv_msg_size := ucast n, pv_msg_rank := rank, pv_msg_ptr := Some b\<rparr>"
    using r by (auto simp: serve_request_def Let_def m act_bind_eq_Inr act_on_error_def act_bind_apply
        split: sum.splits prod.splits)
  note R = register_ok [OF C 1]
  have "owns a e k i p2 bs" using p R owns_frame [of p2 p] by simp
  note N = construct_ok [OF this 2]
  from B obtain desc p5 where 3: "pv_description G me b p3 = (Inr desc, p5)" and
    w: "with_buffer (of_nat (bd_ssize desc)) (\<lambda>g_temp_buffer.
              act_bind (store_description (bf_address g_temp_buffer) desc) (\<lambda>_.
              act_bind (pv_description G me g_temp_buffer) (\<lambda>tempDesc.
              act_bind (with_lib (\<lambda>_. cx_write Cx tempDesc d)) (\<lambda>_.
              with_lib (\<lambda>_. cx_flush Cx))))) p5 = (Inr (), p4)"
    by (auto simp: act_bind_eq_Inr)
  have "world_id i (pv_world p3)" using N by (simp add: owns_def)
  note D = description_ok [OF C this 3]
  have o5: "owns a e k i p5 (b # bs)" using N D owns_frame [of p5 p3] by simp
  obtain t p6 p7 where
    o: "owns a e k i p6 (t # b # bs)" "bf_size t = of_nat (bd_ssize desc)" "pv_mem p6 = pv_mem p5" "pv_lib p6 = pv_lib p5" and
    T: "act_bind (store_description (bf_address t) desc) (\<lambda>_.
              act_bind (pv_description G me t) (\<lambda>tempDesc.
              act_bind (with_lib (\<lambda>_. cx_write Cx tempDesc d)) (\<lambda>_.
              with_lib (\<lambda>_. cx_flush Cx)))) p6 = (Inr (), p7)" and
    X: "owns a e k i p7 (t # b # bs) \<longrightarrow> owns a e k i p4 (b # bs) \<and> pv_mem p4 = pv_mem p7 \<and> pv_lib p4 = pv_lib p7"
    by (rule with_buffer_ok [OF o5 w]) (rule that)
  let ?p = "p6\<lparr>pv_mem := memcpy (pv_mem p6) (unat (bf_pointer t)) (bd_enc desc)\<rparr>"
  from T obtain tdesc p8 p9 where
    4: "pv_description G me t ?p = (Inr tdesc, p8)" and
    5: "with_lib (\<lambda>_. cx_write Cx tdesc d) p8 = (Inr (), p9)" and
    6: "with_lib (\<lambda>_. cx_flush Cx) p9 = (Inr (), p7)"
    by (auto simp: act_bind_eq_Inr bf_address_def store_description_def bd_ser_enc)
  have "world_id i (pv_world ?p)" using o by (simp add: owns_def)
  note D2 = description_ok [OF C this 4]
  note W = write_ok [OF C 5]
  note F = flush_ok [OF C 6]
  have "owns a e k i p7 (t # b # bs)" using o(1) D2 W F owns_frame [of p7 p6] by simp
  note X = X [rule_format, OF this]
  have "owns a e k i p1 (b # bs)" using X E owns_frame [of p1 p4] by simp
  moreover have "load (pv_mem p7) (unat (bf_pointer t)) 23 = bd_enc desc"
    using D2 W F load_memcpy [of "pv_mem p6" "unat (bf_pointer t)" "bd_enc desc"] by simp
  ultimately show thesis using that [of b t] E R N D D2 W F X o by (simp add: quiet_def bd_ssize_23)
qed

lemma thread_request_ok:
  assumes C: "message_contract G Cx outbox writes base" and p: "owns a e k i p bs"
    and len: "39 \<le> unat bufSize" "unat bufSize < 2 ^ 31"
    and deliver: "\<And>sid off num s src bs s1. gaspi_passive_receive G sid off num GASPI_BLOCK s
        = ((GASPI_SUCCESS, src, bs), s1) \<Longrightarrow> src = rank \<and> bs = frame (msg_tag_number DATE) (date_package n d)"
    and r: "passive_thread_message G Cx me bufSize p = (Inr todo, p1)"
  obtains b tmp where "todo = HandOver" "owns a e k i p1 (b # bs)"
    "pv_msg_ptr p1 = Some b" "pv_msg_size p1 = ucast n" "pv_msg_rank p1 = ucast rank" "bf_size b = n"
    "outbox (pv_lib p1) = outbox (pv_lib p)" "writes (pv_lib p1) = writes (pv_lib p) @ [(described me base i tmp, d)]"
    "bf_size tmp = 23" "load (pv_mem p1) (unat (bf_pointer tmp)) 23 = bd_enc (described me base i b)"
proof -
  obtain t z rk msg p2 where 1: "recvPassive G bufSize p = (Inr (t, z, rk, msg), p2)"
    and 2: "dispatch G Cx me t msg rk p2 = (Inr todo, p1)"
    using r by (auto simp: passive_thread_message_def act_bind_eq_Inr)
  have "8 + length (date_package n d) \<le> unat bufSize" using len by (simp add: date_package_bytes)
  note recvPassive_receives [where tag = "msg_tag_number DATE" and me = rank, OF owns_mm [OF p] this len(2) deliver 1]
  then have R: "t = msg_tag_number DATE" "rk = ucast rank" "msg = date_package n d" "pv_world p2 = pv_world p" by simp_all
  obtain l sid off m s1 s2 rp rr where 3: "gaspi_segment_ptr G l (pv_lib p) = (rp, s1)"
    and 4: "gaspi_passive_receive G sid off m GASPI_BLOCK s1 = (rr, s2)" and 5: "pv_lib p2 = s2"
    using 1 by (auto simp: recvPassive_def Let_def step_Inr segment_api.truncate_def act_throw_def split: if_splits)
  have Q: "quiet outbox writes (pv_lib p) (pv_lib p2)"
    using quiet_trans [OF quiet_callD [OF contract_calls(5) [OF C] 3] quiet_callD [OF contract_calls(4) [OF C] 4]] 5 by simp
  have o2: "owns a e k i p2 bs" using p R(4) owns_frame [of p2 p] by simp
  have S: "serve_request G Cx me (date_package n d) (ucast rank) p2 = (Inr todo, p1)"
    using 2 R by (simp add: dispatch_def)
  show thesis
    using serve_request_ok [OF C o2 date_package_read [OF refl] S] that Q unfolding quiet_def by metis
qed

lemma recv_copy_ok:
  assumes b: "pv_msg_ptr p = Some b" and r: "recv_copy G p = (Inr got, p1)"
  obtains s where "got = Some (load (gaspi_segment_memory G (pv_mem p) s) (unat (bf_pointer b))
      (unat (scast (pv_msg_size p) :: u64)), pv_msg_rank p)" "pv_msg_ptr p1 = None"
    "owns a e k i p (b # bs) \<longrightarrow> owns a e k i p1 bs"
proof -
  obtain v p2 p3 where 1: "pv_waitForNotification G b p = (Inr v, p2)"
    and 2: "with_world (bf_destroy b) p2 = (Inr (), p3)" and p1: "p1 = p3\<lparr>pv_msg_ptr := None\<rparr>"
    and g: "got = Some (load (pv_mem p2) (unat (bf_pointer b)) (unat (scast (pv_msg_size p) :: u64)), pv_msg_rank p3)"
    using assms by (auto simp: recv_copy_def act_bind_eq_Inr fetch_Inr bf_address_def)
  have W: "pv_mem p2 = gaspi_segment_memory G (pv_mem p) (pv_lib p2)" "pv_world p2 = pv_world p" "pv_msg_rank p2 = pv_msg_rank p"
    using 1 by (auto simp: pv_waitForNotification_def with_lib_def split: prod.splits)
  have "pv_msg_rank p3 = pv_msg_rank p" using 2 W by (auto simp: with_world_Inr)
  moreover have "owns a e k i p1 bs" if "owns a e k i p (b # bs)"
    using that destroy_ok [OF _ 2, of a e k i bs] owns_frame [of p2 p] owns_frame [of p1 p3] W p1 by simp
  ultimately show thesis using that g W p1 by auto
qed

section \<open>The message\<close>

text \<open>What was written from one segment is found in the other.\<close>

definition arrived :: "mem \<Rightarrow> (u8 \<Rightarrow> u64) \<Rightarrow> mem \<Rightarrow> (u8 \<Rightarrow> u64) \<Rightarrow> buffer_description \<times> buffer_description \<Rightarrow> bool" where
  "arrived m base m' base' = (\<lambda>(src, tgt).
     load m' (unat (base' (bd_segmentId tgt) + bd_offset tgt)) (unat (bd_size src)) =
     load m (unat (base (bd_segmentId src) + bd_offset src)) (unat (bd_size src)))"

lemma described_address [simp]:
  "base (bd_segmentId (described me base i b)) + bd_offset (described me base i b) = bf_pointer b"
  "bd_size (described me base i b) = bf_size b" "bd_rank (described me base i b) = me"
  by (simp_all add: described_def)

lemma message_delivered:
  assumes A: "message_contract GA CA outA writesA baseA" "owns aA eA kA iA pA bsA"
    and B: "message_contract GB CB outB writesB baseB" "owns aB eB kB iB pB bsB"
    and sz: "39 \<le> unat bufSize" "unat bufSize < 2 ^ 31" "length pData < 2 ^ 31"
    and sent: "sendMessg GA CA ra pData rb pA = (Inr ok, pA1)"
    and served: "passive_thread_message GB CB rb bufSize pB = (Inr todo, pB1)"
    and copied: "recv_copy GB pB1 = (Inr got, pB2)"
    and message: "\<And>sid off n s src bs s1. gaspi_passive_receive GB sid off n GASPI_BLOCK s
        = ((GASPI_SUCCESS, src, bs), s1) \<Longrightarrow> src = ra \<and> (rb, bs) = last (outA (pv_lib pA1))"
    and answer: "\<And>m s. arrived (pv_mem pB1) baseB (gaspi_segment_memory GA m s) baseA (last (writesB (pv_lib pB1)))"
    and data: "\<And>m s. arrived (pv_mem pA1) baseA (gaspi_segment_memory GB m s) baseB (last (writesA (pv_lib pA1)))"
  shows "got = Some (pData, ucast ra) \<and> todo = HandOver \<and> pv_msg_ptr pB2 = None \<and>
    length (outA (pv_lib pA1)) = length (outA (pv_lib pA)) + 1 \<and>
    length (writesA (pv_lib pA1)) = length (writesA (pv_lib pA)) + 1 \<and>
    length (writesB (pv_lib pB1)) = length (writesB (pv_lib pB)) + 1 \<and>
    owns aA eA kA iA pA1 bsA \<and> owns aB eB kB iB pB2 bsB"
proof -
  let ?n = "of_nat (length pData) :: u64"
  have n: "unat ?n = length pData" "unat (scast (ucast ?n :: u32) :: u64) = length pData"
    using sz(3) scast_ucast_small [of ?n] by simp_all
  from sendMessg_ok [OF A sent] obtain tmp src m s where S: "owns aA eA kA iA pA1 bsA"
    "outA (pv_lib pA1) = outA (pv_lib pA) @
       [(rb, frame (msg_tag_number DATE) (date_package ?n (described ra baseA iA tmp)))]"
    "writesA (pv_lib pA1) = writesA (pv_lib pA) @
       [(described ra baseA iA src, fst (bd_des (gaspi_segment_memory GA m s) (unat (bf_pointer tmp))))]"
    "bf_size src = ?n" "load (pv_mem pA1) (unat (bf_pointer src)) (length pData) = pData" .
  have req: "src = ra \<and> bs = frame (msg_tag_number DATE) (date_package ?n (described ra baseA iA tmp))"
    if "gaspi_passive_receive GB sid off n GASPI_BLOCK s = ((GASPI_SUCCESS, src, bs), s1)" for sid off n s src bs s1
    using message [OF that] S(2) by simp
  obtain b t where T: "todo = HandOver" "owns aB eB kB iB pB1 (b # bsB)"
    "pv_msg_ptr pB1 = Some b" "pv_msg_size pB1 = ucast ?n" "pv_msg_rank pB1 = ucast ra" "bf_size b = ?n"
    "outB (pv_lib pB1) = outB (pv_lib pB)"
    "writesB (pv_lib pB1) = writesB (pv_lib pB) @ [(described rb baseB iB t, described ra baseA iA tmp)]"
    "bf_size t = 23" "load (pv_mem pB1) (unat (bf_pointer t)) 23 = bd_enc (described rb baseB iB b)"
    by (rule thread_request_ok [OF B sz(1,2) req served]) (assumption | rule that)+
  have "load (gaspi_segment_memory GA m s) (unat (bf_pointer tmp)) 23 = bd_enc (described rb baseB iB b)"
    using answer [of m s] T by (simp add: arrived_def)
  then have w: "last (writesA (pv_lib pA1)) = (described ra baseA iA src, described rb baseB iB b)"
    using S(3) by (simp add: bd_des_enc)
  obtain s' where R: "got = Some (load (gaspi_segment_memory GB (pv_mem pB1) s') (unat (bf_pointer b))
      (unat (scast (pv_msg_size pB1) :: u64)), pv_msg_rank pB1)" "pv_msg_ptr pB2 = None"
    "owns aB eB kB iB pB1 (b # bsB) \<longrightarrow> owns aB eB kB iB pB2 bsB"
    by (rule recv_copy_ok [OF T(3) copied]) (rule that)
  have "load (gaspi_segment_memory GB (pv_mem pB1) s') (unat (bf_pointer b)) (length pData) = pData"
    using data [of "pv_mem pB1" s'] w S(4,5) n by (simp add: arrived_def)
  then show ?thesis using R S T n by simp
qed

text \<open>
  Property C24: a data message arrives.  A process \<open>A\<close> runs \<open>sendMessg\<close>, the passive thread of a
  process \<open>B\<close> takes the message this sends, and a thread of \<open>B\<close> copies the data in \<open>recvMessg\<close>; none of
  them throws.  If the passive message, \<open>B\<close>'s write and \<open>A\<close>'s write arrive as they were posted, the
  copy is the data, with the sender's rank; \<open>A\<close> has sent one message and posted one write, \<open>B\<close> has
  posted one write; and on both sides exactly the buffers that were alive before are alive.
\<close>

theorem data_message:
  assumes A: "message_contract GA CA outA writesA baseA" "owns aA eA kA iA pA bsA"
    and B: "message_contract GB CB outB writesB baseB" "owns aB eB kB iB pB bsB"
    and sz: "39 \<le> unat bufSize" "unat bufSize < 2 ^ 31" "length pData < 2 ^ 31"
    and sent: "sendMessg GA CA ra pData rb pA = (Inr ok, pA1)"
    and served: "passive_thread_message GB CB rb bufSize pB = (Inr todo, pB1)"
    and copied: "recv_copy GB pB1 = (Inr got, pB2)"
    and message: "\<And>sid off n s src bs s1. gaspi_passive_receive GB sid off n GASPI_BLOCK s
        = ((GASPI_SUCCESS, src, bs), s1) \<Longrightarrow> src = ra \<and> (rb, bs) = last (outA (pv_lib pA1))"
    and answer: "\<And>m s. arrived (pv_mem pB1) baseB (gaspi_segment_memory GA m s) baseA (last (writesB (pv_lib pB1)))"
    and data: "\<And>m s. arrived (pv_mem pA1) baseA (gaspi_segment_memory GB m s) baseB (last (writesA (pv_lib pA1)))"
  shows "got = Some (pData, ucast ra) \<and> todo = HandOver \<and> pv_msg_ptr pB2 = None \<and>
    length (outA (pv_lib pA1)) = length (outA (pv_lib pA)) + 1 \<and>
    length (writesA (pv_lib pA1)) = length (writesA (pv_lib pA)) + 1 \<and>
    length (writesB (pv_lib pB1)) = length (writesB (pv_lib pB)) + 1 \<and>
    owns aA eA kA iA pA1 bsA \<and> owns aB eB kB iB pB2 bsB"
  by (rule message_delivered [OF A B sz sent served copied])
    (use message answer data in \<open>assumption | blast\<close>)+

text \<open>A library that keeps what is sent and written, delivers one frame, and has the given bytes arrive at 4096.\<close>

definition post_office :: "u16 \<Rightarrow> u8 list \<Rightarrow> u8 list \<Rightarrow>
    ((u16 \<times> u8 list) list \<times> (buffer_description \<times> buffer_description) list) passive_gaspi" where
  "post_office src bs written =
     \<lparr>gaspi_error_str = (\<lambda>_. ''error''),
      gaspi_queue_create = (\<lambda>_ s. ((GASPI_SUCCESS, 0), s)),
      gaspi_queue_delete = (\<lambda>_ s. (GASPI_SUCCESS, s)),
      gaspi_queue_num = (\<lambda>s. ((GASPI_SUCCESS, 1), s)),
      gaspi_queue_max = (\<lambda>s. ((GASPI_SUCCESS, 16), s)),
      gaspi_wait = (\<lambda>q _ s. (GASPI_SUCCESS, s)),
      gaspi_post = (\<lambda>r q _ s. (GASPI_SUCCESS, s)),
      gaspi_notify_waitsome = (\<lambda>_ n _ _ s. ((GASPI_SUCCESS, n), s)),
      gaspi_notify_reset = (\<lambda>_ _ s. ((GASPI_SUCCESS, 1), s)),
      gaspi_proc_rank = (\<lambda>s. ((GASPI_SUCCESS, 0), s)),
      gaspi_segment_size = (\<lambda>_ _ s. ((GASPI_SUCCESS, 1024), s)),
      gaspi_segment_ptr = (\<lambda>_ s. ((GASPI_SUCCESS, 4096), s)),
      gaspi_notification_num = (\<lambda>s. ((GASPI_SUCCESS, 65536), s)),
      gaspi_segment_avail_local = (\<lambda>s. ((GASPI_SUCCESS, 7), s)),
      gaspi_segment_alloc = (\<lambda>_ _ s. (GASPI_SUCCESS, s)),
      gaspi_segment_register = (\<lambda>_ _ _ s. (GASPI_SUCCESS, s)),
      gaspi_segment_delete = (\<lambda>_ s. (GASPI_SUCCESS, s)),
      gaspi_passive_send = (\<lambda>_ _ rank _ _ bs s. (GASPI_SUCCESS, fst s @ [(rank, bs)], snd s)),
      gaspi_passive_receive = (\<lambda>_ _ _ _ s. ((GASPI_SUCCESS, src, bs), s)),
      gaspi_segment_memory = (\<lambda>m _. memcpy m 4096 written)\<rparr>"

definition post_context :: "((u16 \<times> u8 list) list \<times> (buffer_description \<times> buffer_description) list) context_api" where
  "post_context = \<lparr>cx_write = (\<lambda>src tgt s. (Inr (), fst s, snd s @ [(src, tgt)])),
     cx_notify = (\<lambda>_ s. (Inr (), s)), cx_flush = (\<lambda>s. (Inr (), s))\<rparr>"

lemma post_office_contract: "message_contract (post_office src bs wr) post_context fst snd (\<lambda>_. 4096)"
  by (auto simp: message_contract_def quiet_call_def quiet_def post_office_def post_context_def)

definition demo_party :: "((u16 \<times> u8 list) list \<times> (buffer_description \<times> buffer_description) list) pstate" where
  "demo_party = \<lparr>pv_world = demo_world, pv_mem = (\<lambda>_. 0), pv_srcTargetBuffers = (\<lambda>_. None),
     pv_rcvTargetBuffers = (\<lambda>_. None), pv_msg_size = 0, pv_msg_rank = 0, pv_msg_ptr = None, pv_lib = ([], [])\<rparr>"

abbreviation demo_desc :: "u16 \<Rightarrow> u64 \<Rightarrow> u64 \<Rightarrow> u32 \<Rightarrow> buffer_description" where
  "demo_desc rank off sz nid \<equiv> \<lparr>bd_rank = rank, bd_segmentId = 7, bd_offset = off, bd_size = sz, bd_notificationId = nid\<rparr>"

lemma demo_party_owns: "owns 4096 5120 65536 7 demo_party []"
  using owned_fresh [of 4096 1024 65536 "demo_segment 1024"]
  by (simp add: owns_def demo_party_def demo_world_def demo_segment_def world_id_def segment_id_def)


lemma length_date_package [simp]: "length (date_package n d) = 31"
  by (simp add: date_package_bytes)

lemmas demo_eval = with_world_def bf_construct_def memory_allocation_def on_manager_def allocator_allocate_def
  mm_allocate_def notify_allocation_def acquire_notification_def nm_allocate_def act_on_error_def act_bind_apply
  pv_register_def with_lib_def remoteRegistration_def with_buffer_def pv_segment_def segment_api.truncate_def
  gaspi_checked_eq gaspi_checked_out_eq pv_description_def bf_description_def pointerToOffset_def getSegmentPtr_def
  sendPassive_def Let_def store_def fetch_def allocator_deallocate_def mm_deallocate_def 
  pv_waitForNotification_def bf_waitForNotification_def bf_destroy_def notify_release_def release_notification_def
  nm_deallocate_def memory_release_def bf_address_def segment_id_def pv_seg_id_def bd_ssize_23
  release_block_def

abbreviation demo_request :: "u16 \<Rightarrow> u8 list" where
  "demo_request ra \<equiv> frame (msg_tag_number DATE) (date_package 3 (demo_desc ra 0 23 0))"

text \<open>A process of rank \<open>ra\<close> that sends three bytes to one of rank \<open>rb\<close>, and that one.\<close>

abbreviation demo_sender :: "u16 \<Rightarrow> ((u16 \<times> u8 list) list \<times> (buffer_description \<times> buffer_description) list) passive_gaspi" where
  "demo_sender rb \<equiv> post_office 0 [] (bd_enc (demo_desc rb 0 3 0))"

abbreviation demo_receiver ::
    "u16 \<Rightarrow> u8 list \<Rightarrow> ((u16 \<times> u8 list) list \<times> (buffer_description \<times> buffer_description) list) passive_gaspi" where
  "demo_receiver ra data \<equiv> post_office ra (demo_request ra) data"

lemma demo_sends: "\<exists>p m. sendMessg (demo_sender rb) post_context ra [x, y, z] rb demo_party = (Inr True, p) \<and>
    pv_lib p = ([(rb, demo_request ra)], [(demo_desc ra 0 3 0, demo_desc rb 0 3 0)]) \<and> pv_mem p = memcpy m 4096 [x, y, z]"
proof -
  have 1: "load (memcpy (memcpy (memcpy m 4119 (to_bytes 4 (4 :: u32))) 4123 (to_bytes 4 (31 :: u32))) 4127 (date_package n d)) 4119 39
      = frame 4 (date_package n d)" for n d m
    using frame_stored [of 4119 "date_package n d" m 4] by simp
  have "load (memcpy m 4096 (bd_enc d)) 4096 23 = bd_enc d" for m d
    using load_memcpy [of m 4096 "bd_enc d"] by simp
  then have 2: "fst (bd_des (memcpy m 4096 (bd_enc d)) 4096) = d" for m d by (simp add: bd_des_enc)
  show ?thesis
    by (simp add: demo_eval sendMessg_def request_target_def demo_party_def demo_world_def demo_segment_def
        mm_construct_def nm_construct_def post_office_def post_context_def 1 2) blast
qed

lemma demo_serves: "\<exists>p m. passive_thread_message (demo_receiver ra data) post_context rb 64 demo_party = (Inr HandOver, p) \<and>
    pv_lib p = ([], [(demo_desc rb 3 23 1, demo_desc ra 0 23 0)]) \<and> pv_mem p = memcpy m 4099 (bd_enc (demo_desc rb 0 3 0)) \<and>
    (\<exists>g p2. recv_copy (demo_receiver ra data) p = (Inr g, p2))"
proof -
  have L: "load (memcpy m 4096 (demo_request ra)) 4096 (length (demo_request ra)) = demo_request ra" for m
    by (rule load_memcpy)
  then have 1: "load (memcpy m 4096 (demo_request ra)) 4096 4 = to_bytes 4 (4 :: u32)"
    "load (memcpy m 4096 (demo_request ra)) 4100 4 = to_bytes 4 (31 :: u32)"
    "load (memcpy m 4096 (demo_request ra)) 4104 31 = date_package 3 (demo_desc ra 0 23 0)" for m
    using L [of m] unfolding frame_def load_append_iff by simp_all
  show ?thesis
    by (simp add: demo_eval passive_thread_message_def recvPassive_def dispatch_def serve_request_def
        store_description_def demo_party_def demo_world_def demo_segment_def mm_construct_def nm_construct_def
        post_office_def post_context_def 1 [simplified] from_to_bytes date_package_read bd_ser_enc recv_copy_def) blast
qed

lemma data_message_witness:
  "\<exists>pA pB pB2. sendMessg (demo_sender 5) post_context 3 [7, 8, 9] 5 demo_party = (Inr True, pA) \<and>
     passive_thread_message (demo_receiver 3 [7, 8, 9]) post_context 5 64 demo_party = (Inr HandOver, pB) \<and>
     recv_copy (demo_receiver 3 [7, 8, 9]) pB = (Inr (Some ([7, 8, 9], 3)), pB2)"
proof -
  obtain pA m where A: "sendMessg (demo_sender 5) post_context 3 [7, 8, 9] 5 demo_party = (Inr True, pA)"
    "pv_lib pA = ([(5, demo_request 3)], [(demo_desc 3 0 3 0, demo_desc 5 0 3 0)])" "pv_mem pA = memcpy m 4096 [7, 8, 9]"
    using demo_sends by blast
  obtain pB m' g pB2 where B: "passive_thread_message (demo_receiver 3 [7, 8, 9]) post_context 5 64 demo_party = (Inr HandOver, pB)"
    "pv_lib pB = ([], [(demo_desc 5 3 23 1, demo_desc 3 0 23 0)])" "pv_mem pB = memcpy m' 4099 (bd_enc (demo_desc 5 0 3 0))"
    "recv_copy (demo_receiver 3 [7, 8, 9]) pB = (Inr g, pB2)" using demo_serves by blast
  have sz: "39 \<le> unat (64 :: u32)" "unat (64 :: u32) < 2 ^ 31" "length [7, 8, 9 :: u8] < 2 ^ 31" by simp_all
  have message: "src = 3 \<and> (5, bs) = last (fst (pv_lib pA))"
    if "gaspi_passive_receive (demo_receiver 3 [7, 8, 9]) sid off n GASPI_BLOCK s = ((GASPI_SUCCESS, src, bs), s1)" for sid off n s src bs s1
    using that A(2) by (simp add: post_office_def)
  have l: "load (memcpy x q [7, 8, 9 :: u8]) q 3 = [7, 8, 9]" for x q
    using load_memcpy [of x q "[7, 8, 9]"] by (simp add: numeral_3_eq_3)
  have d: "load (memcpy x q (bd_enc desc)) q 23 = bd_enc desc" for x q desc
    using load_memcpy [of x q "bd_enc desc"] by simp
  have answer: "arrived (pv_mem pB) (\<lambda>_. 4096) (gaspi_segment_memory (demo_sender 5) m s) (\<lambda>_. 4096) (last (snd (pv_lib pB)))"
    and data: "arrived (pv_mem pA) (\<lambda>_. 4096) (gaspi_segment_memory (demo_receiver 3 [7, 8, 9]) m s) (\<lambda>_. 4096) (last (snd (pv_lib pA)))" for m s
    by (simp_all add: arrived_def A B post_office_def l d)
  show ?thesis
    using data_message [OF post_office_contract demo_party_owns post_office_contract demo_party_owns sz A(1) B(1,4) message answer data]
      A(1) B(1,4) by auto
qed

end
