(* ===== verification/Passive_Thread.thy ===== *)
theory Passive_Thread
  imports Data_Messages
begin

text \<open>
  The passive thread as a whole: its loop over the messages, what it prints for an error message, and
  \<open>finish\<close>, which ends it.  When the loop hands a data message over, it waits for a thread in
  \<open>recvMessg\<close>; the two barriers are in \<open>Passive_Handoff\<close>, and what happens between them is that
  thread's copy.
\<close>

section \<open>Error messages\<close>

text \<open>\<open>std::string::find\<close> of a newline from a position on.\<close>

fun find_newline :: "u8 list \<Rightarrow> nat \<Rightarrow> nat option" where
  "find_newline [] pos = None"
| "find_newline (c # cs) 0 = (if c = 10 then Some 0 else map_option Suc (find_newline cs 0))"
| "find_newline (c # cs) (Suc pos) = map_option Suc (find_newline cs pos)"

lemma find_newline_spec:
  "case find_newline cs pos of
     None \<Rightarrow> 10 \<notin> set (drop pos cs)
   | Some k \<Rightarrow> pos \<le> k \<and> k < length cs \<and> cs ! k = 10 \<and> 10 \<notin> set (take (k - pos) (drop pos cs))"
  by (induction cs pos rule: find_newline.induct) (auto split: option.splits)

function error_lines :: "u8 list \<Rightarrow> nat \<Rightarrow> u8 list list" where
  "error_lines buf_string sub_beg =
     (if sub_beg < length buf_string
      then let sub_end = (case find_newline buf_string sub_beg of None \<Rightarrow> length buf_string | Some pos \<Rightarrow> pos)
           in take (sub_end - sub_beg) (drop sub_beg buf_string) # error_lines buf_string (sub_end + 1)
      else [])"
  by pat_completeness auto
termination
proof (relation "measure (\<lambda>(str, sub_beg). length str - sub_beg)")
  fix str :: "u8 list" and sub_beg sub_end
  assume "sub_beg < length str" "sub_end = (case find_newline str sub_beg of None \<Rightarrow> length str | Some pos \<Rightarrow> pos)"
  then show "((str, sub_end + 1), str, sub_beg) \<in> measure (\<lambda>(str, sub_beg). length str - sub_beg)"
    using find_newline_spec [where cs = str and pos = sub_beg] by (auto split: option.splits)
qed simp

declare error_lines.simps [simp del]

text \<open>The lines are those of the message: each printed with its newline they are the message again.\<close>

lemma error_lines_join:
  "sub_beg \<le> length str \<Longrightarrow> concat (map (\<lambda>l. l @ [10]) (error_lines str sub_beg)) =
     (if drop sub_beg str = [] \<or> last str = 10 then drop sub_beg str else drop sub_beg str @ [10])"
proof (induction str sub_beg rule: error_lines.induct)
  case (1 str sub_beg)
  show ?case
  proof (cases "sub_beg < length str")
    case False
    then show ?thesis by (subst error_lines.simps) simp
  next
    case True
    show ?thesis
    proof (cases "find_newline str sub_beg")
      case None
      have "error_lines str (length str + 1) = []" by (subst error_lines.simps) simp
      moreover have "10 \<notin> set (drop sub_beg str)" using find_newline_spec [where cs = str and pos = sub_beg] None by simp
      moreover have "last str \<in> set (drop sub_beg str)"
        using True by (metis drop_eq_Nil last_drop last_in_set leD)
      ultimately show ?thesis using True None by (subst error_lines.simps) auto
    next
      case (Some k)
      then have k: "sub_beg \<le> k" "k < length str" "str ! k = 10" using find_newline_spec [where cs = str and pos = sub_beg] by simp_all
      have d: "drop sub_beg str = take (k - sub_beg) (drop sub_beg str) @ 10 # drop (k + 1) str"
        using k by (metis Suc_eq_plus1 add_diff_inverse_nat append_take_drop_id Cons_nth_drop_Suc drop_drop le_add_diff_inverse2 not_less)
      have IH: "concat (map (\<lambda>l. l @ [10]) (error_lines str (k + 1))) =
          (if drop (k + 1) str = [] \<or> last str = 10 then drop (k + 1) str else drop (k + 1) str @ [10])"
        using 1 True Some k by simp
      have "last str = 10" if "drop (k + 1) str = []"
        using that k last_conv_nth [of str] by (cases "str = []") (auto simp: le_Suc_eq)
      then show ?thesis using True Some IH d by (subst error_lines.simps) (auto simp: Let_def)
    qed
  qed
qed

section \<open>The loop\<close>

text \<open>
  How the thread's function is left: by its \<open>return\<close>, by the signal after an error message, or by an
  exception, which ends the process.  The result also lists what threads in \<open>recvMessg\<close> have copied.
  A copy that does not return leaves the thread in its second barrier: the value \<open>None\<close>.
\<close>

datatype thread_exit = Returns | SIGINT_raised | Exception_escapes exn

partial_function (option) passive_thread_func ::
    "'s passive_gaspi \<Rightarrow> 's context_api \<Rightarrow> u16 \<Rightarrow> u32 \<Rightarrow> (u8 list \<times> u32) list \<Rightarrow> 's pstate \<Rightarrow>
      (thread_exit \<times> (u8 list \<times> u32) list \<times> 's pstate) option" where
  "passive_thread_func G Cx me bufSize copied p =
     (case passive_thread_message G Cx me bufSize p of
        (Inl ex, p1) \<Rightarrow> Some (Exception_escapes ex, copied, p1)
      | (Inr ThreadFinished, p1) \<Rightarrow> Some (Returns, copied, p1)
      | (Inr RaisedSIGINT, p1) \<Rightarrow> Some (SIGINT_raised, copied, p1)
      | (Inr NextMessage, p1) \<Rightarrow> passive_thread_func G Cx me bufSize copied p1
      | (Inr HandOver, p1) \<Rightarrow>
          (case recv_copy G p1 of
             (Inr (Some x), p2) \<Rightarrow> passive_thread_func G Cx me bufSize (copied @ [x]) p2
           | _ \<Rightarrow> None))"

text \<open>
  \<open>finish\<close>: the message to itself, and the join, which returns when the thread's function does.  The
  thread has been waiting for messages since it was started; what it does before the message was sent
  is part of the same run, since the messages are taken in the order in which they arrive.
\<close>

definition passive_finish ::
    "'s passive_gaspi \<Rightarrow> 's context_api \<Rightarrow> u16 \<Rightarrow> u32 \<Rightarrow> 's pstate \<Rightarrow> (bool res \<times> 's pstate) option" where
  "passive_finish G Cx me bufSize p =
     (case finish_message G p of
        (Inl ex, p1) \<Rightarrow> Some (Inl ex, p1)
      | (Inr u, p1) \<Rightarrow>
          (case passive_thread_func G Cx me bufSize [] p1 of
             Some (Returns, copied, p2) \<Rightarrow> Some (Inr True, p2)
           | Some (SIGINT_raised, copied, p2) \<Rightarrow> None
           | Some (Exception_escapes ex, copied, p2) \<Rightarrow> None
           | None \<Rightarrow> None))"

section \<open>The messages that arrive\<close>

text \<open>
  \<open>inbox\<close>: the messages the process will receive, in their order.  A receive that succeeds takes the
  first; the other calls of the thread take none.
\<close>

definition inbox_contract :: "'s passive_gaspi \<Rightarrow> 's context_api \<Rightarrow> ('s \<Rightarrow> (u16 \<times> u8 list) list) \<Rightarrow> bool" where
  "inbox_contract G Cx inbox \<longleftrightarrow>
     (\<forall>sid off n s src bs s1. gaspi_passive_receive G sid off n GASPI_BLOCK s = ((GASPI_SUCCESS, src, bs), s1) \<longrightarrow>
        inbox s = (src, bs) # inbox s1) \<and>
     (\<forall>l. keeps inbox (gaspi_segment_ptr G l)) \<and>
     (\<forall>l rank t. keeps inbox (gaspi_segment_register G l rank t)) \<and>
     (\<forall>l m num t. keeps inbox (gaspi_notify_waitsome G l m num t)) \<and>
     (\<forall>l m. keeps inbox (gaspi_notify_reset G l m)) \<and>
     (\<forall>src tgt. keeps inbox (cx_write Cx src tgt)) \<and>
     (\<forall>tgt. keeps inbox (cx_notify Cx tgt)) \<and>
     keeps inbox (cx_flush Cx)"

lemma keeps_parts [keeps_intros]:
  "keeps (f \<circ> pv_lib) (with_world m)" "keeps (f \<circ> pv_lib) (store q bs)"
  "keeps (f \<circ> pv_lib) (fetch q n)" "keeps (f \<circ> pv_lib) (store_description q d)"
  by (auto simp: keeps_def with_world_def store_def fetch_def store_description_def split: prod.splits)

lemma keeps_lib: "(\<And>p. keeps f (m p)) \<Longrightarrow> keeps (f \<circ> pv_lib) (with_lib m)"
  unfolding keeps_def with_lib_def by (auto split: prod.splits) (metis snd_conv)

lemma inbox_calls:
  assumes "inbox_contract G Cx inbox"
  shows "gaspi_passive_receive G sid off n GASPI_BLOCK s = ((GASPI_SUCCESS, src, bs), s1) \<Longrightarrow> inbox s = (src, bs) # inbox s1"
    and "keeps inbox (gaspi_segment_ptr G l)"
    and "keeps inbox (gaspi_segment_register G l rank t)"
    and "keeps inbox (gaspi_notify_waitsome G l m num t)"
    and "keeps inbox (gaspi_notify_reset G l m)"
    and "keeps inbox (cx_write Cx from to)"
    and "keeps inbox (cx_notify Cx to)"
    and "keeps inbox (cx_flush Cx)"
  using assms by (simp_all add: inbox_contract_def)

lemma keeps_register:
  assumes "inbox_contract G Cx inbox"
  shows "keeps (inbox \<circ> pv_lib) (pv_register G rank)"
  unfolding pv_register_def remoteRegistration_def
  by (rule keeps_lib) (simp add: keeps_intros inbox_calls [OF assms] segment_api.truncate_def)

lemma keeps_described:
  assumes "inbox_contract G Cx inbox"
  shows "keeps (inbox \<circ> pv_lib) (pv_description G me b)"
  unfolding pv_description_def bf_description_def pointerToOffset_def getSegmentPtr_def
  by (rule keeps_lib) (intro keeps_intros; simp add: inbox_calls [OF assms] segment_api.truncate_def)

lemma keeps_wait:
  assumes "inbox_contract G Cx inbox"
  shows "keeps (inbox \<circ> pv_lib) (pv_waitForNotification G b)"
proof -
  have "keeps (inbox \<circ> pv_lib) (with_lib (\<lambda>p. bf_waitForNotification (segment_api.truncate G) (pv_segment p) b))"
    unfolding bf_waitForNotification_def
    by (rule keeps_lib) (intro keeps_intros; simp add: inbox_calls [OF assms] segment_api.truncate_def)
  then show ?thesis by (auto simp: keeps_def pv_waitForNotification_def split: prod.splits) (metis snd_conv)
qed

lemma keeps_context:
  assumes "inbox_contract G Cx inbox"
  shows "keeps (inbox \<circ> pv_lib) (with_lib (\<lambda>_. cx_write Cx from to))" "keeps (inbox \<circ> pv_lib) (with_lib (\<lambda>_. cx_notify Cx to))"
    "keeps (inbox \<circ> pv_lib) (with_lib (\<lambda>_. cx_flush Cx))"
  using inbox_calls [OF assms] by (simp_all add: keeps_lib)

lemma keeps_with_buffer [keeps_intros]:
  "(\<And>b. keeps (f \<circ> pv_lib) (body b)) \<Longrightarrow> keeps (f \<circ> pv_lib) (with_buffer sz body)"
  unfolding with_buffer_def by (intro keeps_intros)

lemma keeps_serve:
  assumes "inbox_contract G Cx inbox"
  shows "keeps (inbox \<circ> pv_lib) (serve_request G Cx me msg rank)"
  unfolding serve_request_def Let_def case_prod_beta
  by (intro keeps_intros keeps_register [OF assms] keeps_described [OF assms] keeps_context [OF assms]) 
    (simp add: keeps_def)

lemma meet_rcv_lib [simp]: "pv_lib (snd (meet_rcv key d p)) = pv_lib p" "pv_world (snd (meet_rcv key d p)) = pv_world p"
  by (simp_all add: meet_rcv_def split: option.split)

lemma keeps_tagged:
  assumes "inbox_contract G Cx inbox"
  shows "keeps (inbox \<circ> pv_lib) (handleTaggedRcvBufferDesc Cx rank tag desc)"
proof -
  have "keeps (inbox \<circ> pv_lib) (after_meeting Cx r)" for r
    unfolding after_meeting_def iSendRecvComm_def
    by (cases r) (auto intro!: keeps_intros keeps_context [OF assms])
  then show ?thesis unfolding keeps_def handleTaggedRcvBufferDesc_def by (simp add: case_prod_beta)
qed

lemma tagged_world:
  assumes "handleTaggedRcvBufferDesc Cx rank tag desc p = (r, p1)"
  shows "pv_world p1 = pv_world p"
proof -
  have "pv_world (snd (after_meeting Cx r q)) = pv_world q" for r q
    by (auto simp: after_meeting_def iSendRecvComm_def act_bind_def with_lib_def split: rendezvous.split prod.split sum.split)
  then show ?thesis using assms meet_rcv_lib(2) [of "(tag, rank)" desc p]
    unfolding handleTaggedRcvBufferDesc_def by (metis case_prod_beta snd_conv)
qed

section \<open>The thread ends\<close>

definition frame_ok :: "u32 \<Rightarrow> u16 \<times> u8 list \<Rightarrow> bool" where
  "frame_ok bufSize = (\<lambda>(src, bs). \<exists>tag msg. bs = frame tag msg \<and> 8 + length msg \<le> unat bufSize)"

definition ends_thread :: "u16 \<times> u8 list \<Rightarrow> bool" where
  "ends_thread = (\<lambda>(src, bs). \<exists>msg. bs = frame (msg_tag_number FNSH) msg)"

lemma frame_tag: "frame t m = frame t' m' \<Longrightarrow> t = t'"
proof -
  have "from_bytes (take 4 (frame x y)) = x" for x y
    using from_to_bytes [of 4 x] by (simp add: frame_def)
  then show "frame t m = frame t' m' \<Longrightarrow> t = t'" by metis
qed

lemma dispatch_ok:
  assumes C: "message_contract G Cx outbox writes base" and I: "inbox_contract G Cx inbox"
    and p: "owns a e k i p bs" and d: "dispatch G Cx me tag msg rank p = (Inr todo, p1)"
  shows "inbox (pv_lib p1) = inbox (pv_lib p) \<and> (todo = ThreadFinished \<longleftrightarrow> tag = msg_tag_number FNSH) \<and>
    (if todo = HandOver then \<exists>b. pv_msg_ptr p1 = Some b \<and> owns a e k i p1 (b # bs) else owns a e k i p1 bs)"
proof -
  consider (idle) "p1 = p" "todo = (if tag = msg_tag_number GERR then RaisedSIGINT
      else if tag = msg_tag_number FNSH then ThreadFinished else NextMessage)"
    | (tagged) t desc where "tag = msg_tag_number RTBD" "todo = NextMessage"
      "handleTaggedRcvBufferDesc Cx rank t desc p = (Inr (), p1)"
    | (request) "tag \<noteq> msg_tag_number FNSH" "serve_request G Cx me msg rank p = (Inr todo, p1)"
    using d by (auto simp: dispatch_def Let_def act_bind_eq_Inr split: if_splits prod.splits)
  then show ?thesis
  proof cases
    case idle
    then show ?thesis using p by auto
  next
    case tagged
    then show ?thesis using p tagged_world [OF tagged(3)] owns_frame [of p1 p] keepsD [OF keeps_tagged [OF I] tagged(3)]
      by simp
  next
    case request
    obtain n n1 where 1: "c_des size_t_codec (memcpy (\<lambda>_. 0) 0 msg) 0 = (n, n1)" by force
    obtain x n2 where 2: "bd_des (memcpy (\<lambda>_. 0) 0 msg) n1 = (x, n2)" by force
    obtain b where "todo = HandOver" "owns a e k i p1 (b # bs)" "pv_msg_ptr p1 = Some b"
      by (rule serve_request_ok [OF C p 1 2 request(2)])
    moreover have "inbox (pv_lib p1) = inbox (pv_lib p)"
      using keepsD [OF keeps_serve [OF I] request(2)] by simp
    ultimately show ?thesis using request(1) by auto
  qed
qed

lemma thread_message_ok:
  assumes C: "message_contract G Cx outbox writes base" and I: "inbox_contract G Cx inbox"
    and p: "owns a e k i p bs" and sz: "0 < bufSize" "unat bufSize < 2 ^ 31"
    and wf: "\<forall>x \<in> set (inbox (pv_lib p)). frame_ok bufSize x"
    and m: "passive_thread_message G Cx me bufSize p = (Inr todo, p1)"
  obtains x where "inbox (pv_lib p) = x # inbox (pv_lib p1)" "todo = ThreadFinished \<longleftrightarrow> ends_thread x"
    "if todo = HandOver then \<exists>b. pv_msg_ptr p1 = Some b \<and> owns a e k i p1 (b # bs) else owns a e k i p1 bs"
proof -
  obtain t z rk msg p2 where 1: "recvPassive G bufSize p = (Inr (t, z, rk, msg), p2)"
    and 2: "dispatch G Cx me t msg rk p2 = (Inr todo, p1)"
    using m by (auto simp: passive_thread_message_def act_bind_eq_Inr)
  obtain l sid off num src b base s where 3: "gaspi_segment_ptr G l (pv_lib p) = ((GASPI_SUCCESS, base), s)"
    "gaspi_passive_receive G sid off num GASPI_BLOCK s = ((GASPI_SUCCESS, src, b), pv_lib p2)"
    "pv_world p2 = pv_world p" "\<forall>tag msg'. b = frame tag msg' \<longrightarrow> 8 + length msg' \<le> unat bufSize \<longrightarrow>
       t = tag \<and> unat z = length msg' \<and> msg = msg'"
    by (rule recvPassive_result [OF owns_mm [OF p] sz(2,1) 1])
  have x: "inbox (pv_lib p) = (src, b) # inbox (pv_lib p2)"
    using inbox_calls(1) [OF I 3(2)] keepsD [OF inbox_calls(2) [OF I] 3(1)] by simp
  then obtain tag msg' where "b = frame tag msg'" "8 + length msg' \<le> unat bufSize"
    using wf by (auto simp: frame_ok_def)
  then have b: "b = frame t msg" using 3(4) by auto
  have "owns a e k i p2 bs" using p 3(3) owns_frame [of p2 p] by simp
  note D = dispatch_ok [OF C I this 2]
  have "todo = ThreadFinished \<longleftrightarrow> ends_thread (src, b)"
    using D b by (auto simp: ends_thread_def dest: frame_tag)
  then show thesis using that [of "(src, b)"] x D by simp
qed

lemma recv_copy_returns:
  assumes I: "inbox_contract G Cx inbox" and wait: "\<And>b p. \<exists>v. fst (pv_waitForNotification G b p) = Inr v"
    and p: "owns a e k i p (b # bs)" "pv_msg_ptr p = Some b"
  obtains x p1 where "recv_copy G p = (Inr (Some x), p1)" "owns a e k i p1 bs" "inbox (pv_lib p1) = inbox (pv_lib p)"
proof -
  obtain v p2 where w: "pv_waitForNotification G b p = (Inr v, p2)" using wait by (metis prod.collapse)
  have "pv_world p2 = pv_world p"
    using w by (auto simp: pv_waitForNotification_def with_lib_def split: prod.splits)
  then have "owned_inv a e k (pv_world p2, b # bs)" using p(1) by (simp add: owns_def)
  from owned_destroyable [OF this] obtain w' where d: "bf_destroy b (pv_world p2) = (Inr (), w')"
    by (metis list.set_intros(1) prod.collapse)
  have "\<exists>x p1. recv_copy G p = (Inr (Some x), p1)"
    using p(2) w d by (simp add: recv_copy_def act_bind_apply fetch_def with_world_def)
  then obtain x p1 where r: "recv_copy G p = (Inr (Some x), p1)" by blast
  have "keeps (inbox \<circ> pv_lib) (act_bind (pv_waitForNotification G b) (\<lambda>_.
       act_bind (fetch (bf_address b) (unat (scast (pv_msg_size p) :: u64))) (\<lambda>Data.
       act_bind (with_world (bf_destroy b)) (\<lambda>_. \<lambda>p1.
       (Inr (Some (Data, pv_msg_rank p1)), p1\<lparr>pv_msg_ptr := None\<rparr>)))))" (is "keeps _ ?m")
    by (intro keeps_intros keeps_wait [OF I]) (simp add: keeps_def)
  moreover have "?m p = (Inr (Some x), p1)" using r p(2) by (simp add: recv_copy_def)
  ultimately have "inbox (pv_lib p1) = inbox (pv_lib p)" using keepsD by fastforce
  moreover have "owns a e k i p1 bs" using recv_copy_ok [OF p(2) r] p(1) by metis
  ultimately show thesis using that r by blast
qed

text \<open>
  The loop is left at the first message that ends the thread, or before it by an error message's
  signal or an exception.
\<close>

lemma passive_thread_ends:
  assumes "message_contract G Cx outbox writes base" "inbox_contract G Cx inbox"
    and "owns a e k i p bs" "0 < bufSize" "unat bufSize < 2 ^ 31"
    and "\<forall>x \<in> set (inbox (pv_lib p)). frame_ok bufSize x" "\<exists>x \<in> set (inbox (pv_lib p)). ends_thread x"
    and "\<And>b p. \<exists>v. fst (pv_waitForNotification G b p) = Inr v"
  shows "\<exists>how log p1. passive_thread_func G Cx me bufSize copied p = Some (how, log, p1) \<and>
    (how = Returns \<longrightarrow> owns a e k i p1 bs \<and> inbox (pv_lib p1) = tl (dropWhile (\<lambda>x. \<not> ends_thread x) (inbox (pv_lib p))))"
  using assms
proof (induction "inbox (pv_lib p)" arbitrary: p copied)
  case Nil
  then show ?case by simp
next
  case (Cons y ys)
  obtain r p1 where m: "passive_thread_message G Cx me bufSize p = (r, p1)" by force
  note step = passive_thread_func.simps [of G Cx me bufSize copied p, unfolded m]
  show ?case
  proof (cases r)
    case (Inl ex)
    then show ?thesis using step by simp
  next
    case (Inr todo)
    obtain x where x: "inbox (pv_lib p) = x # inbox (pv_lib p1)" "todo = ThreadFinished \<longleftrightarrow> ends_thread x"
      "if todo = HandOver then \<exists>b. pv_msg_ptr p1 = Some b \<and> owns a e k i p1 (b # bs) else owns a e k i p1 bs"
      by (rule thread_message_ok [OF Cons.prems(1-6) m [unfolded Inr]])
    have IH: "\<exists>how log q1. passive_thread_func G Cx me bufSize copied' q = Some (how, log, q1) \<and>
        (how = Returns \<longrightarrow> owns a e k i q1 bs \<and> inbox (pv_lib q1) = tl (dropWhile (\<lambda>x. \<not> ends_thread x) (inbox (pv_lib p))))"
      if "todo \<noteq> ThreadFinished" "owns a e k i q bs" "inbox (pv_lib q) = inbox (pv_lib p1)" for q copied'
      using Cons.hyps(1) [of q copied'] Cons.hyps(2) Cons.prems x(1,2) that by auto
    show ?thesis
    proof (cases todo)
      case NextMessage
      then show ?thesis using step Inr x(3) IH [of p1 copied] by simp
    next
      case HandOver
      then obtain b where b: "pv_msg_ptr p1 = Some b" "owns a e k i p1 (b # bs)" using x(3) by auto
      obtain z p2 where "recv_copy G p1 = (Inr (Some z), p2)" "owns a e k i p2 bs" "inbox (pv_lib p2) = inbox (pv_lib p1)"
        by (rule recv_copy_returns [OF Cons.prems(2,8) b(2,1)])
      then show ?thesis using step Inr HandOver IH [of p2 "copied @ [z]"] by simp
    next
      case ThreadFinished
      then show ?thesis using step Inr x by simp
    next
      case RaisedSIGINT
      then show ?thesis using step Inr by simp
    qed
  qed
qed


text \<open>A library whose passive sends come back to the process.\<close>

definition loopback ::
    "((u16 \<times> u8 list) list \<times> (buffer_description \<times> buffer_description) list \<times> (u16 \<times> u8 list) list) passive_gaspi" where
  "loopback =
     \<lparr>gaspi_error_str = (\<lambda>_. ''error''),
      gaspi_queue_create = (\<lambda>_ s. ((GASPI_SUCCESS, 0), s)),
      gaspi_queue_delete = (\<lambda>_ s. (GASPI_SUCCESS, s)),
      gaspi_queue_num = (\<lambda>s. ((GASPI_SUCCESS, 1), s)),
      gaspi_queue_max = (\<lambda>s. ((GASPI_SUCCESS, 16), s)),
      gaspi_wait = (\<lambda>q _ s. (GASPI_SUCCESS, s)),
      gaspi_post = (\<lambda>r q _ s. (GASPI_SUCCESS, s)),
      gaspi_notify_waitsome = (\<lambda>_ n _ _ s. ((GASPI_SUCCESS, n), s)),
      gaspi_notify_reset = (\<lambda>_ _ s. ((GASPI_SUCCESS, 1), s)),
      gaspi_proc_rank = (\<lambda>s. ((GASPI_SUCCESS, 3), s)),
      gaspi_segment_size = (\<lambda>_ _ s. ((GASPI_SUCCESS, 1024), s)),
      gaspi_segment_ptr = (\<lambda>_ s. ((GASPI_SUCCESS, 4096), s)),
      gaspi_notification_num = (\<lambda>s. ((GASPI_SUCCESS, 65536), s)),
      gaspi_segment_avail_local = (\<lambda>s. ((GASPI_SUCCESS, 7), s)),
      gaspi_segment_alloc = (\<lambda>_ _ s. (GASPI_SUCCESS, s)),
      gaspi_segment_register = (\<lambda>_ _ _ s. (GASPI_SUCCESS, s)),
      gaspi_segment_delete = (\<lambda>_ s. (GASPI_SUCCESS, s)),
      gaspi_passive_send = (\<lambda>_ _ rank _ _ bs (out, w, i). (GASPI_SUCCESS, out @ [(rank, bs)], w, i @ [(3, bs)])),
      gaspi_passive_receive = (\<lambda>_ _ _ _ (out, w, i). case i of [] \<Rightarrow> ((GASPI_TIMEOUT, 0, []), out, w, i)
        | (src, bs) # i' \<Rightarrow> ((GASPI_SUCCESS, src, bs), out, w, i')),
      gaspi_segment_memory = (\<lambda>m _. m)\<rparr>"

definition loopback_context ::
    "((u16 \<times> u8 list) list \<times> (buffer_description \<times> buffer_description) list \<times> (u16 \<times> u8 list) list) context_api" where
  "loopback_context = \<lparr>cx_write = (\<lambda>src tgt (out, w, i). (Inr (), out, w @ [(src, tgt)], i)),
     cx_notify = (\<lambda>_ s. (Inr (), s)), cx_flush = (\<lambda>s. (Inr (), s))\<rparr>"

definition loopback_party where
  "loopback_party = \<lparr>pv_world = demo_world, pv_mem = (\<lambda>_. 0), pv_srcTargetBuffers = (\<lambda>_. None),
     pv_rcvTargetBuffers = (\<lambda>_. None), pv_msg_size = 0, pv_msg_rank = 0, pv_msg_ptr = None,
     pv_lib = ([] :: (u16 \<times> u8 list) list, [] :: (buffer_description \<times> buffer_description) list, [] :: (u16 \<times> u8 list) list)\<rparr>"

lemma loopback_contract: "message_contract loopback loopback_context fst (fst \<circ> snd) (\<lambda>_. 4096)"
  by (auto simp: message_contract_def quiet_call_def quiet_def loopback_def loopback_context_def split: list.splits)

lemma loopback_inbox: "inbox_contract loopback loopback_context (snd \<circ> snd)"
  by (auto simp: inbox_contract_def keeps_def loopback_def loopback_context_def split: list.splits)

lemma loopback_wait: "\<exists>v. fst (pv_waitForNotification loopback b p) = Inr v"
  by (simp add: demo_eval loopback_def) blast

lemma loopback_finish: "\<exists>p. finish_message loopback loopback_party = (Inr (), p) \<and>
    pv_lib p = ([(3, frame (msg_tag_number FNSH) [])], [], [(3, frame (msg_tag_number FNSH) [])]) \<and>
    pv_world p = demo_world"
proof -
  have "load (memcpy (memcpy m 4096 (to_bytes 4 (2 :: u32))) 4100 (to_bytes 4 (0 :: u32))) 4096 8 = frame 2 []" for m
    using frame_stored [of 4096 "[]" m 2] by simp
  then show ?thesis
    by (simp add: demo_eval finish_message_def pv_global_rank_def loopback_party_def demo_world_def demo_segment_def
        mm_construct_def loopback_def) 
qed

lemma loopback_thread:
  assumes "pv_lib p = (out, w, [(3, frame (msg_tag_number FNSH) [])])" "pv_world p = demo_world"
  shows "\<exists>p1. passive_thread_func loopback loopback_context 3 64 [] p = Some (Returns, [], p1)"
proof -
  have l: "load (memcpy m 4096 (frame 2 [])) 4096 (length (frame 2 [])) = frame 2 []" for m by (rule load_memcpy)
  then have 1: "load (memcpy m 4096 (frame 2 [])) 4096 4 = to_bytes 4 (2 :: u32)"
    "load (memcpy m 4096 (frame 2 [])) 4100 4 = to_bytes 4 (0 :: u32)" for m
    using l [of m] unfolding frame_def load_append_iff by simp_all
  have "\<exists>p1. passive_thread_message loopback loopback_context 3 64 p = (Inr ThreadFinished, p1)"
    using assms by (simp add: demo_eval passive_thread_message_def recvPassive_def dispatch_def demo_world_def
        demo_segment_def mm_construct_def loopback_def 1 from_to_bytes)
  then show ?thesis by (subst passive_thread_func.simps) auto
qed


end
