(* ===== verification/Runtime_Directory.thy ===== *)
theory Runtime_Directory
  imports Data_Messages Gaspi_Runtime Filesystem
begin

text \<open>
  \<open>Runtime::synchCurrentWorkingDirectory\<close>: rank 0 sends its working directory to every other rank,
  which receives it and makes it its own.
\<close>

section \<open>The function\<close>

definition chars_to_bytes :: "string \<Rightarrow> u8 list" where
  "chars_to_bytes dir = map of_char dir"

definition bytes_to_chars :: "u8 list \<Rightarrow> string" where
  "bytes_to_chars bs = map (\<lambda>b. char_of (unat b)) bs"

text \<open>The loop over the ranks that are sent to.\<close>

fun send_directory ::
    "'s passive_gaspi \<Rightarrow> 's context_api \<Rightarrow> u16 \<Rightarrow> string \<Rightarrow> u16 list \<Rightarrow> ('s pstate, unit) act" where
  "send_directory G Cx me dir [] = act_return ()"
| "send_directory G Cx me dir (targetRank # ranks) =
     act_bind (sendMessg G Cx me (chars_to_bytes dir) targetRank) (\<lambda>_. send_directory G Cx me dir ranks)"

text \<open>
  The working directory is part of what the library state stands for.  \<open>recvMessg\<close> is its copy of
  what the passive thread has handed over; \<open>None\<close> is the null pointer dereferenced there.
\<close>

definition synchCurrentWorkingDirectory ::
    "'s passive_gaspi \<Rightarrow> 's context_api \<Rightarrow> ('s \<Rightarrow> (errno + string) \<times> 's) \<Rightarrow> (string \<Rightarrow> 's \<Rightarrow> errno option \<times> 's) \<Rightarrow>
     group \<Rightarrow> ('s pstate, unit option) act" where
  "synchCurrentWorkingDirectory G Cx getcwd chdir g =
     (if g_global_rank g = 0
      then act_bind (with_lib (\<lambda>_. getCurrentWorkingDirectory getcwd)) (\<lambda>dir.
           act_bind (send_directory G Cx (g_global_rank g) dir (map of_nat [1..<g_size g])) (\<lambda>_.
           act_return (Some ())))
      else act_bind (recv_copy G) (\<lambda>got. case got of
             None \<Rightarrow> act_return None
           | Some (buffer, srcRank) \<Rightarrow>
               act_bind (with_lib (\<lambda>_. setCurrentWorkingDirectory chdir (bytes_to_chars buffer))) (\<lambda>_.
               act_return (Some ()))))"

section \<open>What arrives\<close>

lemma chars_roundtrip [simp]: "bytes_to_chars (chars_to_bytes dir) = dir"
proof -
  have "char_of (unat (of_char c :: u8)) = c" for c
  proof -
    have "unat (of_nat (of_char c) :: u8) = of_char c"
      using nat_of_char_less_256 [of c] unfolding unat_of_nat by simp
    then show ?thesis by (simp only: of_nat_of_char char_of_char)
  qed
  then show ?thesis by (simp add: bytes_to_chars_def chars_to_bytes_def comp_def)
qed

lemma length_chars [simp]: "length (chars_to_bytes dir) = length dir"
  by (simp add: chars_to_bytes_def)

lemma send_directory_append:
  "send_directory G Cx me dir (rs @ rs') =
   act_bind (send_directory G Cx me dir rs) (\<lambda>_. send_directory G Cx me dir rs')"
  by (induction rs) (auto simp: act_bind_def fun_eq_iff split: prod.split sum.split)

lemma send_directory_owns:
  assumes C: "message_contract G Cx outbox writes base"
  shows "send_directory G Cx me dir rs p = (Inr (), p1) \<Longrightarrow> owns a e k i p bs \<Longrightarrow> owns a e k i p1 bs"
proof (induction rs arbitrary: p)
  case (Cons r rs)
  then obtain ok p2 where 1: "sendMessg G Cx me (chars_to_bytes dir) r p = (Inr ok, p2)"
    and 2: "send_directory G Cx me dir rs p2 = (Inr (), p1)" by (auto simp: act_bind_eq_Inr)
  show ?case by (rule sendMessg_ok [OF C Cons.prems(2) 1]) (rule Cons.IH [OF 2])
qed simp


section \<open>Witness\<close>

definition demo_getcwd :: "'s \<Rightarrow> (errno + string) \<times> 's" where
  "demo_getcwd s = (Inr ''/d'', s)"

definition demo_chdir :: "string \<Rightarrow> 's \<Rightarrow> errno option \<times> 's" where
  "demo_chdir dir s = (if dir = ''/d/'' then None else Some ENOENT, s)"


end
