(* ===== verification/Runtime_Shutdown.thy ===== *)
theory Runtime_Shutdown
  imports Runtime_Props Passive_Thread "HOL-Library.Multiset"
begin

text \<open>
  The end of the runtime: its destructor, and the queues and segments of the GASPI library that it
  and its parts have taken and give back.
\<close>

section \<open>The destructor\<close>

text \<open>
  \<open>~Runtime\<close> runs the global barrier, then the members are destroyed in the opposite order of their
  declaration: barrier and progress engine, whose thread is joined, communication context, segment
  pool, passive component and management segment; then the bases.  An exception here ends the process.
\<close>

definition context_destroy :: "'s segment_api \<Rightarrow> comm_context option \<Rightarrow> ('s, unit) act" where
  "context_destroy G C = (case C of
     None \<Rightarrow> act_return ()
   | Some (SingleQueueContext q) \<Rightarrow> queue_destroy G q
   | Some (RoundRobinContext c) \<Rightarrow> rr_destroy G c)"

fun segments_destroy :: "'s segment_api \<Rightarrow> segment list \<Rightarrow> ('s, unit) act" where
  "segments_destroy G [] = act_return ()"
| "segments_destroy G (S # Ss) = act_bind (sr_destroy G (sg_resource S)) (\<lambda>_. segments_destroy G Ss)"

definition pool_destroy :: "'s segment_api \<Rightarrow> pool option \<Rightarrow> ('s, unit) act" where
  "pool_destroy G p = (case p of None \<Rightarrow> act_return () | Some q \<Rightarrow> segments_destroy G (pool_segments q))"

definition runtime_destroy :: "'s runtime_api \<Rightarrow> ('s, unit) act \<Rightarrow> 'c runtime \<Rightarrow> ('s, unit) act" where
  "runtime_destroy G execute_barrier R =
     (let (group, R1) = runtime_barrier R
      in act_bind execute_barrier (\<lambda>_.
         act_bind (context_destroy (seg_api G) (rt_comm_context R1)) (\<lambda>_.
         act_bind (pool_destroy (seg_api G) (rt_segment_pool R1)) (\<lambda>_. \<lambda>s.
           case passive_destroy (passive_gaspi.truncate G) (rt_passive R1) (rt_segment R1, s) of
             (Inl e, S1, s1) \<Rightarrow> (Inl e, s1)
           | (Inr u, S1, s1) \<Rightarrow>
               act_bind (sr_destroy (seg_api G) (sg_resource S1)) (\<lambda>_.
               act_bind (queue_destroy G (rt_queue R1)) (\<lambda>_.
               gaspi_check_nothrow (gaspi_proc_term G GASPI_BLOCK))) s1))))"

section \<open>What the library holds\<close>

datatype resource = QueueOf u8 | SegmentOf u8

text \<open>
  \<open>taken\<close>: the queues and segments that exist.  Creating and deleting them are the only calls that
  change it; the calls that follow the creation of a segment in its constructor, and the one before
  the deletion of a queue in its destructor, do not fail.
\<close>

definition resource_contract :: "'s segment_api \<Rightarrow> ('s \<Rightarrow> resource multiset) \<Rightarrow> bool" where
  "resource_contract G taken \<longleftrightarrow>
     (\<forall>t s ret q s1. gaspi_queue_create G t s = ((ret, q), s1) \<longrightarrow>
        taken s1 = (if ret = GASPI_SUCCESS then add_mset (QueueOf q) (taken s) else taken s)) \<and>
     (\<forall>q s ret s1. gaspi_queue_delete G q s = (ret, s1) \<longrightarrow> taken s1 = taken s - {#QueueOf q#}) \<and>
     (\<forall>l n s ret s1. gaspi_segment_alloc G l n s = (ret, s1) \<longrightarrow>
        taken s1 = (if ret = GASPI_SUCCESS then add_mset (SegmentOf l) (taken s) else taken s)) \<and>
     (\<forall>l s ret s1. gaspi_segment_delete G l s = (ret, s1) \<longrightarrow> taken s1 = taken s - {#SegmentOf l#}) \<and>
     (\<forall>l n s s1. gaspi_segment_alloc G l n s = (GASPI_SUCCESS, s1) \<longrightarrow>
        fst (fst (gaspi_proc_rank G s1)) = GASPI_SUCCESS \<and>
        fst (gaspi_segment_register G l (snd (fst (gaspi_proc_rank G s1))) GASPI_BLOCK (snd (gaspi_proc_rank G s1)))
          = GASPI_SUCCESS) \<and>
     keeps taken (gaspi_queue_num G) \<and> keeps taken (gaspi_queue_max G) \<and>
     (\<forall>q t. keeps taken (gaspi_wait G q t)) \<and> (\<forall>q t s. fst (gaspi_wait G q t s) = GASPI_SUCCESS) \<and>
     keeps taken (gaspi_proc_rank G) \<and>
     (\<forall>l k. keeps taken (gaspi_segment_size G l k)) \<and> (\<forall>l. keeps taken (gaspi_segment_ptr G l)) \<and>
     keeps taken (gaspi_notification_num G) \<and> keeps taken (gaspi_segment_avail_local G) \<and>
     (\<forall>l k t. keeps taken (gaspi_segment_register G l k t))"

definition runtime_contract :: "'s runtime_api \<Rightarrow> ('s \<Rightarrow> resource multiset) \<Rightarrow> bool" where
  "runtime_contract G taken \<longleftrightarrow> resource_contract (seg_api G) taken \<and> keeps taken (gaspi_proc_num G) \<and>
     (\<forall>t. keeps taken (gaspi_proc_init G t)) \<and> (\<forall>t. keeps taken (gaspi_proc_term G t)) \<and>
     (\<forall>l off r n t bs. keeps taken (gaspi_passive_send G l off r n t bs))"

text \<open>\<open>takes M\<close>: a call that throws has changed nothing, one that returns \<open>a\<close> has added \<open>M a\<close>.
  \<open>gives M\<close>: a destructor returns and has removed \<open>M\<close>.\<close>

definition takes :: "('s \<Rightarrow> resource multiset) \<Rightarrow> ('a \<Rightarrow> resource multiset) \<Rightarrow> ('s, 'a) act \<Rightarrow> bool" where
  "takes taken M m \<longleftrightarrow> (\<forall>s r s1. m s = (r, s1) \<longrightarrow>
     taken s1 = (case r of Inl e \<Rightarrow> taken s | Inr a \<Rightarrow> M a + taken s))"

definition gives :: "('s \<Rightarrow> resource multiset) \<Rightarrow> resource multiset \<Rightarrow> ('s, unit) act \<Rightarrow> bool" where
  "gives taken M m \<longleftrightarrow> (\<forall>s. \<exists>s1. m s = (Inr (), s1) \<and> taken s1 = taken s - M)"

lemma takesD:
  assumes "takes taken M m"
  shows "m s = (Inr a, s1) \<Longrightarrow> taken s1 = M a + taken s" "m s = (Inl e, s1) \<Longrightarrow> taken s1 = taken s"
  using assms by (fastforce simp: takes_def)+

lemma givesD: "gives taken M m \<Longrightarrow> m s = (r, s1) \<Longrightarrow> r = Inr () \<and> taken s1 = taken s - M"
  unfolding gives_def by (metis prod.inject)

lemma takes_keeps: "keeps taken m \<Longrightarrow> takes taken (\<lambda>_. {#}) m"
  by (auto simp: takes_def split: sum.split dest: keepsD)

lemma takes_return: "M a = {#} \<Longrightarrow> takes taken M (act_return a)" and takes_throw: "takes taken M (act_throw e)"
  by (simp_all add: takes_def)

lemma takes_bind_keeps:
  assumes "keeps taken m" "\<And>a. takes taken M (k a)"
  shows "takes taken M (act_bind m k)"
  unfolding takes_def
proof (intro allI impI)
  fix s r s1
  assume b: "act_bind m k s = (r, s1)"
  obtain r0 s0 where m: "m s = (r0, s0)" by force
  show "taken s1 = (case r of Inl e \<Rightarrow> taken s | Inr a \<Rightarrow> M a + taken s)"
    using b m keepsD [OF assms(1) m] takesD [OF assms(2)]
    by (cases r0; cases r) (auto simp: act_bind_apply)
qed

lemma takes_map:
  "takes taken M m \<Longrightarrow> (\<And>a. N (f a) = M a) \<Longrightarrow> takes taken N (act_bind m (\<lambda>a. act_return (f a)))"
  unfolding takes_def by (fastforce simp: act_bind_apply split: sum.splits prod.splits)

lemma gives_bind: "gives taken M m \<Longrightarrow> gives taken N k \<Longrightarrow> gives taken (M + N) (act_bind m (\<lambda>_. k))"
  unfolding gives_def by (simp add: act_bind_apply) (metis (no_types, lifting) diff_diff_add_mset old.prod.case sum.case(2))

lemma gives_return: "gives taken {#} (act_return ())"
  by (simp add: gives_def)

lemma gives_nothrow: "(\<And>s. taken (snd (call s)) = taken s - M) \<Longrightarrow> gives taken M (gaspi_check_nothrow call)"
  by (simp add: gives_def gaspi_check_nothrow_def split: prod.split) (metis snd_conv)

section \<open>The parts\<close>

definition segment_resources :: "segment \<Rightarrow> resource multiset" where
  "segment_resources S =
     (if sr_contains_valid_segment (sg_resource S) then {#SegmentOf (ucast (sr_segmentId (sg_resource S)))#} else {#})"

definition pool_resources :: "pool option \<Rightarrow> resource multiset" where
  "pool_resources p = (case p of None \<Rightarrow> {#} | Some q \<Rightarrow> sum_list (map segment_resources (pool_segments q)))"

definition context_resources :: "comm_context option \<Rightarrow> resource multiset" where
  "context_resources C = (case C of None \<Rightarrow> {#} | Some (SingleQueueContext q) \<Rightarrow> {#QueueOf q#}
     | Some (RoundRobinContext c) \<Rightarrow> mset (map QueueOf (rr_queues c)))"

definition runtime_resources :: "'c runtime \<Rightarrow> resource multiset" where
  "runtime_resources R = add_mset (QueueOf (rt_queue R))
     (context_resources (rt_comm_context R) + pool_resources (rt_segment_pool R) + segment_resources (rt_segment R))"

lemma contract_keeps:
  assumes "resource_contract G taken"
  shows "keeps taken (gaspi_queue_num G)" "keeps taken (gaspi_queue_max G)" "keeps taken (gaspi_wait G q t)"
    "keeps taken (gaspi_proc_rank G)" "keeps taken (gaspi_segment_size G l k)" "keeps taken (gaspi_segment_ptr G l)"
    "keeps taken (gaspi_notification_num G)" "keeps taken (gaspi_segment_avail_local G)"
    "keeps taken (gaspi_segment_register G l k t)"
  using assms by (simp_all add: resource_contract_def)

lemma contract_steps:
  assumes "resource_contract G taken"
  shows "gaspi_queue_create G t s = ((ret, q), s1) \<Longrightarrow>
      taken s1 = (if ret = GASPI_SUCCESS then add_mset (QueueOf q) (taken s) else taken s)"
    and "gaspi_queue_delete G q s = (ret, s1) \<Longrightarrow> taken s1 = taken s - {#QueueOf q#}"
    and "gaspi_segment_alloc G l n s = (ret, s1) \<Longrightarrow>
      taken s1 = (if ret = GASPI_SUCCESS then add_mset (SegmentOf l) (taken s) else taken s)"
    and "gaspi_segment_delete G l s = (ret, s1) \<Longrightarrow> taken s1 = taken s - {#SegmentOf l#}"
    and "gaspi_segment_alloc G l n s = (GASPI_SUCCESS, s1) \<Longrightarrow> gaspi_proc_rank G s1 = ((ret, rank), s2) \<Longrightarrow>
      gaspi_segment_register G l rank GASPI_BLOCK s2 = (ret2, s3) \<Longrightarrow> ret = GASPI_SUCCESS \<and> ret2 = GASPI_SUCCESS"
    and "gaspi_wait G q t s = (ret, s1) \<Longrightarrow> ret = GASPI_SUCCESS"
proof -
  note C = assms [unfolded resource_contract_def]
  note D = C [THEN conjunct2, THEN conjunct2, THEN conjunct2, THEN conjunct2]
  note E = D [THEN conjunct2, THEN conjunct2, THEN conjunct2, THEN conjunct2, THEN conjunct1]
  show "gaspi_queue_create G t s = ((ret, q), s1) \<Longrightarrow>
      taken s1 = (if ret = GASPI_SUCCESS then add_mset (QueueOf q) (taken s) else taken s)"
    by (rule C [THEN conjunct1, rule_format])
  show "gaspi_queue_delete G q s = (ret, s1) \<Longrightarrow> taken s1 = taken s - {#QueueOf q#}"
    by (rule C [THEN conjunct2, THEN conjunct1, rule_format])
  show "gaspi_segment_alloc G l n s = (ret, s1) \<Longrightarrow>
      taken s1 = (if ret = GASPI_SUCCESS then add_mset (SegmentOf l) (taken s) else taken s)"
    by (rule C [THEN conjunct2, THEN conjunct2, THEN conjunct1, rule_format])
  show "gaspi_segment_delete G l s = (ret, s1) \<Longrightarrow> taken s1 = taken s - {#SegmentOf l#}"
    by (rule C [THEN conjunct2, THEN conjunct2, THEN conjunct2, THEN conjunct1, rule_format])
  show "gaspi_segment_alloc G l n s = (GASPI_SUCCESS, s1) \<Longrightarrow> gaspi_proc_rank G s1 = ((ret, rank), s2) \<Longrightarrow>
      gaspi_segment_register G l rank GASPI_BLOCK s2 = (ret2, s3) \<Longrightarrow> ret = GASPI_SUCCESS \<and> ret2 = GASPI_SUCCESS"
    using D [THEN conjunct1] by fastforce
  show "gaspi_wait G q t s = (ret, s1) \<Longrightarrow> ret = GASPI_SUCCESS"
    using E by (metis fst_conv)
qed

lemma takes_queue: "resource_contract G taken \<Longrightarrow> takes taken (\<lambda>q. {#QueueOf q#}) (queue_construct G)"
  by (auto simp: takes_def queue_construct_def gaspi_checked_out_eq dest: contract_steps(1) split: prod.splits if_splits)

lemma gives_queue:
  assumes "resource_contract G taken"
  shows "gives taken {#QueueOf q#} (queue_destroy G q)"
proof -
  have "gives taken {#} (queue_flush G q)"
    unfolding gives_def queue_flush_def gaspi_checked_eq
    using contract_steps(6) [OF assms] keepsD [OF contract_keeps(3) [OF assms]] by (auto split: prod.splits)
  moreover have "gives taken {#QueueOf q#} (gaspi_check_nothrow (gaspi_queue_delete G q))"
    by (rule gives_nothrow) (metis contract_steps(2) [OF assms] prod.collapse)
  ultimately show ?thesis using gives_bind by (fastforce simp: queue_destroy_def)
qed

lemma takes_guard:
  assumes m: "takes taken M m" and k: "\<And>a. takes taken (N a) (k a)" and h: "\<And>a. gives taken (M a) (h a)"
    and P: "\<And>a b s s1. k a s = (Inr b, s1) \<Longrightarrow> P b = M a + N a b"
  shows "takes taken P (act_bind m (\<lambda>a. act_on_error (k a) (h a)))"
  unfolding takes_def
proof (intro allI impI)
  fix s r s1
  assume b: "act_bind m (\<lambda>a. act_on_error (k a) (h a)) s = (r, s1)"
  obtain r0 s0 where m0: "m s = (r0, s0)" by force
  show "taken s1 = (case r of Inl e \<Rightarrow> taken s | Inr a \<Rightarrow> P a + taken s)"
  proof (cases r0)
    case (Inl e)
    then show ?thesis using b m0 takesD(2) [OF m] by (auto simp: act_bind_apply)
  next
    case (Inr a)
    note t0 = takesD(1) [OF m m0 [unfolded Inr]]
    obtain r2 s2 where k0: "k a s0 = (r2, s2)" by force
    show ?thesis
    proof (cases r2)
      case (Inl e)
      obtain s3 where "h a s2 = (Inr (), s3)" "taken s3 = taken s2 - M a" using h unfolding gives_def by blast
      then show ?thesis using b m0 k0 Inr Inl t0 takesD(2) [OF k k0 [unfolded Inl]]
        by (auto simp: act_bind_apply act_on_error_def)
    next
      case (Inr x)
      then show ?thesis using b m0 k0 \<open>r0 = Inr a\<close> t0 takesD(1) [OF k k0 [unfolded Inr]] P [OF k0 [unfolded Inr]]
        by (auto simp: act_bind_apply act_on_error_def)
    qed
  qed
qed

definition sr_resources :: "segment_resource \<Rightarrow> resource multiset" where
  "sr_resources R = (if sr_contains_valid_segment R then {#SegmentOf (ucast (sr_segmentId R))#} else {#})"

lemma gives_segment:
  assumes "resource_contract G taken"
  shows "gives taken (sr_resources R) (sr_destroy G R)"
proof -
  have "gives taken {#SegmentOf l#} (gaspi_check_nothrow (gaspi_segment_delete G l))" for l
    by (rule gives_nothrow) (metis contract_steps(4) [OF assms] prod.collapse)
  then show ?thesis by (simp add: sr_destroy_def sr_resources_def gives_return)
qed

lemma takes_sr_construct_id:
  assumes C: "resource_contract G taken"
  shows "takes taken sr_resources (sr_construct_id G l n)"
proof -
  have "taken s1 = (case r of Inl e \<Rightarrow> taken s | Inr R \<Rightarrow> sr_resources R + taken s)"
    if c: "sr_construct_id G l n s = (r, s1)" for s r s1
  proof -
    obtain ret s2 where a: "gaspi_segment_alloc G (ucast l) n s = (ret, s2)" by force
    obtain ret' rank s3 where k: "gaspi_proc_rank G s2 = ((ret', rank), s3)" by (metis prod.collapse)
    obtain ret2 s4 where g: "gaspi_segment_register G (ucast l) rank GASPI_BLOCK s3 = (ret2, s4)" by force
    show ?thesis
      using c a k g contract_steps(3) [OF C a] contract_steps(5) [OF C _ k g]
        keepsD [OF contract_keeps(4) [OF C] k] keepsD [OF contract_keeps(9) [OF C] g]
      by (cases "ret = GASPI_SUCCESS")
        (auto simp: sr_construct_id_def Let_def act_bind_apply gaspi_checked_eq gaspi_checked_out_eq
          remoteRegistration_def sr_resources_def)
  qed
  then show ?thesis by (simp add: takes_def)
qed

lemma keeps_sm_construct:
  assumes C: "resource_contract G taken"
  shows "keeps taken (sm_construct G l)" "keeps taken (sm_size G M)" "keeps taken (getFreeLocalSegmentId G)"
  unfolding sm_construct_def sm_size_def getSegmentPtr_def getSegmentSize_def getNumNotificationsMax_def
    getFreeLocalSegmentId_def
  by (intro keeps_intros contract_keeps [OF C])+

lemma takes_segment:
  assumes C: "resource_contract G taken"
  shows "takes taken segment_resources (segment_construct G n)"
proof -
  have 1: "segment_construct G n = act_bind (getFreeLocalSegmentId G) (\<lambda>l.
      act_bind (sr_construct_id G l n) (\<lambda>R. act_on_error
        (act_bind (sm_construct G (sr_segmentId R)) (\<lambda>M. act_return \<lparr>sg_resource = R, sg_manager = M\<rparr>)) (sr_destroy G R)))"
    by (rule ext) (simp add: segment_construct_def sr_construct_def segment_manage_def act_bind_apply split: sum.split prod.split)
  have 2: "takes taken (\<lambda>_. {#}) (act_bind (sm_construct G (sr_segmentId R)) (\<lambda>M. act_return \<lparr>sg_resource = R, sg_manager = M\<rparr>))" for R
    by (rule takes_keeps) (intro keeps_intros keeps_sm_construct [OF C])
  show ?thesis unfolding 1
    by (intro takes_bind_keeps keeps_sm_construct [OF C] takes_guard [OF takes_sr_construct_id [OF C] 2 gives_segment [OF C]])
      (auto simp: act_bind_eq_Inr segment_resources_def sr_resources_def)
qed

lemma gives_segments:
  assumes C: "resource_contract G taken"
  shows "gives taken (sum_list (map segment_resources Ss)) (segments_destroy G Ss)"
proof (induction Ss)
  case (Cons S Ss)
  then show ?case
    using gives_bind [OF gives_segment [OF C, of "sg_resource S"] Cons.IH] by (simp add: segment_resources_def sr_resources_def)
qed (simp add: gives_def)

lemma gives_queues:
  assumes C: "resource_contract G taken"
  shows "gives taken (mset (map QueueOf qs)) (destroy_queues G qs)"
proof (induction qs)
  case (Cons q qs)
  then show ?case using gives_bind [OF gives_queue [OF C, of q] Cons.IH] by simp
qed (simp add: gives_def)

lemma construct_queues_taken:
  assumes C: "resource_contract G taken"
  shows "construct_queues G k qs s = (r, s1) \<Longrightarrow> taken s = mset (map QueueOf qs) + L \<Longrightarrow>
    taken s1 = (case r of Inl e \<Rightarrow> L | Inr qs' \<Rightarrow> mset (map QueueOf qs') + L)"
proof (induction k arbitrary: qs s)
  case (Suc k)
  obtain r0 s0 where q: "queue_construct G s = (r0, s0)" by force
  show ?case
  proof (cases r0)
    case (Inl e)
    obtain s2 where "destroy_queues G qs s0 = (Inr (), s2)" "taken s2 = taken s0 - mset (map QueueOf qs)"
      using gives_queues [OF C] unfolding gives_def by blast
    then show ?thesis
      using Suc.prems q Inl takesD(2) [OF takes_queue [OF C] q [unfolded Inl]] by (auto simp: act_bind_apply)
  next
    case (Inr x)
    then show ?thesis
      using Suc.prems q takesD(1) [OF takes_queue [OF C] q [unfolded Inr]] Suc.IH [of "qs @ [x]" s0] by simp
  qed
qed auto

lemma takes_round_robin:
  assumes C: "resource_contract G taken"
  shows "takes taken (\<lambda>c. mset (map QueueOf (rr_queues c))) (rr_construct G n)"
proof -
  have k: "keeps taken (get_number_queues_allowed G n)"
    unfolding get_number_queues_allowed_def get_number_allocated_gaspi_queues_def Let_def
    by (intro keeps_intros contract_keeps [OF C]) (simp add: keeps_intros)
  have "takes taken (\<lambda>c. mset (map QueueOf (rr_queues c))) (act_bind (construct_queues G (unat n) []) (\<lambda>qs.
       if n \<le> 0
       then act_bind (destroy_queues G (rev qs)) (\<lambda>_. act_throw (RuntimeError
              ''[RoundRobinQueuesContext] Context creation requires at least one queue''))
       else act_return \<lparr>rr_queues = qs, rr_index = 0\<rparr>))" (is "takes _ _ ?m")
    unfolding takes_def
  proof (intro allI impI)
    fix s r s1
    assume m: "?m s = (r, s1)"
    obtain r0 s0 where q: "construct_queues G (unat n) [] s = (r0, s0)" by force
    note t = construct_queues_taken [OF C q, of "taken s"]
    have "\<exists>s2. destroy_queues G (rev qs) s0 = (Inr (), s2) \<and> taken s2 = taken s0 - mset (map QueueOf qs)" for qs
      using gives_queues [OF C, of "rev qs"] by (simp add: gives_def)
    then show "taken s1 = (case r of Inl e \<Rightarrow> taken s | Inr a \<Rightarrow> mset (map QueueOf (rr_queues a)) + taken s)"
      using m q t by (cases r0) (fastforce simp: act_bind_apply split: if_splits)+
  qed
  then show ?thesis unfolding rr_construct_def by (rule takes_bind_keeps [OF k])
qed

lemma takes_context:
  assumes C: "resource_contract G taken"
  shows "takes taken context_resources (createCommunicationContext G t)"
proof (cases t)
  case SingleQueue
  then show ?thesis using takes_map [OF takes_queue [OF C], of context_resources "\<lambda>q. Some (SingleQueueContext q)"]
    by (simp add: createCommunicationContext_def sq_construct_def context_resources_def)
next
  case RoundRobinQueues
  then show ?thesis using takes_map [OF takes_round_robin [OF C], of context_resources "\<lambda>c. Some (RoundRobinContext c)"]
    by (simp add: createCommunicationContext_def Let_def context_resources_def)
qed (simp add: createCommunicationContext_def takes_return context_resources_def)

lemma gives_context:
  assumes C: "resource_contract G taken"
  shows "gives taken (context_resources c) (context_destroy G c)"
proof -
  have "gives taken (mset (map QueueOf (rr_queues x))) (rr_destroy G x)" for x
    using gives_queues [OF C, of "rev (rr_queues x)"] by (simp add: rr_destroy_def)
  then show ?thesis
    by (auto simp: context_resources_def context_destroy_def gives_return gives_queue [OF C] split: option.split comm_context.split)
qed

lemma gives_pool: "resource_contract G taken \<Longrightarrow> gives taken (pool_resources p) (pool_destroy G p)"
  by (simp add: pool_resources_def pool_destroy_def gives_return gives_segments split: option.split)

lemma takes_pool:
  assumes C: "resource_contract G taken"
  shows "takes taken pool_resources (createSegmentPool G t)"
proof (cases t)
  case SingleSegment
  then show ?thesis using takes_map [OF takes_segment [OF C], of pool_resources "\<lambda>S. Some (SinglePool S)"]
    by (simp add: createSegmentPool_def ssp_construct_def pool_resources_def pool_segments_def)
next
  case DynamicSegmentPool
  then show ?thesis
    by (auto simp: createSegmentPool_def dp_construct_def Let_def takes_return takes_throw pool_resources_def pool_segments_def)
qed (simp add: createSegmentPool_def takes_return pool_resources_def)

lemma pool_getSegment_resources:
  assumes C: "resource_contract G taken" and g: "pool_getSegment G pow2_up sz (p, s) = (r, p1, s1)"
    and b: "taken s = pool_resources (Some p) + L"
  shows "taken s1 = pool_resources (Some p1) + L"
proof (cases p)
  case (SinglePool S)
  then show ?thesis using g b by (auto simp: pool_getSegment_def split: sum.splits)
next
  case (DynamicPool P)
  have find: "taken s' = sum_list (map segment_resources (dp_segments P')) + L"
    if "dp_find G sz (Q, s) = (r', P', s')" "dp_segments Q = dp_segments P" for Q P' r' s'
  proof (cases "find_if (\<lambda>S. hasFreeMemory (sg_manager S) sz) (dp_segments Q)")
    case None
    obtain r0 s0 where c: "segment_construct G (dp_sizePerSegment Q) s = (r0, s0)" by force
    show ?thesis using that b c None DynamicPool takesD [OF takes_segment [OF C], of _ s] 
      by (cases r0) (auto simp: dp_find_def pool_resources_def pool_segments_def add.assoc)
  qed (use that b DynamicPool in \<open>auto simp: dp_find_def pool_resources_def pool_segments_def\<close>)
  show ?thesis using g b DynamicPool find
    by (auto simp: pool_getSegment_def dp_getSegment_def Let_def dp_adjust_def dp_clamp_def pool_resources_def
        pool_segments_def split: prod.splits if_splits)
qed

section \<open>The passive component\<close>

text \<open>The destructor's message goes through the management segment: what it allocates there it gives
  back or leaves, but it neither creates nor deletes a segment.\<close>

abbreviation kept_parts :: "('s \<Rightarrow> resource multiset) \<Rightarrow> 's pstate \<Rightarrow> segment_resource \<times> resource multiset" where
  "kept_parts taken p \<equiv> (sg_resource (pv_segment p), taken (pv_lib p))"

lemma keeps_passive_parts [keeps_intros]:
  "keeps (kept_parts taken) (with_world (on_manager m))" "keeps (kept_parts taken) (store q bs)"
  "keeps (kept_parts taken) (fetch q n)"
  by (auto simp: keeps_def with_world_def store_def fetch_def on_manager_def pv_segment_def split: prod.splits)

lemma keeps_passive_lib: "(\<And>p. keeps taken (m p)) \<Longrightarrow> keeps (kept_parts taken) (with_lib m)"
  unfolding keeps_def with_lib_def pv_segment_def by (auto split: prod.splits) (metis snd_conv)

lemma contract_runtime:
  assumes "runtime_contract G taken"
  shows "resource_contract (seg_api G) taken" "keeps taken (gaspi_proc_num G)" "keeps taken (gaspi_proc_init G t)"
    "keeps taken (gaspi_proc_term G t)" "keeps taken (gaspi_passive_send G l off r n t bs)"
    "keeps taken (gaspi_proc_rank G)" "keeps taken (gaspi_segment_ptr G l)"
proof -
  show C: "resource_contract (seg_api G) taken" and "keeps taken (gaspi_proc_num G)" "keeps taken (gaspi_proc_init G t)"
    "keeps taken (gaspi_proc_term G t)" "keeps taken (gaspi_passive_send G l off r n t bs)"
    using assms by (simp_all add: runtime_contract_def)
  show "keeps taken (gaspi_proc_rank G)" "keeps taken (gaspi_segment_ptr G l)"
    using contract_keeps(4,6) [OF C] by (simp_all add: segment_api.truncate_def)
qed

lemma keeps_finish_message:
  assumes "runtime_contract G taken"
  shows "keeps (kept_parts taken) (finish_message (passive_gaspi.truncate G))"
  unfolding finish_message_def pv_global_rank_def sendPassive_def Let_def pointerToOffset_def getSegmentPtr_def
  by (intro keeps_intros keeps_passive_lib)
    (simp_all add: contract_runtime [OF assms] segment_api.truncate_def passive_gaspi.truncate_def)

lemma passive_destroy_parts:
  assumes "runtime_contract G taken" "passive_destroy (passive_gaspi.truncate G) P (S, s) = (r, S1, s1)"
  shows "sg_resource S1 = sg_resource S \<and> taken s1 = taken s"
  using assms(2) keepsD [OF keeps_finish_message [OF assms(1)]]
  by (auto simp: passive_destroy_def pv_segment_def split: prod.splits sum.splits)

lemma passive_construct_parts:
  assumes "runtime_contract G taken" "passive_construct (seg_api G) (S, s) = (r, S1, s1)"
  shows "sg_resource S1 = sg_resource S \<and> taken s1 = taken s"
  using assms(2) keepsD [OF keeps_sm_construct(2) [OF contract_runtime(1) [OF assms(1)]]]
  by (auto simp: passive_construct_def split: prod.splits sum.splits)

section \<open>The runtime\<close>

lemma queue_seg_api: "queue_construct (seg_api G) = queue_construct G" "queue_destroy (seg_api G) q = queue_destroy G q"
  for G :: "'a runtime_api"
proof -
  have out: "gaspi_checked_out (seg_api G) call = gaspi_checked_out G call" for call :: "'a \<Rightarrow> (gaspi_return \<times> 'b) \<times> 'a"
    by (rule ext) (simp add: gaspi_checked_out_eq segment_api.truncate_def split: prod.split)
  have check: "gaspi_checked (seg_api G) call = gaspi_checked G call" for call :: "'a \<Rightarrow> gaspi_return \<times> 'a"
    by (rule ext) (simp add: gaspi_checked_eq segment_api.truncate_def split: prod.split)
  show "queue_construct (seg_api G) = queue_construct G" "queue_destroy (seg_api G) q = queue_destroy G q"
    by (simp_all add: queue_construct_def queue_destroy_def queue_flush_def out check) (simp_all add: segment_api.truncate_def)
qed

lemma takes_runtime:
  assumes R: "runtime_contract G taken"
  shows "takes taken runtime_resources (runtime_construct G configuration :: ('s, 'c runtime) act)"
proof -
  note C = contract_runtime(1) [OF R]
  have members: "takes taken (\<lambda>R. runtime_resources R - {#QueueOf q#}) (act_bind (segment_construct (seg_api G) (1024 * 1024)) (\<lambda>S. \<lambda>s.
             case passive_construct (seg_api G) (S, s) of
               (Inl e, S1, s1) \<Rightarrow> act_bind (sr_destroy (seg_api G) (sg_resource S1)) (\<lambda>_. act_throw e) s1
             | (Inr P, S1, s1) \<Rightarrow>
                 (case createCommunicationContext (seg_api G) (communication_context_type configuration) s1 of
                    (Inl e, s2) \<Rightarrow>
                      (case passive_destroy (passive_gaspi.truncate G) P (S1, s2) of
                         (_, S3, s3) \<Rightarrow> act_bind (sr_destroy (seg_api G) (sg_resource S3)) (\<lambda>_. act_throw e) s3)
                  | (Inr C, s2) \<Rightarrow>
                      (Inr \<lparr>rt_queue = q, rt_group_all = g, rt_segment = S1, rt_passive = P, rt_segment_pool = None,
                            rt_comm_context = C, rt_engine = None, rt_global_barrier = None\<rparr> :: 'c runtime res, s2))))"
    (is "takes _ _ (?m q g)") for q g
    unfolding takes_def
  proof (intro allI impI)
    fix s r s1
    assume m: "?m q g s = (r, s1)"
    obtain r0 s0 where S: "segment_construct (seg_api G) (1024 * 1024) s = (r0, s0)" by force
    note t0 = takesD [OF takes_segment [OF C], of "1024 * 1024" s]
    show "taken s1 = (case r of Inl e \<Rightarrow> taken s | Inr R \<Rightarrow> runtime_resources R - {#QueueOf q#} + taken s)"
    proof (cases r0)
      case (Inl e)
      then show ?thesis using m S t0(2) by (auto simp: act_bind_apply)
    next
      case (Inr S0)
      obtain r2 S2 s2 where P: "passive_construct (seg_api G) (S0, s0) = (r2, S2, s2)" by (metis prod.collapse)
      note p = passive_construct_parts [OF R P]
      obtain r3 s3 where X: "createCommunicationContext (seg_api G) (communication_context_type configuration) s2 = (r3, s3)" by force
      note x = takesD [OF takes_context [OF C], of "communication_context_type configuration" s2]
      have d: "\<exists>s'. sr_destroy (seg_api G) R s = (Inr (), s') \<and> taken s' = taken s - sr_resources R" for R s
        using gives_segment [OF C] by (simp add: gives_def)
      have e: "segment_resources S = sr_resources (sg_resource S)" for S
        by (simp add: segment_resources_def sr_resources_def)
      have t: "taken s2 = segment_resources S2 + taken s" using t0(1) S Inr p by (simp add: e)
      show ?thesis
      proof (cases r2)
        case (Inl e')
        then show ?thesis using m S Inr P t d [of "sg_resource S2" s2] by (auto simp: act_bind_apply e)
      next
        case (Inr Q)
        note r2 = Inr
        show ?thesis
        proof (cases r3)
          case (Inl e')
          obtain r4 S4 s4 where D: "passive_destroy (passive_gaspi.truncate G) Q (S2, s3) = (r4, S4, s4)"
            by (metis prod.collapse)
          show ?thesis using m S \<open>r0 = Inr S0\<close> P r2 X Inl D d [of "sg_resource S4" s4] t x(2) [OF X [unfolded Inl]]
              passive_destroy_parts [OF R D] by (auto simp: act_bind_apply e)
        next
          case (Inr K)
          show ?thesis using m S \<open>r0 = Inr S0\<close> P r2 X Inr t x(1) [OF X [unfolded Inr]]
            by (auto simp: act_bind_apply runtime_resources_def pool_resources_def)
        qed
      qed
    qed
  qed
  have group: "keeps taken (group_all G :: ('s, group) act)"
    unfolding group_all_def
    by (intro keeps_intros contract_runtime [OF R]) (auto intro!: keeps_intros contract_runtime [OF R] split: sum.split)
  have queue: "takes taken (\<lambda>q. {#QueueOf q#}) (sq_construct G)" "gives taken {#QueueOf q#} (queue_destroy G q)" for q
    using takes_queue [OF C] gives_queue [OF C, of q] by (simp_all add: sq_construct_def queue_seg_api)
  have body: "takes taken (\<lambda>R. runtime_resources R - {#QueueOf q#}) (act_bind (group_all G) (\<lambda>g. ?m q g))" for q
    by (rule takes_bind_keeps [OF group members])
  have same: "rt_queue R = q" if "act_bind (group_all G) (\<lambda>g. ?m q g) s = (Inr R, s1)" for q R s s1
    using that by (auto simp: act_bind_apply split: sum.splits prod.splits)
  have "runtime_resources R = {#QueueOf q#} + (runtime_resources R - {#QueueOf q#})"
    if "act_bind (group_all G) (\<lambda>g. ?m q g) s = (Inr R, s1)" for q R s s1
    using same [OF that] by (simp add: runtime_resources_def)
  then have inner: "takes taken runtime_resources (act_bind (sq_construct G) (\<lambda>q.
      act_on_error (act_bind (group_all G) (\<lambda>g. ?m q g)) (queue_destroy G q)))"
    by (rule takes_guard [OF queue(1) body queue(2)])
  have init: "takes taken (\<lambda>_. {#}) (gaspi_checked G (gaspi_proc_init G GASPI_BLOCK))"
    by (intro takes_keeps keeps_intros contract_runtime [OF R])
  have "gives taken {#} (gaspi_check_nothrow (gaspi_proc_term G GASPI_BLOCK))"
    using contract_runtime(4) [OF R] by (intro gives_nothrow) (simp add: keeps_def)
  then show ?thesis unfolding runtime_construct_def
    by (intro takes_guard [OF init inner]) simp_all
qed

section \<open>The whole life of the runtime\<close>

definition process_resources :: "('c, 's) process \<Rightarrow> resource multiset" where
  "process_resources p = (case pr_runtime p of None \<Rightarrow> {#} | Some R \<Rightarrow> runtime_resources R)"

definition balanced :: "('s \<Rightarrow> resource multiset) \<Rightarrow> resource multiset \<Rightarrow> ('c, 's) process \<Rightarrow> bool" where
  "balanced taken L p \<longleftrightarrow> taken (pr_lib p) = process_resources p + L"

lemma getRuntime_balanced:
  fixes p :: "('c, 's) process"
  assumes R: "runtime_contract G taken" and p: "balanced taken L p" and g: "getRuntime G p = (r, p1)"
  shows "balanced taken L p1 \<and> (case r of Inr R \<Rightarrow> pr_runtime p1 = Some R | Inl e \<Rightarrow> pr_runtime p1 = None)"
proof (cases "pr_runtime p")
  case None
  obtain r0 :: "'c runtime res" and s0 where c: "runtime_construct G (pr_configuration p) (pr_lib p) = (r0, s0)"
    by force
  have "taken s0 = (case r0 of Inl e \<Rightarrow> taken (pr_lib p) | Inr R1 \<Rightarrow> runtime_resources R1 + taken (pr_lib p))"
    by (rule takes_runtime [OF R, unfolded takes_def, rule_format, OF c])
  then show ?thesis using g p None c by (cases r0) (auto simp: getRuntime_def balanced_def process_resources_def)
qed (use g p in \<open>auto simp: getRuntime_def\<close>)

lemma on_runtime_balanced:
  assumes R: "runtime_contract G taken" and p: "balanced taken L p"
    and m: "\<And>c R s r R1 s1. m c (R, s) = (r, R1, s1) \<Longrightarrow> taken s = runtime_resources R + L \<Longrightarrow>
      taken s1 = runtime_resources R1 + L"
  shows "balanced taken L (snd (on_runtime G m p))"
proof -
  obtain r p1 where g: "getRuntime G p = (r, p1)" by force
  note B = getRuntime_balanced [OF R p g]
  show ?thesis
  proof (cases r)
    case (Inr R)
    obtain r2 R2 s2 where c: "m (pr_configuration p1) (R, pr_lib p1) = (r2, R2, s2)" by (metis prod.collapse)
    show ?thesis using B g Inr c m [OF c] by (simp add: on_runtime_def act_bind_apply balanced_def process_resources_def)
  qed (use B g in \<open>simp add: on_runtime_def act_bind_apply\<close>)
qed

lemma getFreeSegment_resources:
  assumes C: "resource_contract (seg_api G) taken"
    and g: "getFreeSegment (seg_api G) pow2_up c sz (R, s) = (r, R1, s1)" and b: "taken s = runtime_resources R + L"
  shows "taken s1 = runtime_resources R1 + L"
proof -
  define K where "K = add_mset (QueueOf (rt_queue R)) (context_resources (rt_comm_context R) + segment_resources (rt_segment R)) + L"
  have split: "runtime_resources (R\<lparr>rt_segment_pool := q\<rparr>) + L = pool_resources q + K"
    "runtime_resources R + L = pool_resources (rt_segment_pool R) + K" for q
    by (simp_all add: runtime_resources_def K_def)
  obtain q s0 where q: "(case rt_segment_pool R of
             Some p \<Rightarrow> (Inr (Some p), s)
           | None \<Rightarrow> createSegmentPool (seg_api G) (segment_pool_type c) s) = (q, s0)" by force
  have b0: "case q of Inl e \<Rightarrow> rt_segment_pool R = None \<and> taken s0 = K | Inr p \<Rightarrow> taken s0 = pool_resources p + K"
  proof (cases "rt_segment_pool R")
    case None
    then show ?thesis using q b split(2) takesD [OF takes_pool [OF C], of "segment_pool_type c" s]
      by (auto simp: pool_resources_def split: sum.split)
  qed (use q b split(2) in auto)
  have empty: "rt_segment_pool R = None" if "q = Inr None" using q that by (auto split: option.splits)
  consider e where "q = Inl e" | "q = Inr None" | p where "q = Inr (Some p)" by (cases q) auto
  then show ?thesis
  proof cases
    case 1
    then show ?thesis using g q b0 split(2) by (auto simp: getFreeSegment_def pool_resources_def)
  next
    case 2
    then show ?thesis using g q b0 split(2) empty by (auto simp: getFreeSegment_def)
  next
    case 3
    obtain r2 p2 s2 where c: "pool_getSegment (seg_api G) pow2_up sz (p, s0) = (r2, p2, s2)" by (metis prod.collapse)
    then show ?thesis using g q 3 split(1) pool_getSegment_resources [OF C c, of K] b0 by (auto simp: getFreeSegment_def)
  qed
qed

lemma process_step_balanced:
  assumes R: "runtime_contract G taken" and p: "balanced taken L p" and s: "process_step G pow2_up p p1"
  shows "balanced taken L p1"
  using s
proof cases
  case init
  obtain r p2 where g: "getRuntime G p = (r, p2)" by force
  then show ?thesis using init getRuntime_balanced [OF R p g]
    by (cases r) (simp_all add: initGaspiCxx_def act_bind_apply)
next
  case (init_config config)
  let ?p = "p\<lparr>pr_configuration := config\<rparr>"
  obtain r p2 where g: "getRuntime G ?p = (r, p2)" by force
  have "balanced taken L ?p" using p by (simp add: balanced_def process_resources_def)
  then show ?thesis using init_config g getRuntime_balanced [OF R _ g]
    by (cases r) (simp_all add: initGaspiCxx_config_def act_bind_apply)
next
  case (free_segment sz)
  show ?thesis unfolding free_segment
    by (rule on_runtime_balanced [OF R p]) (rule getFreeSegment_resources [OF contract_runtime(1) [OF R]])
next
  case engine
  show ?thesis unfolding engine
    by (rule on_runtime_balanced [OF R p])
      (auto simp: getDefaultProgressEngine_def runtime_resources_def Let_def split: option.splits prod.splits)
next
  case barrier
  show ?thesis unfolding barrier
    by (rule on_runtime_balanced [OF R p])
      (auto simp: runtime_barrier_def runtime_resources_def Let_def split: option.splits prod.splits)
qed

lemma process_balanced:
  assumes "runtime_contract G taken" "rtranclp (process_step G pow2_up) p p1" "balanced taken L p"
  shows "balanced taken L p1"
  using assms(2,3) by (induction rule: rtranclp_induct) (auto intro: process_step_balanced [OF assms(1)])

lemma gives_run: "gives taken M m \<Longrightarrow> \<exists>s1. (\<forall>k. act_bind m (\<lambda>_. k) s = k s1) \<and> taken s1 = taken s - M"
  unfolding gives_def act_bind_apply by (metis (mono_tags, lifting) case_prod_conv sum.case(2))

text \<open>The destructor removes exactly what the runtime has.\<close>

lemma runtime_destroy_gives:
  assumes R: "runtime_contract G taken" and b: "keeps taken execute_barrier"
    and d: "runtime_destroy G execute_barrier R s = (r, s1)" and t: "taken s = runtime_resources R + L"
  shows "case r of Inr _ \<Rightarrow> taken s1 = L
    | Inl e \<Rightarrow> (\<exists>s2. execute_barrier s = (Inl e, s2)) \<or>
        (\<exists>s2 S s3. passive_destroy (passive_gaspi.truncate G) (rt_passive R) (rt_segment R, s2) = (Inl e, S, s3))"
proof -
  note C = contract_runtime(1) [OF R]
  obtain g R1 where br: "runtime_barrier R = (g, R1)" by force
  have same: "rt_comm_context R1 = rt_comm_context R" "rt_passive R1 = rt_passive R"
    "rt_segment_pool R1 = rt_segment_pool R" "rt_segment R1 = rt_segment R" "rt_queue R1 = rt_queue R"
    using br by (auto simp: runtime_barrier_def Let_def split: option.splits)
  obtain r0 s2 where x: "execute_barrier s = (r0, s2)" by force
  show ?thesis
  proof (cases r0)
    case (Inl e)
    then show ?thesis using d x by (auto simp: runtime_destroy_def act_bind_apply split: prod.splits)
  next
    case (Inr u)
    have 1: "taken s2 = runtime_resources R + L" using keepsD [OF b x] t by simp
    obtain s3 where s3: "\<And>k :: (_, unit) act. act_bind (context_destroy (seg_api G) (rt_comm_context R)) (\<lambda>_. k) s2 = k s3"
      "taken s3 = taken s2 - context_resources (rt_comm_context R)"
      using gives_run [OF gives_context [OF C]] by blast
    obtain s4 where s4: "\<And>k :: (_, unit) act. act_bind (pool_destroy (seg_api G) (rt_segment_pool R)) (\<lambda>_. k) s3 = k s4"
      "taken s4 = taken s3 - pool_resources (rt_segment_pool R)"
      using gives_run [OF gives_pool [OF C]] by blast
    obtain r5 S5 s5 where P: "passive_destroy (passive_gaspi.truncate G) (rt_passive R) (rt_segment R, s4) = (r5, S5, s5)"
      by (metis prod.collapse)
    note parts = passive_destroy_parts [OF R P]
    have D: "runtime_destroy G execute_barrier R s = (case r5 of Inl e \<Rightarrow> (Inl e, s5) | Inr u \<Rightarrow>
        act_bind (sr_destroy (seg_api G) (sg_resource S5)) (\<lambda>_.
        act_bind (queue_destroy G (rt_queue R)) (\<lambda>_. gaspi_check_nothrow (gaspi_proc_term G GASPI_BLOCK))) s5)"
      unfolding runtime_destroy_def br Let_def prod.case same
      using x Inr by (simp add: act_bind_apply [of execute_barrier] s3(1) s4(1) P split: sum.split)
    show ?thesis
    proof (cases r5)
      case (Inl e)
      then show ?thesis using d D P by auto
    next
      case (Inr v)
      have "gives taken {#} (gaspi_check_nothrow (gaspi_proc_term G GASPI_BLOCK))"
        using contract_runtime(4) [OF R] by (intro gives_nothrow) (simp add: keeps_def)
      moreover have "gives taken {#QueueOf (rt_queue R)#} (queue_destroy G (rt_queue R))"
        using gives_queue [OF C] by (simp add: queue_seg_api)
      ultimately have "gives taken (sr_resources (sg_resource S5) + ({#QueueOf (rt_queue R)#} + {#}))
          (act_bind (sr_destroy (seg_api G) (sg_resource S5)) (\<lambda>_.
           act_bind (queue_destroy G (rt_queue R)) (\<lambda>_. gaspi_check_nothrow (gaspi_proc_term G GASPI_BLOCK))))"
        using gives_bind gives_segment [OF C] by metis
      from givesD [OF this d [unfolded D Inr sum.case]] parts 1 s3(2) s4(2) show ?thesis
        by (auto simp: runtime_resources_def segment_resources_def sr_resources_def)
    qed
  qed
qed


text \<open>
  Where the contract does not hold: when the registration after a successful creation fails, the
  constructor of \<open>SegmentResource\<close> throws, its destructor does not run, and the segment remains.
\<close>

lemma segment_constructor_leaks:
  assumes "gaspi_segment_alloc G (ucast l) n s = (GASPI_SUCCESS, s1)" "gaspi_proc_rank G s1 = ((GASPI_SUCCESS, rank), s2)"
    and "gaspi_segment_register G (ucast l) rank GASPI_BLOCK s2 = (ret, s3)" "ret \<noteq> GASPI_SUCCESS"
    and "taken s1 = add_mset (SegmentOf (ucast l)) (taken s)"
    and "keeps taken (gaspi_proc_rank G)" "\<And>l k t. keeps taken (gaspi_segment_register G l k t)"
  shows "\<exists>e. sr_construct_id G l n s = (Inl e, s3) \<and> taken s3 = add_mset (SegmentOf (ucast l)) (taken s)"
  using assms keepsD [OF assms(6,2)] keepsD [OF assms(7,3)]
  by (simp add: sr_construct_id_def Let_def act_bind_apply gaspi_checked_eq gaspi_checked_out_eq remoteRegistration_def)

section \<open>Witness\<close>

text \<open>A library that does nothing but count its queues and segments.\<close>

definition counting_library :: "resource multiset runtime_api" where
  "counting_library =
     \<lparr>gaspi_error_str = (\<lambda>_. ''error''),
      gaspi_queue_create = (\<lambda>_ s. ((GASPI_SUCCESS, 0), add_mset (QueueOf 0) s)),
      gaspi_queue_delete = (\<lambda>q s. (GASPI_SUCCESS, s - {#QueueOf q#})),
      gaspi_queue_num = (\<lambda>s. ((GASPI_SUCCESS, 1), s)),
      gaspi_queue_max = (\<lambda>s. ((GASPI_SUCCESS, 16), s)),
      gaspi_wait = (\<lambda>q _ s. (GASPI_SUCCESS, s)),
      gaspi_post = (\<lambda>r q _ s. (GASPI_SUCCESS, s)),
      gaspi_notify_waitsome = (\<lambda>_ n _ _ s. ((GASPI_SUCCESS, n), s)),
      gaspi_notify_reset = (\<lambda>_ _ s. ((GASPI_SUCCESS, 1), s)),
      gaspi_proc_rank = (\<lambda>s. ((GASPI_SUCCESS, 0), s)),
      gaspi_segment_size = (\<lambda>_ _ s. ((GASPI_SUCCESS, 1048576), s)),
      gaspi_segment_ptr = (\<lambda>_ s. ((GASPI_SUCCESS, 4096), s)),
      gaspi_notification_num = (\<lambda>s. ((GASPI_SUCCESS, 65536), s)),
      gaspi_segment_avail_local = (\<lambda>s. ((GASPI_SUCCESS, 7), s)),
      gaspi_segment_alloc = (\<lambda>l _ s. (GASPI_SUCCESS, add_mset (SegmentOf l) s)),
      gaspi_segment_register = (\<lambda>_ _ _ s. (GASPI_SUCCESS, s)),
      gaspi_segment_delete = (\<lambda>l s. (GASPI_SUCCESS, s - {#SegmentOf l#})),
      gaspi_passive_send = (\<lambda>_ _ _ _ _ _ s. (GASPI_SUCCESS, s)),
      gaspi_passive_receive = (\<lambda>_ _ _ _ s. ((GASPI_SUCCESS, 0, []), s)),
      gaspi_segment_memory = (\<lambda>m _. m),
      gaspi_proc_init = (\<lambda>_ s. (GASPI_SUCCESS, s)),
      gaspi_proc_term = (\<lambda>_ s. (GASPI_SUCCESS, s)),
      gaspi_proc_num = (\<lambda>s. ((GASPI_SUCCESS, 2), s))\<rparr>"

lemma counting_contract: "runtime_contract counting_library (\<lambda>s. s)"
  by (simp add: runtime_contract_def resource_contract_def keeps_def counting_library_def segment_api.truncate_def)

lemma counting_calls:
  "gaspi_checked counting_library (gaspi_proc_init counting_library t) s = (Inr (), s)"
  "group_all counting_library s = (Inr \<lparr>g_ranks = [0, 1], g_rank = Rank 0\<rparr>, s)"
  "sq_construct counting_library s = (Inr 0, add_mset (QueueOf 0) s)"
  "sq_construct (seg_api counting_library) s = (Inr 0, add_mset (QueueOf 0) s)"
  "segment_construct (seg_api counting_library) 1048576 s = (Inr (demo_segment 1048576), add_mset (SegmentOf 7) s)"
proof -
  have all: "generate_group_all 2 = [0, 1]" by (simp add: generate_group_all_def upt_rec)
  show "group_all counting_library s = (Inr \<lparr>g_ranks = [0, 1], g_rank = Rank 0\<rparr>, s)"
    by (simp add: group_all_def gaspi_checked_out_eq act_bind_apply counting_library_def mk_group_all_def all mk_group_def)
  show "gaspi_checked counting_library (gaspi_proc_init counting_library t) s = (Inr (), s)"
    "sq_construct counting_library s = (Inr 0, add_mset (QueueOf 0) s)"
    "sq_construct (seg_api counting_library) s = (Inr 0, add_mset (QueueOf 0) s)"
    by (simp_all add: gaspi_checked_eq gaspi_checked_out_eq sq_construct_def queue_construct_def counting_library_def
        segment_api.truncate_def)
  show "segment_construct (seg_api counting_library) 1048576 s = (Inr (demo_segment 1048576), add_mset (SegmentOf 7) s)"
    by (simp add: segment_construct_def sr_construct_def getFreeLocalSegmentId_def sr_construct_id_def
      segment_manage_def sm_construct_def getSegmentPtr_def getSegmentSize_def getNumNotificationsMax_def
      remoteRegistration_def gaspi_checked_eq gaspi_checked_out_eq act_bind_apply act_on_error_def Let_def
      counting_library_def segment_api.truncate_def demo_segment_def)
qed

lemma counting_passive:
  "\<exists>P S1. passive_construct (seg_api counting_library) (demo_segment 1048576, s) = (Inr P, S1, s) \<and>
     sg_resource S1 = \<lparr>sr_segmentId = 7, sr_contains_valid_segment = True\<rparr> \<and>
     (\<forall>s1. \<exists>S2. passive_destroy (passive_gaspi.truncate counting_library) P (S1, s1) = (Inr (), S2, s1))"
  by (simp add: passive_construct_def sm_size_def getSegmentSize_def act_bind_apply gaspi_checked_out_eq gaspi_checked_eq
      counting_library_def demo_segment_def allocator_allocate_def mm_allocate_def mm_construct_def passiveBufSize_def
      segment_api.truncate_def passive_gaspi.truncate_def passive_destroy_def finish_message_def pv_global_rank_def
      with_lib_def with_world_def sendPassive_def Let_def on_manager_def store_def fetch_def pv_segment_def pv_seg_id_def
      pointerToOffset_def getSegmentPtr_def allocator_deallocate_def mm_deallocate_def release_block_def segment_id_def)


end
