(* ===== verification/Runtime_Wellformed.thy ===== *)
theory Runtime_Wellformed
  imports Runtime_Props
begin

text \<open>
  The well-formed states of the process: what the classes' invariants say of the parts of the runtime
  that exists, and that every call through the singleton, returning or throwing, keeps it.
\<close>

text \<open>
  The memory of the management segment and of every segment of the pool is tiled by its blocks, the
  sizes of the pool are in range, the group is one of distinct ranks with the own rank at its
  position, and a global barrier runs over that group.
\<close>

definition runtime_wf :: "'c runtime \<Rightarrow> bool" where
  "runtime_wf R \<longleftrightarrow> rt_ok R \<and> seg_ok (rt_segment R) \<and> group_inv (rt_group_all R) \<and>
     (rt_global_barrier R = None \<or> rt_global_barrier R = Some (rt_group_all R))"

definition process_wf :: "('c, 's) process \<Rightarrow> bool" where
  "process_wf p \<longleftrightarrow> (\<forall>R. pr_runtime p = Some R \<longrightarrow> runtime_wf R)"

lemma group_all_inv: "group_all G s = (Inr g, s1) \<Longrightarrow> group_inv g"
  by (auto simp: group_all_def act_bind_apply mk_group_all_def split: if_splits sum.splits prod.splits dest: mk_group_Inr(1))

lemma passive_construct_ok:
  assumes "passive_construct G (S, s) = (r, S1, s1)" "seg_ok S"
  shows "seg_ok S1"
proof -
  have "seg_ok (S\<lparr>sg_manager := M\<rparr>)" if a: "allocator_allocate 1 n (sg_manager S) = (ra, M)" for n ra M
  proof -
    obtain a e where i: "mm_inv a e (s_mm S)" using assms(2) by (auto simp: seg_ok_def)
    have "mm_inv a e (sm_memoryManager M)"
    proof (cases "mm_allocate n (s_mm S)")
      case (Inr ps)
      have "mm_inv a e (snd ps)"
      proof (cases "n = 0")
        case False
        then show ?thesis using Inr by (intro mm.alloc_inv [OF i, of n "fst ps"]) (simp_all add: word_neq_0_conv)
      qed (use Inr i in \<open>auto simp: mm_allocate_def\<close>)
      then show ?thesis using a Inr by (auto simp: allocator_allocate_def split: prod.splits)
    qed (use a i in \<open>auto simp: allocator_allocate_def\<close>)
    then show ?thesis by (auto simp: seg_ok_def)
  qed
  then show ?thesis using assms by (auto simp: passive_construct_def split: sum.splits prod.splits)
qed

lemma runtime_construct_wf:
  assumes C: "segment_contract (seg_api G) seg_info" and c: "runtime_construct G cfg s = (Inr R, s1)"
  shows "runtime_wf R"
proof -
  obtain s2 g s3 S s4 P S5 s5 where "group_all G s2 = (Inr g, s3)"
    "segment_construct (seg_api G) (1024 * 1024) s3 = (Inr S, s4)" "passive_construct (seg_api G) (S, s4) = (Inr P, S5, s5)"
    "rt_group_all R = g" "rt_segment R = S5" "rt_segment_pool R = None" "rt_global_barrier R = None"
    using c by (auto simp: runtime_construct_def act_bind_apply act_on_error_def split: sum.splits prod.splits)
  with segment_construct_ok [OF C this(2)] passive_construct_ok show ?thesis
    by (auto simp: runtime_wf_def rt_ok_def dest: group_all_inv)
qed

lemma getRuntime_wf:
  fixes p :: "('c, 's) process"
  assumes "segment_contract (seg_api G) seg_info" "process_wf p" "getRuntime G p = (r, p1)"
  shows "process_wf p1 \<and> (\<forall>R. r = Inr R \<longrightarrow> runtime_wf R)"
proof (cases "pr_runtime p")
  case None
  obtain r0 :: "'c runtime res" and s0 where c: "runtime_construct G (pr_configuration p) (pr_lib p) = (r0, s0)"
    by force
  show ?thesis
  proof (cases r0)
    case (Inr R)
    from runtime_construct_wf [OF assms(1) c [unfolded Inr]] show ?thesis
      using assms(3) None c Inr by (auto simp: getRuntime_def process_wf_def)
  qed (use assms(3) None c in \<open>auto simp: getRuntime_def process_wf_def\<close>)
qed (use assms in \<open>auto simp: getRuntime_def process_wf_def\<close>)

lemma on_runtime_wf:
  assumes C: "segment_contract (seg_api G) seg_info" "process_wf p"
    and m: "\<And>c R s r R1 s1. m c (R, s) = (r, R1, s1) \<Longrightarrow> runtime_wf R \<Longrightarrow> runtime_wf R1"
  shows "process_wf (snd (on_runtime G m p))"
proof -
  obtain r p1 where g: "getRuntime G p = (r, p1)" by force
  note W = getRuntime_wf [OF C g]
  show ?thesis
  proof (cases r)
    case (Inr R)
    obtain r2 R2 s2 where c: "m (pr_configuration p1) (R, pr_lib p1) = (r2, R2, s2)" by (metis prod.collapse)
    show ?thesis using W g Inr c m [OF c] by (simp add: on_runtime_def act_bind_apply process_wf_def)
  qed (use W g in \<open>simp add: on_runtime_def act_bind_apply\<close>)
qed

lemma getFreeSegment_barrier:
  "getFreeSegment G pow2_up c sz (R, s) = (r, R1, s1) \<Longrightarrow> rt_global_barrier R1 = rt_global_barrier R"
  by (auto simp: getFreeSegment_def split: option.splits sum.splits prod.splits)

lemma getFreeSegment_wf:
  assumes "segment_contract G seg_info" "\<And>n. n \<le> 4 * 1024 * 1024 * 1024 \<Longrightarrow> n \<le> pow2_up n"
    and g: "getFreeSegment G pow2_up c sz (R, s) = (r, R1, s1)" and R: "runtime_wf R"
  shows "runtime_wf R1"
proof -
  have "rt_ok R" using R by (simp add: runtime_wf_def)
  note ok = getFreeSegment_ok [OF assms(1,2) this g]
  then show ?thesis using R getFreeSegment_parts(1) [OF g] getFreeSegment_barrier [OF g]
    by (simp add: runtime_wf_def keeps_parts_def)
qed



end
