(* ===== verification/Scoped_Guards.thy ===== *)
theory Scoped_Guards
  imports Buffer_Ownership
begin

text \<open>
  \<open>utility/LockGuard\<close> and \<open>utility/ScopedAllocation\<close>: a mutex and an allocation that are held for a
  scope.  The managers of a segment take their mutex for the whole body of a method; here it is shown
  that the method then is one step, as the other theories have it.
\<close>

section \<open>LockGuard\<close>

text \<open>
  The mutex is the thread that holds it.  \<open>pthread_mutex_lock\<close> returns when the mutex is free: until
  then the constructor has no result.
\<close>

definition LockGuard_construct :: "nat \<Rightarrow> nat option \<Rightarrow> nat option option" where
  "LockGuard_construct thread mutex = (case mutex of None \<Rightarrow> Some (Some thread) | Some _ \<Rightarrow> None)"

definition LockGuard_destroy :: "nat option \<Rightarrow> nat option" where
  "LockGuard_destroy mutex = None"

text \<open>
  A method under a guard: its body as small steps on the shared object and its own variables.  A body
  that throws is one whose remaining steps do nothing; the guard is destroyed in both cases.
\<close>

type_synonym ('s, 'l) body = "('s \<Rightarrow> 'l \<Rightarrow> 's \<times> 'l) list"

fun run_body :: "('s, 'l) body \<Rightarrow> 's \<Rightarrow> 'l \<Rightarrow> 's \<times> 'l" where
  "run_body [] s l = (s, l)"
| "run_body (f # fs) s l = (case f s l of (s1, l1) \<Rightarrow> run_body fs s1 l1)"

datatype ('s, 'l) guarded =
    Calling "('s, 'l) body" 'l
  | Holding "('s, 'l) body" 'l
  | Through 'l

inductive guard_step ::
    "nat option \<times> 's \<times> ('s, 'l) guarded list \<Rightarrow> nat option \<times> 's \<times> ('s, 'l) guarded list \<Rightarrow> bool" where
  enter: "i < length ts \<Longrightarrow> ts ! i = Calling b l \<Longrightarrow> LockGuard_construct i m = Some m1 \<Longrightarrow>
    guard_step (m, s, ts) (m1, s, ts[i := Holding b l])"
| work: "i < length ts \<Longrightarrow> ts ! i = Holding (f # fs) l \<Longrightarrow> f s l = (s1, l1) \<Longrightarrow>
    guard_step (m, s, ts) (m, s1, ts[i := Holding fs l1])"
| leave: "i < length ts \<Longrightarrow> ts ! i = Holding [] l \<Longrightarrow>
    guard_step (m, s, ts) (LockGuard_destroy m, s, ts[i := Through l])"

section \<open>One after the other\<close>

text \<open>The calls \<open>cs\<close> executed whole, in the given order, with the variables each is left with.\<close>

fun run_serial :: "(('s, 'l) body \<times> 'l) list \<Rightarrow> nat list \<Rightarrow> 's \<Rightarrow> 's \<times> (nat \<times> 'l) list" where
  "run_serial cs [] s = (s, [])"
| "run_serial cs (i # order) s =
     (case run_body (fst (cs ! i)) s (snd (cs ! i)) of (s1, l) \<Rightarrow>
        (case run_serial cs order s1 of (s2, results) \<Rightarrow> (s2, (i, l) # results)))"

lemma run_serial_snoc:
  "run_serial cs order s = (s1, rs) \<Longrightarrow> run_body (fst (cs ! i)) s1 (snd (cs ! i)) = (s2, l) \<Longrightarrow>
   run_serial cs (order @ [i]) s = (s2, rs @ [(i, l)])"
  by (induction order arbitrary: s s1 rs) (auto split: prod.splits)

lemma run_serial_results: "run_serial cs order s = (s1, rs) \<Longrightarrow> map fst rs = order"
  by (induction order arbitrary: s s1 rs) (auto split: prod.splits)

definition not_begun :: "(('s, 'l) body \<times> 'l) list \<Rightarrow> ('s, 'l) guarded list" where
  "not_begun cs = map (\<lambda>(b, l). Calling b l) cs"

text \<open>
  Some calls have been executed one after the other; the others have not begun, except that of the
  thread that holds the mutex: what is left of its body leads where the whole body leads.
\<close>

definition serialised ::
    "(('s, 'l) body \<times> 'l) list \<Rightarrow> 's \<Rightarrow> nat option \<times> 's \<times> ('s, 'l) guarded list \<Rightarrow> nat list \<Rightarrow> 's \<Rightarrow> (nat \<times> 'l) list \<Rightarrow> bool" where
  "serialised cs s0 = (\<lambda>(m, s, ts) order s' rs.
     length ts = length cs \<and> distinct order \<and> set order \<subseteq> {..<length cs} \<and> run_serial cs order s0 = (s', rs) \<and>
     (\<forall>(i, l) \<in> set rs. ts ! i = Through l) \<and>
     (\<forall>i < length cs. i \<notin> set order \<and> m \<noteq> Some i \<longrightarrow> ts ! i = not_begun cs ! i) \<and>
     (case m of None \<Rightarrow> s = s'
      | Some j \<Rightarrow> j < length cs \<and> j \<notin> set order \<and>
          (\<exists>fs l. ts ! j = Holding fs l \<and> run_body fs s l = run_body (fst (cs ! j)) s' (snd (cs ! j)))))"

lemma serialised_through:
  "serialised cs s0 (m, s, ts) order s' rs \<Longrightarrow> i < length cs \<Longrightarrow> i \<in> set order \<Longrightarrow> \<exists>l. ts ! i = Through l"
  using run_serial_results [of cs order s0 s' rs] by (fastforce simp: serialised_def)

lemma serialised_holder:
  "serialised cs s0 (m, s, ts) order s' rs \<Longrightarrow> i < length cs \<Longrightarrow> ts ! i = Holding fs l \<Longrightarrow> m = Some i"
  using serialised_through [of cs s0 m s ts order s' rs i] by (cases "cs ! i") (auto simp: serialised_def not_begun_def)

lemma serialised_step:
  assumes I: "serialised cs s0 (m, s, ts) order s' rs" and st: "guard_step (m, s, ts) (m1, s1, ts1)"
  shows "\<exists>order s' rs. serialised cs s0 (m1, s1, ts1) order s' rs"
  using st
proof cases
  case (enter i b l)
  have i: "i < length cs" "i \<notin> set order" "m = None" "m1 = Some i"
    using enter I serialised_through [OF I, of i] by (auto simp: serialised_def LockGuard_construct_def split: option.splits)
  have "cs ! i = (b, l)"
    using I i enter by (auto simp: serialised_def not_begun_def split: prod.splits)
  then have "serialised cs s0 (m1, s1, ts1) order s' rs"
    using I i enter run_serial_results [of cs order s0 s' rs]
    by (fastforce simp: serialised_def nth_list_update)
  then show ?thesis by blast
next
  case (work i f fs l l1)
  have "i < length cs" using I work by (simp add: serialised_def)
  then have i: "m = Some i" using serialised_holder [OF I] work by blast
  then have "serialised cs s0 (m1, s1, ts1) order s' rs"
    using I work run_serial_results [of cs order s0 s' rs]
    by (fastforce simp: serialised_def nth_list_update)
  then show ?thesis by blast
next
  case (leave i l)
  have "i < length cs" using I leave by (simp add: serialised_def)
  then have i: "m = Some i" "i < length cs" using serialised_holder [OF I] leave by blast+
  have r: "run_serial cs (order @ [i]) s0 = (s, rs @ [(i, l)])"
    using I i leave by (intro run_serial_snoc) (auto simp: serialised_def)
  have "serialised cs s0 (m1, s1, ts1) (order @ [i]) s (rs @ [(i, l)])"
    using I i leave r run_serial_results [of cs order s0 s' rs]
    by (fastforce simp: serialised_def LockGuard_destroy_def nth_list_update)
  then show ?thesis by blast
qed

lemma serialised_reachable:
  assumes "rtranclp guard_step (None, s0, not_begun cs) (m, s, ts)"
  shows "\<exists>order s' rs. serialised cs s0 (m, s, ts) order s' rs"
  using assms
proof (induction "(m, s, ts)" arbitrary: m s ts rule: rtranclp_induct)
  case base
  have "serialised cs s0 (None, s0, not_begun cs) [] s0 []" by (simp add: serialised_def not_begun_def)
  then show ?case by blast
next
  case (step y)
  then show ?case using serialised_step by (metis prod_cases3)
qed

text \<open>When all threads are through, their calls have been executed whole, in some order.\<close>

lemma guarded_calls_serialise:
  assumes "rtranclp guard_step (None, s0, not_begun cs) (m, s, ts)" "\<forall>t \<in> set ts. \<exists>l. t = Through l"
  obtains order rs ls where "distinct order" "set order = {..<length cs}" "run_serial cs order s0 = (s, rs)"
    "length ls = length cs" "ts = map Through ls" "set rs = {(i, ls ! i) | i. i < length cs}"
proof -
  obtain order s' rs where I: "serialised cs s0 (m, s, ts) order s' rs" using serialised_reachable [OF assms(1)] by blast
  have t: "\<exists>l. ts ! i = Through l" if "i < length cs" for i
    using assms(2) I that by (auto simp: serialised_def)
  have "m = None" using I t by (cases m) (force simp: serialised_def)+
  have o: "i \<in> set order" if "i < length cs" for i
    using I t [OF that] that \<open>m = None\<close> by (cases "cs ! i") (auto simp: serialised_def not_begun_def)
  define ls where "ls = map (\<lambda>t. case t of Through l \<Rightarrow> l) ts"
  have len: "length ts = length cs" and sub: "set order \<subseteq> {..<length cs}" using I by (simp_all add: serialised_def)
  have l: "ts ! i = Through (ls ! i)" if "i < length cs" for i
    using t [OF that] len that by (auto simp: ls_def)
  have r: "map fst rs = order" using I by (intro run_serial_results [of cs order s0 s']) (simp add: serialised_def)
  have rs: "l = ls ! i \<and> i < length cs" if "(i, l) \<in> set rs" for i l
  proof -
    have "i \<in> set order" using r that by force
    then have "i < length cs" using sub by auto
    moreover have "ts ! i = Through l" using I that by (auto simp: serialised_def)
    ultimately show ?thesis using l [of i] by simp
  qed
  have "(i, ls ! i) \<in> set rs" if "i < length cs" for i
    using o [OF that] r rs by fastforce
  then have "set rs = {(i, ls ! i) | i. i < length cs}" using rs by auto
  moreover have "ts = map Through ls" using l len by (intro nth_equalityI) (simp_all add: ls_def)
  moreover have "set order = {..<length cs}" using o sub by blast
  moreover have "distinct order" "run_serial cs order s0 = (s, rs)" using I \<open>m = None\<close> by (simp_all add: serialised_def)
  moreover have "length ls = length cs" by (simp add: ls_def len)
  ultimately show thesis by (intro that [of order rs ls])
qed

text \<open>The mutex never blocks all threads.\<close>

lemma guarded_progress:
  assumes "rtranclp guard_step (None, s0, not_begun cs) (m, s, ts)" "\<not> (\<forall>t \<in> set ts. \<exists>l. t = Through l)"
  shows "\<exists>c. guard_step (m, s, ts) c"
proof -
  obtain order s' rs where I: "serialised cs s0 (m, s, ts) order s' rs" using serialised_reachable [OF assms(1)] by blast
  show ?thesis
  proof (cases m)
    case (Some j)
    then obtain fs l where j: "j < length ts" "ts ! j = Holding fs l" using I by (auto simp: serialised_def)
    show ?thesis
    proof (cases fs)
      case Nil
      then show ?thesis using guard_step.leave [of j ts] j by blast
    next
      case (Cons f fs')
      obtain s1 l1 where "f s l = (s1, l1)" by force
      then show ?thesis using guard_step.work [of j ts f fs' l s] j Cons by blast
    qed
  next
    case None
    obtain i where i: "i < length ts" "\<nexists>l. ts ! i = Through l" using assms(2) by (metis in_set_conv_nth)
    then have "i < length cs" using I by (simp add: serialised_def)
    moreover from this have "i \<notin> set order" using i(2) serialised_through [OF I] by blast
    ultimately have "ts ! i = not_begun cs ! i" using I None by (simp add: serialised_def)
    then obtain b l where c: "ts ! i = Calling b l" using \<open>i < length cs\<close> by (cases "cs ! i") (simp add: not_begun_def)
    have "LockGuard_construct i m = Some (Some i)" using None by (simp add: LockGuard_construct_def)
    from guard_step.enter [OF i(1) c this] show ?thesis by blast
  qed
qed

section \<open>Threads in one memory manager\<close>

text \<open>A body, however it is split, that does what \<open>allocate\<close> does; \<open>res\<close> is its result in its variables.\<close>

definition allocates :: "('l \<Rightarrow> u64 res) \<Rightarrow> u64 \<Rightarrow> (mem_manager, 'l) body \<Rightarrow> bool" where
  "allocates res n b \<longleftrightarrow> (\<forall>s l. case run_body b s l of (s1, l1) \<Rightarrow>
     (case mm_allocate n s of
        Inl e \<Rightarrow> s1 = s \<and> res l1 = Inl e
      | Inr (p, s2) \<Rightarrow> s1 = s2 \<and> res l1 = Inr p))"

definition allocated :: "('l \<Rightarrow> u64 res) \<Rightarrow> u64 list \<Rightarrow> (nat \<times> 'l) list \<Rightarrow> (u64 \<times> u64) set" where
  "allocated res ns rs = {(p, ns ! i) | i p. \<exists>l. (i, l) \<in> set rs \<and> res l = Inr p}"

lemma allocated_Cons:
  "allocated res ns ((i, l) # rs) = (case res l of Inl e \<Rightarrow> {} | Inr p \<Rightarrow> {(p, ns ! i)}) \<union> allocated res ns rs"
  by (auto simp: allocated_def split: sum.split)

lemma serial_allocations:
  assumes "\<forall>i < length cs. allocates res (ns ! i) (fst (cs ! i)) \<and> 0 < ns ! i"
  shows "run_serial cs order s = (s1, rs) \<Longrightarrow> set order \<subseteq> {..<length cs} \<Longrightarrow> mm_inv a e s \<Longrightarrow>
    mm_inv a e s1 \<and> mm_live s1 = mm_live s \<union> allocated res ns rs \<and>
    (\<forall>(p, n) \<in> allocated res ns rs. \<forall>(q, k) \<in> mm_live s. region p n \<inter> region q k = {}) \<and>
    (\<forall>x \<in> set rs. \<forall>y \<in> set rs. fst x \<noteq> fst y \<longrightarrow> (\<forall>p q. res (snd x) = Inr p \<longrightarrow> res (snd y) = Inr q \<longrightarrow>
       region p (ns ! fst x) \<inter> region q (ns ! fst y) = {}))"
proof (induction order arbitrary: s rs)
  case (Cons i order)
  obtain s2 l where b: "run_body (fst (cs ! i)) s (snd (cs ! i)) = (s2, l)" by force
  obtain s3 rs' where r: "run_serial cs order s2 = (s3, rs')" by force
  have rs: "s1 = s3" "rs = (i, l) # rs'" using Cons.prems(1) b r by simp_all
  have i: "allocates res (ns ! i) (fst (cs ! i))" "0 < ns ! i" using assms Cons.prems(2) by simp_all
  show ?case
  proof (cases "mm_allocate (ns ! i) s")
    case (Inl ex)
    then have "s2 = s" "res l = Inl ex" using i(1) [unfolded allocates_def, rule_format, of s "snd (cs ! i)"] b by simp_all
    then show ?thesis using Cons.IH [OF r [folded rs(1)]] Cons.prems rs by (auto simp: allocated_Cons)
  next
    case (Inr ps)
    obtain p s2' where ps: "ps = (p, s2')" by force
    then have l: "s2 = s2'" "res l = Inr p"
      using i(1) [unfolded allocates_def, rule_format, of s "snd (cs ! i)"] b Inr by simp_all
    have al: "mm_allocate (ns ! i) s = Inr (p, s2)" using Inr ps l by simp
    note A = mm.alloc_inv [OF Cons.prems(3) i(2) al] mm.alloc_live [OF Cons.prems(3) i(2) al]
      mm.alloc_fresh [OF Cons.prems(3) i(2) al]
    have "set order \<subseteq> {..<length cs}" using Cons.prems(2) by simp
    note I = Cons.IH [OF r [folded rs(1)] this A(1)]
    note IH = I [THEN conjunct1] I [THEN conjunct2, THEN conjunct1]
    have fresh: "region p n \<inter> region q k = {}" if "(p, n) \<in> allocated res ns rs'" "(q, k) \<in> mm_live s2" for p n q k
      using I [THEN conjunct2, THEN conjunct2, THEN conjunct1] that by fast
    note apart = I [THEN conjunct2, THEN conjunct2, THEN conjunct2]
    have new: "region q (ns ! j) \<inter> region p (ns ! i) = {}" "region p (ns ! i) \<inter> region q (ns ! j) = {}"
      if "(j, l') \<in> set rs'" "res l' = Inr q" for j l' q
      using fresh [of q "ns ! j" p "ns ! i"] A(2) that by (auto simp: allocated_def)
    show ?thesis unfolding rs(2)
    proof (intro conjI)
      show "mm_inv a e s1" by (rule IH(1))
      show "mm_live s1 = mm_live s \<union> allocated res ns ((i, l) # rs')" using IH(2) A(2) l by (auto simp: allocated_Cons)
      show "\<forall>(p, n) \<in> allocated res ns ((i, l) # rs'). \<forall>(q, k) \<in> mm_live s. region p n \<inter> region q k = {}"
        using fresh A(2,3) l by (fastforce simp: allocated_Cons)
      show "\<forall>x \<in> set ((i, l) # rs'). \<forall>y \<in> set ((i, l) # rs'). fst x \<noteq> fst y \<longrightarrow> (\<forall>p q. res (snd x) = Inr p \<longrightarrow>
          res (snd y) = Inr q \<longrightarrow> region p (ns ! fst x) \<inter> region q (ns ! fst y) = {})"
        using apart new l by (simp add: Ball_def)
    qed
  qed
qed (simp add: allocated_def)

text \<open>
  Property C29: threads that call \<open>allocate\<close> of one memory manager at the same time, each under its
  guard and split into steps in any way.  As long as not all have returned, some thread can go on;
  when all have, every one has an address or \<open>std::bad_alloc\<close>, the regions handed out are apart from
  each other and from all that were live, exactly they have become live, and the manager's blocks
  still tile the segment.
\<close>

theorem concurrent_allocations:
  assumes i: "mm_inv a e s0" and n: "length ns = length cs" "0 \<notin> set ns"
    and b: "\<forall>i < length cs. allocates res (ns ! i) (fst (cs ! i))"
    and run: "rtranclp guard_step (None, s0, not_begun cs) (m, s, ts)"
  shows "(\<exists>c. guard_step (m, s, ts) c) \<or>
    (\<exists>rs. length rs = length cs \<and> ts = map Through rs \<and> mm_inv a e s \<and>
       mm_live s = mm_live s0 \<union> {(p, ns ! i) | i p. i < length cs \<and> res (rs ! i) = Inr p} \<and>
       (\<forall>i < length cs. \<forall>p. res (rs ! i) = Inr p \<longrightarrow>
          (\<forall>(q, k) \<in> mm_live s0. region p (ns ! i) \<inter> region q k = {}) \<and>
          (\<forall>j < length cs. \<forall>q. i \<noteq> j \<longrightarrow> res (rs ! j) = Inr q \<longrightarrow> region p (ns ! i) \<inter> region q (ns ! j) = {})))"
proof (cases "\<forall>t \<in> set ts. \<exists>l. t = Through l")
  case False
  then show ?thesis using guarded_progress [OF run] by blast
next
  case True
  obtain order rs ls where o: "distinct order" "set order = {..<length cs}" "run_serial cs order s0 = (s, rs)"
    "length ls = length cs" "ts = map Through ls" "set rs = {(i, ls ! i) | i. i < length cs}"
    by (rule guarded_calls_serialise [OF run True])
  have "\<forall>i < length cs. allocates res (ns ! i) (fst (cs ! i)) \<and> 0 < ns ! i"
    using b n by (metis nth_mem word_neq_0_conv)
  note S = serial_allocations [OF this o(3) _ i, unfolded o(2), OF subset_refl]
  have ls: "(i, ls ! i) \<in> set rs" if "i < length cs" for i using o(6) that by blast
  have al: "allocated res ns rs = {(p, ns ! i) | i p. i < length cs \<and> res (ls ! i) = Inr p}"
    by (simp add: allocated_def o(6))
  show ?thesis
  proof (intro disjI2 exI [of _ ls] conjI)
    show "length ls = length cs" "ts = map Through ls" using o(4,5) by simp_all
    show "mm_inv a e s" by (rule conjunct1 [OF S])
    show "mm_live s = mm_live s0 \<union> {(p, ns ! i) | i p. i < length cs \<and> res (ls ! i) = Inr p}"
      using S al by simp
    show "\<forall>i < length cs. \<forall>p. res (ls ! i) = Inr p \<longrightarrow>
          (\<forall>(q, k) \<in> mm_live s0. region p (ns ! i) \<inter> region q k = {}) \<and>
          (\<forall>j < length cs. \<forall>q. i \<noteq> j \<longrightarrow> res (ls ! j) = Inr q \<longrightarrow> region p (ns ! i) \<inter> region q (ns ! j) = {})"
    proof (intro allI impI conjI)
      fix i p assume ip: "i < length cs" "res (ls ! i) = Inr p"
      then have "(p, ns ! i) \<in> allocated res ns rs" using al by blast
      then show "\<forall>(q, k) \<in> mm_live s0. region p (ns ! i) \<inter> region q k = {}"
        using S [THEN conjunct2, THEN conjunct2, THEN conjunct1] by fast
      fix j q assume "j < length cs" "i \<noteq> j" "res (ls ! j) = Inr q"
      then show "region p (ns ! i) \<inter> region q (ns ! j) = {}"
        using S [THEN conjunct2, THEN conjunct2, THEN conjunct2, THEN bspec, OF ls [of i], THEN bspec, OF _ ls [of j]] ip
        by simp
    qed
  qed
qed

text \<open>The body split between the search and the change of the list.\<close>

definition split_allocate :: "u64 \<Rightarrow> (mem_manager, (u64 \<times> mem_manager) res) body" where
  "split_allocate n = [\<lambda>s l. (s, mm_allocate n s), \<lambda>s l. case l of Inl e \<Rightarrow> (s, l) | Inr (p, s1) \<Rightarrow> (s1, l)]"

lemma split_allocates: "allocates (map_sum id fst) n (split_allocate n)"
  by (auto simp: allocates_def split_allocate_def split: sum.split)

lemma guarded_alone:
  assumes "i < length ts" "ts ! i = Calling b l" "run_body b s l = (s1, l1)"
  shows "rtranclp guard_step (None, s, ts) (None, s1, ts[i := Through l1])"
proof -
  have body: "run_body b s l = (s1, l1) \<Longrightarrow> i < length us \<Longrightarrow>
      rtranclp guard_step (Some i, s, us[i := Holding b l]) (None, s1, us[i := Through l1])" for us
  proof (induction b arbitrary: s l us)
    case Nil
    then have "guard_step (Some i, s, us[i := Holding [] l]) (LockGuard_destroy (Some i), s, us[i := Holding [] l, i := Through l])"
      by (intro guard_step.leave) simp_all
    then show ?case using Nil by (simp add: LockGuard_destroy_def r_into_rtranclp)
  next
    case (Cons f b)
    obtain s2 l2 where f: "f s l = (s2, l2)" by force
    have "guard_step (Some i, s, us[i := Holding (f # b) l]) (Some i, s2, us[i := Holding (f # b) l, i := Holding b l2])"
      using f Cons.prems by (intro guard_step.work [of i "us[i := Holding (f # b) l]" f b l s s2 l2 "Some i"]) simp_all
    then have "guard_step (Some i, s, us[i := Holding (f # b) l]) (Some i, s2, us[i := Holding b l2])" by simp
    moreover have "rtranclp guard_step (Some i, s2, us[i := Holding b l2]) (None, s1, us[i := Through l1])"
      using Cons f by simp
    ultimately show ?case by (rule converse_rtranclp_into_rtranclp)
  qed
  have "guard_step (None, s, ts) (Some i, s, ts[i := Holding b l])"
    using assms by (intro guard_step.enter) (simp_all add: LockGuard_construct_def)
  with body [OF assms(3,1)] show ?thesis by (rule converse_rtranclp_into_rtranclp [rotated])
qed

theorem concurrent_allocations_witness:
  "\<exists>s l0 l1. rtranclp guard_step (None, mm_example, not_begun [(split_allocate 100, Inl BadAlloc), (split_allocate 24, Inl BadAlloc)])
       (None, s, [Through l0, Through l1]) \<and> map_sum id fst l0 = Inr 4120 \<and> map_sum id fst l1 = Inr 4096 \<and>
     mm_live s = {(4120, 100), (4096, 24)}"
proof -
  let ?cs = "[(split_allocate 100, Inl BadAlloc), (split_allocate 24, Inl BadAlloc)]"
  obtain s1 l1 where r1: "run_body (split_allocate 24) mm_example (Inl BadAlloc) = (s1, l1)" by force
  obtain s l0 where r0: "run_body (split_allocate 100) s1 (Inl BadAlloc) = (s, l0)" by force
  have v: "map_sum id fst l0 = Inr 4120" "map_sum id fst l1 = Inr 4096"
    using r0 r1 by (auto simp: split_allocate_def mm_example_def mm_construct_def mm_allocate_def word_less_nat_alt word_le_nat_alt)
  have "rtranclp guard_step (None, mm_example, not_begun ?cs) (None, s1, (not_begun ?cs)[1 := Through l1])"
    by (rule guarded_alone [OF _ _ r1]) (simp_all add: not_begun_def)
  also have "rtranclp guard_step (None, s1, (not_begun ?cs)[1 := Through l1]) (None, s, (not_begun ?cs)[1 := Through l1, 0 := Through l0])"
    by (rule guarded_alone [OF _ _ r0]) (simp_all add: not_begun_def)
  finally have run: "rtranclp guard_step (None, mm_example, not_begun ?cs) (None, s, [Through l0, Through l1])"
    by (simp add: not_begun_def)
  have stuck: "\<not> guard_step (None, s, [Through l0, Through l1]) c" for c
    by (auto elim!: guard_step.cases simp: less_Suc_eq nth_Cons')
  have bodies: "\<forall>i < length ?cs. allocates (map_sum id fst) ([100, 24] ! i) (fst (?cs ! i))"
    by (simp add: less_Suc_eq split_allocates)
  have sizes: "length [100, 24] = length ?cs" "0 \<notin> set [100, 24 :: u64]" by simp_all
  have "mm_live s = {(4120, 100), (4096, 24)}"
    using concurrent_allocations [OF mm_example_inv sizes bodies run]
  proof (elim disjE exE conjE)
    fix c assume "guard_step (None, s, [Through l0, Through l1]) c"
    then show ?thesis using stuck by blast
  next
    fix rs assume rs: "[Through l0, Through l1] = map Through rs"
      and live: "mm_live s = mm_live mm_example \<union> {(p, [100, 24] ! i) | i p. i < length ?cs \<and> map_sum id fst (rs ! i) = Inr p}"
    have "rs = [l0, l1]" using rs by auto
    moreover have "mm_live mm_example = {}" by (simp add: mm_example_def mm_construct_def mm_live_def live_Cons)
    ultimately show ?thesis using v live by (auto simp: less_Suc_eq intro: exI [of _ 0] exI [of _ "Suc 0"])
  qed
  then show ?thesis using run v by blast
qed

section \<open>ScopedAllocation\<close>

record scoped_allocation =
  sa_g_pointer :: u64
  sa_count :: u64

definition scoped_construct :: "u64 \<Rightarrow> u64 \<Rightarrow> (segment_manager, scoped_allocation) act" where
  "scoped_construct sizeof_T count =
     act_bind (allocator_allocate sizeof_T count) (\<lambda>p. act_return \<lparr>sa_g_pointer = p, sa_count = count\<rparr>)"

definition scoped_destroy :: "u64 \<Rightarrow> scoped_allocation \<Rightarrow> (segment_manager, unit) act" where
  "scoped_destroy sizeof_T A = allocator_deallocate sizeof_T (sa_g_pointer A) (sa_count A)"

text \<open>\<open>operator[]\<close> takes an \<open>int\<close>: the address of the element.\<close>

definition scoped_index :: "u64 \<Rightarrow> scoped_allocation \<Rightarrow> 32 word \<Rightarrow> u64" where
  "scoped_index sizeof_T A index = sa_g_pointer A + scast index * sizeof_T"

text \<open>The scope restores the manager, and the elements lie in the region that was allocated.\<close>

lemma scoped_allocation_restores:
  assumes i: "mm_inv a e (sm_memoryManager M)" and c: "scoped_construct sizeof_T count M = (Inr A, M1)"
    and n: "0 < unat count * unat sizeof_T" "unat count * unat sizeof_T < 2 ^ 64"
  shows "scoped_destroy sizeof_T A M1 = (Inr (), M)"
proof -
  have z: "unat (count * sizeof_T) = unat count * unat sizeof_T" using n(2) by (simp add: unat_word_ariths)
  then have pos: "0 < count * sizeof_T" using n(1) by (simp add: word_less_nat_alt z)
  obtain p mm where al: "mm_allocate (count * sizeof_T) (sm_memoryManager M) = Inr (p, mm)"
    and A: "A = \<lparr>sa_g_pointer = p, sa_count = count\<rparr>" "M1 = M\<lparr>sm_memoryManager := mm\<rparr>"
    using c by (auto simp: scoped_construct_def act_bind_eq_Inr allocator_allocate_def split: sum.splits)
  have "mm_deallocate p (count * sizeof_T) mm = Inr (sm_memoryManager M)" by (rule mm.dealloc_undo [OF i pos al])
  then show ?thesis using A by (simp add: scoped_destroy_def allocator_deallocate_def)
qed

lemma scoped_index_inside:
  assumes i: "mm_inv a e (sm_memoryManager M)" and c: "scoped_construct sizeof_T count M = (Inr A, M1)"
    and n: "0 < unat sizeof_T" "unat count * unat sizeof_T < 2 ^ 64" and k: "unat k < 2 ^ 31" "unat k < unat count"
  shows "region (scoped_index sizeof_T A k) sizeof_T \<subseteq> region (sa_g_pointer A) (count * sizeof_T)"
proof -
  have z: "unat (count * sizeof_T) = unat count * unat sizeof_T" using n(2) by (simp add: unat_word_ariths)
  have "0 < unat count * unat sizeof_T" using n(1) k(2) by simp
  then have pos: "0 < count * sizeof_T" by (simp add: word_less_nat_alt z)
  obtain p mm where al: "mm_allocate (count * sizeof_T) (sm_memoryManager M) = Inr (p, mm)"
    and A: "A = \<lparr>sa_g_pointer = p, sa_count = count\<rparr>"
    using c by (auto simp: scoped_construct_def act_bind_eq_Inr allocator_allocate_def split: sum.splits)
  have bi: "blocks_inv a e (mm_blocks (sm_memoryManager M))" using i by (simp add: mm_inv_def)
  have bound: "unat p + unat count * unat sizeof_T \<le> 2 ^ 64"
    using first_fit_live(3) [OF bi mm_allocate_Inr [OF i pos al] pos] bi z by (simp add: blocks_inv_def)
  note j = scast_small32 [OF k(1)]
  have le: "unat k * unat sizeof_T + unat sizeof_T \<le> unat count * unat sizeof_T"
    using k(2) by (metis Suc_leI add.commute mult_Suc mult_le_mono1)
  then have "unat (scoped_index sizeof_T A k) = unat p + unat k * unat sizeof_T"
    using bound n A by (simp add: scoped_index_def unat_word_ariths j)
  then show ?thesis using le z A by (auto simp: region_def)
qed

end
