(* ===== verification/Spec2Isabelle.thy ===== *)
theory Spec2Isabelle
  imports
    Memory_Manager
    Notification_Manager
    Group_Ranks
    Serialization_Laws
    Allreduce_Ring_Props
    Allgatherv_Ring_Props
    Broadcast_SendToAll
    Doubling_Props Buffer_Ownership Communication_Context_Props Passive_Props Passive_Handoff
    Dissemination_Barrier Progress_Engine Blocking_Descriptions
    Filesystem Runtime_Props Front_Ends Transfer_Refinement Blocking_Call
    Passive_Thread Runtime_Directory Runtime_Shutdown Runtime_Wellformed Scoped_Guards
begin

text \<open>
  GaspiCxx is a C++ layer over GASPI, an interface for one-sided communication: a process writes
  into the memory of another and notifies it.  This development models the library under
  \<open>src/src\<close> and \<open>src/include/GaspiCxx\<close> and proves what its parts promise.

  \<^bold>\<open>The program and its theories.\<close>

  Data and resources of one process.
  \<^item> \<open>Gaspi_Prelude\<close>: machine integers as words (\<open>size_t\<close> and addresses 64 bits, ranks 16, segment
    and queue identifiers 8 in the GASPI calls), exceptions as the left values of a sum.
  \<^item> \<open>Block_List\<close>, \<open>Memory_Manager\<close>, \<open>Notification_Manager\<close>: \<open>segment/MemoryManager.cpp\<close> and
    \<open>segment/NotificationManager.cpp\<close>.  Both keep a list of blocks, free or live, that tiles a range;
    the list and its tiling invariant are shared.
  \<^item> \<open>Group_Ranks\<close>: \<open>group/Rank\<close>, \<open>group/Utilities\<close>, \<open>group/Group\<close>.
  \<^item> \<open>Serialization\<close>, \<open>Serialization_Laws\<close>: \<open>utility/serialization\<close>; an overload is a \<open>codec\<close>
    record, its contract the locale \<open>codec_laws\<close>, interpreted for the scalar types and preserved
    by every container.  \<open>Buffer_Description\<close>: \<open>singlesided/BufferDescription\<close>.
  \<^item> \<open>Gaspi_Api\<close>: the GASPI calls as a record of functions on a state of the library, and the
    \<open>GASPI_CHECK\<close> macros of \<open>utility/Macros.hpp\<close>.
  \<^item> \<open>Communication_Context\<close>, \<open>Communication_Context_Props\<close>: \<open>singlesided/Queue\<close>,
    \<open>SingleQueueContext\<close>, \<open>RoundRobinQueuesContext\<close>.
  \<^item> \<open>Segments\<close>, \<open>Segment_Props\<close>: \<open>segment/Segment\<close>, \<open>SegmentResource\<close>, \<open>SegmentManager\<close>,
    \<open>Allocator\<close> and the two segment pools.
  \<^item> \<open>Buffers\<close>, \<open>Buffer_Ownership\<close>, \<open>Endpoint_Connect\<close>: \<open>singlesided/Buffer\<close>, \<open>Endpoint\<close>,
    \<open>write/SourceBuffer\<close>, \<open>write/TargetBuffer\<close>: what they acquire, share and release, and how two
    endpoints exchange their descriptions.
  \<^item> \<open>Passive\<close>, \<open>Passive_Props\<close>, \<open>Passive_Handoff\<close>: \<open>passive/Passive\<close>: messages without a prior
    connection, the tables of tagged requests, the two-thread barriers.  \<open>Data_Messages\<close>: a data
    message from \<open>sendMessg\<close> to \<open>recvMessg\<close>.  \<open>Passive_Thread\<close>: the thread's loop, the lines it
    prints for an error message, \<open>finish\<close> and its join.
  \<^item> \<open>Gaspi_Runtime\<close>, \<open>Runtime_Props\<close>, \<open>Runtime_Wellformed\<close>: \<open>Runtime\<close>, \<open>RuntimeConfiguration\<close>: the
    singleton and the parts it creates at their first use.  \<open>Runtime_Shutdown\<close>: its destructor, and
    the queues and segments taken and given back over its life.  \<open>Runtime_Directory\<close>:
    \<open>synchCurrentWorkingDirectory\<close>.  \<open>Runtime_Transfers\<close>: the overloads of endpoints and transfers
    that take segment or context from it.
  \<^item> \<open>Filesystem\<close>: \<open>utility/Filesystem\<close>.  \<open>Scoped_Guards\<close>: \<open>utility/LockGuard\<close>, with the steps of
    threads that call methods under a guard, and \<open>utility/ScopedAllocation\<close>.

  Collectives of all processes.
  \<^item> \<open>Collective_LowLevel\<close>: \<open>CollectiveLowLevel\<close>, the life cycle (initialised, ready, running,
    finished) of every non-blocking collective, over a record of the virtual functions.
  \<^item> \<open>Channel_Network\<close>, \<open>Collective_Run\<close>, \<open>Ring_Pipeline\<close>: the ranks, their memory and the
    transfers between them as one state; runs as a step relation; what several collectives share.
  \<^item> \<open>Transfer_Library\<close>, \<open>Transfer_Refinement\<close>: the link between the two levels.  The interface of
    \<open>CommunicationContext\<close> is the locale \<open>communication_context\<close>, interpreted for both contexts and the
    runtime's; a simulation relation shows that the operations of source and target buffers on the
    library refine those of the network, event by event.
  \<^item> \<open>Allreduce_Ring\<close>, \<open>Allreduce_Ring_Correct\<close>, \<open>Allreduce_Ring_Props\<close>; \<open>Allreduce_Doubling\<close>,
    \<open>Doubling_Correct\<close>, \<open>Doubling_Props\<close>; \<open>Allgatherv_Ring\<close>, \<open>Allgatherv_Ring_Props\<close>;
    \<open>Broadcast_Linear\<close>; \<open>Broadcast_SendToAll\<close>: the five algorithms of \<open>collectives_lowlevel\<close>, with
    their constructors' connections, copies, \<open>startImpl\<close> and \<open>triggerProgressImpl\<close>.
  \<^item> \<open>Progress_Engine\<close>: \<open>progress_engine/RoundRobinDedicatedThread\<close>, the thread that calls
    \<open>triggerProgress\<close> of all registered collectives.  \<open>Front_Ends\<close>: \<open>Allreduce\<close>, \<open>Allgatherv\<close>,
    \<open>Broadcast\<close>, which register a collective with an engine.
  \<^item> \<open>Dissemination_Barrier\<close>: \<open>collectives/Barrier\<close>.  \<open>Blocking_Exchange\<close>,
    \<open>Blocking_Exchange_Props\<close>, \<open>Blocking_Descriptions\<close>, \<open>Blocking_Resources\<close>, \<open>Blocking_Failure\<close>,
    \<open>Blocking_Call\<close>: \<open>collectives/Allgather.cpp\<close> and \<open>collectives/Alltoall.cpp\<close>: the loops of all
    ranks on the network, and the whole call of one rank, with the exceptions of everything it calls.

  \<^bold>\<open>How the state corresponds to the code.\<close>  A class is a record of its members, a method a function
  from the object (and the library's state) to a result and the new object.  A method that takes its
  object's mutex for its whole body is one step, as \<open>Scoped_Guards\<close> justifies; where the code reads or writes outside the mutex,
  or waits on a condition variable, the parts are steps of their own (\<open>rr_step\<close>, \<open>pool_step\<close>, the
  progress engine, the passive barriers).  An exception does not undo what was done before it; where
  the C++ code unwinds constructed members or buffers, the model does (\<open>act_on_error\<close>).  A shared
  allocation is an entry with its number of owners; segments are looked up by number where two
  references may name one object.  For the collectives the memory of a rank is a map from slots to
  values, a transfer in flight is a posted request, and the ranks run in any interleaving.

  \<^bold>\<open>What the lemmas show.\<close>  For the managers: first fit, disjointness, merging, every error branch.
  For the collectives: an invariant that relates what each rank has sent, received, acknowledged and
  seen acknowledged to the position of its program, from which follow the result on every finished
  rank, completion from every reachable state, and for the ring allreduce the number of effective
  steps and freedom from data races.  For the life cycle: one completion per start.  For the
  contexts: a request is posted exactly once.  For buffers and blocking collectives: nothing is
  leaked, released twice or shared by accident; threads that allocate at the same time get separate
  regions; a blocking collective that throws is shown to lose notifications, and how many.  For the
  passive component: what is sent is what is received, and the thread ends.  For
  the runtime, the engine and the front ends: which part exists when, that it is well formed, that the
  destructor gives back exactly what was taken, and that their threads make progress.  Theorems with
  \<open>reuse_race\<close>, \<open>pool_race\<close>, \<open>spurious\<close>, \<open>truncation\<close> or \<open>overflow\<close> in their names show inputs
  or interleavings on which the code does not do what it means to.

  \<^bold>\<open>Parameters and hypotheses.\<close>
  \<^item> The GASPI library.  \<open>gaspi_env\<close>: a posted write or notification is completed at some time, the
    data before its notification; \<open>gaspi_live\<close>: it can be completed.  \<open>queue_contract\<close>,
    \<open>fault_free\<close>: a post is accepted, finds the queue full, or fails; a wait makes room.
    \<open>segment_contract\<close>: the calls on segments agree with each other on address and size.
    \<open>library_contract\<close>: all processes' calls seen together, on the requests accepted and not yet
    completed, the notifications and the memory of all segments; requests may be completed during
    any call.  \<open>message_contract\<close>: what a process sends passively and writes is logged, other calls
    leave the log; \<open>gaspi_segment_memory\<close> is the memory with the writes of others after a wait.
    \<open>inbox_contract\<close>: messages are received in the order of their arrival.  \<open>resource_contract\<close>,
    \<open>runtime_contract\<close>: which calls create and delete queues and segments.
  \<^item> The iteration order of \<open>std::unordered_map\<close> (any that lists the table), the rounding to a power
    of two by \<open>std::pow\<close> and \<open>std::log2\<close>, \<open>getcwd\<close> and \<open>chdir\<close>.
  \<^item> \<open>std::condition_variable\<close> and pthread conditions may wake up spuriously unless a theorem says
    otherwise.

  \<^bold>\<open>Bounds and fuel.\<close>  Loops that may not end are \<open>partial_function\<close>s into \<open>option\<close>: the retry loops
  of the contexts, which are proved to return (after one flush, or one change of queue), and the
  passive thread's, which is proved to end when \<open>finish\<close> is called.  The loop of
  \<open>waitForCompletion\<close> takes fuel, a number of polls; it is proved to return as soon as the collective
  reports completion, and completion is proved of each collective.  Theorems on the barrier need
  groups of at most \<open>2 ^ 15\<close> ranks, since the code adds two 16-bit ranks; theorems on offsets need
  sums below \<open>2 ^ 64\<close>, and where the code's own sums wrap earlier a theorem shows it.

  \<^bold>\<open>Not modelled.\<close>
  \<^item> \<open>src/src/collectives/Environment.cpp\<close> and \<open>.hpp\<close>: not part of the build.
  \<^item> The attributes the passive thread is created with, and the streams errors are printed to.
  \<^item> Printing operators, overloads that pass on a vector's data pointer, Python bindings, examples,
    tests and benchmarks.
\<close>

end
